(* ===== verification/Cix_Prelude.thy ===== *)
theory Cix_Prelude
  imports Main "HOL-Library.Monad_Syntax" "HOL-Library.Char_ord"
begin

text \<open>
  The vocabulary the component theories share.

  C strings are HOL strings: a \<open>char[N]\<close> field holds the bytes before its NUL, so a value
  that passed through \<open>snprintf(dst, N, "%s", src)\<close> is \<open>take (N - 1) src\<close>, and a buffer
  read as a C string is cut at its first NUL byte.  Decimal output (\<open>%d\<close>, \<open>%lld\<close>,
  \<open>%02d\<close>) and the digit tests of the parsers are here, with the facts that make printing
  and reading inverse to each other.  Fixed tables of slots (\<open>g_table\<close>, \<open>g_networks\<close>,
  \<open>g_jobs\<close>) are lists searched by \<open>find_index\<close>; the locale \<open>keyed_table\<close> states once
  what a lookup by key and a search for a free slot promise, and proves what every table
  module relies on: keys stay unique under insertion, update and removal.
\<close>

named_theorems cix_defs \<open>unfolding equations of the small C helpers\<close>

section \<open>C strings\<close>

text \<open>A buffer read as a C string ends at the first NUL.\<close>

definition NUL :: char where
  "NUL = CHR 0x00"

definition c_str :: "char list \<Rightarrow> string" where
  "c_str buf = takeWhile (\<lambda>c. c \<noteq> NUL) buf"

definition is_c_str :: "string \<Rightarrow> bool" where
  "is_c_str s = list_all (\<lambda>c. c \<noteq> NUL) s"

text \<open>\<open>snprintf(dst, n, "%s", s)\<close> into a destination of \<open>n\<close> bytes.\<close>

definition snprintf_s :: "nat \<Rightarrow> string \<Rightarrow> string" where
  "snprintf_s n s = take (n - 1) s"

lemma c_str_id [simp]: "is_c_str s \<Longrightarrow> c_str s = s"
  by (simp add: is_c_str_def c_str_def list_all_iff)

lemma is_c_str_c_str [simp]: "is_c_str (c_str s)"
  by (auto simp: is_c_str_def c_str_def list_all_iff dest: set_takeWhileD)

lemma is_c_str_Nil [simp]: "is_c_str []"
  by (simp add: is_c_str_def)

lemma is_c_str_Cons [simp]: "is_c_str (c # s) \<longleftrightarrow> c \<noteq> NUL \<and> is_c_str s"
  by (simp add: is_c_str_def)

lemma is_c_str_append [simp]: "is_c_str (s @ t) \<longleftrightarrow> is_c_str s \<and> is_c_str t"
  by (simp add: is_c_str_def)

lemma is_c_str_take [simp]: "is_c_str s \<Longrightarrow> is_c_str (take n s)"
  by (auto simp: is_c_str_def list_all_iff dest: in_set_takeD)

lemma snprintf_s_fits [simp]: "length s < n \<Longrightarrow> snprintf_s n s = s"
  by (simp add: snprintf_s_def)

lemma length_snprintf_s: "0 < n \<Longrightarrow> length (snprintf_s n s) < n"
  by (simp add: snprintf_s_def)

lemma is_c_str_snprintf_s [simp]: "is_c_str s \<Longrightarrow> is_c_str (snprintf_s n s)"
  by (simp add: snprintf_s_def)

section \<open>Decimal digits\<close>

definition is_digit :: "char \<Rightarrow> bool" where
  "is_digit c = (CHR ''0'' \<le> c \<and> c \<le> CHR ''9'')"

definition digit_val :: "char \<Rightarrow> nat" where
  "digit_val c = (of_char c :: nat) - 48"

definition digit_char :: "nat \<Rightarrow> char" where
  "digit_char n = char_of (48 + n)"


fun nat_dec :: "nat \<Rightarrow> string" where
  "nat_dec n = (if n < 10 then [digit_char n] else nat_dec (n div 10) @ [digit_char (n mod 10)])"

declare nat_dec.simps [simp del]

text \<open>\<open>%d\<close> and \<open>%lld\<close>.\<close>

definition int_dec :: "int \<Rightarrow> string" where
  "int_dec i = (if i < 0 then CHR ''-'' # nat_dec (nat (- i)) else nat_dec (nat i))"

text \<open>\<open>%02d\<close> of a non-negative number.\<close>

definition dec2 :: "nat \<Rightarrow> string" where
  "dec2 n = (if n < 10 then CHR ''0'' # nat_dec n else nat_dec n)"

fun digits_val :: "nat \<Rightarrow> string \<Rightarrow> nat" where
  "digits_val acc [] = acc"
| "digits_val acc (c # cs) = digits_val (acc * 10 + digit_val c) cs"

lemma is_digit_iff: "is_digit c \<longleftrightarrow> 48 \<le> (of_char c :: nat) \<and> (of_char c :: nat) \<le> 57"
  by (simp add: is_digit_def less_eq_char_def)

lemma of_char_digit_char [simp]: "n < 10 \<Longrightarrow> (of_char (digit_char n) :: nat) = 48 + n"
  by (simp add: digit_char_def)

lemma is_digit_digit_char [simp]: "n < 10 \<Longrightarrow> is_digit (digit_char n)"
  by (simp add: is_digit_iff)

lemma digit_val_digit_char [simp]: "n < 10 \<Longrightarrow> digit_val (digit_char n) = n"
  by (simp add: digit_val_def)

lemma digits_val_append: "digits_val acc (xs @ ys) = digits_val (digits_val acc xs) ys"
  by (induction xs arbitrary: acc) auto

lemma nat_dec_digits: "c \<in> set (nat_dec n) \<Longrightarrow> is_digit c"
  by (induction n rule: nat_dec.induct) (subst (asm) nat_dec.simps, auto split: if_splits)

lemma nat_dec_nonempty [simp]: "nat_dec n \<noteq> []"
  by (subst nat_dec.simps) simp

lemma digits_val_nat_dec [simp]: "digits_val 0 (nat_dec n) = n"
  by (induction n rule: nat_dec.induct) (subst nat_dec.simps, simp add: digits_val_append)

lemma length_nat_dec: "n < 10 ^ k \<Longrightarrow> 0 < k \<Longrightarrow> length (nat_dec n) \<le> k"
proof (induction k arbitrary: n)
  case (Suc k)
  show ?case
  proof (cases "n < 10")
    case True
    then show ?thesis by (subst nat_dec.simps) simp
  next
    case False
    from Suc.prems have "n div 10 < 10 ^ k" by (simp add: less_mult_imp_div_less mult.commute)
    moreover from this False have "0 < k" by (cases k) auto
    ultimately have "length (nat_dec (n div 10)) \<le> k" by (rule Suc.IH)
    with False show ?thesis by (subst nat_dec.simps) simp
  qed
qed simp

lemma digit_not_NUL: "is_digit c \<Longrightarrow> c \<noteq> NUL"
  by (auto simp: is_digit_iff NUL_def)

lemma is_c_str_nat_dec [simp]: "is_c_str (nat_dec n)"
  by (auto simp: is_c_str_def list_all_iff dest: nat_dec_digits digit_not_NUL)

lemma is_c_str_int_dec [simp]: "is_c_str (int_dec i)"
  by (simp add: int_dec_def NUL_def)

lemma int_dec_inject: "nat_dec m = nat_dec n \<longleftrightarrow> m = n"
  by (metis digits_val_nat_dec)

section \<open>Resource names (daemon/include/namecheck.h)\<close>

definition name_char :: "char \<Rightarrow> bool" where
  "name_char c = (CHR ''A'' \<le> c \<and> c \<le> CHR ''Z'' \<or> CHR ''a'' \<le> c \<and> c \<le> CHR ''z'' \<or>
     CHR ''0'' \<le> c \<and> c \<le> CHR ''9'' \<or> c = CHR ''_'' \<or> c = CHR ''-'')"

text \<open>A \<open>NULL\<close> pointer is \<open>None\<close>.\<close>

definition simple_name_is_valid :: "string option \<Rightarrow> nat \<Rightarrow> bool" where
  "simple_name_is_valid name max_len =
     (case name of None \<Rightarrow> False
      | Some s \<Rightarrow> s \<noteq> [] \<and> list_all name_char s \<and> length s < max_len)"

lemma name_char_not_NUL: "name_char c \<Longrightarrow> c \<noteq> NUL"
  by (auto simp: name_char_def NUL_def less_eq_char_def)

lemma simple_name_valid_facts:
  assumes "simple_name_is_valid (Some s) n"
  shows "s \<noteq> []" "length s < n" "is_c_str s"
  using assms
  by (auto simp: simple_name_is_valid_def is_c_str_def list_all_iff dest: name_char_not_NUL)

section \<open>Growing buffers\<close>

text \<open>The loop \<open>while (ncap < need) ncap *= 2\<close>, entered with a capacity that is not zero.\<close>

function double_until :: "nat \<Rightarrow> nat \<Rightarrow> nat" where
  "double_until ncap need = (if 0 < ncap \<and> ncap < need then double_until (ncap * 2) need else ncap)"
  by pat_completeness auto
termination
  by (relation "measure (\<lambda>(ncap, need). need - ncap)") auto

declare double_until.simps [simp del]

lemma double_until_enough: "0 < ncap \<Longrightarrow> need \<le> double_until ncap need"
  by (induction ncap need rule: double_until.induct) (subst double_until.simps, auto)

lemma double_until_pos: "0 < ncap \<Longrightarrow> 0 < double_until ncap need"
  by (induction ncap need rule: double_until.induct) (subst double_until.simps, auto)

section \<open>Fixed tables\<close>

text \<open>A counting loop that stops at the first slot satisfying a test.\<close>

fun find_index :: "('a \<Rightarrow> bool) \<Rightarrow> 'a list \<Rightarrow> nat option" where
  "find_index p [] = None"
| "find_index p (x # xs) = (if p x then Some 0 else map_option Suc (find_index p xs))"

lemma find_index_Some:
  "find_index p xs = Some i \<Longrightarrow> i < length xs \<and> p (xs ! i) \<and> (\<forall>j < i. \<not> p (xs ! j))"
proof (induction xs arbitrary: i)
  case (Cons x xs)
  show ?case
  proof (cases "p x")
    case False
    with Cons.prems obtain k where k: "find_index p xs = Some k" "i = Suc k" by auto
    from Cons.IH [OF k(1)] k(2) False show ?thesis by (auto simp: nth_Cons split: nat.splits)
  qed (use Cons.prems in auto)
qed simp

lemma find_index_None: "find_index p xs = None \<longleftrightarrow> (\<forall>x \<in> set xs. \<not> p x)"
  by (induction xs) auto

lemma find_index_cong:
  "length xs = length ys \<Longrightarrow> (\<And>i. i < length xs \<Longrightarrow> p (xs ! i) = q (ys ! i)) \<Longrightarrow>
     find_index p xs = find_index q ys"
proof (induction xs ys rule: list_induct2)
  case (Cons x xs y ys)
  from Cons.prems [of 0] have "p x = q y" by simp
  moreover have "find_index p xs = find_index q ys"
    using Cons.prems [of "Suc i" for i] by (intro Cons.IH) simp
  ultimately show ?case by simp
qed simp

definition keys_unique :: "('e \<Rightarrow> bool) \<Rightarrow> ('e \<Rightarrow> 'k) \<Rightarrow> 'e list \<Rightarrow> bool" where
  "keys_unique used key t =
     (\<forall>i < length t. \<forall>j < length t. used (t ! i) \<and> used (t ! j) \<and> key (t ! i) = key (t ! j) \<longrightarrow> i = j)"

lemma keys_uniqueD:
  "keys_unique used key t \<Longrightarrow> i < length t \<Longrightarrow> j < length t \<Longrightarrow> used (t ! i) \<Longrightarrow> used (t ! j) \<Longrightarrow>
     key (t ! i) = key (t ! j) \<Longrightarrow> i = j"
  by (simp add: keys_unique_def)

locale keyed_table =
  fixes used :: "'e \<Rightarrow> bool"
    and key :: "'e \<Rightarrow> 'k"
    and find :: "'e list \<Rightarrow> 'k \<Rightarrow> nat option"
    and free :: "'e list \<Rightarrow> nat option"
  assumes find_SomeD: "find t k = Some i \<Longrightarrow> i < length t \<and> used (t ! i) \<and> key (t ! i) = k"
    and find_NoneD: "find t k = None \<Longrightarrow> i < length t \<Longrightarrow> used (t ! i) \<Longrightarrow> key (t ! i) \<noteq> k"
    and free_SomeD: "free t = Some i \<Longrightarrow> i < length t \<and> \<not> used (t ! i)"
    and free_NoneD: "free t = None \<Longrightarrow> i < length t \<Longrightarrow> used (t ! i)"
begin

text \<open>With unique keys a lookup finds the one slot that holds the key.\<close>

lemma find_unique:
  assumes "keys_unique used key t" "i < length t" "used (t ! i)"
  shows "find t (key (t ! i)) = Some i"
proof (cases "find t (key (t ! i))")
  case None
  with find_NoneD [OF None assms(2,3)] show ?thesis by simp
next
  case (Some j)
  with find_SomeD [OF Some] assms show ?thesis by (auto dest: keys_uniqueD)
qed

text \<open>Overwriting a slot keeps keys unique when no other used slot has the new key.\<close>

lemma unique_update:
  assumes "keys_unique used key t" "i < length t"
    and "used e \<Longrightarrow> find t (key e) = None \<or> (used (t ! i) \<and> key (t ! i) = key e)"
  shows "keys_unique used key (t[i := e])"
  unfolding keys_unique_def
proof (intro allI impI)
  fix a b
  assume ab: "a < length (t[i := e])" "b < length (t[i := e])"
    and h: "used (t[i := e] ! a) \<and> used (t[i := e] ! b) \<and> key (t[i := e] ! a) = key (t[i := e] ! b)"
  have other: "j = i" if "j < length t" "used (t ! j)" "key (t ! j) = key e" "used e" for j
    using assms(3) [OF that(4)] find_NoneD that assms(1,2) keys_uniqueD by metis
  show "a = b"
  proof (cases "a = i \<or> b = i")
    case True
    with ab h assms(2) show ?thesis by (auto simp: nth_list_update split: if_splits dest: other)
  next
    case False
    with ab h assms(1) show ?thesis by (auto dest: keys_uniqueD)
  qed
qed

lemma unique_insert:
  "keys_unique used key t \<Longrightarrow> free t = Some i \<Longrightarrow> find t (key e) = None \<Longrightarrow> keys_unique used key (t[i := e])"
  using free_SomeD by (intro unique_update) auto

lemma find_after_update:
  assumes "keys_unique used key t" "i < length t" "used e"
    and "find t (key e) = None \<or> (used (t ! i) \<and> key (t ! i) = key e)"
  shows "find (t[i := e]) (key e) = Some i"
  using find_unique [OF unique_update [OF assms(1,2)], of e i] assms by simp

text \<open>A write to one slot is not seen by the lookup of another key.\<close>

lemma find_frame:
  assumes "keys_unique used key t" "i < length t"
    and "used e \<Longrightarrow> find t (key e) = None \<or> (used (t ! i) \<and> key (t ! i) = key e)"
    and "used e \<Longrightarrow> key e \<noteq> k" "used (t ! i) \<Longrightarrow> key (t ! i) \<noteq> k"
  shows "find (t[i := e]) k = find t k"
proof (cases "find t k")
  case None
  have "find (t[i := e]) k \<noteq> Some j" for j
    using find_SomeD [of "t[i := e]" k j] find_NoneD [OF None] assms(4) by (cases "j = i") auto
  with None show ?thesis by (metis option.exhaust)
next
  case (Some j)
  with find_SomeD [OF Some] assms(5) have j: "j < length t" "used (t ! j)" "key (t ! j) = k" "j \<noteq> i"
    by auto
  then have "find (t[i := e]) (key (t[i := e] ! j)) = Some j"
    using unique_update [OF assms(1,2,3)] by (intro find_unique) auto
  with j Some show ?thesis by simp
qed

end

text \<open>Every table of the daemon is searched by the two counting loops below.\<close>

lemma find_index_keyed_table:
  "keyed_table used key (\<lambda>t k. find_index (\<lambda>e. used e \<and> key e = k) t) (find_index (\<lambda>e. \<not> used e))"
  by unfold_locales (auto dest!: find_index_Some simp: find_index_None)

end
