(* ===== verification/Cix_Double.thy ===== *)
theory Cix_Double
  imports Cix_Prelude Complex_Main "HOL-Library.Log_Nat"
begin

text \<open>
  The C \<open>double\<close> of \<open>struct json_value\<close>, as IEEE 754 binary64: a finite value is an exact
  rational, an overflowed one an infinity with its sign.  Conversions round to nearest, ties to
  even, with 53 significant bits and gradual underflow at \<open>2^-1074\<close>.  The two zeros are one
  value here (nothing in the program tells them apart), and there is no NaN: no token the
  parser hands to \<open>strtod\<close> denotes one.

  The operations the source uses are \<open>strtod\<close> on a number token, the casts to \<open>int\<close> and
  \<open>long long\<close> (truncation; out of range the x86-64 conversion instruction yields the most
  negative value, where the C standard leaves the cast undefined), the cast from \<open>long long\<close>,
  and \<open>%.2f\<close>.  The lemmas show that rounding lands on a representable value and leaves
  representable values alone, so a double printed exactly reads back as itself.
\<close>

datatype double = DFin rat | DInf bool

definition pow2 :: "int \<Rightarrow> rat" where
  "pow2 e = (if 0 \<le> e then 2 ^ nat e else 1 / 2 ^ nat (- e))"

text \<open>The binary exponent: the largest \<open>k\<close> with \<open>2^k \<le> r\<close>.\<close>

definition ilog2 :: "rat \<Rightarrow> int" where
  "ilog2 r = (if 1 \<le> r then int (floorlog 2 (nat \<lfloor>r\<rfloor>)) - 1
              else - int (floorlog 2 (nat (\<lceil>1 / r\<rceil> - 1))))"

definition round_even :: "rat \<Rightarrow> int" where
  "round_even r = (let f = \<lfloor>r\<rfloor>; d = r - of_int f in
     if d < 1 / 2 then f else if 1 / 2 < d then f + 1 else if even f then f else f + 1)"

definition rnd_double :: "rat \<Rightarrow> double" where
  "rnd_double r = (if r = 0 then DFin 0 else
     let e = max (ilog2 \<bar>r\<bar> - 52) (- 1074);
         v = of_int (round_even (r / pow2 e)) * pow2 e
     in if 2 ^ 1024 \<le> \<bar>v\<bar> then DInf (r < 0) else DFin v)"

text \<open>The values a \<open>double\<close> object can hold.\<close>

fun is_double :: "double \<Rightarrow> bool" where
  "is_double (DFin r) = (rnd_double r = DFin r)"
| "is_double (DInf _) = True"

definition trunc_rat :: "rat \<Rightarrow> int" where
  "trunc_rat r = (if 0 \<le> r then \<lfloor>r\<rfloor> else \<lceil>r\<rceil>)"

definition LLONG_MIN :: int where "LLONG_MIN = - (2 ^ 63)"
definition LLONG_MAX :: int where "LLONG_MAX = 2 ^ 63 - 1"
definition INT_MIN :: int where "INT_MIN = - (2 ^ 31)"
definition INT_MAX :: int where "INT_MAX = 2 ^ 31 - 1"

fun d2ll :: "double \<Rightarrow> int" where
  "d2ll (DFin r) = (if LLONG_MIN \<le> trunc_rat r \<and> trunc_rat r \<le> LLONG_MAX then trunc_rat r else LLONG_MIN)"
| "d2ll (DInf _) = LLONG_MIN"

fun d2i :: "double \<Rightarrow> int" where
  "d2i (DFin r) = (if INT_MIN \<le> trunc_rat r \<and> trunc_rat r \<le> INT_MAX then trunc_rat r else INT_MIN)"
| "d2i (DInf _) = INT_MIN"

definition ll2d :: "int \<Rightarrow> double" where
  "ll2d i = rnd_double (of_int i)"

text \<open>\<open>strtod\<close> on the strings of sign, digits, point and exponent that number tokens are.\<close>

definition exp_val :: "string \<Rightarrow> int" where
  "exp_val t = (case t of [] \<Rightarrow> 0
     | c # u \<Rightarrow> if c = CHR ''+'' then int (digits_val 0 (takeWhile is_digit u))
                else if c = CHR ''-'' then - int (digits_val 0 (takeWhile is_digit u))
                else int (digits_val 0 (takeWhile is_digit t)))"

definition pow10 :: "int \<Rightarrow> rat" where
  "pow10 e = (if 0 \<le> e then 10 ^ nat e else 1 / 10 ^ nat (- e))"

definition strtod :: "string \<Rightarrow> double" where
  "strtod s =
     (let neg = (case s of c # _ \<Rightarrow> c = CHR ''-'' | [] \<Rightarrow> False);
          s1 = (if neg then tl s else s);
          ip = takeWhile is_digit s1; s2 = dropWhile is_digit s1;
          point = (case s2 of c # _ \<Rightarrow> c = CHR ''.'' | [] \<Rightarrow> False);
          fp = (if point then takeWhile is_digit (tl s2) else []);
          s3 = (if point then dropWhile is_digit (tl s2) else s2);
          ex = (case s3 of c # t \<Rightarrow> if c = CHR ''e'' \<or> c = CHR ''E'' then exp_val t else 0 | [] \<Rightarrow> 0)
      in if ip @ fp = [] then DFin 0
         else rnd_double ((if neg then - 1 else 1) * of_nat (digits_val 0 (ip @ fp)) * pow10 (ex - int (length fp))))"

text \<open>\<open>snprintf("%.2f")\<close>, before the destination cuts it.\<close>

fun fmt_2f :: "double \<Rightarrow> string" where
  "fmt_2f (DFin r) = (let n = nat (round_even (\<bar>r\<bar> * 100)) in
     (if r < 0 then ''-'' else []) @ nat_dec (n div 100) @ ''.'' @ dec2 (n mod 100))"
| "fmt_2f (DInf neg) = (if neg then ''-inf'' else ''inf'')"

section \<open>Powers of two and the binary exponent\<close>

lemma pow2_powi: "pow2 e = 2 powi e"
  by (simp add: pow2_def power_int_def inverse_eq_divide power_one_over)

lemma pow2_pos [simp]: "0 < pow2 e"
  by (simp add: pow2_def)

lemma pow2_neq0 [simp]: "pow2 e \<noteq> 0"
  using pow2_pos [of e] by linarith

lemma pow2_add: "pow2 (a + b) = pow2 a * pow2 b"
  by (simp add: pow2_powi power_int_add)

lemma pow2_int [simp]: "pow2 (int n) = 2 ^ n"
  by (simp add: pow2_def)

lemma pow2_mono: "a \<le> b \<Longrightarrow> pow2 a \<le> pow2 b"
  by (simp add: pow2_powi power_int_increasing)

lemma pow2_less_iff: "pow2 a < pow2 b \<longleftrightarrow> a < b"
proof
  assume "pow2 a < pow2 b"
  then show "a < b" using pow2_mono [of b a] by linarith
qed (simp add: pow2_powi power_int_strict_increasing)

lemma pow_le_of_nat: "2 ^ a \<le> n \<Longrightarrow> (2 :: rat) ^ a \<le> of_nat n"
  by (metis of_nat_le_iff of_nat_numeral of_nat_power)

lemma of_nat_less_pow: "n < 2 ^ a \<Longrightarrow> of_nat n + 1 \<le> (2 :: rat) ^ a"
  by (metis Suc_leI of_nat_Suc of_nat_le_iff of_nat_numeral of_nat_power add.commute)

lemma ilog2_bounds_ge1:
  assumes "1 \<le> r"
  shows "pow2 (ilog2 r) \<le> r \<and> r < pow2 (ilog2 r + 1)"
proof -
  define n k where "n = nat \<lfloor>r\<rfloor>" and "k = floorlog 2 n"
  have n: "0 < n" using assms by (simp add: n_def)
  with floorlog_bounds [of n 2] have b: "2 ^ (k - 1) \<le> n" "n < 2 ^ k" by (auto simp: k_def)
  have k: "0 < k" using n b(2) by (cases k) auto
  have fl: "of_nat n \<le> r" "r < of_nat n + 1"
    using assms by (auto simp: n_def) linarith+
  have lo: "(2 ^ (k - 1) :: rat) \<le> r" using fl pow_le_of_nat [OF b(1)] by linarith
  have hi: "r < 2 ^ k" using fl of_nat_less_pow [OF b(2)] by linarith
  have e: "ilog2 r = int (k - 1)" "ilog2 r + 1 = int k"
    using assms k by (auto simp: ilog2_def n_def k_def)
  show ?thesis using lo hi by (simp add: e(2)) (simp add: e(1))
qed

lemma ilog2_bounds_less1:
  assumes "0 < r" "r < 1"
  shows "pow2 (ilog2 r) \<le> r \<and> r < pow2 (ilog2 r + 1)"
proof -
  define q n j where "q = 1 / r" and "n = nat (\<lceil>q\<rceil> - 1)" and "j = floorlog 2 n"
  have q: "1 < q" using assms by (simp add: q_def)
  then have n: "0 < n" by (simp add: n_def)
  with floorlog_bounds [of n 2] have b: "2 ^ (j - 1) \<le> n" "n < 2 ^ j" by (auto simp: j_def)
  have j: "0 < j" using n b(2) by (cases j) auto
  have cl: "q \<le> of_nat n + 1" "of_nat n < q" using n unfolding n_def by linarith+
  have hi: "q \<le> 2 ^ j" using cl of_nat_less_pow [OF b(2)] by linarith
  have lo: "2 ^ (j - 1) < q" using cl pow_le_of_nat [OF b(1)] by linarith
  have e: "ilog2 r = - int j" "ilog2 r + 1 = - int (j - 1)"
    using assms j by (auto simp: ilog2_def q_def n_def j_def)
  have p: "pow2 (- int n) = 1 / 2 ^ n" for n by (auto simp: pow2_def)
  have "1 / 2 ^ j \<le> r" using hi assms by (simp add: q_def field_simps)
  moreover have "r < 1 / 2 ^ (j - 1)" using lo assms by (simp add: q_def field_simps)
  moreover have "pow2 (ilog2 r) = 1 / 2 ^ j" by (simp only: e(1) p)
  moreover have "pow2 (ilog2 r + 1) = 1 / 2 ^ (j - 1)" by (simp only: e(2) p)
  ultimately show ?thesis by (simp only: simp_thms)
qed

lemma ilog2_bounds: "0 < r \<Longrightarrow> pow2 (ilog2 r) \<le> r \<and> r < pow2 (ilog2 r + 1)"
  using ilog2_bounds_ge1 ilog2_bounds_less1 by (cases "1 \<le> r") auto

lemma ilog2_less: "0 < r \<Longrightarrow> r < pow2 k \<Longrightarrow> ilog2 r < k"
  using ilog2_bounds [of r] pow2_less_iff order_le_less_trans by blast

section \<open>Rounding\<close>

lemma round_even_of_int [simp]: "round_even (of_int i) = i"
  by (simp add: round_even_def)

lemma round_even_bounds: "\<lfloor>r\<rfloor> \<le> round_even r \<and> round_even r \<le> \<lceil>r\<rceil>"
proof -
  have "\<lfloor>r\<rfloor> + 1 \<le> \<lceil>r\<rceil>" if "1 / 2 \<le> r - of_int \<lfloor>r\<rfloor>" using that by linarith
  moreover have "\<lfloor>r\<rfloor> \<le> \<lceil>r\<rceil>" by linarith
  ultimately show ?thesis by (auto simp: round_even_def Let_def)
qed

lemma round_even_abs_le:
  assumes "\<bar>r\<bar> \<le> of_int n"
  shows "\<bar>round_even r\<bar> \<le> n"
proof -
  have "\<lceil>r\<rceil> \<le> n" using assms by (simp add: ceiling_le_iff)
  moreover have "- n \<le> \<lfloor>r\<rfloor>" using assms by (simp add: le_floor_iff)
  ultimately show ?thesis using round_even_bounds [of r] by linarith
qed

text \<open>A dyadic rational with at most 53 significant bits is left alone.\<close>

lemma rnd_double_dyadic:
  assumes m: "\<bar>m\<bar> < 2 ^ 53" and e: "- 1074 \<le> e" and big: "\<bar>of_int m * pow2 e\<bar> < 2 ^ 1024"
  shows "rnd_double (of_int m * pow2 e) = DFin (of_int m * pow2 e)"
proof (cases "m = 0")
  case False
  define r where "r = of_int m * pow2 e"
  have r0: "r \<noteq> 0" using False by (simp add: r_def)
  have "\<bar>r\<bar> = of_int \<bar>m\<bar> * pow2 e" by (simp add: r_def abs_mult less_imp_le)
  also have "\<dots> < 2 ^ 53 * pow2 e"
  proof -
    have "(of_int \<bar>m\<bar> :: rat) < of_int (2 ^ 53)" using m by (simp only: of_int_less_iff)
    then show ?thesis by simp
  qed
  also have "\<dots> = pow2 (53 + e)" by (simp add: pow2_add) (simp add: pow2_def)
  finally have "ilog2 \<bar>r\<bar> < 53 + e" using r0 by (intro ilog2_less) auto
  define x where "x = max (ilog2 \<bar>r\<bar> - 52) (- 1074)"
  have xe: "x \<le> e" using \<open>ilog2 \<bar>r\<bar> < 53 + e\<close> e by (simp add: x_def)
  then obtain d where d: "e = x + int d" by (metis zle_iff_zadd)
  have rx: "r / pow2 x = of_int (m * 2 ^ d)" by (simp add: r_def d pow2_add)
  have "of_int (round_even (r / pow2 x)) * pow2 x = r"
    unfolding rx round_even_of_int by (simp add: r_def d pow2_add)
  moreover have "\<bar>r\<bar> < 2 ^ 1024" using big by (simp add: r_def)
  ultimately have "rnd_double r = DFin r"
    using r0 by (simp add: rnd_double_def x_def [symmetric])
  then show ?thesis by (simp add: r_def)
qed (simp add: rnd_double_def)

text \<open>Rounding always yields such a value, so it is idempotent.\<close>

lemma rnd_double_shape:
  assumes "rnd_double r = DFin v"
  shows "\<exists>m e. v = of_int m * pow2 e \<and> \<bar>m\<bar> < 2 ^ 53 \<and> - 1074 \<le> e \<and> \<bar>v\<bar> < 2 ^ 1024"
proof (cases "r = 0")
  case True
  with assms have "v = 0" by (simp add: rnd_double_def)
  then show ?thesis by (intro exI [of _ 0]) auto
next
  case False
  define x m where "x = max (ilog2 \<bar>r\<bar> - 52) (- 1074)" and "m = round_even (r / pow2 x)"
  from assms False have v: "v = of_int m * pow2 x" and big: "\<bar>v\<bar> < 2 ^ 1024"
    by (auto simp: rnd_double_def Let_def x_def [symmetric] m_def [symmetric] split: if_splits)
  have "\<bar>r\<bar> < pow2 (ilog2 \<bar>r\<bar> + 1)" using ilog2_bounds False by simp
  also have "\<dots> \<le> pow2 (53 + x)" by (rule pow2_mono) (simp add: x_def)
  also have "\<dots> = 2 ^ 53 * pow2 x" by (simp add: pow2_add) (simp add: pow2_def)
  finally have "\<bar>r\<bar> / pow2 x < 2 ^ 53" by (simp add: divide_less_eq)
  then have "\<bar>r / pow2 x\<bar> \<le> of_int (2 ^ 53)" by (simp add: abs_divide less_imp_le)
  then have m: "\<bar>m\<bar> \<le> 2 ^ 53" unfolding m_def by (rule round_even_abs_le)
  show ?thesis
  proof (cases "\<bar>m\<bar> = 2 ^ 53")
    case False
    with m have "\<bar>m\<bar> < 2 ^ 53" by (simp only: order_less_le simp_thms)
    moreover have "- 1074 \<le> x" by (simp only: x_def max.cobounded2)
    ultimately show ?thesis using v big by blast
  next
    case True
    then have "m = 2 * (sgn m * 2 ^ 52)" by (auto simp: abs_if split: if_splits)
    then have "v = of_int (sgn m * 2 ^ 52) * pow2 (x + 1)"
      by (simp add: v pow2_add) (simp add: pow2_def)
    moreover have "\<bar>sgn m * 2 ^ 52\<bar> < (2 :: int) ^ 53" by (simp add: abs_mult sgn_if)
    moreover have "- 1074 \<le> x + 1" by (simp add: x_def)
    ultimately show ?thesis using big by blast
  qed
qed

lemma is_double_rnd_double [simp]: "is_double (rnd_double r)"
proof (cases "rnd_double r")
  case (DFin v)
  with rnd_double_shape [OF DFin] rnd_double_dyadic show ?thesis by auto
qed simp

lemma is_double_strtod [simp]: "is_double (strtod s)"
proof -
  have "is_double (DFin 0)" by (simp add: rnd_double_def)
  then show ?thesis by (simp add: strtod_def Let_def)
qed

text \<open>Integers up to \<open>2^53\<close> in magnitude are exact.\<close>

lemma ll2d_exact: "\<bar>i\<bar> < 2 ^ 53 \<Longrightarrow> ll2d i = DFin (of_int i)"
proof -
  assume i: "\<bar>i\<bar> < 2 ^ 53"
  have "(of_int \<bar>i\<bar> :: rat) < of_int (2 ^ 53)" using i by (simp only: of_int_less_iff)
  then have "\<bar>of_int i :: rat\<bar> < 2 ^ 53" by simp
  also have "\<dots> \<le> 2 ^ 1024" by (rule power_increasing) auto
  finally have "\<bar>of_int i * pow2 0\<bar> < (2 :: rat) ^ 1024" by (simp add: pow2_def)
  from rnd_double_dyadic [OF i _ this] show ?thesis by (simp add: ll2d_def pow2_def)
qed

lemma trunc_rat_of_int [simp]: "trunc_rat (of_int i) = i"
  by (simp add: trunc_rat_def)

lemma d2ll_ll2d: "\<bar>i\<bar> < 2 ^ 53 \<Longrightarrow> d2ll (ll2d i) = i"
  by (auto simp: ll2d_exact LLONG_MIN_def LLONG_MAX_def)

lemma d2i_ll2d: "INT_MIN \<le> i \<Longrightarrow> i \<le> INT_MAX \<Longrightarrow> d2i (ll2d i) = i"
  by (subst ll2d_exact) (auto simp: INT_MIN_def INT_MAX_def)

end
