(* ===== verification/Json_Parse.thy ===== *)
theory Json_Parse
  imports Cix_Double "HOL-Library.Word"
begin

text \<open>
  The parser half of \<open>daemon/src/json.c\<close> and its accessors.

  A parse position (\<open>ps->p\<close>, \<open>ps->end\<close>) is the list of bytes still to read; a function that
  fails returns \<open>None\<close> where the C code frees what it built and returns \<open>NULL\<close>.  Memory
  allocation is taken to succeed.  A string value is what its C consumers see: the bytes
  before the first NUL of the decoded buffer.  The recursion of \<open>parse_value\<close> over arrays and
  objects is a total function here: each loop iteration consumes input, which is the
  termination proof below.
\<close>

unbundle bit_operations_syntax

datatype json =
    JNull
  | JBool bool
  | JNumber double
  | JString string
  | JArray "json list"
  | JObject "(string \<times> json) list"

section \<open>Lexical level\<close>

definition is_ws :: "char \<Rightarrow> bool" where
  "is_ws c = (c = CHR '' '' \<or> c = CHR 0x09 \<or> c = CHR 0x0A \<or> c = CHR 0x0D)"

definition skip_ws :: "string \<Rightarrow> string" where
  "skip_ws s = dropWhile is_ws s"

text \<open>The growing string buffer: the bytes written so far and the allocated capacity.\<close>

type_synonym strbuf = "string \<times> nat"

definition str_append :: "strbuf \<Rightarrow> char \<Rightarrow> strbuf" where
  "str_append b c = (case b of (buf, cap) \<Rightarrow>
     (buf @ [c], if cap \<le> length buf + 1 then cap * 2 else cap))"

definition hex_digit :: "char \<Rightarrow> nat option" where
  "hex_digit h =
     (if CHR ''0'' \<le> h \<and> h \<le> CHR ''9'' then Some (of_char h - 48)
      else if CHR ''a'' \<le> h \<and> h \<le> CHR ''f'' then Some (of_char h - 97 + 10)
      else if CHR ''A'' \<le> h \<and> h \<le> CHR ''F'' then Some (of_char h - 65 + 10)
      else None)"

text \<open>Four hex digits after the \<open>u\<close> the position is on.\<close>

fun parse_hex4 :: "string \<Rightarrow> nat option" where
  "parse_hex4 (u # a # b # c # d # _) =
     do { a \<leftarrow> hex_digit a; b \<leftarrow> hex_digit b; c \<leftarrow> hex_digit c; d \<leftarrow> hex_digit d;
          Some (((a * 16 + b) * 16 + c) * 16 + d) }"
| "parse_hex4 _ = None"

definition utf8_encode :: "nat \<Rightarrow> string" where
  "utf8_encode cp =
     (if cp < 0x80 then [char_of cp]
      else if cp < 0x800 then
        [char_of (0xc0 OR drop_bit 6 cp), char_of (0x80 OR (cp AND 0x3f))]
      else if cp < 0x10000 then
        [char_of (0xe0 OR drop_bit 12 cp), char_of (0x80 OR (drop_bit 6 cp AND 0x3f)),
         char_of (0x80 OR (cp AND 0x3f))]
      else
        [char_of (0xf0 OR drop_bit 18 cp), char_of (0x80 OR (drop_bit 12 cp AND 0x3f)),
         char_of (0x80 OR (drop_bit 6 cp AND 0x3f)), char_of (0x80 OR (cp AND 0x3f))])"

definition simple_escape :: "char \<Rightarrow> char option" where
  "simple_escape e =
     (if e = CHR 0x22 then Some (CHR 0x22) else if e = CHR 0x5C then Some (CHR 0x5C)
      else if e = CHR ''/'' then Some (CHR ''/'') else if e = CHR ''n'' then Some (CHR 0x0A)
      else if e = CHR ''t'' then Some (CHR 0x09) else if e = CHR ''r'' then Some (CHR 0x0D)
      else if e = CHR ''b'' then Some (CHR 0x08) else if e = CHR ''f'' then Some (CHR 0x0C)
      else None)"

text \<open>
  A \<open>u\<close> escape, the position on the \<open>u\<close>: the codepoint, a surrogate pair joined, and what
  follows the last hex digit.
\<close>

definition parse_u_escape :: "string \<Rightarrow> (nat \<times> string) option" where
  "parse_u_escape s =
     do { cp \<leftarrow> parse_hex4 s;
          let r = drop 5 s;
          if 0xd800 \<le> cp \<and> cp \<le> 0xdbff then
            (if length r < 2 \<or> r ! 0 \<noteq> CHR 0x5C \<or> r ! 1 \<noteq> CHR ''u'' then None
             else do { lo \<leftarrow> parse_hex4 (drop 1 r);
                       if lo < 0xdc00 \<or> 0xdfff < lo then None
                       else Some (0x10000 + (cp - 0xd800) * 1024 + (lo - 0xdc00), drop 6 r) })
          else if 0xdc00 \<le> cp \<and> cp \<le> 0xdfff then None
          else Some (cp, r) }"

lemma parse_u_escape_shorter:
  "parse_u_escape s = Some (cp, r) \<Longrightarrow> s \<noteq> [] \<and> length r < length s"
  by (cases s rule: parse_hex4.cases) (auto simp: parse_u_escape_def Let_def bind_eq_Some_conv split: if_splits)

text \<open>The loop of \<open>parse_string_raw\<close>, from after the opening quote.\<close>

function parse_string_body :: "string \<Rightarrow> strbuf \<Rightarrow> (strbuf \<times> string) option" where
  "parse_string_body [] b = None"
| "parse_string_body (c # cs) b =
     (if c = CHR 0x22 then Some (b, cs)
      else if c = CHR 0x5C then
        (case cs of [] \<Rightarrow> None
         | e # es \<Rightarrow>
             (case simple_escape e of
                Some out \<Rightarrow> parse_string_body es (str_append b out)
              | None \<Rightarrow>
                  if e = CHR ''u'' then
                    (case parse_u_escape cs of None \<Rightarrow> None
                     | Some (cp, r) \<Rightarrow> parse_string_body r (foldl str_append b (utf8_encode cp)))
                  else None))
      else parse_string_body cs (str_append b c))"
  by pat_completeness auto
termination
  by (relation "measure (\<lambda>(s, b). length s)") (auto dest: parse_u_escape_shorter)

definition parse_string_raw :: "string \<Rightarrow> (string \<times> string) option" where
  "parse_string_raw s =
     (case s of [] \<Rightarrow> None
      | c # cs \<Rightarrow>
          if c \<noteq> CHR 0x22 then None
          else (case parse_string_body cs ([], 32) of None \<Rightarrow> None
                | Some ((buf, cap), r) \<Rightarrow> Some (c_str buf, r)))"

definition take_char :: "(char \<Rightarrow> bool) \<Rightarrow> string \<Rightarrow> string \<times> string" where
  "take_char p s = (case s of c # cs \<Rightarrow> if p c then ([c], cs) else ([], s) | [] \<Rightarrow> ([], []))"

definition take_digits :: "string \<Rightarrow> string \<times> string" where
  "take_digits s = (takeWhile is_digit s, dropWhile is_digit s)"

text \<open>The bytes \<open>parse_number\<close> steps over, and the rest.\<close>

definition number_token :: "string \<Rightarrow> string \<times> string" where
  "number_token s =
     (let (sg, s1) = take_char (\<lambda>c. c = CHR ''-'') s;
          (ip, s2) = take_digits s1;
          (pt, s3) = take_char (\<lambda>c. c = CHR ''.'') s2;
          (fp, s4) = (if pt = [] then ([], s3) else take_digits s3);
          (ee, s5) = take_char (\<lambda>c. c = CHR ''e'' \<or> c = CHR ''E'') s4;
          (es, s6) = (if ee = [] then ([], s5) else take_char (\<lambda>c. c = CHR ''+'' \<or> c = CHR ''-'') s5);
          (ed, s7) = (if ee = [] then ([], s6) else take_digits s6)
      in (sg @ ip @ pt @ fp @ ee @ es @ ed, s7))"

definition parse_number :: "string \<Rightarrow> (json \<times> string) option" where
  "parse_number s =
     (case number_token s of (tok, r) \<Rightarrow>
        if tok = [] then None
        else if 64 \<le> length tok then None
        else Some (JNumber (strtod tok), r))"

section \<open>Values\<close>

text \<open>The branches of \<open>parse_value\<close> that do not recurse, from the first byte that is not white space.\<close>

definition parse_scalar :: "string \<Rightarrow> (json \<times> string) option" where
  "parse_scalar s =
     (case s of [] \<Rightarrow> None
      | c # _ \<Rightarrow>
          if c = CHR 0x22 then
            (case parse_string_raw s of None \<Rightarrow> None | Some (t, r) \<Rightarrow> Some (JString t, r))
          else if take 4 s = ''true'' then Some (JBool True, drop 4 s)
          else if take 5 s = ''false'' then Some (JBool False, drop 5 s)
          else if take 4 s = ''null'' then Some (JNull, drop 4 s)
          else if c = CHR ''-'' \<or> is_digit c then parse_number s
          else None)"

lemma length_skip_ws: "length (skip_ws s) \<le> length s"
  by (simp add: skip_ws_def length_dropWhile_le)

lemma skip_ws_Cons_length: "skip_ws s = c # cs \<Longrightarrow> length cs < length s"
  using length_skip_ws [of s] by simp

lemma parse_string_body_shorter: "parse_string_body s b = Some (b', r) \<Longrightarrow> length r < length s"
  by (induction s b rule: parse_string_body.induct)
     (force split: if_splits list.splits option.splits dest: parse_u_escape_shorter)+

lemma parse_string_raw_shorter: "parse_string_raw s = Some (t, r) \<Longrightarrow> length r < length s"
  by (auto simp: parse_string_raw_def split: list.splits if_splits option.splits prod.splits
      dest!: parse_string_body_shorter)

lemma length_take_char: "take_char p s = (a, r) \<Longrightarrow> s = a @ r"
  by (auto simp: take_char_def split: list.splits if_splits)

lemma take_digits_append: "take_digits s = (a, r) \<Longrightarrow> s = a @ r"
  by (auto simp: take_digits_def)

lemma number_token_append: "number_token s = (tok, r) \<Longrightarrow> s = tok @ r"
  by (auto simp: number_token_def Let_def split: prod.splits if_splits
      dest!: length_take_char take_digits_append)

lemma parse_number_shorter: "parse_number s = Some (v, r) \<Longrightarrow> length r < length s"
  by (auto simp: parse_number_def split: prod.splits if_splits dest!: number_token_append)

lemma key_shorter: "parse_string_raw (skip_ws s) = Some (k, r) \<Longrightarrow> length r < length s"
  using parse_string_raw_shorter [of "skip_ws s" k r] length_skip_ws [of s] by simp

lemma skip_ws_eq_length: "skip_ws s = t \<Longrightarrow> length t \<le> length s"
  using length_skip_ws by blast

lemma parse_scalar_shorter: "parse_scalar s = Some (v, r) \<Longrightarrow> length r < length s"
  by (auto simp: parse_scalar_def split: list.splits if_splits option.splits
      dest: parse_string_raw_shorter parse_number_shorter)

text \<open>
  \<open>parse_array\<close> and \<open>parse_object\<close> start after their opening bracket; \<open>parse_items\<close> and
  \<open>parse_members\<close> are their loops, with the elements read so far.  Every successful step
  leaves a strictly shorter rest, which is what makes the loops end.
\<close>

function parse_value :: "string \<Rightarrow> (json \<times> string) option"
  and parse_array :: "string \<Rightarrow> (json \<times> string) option"
  and parse_items :: "string \<Rightarrow> json list \<Rightarrow> (json \<times> string) option"
  and parse_object :: "string \<Rightarrow> (json \<times> string) option"
  and parse_members :: "string \<Rightarrow> (string \<times> json) list \<Rightarrow> (json \<times> string) option"
where
  "parse_value s =
     (case skip_ws s of [] \<Rightarrow> None
      | c # cs \<Rightarrow>
          if c = CHR ''{'' then parse_object cs
          else if c = CHR ''['' then parse_array cs
          else parse_scalar (c # cs))"
| "parse_array s =
     (case skip_ws s of
        [] \<Rightarrow> parse_items [] []
      | c # cs \<Rightarrow> if c = CHR '']'' then Some (JArray [], cs) else parse_items (c # cs) [])"
| "parse_items s acc =
     (case parse_value s of None \<Rightarrow> None
      | Some (v, r) \<Rightarrow>
          (case skip_ws r of [] \<Rightarrow> None
           | c # cs \<Rightarrow>
               if c = CHR '','' then parse_items (skip_ws cs) (acc @ [v])
               else if c = CHR '']'' then Some (JArray (acc @ [v]), cs)
               else None))"
| "parse_object s =
     (case skip_ws s of
        [] \<Rightarrow> parse_members [] []
      | c # cs \<Rightarrow> if c = CHR ''}'' then Some (JObject [], cs) else parse_members (c # cs) [])"
| "parse_members s acc =
     (case parse_string_raw (skip_ws s) of None \<Rightarrow> None
      | Some (k, r) \<Rightarrow>
          (case skip_ws r of [] \<Rightarrow> None
           | c # cs \<Rightarrow>
               if c \<noteq> CHR '':'' then None
               else (case parse_value cs of None \<Rightarrow> None
                     | Some (v, r') \<Rightarrow>
                         (case skip_ws r' of [] \<Rightarrow> None
                          | d # ds \<Rightarrow>
                              if d = CHR '','' then parse_members ds (acc @ [(k, v)])
                              else if d = CHR ''}'' then Some (JObject (acc @ [(k, v)]), ds)
                              else None))))"
  by pat_completeness auto
termination
proof -
  have shorter:
    "parse_value_parse_array_parse_items_parse_object_parse_members_dom (Inl (Inl s)) \<Longrightarrow>
       parse_value s = Some (v, r) \<Longrightarrow> length r < length s"
    "parse_value_parse_array_parse_items_parse_object_parse_members_dom (Inl (Inr s)) \<Longrightarrow>
       parse_array s = Some (v, r) \<Longrightarrow> length r < length s"
    "parse_value_parse_array_parse_items_parse_object_parse_members_dom (Inr (Inl (s, is))) \<Longrightarrow>
       parse_items s is = Some (v, r) \<Longrightarrow> length r < length s"
    "parse_value_parse_array_parse_items_parse_object_parse_members_dom (Inr (Inr (Inl s))) \<Longrightarrow>
       parse_object s = Some (v, r) \<Longrightarrow> length r < length s"
    "parse_value_parse_array_parse_items_parse_object_parse_members_dom (Inr (Inr (Inr (s, ms)))) \<Longrightarrow>
       parse_members s ms = Some (v, r) \<Longrightarrow> length r < length s" for s v r "is" ms
  proof (induction s and s and s "is" and s and s ms arbitrary: v r and v r and v r and v r and v r
      rule: parse_value_parse_array_parse_items_parse_object_parse_members.pinduct)
    case (1 s)
    from 1(1,4) obtain c cs where c: "skip_ws s = c # cs"
      by (auto simp: parse_value.psimps split: list.splits)
    then have l: "length cs < length s" by (rule skip_ws_Cons_length)
    consider "c = CHR ''{''" | "c = CHR ''[''" | "c \<noteq> CHR ''{''" "c \<noteq> CHR ''[''" by blast
    then show ?case
    proof cases
      case 1
      with "1.hyps" "1.IH" "1.prems" c l show ?thesis by (force simp: parse_value.psimps)
    next
      case 2
      with "1.hyps" "1.IH" "1.prems" c l show ?thesis by (force simp: parse_value.psimps)
    next
      case 3
      with "1.hyps" "1.prems" c have "parse_scalar (c # cs) = Some (v, r)" by (simp add: parse_value.psimps)
      with parse_scalar_shorter c length_skip_ws [of s] show ?thesis by fastforce
    qed
  next
    case (2 s)
    show ?case
    proof (cases "skip_ws s")
      case Nil
      with "2.hyps" "2.prems" have "parse_items [] [] = Some (v, r)" by (simp add: parse_array.psimps)
      from "2.IH"(1) [OF Nil this] show ?thesis by simp
    next
      case (Cons c cs)
      have l: "length (c # cs) \<le> length s" using length_skip_ws [of s] by (simp add: Cons)
      from Cons "2.hyps" "2.prems" have
        "(if c = CHR '']'' then Some (JArray [], cs) else parse_items (c # cs) []) = Some (v, r)"
        by (simp add: parse_array.psimps)
      with "2.IH"(2) [OF Cons] l show ?thesis by (auto split: if_splits)
    qed
  next
    case (3 s acc)
    from "3.hyps" "3.prems" obtain v1 r1 c cs where p: "parse_value s = Some (v1, r1)" "skip_ws r1 = c # cs"
      by (auto simp: parse_items.psimps split: option.splits list.splits)
    have "length r1 < length s" using "3.IH"(1) p(1) by blast
    moreover have "length cs < length r1" using p(2) by (rule skip_ws_Cons_length)
    moreover have "length (skip_ws cs) \<le> length cs" by (rule length_skip_ws)
    moreover have "length r < length (skip_ws cs)" if "c = CHR '',''"
      using "3.IH"(2) [OF p(1) refl p(2) that] "3.hyps" "3.prems" p that by (simp add: parse_items.psimps)
    ultimately show ?case using "3.hyps" "3.prems" p
      by (auto simp: parse_items.psimps split: if_splits)
  next
    case (4 s)
    show ?case
    proof (cases "skip_ws s")
      case Nil
      with "4.hyps" "4.prems" have "parse_members [] [] = Some (v, r)" by (simp add: parse_object.psimps)
      from "4.IH"(1) [OF Nil this] show ?thesis by simp
    next
      case (Cons c cs)
      have l: "length (c # cs) \<le> length s" using length_skip_ws [of s] by (simp add: Cons)
      from Cons "4.hyps" "4.prems" have
        "(if c = CHR ''}'' then Some (JObject [], cs) else parse_members (c # cs) []) = Some (v, r)"
        by (simp add: parse_object.psimps)
      with "4.IH"(2) [OF Cons] l show ?thesis by (auto split: if_splits)
    qed
  next
    case (5 s acc)
    from "5.hyps" "5.prems" obtain k r0 c cs v1 r1 d ds where
      p: "parse_string_raw (skip_ws s) = Some (k, r0)" "skip_ws r0 = c # cs" "\<not> c \<noteq> CHR '':''"
        "parse_value cs = Some (v1, r1)" "skip_ws r1 = d # ds"
      by (auto simp: parse_members.psimps split: option.splits list.splits if_splits)
    have "length r0 < length s" using parse_string_raw_shorter [OF p(1)] length_skip_ws [of s] by simp
    moreover have "length cs < length r0" "length ds < length r1"
      using p(2,5) by (auto dest: skip_ws_Cons_length)
    moreover have "length r1 < length cs" using "5.IH"(1) p by blast
    moreover have "length r < length ds" if "d = CHR '',''"
      using "5.IH"(2) [OF p(1) refl p(2,3,4) refl p(5) that] "5.hyps" "5.prems" p that
      by (simp add: parse_members.psimps)
    ultimately show ?case using "5.hyps" "5.prems" p
      by (auto simp: parse_members.psimps split: if_splits)
  qed
  show ?thesis
    by (relation "measure (\<lambda>x. case x of Inl (Inl s) \<Rightarrow> 3 * length s + 1
          | Inl (Inr s) \<Rightarrow> 3 * length s + 3
          | Inr (Inl (s, _)) \<Rightarrow> 3 * length s + 2
          | Inr (Inr (Inl s)) \<Rightarrow> 3 * length s + 3
          | Inr (Inr (Inr (s, _))) \<Rightarrow> 3 * length s + 2)")
       (auto dest!: skip_ws_eq_length skip_ws_Cons_length key_shorter shorter(1)
          intro: le_less_trans [OF length_skip_ws])
qed

declare parse_value.simps [simp del] parse_array.simps [simp del] parse_items.simps [simp del]
  parse_object.simps [simp del] parse_members.simps [simp del]

definition json_parse :: "string \<Rightarrow> json option" where
  "json_parse text =
     (case parse_value text of None \<Rightarrow> None
      | Some (v, r) \<Rightarrow> if skip_ws r = [] then Some v else None)"

section \<open>Accessors\<close>

text \<open>A \<open>NULL\<close> node is \<open>None\<close>; the first member with the key wins.\<close>

definition json_object_get :: "json option \<Rightarrow> string \<Rightarrow> json option" where
  "json_object_get obj key =
     (case obj of Some (JObject ms) \<Rightarrow> map_of ms key | _ \<Rightarrow> None)"

definition json_as_string :: "json option \<Rightarrow> string option" where
  "json_as_string v = (case v of Some (JString s) \<Rightarrow> Some s | _ \<Rightarrow> None)"

definition json_as_number :: "json option \<Rightarrow> double" where
  "json_as_number v = (case v of Some (JNumber d) \<Rightarrow> d | _ \<Rightarrow> DFin 0)"

end
