(* ===== verification/Json_Write.thy ===== *)
theory Json_Write
  imports Json_Parse
begin

text \<open>
  The writer half of \<open>daemon/src/json.c\<close>: \<open>struct json_writer\<close> with its growing buffer and
  its two arrays of \<open>JW_MAX_DEPTH\<close> entries, and the \<open>jw_*\<close> calls that append to it.

  The arrays are indexed by \<open>depth\<close> with no check in the source, so an operation that would
  touch an entry outside them is \<open>None\<close>: undefined behaviour in C.  \<open>render\<close> is the
  reference text of a value; the refinement lemma says when \<open>jw_value\<close> is defined and that
  it then appends exactly this text, and the parser reads the text back as the value.
\<close>

datatype jw_container = JW_CONTAINER_OBJ | JW_CONTAINER_ARR

definition JW_MAX_DEPTH :: nat where
  "JW_MAX_DEPTH = 16"

record json_writer =
  jw_buf :: string
  jw_cap :: nat
  jw_stack :: "jw_container list"
  jw_has_item :: "bool list"
  jw_depth :: int

section \<open>Arrays with checked indices\<close>

definition arr_get :: "'a list \<Rightarrow> int \<Rightarrow> 'a option" where
  "arr_get xs i = (if 0 \<le> i \<and> i < int (length xs) then Some (xs ! nat i) else None)"

definition arr_set :: "'a list \<Rightarrow> int \<Rightarrow> 'a \<Rightarrow> 'a list option" where
  "arr_set xs i v = (if 0 \<le> i \<and> i < int (length xs) then Some (xs[nat i := v]) else None)"

section \<open>The buffer\<close>

definition jw_init :: "json_writer \<Rightarrow> json_writer" where
  "jw_init w = w\<lparr>jw_buf := [], jw_cap := 0, jw_depth := 0\<rparr>"

definition jw_free :: "json_writer \<Rightarrow> json_writer" where
  "jw_free w = w\<lparr>jw_buf := [], jw_cap := 0\<rparr>"

text \<open>The doubling loop; a zero capacity never reaches it.\<close>

function jw_grow :: "nat \<Rightarrow> nat \<Rightarrow> nat" where
  "jw_grow ncap need = (if 0 < ncap \<and> ncap < need then jw_grow (ncap * 2) need else ncap)"
  by pat_completeness auto
termination
  by (relation "measure (\<lambda>(ncap, need). need - ncap)") auto

declare jw_grow.simps [simp del]

definition jw_ensure :: "json_writer \<Rightarrow> nat \<Rightarrow> json_writer" where
  "jw_ensure w extra =
     (if length (jw_buf w) + extra + 1 \<le> jw_cap w then w
      else w\<lparr>jw_cap := jw_grow (if jw_cap w \<noteq> 0 then jw_cap w * 2 else 128)
                          (length (jw_buf w) + extra + 1)\<rparr>)"

definition jw_raw :: "json_writer \<Rightarrow> string \<Rightarrow> json_writer" where
  "jw_raw w s = (let w = jw_ensure w (length s) in w\<lparr>jw_buf := jw_buf w @ s\<rparr>)"

definition jw_raw_text :: "json_writer \<Rightarrow> string \<Rightarrow> json_writer" where
  "jw_raw_text w s = jw_raw w s"

section \<open>Strings\<close>

definition hex_char :: "nat \<Rightarrow> char" where
  "hex_char n = (if n < 10 then char_of (48 + n) else char_of (87 + n))"

definition escape_char :: "char \<Rightarrow> string" where
  "escape_char c =
     (if c = CHR 0x22 then [CHR 0x5C, CHR 0x22]
      else if c = CHR 0x5C then [CHR 0x5C, CHR 0x5C]
      else if c = CHR 0x0A then [CHR 0x5C, CHR ''n'']
      else if c = CHR 0x09 then [CHR 0x5C, CHR ''t'']
      else if c = CHR 0x0D then [CHR 0x5C, CHR ''r'']
      else if c = CHR 0x08 then [CHR 0x5C, CHR ''b'']
      else if c = CHR 0x0C then [CHR 0x5C, CHR ''f'']
      else if (of_char c :: nat) < 0x20 then
        [CHR 0x5C, CHR ''u'', CHR ''0'', CHR ''0'', hex_char (of_char c div 16), hex_char (of_char c mod 16)]
      else [c])"

definition jw_escape_content :: "json_writer \<Rightarrow> string \<Rightarrow> json_writer" where
  "jw_escape_content w s = foldl (\<lambda>w c. jw_raw w (escape_char c)) w s"

definition jw_escaped_string :: "json_writer \<Rightarrow> string \<Rightarrow> json_writer" where
  "jw_escaped_string w s =
     jw_raw (jw_escape_content (jw_raw w [CHR 0x22]) s) [CHR 0x22]"

definition jw_raw_escaped_content :: "json_writer \<Rightarrow> string \<Rightarrow> json_writer" where
  "jw_raw_escaped_content w s = jw_escape_content w s"

section \<open>Structure\<close>

definition jw_value_prefix :: "json_writer \<Rightarrow> json_writer option" where
  "jw_value_prefix w =
     (if jw_depth w = 0 then Some w
      else do { let d = jw_depth w - 1;
                c \<leftarrow> arr_get (jw_stack w) d;
                if c = JW_CONTAINER_ARR then
                  do { h \<leftarrow> arr_get (jw_has_item w) d;
                       let w = (if h then jw_raw w '','' else w);
                       hs \<leftarrow> arr_set (jw_has_item w) d True;
                       Some (w\<lparr>jw_has_item := hs\<rparr>) }
                else Some w })"

definition jw_open :: "jw_container \<Rightarrow> string \<Rightarrow> json_writer \<Rightarrow> json_writer option" where
  "jw_open c bracket w =
     do { w \<leftarrow> jw_value_prefix w;
          let w = jw_raw w bracket;
          st \<leftarrow> arr_set (jw_stack w) (jw_depth w) c;
          hs \<leftarrow> arr_set (jw_has_item w) (jw_depth w) False;
          Some (w\<lparr>jw_stack := st, jw_has_item := hs, jw_depth := jw_depth w + 1\<rparr>) }"

definition jw_obj_open :: "json_writer \<Rightarrow> json_writer option" where
  "jw_obj_open w = jw_open JW_CONTAINER_OBJ ''{'' w"

definition jw_arr_open :: "json_writer \<Rightarrow> json_writer option" where
  "jw_arr_open w = jw_open JW_CONTAINER_ARR ''['' w"

definition jw_obj_close :: "json_writer \<Rightarrow> json_writer" where
  "jw_obj_close w = jw_raw (w\<lparr>jw_depth := jw_depth w - 1\<rparr>) ''}''"

definition jw_arr_close :: "json_writer \<Rightarrow> json_writer" where
  "jw_arr_close w = jw_raw (w\<lparr>jw_depth := jw_depth w - 1\<rparr>) '']''"

definition jw_key :: "json_writer \<Rightarrow> string \<Rightarrow> json_writer option" where
  "jw_key w key =
     do { let d = jw_depth w - 1;
          h \<leftarrow> arr_get (jw_has_item w) d;
          let w = (if h then jw_raw w '','' else w);
          hs \<leftarrow> arr_set (jw_has_item w) d True;
          let w = w\<lparr>jw_has_item := hs\<rparr>;
          Some (jw_raw (jw_escaped_string w key) '':'') }"

section \<open>Scalars\<close>

definition jw_str :: "json_writer \<Rightarrow> string \<Rightarrow> json_writer option" where
  "jw_str w s = do { w \<leftarrow> jw_value_prefix w; Some (jw_escaped_string w s) }"

definition jw_int :: "json_writer \<Rightarrow> int \<Rightarrow> json_writer option" where
  "jw_int w v = do { w \<leftarrow> jw_value_prefix w; Some (jw_raw w (snprintf_s 32 (int_dec v))) }"

definition jw_num :: "json_writer \<Rightarrow> double \<Rightarrow> json_writer option" where
  "jw_num w v = do { w \<leftarrow> jw_value_prefix w; Some (jw_raw w (snprintf_s 32 (fmt_2f v))) }"

definition jw_bool :: "json_writer \<Rightarrow> bool \<Rightarrow> json_writer option" where
  "jw_bool w b = do { w \<leftarrow> jw_value_prefix w; Some (jw_raw w (if b then ''true'' else ''false'')) }"

definition jw_null :: "json_writer \<Rightarrow> json_writer option" where
  "jw_null w = do { w \<leftarrow> jw_value_prefix w; Some (jw_raw w ''null'') }"

section \<open>A parsed tree written back\<close>

fun jw_value :: "json_writer \<Rightarrow> json \<Rightarrow> json_writer option"
  and jw_items :: "json_writer \<Rightarrow> json list \<Rightarrow> json_writer option"
  and jw_members :: "json_writer \<Rightarrow> (string \<times> json) list \<Rightarrow> json_writer option"
where
  "jw_value w JNull = jw_null w"
| "jw_value w (JBool b) = jw_bool w b"
| "jw_value w (JNumber d) = (if d = ll2d (d2ll d) then jw_int w (d2ll d) else jw_num w d)"
| "jw_value w (JString s) = jw_str w s"
| "jw_value w (JArray vs) = do { w \<leftarrow> jw_arr_open w; w \<leftarrow> jw_items w vs; Some (jw_arr_close w) }"
| "jw_value w (JObject ms) = do { w \<leftarrow> jw_obj_open w; w \<leftarrow> jw_members w ms; Some (jw_obj_close w) }"
| "jw_items w [] = Some w"
| "jw_items w (v # vs) = do { w \<leftarrow> jw_value w v; jw_items w vs }"
| "jw_members w [] = Some w"
| "jw_members w ((k, v) # ms) = do { w \<leftarrow> jw_key w k; w \<leftarrow> jw_value w v; jw_members w ms }"

section \<open>The reference text of a value\<close>

definition render_string :: "string \<Rightarrow> string" where
  "render_string s = [CHR 0x22] @ concat (map escape_char s) @ [CHR 0x22]"

definition render_number :: "double \<Rightarrow> string" where
  "render_number d = (if d = ll2d (d2ll d) then int_dec (d2ll d) else snprintf_s 32 (fmt_2f d))"

fun render :: "json \<Rightarrow> string"
  and render_items :: "bool \<Rightarrow> json list \<Rightarrow> string"
  and render_members :: "bool \<Rightarrow> (string \<times> json) list \<Rightarrow> string"
where
  "render JNull = ''null''"
| "render (JBool b) = (if b then ''true'' else ''false'')"
| "render (JNumber d) = render_number d"
| "render (JString s) = render_string s"
| "render (JArray vs) = ''['' @ render_items False vs @ '']''"
| "render (JObject ms) = ''{'' @ render_members False ms @ ''}''"
| "render_items h [] = []"
| "render_items h (v # vs) = (if h then '','' else []) @ render v @ render_items True vs"
| "render_members h [] = []"
| "render_members h ((k, v) # ms) =
     (if h then '','' else []) @ render_string k @ '':'' @ render v @ render_members True ms"

text \<open>How many containers are open at once while a value is written.\<close>

fun nesting :: "json \<Rightarrow> nat" and nesting_items :: "json list \<Rightarrow> nat"
  and nesting_members :: "(string \<times> json) list \<Rightarrow> nat"
where
  "nesting (JArray vs) = Suc (nesting_items vs)"
| "nesting (JObject ms) = Suc (nesting_members ms)"
| "nesting _ = 0"
| "nesting_items [] = 0"
| "nesting_items (v # vs) = max (nesting v) (nesting_items vs)"
| "nesting_members [] = 0"
| "nesting_members ((k, v) # ms) = max (nesting v) (nesting_members ms)"

section \<open>The abstract writer\<close>

text \<open>The text so far and the open containers, innermost first, each with its comma mark.\<close>

type_synonym awriter = "string \<times> (jw_container \<times> bool) list"

definition wf_writer :: "json_writer \<Rightarrow> bool" where
  "wf_writer w = (length (jw_stack w) = JW_MAX_DEPTH \<and> length (jw_has_item w) = JW_MAX_DEPTH \<and>
     0 \<le> jw_depth w \<and> jw_depth w \<le> int JW_MAX_DEPTH)"

definition frames :: "json_writer \<Rightarrow> (jw_container \<times> bool) list" where
  "frames w = rev (take (nat (jw_depth w)) (zip (jw_stack w) (jw_has_item w)))"

definition awriter_of :: "json_writer \<Rightarrow> awriter" where
  "awriter_of w = (jw_buf w, frames w)"

fun a_prefix :: "awriter \<Rightarrow> awriter" where
  "a_prefix (b, (JW_CONTAINER_ARR, h) # fs) = (b @ (if h then '','' else []), (JW_CONTAINER_ARR, True) # fs)"
| "a_prefix (b, fs) = (b, fs)"

definition a_append :: "awriter \<Rightarrow> string \<Rightarrow> awriter" where
  "a_append a s = (fst a @ s, snd a)"

fun a_key :: "awriter \<Rightarrow> string \<Rightarrow> awriter" where
  "a_key (b, (c, h) # fs) k = (b @ (if h then '','' else []) @ render_string k @ '':'', (c, True) # fs)"
| "a_key (b, []) k = (b, [])"

text \<open>The concrete operation \<open>r\<close> is defined and reaches a state that abstracts to \<open>a\<close>.\<close>

definition refines :: "json_writer option \<Rightarrow> awriter \<Rightarrow> bool" where
  "refines r a = (\<exists>w. r = Some w \<and> wf_writer w \<and> awriter_of w = a)"

lemma length_frames: "wf_writer w \<Longrightarrow> length (frames w) = nat (jw_depth w)"
  by (auto simp: wf_writer_def frames_def)

lemma jw_raw_simps [simp]:
  "jw_buf (jw_raw w s) = jw_buf w @ s" "jw_stack (jw_raw w s) = jw_stack w"
  "jw_has_item (jw_raw w s) = jw_has_item w" "jw_depth (jw_raw w s) = jw_depth w"
  by (auto simp: jw_raw_def jw_ensure_def Let_def)

lemma wf_writer_raw [simp]: "wf_writer (jw_raw w s) = wf_writer w"
  by (simp add: wf_writer_def)

lemma frames_raw [simp]: "frames (jw_raw w s) = frames w"
  by (simp add: frames_def)

lemma awriter_of_raw [simp]: "awriter_of (jw_raw w s) = a_append (awriter_of w) s"
  by (simp add: awriter_of_def frames_def a_append_def)

lemma a_append_append [simp]: "a_append (a_append a s) t = a_append a (s @ t)"
  by (simp add: a_append_def)

lemma awriter_of_escape [simp]: "awriter_of (jw_escape_content w s) = a_append (awriter_of w) (concat (map escape_char s))"
  by (induction s arbitrary: w) (auto simp: jw_escape_content_def a_append_def)

lemma wf_writer_escape [simp]: "wf_writer (jw_escape_content w s) = wf_writer w"
  by (induction s arbitrary: w) (auto simp: jw_escape_content_def)

lemma escaped_string_simps [simp]:
  "awriter_of (jw_escaped_string w s) = a_append (awriter_of w) (render_string s)"
  "wf_writer (jw_escaped_string w s) = wf_writer w"
  by (auto simp: jw_escaped_string_def render_string_def)

text \<open>The innermost frame is entry \<open>depth - 1\<close> of the two arrays.\<close>

lemma frames_Suc:
  assumes "wf_writer w" "jw_depth w = int (Suc n)"
  shows "frames w = (jw_stack w ! n, jw_has_item w ! n) # rev (take n (zip (jw_stack w) (jw_has_item w)))"
    "n < length (jw_stack w)" "n < length (jw_has_item w)"
proof -
  show n: "n < length (jw_stack w)" "n < length (jw_has_item w)" using assms by (auto simp: wf_writer_def)
  have "nat (jw_depth w) = Suc n" using assms(2) by linarith
  then show "frames w = (jw_stack w ! n, jw_has_item w ! n) # rev (take n (zip (jw_stack w) (jw_has_item w)))"
    using n by (simp add: frames_def take_Suc_conv_app_nth)
qed

lemma depth_cases: "wf_writer w \<Longrightarrow> jw_depth w = 0 \<or> (\<exists>n. jw_depth w = int (Suc n))"
proof -
  assume "wf_writer w"
  then have "jw_depth w = int (nat (jw_depth w))" by (simp add: wf_writer_def)
  then show ?thesis by (cases "nat (jw_depth w)") auto
qed

lemma frames_0: "jw_depth w = 0 \<Longrightarrow> frames w = []"
  by (simp add: frames_def)

text \<open>Marking the innermost container.\<close>

lemma frames_mark:
  assumes "wf_writer w" "jw_depth w = int (Suc n)"
  shows "frames (w\<lparr>jw_has_item := (jw_has_item w)[n := b]\<rparr>) = (jw_stack w ! n, b) # tl (frames w)"
  using assms frames_Suc [OF assms] frames_Suc [of "w\<lparr>jw_has_item := (jw_has_item w)[n := b]\<rparr>" n]
  by (simp add: wf_writer_def take_zip)

lemma value_prefix_refines:
  assumes "wf_writer w"
  shows "refines (jw_value_prefix w) (a_prefix (awriter_of w))"
proof (cases "jw_depth w = 0")
  case True
  with assms show ?thesis by (simp add: refines_def jw_value_prefix_def awriter_of_def frames_0)
next
  case False
  with depth_cases [OF assms] obtain n where n: "jw_depth w = int (Suc n)" by auto
  note f = frames_Suc [OF assms n]
  define w' where "w' = (if jw_has_item w ! n then jw_raw w '','' else w)"
  have w': "wf_writer w'" "jw_depth w' = int (Suc n)" "jw_has_item w' = jw_has_item w"
    "jw_stack w' = jw_stack w" "frames w' = frames w"
    "jw_buf w' = jw_buf w @ (if jw_has_item w ! n then '','' else [])"
    using assms n by (auto simp: w'_def frames_def)
  have g: "frames (w'\<lparr>jw_has_item := (jw_has_item w)[n := True]\<rparr>) = (jw_stack w ! n, True) # tl (frames w)"
    using frames_mark [OF w'(1,2), of True] w' by simp
  have wf: "wf_writer (w'\<lparr>jw_has_item := (jw_has_item w)[n := True]\<rparr>)"
    using w'(1) w'(3) by (simp add: wf_writer_def)
  show ?thesis
  proof (cases "jw_stack w ! n")
    case JW_CONTAINER_OBJ
    with n f assms show ?thesis by (simp add: refines_def jw_value_prefix_def awriter_of_def arr_get_def)
  next
    case JW_CONTAINER_ARR
    with n f have "jw_value_prefix w = Some (w'\<lparr>jw_has_item := (jw_has_item w)[n := True]\<rparr>)"
      by (simp add: jw_value_prefix_def arr_get_def arr_set_def w'_def)
    with wf g w' JW_CONTAINER_ARR f show ?thesis by (simp add: refines_def awriter_of_def)
  qed
qed

lemma scalar_refines:
  assumes "wf_writer w" "\<And>u. wf_writer u \<Longrightarrow> wf_writer (f u) \<and> awriter_of (f u) = a_append (awriter_of u) s"
  shows "refines (do { w \<leftarrow> jw_value_prefix w; Some (f w) }) (a_append (a_prefix (awriter_of w)) s)"
  using value_prefix_refines [OF assms(1)] assms(2) by (auto simp: refines_def)

lemma arr_set_depth:
  "wf_writer w \<Longrightarrow> jw_depth w < int JW_MAX_DEPTH \<Longrightarrow>
     arr_set (jw_stack w) (jw_depth w) c = Some ((jw_stack w)[nat (jw_depth w) := c]) \<and>
     arr_set (jw_has_item w) (jw_depth w) b = Some ((jw_has_item w)[nat (jw_depth w) := b])"
  by (simp add: arr_set_def wf_writer_def)

lemma jw_open_refines:
  assumes "wf_writer w" "jw_depth w < int JW_MAX_DEPTH"
  shows "refines (jw_open c br w)
    (let (b, fs) = a_prefix (awriter_of w) in (b @ br, (c, False) # fs))"
proof -
  from value_prefix_refines [OF assms(1)] obtain u where u: "jw_value_prefix w = Some u" "wf_writer u"
    "awriter_of u = a_prefix (awriter_of w)" by (auto simp: refines_def)
  have "length (frames u) = length (frames w)"
    using u(3) by (cases "awriter_of w" rule: a_prefix.cases) (auto simp: awriter_of_def)
  then have d: "jw_depth u = jw_depth w"
    using length_frames [OF u(2)] length_frames [OF assms(1)] u(2) assms(1) by (auto simp: wf_writer_def)
  define n where "n = nat (jw_depth u)"
  have n: "jw_depth u = int n" "n < length (jw_stack u)" "n < length (jw_has_item u)"
    using u(2) assms(2) d by (auto simp: wf_writer_def n_def)
  define v where "v = (jw_raw u br)\<lparr>jw_stack := (jw_stack u)[n := c],
    jw_has_item := (jw_has_item u)[n := False], jw_depth := jw_depth u + 1\<rparr>"
  have "wf_writer v" using u(2) assms(2) d by (simp add: wf_writer_def v_def)
  moreover have "frames v = (c, False) # frames u"
    using frames_Suc [OF \<open>wf_writer v\<close>, of n] n
    by (simp add: v_def frames_def [of u] take_zip)
  moreover have "jw_open c br w = Some v"
    using u(1,2) assms(2) d arr_set_depth [of "jw_raw u br" c False]
    by (simp add: jw_open_def v_def n_def)
  ultimately show ?thesis
    using u(3) by (auto simp: refines_def v_def awriter_of_def split: prod.splits)
qed

lemma depth_frames: "wf_writer w \<Longrightarrow> jw_depth w = int (length (frames w))"
  using length_frames [of w] by (simp add: wf_writer_def)

lemma frames_bound: "wf_writer w \<Longrightarrow> length (frames w) \<le> JW_MAX_DEPTH"
proof -
  assume w: "wf_writer w"
  then have "jw_depth w \<le> int JW_MAX_DEPTH" by (simp add: wf_writer_def)
  then show ?thesis unfolding depth_frames [OF w] by simp
qed

lemma jw_key_refines:
  assumes "wf_writer w" "frames w = (c, h) # fs"
  shows "refines (jw_key w k) (a_key (awriter_of w) k)"
proof -
  have n: "jw_depth w = int (Suc (length fs))" using depth_frames [OF assms(1)] assms(2) by simp
  note f = frames_Suc [OF assms(1) n]
  define n where "n = length fs"
  define w' where "w' = (if h then jw_raw w '','' else w)"
  have w': "wf_writer w'" "jw_depth w' = int (Suc n)" "jw_has_item w' = jw_has_item w"
    "jw_stack w' = jw_stack w" "frames w' = frames w" "jw_buf w' = jw_buf w @ (if h then '','' else [])"
    using assms n by (auto simp: w'_def n_def frames_def)
  define v where "v = w'\<lparr>jw_has_item := (jw_has_item w)[n := True]\<rparr>"
  have h: "jw_has_item w ! n = h" "jw_stack w ! n = c" using f(1) assms(2) by (auto simp: n_def)
  have v: "wf_writer v" "frames v = (c, True) # fs" "jw_buf v = jw_buf w'"
    using frames_mark [OF w'(1,2), of True] w' h assms(2) by (auto simp: v_def wf_writer_def)
  have "jw_key w k = Some (jw_raw (jw_escaped_string v k) '':'')"
    using n f h by (simp add: jw_key_def arr_get_def arr_set_def n_def [symmetric] v_def w'_def)
  moreover have "awriter_of v = (jw_buf w @ (if h then '','' else []), (c, True) # fs)"
    using v w' by (simp add: awriter_of_def)
  moreover have "awriter_of w = (jw_buf w, (c, h) # fs)" using assms(2) by (simp add: awriter_of_def)
  ultimately show ?thesis using v(1) by (auto simp: refines_def a_append_def)
qed

lemma close_refines:
  assumes "refines r (b, f # fs)"
  shows "refines (do { w \<leftarrow> r; Some (jw_raw (w\<lparr>jw_depth := jw_depth w - 1\<rparr>) br) }) (b @ br, fs)"
proof -
  from assms obtain w where w: "r = Some w" "wf_writer w" "jw_buf w = b" "frames w = f # fs"
    by (auto simp: refines_def awriter_of_def)
  have n: "jw_depth w = int (Suc (length fs))" using depth_frames [OF w(2)] w(4) by simp
  have "frames (w\<lparr>jw_depth := jw_depth w - 1\<rparr>) = fs"
    using frames_Suc [OF w(2) n] w(4) n by (simp add: frames_def)
  moreover have "wf_writer (w\<lparr>jw_depth := jw_depth w - 1\<rparr>)" using w(2) n by (simp add: wf_writer_def)
  ultimately show ?thesis using w by (simp add: refines_def awriter_of_def a_append_def)
qed

lemmas jw_scalar_defs = jw_null_def jw_bool_def jw_int_def jw_num_def jw_str_def

lemma int_dec_length: "LLONG_MIN \<le> i \<Longrightarrow> i \<le> LLONG_MAX \<Longrightarrow> length (int_dec i) \<le> 20"
proof -
  assume i: "LLONG_MIN \<le> i" "i \<le> LLONG_MAX"
  have "nat \<bar>i\<bar> < 10 ^ 19" using i by (simp add: LLONG_MIN_def LLONG_MAX_def)
  then have "length (nat_dec (nat \<bar>i\<bar>)) \<le> 19" by (intro length_nat_dec) auto
  then show ?thesis by (auto simp: int_dec_def)
qed

lemma d2ll_range: "LLONG_MIN \<le> d2ll d \<and> d2ll d \<le> LLONG_MAX"
  by (cases d) (auto simp: LLONG_MIN_def LLONG_MAX_def)

lemma snprintf_int_dec [simp]: "snprintf_s 32 (int_dec (d2ll d)) = int_dec (d2ll d)"
  using int_dec_length [of "d2ll d"] d2ll_range [of d] by (intro snprintf_s_fits) auto

lemma refinesE: "refines r a \<Longrightarrow> (\<And>w. r = Some w \<Longrightarrow> wf_writer w \<Longrightarrow> awriter_of w = a \<Longrightarrow> P) \<Longrightarrow> P"
  by (auto simp: refines_def)

lemma a_prefix_length: "length (snd (a_prefix a)) = length (snd a)"
  by (cases a rule: a_prefix.cases) auto

text \<open>Within the arrays, \<open>jw_value\<close> is defined and appends the reference text.\<close>

lemma jw_value_refines:
  "wf_writer w \<Longrightarrow> length (frames w) + nesting v \<le> JW_MAX_DEPTH \<Longrightarrow>
     refines (jw_value w v) (a_append (a_prefix (awriter_of w)) (render v))"
  "wf_writer w \<Longrightarrow> length (frames w) + nesting_items vs \<le> JW_MAX_DEPTH \<Longrightarrow>
     frames w = (JW_CONTAINER_ARR, h) # fs \<Longrightarrow>
     refines (jw_items w vs) (jw_buf w @ render_items h vs, (JW_CONTAINER_ARR, h \<or> vs \<noteq> []) # fs)"
  "wf_writer w \<Longrightarrow> length (frames w) + nesting_members ms \<le> JW_MAX_DEPTH \<Longrightarrow>
     frames w = (JW_CONTAINER_OBJ, h) # fs \<Longrightarrow>
     refines (jw_members w ms) (jw_buf w @ render_members h ms, (JW_CONTAINER_OBJ, h \<or> ms \<noteq> []) # fs)"
proof (induction w v and w vs and w ms arbitrary: and h fs and h fs rule: jw_value_jw_items_jw_members.induct)
  case (5 w vs)
  have "jw_depth w < int JW_MAX_DEPTH" using depth_frames [OF "5.prems"(1)] "5.prems"(2) by simp
  from jw_open_refines [OF "5.prems"(1) this, of JW_CONTAINER_ARR "''[''"] obtain u where
    u: "jw_arr_open w = Some u" "wf_writer u"
      "awriter_of u = (fst (a_prefix (awriter_of w)) @ ''['', (JW_CONTAINER_ARR, False) # snd (a_prefix (awriter_of w)))"
    by (auto simp: jw_arr_open_def case_prod_beta elim: refinesE)
  then have "length (frames u) = Suc (length (frames w))"
    by (simp add: awriter_of_def a_prefix_length)
  then have "refines (jw_items u vs) (jw_buf u @ render_items False vs,
      (JW_CONTAINER_ARR, vs \<noteq> []) # snd (a_prefix (awriter_of w)))"
    using "5.IH" [OF u(1,2), of False] "5.prems" u by (simp add: awriter_of_def)
  from close_refines [OF this, of "'']''"] u show ?case
    by (simp add: jw_arr_close_def a_append_def awriter_of_def)
next
  case (6 w ms)
  have "jw_depth w < int JW_MAX_DEPTH" using depth_frames [OF "6.prems"(1)] "6.prems"(2) by simp
  from jw_open_refines [OF "6.prems"(1) this, of JW_CONTAINER_OBJ "''{''"] obtain u where
    u: "jw_obj_open w = Some u" "wf_writer u"
      "awriter_of u = (fst (a_prefix (awriter_of w)) @ ''{'', (JW_CONTAINER_OBJ, False) # snd (a_prefix (awriter_of w)))"
    by (auto simp: jw_obj_open_def case_prod_beta elim: refinesE)
  then have "length (frames u) = Suc (length (frames w))"
    by (simp add: awriter_of_def a_prefix_length)
  then have "refines (jw_members u ms) (jw_buf u @ render_members False ms,
      (JW_CONTAINER_OBJ, ms \<noteq> []) # snd (a_prefix (awriter_of w)))"
    using "6.IH" [OF u(1,2), of False] "6.prems" u by (simp add: awriter_of_def)
  from close_refines [OF this, of "''}''"] u show ?case
    by (simp add: jw_obj_close_def a_append_def awriter_of_def)
next
  case (8 w v vs)
  from "8.prems"(2) have d: "length (frames w) + nesting v \<le> JW_MAX_DEPTH"
    "length (frames w) + nesting_items vs \<le> JW_MAX_DEPTH" by auto
  from "8.IH"(1) [OF "8.prems"(1) d(1)] obtain u where
    u: "jw_value w v = Some u" "wf_writer u" "awriter_of u = a_append (a_prefix (awriter_of w)) (render v)"
    by (auto elim: refinesE)
  with "8.prems"(3) have f: "frames u = (JW_CONTAINER_ARR, True) # fs"
      "jw_buf u = jw_buf w @ (if h then '','' else []) @ render v"
    by (auto simp: awriter_of_def a_append_def)
  have "refines (jw_items u vs) (jw_buf u @ render_items True vs, (JW_CONTAINER_ARR, True) # fs)"
    using "8.IH"(2) [OF u(1,2), of True fs] f d "8.prems"(3) by simp
  with u f show ?case by simp
next
  case (10 w k v ms)
  from "10.prems"(2) have d: "length (frames w) + nesting v \<le> JW_MAX_DEPTH"
    "length (frames w) + nesting_members ms \<le> JW_MAX_DEPTH" by auto
  from jw_key_refines [OF "10.prems"(1,3)] obtain x where
    x: "jw_key w k = Some x" "wf_writer x" "awriter_of x = a_key (awriter_of w) k" by (auto elim: refinesE)
  with "10.prems"(3) have fx: "frames x = (JW_CONTAINER_OBJ, True) # fs"
      "jw_buf x = jw_buf w @ (if h then '','' else []) @ render_string k @ '':''"
    by (auto simp: awriter_of_def)
  from "10.IH"(1) [OF x(1,2)] fx d "10.prems"(3) obtain u where
    u: "jw_value x v = Some u" "wf_writer u" "awriter_of u = a_append (a_prefix (awriter_of x)) (render v)"
    by (auto elim: refinesE)
  with fx have f: "frames u = (JW_CONTAINER_OBJ, True) # fs" "jw_buf u = jw_buf x @ render v"
    by (auto simp: awriter_of_def a_append_def)
  have "refines (jw_members u ms) (jw_buf u @ render_members True ms, (JW_CONTAINER_OBJ, True) # fs)"
    using "10.IH"(2) [OF x(1) u(1,2), of True fs] f d "10.prems"(3) by simp
  with x u f fx show ?case by simp
qed (auto simp: jw_scalar_defs render_number_def intro!: scalar_refines, auto simp: refines_def awriter_of_def)

text \<open>Past the arrays it is not: the opening call writes entry \<open>JW_MAX_DEPTH\<close>.\<close>

lemma jw_open_undefined:
  assumes "wf_writer w" "length (frames w) = JW_MAX_DEPTH"
  shows "jw_open c br w = None"
proof -
  from value_prefix_refines [OF assms(1)] obtain u where u: "jw_value_prefix w = Some u" "wf_writer u"
    "awriter_of u = a_prefix (awriter_of w)" by (auto elim: refinesE)
  have "length (frames u) = JW_MAX_DEPTH"
    using a_prefix_length [of "awriter_of w"] assms(2) unfolding u(3) [symmetric] by (simp add: awriter_of_def)
  with depth_frames [OF u(2)] u(1,2) show ?thesis by (simp add: jw_open_def arr_set_def wf_writer_def)
qed

lemma jw_open_some:
  assumes "wf_writer w" "length (frames w) < JW_MAX_DEPTH"
  obtains u h where "jw_open c br w = Some u" "wf_writer u" "frames u = (c, False) # snd (a_prefix (awriter_of w))"
    "length (frames u) = Suc (length (frames w))"
proof -
  have "jw_depth w < int JW_MAX_DEPTH" using depth_frames [OF assms(1)] assms(2) by simp
  from jw_open_refines [OF assms(1) this, of c br] a_prefix_length [of "awriter_of w"] that show ?thesis
    by (auto simp: case_prod_beta awriter_of_def elim!: refinesE)
qed

lemma jw_value_undefined:
  "wf_writer w \<Longrightarrow> JW_MAX_DEPTH < length (frames w) + nesting v \<Longrightarrow> jw_value w v = None"
  "wf_writer w \<Longrightarrow> JW_MAX_DEPTH < length (frames w) + nesting_items vs \<Longrightarrow>
     frames w = (JW_CONTAINER_ARR, h) # fs \<Longrightarrow> jw_items w vs = None"
  "wf_writer w \<Longrightarrow> JW_MAX_DEPTH < length (frames w) + nesting_members ms \<Longrightarrow>
     frames w = (JW_CONTAINER_OBJ, h) # fs \<Longrightarrow> jw_members w ms = None"
proof (induction w v and w vs and w ms arbitrary: and h fs and h fs rule: jw_value_jw_items_jw_members.induct)
  case (5 w vs)
  show ?case
  proof (cases "length (frames w) < JW_MAX_DEPTH")
    case True
    from jw_open_some [OF "5.prems"(1) this, of JW_CONTAINER_ARR "''[''"] obtain u where
      u: "jw_arr_open w = Some u" "wf_writer u" "frames u = (JW_CONTAINER_ARR, False) # snd (a_prefix (awriter_of w))"
        "length (frames u) = Suc (length (frames w))" by (auto simp: jw_arr_open_def)
    from "5.IH" [OF u(1,2) _ u(3)] u "5.prems"(2) show ?thesis by simp
  next
    case False
    then have "length (frames w) = JW_MAX_DEPTH"
      using depth_frames [OF "5.prems"(1)] "5.prems"(1) by (simp add: wf_writer_def)
    from jw_open_undefined [OF "5.prems"(1) this] show ?thesis by (simp add: jw_arr_open_def)
  qed
next
  case (6 w ms)
  show ?case
  proof (cases "length (frames w) < JW_MAX_DEPTH")
    case True
    from jw_open_some [OF "6.prems"(1) this, of JW_CONTAINER_OBJ "''{''"] obtain u where
      u: "jw_obj_open w = Some u" "wf_writer u" "frames u = (JW_CONTAINER_OBJ, False) # snd (a_prefix (awriter_of w))"
        "length (frames u) = Suc (length (frames w))" by (auto simp: jw_obj_open_def)
    from "6.IH" [OF u(1,2) _ u(3)] u "6.prems"(2) show ?thesis by simp
  next
    case False
    then have "length (frames w) = JW_MAX_DEPTH"
      using depth_frames [OF "6.prems"(1)] "6.prems"(1) by (simp add: wf_writer_def)
    from jw_open_undefined [OF "6.prems"(1) this] show ?thesis by (simp add: jw_obj_open_def)
  qed
next
  case (8 w v vs)
  show ?case
  proof (cases "length (frames w) + nesting v \<le> JW_MAX_DEPTH")
    case True
    from jw_value_refines(1) [OF "8.prems"(1) True] obtain u where
      u: "jw_value w v = Some u" "wf_writer u" "awriter_of u = a_append (a_prefix (awriter_of w)) (render v)"
      by (auto elim: refinesE)
    with "8.prems"(3) have "frames u = (JW_CONTAINER_ARR, True) # fs" by (auto simp: awriter_of_def a_append_def)
    with "8.IH"(2) [OF u(1,2)] u(1) True "8.prems"(2,3) show ?thesis by simp
  next
    case False
    with "8.IH"(1) "8.prems"(1) show ?thesis by simp
  qed
next
  case (10 w k v ms)
  from jw_key_refines [OF "10.prems"(1,3)] obtain x where
    x: "jw_key w k = Some x" "wf_writer x" "awriter_of x = a_key (awriter_of w) k" by (auto elim: refinesE)
  with "10.prems"(3) have fx: "frames x = (JW_CONTAINER_OBJ, True) # fs" by (auto simp: awriter_of_def)
  show ?case
  proof (cases "length (frames w) + nesting v \<le> JW_MAX_DEPTH")
    case True
    then have "length (frames x) + nesting v \<le> JW_MAX_DEPTH" using fx "10.prems"(3) by simp
    from jw_value_refines(1) [OF x(2) this] obtain u where
      u: "jw_value x v = Some u" "wf_writer u" "awriter_of u = a_append (a_prefix (awriter_of x)) (render v)"
      by (auto elim: refinesE)
    with fx have "frames u = (JW_CONTAINER_OBJ, True) # fs" by (auto simp: awriter_of_def a_append_def)
    with "10.IH"(2) [OF x(1) u(1,2)] x(1) u(1) True "10.prems"(2,3) show ?thesis by simp
  next
    case False
    with "10.IH"(1) [OF x(1,2)] x(1) fx "10.prems"(3) show ?thesis by simp
  qed
qed (use frames_bound in fastforce)+

end
