(* ===== verification/Json_Roundtrip.thy ===== *)
theory Json_Roundtrip
  imports Json_Write
begin

text \<open>
  The parser and the writer of \<open>daemon/src/json.c\<close> against each other: the reference text of
  a value parses back to the value, whatever follows it, provided its strings are C strings and
  its numbers are the integers \<open>jw_value\<close> writes through \<open>jw_int\<close>.  Together with the
  refinement of the writer this gives the round trip every persisted file of the daemon relies on.
\<close>

section \<open>Values the writer reproduces exactly\<close>

definition exact_number :: "double \<Rightarrow> bool" where
  "exact_number d = (d = ll2d (d2ll d))"

fun exact_json :: "json \<Rightarrow> bool" and exact_items :: "json list \<Rightarrow> bool"
  and exact_members :: "(string \<times> json) list \<Rightarrow> bool"
where
  "exact_json (JNumber d) = exact_number d"
| "exact_json (JString s) = is_c_str s"
| "exact_json (JArray vs) = exact_items vs"
| "exact_json (JObject ms) = exact_members ms"
| "exact_json _ = True"
| "exact_items [] = True"
| "exact_items (v # vs) = (exact_json v \<and> exact_items vs)"
| "exact_members [] = True"
| "exact_members ((k, v) # ms) = (is_c_str k \<and> exact_json v \<and> exact_members ms)"

section \<open>Strings\<close>

lemma hex_digits_invertible: "list_all (\<lambda>n. hex_digit (hex_char n) = Some n) [0..<16]"
  by code_simp

lemma hex_digit_hex_char [simp]: "n < 16 \<Longrightarrow> hex_digit (hex_char n) = Some n"
  using hex_digits_invertible by (simp add: list_all_iff)

lemma fst_foldl_str_append: "fst (foldl str_append b t) = fst b @ t"
  by (induction t arbitrary: b) (auto simp: str_append_def case_prod_beta)

lemma parse_u_escape_00:
  assumes "a < 16" "b < 16"
  shows "parse_u_escape (CHR ''u'' # CHR ''0'' # CHR ''0'' # hex_char a # hex_char b # r) = Some (a * 16 + b, r)"
proof -
  have "hex_digit (CHR ''0'') = Some 0" by (simp add: hex_digit_def)
  moreover have "a * 16 + b < 256" using assms by simp
  ultimately show ?thesis using assms by (simp add: parse_u_escape_def Let_def)
qed

lemma parse_u_escape_control:
  assumes "n < 0x20"
  shows "parse_u_escape (CHR ''u'' # CHR ''0'' # CHR ''0'' # hex_char (n div 16) # hex_char (n mod 16) # r) = Some (n, r)"
proof -
  have "n div 16 < 16" "n mod 16 < 16" using assms by auto
  from parse_u_escape_00 [OF this, of r] show ?thesis by (simp only: div_mult_mod_eq)
qed

lemma parse_string_body_escape_char:
  "parse_string_body (escape_char c @ r) b = parse_string_body r (str_append b c)"
proof (cases "c = CHR 0x22 \<or> c = CHR 0x5C \<or> c = CHR 0x0A \<or> c = CHR 0x09 \<or> c = CHR 0x0D \<or>
    c = CHR 0x08 \<or> c = CHR 0x0C")
  case True
  then show ?thesis by (elim disjE; simp add: escape_char_def simple_escape_def)
next
  case False
  show ?thesis
  proof (cases "(of_char c :: nat) < 0x20")
    case True
    with False have "escape_char c = [CHR 0x5C, CHR ''u'', CHR ''0'', CHR ''0'', hex_char (of_char c div 16),
        hex_char (of_char c mod 16)]"
      by (simp only: escape_char_def de_Morgan_disj if_True if_False simp_thms)
    moreover have "utf8_encode (of_char c) = [c]" using True by (simp add: utf8_encode_def)
    moreover note parse_u_escape_control [OF True, of r]
    ultimately show ?thesis by (simp add: simple_escape_def)
  next
    case large: False
    with False have "escape_char c = [c]"
      by (simp only: escape_char_def de_Morgan_disj if_True if_False simp_thms)
    with False show ?thesis by simp
  qed
qed

lemma parse_string_body_escaped:
  "is_c_str t \<Longrightarrow> parse_string_body (concat (map escape_char t) @ CHR 0x22 # r) b = Some (foldl str_append b t, r)"
  by (induction t arbitrary: b) (auto simp: parse_string_body_escape_char)

lemma parse_render_string: "is_c_str t \<Longrightarrow> parse_string_raw (render_string t @ r) = Some (t, r)"
  using fst_foldl_str_append [of "([], 32)" t]
  by (simp add: parse_string_raw_def render_string_def parse_string_body_escaped case_prod_beta)

section \<open>Integers\<close>

text \<open>What may follow a number without being read as part of it.\<close>

definition number_ends :: "string \<Rightarrow> bool" where
  "number_ends r = (case r of [] \<Rightarrow> True
     | c # _ \<Rightarrow> \<not> is_digit c \<and> c \<noteq> CHR ''.'' \<and> c \<noteq> CHR ''e'' \<and> c \<noteq> CHR ''E'')"

lemma take_digits_run:
  "(\<And>c. c \<in> set ds \<Longrightarrow> is_digit c) \<Longrightarrow> number_ends r \<Longrightarrow> take_digits (ds @ r) = (ds, r)"
  by (induction ds) (auto simp: take_digits_def number_ends_def split: list.splits)

lemma take_char_ends:
  "number_ends r \<Longrightarrow> take_char (\<lambda>c. c = CHR ''.'') r = ([], r)"
  "number_ends r \<Longrightarrow> take_char (\<lambda>c. c = CHR ''e'' \<or> c = CHR ''E'') r = ([], r)"
  by (auto simp: number_ends_def take_char_def split: list.splits)

lemma nat_dec_Cons: "\<exists>c cs. nat_dec n = c # cs \<and> is_digit c"
  using nat_dec_nonempty [of n] nat_dec_digits [of _ n] by (cases "nat_dec n") auto

lemma not_digit_minus: "is_digit c \<Longrightarrow> c \<noteq> CHR ''-''"
  by (auto simp: is_digit_iff)

lemma number_token_int: "number_ends r \<Longrightarrow> number_token (int_dec i @ r) = (int_dec i, r)"
proof -
  assume r: "number_ends r"
  have tok: "number_token (nat_dec n @ r) = (nat_dec n, r)"
    "number_token (CHR ''-'' # nat_dec n @ r) = (CHR ''-'' # nat_dec n, r)" for n
  proof -
    obtain c cs where c: "nat_dec n = c # cs" "is_digit c" using nat_dec_Cons by blast
    then have m: "take_char (\<lambda>c. c = CHR ''-'') (nat_dec n @ r) = ([], nat_dec n @ r)"
      "take_char (\<lambda>c. c = CHR ''-'') (CHR ''-'' # nat_dec n @ r) = ([CHR ''-''], nat_dec n @ r)"
      by (auto simp: take_char_def dest: not_digit_minus)
    have d: "take_digits (nat_dec n @ r) = (nat_dec n, r)"
      by (rule take_digits_run [OF nat_dec_digits r])
    show "number_token (nat_dec n @ r) = (nat_dec n, r)"
      "number_token (CHR ''-'' # nat_dec n @ r) = (CHR ''-'' # nat_dec n, r)"
      by (simp_all add: number_token_def m d take_char_ends [OF r])
  qed
  then show ?thesis by (simp add: int_dec_def)
qed

lemma takeWhile_digits: "(\<And>c. c \<in> set ds \<Longrightarrow> is_digit c) \<Longrightarrow> takeWhile is_digit ds = ds"
  "(\<And>c. c \<in> set ds \<Longrightarrow> is_digit c) \<Longrightarrow> dropWhile is_digit ds = []"
  by (auto simp: takeWhile_eq_all_conv)

lemma strtod_int_dec: "strtod (int_dec i) = ll2d i"
proof -
  have nat: "strtod (nat_dec n) = rnd_double (of_nat n)" "strtod (CHR ''-'' # nat_dec n) = rnd_double (- of_nat n)" for n
  proof -
    obtain c cs where c: "nat_dec n = c # cs" "is_digit c" using nat_dec_Cons by blast
    then have m: "(case nat_dec n of [] \<Rightarrow> False | c # _ \<Rightarrow> c = CHR ''-'') = False"
      by (auto dest: not_digit_minus)
    have d: "takeWhile is_digit (nat_dec n) = nat_dec n" "dropWhile is_digit (nat_dec n) = []"
      using takeWhile_digits [of "nat_dec n"] nat_dec_digits by auto
    show "strtod (nat_dec n) = rnd_double (of_nat n)" "strtod (CHR ''-'' # nat_dec n) = rnd_double (- of_nat n)"
      unfolding strtod_def m by (simp_all add: d pow10_def)
  qed
  show ?thesis by (cases "i < 0") (auto simp: int_dec_def nat ll2d_def of_nat_nat)
qed

lemma parse_number_exact:
  assumes "exact_number d" "number_ends r"
  shows "parse_number (int_dec (d2ll d) @ r) = Some (JNumber d, r)"
proof -
  have "length (int_dec (d2ll d)) \<le> 20" using d2ll_range [of d] by (intro int_dec_length) auto
  moreover have "int_dec (d2ll d) \<noteq> []" by (simp add: int_dec_def)
  moreover have "strtod (int_dec (d2ll d)) = d"
    using assms(1) by (simp add: strtod_int_dec exact_number_def)
  ultimately show ?thesis by (simp add: parse_number_def number_token_int [OF assms(2)])
qed

section \<open>Values\<close>

lemma skip_ws_Cons [simp]: "skip_ws (c # cs) = (if is_ws c then skip_ws cs else c # cs)" "skip_ws [] = []"
  by (auto simp: skip_ws_def)

lemma is_ws_simps [simp]:
  "\<not> is_ws (CHR '','')" "\<not> is_ws (CHR '']'')" "\<not> is_ws (CHR ''}'')" "\<not> is_ws (CHR '':'')"
  "\<not> is_ws (CHR ''{'')" "\<not> is_ws (CHR ''['')" "\<not> is_ws (CHR 0x22)" "\<not> is_ws (CHR ''-'')"
  by (simp_all add: is_ws_def)

lemma not_ws_digit: "is_digit c \<Longrightarrow> \<not> is_ws c"
  by (auto simp: is_ws_def is_digit_iff)

lemma number_ends_simps [simp]:
  "number_ends []" "number_ends (CHR '','' # r)" "number_ends (CHR '']'' # r)" "number_ends (CHR ''}'' # r)"
  by (simp_all add: number_ends_def is_digit_iff)

lemma int_dec_Cons: "\<exists>c cs. int_dec i = c # cs \<and> (c = CHR ''-'' \<or> is_digit c)"
  using nat_dec_Cons [of "nat i"] by (cases "i < 0") (auto simp: int_dec_def)

lemma parse_value_scalar:
  "\<not> is_ws c \<Longrightarrow> c \<noteq> CHR ''{'' \<Longrightarrow> c \<noteq> CHR ''['' \<Longrightarrow> parse_value (c # cs) = parse_scalar (c # cs)"
  by (simp add: parse_value.simps)

lemma digit_head_facts:
  assumes "c = CHR ''-'' \<or> is_digit c"
  shows "\<not> is_ws c" "c \<noteq> CHR ''{''" "c \<noteq> CHR ''[''" "c \<noteq> CHR '']''" "c \<noteq> CHR ''}''" "c \<noteq> CHR 0x22"
    "c \<noteq> CHR ''t''" "c \<noteq> CHR ''f''" "c \<noteq> CHR ''n''"
  using assms not_ws_digit by (auto simp: is_digit_iff)

lemma parse_value_number:
  assumes "exact_number d" "number_ends r"
  shows "parse_value (int_dec (d2ll d) @ r) = Some (JNumber d, r)"
proof -
  obtain c cs where c: "int_dec (d2ll d) = c # cs" "c = CHR ''-'' \<or> is_digit c" using int_dec_Cons by blast
  note h = digit_head_facts [OF c(2)]
  have "parse_value (int_dec (d2ll d) @ r) = parse_scalar (int_dec (d2ll d) @ r)"
    using h c(1) by (simp add: parse_value_scalar)
  also have "\<dots> = parse_number (int_dec (d2ll d) @ r)"
    using h c by (simp add: parse_scalar_def)
  finally show ?thesis by (simp add: parse_number_exact assms)
qed

lemma render_string_Cons: "render_string s = CHR 0x22 # concat (map escape_char s) @ [CHR 0x22]"
  by (simp add: render_string_def)

lemma render_hd:
  assumes "exact_json v"
  shows "render v \<noteq> [] \<and> \<not> is_ws (hd (render v)) \<and> hd (render v) \<noteq> CHR '']'' \<and> hd (render v) \<noteq> CHR ''}''"
proof (cases v)
  case (JNumber d)
  obtain c cs where c: "int_dec (d2ll d) = c # cs" "c = CHR ''-'' \<or> is_digit c" using int_dec_Cons by blast
  moreover have "render v = int_dec (d2ll d)"
    using assms JNumber by (simp add: render_number_def exact_number_def)
  ultimately show ?thesis using digit_head_facts [OF c(2)] by simp
qed (simp_all add: render_string_Cons is_ws_def)

lemma render_head:
  assumes "exact_json v"
  obtains c cs where "render v = c # cs" "\<not> is_ws c" "c \<noteq> CHR '']''" "c \<noteq> CHR ''}''"
  using render_hd [OF assms] that by (metis list.collapse)

lemma render_items_True: "vs \<noteq> [] \<Longrightarrow> render_items True vs = CHR '','' # render_items False vs"
  by (cases vs) auto

lemma render_members_True: "ms \<noteq> [] \<Longrightarrow> render_members True ms = CHR '','' # render_members False ms"
  by (cases ms) auto

lemma skip_ws_render: "exact_json v \<Longrightarrow> skip_ws (render v @ r) = render v @ r"
  by (erule render_head [of v]) auto

lemma skip_ws_render_items:
  "exact_items vs \<Longrightarrow> vs \<noteq> [] \<Longrightarrow> skip_ws (render_items False vs @ r) = render_items False vs @ r"
  by (cases vs) (auto simp: skip_ws_render)

lemma parse_render:
  "exact_json v \<Longrightarrow> number_ends r \<Longrightarrow> parse_value (render v @ r) = Some (v, r)"
  "exact_items vs \<Longrightarrow> vs \<noteq> [] \<Longrightarrow>
     parse_items (render_items False vs @ CHR '']'' # r) acc = Some (JArray (acc @ vs), r)"
  "exact_members ms \<Longrightarrow> ms \<noteq> [] \<Longrightarrow>
     parse_members (render_members False ms @ CHR ''}'' # r) macc = Some (JObject (macc @ ms), r)"
proof (induction v and vs and ms arbitrary: r and r acc and r macc
    rule: exact_json_exact_items_exact_members.induct)
  case (2 s)
  then show ?case
    using parse_render_string [of s r] by (simp add: render_string_Cons parse_value_scalar parse_scalar_def)
next
  case (3 vs)
  show ?case
  proof (cases vs)
    case (Cons v us)
    from "3.prems" Cons have "exact_json v" by simp
    then obtain c cs where c: "render v = c # cs" "\<not> is_ws c" "c \<noteq> CHR '']''" by (rule render_head)
    from "3.IH" "3.prems" Cons have
      "parse_items (render_items False vs @ CHR '']'' # r) [] = Some (JArray vs, r)" by simp
    with c Cons show ?thesis by (simp add: parse_value.simps parse_array.simps)
  qed (simp add: parse_value.simps parse_array.simps)
next
  case (4 ms)
  show ?case
  proof (cases ms)
    case (Cons m us)
    obtain k v where m: "m = (k, v)" by (cases m)
    from "4.IH" "4.prems" Cons have
      "parse_members (render_members False ms @ CHR ''}'' # r) [] = Some (JObject ms, r)" by simp
    with Cons m show ?thesis by (simp add: parse_value.simps parse_object.simps render_string_Cons)
  qed (simp add: parse_value.simps parse_object.simps)
next
  case (7 v vs)
  show ?case
  proof (cases "vs = []")
    case True
    with "7.IH"(1) [of "CHR '']'' # r"] "7.prems" show ?thesis by (simp add: parse_items.simps)
  next
    case False
    with "7.prems" have "skip_ws (render_items False vs @ CHR '']'' # r) = render_items False vs @ CHR '']'' # r"
      by (simp add: skip_ws_render_items)
    with False "7.IH"(1) [of "render_items True vs @ CHR '']'' # r"] "7.IH"(2) [of r "acc @ [v]"] "7.prems"
    show ?thesis by (simp add: parse_items.simps [of "render v @ _"] render_items_True)
  qed
next
  case (9 k v ms)
  have k: "parse_string_raw (skip_ws (render_string k @ t)) = Some (k, t)" for t
    using parse_render_string [of k t] "9.prems" by (simp add: render_string_Cons)
  show ?case
  proof (cases "ms = []")
    case True
    with "9.IH"(1) [of "CHR ''}'' # r"] "9.prems" k show ?thesis by (simp add: parse_members.simps)
  next
    case False
    with "9.IH"(1) [of "render_members True ms @ CHR ''}'' # r"] "9.IH"(2) [of r "macc @ [(k, v)]"] "9.prems" k
    show ?thesis by (simp add: parse_members.simps [of "render_string k @ _"] render_members_True)
  qed
qed (auto simp: parse_value_scalar parse_scalar_def is_ws_def render_number_def exact_number_def
      intro: parse_value_number [unfolded exact_number_def])

text \<open>The text of a value, and what \<open>json_parse\<close> makes of it.\<close>

lemma json_parse_render: "exact_json v \<Longrightarrow> json_parse (render v) = Some v"
  using parse_render(1) [of v "[]"] by (simp add: json_parse_def)

lemma wf_writer_init:
  "length (jw_stack w) = JW_MAX_DEPTH \<Longrightarrow> length (jw_has_item w) = JW_MAX_DEPTH \<Longrightarrow>
     wf_writer (jw_init w) \<and> frames (jw_init w) = [] \<and> jw_buf (jw_init w) = []"
  by (simp add: wf_writer_def jw_init_def frames_def)

lemma jw_value_init:
  assumes "length (jw_stack w) = JW_MAX_DEPTH" "length (jw_has_item w) = JW_MAX_DEPTH" "nesting v \<le> JW_MAX_DEPTH"
  shows "\<exists>w'. jw_value (jw_init w) v = Some w' \<and> wf_writer w' \<and> jw_buf w' = render v \<and> jw_depth w' = 0"
proof -
  note i = wf_writer_init [OF assms(1,2)]
  have "refines (jw_value (jw_init w) v) (a_append (a_prefix (awriter_of (jw_init w))) (render v))"
    using i assms(3) by (intro jw_value_refines(1)) auto
  then obtain w' where w': "jw_value (jw_init w) v = Some w'" "wf_writer w'" "awriter_of w' = (render v, [])"
    using i by (auto simp: awriter_of_def a_append_def elim: refinesE)
  then have "frames w' = []" "jw_buf w' = render v" by (auto simp: awriter_of_def)
  with depth_frames [OF w'(2)] w' show ?thesis by auto
qed

section \<open>The types a parse guarantees\<close>

text \<open>Strings and keys are C strings and numbers are double values.\<close>

fun typed_json :: "json \<Rightarrow> bool" where
  "typed_json (JNumber d) = is_double d"
| "typed_json (JString s) = is_c_str s"
| "typed_json (JArray vs) = (\<forall>v \<in> set vs. typed_json v)"
| "typed_json (JObject ms) = (\<forall>(k, v) \<in> set ms. is_c_str k \<and> typed_json v)"
| "typed_json _ = True"

lemma parse_string_raw_c_str: "parse_string_raw s = Some (t, r) \<Longrightarrow> is_c_str t"
  by (auto simp: parse_string_raw_def split: list.splits if_splits option.splits prod.splits)

lemma parse_scalar_typed: "parse_scalar s = Some (v, r) \<Longrightarrow> typed_json v"
  by (auto simp: parse_scalar_def parse_number_def split: list.splits if_splits option.splits prod.splits
      dest: parse_string_raw_c_str)

lemma parse_typed:
  "parse_value s = Some (v, r) \<Longrightarrow> typed_json v"
  "parse_array s = Some (v, r) \<Longrightarrow> typed_json v"
  "\<forall>u \<in> set us. typed_json u \<Longrightarrow> parse_items s us = Some (v, r) \<Longrightarrow> typed_json v"
  "parse_object s = Some (v, r) \<Longrightarrow> typed_json v"
  "\<forall>(k, u) \<in> set ms. is_c_str k \<and> typed_json u \<Longrightarrow> parse_members s ms = Some (v, r) \<Longrightarrow> typed_json v"
proof (induction s and s and s us and s and s ms arbitrary: v r and v r and v r and v r and v r
    rule: parse_value_parse_array_parse_items_parse_object_parse_members.induct)
  case (1 s)
  from "1.prems" obtain c cs where c: "skip_ws s = c # cs"
    by (auto simp: parse_value.simps split: list.splits)
  show ?case
  proof (cases "c = CHR ''{'' \<or> c = CHR ''[''")
    case True
    with "1.IH"(1) [OF c] "1.IH"(2) [OF c] "1.prems" c show ?thesis by (auto simp: parse_value.simps)
  next
    case False
    with "1.prems" c have "parse_scalar (c # cs) = Some (v, r)" by (simp add: parse_value.simps)
    then show ?thesis by (rule parse_scalar_typed)
  qed
next
  case (2 s)
  show ?case
  proof (cases "skip_ws s")
    case Nil
    with "2.IH"(1) [OF Nil] "2.prems" show ?thesis by (simp add: parse_array.simps)
  next
    case (Cons c cs)
    with "2.IH"(2) [OF Cons] "2.prems" show ?thesis by (auto simp: parse_array.simps split: if_splits)
  qed
next
  case (3 s acc)
  from "3.prems"(2) obtain v1 r1 c cs where p: "parse_value s = Some (v1, r1)" "skip_ws r1 = c # cs"
    by (auto simp: parse_items.simps split: option.splits list.splits)
  have "typed_json v1" using "3.IH"(1) p(1) by blast
  with "3.prems" "3.IH"(2) [OF p(1) refl p(2)] p show ?case
    by (auto simp: parse_items.simps [of s] split: if_splits)
next
  case (4 s)
  show ?case
  proof (cases "skip_ws s")
    case Nil
    with "4.IH"(1) [OF Nil] "4.prems" show ?thesis by (simp add: parse_object.simps)
  next
    case (Cons c cs)
    with "4.IH"(2) [OF Cons] "4.prems" show ?thesis by (auto simp: parse_object.simps split: if_splits)
  qed
next
  case (5 s acc)
  from "5.prems"(2) obtain k r0 c cs v1 r1 d ds where
    p: "parse_string_raw (skip_ws s) = Some (k, r0)" "skip_ws r0 = c # cs" "\<not> c \<noteq> CHR '':''"
      "parse_value cs = Some (v1, r1)" "skip_ws r1 = d # ds"
    by (auto simp: parse_members.simps [of s] split: option.splits list.splits if_splits)
  have "typed_json v1" "is_c_str k" using "5.IH"(1) p by (blast, blast dest: parse_string_raw_c_str)
  with "5.prems" "5.IH"(2) [OF p(1) refl p(2,3,4) refl p(5)] p show ?case
    by (auto simp: parse_members.simps [of s] split: if_splits)
qed

section \<open>Bounds of the two growing buffers\<close>

text \<open>The string buffer always has room for the terminating NUL written at its end.\<close>

definition strbuf_ok :: "strbuf \<Rightarrow> bool" where
  "strbuf_ok b = (length (fst b) + 1 \<le> snd b \<and> 2 \<le> snd b)"

lemma str_append_ok: "strbuf_ok b \<Longrightarrow> strbuf_ok (str_append b c)"
  by (auto simp: strbuf_ok_def str_append_def split: prod.splits)

lemma foldl_str_append_ok: "strbuf_ok b \<Longrightarrow> strbuf_ok (foldl str_append b cs)"
  by (induction cs arbitrary: b) (simp_all add: str_append_ok)

lemma parse_string_body_ok: "strbuf_ok b \<Longrightarrow> parse_string_body s b = Some (b', r) \<Longrightarrow> strbuf_ok b'"
proof (induction s b rule: parse_string_body.induct)
  case (2 c cs b)
  consider "c = CHR 0x22" | "c \<noteq> CHR 0x22" "c \<noteq> CHR 0x5C" | "c = CHR 0x5C" by blast
  then show ?case
  proof cases
    case 3
    with "2.prems"(2) obtain e es where e: "cs = e # es" by (cases cs) auto
    show ?thesis
    proof (cases "simple_escape e")
      case None
      with "2.prems"(2) 3 e obtain cp t where t: "e = CHR ''u''" "parse_u_escape cs = Some (cp, t)"
        "parse_string_body t (foldl str_append b (utf8_encode cp)) = Some (b', r)"
        by (auto split: if_splits option.splits)
      from "2.IH"(1) [OF _ 3 e None t(1,2) refl foldl_str_append_ok [OF "2.prems"(1)] t(3)] 3 show ?thesis by simp
    next
      case (Some x)
      with "2.IH"(2) [OF _ 3 e Some str_append_ok [OF "2.prems"(1)]] "2.prems"(2) 3 e show ?thesis by simp
    qed
  qed (use 2 in \<open>auto simp: str_append_ok\<close>)
qed simp

text \<open>After a write the writer's buffer holds the text and a NUL.\<close>

lemma jw_grow_enough: "0 < ncap \<Longrightarrow> need \<le> jw_grow ncap need"
  by (induction ncap need rule: jw_grow.induct) (subst jw_grow.simps, auto)

lemma jw_raw_capacity: "length (jw_buf (jw_raw w s)) + 1 \<le> jw_cap (jw_raw w s)"
proof -
  have "length (jw_buf w) + length s + 1 \<le> jw_cap (jw_ensure w (length s))"
    unfolding jw_ensure_def using jw_grow_enough by auto
  moreover have "jw_buf (jw_ensure w (length s)) = jw_buf w" by (simp add: jw_ensure_def)
  ultimately show ?thesis by (simp add: jw_raw_def Let_def)
qed

end
