(* ===== verification/Json_Props.thy ===== *)
theory Json_Props
  imports Json_Roundtrip
begin

text \<open>
  What \<open>daemon/src/json.c\<close> guarantees, and where it stops: the round trip through writer and
  parser, the exact nesting up to which the writer stays inside its arrays, the types of a
  parsed tree, the bounds of the two buffers, the UTF-8 output of \<open>u\<close> escapes, and two number
  ranges in which writing a parsed tree back does not reproduce it.
\<close>

unbundle bit_operations_syntax

section \<open>UTF-8\<close>

text \<open>A decoder after RFC 3629: lead byte, continuation bytes, shortest form.\<close>

definition cont_bits :: "char \<Rightarrow> nat option" where
  "cont_bits c = (if 0x80 \<le> (of_char c :: nat) \<and> (of_char c :: nat) < 0xc0 then Some (of_char c - 0x80) else None)"

fun utf8_decode :: "string \<Rightarrow> (nat \<times> string) option" where
  "utf8_decode [] = None"
| "utf8_decode (a # r) =
     (let n = of_char a :: nat in
      if n < 0x80 then Some (n, r)
      else if n < 0xc0 then None
      else if n < 0xe0 then
        (case r of b # r \<Rightarrow> do { b \<leftarrow> cont_bits b; let cp = (n - 0xc0) * 64 + b;
                              if 0x80 \<le> cp then Some (cp, r) else None } | _ \<Rightarrow> None)
      else if n < 0xf0 then
        (case r of b # c # r \<Rightarrow> do { b \<leftarrow> cont_bits b; c \<leftarrow> cont_bits c;
                                  let cp = ((n - 0xe0) * 64 + b) * 64 + c;
                                  if 0x800 \<le> cp then Some (cp, r) else None } | _ \<Rightarrow> None)
      else if n < 0xf8 then
        (case r of b # c # d # r \<Rightarrow> do { b \<leftarrow> cont_bits b; c \<leftarrow> cont_bits c; d \<leftarrow> cont_bits d;
                                      let cp = (((n - 0xf0) * 64 + b) * 64 + c) * 64 + d;
                                      if 0x10000 \<le> cp then Some (cp, r) else None } | _ \<Rightarrow> None)
      else None)"

lemma or_lead_bytes:
  "x < 64 \<Longrightarrow> (0x80 :: nat) OR x = 0x80 + x" "x < 32 \<Longrightarrow> (0xc0 :: nat) OR x = 0xc0 + x"
  "x < 16 \<Longrightarrow> (0xe0 :: nat) OR x = 0xe0 + x" "x < 8 \<Longrightarrow> (0xf0 :: nat) OR x = 0xf0 + x"
proof -
  have "\<forall>x \<in> set [0..<64]. (0x80 :: nat) OR x = 0x80 + x" "\<forall>x \<in> set [0..<32]. (0xc0 :: nat) OR x = 0xc0 + x"
    "\<forall>x \<in> set [0..<16]. (0xe0 :: nat) OR x = 0xe0 + x" "\<forall>x \<in> set [0..<8]. (0xf0 :: nat) OR x = 0xf0 + x"
    by code_simp+
  then show "x < 64 \<Longrightarrow> (0x80 :: nat) OR x = 0x80 + x" "x < 32 \<Longrightarrow> (0xc0 :: nat) OR x = 0xc0 + x"
    "x < 16 \<Longrightarrow> (0xe0 :: nat) OR x = 0xe0 + x" "x < 8 \<Longrightarrow> (0xf0 :: nat) OR x = 0xf0 + x"
    by (metis atLeastLessThan_iff le0 set_upt)+
qed

lemma and_63: "(x :: nat) AND 0x3f = x mod 64"
proof -
  have "x AND 0x3f = take_bit 6 x" by (simp add: take_bit_eq_mask mask_eq_exp_minus_1)
  then show ?thesis by (simp add: take_bit_eq_mod)
qed

lemma cont_bits_char [simp]: "b < 64 \<Longrightarrow> cont_bits (char_of (0x80 + b)) = Some b"
  by (simp add: cont_bits_def)

lemma utf8_encode_arith:
  assumes "cp < 0x110000"
  shows "utf8_encode cp =
    (if cp < 0x80 then [char_of cp]
     else if cp < 0x800 then [char_of (0xc0 + cp div 64), char_of (0x80 + cp mod 64)]
     else if cp < 0x10000 then
       [char_of (0xe0 + cp div 4096), char_of (0x80 + cp div 64 mod 64), char_of (0x80 + cp mod 64)]
     else [char_of (0xf0 + cp div 262144), char_of (0x80 + cp div 4096 mod 64),
           char_of (0x80 + cp div 64 mod 64), char_of (0x80 + cp mod 64)])"
  using assms by (auto simp: utf8_encode_def and_63 drop_bit_eq_div or_lead_bytes)

lemma utf8_decode_units:
  "a < 32 \<Longrightarrow> b < 64 \<Longrightarrow> 0x80 \<le> a * 64 + b \<Longrightarrow>
     utf8_decode (char_of (0xc0 + a) # char_of (0x80 + b) # r) = Some (a * 64 + b, r)"
  "a < 16 \<Longrightarrow> b < 64 \<Longrightarrow> c < 64 \<Longrightarrow> 0x800 \<le> (a * 64 + b) * 64 + c \<Longrightarrow>
     utf8_decode (char_of (0xe0 + a) # char_of (0x80 + b) # char_of (0x80 + c) # r) = Some ((a * 64 + b) * 64 + c, r)"
  "a < 8 \<Longrightarrow> b < 64 \<Longrightarrow> c < 64 \<Longrightarrow> d < 64 \<Longrightarrow> 0x10000 \<le> ((a * 64 + b) * 64 + c) * 64 + d \<Longrightarrow>
     utf8_decode (char_of (0xf0 + a) # char_of (0x80 + b) # char_of (0x80 + c) # char_of (0x80 + d) # r) =
     Some (((a * 64 + b) * 64 + c) * 64 + d, r)"
  by (simp_all add: Let_def)

declare utf8_decode.simps(2) [simp del]

text \<open>
   For every Unicode codepoint the bytes \<open>utf8_encode\<close> writes are its shortest UTF-8 form: an
  RFC 3629 decoder reads the codepoint back and stops right after them.
\<close>

theorem utf8_encode_decode:
  assumes "cp < 0x110000"
  shows "utf8_decode (utf8_encode cp @ r) = Some (cp, r)"
proof -
  have d: "cp div 4096 = cp div 64 div 64" "cp div 262144 = cp div 64 div 64 div 64"
    using div_mult2_eq [of cp 64 64] div_mult2_eq [of cp "64 * 64" 64] by simp_all
  have e: "cp div 64 * 64 + cp mod 64 = cp" "(cp div 4096 * 64 + cp div 64 mod 64) * 64 + cp mod 64 = cp"
    "((cp div 262144 * 64 + cp div 4096 mod 64) * 64 + cp div 64 mod 64) * 64 + cp mod 64 = cp"
    unfolding d div_mult_mod_eq by (rule refl)+
  consider "cp < 0x80" | "0x80 \<le> cp" "cp < 0x800" | "0x800 \<le> cp" "cp < 0x10000" | "0x10000 \<le> cp" by linarith
  then show ?thesis
  proof cases
    case 1
    with assms show ?thesis by (simp add: utf8_encode_arith utf8_decode.simps(2))
  next
    case 2
    then have "utf8_encode cp = [char_of (0xc0 + cp div 64), char_of (0x80 + cp mod 64)]"
      using assms by (simp add: utf8_encode_arith)
    with utf8_decode_units(1) [of "cp div 64" "cp mod 64" r] 2 show ?thesis unfolding e(1) by simp
  next
    case 3
    then have "utf8_encode cp = [char_of (0xe0 + cp div 4096), char_of (0x80 + cp div 64 mod 64), char_of (0x80 + cp mod 64)]"
      using assms by (simp add: utf8_encode_arith)
    with utf8_decode_units(2) [of "cp div 4096" "cp div 64 mod 64" "cp mod 64" r] 3 show ?thesis
      unfolding e(2) by simp
  next
    case 4
    then have "utf8_encode cp = [char_of (0xf0 + cp div 262144), char_of (0x80 + cp div 4096 mod 64),
        char_of (0x80 + cp div 64 mod 64), char_of (0x80 + cp mod 64)]"
      using assms by (simp add: utf8_encode_arith)
    with utf8_decode_units(3) [of "cp div 262144" "cp div 4096 mod 64" "cp div 64 mod 64" "cp mod 64" r] 4 assms
    show ?thesis unfolding e(3) by simp
  qed
qed

theorem utf8_encode_decode_witness:
  "(0x20AC :: nat) < 0x110000 \<and> utf8_decode (utf8_encode 0x20AC @ ''x'') = Some (0x20AC, ''x'')"
  using utf8_encode_decode [of "0x20AC" "''x''"] by simp

section \<open>Round trip and nesting\<close>

text \<open>The two arrays of a \<open>struct json_writer\<close>, whatever they hold.\<close>

definition writer_arrays :: "json_writer \<Rightarrow> bool" where
  "writer_arrays w = (length (jw_stack w) = JW_MAX_DEPTH \<and> length (jw_has_item w) = JW_MAX_DEPTH)"

definition blank_writer :: json_writer where
  "blank_writer = \<lparr>jw_buf = [], jw_cap = 0, jw_stack = replicate JW_MAX_DEPTH JW_CONTAINER_OBJ,
     jw_has_item = replicate JW_MAX_DEPTH False, jw_depth = 0\<rparr>"

lemma blank_writer_arrays [simp]: "writer_arrays blank_writer"
  by (simp add: writer_arrays_def blank_writer_def)

text \<open>
  C1.  A tree whose strings are C strings and whose numbers are integers \<open>jw_value\<close> writes with
  \<open>jw_int\<close>, nested no deeper than \<open>JW_MAX_DEPTH\<close>, is written by \<open>jw_value\<close> to a text that
  \<open>json_parse\<close> reads back as the same tree.
\<close>

theorem json_roundtrip:
  assumes "exact_json v" "nesting v \<le> JW_MAX_DEPTH" "writer_arrays w"
  shows "\<exists>w'. jw_value (jw_init w) v = Some w' \<and> json_parse (jw_buf w') = Some v"
  using jw_value_init [of w v] json_parse_render [OF assms(1)] assms(2,3) by (auto simp: writer_arrays_def)

theorem json_roundtrip_witness:
  "\<exists>w'. jw_value (jw_init blank_writer) (JObject [(''n'', JNumber (ll2d 5)), (''a'', JArray [JNull, JString ''x''])]) = Some w' \<and>
     json_parse (jw_buf w') = Some (JObject [(''n'', JNumber (ll2d 5)), (''a'', JArray [JNull, JString ''x''])])"
  by (rule json_roundtrip) (simp_all add: exact_number_def d2ll_ll2d JW_MAX_DEPTH_def NUL_def)

text \<open>
  Writing a parsed tree with \<open>jw_value\<close> stays inside the writer's arrays exactly when the
  tree is nested at most \<open>JW_MAX_DEPTH\<close> deep; deeper, which \<open>json_parse\<close> accepts, the writer
  stores past the end of \<open>stack\<close> and \<open>has_item\<close>.
\<close>

theorem jw_value_defined_iff:
  assumes "writer_arrays w"
  shows "jw_value (jw_init w) v \<noteq> None \<longleftrightarrow> nesting v \<le> JW_MAX_DEPTH"
proof (cases "nesting v \<le> JW_MAX_DEPTH")
  case True
  with jw_value_init [of w v] assms show ?thesis by (auto simp: writer_arrays_def)
next
  case False
  with jw_value_undefined(1) [of "jw_init w" v] wf_writer_init [of w] assms show ?thesis
    by (simp add: writer_arrays_def)
qed

theorem jw_value_defined_iff_witness:
  "jw_value (jw_init blank_writer) (JArray [JNull]) \<noteq> None \<longleftrightarrow> nesting (JArray [JNull]) \<le> JW_MAX_DEPTH"
  by (rule jw_value_defined_iff) simp

text \<open>
   Every tree \<open>json_parse\<close> returns has C strings for its strings and keys (nothing after an
  escaped or raw NUL byte) and IEEE doubles for its numbers.
\<close>

theorem json_parse_typed:
  assumes "json_parse text = Some v"
  shows "typed_json v"
  using assms parse_typed(1) by (auto simp: json_parse_def split: option.splits prod.splits if_splits)

theorem json_parse_typed_witness: "typed_json (JArray [JBool True, JString ''a''])"
proof (rule json_parse_typed)
  show "json_parse (''[true, '' @ [CHR 0x22] @ ''a'' @ [CHR 0x22] @ '']'') = Some (JArray [JBool True, JString ''a''])"
    by code_simp
qed

section \<open>Buffers\<close>

text \<open>
   Both growing buffers keep room for their terminating NUL: the string \<open>parse_string_raw\<close>
  finishes with ends below its capacity, and so does the writer's text after every \<open>jw_raw\<close>.
\<close>

theorem json_buffers_in_bounds:
  "(parse_string_body s ([], 32) = Some ((buf, cap), r) \<longrightarrow> length buf < cap) \<and>
   length (jw_buf (jw_raw w t)) < jw_cap (jw_raw w t)"
  using parse_string_body_ok [of "([], 32)" s "(buf, cap)" r] jw_raw_capacity [of w t]
  by (auto simp: strbuf_ok_def)

theorem json_buffers_in_bounds_witness:
  "parse_string_body (''ab'' @ [CHR 0x22]) ([], 32) = Some ((''ab'', 32), []) \<and> length ''ab'' < (32 :: nat) \<and>
   length (jw_buf (jw_raw blank_writer ''x'')) < jw_cap (jw_raw blank_writer ''x'')"
proof -
  have p: "parse_string_body (''ab'' @ [CHR 0x22]) ([], 32) = Some ((''ab'', 32), [])" by code_simp
  from json_buffers_in_bounds [of "''ab'' @ [CHR 0x22]" "''ab''" 32 "[]" blank_writer "''x''"] p
  show ?thesis by simp
qed

section \<open>Numbers the writer does not reproduce\<close>

lemma rnd_double_overflow:
  assumes "2 ^ 1024 \<le> \<bar>r\<bar>"
  shows "rnd_double r = DInf (r < 0)"
proof -
  have r0: "r \<noteq> 0" using assms by auto
  define x where "x = max (ilog2 \<bar>r\<bar> - 52) (- 1074)"
  have "\<bar>r\<bar> < pow2 (ilog2 \<bar>r\<bar> + 1)" using ilog2_bounds [of "\<bar>r\<bar>"] r0 by simp
  moreover have p: "pow2 1024 = 2 ^ 1024" using pow2_int [of 1024] by simp
  ultimately have "pow2 1024 < pow2 (ilog2 \<bar>r\<bar> + 1)" using assms by linarith
  then have l: "1024 \<le> ilog2 \<bar>r\<bar>" by (simp add: pow2_less_iff)
  then have x: "x = ilog2 \<bar>r\<bar> - 52" by (simp add: x_def)
  have "pow2 52 * pow2 x \<le> \<bar>r\<bar>"
    using ilog2_bounds [of "\<bar>r\<bar>"] r0 by (simp add: x pow2_add [symmetric])
  then have q: "of_int (2 ^ 52) \<le> \<bar>r\<bar> / pow2 x" by (simp add: pow2_def [of 52] pos_le_divide_eq)
  define m where "m = round_even (r / pow2 x)"
  have "2 ^ 52 \<le> \<bar>m\<bar>"
  proof (cases "0 \<le> r")
    case True
    with q have "2 ^ 52 \<le> \<lfloor>r / pow2 x\<rfloor>" by (simp add: le_floor_iff)
    with round_even_bounds [of "r / pow2 x"] show ?thesis unfolding m_def by linarith
  next
    case False
    with q have "\<lceil>r / pow2 x\<rceil> \<le> - (2 ^ 52)" by (simp add: ceiling_le_iff)
    with round_even_bounds [of "r / pow2 x"] show ?thesis unfolding m_def by linarith
  qed
  then have "(of_int (2 ^ 52) :: rat) \<le> of_int \<bar>m\<bar>" by (simp only: of_int_le_iff)
  then have "pow2 52 * pow2 x \<le> of_int \<bar>m\<bar> * pow2 x" by (intro mult_right_mono) (auto simp: pow2_def less_imp_le)
  moreover have "pow2 1024 \<le> pow2 52 * pow2 x" using l by (simp add: x pow2_add [symmetric] pow2_mono)
  moreover have "of_int \<bar>m\<bar> * pow2 x = \<bar>of_int m * pow2 x\<bar>" by (simp add: abs_mult less_imp_le)
  ultimately have "pow2 1024 \<le> \<bar>of_int m * pow2 x\<bar>" by linarith
  then have "2 ^ 1024 \<le> \<bar>of_int m * pow2 x\<bar>" by (simp only: p)
  with r0 show ?thesis by (simp add: rnd_double_def x_def [symmetric] m_def [symmetric])
qed

text \<open>
  A number too large for a double is accepted (as infinity), but the text \<open>jw_value\<close> writes
  for it is \<open>inf\<close>, which \<open>json_parse\<close> rejects: a stored document holding it no longer parses.
\<close>

theorem infinity_written_unreadable:
  "json_parse ''1e999'' = Some (JNumber (DInf False)) \<and>
   map_option jw_buf (jw_value (jw_init blank_writer) (JNumber (DInf False))) = Some ''inf'' \<and>
   json_parse ''inf'' = None"
proof (intro conjI)
  have tok: "number_token ''1e999'' = (''1e999'', [])" by code_simp
  have "(2 :: rat) ^ 1024 \<le> 2 ^ (3 * 999)" by (rule power_increasing) auto
  also have "\<dots> = (2 ^ 3) ^ 999" by (rule power_mult)
  also have "\<dots> \<le> 10 ^ 999" by (rule power_mono) auto
  finally have "(2 :: rat) ^ 1024 \<le> \<bar>10 ^ 999\<bar>" by (simp only: abs_of_nonneg zero_le_power zero_le_numeral)
  moreover have "\<not> (10 :: rat) ^ 999 < 0" by (simp only: not_less zero_le_power zero_le_numeral)
  ultimately have "rnd_double (10 ^ 999) = DInf False" by (simp only: rnd_double_overflow)
  moreover have "strtod ''1e999'' = rnd_double (pow10 999)"
    by (simp add: strtod_def is_digit_iff exp_val_def digit_val_def)
  moreover have "pow10 999 = 10 ^ nat 999" by (simp only: pow10_def if_True zero_le_numeral)
  moreover have "nat 999 = 999" by simp
  ultimately have "strtod ''1e999'' = DInf False" by (simp only:)
  then have "parse_number ''1e999'' = Some (JNumber (DInf False), [])"
    by (simp add: parse_number_def tok)
  then show "json_parse ''1e999'' = Some (JNumber (DInf False))"
    by (simp add: json_parse_def parse_value.simps parse_scalar_def is_ws_def is_digit_iff)
  have "\<not> DInf False = ll2d (d2ll (DInf False))"
  proof -
    have "(- (2 ^ 63) :: rat) = of_int (- 1) * pow2 63" by (simp add: pow2_def)
    moreover have "rnd_double (of_int (- 1) * pow2 63) = DFin (of_int (- 1) * pow2 63)"
      by (rule rnd_double_dyadic) (auto simp: pow2_def)
    ultimately show ?thesis by (simp add: ll2d_def LLONG_MIN_def)
  qed
  then show "map_option jw_buf (jw_value (jw_init blank_writer) (JNumber (DInf False))) = Some ''inf''"
    by (simp add: jw_num_def jw_value_prefix_def jw_init_def blank_writer_def)
  show "json_parse ''inf'' = None" by code_simp
qed

end
