(* ===== verification/Persist.thy ===== *)
theory Persist
  imports Json_Props
begin

text \<open>
  The durable-state helpers of \<open>daemon/src/persist.c\<close>: the write to a temporary file followed
  by a rename (\<open>atomic_write\<close> and its two callers), the write in place, and the read.

  A file system maps the paths of regular files to their contents.  What the kernel answers to
  each system call of one operation is a \<open>write_env\<close> or \<open>read_env\<close>: which calls fail, and how
  many bytes a \<open>write\<close> or \<open>read\<close> transfers.  A write returns the list of the file systems left
  behind by its system calls, newest first, because a crash, or a reader, can see any of them.

  The locale \<open>durable_store\<close> states what the daemon's resource modules rely on, and
  \<open>config_store\<close> adds a module's own encoding of its table: whatever happens during a save, a
  later load sees the table before it or the table it wrote.
\<close>

section \<open>System calls\<close>

type_synonym fs = "string \<rightharpoonup> string"

record write_env =
  we_open :: bool
  we_written :: int
  we_fsync :: bool
  we_rename :: bool
  we_truncate :: bool

record read_env =
  re_open :: bool
  re_fstat :: bool
  re_malloc :: bool
  re_read :: "nat \<Rightarrow> int"

definition PATH_MAX :: nat where
  "PATH_MAX = 4096"

section \<open>Writing\<close>

definition tmp_path :: "string \<Rightarrow> string" where
  "tmp_path path = path @ ''.tmp''"

definition atomic_write :: "write_env \<Rightarrow> string \<Rightarrow> string \<Rightarrow> bool \<Rightarrow> fs \<Rightarrow> fs list \<times> int" where
  "atomic_write env path data durable fs =
     (if PATH_MAX + 8 \<le> length (tmp_path path) then ([fs], - 1)
      else if \<not> we_open env then ([fs], - 1)
      else
        let created = fs(tmp_path path \<mapsto> []);
            filled = fs(tmp_path path \<mapsto> take (nat (we_written env)) data)
        in if we_written env < 0 \<or> we_written env \<noteq> int (length data) then ([filled, created, fs], - 1)
           else if durable \<and> \<not> we_fsync env then ([filled, created, fs], - 1)
           else if \<not> we_rename env then ([filled, created, fs], - 1)
           else ([filled(path := filled (tmp_path path), tmp_path path := None), filled, created, fs], 0))"

definition persist_atomic_write :: "write_env \<Rightarrow> string \<Rightarrow> string \<Rightarrow> fs \<Rightarrow> fs list \<times> int" where
  "persist_atomic_write env path data fs = atomic_write env path data True fs"

definition persist_atomic_replace :: "write_env \<Rightarrow> string \<Rightarrow> string \<Rightarrow> fs \<Rightarrow> fs list \<times> int" where
  "persist_atomic_replace env path data fs = atomic_write env path data False fs"

text \<open>The in-place write overwrites from offset 0 and truncates afterwards.\<close>

definition persist_write_file_inplace :: "write_env \<Rightarrow> string \<Rightarrow> string \<Rightarrow> fs \<Rightarrow> fs list \<times> int" where
  "persist_write_file_inplace env path data fs =
     (if \<not> we_open env then ([fs], - 1)
      else
        let old = (case fs path of None \<Rightarrow> [] | Some c \<Rightarrow> c);
            created = fs(path \<mapsto> old);
            n = nat (we_written env);
            written = fs(path \<mapsto> take n data @ drop (length (take n data)) old)
        in if we_written env < 0 \<or> we_written env \<noteq> int (length data) then ([written, created, fs], - 1)
           else if \<not> we_truncate env then ([written, created, fs], - 1)
           else
             let truncated = fs(path \<mapsto> take (length data) (data @ drop (length data) old))
             in if \<not> we_fsync env then ([truncated, written, created, fs], - 1)
                else ([truncated, written, created, fs], 0))"

section \<open>Reading\<close>

text \<open>\<open>-1\<close>; \<open>0\<close> with a \<open>NULL\<close> buffer; \<open>0\<close> with the bytes.\<close>

datatype read_result = ReadErr | ReadAbsent | ReadData string

definition persist_read_file :: "read_env \<Rightarrow> string \<Rightarrow> fs \<Rightarrow> read_result" where
  "persist_read_file env path fs =
     (if \<not> re_open env then ReadErr
      else case fs path of None \<Rightarrow> ReadAbsent
        | Some data \<Rightarrow>
            if \<not> re_fstat env then ReadErr
            else if \<not> re_malloc env then ReadErr
            else let n = re_read env (length data) in
              if n < 0 \<or> n \<noteq> int (length data) then ReadErr
              else ReadData (take (nat n) data))"

definition healthy_read :: read_env where
  "healthy_read = \<lparr>re_open = True, re_fstat = True, re_malloc = True, re_read = int\<rparr>"

definition healthy_write :: "string \<Rightarrow> write_env" where
  "healthy_write data = \<lparr>we_open = True, we_written = int (length data), we_fsync = True,
     we_rename = True, we_truncate = True\<rparr>"

lemma tmp_path_neq [simp]: "tmp_path path \<noteq> path" "path \<noteq> tmp_path path"
  by (simp_all add: tmp_path_def)

lemma read_healthy [simp]:
  "persist_read_file healthy_read path fs = (case fs path of None \<Rightarrow> ReadAbsent | Some d \<Rightarrow> ReadData d)"
  by (simp add: persist_read_file_def healthy_read_def Let_def split: option.splits)

text \<open>A read never invents bytes: it reports an error, or what the path holds.\<close>

lemma read_sound: "persist_read_file env path fs = ReadData d \<Longrightarrow> fs path = Some d"
  by (auto simp: persist_read_file_def Let_def split: if_splits option.splits)

lemma read_absent: "persist_read_file env path fs = ReadAbsent \<Longrightarrow> fs path = None"
  by (auto simp: persist_read_file_def Let_def split: if_splits option.splits)

section \<open>What a durable write promises\<close>

locale durable_store =
  fixes store :: "write_env \<Rightarrow> string \<Rightarrow> string \<Rightarrow> fs \<Rightarrow> fs list \<times> int"
    and scratch :: "string \<Rightarrow> string"
  assumes visited_nonempty: "fst (store env p d fs) \<noteq> []"
    and rc_cases: "snd (store env p d fs) = 0 \<or> snd (store env p d fs) = - 1"
    and write_ok: "snd (store env p d fs) = 0 \<Longrightarrow> hd (fst (store env p d fs)) p = Some d"
    and write_fails: "snd (store env p d fs) \<noteq> 0 \<Longrightarrow> f \<in> set (fst (store env p d fs)) \<Longrightarrow> f p = fs p"
    and never_torn: "f \<in> set (fst (store env p d fs)) \<Longrightarrow> f p = fs p \<or> f p = Some d"
    and frame: "f \<in> set (fst (store env p d fs)) \<Longrightarrow> q \<noteq> p \<Longrightarrow> q \<noteq> scratch p \<Longrightarrow> f q = fs q"
begin

lemma after_ok: "store env p d fs = (f # v, 0) \<Longrightarrow> f p = Some d"
  using write_ok [of env p d fs] by simp

lemma after_failure: "store env p d fs = (f # v, rc) \<Longrightarrow> rc \<noteq> 0 \<Longrightarrow> f p = fs p"
  using write_fails [of env p d fs f] by simp

lemma after_any: "store env p d fs = (f # v, rc) \<Longrightarrow> f p = (if rc = 0 then Some d else fs p)"
  using after_ok after_failure by auto

text \<open>Two writes to paths that do not collide leave each other's file alone.\<close>

lemma other_file:
  "store env p d fs = (f # v, rc) \<Longrightarrow> q \<noteq> p \<Longrightarrow> q \<noteq> scratch p \<Longrightarrow> f q = fs q"
  using frame [of f env p d fs q] by simp

end

lemma take_data [simp]: "n = int (length d) \<Longrightarrow> take (nat n) d = d"
  by simp

lemma atomic_write_fst: "\<exists>f v. fst (atomic_write env p d dur fs) = f # v"
  by (auto simp: atomic_write_def Let_def)

lemma atomic_write_laws:
  "snd (atomic_write env p d dur fs) = 0 \<or> snd (atomic_write env p d dur fs) = - 1"
  "snd (atomic_write env p d dur fs) = 0 \<Longrightarrow> hd (fst (atomic_write env p d dur fs)) p = Some d"
  "snd (atomic_write env p d dur fs) \<noteq> 0 \<Longrightarrow> f \<in> set (fst (atomic_write env p d dur fs)) \<Longrightarrow> f p = fs p"
  "f \<in> set (fst (atomic_write env p d dur fs)) \<Longrightarrow> f p = fs p \<or> f p = Some d"
  "f \<in> set (fst (atomic_write env p d dur fs)) \<Longrightarrow> q \<noteq> p \<Longrightarrow> q \<noteq> tmp_path p \<Longrightarrow> f q = fs q"
  by (auto simp: atomic_write_def Let_def split: if_splits)

interpretation pw: durable_store persist_atomic_write tmp_path
  unfolding persist_atomic_write_def
  using atomic_write_fst by unfold_locales (auto simp: atomic_write_laws dest: atomic_write_laws(3-5), metis list.distinct(1))

interpretation pr: durable_store persist_atomic_replace tmp_path
  unfolding persist_atomic_replace_def
  using atomic_write_fst by unfold_locales (auto simp: atomic_write_laws dest: atomic_write_laws(3-5), metis list.distinct(1))

lemma healthy_write_succeeds:
  "length p < PATH_MAX \<Longrightarrow> \<exists>f v. persist_atomic_write (healthy_write d) p d fs = (f # v, 0)"
  by (simp add: persist_atomic_write_def atomic_write_def healthy_write_def tmp_path_def Let_def)

text \<open>
  A module that keeps one document on disk adds its encoding.  Whatever state a save leaves
  behind, what a load reads from it is the old document or the new one.
\<close>

locale config_store = durable_store +
  fixes valid :: "'c \<Rightarrow> bool"
    and encode :: "'c \<Rightarrow> string"
    and decode :: "string \<Rightarrow> 'c option"
  assumes decode_encode: "valid c \<Longrightarrow> decode (encode c) = Some c"
begin

lemma reload_ok:
  "store env p (encode c) fs = (f # v, 0) \<Longrightarrow> valid c \<Longrightarrow> \<exists>d. f p = Some d \<and> decode d = Some c"
  using after_ok decode_encode by blast

lemma crash_consistent:
  assumes "valid old" "valid new" "fs p = Some (encode old)" "f \<in> set (fst (store env p (encode new) fs))"
  shows "\<exists>d. f p = Some d \<and> (decode d = Some old \<or> decode d = Some new)"
  using never_torn [OF assms(4)] assms decode_encode by auto

end

section \<open>Documents written call by call\<close>

text \<open>
  The save functions build their text with single \<open>jw_*\<close> calls on a writer on the stack.  A
  sequence of calls that opens, fills and closes a container is \<open>jw_value\<close> on that container,
  so the text is the reference text of a tree.
\<close>

lemma jw_int_value: "\<bar>i\<bar> < 2 ^ 53 \<Longrightarrow> jw_int w i = jw_value w (JNumber (ll2d i))"
  by (simp add: d2ll_ll2d)

lemma jw_value_blank:
  "nesting v \<le> JW_MAX_DEPTH \<Longrightarrow> \<exists>w'. jw_value (jw_init blank_writer) v = Some w' \<and> jw_buf w' = render v"
  using jw_value_init [of blank_writer v] blank_writer_arrays by (auto simp: writer_arrays_def)

lemma exact_number_ll2d [simp]: "\<bar>i\<bar> < 2 ^ 53 \<Longrightarrow> exact_number (ll2d i)"
  by (simp add: exact_number_def d2ll_ll2d)

lemma exact_items_map: "exact_items vs \<longleftrightarrow> (\<forall>v \<in> set vs. exact_json v)"
  by (induction vs) auto

lemma nesting_items_le: "nesting_items vs \<le> n \<longleftrightarrow> (\<forall>v \<in> set vs. nesting v \<le> n)"
  by (induction vs) auto

lemma nesting_members_le: "nesting_members ms \<le> n \<longleftrightarrow> (\<forall>(k, v) \<in> set ms. nesting v \<le> n)"
  by (induction ms) auto

text \<open>A loop that writes one array element per step.\<close>

fun jw_each :: "(json_writer \<Rightarrow> 'a \<Rightarrow> json_writer option) \<Rightarrow> json_writer \<Rightarrow> 'a list \<Rightarrow> json_writer option" where
  "jw_each f w [] = Some w"
| "jw_each f w (x # xs) = do { w \<leftarrow> f w x; jw_each f w xs }"

lemma jw_each_items:
  "(\<And>w x. x \<in> set xs \<Longrightarrow> f w x = jw_value w (g x)) \<Longrightarrow> jw_each f w xs = jw_items w (map g xs)"
  by (induction xs arbitrary: w) (auto cong: Option.bind_cong)

section \<open>Properties\<close>

text \<open>
  C31.  \<open>persist_atomic_write\<close> never tears its target: in every file system any of its system
  calls leaves behind, the path holds what it held before or all of the new bytes; it returns
  \<open>0\<close> exactly when the last of them holds the new bytes through the rename, \<open>-1\<close> leaves the
  target as it was, and no file but the target and its \<open>.tmp\<close> sibling is ever touched.
\<close>

theorem persist_atomic_write_atomic:
  assumes "persist_atomic_write env path data fs = (f # visited, rc)"
  shows "(\<forall>g \<in> set (f # visited). (g path = fs path \<or> g path = Some data) \<and>
           (\<forall>q. q \<noteq> path \<and> q \<noteq> tmp_path path \<longrightarrow> g q = fs q)) \<and>
         (rc = 0 \<or> rc = - 1) \<and> f path = (if rc = 0 then Some data else fs path) \<and>
         (rc = 0 \<longrightarrow> persist_read_file healthy_read path f = ReadData data)"
proof -
  have "(g path = fs path \<or> g path = Some data) \<and> (\<forall>q. q \<noteq> path \<and> q \<noteq> tmp_path path \<longrightarrow> g q = fs q)"
    if "g \<in> set (f # visited)" for g
    using pw.never_torn [of g env path data fs] pw.frame [of g env path data fs] assms that by auto
  moreover have "rc = 0 \<or> rc = - 1" using pw.rc_cases [of env path data fs] assms by simp
  moreover have "f path = (if rc = 0 then Some data else fs path)" using pw.after_any [OF assms] .
  ultimately show ?thesis by simp
qed

theorem persist_atomic_write_atomic_witness:
  "\<exists>f visited. persist_atomic_write (healthy_write ''new'') ''/a'' ''new'' [''/a'' \<mapsto> ''old''] = (f # visited, 0) \<and>
     length visited = 3 \<and> (\<forall>g \<in> set (f # visited). g ''/a'' = Some ''old'' \<or> g ''/a'' = Some ''new'') \<and>
     persist_read_file healthy_read ''/a'' f = ReadData ''new''"
proof -
  obtain f v where f: "persist_atomic_write (healthy_write ''new'') ''/a'' ''new'' [''/a'' \<mapsto> ''old''] = (f # v, 0)"
    "length v = 3"
    by (simp add: persist_atomic_write_def atomic_write_def healthy_write_def tmp_path_def PATH_MAX_def Let_def)
  from persist_atomic_write_atomic [OF f(1)] f show ?thesis by auto
qed

text \<open>New bytes laid over the start of old ones.\<close>

definition overlaid :: "string \<Rightarrow> string \<Rightarrow> string \<Rightarrow> bool" where
  "overlaid data old c = (\<exists>n \<le> length data. c = take n data @ drop n old)"

lemma overlaid_intros:
  "overlaid data old old" "overlaid data old (data @ drop (length data) old)"
  "overlaid data old (take m data @ drop (length (take m data)) old)"
  unfolding overlaid_def
  by (rule exI [of _ 0], simp) (rule exI [of _ "length data"], simp, rule exI [of _ "length (take m data)"], simp add: min_def)

text \<open>
   \<open>persist_write_file_inplace\<close> returns \<open>0\<close> only when the path holds exactly the new bytes,
  and never touches another file.  It is not atomic: a reader can meet new bytes followed by
  the tail of the old file, but no file system it leaves behind holds anything else.
\<close>

theorem persist_inplace_overlays:
  assumes "persist_write_file_inplace env path data fs = (f # visited, rc)" "fs path = Some old"
  shows "(rc = 0 \<longrightarrow> f path = Some data) \<and>
         (\<forall>g \<in> set (f # visited). (\<forall>q. q \<noteq> path \<longrightarrow> g q = fs q) \<and>
            (\<exists>c. g path = Some c \<and> (c = data \<or> overlaid data old c)))"
proof -
  have t: "take (length data) (data @ drop (length data) old) = data" by simp
  have w: "overlaid data old (take (nat k) data @ drop (length (take (nat k) data)) old)" for k
    by (rule overlaid_intros(3))
  show ?thesis
    using assms overlaid_intros(1,2) [of data old] w [of "we_written env"] unfolding t
    by (auto simp: persist_write_file_inplace_def Let_def simp del: length_take split: if_splits)
qed

theorem persist_inplace_overlays_witness:
  "\<exists>f visited. persist_write_file_inplace (healthy_write ''ab'') ''/f'' ''ab'' [''/f'' \<mapsto> ''wxyz''] = (f # visited, 0) \<and>
     f ''/f'' = Some ''ab'' \<and> (\<exists>g \<in> set visited. g ''/f'' = Some ''abyz'')"
proof -
  obtain f v where f: "persist_write_file_inplace (healthy_write ''ab'') ''/f'' ''ab'' [''/f'' \<mapsto> ''wxyz''] = (f # v, 0)"
    "\<exists>g \<in> set v. g ''/f'' = Some ''abyz''"
    by (simp add: persist_write_file_inplace_def healthy_write_def Let_def)
  from persist_inplace_overlays [OF f(1)] f show ?thesis by auto
qed

end
