(* ===== verification/Conn_Throttle.thy ===== *)
theory Conn_Throttle
  imports Persist
begin

text \<open>
  \<open>daemon/src/connthrottle.c\<close>: the table of up to 256 source addresses with their failed TLS
  handshakes and failed authentications, and the persisted configuration.  The globals
  \<open>g_config_path\<close>, \<open>g_config\<close> and \<open>g_table\<close> are the record \<open>throttle\<close>; \<open>time(NULL)\<close> is the
  argument \<open>now\<close>.  A pointer to an entry is its index in the table.

  The lemmas give each operation's effect on the entry of its own source and show that no
  operation on one source is seen by another; the properties read off when a source is blocked.
\<close>

section \<open>State\<close>

definition CONNTHROTTLE_MAX_ENTRIES :: nat where "CONNTHROTTLE_MAX_ENTRIES = 256"
definition CONNTHROTTLE_IP_MAX :: nat where "CONNTHROTTLE_IP_MAX = 16"

record throttle_config =
  cfg_enabled :: int
  cfg_threshold :: int
  cfg_window_seconds :: int
  cfg_block_seconds :: int
  cfg_log_interval_seconds :: int

record throttle_entry =
  te_ip :: string
  te_in_use :: bool
  te_fail_count :: int
  te_window_start :: int
  te_blocked_until :: int
  te_last_logged :: int
  te_auth_fail_count :: int
  te_auth_window_start :: int
  te_auth_blocked_until :: int

record throttle =
  thr_path :: string
  thr_config :: throttle_config
  thr_table :: "throttle_entry list"

definition zero_entry :: throttle_entry where
  "zero_entry = \<lparr>te_ip = [], te_in_use = False, te_fail_count = 0, te_window_start = 0, te_blocked_until = 0,
     te_last_logged = 0, te_auth_fail_count = 0, te_auth_window_start = 0, te_auth_blocked_until = 0\<rparr>"

section \<open>Configuration\<close>

definition throttle_config_writer :: "throttle_config \<Rightarrow> json_writer option" where
  "throttle_config_writer c =
     do { w \<leftarrow> jw_obj_open (jw_init blank_writer);
          w \<leftarrow> jw_key w ''enabled'';
          w \<leftarrow> jw_bool w (cfg_enabled c \<noteq> 0);
          w \<leftarrow> jw_key w ''threshold'';
          w \<leftarrow> jw_int w (cfg_threshold c);
          w \<leftarrow> jw_key w ''window_seconds'';
          w \<leftarrow> jw_int w (cfg_window_seconds c);
          w \<leftarrow> jw_key w ''block_seconds'';
          w \<leftarrow> jw_int w (cfg_block_seconds c);
          w \<leftarrow> jw_key w ''log_interval_seconds'';
          w \<leftarrow> jw_int w (cfg_log_interval_seconds c);
          Some (jw_obj_close w) }"

definition throttle_save_config :: "write_env \<Rightarrow> throttle \<Rightarrow> fs \<Rightarrow> (fs list \<times> int) option" where
  "throttle_save_config env st fs =
     do { w \<leftarrow> throttle_config_writer (thr_config st);
          Some (persist_atomic_write env (thr_path st) (jw_buf w) fs) }"

definition throttle_config_of_json :: "throttle_config \<Rightarrow> json \<Rightarrow> throttle_config" where
  "throttle_config_of_json c doc =
     (let c = (case json_object_get (Some doc) ''enabled'' of
                 Some (JBool b) \<Rightarrow> c\<lparr>cfg_enabled := (if b then 1 else 0)\<rparr> | _ \<Rightarrow> c);
          v = json_object_get (Some doc) ''threshold'';
          c = (if v \<noteq> None then c\<lparr>cfg_threshold := d2i (json_as_number v)\<rparr> else c);
          v = json_object_get (Some doc) ''window_seconds'';
          c = (if v \<noteq> None then c\<lparr>cfg_window_seconds := d2i (json_as_number v)\<rparr> else c);
          v = json_object_get (Some doc) ''block_seconds'';
          c = (if v \<noteq> None then c\<lparr>cfg_block_seconds := d2i (json_as_number v)\<rparr> else c);
          v = json_object_get (Some doc) ''log_interval_seconds''
      in if v \<noteq> None then c\<lparr>cfg_log_interval_seconds := d2i (json_as_number v)\<rparr> else c)"

definition throttle_load_config :: "read_env \<Rightarrow> fs \<Rightarrow> throttle \<Rightarrow> throttle \<times> int" where
  "throttle_load_config env fs st =
     (case persist_read_file env (thr_path st) fs of
        ReadErr \<Rightarrow> (st, - 1)
      | ReadAbsent \<Rightarrow> (st, 0)
      | ReadData buf \<Rightarrow>
          (case json_parse buf of None \<Rightarrow> (st, - 1)
           | Some doc \<Rightarrow> (st\<lparr>thr_config := throttle_config_of_json (thr_config st) doc\<rparr>, 0)))"

definition connthrottle_config_repoint :: "string \<Rightarrow> throttle \<Rightarrow> throttle" where
  "connthrottle_config_repoint new_path st = st\<lparr>thr_path := snprintf_s 512 new_path\<rparr>"

definition default_throttle_config :: throttle_config where
  "default_throttle_config = \<lparr>cfg_enabled = 1, cfg_threshold = 20, cfg_window_seconds = 60,
     cfg_block_seconds = 300, cfg_log_interval_seconds = 5\<rparr>"

definition connthrottle_config_init :: "read_env \<Rightarrow> string \<Rightarrow> fs \<Rightarrow> throttle \<Rightarrow> throttle \<times> int" where
  "connthrottle_config_init env path fs st =
     (let st = st\<lparr>thr_path := snprintf_s 512 path\<rparr> in
      if 512 \<le> length path then (st, - 1)
      else throttle_load_config env fs
             (st\<lparr>thr_config := default_throttle_config,
                 thr_table := replicate CONNTHROTTLE_MAX_ENTRIES zero_entry\<rparr>))"

definition connthrottle_config_get :: "throttle \<Rightarrow> throttle_config" where
  "connthrottle_config_get st = thr_config st"

definition throttle_config_update :: "int \<Rightarrow> int \<Rightarrow> int \<Rightarrow> int \<Rightarrow> int \<Rightarrow> throttle_config \<Rightarrow> throttle_config" where
  "throttle_config_update enabled_flag threshold window_seconds block_seconds log_interval_seconds c =
     (let c = (if enabled_flag \<noteq> - 1 then c\<lparr>cfg_enabled := enabled_flag\<rparr> else c);
          c = (if threshold \<noteq> - 1 then c\<lparr>cfg_threshold := threshold\<rparr> else c);
          c = (if window_seconds \<noteq> - 1 then c\<lparr>cfg_window_seconds := window_seconds\<rparr> else c);
          c = (if block_seconds \<noteq> - 1 then c\<lparr>cfg_block_seconds := block_seconds\<rparr> else c)
      in if log_interval_seconds \<noteq> - 1 then c\<lparr>cfg_log_interval_seconds := log_interval_seconds\<rparr> else c)"

definition connthrottle_config_set ::
  "write_env \<Rightarrow> int \<Rightarrow> int \<Rightarrow> int \<Rightarrow> int \<Rightarrow> int \<Rightarrow> throttle \<Rightarrow> fs \<Rightarrow> (throttle \<times> fs list \<times> int) option" where
  "connthrottle_config_set env enabled_flag threshold window_seconds block_seconds log_interval_seconds st fs =
     (if threshold \<noteq> - 1 \<and> (threshold < 1 \<or> 100000 < threshold) then Some (st, [fs], - 1)
      else if window_seconds \<noteq> - 1 \<and> (window_seconds < 1 \<or> 86400 < window_seconds) then Some (st, [fs], - 1)
      else if block_seconds \<noteq> - 1 \<and> (block_seconds < 1 \<or> 604800 < block_seconds) then Some (st, [fs], - 1)
      else if log_interval_seconds \<noteq> - 1 \<and> (log_interval_seconds < 0 \<or> 3600 < log_interval_seconds)
        then Some (st, [fs], - 1)
      else
        let st = st\<lparr>thr_config := throttle_config_update enabled_flag threshold window_seconds block_seconds
                       log_interval_seconds (thr_config st)\<rparr>
        in do { (visited, rc) \<leftarrow> throttle_save_config env st fs; Some (st, visited, rc) })"

lemma throttle_config_update_fields [simp]:
  "cfg_enabled (throttle_config_update en thr win blk logi c) = (if en \<noteq> - 1 then en else cfg_enabled c)"
  "cfg_threshold (throttle_config_update en thr win blk logi c) = (if thr \<noteq> - 1 then thr else cfg_threshold c)"
  "cfg_window_seconds (throttle_config_update en thr win blk logi c) = (if win \<noteq> - 1 then win else cfg_window_seconds c)"
  "cfg_block_seconds (throttle_config_update en thr win blk logi c) = (if blk \<noteq> - 1 then blk else cfg_block_seconds c)"
  "cfg_log_interval_seconds (throttle_config_update en thr win blk logi c) =
     (if logi \<noteq> - 1 then logi else cfg_log_interval_seconds c)"
  by (simp_all add: throttle_config_update_def Let_def)

section \<open>The table\<close>

definition find_entry :: "throttle_entry list \<Rightarrow> string \<Rightarrow> nat option" where
  "find_entry t ip = find_index (\<lambda>e. te_in_use e \<and> te_ip e = ip) t"

definition find_free_slot :: "throttle_entry list \<Rightarrow> nat option" where
  "find_free_slot t = find_index (\<lambda>e. \<not> te_in_use e) t"

definition get_or_create_entry :: "string \<Rightarrow> int \<Rightarrow> throttle_entry list \<Rightarrow> nat option \<times> throttle_entry list" where
  "get_or_create_entry ip now t =
     (case find_entry t ip of Some i \<Rightarrow> (Some i, t)
      | None \<Rightarrow>
          (case find_free_slot t of None \<Rightarrow> (None, t)
           | Some i \<Rightarrow>
               (Some i, t[i := (t ! i)\<lparr>te_ip := snprintf_s CONNTHROTTLE_IP_MAX ip, te_in_use := True, te_fail_count := 0,
                  te_window_start := now, te_blocked_until := 0, te_last_logged := 0, te_auth_fail_count := 0,
                  te_auth_window_start := now, te_auth_blocked_until := 0\<rparr>])))"

definition is_loopback :: "string \<Rightarrow> bool" where
  "is_loopback ip = (ip = ''127.0.0.1'')"

text \<open>A write through an entry pointer.\<close>

definition set_entry :: "nat \<Rightarrow> (throttle_entry \<Rightarrow> throttle_entry) \<Rightarrow> throttle \<Rightarrow> throttle" where
  "set_entry i f st = st\<lparr>thr_table := (thr_table st)[i := f (thr_table st ! i)]\<rparr>"

section \<open>The TLS class\<close>

definition connthrottle_should_block :: "string \<Rightarrow> int \<Rightarrow> throttle \<Rightarrow> int \<times> throttle" where
  "connthrottle_should_block ip now st =
     (if cfg_enabled (thr_config st) = 0 \<or> is_loopback ip then (0, st)
      else case find_entry (thr_table st) ip of None \<Rightarrow> (0, st)
        | Some i \<Rightarrow>
            let e = thr_table st ! i in
            if te_blocked_until e = 0 then (0, st)
            else if te_blocked_until e \<le> now
              then (0, set_entry i (\<lambda>e. e\<lparr>te_blocked_until := 0, te_fail_count := 0\<rparr>) st)
            else (1, st))"

definition count_failure :: "throttle_config \<Rightarrow> int \<Rightarrow> throttle_entry \<Rightarrow> throttle_entry" where
  "count_failure c now e =
     (let e = (if now - te_window_start e > cfg_window_seconds c
               then e\<lparr>te_window_start := now, te_fail_count := 0\<rparr> else e);
          e = e\<lparr>te_fail_count := te_fail_count e + 1\<rparr>
      in if te_fail_count e \<ge> cfg_threshold c then e\<lparr>te_blocked_until := now + cfg_block_seconds c\<rparr> else e)"

definition connthrottle_record_failure :: "string \<Rightarrow> int \<Rightarrow> throttle \<Rightarrow> throttle" where
  "connthrottle_record_failure ip now st =
     (if cfg_enabled (thr_config st) = 0 then st
      else case get_or_create_entry ip now (thr_table st) of
        (None, t) \<Rightarrow> st\<lparr>thr_table := t\<rparr>
      | (Some i, t) \<Rightarrow> set_entry i (count_failure (thr_config st) now) (st\<lparr>thr_table := t\<rparr>))"

definition connthrottle_should_log_failure :: "string \<Rightarrow> int \<Rightarrow> throttle \<Rightarrow> int \<times> throttle" where
  "connthrottle_should_log_failure ip now st =
     (case get_or_create_entry ip now (thr_table st) of
        (None, t) \<Rightarrow> (1, st\<lparr>thr_table := t\<rparr>)
      | (Some i, t) \<Rightarrow>
          let e = t ! i; st = st\<lparr>thr_table := t\<rparr>; interval = cfg_log_interval_seconds (thr_config st) in
          if interval > 0 \<and> te_last_logged e \<noteq> 0 \<and> now - te_last_logged e < interval then (0, st)
          else (1, set_entry i (\<lambda>e. e\<lparr>te_last_logged := now\<rparr>) st))"

definition connthrottle_record_success :: "string \<Rightarrow> throttle \<Rightarrow> throttle" where
  "connthrottle_record_success ip st =
     (case find_entry (thr_table st) ip of None \<Rightarrow> st
      | Some i \<Rightarrow> set_entry i (\<lambda>e. e\<lparr>te_fail_count := 0, te_blocked_until := 0\<rparr>) st)"

section \<open>The authentication class\<close>

text \<open>A \<open>NULL\<close> address is \<open>None\<close>.\<close>

definition connthrottle_auth_blocked :: "string option \<Rightarrow> int \<Rightarrow> throttle \<Rightarrow> int \<times> throttle" where
  "connthrottle_auth_blocked ip now st =
     (case ip of None \<Rightarrow> (0, st)
      | Some ip \<Rightarrow>
          if cfg_enabled (thr_config st) = 0 \<or> ip = [] \<or> is_loopback ip then (0, st)
          else case find_entry (thr_table st) ip of None \<Rightarrow> (0, st)
            | Some i \<Rightarrow>
                let e = thr_table st ! i in
                if te_auth_blocked_until e = 0 then (0, st)
                else if te_auth_blocked_until e \<le> now
                  then (0, set_entry i (\<lambda>e. e\<lparr>te_auth_blocked_until := 0, te_auth_fail_count := 0\<rparr>) st)
                else (te_auth_blocked_until e - now, st))"

definition count_auth_failure :: "throttle_config \<Rightarrow> int \<Rightarrow> throttle_entry \<Rightarrow> int \<times> throttle_entry" where
  "count_auth_failure c now e =
     (let e = (if now - te_auth_window_start e > cfg_window_seconds c
               then e\<lparr>te_auth_window_start := now, te_auth_fail_count := 0\<rparr> else e);
          e = e\<lparr>te_auth_fail_count := te_auth_fail_count e + 1\<rparr>
      in if te_auth_fail_count e \<ge> cfg_threshold c \<and> te_auth_blocked_until e = 0
         then (1, e\<lparr>te_auth_blocked_until := now + cfg_block_seconds c\<rparr>) else (0, e))"

definition connthrottle_record_auth_failure :: "string option \<Rightarrow> int \<Rightarrow> throttle \<Rightarrow> int \<times> throttle" where
  "connthrottle_record_auth_failure ip now st =
     (case ip of None \<Rightarrow> (0, st)
      | Some ip \<Rightarrow>
          if cfg_enabled (thr_config st) = 0 \<or> ip = [] \<or> is_loopback ip then (0, st)
          else case get_or_create_entry ip now (thr_table st) of
            (None, t) \<Rightarrow> (0, st\<lparr>thr_table := t\<rparr>)
          | (Some i, t) \<Rightarrow>
              (fst (count_auth_failure (thr_config st) now (t ! i)),
               set_entry i (\<lambda>e. snd (count_auth_failure (thr_config st) now e)) (st\<lparr>thr_table := t\<rparr>)))"

definition connthrottle_record_auth_success :: "string option \<Rightarrow> throttle \<Rightarrow> throttle" where
  "connthrottle_record_auth_success ip st =
     (case ip of None \<Rightarrow> st
      | Some ip \<Rightarrow>
          if ip = [] then st
          else case find_entry (thr_table st) ip of None \<Rightarrow> st
            | Some i \<Rightarrow> set_entry i (\<lambda>e. e\<lparr>te_auth_fail_count := 0, te_auth_blocked_until := 0\<rparr>) st)"

section \<open>Status\<close>

definition throttle_entry_json :: "int \<Rightarrow> json_writer \<Rightarrow> throttle_entry \<Rightarrow> json_writer option" where
  "throttle_entry_json now w e =
     (if \<not> te_in_use e then Some w
      else let blocked = (te_blocked_until e \<noteq> 0 \<and> now < te_blocked_until e) in
        do { w \<leftarrow> jw_obj_open w;
             w \<leftarrow> jw_key w ''ip'';
             w \<leftarrow> jw_str w (te_ip e);
             w \<leftarrow> jw_key w ''fail_count'';
             w \<leftarrow> jw_int w (te_fail_count e);
             w \<leftarrow> jw_key w ''blocked'';
             w \<leftarrow> jw_bool w blocked;
             w \<leftarrow> jw_key w ''blocked_until'';
             w \<leftarrow> jw_int w (if blocked then te_blocked_until e else 0);
             w \<leftarrow> jw_key w ''auth_fail_count'';
             w \<leftarrow> jw_int w (te_auth_fail_count e);
             w \<leftarrow> jw_key w ''auth_blocked_until'';
             w \<leftarrow> jw_int w (if te_auth_blocked_until e \<noteq> 0 \<and> now < te_auth_blocked_until e
                              then te_auth_blocked_until e else 0);
             Some (jw_obj_close w) })"

definition connthrottle_write_status_json :: "int \<Rightarrow> throttle \<Rightarrow> json_writer \<Rightarrow> json_writer option" where
  "connthrottle_write_status_json now st w =
     do { w \<leftarrow> jw_arr_open w;
          w \<leftarrow> jw_each (throttle_entry_json now) w (thr_table st);
          Some (jw_arr_close w) }"

section \<open>Lookup by source\<close>

interpretation tt: keyed_table te_in_use te_ip find_entry find_free_slot
  using find_index_keyed_table [of te_in_use te_ip] by (simp add: find_entry_def [abs_def] find_free_slot_def [abs_def])

definition throttle_lookup :: "throttle \<Rightarrow> string \<Rightarrow> throttle_entry option" where
  "throttle_lookup st ip = map_option (\<lambda>i. thr_table st ! i) (find_entry (thr_table st) ip)"

definition throttle_wf :: "throttle \<Rightarrow> bool" where
  "throttle_wf st = (length (thr_table st) = CONNTHROTTLE_MAX_ENTRIES \<and> keys_unique te_in_use te_ip (thr_table st))"

definition fresh_entry :: "string \<Rightarrow> int \<Rightarrow> throttle_entry" where
  "fresh_entry ip now = \<lparr>te_ip = ip, te_in_use = True, te_fail_count = 0, te_window_start = now, te_blocked_until = 0,
     te_last_logged = 0, te_auth_fail_count = 0, te_auth_window_start = now, te_auth_blocked_until = 0\<rparr>"

lemma fresh_entry_update:
  "e\<lparr>te_ip := ip, te_in_use := True, te_fail_count := 0, te_window_start := now, te_blocked_until := 0,
     te_last_logged := 0, te_auth_fail_count := 0, te_auth_window_start := now, te_auth_blocked_until := 0\<rparr> =
   fresh_entry ip now"
  by (simp add: fresh_entry_def)

definition same_key :: "(throttle_entry \<Rightarrow> throttle_entry) \<Rightarrow> bool" where
  "same_key f = (\<forall>e. te_ip (f e) = te_ip e \<and> te_in_use (f e) = te_in_use e)"

lemma same_key_count [simp]:
  "same_key (count_failure c now)" "same_key (\<lambda>e. snd (count_auth_failure c now e))"
  by (auto simp: same_key_def count_failure_def count_auth_failure_def Let_def)

lemma same_key_fields [simp]:
  "same_key (\<lambda>e. e\<lparr>te_blocked_until := 0, te_fail_count := 0\<rparr>)" "same_key (\<lambda>e. e\<lparr>te_fail_count := 0, te_blocked_until := 0\<rparr>)"
  "same_key (\<lambda>e. e\<lparr>te_last_logged := now\<rparr>)"
  "same_key (\<lambda>e. e\<lparr>te_auth_blocked_until := 0, te_auth_fail_count := 0\<rparr>)"
  "same_key (\<lambda>e. e\<lparr>te_auth_fail_count := 0, te_auth_blocked_until := 0\<rparr>)"
  by (auto simp: same_key_def)

lemma set_entry_config [simp]: "thr_config (set_entry i f st) = thr_config st"
  by (simp add: set_entry_def)

text \<open>A write through a found pointer changes the entry of that source and no other.\<close>

lemma set_entry_found:
  assumes wf: "throttle_wf st" and i: "find_entry (thr_table st) ip = Some i" and f: "same_key f"
  shows "throttle_wf (set_entry i f st)"
    "throttle_lookup (set_entry i f st) a = (if a = ip then Some (f (thr_table st ! i)) else throttle_lookup st a)"
proof -
  let ?t = "thr_table st" and ?e = "f (thr_table st ! i)"
  have u: "keys_unique te_in_use te_ip ?t" using wf by (simp add: throttle_wf_def)
  have e: "i < length ?t" "te_in_use (?t ! i)" "te_ip (?t ! i) = ip" using tt.find_SomeD [OF i] by auto
  have k: "te_in_use ?e" "te_ip ?e = ip" using f e by (auto simp: same_key_def)
  have "keys_unique te_in_use te_ip (?t[i := ?e])" using u e k by (intro tt.unique_update) auto
  with wf show "throttle_wf (set_entry i f st)" by (simp add: throttle_wf_def set_entry_def)
  have same: "find_entry (?t[i := ?e]) ip = Some i" using tt.find_after_update [OF u e(1) k(1)] k e by simp
  have other: "find_entry (?t[i := ?e]) a = find_entry ?t a" if "a \<noteq> ip"
    using tt.find_frame [OF u e(1), of ?e a] k e that by auto
  have "j \<noteq> i" if "find_entry ?t a = Some j" "a \<noteq> ip" for j using tt.find_SomeD [OF that(1)] e(3) that(2) by auto
  with same other e(1) show "throttle_lookup (set_entry i f st) a =
      (if a = ip then Some (f (thr_table st ! i)) else throttle_lookup st a)"
    by (auto simp: throttle_lookup_def set_entry_def intro!: option.map_cong)
qed

text \<open>\<open>get_or_create_entry\<close> tracks the source if a slot is left, and disturbs no other.\<close>

lemma get_or_create_found:
  assumes wf: "throttle_wf st" and ip: "length ip < CONNTHROTTLE_IP_MAX"
    and g: "get_or_create_entry ip now (thr_table st) = (Some i, t)"
  shows "throttle_wf (st\<lparr>thr_table := t\<rparr>)" "find_entry t ip = Some i"
    "t ! i = (case throttle_lookup st ip of Some e \<Rightarrow> e | None \<Rightarrow> fresh_entry ip now)"
    "a \<noteq> ip \<Longrightarrow> throttle_lookup (st\<lparr>thr_table := t\<rparr>) a = throttle_lookup st a"
proof -
  let ?t = "thr_table st" and ?e = "fresh_entry ip now"
  have u: "keys_unique te_in_use te_ip ?t" using wf by (simp add: throttle_wf_def)
  have "throttle_wf (st\<lparr>thr_table := t\<rparr>) \<and> find_entry t ip = Some i \<and>
      t ! i = (case throttle_lookup st ip of Some e \<Rightarrow> e | None \<Rightarrow> ?e) \<and>
      (a \<noteq> ip \<longrightarrow> throttle_lookup (st\<lparr>thr_table := t\<rparr>) a = throttle_lookup st a)"
  proof (cases "find_entry ?t ip")
    case (Some j)
    with g wf show ?thesis by (auto simp: get_or_create_entry_def throttle_lookup_def)
  next
    case None
    with g ip obtain free: "find_free_slot ?t = Some i" and t: "t = ?t[i := ?e]"
      by (auto simp: get_or_create_entry_def fresh_entry_update split: option.splits)
    have e: "i < length ?t" "\<not> te_in_use (?t ! i)" using tt.free_SomeD [OF free] by auto
    have k: "te_in_use ?e" "te_ip ?e = ip" by (auto simp: fresh_entry_def)
    have "throttle_wf (st\<lparr>thr_table := t\<rparr>)"
      using tt.unique_insert [OF u free, of ?e] None k wf by (simp add: throttle_wf_def t)
    moreover have "find_entry t ip = Some i" using tt.find_after_update [OF u e(1) k(1)] k None by (simp add: t)
    moreover have "find_entry t a = find_entry ?t a" if "a \<noteq> ip"
      using tt.find_frame [OF u e(1), of ?e a] k e None that by (auto simp: t)
    moreover have "j \<noteq> i" if "find_entry ?t a = Some j" for j using tt.find_SomeD [OF that] e(2) by auto
    ultimately show ?thesis using None e(1) by (auto simp: throttle_lookup_def t intro!: option.map_cong)
  qed
  then show "throttle_wf (st\<lparr>thr_table := t\<rparr>)" "find_entry t ip = Some i"
    "t ! i = (case throttle_lookup st ip of Some e \<Rightarrow> e | None \<Rightarrow> fresh_entry ip now)"
    "a \<noteq> ip \<Longrightarrow> throttle_lookup (st\<lparr>thr_table := t\<rparr>) a = throttle_lookup st a" by auto
qed

lemma get_or_create_full: "get_or_create_entry ip now t = (None, t') \<Longrightarrow> t' = t \<and> find_entry t ip = None"
  by (auto simp: get_or_create_entry_def split: option.splits)

text \<open>Both combined: find or create the entry, then change it.\<close>

lemma create_then_set:
  assumes "throttle_wf st" "length ip < CONNTHROTTLE_IP_MAX" "same_key f"
    and "get_or_create_entry ip now (thr_table st) = (Some i, t)"
  shows "throttle_wf (set_entry i f (st\<lparr>thr_table := t\<rparr>))"
    "throttle_lookup (set_entry i f (st\<lparr>thr_table := t\<rparr>)) a =
      (if a = ip then Some (f (case throttle_lookup st ip of Some e \<Rightarrow> e | None \<Rightarrow> fresh_entry ip now))
       else throttle_lookup st a)"
  using set_entry_found [of "st\<lparr>thr_table := t\<rparr>" ip i f] get_or_create_found [OF assms(1,2,4)] assms(3) by auto

lemma find_entry_lookup: "find_entry (thr_table st) ip = None \<longleftrightarrow> throttle_lookup st ip = None"
  "find_entry (thr_table st) ip = Some i \<Longrightarrow> throttle_lookup st ip = Some (thr_table st ! i)"
  by (auto simp: throttle_lookup_def)

section \<open>Sequences of events\<close>

text \<open>What the daemon reports and asks, in any order and from any mix of sources.\<close>

datatype throttle_op =
    TlsFailure string int | TlsSuccess string | TlsCheck string int | LogCheck string int
  | AuthFailure string int | AuthSuccess string | AuthCheck string int

primrec op_ip :: "throttle_op \<Rightarrow> string" where
  "op_ip (TlsFailure ip _) = ip" | "op_ip (TlsSuccess ip) = ip" | "op_ip (TlsCheck ip _) = ip"
| "op_ip (LogCheck ip _) = ip" | "op_ip (AuthFailure ip _) = ip" | "op_ip (AuthSuccess ip) = ip"
| "op_ip (AuthCheck ip _) = ip"

primrec apply_op :: "throttle_op \<Rightarrow> throttle \<Rightarrow> throttle" where
  "apply_op (TlsFailure ip now) st = connthrottle_record_failure ip now st"
| "apply_op (TlsSuccess ip) st = connthrottle_record_success ip st"
| "apply_op (TlsCheck ip now) st = snd (connthrottle_should_block ip now st)"
| "apply_op (LogCheck ip now) st = snd (connthrottle_should_log_failure ip now st)"
| "apply_op (AuthFailure ip now) st = snd (connthrottle_record_auth_failure (Some ip) now st)"
| "apply_op (AuthSuccess ip) st = connthrottle_record_auth_success (Some ip) st"
| "apply_op (AuthCheck ip now) st = snd (connthrottle_auth_blocked (Some ip) now st)"

definition run_ops :: "throttle_op list \<Rightarrow> throttle \<Rightarrow> throttle" where
  "run_ops ops st = fold apply_op ops st"

definition op_fits :: "throttle_op \<Rightarrow> bool" where
  "op_fits op = (length (op_ip op) < CONNTHROTTLE_IP_MAX)"

lemmas throttle_op_defs = connthrottle_record_failure_def connthrottle_record_success_def connthrottle_should_block_def
  connthrottle_should_log_failure_def connthrottle_record_auth_failure_def connthrottle_record_auth_success_def
  connthrottle_auth_blocked_def

lemma apply_op_config [simp]: "thr_config (apply_op op st) = thr_config st"
  by (cases op) (auto simp: throttle_op_defs Let_def split: option.splits prod.splits)

text \<open>Every event keeps the table well formed, and only its own source can notice it.\<close>

lemma apply_op_wf_frame:
  assumes "throttle_wf st" "op_fits op"
  shows "throttle_wf (apply_op op st) \<and> (\<forall>a. a \<noteq> op_ip op \<longrightarrow> throttle_lookup (apply_op op st) a = throttle_lookup st a)"
  using assms
  by (cases op)
     (auto simp: throttle_op_defs Let_def op_fits_def set_entry_found create_then_set dest: get_or_create_full
        get_or_create_found split: option.splits prod.splits)

lemma run_ops_wf: "throttle_wf st \<Longrightarrow> list_all op_fits ops \<Longrightarrow> throttle_wf (run_ops ops st)"
  by (induction ops arbitrary: st) (auto simp: run_ops_def apply_op_wf_frame)

lemma run_ops_config [simp]: "thr_config (run_ops ops st) = thr_config st"
  by (induction ops arbitrary: st) (auto simp: run_ops_def)

lemma run_ops_frame:
  "throttle_wf st \<Longrightarrow> list_all op_fits ops \<Longrightarrow> \<forall>op \<in> set ops. op_ip op \<noteq> ip \<Longrightarrow>
     throttle_lookup (run_ops ops st) ip = throttle_lookup st ip"
  by (induction ops arbitrary: st) (auto simp: run_ops_def apply_op_wf_frame)

lemma record_failure_lookup:
  assumes "throttle_wf st" "length ip < CONNTHROTTLE_IP_MAX" "cfg_enabled (thr_config st) \<noteq> 0"
    "throttle_lookup st ip = Some e"
  shows "throttle_lookup (connthrottle_record_failure ip now st) ip = Some (count_failure (thr_config st) now e)"
  using assms create_then_set(2) [OF assms(1,2) same_key_count(1), of now _ _ "thr_config st" now ip]
  by (auto simp: connthrottle_record_failure_def find_entry_lookup dest: get_or_create_full split: prod.splits option.splits)

section \<open>Counting within a window\<close>

primrec failure_time :: "string \<Rightarrow> throttle_op \<Rightarrow> int list" where
  "failure_time a (TlsFailure ip t) = (if ip = a then [t] else [])" | "failure_time a (TlsSuccess ip) = []"
| "failure_time a (TlsCheck ip t) = []" | "failure_time a (LogCheck ip t) = []"
| "failure_time a (AuthFailure ip t) = []" | "failure_time a (AuthSuccess ip) = []" | "failure_time a (AuthCheck ip t) = []"

definition failure_times :: "string \<Rightarrow> throttle_op list \<Rightarrow> int list" where
  "failure_times ip ops = concat (map (failure_time ip) ops)"

text \<open>The source's own events are failures inside the window that starts at \<open>start\<close>.\<close>

definition only_failures :: "string \<Rightarrow> int \<Rightarrow> throttle_op list \<Rightarrow> bool" where
  "only_failures ip limit ops =
     list_all (\<lambda>op. op_fits op \<and> (op_ip op = ip \<longrightarrow> failure_time ip op \<noteq> [] \<and> hd (failure_time ip op) \<le> limit)) ops"

lemma failure_op: "op_ip op = ip \<Longrightarrow> failure_time ip op \<noteq> [] \<Longrightarrow> \<exists>t. op = TlsFailure ip t \<and> failure_time ip op = [t]"
  by (cases op) auto

lemma failure_time_other: "op_ip op \<noteq> ip \<Longrightarrow> failure_time ip op = []"
  by (cases op) auto

lemma failure_time_single: "t \<in> set (failure_time ip op) \<Longrightarrow> failure_time ip op = [t] \<and> op_ip op = ip"
  by (cases op) (auto split: if_splits)

lemma run_ops_failures:
  assumes "throttle_wf st" "only_failures ip limit ops" "cfg_enabled (thr_config st) \<noteq> 0" "throttle_lookup st ip = Some e"
  shows "throttle_lookup (run_ops ops st) ip = Some (fold (count_failure (thr_config st)) (failure_times ip ops) e)"
  using assms
proof (induction ops arbitrary: st e)
  case (Cons op ops)
  from Cons.prems have op: "op_fits op" and rest: "only_failures ip limit ops" by (auto simp: only_failures_def)
  have wf: "throttle_wf (apply_op op st)" using apply_op_wf_frame [OF Cons.prems(1) op] by simp
  show ?case
  proof (cases "op_ip op = ip")
    case True
    with Cons.prems(2) failure_op obtain t where t: "op = TlsFailure ip t" "failure_time ip op = [t]"
      by (auto simp: only_failures_def)
    have "throttle_lookup (apply_op op st) ip = Some (count_failure (thr_config st) t e)"
      using record_failure_lookup [OF Cons.prems(1) _ Cons.prems(3,4)] op t True by (simp add: op_fits_def)
    from Cons.IH [OF wf rest _ this] Cons.prems(3) t(2) show ?thesis by (simp add: run_ops_def failure_times_def)
  next
    case False
    then have "throttle_lookup (apply_op op st) ip = Some e"
      using apply_op_wf_frame [OF Cons.prems(1) op] Cons.prems(4) by auto
    from Cons.IH [OF wf rest _ this] Cons.prems(3) False show ?thesis
      by (simp add: run_ops_def failure_times_def failure_time_other)
  qed
qed (simp add: run_ops_def failure_times_def)

lemma count_failures_in_window:
  assumes "\<forall>t \<in> set ts. t - te_window_start e \<le> cfg_window_seconds c"
  shows "te_fail_count (fold (count_failure c) ts e) = te_fail_count e + int (length ts) \<and>
    te_window_start (fold (count_failure c) ts e) = te_window_start e \<and>
    te_blocked_until (fold (count_failure c) ts e) =
      (if ts \<noteq> [] \<and> cfg_threshold c \<le> te_fail_count e + int (length ts) then last ts + cfg_block_seconds c
       else te_blocked_until e)"
  using assms
proof (induction ts rule: rev_induct)
  case (snoc t ts)
  then show ?case by (auto simp: count_failure_def Let_def)
qed simp

lemma failure_times_bound: "only_failures ip limit ops \<Longrightarrow> t \<in> set (failure_times ip ops) \<Longrightarrow> t \<le> limit"
  by (auto simp: only_failures_def failure_times_def list_all_iff dest!: failure_time_single bspec)

section \<open>Properties\<close>

text \<open>
  From startup on, whatever events arrive and in whatever order, the table keeps its 256
  slots and at most one entry per source address, and a source that has sent nothing is not tracked.
\<close>

theorem throttle_one_entry_per_source:
  assumes "connthrottle_config_init renv path fs st0 = (st, rc)" "length path < 512" "list_all op_fits ops"
  shows "throttle_wf (run_ops ops st) \<and>
    (\<forall>ip. (\<forall>op \<in> set ops. op_ip op \<noteq> ip) \<longrightarrow> throttle_lookup (run_ops ops st) ip = None)"
proof -
  have t: "thr_table st = replicate CONNTHROTTLE_MAX_ENTRIES zero_entry"
    using assms(1,2)
    by (auto simp: connthrottle_config_init_def throttle_load_config_def Let_def split: read_result.splits option.splits)
  then have wf: "throttle_wf st" by (simp add: throttle_wf_def keys_unique_def zero_entry_def)
  have none: "throttle_lookup st ip = None" for ip
    by (simp add: find_entry_lookup(1) [symmetric] t find_entry_def find_index_None zero_entry_def)
  show ?thesis using run_ops_wf [OF wf assms(3)] run_ops_frame [OF wf assms(3)] none by simp
qed

theorem throttle_one_entry_per_source_witness:
  "\<exists>st. connthrottle_config_init healthy_read ''/t.json'' Map.empty
       \<lparr>thr_path = [], thr_config = default_throttle_config, thr_table = []\<rparr> = (st, 0) \<and>
     throttle_wf (run_ops [TlsFailure ''10.0.0.1'' 5, AuthFailure ''10.0.0.2'' 6] st) \<and>
     throttle_lookup (run_ops [TlsFailure ''10.0.0.1'' 5, AuthFailure ''10.0.0.2'' 6] st) ''10.0.0.3'' = None"
proof -
  obtain st where st: "connthrottle_config_init healthy_read ''/t.json'' Map.empty
       \<lparr>thr_path = [], thr_config = default_throttle_config, thr_table = []\<rparr> = (st, 0)"
    by (simp add: connthrottle_config_init_def throttle_load_config_def Let_def)
  from throttle_one_entry_per_source [OF st, of "[TlsFailure ''10.0.0.1'' 5, AuthFailure ''10.0.0.2'' 6]"] st
  show ?thesis by (simp add: op_fits_def CONNTHROTTLE_IP_MAX_def)
qed

text \<open>
  C32.  A tracked source that is not blocked and fails handshakes within its window, interleaved
  with any events of other sources, is refused exactly when the failures reach the threshold,
  and then until \<open>block_seconds\<close> after the last of them.
\<close>

theorem throttle_blocks_at_threshold:
  assumes "throttle_wf st" "throttle_lookup st ip = Some e" "te_blocked_until e = 0"
    and "cfg_enabled (thr_config st) \<noteq> 0" "\<not> is_loopback ip"
    and "only_failures ip (te_window_start e + cfg_window_seconds (thr_config st)) ops"
    and "failure_times ip ops = ts" "ts \<noteq> []" "0 < last ts + cfg_block_seconds (thr_config st)"
  shows "fst (connthrottle_should_block ip now (run_ops ops st)) =
    (if cfg_threshold (thr_config st) \<le> te_fail_count e + int (length ts) \<and>
        now < last ts + cfg_block_seconds (thr_config st) then 1 else 0)"
proof -
  have "throttle_lookup (run_ops ops st) ip = Some (fold (count_failure (thr_config st)) ts e)"
    using run_ops_failures [OF assms(1,6,4,2)] assms(7) by simp
  moreover have "\<forall>t \<in> set ts. t - te_window_start e \<le> cfg_window_seconds (thr_config st)"
    using failure_times_bound [OF assms(6)] assms(7) by fastforce
  note count_failures_in_window [OF this]
  ultimately show ?thesis
    using assms(3-5,8,9) find_entry_lookup [of "run_ops ops st" ip]
    by (auto simp: connthrottle_should_block_def throttle_lookup_def Let_def)
qed

definition demo_throttle :: throttle where
  "demo_throttle = \<lparr>thr_path = ''/t.json'',
     thr_config = \<lparr>cfg_enabled = 1, cfg_threshold = 2, cfg_window_seconds = 60, cfg_block_seconds = 300,
       cfg_log_interval_seconds = 5\<rparr>,
     thr_table = fresh_entry ''10.0.0.1'' 100 # replicate 255 zero_entry\<rparr>"

lemma demo_throttle_facts:
  "throttle_wf demo_throttle" "throttle_lookup demo_throttle ''10.0.0.1'' = Some (fresh_entry ''10.0.0.1'' 100)"
  by (auto simp: throttle_wf_def demo_throttle_def CONNTHROTTLE_MAX_ENTRIES_def keys_unique_def nth_Cons zero_entry_def
      throttle_lookup_def find_entry_def fresh_entry_def split: nat.splits)

theorem throttle_blocks_at_threshold_witness:
  "fst (connthrottle_should_block ''10.0.0.1'' 200
     (run_ops [TlsFailure ''10.0.0.1'' 110, TlsSuccess ''10.0.0.2'', TlsFailure ''10.0.0.1'' 120] demo_throttle)) = 1"
  using throttle_blocks_at_threshold [OF demo_throttle_facts,
      of "[TlsFailure ''10.0.0.1'' 110, TlsSuccess ''10.0.0.2'', TlsFailure ''10.0.0.1'' 120]" "[110, 120]" 200]
  by (simp add: demo_throttle_def fresh_entry_def is_loopback_def only_failures_def op_fits_def failure_times_def
      CONNTHROTTLE_IP_MAX_def)

subsection \<open>The two classes are independent\<close>

primrec is_auth_op :: "throttle_op \<Rightarrow> bool" where
  "is_auth_op (TlsFailure ip _) = False" | "is_auth_op (TlsSuccess ip) = False" | "is_auth_op (TlsCheck ip _) = False"
| "is_auth_op (LogCheck ip _) = False" | "is_auth_op (AuthFailure ip _) = True" | "is_auth_op (AuthSuccess ip) = True"
| "is_auth_op (AuthCheck ip _) = True"

definition auth_state :: "throttle_entry \<Rightarrow> int \<times> int \<times> int" where
  "auth_state e = (te_auth_fail_count e, te_auth_window_start e, te_auth_blocked_until e)"

lemma auth_state_simps [simp]:
  "auth_state (count_failure c now e) = auth_state e"
  "auth_state (e\<lparr>te_blocked_until := b, te_fail_count := n\<rparr>) = auth_state e"
  "auth_state (e\<lparr>te_fail_count := n, te_blocked_until := b\<rparr>) = auth_state e"
  "auth_state (e\<lparr>te_last_logged := now\<rparr>) = auth_state e"
  by (simp_all add: auth_state_def count_failure_def Let_def)

lemma get_or_create_tracked: "find_entry t ip = Some i \<Longrightarrow> get_or_create_entry ip now t = (Some i, t)"
  by (simp add: get_or_create_entry_def)

lemma apply_op_auth_state:
  assumes "throttle_wf st" "op_fits op" "throttle_lookup st ip = Some e" "op_ip op = ip \<longrightarrow> \<not> is_auth_op op"
  shows "\<exists>e'. throttle_lookup (apply_op op st) ip = Some e' \<and> auth_state e' = auth_state e"
proof (cases "op_ip op = ip")
  case False
  with apply_op_wf_frame [OF assms(1,2)] assms(3) show ?thesis by auto
next
  case True
  obtain i where i: "find_entry (thr_table st) ip = Some i" "thr_table st ! i = e"
    using assms(3) by (auto simp: throttle_lookup_def)
  note set = set_entry_found(2) [OF assms(1) i(1)]
  from True assms show ?thesis
    by (cases op) (auto simp: throttle_op_defs Let_def i set get_or_create_tracked)
qed

lemma run_ops_auth_state:
  "throttle_wf st \<Longrightarrow> list_all op_fits ops \<Longrightarrow> throttle_lookup st ip = Some e \<Longrightarrow>
     list_all (\<lambda>op. op_ip op = ip \<longrightarrow> \<not> is_auth_op op) ops \<Longrightarrow>
     \<exists>e'. throttle_lookup (run_ops ops st) ip = Some e' \<and> auth_state e' = auth_state e"
proof (induction ops arbitrary: st e)
  case (Cons op ops)
  from apply_op_auth_state [of st op ip e] Cons.prems obtain e1 where
    e1: "throttle_lookup (apply_op op st) ip = Some e1" "auth_state e1 = auth_state e" by auto
  from Cons.IH [of "apply_op op st" e1] Cons.prems e1 apply_op_wf_frame [of st op] show ?case by (simp add: run_ops_def)
qed (simp add: run_ops_def)

text \<open>
  Only authentication events of a source change what it owes for failed credentials: after
  any other events, including its own successful handshakes and well-formed requests, the
  remaining block is what it would have been.
\<close>

theorem auth_block_not_cleared_by_tls:
  assumes "throttle_wf st" "list_all op_fits ops" "throttle_lookup st ip = Some e"
    and "list_all (\<lambda>op. op_ip op = ip \<longrightarrow> \<not> is_auth_op op) ops"
  shows "fst (connthrottle_auth_blocked (Some ip) now (run_ops ops st)) = fst (connthrottle_auth_blocked (Some ip) now st)"
proof -
  obtain e' where e': "throttle_lookup (run_ops ops st) ip = Some e'" "auth_state e' = auth_state e"
    using run_ops_auth_state [OF assms] by blast
  with assms(3) show ?thesis
    by (auto simp: connthrottle_auth_blocked_def throttle_lookup_def auth_state_def Let_def)
qed

theorem auth_block_not_cleared_by_tls_witness:
  "fst (connthrottle_auth_blocked (Some ''10.0.0.1'') 150 (run_ops [TlsSuccess ''10.0.0.1'', TlsCheck ''10.0.0.1'' 140]
       (run_ops [AuthFailure ''10.0.0.1'' 110, AuthFailure ''10.0.0.1'' 120] demo_throttle))) =
   fst (connthrottle_auth_blocked (Some ''10.0.0.1'') 150
       (run_ops [AuthFailure ''10.0.0.1'' 110, AuthFailure ''10.0.0.1'' 120] demo_throttle))"
proof -
  let ?ops = "[AuthFailure ''10.0.0.1'' 110, AuthFailure ''10.0.0.1'' 120]"
  have fits: "list_all op_fits ?ops" by (simp add: op_fits_def CONNTHROTTLE_IP_MAX_def)
  note wf = run_ops_wf [OF demo_throttle_facts(1) fits]
  obtain e where "throttle_lookup (run_ops ?ops demo_throttle) ''10.0.0.1'' = Some e"
    by (simp add: run_ops_def throttle_op_defs demo_throttle_def find_entry_def fresh_entry_def get_or_create_entry_def
        is_loopback_def set_entry_def throttle_lookup_def count_auth_failure_def Let_def)
  from auth_block_not_cleared_by_tls [OF wf _ this] show ?thesis
    by (simp add: op_fits_def CONNTHROTTLE_IP_MAX_def)
qed

subsection \<open>The audit of authentication blocks\<close>

primrec auth_failures :: "string \<Rightarrow> int list \<Rightarrow> throttle \<Rightarrow> int list \<times> throttle" where
  "auth_failures ip [] st = ([], st)"
| "auth_failures ip (t # ts) st =
     (let (r, st) = connthrottle_record_auth_failure (Some ip) t st; (rs, st) = auth_failures ip ts st in (r # rs, st))"

lemma record_auth_failure_tracked:
  assumes "throttle_wf st" "throttle_lookup st ip = Some e" "cfg_enabled (thr_config st) \<noteq> 0" "ip \<noteq> []" "\<not> is_loopback ip"
  shows "\<exists>st'. connthrottle_record_auth_failure (Some ip) t st = (fst (count_auth_failure (thr_config st) t e), st') \<and>
    throttle_wf st' \<and> thr_config st' = thr_config st \<and>
    throttle_lookup st' ip = Some (snd (count_auth_failure (thr_config st) t e))"
proof -
  obtain i where i: "find_entry (thr_table st) ip = Some i" "thr_table st ! i = e"
    using assms(2) by (auto simp: throttle_lookup_def)
  note set = set_entry_found [OF assms(1) i(1) same_key_count(2)]
  from assms(3-5) set show ?thesis by (simp add: connthrottle_record_auth_failure_def i get_or_create_tracked)
qed

text \<open>
   While a source keeps failing authentication inside one window, exactly the failure that
  reaches the threshold reports that it tripped a block: one audit line per block.
\<close>

theorem auth_block_audited_once:
  assumes "throttle_wf st" "throttle_lookup st ip = Some e" "cfg_enabled (thr_config st) \<noteq> 0" "ip \<noteq> []" "\<not> is_loopback ip"
    and "te_auth_fail_count e < cfg_threshold (thr_config st) \<longleftrightarrow> te_auth_blocked_until e = 0"
    and "\<forall>t \<in> set ts. t - te_auth_window_start e \<le> cfg_window_seconds (thr_config st) \<and> 0 < t + cfg_block_seconds (thr_config st)"
  shows "fst (auth_failures ip ts st) =
    map (\<lambda>k. if te_auth_fail_count e + int k + 1 = cfg_threshold (thr_config st) then 1 else 0) [0..<length ts]"
  using assms
proof (induction ts arbitrary: st e)
  case (Cons t ts)
  let ?c = "thr_config st" and ?e = "snd (count_auth_failure (thr_config st) t e)"
  obtain st' where st': "connthrottle_record_auth_failure (Some ip) t st = (fst (count_auth_failure ?c t e), st')"
    "throttle_wf st'" "thr_config st' = ?c" "throttle_lookup st' ip = Some ?e"
    using record_auth_failure_tracked [OF Cons.prems(1-5)] by blast
  have c: "te_auth_fail_count ?e = te_auth_fail_count e + 1" "te_auth_window_start ?e = te_auth_window_start e"
    "te_auth_fail_count ?e < cfg_threshold ?c \<longleftrightarrow> te_auth_blocked_until ?e = 0"
    "fst (count_auth_failure ?c t e) = (if te_auth_fail_count e + 1 = cfg_threshold ?c then 1 else 0)"
    using Cons.prems(6,7) by (auto simp: count_auth_failure_def Let_def)
  have "fst (auth_failures ip ts st') =
      map (\<lambda>k. if te_auth_fail_count ?e + int k + 1 = cfg_threshold ?c then 1 else 0) [0..<length ts]"
    using Cons.IH [OF st'(2,4)] Cons.prems(3-7) c st'(3) by simp
  with st'(1) c show ?case
    by (simp add: case_prod_beta map_upt_Suc del: upt_Suc)
qed simp

theorem auth_block_audited_once_witness:
  "fst (auth_failures ''10.0.0.1'' [110, 120, 130] demo_throttle) = [0, 1, 0]"
  using auth_block_audited_once [OF demo_throttle_facts, of "[110, 120, 130]"]
  by (simp add: demo_throttle_def fresh_entry_def is_loopback_def upt_rec)

subsection \<open>The configuration\<close>

definition throttle_config_ok :: "throttle_config \<Rightarrow> bool" where
  "throttle_config_ok c = ((cfg_enabled c = 0 \<or> cfg_enabled c = 1) \<and> 1 \<le> cfg_threshold c \<and> cfg_threshold c \<le> 100000 \<and>
     1 \<le> cfg_window_seconds c \<and> cfg_window_seconds c \<le> 86400 \<and> 1 \<le> cfg_block_seconds c \<and> cfg_block_seconds c \<le> 604800 \<and>
     0 \<le> cfg_log_interval_seconds c \<and> cfg_log_interval_seconds c \<le> 3600)"

definition throttle_config_tree :: "throttle_config \<Rightarrow> json" where
  "throttle_config_tree c = JObject [(''enabled'', JBool (cfg_enabled c \<noteq> 0)), (''threshold'', JNumber (ll2d (cfg_threshold c))),
     (''window_seconds'', JNumber (ll2d (cfg_window_seconds c))), (''block_seconds'', JNumber (ll2d (cfg_block_seconds c))),
     (''log_interval_seconds'', JNumber (ll2d (cfg_log_interval_seconds c)))]"

lemma throttle_config_writer_text:
  assumes "throttle_config_ok c"
  shows "\<exists>w. throttle_config_writer c = Some w \<and> jw_buf w = render (throttle_config_tree c)"
proof -
  have "throttle_config_writer c = jw_value (jw_init blank_writer) (throttle_config_tree c)"
    using assms by (simp add: throttle_config_writer_def throttle_config_tree_def jw_int_value throttle_config_ok_def del: jw_value.simps(3))
  then show ?thesis using jw_value_blank [of "throttle_config_tree c"] by (simp add: throttle_config_tree_def JW_MAX_DEPTH_def)
qed

text \<open>The configuration file as a document store: what a load makes of the text of a valid configuration.\<close>

definition throttle_decode :: "string \<Rightarrow> throttle_config option" where
  "throttle_decode text = map_option (throttle_config_of_json default_throttle_config) (json_parse text)"

lemma throttle_config_of_tree:
  assumes "throttle_config_ok c"
  shows "throttle_config_of_json c0 (throttle_config_tree c) = c"
proof -
  have r: "d2i (ll2d (cfg_threshold c)) = cfg_threshold c" "d2i (ll2d (cfg_window_seconds c)) = cfg_window_seconds c"
    "d2i (ll2d (cfg_block_seconds c)) = cfg_block_seconds c" "d2i (ll2d (cfg_log_interval_seconds c)) = cfg_log_interval_seconds c"
    using assms by (auto simp: throttle_config_ok_def INT_MIN_def INT_MAX_def intro!: d2i_ll2d)
  show ?thesis
    using assms r
    by (cases c) (auto simp: throttle_config_of_json_def throttle_config_tree_def json_object_get_def json_as_number_def
        Let_def throttle_config_ok_def)
qed

interpretation thr_store: config_store persist_atomic_write tmp_path throttle_config_ok
  "\<lambda>c. render (throttle_config_tree c)" throttle_decode
proof unfold_locales
  fix c
  assume c: "throttle_config_ok c"
  then have "exact_json (throttle_config_tree c)"
    by (simp add: throttle_config_tree_def throttle_config_ok_def NUL_def)
  with throttle_config_of_tree [OF c] show "throttle_decode (render (throttle_config_tree c)) = Some c"
    by (simp add: throttle_decode_def json_parse_render)
qed

lemma config_init_loads:
  assumes "length p < 512" "g p = Some (render (throttle_config_tree c))" "throttle_config_ok c"
  shows "connthrottle_config_init healthy_read p g any =
    (any\<lparr>thr_path := p, thr_config := c, thr_table := replicate CONNTHROTTLE_MAX_ENTRIES zero_entry\<rparr>, 0)"
proof -
  obtain doc where "json_parse (render (throttle_config_tree c)) = Some doc"
    "throttle_config_of_json default_throttle_config doc = c"
    using thr_store.decode_encode [OF assms(3)] by (auto simp: throttle_decode_def)
  with assms show ?thesis by (simp add: connthrottle_config_init_def throttle_load_config_def Let_def)
qed

lemma config_set_cases:
  assumes "throttle_config_ok (thr_config st)" "enabled_flag \<in> {- 1, 0, 1}"
    and "connthrottle_config_set env enabled_flag thr win blk logi st fs = Some (st', v, rc)"
  obtains (refused) "st' = st" "v = [fs]" "rc = - 1"
  | (saved) "throttle_config_ok (thr_config st')"
      "persist_atomic_write env (thr_path st) (render (throttle_config_tree (thr_config st'))) fs = (v, rc)"
proof (cases "st' = st \<and> v = [fs] \<and> rc = - 1")
  case False
  define c where "c = throttle_config_update enabled_flag thr win blk logi (thr_config st)"
  let ?p1 = "thr \<noteq> - 1 \<and> (thr < 1 \<or> 100000 < thr)" and ?p2 = "win \<noteq> - 1 \<and> (win < 1 \<or> 86400 < win)"
  let ?p3 = "blk \<noteq> - 1 \<and> (blk < 1 \<or> 604800 < blk)" and ?p4 = "logi \<noteq> - 1 \<and> (logi < 0 \<or> 3600 < logi)"
  note eq = assms(3) [unfolded connthrottle_config_set_def]
  have r1: "\<not> ?p1" using eq False by (cases ?p1) (simp_all only: if_P option.inject prod.inject simp_thms)
  have r2: "\<not> ?p2" using eq False by (cases ?p2) (simp_all only: r1 if_P if_not_P option.inject prod.inject simp_thms)
  have r3: "\<not> ?p3" using eq False by (cases ?p3) (simp_all only: r1 r2 if_P if_not_P option.inject prod.inject simp_thms)
  have r4: "\<not> ?p4" using eq False by (cases ?p4) (simp_all only: r1 r2 r3 if_P if_not_P option.inject prod.inject simp_thms)
  have st': "st' = st\<lparr>thr_config := c\<rparr>" "throttle_save_config env st' fs = Some (v, rc)"
    using eq unfolding if_not_P [OF r1] if_not_P [OF r2] if_not_P [OF r3] if_not_P [OF r4]
    by (auto simp: c_def bind_eq_Some_conv Let_def)
  note ok = assms(1) [unfolded throttle_config_ok_def]
  have "cfg_enabled c = 0 \<or> cfg_enabled c = 1" using ok assms(2) by (simp add: c_def) blast
  moreover have "1 \<le> cfg_threshold c" "cfg_threshold c \<le> 100000" using ok r1 by (simp_all add: c_def, linarith+)
  moreover have "1 \<le> cfg_window_seconds c" "cfg_window_seconds c \<le> 86400" using ok r2 by (simp_all add: c_def, linarith+)
  moreover have "1 \<le> cfg_block_seconds c" "cfg_block_seconds c \<le> 604800" using ok r3 by (simp_all add: c_def, linarith+)
  moreover have "0 \<le> cfg_log_interval_seconds c" "cfg_log_interval_seconds c \<le> 3600" using ok r4 by (simp_all add: c_def, linarith+)
  ultimately have "throttle_config_ok c" by (simp add: throttle_config_ok_def)
  with throttle_config_writer_text [of c] st' that(2) show thesis by (auto simp: throttle_save_config_def)
qed (use that(1) in auto)

text \<open>
  A configuration update keeps every field in its documented range; when it returns \<open>0\<close> a
  restart loads exactly the configuration in memory, and a crash at any point of the save loads
  the configuration before or after the update.  An update that is refused or cannot be saved
  leaves the file as it was.
\<close>

theorem throttle_config_durable:
  assumes "throttle_config_ok (thr_config st)" "enabled_flag \<in> {- 1, 0, 1}" "length (thr_path st) < 512"
    and "fs (thr_path st) = Some (render (throttle_config_tree (thr_config st)))"
    and "connthrottle_config_set env enabled_flag thr win blk logi st fs = Some (st', f # visited, rc)"
  shows "throttle_config_ok (thr_config st') \<and>
    (rc = 0 \<longrightarrow> thr_config (fst (connthrottle_config_init healthy_read (thr_path st) f any)) = thr_config st') \<and>
    (\<forall>g \<in> set (f # visited). \<exists>c \<in> {thr_config st, thr_config st'}.
       connthrottle_config_init healthy_read (thr_path st) g any =
       (any\<lparr>thr_path := thr_path st, thr_config := c, thr_table := replicate CONNTHROTTLE_MAX_ENTRIES zero_entry\<rparr>, 0)) \<and>
    (rc \<noteq> 0 \<longrightarrow> f (thr_path st) = fs (thr_path st))"
  using assms(1,2,5)
proof (cases rule: config_set_cases)
  case refused
  with assms config_init_loads [OF assms(3), of fs] show ?thesis by simp
next
  case saved
  note load = config_init_loads [OF assms(3)]
  have last: "f (thr_path st) = (if rc = 0 then Some (render (throttle_config_tree (thr_config st'))) else fs (thr_path st))"
    by (rule pw.after_any [OF saved(2)])
  have "\<exists>c \<in> {thr_config st, thr_config st'}. connthrottle_config_init healthy_read (thr_path st) g any =
       (any\<lparr>thr_path := thr_path st, thr_config := c, thr_table := replicate CONNTHROTTLE_MAX_ENTRIES zero_entry\<rparr>, 0)"
    if "g \<in> set (f # visited)" for g
  proof -
    have "g (thr_path st) = Some (render (throttle_config_tree (thr_config st))) \<or>
        g (thr_path st) = Some (render (throttle_config_tree (thr_config st')))"
      using pw.never_torn [of g env "thr_path st" "render (throttle_config_tree (thr_config st'))" fs] saved(2) that assms(4)
      by simp
    then show ?thesis using load [of g] saved(1) assms(1) by blast
  qed
  with last load [of f] saved(1) show ?thesis by simp
qed

theorem throttle_config_durable_witness:
  "\<exists>f v. connthrottle_config_set (healthy_write (render (throttle_config_tree (default_throttle_config\<lparr>cfg_threshold := 7\<rparr>))))
       (- 1) 7 (- 1) (- 1) (- 1) (demo_throttle\<lparr>thr_config := default_throttle_config\<rparr>)
       [''/t.json'' \<mapsto> render (throttle_config_tree default_throttle_config)] =
     Some (demo_throttle\<lparr>thr_config := default_throttle_config\<lparr>cfg_threshold := 7\<rparr>\<rparr>, f # v, 0) \<and>
   cfg_threshold (thr_config (fst (connthrottle_config_init healthy_read ''/t.json'' f demo_throttle))) = 7"
proof -
  let ?c = "default_throttle_config\<lparr>cfg_threshold := 7\<rparr>" and ?d = "render (throttle_config_tree (default_throttle_config\<lparr>cfg_threshold := 7\<rparr>))"
  have ok: "throttle_config_ok ?c" "throttle_config_ok default_throttle_config"
    by (simp_all add: throttle_config_ok_def default_throttle_config_def)
  obtain f v where f: "persist_atomic_write (healthy_write ?d) ''/t.json'' ?d
      [''/t.json'' \<mapsto> render (throttle_config_tree default_throttle_config)] = (f # v, 0)"
    by (simp add: persist_atomic_write_def atomic_write_def healthy_write_def tmp_path_def PATH_MAX_def Let_def)
  obtain w where "throttle_config_writer ?c = Some w" "jw_buf w = ?d" using throttle_config_writer_text [OF ok(1)] by blast
  with f have set: "connthrottle_config_set (healthy_write ?d) (- 1) 7 (- 1) (- 1) (- 1)
      (demo_throttle\<lparr>thr_config := default_throttle_config\<rparr>)
      [''/t.json'' \<mapsto> render (throttle_config_tree default_throttle_config)] =
      Some (demo_throttle\<lparr>thr_config := ?c\<rparr>, f # v, 0)"
    by (simp add: connthrottle_config_set_def throttle_save_config_def throttle_config_update_def demo_throttle_def)
  from throttle_config_durable [OF _ _ _ _ set, of demo_throttle] ok set show ?thesis by (simp add: demo_throttle_def)
qed

end
