(* ===== verification/Subid.thy ===== *)
theory Subid
  imports Persist
begin

text \<open>
  \<open>daemon/src/subid.c\<close>: the allocator of subordinate user-id ranges for user-namespaced
  containers, and the two functions of \<open>daemon/src/ldap.c\<close> it shares a guarantee with
  (\<open>ldap_user_uidnumber_in_range\<close> and \<open>validate_user_fields\<close>).  The first \<open>g_count\<close> slots of
  \<open>g_table\<close> are a list; of a directory user and group only the name and the number matter here.

  The lemmas show that committed ranges are pairwise disjoint and above the floor, that no
  managed user's number lies in one (whichever of the two is created first), that a key keeps
  its range for good, and that a restart reloads the table.
\<close>

section \<open>State\<close>

definition SUBID_MAX :: nat where "SUBID_MAX = 512"
definition SUBID_KEY_MAX :: nat where "SUBID_KEY_MAX = 128"
definition SUBID_RANGE_LEN :: int where "SUBID_RANGE_LEN = 65536"
definition SUBID_FLOOR :: int where "SUBID_FLOOR = 100000"

record subid_entry =
  se_key :: string
  se_base :: int

record subid =
  sub_path :: string
  sub_table :: "subid_entry list"

record ldap_user =
  lu_name :: string
  lu_uidnumber :: int

record ldap_group =
  lg_name :: string
  lg_gidnumber :: int

definition subid_find :: "subid_entry list \<Rightarrow> string \<Rightarrow> nat option" where
  "subid_find t key = find_index (\<lambda>e. se_key e = key) t"

section \<open>The directory's side\<close>

definition ldap_user_uidnumber_in_range :: "ldap_user list \<Rightarrow> int \<Rightarrow> int \<Rightarrow> bool" where
  "ldap_user_uidnumber_in_range users lo hi =
     list_ex (\<lambda>u. lu_name u \<noteq> [] \<and> lo \<le> lu_uidnumber u \<and> lu_uidnumber u \<le> hi) users"

definition subid_overlaps_uidnumber :: "subid \<Rightarrow> int \<Rightarrow> bool" where
  "subid_overlaps_uidnumber st uid =
     list_ex (\<lambda>e. se_base e \<le> uid \<and> uid < se_base e + SUBID_RANGE_LEN) (sub_table st)"

datatype ldap_record_error = LDAP_RECORD_OK | LDAP_RECORD_ERR_INVALID_NAME | LDAP_RECORD_ERR_INVALID_FIELD
  | LDAP_RECORD_ERR_DUPLICATE | LDAP_RECORD_ERR_FULL | LDAP_RECORD_ERR_NOT_FOUND | LDAP_RECORD_ERR_GROUP_NOT_FOUND
  | LDAP_RECORD_ERR_NO_SERVER_CERT | LDAP_RECORD_ERR_PERSIST_FAILED

definition ldap_group_find_by_gid :: "ldap_group list \<Rightarrow> int \<Rightarrow> nat option" where
  "ldap_group_find_by_gid groups gid = find_index (\<lambda>g. lg_name g \<noteq> [] \<and> lg_gidnumber g = gid) groups"

text \<open>The array and its count are one list; the count is its length.\<close>

definition validate_user_fields :: "subid \<Rightarrow> ldap_group list \<Rightarrow> int \<Rightarrow> int \<Rightarrow> int list \<Rightarrow> ldap_record_error" where
  "validate_user_fields st groups uidnumber primarygroup secondary_groups =
     (if uidnumber \<le> 0 then LDAP_RECORD_ERR_INVALID_FIELD
      else if subid_overlaps_uidnumber st uidnumber then LDAP_RECORD_ERR_INVALID_FIELD
      else if ldap_group_find_by_gid groups primarygroup = None then LDAP_RECORD_ERR_GROUP_NOT_FOUND
      else if 16 < length secondary_groups then LDAP_RECORD_ERR_INVALID_FIELD
      else if list_ex (\<lambda>g. ldap_group_find_by_gid groups g = None) secondary_groups
        then LDAP_RECORD_ERR_GROUP_NOT_FOUND
      else LDAP_RECORD_OK)"

section \<open>Persistence\<close>

definition subid_entry_json :: "json_writer \<Rightarrow> subid_entry \<Rightarrow> json_writer option" where
  "subid_entry_json w e =
     do { w \<leftarrow> jw_obj_open w;
          w \<leftarrow> jw_key w ''key'';
          w \<leftarrow> jw_str w (se_key e);
          w \<leftarrow> jw_key w ''base'';
          w \<leftarrow> jw_int w (se_base e);
          Some (jw_obj_close w) }"

definition subid_persist_table :: "write_env \<Rightarrow> subid \<Rightarrow> fs \<Rightarrow> (fs list \<times> int) option" where
  "subid_persist_table env st fs =
     do { w \<leftarrow> jw_arr_open (jw_init blank_writer);
          w \<leftarrow> jw_each subid_entry_json w (sub_table st);
          Some (persist_atomic_write env (sub_path st) (jw_buf (jw_arr_close w)) fs) }"

text \<open>The loading loop stops when the table is full and skips entries it cannot read.\<close>

fun subid_load :: "json list \<Rightarrow> subid_entry list \<Rightarrow> subid_entry list" where
  "subid_load [] t = t"
| "subid_load (item # items) t =
     (if SUBID_MAX \<le> length t then t
      else case (json_as_string (json_object_get (Some item) ''key''), json_object_get (Some item) ''base'') of
        (Some key, Some (JNumber d)) \<Rightarrow>
          subid_load items (t @ [\<lparr>se_key = snprintf_s SUBID_KEY_MAX key, se_base = d2ll d\<rparr>])
      | _ \<Rightarrow> subid_load items t)"

definition subid_init :: "read_env \<Rightarrow> string \<Rightarrow> fs \<Rightarrow> subid \<Rightarrow> subid \<times> int" where
  "subid_init env path fs st =
     (let st = st\<lparr>sub_path := snprintf_s PATH_MAX path\<rparr> in
      if PATH_MAX \<le> length path then (st, - 1)
      else let st = st\<lparr>sub_table := []\<rparr> in
        case persist_read_file env (sub_path st) fs of
          ReadErr \<Rightarrow> (st, - 1)
        | ReadAbsent \<Rightarrow> (st, 0)
        | ReadData buf \<Rightarrow>
            (case json_parse buf of Some (JArray items) \<Rightarrow> (st\<lparr>sub_table := subid_load items []\<rparr>, 0)
             | _ \<Rightarrow> (st, - 1)))"

definition subid_repoint :: "string \<Rightarrow> subid \<Rightarrow> subid" where
  "subid_repoint new_state_path st = st\<lparr>sub_path := snprintf_s PATH_MAX new_state_path\<rparr>"

section \<open>Allocation\<close>

text \<open>One past the highest committed range, never below the floor.\<close>

definition subid_next_base :: "subid_entry list \<Rightarrow> int" where
  "subid_next_base t =
     foldl (\<lambda>next e. if next < se_base e + SUBID_RANGE_LEN then se_base e + SUBID_RANGE_LEN else next) SUBID_FLOOR t"

text \<open>Step past candidates that contain a managed user; \<open>None\<close> when the numbers run out.\<close>

function subid_step_past :: "ldap_user list \<Rightarrow> int \<Rightarrow> int option" where
  "subid_step_past users next =
     (if ldap_user_uidnumber_in_range users next (next + SUBID_RANGE_LEN - 1) then
        if LLONG_MAX - SUBID_RANGE_LEN < next + SUBID_RANGE_LEN then None
        else subid_step_past users (next + SUBID_RANGE_LEN)
      else Some next)"
  by pat_completeness auto
termination
  by (relation "measure (\<lambda>(users, next). nat (LLONG_MAX - next))") (auto simp: SUBID_RANGE_LEN_def)

declare subid_step_past.simps [simp del]

text \<open>The state, the file systems left behind, the return value and \<open>*out_base\<close> if it is set.\<close>

definition subid_lookup_or_assign ::
  "write_env \<Rightarrow> ldap_user list \<Rightarrow> string \<Rightarrow> subid \<Rightarrow> fs \<Rightarrow> (subid \<times> fs list \<times> int \<times> int option) option" where
  "subid_lookup_or_assign env users key st fs =
     (case subid_find (sub_table st) key of
        Some i \<Rightarrow> Some (st, [fs], 0, Some (se_base (sub_table st ! i)))
      | None \<Rightarrow>
          if SUBID_MAX \<le> length (sub_table st) then Some (st, [fs], - 1, None)
          else case subid_step_past users (subid_next_base (sub_table st)) of
            None \<Rightarrow> Some (st, [fs], - 1, None)
          | Some next \<Rightarrow>
              let st' = st\<lparr>sub_table := sub_table st @ [\<lparr>se_key = snprintf_s SUBID_KEY_MAX key, se_base = next\<rparr>]\<rparr>
              in do { (visited, rc) \<leftarrow> subid_persist_table env st' fs;
                      if rc \<noteq> 0 then Some (st, visited, - 1, None) else Some (st', visited, 0, Some next) })"

section \<open>The scan for a base\<close>

lemma next_base_ge:
  "SUBID_FLOOR \<le> subid_next_base t" "e \<in> set t \<Longrightarrow> se_base e + SUBID_RANGE_LEN \<le> subid_next_base t"
proof -
  let ?f = "\<lambda>next e. if next < se_base e + SUBID_RANGE_LEN then se_base e + SUBID_RANGE_LEN else next"
  have ge: "a \<le> foldl ?f a t" for a
  proof (induction t arbitrary: a)
    case (Cons e t)
    from Cons [of "?f a e"] show ?case by auto
  qed simp
  then show "SUBID_FLOOR \<le> subid_next_base t" by (simp add: subid_next_base_def)
  have "e \<in> set t \<Longrightarrow> se_base e + SUBID_RANGE_LEN \<le> foldl ?f a t" for a
  proof (induction t rule: rev_induct)
    case (snoc x t)
    then show ?case by auto
  qed simp
  then show "e \<in> set t \<Longrightarrow> se_base e + SUBID_RANGE_LEN \<le> subid_next_base t" by (simp add: subid_next_base_def)
qed

lemma next_base_le: "SUBID_FLOOR \<le> b \<Longrightarrow> (\<And>e. e \<in> set t \<Longrightarrow> se_base e + SUBID_RANGE_LEN \<le> b) \<Longrightarrow> subid_next_base t \<le> b"
  unfolding subid_next_base_def by (induction t rule: rev_induct) auto

lemma step_past_sound:
  "subid_step_past users n = Some b \<Longrightarrow>
     n \<le> b \<and> \<not> ldap_user_uidnumber_in_range users b (b + SUBID_RANGE_LEN - 1)"
proof (induction users n rule: subid_step_past.induct)
  case (1 users n)
  show ?case
  proof (cases "ldap_user_uidnumber_in_range users n (n + SUBID_RANGE_LEN - 1)")
    case True
    with "1.prems" have "\<not> LLONG_MAX - SUBID_RANGE_LEN < n + SUBID_RANGE_LEN"
      "subid_step_past users (n + SUBID_RANGE_LEN) = Some b"
      by (auto simp: subid_step_past.simps [of users n] split: if_splits)
    with "1.IH" True show ?thesis by (auto simp: SUBID_RANGE_LEN_def)
  next
    case False
    with "1.prems" show ?thesis by (simp add: subid_step_past.simps)
  qed
qed

text \<open>User numbers are C ints, so the loop ends below the top of the 64-bit range.\<close>

definition users_ok :: "ldap_user list \<Rightarrow> bool" where
  "users_ok users = list_all (\<lambda>u. lu_uidnumber u \<le> INT_MAX) users"

lemma step_past_ends:
  "users_ok users \<Longrightarrow> n \<le> LLONG_MAX - 2 * SUBID_RANGE_LEN \<Longrightarrow>
     \<exists>b. subid_step_past users n = Some b \<and> b \<le> max n (INT_MAX + SUBID_RANGE_LEN)"
proof (induction users n rule: subid_step_past.induct)
  case (1 users n)
  show ?case
  proof (cases "ldap_user_uidnumber_in_range users n (n + SUBID_RANGE_LEN - 1)")
    case True
    then have n: "n \<le> INT_MAX" using "1.prems"(1)
      by (fastforce simp: users_ok_def ldap_user_uidnumber_in_range_def list_ex_iff list_all_iff)
    then have le: "n + SUBID_RANGE_LEN \<le> LLONG_MAX - 2 * SUBID_RANGE_LEN"
      by (simp add: INT_MAX_def LLONG_MAX_def SUBID_RANGE_LEN_def)
    then have g: "\<not> LLONG_MAX - SUBID_RANGE_LEN < n + SUBID_RANGE_LEN" by (simp add: SUBID_RANGE_LEN_def)
    from "1.IH" [OF True g "1.prems"(1) le] n show ?thesis
      using True g by (auto simp: subid_step_past.simps [of users n] SUBID_RANGE_LEN_def)
  next
    case False
    then show ?thesis by (simp add: subid_step_past.simps)
  qed
qed

section \<open>The document\<close>

definition subid_entry_tree :: "subid_entry \<Rightarrow> json" where
  "subid_entry_tree e = JObject [(''key'', JString (se_key e)), (''base'', JNumber (ll2d (se_base e)))]"

definition subid_entry_ok :: "subid_entry \<Rightarrow> bool" where
  "subid_entry_ok e = (is_c_str (se_key e) \<and> length (se_key e) < SUBID_KEY_MAX \<and> \<bar>se_base e\<bar> < 2 ^ 53)"

definition subid_table_ok :: "subid_entry list \<Rightarrow> bool" where
  "subid_table_ok t = (length t \<le> SUBID_MAX \<and> (\<forall>e \<in> set t. subid_entry_ok e))"

definition subid_text :: "subid_entry list \<Rightarrow> string" where
  "subid_text t = render (JArray (map subid_entry_tree t))"

lemma subid_persist_text:
  assumes "\<forall>e \<in> set (sub_table st). \<bar>se_base e\<bar> < 2 ^ 53"
  shows "subid_persist_table env st fs = Some (persist_atomic_write env (sub_path st) (subid_text (sub_table st)) fs)"
proof -
  let ?v = "JArray (map subid_entry_tree (sub_table st))"
  have "subid_entry_json w e = jw_value w (subid_entry_tree e)" if "e \<in> set (sub_table st)" for w e
    using assms that by (simp add: subid_entry_json_def subid_entry_tree_def jw_int_value del: jw_value.simps(3))
  then have each: "jw_each subid_entry_json w (sub_table st) = jw_items w (map subid_entry_tree (sub_table st))" for w
    by (rule jw_each_items)
  have "nesting ?v \<le> JW_MAX_DEPTH" by (auto simp: JW_MAX_DEPTH_def nesting_items_le subid_entry_tree_def)
  then obtain w where "jw_value (jw_init blank_writer) ?v = Some w" "jw_buf w = render ?v" using jw_value_blank by blast
  then show ?thesis by (auto simp: subid_persist_table_def each subid_text_def bind_eq_Some_conv)
qed

lemma subid_load_tree:
  "\<forall>e \<in> set t. subid_entry_ok e \<Longrightarrow> length acc + length t \<le> SUBID_MAX \<Longrightarrow>
     subid_load (map subid_entry_tree t) acc = acc @ t"
proof (induction t arbitrary: acc)
  case (Cons e t)
  then have "subid_load (map subid_entry_tree (e # t)) acc = subid_load (map subid_entry_tree t) (acc @ [e])"
    by (cases e) (simp add: subid_entry_tree_def json_object_get_def json_as_string_def subid_entry_ok_def d2ll_ll2d)
  with Cons show ?case by simp
qed simp

definition subid_decode :: "string \<Rightarrow> subid_entry list option" where
  "subid_decode text = (case json_parse text of Some (JArray items) \<Rightarrow> Some (subid_load items []) | _ \<Rightarrow> None)"

interpretation sub_store: config_store persist_atomic_write tmp_path subid_table_ok subid_text subid_decode
proof unfold_locales
  fix t
  assume t: "subid_table_ok t"
  then have "exact_json (JArray (map subid_entry_tree t))"
    by (auto simp: exact_items_map subid_table_ok_def subid_entry_tree_def subid_entry_ok_def NUL_def)
  then have "json_parse (subid_text t) = Some (JArray (map subid_entry_tree t))" unfolding subid_text_def by (rule json_parse_render)
  with t show "subid_decode (subid_text t) = Some t" by (simp add: subid_decode_def subid_table_ok_def subid_load_tree)
qed

lemma subid_init_decodes:
  "length p < PATH_MAX \<Longrightarrow> fs p = Some d \<Longrightarrow> subid_decode d = Some t \<Longrightarrow>
     subid_init healthy_read p fs any = (any\<lparr>sub_path := p, sub_table := t\<rparr>, 0)"
  by (simp add: subid_init_def subid_decode_def Let_def split: option.splits json.splits)

section \<open>The invariant\<close>

definition ranges_disjoint :: "subid_entry list \<Rightarrow> bool" where
  "ranges_disjoint t = sorted_wrt (\<lambda>a b. se_base a + SUBID_RANGE_LEN \<le> se_base b) t"

definition no_user_in_range :: "ldap_user list \<Rightarrow> subid_entry list \<Rightarrow> bool" where
  "no_user_in_range users t =
     (\<forall>e \<in> set t. \<not> ldap_user_uidnumber_in_range users (se_base e) (se_base e + SUBID_RANGE_LEN - 1))"

definition subid_wf :: "subid \<Rightarrow> bool" where
  "subid_wf st = (length (sub_table st) \<le> SUBID_MAX \<and> distinct (map se_key (sub_table st)) \<and>
     ranges_disjoint (sub_table st) \<and>
     (\<forall>i < length (sub_table st). is_c_str (se_key (sub_table st ! i)) \<and> length (se_key (sub_table st ! i)) < SUBID_KEY_MAX \<and>
        SUBID_FLOOR \<le> se_base (sub_table st ! i) \<and>
        se_base (sub_table st ! i) \<le> INT_MAX + (int i + 1) * SUBID_RANGE_LEN))"

lemma subid_wf_table_ok: "subid_wf st \<Longrightarrow> subid_table_ok (sub_table st)"
proof -
  assume wf: "subid_wf st"
  have "\<bar>se_base (sub_table st ! i)\<bar> < 2 ^ 53" if "i < length (sub_table st)" for i
  proof -
    have "int i + 1 \<le> 512" using that wf by (simp add: subid_wf_def SUBID_MAX_def)
    then have "INT_MAX + (int i + 1) * SUBID_RANGE_LEN < 2 ^ 53" by (simp add: INT_MAX_def SUBID_RANGE_LEN_def)
    moreover have "SUBID_FLOOR \<le> se_base (sub_table st ! i)"
      "se_base (sub_table st ! i) \<le> INT_MAX + (int i + 1) * SUBID_RANGE_LEN"
      using wf that by (auto simp: subid_wf_def)
    ultimately show ?thesis by (simp add: SUBID_FLOOR_def)
  qed
  with wf show ?thesis by (auto simp: subid_table_ok_def subid_entry_ok_def subid_wf_def in_set_conv_nth)
qed

text \<open>The next base, for a well-formed table.\<close>

lemma next_base_bound: "subid_wf st \<Longrightarrow> subid_next_base (sub_table st) \<le> INT_MAX + (int (length (sub_table st)) + 1) * SUBID_RANGE_LEN"
proof (rule next_base_le)
  assume wf: "subid_wf st"
  fix e
  assume "e \<in> set (sub_table st)"
  then obtain i where i: "i < length (sub_table st)" "e = sub_table st ! i" by (auto simp: in_set_conv_nth)
  then have "se_base e \<le> INT_MAX + (int i + 1) * SUBID_RANGE_LEN" using wf by (simp add: subid_wf_def)
  with i show "se_base e + SUBID_RANGE_LEN \<le> INT_MAX + (int (length (sub_table st)) + 1) * SUBID_RANGE_LEN"
    by (simp add: SUBID_RANGE_LEN_def)
qed (simp add: SUBID_FLOOR_def INT_MAX_def SUBID_RANGE_LEN_def)

lemma step_past_wf:
  assumes "subid_wf st" "users_ok users"
  shows "\<exists>b. subid_step_past users (subid_next_base (sub_table st)) = Some b \<and>
    b \<le> INT_MAX + (int (length (sub_table st)) + 1) * SUBID_RANGE_LEN"
proof -
  let ?n = "subid_next_base (sub_table st)"
  have l: "int (length (sub_table st)) \<le> 512" using assms(1) by (simp add: subid_wf_def SUBID_MAX_def)
  have n: "?n \<le> INT_MAX + (int (length (sub_table st)) + 1) * SUBID_RANGE_LEN" by (rule next_base_bound [OF assms(1)])
  then have "?n \<le> LLONG_MAX - 2 * SUBID_RANGE_LEN" using l by (simp add: INT_MAX_def LLONG_MAX_def SUBID_RANGE_LEN_def)
  from step_past_ends [OF assms(2) this] obtain b where b: "subid_step_past users ?n = Some b"
    "b \<le> max ?n (INT_MAX + SUBID_RANGE_LEN)" by blast
  have "INT_MAX + SUBID_RANGE_LEN \<le> INT_MAX + (int (length (sub_table st)) + 1) * SUBID_RANGE_LEN"
    by (simp add: SUBID_RANGE_LEN_def)
  with b n show ?thesis by auto
qed

lemma subid_find_Some: "subid_find t key = Some i \<Longrightarrow> i < length t \<and> se_key (t ! i) = key"
  by (auto simp: subid_find_def dest: find_index_Some)

lemma subid_find_None: "subid_find t key = None \<longleftrightarrow> key \<notin> se_key ` set t"
  by (auto simp: subid_find_def find_index_None)

text \<open>The three ways a call ends.\<close>

lemma assign_cases:
  assumes wf: "subid_wf st" and u: "users_ok users" and key: "is_c_str key" "length key < SUBID_KEY_MAX"
    and call: "subid_lookup_or_assign env users key st fs = Some (st', visited, rc, out)"
  obtains (found) i where "subid_find (sub_table st) key = Some i" "st' = st" "visited = [fs]" "rc = 0"
      "out = Some (se_base (sub_table st ! i))"
  | (failed) "subid_find (sub_table st) key = None" "st' = st" "rc = - 1" "out = None" "visited \<noteq> []"
      "\<And>f. f \<in> set visited \<Longrightarrow> f (sub_path st) = fs (sub_path st)"
      "length (sub_table st) = SUBID_MAX \<or> (\<exists>t. snd (persist_atomic_write env (sub_path st) (subid_text t) fs) = - 1)"
  | (fresh) b where "subid_find (sub_table st) key = None" "length (sub_table st) < SUBID_MAX"
      "subid_step_past users (subid_next_base (sub_table st)) = Some b"
      "st' = st\<lparr>sub_table := sub_table st @ [\<lparr>se_key = key, se_base = b\<rparr>]\<rparr>" "rc = 0" "out = Some b" "subid_wf st'"
      "persist_atomic_write env (sub_path st) (subid_text (sub_table st')) fs = (visited, 0)"
proof (cases "subid_find (sub_table st) key")
  case (Some i)
  with call have "st' = st" "visited = [fs]" "rc = 0" "out = Some (se_base (sub_table st ! i))"
    by (auto simp: subid_lookup_or_assign_def)
  with Some show thesis by (rule that(1))
next
  case None
  show thesis
  proof (cases "length (sub_table st) < SUBID_MAX")
    case False
    with call None have "st' = st" "visited = [fs]" "rc = - 1" "out = None" by (simp_all add: subid_lookup_or_assign_def)
    moreover have "length (sub_table st) = SUBID_MAX" using False wf by (simp add: subid_wf_def)
    ultimately show thesis using None by (intro that(2)) simp_all
  next
    case True
    obtain b where b: "subid_step_past users (subid_next_base (sub_table st)) = Some b"
      "b \<le> INT_MAX + (int (length (sub_table st)) + 1) * SUBID_RANGE_LEN" using step_past_wf [OF wf u] by blast
    define s' where "s' = st\<lparr>sub_table := sub_table st @ [\<lparr>se_key = key, se_base = b\<rparr>]\<rparr>"
    have ge: "subid_next_base (sub_table st) \<le> b" using step_past_sound [OF b(1)] by simp
    have sorted: "ranges_disjoint (sub_table s')"
      using wf ge next_base_ge(2) [of _ "sub_table st"]
      by (fastforce simp: s'_def subid_wf_def ranges_disjoint_def sorted_wrt_append)
    have wf': "subid_wf s'"
      using wf None True key b(2) ge next_base_ge(1) [of "sub_table st"] sorted
      by (auto simp: s'_def subid_wf_def subid_find_None nth_append SUBID_MAX_def less_Suc_eq_le)
    have "\<forall>e \<in> set (sub_table s'). \<bar>se_base e\<bar> < 2 ^ 53"
      using subid_wf_table_ok [OF wf'] by (simp add: subid_table_ok_def subid_entry_ok_def)
    note doc = subid_persist_text [OF this, of env fs]
    obtain v r where p: "persist_atomic_write env (sub_path s') (subid_text (sub_table s')) fs = (v, r)"
      by (cases "persist_atomic_write env (sub_path s') (subid_text (sub_table s')) fs")
    have path: "sub_path s' = sub_path st" by (simp add: s'_def)
    have call': "subid_lookup_or_assign env users key st fs =
        (if r \<noteq> 0 then Some (st, v, - 1, None) else Some (s', v, 0, Some b))"
      using None True b(1) doc p key(2) by (simp add: subid_lookup_or_assign_def s'_def [symmetric])
    show thesis
    proof (cases "r = 0")
      case True
      with call call' have "st' = s'" "visited = v" "rc = 0" "out = Some b" by auto
      with None \<open>length (sub_table st) < SUBID_MAX\<close> b(1) wf' p True path show thesis
        by (intro that(3) [of b]) (simp_all add: s'_def)
    next
      case False
      have "f (sub_path st) = fs (sub_path st)" if "f \<in> set v" for f
        using pw.write_fails [of env "sub_path s'" "subid_text (sub_table s')" fs f] p that False path by simp
      moreover have "v \<noteq> []" using pw.visited_nonempty [of env "sub_path s'" "subid_text (sub_table s')" fs] p by simp
      moreover have "st' = st" "visited = v" "rc = - 1" "out = None" using call call' False by simp_all
      moreover have "snd (persist_atomic_write env (sub_path st) (subid_text (sub_table s')) fs) = - 1"
        using pw.rc_cases [of env "sub_path st" "subid_text (sub_table s')" fs] p path False by simp
      ultimately show thesis using None by (intro that(2)) auto
    qed
  qed
qed

section \<open>Sequences of events\<close>

text \<open>
  Range requests interleaved with the creation and update of directory users.  A user record is
  stored only when \<open>validate_user_fields\<close> accepts it, in whatever slot the directory chooses.
\<close>

datatype id_event = Assign write_env string | PutUser nat string int int "int list"

type_synonym id_world = "subid \<times> ldap_user list \<times> fs"

fun id_step :: "ldap_group list \<Rightarrow> id_event \<Rightarrow> id_world \<Rightarrow> id_world option" where
  "id_step groups (Assign env key) (st, users, fs) =
     do { (st', visited, rc, out) \<leftarrow> subid_lookup_or_assign env users key st fs; Some (st', users, hd visited) }"
| "id_step groups (PutUser slot name uid primary secondary) (st, users, fs) =
     (if validate_user_fields st groups uid primary secondary = LDAP_RECORD_OK
      then Some (st, users[slot := \<lparr>lu_name = name, lu_uidnumber = uid\<rparr>], fs) else Some (st, users, fs))"

fun id_run :: "ldap_group list \<Rightarrow> id_event list \<Rightarrow> id_world \<Rightarrow> id_world option" where
  "id_run groups [] w = Some w"
| "id_run groups (ev # evs) w = do { w \<leftarrow> id_step groups ev w; id_run groups evs w }"

fun id_event_ok :: "id_event \<Rightarrow> bool" where
  "id_event_ok (Assign env key) = (is_c_str key \<and> length key < SUBID_KEY_MAX)"
| "id_event_ok (PutUser slot name uid primary secondary) = (uid \<le> INT_MAX)"

text \<open>The file holds the table, or nothing was ever committed.\<close>

definition on_disk :: "subid \<Rightarrow> fs \<Rightarrow> bool" where
  "on_disk st fs = (fs (sub_path st) = Some (subid_text (sub_table st)) \<or> sub_table st = [] \<and> fs (sub_path st) = None)"

definition id_inv :: "id_world \<Rightarrow> bool" where
  "id_inv w = (case w of (st, users, fs) \<Rightarrow>
     subid_wf st \<and> users_ok users \<and> no_user_in_range users (sub_table st) \<and> on_disk st fs)"

lemma assign_defined:
  assumes "subid_wf st" "users_ok users" "is_c_str key" "length key < SUBID_KEY_MAX"
  shows "\<exists>st' visited rc out. subid_lookup_or_assign env users key st fs = Some (st', visited, rc, out)"
proof (cases "subid_find (sub_table st) key = None \<and> length (sub_table st) < SUBID_MAX")
  case True
  obtain b where b: "subid_step_past users (subid_next_base (sub_table st)) = Some b"
    "b \<le> INT_MAX + (int (length (sub_table st)) + 1) * SUBID_RANGE_LEN" using step_past_wf [OF assms(1,2)] by blast
  let ?s = "st\<lparr>sub_table := sub_table st @ [\<lparr>se_key = snprintf_s SUBID_KEY_MAX key, se_base = b\<rparr>]\<rparr>"
  have "SUBID_FLOOR \<le> b" using step_past_sound [OF b(1)] next_base_ge(1) [of "sub_table st"] by linarith
  moreover have "int (length (sub_table st)) + 1 \<le> 512" using True by (simp add: SUBID_MAX_def)
  ultimately have "\<bar>b\<bar> < 2 ^ 53" using b(2) by (simp add: SUBID_FLOOR_def INT_MAX_def SUBID_RANGE_LEN_def)
  then have "\<forall>e \<in> set (sub_table ?s). \<bar>se_base e\<bar> < 2 ^ 53"
    using subid_wf_table_ok [OF assms(1)] by (auto simp: subid_table_ok_def subid_entry_ok_def)
  from subid_persist_text [OF this, of env fs] True b(1) show ?thesis
    by (auto simp: subid_lookup_or_assign_def split: prod.splits)
qed (auto simp: subid_lookup_or_assign_def split: option.splits)

lemma visited_hd: "persist_atomic_write env p d fs = (v, 0) \<Longrightarrow> hd v p = Some d"
  using pw.write_ok [of env p d fs] by simp

lemma id_step_assign:
  assumes inv: "id_inv (st, users, fs)" and key: "is_c_str key" "length key < SUBID_KEY_MAX"
  shows "\<exists>st' f. id_step groups (Assign env key) (st, users, fs) = Some (st', users, f) \<and> id_inv (st', users, f) \<and>
    sub_path st' = sub_path st \<and> (\<exists>t. sub_table st' = sub_table st @ t)"
proof -
  from inv have wf: "subid_wf st" and u: "users_ok users" and nr: "no_user_in_range users (sub_table st)"
    and d: "on_disk st fs" by (auto simp: id_inv_def)
  obtain st' v rc out where call: "subid_lookup_or_assign env users key st fs = Some (st', v, rc, out)"
    using assign_defined [OF wf u key] by blast
  from wf u key call have "id_inv (st', users, hd v) \<and> sub_path st' = sub_path st \<and> (\<exists>t. sub_table st' = sub_table st @ t)"
  proof (cases rule: assign_cases)
    case (found i)
    with inv show ?thesis by simp
  next
    case failed
    with inv show ?thesis by (auto simp: id_inv_def on_disk_def)
  next
    case (fresh b)
    then have "no_user_in_range users (sub_table st')"
      using nr step_past_sound [of users _ b] by (auto simp: no_user_in_range_def)
    moreover have "on_disk st' (hd v)" using visited_hd [OF fresh(8)] fresh(4) by (simp add: on_disk_def)
    ultimately show ?thesis using fresh u by (auto simp: id_inv_def)
  qed
  with call show ?thesis by auto
qed

lemma validate_no_overlap:
  "validate_user_fields st groups uid primary secondary = LDAP_RECORD_OK \<Longrightarrow> \<not> subid_overlaps_uidnumber st uid"
  by (auto simp: validate_user_fields_def split: if_splits)

lemma put_user_no_range:
  assumes "no_user_in_range users (sub_table st)" "\<not> subid_overlaps_uidnumber st uid"
  shows "no_user_in_range (users[slot := \<lparr>lu_name = name, lu_uidnumber = uid\<rparr>]) (sub_table st)"
  unfolding no_user_in_range_def
proof
  fix e
  assume e: "e \<in> set (sub_table st)"
  with assms have "\<not> ldap_user_uidnumber_in_range users (se_base e) (se_base e + SUBID_RANGE_LEN - 1)"
    "\<not> (se_base e \<le> uid \<and> uid < se_base e + SUBID_RANGE_LEN)"
    by (auto simp: no_user_in_range_def subid_overlaps_uidnumber_def list_ex_iff)
  then show "\<not> ldap_user_uidnumber_in_range (users[slot := \<lparr>lu_name = name, lu_uidnumber = uid\<rparr>])
      (se_base e) (se_base e + SUBID_RANGE_LEN - 1)"
    by (auto simp: ldap_user_uidnumber_in_range_def list_ex_iff dest!: set_update_subset_insert [THEN subsetD])
qed

lemma id_step_inv:
  assumes "id_inv w" "id_event_ok ev"
  shows "\<exists>w'. id_step groups ev w = Some w' \<and> id_inv w' \<and> sub_path (fst w') = sub_path (fst w) \<and>
    (\<exists>t. sub_table (fst w') = sub_table (fst w) @ t)"
proof (cases ev)
  case (Assign env key)
  obtain st users fs where w: "w = (st, users, fs)" by (cases w)
  with Assign assms id_step_assign [of st users fs key groups env] show ?thesis by auto
next
  case (PutUser slot name uid primary secondary)
  obtain st users fs where w: "w = (st, users, fs)" by (cases w)
  have "users_ok (users[slot := \<lparr>lu_name = name, lu_uidnumber = uid\<rparr>])"
    using assms PutUser w
    by (auto simp: users_ok_def id_inv_def list_all_iff dest!: set_update_subset_insert [THEN subsetD])
  with assms PutUser w put_user_no_range [of users st uid slot name]
    validate_no_overlap [of st groups uid primary secondary] show ?thesis
    by (auto simp: id_inv_def)
qed

lemma id_run_inv:
  "id_inv w \<Longrightarrow> list_all id_event_ok evs \<Longrightarrow>
     \<exists>w'. id_run groups evs w = Some w' \<and> id_inv w' \<and> sub_path (fst w') = sub_path (fst w) \<and>
       (\<exists>t. sub_table (fst w') = sub_table (fst w) @ t)"
proof (induction evs arbitrary: w)
  case (Cons ev evs)
  from id_step_inv [of w ev groups] Cons.prems obtain w1 t1 where w1: "id_step groups ev w = Some w1" "id_inv w1"
    "sub_path (fst w1) = sub_path (fst w)" "sub_table (fst w1) = sub_table (fst w) @ t1" by auto
  from Cons.IH [OF w1(2)] Cons.prems(2) w1 show ?case by auto
qed simp

lemma assign_found:
  "subid_find (sub_table st) key = Some i \<Longrightarrow>
     subid_lookup_or_assign env users key st fs = Some (st, [fs], 0, Some (se_base (sub_table st ! i)))"
  by (simp add: subid_lookup_or_assign_def)

lemma subid_find_append: "subid_find t key = Some i \<Longrightarrow> subid_find (t @ u) key = Some i"
  unfolding subid_find_def by (induction t arbitrary: i) (auto split: if_splits)

lemma assign_ok_found:
  assumes "subid_wf st" "users_ok users" "is_c_str key" "length key < SUBID_KEY_MAX"
    and "subid_lookup_or_assign env users key st fs = Some (st', visited, 0, Some b)"
  shows "\<exists>i. subid_find (sub_table st') key = Some i \<and> i < length (sub_table st') \<and> se_base (sub_table st' ! i) = b"
  using assms
proof (cases rule: assign_cases)
  case (found i)
  then show ?thesis using subid_find_Some [of "sub_table st" key i] by auto
next
  case (fresh b')
  have "subid_find (t @ [e]) key = Some (length t)" if "subid_find t key = None" "se_key e = key" for t e
    using that by (induction t) (auto simp: subid_find_def)
  with fresh show ?thesis by simp
qed simp

lemma user_outside_ranges:
  "no_user_in_range users (sub_table st) \<Longrightarrow> u \<in> set users \<Longrightarrow> lu_name u \<noteq> [] \<Longrightarrow>
     \<not> subid_overlaps_uidnumber st (lu_uidnumber u)"
  by (fastforce simp: no_user_in_range_def subid_overlaps_uidnumber_def ldap_user_uidnumber_in_range_def list_ex_iff)

definition fresh_subid :: "string \<Rightarrow> subid" where
  "fresh_subid path = \<lparr>sub_path = path, sub_table = []\<rparr>"

lemma fresh_subid_inv:
  "users_ok users \<Longrightarrow> fs path = None \<Longrightarrow> id_inv (fresh_subid path, users, fs)"
  by (simp add: id_inv_def fresh_subid_def subid_wf_def ranges_disjoint_def no_user_in_range_def on_disk_def)

section \<open>Properties\<close>

text \<open>
  C33.  Starting with an empty table, after any sequence of range requests and user changes the
  committed ranges lie above the floor and are pairwise disjoint, and no managed user's number
  falls into a committed range, whichever of the two came first.
\<close>

theorem subid_ranges_exclusive:
  assumes "users_ok users" "fs path = None" "list_all id_event_ok evs"
  shows "\<exists>st' users' fs'. id_run groups evs (fresh_subid path, users, fs) = Some (st', users', fs') \<and>
    (\<forall>i j. i < j \<and> j < length (sub_table st') \<longrightarrow>
       SUBID_FLOOR \<le> se_base (sub_table st' ! i) \<and>
       se_base (sub_table st' ! i) + SUBID_RANGE_LEN \<le> se_base (sub_table st' ! j)) \<and>
    (\<forall>u \<in> set users'. lu_name u \<noteq> [] \<longrightarrow> \<not> subid_overlaps_uidnumber st' (lu_uidnumber u))"
proof -
  have start: "id_inv (fresh_subid path, users, fs)" using assms(1,2) by (rule fresh_subid_inv)
  from id_run_inv [OF start assms(3), of groups] obtain st' users' fs' where
    r: "id_run groups evs (fresh_subid path, users, fs) = Some (st', users', fs')" "id_inv (st', users', fs')" by auto
  then have "subid_wf st'" "no_user_in_range users' (sub_table st')" by (auto simp: id_inv_def)
  with r(1) user_outside_ranges show ?thesis
    by (auto simp: subid_wf_def ranges_disjoint_def sorted_wrt_iff_nth_less)
qed

definition demo_users :: "ldap_user list" where
  "demo_users = [\<lparr>lu_name = ''ann'', lu_uidnumber = 1000\<rparr>, \<lparr>lu_name = ''bob'', lu_uidnumber = 120000\<rparr>]"

definition demo_env :: "write_env" where
  "demo_env = healthy_write (subid_text [\<lparr>se_key = ''web'', se_base = 165536\<rparr>])"

lemma demo_assign:
  "\<exists>f v. subid_lookup_or_assign demo_env demo_users ''web'' (fresh_subid ''/s.json'') Map.empty =
     Some (\<lparr>sub_path = ''/s.json'', sub_table = [\<lparr>se_key = ''web'', se_base = 165536\<rparr>]\<rparr>, f # v, 0, Some 165536)"
proof -
  have b: "subid_step_past demo_users (subid_next_base []) = Some 165536"
    by (simp add: subid_step_past.simps demo_users_def subid_next_base_def SUBID_FLOOR_def SUBID_RANGE_LEN_def
        ldap_user_uidnumber_in_range_def LLONG_MAX_def)
  obtain f v where p: "persist_atomic_write demo_env ''/s.json'' (subid_text [\<lparr>se_key = ''web'', se_base = 165536\<rparr>]) Map.empty =
      (f # v, 0)"
    using healthy_write_succeeds [of "''/s.json''" "subid_text [\<lparr>se_key = ''web'', se_base = 165536\<rparr>]" Map.empty]
    by (auto simp: demo_env_def PATH_MAX_def)
  show ?thesis
    using b p subid_persist_text [of "\<lparr>sub_path = ''/s.json'', sub_table = [\<lparr>se_key = ''web'', se_base = 165536\<rparr>]\<rparr>" demo_env Map.empty]
    by (auto simp: subid_lookup_or_assign_def fresh_subid_def subid_find_def SUBID_MAX_def SUBID_KEY_MAX_def)
qed

theorem subid_ranges_exclusive_witness:
  "\<exists>st' users' fs'. id_run [] [Assign demo_env ''web''] (fresh_subid ''/s.json'', demo_users, Map.empty) = Some (st', users', fs') \<and>
     (\<forall>u \<in> set users'. lu_name u \<noteq> [] \<longrightarrow> \<not> subid_overlaps_uidnumber st' (lu_uidnumber u))"
  using subid_ranges_exclusive [of demo_users Map.empty "''/s.json''" "[Assign demo_env ''web'']" "[]"]
  by (auto simp: users_ok_def demo_users_def INT_MAX_def SUBID_KEY_MAX_def NUL_def)

text \<open>
  A key keeps its range: once a request has returned a base, the same key returns the same
  base and changes nothing, after any later requests and user changes.
\<close>

theorem subid_key_stable:
  assumes "id_inv (st, users, fs)" "is_c_str key" "length key < SUBID_KEY_MAX"
    and "subid_lookup_or_assign env users key st fs = Some (st1, f # visited, 0, Some b)"
    and "id_run groups evs (st1, users, f) = Some (st2, users2, fs2)" "list_all id_event_ok evs"
  shows "subid_lookup_or_assign env2 users2 key st2 fs2 = Some (st2, [fs2], 0, Some b)"
proof -
  from assms(1) have wf: "subid_wf st" "users_ok users" by (auto simp: id_inv_def)
  obtain i where i: "subid_find (sub_table st1) key = Some i" "i < length (sub_table st1)" "se_base (sub_table st1 ! i) = b"
    using assign_ok_found [OF wf assms(2-4)] by blast
  have "id_inv (st1, users, f)" using id_step_assign [OF assms(1-3), of groups env] assms(4) by auto
  from id_run_inv [OF this assms(6), of groups] assms(5) obtain t where "sub_table st2 = sub_table st1 @ t" by auto
  with i subid_find_append [OF i(1)] show ?thesis by (simp add: assign_found nth_append)
qed

theorem subid_key_stable_witness:
  "\<exists>st1 f v. subid_lookup_or_assign demo_env demo_users ''web'' (fresh_subid ''/s.json'') Map.empty =
       Some (st1, f # v, 0, Some 165536) \<and>
     subid_lookup_or_assign demo_env demo_users ''web'' st1 f = Some (st1, [f], 0, Some 165536)"
proof -
  obtain f v where d: "subid_lookup_or_assign demo_env demo_users ''web'' (fresh_subid ''/s.json'') Map.empty =
      Some (\<lparr>sub_path = ''/s.json'', sub_table = [\<lparr>se_key = ''web'', se_base = 165536\<rparr>]\<rparr>, f # v, 0, Some 165536)"
    using demo_assign by blast
  have inv: "id_inv (fresh_subid ''/s.json'', demo_users, Map.empty)"
    by (rule fresh_subid_inv) (simp_all add: users_ok_def demo_users_def INT_MAX_def)
  from subid_key_stable [OF inv _ _ d, of "[]" "[]"] d show ?thesis by (auto simp: SUBID_KEY_MAX_def NUL_def)
qed

text \<open>
  What is in memory is what a restart loads: after any events from an empty start,
  \<open>subid_init\<close> on the file system left behind rebuilds exactly the table.
\<close>

theorem subid_restart:
  assumes "users_ok users" "fs path = None" "list_all id_event_ok evs" "length path < PATH_MAX"
    and "id_run groups evs (fresh_subid path, users, fs) = Some (st', users', fs')"
  shows "subid_init healthy_read path fs' any = (any\<lparr>sub_path := path, sub_table := sub_table st'\<rparr>, 0)"
proof -
  have start: "id_inv (fresh_subid path, users, fs)" using assms(1,2) by (rule fresh_subid_inv)
  from id_run_inv [OF start assms(3), of groups] assms(5)
  have inv: "id_inv (st', users', fs')" "sub_path st' = path" by (auto simp: fresh_subid_def)
  then have wf: "subid_wf st'" and d: "on_disk st' fs'" by (auto simp: id_inv_def)
  note ok = subid_wf_table_ok [OF wf]
  show ?thesis
  proof (cases "fs' path")
    case None
    with d inv(2) assms(4) show ?thesis by (auto simp: on_disk_def subid_init_def Let_def)
  next
    case (Some x)
    with d inv(2) have "fs' path = Some (subid_text (sub_table st'))" by (auto simp: on_disk_def)
    from subid_init_decodes [of path fs', OF assms(4) this sub_store.decode_encode [OF ok]] show ?thesis .
  qed
qed

theorem subid_restart_witness:
  "\<exists>st' users' f. id_run [] [Assign demo_env ''web''] (fresh_subid ''/s.json'', demo_users, Map.empty) = Some (st', users', f) \<and>
     subid_init healthy_read ''/s.json'' f (fresh_subid []) =
     (\<lparr>sub_path = ''/s.json'', sub_table = [\<lparr>se_key = ''web'', se_base = 165536\<rparr>]\<rparr>, 0)"
proof -
  obtain f v where d: "subid_lookup_or_assign demo_env demo_users ''web'' (fresh_subid ''/s.json'') Map.empty =
      Some (\<lparr>sub_path = ''/s.json'', sub_table = [\<lparr>se_key = ''web'', se_base = 165536\<rparr>]\<rparr>, f # v, 0, Some 165536)"
    using demo_assign by blast
  then have r: "id_run [] [Assign demo_env ''web''] (fresh_subid ''/s.json'', demo_users, Map.empty) =
      Some (\<lparr>sub_path = ''/s.json'', sub_table = [\<lparr>se_key = ''web'', se_base = 165536\<rparr>]\<rparr>, demo_users, f)" by simp
  from subid_restart [OF _ _ _ _ r, of "fresh_subid []"] r show ?thesis
    by (auto simp: users_ok_def demo_users_def INT_MAX_def SUBID_KEY_MAX_def NUL_def PATH_MAX_def fresh_subid_def)
qed

text \<open>
   A request fails only for one of the documented reasons: all 512 slots are taken, or the
  table could not be written; then the table and its file are unchanged.
\<close>

theorem subid_assign_fails_only_if:
  assumes "subid_wf st" "users_ok users" "is_c_str key" "length key < SUBID_KEY_MAX"
    and "subid_lookup_or_assign env users key st fs = Some (st', visited, rc, out)" "rc \<noteq> 0"
  shows "(length (sub_table st) = SUBID_MAX \<or> (\<exists>t. snd (persist_atomic_write env (sub_path st) (subid_text t) fs) = - 1)) \<and>
    st' = st \<and> rc = - 1 \<and> out = None \<and> (\<forall>f \<in> set visited. f (sub_path st) = fs (sub_path st))"
  using assms(1-5)
  by (cases rule: assign_cases) (use assms(6) in auto)

theorem subid_assign_fails_only_if_witness:
  "\<exists>v. subid_lookup_or_assign (demo_env\<lparr>we_rename := False\<rparr>) demo_users ''web'' (fresh_subid ''/s.json'') Map.empty =
     Some (fresh_subid ''/s.json'', v, - 1, None) \<and> (\<forall>f \<in> set v. f ''/s.json'' = None)"
proof -
  have wf: "subid_wf (fresh_subid ''/s.json'')" "users_ok demo_users"
    by (simp_all add: fresh_subid_def subid_wf_def ranges_disjoint_def users_ok_def demo_users_def INT_MAX_def)
  have key: "is_c_str ''web''" "length ''web'' < SUBID_KEY_MAX" by (simp_all add: NUL_def SUBID_KEY_MAX_def)
  obtain st' v rc out where call:
    "subid_lookup_or_assign (demo_env\<lparr>we_rename := False\<rparr>) demo_users ''web'' (fresh_subid ''/s.json'') Map.empty =
     Some (st', v, rc, out)" using assign_defined [OF wf key] by blast
  have "snd (persist_atomic_write (demo_env\<lparr>we_rename := False\<rparr>) p d fs) \<noteq> 0" for p d fs
    by (simp add: persist_atomic_write_def atomic_write_def Let_def)
  note bad = this
  from wf key call have "rc \<noteq> 0"
  proof (cases rule: assign_cases)
    case (fresh b)
    with bad show ?thesis by (metis snd_conv)
  qed (simp_all add: fresh_subid_def subid_find_def)
  from subid_assign_fails_only_if [OF wf key call this] call show ?thesis by (auto simp: fresh_subid_def)
qed

text \<open>
   The promise that a key keeps its range stops at 127 bytes: the stored key is truncated
  but compared in full, so two successful requests with the same longer key get two ranges.
\<close>

theorem subid_long_key_not_stable:
  assumes "SUBID_KEY_MAX \<le> length key" "\<forall>e \<in> set (sub_table st). length (se_key e) < SUBID_KEY_MAX"
    and "subid_lookup_or_assign env users key st fs = Some (st1, v1, 0, Some b1)"
    and "subid_lookup_or_assign env2 users2 key st1 fs2 = Some (st2, v2, 0, Some b2)"
  shows "b1 + SUBID_RANGE_LEN \<le> b2"
proof -
  have short: "length (se_key \<lparr>se_key = snprintf_s SUBID_KEY_MAX key, se_base = b\<rparr>) < SUBID_KEY_MAX" for b
    by (simp add: length_snprintf_s SUBID_KEY_MAX_def)
  have none: "subid_find t key = None" if "\<forall>e \<in> set t. length (se_key e) < SUBID_KEY_MAX" for t
    using that assms(1) by (auto simp: subid_find_None)
  have n1: "subid_find (sub_table st) key = None" using none assms(2) by blast
  have t1: "sub_table st1 = sub_table st @ [\<lparr>se_key = snprintf_s SUBID_KEY_MAX key, se_base = b1\<rparr>]"
    using assms(3) n1 by (auto simp: subid_lookup_or_assign_def Let_def bind_eq_Some_conv split: if_splits option.splits)
  have n2: "subid_find (sub_table st1) key = None" using none [of "sub_table st1"] short assms(2) t1 by auto
  have "subid_step_past users2 (subid_next_base (sub_table st1)) = Some b2"
    using assms(4) n2 by (auto simp: subid_lookup_or_assign_def Let_def bind_eq_Some_conv split: if_splits option.splits)
  then have "subid_next_base (sub_table st1) \<le> b2" using step_past_sound by blast
  moreover have "b1 + SUBID_RANGE_LEN \<le> subid_next_base (sub_table st1)" 
    using next_base_ge(2) [of "\<lparr>se_key = snprintf_s SUBID_KEY_MAX key, se_base = b1\<rparr>" "sub_table st1"] t1 by simp
  ultimately show ?thesis by linarith
qed

lemma assign_healthy:
  assumes "subid_find t key = None" "length t < SUBID_MAX" "length p < PATH_MAX"
    and "subid_step_past users (subid_next_base t) = Some b"
    and "t' = t @ [\<lparr>se_key = snprintf_s SUBID_KEY_MAX key, se_base = b\<rparr>]" "\<forall>e \<in> set t'. \<bar>se_base e\<bar> < 2 ^ 53"
  shows "\<exists>v. subid_lookup_or_assign (healthy_write (subid_text t')) users key \<lparr>sub_path = p, sub_table = t\<rparr> fs =
    Some (\<lparr>sub_path = p, sub_table = t'\<rparr>, v, 0, Some b)"
proof -
  obtain f v where "persist_atomic_write (healthy_write (subid_text t')) p (subid_text t') fs = (f # v, 0)"
    using healthy_write_succeeds [OF assms(3)] by blast
  with assms subid_persist_text [of "\<lparr>sub_path = p, sub_table = t'\<rparr>" "healthy_write (subid_text t')" fs] show ?thesis
    by (simp add: subid_lookup_or_assign_def)
qed

theorem subid_long_key_not_stable_witness:
  "\<exists>env1 env2 st1 st2 v1 v2 b1 b2.
     subid_lookup_or_assign env1 [] (replicate 128 (CHR ''k'')) (fresh_subid ''/s.json'') Map.empty = Some (st1, v1, 0, Some b1) \<and>
     subid_lookup_or_assign env2 [] (replicate 128 (CHR ''k'')) st1 (hd v1) = Some (st2, v2, 0, Some b2) \<and>
     b1 + SUBID_RANGE_LEN \<le> b2"
proof -
  let ?k = "replicate 128 (CHR ''k'')" and ?s = "snprintf_s SUBID_KEY_MAX (replicate 128 (CHR ''k''))"
  let ?t1 = "[\<lparr>se_key = ?s, se_base = 100000\<rparr>]" and ?t2 = "[\<lparr>se_key = ?s, se_base = 100000\<rparr>, \<lparr>se_key = ?s, se_base = 165536\<rparr>]"
  have past: "subid_step_past [] n = Some n" for n by (simp add: subid_step_past.simps ldap_user_uidnumber_in_range_def)
  have len: "length ?s \<noteq> length ?k" by (simp add: snprintf_s_def SUBID_KEY_MAX_def)
  then have neq: "?s \<noteq> ?k" by metis
  obtain v1 where c1: "subid_lookup_or_assign (healthy_write (subid_text ?t1)) [] ?k \<lparr>sub_path = ''/s.json'', sub_table = []\<rparr> Map.empty =
      Some (\<lparr>sub_path = ''/s.json'', sub_table = ?t1\<rparr>, v1, 0, Some 100000)"
    using assign_healthy [of "[]" ?k "''/s.json''" "[]" 100000 ?t1 Map.empty]
    by (auto simp: subid_find_def SUBID_MAX_def PATH_MAX_def past subid_next_base_def SUBID_FLOOR_def)
  obtain v2 where c2: "subid_lookup_or_assign (healthy_write (subid_text ?t2)) [] ?k \<lparr>sub_path = ''/s.json'', sub_table = ?t1\<rparr> (hd v1) =
      Some (\<lparr>sub_path = ''/s.json'', sub_table = ?t2\<rparr>, v2, 0, Some 165536)"
    using assign_healthy [of ?t1 ?k "''/s.json''" "[]" 165536 ?t2 "hd v1"] neq
    by (auto simp: subid_find_def SUBID_MAX_def PATH_MAX_def past subid_next_base_def SUBID_FLOOR_def SUBID_RANGE_LEN_def)
  have "100000 + SUBID_RANGE_LEN \<le> 165536"
    using subid_long_key_not_stable [OF _ _ c1 c2] by (simp add: SUBID_KEY_MAX_def)
  with c1 c2 show ?thesis unfolding fresh_subid_def by blast
qed

end
