(* ===== verification/Web_Socket.thy ===== *)
theory Web_Socket
  imports Cix_Prelude "HOL-Library.Word"
begin

text \<open>
  \<open>daemon/src/websocket.c\<close>: frame headers, the incremental parser of masked client frames and
  the loop of \<open>handle_pkg_build_log_ws_event\<close> in \<open>daemon/src/main.c\<close> that drains it.  Bytes are
  8-bit words, a \<open>size_t\<close> is a natural number (no length here can reach \<open>2^64\<close>), and the valid
  part of \<open>buf\<close> is a list with the capacity beside it.  \<open>SHA1\<close> and \<open>EVP_EncodeBlock\<close> of
  libcrypto are parameters of \<open>ws_compute_accept\<close>.

  The reference is RFC 6455: \<open>client_frame\<close> builds the bytes of a masked frame, \<open>read_header\<close>
  reads a server's header.  The lemmas show that the parser inverts the first, however the bytes
  are cut into reads, and where the second inverts the header functions.
\<close>

unbundle bit_operations_syntax

type_synonym byte = "8 word"

definition WS_MAX_FRAME_PAYLOAD :: nat where "WS_MAX_FRAME_PAYLOAD = 64 * 1024"
definition WS_MAX_SEND_PAYLOAD :: nat where "WS_MAX_SEND_PAYLOAD = 1024 * 1024"

definition WS_OPCODE_CLOSE :: nat where "WS_OPCODE_CLOSE = 0x8"
definition WS_OPCODE_PING :: nat where "WS_OPCODE_PING = 0x9"
definition WS_OPCODE_PONG :: nat where "WS_OPCODE_PONG = 0xa"

record ws_conn =
  wc_buf :: "byte list"
  wc_cap :: nat

text \<open>\<open>payload\<close> points into the connection's buffer; here it is the bytes it points to.\<close>

record ws_frame =
  wf_opcode :: nat
  wf_fin :: bool
  wf_payload :: "byte list"
  wf_frame_len :: nat

section \<open>Handshake\<close>

definition WS_MAGIC_GUID :: string where
  "WS_MAGIC_GUID = ''258EAFA5-E914-47DA-95CA-C5AB0DC85B11''"

definition ws_compute_accept :: "(string \<Rightarrow> byte list) \<Rightarrow> (byte list \<Rightarrow> string) \<Rightarrow> string \<Rightarrow> nat \<Rightarrow> string option" where
  "ws_compute_accept sha1 encode_block client_key out_size =
     (let concat = client_key @ WS_MAGIC_GUID in
      if 256 \<le> length concat then None
      else let b64 = encode_block (sha1 concat) in
        if out_size < length b64 + 1 then None else Some b64)"

section \<open>Headers of frames the daemon sends\<close>

text \<open>Byte number \<open>k\<close> of a length: \<open>(unsigned char)((len >> 8 * k) & 0xff)\<close>.\<close>

definition len_byte :: "nat \<Rightarrow> nat \<Rightarrow> byte" where
  "len_byte len k = word_of_nat (len div 256 ^ k)"

definition ws_frame_header :: "nat \<Rightarrow> nat \<Rightarrow> byte list" where
  "ws_frame_header opcode len =
     (if WS_MAX_FRAME_PAYLOAD < len then []
      else let b0 = 0x80 OR (word_of_nat opcode AND 0x0f) in
        if len < 126 then [b0, word_of_nat len]
        else [b0, 126, len_byte len 1, len_byte len 0])"

definition ws_frame_header_long :: "nat \<Rightarrow> nat \<Rightarrow> byte list" where
  "ws_frame_header_long opcode len =
     (if WS_MAX_SEND_PAYLOAD < len then []
      else if len \<le> 0xffff then ws_frame_header opcode len
      else [0x80 OR (word_of_nat opcode AND 0x0f), 127] @ map (\<lambda>i. len_byte len (7 - i)) [0..<8])"

text \<open>
  \<open>tls_write_all\<close> on a connection that still takes \<open>budget\<close> bytes before it fails: what it
  appends to the stream, the budget left, and its result.
\<close>

definition tls_write_all :: "nat \<Rightarrow> byte list \<Rightarrow> byte list \<Rightarrow> byte list \<times> nat \<times> int" where
  "tls_write_all budget data stream =
     (stream @ take budget data, budget - length data, if length data \<le> budget then 0 else - 1)"

definition ws_write_frame :: "nat \<Rightarrow> nat \<Rightarrow> byte list \<Rightarrow> byte list \<Rightarrow> byte list \<times> nat \<times> int" where
  "ws_write_frame budget opcode payload stream =
     (let header = ws_frame_header opcode (length payload) in
      if header = [] then (stream, budget, - 1)
      else let (stream, budget, rc) = tls_write_all budget header stream in
        if rc \<noteq> 0 then (stream, budget, - 1)
        else if 0 < length payload then
          let (stream, budget, rc) = tls_write_all budget payload stream in
          if rc \<noteq> 0 then (stream, budget, - 1) else (stream, budget, 0)
        else (stream, budget, 0))"

section \<open>The connection buffer\<close>

definition ws_conn_init :: "ws_conn" where
  "ws_conn_init = \<lparr>wc_buf = [], wc_cap = 0\<rparr>"

definition ws_conn_free :: "ws_conn \<Rightarrow> ws_conn" where
  "ws_conn_free c = c\<lparr>wc_buf := [], wc_cap := 0\<rparr>"

definition ws_conn_feed :: "bool \<Rightarrow> ws_conn \<Rightarrow> byte list \<Rightarrow> ws_conn \<times> int" where
  "ws_conn_feed realloc_ok c data =
     (if WS_MAX_FRAME_PAYLOAD + 14 < length (wc_buf c) + length data then (c, - 1)
      else if wc_cap c < length (wc_buf c) + length data then
        if \<not> realloc_ok then (c, - 1)
        else let ncap = double_until (if wc_cap c \<noteq> 0 then wc_cap c * 2 else 4096) (length (wc_buf c) + length data)
             in (c\<lparr>wc_cap := ncap, wc_buf := wc_buf c @ data\<rparr>, 0)
      else (c\<lparr>wc_buf := wc_buf c @ data\<rparr>, 0))"

definition ws_conn_consume :: "ws_conn \<Rightarrow> nat \<Rightarrow> ws_conn" where
  "ws_conn_consume c frame_len =
     (if length (wc_buf c) \<le> frame_len then c\<lparr>wc_buf := []\<rparr> else c\<lparr>wc_buf := drop frame_len (wc_buf c)\<rparr>)"

section \<open>Parsing a client frame\<close>

datatype ws_parse = WsMore | WsError | WsFrame ws_frame

definition be_val :: "byte list \<Rightarrow> nat" where
  "be_val bs = foldl (\<lambda>acc b. acc * 256 + unat b) 0 bs"

definition ws_unmask :: "byte list \<Rightarrow> byte list \<Rightarrow> byte list" where
  "ws_unmask key p = map (\<lambda>i. p ! i XOR key ! (i mod 4)) [0..<length p]"

definition ws_conn_try_parse :: "ws_conn \<Rightarrow> ws_conn \<times> ws_parse" where
  "ws_conn_try_parse c =
     (if length (wc_buf c) < 2 then (c, WsMore)
      else
        let b0 = wc_buf c ! 0; b1 = wc_buf c ! 1; fin = (b0 AND 0x80 \<noteq> 0) in
        if b0 AND 0x70 \<noteq> 0 then (c, WsError)
        else if \<not> fin then (c, WsError)
        else
          let opcode = unat (b0 AND 0x0f); masked = (b1 AND 0x80 \<noteq> 0); len7 = unat (b1 AND 0x7f);
              header_len = 2 + (if len7 = 126 then 2 else if len7 = 127 then 8 else 0) + (if masked then 4 else 0)
          in if length (wc_buf c) < header_len then (c, WsMore)
             else
               let payload_len = (if len7 < 126 then len7
                     else if len7 = 126 then be_val (take 2 (drop 2 (wc_buf c)))
                     else be_val (take 8 (drop 2 (wc_buf c))))
               in if WS_MAX_FRAME_PAYLOAD < payload_len then (c, WsError)
                  else if \<not> masked then (c, WsError)
                  else if length (wc_buf c) < header_len + payload_len then (c, WsMore)
                  else
                    let mask_key = take 4 (drop (header_len - 4) (wc_buf c));
                        payload = ws_unmask mask_key (take payload_len (drop header_len (wc_buf c)))
                    in (c\<lparr>wc_buf := take header_len (wc_buf c) @ payload @ drop (header_len + payload_len) (wc_buf c)\<rparr>,
                        WsFrame \<lparr>wf_opcode = opcode, wf_fin = fin, wf_payload = payload,
                                 wf_frame_len = header_len + payload_len\<rparr>))"

section \<open>The draining loop\<close>

text \<open>A parsed frame is at least six bytes long, so consuming it shortens the buffer.\<close>

lemma try_parse_frame_len:
  assumes "ws_conn_try_parse c = (c', WsFrame f)"
  shows "2 \<le> wf_frame_len f \<and> wf_frame_len f \<le> length (wc_buf c) \<and> length (wc_buf c') = length (wc_buf c)"
  using assms
  by (auto simp: ws_conn_try_parse_def Let_def ws_unmask_def split: if_splits)

text \<open>
  \<open>handle_pkg_build_log_ws_event\<close>, inner loop: the frames handled, the bytes sent (a pong for every
  ping; a failed pong is ignored), what the connection still takes,
  the connection, and whether the client is gone.
\<close>

function ws_drain :: "ws_conn \<Rightarrow> nat \<Rightarrow> byte list \<Rightarrow> ws_frame list \<times> byte list \<times> nat \<times> ws_conn \<times> bool" where
  "ws_drain c budget stream =
     (case ws_conn_try_parse c of
        (c', WsMore) \<Rightarrow> ([], stream, budget, c', False)
      | (c', WsError) \<Rightarrow> ([], stream, budget, c', True)
      | (c', WsFrame f) \<Rightarrow>
          if wf_opcode f = WS_OPCODE_CLOSE then ([f], stream, budget, ws_conn_consume c' (wf_frame_len f), True)
          else
            let (stream, budget) =
                  (if wf_opcode f = WS_OPCODE_PING then
                     let (stream, budget, rc) = ws_write_frame budget WS_OPCODE_PONG (wf_payload f) stream in (stream, budget)
                   else (stream, budget));
                (fs, stream, budget, c'', gone) = ws_drain (ws_conn_consume c' (wf_frame_len f)) budget stream
            in (f # fs, stream, budget, c'', gone))"
  by pat_completeness auto
termination
  by (relation "measure (\<lambda>(c, budget, stream). length (wc_buf c))")
     (auto simp: ws_conn_consume_def dest!: sym [of _ "ws_conn_try_parse _"] try_parse_frame_len)

declare ws_drain.simps [simp del]

section \<open>Client frames\<close>

definition client_header :: "nat \<Rightarrow> nat \<Rightarrow> byte list" where
  "client_header opcode len = (0x80 OR word_of_nat opcode) #
     (if len < 126 then [0x80 OR word_of_nat len]
      else if len < 65536 then [0x80 OR 126, len_byte len 1, len_byte len 0]
      else [0x80 OR 127] @ map (\<lambda>i. len_byte len (7 - i)) [0..<8])"

definition client_frame :: "nat \<Rightarrow> byte list \<Rightarrow> byte list \<Rightarrow> byte list" where
  "client_frame opcode key payload = client_header opcode (length payload) @ key @ ws_unmask key payload"

lemma len_byte_val: "unat (len_byte len k) = len div 256 ^ k mod 256"
  by (simp add: len_byte_def unat_of_nat)

lemma be_val_len_bytes: "be_val (map (len_byte len) (rev [0..<n])) = len mod 256 ^ n"
proof -
  have "foldl (\<lambda>acc b. acc * 256 + unat b) a (map (len_byte len) (rev [0..<n])) = a * 256 ^ n + len mod 256 ^ n" for a
  proof (induction n arbitrary: a)
    case (Suc n)
    have "len mod 256 ^ Suc n = 256 ^ n * (len div 256 ^ n mod 256) + len mod 256 ^ n"
      using mod_mult2_eq [of len "256 ^ n" 256] by (simp add: mult.commute)
    with Suc [of "a * 256 + unat (len_byte len n)"] show ?case by (simp add: len_byte_val algebra_simps)
  qed simp
  then show ?thesis by (simp add: be_val_def)
qed

lemma be_val_2: "len < 65536 \<Longrightarrow> be_val [len_byte len 1, len_byte len 0] = len"
  using be_val_len_bytes [of len 2] by (simp add: numeral_2_eq_2)

lemma be_val_8: "len < 256 ^ 8 \<Longrightarrow> be_val (map (\<lambda>i. len_byte len (7 - i)) [0..<8]) = len"
proof -
  have "map (\<lambda>i. len_byte len (7 - i)) [0..<8] = map (len_byte len) (rev [0..<8])"
    by (rule nth_equalityI) (auto simp: rev_nth simp del: upt_rec_numeral)
  then show "len < 256 ^ 8 \<Longrightarrow> ?thesis" using be_val_len_bytes [of len 8] by simp
qed

lemma first_byte_bits:
  "list_all (\<lambda>op. ((0x80 OR word_of_nat op) :: byte) AND 0x70 = 0 \<and> ((0x80 OR word_of_nat op) :: byte) AND 0x80 \<noteq> 0 \<and>
     unat (((0x80 OR word_of_nat op) :: byte) AND 0x0f) = op) [0..<16]"
  by code_simp

lemma second_byte_bits:
  "list_all (\<lambda>l. ((0x80 OR word_of_nat l) :: byte) AND 0x80 \<noteq> 0 \<and> unat (((0x80 OR word_of_nat l) :: byte) AND 0x7f) = l) [0..<128]"
  by code_simp

lemma first_byte:
  assumes "op < 16"
  shows "((0x80 OR word_of_nat op) :: byte) AND 0x70 = 0" "((0x80 OR word_of_nat op) :: byte) AND 0x80 \<noteq> 0"
    "unat (((0x80 OR word_of_nat op) :: byte) AND 0x0f) = op"
  using first_byte_bits assms unfolding list_all_iff by simp_all

lemma second_byte:
  assumes "l < 128"
  shows "((0x80 OR word_of_nat l) :: byte) AND 0x80 \<noteq> 0" "unat (((0x80 OR word_of_nat l) :: byte) AND 0x7f) = l"
  using second_byte_bits assms unfolding list_all_iff by simp_all

lemma length_ws_unmask [simp]: "length (ws_unmask key p) = length p"
  by (simp add: ws_unmask_def)

lemma ws_unmask_twice [simp]: "ws_unmask key (ws_unmask key p) = p"
  by (rule nth_equalityI) (auto simp: ws_unmask_def xor.assoc)

text \<open>What a client header is to the parser: two bytes, the extension, and what they say.\<close>

lemma client_header_split:
  assumes "op < 16" "len \<le> WS_MAX_FRAME_PAYLOAD"
  obtains b0 b1 ext where "client_header op len = b0 # b1 # ext" "b0 AND 0x70 = 0" "b0 AND 0x80 \<noteq> 0" "unat (b0 AND 0x0f) = op"
    "b1 AND 0x80 \<noteq> 0"
    "length ext = (if unat (b1 AND 0x7f) = 126 then 2 else if unat (b1 AND 0x7f) = 127 then 8 else 0)"
    "len = (if unat (b1 AND 0x7f) < 126 then unat (b1 AND 0x7f) else be_val ext)"
proof -
  define b0 :: byte where "b0 = 0x80 OR word_of_nat op"
  define b1 :: "nat \<Rightarrow> byte" where "b1 l = 0x80 OR word_of_nat l" for l
  have f0: "b0 AND 0x70 = 0" "b0 AND 0x80 \<noteq> 0" "unat (b0 AND 0x0f) = op"
    unfolding b0_def by (rule first_byte [OF assms(1)])+
  have f1: "b1 l AND 0x80 \<noteq> 0" "unat (b1 l AND 0x7f) = l" if "l < 128" for l
    unfolding b1_def by (rule second_byte [OF that])+
  have ext: "b1 126 = 0x80 OR 126" "b1 127 = 0x80 OR 127" by (simp_all add: b1_def)
  have big: "be_val (map (\<lambda>i. len_byte len (7 - i)) [0..<8]) = len"
    using assms(2) by (intro be_val_8) (simp add: WS_MAX_FRAME_PAYLOAD_def)
  consider "len < 126" | "126 \<le> len" "len < 65536" | "65536 \<le> len" by linarith
  then show thesis
  proof cases
    case 1
    then have "client_header op len = b0 # b1 len # []" by (simp add: client_header_def b0_def b1_def)
    with 1 f0 f1 [of len] show thesis by (intro that [of b0 "b1 len" "[]"]) simp_all
  next
    case 2
    then have "client_header op len = b0 # b1 126 # [len_byte len 1, len_byte len 0]"
      by (simp add: client_header_def b0_def ext)
    with 2 f0 f1 [of 126] be_val_2 [of len] show thesis
      by (intro that [of b0 "b1 126" "[len_byte len 1, len_byte len 0]"]) simp_all
  next
    case 3
    then have "client_header op len = b0 # b1 127 # map (\<lambda>i. len_byte len (7 - i)) [0..<8]"
      by (simp add: client_header_def b0_def ext)
    with 3 f0 f1 [of 127] big show thesis
      by (intro that [of b0 "b1 127" "map (\<lambda>i. len_byte len (7 - i)) [0..<8]"]) (simp_all del: upt_rec_numeral)
  qed
qed

text \<open>A complete frame is recognised whatever follows it.\<close>

lemma try_parse_complete:
  assumes "wc_buf c = b0 # b1 # ext @ key @ body @ rest" "length key = 4" "b0 AND 0x70 = 0" "b0 AND 0x80 \<noteq> 0" "b1 AND 0x80 \<noteq> 0"
    and "length ext = (if unat (b1 AND 0x7f) = 126 then 2 else if unat (b1 AND 0x7f) = 127 then 8 else 0)"
    and "length body = (if unat (b1 AND 0x7f) < 126 then unat (b1 AND 0x7f) else be_val ext)"
    and "length body \<le> WS_MAX_FRAME_PAYLOAD"
  shows "ws_conn_try_parse c = (c\<lparr>wc_buf := b0 # b1 # ext @ key @ ws_unmask key body @ rest\<rparr>,
    WsFrame \<lparr>wf_opcode = unat (b0 AND 0x0f), wf_fin = True, wf_payload = ws_unmask key body,
             wf_frame_len = 6 + length ext + length body\<rparr>)"
proof -
  define l7 where "l7 = unat (b1 AND 0x7f)"
  define H where "H = (b0 # b1 # ext) @ key"
  have buf: "wc_buf c = H @ body @ rest" "wc_buf c = (b0 # b1 # ext) @ key @ body @ rest" by (simp_all add: assms(1) H_def)
  have lenH: "length H = 6 + length ext" "length H - 4 = length (b0 # b1 # ext)" using assms(2) by (simp_all add: H_def)
  have hl: "2 + (if l7 = 126 then 2 else if l7 = 127 then 8 else 0) + (if b1 AND 0x80 \<noteq> 0 then 4 else 0) = length H"
    using assms(5,6) lenH(1) by (simp add: l7_def)
  have key: "take 4 (drop (length H - 4) (wc_buf c)) = key"
    unfolding lenH(2) buf(2) using assms(2) by (simp only: append_eq_conv_conj [symmetric] append_eq_append_conv drop_append)
      simp
  have body: "take (length body) (drop (length H) (wc_buf c)) = body" "drop (length H + length body) (wc_buf c) = rest"
    "take (length H) (wc_buf c) = H" by (simp_all add: buf(1))
  have pl: "(if l7 < 126 then l7 else if l7 = 126 then be_val (take 2 (drop 2 (wc_buf c)))
      else be_val (take 8 (drop 2 (wc_buf c)))) = length body"
  proof -
    have "b1 AND 0x7f \<le> 0x7f" by (rule word_and_le1)
    then have "l7 < 128" unfolding l7_def by (simp add: word_le_nat_alt)
    with assms(6,7) show ?thesis by (auto simp: assms(1) l7_def [symmetric])
  qed
  have nth: "wc_buf c ! 0 = b0" "wc_buf c ! 1 = b1" "\<not> length (wc_buf c) < 2" "\<not> length (wc_buf c) < length H"
    "\<not> length (wc_buf c) < length H + length body" using lenH by (simp_all add: buf(1)) (simp_all add: H_def)
  show ?thesis
    using assms(3-5,8) lenH(1)
    unfolding ws_conn_try_parse_def Let_def nth l7_def [symmetric] hl pl key body
    by (simp add: H_def nth(3) nth(4,5) [unfolded lenH(1)])
qed

text \<open>No proper prefix of a frame is mistaken for anything but an incomplete frame.\<close>

lemma try_parse_prefix:
  assumes "wc_buf c @ tail = b0 # b1 # ext @ key @ body" "tail \<noteq> []" "length key = 4"
    "b0 AND 0x70 = 0" "b0 AND 0x80 \<noteq> 0" "b1 AND 0x80 \<noteq> 0"
    and "length ext = (if unat (b1 AND 0x7f) = 126 then 2 else if unat (b1 AND 0x7f) = 127 then 8 else 0)"
    and "length body = (if unat (b1 AND 0x7f) < 126 then unat (b1 AND 0x7f) else be_val ext)"
    and "length body \<le> WS_MAX_FRAME_PAYLOAD"
  shows "ws_conn_try_parse c = (c, WsMore)"
proof (cases "length (wc_buf c) < 2")
  case True
  then show ?thesis by (simp add: ws_conn_try_parse_def)
next
  case False
  define l7 where "l7 = unat (b1 AND 0x7f)"
  define hl where "hl = 6 + length ext"
  obtain r where r: "wc_buf c = b0 # b1 # r" "r @ tail = ext @ key @ body"
    using assms(1) False by (cases "wc_buf c"; cases "tl (wc_buf c)") auto
  have total: "length (wc_buf c) < hl + length body"
  proof -
    have "length (wc_buf c) + length tail = hl + length body"
      using arg_cong [OF assms(1), of length] assms(3) by (simp add: hl_def)
    with assms(2) show ?thesis by (cases tail) auto
  qed
  have hl: "2 + (if l7 = 126 then 2 else if l7 = 127 then 8 else 0) + (if b1 AND 0x80 \<noteq> 0 then 4 else 0) = hl"
    using assms(6,7) by (simp add: hl_def l7_def)
  have pl: "(if l7 < 126 then l7 else if l7 = 126 then be_val (take 2 (drop 2 (wc_buf c)))
      else be_val (take 8 (drop 2 (wc_buf c)))) = length body" if "\<not> length (wc_buf c) < hl"
  proof -
    have "b1 AND 0x7f \<le> 0x7f" by (rule word_and_le1)
    then have "l7 < 128" unfolding l7_def by (simp add: word_le_nat_alt)
    moreover have "take (length ext) r = ext"
      using arg_cong [OF r(2), of "take (length ext)"] that r(1) by (simp add: hl_def)
    ultimately show ?thesis using assms(7,8) r(1) by (auto simp: l7_def [symmetric])
  qed
  have nth: "wc_buf c ! 0 = b0" "wc_buf c ! 1 = b1" by (simp_all add: r(1))
  show ?thesis
    unfolding ws_conn_try_parse_def Let_def nth l7_def [symmetric] hl
    using False assms(4-6,9) total pl by (cases "length (wc_buf c) < hl") simp_all
qed

section \<open>A stream of frames\<close>

record client_msg =
  cm_opcode :: nat
  cm_key :: "byte list"
  cm_payload :: "byte list"

definition cm_ok :: "client_msg \<Rightarrow> bool" where
  "cm_ok m = (cm_opcode m < 16 \<and> length (cm_key m) = 4 \<and> length (cm_payload m) \<le> WS_MAX_FRAME_PAYLOAD)"

definition cm_bytes :: "client_msg \<Rightarrow> byte list" where
  "cm_bytes m = client_frame (cm_opcode m) (cm_key m) (cm_payload m)"

definition cm_frame :: "client_msg \<Rightarrow> ws_frame" where
  "cm_frame m = \<lparr>wf_opcode = cm_opcode m, wf_fin = True, wf_payload = cm_payload m, wf_frame_len = length (cm_bytes m)\<rparr>"

lemma cm_parse:
  assumes "cm_ok m" "wc_buf c = cm_bytes m @ rest"
  shows "\<exists>c'. ws_conn_try_parse c = (c', WsFrame (cm_frame m)) \<and>
    ws_conn_consume c' (wf_frame_len (cm_frame m)) = c\<lparr>wc_buf := rest\<rparr>"
proof -
  from assms(1) have m: "cm_opcode m < 16" "length (cm_key m) = 4" "length (cm_payload m) \<le> WS_MAX_FRAME_PAYLOAD"
    by (auto simp: cm_ok_def)
  obtain b0 b1 ext where h: "client_header (cm_opcode m) (length (cm_payload m)) = b0 # b1 # ext" "b0 AND 0x70 = 0"
    "b0 AND 0x80 \<noteq> 0" "unat (b0 AND 0x0f) = cm_opcode m" "b1 AND 0x80 \<noteq> 0"
    "length ext = (if unat (b1 AND 0x7f) = 126 then 2 else if unat (b1 AND 0x7f) = 127 then 8 else 0)"
    "length (cm_payload m) = (if unat (b1 AND 0x7f) < 126 then unat (b1 AND 0x7f) else be_val ext)"
    using client_header_split [OF m(1,3)] by blast
  have buf: "wc_buf c = b0 # b1 # ext @ cm_key m @ ws_unmask (cm_key m) (cm_payload m) @ rest"
    using assms(2) h(1) by (simp add: cm_bytes_def client_frame_def)
  have len: "length (cm_bytes m) = 6 + length ext + length (cm_payload m)"
    using h(1) m(2) by (simp add: cm_bytes_def client_frame_def)
  note p = try_parse_complete [OF buf m(2) h(2,3,5,6), unfolded length_ws_unmask, OF h(7) m(3)]
  define X where "X = b0 # b1 # ext @ cm_key m @ cm_payload m"
  have X: "6 + length ext + length (cm_payload m) = length X" using m(2) by (simp add: X_def)
  have "ws_conn_try_parse c = (c\<lparr>wc_buf := X @ rest\<rparr>, WsFrame (cm_frame m))"
    using p h(4) len by (simp add: X_def cm_frame_def)
  moreover have "ws_conn_consume (c\<lparr>wc_buf := X @ rest\<rparr>) (length X) = c\<lparr>wc_buf := rest\<rparr>"
    by (cases rest) (simp_all add: ws_conn_consume_def)
  ultimately show ?thesis using len X by (simp add: cm_frame_def)
qed

lemma cm_prefix:
  assumes "cm_ok m" "wc_buf c @ tail = cm_bytes m" "tail \<noteq> []"
  shows "ws_conn_try_parse c = (c, WsMore)"
proof -
  from assms(1) have m: "cm_opcode m < 16" "length (cm_key m) = 4" "length (cm_payload m) \<le> WS_MAX_FRAME_PAYLOAD"
    by (auto simp: cm_ok_def)
  obtain b0 b1 ext where h: "client_header (cm_opcode m) (length (cm_payload m)) = b0 # b1 # ext" "b0 AND 0x70 = 0"
    "b0 AND 0x80 \<noteq> 0" "unat (b0 AND 0x0f) = cm_opcode m" "b1 AND 0x80 \<noteq> 0"
    "length ext = (if unat (b1 AND 0x7f) = 126 then 2 else if unat (b1 AND 0x7f) = 127 then 8 else 0)"
    "length (cm_payload m) = (if unat (b1 AND 0x7f) < 126 then unat (b1 AND 0x7f) else be_val ext)"
    using client_header_split [OF m(1,3)] by blast
  have buf: "wc_buf c @ tail = b0 # b1 # ext @ cm_key m @ ws_unmask (cm_key m) (cm_payload m)"
    using assms(2) h(1) by (simp add: cm_bytes_def client_frame_def)
  show ?thesis by (rule try_parse_prefix [OF buf assms(3) m(2) h(2,3,5,6), unfolded length_ws_unmask, OF h(7) m(3)])
qed

text \<open>The bytes of the frames still to come, cut anywhere.\<close>

definition cm_stream :: "client_msg list \<Rightarrow> byte list" where
  "cm_stream ms = concat (map cm_bytes ms)"

lemma cm_bytes_nonempty: "cm_bytes m \<noteq> []"
  by (simp add: cm_bytes_def client_frame_def client_header_def)

lemma drain_prefix:
  assumes "list_all cm_ok ms" "list_all (\<lambda>m. cm_opcode m \<noteq> WS_OPCODE_CLOSE) ms" "wc_buf c @ tail = cm_stream ms"
  shows "\<exists>k s b q. ws_drain c budget stream = (map cm_frame (take k ms), s, b, c\<lparr>wc_buf := q\<rparr>, False) \<and>
    q @ tail = cm_stream (drop k ms) \<and> (q = [] \<or> k < length ms \<and> length q < length (cm_bytes (ms ! k)))"
  using assms
proof (induction ms arbitrary: c budget stream)
  case Nil
  then have "wc_buf c = []" "tail = []" by (auto simp: cm_stream_def)
  then have "ws_drain c budget stream = ([], stream, budget, c, False)"
    by (subst ws_drain.simps) (simp add: ws_conn_try_parse_def)
  with \<open>wc_buf c = []\<close> \<open>tail = []\<close> show ?case by (intro exI [of _ 0] exI [of _ stream] exI [of _ budget] exI [of _ "[]"]) (auto simp: cm_stream_def)
next
  case (Cons m ms)
  then have m: "cm_ok m" "cm_opcode m \<noteq> WS_OPCODE_CLOSE" and eq: "wc_buf c @ tail = cm_bytes m @ cm_stream ms"
    by (auto simp: cm_stream_def)
  show ?case
  proof (cases "length (wc_buf c) < length (cm_bytes m)")
    case True
    define t where "t = drop (length (wc_buf c)) (cm_bytes m)"
    have "wc_buf c = take (length (wc_buf c)) (cm_bytes m)"
      using True arg_cong [OF eq, of "take (length (wc_buf c))"] by simp
    then have t: "wc_buf c @ t = cm_bytes m" "t \<noteq> []"
      using True by (simp_all add: t_def) (metis append_take_drop_id)
    have "ws_drain c budget stream = ([], stream, budget, c, False)"
      by (subst ws_drain.simps) (simp add: cm_prefix [OF m(1) t])
    with Cons.prems(3) True show ?thesis
      by (intro exI [of _ 0] exI [of _ stream] exI [of _ budget] exI [of _ "wc_buf c"]) auto
  next
    case False
    define rest where "rest = drop (length (cm_bytes m)) (wc_buf c)"
    have "take (length (cm_bytes m)) (wc_buf c) = cm_bytes m"
      using False arg_cong [OF eq, of "take (length (cm_bytes m))"] by simp
    then have rest: "wc_buf c = cm_bytes m @ rest"
      using append_take_drop_id [of "length (cm_bytes m)" "wc_buf c"] by (simp add: rest_def)
    then have rest2: "rest @ tail = cm_stream ms" using eq by simp
    from cm_parse [OF m(1) rest] obtain c' where c': "ws_conn_try_parse c = (c', WsFrame (cm_frame m))"
      "ws_conn_consume c' (wf_frame_len (cm_frame m)) = c\<lparr>wc_buf := rest\<rparr>" by blast
    define sb where "sb = (if wf_opcode (cm_frame m) = WS_OPCODE_PING then
        (let (s, b, rc) = ws_write_frame budget WS_OPCODE_PONG (wf_payload (cm_frame m)) stream in (s, b)) else (stream, budget))"
    from Cons.IH [of "c\<lparr>wc_buf := rest\<rparr>" "snd sb" "fst sb"] Cons.prems rest2 obtain k s b q where
      ih: "ws_drain (c\<lparr>wc_buf := rest\<rparr>) (snd sb) (fst sb) = (map cm_frame (take k ms), s, b, c\<lparr>wc_buf := q\<rparr>, False)"
        "q @ tail = cm_stream (drop k ms)" "q = [] \<or> k < length ms \<and> length q < length (cm_bytes (ms ! k))" by auto
    have "ws_drain c budget stream = (map cm_frame (take (Suc k) (m # ms)), s, b, c\<lparr>wc_buf := q\<rparr>, False)"
      using c' m(2) ih(1) by (subst ws_drain.simps) (simp add: sb_def [symmetric] case_prod_beta, simp add: cm_frame_def)
    with ih show ?thesis by (intro exI [of _ "Suc k"] exI [of _ s] exI [of _ b] exI [of _ q]) auto
  qed
qed

text \<open>One read after another: feed the bytes, then drain.\<close>

fun ws_session :: "byte list list \<Rightarrow> ws_conn \<Rightarrow> nat \<Rightarrow> byte list \<Rightarrow> ws_frame list \<times> ws_conn \<times> bool" where
  "ws_session [] c budget stream = ([], c, False)"
| "ws_session (chunk # chunks) c budget stream =
     (let (c, rc) = ws_conn_feed True c chunk in
      if rc \<noteq> 0 then ([], c, True)
      else let (fs, stream, budget, c, gone) = ws_drain c budget stream in
        if gone then (fs, c, True)
        else let (fs', c, gone) = ws_session chunks c budget stream in (fs @ fs', c, gone))"

lemma ws_feed_ok:
  "length (wc_buf c) + length data \<le> WS_MAX_FRAME_PAYLOAD + 14 \<Longrightarrow>
     \<exists>n. ws_conn_feed True c data = (c\<lparr>wc_buf := wc_buf c @ data, wc_cap := n\<rparr>, 0)"
  by (cases c) (auto simp: ws_conn_feed_def Let_def)

lemma session_parsed:
  assumes "list_all cm_ok ms" "list_all (\<lambda>m. cm_opcode m \<noteq> WS_OPCODE_CLOSE) ms" "wc_buf c @ concat chunks = cm_stream ms"
    and "wc_buf c = [] \<or> ms \<noteq> [] \<and> length (wc_buf c) < length (cm_bytes (hd ms))"
    and "\<forall>m \<in> set ms. \<forall>ch \<in> set chunks. length (cm_bytes m) + length ch \<le> WS_MAX_FRAME_PAYLOAD + 15"
  shows "\<exists>c'. ws_session chunks c budget stream = (map cm_frame ms, c', False) \<and> wc_buf c' = []"
  using assms
proof (induction chunks arbitrary: c ms budget stream)
  case Nil
  then have "ms = []"
    by (cases ms) (use cm_bytes_nonempty in \<open>auto simp: cm_stream_def\<close>)
  with Nil show ?case by (simp add: cm_stream_def)
next
  case (Cons ch chunks)
  have fits: "length (wc_buf c) + length ch \<le> WS_MAX_FRAME_PAYLOAD + 14"
  proof (cases ms)
    case Nil
    with Cons.prems(3) show ?thesis by (simp add: cm_stream_def)
  next
    case (Cons m ms')
    with Cons.prems(4,5) cm_bytes_nonempty [of m] show ?thesis by (cases "cm_bytes m") auto
  qed
  then obtain n where feed: "ws_conn_feed True c ch = (c\<lparr>wc_buf := wc_buf c @ ch, wc_cap := n\<rparr>, 0)" using ws_feed_ok by blast
  let ?c = "c\<lparr>wc_buf := wc_buf c @ ch, wc_cap := n\<rparr>"
  from drain_prefix [OF Cons.prems(1,2), of ?c "concat chunks" budget stream] Cons.prems(3) obtain k s b q where
    d: "ws_drain ?c budget stream = (map cm_frame (take k ms), s, b, ?c\<lparr>wc_buf := q\<rparr>, False)"
      "q @ concat chunks = cm_stream (drop k ms)" "q = [] \<or> k < length ms \<and> length q < length (cm_bytes (ms ! k))" by auto
  have "\<exists>c'. ws_session chunks (?c\<lparr>wc_buf := q\<rparr>) b s = (map cm_frame (drop k ms), c', False) \<and> wc_buf c' = []"
    using d Cons.prems by (intro Cons.IH) (auto simp: list_all_iff hd_drop_conv_nth dest: in_set_dropD)
  then obtain c' where "ws_session chunks (?c\<lparr>wc_buf := q\<rparr>) b s = (map cm_frame (drop k ms), c', False)" "wc_buf c' = []" by blast
  with feed d show ?case by (simp flip: map_append)
qed

section \<open>Properties\<close>

text \<open>
  C34.  However a client's frames are cut into reads, the loop hands over exactly these frames, in
  order and with their payloads unmasked, and ends with an empty buffer: no frame is split, merged,
  lost or seen early.  It needs every frame together with one read to fit the buffer bound, and no frame
  among them to be a \<open>CLOSE\<close>, at which the loop ends.
\<close>

theorem ws_stream_parsed:
  assumes "list_all cm_ok ms" "list_all (\<lambda>m. cm_opcode m \<noteq> WS_OPCODE_CLOSE) ms" "concat chunks = cm_stream ms"
    and "\<forall>m \<in> set ms. \<forall>ch \<in> set chunks. length (cm_bytes m) + length ch \<le> WS_MAX_FRAME_PAYLOAD + 15"
  shows "\<exists>c. ws_session chunks ws_conn_init budget [] = (map cm_frame ms, c, False) \<and> wc_buf c = []"
  using session_parsed [OF assms(1,2), of ws_conn_init chunks budget "[]"] assms(3,4) by (simp add: ws_conn_init_def)

definition demo_msgs :: "client_msg list" where
  "demo_msgs = [\<lparr>cm_opcode = 1, cm_key = [1, 2, 3, 4], cm_payload = [104, 105]\<rparr>,
     \<lparr>cm_opcode = 9, cm_key = [9, 9, 9, 9], cm_payload = []\<rparr>]"

theorem ws_stream_parsed_witness:
  "\<exists>c. ws_session [take 5 (cm_stream demo_msgs), drop 5 (cm_stream demo_msgs)] ws_conn_init 100 [] =
     (map cm_frame demo_msgs, c, False) \<and> wc_buf c = []"
proof (rule ws_stream_parsed)
  have len: "length (cm_bytes m) \<le> 8" if "m \<in> set demo_msgs" for m
    using that by (auto simp: demo_msgs_def cm_bytes_def client_frame_def client_header_def)
  have "length (cm_stream demo_msgs) \<le> 16"
    by (simp add: cm_stream_def demo_msgs_def cm_bytes_def client_frame_def client_header_def)
  with len show "\<forall>m \<in> set demo_msgs. \<forall>ch \<in> set [take 5 (cm_stream demo_msgs), drop 5 (cm_stream demo_msgs)].
      length (cm_bytes m) + length ch \<le> WS_MAX_FRAME_PAYLOAD + 15"
    by (fastforce simp: WS_MAX_FRAME_PAYLOAD_def)
qed (simp_all add: demo_msgs_def cm_ok_def WS_MAX_FRAME_PAYLOAD_def WS_OPCODE_CLOSE_def)

text \<open>The length the second byte and its extension declare.\<close>

definition declared_len :: "byte list \<Rightarrow> nat" where
  "declared_len buf = (let l7 = unat (buf ! 1 AND 0x7f) in
     if l7 < 126 then l7 else if l7 = 126 then be_val (take 2 (drop 2 buf)) else be_val (take 8 (drop 2 buf)))"

text \<open>
  With a whole header buffered, the parser refuses a frame exactly when an extension bit is
  set, the frame is a fragment, it is not masked, or it declares more than the allowed payload;
  and a refusal leaves the connection untouched.
\<close>

theorem ws_rejects_iff:
  assumes "14 \<le> length (wc_buf c)"
  shows "snd (ws_conn_try_parse c) = WsError \<longleftrightarrow>
    wc_buf c ! 0 AND 0x70 \<noteq> 0 \<or> wc_buf c ! 0 AND 0x80 = 0 \<or> wc_buf c ! 1 AND 0x80 = 0 \<or>
    WS_MAX_FRAME_PAYLOAD < declared_len (wc_buf c)"
proof -
  define l7 where "l7 = unat (wc_buf c ! 1 AND 0x7f)"
  have h: "\<not> length (wc_buf c) < 2" "\<not> length (wc_buf c) <
      2 + (if l7 = 126 then 2 else if l7 = 127 then 8 else 0) + (if wc_buf c ! 1 AND 0x80 \<noteq> 0 then 4 else 0)"
    using assms by auto
  show ?thesis
    unfolding ws_conn_try_parse_def declared_len_def Let_def l7_def [symmetric] if_not_P [OF h(1)] if_not_P [OF h(2)]
    by (simp split: if_split)
qed

theorem ws_rejects_iff_witness:
  "snd (ws_conn_try_parse \<lparr>wc_buf = 0x81 # 0x05 # replicate 12 0, wc_cap = 4096\<rparr>) = WsError"
proof -
  have "snd (ws_conn_try_parse \<lparr>wc_buf = 0x81 # 0x05 # replicate 12 0, wc_cap = 4096\<rparr>) = WsError \<longleftrightarrow>
      (0x81 :: byte) AND 0x70 \<noteq> 0 \<or> (0x81 :: byte) AND 0x80 = 0 \<or> (0x05 :: byte) AND 0x80 = 0 \<or>
      WS_MAX_FRAME_PAYLOAD < declared_len (0x81 # 0x05 # replicate 12 0)"
    using ws_rejects_iff [of "\<lparr>wc_buf = 0x81 # 0x05 # replicate 12 0, wc_cap = 4096\<rparr>"] by simp
  then show ?thesis by simp
qed

text \<open>A client's reading of an unmasked server header, after RFC 6455 section 5.2.\<close>

definition read_header :: "byte list \<Rightarrow> (nat \<times> nat \<times> byte list) option" where
  "read_header bs = (case bs of b0 # b1 # r \<Rightarrow>
       if b0 AND 0xf0 \<noteq> 0x80 \<or> b1 AND 0x80 \<noteq> 0 then None
       else let l7 = unat (b1 AND 0x7f) in
         if l7 < 126 then Some (unat (b0 AND 0x0f), l7, r)
         else let n = (if l7 = 126 then 2 else 8) in
           if length r < n then None else Some (unat (b0 AND 0x0f), be_val (take n r), drop n r)
     | _ \<Rightarrow> None)"

lemma server_first_byte_bits:
  "list_all (\<lambda>op. (0x80 OR (word_of_nat op AND 0x0f) :: byte) AND 0xf0 = 0x80 \<and>
     unat ((0x80 OR (word_of_nat op AND 0x0f) :: byte) AND 0x0f) = op) [0..<16]"
  by code_simp

lemma server_second_byte_bits:
  "list_all (\<lambda>l. (word_of_nat l :: byte) AND 0x80 = 0 \<and> unat ((word_of_nat l :: byte) AND 0x7f) = l) [0..<128]"
  by code_simp

lemma server_bytes:
  "op < 16 \<Longrightarrow> (0x80 OR (word_of_nat op AND 0x0f) :: byte) AND 0xf0 = 0x80"
  "op < 16 \<Longrightarrow> unat ((0x80 OR (word_of_nat op AND 0x0f) :: byte) AND 0x0f) = op"
  "l < 128 \<Longrightarrow> (word_of_nat l :: byte) AND 0x80 = 0" "l < 128 \<Longrightarrow> unat ((word_of_nat l :: byte) AND 0x7f) = l"
  using server_first_byte_bits server_second_byte_bits unfolding list_all_iff by simp_all

lemma read_header_short:
  assumes "op < 16" "l < 126"
  shows "read_header ((0x80 OR (word_of_nat op AND 0x0f)) # word_of_nat l # r) = Some (op, l, r)"
  using server_bytes(1,2) [OF assms(1)] server_bytes(3,4) [of l] assms(2) by (simp only: read_header_def list.case Let_def) simp

lemma read_header_ext:
  assumes "op < 16" "l = 126 \<and> length ext = 2 \<or> l = 127 \<and> length ext = 8"
  shows "read_header ((0x80 OR (word_of_nat op AND 0x0f)) # word_of_nat l # ext @ r) = Some (op, be_val ext, r)"
  using server_bytes(1,2) [OF assms(1)] server_bytes(3,4) [of l] assms(2)
  by (elim disjE conjE) (simp_all only: read_header_def list.case Let_def, simp_all)

lemma read_frame_header:
  assumes "op < 16" "len \<le> WS_MAX_FRAME_PAYLOAD"
  shows "read_header (ws_frame_header op len @ payload) = Some (op, len mod 65536, payload)"
proof (cases "len < 126")
  case True
  with assms read_header_short [OF assms(1), of len payload] show ?thesis by (simp add: ws_frame_header_def)
next
  case False
  have "be_val [len_byte len 1, len_byte len 0] = len mod 65536"
    using be_val_len_bytes [of len 2] by (simp add: numeral_2_eq_2)
  with False assms read_header_ext [OF assms(1), of 126 "[len_byte len 1, len_byte len 0]" payload] show ?thesis
    by (simp add: ws_frame_header_def)
qed

text \<open>
  The header of a sent frame, read by a client, declares the opcode and the payload length
  modulo \<open>65536\<close>.  At the largest length \<open>ws_frame_header\<close> accepts, 65536 bytes, the declared
  length is therefore 0.
\<close>

theorem ws_frame_header_declares:
  assumes "op < 16" "len \<le> WS_MAX_FRAME_PAYLOAD"
  shows "read_header (ws_frame_header op len @ payload) = Some (op, len mod 65536, payload)"
  using assms by (rule read_frame_header)

theorem ws_frame_header_declares_witness:
  "read_header (ws_frame_header 2 65536 @ [7]) = Some (2, 0, [7]) \<and>
   read_header (ws_frame_header 2 65535 @ [7]) = Some (2, 65535, [7])"
  using ws_frame_header_declares [of 2 65536 "[7]"] ws_frame_header_declares [of 2 65535 "[7]"]
  by (simp add: WS_MAX_FRAME_PAYLOAD_def)

text \<open>
   The long form declares every length up to \<open>WS_MAX_SEND_PAYLOAD\<close> exactly, and refuses more.
\<close>

theorem ws_frame_header_long_declares:
  assumes "op < 16"
  shows "(len \<le> WS_MAX_SEND_PAYLOAD \<longrightarrow> read_header (ws_frame_header_long op len @ payload) = Some (op, len, payload)) \<and>
    (WS_MAX_SEND_PAYLOAD < len \<longrightarrow> ws_frame_header_long op len = [])"
proof (cases "len \<le> 0xffff")
  case True
  then show ?thesis using read_frame_header [OF assms, of len payload]
    by (simp add: ws_frame_header_long_def WS_MAX_SEND_PAYLOAD_def WS_MAX_FRAME_PAYLOAD_def)
next
  case False
  then show ?thesis
    using assms read_header_ext [OF assms, of 127 "map (\<lambda>i. len_byte len (7 - i)) [0..<8]" payload] be_val_8 [of len]
    by (simp add: ws_frame_header_long_def WS_MAX_SEND_PAYLOAD_def del: upt_rec_numeral)
qed

theorem ws_frame_header_long_declares_witness:
  "read_header (ws_frame_header_long 1 70000 @ [7]) = Some (1, 70000, [7])"
  using ws_frame_header_long_declares [of 1 70000 "[7]"] by (simp add: WS_MAX_SEND_PAYLOAD_def)

text \<open>
   Memory safety of the receive buffer: the bytes held never exceed the capacity nor the bound
  of one frame, through any feed, parse and consume.
\<close>

definition wc_ok :: "ws_conn \<Rightarrow> bool" where
  "wc_ok c = (length (wc_buf c) \<le> wc_cap c \<and> length (wc_buf c) \<le> WS_MAX_FRAME_PAYLOAD + 14)"

theorem ws_buffer_in_bounds:
  assumes "wc_ok c"
  shows "wc_ok (fst (ws_conn_feed realloc_ok c data)) \<and> wc_ok (fst (ws_conn_try_parse c)) \<and> wc_ok (ws_conn_consume c n)"
proof -
  have cap: "length (wc_buf c) + length data \<le>
      double_until (if wc_cap c \<noteq> 0 then wc_cap c * 2 else 4096) (length (wc_buf c) + length data)"
    by (rule double_until_enough) simp
  have "wc_ok (fst (ws_conn_feed realloc_ok c data))"
    using assms cap by (auto simp: wc_ok_def ws_conn_feed_def Let_def)
  moreover have "wc_ok (fst (ws_conn_try_parse c))"
    using assms by (auto simp: wc_ok_def ws_conn_try_parse_def Let_def)
  moreover have "wc_ok (ws_conn_consume c n)"
    using assms by (auto simp: wc_ok_def ws_conn_consume_def)
  ultimately show ?thesis by blast
qed

theorem ws_buffer_in_bounds_witness:
  "wc_ok (fst (ws_conn_feed True ws_conn_init [0x81, 0x80]))"
  using ws_buffer_in_bounds [of ws_conn_init True "[0x81, 0x80]"] by (simp add: ws_conn_init_def wc_ok_def)

end
