(* ===== verification/Http.thy ===== *)
theory Http
  imports Cix_Double
begin

text \<open>
  \<open>daemon/src/http.c\<close>: the request buffer, the incremental request parser, the header scanner
  and the response writer.  A \<open>size_t\<close> computation that can wrap is written with \<open>size_t_of\<close>
  (the value modulo \<open>2^64\<close>); pointers into the buffer are offsets.  Where a response goes, the
  installed sink or the TLS connection, is the argument \<open>emit\<close>, and the header hook is an
  argument too, as both are function pointers set by \<open>main.c\<close>.

  The lemmas show that the parser's answer depends on the bytes received and not on how they
  were cut into reads, that a request built from a method, a path, header lines and a body is
  read back as these, and that the body the parser points at lies inside the buffer.
\<close>

definition HTTP_MAX_METHOD :: nat where "HTTP_MAX_METHOD = 8"
definition HTTP_MAX_PATH :: nat where "HTTP_MAX_PATH = 256"
definition HTTP_MAX_REQUEST_SIZE :: nat where "HTTP_MAX_REQUEST_SIZE = 1048576"

definition CR :: char where "CR = CHR 0x0D"
definition LF :: char where "LF = CHR 0x0A"

definition size_t_of :: "int \<Rightarrow> nat" where
  "size_t_of i = nat (i mod 2 ^ 64)"

record http_conn =
  hc_buf :: string
  hc_cap :: nat
  hc_headers_end :: int
  hc_content_length :: int
  hc_method :: string
  hc_path :: string

record http_request =
  hr_method :: string
  hr_path :: string
  hr_content_length :: int
  hr_body :: int
  hr_body_len :: nat
  hr_headers_len :: nat

section \<open>The buffer\<close>

definition http_conn_init :: http_conn where
  "http_conn_init = \<lparr>hc_buf = [], hc_cap = 0, hc_headers_end = - 1, hc_content_length = - 1, hc_method = [], hc_path = []\<rparr>"

definition http_conn_free :: "http_conn \<Rightarrow> http_conn" where
  "http_conn_free c = c\<lparr>hc_buf := [], hc_cap := 0\<rparr>"

definition http_conn_feed :: "bool \<Rightarrow> http_conn \<Rightarrow> string \<Rightarrow> http_conn \<times> int" where
  "http_conn_feed realloc_ok c data =
     (if HTTP_MAX_REQUEST_SIZE < length (hc_buf c) + length data then (c, - 1)
      else if hc_cap c < length (hc_buf c) + length data then
        if \<not> realloc_ok then (c, - 1)
        else let ncap = double_until (if hc_cap c \<noteq> 0 then hc_cap c * 2 else 4096) (length (hc_buf c) + length data)
             in (c\<lparr>hc_cap := ncap, hc_buf := hc_buf c @ data\<rparr>, 0)
      else (c\<lparr>hc_buf := hc_buf c @ data\<rparr>, 0))"

section \<open>Scanning\<close>

text \<open>The offset just past the first blank line.\<close>

fun find_headers_end :: "string \<Rightarrow> nat option" where
  "find_headers_end (a # b # c # d # r) =
     (if a = CR \<and> b = LF \<and> c = CR \<and> d = LF then Some 4
      else map_option Suc (find_headers_end (b # c # d # r)))"
| "find_headers_end _ = None"

text \<open>The line up to a CRLF, and what starts at that CRLF; without one, the whole text.\<close>

fun break_crlf :: "string \<Rightarrow> string \<times> string" where
  "break_crlf [] = ([], [])"
| "break_crlf [c] = ([c], [])"
| "break_crlf (c # d # r) =
     (if c = CR \<and> d = LF then ([], c # d # r)
      else let (line, rest) = break_crlf (d # r) in (c # line, rest))"

definition parse_request_line :: "string \<Rightarrow> (string \<times> string) option" where
  "parse_request_line line =
     (let meth = takeWhile (\<lambda>c. c \<noteq> CHR '' '') line; rest = dropWhile (\<lambda>c. c \<noteq> CHR '' '') line in
      if meth = [] \<or> HTTP_MAX_METHOD \<le> length meth \<or> rest = [] then None
      else let path = takeWhile (\<lambda>c. c \<noteq> CHR '' '') (tl rest) in
        if path = [] \<or> HTTP_MAX_PATH \<le> length path then None else Some (meth, path))"

definition to_lower :: "char \<Rightarrow> char" where
  "to_lower c = (if CHR ''A'' \<le> c \<and> c \<le> CHR ''Z'' then char_of ((of_char c :: nat) + 32) else c)"

text \<open>\<open>strncasecmp(s, name, strlen(name)) == 0\<close> for an \<open>s\<close> of that length.\<close>

definition case_eq :: "string \<Rightarrow> string \<Rightarrow> bool" where
  "case_eq s name = (map to_lower s = map to_lower name)"

definition trim_spaces :: "string \<Rightarrow> string" where
  "trim_spaces s = (let t = dropWhile (\<lambda>c. c = CHR '' '') s in rev (dropWhile (\<lambda>c. c = CHR '' '') (rev t)))"

text \<open>The loop over the lines after the request line; \<open>None\<close> is the return value \<open>-1\<close>.\<close>

lemma break_crlf_length: "break_crlf s = (line, rest) \<Longrightarrow> length line + length rest = length s"
  by (induction s arbitrary: line rest rule: break_crlf.induct) (auto split: if_splits prod.splits)

function scan_headers :: "string \<Rightarrow> string \<Rightarrow> nat \<Rightarrow> string option" where
  "scan_headers headers name out_size =
     (if headers = [] then None
      else let (line, rest) = break_crlf headers;
               field = takeWhile (\<lambda>c. c \<noteq> CHR '':'') line
           in if length field < length line \<and> length field = length name \<and> case_eq field name then
                let v = trim_spaces (drop (length field + 1) line) in
                if length v + 1 \<le> out_size then Some v else None
              else scan_headers (drop 2 rest) name out_size)"
  by pat_completeness auto
termination
proof (relation "measure (\<lambda>(h, n, s). length h)")
  fix headers name :: string and out_size :: nat and x line rest field
  assume "headers \<noteq> []" "x = break_crlf headers" "(line, rest) = x"
  then have b: "break_crlf headers = (line, rest)" by simp
  have "length (drop 2 rest) < length headers"
    using break_crlf_length [OF b] \<open>headers \<noteq> []\<close> by (cases rest; cases headers) auto
  then show "((drop 2 rest, name, out_size), headers, name, out_size) \<in> measure (\<lambda>(h, n, s). length h)" by simp
qed simp

declare scan_headers.simps [simp del]

definition http_find_header :: "string \<Rightarrow> string \<Rightarrow> nat \<Rightarrow> string option" where
  "http_find_header headers name out_size = scan_headers (drop 2 (snd (break_crlf headers))) name out_size"

definition is_space :: "char \<Rightarrow> bool" where
  "is_space c = (c \<in> {CHR '' '', CHR 0x09, CHR 0x0A, CHR 0x0B, CHR 0x0C, CHR 0x0D})"

text \<open>\<open>atol\<close>, which clamps like \<open>strtol\<close>.\<close>

definition atol :: "string \<Rightarrow> int" where
  "atol s =
     (let s = dropWhile is_space s;
          neg = (case s of c # _ \<Rightarrow> c = CHR ''-'' | [] \<Rightarrow> False);
          s = (case s of c # t \<Rightarrow> if c = CHR ''-'' \<or> c = CHR ''+'' then t else s | [] \<Rightarrow> []);
          v = int (digits_val 0 (takeWhile is_digit s))
      in max LLONG_MIN (min LLONG_MAX (if neg then - v else v)))"

definition find_content_length :: "string \<Rightarrow> int" where
  "find_content_length headers =
     (case http_find_header headers ''Content-Length'' 32 of None \<Rightarrow> - 1 | Some v \<Rightarrow> atol (c_str v))"

section \<open>The parser\<close>

datatype http_parse = HttpMore | HttpError | HttpRequest http_request

text \<open>The part that runs once, when the blank line has arrived; the flag says whether it succeeds.\<close>

definition http_parse_head :: "nat \<Rightarrow> http_conn \<Rightarrow> http_conn \<times> bool" where
  "http_parse_head hdr_end c =
     (let c = c\<lparr>hc_headers_end := int hdr_end\<rparr>;
          block = take (hdr_end - 2) (hc_buf c)
      in case parse_request_line (fst (break_crlf block)) of
           None \<Rightarrow>
             let line = fst (break_crlf block); meth = takeWhile (\<lambda>c. c \<noteq> CHR '' '') line in
             (if meth = [] \<or> HTTP_MAX_METHOD \<le> length meth \<or> length meth = length line then c else c\<lparr>hc_method := meth\<rparr>, False)
         | Some (meth, path) \<Rightarrow>
             let n = find_content_length block in
             (c\<lparr>hc_method := meth, hc_path := path, hc_content_length := (if n < 0 then 0 else n)\<rparr>, True))"

definition http_conn_try_parse :: "http_conn \<Rightarrow> http_conn \<times> http_parse" where
  "http_conn_try_parse c =
     (case (if hc_headers_end c < 0 then
              (case find_headers_end (hc_buf c) of None \<Rightarrow> Inl (c, HttpMore)
               | Some hdr_end \<Rightarrow>
                   (case http_parse_head hdr_end c of (c, False) \<Rightarrow> Inl (c, HttpError) | (c, True) \<Rightarrow> Inr c))
            else Inr c) of
        Inl r \<Rightarrow> r
      | Inr c \<Rightarrow>
          if length (hc_buf c) < size_t_of (int (size_t_of (hc_headers_end c)) + int (size_t_of (hc_content_length c)))
          then (c, HttpMore)
          else (c, HttpRequest \<lparr>hr_method = hc_method c, hr_path = hc_path c, hr_content_length = hc_content_length c,
                   hr_body = hc_headers_end c, hr_body_len = size_t_of (hc_content_length c),
                   hr_headers_len = size_t_of (hc_headers_end c - 2)\<rparr>))"

section \<open>Responses\<close>

text \<open>
  The globals of the writer, and the stream of chunks handed to \<open>http_emit\<close>.  \<open>emit\<close> says, chunk
  by chunk, whether the sink or the socket took it.
\<close>

record http_out =
  ho_last_status :: int
  ho_sent :: "string list"

definition http_emit :: "(string \<Rightarrow> int) \<Rightarrow> string \<Rightarrow> http_out \<Rightarrow> http_out \<times> int" where
  "http_emit emit chunk o' = (o'\<lparr>ho_sent := ho_sent o' @ [chunk]\<rparr>, emit chunk)"

definition CRLF :: string where "CRLF = [CR, LF]"

definition response_header :: "int \<Rightarrow> string \<Rightarrow> string \<Rightarrow> nat \<Rightarrow> string option \<Rightarrow> string \<Rightarrow> string" where
  "response_header status status_text content_type body_len extra_headers hooked =
     ''HTTP/1.1 '' @ int_dec status @ '' '' @ status_text @ CRLF @
     ''Content-Type: '' @ content_type @ CRLF @
     ''Content-Length: '' @ nat_dec body_len @ CRLF @
     (case extra_headers of None \<Rightarrow> [] | Some h \<Rightarrow> h) @ hooked @
     ''Connection: close'' @ CRLF @ CRLF"

text \<open>The hook writes into 128 bytes, or fails; no hook is \<open>None\<close>.\<close>

definition run_hook :: "string option option \<Rightarrow> string" where
  "run_hook hook = (case hook of Some (Some h) \<Rightarrow> snprintf_s 128 h | _ \<Rightarrow> [])"

definition write_response ::
  "(string \<Rightarrow> int) \<Rightarrow> string option option \<Rightarrow> int \<Rightarrow> string \<Rightarrow> string \<Rightarrow> string option \<Rightarrow> string \<Rightarrow> nat \<Rightarrow> bool \<Rightarrow>
   http_out \<Rightarrow> http_out \<times> int" where
  "write_response emit hook status status_text content_type extra_headers body body_len omit_body o' =
     (let o' = o'\<lparr>ho_last_status := status\<rparr>;
          header = response_header status status_text content_type body_len extra_headers (run_hook hook)
      in if 768 \<le> length header then (o', - 1)
         else let (o', rc) = http_emit emit header o' in
           if rc \<noteq> 0 then (o', - 1)
           else if \<not> omit_body \<and> 0 < body_len then
             let (o', rc) = http_emit emit body o' in if rc \<noteq> 0 then (o', - 1) else (o', 0)
           else (o', 0))"

definition http_write_response_hdrs where
  "http_write_response_hdrs emit hook status status_text content_type extra_headers body o' =
     write_response emit hook status status_text content_type extra_headers body (length body) False o'"

definition http_write_response where
  "http_write_response emit hook status status_text content_type body o' =
     http_write_response_hdrs emit hook status status_text content_type None body o'"

definition http_write_response_head where
  "http_write_response_head emit hook status status_text content_type extra_headers content_length o' =
     write_response emit hook status status_text content_type extra_headers [] content_length True o'"

definition http_last_status :: "http_out \<Rightarrow> int" where
  "http_last_status o' = ho_last_status o'"

definition http_reset_last_status :: "http_out \<Rightarrow> http_out" where
  "http_reset_last_status o' = o'\<lparr>ho_last_status := 0\<rparr>"

section \<open>More bytes do not change what was found\<close>

lemma find_headers_end_append:
  "find_headers_end s = Some n \<Longrightarrow> find_headers_end (s @ t) = Some n \<and> 4 \<le> n \<and> n \<le> length s"
  by (induction s arbitrary: n rule: find_headers_end.induct) (auto split: if_splits)

lemma size_t_id: "0 \<le> i \<Longrightarrow> i < 2 ^ 64 \<Longrightarrow> size_t_of i = nat i"
  by (simp add: size_t_of_def)

lemma atol_range: "LLONG_MIN \<le> atol s \<and> atol s \<le> LLONG_MAX"
  by (simp add: atol_def Let_def LLONG_MIN_def LLONG_MAX_def)

lemma find_content_length_range: "find_content_length h \<le> LLONG_MAX"
  using atol_range by (simp add: find_content_length_def LLONG_MAX_def split: option.splits)

text \<open>The fields the parser has not filled in yet.\<close>

definition hc_reset :: "http_conn \<Rightarrow> http_conn" where
  "hc_reset c = c\<lparr>hc_headers_end := - 1, hc_content_length := - 1, hc_method := [], hc_path := []\<rparr>"

lemma hc_reset_fields: "hc_headers_end (hc_reset c) = - 1" "hc_content_length (hc_reset c) = - 1"
  by (simp_all add: hc_reset_def)

lemma hc_fresh_fields: "c = hc_reset c \<Longrightarrow> hc_headers_end c = - 1" "c = hc_reset c \<Longrightarrow> hc_content_length c = - 1"
  by (metis hc_reset_fields)+

text \<open>What is cached is what a fresh parse of the same bytes would find.\<close>

definition hc_ok :: "http_conn \<Rightarrow> bool" where
  "hc_ok c = (length (hc_buf c) \<le> HTTP_MAX_REQUEST_SIZE \<and> length (hc_buf c) \<le> hc_cap c \<and>
     (c = hc_reset c \<or>
      (\<exists>n. find_headers_end (hc_buf c) = Some n \<and> http_parse_head n (hc_reset c) = (c, True))))"

lemma parse_head_fields:
  assumes "http_parse_head n c = (c', True)"
  shows "hc_headers_end c' = int n" "0 \<le> hc_content_length c'" "hc_content_length c' \<le> LLONG_MAX"
    "hc_buf c' = hc_buf c" "hc_cap c' = hc_cap c"
  using assms find_content_length_range
  by (auto simp: http_parse_head_def Let_def LLONG_MAX_def split: option.splits prod.splits)

lemma parse_head_reset:
  "http_parse_head n (hc_reset c) = (c', True) \<Longrightarrow> hc_reset c' = hc_reset c"
  by (auto simp: http_parse_head_def hc_reset_def Let_def split: option.splits prod.splits)

lemma try_parse_reset:
  assumes "hc_ok c"
  shows "http_conn_try_parse (hc_reset c) = http_conn_try_parse c"
proof (cases "c = hc_reset c")
  case False
  with assms obtain n where n: "find_headers_end (hc_buf c) = Some n" "http_parse_head n (hc_reset c) = (c, True)"
    by (auto simp: hc_ok_def)
  have "hc_headers_end c = int n" by (rule parse_head_fields [OF n(2)])
  moreover have "hc_buf (hc_reset c) = hc_buf c" "hc_headers_end (hc_reset c) < 0" by (simp_all add: hc_reset_def)
  ultimately show ?thesis using n by (simp add: http_conn_try_parse_def)
qed simp

lemma try_parse_ok:
  assumes "hc_ok c" "http_conn_try_parse c = (c', r)" "r \<noteq> HttpError"
  shows "hc_ok c'" "hc_buf c' = hc_buf c"
proof -
  have "hc_ok c' \<and> hc_buf c' = hc_buf c"
  proof (cases "hc_headers_end c < 0")
    case True
    with assms(1) have fresh: "c = hc_reset c" by (auto simp: hc_ok_def dest: parse_head_fields(1))
    show ?thesis
    proof (cases "find_headers_end (hc_buf c)")
      case None
      with assms True show ?thesis by (simp add: http_conn_try_parse_def)
    next
      case (Some n)
      obtain c1 b where h: "http_parse_head n c = (c1, b)" by (cases "http_parse_head n c")
      have b: "b" "c' = c1" using assms True Some h by (cases b; auto simp: http_conn_try_parse_def split: if_splits)+
      then have h': "http_parse_head n c = (c', True)" using h by simp
      then have "http_parse_head n (hc_reset c') = (c', True)" using parse_head_reset [of n c c'] fresh by simp
      with parse_head_fields [OF h'] Some assms(1) show ?thesis by (auto simp: hc_ok_def)
    qed
  next
    case False
    with assms show ?thesis by (auto simp: http_conn_try_parse_def split: if_splits)
  qed
  then show "hc_ok c'" "hc_buf c' = hc_buf c" by auto
qed

lemma parse_head_append:
  assumes "http_parse_head n c = (c', True)" "n \<le> length (hc_buf c)"
  shows "http_parse_head n (c\<lparr>hc_buf := hc_buf c @ data, hc_cap := k\<rparr>) = (c'\<lparr>hc_buf := hc_buf c @ data, hc_cap := k\<rparr>, True)"
  using assms by (auto simp: http_parse_head_def Let_def split: option.splits)

lemma feed_ok:
  assumes "hc_ok c" "http_conn_feed realloc_ok c data = (c', rc)"
  shows "hc_ok c' \<and> (rc = 0 \<longrightarrow> hc_buf c' = hc_buf c @ data) \<and> (rc \<noteq> 0 \<longrightarrow> c' = c)"
proof (cases "c' = c \<and> rc \<noteq> 0")
  case True
  with assms(1) show ?thesis by auto
next
  case False
  have cap: "length (hc_buf c) + length data \<le>
      double_until (if hc_cap c \<noteq> 0 then hc_cap c * 2 else 4096) (length (hc_buf c) + length data)"
    by (rule double_until_enough) simp
  from False assms(2) cap obtain k where k: "c' = c\<lparr>hc_buf := hc_buf c @ data, hc_cap := k\<rparr>" "rc = 0"
    "length (hc_buf c) + length data \<le> k" "length (hc_buf c) + length data \<le> HTTP_MAX_REQUEST_SIZE"
    by (cases c) (auto simp: http_conn_feed_def Let_def split: if_splits)
  from assms(1) consider "c = hc_reset c"
    | n where "find_headers_end (hc_buf c) = Some n" "http_parse_head n (hc_reset c) = (c, True)"
    by (auto simp: hc_ok_def)
  then have "hc_ok c'"
  proof cases
    case 1
    then have "c' = hc_reset c'" unfolding k(1) by (cases c) (simp add: hc_reset_def)
    with k show ?thesis by (simp add: hc_ok_def)
  next
    case 2
    have r: "hc_reset c' = (hc_reset c)\<lparr>hc_buf := hc_buf (hc_reset c) @ data, hc_cap := k\<rparr>"
      by (simp add: hc_reset_def k(1))
    have n: "n \<le> length (hc_buf (hc_reset c))" using find_headers_end_append [OF 2(1)] by (simp add: hc_reset_def)
    have "http_parse_head n (hc_reset c') = (c', True)"
      unfolding r parse_head_append [OF 2(2) n] by (simp add: k(1) hc_reset_def)
    with k find_headers_end_append [OF 2(1), of data] show ?thesis by (auto simp: hc_ok_def)
  qed
  with k show ?thesis by simp
qed

section \<open>The read loop\<close>

text \<open>
  The loop of \<open>handle_client_event\<close> in \<open>daemon/src/main.c\<close> over the reads of a connection: more to
  come, an answer 400 for a request that is too large or malformed, or a complete request.
\<close>

datatype http_outcome = Waiting http_conn | TooLarge | Malformed | Complete http_conn http_request

fun http_receive :: "string list \<Rightarrow> http_conn \<Rightarrow> http_outcome" where
  "http_receive [] c = Waiting c"
| "http_receive (chunk # chunks) c =
     (let (c, rc) = http_conn_feed True c chunk in
      if rc \<noteq> 0 then TooLarge
      else case http_conn_try_parse c of
        (c, HttpMore) \<Rightarrow> http_receive chunks c
      | (c, HttpError) \<Rightarrow> Malformed
      | (c, HttpRequest r) \<Rightarrow> Complete c r)"

text \<open>A connection that has received these bytes at once.\<close>

definition one_shot :: "string \<Rightarrow> http_conn" where
  "one_shot s = http_conn_init\<lparr>hc_buf := s, hc_cap := length s\<rparr>"

lemma try_parse_cap: "snd (http_conn_try_parse (c\<lparr>hc_cap := k\<rparr>)) = snd (http_conn_try_parse c)"
proof -
  have "http_parse_head n (c\<lparr>hc_cap := k\<rparr>) = (let (c', b) = http_parse_head n c in (c'\<lparr>hc_cap := k\<rparr>, b))" for n
    by (auto simp: http_parse_head_def Let_def split: option.splits)
  then show ?thesis
    by (auto simp: http_conn_try_parse_def Let_def split: option.splits prod.splits bool.splits)
qed

lemma try_parse_one_shot: "hc_ok c \<Longrightarrow> snd (http_conn_try_parse c) = snd (http_conn_try_parse (one_shot (hc_buf c)))"
proof -
  assume ok: "hc_ok c"
  have "one_shot (hc_buf c) = (hc_reset c)\<lparr>hc_cap := length (hc_buf c)\<rparr>"
    by (cases c) (simp add: one_shot_def http_conn_init_def hc_reset_def)
  then show ?thesis using try_parse_cap [where c = "hc_reset c"] try_parse_reset [OF ok] by simp
qed

lemma hc_ok_init: "hc_ok http_conn_init"
  by (simp add: hc_ok_def http_conn_init_def hc_reset_def)

lemma feed_fits: "length (hc_buf c) + length d \<le> HTTP_MAX_REQUEST_SIZE \<Longrightarrow> snd (http_conn_feed True c d) = 0"
  by (simp add: http_conn_feed_def Let_def)

text \<open>
  If every proper prefix of a text is incomplete and the whole is a request, any way of cutting it
  into reads delivers that request.
\<close>

lemma receive_complete:
  assumes "\<And>p q. p @ q = t \<Longrightarrow> q \<noteq> [] \<Longrightarrow> snd (http_conn_try_parse (one_shot p)) = HttpMore"
    and "snd (http_conn_try_parse (one_shot t)) = HttpRequest r" "length t \<le> HTTP_MAX_REQUEST_SIZE"
  shows "hc_ok c \<Longrightarrow> hc_buf c @ concat chunks = t \<Longrightarrow> hc_buf c \<noteq> t \<Longrightarrow>
    \<exists>c'. http_receive chunks c = Complete c' r \<and> hc_buf c' = t"
proof (induction chunks arbitrary: c)
  case (Cons ch chunks)
  obtain c1 rc where f: "http_conn_feed True c ch = (c1, rc)" by (cases "http_conn_feed True c ch")
  have "length (hc_buf c) + length ch \<le> HTTP_MAX_REQUEST_SIZE"
    using assms(3) arg_cong [OF Cons.prems(2), of length] by simp
  then have rc: "rc = 0" using feed_fits [of c ch] f by simp
  then have c1: "hc_ok c1" "hc_buf c1 = hc_buf c @ ch" using feed_ok [OF Cons.prems(1) f] by auto
  obtain c2 r' where p: "http_conn_try_parse c1 = (c2, r')" by (cases "http_conn_try_parse c1")
  have r': "r' = snd (http_conn_try_parse (one_shot (hc_buf c1)))" using try_parse_one_shot [OF c1(1)] p by simp
  show ?case
  proof (cases "hc_buf c1 = t")
    case True
    then have "r' = HttpRequest r" using r' assms(2) by simp
    with f rc p try_parse_ok [OF c1(1) p] True show ?thesis by simp
  next
    case False
    have "hc_buf c1 @ concat chunks = t" using Cons.prems(2) c1(2) by simp
    moreover from this False have "concat chunks \<noteq> []" by auto
    ultimately have "r' = HttpMore" using r' assms(1) by blast
    with f rc p try_parse_ok [OF c1(1) p] Cons.IH [of c2] \<open>hc_buf c1 @ concat chunks = t\<close> False show ?thesis by simp
  qed
qed simp

section \<open>The text of a request\<close>

type_synonym header = "string \<times> string"

definition header_line :: "header \<Rightarrow> string" where
  "header_line h = fst h @ '': '' @ snd h"

definition request_lines :: "string \<Rightarrow> string \<Rightarrow> header list \<Rightarrow> string list" where
  "request_lines meth path hs = (meth @ '' '' @ path @ '' HTTP/1.1'') # map header_line hs"

definition lines_text :: "string list \<Rightarrow> string" where
  "lines_text ls = concat (map (\<lambda>l. l @ CRLF) ls)"

definition request_text :: "string \<Rightarrow> string \<Rightarrow> header list \<Rightarrow> string \<Rightarrow> string" where
  "request_text meth path hs body = lines_text (request_lines meth path hs) @ CRLF @ body"

definition token_ok :: "nat \<Rightarrow> string \<Rightarrow> bool" where
  "token_ok n s = (s \<noteq> [] \<and> length s < n \<and> CHR '' '' \<notin> set s \<and> CR \<notin> set s)"

definition header_ok :: "header \<Rightarrow> bool" where
  "header_ok h = (CHR '':'' \<notin> set (fst h) \<and> CR \<notin> set (fst h) \<and> CR \<notin> set (snd h) \<and> is_c_str (snd h) \<and>
     (snd h \<noteq> [] \<longrightarrow> hd (snd h) \<noteq> CHR '' '' \<and> last (snd h) \<noteq> CHR '' ''))"

definition header_lookup :: "header list \<Rightarrow> string \<Rightarrow> string option" where
  "header_lookup hs name = map_option snd (List.find (\<lambda>h. case_eq (fst h) name) hs)"

lemma crlf_neq [simp]: "CR \<noteq> LF" "LF \<noteq> CR" "CR \<noteq> CHR '':''" "CR \<noteq> CHR '' ''"
  by (simp_all add: CR_def LF_def)

lemma fhe_skip: "c \<noteq> CR \<Longrightarrow> find_headers_end (c # s) = map_option Suc (find_headers_end s)"
  by (cases "(c # s)" rule: find_headers_end.cases) auto

lemma fhe_crlf: "c \<noteq> CR \<Longrightarrow> find_headers_end (CR # LF # c # s) = map_option (\<lambda>n. n + 2) (find_headers_end (c # s))"
  by (cases s) (auto simp: fhe_skip option.map_comp comp_def)

lemma fhe_line: "CR \<notin> set l \<Longrightarrow> find_headers_end (l @ s) = map_option (\<lambda>n. n + length l) (find_headers_end s)"
  by (induction l) (auto simp: fhe_skip option.map_comp comp_def option.map_ident)

lemma fhe_lines:
  "ls \<noteq> [] \<Longrightarrow> \<forall>l \<in> set ls. l \<noteq> [] \<and> CR \<notin> set l \<Longrightarrow>
     find_headers_end (lines_text ls @ CRLF @ body) = Some (length (lines_text ls) + 2)"
proof (induction ls)
  case (Cons l ls)
  show ?case
  proof (cases ls)
    case Nil
    with Cons.prems show ?thesis by (simp add: lines_text_def fhe_line CRLF_def)
  next
    case (Cons k ks)
    with Cons.prems obtain c cs where k: "k = c # cs" "c \<noteq> CR" by (cases k) auto
    have "find_headers_end (lines_text ls @ CRLF @ body) = Some (length (lines_text ls) + 2)"
      using Cons.IH Cons.prems Cons by simp
    with k Cons Cons.prems show ?thesis by (simp add: lines_text_def fhe_line fhe_crlf CRLF_def)
  qed
qed simp

lemma break_line: "CR \<notin> set l \<Longrightarrow> break_crlf (l @ CRLF @ r) = (l, CRLF @ r)"
proof (induction l)
  case (Cons c l)
  then show ?case by (cases "l @ CRLF @ r") (auto simp: CRLF_def)
qed (simp add: CRLF_def)

lemma trim_value: "(v \<noteq> [] \<longrightarrow> hd v \<noteq> CHR '' '' \<and> last v \<noteq> CHR '' '') \<Longrightarrow> trim_spaces (CHR '' '' # v) = v"
proof (cases v rule: rev_cases)
  case (snoc u x)
  assume "v \<noteq> [] \<longrightarrow> hd v \<noteq> CHR '' '' \<and> last v \<noteq> CHR '' ''"
  then have x: "x \<noteq> CHR '' ''" and hd: "hd v \<noteq> CHR '' ''" using snoc by simp_all
  have "dropWhile (\<lambda>c. c = CHR '' '') v = v" using hd by (simp add: dropWhile_eq_self_iff)
  with snoc x show ?thesis by (simp add: trim_spaces_def)
qed (simp add: trim_spaces_def)

lemma span_char:
  "c \<notin> set n \<Longrightarrow> takeWhile (\<lambda>x. x \<noteq> c) (n @ c # r) = n" "c \<notin> set n \<Longrightarrow> dropWhile (\<lambda>x. x \<noteq> c) (n @ c # r) = c # r"
  by (induction n) auto

lemma scan_header_lines:
  "\<forall>h \<in> set hs. header_ok h \<Longrightarrow>
     scan_headers (lines_text (map header_line hs)) name sz =
     (case header_lookup hs name of None \<Rightarrow> None | Some v \<Rightarrow> if length v + 1 \<le> sz then Some v else None)"
proof (induction hs)
  case Nil
  show ?case by (simp add: lines_text_def scan_headers.simps header_lookup_def)
next
  case (Cons h hs)
  obtain n v where h: "h = (n, v)" by (cases h)
  with Cons.prems have ok: "CHR '':'' \<notin> set n" "CR \<notin> set n" "CR \<notin> set v"
    "v \<noteq> [] \<longrightarrow> hd v \<noteq> CHR '' '' \<and> last v \<noteq> CHR '' ''" by (auto simp: header_ok_def)
  let ?rest = "lines_text (map header_line hs)"
  have cr: "CR \<notin> set (header_line h)" using ok by (auto simp: header_line_def h)
  have doc: "lines_text (map header_line (h # hs)) = header_line h @ CRLF @ ?rest" by (simp add: lines_text_def)
  have field: "takeWhile (\<lambda>c. c \<noteq> CHR '':'') (header_line h) = n" using ok(1) by (simp add: header_line_def h span_char)
  have vl: "drop (length n + 1) (header_line h) = CHR '' '' # v" by (simp add: header_line_def h)
  have ceq: "case_eq n name \<Longrightarrow> length n = length name" by (metis case_eq_def length_map)
  have ne: "header_line h @ CRLF @ ?rest \<noteq> []" by (simp add: CRLF_def)
  have step: "scan_headers (header_line h @ CRLF @ ?rest) name sz =
      (if case_eq n name then if length v + 1 \<le> sz then Some v else None else scan_headers ?rest name sz)"
    using ceq vl trim_value [OF ok(4)]
    by (subst scan_headers.simps, cases "case_eq n name")
       (simp_all add: break_line [OF cr] field ne, simp_all add: CRLF_def header_line_def h)
  show ?case unfolding doc step using Cons.IH Cons.prems by (simp add: header_lookup_def h)
qed

lemma header_line_facts: "header_ok h \<Longrightarrow> header_line h \<noteq> [] \<and> CR \<notin> set (header_line h)"
  by (auto simp: header_ok_def header_line_def)

lemma request_line_parses:
  assumes "token_ok HTTP_MAX_METHOD meth" "token_ok HTTP_MAX_PATH path"
  shows "parse_request_line (meth @ '' '' @ path @ '' HTTP/1.1'') = Some (meth, path)"
  using assms span_char [of "CHR '' ''" meth] span_char [of "CHR '' ''" path]
  by (simp add: parse_request_line_def token_ok_def)

lemma atol_nat_dec: "int n \<le> LLONG_MAX \<Longrightarrow> atol (nat_dec n) = int n"
proof -
  assume n: "int n \<le> LLONG_MAX"
  obtain c cs where c: "nat_dec n = c # cs" using nat_dec_nonempty [of n] by (cases "nat_dec n") auto
  have d: "is_digit x" if "x \<in> set (nat_dec n)" for x using nat_dec_digits [OF that] .
  then have cd: "is_digit c" using c by simp
  have "\<not> is_space c" "c \<noteq> CHR ''-''" "c \<noteq> CHR ''+''" using cd by (auto simp: is_space_def is_digit_iff)
  moreover have "takeWhile is_digit (nat_dec n) = nat_dec n" using d by (simp add: takeWhile_eq_all_conv)
  ultimately show ?thesis using n digits_val_nat_dec [of n] by (simp add: atol_def c LLONG_MIN_def LLONG_MAX_def)
qed

text \<open>The head of a well-formed request, wherever the bytes after it come from.\<close>

definition request_ok :: "string \<Rightarrow> string \<Rightarrow> header list \<Rightarrow> bool" where
  "request_ok meth path hs = (token_ok HTTP_MAX_METHOD meth \<and> token_ok HTTP_MAX_PATH path \<and> (\<forall>h \<in> set hs. header_ok h))"

lemma request_line_cr:
  "request_ok meth path hs \<Longrightarrow> CR \<notin> set (meth @ '' '' @ path @ '' HTTP/1.1'')"
  by (simp add: request_ok_def token_ok_def) (simp add: CR_def)

lemma request_lines_ok: "request_ok meth path hs \<Longrightarrow> \<forall>l \<in> set (request_lines meth path hs). l \<noteq> [] \<and> CR \<notin> set l"
  using header_line_facts request_line_cr [of meth path hs] by (auto simp: request_ok_def request_lines_def token_ok_def)

lemma request_headers_end:
  "request_ok meth path hs \<Longrightarrow>
     find_headers_end (request_text meth path hs body) = Some (length (lines_text (request_lines meth path hs)) + 2)"
  unfolding request_text_def by (rule fhe_lines [OF _ request_lines_ok]) (simp_all add: request_lines_def)

lemma request_find_header:
  assumes "request_ok meth path hs"
  shows "http_find_header (lines_text (request_lines meth path hs)) name sz =
    (case header_lookup hs name of None \<Rightarrow> None | Some v \<Rightarrow> if length v + 1 \<le> sz then Some v else None)"
proof -
  let ?l = "meth @ '' '' @ path @ '' HTTP/1.1''"
  note cr = request_line_cr [OF assms]
  from break_line [OF cr, of "lines_text (map header_line hs)"] scan_header_lines [of hs name sz] assms
  show ?thesis by (simp add: http_find_header_def lines_text_def request_lines_def CRLF_def request_ok_def)
qed

text \<open>A body length the header declares; no header declares an empty body.\<close>

definition declares :: "header list \<Rightarrow> nat \<Rightarrow> bool" where
  "declares hs n = (case header_lookup hs ''Content-Length'' of None \<Rightarrow> n = 0 | Some v \<Rightarrow> v = nat_dec n)"

lemma request_content_length:
  assumes "request_ok meth path hs" "declares hs n" "n \<le> HTTP_MAX_REQUEST_SIZE"
  shows "(let m = find_content_length (lines_text (request_lines meth path hs)) in if m < 0 then 0 else m) = int n"
proof (cases "header_lookup hs ''Content-Length''")
  case None
  with assms request_find_header [OF assms(1)] show ?thesis by (simp add: find_content_length_def declares_def)
next
  case (Some v)
  then have v: "v = nat_dec n" using assms(2) by (simp add: declares_def)
  have "n < 10 ^ 7" using assms(3) by (simp add: HTTP_MAX_REQUEST_SIZE_def)
  then have "length (nat_dec n) \<le> 7" by (intro length_nat_dec) simp_all
  moreover have "atol (nat_dec n) = int n"
    by (rule atol_nat_dec) (use assms(3) in \<open>simp add: HTTP_MAX_REQUEST_SIZE_def LLONG_MAX_def\<close>)
  ultimately show ?thesis using Some v request_find_header [OF assms(1)] by (simp add: find_content_length_def)
qed

lemma request_parse_head:
  assumes "request_ok meth path hs" "declares hs n" "n \<le> HTTP_MAX_REQUEST_SIZE"
    and "hc_buf c = lines_text (request_lines meth path hs) @ CRLF @ b"
  shows "http_parse_head (length (lines_text (request_lines meth path hs)) + 2) c =
    (c\<lparr>hc_headers_end := int (length (lines_text (request_lines meth path hs)) + 2), hc_method := meth, hc_path := path,
       hc_content_length := int n\<rparr>, True)"
proof -
  let ?l = "meth @ '' '' @ path @ '' HTTP/1.1''" and ?b = "lines_text (request_lines meth path hs)"
  note cr = request_line_cr [OF assms(1)]
  from break_line [OF cr, of "lines_text (map header_line hs)"]
  have "fst (break_crlf ?b) = ?l" by (simp add: lines_text_def request_lines_def)
  with request_line_parses [of meth path] request_content_length [OF assms(1-3)] assms(1,4) show ?thesis
    by (simp add: http_parse_head_def request_ok_def Let_def)
qed

section \<open>Properties\<close>

definition request_result :: "string \<Rightarrow> string \<Rightarrow> header list \<Rightarrow> nat \<Rightarrow> http_request" where
  "request_result meth path hs n =
     (let k = length (lines_text (request_lines meth path hs)) in
      \<lparr>hr_method = meth, hr_path = path, hr_content_length = int n, hr_body = int (k + 2), hr_body_len = n, hr_headers_len = k\<rparr>)"

lemma request_prefix_parse:
  assumes "request_ok meth path hs" "declares hs (length body)" "p @ q = request_text meth path hs body"
    and "length (request_text meth path hs body) \<le> HTTP_MAX_REQUEST_SIZE"
  shows "snd (http_conn_try_parse (one_shot p)) =
    (if q = [] then HttpRequest (request_result meth path hs (length body)) else HttpMore)"
proof -
  let ?k = "length (lines_text (request_lines meth path hs))"
  have end_all: "find_headers_end (p @ q) = Some (?k + 2)" unfolding assms(3) by (rule request_headers_end [OF assms(1)])
  have buf: "hc_buf (one_shot p) = p" "hc_headers_end (one_shot p) < 0" by (simp_all add: one_shot_def http_conn_init_def)
  show ?thesis
  proof (cases "find_headers_end p")
    case None
    then have "q \<noteq> []" using end_all by auto
    with None buf show ?thesis by (simp add: http_conn_try_parse_def)
  next
    case (Some n)
    then have n: "n = ?k + 2" "n \<le> length p" using find_headers_end_append [OF Some, of q] end_all by auto
    have len: "length p + length q = ?k + 2 + length body"
      using arg_cong [OF assms(3), of length] by (simp add: request_text_def CRLF_def)
    have bound: "length body \<le> HTTP_MAX_REQUEST_SIZE" "?k + 2 + length body < 2 ^ 64"
      using assms(4) by (simp_all add: request_text_def CRLF_def HTTP_MAX_REQUEST_SIZE_def)
    define b where "b = drop n p"
    have "p = take n (p @ q) @ b" using n(2) by (simp add: b_def)
    then have p: "p = lines_text (request_lines meth path hs) @ CRLF @ b"
      unfolding assms(3) request_text_def n(1) by (simp add: CRLF_def)
    note head = request_parse_head [OF assms(1,2) bound(1), of "one_shot p" b]
    have sizes: "size_t_of (int (?k + 2)) = ?k + 2" "size_t_of (int (length body)) = length body"
      "size_t_of (int (?k + 2) + int (length body)) = ?k + 2 + length body" "size_t_of (int (?k + 2) - 2) = ?k"
      using bound(2) by (simp_all add: size_t_of_def nat_mod_distrib nat_add_distrib flip: of_nat_add)
    have q: "length p < ?k + 2 + length body \<longleftrightarrow> q \<noteq> []" using len by (cases q) auto
    have hp: "http_parse_head n (one_shot p) = ((one_shot p)\<lparr>hc_headers_end := int (?k + 2), hc_method := meth,
        hc_path := path, hc_content_length := int (length body)\<rparr>, True)" using head p buf(1) n(1) by simp
    show ?thesis
      using buf Some hp sizes q by (simp add: http_conn_try_parse_def request_result_def Let_def)
  qed
qed

text \<open>
  C35.  A request with a method, a path, header lines and a body of the declared length is read back
  as exactly these, however its bytes are cut into reads: the answer comes with the last byte and
  not before, the body pointer addresses the body, and the header scanner finds every header by its
  name in any letter case.
\<close>

theorem http_request_roundtrip:
  assumes "request_ok meth path hs" "declares hs (length body)" "concat chunks = request_text meth path hs body"
    and "length (request_text meth path hs body) \<le> HTTP_MAX_REQUEST_SIZE"
  shows "\<exists>c r. http_receive chunks http_conn_init = Complete c r \<and> hc_buf c = request_text meth path hs body \<and>
    hr_method r = meth \<and> hr_path r = path \<and> take (hr_body_len r) (drop (nat (hr_body r)) (hc_buf c)) = body \<and>
    (\<forall>name sz. http_find_header (take (hr_headers_len r) (hc_buf c)) name sz =
       (case header_lookup hs name of None \<Rightarrow> None | Some v \<Rightarrow> if length v + 1 \<le> sz then Some v else None))"
proof -
  let ?t = "request_text meth path hs body" and ?r = "request_result meth path hs (length body)"
  note prefix = request_prefix_parse [OF assms(1,2) _ assms(4)]
  have ne: "hc_buf http_conn_init \<noteq> ?t" by (simp add: http_conn_init_def request_text_def CRLF_def)
  have cat: "hc_buf http_conn_init @ concat chunks = ?t" using assms(3) by (simp add: http_conn_init_def)
  obtain c where c: "http_receive chunks http_conn_init = Complete c ?r" "hc_buf c = ?t"
    using receive_complete [OF _ _ assms(4) hc_ok_init cat ne, of ?r] prefix by fastforce
  have "take (hr_headers_len ?r) ?t = lines_text (request_lines meth path hs)"
    "take (hr_body_len ?r) (drop (nat (hr_body ?r)) ?t) = body"
    by (simp_all add: request_result_def request_text_def CRLF_def Let_def nat_add_distrib)
  moreover have "hr_method ?r = meth" "hr_path ?r = path" by (simp_all add: request_result_def Let_def)
  ultimately show ?thesis using c request_find_header [OF assms(1)] by (intro exI [of _ c] exI [of _ ?r]) auto
qed

theorem http_request_roundtrip_witness:
  "\<exists>c r. http_receive [take 9 (request_text ''PUT'' ''/v1/x'' [(''content-length'', ''2'')] ''{}''),
       drop 9 (request_text ''PUT'' ''/v1/x'' [(''content-length'', ''2'')] ''{}'')] http_conn_init = Complete c r \<and>
     hr_path r = ''/v1/x'' \<and> take (hr_body_len r) (drop (nat (hr_body r)) (hc_buf c)) = ''{}''"
proof -
  have ok: "request_ok ''PUT'' ''/v1/x'' [(''content-length'', ''2'')]"
    by (simp add: request_ok_def token_ok_def header_ok_def HTTP_MAX_METHOD_def HTTP_MAX_PATH_def CR_def NUL_def)
  have dec: "nat_dec 2 = ''2''" by code_simp
  have "case_eq ''content-length'' ''Content-Length''" by code_simp
  then have "declares [(''content-length'', ''2'')] (length ''{}'')"
    by (simp add: declares_def header_lookup_def) (simp add: dec numeral_2_eq_2 [symmetric])
  from http_request_roundtrip [OF ok this, of "[take 9 (request_text ''PUT'' ''/v1/x'' [(''content-length'', ''2'')] ''{}''),
       drop 9 (request_text ''PUT'' ''/v1/x'' [(''content-length'', ''2'')] ''{}'')]"]
  show ?thesis
    by (auto simp: request_text_def lines_text_def request_lines_def header_line_def CRLF_def HTTP_MAX_REQUEST_SIZE_def)
qed

text \<open>
  On every connection built by feeding and parsing, the request handed out has its header block
  and its body inside the received bytes, which are inside the allocated buffer, and parsing the
  same connection again, as a parked request does, gives the same request.
\<close>

theorem http_body_in_bounds:
  assumes "hc_ok c" "http_conn_try_parse c = (c', HttpRequest r)"
  shows "4 \<le> hr_body r \<and> int (hr_headers_len r) + 2 = hr_body r \<and> nat (hr_body r) + hr_body_len r \<le> length (hc_buf c') \<and>
    length (hc_buf c') \<le> hc_cap c' \<and> http_conn_try_parse c' = (c', HttpRequest r)"
proof -
  have c': "hc_ok c'" "hc_buf c' = hc_buf c" using try_parse_ok [OF assms] by auto
  have parsed: "\<not> hc_headers_end c' < 0"
    using assms(2) by (auto simp: http_conn_try_parse_def dest: parse_head_fields(1) split: if_splits option.splits prod.splits bool.splits)
  then have "c' \<noteq> hc_reset c'" using hc_fresh_fields(1) [of c'] by auto
  then obtain n where n: "find_headers_end (hc_buf c') = Some n" "http_parse_head n (hc_reset c') = (c', True)"
    using c'(1) by (auto simp: hc_ok_def)
  note f = parse_head_fields [OF n(2)] and e = find_headers_end_append [OF n(1), of "[]"]
  have again: "http_conn_try_parse c' = (c', HttpRequest r)"
    using assms(2) by (auto simp: http_conn_try_parse_def dest: parse_head_fields(1) split: if_splits option.splits prod.splits bool.splits)
  have bound: "length (hc_buf c') \<le> HTTP_MAX_REQUEST_SIZE" "length (hc_buf c') \<le> hc_cap c'" using c'(1) by (auto simp: hc_ok_def)
  have small: "int n + hc_content_length c' < 2 ^ 64" "int n < 2 ^ 63"
    using f(3) e bound by (auto simp: LLONG_MAX_def HTTP_MAX_REQUEST_SIZE_def)
  have sz: "size_t_of (int (size_t_of (int n)) + int (size_t_of (hc_content_length c'))) = n + nat (hc_content_length c')"
    "size_t_of (hc_content_length c') = nat (hc_content_length c')" "size_t_of (int n - 2) = n - 2"
    using small f(2,3) e by (simp_all add: size_t_id nat_add_distrib LLONG_MAX_def)
  from again parsed have r: "hr_body r = int n" "hr_body_len r = nat (hc_content_length c')" "hr_headers_len r = n - 2"
    "n + nat (hc_content_length c') \<le> length (hc_buf c')"
    using f(1) sz by (auto simp: http_conn_try_parse_def split: if_splits)
  with e bound again show ?thesis by auto
qed

theorem http_body_in_bounds_witness:
  "\<exists>c r. http_conn_try_parse (one_shot (''GET /a HTTP/1.1'' @ CRLF @ CRLF)) = (c, HttpRequest r) \<and>
     nat (hr_body r) + hr_body_len r \<le> length (hc_buf c) \<and> http_conn_try_parse c = (c, HttpRequest r)"
proof -
  let ?t = "request_text ''GET'' ''/a'' [] []"
  have t: "''GET /a HTTP/1.1'' @ CRLF @ CRLF = ?t" by (simp add: request_text_def lines_text_def request_lines_def)
  have ok: "request_ok ''GET'' ''/a'' []" "declares [] (length [])"
    by (simp_all add: request_ok_def token_ok_def HTTP_MAX_METHOD_def HTTP_MAX_PATH_def CR_def declares_def header_lookup_def)
  have len: "length ?t \<le> HTTP_MAX_REQUEST_SIZE"
    by (simp add: request_text_def lines_text_def request_lines_def CRLF_def HTTP_MAX_REQUEST_SIZE_def)
  from request_prefix_parse [OF ok, of ?t "[]"] len obtain c r where
    p: "http_conn_try_parse (one_shot ?t) = (c, HttpRequest r)" by (cases "http_conn_try_parse (one_shot ?t)") auto
  have "hc_ok (one_shot ?t)" using len by (simp add: hc_ok_def one_shot_def http_conn_init_def hc_reset_def)
  from http_body_in_bounds [OF this p] p show ?thesis unfolding t by blast
qed

text \<open>
   A refusal must be the last word on a connection: after \<open>-1\<close> the parse state still holds the
  content length \<open>-1\<close>, and another call would report a complete request whose body length is
  \<open>2^64 - 1\<close>.
\<close>

theorem http_error_must_be_final:
  assumes "hc_ok c" "http_conn_try_parse c = (c', HttpError)"
  shows "\<exists>r. http_conn_try_parse c' = (c', HttpRequest r) \<and> hr_body_len r = 2 ^ 64 - 1"
proof -
  have "hc_headers_end c < 0" using assms(2) by (auto simp: http_conn_try_parse_def split: if_splits)
  with assms(1) have fresh: "c = hc_reset c" by (auto simp: hc_ok_def dest: parse_head_fields(1))
  then have cl: "hc_content_length c = - 1" by (rule hc_fresh_fields)
  from assms(2) obtain n where n: "find_headers_end (hc_buf c) = Some n" "http_parse_head n c = (c', False)"
    by (auto simp: http_conn_try_parse_def split: if_splits option.splits prod.splits bool.splits)
  have c': "hc_headers_end c' = int n" "hc_content_length c' = hc_content_length c" "hc_buf c' = hc_buf c"
    using n(2) by (auto simp: http_parse_head_def Let_def split: option.splits prod.splits if_splits)
  have e: "4 \<le> n" "n \<le> length (hc_buf c)" "length (hc_buf c) \<le> HTTP_MAX_REQUEST_SIZE"
    using find_headers_end_append [OF n(1), of "[]"] assms(1) by (auto simp: hc_ok_def)
  have m1: "size_t_of (- 1) = 2 ^ 64 - 1" by (simp add: size_t_of_def)
  have "size_t_of (int (size_t_of (int n)) + int (size_t_of (- 1))) = n - 1"
  proof -
    have "int (size_t_of (int n)) + int (size_t_of (- 1)) = (int n - 1) + 2 ^ 64"
      using e by (simp add: m1 size_t_id HTTP_MAX_REQUEST_SIZE_def)
    then have "size_t_of (int (size_t_of (int n)) + int (size_t_of (- 1))) = nat ((int n - 1) mod 2 ^ 64)"
      unfolding size_t_of_def by (simp only: mod_add_self2)
    also have "(int n - 1) mod 2 ^ 64 = int n - 1" using e by (simp add: HTTP_MAX_REQUEST_SIZE_def)
    finally show ?thesis using e by simp
  qed
  then show ?thesis using c' cl e m1 by (simp add: http_conn_try_parse_def)
qed

theorem http_error_must_be_final_witness:
  "\<exists>c r. http_conn_try_parse (one_shot ([CHR ''x''] @ CRLF @ CRLF)) = (c, HttpError) \<and>
     http_conn_try_parse c = (c, HttpRequest r) \<and> hr_body_len r = 2 ^ 64 - 1"
proof -
  have e: "find_headers_end ([CHR ''x''] @ CRLF @ CRLF) = Some 5" by (simp add: CRLF_def CR_def LF_def)
  obtain c where p: "http_conn_try_parse (one_shot ([CHR ''x''] @ CRLF @ CRLF)) = (c, HttpError)"
    using e by (simp add: http_conn_try_parse_def one_shot_def http_conn_init_def http_parse_head_def
        parse_request_line_def CRLF_def CR_def LF_def)
  have "hc_ok (one_shot ([CHR ''x''] @ CRLF @ CRLF))"
    by (simp add: hc_ok_def one_shot_def http_conn_init_def hc_reset_def HTTP_MAX_REQUEST_SIZE_def CRLF_def)
  from http_error_must_be_final [OF this p] p show ?thesis by blast
qed

text \<open>
  A HEAD answer is the header section of the GET answer, byte for byte: the chunks sent for a
  HEAD with the content length of a body are the first chunk sent for that body, and both fail
  together when the section does not fit.
\<close>

theorem http_head_is_get_without_body:
  assumes "emit header = 0" "header = response_header status status_text content_type (length body) extra (run_hook hook)"
  shows "let (get, rc) = http_write_response_hdrs emit hook status status_text content_type extra body out;
             (head, rc') = http_write_response_head emit hook status status_text content_type extra (length body) out
         in (if length header < 768 then rc' = 0 \<and> ho_sent head = ho_sent out @ [header] \<and>
               ho_sent get = ho_sent head @ (if body = [] then [] else [body])
             else rc = - 1 \<and> rc' = - 1 \<and> ho_sent get = ho_sent out \<and> ho_sent head = ho_sent out) \<and>
            http_last_status get = status \<and> http_last_status head = status"
  using assms(1) unfolding assms(2)
  by (auto simp: http_write_response_hdrs_def http_write_response_head_def write_response_def http_emit_def http_last_status_def
      Let_def)

theorem http_head_is_get_without_body_witness:
  "ho_sent (fst (http_write_response_head (\<lambda>_. 0) None 200 ''OK'' ''text/plain'' None 2 \<lparr>ho_last_status = 0, ho_sent = []\<rparr>)) =
   [response_header 200 ''OK'' ''text/plain'' 2 None []]"
proof -
  have "length (response_header 200 ''OK'' ''text/plain'' (length ''hi'') None (run_hook None)) < 768" by code_simp
  with http_head_is_get_without_body [of "\<lambda>_. 0" _ 200 "''OK''" "''text/plain''" "''hi''" None None "\<lparr>ho_last_status = 0, ho_sent = []\<rparr>", OF refl refl]
  show ?thesis by (auto simp: Let_def case_prod_beta run_hook_def numeral_2_eq_2)
qed

end
