(* ===== verification/Net_Addr.thy ===== *)
theory Net_Addr
  imports Cix_Prelude "HOL-Library.Word"
begin

text \<open>
  IPv4 addresses as the network module uses them: 32-bit words in host byte order (the source
  stores network byte order and converts with \<open>ntohl\<close> at every use), the dotted decimal text of
  \<open>inet_pton\<close> and \<open>inet_ntop\<close>, and the prefix arithmetic at the head of \<open>daemon/src/network.c\<close>.
  The lemmas read the masks as divisions by a power of two, so that a subnet is an interval and two
  prefixes either nest or are disjoint.
\<close>

unbundle bit_operations_syntax

type_synonym ip = "32 word"

section \<open>Text\<close>

fun split_dots :: "string \<Rightarrow> string list" where
  "split_dots [] = [[]]"
| "split_dots (c # s) =
     (if c = CHR ''.'' then [] # split_dots s
      else case split_dots s of [] \<Rightarrow> [[c]] | w # ws \<Rightarrow> (c # w) # ws)"

text \<open>One octet: decimal digits, no leading zero, at most 255.\<close>

definition parse_octet :: "string \<Rightarrow> nat option" where
  "parse_octet s =
     (if s = [] \<or> \<not> list_all is_digit s \<or> (1 < length s \<and> hd s = CHR ''0'') \<or> 255 < digits_val 0 s then None
      else Some (digits_val 0 s))"

definition ip_of_octets :: "nat \<Rightarrow> nat \<Rightarrow> nat \<Rightarrow> nat \<Rightarrow> ip" where
  "ip_of_octets a b c d = word_of_nat (((a * 256 + b) * 256 + c) * 256 + d)"

definition inet_pton :: "string \<Rightarrow> ip option" where
  "inet_pton s =
     (case map parse_octet (split_dots s) of
        [Some a, Some b, Some c, Some d] \<Rightarrow> Some (ip_of_octets a b c d)
      | _ \<Rightarrow> None)"

definition inet_ntop :: "ip \<Rightarrow> string" where
  "inet_ntop x = (let n = unat x in
     nat_dec (n div 256 ^ 3) @ ''.'' @ nat_dec (n div 256 ^ 2 mod 256) @ ''.'' @ nat_dec (n div 256 mod 256) @ ''.'' @
     nat_dec (n mod 256))"

lemma split_dots_nonempty: "split_dots s \<noteq> []"
  by (induction s) (auto split: list.splits)

lemma split_dots_word: "CHR ''.'' \<notin> set w \<Longrightarrow> split_dots (w @ CHR ''.'' # s) = w # split_dots s"
  by (induction w) auto

lemma split_dots_last: "CHR ''.'' \<notin> set w \<Longrightarrow> split_dots w = [w]"
  by (induction w) auto

lemma nat_dec_no_dot: "CHR ''.'' \<notin> set (nat_dec n)"
  using nat_dec_digits [of "CHR ''.''" n] by (auto simp: is_digit_iff)

lemma nat_dec_hd_zero: "hd (nat_dec n) = CHR ''0'' \<Longrightarrow> length (nat_dec n) = 1"
proof (induction n rule: nat_dec.induct)
  case (1 n)
  show ?case
  proof (cases "n < 10")
    case True
    then show ?thesis by (simp add: nat_dec.simps)
  next
    case False
    then have d: "nat_dec n = nat_dec (n div 10) @ [digit_char (n mod 10)]" by (subst nat_dec.simps) simp
    then have "hd (nat_dec (n div 10)) = CHR ''0''" using "1.prems" by simp
    with "1.IH" [OF False] have "length (nat_dec (n div 10)) = 1" by simp
    then obtain c where c: "nat_dec (n div 10) = [c]" by (auto simp: length_Suc_conv)
    with \<open>hd (nat_dec (n div 10)) = CHR ''0''\<close> have "digits_val 0 (nat_dec (n div 10)) = 0"
      by (simp add: digit_val_def)
    with False show ?thesis by simp
  qed
qed

lemma parse_octet_nat_dec: "n \<le> 255 \<Longrightarrow> parse_octet (nat_dec n) = Some n"
  using nat_dec_hd_zero [of n] nat_dec_digits [of _ n] by (auto simp: parse_octet_def list_all_iff)

lemma inet_pton_ntop [simp]: "inet_pton (inet_ntop x) = Some x"
proof -
  define n where "n = unat x"
  have n: "n < 2 ^ 32" using unsigned_less [of x] by (simp add: n_def)
  have split: "split_dots (inet_ntop x) =
      [nat_dec (n div 256 ^ 3), nat_dec (n div 256 ^ 2 mod 256), nat_dec (n div 256 mod 256), nat_dec (n mod 256)]"
    using nat_dec_no_dot by (simp add: inet_ntop_def n_def [symmetric] split_dots_word split_dots_last)
  have "n div 256 ^ 3 \<le> 255" using n by simp
  moreover have "n div 256 ^ 2 mod 256 \<le> 255" "n div 256 mod 256 \<le> 255" "n mod 256 \<le> 255"
    using mod_less_divisor [of 256] by (simp_all add: less_Suc_eq_le [symmetric])
  moreover have "((n div 256 ^ 3 * 256 + n div 256 ^ 2 mod 256) * 256 + n div 256 mod 256) * 256 + n mod 256 = n"
  proof -
    have "n div 256 ^ 3 = n div 256 div 256 div 256" "n div 256 ^ 2 = n div 256 div 256"
      using div_mult2_eq [of n 256 256] div_mult2_eq [of n "256 * 256" 256] by (simp_all add: power2_eq_square power3_eq_cube)
    then show ?thesis by (simp only: div_mult_mod_eq)
  qed
  ultimately show ?thesis
    by (simp add: inet_pton_def split parse_octet_nat_dec ip_of_octets_def n_def)
qed

lemma is_c_str_inet_ntop [simp]: "is_c_str (inet_ntop x)"
  by (simp add: inet_ntop_def Let_def NUL_def)

section \<open>Prefixes\<close>

definition mask_for_prefix :: "int \<Rightarrow> ip" where
  "mask_for_prefix prefix_len = (if prefix_len \<le> 0 then 0 else push_bit (nat (32 - prefix_len)) 0xFFFFFFFF)"

definition host_max_for_prefix :: "int \<Rightarrow> int" where
  "host_max_for_prefix prefix_len = uint (push_bit (nat (32 - prefix_len)) (1 :: ip)) - 2"

definition ranges_overlap :: "ip \<Rightarrow> int \<Rightarrow> ip \<Rightarrow> int \<Rightarrow> bool" where
  "ranges_overlap a_base a_prefix b_base b_prefix =
     (let common = (if a_prefix < b_prefix then a_prefix else b_prefix); mask = mask_for_prefix common
      in a_base AND mask = b_base AND mask)"

text \<open>The addresses of a prefix.\<close>

definition subnet :: "ip \<Rightarrow> int \<Rightarrow> ip set" where
  "subnet base prefix_len = {a. a AND mask_for_prefix prefix_len = base}"

lemma mask_ones:
  assumes "0 < p"
  shows "mask_for_prefix p = push_bit (nat (32 - p)) (- 1)"
proof -
  have "mask_for_prefix p = push_bit (nat (32 - p)) 0xFFFFFFFF" using assms by (simp add: mask_for_prefix_def)
  also have "(0xFFFFFFFF :: ip) = - 1" by simp
  finally show ?thesis .
qed

lemma mask_and_nat:
  assumes "0 < p" "p \<le> 32"
  shows "unat (a AND mask_for_prefix p) = unat a div 2 ^ nat (32 - p) * 2 ^ nat (32 - p)"
proof -
  let ?n = "nat (32 - p)"
  have "a AND mask_for_prefix p = push_bit ?n (drop_bit ?n a)"
    using assms by (intro bit_word_eqI) (auto simp: mask_ones bit_simps)
  moreover have "unat (push_bit ?n (drop_bit ?n a)) = push_bit ?n (drop_bit ?n (unat a))"
  proof -
    have "push_bit ?n (drop_bit ?n (unat a)) \<le> unat a" by (simp add: push_bit_eq_mult drop_bit_eq_div)
    then have "push_bit ?n (drop_bit ?n (unat a)) < 2 ^ 32" using unsigned_less [of a, where ?'a = nat] by simp
    moreover have "take_bit 32 (unat a) = unat a" using unsigned_less [of a, where ?'a = nat] by (simp add: take_bit_nat_eq_self)
    ultimately show ?thesis by (simp add: unsigned_push_bit_eq unsigned_drop_bit_eq take_bit_nat_eq_self)
  qed
  ultimately show ?thesis by (simp add: push_bit_eq_mult drop_bit_eq_div)
qed

lemma and_mask_interval:
  assumes "0 < p" "p \<le> 32" "b AND mask_for_prefix p = b"
  shows "a AND mask_for_prefix p = b \<longleftrightarrow> unat b \<le> unat a \<and> unat a < unat b + 2 ^ nat (32 - p)"
proof -
  let ?m = "2 ^ nat (32 - p) :: nat"
  have "a AND mask_for_prefix p = b \<longleftrightarrow> unat a div ?m * ?m = unat b div ?m * ?m"
    using assms by (metis mask_and_nat word_unat_eq_iff)
  moreover have b: "unat b div ?m * ?m = unat b" using assms by (metis mask_and_nat)
  moreover have "unat a div ?m * ?m = unat b \<longleftrightarrow> unat b \<le> unat a \<and> unat a < unat b + ?m"
  proof
    assume "unat a div ?m * ?m = unat b"
    then show "unat b \<le> unat a \<and> unat a < unat b + ?m"
      using div_mult_mod_eq [of "unat a" ?m] mod_less_divisor [of ?m "unat a"] by (auto simp del: mod_less_divisor)
  next
    assume h: "unat b \<le> unat a \<and> unat a < unat b + ?m"
    obtain q where q: "unat b = q * ?m" using b by metis
    with h have "unat a div ?m = q" by (intro div_nat_eqI) (auto simp: algebra_simps)
    with q show "unat a div ?m * ?m = unat b" by simp
  qed
  ultimately show ?thesis by simp
qed

lemma host_max_nat:
  assumes "0 < p" "p \<le> 32"
  shows "host_max_for_prefix p = 2 ^ nat (32 - p) - 2"
proof -
  have "(2 :: int) ^ nat (32 - p) < 2 ^ 32" using assms by (intro power_strict_increasing) auto
  then show ?thesis
    unfolding host_max_for_prefix_def unsigned_push_bit_eq
    using assms by (simp add: push_bit_eq_mult take_bit_int_eq_self)
qed

text \<open>A base address is aligned when it has no host part.\<close>

definition aligned :: "ip \<Rightarrow> int \<Rightarrow> bool" where
  "aligned base prefix_len = (base AND NOT (mask_for_prefix prefix_len) = 0)"

lemma aligned_iff: "aligned b p \<longleftrightarrow> b AND mask_for_prefix p = b"
proof -
  have "b AND NOT m = 0 \<longleftrightarrow> b AND m = b" for m :: ip
    by (auto simp: bit_eq_iff bit_simps)
  then show ?thesis by (simp add: aligned_def)
qed

lemma mask_mask: "0 < p \<Longrightarrow> p \<le> q \<Longrightarrow> q \<le> 32 \<Longrightarrow> (a AND mask_for_prefix q) AND mask_for_prefix p = a AND mask_for_prefix p"
  by (intro bit_word_eqI) (auto simp: mask_ones bit_simps)

lemma overlap_nested:
  assumes "aligned a p" "aligned b q" "0 < p" "p \<le> q" "q \<le> 32"
  shows "a AND mask_for_prefix p = b AND mask_for_prefix p \<longleftrightarrow> subnet a p \<inter> subnet b q \<noteq> {}"
proof
  assume "a AND mask_for_prefix p = b AND mask_for_prefix p"
  with assms(1,2) have "b \<in> subnet a p \<inter> subnet b q" by (simp add: subnet_def aligned_iff)
  then show "subnet a p \<inter> subnet b q \<noteq> {}" by blast
next
  assume "subnet a p \<inter> subnet b q \<noteq> {}"
  then obtain x where "x AND mask_for_prefix p = a" "x AND mask_for_prefix q = b" by (auto simp: subnet_def)
  with mask_mask [OF assms(3-5), of x] assms(1) show "a AND mask_for_prefix p = b AND mask_for_prefix p"
    by (simp add: aligned_iff)
qed

text \<open>The overlap test of the source decides whether two aligned subnets share an address.\<close>

lemma ranges_overlap_iff:
  assumes "aligned a p" "aligned b q" "0 < p" "p \<le> 32" "0 < q" "q \<le> 32"
  shows "ranges_overlap a p b q \<longleftrightarrow> subnet a p \<inter> subnet b q \<noteq> {}"
proof (cases "p < q")
  case True
  with overlap_nested [of a p b q] assms show ?thesis by (simp add: ranges_overlap_def)
next
  case False
  with overlap_nested [of b q a p] assms show ?thesis by (auto simp: ranges_overlap_def Int_commute)
qed

text \<open>The host part of an address of the subnet.\<close>

lemma subnet_host_part:
  assumes "aligned b p" "0 < p" "p \<le> 32"
  shows "a \<in> subnet b p \<longleftrightarrow> unat b \<le> unat a \<and> unat a - unat b < 2 ^ nat (32 - p)"
  using and_mask_interval [of p b a] assms by (auto simp: subnet_def aligned_iff)

lemma unat_host_part: "unat b \<le> unat a \<Longrightarrow> unat (a - b :: ip) = unat a - unat b"
  by (simp add: unat_sub_if')

text \<open>Or-ing a small host part onto an aligned base adds it.\<close>

lemma or_host:
  assumes "aligned b p" "0 < p" "p \<le> 32" "h < 2 ^ nat (32 - p)"
  shows "unat (b OR word_of_nat h) = unat b + h"
proof -
  have "nat (32 - p) \<le> 32" using assms(2) by simp
  then have h32: "h < 2 ^ 32" using assms(4) power_increasing [of "nat (32 - p)" 32 "2::nat"] by simp
  have "b AND word_of_nat h = 0"
  proof (rule bit_word_eqI)
    fix n assume n: "n < LENGTH(32)"
    have "\<not> bit b n" if "n < nat (32 - p)"
    proof -
      have "bit b n = bit (b AND mask_for_prefix p) n" using assms(1) by (simp add: aligned_iff)
      with that assms(2) show ?thesis by (auto simp: mask_ones bit_simps)
    qed
    moreover have "\<not> bit h n" if "nat (32 - p) \<le> n"
      using assms(4) that by (metis bit_take_bit_iff not_less take_bit_nat_eq_self)
    ultimately show "bit (b AND word_of_nat h) n = bit (0 :: ip) n"
      using n by (cases "n < nat (32 - p)") (auto simp: bit_simps)
  qed
  then have "b OR word_of_nat h = b + word_of_nat h" by (simp add: disjunctive_add_eq_or)
  moreover have "unat b + h < 2 ^ 32"
  proof -
    let ?m = "2 ^ nat (32 - p) :: nat"
    obtain q where q: "unat b = q * ?m" using mask_and_nat [of p b] assms by (auto simp: aligned_iff)
    have e: "(2::nat) ^ 32 = 2 ^ nat p * ?m" using assms by (simp add: power_add [symmetric] nat_add_distrib [symmetric])
    with q have "q * ?m < 2 ^ nat p * ?m" using unsigned_less [of b, where ?'a = nat] by simp
    then have "(q + 1) * ?m \<le> 2 ^ nat p * ?m" by (intro mult_le_mono1) simp
    with e q assms(4) show ?thesis by simp
  qed
  ultimately show ?thesis using h32 by (simp add: unat_word_ariths take_bit_nat_eq_self unsigned_of_nat)
qed

text \<open>The host part as the signed integer the source compares.\<close>

lemma sint_host_part:
  assumes "aligned b p" "8 \<le> p" "p \<le> 32" "a \<in> subnet b p"
  shows "sint (a - b) = int (unat a - unat b)" "unat a - unat b < 2 ^ nat (32 - p)"
proof -
  have le: "unat b \<le> unat a" and lt: "unat a - unat b < 2 ^ nat (32 - p)"
    using subnet_host_part [OF assms(1), of a] assms(2-4) by auto
  have "(2 :: nat) ^ nat (32 - p) \<le> 2 ^ 24" using assms(2) by (intro power_increasing) auto
  with lt have "unat a - unat b < 2 ^ 24" by simp
  moreover have u: "uint (a - b) = int (unat a - unat b)"
    unfolding unat_host_part [OF le, symmetric] by simp
  ultimately have "uint (a - b) < 2 ^ 24" by simp
  then have "sint (a - b) = uint (a - b)"
    unfolding sint_uint by (intro signed_take_bit_int_eq_self) (rule order_trans [OF _ uint_ge_0], simp_all)
  with u show "sint (a - b) = int (unat a - unat b)" by simp
  show "unat a - unat b < 2 ^ nat (32 - p)" by (rule lt)
qed

text \<open>What evaluates a concrete dotted address, and a concrete prefix.\<close>

lemmas inet_pton_eval = inet_pton_def parse_octet_def is_digit_iff digit_val_def ip_of_octets_def

lemma prefix_24 [simp]: "mask_for_prefix 24 = 0xFFFFFF00" "host_max_for_prefix 24 = 254"
  by (simp_all add: mask_for_prefix_def push_bit_eq_mult host_max_nat)

end
