(* ===== verification/Registry_Addr.thy ===== *)
theory Registry_Addr
  imports Net_Addr
begin

text \<open>
  The part of \<open>daemon/src/registry.c\<close> the other modules ask questions of: which running container
  uses a network, an image or an address, and the search for a free address.  Of a registry entry
  only the fields these functions read are kept.  The locale \<open>address_pool\<close> is the contract the
  network module relies on; its interpretation on the registry follows.
\<close>

section \<open>Entries\<close>

definition REGISTRY_TEARDOWN_NONE :: int where "REGISTRY_TEARDOWN_NONE = 0"

record net_attachment =
  na_name :: string
  na_ip :: ip
  na_veth_host :: string

text \<open>The attachments are the first \<open>net_count\<close> of the array.\<close>

record registry_entry =
  reg_in_use :: bool
  reg_name :: string
  reg_image :: string
  reg_pid :: int
  reg_teardown_kind :: int
  reg_nets :: "net_attachment list"

type_synonym registry = "registry_entry list"

definition registry_find :: "registry \<Rightarrow> string \<Rightarrow> nat option" where
  "registry_find r name = find_index (\<lambda>e. reg_in_use e \<and> reg_name e = name) r"

definition registry_network_in_use :: "registry \<Rightarrow> string \<Rightarrow> bool" where
  "registry_network_in_use r network_name =
     list_ex (\<lambda>e. reg_in_use e \<and> list_ex (\<lambda>n. na_name n = network_name) (reg_nets e)) r"

definition registry_image_in_use :: "registry \<Rightarrow> string \<Rightarrow> bool" where
  "registry_image_in_use r img = list_ex (\<lambda>e. reg_in_use e \<and> reg_image e = img) r"

section \<open>Addresses\<close>

definition ip_in_use :: "registry \<Rightarrow> ip \<Rightarrow> bool" where
  "ip_in_use r candidate =
     list_ex (\<lambda>e. reg_in_use e \<and> list_ex (\<lambda>n. na_ip n = candidate) (reg_nets e)) r"

text \<open>The loop over host parts; \<open>None\<close> is the return value \<open>-1\<close>.\<close>

function registry_alloc_ip :: "registry \<Rightarrow> ip \<Rightarrow> int \<Rightarrow> int \<Rightarrow> ip \<Rightarrow> ip option" where
  "registry_alloc_ip r base host host_max exclude =
     (if host_max < host then None
      else let candidate = base OR word_of_int host in
        if candidate = exclude then registry_alloc_ip r base (host + 1) host_max exclude
        else if \<not> ip_in_use r candidate then Some candidate
        else registry_alloc_ip r base (host + 1) host_max exclude)"
  by pat_completeness auto
termination
  by (relation "measure (\<lambda>(r, base, host, host_max, exclude). nat (host_max + 1 - host))") auto

declare registry_alloc_ip.simps [simp del]

definition registry_ip_available :: "registry \<Rightarrow> ip \<Rightarrow> bool" where
  "registry_ip_available r candidate = (\<not> ip_in_use r candidate)"

text \<open>
  The holder's name and whether it is being torn down; \<open>None\<close> is the return value \<open>0\<close>.  The
  name is cut to the caller's buffer.
\<close>

definition registry_ip_holder :: "registry \<Rightarrow> ip \<Rightarrow> nat \<Rightarrow> (string \<times> bool) option" where
  "registry_ip_holder r candidate out_name_size =
     (case find_index (\<lambda>e. reg_in_use e \<and> list_ex (\<lambda>n. na_ip n = candidate) (reg_nets e)) r of
        None \<Rightarrow> None
      | Some i \<Rightarrow> Some (snprintf_s out_name_size (reg_name (r ! i)), reg_teardown_kind (r ! i) \<noteq> REGISTRY_TEARDOWN_NONE))"

text \<open>The host side of a container's attachment: its own name, or one derived from the child's pid.\<close>

definition container_veth_host_name :: "registry_entry \<Rightarrow> nat \<Rightarrow> nat \<Rightarrow> string" where
  "container_veth_host_name e idx out_size =
     (if na_veth_host (reg_nets e ! idx) \<noteq> [] then snprintf_s out_size (na_veth_host (reg_nets e ! idx))
      else snprintf_s out_size (''vh'' @ int_dec (reg_pid e) @ ''-'' @ nat_dec idx))"

section \<open>The contract of the address search\<close>

locale address_pool =
  fixes taken :: "'r \<Rightarrow> ip \<Rightarrow> bool"
    and alloc :: "'r \<Rightarrow> ip \<Rightarrow> int \<Rightarrow> int \<Rightarrow> ip \<Rightarrow> ip option"
    and available :: "'r \<Rightarrow> ip \<Rightarrow> bool"
  assumes available_iff: "available r a \<longleftrightarrow> \<not> taken r a"
    and alloc_Some: "alloc r base lo hi excl = Some a \<Longrightarrow>
      \<exists>h. lo \<le> h \<and> h \<le> hi \<and> a = base OR word_of_int h \<and> a \<noteq> excl \<and> \<not> taken r a \<and>
        (\<forall>h'. lo \<le> h' \<and> h' < h \<longrightarrow> base OR word_of_int h' = excl \<or> taken r (base OR word_of_int h'))"
    and alloc_None: "alloc r base lo hi excl = None \<Longrightarrow> lo \<le> h \<Longrightarrow> h \<le> hi \<Longrightarrow>
      base OR word_of_int h = excl \<or> taken r (base OR word_of_int h)"
begin

text \<open>The search succeeds exactly when some candidate is free.\<close>

lemma alloc_defined_iff:
  "(\<exists>a. alloc r base lo hi excl = Some a) \<longleftrightarrow>
     (\<exists>h. lo \<le> h \<and> h \<le> hi \<and> base OR word_of_int h \<noteq> excl \<and> available r (base OR word_of_int h))"
proof (cases "alloc r base lo hi excl")
  case None
  then show ?thesis using alloc_None [OF None] available_iff by auto
next
  case (Some a)
  then show ?thesis using alloc_Some [OF Some] available_iff by auto
qed

lemma alloc_available: "alloc r base lo hi excl = Some a \<Longrightarrow> available r a \<and> a \<noteq> excl"
  using alloc_Some available_iff by blast

text \<open>Under an aligned base the result is the lowest free host part of the window.\<close>

lemma alloc_lowest:
  assumes "aligned base p" "0 < p" "p \<le> 32" "0 \<le> lo" "hi < 2 ^ nat (32 - p)" "alloc r base lo hi excl = Some a"
  shows "\<exists>h. lo \<le> h \<and> h \<le> hi \<and> unat a = unat base + nat h \<and> a \<in> subnet base p \<and>
    (\<forall>b \<in> subnet base p. unat base + nat lo \<le> unat b \<and> unat b < unat a \<longrightarrow> b = excl \<or> \<not> available r b)"
proof -
  obtain h where h: "lo \<le> h" "h \<le> hi" "a = base OR word_of_int h"
    and least: "\<And>h'. lo \<le> h' \<Longrightarrow> h' < h \<Longrightarrow> base OR word_of_int h' = excl \<or> taken r (base OR word_of_int h')"
    using alloc_Some [OF assms(6)] by blast
  have host: "unat (base OR word_of_int k) = unat base + nat k" if "lo \<le> k" "k \<le> hi" for k
  proof -
    have "nat k < 2 ^ nat (32 - p)" using that assms(4,5) by (simp add: nat_less_iff)
    then have "unat (base OR word_of_nat (nat k)) = unat base + nat k" by (rule or_host [OF assms(1-3)])
    with that assms(4) show ?thesis by simp
  qed
  have a: "unat a = unat base + nat h" using host [OF h(1,2)] h(3) by simp
  have "nat h < 2 ^ nat (32 - p)" using h(1,2) assms(4,5) by (simp add: nat_less_iff)
  then have "a \<in> subnet base p" using a subnet_host_part [OF assms(1-3), of a] by simp
  moreover have "b = excl \<or> \<not> available r b" if b: "unat base + nat lo \<le> unat b" "unat b < unat a" for b
  proof -
    define n where "n = unat b - unat base"
    have n: "unat b = unat base + n" "nat lo \<le> n" "n < nat h" using b a by (simp_all add: n_def)
    define k where "k = int n"
    have k: "lo \<le> k" "k < h" using n(2,3) by (simp_all add: k_def nat_le_iff zless_nat_eq_int_zless)
    then have "unat (base OR word_of_int k) = unat b" using host [of k] h(2) n(1) by (simp add: k_def)
    then have "b = base OR word_of_int k" by (simp add: word_unat_eq_iff)
    with least [OF k] available_iff show ?thesis by simp
  qed
  ultimately show ?thesis using h a by blast
qed

end

lemma registry_alloc_Some:
  "registry_alloc_ip r base lo hi excl = Some a \<Longrightarrow>
      \<exists>h. lo \<le> h \<and> h \<le> hi \<and> a = base OR word_of_int h \<and> a \<noteq> excl \<and> \<not> ip_in_use r a \<and>
        (\<forall>h'. lo \<le> h' \<and> h' < h \<longrightarrow> base OR word_of_int h' = excl \<or> ip_in_use r (base OR word_of_int h'))"
proof (induction r base lo hi excl rule: registry_alloc_ip.induct)
  case (1 r base lo hi excl)
  let ?c = "base OR word_of_int lo"
  show ?case
  proof (cases "?c \<noteq> excl \<and> \<not> ip_in_use r ?c")
    case True
    with "1.prems" have "lo \<le> hi" "a = ?c" by (auto simp: registry_alloc_ip.simps [of r base lo] Let_def split: if_splits)
    with True show ?thesis by (intro exI [of _ lo]) auto
  next
    case False
    with "1.prems" have n: "lo \<le> hi" "registry_alloc_ip r base (lo + 1) hi excl = Some a"
      by (auto simp: registry_alloc_ip.simps [of r base lo] Let_def split: if_splits)
    then have "\<exists>h. lo + 1 \<le> h \<and> h \<le> hi \<and> a = base OR word_of_int h \<and> a \<noteq> excl \<and> \<not> ip_in_use r a \<and>
        (\<forall>h'. lo + 1 \<le> h' \<and> h' < h \<longrightarrow> base OR word_of_int h' = excl \<or> ip_in_use r (base OR word_of_int h'))"
      using False "1.IH" by (cases "?c = excl") auto
    then obtain h where h: "lo + 1 \<le> h" "h \<le> hi" "a = base OR word_of_int h" "a \<noteq> excl" "\<not> ip_in_use r a"
      "\<And>h'. lo + 1 \<le> h' \<Longrightarrow> h' < h \<Longrightarrow> base OR word_of_int h' = excl \<or> ip_in_use r (base OR word_of_int h')"
      by blast
    have "base OR word_of_int h' = excl \<or> ip_in_use r (base OR word_of_int h')" if "lo \<le> h'" "h' < h" for h'
      using h(6) [of h'] that False by (cases "h' = lo") auto
    with h show ?thesis by (intro exI [of _ h]) auto
  qed
qed

lemma registry_alloc_None:
  "registry_alloc_ip r base lo hi excl = None \<Longrightarrow> lo \<le> h \<Longrightarrow> h \<le> hi \<Longrightarrow>
     base OR word_of_int h = excl \<or> ip_in_use r (base OR word_of_int h)"
proof (induction r base lo hi excl rule: registry_alloc_ip.induct)
  case (1 r base lo hi excl)
  show ?case
  proof (cases "h = lo")
    case True
    with "1.prems" show ?thesis by (auto simp: registry_alloc_ip.simps [of r base lo] Let_def split: if_splits)
  next
    case False
    with "1.prems" have "registry_alloc_ip r base (lo + 1) hi excl = None" "lo + 1 \<le> h"
      by (auto simp: registry_alloc_ip.simps [of r base lo] Let_def split: if_splits)
    with "1.IH" "1.prems" show ?thesis
      by (cases "base OR word_of_int lo = excl") (auto simp: registry_alloc_ip.simps [of r base lo] Let_def split: if_splits)
  qed
qed

interpretation reg: address_pool ip_in_use registry_alloc_ip registry_ip_available
  using registry_alloc_Some registry_alloc_None by unfold_locales (auto simp: registry_ip_available_def)

text \<open>The holder report agrees with the availability test.\<close>

lemma registry_ip_holder_iff: "registry_ip_holder r a n = None \<longleftrightarrow> registry_ip_available r a"
proof -
  let ?p = "\<lambda>e. reg_in_use e \<and> list_ex (\<lambda>n. na_ip n = a) (reg_nets e)"
  have "find_index ?p r = None \<longleftrightarrow> \<not> list_ex ?p r" by (simp add: find_index_None list_ex_iff)
  then show ?thesis
    by (cases "find_index ?p r") (simp_all add: registry_ip_holder_def registry_ip_available_def ip_in_use_def)
qed

end
