(* ===== verification/Network.thy ===== *)
theory Network
  imports Persist Registry_Addr
begin

text \<open>
  \<open>daemon/src/network.c\<close>: the table of networks, each a kernel bridge with a subnet, the derived
  management network, and the allocation of container addresses.

  The file's static variables, the file systems its saves leave behind and the netlink calls made so
  far are one state record.  The kernel is a parameter: a function that answers each netlink call
  from the calls before it, so it may refuse any of them at any time.  The device inventory
  (\<open>daemon/src/device.c\<close>, a walk over sysfs) is a parameter too.  The return values are the
  source's \<open>enum network_error\<close>; \<open>None\<close> would be a write past the JSON writer's arrays, and the
  lemmas show that it does not happen.
\<close>

section \<open>State\<close>

definition NETWORK_MAX :: nat where "NETWORK_MAX = 64"
definition NETWORK_NAME_MAX :: nat where "NETWORK_NAME_MAX = 16"
definition NETWORK_MAX_INTERFACES :: nat where "NETWORK_MAX_INTERFACES = 8"
definition NETWORK_IFNAME_MAX :: nat where "NETWORK_IFNAME_MAX = 16"

datatype network_error = NETWORK_OK | NETWORK_ERR_INVALID_NAME | NETWORK_ERR_INVALID_SUBNET
  | NETWORK_ERR_INVALID_ADDRESS | NETWORK_ERR_DUPLICATE | NETWORK_ERR_OVERLAP | NETWORK_ERR_FULL
  | NETWORK_ERR_CREATE_FAILED | NETWORK_ERR_NOT_FOUND | NETWORK_ERR_IN_USE | NETWORK_ERR_DELETE_FAILED
  | NETWORK_ERR_IP_OUT_OF_RANGE | NETWORK_ERR_IP_TAKEN | NETWORK_ERR_INTERFACE_NOT_FOUND
  | NETWORK_ERR_INTERFACE_ATTACHED | NETWORK_ERR_INTERFACE_NOT_ATTACHED | NETWORK_ERR_INTERFACE_FULL
  | NETWORK_ERR_INTERFACE_NAME_TOO_LONG | NETWORK_ERR_IS_MANAGEMENT

record network_attached_interface =
  ai_ifname :: string
  ai_vlan_id :: int

text \<open>The attached interfaces are the first \<open>interface_count\<close> of the array.\<close>

record network_def =
  nd_name :: string
  nd_base :: ip
  nd_prefix_len :: int
  nd_has_address :: bool
  nd_address :: ip
  nd_interfaces :: "network_attached_interface list"
  nd_in_use :: bool
  nd_alloc_start_host :: int
  nd_alloc_end_host :: int

definition blank_network :: network_def where
  "blank_network = \<lparr>nd_name = [], nd_base = 0, nd_prefix_len = 0, nd_has_address = False, nd_address = 0,
     nd_interfaces = [], nd_in_use = False, nd_alloc_start_host = 0, nd_alloc_end_host = 0\<rparr>"

text \<open>Netlink requests and the kernel's answers (\<open>RtExist\<close> is \<open>EEXIST\<close>).\<close>

datatype rt_call = RtOpen | RtBridgeCreate string | RtAddrAdd string ip int | RtLinkUp string
  | RtLinkDelete string | RtVlanCreate string string int | RtSetMaster string string | RtClearMaster string

datatype rt_result = RtOk | RtExist | RtFail

type_synonym rt_log = "(rt_call \<times> rt_result) list"
type_synonym kernel = "rt_log \<Rightarrow> rt_call \<Rightarrow> rt_result"

record netstate =
  ns_state_path :: string
  ns_networks :: "network_def list"
  ns_have_mgmt :: bool
  ns_mgmt_address :: ip
  ns_have_legacy_mgmt :: bool
  ns_legacy_mgmt_address :: ip
  ns_fs :: "fs list"
  ns_log :: rt_log

text \<open>The outcome of a request that may be refused, and the log after it.\<close>

definition rtnl :: "kernel \<Rightarrow> rt_call \<Rightarrow> rt_log \<Rightarrow> rt_result \<times> rt_log" where
  "rtnl kern c lg = (kern lg c, (c, kern lg c) # lg)"

section \<open>Predicates\<close>

definition network_name_is_valid :: "string option \<Rightarrow> bool" where
  "network_name_is_valid name = simple_name_is_valid name NETWORK_NAME_MAX"

definition network_ifname_is_valid :: "string option \<Rightarrow> bool" where
  "network_ifname_is_valid ifname = simple_name_is_valid ifname NETWORK_IFNAME_MAX"

definition net_contains :: "network_def \<Rightarrow> ip \<Rightarrow> bool" where
  "net_contains net address = (address AND mask_for_prefix (nd_prefix_len net) = nd_base net)"

definition net_is_management :: "netstate \<Rightarrow> network_def \<Rightarrow> bool" where
  "net_is_management ns net = (ns_have_mgmt ns \<and> nd_in_use net \<and> net_contains net (ns_mgmt_address ns))"

section \<open>Documents\<close>

definition write_interface :: "json_writer \<Rightarrow> network_attached_interface \<Rightarrow> json_writer option" where
  "write_interface w i =
     do { w \<leftarrow> jw_obj_open w;
          w \<leftarrow> jw_key w ''ifname'';
          w \<leftarrow> jw_str w (ai_ifname i);
          w \<leftarrow> jw_key w ''vlan_id'';
          w \<leftarrow> jw_int w (ai_vlan_id i);
          Some (jw_obj_close w) }"

definition write_one :: "netstate \<Rightarrow> bool \<Rightarrow> json_writer \<Rightarrow> network_def \<Rightarrow> json_writer option" where
  "write_one ns for_api w net =
     do { w \<leftarrow> jw_obj_open w;
          w \<leftarrow> jw_key w ''name'';
          w \<leftarrow> jw_str w (nd_name net);
          w \<leftarrow> jw_key w ''subnet'';
          w \<leftarrow> jw_str w (inet_ntop (nd_base net));
          w \<leftarrow> jw_key w ''prefix_len'';
          w \<leftarrow> jw_int w (nd_prefix_len net);
          w \<leftarrow> jw_key w ''has_address'';
          w \<leftarrow> jw_bool w (nd_has_address net);
          w \<leftarrow> (if for_api then do { w \<leftarrow> jw_key w ''management''; jw_bool w (net_is_management ns net) } else Some w);
          w \<leftarrow> jw_key w ''alloc_start_host'';
          w \<leftarrow> (if 0 < nd_alloc_start_host net then jw_int w (nd_alloc_start_host net) else jw_null w);
          w \<leftarrow> jw_key w ''alloc_end_host'';
          w \<leftarrow> (if 0 < nd_alloc_end_host net then jw_int w (nd_alloc_end_host net) else jw_null w);
          w \<leftarrow> jw_key w ''address'';
          w \<leftarrow> (if nd_has_address net then jw_str w (inet_ntop (nd_address net)) else jw_null w);
          w \<leftarrow> jw_key w ''interfaces'';
          w \<leftarrow> jw_arr_open w;
          w \<leftarrow> jw_each write_interface w (nd_interfaces net);
          Some (jw_obj_close (jw_arr_close w)) }"

definition network_write_json_one :: "netstate \<Rightarrow> network_def \<Rightarrow> json_writer \<Rightarrow> json_writer option" where
  "network_write_json_one ns net w = write_one ns True w net"

definition write_list :: "netstate \<Rightarrow> bool \<Rightarrow> json_writer \<Rightarrow> json_writer option" where
  "write_list ns for_api w =
     do { w \<leftarrow> jw_arr_open w;
          w \<leftarrow> jw_each (write_one ns for_api) w (filter nd_in_use (ns_networks ns));
          Some (jw_arr_close w) }"

definition network_write_json_list :: "netstate \<Rightarrow> json_writer \<Rightarrow> json_writer option" where
  "network_write_json_list ns w = write_list ns True w"

definition save_state :: "write_env \<Rightarrow> netstate \<Rightarrow> (netstate \<times> int) option" where
  "save_state env ns =
     do { w \<leftarrow> write_list ns False (jw_init blank_writer);
          let (visited, rc) = persist_atomic_write env (ns_state_path ns) (jw_buf w) (hd (ns_fs ns));
          Some (ns\<lparr>ns_fs := visited @ tl (ns_fs ns)\<rparr>, rc) }"

section \<open>Loading\<close>

definition is_true :: "json option \<Rightarrow> bool" where
  "is_true v = (case v of Some (JBool b) \<Rightarrow> b | _ \<Rightarrow> False)"

text \<open>\<open>(int)json_as_number(v)\<close> of a number, \<open>0\<close> of anything else.\<close>

definition number_or_zero :: "json option \<Rightarrow> int" where
  "number_or_zero v = (case v of Some (JNumber d) \<Rightarrow> d2i d | _ \<Rightarrow> 0)"

text \<open>The interfaces read before the loop ends, and whether it ended with \<open>return -1\<close>.\<close>

fun parse_persisted_interfaces :: "json list \<Rightarrow> network_attached_interface list \<times> bool" where
  "parse_persisted_interfaces [] = ([], True)"
| "parse_persisted_interfaces (jent # rest) =
     (let ifname = json_as_string (json_object_get (Some jent) ''ifname'');
          jvlan = json_object_get (Some jent) ''vlan_id''
      in if \<not> network_ifname_is_valid ifname \<or> jvlan = None then ([], False)
         else let (ifs, ok) = parse_persisted_interfaces rest
           in (\<lparr>ai_ifname = snprintf_s NETWORK_IFNAME_MAX (the ifname), ai_vlan_id = d2i (json_as_number jvlan)\<rparr> # ifs, ok))"

definition parse_persisted_address :: "json \<Rightarrow> ip \<Rightarrow> (bool \<times> ip) option" where
  "parse_persisted_address item addr =
     (case json_object_get (Some item) ''has_address'' of
        None \<Rightarrow> Some (True, addr OR 1)
      | Some jhas_addr \<Rightarrow>
          if \<not> is_true (Some jhas_addr) then Some (False, 0)
          else case json_as_string (json_object_get (Some item) ''address'') of
            None \<Rightarrow> None
          | Some a \<Rightarrow> map_option (\<lambda>x. (True, x)) (inet_pton a))"

text \<open>
  The checks before the slot is cleared: the name, the prefix length, the base, and the host-owned
  address.
\<close>

definition parse_persisted_head :: "json \<Rightarrow> network_def list \<Rightarrow> (string \<times> int \<times> ip \<times> bool \<times> ip) option" where
  "parse_persisted_head item earlier =
     (let name = json_as_string (json_object_get (Some item) ''name'');
          subnet = json_as_string (json_object_get (Some item) ''subnet'');
          jprefix = json_object_get (Some item) ''prefix_len'';
          prefix_len = d2i (json_as_number jprefix)
      in if \<not> network_name_is_valid name \<or> subnet = None \<or> jprefix = None then None
         else if prefix_len < 8 \<or> 30 < prefix_len then None
         else do {
           addr \<leftarrow> inet_pton (the subnet);
           if addr AND NOT (mask_for_prefix prefix_len) \<noteq> 0 then None
           else do {
             (has_address, address) \<leftarrow> parse_persisted_address item addr;
             if list_ex (\<lambda>e. nd_name e = the name \<or> ranges_overlap addr prefix_len (nd_base e) (nd_prefix_len e)) earlier then None
             else Some (the name, prefix_len, addr, has_address, address) } })"

text \<open>The slot afterwards, the address a legacy \<open>is_management\<close> flag stands for, and the return value.\<close>

definition parse_persisted_entry :: "json \<Rightarrow> network_def list \<Rightarrow> network_def \<Rightarrow> network_def \<times> ip option \<times> int" where
  "parse_persisted_entry item earlier slot =
     (case parse_persisted_head item earlier of
        None \<Rightarrow> (slot, None, - 1)
      | Some (name, prefix_len, addr, has_address, address) \<Rightarrow>
          let e = blank_network\<lparr>nd_name := snprintf_s NETWORK_NAME_MAX name, nd_base := addr, nd_prefix_len := prefix_len,
                nd_has_address := has_address, nd_address := address,
                nd_alloc_start_host := number_or_zero (json_object_get (Some item) ''alloc_start_host''),
                nd_alloc_end_host := number_or_zero (json_object_get (Some item) ''alloc_end_host'')\<rparr>;
              legacy = (if is_true (json_object_get (Some item) ''is_management'') \<and> has_address then Some address else None)
          in case json_object_get (Some item) ''interfaces'' of
               None \<Rightarrow> (e\<lparr>nd_in_use := True\<rparr>, legacy, 0)
             | Some (JArray items) \<Rightarrow>
                 if NETWORK_MAX_INTERFACES < length items then (e, legacy, - 1)
                 else let (ifs, ok) = parse_persisted_interfaces items; e = e\<lparr>nd_interfaces := ifs\<rparr>
                   in if ok then (e\<lparr>nd_in_use := True\<rparr>, legacy, 0) else (e, legacy, - 1)
             | _ \<Rightarrow> (e, legacy, - 1))"

fun load_entries :: "json list \<Rightarrow> nat \<Rightarrow> network_def list \<Rightarrow> ip option \<Rightarrow> network_def list \<times> ip option \<times> int" where
  "load_entries [] i table legacy = (table, legacy, 0)"
| "load_entries (item # items) i table legacy =
     (let (slot, m, rc) = parse_persisted_entry item (take i table) (table ! i);
          table = table[i := slot];
          legacy = (case m of None \<Rightarrow> legacy | Some a \<Rightarrow> Some a)
      in if rc \<noteq> 0 then (table, legacy, - 1) else load_entries items (Suc i) table legacy)"

definition load_state :: "read_env \<Rightarrow> netstate \<Rightarrow> netstate \<times> int" where
  "load_state env ns =
     (case persist_read_file env (ns_state_path ns) (hd (ns_fs ns)) of
        ReadErr \<Rightarrow> (ns, - 1)
      | ReadAbsent \<Rightarrow> (ns, 0)
      | ReadData buf \<Rightarrow>
          (case json_parse buf of
             Some (JArray items) \<Rightarrow>
               if NETWORK_MAX < length items then (ns, - 1)
               else let (table, legacy, rc) = load_entries items 0 (ns_networks ns) None;
                        ns = ns\<lparr>ns_networks := table\<rparr>
                 in (case legacy of None \<Rightarrow> ns | Some a \<Rightarrow> ns\<lparr>ns_have_legacy_mgmt := True, ns_legacy_mgmt_address := a\<rparr>, rc)
           | _ \<Rightarrow> (ns, - 1)))"

section \<open>Bridges\<close>

definition derived_name :: "string \<Rightarrow> int \<Rightarrow> string" where
  "derived_name ifname vlan_id = ifname @ ''.'' @ int_dec vlan_id"

definition network_apply_interface ::
  "kernel \<Rightarrow> network_def \<Rightarrow> network_attached_interface \<Rightarrow> bool \<Rightarrow> rt_log \<Rightarrow> bool \<times> rt_log" where
  "network_apply_interface kern net ifc tolerate_exist lg =
     (if ai_vlan_id ifc \<noteq> 0 then
        let derived = derived_name (ai_ifname ifc) (ai_vlan_id ifc) in
        if NETWORK_IFNAME_MAX \<le> length derived then (False, lg)
        else let (r, lg) = rtnl kern (RtVlanCreate derived (ai_ifname ifc) (ai_vlan_id ifc)) lg in
          if r \<noteq> RtOk \<and> \<not> (tolerate_exist \<and> r = RtExist) then (False, lg)
          else let (r, lg) = rtnl kern (RtSetMaster derived (nd_name net)) lg in
            if r \<noteq> RtOk then (False, lg)
            else let (r, lg) = rtnl kern (RtLinkUp derived) lg in (r = RtOk, lg)
      else
        let (r, lg) = rtnl kern (RtSetMaster (ai_ifname ifc) (nd_name net)) lg in
        if r \<noteq> RtOk then (False, lg)
        else let (r, lg) = rtnl kern (RtLinkUp (ai_ifname ifc)) lg in (r = RtOk, lg))"

definition network_repoint :: "string \<Rightarrow> netstate \<Rightarrow> netstate" where
  "network_repoint new_state_path ns = ns\<lparr>ns_state_path := snprintf_s PATH_MAX new_state_path\<rparr>"

text \<open>The first loop of \<open>network_init\<close>: bridges, their addresses, up; an existing one is accepted.\<close>

fun init_bridges :: "kernel \<Rightarrow> network_def list \<Rightarrow> rt_log \<Rightarrow> bool \<times> rt_log" where
  "init_bridges kern [] lg = (True, lg)"
| "init_bridges kern (net # nets) lg =
     (if \<not> nd_in_use net then init_bridges kern nets lg
      else let (r, lg) = rtnl kern (RtBridgeCreate (nd_name net)) lg in
        if r \<noteq> RtOk \<and> r \<noteq> RtExist then (False, lg)
        else let (r, lg) = (if nd_has_address net then rtnl kern (RtAddrAdd (nd_name net) (nd_address net) (nd_prefix_len net)) lg
               else (RtOk, lg)) in
          if r \<noteq> RtOk \<and> r \<noteq> RtExist then (False, lg)
          else let (r, lg) = rtnl kern (RtLinkUp (nd_name net)) lg in
            if r \<noteq> RtOk then (False, lg) else init_bridges kern nets lg)"

text \<open>The second loop: physical interfaces, best effort.\<close>

fun init_interfaces :: "kernel \<Rightarrow> network_def \<Rightarrow> network_attached_interface list \<Rightarrow> rt_log \<Rightarrow> rt_log" where
  "init_interfaces kern net [] lg = lg"
| "init_interfaces kern net (i # is) lg =
     (let (r, lg) = rtnl kern RtOpen lg in
      if r \<noteq> RtOk then init_interfaces kern net is lg
      else init_interfaces kern net is (snd (network_apply_interface kern net i True lg)))"

definition network_init :: "read_env \<Rightarrow> kernel \<Rightarrow> string \<Rightarrow> netstate \<Rightarrow> netstate \<times> int" where
  "network_init env kern state_path ns =
     (let ns = ns\<lparr>ns_state_path := snprintf_s PATH_MAX state_path\<rparr> in
      if PATH_MAX \<le> length state_path then (ns, - 1)
      else let (ns, rc) = load_state env (ns\<lparr>ns_networks := replicate NETWORK_MAX blank_network\<rparr>) in
        if rc \<noteq> 0 then (ns, - 1)
        else let (r, lg) = rtnl kern RtOpen (ns_log ns) in
          if r \<noteq> RtOk then (ns\<lparr>ns_log := lg\<rparr>, - 1)
          else let (ok, lg) = init_bridges kern (ns_networks ns) lg in
            if \<not> ok then (ns\<lparr>ns_log := lg\<rparr>, - 1)
            else (ns\<lparr>ns_log := fold (\<lambda>net. init_interfaces kern net (nd_interfaces net)) (filter nd_in_use (ns_networks ns)) lg\<rparr>, 0))"

section \<open>Lookup\<close>

definition network_find :: "network_def list \<Rightarrow> string \<Rightarrow> nat option" where
  "network_find t name = find_index (\<lambda>e. nd_in_use e \<and> nd_name e = name) t"

definition network_free_slot :: "network_def list \<Rightarrow> nat option" where
  "network_free_slot t = find_index (\<lambda>e. \<not> nd_in_use e) t"

text \<open>The parsed address, or \<open>None\<close> for the return value \<open>-1\<close>.\<close>

definition address_str_is_valid :: "string \<Rightarrow> ip \<Rightarrow> int \<Rightarrow> ip option" where
  "address_str_is_valid address_str base prefix_len =
     do { addr \<leftarrow> inet_pton address_str;
          if addr AND mask_for_prefix prefix_len \<noteq> base then None
          else let host_part = sint (addr - base) in
            if host_part < 1 \<or> host_max_for_prefix prefix_len + 1 < host_part then None else Some addr }"

definition network_address_str_is_valid :: "network_def \<Rightarrow> string \<Rightarrow> ip option" where
  "network_address_str_is_valid net address_str = address_str_is_valid address_str (nd_base net) (nd_prefix_len net)"

text \<open>The host part of an optional bound, \<open>0\<close> when it is not given.\<close>

definition parse_alloc_bound :: "string option \<Rightarrow> ip \<Rightarrow> int \<Rightarrow> int option" where
  "parse_alloc_bound s_str base prefix_len =
     (case s_str of None \<Rightarrow> Some 0
      | Some s \<Rightarrow>
          if s = [] then Some 0
          else do {
            a \<leftarrow> inet_pton s;
            if a AND mask_for_prefix prefix_len \<noteq> base then None
            else let host = a - base in
              if host < 1 \<or> host_max_for_prefix prefix_len < sint host then None else Some (sint host) })"

section \<open>Creating and deleting\<close>

text \<open>The netlink calls of \<open>network_create\<close>, undone when a later one is refused.\<close>

definition create_bridge :: "kernel \<Rightarrow> network_def \<Rightarrow> rt_log \<Rightarrow> bool \<times> rt_log" where
  "create_bridge kern e lg =
     (let (r, lg) = rtnl kern RtOpen lg in
      if r \<noteq> RtOk then (False, lg)
      else let (r, lg) = rtnl kern (RtBridgeCreate (nd_name e)) lg in
        if r \<noteq> RtOk then (False, lg)
        else let (r, lg) = (if nd_has_address e then rtnl kern (RtAddrAdd (nd_name e) (nd_address e) (nd_prefix_len e)) lg
               else (RtOk, lg)) in
          if r \<noteq> RtOk then (False, snd (rtnl kern (RtLinkDelete (nd_name e)) lg))
          else let (r, lg) = rtnl kern (RtLinkUp (nd_name e)) lg in
            if r \<noteq> RtOk then (False, snd (rtnl kern (RtLinkDelete (nd_name e)) lg)) else (True, lg))"

text \<open>A fresh socket and one best-effort request, as the rollbacks issue it.\<close>

definition undo_call :: "kernel \<Rightarrow> rt_call \<Rightarrow> rt_log \<Rightarrow> rt_log" where
  "undo_call kern c lg = (let (r, lg) = rtnl kern RtOpen lg in if r = RtOk then snd (rtnl kern c lg) else lg)"

text \<open>The slot is taken and saved; a failed save frees it and removes the bridge.\<close>

definition create_commit :: "write_env \<Rightarrow> kernel \<Rightarrow> nat \<Rightarrow> network_def \<Rightarrow> netstate \<Rightarrow> (netstate \<times> network_error) option" where
  "create_commit env kern slot e ns =
     do { (ns, rc) \<leftarrow> save_state env (ns\<lparr>ns_networks := (ns_networks ns)[slot := e\<lparr>nd_in_use := True\<rparr>]\<rparr>);
          if rc \<noteq> 0 then
            Some (ns\<lparr>ns_networks := (ns_networks ns)[slot := e\<lparr>nd_in_use := False\<rparr>],
                     ns_log := undo_call kern (RtLinkDelete (nd_name e)) (ns_log ns)\<rparr>, NETWORK_ERR_CREATE_FAILED)
          else Some (ns, NETWORK_OK) }"

text \<open>From the cleared slot on: the allocation window, the bridge, the save.\<close>

definition create_in_slot ::
  "write_env \<Rightarrow> kernel \<Rightarrow> nat \<Rightarrow> network_def \<Rightarrow> string option \<Rightarrow> string option \<Rightarrow> netstate \<Rightarrow> (netstate \<times> network_error) option" where
  "create_in_slot env kern slot e alloc_start_str alloc_end_str ns =
     (let cleared = e\<lparr>nd_has_address := False, nd_address := 0\<rparr>;
          window = do { as \<leftarrow> parse_alloc_bound alloc_start_str (nd_base e) (nd_prefix_len e);
                        ae \<leftarrow> parse_alloc_bound alloc_end_str (nd_base e) (nd_prefix_len e);
                        if as \<noteq> 0 \<and> ae \<noteq> 0 \<and> ae < as then None else Some (as, ae) }
      in case window of
           None \<Rightarrow> Some (ns\<lparr>ns_networks := (ns_networks ns)[slot := cleared]\<rparr>, NETWORK_ERR_INVALID_ADDRESS)
         | Some (as, ae) \<Rightarrow>
             let e = e\<lparr>nd_alloc_start_host := as, nd_alloc_end_host := ae\<rparr>;
                 (ok, lg) = create_bridge kern e (ns_log ns);
                 ns = ns\<lparr>ns_networks := (ns_networks ns)[slot := e], ns_log := lg\<rparr>
             in if \<not> ok then Some (ns, NETWORK_ERR_CREATE_FAILED) else create_commit env kern slot e ns)"

definition network_create ::
  "write_env \<Rightarrow> kernel \<Rightarrow> string option \<Rightarrow> string \<Rightarrow> int \<Rightarrow> string option \<Rightarrow> string option \<Rightarrow> string option \<Rightarrow>
     netstate \<Rightarrow> (netstate \<times> network_error) option" where
  "network_create env kern name subnet_str prefix_len address_str alloc_start_str alloc_end_str ns =
     (if \<not> network_name_is_valid name then Some (ns, NETWORK_ERR_INVALID_NAME)
      else if network_find (ns_networks ns) (the name) \<noteq> None then Some (ns, NETWORK_ERR_DUPLICATE)
      else if prefix_len < 8 \<or> 30 < prefix_len \<or> inet_pton subnet_str = None then Some (ns, NETWORK_ERR_INVALID_SUBNET)
      else let addr = the (inet_pton subnet_str) in
        if addr AND NOT (mask_for_prefix prefix_len) \<noteq> 0 then Some (ns, NETWORK_ERR_INVALID_SUBNET)
        else let has_address = (address_str \<noteq> None \<and> address_str \<noteq> Some []);
                 address = (if has_address then address_str_is_valid (the address_str) addr prefix_len else Some 0) in
          if address = None then Some (ns, NETWORK_ERR_INVALID_ADDRESS)
          else if list_ex (\<lambda>e. nd_in_use e \<and> ranges_overlap addr prefix_len (nd_base e) (nd_prefix_len e)) (ns_networks ns)
            then Some (ns, NETWORK_ERR_OVERLAP)
          else case network_free_slot (ns_networks ns) of
              None \<Rightarrow> Some (ns, NETWORK_ERR_FULL)
            | Some slot \<Rightarrow>
                create_in_slot env kern slot
                  (blank_network\<lparr>nd_name := snprintf_s NETWORK_NAME_MAX (the name), nd_base := addr, nd_prefix_len := prefix_len,
                     nd_has_address := has_address, nd_address := the address\<rparr>)
                  alloc_start_str alloc_end_str ns)"

text \<open>Ports are released one by one, best effort, before the bridge goes.\<close>

fun release_interfaces :: "kernel \<Rightarrow> network_attached_interface list \<Rightarrow> rt_log \<Rightarrow> rt_log" where
  "release_interfaces kern [] lg = lg"
| "release_interfaces kern (i # is) lg =
     release_interfaces kern is
       (if ai_vlan_id i \<noteq> 0 then
          if length (derived_name (ai_ifname i) (ai_vlan_id i)) < NETWORK_IFNAME_MAX
          then snd (rtnl kern (RtLinkDelete (derived_name (ai_ifname i) (ai_vlan_id i))) lg) else lg
        else snd (rtnl kern (RtClearMaster (ai_ifname i)) lg))"

definition network_delete :: "write_env \<Rightarrow> kernel \<Rightarrow> registry \<Rightarrow> string \<Rightarrow> netstate \<Rightarrow> (netstate \<times> network_error) option" where
  "network_delete env kern reg name ns =
     (case network_find (ns_networks ns) name of
        None \<Rightarrow> Some (ns, NETWORK_ERR_NOT_FOUND)
      | Some i \<Rightarrow>
          let e = ns_networks ns ! i in
          if net_is_management ns e then Some (ns, NETWORK_ERR_IS_MANAGEMENT)
          else if registry_network_in_use reg name then Some (ns, NETWORK_ERR_IN_USE)
          else let (r, lg) = rtnl kern RtOpen (ns_log ns) in
            if r \<noteq> RtOk then Some (ns\<lparr>ns_log := lg\<rparr>, NETWORK_ERR_DELETE_FAILED)
            else let lg = release_interfaces kern (nd_interfaces e) lg;
                     (r, lg) = rtnl kern (RtLinkDelete name) lg in
              if r \<noteq> RtOk then Some (ns\<lparr>ns_log := lg\<rparr>, NETWORK_ERR_DELETE_FAILED)
              else do {
                (ns, rc) \<leftarrow> save_state env (ns\<lparr>ns_log := lg,
                    ns_networks := (ns_networks ns)[i := e\<lparr>nd_in_use := False, nd_interfaces := []\<rparr>]\<rparr>);
                if rc \<noteq> 0 then Some (ns, NETWORK_ERR_DELETE_FAILED) else Some (ns, NETWORK_OK) })"

section \<open>Interfaces\<close>

text \<open>
  \<open>device_find\<close> of the inventory: whether the named device is a bridge port, if there is one.  The
  id is cut to its 24-byte buffer.
\<close>

definition network_attach_interface ::
  "write_env \<Rightarrow> kernel \<Rightarrow> (string \<Rightarrow> bool option) \<Rightarrow> string \<Rightarrow> string \<Rightarrow> int \<Rightarrow> netstate \<Rightarrow> (netstate \<times> network_error) option" where
  "network_attach_interface env kern device_find name ifname vlan_id ns =
     (case network_find (ns_networks ns) name of
        None \<Rightarrow> Some (ns, NETWORK_ERR_NOT_FOUND)
      | Some n \<Rightarrow>
          let net = ns_networks ns ! n in
          if NETWORK_MAX_INTERFACES \<le> length (nd_interfaces net) then Some (ns, NETWORK_ERR_INTERFACE_FULL)
          else if list_ex (\<lambda>i. ai_ifname i = ifname) (nd_interfaces net) then Some (ns, NETWORK_ERR_INTERFACE_ATTACHED)
          else if vlan_id \<noteq> 0 \<and> NETWORK_IFNAME_MAX \<le> length (derived_name ifname vlan_id)
            then Some (ns, NETWORK_ERR_INTERFACE_NAME_TOO_LONG)
          else if device_find (snprintf_s (8 + NETWORK_IFNAME_MAX) (''net:'' @ ifname)) \<noteq> Some False
            then Some (ns, NETWORK_ERR_INTERFACE_NOT_FOUND)
          else let (r, lg) = rtnl kern RtOpen (ns_log ns) in
            if r \<noteq> RtOk then Some (ns\<lparr>ns_log := lg\<rparr>, NETWORK_ERR_CREATE_FAILED)
            else let ifc = \<lparr>ai_ifname = snprintf_s NETWORK_IFNAME_MAX ifname, ai_vlan_id = vlan_id\<rparr>;
                     (ok, lg) = network_apply_interface kern net ifc False lg in
              if \<not> ok then Some (ns\<lparr>ns_log := lg\<rparr>, NETWORK_ERR_CREATE_FAILED)
              else do {
                (ns, rc) \<leftarrow> save_state env (ns\<lparr>ns_log := lg,
                    ns_networks := (ns_networks ns)[n := net\<lparr>nd_interfaces := nd_interfaces net @ [ifc]\<rparr>]\<rparr>);
                if rc \<noteq> 0 then
                  Some (ns\<lparr>ns_networks := (ns_networks ns)[n := net],
                           ns_log := undo_call kern (if vlan_id \<noteq> 0 then RtLinkDelete (derived_name ifname vlan_id)
                             else RtClearMaster ifname) (ns_log ns)\<rparr>, NETWORK_ERR_CREATE_FAILED)
                else Some (ns, NETWORK_OK) })"

text \<open>The loop that closes the gap left by element \<open>idx\<close>.\<close>

definition remove_at :: "nat \<Rightarrow> 'a list \<Rightarrow> 'a list" where
  "remove_at idx xs = take idx xs @ drop (Suc idx) xs"

definition network_detach_interface ::
  "write_env \<Rightarrow> kernel \<Rightarrow> string \<Rightarrow> string \<Rightarrow> netstate \<Rightarrow> (netstate \<times> network_error) option" where
  "network_detach_interface env kern name ifname ns =
     (case network_find (ns_networks ns) name of
        None \<Rightarrow> Some (ns, NETWORK_ERR_NOT_FOUND)
      | Some n \<Rightarrow>
          let net = ns_networks ns ! n in
          if net_is_management ns net then Some (ns, NETWORK_ERR_IS_MANAGEMENT)
          else case find_index (\<lambda>i. ai_ifname i = ifname) (nd_interfaces net) of
              None \<Rightarrow> Some (ns, NETWORK_ERR_INTERFACE_NOT_ATTACHED)
            | Some idx \<Rightarrow>
                let vlan_id = ai_vlan_id (nd_interfaces net ! idx);
                    (r, lg) = rtnl kern RtOpen (ns_log ns) in
                if r \<noteq> RtOk then Some (ns\<lparr>ns_log := lg\<rparr>, NETWORK_ERR_DELETE_FAILED)
                else let (r, lg) = rtnl kern (if vlan_id \<noteq> 0 then RtLinkDelete (snprintf_s NETWORK_IFNAME_MAX (derived_name ifname vlan_id))
                         else RtClearMaster ifname) lg in
                  if r \<noteq> RtOk then Some (ns\<lparr>ns_log := lg\<rparr>, NETWORK_ERR_DELETE_FAILED)
                  else do {
                    (ns, rc) \<leftarrow> save_state env (ns\<lparr>ns_log := lg,
                        ns_networks := (ns_networks ns)[n := net\<lparr>nd_interfaces := remove_at idx (nd_interfaces net)\<rparr>]\<rparr>);
                    if rc \<noteq> 0 then Some (ns, NETWORK_ERR_DELETE_FAILED) else Some (ns, NETWORK_OK) })"

section \<open>The management address\<close>

definition network_find_containing :: "network_def list \<Rightarrow> ip \<Rightarrow> nat option" where
  "network_find_containing t address = find_index (\<lambda>e. nd_in_use e \<and> net_contains e address) t"

definition network_find_management :: "netstate \<Rightarrow> nat option" where
  "network_find_management ns =
     (if \<not> ns_have_mgmt ns then None else network_find_containing (ns_networks ns) (ns_mgmt_address ns))"

definition network_set_management_address :: "string option \<Rightarrow> netstate \<Rightarrow> netstate \<times> network_error" where
  "network_set_management_address address ns =
     (if address = None \<or> address = Some [] then (ns\<lparr>ns_have_mgmt := False, ns_mgmt_address := 0\<rparr>, NETWORK_OK)
      else case inet_pton (the address) of
          None \<Rightarrow> (ns, NETWORK_ERR_INVALID_ADDRESS)
        | Some a \<Rightarrow>
            if network_find_containing (ns_networks ns) a = None then (ns, NETWORK_ERR_NOT_FOUND)
            else (ns\<lparr>ns_mgmt_address := a, ns_have_mgmt := True\<rparr>, NETWORK_OK))"

text \<open>The address is handed out once.\<close>

definition network_legacy_management_address :: "netstate \<Rightarrow> netstate \<times> ip option" where
  "network_legacy_management_address ns =
     (if \<not> ns_have_legacy_mgmt ns then (ns, None)
      else (ns\<lparr>ns_have_legacy_mgmt := False\<rparr>, Some (ns_legacy_mgmt_address ns)))"

section \<open>Container addresses\<close>

datatype alloc_result = AllocOk ip | AllocFail | AllocNoPool

definition network_alloc_ip :: "registry \<Rightarrow> string \<Rightarrow> netstate \<Rightarrow> alloc_result" where
  "network_alloc_ip reg name ns =
     (case network_find (ns_networks ns) name of
        None \<Rightarrow> AllocFail
      | Some n \<Rightarrow>
          let net = ns_networks ns ! n;
              exclude = (if nd_has_address net then nd_address net else 0);
              lo = (if 0 < nd_alloc_start_host net then nd_alloc_start_host net else 1);
              hi = (if 0 < nd_alloc_end_host net then nd_alloc_end_host net else host_max_for_prefix (nd_prefix_len net))
          in if nd_interfaces net \<noteq> [] \<and> nd_alloc_start_host net = 0 \<and> nd_alloc_end_host net = 0 then AllocNoPool
             else let lo = (if net_is_management ns net \<and> nd_alloc_start_host net = 0 \<and> lo < 2 then 2 else lo)
               in case registry_alloc_ip reg (nd_base net) lo hi exclude of None \<Rightarrow> AllocFail | Some a \<Rightarrow> AllocOk a)"

text \<open>A bound that is not given keeps its value, an empty one clears it.\<close>

definition window_bound :: "string option \<Rightarrow> network_def \<Rightarrow> int \<Rightarrow> int option" where
  "window_bound s_str net current =
     (case s_str of None \<Rightarrow> Some current
      | Some s \<Rightarrow> if s = [] then Some 0 else parse_alloc_bound (Some s) (nd_base net) (nd_prefix_len net))"

definition network_set_alloc_window ::
  "write_env \<Rightarrow> string \<Rightarrow> string option \<Rightarrow> string option \<Rightarrow> netstate \<Rightarrow> (netstate \<times> network_error) option" where
  "network_set_alloc_window env name alloc_start_str alloc_end_str ns =
     (case network_find (ns_networks ns) name of
        None \<Rightarrow> Some (ns, NETWORK_ERR_NOT_FOUND)
      | Some n \<Rightarrow>
          let net = ns_networks ns ! n in
          case (window_bound alloc_start_str net (nd_alloc_start_host net), window_bound alloc_end_str net (nd_alloc_end_host net)) of
            (Some as, Some ae) \<Rightarrow>
              if as \<noteq> 0 \<and> ae \<noteq> 0 \<and> ae < as then Some (ns, NETWORK_ERR_INVALID_ADDRESS)
              else do {
                (ns, rc) \<leftarrow> save_state env (ns\<lparr>ns_networks :=
                    (ns_networks ns)[n := net\<lparr>nd_alloc_start_host := as, nd_alloc_end_host := ae\<rparr>]\<rparr>);
                if rc \<noteq> 0 then Some (ns, NETWORK_ERR_CREATE_FAILED) else Some (ns, NETWORK_OK) }
          | _ \<Rightarrow> Some (ns, NETWORK_ERR_INVALID_ADDRESS))"

definition network_ip_available :: "registry \<Rightarrow> string \<Rightarrow> ip \<Rightarrow> netstate \<Rightarrow> network_error" where
  "network_ip_available reg name a ns =
     (case network_find (ns_networks ns) name of
        None \<Rightarrow> NETWORK_ERR_NOT_FOUND
      | Some n \<Rightarrow>
          let net = ns_networks ns ! n; host_part = a - nd_base net in
          if a AND mask_for_prefix (nd_prefix_len net) \<noteq> nd_base net then NETWORK_ERR_IP_OUT_OF_RANGE
          else if host_part < 1 \<or> host_max_for_prefix (nd_prefix_len net) < sint host_part then NETWORK_ERR_IP_OUT_OF_RANGE
          else if nd_has_address net \<and> a = nd_address net then NETWORK_ERR_IP_OUT_OF_RANGE
          else if \<not> registry_ip_available reg a then NETWORK_ERR_IP_TAKEN
          else NETWORK_OK)"

section \<open>The kernel's routes\<close>

definition ROUTE_DUMP_MAX :: nat where "ROUTE_DUMP_MAX = 64"

record kernel_route =
  kr_dst :: ip
  kr_dst_prefix_len :: int
  kr_gateway :: ip
  kr_oif_index :: int
  kr_protocol :: int
  kr_scope :: int

definition route_write_json_one :: "(int \<Rightarrow> string option) \<Rightarrow> json_writer \<Rightarrow> kernel_route \<Rightarrow> json_writer option" where
  "route_write_json_one if_indextoname w r =
     do { w \<leftarrow> jw_obj_open w;
          w \<leftarrow> jw_key w ''dest'';
          w \<leftarrow> (if 0 < kr_dst_prefix_len r then jw_str w (inet_ntop (kr_dst r)) else jw_str w ''default'');
          w \<leftarrow> jw_key w ''prefix'';
          w \<leftarrow> jw_int w (kr_dst_prefix_len r);
          w \<leftarrow> jw_key w ''gateway'';
          w \<leftarrow> (if kr_gateway r \<noteq> 0 then jw_str w (inet_ntop (kr_gateway r)) else jw_null w);
          w \<leftarrow> jw_key w ''interface'';
          w \<leftarrow> (if 0 < kr_oif_index r \<and> if_indextoname (kr_oif_index r) \<noteq> None
               then jw_str w (the (if_indextoname (kr_oif_index r))) else jw_null w);
          w \<leftarrow> jw_key w ''protocol'';
          w \<leftarrow> jw_int w (kr_protocol r);
          w \<leftarrow> jw_key w ''scope'';
          w \<leftarrow> jw_int w (kr_scope r);
          Some (jw_obj_close w) }"

text \<open>
  The dump fills at most \<open>ROUTE_DUMP_MAX\<close> elements of the array and reports how many routes there
  were; \<open>None\<close> is a failed socket or request.
\<close>

definition network_write_routes_json ::
  "(int \<Rightarrow> string option) \<Rightarrow> (kernel_route list \<times> nat) option \<Rightarrow> json_writer \<Rightarrow> (json_writer \<times> int) option" where
  "network_write_routes_json if_indextoname dump w =
     (case dump of None \<Rightarrow> Some (w, - 1)
      | Some (routes, count) \<Rightarrow>
          do { w \<leftarrow> jw_arr_open w;
               w \<leftarrow> jw_each (route_write_json_one if_indextoname) w
                 (take (if count < ROUTE_DUMP_MAX then count else ROUTE_DUMP_MAX) routes);
               Some (jw_arr_close w, 0) })"

section \<open>The table\<close>

interpretation nets: keyed_table nd_in_use nd_name network_find network_free_slot
  unfolding network_find_def [abs_def] network_free_slot_def [abs_def] by (rule find_index_keyed_table)

definition net_subnet :: "network_def \<Rightarrow> ip set" where
  "net_subnet e = subnet (nd_base e) (nd_prefix_len e)"

definition entry_ok :: "network_def \<Rightarrow> bool" where
  "entry_ok e = (network_name_is_valid (Some (nd_name e)) \<and> 8 \<le> nd_prefix_len e \<and> nd_prefix_len e \<le> 30 \<and>
     aligned (nd_base e) (nd_prefix_len e) \<and> length (nd_interfaces e) \<le> NETWORK_MAX_INTERFACES \<and>
     (\<forall>i \<in> set (nd_interfaces e). \<bar>ai_vlan_id i\<bar> \<le> INT_MAX) \<and>
     0 \<le> nd_alloc_start_host e \<and> nd_alloc_start_host e \<le> host_max_for_prefix (nd_prefix_len e) \<and>
     0 \<le> nd_alloc_end_host e \<and> nd_alloc_end_host e \<le> host_max_for_prefix (nd_prefix_len e) \<and>
     (nd_has_address e \<longrightarrow> nd_address e \<in> net_subnet e) \<and> (\<not> nd_has_address e \<longrightarrow> nd_address e = 0))"

definition disjoint_subnets :: "network_def list \<Rightarrow> bool" where
  "disjoint_subnets t = (\<forall>i < length t. \<forall>j < length t. nd_in_use (t ! i) \<and> nd_in_use (t ! j) \<and> i \<noteq> j \<longrightarrow>
     net_subnet (t ! i) \<inter> net_subnet (t ! j) = {})"

definition table_ok :: "network_def list \<Rightarrow> bool" where
  "table_ok t = (length t = NETWORK_MAX \<and> (\<forall>e \<in> set t. nd_in_use e \<longrightarrow> entry_ok e) \<and>
     keys_unique nd_in_use nd_name t \<and> disjoint_subnets t)"

lemma network_find_Some:
  "network_find t name = Some i \<Longrightarrow> i < length t \<and> nd_in_use (t ! i) \<and> nd_name (t ! i) = name"
  by (rule nets.find_SomeD)

lemma table_entry_ok: "table_ok t \<Longrightarrow> i < length t \<Longrightarrow> nd_in_use (t ! i) \<Longrightarrow> entry_ok (t ! i)"
  by (simp add: table_ok_def)

lemma entry_overlap_iff:
  "entry_ok e \<Longrightarrow> entry_ok x \<Longrightarrow>
     ranges_overlap (nd_base e) (nd_prefix_len e) (nd_base x) (nd_prefix_len x) \<longleftrightarrow> net_subnet e \<inter> net_subnet x \<noteq> {}"
  unfolding net_subnet_def by (rule ranges_overlap_iff) (auto simp: entry_ok_def)

text \<open>The three ways an operation changes the table.\<close>

lemma table_clear:
  assumes "table_ok t" "\<not> nd_in_use e"
  shows "table_ok (t[i := e])"
proof (cases "i < length t")
  case True
  have other: "t[i := e] ! j = t ! j" if "nd_in_use (t[i := e] ! j)" for j
    using that assms(2) True by (cases "i = j") auto
  have "disjoint_subnets (t[i := e])"
    unfolding disjoint_subnets_def
  proof (intro allI impI)
    fix a b
    assume "a < length (t[i := e])" "b < length (t[i := e])"
      and h: "nd_in_use (t[i := e] ! a) \<and> nd_in_use (t[i := e] ! b) \<and> a \<noteq> b"
    with assms(1) show "net_subnet (t[i := e] ! a) \<inter> net_subnet (t[i := e] ! b) = {}"
      using other [of a] other [of b] by (auto simp: table_ok_def disjoint_subnets_def)
  qed
  moreover have "keys_unique nd_in_use nd_name (t[i := e])"
    using assms True by (intro nets.unique_update) (auto simp: table_ok_def)
  ultimately show ?thesis using assms by (auto simp: table_ok_def dest: set_update_subset_insert [THEN subsetD])
qed (simp add: list_update_beyond not_less assms)

lemma table_modify:
  assumes "table_ok t" "i < length t" "nd_in_use (t ! i)" "entry_ok e"
    and same: "nd_name e = nd_name (t ! i)" "nd_base e = nd_base (t ! i)" "nd_prefix_len e = nd_prefix_len (t ! i)"
  shows "table_ok (t[i := e])"
proof -
  have "net_subnet (t[i := e] ! j) = net_subnet (t ! j)" for j
    using same assms(2) by (cases "j = i") (auto simp: net_subnet_def)
  moreover have "nd_in_use (t ! j)" if "nd_in_use (t[i := e] ! j)" for j
    using that assms(3) by (cases "i = j") (auto simp: nth_list_update split: if_splits)
  ultimately have "disjoint_subnets (t[i := e])"
    using assms(1) unfolding table_ok_def disjoint_subnets_def by simp
  moreover have "keys_unique nd_in_use nd_name (t[i := e])"
    using assms by (intro nets.unique_update) (auto simp: table_ok_def)
  ultimately show ?thesis using assms by (auto simp: table_ok_def dest: set_update_subset_insert [THEN subsetD])
qed

lemma table_insert:
  assumes "table_ok t" "network_free_slot t = Some i" "network_find t (nd_name e) = None" "entry_ok e"
    and apart: "\<not> list_ex (\<lambda>x. nd_in_use x \<and> ranges_overlap (nd_base e) (nd_prefix_len e) (nd_base x) (nd_prefix_len x)) t"
  shows "table_ok (t[i := e])"
proof -
  from assms(2) have i: "i < length t" "\<not> nd_in_use (t ! i)" using nets.free_SomeD by blast+
  have away: "net_subnet e \<inter> net_subnet (t ! j) = {}" if "j < length t" "nd_in_use (t ! j)" for j
  proof -
    have "\<not> ranges_overlap (nd_base e) (nd_prefix_len e) (nd_base (t ! j)) (nd_prefix_len (t ! j))"
      using apart that by (auto simp: list_ex_iff)
    with entry_overlap_iff [OF assms(4) table_entry_ok [OF assms(1) that]] show ?thesis by simp
  qed
  have "net_subnet (t[i := e] ! a) \<inter> net_subnet (t[i := e] ! b) = {}"
    if "a < length t" "b < length t" "nd_in_use (t[i := e] ! a)" "nd_in_use (t[i := e] ! b)" "a \<noteq> b" for a b
    using that away assms(1) i
    by (cases "a = i"; cases "b = i") (auto simp: table_ok_def disjoint_subnets_def Int_commute)
  then have "disjoint_subnets (t[i := e])" unfolding disjoint_subnets_def by simp
  moreover have "keys_unique nd_in_use nd_name (t[i := e])"
    using assms by (intro nets.unique_insert) (auto simp: table_ok_def)
  ultimately show ?thesis using assms by (auto simp: table_ok_def dest: set_update_subset_insert [THEN subsetD])
qed

section \<open>The document\<close>

definition interface_tree :: "network_attached_interface \<Rightarrow> json" where
  "interface_tree i = JObject [(''ifname'', JString (ai_ifname i)), (''vlan_id'', JNumber (ll2d (ai_vlan_id i)))]"

definition host_tree :: "int \<Rightarrow> json" where
  "host_tree h = (if 0 < h then JNumber (ll2d h) else JNull)"

definition address_tree :: "network_def \<Rightarrow> json" where
  "address_tree e = (if nd_has_address e then JString (inet_ntop (nd_address e)) else JNull)"

text \<open>The derived flag is written for the API only.\<close>

definition net_tree :: "bool option \<Rightarrow> network_def \<Rightarrow> json" where
  "net_tree management e = JObject ([(''name'', JString (nd_name e)), (''subnet'', JString (inet_ntop (nd_base e))),
     (''prefix_len'', JNumber (ll2d (nd_prefix_len e))), (''has_address'', JBool (nd_has_address e))] @
     (case management of None \<Rightarrow> [] | Some m \<Rightarrow> [(''management'', JBool m)]) @
     [(''alloc_start_host'', host_tree (nd_alloc_start_host e)), (''alloc_end_host'', host_tree (nd_alloc_end_host e)),
      (''address'', address_tree e), (''interfaces'', JArray (map interface_tree (nd_interfaces e)))])"

lemma host_max_le: "8 \<le> p \<Longrightarrow> p \<le> 30 \<Longrightarrow> host_max_for_prefix p < 2 ^ 24"
proof -
  assume p: "8 \<le> p" "p \<le> 30"
  then have "(2 :: int) ^ nat (32 - p) \<le> 2 ^ 24" by (intro power_increasing) auto
  with p show ?thesis by (simp add: host_max_nat)
qed

lemma entry_ints:
  assumes "entry_ok e"
  shows "\<bar>nd_prefix_len e\<bar> < 2 ^ 53" "\<bar>nd_alloc_start_host e\<bar> < 2 ^ 53" "\<bar>nd_alloc_end_host e\<bar> < 2 ^ 53"
    "i \<in> set (nd_interfaces e) \<Longrightarrow> \<bar>ai_vlan_id i\<bar> < 2 ^ 53"
proof -
  have "host_max_for_prefix (nd_prefix_len e) < 2 ^ 24" using assms host_max_le by (simp add: entry_ok_def)
  with assms show "\<bar>nd_prefix_len e\<bar> < 2 ^ 53" "\<bar>nd_alloc_start_host e\<bar> < 2 ^ 53" "\<bar>nd_alloc_end_host e\<bar> < 2 ^ 53"
    by (auto simp: entry_ok_def)
  show "\<bar>ai_vlan_id i\<bar> < 2 ^ 53" if "i \<in> set (nd_interfaces e)"
    using assms that by (force simp: entry_ok_def INT_MAX_def)
qed

lemma write_one_value:
  assumes "entry_ok e"
  shows "write_one ns for_api w e = jw_value w (net_tree (if for_api then Some (net_is_management ns e) else None) e)"
proof -
  have "write_interface w i = jw_value w (interface_tree i)" if "i \<in> set (nd_interfaces e)" for w i
    using entry_ints(4) [OF assms that]
    by (simp add: write_interface_def interface_tree_def jw_int_value del: jw_value.simps(3))
  then have each: "jw_each write_interface w (nd_interfaces e) = jw_items w (map interface_tree (nd_interfaces e))" for w
    by (rule jw_each_items)
  have host: "(if 0 < h then jw_int w h else jw_null w) = jw_value w (host_tree h)" if "\<bar>h\<bar> < 2 ^ 53" for w h
    using that by (simp add: host_tree_def jw_int_value del: jw_value.simps(3))
  have addr: "(if nd_has_address e then jw_str w (inet_ntop (nd_address e)) else jw_null w) = jw_value w (address_tree e)" for w
    by (simp add: address_tree_def)
  show ?thesis
    unfolding write_one_def net_tree_def host [OF entry_ints(2) [OF assms]] host [OF entry_ints(3) [OF assms]] addr each
    using entry_ints(1) [OF assms]
    by (cases for_api) (simp_all add: jw_int_value bind_assoc del: jw_value.simps(3))
qed

lemma net_tree_nesting: "nesting (net_tree m e) \<le> 3"
  by (auto simp: net_tree_def host_tree_def address_tree_def nesting_items_le nesting_members_le interface_tree_def split: option.splits)

definition nets_text :: "network_def list \<Rightarrow> string" where
  "nets_text t = render (JArray (map (net_tree None) (filter nd_in_use t)))"

text \<open>The list the API serves, and the list on disk, are these documents.\<close>

lemma write_list_value:
  assumes "table_ok (ns_networks ns)"
  shows "write_list ns for_api w =
    jw_value w (JArray (map (\<lambda>e. net_tree (if for_api then Some (net_is_management ns e) else None) e) (filter nd_in_use (ns_networks ns))))"
proof -
  have "write_one ns for_api w e = jw_value w (net_tree (if for_api then Some (net_is_management ns e) else None) e)"
    if "e \<in> set (filter nd_in_use (ns_networks ns))" for w e
    using that assms by (intro write_one_value) (simp add: table_ok_def)
  then have "jw_each (write_one ns for_api) w (filter nd_in_use (ns_networks ns)) =
      jw_items w (map (\<lambda>e. net_tree (if for_api then Some (net_is_management ns e) else None) e) (filter nd_in_use (ns_networks ns)))" for w
    by (rule jw_each_items)
  then show ?thesis by (simp add: write_list_def)
qed

lemma save_state_text:
  assumes "table_ok (ns_networks ns)"
    and "persist_atomic_write env (ns_state_path ns) (nets_text (ns_networks ns)) (hd (ns_fs ns)) = (v, rc)"
  shows "save_state env ns = Some (ns\<lparr>ns_fs := v @ tl (ns_fs ns)\<rparr>, rc)"
proof -
  let ?v = "JArray (map (net_tree None) (filter nd_in_use (ns_networks ns)))"
  have "nesting ?v \<le> JW_MAX_DEPTH"
    using net_tree_nesting [of None] by (fastforce simp: JW_MAX_DEPTH_def nesting_items_le intro: order_trans [of _ 3])
  then obtain w where "jw_value (jw_init blank_writer) ?v = Some w" "jw_buf w = render ?v" using jw_value_blank by blast
  with assms(2) show ?thesis
    by (simp add: save_state_def write_list_value [OF assms(1)] nets_text_def del: jw_value.simps(3))
qed

text \<open>A save keeps everything but the files, and the file afterwards is the new text or the old one.\<close>

lemma save_state_cases:
  assumes "table_ok (ns_networks ns)"
  obtains v rc where "save_state env ns = Some (ns\<lparr>ns_fs := v @ tl (ns_fs ns)\<rparr>, rc)" "v \<noteq> []"
    "hd v (ns_state_path ns) = (if rc = 0 then Some (nets_text (ns_networks ns)) else hd (ns_fs ns) (ns_state_path ns))"
    "persist_atomic_write env (ns_state_path ns) (nets_text (ns_networks ns)) (hd (ns_fs ns)) = (v, rc)"
proof -
  obtain v rc where p: "persist_atomic_write env (ns_state_path ns) (nets_text (ns_networks ns)) (hd (ns_fs ns)) = (v, rc)"
    by (cases "persist_atomic_write env (ns_state_path ns) (nets_text (ns_networks ns)) (hd (ns_fs ns))")
  with pw.visited_nonempty [of env "ns_state_path ns" "nets_text (ns_networks ns)" "hd (ns_fs ns)"]
  obtain f v' where v: "v = f # v'" by (cases v) auto
  from pw.after_any [of env _ _ _ f v' rc] p v save_state_text [OF assms p] show ?thesis
    by (intro that [of v rc]) auto
qed

section \<open>Reading back\<close>

definition ifnames_ok :: "network_def \<Rightarrow> bool" where
  "ifnames_ok e = (\<forall>i \<in> set (nd_interfaces e). network_ifname_is_valid (Some (ai_ifname i)))"

lemma d2i_ll2d_int: "\<bar>i\<bar> \<le> INT_MAX \<Longrightarrow> d2i (ll2d i) = i"
  by (rule d2i_ll2d) (simp_all add: INT_MAX_def INT_MIN_def)

lemma parse_interfaces_tree:
  "(\<And>i. i \<in> set is \<Longrightarrow> network_ifname_is_valid (Some (ai_ifname i)) \<and> \<bar>ai_vlan_id i\<bar> \<le> INT_MAX) \<Longrightarrow>
     parse_persisted_interfaces (map interface_tree is) = (is, True)"
proof (induction "is")
  case (Cons i "is")
  then have "length (ai_ifname i) < NETWORK_IFNAME_MAX" "network_ifname_is_valid (Some (ai_ifname i))" "\<bar>ai_vlan_id i\<bar> \<le> INT_MAX"
    by (auto simp: network_ifname_is_valid_def dest: simple_name_valid_facts)
  with Cons show ?case
    by (cases i) (simp add: interface_tree_def json_object_get_def json_as_string_def json_as_number_def d2i_ll2d_int)
qed simp

lemma net_tree_fields:
  "json_object_get (Some (net_tree None e)) ''name'' = Some (JString (nd_name e))"
  "json_object_get (Some (net_tree None e)) ''subnet'' = Some (JString (inet_ntop (nd_base e)))"
  "json_object_get (Some (net_tree None e)) ''prefix_len'' = Some (JNumber (ll2d (nd_prefix_len e)))"
  "json_object_get (Some (net_tree None e)) ''has_address'' = Some (JBool (nd_has_address e))"
  "json_object_get (Some (net_tree None e)) ''alloc_start_host'' = Some (host_tree (nd_alloc_start_host e))"
  "json_object_get (Some (net_tree None e)) ''alloc_end_host'' = Some (host_tree (nd_alloc_end_host e))"
  "json_object_get (Some (net_tree None e)) ''address'' = Some (address_tree e)"
  "json_object_get (Some (net_tree None e)) ''interfaces'' = Some (JArray (map interface_tree (nd_interfaces e)))"
  "json_object_get (Some (net_tree None e)) ''is_management'' = None"
  by (simp_all add: net_tree_def json_object_get_def)

lemma number_or_zero_host: "0 \<le> h \<Longrightarrow> h \<le> INT_MAX \<Longrightarrow> number_or_zero (Some (host_tree h)) = h"
  by (simp add: number_or_zero_def host_tree_def d2i_ll2d_int)

definition clear_of :: "network_def \<Rightarrow> network_def list \<Rightarrow> bool" where
  "clear_of e earlier = (\<forall>x \<in> set earlier. nd_name x \<noteq> nd_name e \<and>
     \<not> ranges_overlap (nd_base e) (nd_prefix_len e) (nd_base x) (nd_prefix_len x))"

lemma parse_head_tree:
  assumes "entry_ok e" "clear_of e earlier"
  shows "parse_persisted_head (net_tree None e) earlier =
    Some (nd_name e, nd_prefix_len e, nd_base e, nd_has_address e, nd_address e)"
proof -
  have "parse_persisted_address (net_tree None e) (nd_base e) = Some (nd_has_address e, nd_address e)"
    using assms(1) by (auto simp: parse_persisted_address_def net_tree_fields is_true_def json_as_string_def address_tree_def entry_ok_def)
  moreover have "d2i (ll2d (nd_prefix_len e)) = nd_prefix_len e"
    using assms(1) by (intro d2i_ll2d_int) (auto simp: entry_ok_def INT_MAX_def)
  ultimately show ?thesis
    using assms
    by (auto simp: parse_persisted_head_def net_tree_fields json_as_string_def json_as_number_def entry_ok_def aligned_def
        clear_of_def list_ex_iff)
qed

lemma parse_entry_tree:
  assumes "entry_ok e" "ifnames_ok e" "nd_in_use e" "clear_of e earlier"
  shows "parse_persisted_entry (net_tree None e) earlier slot = (e, None, 0)"
proof -
  have ifs: "parse_persisted_interfaces (map interface_tree (nd_interfaces e)) = (nd_interfaces e, True)"
    using assms(1,2) by (intro parse_interfaces_tree) (simp add: entry_ok_def ifnames_ok_def)
  have len: "length (nd_interfaces e) \<le> NETWORK_MAX_INTERFACES" "length (nd_name e) < NETWORK_NAME_MAX"
    using assms(1) by (auto simp: entry_ok_def network_name_is_valid_def dest: simple_name_valid_facts)
  have "host_max_for_prefix (nd_prefix_len e) \<le> INT_MAX"
    using assms(1) host_max_le [of "nd_prefix_len e"] by (simp add: entry_ok_def INT_MAX_def)
  then have hosts: "number_or_zero (Some (host_tree (nd_alloc_start_host e))) = nd_alloc_start_host e"
    "number_or_zero (Some (host_tree (nd_alloc_end_host e))) = nd_alloc_end_host e"
    using assms(1) by (auto intro!: number_or_zero_host simp: entry_ok_def)
  have "blank_network\<lparr>nd_name := nd_name e, nd_base := nd_base e, nd_prefix_len := nd_prefix_len e,
      nd_has_address := nd_has_address e, nd_address := nd_address e, nd_alloc_start_host := nd_alloc_start_host e,
      nd_alloc_end_host := nd_alloc_end_host e, nd_interfaces := nd_interfaces e, nd_in_use := True\<rparr> = e"
    using assms(3) by (cases e) (simp add: blank_network_def)
  with len show ?thesis
    by (simp add: parse_persisted_entry_def parse_head_tree [OF assms(1,4)] net_tree_fields ifs hosts is_true_def not_less)
qed

text \<open>Networks that can stand in one table, in the order of their slots.\<close>

fun all_clear :: "network_def list \<Rightarrow> network_def list \<Rightarrow> bool" where
  "all_clear earlier [] = True"
| "all_clear earlier (e # es) = (entry_ok e \<and> ifnames_ok e \<and> nd_in_use e \<and> clear_of e earlier \<and> all_clear (earlier @ [e]) es)"

lemma load_entries_trees:
  "all_clear (take i t) es \<Longrightarrow> i + length es \<le> length t \<Longrightarrow>
     load_entries (map (net_tree None) es) i t legacy = (take i t @ es @ drop (i + length es) t, legacy, 0)"
proof (induction es arbitrary: i t)
  case (Cons e es)
  from Cons.prems have "parse_persisted_entry (net_tree None e) (take i t) (t ! i) = (e, None, 0)"
    by (intro parse_entry_tree) auto
  moreover have "take (Suc i) (t[i := e]) = take i t @ [e]" using Cons.prems(2) by (simp add: take_Suc_conv_app_nth)
  moreover have "drop (Suc (i + length es)) (t[i := e]) = drop (Suc (i + length es)) t" by simp
  ultimately show ?case using Cons.IH [of "Suc i" "t[i := e]"] Cons.prems by simp
qed simp

definition nets_ok :: "network_def list \<Rightarrow> bool" where
  "nets_ok es = (length es \<le> NETWORK_MAX \<and> all_clear [] es)"

definition nets_decode :: "string \<Rightarrow> network_def list option" where
  "nets_decode buf =
     (case json_parse buf of
        Some (JArray items) \<Rightarrow>
          if NETWORK_MAX < length items then None
          else let (t, legacy, rc) = load_entries items 0 (replicate NETWORK_MAX blank_network) None
            in if rc = 0 then Some (filter nd_in_use t) else None
      | _ \<Rightarrow> None)"

lemma all_clear_facts: "all_clear earlier es \<Longrightarrow> e \<in> set es \<Longrightarrow> entry_ok e \<and> ifnames_ok e \<and> nd_in_use e"
  by (induction earlier es rule: all_clear.induct) auto

lemma net_tree_exact:
  assumes "entry_ok e" "\<forall>i \<in> set (nd_interfaces e). is_c_str (ai_ifname i)"
  shows "exact_json (net_tree None e)"
proof -
  have "is_c_str (nd_name e)" using assms(1) by (auto simp: entry_ok_def network_name_is_valid_def dest: simple_name_valid_facts)
  moreover have "exact_json (interface_tree i)" if "i \<in> set (nd_interfaces e)" for i
    using entry_ints(4) [OF assms(1) that] assms(2) that by (auto simp: interface_tree_def NUL_def)
  ultimately show ?thesis
    using entry_ints(1-3) [OF assms(1)] by (auto simp: net_tree_def host_tree_def address_tree_def exact_items_map NUL_def)
qed

lemma ifnames_ok_c_str: "ifnames_ok e \<Longrightarrow> i \<in> set (nd_interfaces e) \<Longrightarrow> is_c_str (ai_ifname i)"
  by (auto simp: ifnames_ok_def network_ifname_is_valid_def dest: simple_name_valid_facts)

lemma nets_parse:
  assumes "nets_ok es"
  shows "json_parse (nets_text es) = Some (JArray (map (net_tree None) es))"
proof -
  have es: "filter nd_in_use es = es" using assms by (auto simp: nets_ok_def filter_id_conv dest: all_clear_facts)
  have "exact_json (JArray (map (net_tree None) es))"
    using assms by (auto simp: exact_items_map nets_ok_def dest: all_clear_facts intro!: net_tree_exact ifnames_ok_c_str)
  then show ?thesis unfolding nets_text_def es by (rule json_parse_render)
qed

interpretation net_store: config_store persist_atomic_write tmp_path nets_ok nets_text nets_decode
proof unfold_locales
  fix es
  assume ok: "nets_ok es"
  then have "load_entries (map (net_tree None) es) 0 (replicate NETWORK_MAX blank_network) None =
      (es @ drop (length es) (replicate NETWORK_MAX blank_network), None, 0)"
    using load_entries_trees [of 0 "replicate NETWORK_MAX blank_network" es None] by (simp add: nets_ok_def)
  moreover have "filter nd_in_use es = es" using ok by (auto simp: nets_ok_def filter_id_conv dest: all_clear_facts)
  ultimately show "nets_decode (nets_text es) = Some es"
    using ok nets_parse [OF ok] by (simp add: nets_decode_def nets_ok_def blank_network_def filter_empty_conv)
qed

lemma all_clear_iff:
  "all_clear earlier es \<longleftrightarrow>
     (\<forall>e \<in> set es. entry_ok e \<and> ifnames_ok e \<and> nd_in_use e \<and> clear_of e earlier) \<and> sorted_wrt (\<lambda>x e. clear_of e [x]) es"
proof (induction earlier es rule: all_clear.induct)
  case (2 earlier e es)
  have "clear_of x (earlier @ [e]) \<longleftrightarrow> clear_of x earlier \<and> clear_of x [e]" for x by (auto simp: clear_of_def)
  with 2 show ?case by auto
qed simp

text \<open>A table with readable interface names is one a restart loads.\<close>

lemma table_nets_ok:
  assumes "table_ok t" "\<forall>e \<in> set t. nd_in_use e \<longrightarrow> ifnames_ok e"
  shows "nets_ok (filter nd_in_use t)"
proof -
  have "clear_of (t ! j) [t ! i]" if "i < j" "j < length t" "nd_in_use (t ! i)" "nd_in_use (t ! j)" for i j
  proof -
    have "net_subnet (t ! j) \<inter> net_subnet (t ! i) = {}" using assms(1) that by (auto simp: table_ok_def disjoint_subnets_def)
    then have "\<not> ranges_overlap (nd_base (t ! j)) (nd_prefix_len (t ! j)) (nd_base (t ! i)) (nd_prefix_len (t ! i))"
      using entry_overlap_iff [of "t ! j" "t ! i"] table_entry_ok [OF assms(1)] that by simp
    moreover have "nd_name (t ! i) \<noteq> nd_name (t ! j)"
      using keys_uniqueD [of nd_in_use nd_name t i j] assms(1) that by (auto simp: table_ok_def)
    ultimately show ?thesis by (simp add: clear_of_def)
  qed
  then have "sorted_wrt (\<lambda>x e. nd_in_use x \<and> nd_in_use e \<longrightarrow> clear_of e [x]) t" by (simp add: sorted_wrt_iff_nth_less)
  then have "sorted_wrt (\<lambda>x e. nd_in_use x \<and> nd_in_use e \<longrightarrow> clear_of e [x]) (filter nd_in_use t)" by (rule sorted_wrt_filter)
  then have "sorted_wrt (\<lambda>x e. clear_of e [x]) (filter nd_in_use t)" by (rule sorted_wrt_mono_rel [rotated]) auto
  moreover have "length (filter nd_in_use t) \<le> NETWORK_MAX"
    using assms(1) length_filter_le [of nd_in_use t] by (simp add: table_ok_def)
  ultimately show ?thesis using assms by (auto simp: nets_ok_def all_clear_iff table_ok_def clear_of_def)
qed

section \<open>What the operations accept\<close>

lemma address_valid_facts:
  assumes "address_str_is_valid s b p = Some a" "aligned b p" "8 \<le> p" "p \<le> 30"
  shows "inet_pton s = Some a" "a \<in> subnet b p" "a \<noteq> b"
proof -
  from assms(1) show "inet_pton s = Some a" and sub: "a \<in> subnet b p"
    by (auto simp: address_str_is_valid_def subnet_def Let_def bind_eq_Some_conv split: if_splits)
  from assms(1) show "a \<noteq> b"
    by (auto simp: address_str_is_valid_def Let_def bind_eq_Some_conv split: if_splits)
qed

lemma alloc_bound_range:
  assumes "parse_alloc_bound s b p = Some h" "aligned b p" "8 \<le> p" "p \<le> 30"
  shows "0 \<le> h" "h \<le> host_max_for_prefix p"
proof -
  have max: "0 \<le> host_max_for_prefix p"
  proof -
    have "(2 :: int) ^ 2 \<le> 2 ^ nat (32 - p)" using assms(4) by (intro power_increasing) auto
    with assms(3,4) show ?thesis by (simp add: host_max_nat)
  qed
  have "h = 0 \<or> (\<exists>a. a AND mask_for_prefix p = b \<and> h = sint (a - b) \<and> h \<le> host_max_for_prefix p)"
    using assms(1) by (auto simp: parse_alloc_bound_def Let_def bind_eq_Some_conv split: option.splits if_splits)
  moreover have "0 \<le> sint (a - b)" if "a AND mask_for_prefix p = b" for a
    using sint_host_part(1) [OF assms(2,3), of a] assms(4) that by (simp add: subnet_def)
  ultimately show "0 \<le> h" "h \<le> host_max_for_prefix p" using max by auto
qed

end
