(* ===== verification/Network_Props.thy ===== *)
theory Network_Props
  imports Network
begin

text \<open>
  What the network module keeps true.  Its operations are the steps of a transition relation; every
  reachable state has unique network names, pairwise disjoint subnets and a management address that
  lies in exactly one network.  On these rest the properties of address allocation, of failed
  creations, of the management network and of the restart.
\<close>

section \<open>One step\<close>

definition net_frame :: "netstate \<Rightarrow> netstate \<Rightarrow> bool" where
  "net_frame ns ns' = (ns_have_mgmt ns' = ns_have_mgmt ns \<and> ns_mgmt_address ns' = ns_mgmt_address ns \<and>
     ns_state_path ns' = ns_state_path ns \<and> ns_have_legacy_mgmt ns' = ns_have_legacy_mgmt ns \<and>
     ns_legacy_mgmt_address ns' = ns_legacy_mgmt_address ns)"

definition has_management :: "netstate \<Rightarrow> bool" where
  "has_management ns = (ns_have_mgmt ns \<longrightarrow> network_find_management ns \<noteq> None)"

definition net_inv :: "netstate \<Rightarrow> bool" where
  "net_inv ns = (table_ok (ns_networks ns) \<and> ns_fs ns \<noteq> [] \<and> has_management ns)"

lemma has_management_iff:
  "has_management ns \<longleftrightarrow> (ns_have_mgmt ns \<longrightarrow> (\<exists>j < length (ns_networks ns). nd_in_use (ns_networks ns ! j) \<and>
     net_contains (ns_networks ns ! j) (ns_mgmt_address ns)))"
proof -
  have "(\<exists>x \<in> set t. P x) \<longleftrightarrow> (\<exists>j < length t. P (t ! j))" for t :: "network_def list" and P by (metis in_set_conv_nth)
  then show ?thesis by (simp add: has_management_def network_find_management_def network_find_containing_def find_index_None)
qed

text \<open>A write to a slot that is not the management network, or keeps its subnet, keeps the management network.\<close>

lemma has_management_update:
  assumes "has_management ns" "net_frame ns ns'" "ns_networks ns' = (ns_networks ns)[i := e]"
    and "net_is_management ns (ns_networks ns ! i) \<Longrightarrow> nd_in_use e \<and> nd_base e = nd_base (ns_networks ns ! i) \<and>
      nd_prefix_len e = nd_prefix_len (ns_networks ns ! i)"
  shows "has_management ns'"
  unfolding has_management_iff
proof
  assume h: "ns_have_mgmt ns'"
  with assms(1,2) obtain j where j: "j < length (ns_networks ns)" "nd_in_use (ns_networks ns ! j)"
    "net_contains (ns_networks ns ! j) (ns_mgmt_address ns)" by (auto simp: has_management_iff net_frame_def)
  have "nd_in_use (ns_networks ns' ! j) \<and> net_contains (ns_networks ns' ! j) (ns_mgmt_address ns')"
  proof (cases "j = i")
    case True
    with j h assms show ?thesis by (auto simp: net_is_management_def net_frame_def net_contains_def)
  next
    case False
    with j assms(2,3) show ?thesis by (simp add: net_frame_def)
  qed
  with j assms(3) show "\<exists>j < length (ns_networks ns'). nd_in_use (ns_networks ns' ! j) \<and> net_contains (ns_networks ns' ! j) (ns_mgmt_address ns')"
    by auto
qed

lemma net_inv_update:
  assumes "net_inv ns" "net_frame ns ns'" "ns_networks ns' = (ns_networks ns)[i := e]" "ns_fs ns' \<noteq> []"
    and "table_ok (ns_networks ns')"
    and "net_is_management ns (ns_networks ns ! i) \<Longrightarrow> nd_in_use e \<and> nd_base e = nd_base (ns_networks ns ! i) \<and>
      nd_prefix_len e = nd_prefix_len (ns_networks ns ! i)"
  shows "net_inv ns'"
  using assms has_management_update [OF _ assms(2,3,6)] by (auto simp: net_inv_def)

text \<open>Changes outside the table.\<close>

lemma net_inv_log [simp]: "net_inv (ns\<lparr>ns_log := l\<rparr>) = net_inv ns"
  by (simp add: net_inv_def has_management_iff)

lemma net_frame_log [simp]: "net_frame ns (ns\<lparr>ns_log := l\<rparr>)" "net_frame ns ns"
  by (simp_all add: net_frame_def)

text \<open>A change of one slot that is then saved, and undone when the save fails.\<close>

lemma saved_step:
  assumes "net_inv ns" "table_ok ((ns_networks ns)[i := e])"
    and "net_is_management ns (ns_networks ns ! i) \<Longrightarrow> nd_in_use e \<and> nd_base e = nd_base (ns_networks ns ! i) \<and>
      nd_prefix_len e = nd_prefix_len (ns_networks ns ! i)"
  shows "\<exists>ns' rc. save_state env (ns\<lparr>ns_log := l, ns_networks := (ns_networks ns)[i := e]\<rparr>) = Some (ns', rc) \<and>
    net_inv ns' \<and> net_frame ns ns' \<and> ns_networks ns' = (ns_networks ns)[i := e] \<and> ns_log ns' = l \<and> ns_fs ns' \<noteq> [] \<and>
    hd (ns_fs ns') (ns_state_path ns) =
      (if rc = 0 then Some (nets_text ((ns_networks ns)[i := e])) else hd (ns_fs ns) (ns_state_path ns))"
proof -
  let ?s = "ns\<lparr>ns_log := l, ns_networks := (ns_networks ns)[i := e]\<rparr>"
  have "table_ok (ns_networks ?s)" using assms(2) by simp
  then obtain v rc where v: "save_state env ?s = Some (?s\<lparr>ns_fs := v @ tl (ns_fs ?s)\<rparr>, rc)" "v \<noteq> []"
    "hd v (ns_state_path ?s) = (if rc = 0 then Some (nets_text (ns_networks ?s)) else hd (ns_fs ?s) (ns_state_path ?s))"
    by (rule save_state_cases)
  have f: "net_frame ns (?s\<lparr>ns_fs := v @ tl (ns_fs ?s)\<rparr>)" by (simp add: net_frame_def)
  have "net_inv (?s\<lparr>ns_fs := v @ tl (ns_fs ?s)\<rparr>)"
    using v(2) assms(2) by (intro net_inv_update [OF assms(1) f _ _ _ assms(3)]) auto
  with v f show ?thesis by auto
qed

lemma delete_inv:
  assumes inv: "net_inv ns"
  shows "\<exists>ns' err. network_delete env kern reg name ns = Some (ns', err) \<and> net_inv ns' \<and> net_frame ns ns'"
proof (cases "network_find (ns_networks ns) name")
  case None
  with inv show ?thesis by (simp add: network_delete_def)
next
  case (Some i)
  let ?e = "ns_networks ns ! i"
  let ?l = "snd (rtnl kern (RtLinkDelete name) (release_interfaces kern (nd_interfaces ?e) (snd (rtnl kern RtOpen (ns_log ns)))))"
  show ?thesis
  proof (cases "net_is_management ns ?e")
    case True
    with Some inv show ?thesis by (simp add: network_delete_def Let_def)
  next
    case False
    have t: "table_ok ((ns_networks ns)[i := ?e\<lparr>nd_in_use := False, nd_interfaces := []\<rparr>])"
      using inv by (intro table_clear) (auto simp: net_inv_def)
    obtain ns' rc where "save_state env (ns\<lparr>ns_log := ?l, ns_networks := (ns_networks ns)[i := ?e\<lparr>nd_in_use := False, nd_interfaces := []\<rparr>]\<rparr>) =
        Some (ns', rc)" "net_inv ns'" "net_frame ns ns'"
      using saved_step [OF inv t, of env ?l] False by blast
    with Some False inv show ?thesis by (auto simp: network_delete_def Let_def case_prod_beta)
  qed
qed

lemma detach_inv:
  assumes inv: "net_inv ns"
  shows "\<exists>ns' err. network_detach_interface env kern name ifname ns = Some (ns', err) \<and> net_inv ns' \<and> net_frame ns ns'"
proof (cases "network_find (ns_networks ns) name")
  case None
  with inv show ?thesis by (simp add: network_detach_interface_def)
next
  case (Some n)
  let ?e = "ns_networks ns ! n"
  show ?thesis
  proof (cases "net_is_management ns ?e \<or> find_index (\<lambda>i. ai_ifname i = ifname) (nd_interfaces ?e) = None")
    case True
    with Some inv show ?thesis by (auto simp: network_detach_interface_def Let_def)
  next
    case False
    then obtain idx where idx: "find_index (\<lambda>i. ai_ifname i = ifname) (nd_interfaces ?e) = Some idx" by auto
    let ?v = "ai_vlan_id (nd_interfaces ?e ! idx)"
    let ?l = "snd (rtnl kern (if ?v \<noteq> 0 then RtLinkDelete (snprintf_s NETWORK_IFNAME_MAX (derived_name ifname ?v))
        else RtClearMaster ifname) (snd (rtnl kern RtOpen (ns_log ns))))"
    let ?e' = "?e\<lparr>nd_interfaces := remove_at idx (nd_interfaces ?e)\<rparr>"
    from network_find_Some [OF Some] inv have n: "n < length (ns_networks ns)" "nd_in_use ?e" "entry_ok ?e"
      by (auto simp: net_inv_def intro: table_entry_ok)
    have "idx < length (nd_interfaces ?e)" using find_index_Some [OF idx] by simp
    then have "entry_ok ?e'"
      using n(3) by (auto simp: entry_ok_def remove_at_def net_subnet_def dest: in_set_takeD in_set_dropD)
    then have t: "table_ok ((ns_networks ns)[n := ?e'])"
      using inv n by (intro table_modify) (auto simp: net_inv_def)
    obtain ns' rc where "save_state env (ns\<lparr>ns_log := ?l, ns_networks := (ns_networks ns)[n := ?e']\<rparr>) = Some (ns', rc)"
        "net_inv ns'" "net_frame ns ns'"
      using saved_step [OF inv t, of env ?l] n(2) by simp blast
    with Some False idx inv show ?thesis by (auto simp: network_detach_interface_def Let_def case_prod_beta)
  qed
qed

lemma attach_inv:
  assumes inv: "net_inv ns" and vlan: "\<bar>vlan_id\<bar> \<le> INT_MAX"
  shows "\<exists>ns' err. network_attach_interface env kern device_find name ifname vlan_id ns = Some (ns', err) \<and> net_inv ns' \<and> net_frame ns ns'"
proof (cases "network_find (ns_networks ns) name")
  case None
  with inv show ?thesis by (simp add: network_attach_interface_def)
next
  case (Some n)
  let ?e = "ns_networks ns ! n"
  show ?thesis
  proof (cases "length (nd_interfaces ?e) < NETWORK_MAX_INTERFACES")
    case False
    with Some inv show ?thesis by (auto simp: network_attach_interface_def Let_def)
  next
    case True
    let ?i = "\<lparr>ai_ifname = snprintf_s NETWORK_IFNAME_MAX ifname, ai_vlan_id = vlan_id\<rparr>"
    let ?l = "snd (network_apply_interface kern ?e ?i False (snd (rtnl kern RtOpen (ns_log ns))))"
    let ?e' = "?e\<lparr>nd_interfaces := nd_interfaces ?e @ [?i]\<rparr>"
    from network_find_Some [OF Some] inv have n: "n < length (ns_networks ns)" "nd_in_use ?e" "entry_ok ?e"
      by (auto simp: net_inv_def intro: table_entry_ok)
    then have "entry_ok ?e'" using True vlan by (auto simp: entry_ok_def net_subnet_def)
    then have t: "table_ok ((ns_networks ns)[n := ?e'])"
      using inv n by (intro table_modify) (auto simp: net_inv_def)
    obtain ns' rc where s: "save_state env (ns\<lparr>ns_log := ?l, ns_networks := (ns_networks ns)[n := ?e']\<rparr>) = Some (ns', rc)"
        "net_inv ns'" "net_frame ns ns'" "ns_networks ns' = (ns_networks ns)[n := ?e']" "ns_fs ns' \<noteq> []"
      using saved_step [OF inv t, of env ?l] n(2) by simp blast
    have undone: "net_inv (ns'\<lparr>ns_networks := (ns_networks ns')[n := ?e], ns_log := l\<rparr>)"
        "net_frame ns (ns'\<lparr>ns_networks := (ns_networks ns')[n := ?e], ns_log := l\<rparr>)" for l
      using inv s(3-5) by (auto simp: net_inv_def net_frame_def has_management_iff)
    show ?thesis using Some s(1-3) undone inv by (auto simp: network_attach_interface_def Let_def case_prod_beta)
  qed
qed

lemma window_inv:
  assumes inv: "net_inv ns"
  shows "\<exists>ns' err. network_set_alloc_window env name a b ns = Some (ns', err) \<and> net_inv ns' \<and> net_frame ns ns'"
proof (cases "network_find (ns_networks ns) name")
  case None
  with inv show ?thesis by (simp add: network_set_alloc_window_def)
next
  case (Some n)
  let ?e = "ns_networks ns ! n"
  from network_find_Some [OF Some] inv have n: "n < length (ns_networks ns)" "nd_in_use ?e" "entry_ok ?e"
    by (auto simp: net_inv_def intro: table_entry_ok)
  have bound: "0 \<le> h \<and> h \<le> host_max_for_prefix (nd_prefix_len ?e)"
    if "window_bound s ?e cur = Some h" "0 \<le> cur" "cur \<le> host_max_for_prefix (nd_prefix_len ?e)" for s cur h
    using that n(3) alloc_bound_range [of s "nd_base ?e" "nd_prefix_len ?e" h]
    by (auto simp: window_bound_def entry_ok_def split: option.splits if_splits)
  show ?thesis
  proof (cases "window_bound a ?e (nd_alloc_start_host ?e) = None \<or> window_bound b ?e (nd_alloc_end_host ?e) = None")
    case True
    with Some inv show ?thesis by (auto simp: network_set_alloc_window_def Let_def split: option.splits)
  next
    case False
    then obtain as ae where w: "window_bound a ?e (nd_alloc_start_host ?e) = Some as" "window_bound b ?e (nd_alloc_end_host ?e) = Some ae" by auto
    let ?e' = "?e\<lparr>nd_alloc_start_host := as, nd_alloc_end_host := ae\<rparr>"
    have "entry_ok ?e'" using n(3) bound [OF w(1)] bound [OF w(2)] by (auto simp: entry_ok_def net_subnet_def)
    then have t: "table_ok ((ns_networks ns)[n := ?e'])"
      using inv n by (intro table_modify) (auto simp: net_inv_def)
    obtain ns' rc where "save_state env (ns\<lparr>ns_networks := (ns_networks ns)[n := ?e']\<rparr>) = Some (ns', rc)"
        "net_inv ns'" "net_frame ns ns'"
      using saved_step [OF inv t, of env "ns_log ns"] n(2) by simp blast
    with Some w inv show ?thesis by (auto simp: network_set_alloc_window_def Let_def case_prod_beta)
  qed
qed

lemma set_management_inv:
  assumes "net_inv ns"
  shows "net_inv (fst (network_set_management_address address ns))"
  using assms
  by (auto simp: network_set_management_address_def net_inv_def has_management_def network_find_management_def split: option.splits)

section \<open>Creation\<close>

text \<open>The bridges this daemon has made and not removed, as the answered calls tell.\<close>

fun bridges :: "rt_log \<Rightarrow> string set" where
  "bridges [] = {}"
| "bridges ((RtBridgeCreate n, RtOk) # lg) = insert n (bridges lg)"
| "bridges ((RtLinkDelete n, RtOk) # lg) = bridges lg - {n}"
| "bridges (_ # lg) = bridges lg"

text \<open>The newest call is the rollback, and the kernel refused it.\<close>

definition rollback_refused :: "string \<Rightarrow> rt_log \<Rightarrow> bool" where
  "rollback_refused name lg = (case lg of [] \<Rightarrow> False | (c, r) # _ \<Rightarrow> r \<noteq> RtOk \<and> (c = RtLinkDelete name \<or> c = RtOpen))"

definition bridge_kept :: "string \<Rightarrow> rt_log \<Rightarrow> rt_log \<Rightarrow> bool" where
  "bridge_kept name lg lg' = (bridges lg' = bridges lg \<or> bridges lg' = insert name (bridges lg) \<and> rollback_refused name lg')"

lemma bridges_refused: "r \<noteq> RtOk \<Longrightarrow> bridges ((c, r) # lg) = bridges lg"
  by (cases r; cases c) auto

lemma bridges_other: "(\<And>n. c \<noteq> RtBridgeCreate n \<and> c \<noteq> RtLinkDelete n) \<Longrightarrow> bridges ((c, r) # lg) = bridges lg"
  by (cases r; cases c) auto

lemma delete_call_kept:
  assumes "bridges lg = insert name (bridges lg0)" "name \<notin> bridges lg0"
  shows "bridge_kept name lg0 (snd (rtnl kern (RtLinkDelete name) lg))"
  using assms
  by (cases "kern lg (RtLinkDelete name)") (auto simp: rtnl_def bridge_kept_def rollback_refused_def)

lemma undo_call_kept:
  assumes "bridges lg = insert name (bridges lg0)" "name \<notin> bridges lg0"
  shows "bridge_kept name lg0 (undo_call kern (RtLinkDelete name) lg)"
proof (cases "kern lg RtOpen = RtOk")
  case True
  have "bridges ((RtOpen, RtOk) # lg) = insert name (bridges lg0)" using assms(1) by simp
  from delete_call_kept [OF this assms(2), of kern] True show ?thesis by (simp add: undo_call_def rtnl_def)
next
  case False
  with assms(1) show ?thesis
    by (auto simp: undo_call_def rtnl_def bridge_kept_def rollback_refused_def bridges_refused)
qed

lemma create_bridge_effect:
  assumes "create_bridge kern e lg = (ok, lg')" "nd_name e \<notin> bridges lg"
  shows "ok \<Longrightarrow> bridges lg' = insert (nd_name e) (bridges lg)" "\<not> ok \<Longrightarrow> bridge_kept (nd_name e) lg lg'"
proof -
  let ?l1 = "snd (rtnl kern RtOpen lg)"
  let ?l2 = "snd (rtnl kern (RtBridgeCreate (nd_name e)) ?l1)"
  let ?a = "if nd_has_address e then rtnl kern (RtAddrAdd (nd_name e) (nd_address e) (nd_prefix_len e)) ?l2 else (RtOk, ?l2)"
  let ?l4 = "snd (rtnl kern (RtLinkUp (nd_name e)) (snd ?a))"
  have b1: "bridges ?l1 = bridges lg" by (simp add: rtnl_def bridges_other)
  have b2: "fst (rtnl kern (RtBridgeCreate (nd_name e)) ?l1) = RtOk \<Longrightarrow> bridges ?l2 = insert (nd_name e) (bridges lg)"
    using b1 by (simp add: rtnl_def)
  have b3: "bridges (snd ?a) = bridges ?l2" by (simp add: rtnl_def bridges_other)
  have b4: "bridges ?l4 = bridges (snd ?a)" by (simp add: rtnl_def bridges_other)
  have fail: "fst (rtnl kern (RtBridgeCreate (nd_name e)) ?l1) \<noteq> RtOk \<Longrightarrow> bridges ?l2 = bridges lg"
    using b1 by (simp add: rtnl_def bridges_refused)
  have d: "bridge_kept (nd_name e) lg (snd (rtnl kern (RtLinkDelete (nd_name e)) l))" if "bridges l = insert (nd_name e) (bridges lg)" for l
    using delete_call_kept [OF that assms(2)] .
  have eq: "create_bridge kern e lg =
      (if fst (rtnl kern RtOpen lg) \<noteq> RtOk then (False, ?l1)
       else if fst (rtnl kern (RtBridgeCreate (nd_name e)) ?l1) \<noteq> RtOk then (False, ?l2)
       else if fst ?a \<noteq> RtOk then (False, snd (rtnl kern (RtLinkDelete (nd_name e)) (snd ?a)))
       else if fst (rtnl kern (RtLinkUp (nd_name e)) (snd ?a)) \<noteq> RtOk then (False, snd (rtnl kern (RtLinkDelete (nd_name e)) ?l4))
       else (True, ?l4))"
    by (simp add: create_bridge_def Let_def case_prod_beta)
  show "bridges lg' = insert (nd_name e) (bridges lg)" if ok
    using assms(1) that b2 b3 b4 unfolding eq by (simp split: if_splits)
  show "bridge_kept (nd_name e) lg lg'" if "\<not> ok"
    using assms(1) that b1 b2 b3 b4 d [of "snd ?a"] d [of ?l4] fail unfolding eq by (auto simp: bridge_kept_def split: if_splits)
qed

lemma filter_update_unused:
  "\<not> nd_in_use (t ! i) \<Longrightarrow> \<not> nd_in_use e \<Longrightarrow> filter nd_in_use (t[i := e]) = filter nd_in_use t"
proof (induction t arbitrary: i)
  case (Cons x t)
  then show ?case by (cases i) auto
qed simp

text \<open>A creation that has not succeeded leaves the networks, the file and the bridges as they were.\<close>

definition create_undone :: "string \<Rightarrow> netstate \<Rightarrow> netstate \<Rightarrow> bool" where
  "create_undone name ns ns' = (filter nd_in_use (ns_networks ns') = filter nd_in_use (ns_networks ns) \<and>
     hd (ns_fs ns') (ns_state_path ns) = hd (ns_fs ns) (ns_state_path ns) \<and>
     (name \<notin> bridges (ns_log ns) \<longrightarrow> bridge_kept name (ns_log ns) (ns_log ns')))"

definition create_done :: "network_def \<Rightarrow> netstate \<Rightarrow> netstate \<Rightarrow> bool" where
  "create_done e ns ns' = (\<exists>slot. network_free_slot (ns_networks ns) = Some slot \<and> ns_networks ns' = (ns_networks ns)[slot := e] \<and>
     entry_ok e \<and> nd_in_use e \<and> hd (ns_fs ns') (ns_state_path ns) = Some (nets_text (ns_networks ns')) \<and>
     (nd_name e \<notin> bridges (ns_log ns) \<longrightarrow> bridges (ns_log ns') = insert (nd_name e) (bridges (ns_log ns))))"

lemma create_commit_cases:
  assumes inv: "net_inv ns" and free: "network_free_slot (ns_networks ns) = Some slot"
    and fresh: "network_find (ns_networks ns) (nd_name e) = None"
    and ok: "entry_ok (e\<lparr>nd_in_use := True\<rparr>)" "\<not> nd_in_use e"
    and apart: "\<not> list_ex (\<lambda>x. nd_in_use x \<and> ranges_overlap (nd_base e) (nd_prefix_len e) (nd_base x) (nd_prefix_len x)) (ns_networks ns)"
    and lg: "nd_name e \<notin> bridges (ns_log ns) \<Longrightarrow> bridges lg = insert (nd_name e) (bridges (ns_log ns))"
  shows "\<exists>ns' err. create_commit env kern slot e (ns\<lparr>ns_networks := (ns_networks ns)[slot := e], ns_log := lg\<rparr>) = Some (ns', err) \<and>
    net_inv ns' \<and> net_frame ns ns' \<and> (err = NETWORK_OK \<and> create_done (e\<lparr>nd_in_use := True\<rparr>) ns ns' \<or>
      err = NETWORK_ERR_CREATE_FAILED \<and> create_undone (nd_name e) ns ns')"
proof -
  let ?e = "e\<lparr>nd_in_use := True\<rparr>" and ?t = "ns_networks ns"
  have slot: "slot < length ?t" "\<not> nd_in_use (?t ! slot)" using nets.free_SomeD [OF free] by auto
  have t: "table_ok (?t[slot := ?e])" using inv free fresh ok apart by (intro table_insert) (auto simp: net_inv_def)
  have k: "\<not> net_is_management ns (?t ! slot)" using slot by (simp add: net_is_management_def)
  obtain ns' rc where s: "save_state env (ns\<lparr>ns_log := lg, ns_networks := ?t[slot := ?e]\<rparr>) = Some (ns', rc)"
    "net_inv ns'" "net_frame ns ns'" "ns_networks ns' = ?t[slot := ?e]" "ns_log ns' = lg" "ns_fs ns' \<noteq> []"
    "hd (ns_fs ns') (ns_state_path ns) = (if rc = 0 then Some (nets_text (?t[slot := ?e])) else hd (ns_fs ns) (ns_state_path ns))"
    using saved_step [OF inv t, of env lg] k by blast
  have call: "create_commit env kern slot e (ns\<lparr>ns_networks := ?t[slot := e], ns_log := lg\<rparr>) =
      Some (if rc \<noteq> 0 then (ns'\<lparr>ns_networks := ?t[slot := e\<lparr>nd_in_use := False\<rparr>],
          ns_log := undo_call kern (RtLinkDelete (nd_name e)) lg\<rparr>, NETWORK_ERR_CREATE_FAILED) else (ns', NETWORK_OK))"
    using s(1,4,5) by (simp add: create_commit_def)
  show ?thesis
  proof (cases "rc = 0")
    case True
    with s free ok lg have "create_done ?e ns ns'" by (auto simp: create_done_def)
    with True call s(2,3) show ?thesis by simp
  next
    case False
    let ?u = "ns'\<lparr>ns_networks := ?t[slot := e\<lparr>nd_in_use := False\<rparr>], ns_log := undo_call kern (RtLinkDelete (nd_name e)) lg\<rparr>"
    have f: "net_frame ns ?u" using s(3) by (simp add: net_frame_def)
    have "net_inv ?u" using inv s(6) k by (intro net_inv_update [OF inv f, of slot]) (auto simp: net_inv_def intro: table_clear)
    moreover have "create_undone (nd_name e) ns ?u"
      using False s(7) slot lg undo_call_kept [of lg "nd_name e" "ns_log ns" kern]
      by (auto simp: create_undone_def filter_update_unused)
    ultimately show ?thesis using False call f by simp
  qed
qed

text \<open>What the checks of \<open>network_create\<close> establish about the entry they build.\<close>

definition draft_ok :: "network_def \<Rightarrow> bool" where
  "draft_ok e = (network_name_is_valid (Some (nd_name e)) \<and> 8 \<le> nd_prefix_len e \<and> nd_prefix_len e \<le> 30 \<and>
     aligned (nd_base e) (nd_prefix_len e) \<and> nd_interfaces e = [] \<and> \<not> nd_in_use e \<and>
     (nd_has_address e \<longrightarrow> nd_address e \<in> net_subnet e) \<and> (\<not> nd_has_address e \<longrightarrow> nd_address e = 0))"

lemma draft_entry_ok:
  assumes "draft_ok e" "parse_alloc_bound s (nd_base e) (nd_prefix_len e) = Some as"
    "parse_alloc_bound t (nd_base e) (nd_prefix_len e) = Some ae"
  shows "entry_ok (e\<lparr>nd_alloc_start_host := as, nd_alloc_end_host := ae, nd_in_use := True\<rparr>)"
  using assms(1) alloc_bound_range [OF assms(2)] alloc_bound_range [OF assms(3)]
  by (auto simp: draft_ok_def entry_ok_def net_subnet_def)

lemma create_in_slot_cases:
  assumes inv: "net_inv ns" and free: "network_free_slot (ns_networks ns) = Some slot"
    and fresh: "network_find (ns_networks ns) (nd_name e) = None" and draft: "draft_ok e"
    and apart: "\<not> list_ex (\<lambda>x. nd_in_use x \<and> ranges_overlap (nd_base e) (nd_prefix_len e) (nd_base x) (nd_prefix_len x)) (ns_networks ns)"
  shows "\<exists>ns' err. create_in_slot env kern slot e s1 s2 ns = Some (ns', err) \<and> net_inv ns' \<and> net_frame ns ns' \<and>
    (err = NETWORK_OK \<and> (\<exists>as ae. create_done (e\<lparr>nd_alloc_start_host := as, nd_alloc_end_host := ae, nd_in_use := True\<rparr>) ns ns') \<or>
     err \<noteq> NETWORK_OK \<and> create_undone (nd_name e) ns ns')"
proof -
  let ?t = "ns_networks ns"
  have slot: "slot < length ?t" "\<not> nd_in_use (?t ! slot)" using nets.free_SomeD [OF free] by auto
  have k: "\<not> net_is_management ns (?t ! slot)" using slot by (simp add: net_is_management_def)
  have cleared: "net_inv (ns\<lparr>ns_networks := ?t[slot := x], ns_log := l\<rparr>)" "net_frame ns (ns\<lparr>ns_networks := ?t[slot := x], ns_log := l\<rparr>)"
    if "\<not> nd_in_use x" for x l
  proof -
    show f: "net_frame ns (ns\<lparr>ns_networks := ?t[slot := x], ns_log := l\<rparr>)" by (simp add: net_frame_def)
    show "net_inv (ns\<lparr>ns_networks := ?t[slot := x], ns_log := l\<rparr>)"
      using inv k that by (intro net_inv_update [OF inv f, of slot x]) (auto simp: net_inv_def intro: table_clear)
  qed
  show ?thesis
  proof (cases "\<exists>as ae. parse_alloc_bound s1 (nd_base e) (nd_prefix_len e) = Some as \<and>
      parse_alloc_bound s2 (nd_base e) (nd_prefix_len e) = Some ae \<and> \<not> (as \<noteq> 0 \<and> ae \<noteq> 0 \<and> ae < as)")
    case False
    let ?n = "ns\<lparr>ns_networks := ?t[slot := e\<lparr>nd_has_address := False, nd_address := 0\<rparr>]\<rparr>"
    have "create_in_slot env kern slot e s1 s2 ns = Some (?n, NETWORK_ERR_INVALID_ADDRESS)"
      using False by (auto simp: create_in_slot_def Let_def split: bind_splits)
    moreover have "create_undone (nd_name e) ns ?n"
      using slot draft by (auto simp: create_undone_def filter_update_unused draft_ok_def bridge_kept_def)
    moreover have "net_inv ?n" "net_frame ns ?n"
      using cleared [of "e\<lparr>nd_has_address := False, nd_address := 0\<rparr>" "ns_log ns"] draft by (auto simp: draft_ok_def)
    ultimately show ?thesis by auto
  next
    case True
    then obtain as ae where w: "parse_alloc_bound s1 (nd_base e) (nd_prefix_len e) = Some as"
      "parse_alloc_bound s2 (nd_base e) (nd_prefix_len e) = Some ae" "\<not> (as \<noteq> 0 \<and> ae \<noteq> 0 \<and> ae < as)" by blast
    define x where "x = e\<lparr>nd_alloc_start_host := as, nd_alloc_end_host := ae\<rparr>"
    have x: "\<not> nd_in_use x" "nd_name x = nd_name e" "nd_base x = nd_base e" "nd_prefix_len x = nd_prefix_len e"
      using draft by (auto simp: x_def draft_ok_def)
    obtain ok lg where b: "create_bridge kern x (ns_log ns) = (ok, lg)" by fastforce
    let ?n = "ns\<lparr>ns_networks := ?t[slot := x], ns_log := lg\<rparr>"
    have call: "create_in_slot env kern slot e s1 s2 ns = (if \<not> ok then Some (?n, NETWORK_ERR_CREATE_FAILED) else create_commit env kern slot x ?n)"
      using w b by (auto simp: create_in_slot_def x_def [symmetric] Let_def)
    note eff = create_bridge_effect [OF b]
    show ?thesis
    proof (cases ok)
      case False
      then have "create_undone (nd_name e) ns ?n"
        using slot x eff(2) by (auto simp: create_undone_def filter_update_unused)
      with False call cleared [OF x(1)] show ?thesis by auto
    next
      case True
      have "entry_ok (x\<lparr>nd_in_use := True\<rparr>)" using draft_entry_ok [OF draft w(1,2)] by (simp add: x_def)
      from create_commit_cases [OF inv free _ this x(1), of lg env kern] fresh apart x eff(1) True
      obtain ns' err where c: "create_commit env kern slot x ?n = Some (ns', err)" "net_inv ns'" "net_frame ns ns'"
        "err = NETWORK_OK \<and> create_done (x\<lparr>nd_in_use := True\<rparr>) ns ns' \<or>
          err = NETWORK_ERR_CREATE_FAILED \<and> create_undone (nd_name e) ns ns'" by auto
      then show ?thesis using call True unfolding x_def by auto
    qed
  qed
qed

text \<open>A creation is refused before it touches anything, undone, or done.\<close>

lemma create_cases:
  assumes inv: "net_inv ns"
  shows "\<exists>ns' err. network_create env kern name subnet_str prefix_len address_str s1 s2 ns = Some (ns', err) \<and> net_inv ns' \<and> net_frame ns ns' \<and>
    (err = NETWORK_OK \<and> (\<exists>e. nd_name e = the name \<and> inet_pton subnet_str = Some (nd_base e) \<and> nd_prefix_len e = prefix_len \<and> create_done e ns ns') \<or>
     err \<noteq> NETWORK_OK \<and> create_undone (the name) ns ns')"
proof -
  have same: "create_undone n ns ns" for n by (simp add: create_undone_def bridge_kept_def)
  let ?t = "ns_networks ns"
  let ?has = "address_str \<noteq> None \<and> address_str \<noteq> Some []"
  let ?addr = "the (inet_pton subnet_str)"
  let ?a = "if ?has then address_str_is_valid (the address_str) ?addr prefix_len else Some 0"
  show ?thesis
  proof (cases "network_name_is_valid name \<and> network_find ?t (the name) = None \<and> 8 \<le> prefix_len \<and> prefix_len \<le> 30 \<and>
      inet_pton subnet_str \<noteq> None \<and> aligned ?addr prefix_len \<and> ?a \<noteq> None \<and>
      \<not> list_ex (\<lambda>e. nd_in_use e \<and> ranges_overlap ?addr prefix_len (nd_base e) (nd_prefix_len e)) ?t \<and> network_free_slot ?t \<noteq> None")
    case False
    then have "\<exists>err. err \<noteq> NETWORK_OK \<and> network_create env kern name subnet_str prefix_len address_str s1 s2 ns = Some (ns, err)"
    proof -
      have refuse: "\<exists>err. err \<noteq> NETWORK_OK \<and> (if c then Some (ns, E) else y) = Some (ns, err)"
        if "\<not> c \<Longrightarrow> \<exists>err. err \<noteq> NETWORK_OK \<and> y = Some (ns, err)" "E \<noteq> NETWORK_OK" for c E y
        using that by auto
      show ?thesis unfolding network_create_def Let_def
        by (intro refuse) (use False in \<open>auto simp: aligned_def not_le\<close>)
    qed
    with inv same show ?thesis by auto
  next
    case True
    then obtain nm addr a slot where h: "name = Some nm" "network_name_is_valid (Some nm)" "inet_pton subnet_str = Some addr"
      "?a = Some a" "network_free_slot ?t = Some slot" by (cases name) (auto simp: network_name_is_valid_def simple_name_is_valid_def)
    define e where "e = blank_network\<lparr>nd_name := snprintf_s NETWORK_NAME_MAX nm, nd_base := addr, nd_prefix_len := prefix_len,
        nd_has_address := ?has, nd_address := a\<rparr>"
    have nm: "snprintf_s NETWORK_NAME_MAX nm = nm"
      using simple_name_valid_facts(2) [of nm NETWORK_NAME_MAX] h(2) by (simp add: network_name_is_valid_def)
    have e: "nd_name e = nm" "nd_base e = addr" "nd_prefix_len e = prefix_len" using nm by (simp_all add: e_def)
    have "nd_has_address e \<Longrightarrow> nd_address e \<in> net_subnet e"
      using True h address_valid_facts(2) [of "the address_str" addr prefix_len a] by (auto simp: e_def net_subnet_def)
    moreover have "\<not> nd_has_address e \<Longrightarrow> nd_address e = 0" using h(4) by (auto simp: e_def split: if_splits)
    ultimately have draft: "draft_ok e"
      using True h e by (auto simp: draft_ok_def e_def blank_network_def)
    have call: "network_create env kern name subnet_str prefix_len address_str s1 s2 ns = create_in_slot env kern slot e s1 s2 ns"
      using True h by (auto simp: network_create_def Let_def aligned_def e_def)
    have "network_find ?t (nd_name e) = None"
      "\<not> list_ex (\<lambda>x. nd_in_use x \<and> ranges_overlap (nd_base e) (nd_prefix_len e) (nd_base x) (nd_prefix_len x)) ?t"
      using True h e by simp_all
    from create_in_slot_cases [OF inv h(5) this(1) draft this(2), of env kern s1 s2] obtain ns' err where
      r: "create_in_slot env kern slot e s1 s2 ns = Some (ns', err)" "net_inv ns'" "net_frame ns ns'"
        "err = NETWORK_OK \<and> (\<exists>as ae. create_done (e\<lparr>nd_alloc_start_host := as, nd_alloc_end_host := ae, nd_in_use := True\<rparr>) ns ns') \<or>
         err \<noteq> NETWORK_OK \<and> create_undone (nd_name e) ns ns'" by blast
    show ?thesis
    proof (cases "err = NETWORK_OK")
      case True
      with r(4) obtain as ae where "create_done (e\<lparr>nd_alloc_start_host := as, nd_alloc_end_host := ae, nd_in_use := True\<rparr>) ns ns'" by auto
      then have "\<exists>x. nd_name x = the name \<and> inet_pton subnet_str = Some (nd_base x) \<and> nd_prefix_len x = prefix_len \<and> create_done x ns ns'"
        using h(1,3) e by (intro exI conjI) auto
      with True r(1-3) call show ?thesis by auto
    next
      case False
      with r call h(1) e show ?thesis by auto
    qed
  qed
qed

section \<open>Runs\<close>

text \<open>
  One call of the module, with any outcome of its system calls and any answers of the kernel.  The
  VLAN id comes from a C \<open>int\<close>.
\<close>

inductive net_step :: "netstate \<Rightarrow> netstate \<Rightarrow> bool" where
  create: "network_create env kern name subnet_str prefix_len address_str s1 s2 ns = Some (ns', err) \<Longrightarrow> net_step ns ns'"
| delete: "network_delete env kern reg name ns = Some (ns', err) \<Longrightarrow> net_step ns ns'"
| attach: "\<bar>vlan_id\<bar> \<le> INT_MAX \<Longrightarrow>
    network_attach_interface env kern device_find name ifname vlan_id ns = Some (ns', err) \<Longrightarrow> net_step ns ns'"
| detach: "network_detach_interface env kern name ifname ns = Some (ns', err) \<Longrightarrow> net_step ns ns'"
| window: "network_set_alloc_window env name s1 s2 ns = Some (ns', err) \<Longrightarrow> net_step ns ns'"
| management: "network_set_management_address address ns = (ns', err) \<Longrightarrow> net_step ns ns'"

inductive net_reachable :: "netstate \<Rightarrow> netstate \<Rightarrow> bool" where
  start: "net_reachable ns ns"
| step: "net_reachable ns ns1 \<Longrightarrow> net_step ns1 ns2 \<Longrightarrow> net_reachable ns ns2"

lemma net_step_inv: "net_step ns ns' \<Longrightarrow> net_inv ns \<Longrightarrow> net_inv ns'"
proof (induction rule: net_step.induct)
  case (create env kern name subnet_str prefix_len address_str s1 s2 ns ns' err)
  then show ?case using create_cases [of ns env kern name subnet_str prefix_len address_str s1 s2] by auto
next
  case (delete env kern reg name ns ns' err)
  then show ?case using delete_inv [of ns env kern reg name] by auto
next
  case (attach vlan_id env kern device_find name ifname ns ns' err)
  then show ?case using attach_inv [of ns vlan_id env kern device_find name ifname] by auto
next
  case (detach env kern name ifname ns ns' err)
  then show ?case using detach_inv [of ns env kern name ifname] by auto
next
  case (window env name s1 s2 ns ns' err)
  then show ?case using window_inv [of ns env name s1 s2] by auto
next
  case (management address ns ns' err)
  then show ?case using set_management_inv [of ns address] by simp
qed

lemma net_reachable_inv: "net_reachable ns ns' \<Longrightarrow> net_inv ns \<Longrightarrow> net_inv ns'"
  by (induction rule: net_reachable.induct) (auto intro: net_step_inv)

definition empty_netstate :: "string \<Rightarrow> fs \<Rightarrow> netstate" where
  "empty_netstate path fs = \<lparr>ns_state_path = path, ns_networks = replicate NETWORK_MAX blank_network, ns_have_mgmt = False,
     ns_mgmt_address = 0, ns_have_legacy_mgmt = False, ns_legacy_mgmt_address = 0, ns_fs = [fs], ns_log = []\<rparr>"

lemma empty_netstate_inv: "net_inv (empty_netstate path fs)"
  by (auto simp: net_inv_def empty_netstate_def table_ok_def keys_unique_def disjoint_subnets_def has_management_def blank_network_def)

section \<open>Allocation\<close>

text \<open>The first and the last host part automatic allocation may hand out.\<close>

definition alloc_lo :: "netstate \<Rightarrow> network_def \<Rightarrow> int" where
  "alloc_lo ns net = (if 0 < nd_alloc_start_host net then nd_alloc_start_host net else if net_is_management ns net then 2 else 1)"

definition alloc_hi :: "network_def \<Rightarrow> int" where
  "alloc_hi net = (if 0 < nd_alloc_end_host net then nd_alloc_end_host net else host_max_for_prefix (nd_prefix_len net))"

definition in_window :: "netstate \<Rightarrow> network_def \<Rightarrow> ip \<Rightarrow> bool" where
  "in_window ns net a = (unat (nd_base net) + nat (alloc_lo ns net) \<le> unat a \<and> unat a \<le> unat (nd_base net) + nat (alloc_hi net))"

definition no_pool :: "network_def \<Rightarrow> bool" where
  "no_pool net = (nd_interfaces net \<noteq> [] \<and> nd_alloc_start_host net = 0 \<and> nd_alloc_end_host net = 0)"

definition own_address :: "network_def \<Rightarrow> ip" where
  "own_address net = (if nd_has_address net then nd_address net else 0)"

lemma alloc_ip_unfold:
  assumes "network_find (ns_networks ns) name = Some n" "entry_ok (ns_networks ns ! n)"
  shows "network_alloc_ip reg name ns = (let net = ns_networks ns ! n in if no_pool net then AllocNoPool else
    case registry_alloc_ip reg (nd_base net) (alloc_lo ns net) (alloc_hi net) (own_address net) of None \<Rightarrow> AllocFail | Some a \<Rightarrow> AllocOk a)"
proof -
  have "0 \<le> nd_alloc_start_host (ns_networks ns ! n)" using assms(2) by (simp add: entry_ok_def)
  then have "alloc_lo ns (ns_networks ns ! n) = (let net = ns_networks ns ! n;
      lo = (if 0 < nd_alloc_start_host net then nd_alloc_start_host net else 1)
      in if net_is_management ns net \<and> nd_alloc_start_host net = 0 \<and> lo < 2 then 2 else lo)"
    by (auto simp: alloc_lo_def Let_def)
  then show ?thesis using assms(1) by (simp add: network_alloc_ip_def alloc_hi_def no_pool_def own_address_def Let_def)
qed

lemma ip_available_iff:
  assumes "network_find (ns_networks ns) name = Some n" "entry_ok (ns_networks ns ! n)"
  shows "network_ip_available reg name a ns = NETWORK_OK \<longleftrightarrow> (let net = ns_networks ns ! n in
    unat (nd_base net) + 1 \<le> unat a \<and> unat a \<le> unat (nd_base net) + nat (host_max_for_prefix (nd_prefix_len net)) \<and>
    a \<noteq> own_address net \<and> registry_ip_available reg a)"
proof -
  let ?net = "ns_networks ns ! n"
  let ?b = "nd_base ?net" and ?p = "nd_prefix_len ?net"
  have ok: "aligned ?b ?p" "8 \<le> ?p" "?p \<le> 30" using assms(2) by (auto simp: entry_ok_def)
  have max: "host_max_for_prefix ?p = 2 ^ nat (32 - ?p) - 2" using ok by (intro host_max_nat) auto
  have pos: "(4 :: int) \<le> 2 ^ nat (32 - ?p)" using power_increasing [of 2 "nat (32 - ?p)" "2 :: int"] ok by simp
  have natmax: "nat (host_max_for_prefix ?p) = 2 ^ nat (32 - ?p) - 2" unfolding max using pos by (subst nat_diff_distrib) (auto simp: nat_power_eq)
  have in_sub: "a AND mask_for_prefix ?p = ?b \<longleftrightarrow> unat ?b \<le> unat a \<and> unat a - unat ?b < 2 ^ nat (32 - ?p)"
    using subnet_host_part [of ?b ?p a] ok by (simp add: subnet_def)
  have host: "a - ?b < 1 \<longleftrightarrow> unat a = unat ?b" "sint (a - ?b) = int (unat a - unat ?b)" if "a AND mask_for_prefix ?p = ?b"
  proof -
    have le: "unat ?b \<le> unat a" using that in_sub by simp
    show "a - ?b < 1 \<longleftrightarrow> unat a = unat ?b" using unat_host_part [OF le] le by (auto simp: word_less_nat_alt)
    show "sint (a - ?b) = int (unat a - unat ?b)" using sint_host_part(1) [of ?b ?p a] ok that by (simp add: subnet_def)
  qed
  have zero: "unat ?b + 1 \<le> unat a \<Longrightarrow> a \<noteq> 0" by auto
  show ?thesis
  proof (cases "a AND mask_for_prefix ?p = ?b")
    case True
    with in_sub have le: "unat ?b \<le> unat a" "unat a - unat ?b < 2 ^ nat (32 - ?p)" by auto
    have hi: "host_max_for_prefix ?p < int (unat a - unat ?b) \<longleftrightarrow> unat ?b + nat (host_max_for_prefix ?p) < unat a"
      using le(1) max pos by linarith
    show ?thesis using assms(1) True host [OF True] hi le(1) zero
      by (auto simp: network_ip_available_def Let_def own_address_def split: if_splits)
  next
    case False
    with in_sub natmax pos have "\<not> (unat ?b + 1 \<le> unat a \<and> unat a \<le> unat ?b + nat (host_max_for_prefix ?p))" by auto
    with False assms(1) show ?thesis by (auto simp: network_ip_available_def Let_def)
  qed
qed

lemma alloc_window_bounds:
  assumes "entry_ok net"
  shows "1 \<le> alloc_lo ns net" "alloc_hi net \<le> host_max_for_prefix (nd_prefix_len net)" "alloc_hi net < 2 ^ nat (32 - nd_prefix_len net)"
proof -
  show hi: "alloc_hi net \<le> host_max_for_prefix (nd_prefix_len net)" using assms by (simp add: alloc_hi_def entry_ok_def)
  show "1 \<le> alloc_lo ns net" using assms by (simp add: alloc_lo_def entry_ok_def)
  show "alloc_hi net < 2 ^ nat (32 - nd_prefix_len net)" using hi host_max_nat [of "nd_prefix_len net"] assms by (simp add: entry_ok_def)
qed

lemma window_subnet:
  assumes "entry_ok net" "in_window ns net b"
  shows "b \<in> subnet (nd_base net) (nd_prefix_len net)"
proof -
  have "nat (alloc_hi net) < 2 ^ nat (32 - nd_prefix_len net)"
    using alloc_window_bounds(3) [OF assms(1)] by (cases "0 \<le> alloc_hi net") (auto simp: nat_less_iff)
  then have "unat b - unat (nd_base net) < 2 ^ nat (32 - nd_prefix_len net)"
    by (rule le_less_trans [rotated]) (use assms(2) in \<open>simp add: in_window_def le_diff_conv add.commute\<close>)
  then show ?thesis using assms subnet_host_part [of "nd_base net" "nd_prefix_len net" b] by (simp add: in_window_def entry_ok_def)
qed

text \<open>The pool's contract, read through the window of a network.\<close>

lemma pool_sound:
  assumes ok: "entry_ok net"
    and al: "registry_alloc_ip reg (nd_base net) (alloc_lo ns net) (alloc_hi net) (own_address net) = Some a"
  shows "in_window ns net a" "unat (nd_base net) + 1 \<le> unat a"
    "unat a \<le> unat (nd_base net) + nat (host_max_for_prefix (nd_prefix_len net))"
    "in_window ns net b \<Longrightarrow> unat b < unat a \<Longrightarrow> b = own_address net \<or> \<not> registry_ip_available reg b"
proof -
  note w = alloc_window_bounds [OF ok]
  have p: "aligned (nd_base net) (nd_prefix_len net)" "0 < nd_prefix_len net" "nd_prefix_len net \<le> 32"
    using ok by (auto simp: entry_ok_def)
  have lo: "0 \<le> alloc_lo ns net" using w(1) [of ns] by simp
  obtain h where h: "alloc_lo ns net \<le> h" "h \<le> alloc_hi net" "unat a = unat (nd_base net) + nat h"
    and least: "\<And>b. b \<in> subnet (nd_base net) (nd_prefix_len net) \<Longrightarrow> unat (nd_base net) + nat (alloc_lo ns net) \<le> unat b \<Longrightarrow>
      unat b < unat a \<Longrightarrow> b = own_address net \<or> \<not> registry_ip_available reg b"
    using reg.alloc_lowest [OF p lo w(3) al] by blast
  have nh: "nat (alloc_lo ns net) \<le> nat h" "1 \<le> nat h" "nat h \<le> nat (alloc_hi net)"
    "nat h \<le> nat (host_max_for_prefix (nd_prefix_len net))"
    using h(1,2) w(1) [of ns] w(2) by (auto intro: nat_mono simp: le_nat_iff)
  show "in_window ns net a" "unat (nd_base net) + 1 \<le> unat a"
    "unat a \<le> unat (nd_base net) + nat (host_max_for_prefix (nd_prefix_len net))"
    using h(3) nh by (simp_all add: in_window_def)
  show "b = own_address net \<or> \<not> registry_ip_available reg b" if "in_window ns net b" "unat b < unat a"
    using least [OF window_subnet [OF ok that(1)] _ that(2)] that(1) by (simp add: in_window_def)
qed

lemma pool_complete:
  assumes ok: "entry_ok net" and b: "in_window ns net b"
    and none: "registry_alloc_ip reg (nd_base net) (alloc_lo ns net) (alloc_hi net) (own_address net) = None"
  shows "b = own_address net \<or> \<not> registry_ip_available reg b"
proof -
  have p: "aligned (nd_base net) (nd_prefix_len net)" "0 < nd_prefix_len net" "nd_prefix_len net \<le> 32"
    using ok by (auto simp: entry_ok_def)
  define h where "h = unat b - unat (nd_base net)"
  have h: "unat b = unat (nd_base net) + h" "nat (alloc_lo ns net) \<le> h" "h \<le> nat (alloc_hi net)"
    using b by (auto simp: h_def in_window_def)
  have "h < 2 ^ nat (32 - nd_prefix_len net)"
    using subnet_host_part [OF p, of b] window_subnet [OF ok b] by (simp add: h_def)
  then have "unat (nd_base net OR word_of_nat h) = unat b" using or_host [OF p] h(1) by simp
  then have "b = nd_base net OR word_of_int (int h)" by (simp add: word_unat_eq_iff)
  moreover have "alloc_lo ns net \<le> int h" "int h \<le> alloc_hi net"
    using h(2,3) alloc_window_bounds(1) [OF ok, of ns] by linarith+
  ultimately show ?thesis using reg.alloc_None [OF none, of "int h"] reg.available_iff by simp
qed

section \<open>Restart\<close>

text \<open>A kernel in working order: only making a bridge or adding an address may find it there already.\<close>

definition sound_kernel :: "kernel \<Rightarrow> bool" where
  "sound_kernel kern = (\<forall>lg c. kern lg c \<noteq> RtFail \<and>
     (kern lg c = RtExist \<longrightarrow> (\<exists>n. c = RtBridgeCreate n) \<or> (\<exists>n a p. c = RtAddrAdd n a p)))"

lemma sound_kernel_answers:
  assumes "sound_kernel kern"
  shows "fst (rtnl kern RtOpen lg) = RtOk" "fst (rtnl kern (RtLinkUp n) lg) = RtOk"
    "fst (rtnl kern c lg) = RtOk \<or> fst (rtnl kern c lg) = RtExist"
proof -
  show "fst (rtnl kern RtOpen lg) = RtOk" "fst (rtnl kern (RtLinkUp n) lg) = RtOk"
    using assms by (simp_all add: sound_kernel_def rtnl_def) (metis rt_call.distinct rt_result.exhaust)+
  show "fst (rtnl kern c lg) = RtOk \<or> fst (rtnl kern c lg) = RtExist"
    using assms by (simp add: sound_kernel_def rtnl_def) (metis rt_result.exhaust)
qed

lemma init_bridges_succeeds: "sound_kernel kern \<Longrightarrow> fst (init_bridges kern nets lg)"
proof (induction nets arbitrary: lg)
  case (Cons net nets)
  note k = sound_kernel_answers [OF Cons.prems]
  have a: "fst (if nd_has_address net then rtnl kern (RtAddrAdd (nd_name net) (nd_address net) (nd_prefix_len net)) l else (RtOk, l)) \<noteq> RtFail" for l
    using k(3) [of "RtAddrAdd (nd_name net) (nd_address net) (nd_prefix_len net)" l] by auto
  have b: "fst (rtnl kern (RtBridgeCreate (nd_name net)) l) \<noteq> RtFail" for l using k(3) [of _ l] by (metis rt_result.distinct(3,5))
  have two: "r \<noteq> RtOk \<and> r \<noteq> RtExist \<longleftrightarrow> r = RtFail" for r by (cases r) auto
  show ?case using Cons.IH [OF Cons.prems] a b k(2) by (simp add: Let_def case_prod_beta two)
qed simp

lemma load_state_nets:
  assumes "nets_ok es" "hd (ns_fs ns) (ns_state_path ns) = Some (nets_text es)" "ns_networks ns = replicate NETWORK_MAX blank_network"
  shows "load_state healthy_read ns = (ns\<lparr>ns_networks := es @ replicate (NETWORK_MAX - length es) blank_network\<rparr>, 0)"
proof -
  have "load_entries (map (net_tree None) es) 0 (replicate NETWORK_MAX blank_network) None =
      (es @ replicate (NETWORK_MAX - length es) blank_network, None, 0)"
    using load_entries_trees [of 0 "replicate NETWORK_MAX blank_network" es None] assms(1) by (simp add: nets_ok_def)
  with assms nets_parse [OF assms(1)] show ?thesis by (simp add: load_state_def nets_ok_def)
qed

text \<open>An entry whose interfaces cannot be read stops the load.\<close>

lemma parse_interfaces_bad:
  "\<exists>i \<in> set is. \<not> network_ifname_is_valid (Some (ai_ifname i)) \<Longrightarrow> \<not> snd (parse_persisted_interfaces (map interface_tree is))"
proof (induction "is")
  case (Cons i "is")
  have "json_as_string (json_object_get (Some (interface_tree i)) ''ifname'') = Some (ai_ifname i)"
    by (simp add: interface_tree_def json_object_get_def json_as_string_def)
  with Cons show ?case by (auto simp: Let_def case_prod_beta)
qed simp

lemma parse_entry_bad:
  "\<not> ifnames_ok e \<Longrightarrow> snd (snd (parse_persisted_entry (net_tree None e) earlier slot)) = - 1"
  using parse_interfaces_bad [of "nd_interfaces e"]
  by (auto simp: parse_persisted_entry_def net_tree_fields ifnames_ok_def Let_def case_prod_beta split: option.splits)

lemma load_entries_bad:
  "\<exists>e \<in> set es. \<not> ifnames_ok e \<Longrightarrow> snd (snd (load_entries (map (net_tree None) es) i t legacy)) = - 1"
proof (induction es arbitrary: i t legacy)
  case (Cons e es)
  then show ?case using parse_entry_bad [of e "take i t" "t ! i"] by (auto simp: Let_def case_prod_beta)
qed simp

section \<open>A concrete network\<close>

definition demo_net :: network_def where
  "demo_net = blank_network\<lparr>nd_name := ''lan'', nd_base := 0x0A010000, nd_prefix_len := 24, nd_has_address := True,
     nd_address := 0x0A010001, nd_in_use := True\<rparr>"

definition demo_table :: "network_def list" where
  "demo_table = demo_net # replicate 63 blank_network"

definition all_ok :: kernel where
  "all_ok = (\<lambda>lg c. RtOk)"

definition demo_start :: netstate where
  "demo_start = empty_netstate ''/n.json'' Map.empty"

lemma demo_start_networks: "ns_networks demo_start = replicate 64 blank_network" "ns_state_path demo_start = ''/n.json''"
  "ns_fs demo_start = [Map.empty]" "ns_log demo_start = []" "\<not> ns_have_mgmt demo_start"
  by (simp_all add: demo_start_def empty_netstate_def NETWORK_MAX_def)

lemma demo_checks:
  "network_name_is_valid (Some ''lan'')" "inet_pton ''10.1.0.0'' = Some 0x0A010000"
  "(0x0A010000 :: ip) AND NOT (mask_for_prefix 24) = 0" "address_str_is_valid ''10.1.0.1'' 0x0A010000 24 = Some 0x0A010001"
  by (simp_all add: network_name_is_valid_def simple_name_is_valid_def NETWORK_NAME_MAX_def name_char_def less_eq_char_def
      inet_pton_eval address_str_is_valid_def)

lemma demo_lookup:
  "network_find (replicate n blank_network) name = None" "0 < n \<Longrightarrow> network_free_slot (replicate n blank_network) = Some 0"
  "\<not> list_ex (\<lambda>e. nd_in_use e \<and> P e) (replicate n blank_network)"
  by (cases n; auto simp: network_find_def network_free_slot_def find_index_None list_ex_iff blank_network_def)+

lemma demo_update: "(replicate 64 blank_network)[0 := demo_net] = demo_table"
  by (simp add: demo_table_def numeral_eq_Suc)

lemma demo_facts: "demo_table ! 0 = demo_net" "nd_interfaces demo_net = []" "nd_name demo_net = ''lan''" "nd_in_use demo_net"
  "nd_base demo_net = 0x0A010000" "nd_prefix_len demo_net = 24"
  by (simp_all add: demo_table_def demo_net_def blank_network_def)

lemma demo_entry_ok: "entry_ok demo_net"
  by (simp add: entry_ok_def demo_net_def blank_network_def demo_checks aligned_def net_subnet_def subnet_def)

lemma demo_table_ok: "table_ok demo_table"
proof -
  have "table_ok (replicate 64 blank_network)"
    using empty_netstate_inv [of "[]" Map.empty] by (simp add: net_inv_def empty_netstate_def NETWORK_MAX_def)
  then show ?thesis unfolding demo_update [symmetric] by (intro table_insert demo_entry_ok) (simp_all add: demo_lookup)
qed

lemma demo_create:
  "\<exists>ns. network_create (healthy_write (nets_text demo_table)) all_ok (Some ''lan'') ''10.1.0.0'' 24 (Some ''10.1.0.1'') None None demo_start =
     Some (ns, NETWORK_OK) \<and> ns_networks ns = demo_table \<and> net_inv ns \<and> ns_state_path ns = ''/n.json'' \<and>
     hd (ns_fs ns) ''/n.json'' = Some (nets_text demo_table) \<and> bridges (ns_log ns) = {''lan''} \<and> \<not> ns_have_mgmt ns"
proof -
  let ?env = "healthy_write (nets_text demo_table)"
  let ?draft = "demo_net\<lparr>nd_in_use := False\<rparr>"
  have rec: "blank_network\<lparr>nd_name := ''lan'', nd_base := 0x0A010000, nd_prefix_len := 24, nd_has_address := True,
      nd_address := 0x0A010001\<rparr> = ?draft" "?draft\<lparr>nd_alloc_start_host := 0, nd_alloc_end_host := 0\<rparr> = ?draft"
    "?draft\<lparr>nd_in_use := True\<rparr> = demo_net" "nd_name demo_net = ''lan''" "nd_has_address demo_net"
    by (simp_all add: demo_net_def blank_network_def)
  obtain lg where lg: "create_bridge all_ok ?draft [] = (True, lg)"
    using rec(4,5) by (simp add: create_bridge_def all_ok_def rtnl_def)
  let ?n = "demo_start\<lparr>ns_networks := (ns_networks demo_start)[0 := ?draft], ns_log := lg\<rparr>"
  have call: "network_create ?env all_ok (Some ''lan'') ''10.1.0.0'' 24 (Some ''10.1.0.1'') None None demo_start = create_commit ?env all_ok 0 ?draft ?n"
    using lg rec(1,2) by (simp add: network_create_def demo_checks demo_lookup demo_start_networks create_in_slot_def parse_alloc_bound_def
        NETWORK_NAME_MAX_def Let_def)
  have inv: "net_inv demo_start" unfolding demo_start_def by (rule empty_netstate_inv)
  from create_cases [OF inv, of ?env all_ok "Some ''lan''" "''10.1.0.0''" 24 "Some ''10.1.0.1''" None None] call
  obtain ns err where c: "create_commit ?env all_ok 0 ?draft ?n = Some (ns, err)" "net_inv ns" "net_frame demo_start ns"
    "err = NETWORK_OK \<Longrightarrow> \<exists>e. nd_name e = ''lan'' \<and> create_done e demo_start ns" by auto
  obtain f v where w: "persist_atomic_write ?env ''/n.json'' (nets_text demo_table) Map.empty = (f # v, 0)"
    using healthy_write_succeeds [of "''/n.json''" "nets_text demo_table" Map.empty] by (auto simp: PATH_MAX_def)
  have res: "err = NETWORK_OK" "ns_networks ns = demo_table"
  proof -
    let ?s = "?n\<lparr>ns_networks := demo_table\<rparr>"
    have "save_state ?env ?s = Some (?s\<lparr>ns_fs := (f # v) @ tl (ns_fs ?s)\<rparr>, 0)"
      by (rule save_state_text) (use demo_table_ok w in \<open>simp_all add: demo_start_networks\<close>)
    with c(1) show "err = NETWORK_OK" "ns_networks ns = demo_table"
      using rec(3) demo_update by (auto simp: create_commit_def demo_start_networks)
  qed
  then obtain e where "nd_name e = ''lan''" "create_done e demo_start ns" using c(4) by blast
  then have "hd (ns_fs ns) ''/n.json'' = Some (nets_text demo_table)" "bridges (ns_log ns) = {''lan''}"
    using res(2) by (auto simp: create_done_def demo_start_networks)
  moreover have "ns_state_path ns = ''/n.json''" "\<not> ns_have_mgmt ns" using c(3) by (auto simp: net_frame_def demo_start_networks)
  ultimately show ?thesis unfolding call c(1) using res c(2) by blast
qed

section \<open>Properties\<close>

text \<open>
  Automatic allocation is sound, complete and lowest-first.  It refuses exactly the networks that
  have a physical port and no declared window.  Otherwise the address it returns lies in the window,
  passes the availability check for explicit addresses (in the subnet, neither the network nor the
  broadcast address, not the network's own address, used by no container), and no lower address of the
  window does; and it fails only when no address of the window passes.
\<close>

theorem alloc_ip_lowest_free:
  assumes "net_inv ns" "network_find (ns_networks ns) name = Some n" "net = ns_networks ns ! n"
  shows "(network_alloc_ip reg name ns = AllocNoPool \<longleftrightarrow> no_pool net) \<and>
    (\<forall>a. network_alloc_ip reg name ns = AllocOk a \<longrightarrow> in_window ns net a \<and> network_ip_available reg name a ns = NETWORK_OK \<and>
       (\<forall>b. in_window ns net b \<and> unat b < unat a \<longrightarrow> network_ip_available reg name b ns \<noteq> NETWORK_OK)) \<and>
    (network_alloc_ip reg name ns = AllocFail \<longrightarrow>
       (\<forall>b. in_window ns net b \<longrightarrow> network_ip_available reg name b ns \<noteq> NETWORK_OK))"
proof -
  have ok: "entry_ok net" using assms network_find_Some [OF assms(2)] by (auto simp: net_inv_def intro: table_entry_ok)
  let ?alloc = "registry_alloc_ip reg (nd_base net) (alloc_lo ns net) (alloc_hi net) (own_address net)"
  have alloc: "network_alloc_ip reg name ns = (if no_pool net then AllocNoPool else
      case ?alloc of None \<Rightarrow> AllocFail | Some a \<Rightarrow> AllocOk a)"
    using alloc_ip_unfold [OF assms(2), of reg] ok assms(3) by (simp add: Let_def)
  have av: "network_ip_available reg name x ns = NETWORK_OK \<longleftrightarrow> unat (nd_base net) + 1 \<le> unat x \<and>
      unat x \<le> unat (nd_base net) + nat (host_max_for_prefix (nd_prefix_len net)) \<and> x \<noteq> own_address net \<and> registry_ip_available reg x" for x
    using ip_available_iff [OF assms(2), of reg] ok assms(3) by (simp add: Let_def)
  show ?thesis
  proof (cases ?alloc)
    case None
    then show ?thesis using pool_complete [OF ok _ None] by (auto simp: alloc av)
  next
    case (Some a)
    from pool_sound [OF ok Some] reg.alloc_available [OF Some] Some show ?thesis by (auto simp: alloc av)
  qed
qed

theorem alloc_ip_lowest_free_witness:
  "\<exists>ns. net_inv ns \<and> network_find (ns_networks ns) ''lan'' = Some 0 \<and> \<not> no_pool demo_net \<and>
     network_alloc_ip [] ''lan'' ns = AllocOk 0x0A010002 \<and> network_ip_available [] ''lan'' 0x0A010002 ns = NETWORK_OK"
proof -
  obtain ns where ns: "ns_networks ns = demo_table" "net_inv ns" "\<not> ns_have_mgmt ns" using demo_create by blast
  have find: "network_find (ns_networks ns) ''lan'' = Some 0"
    using ns by (simp add: network_find_def demo_table_def demo_net_def)
  have net: "demo_net = ns_networks ns ! 0" using ns by (simp add: demo_table_def)
  have "registry_alloc_ip [] 0x0A010000 1 254 0x0A010001 = Some 0x0A010002"
    by (simp add: registry_alloc_ip.simps ip_in_use_def)
  then have "network_alloc_ip [] ''lan'' ns = AllocOk 0x0A010002"
    using find ns by (simp add: network_alloc_ip_def demo_table_def net_is_management_def demo_net_def blank_network_def)
  moreover have "\<not> no_pool demo_net" by (simp add: no_pool_def demo_net_def blank_network_def)
  ultimately show ?thesis using alloc_ip_lowest_free [OF ns(2) find net, of "[]"] ns(2) find by blast
qed

text \<open>
  C36.  Whatever calls are made from the empty table of a first start on, and however the kernel and
  the disk answer, network names stay unique and subnets pairwise disjoint; while a management address
  is set, exactly one network contains it.  (What a later start loads is the table of the last save,
  theorem \<open>network_restart\<close>.)
\<close>

theorem networks_stay_apart:
  assumes "net_reachable (empty_netstate path fs) ns"
  shows "(\<forall>i j. i < j \<and> j < NETWORK_MAX \<and> nd_in_use (ns_networks ns ! i) \<and> nd_in_use (ns_networks ns ! j) \<longrightarrow>
      nd_name (ns_networks ns ! i) \<noteq> nd_name (ns_networks ns ! j) \<and>
      net_subnet (ns_networks ns ! i) \<inter> net_subnet (ns_networks ns ! j) = {}) \<and>
    (ns_have_mgmt ns \<longrightarrow> (\<exists>!i. i < NETWORK_MAX \<and> nd_in_use (ns_networks ns ! i) \<and> ns_mgmt_address ns \<in> net_subnet (ns_networks ns ! i)))"
proof -
  have inv: "net_inv ns" using net_reachable_inv [OF assms empty_netstate_inv] .
  then have t: "length (ns_networks ns) = NETWORK_MAX" "keys_unique nd_in_use nd_name (ns_networks ns)" "disjoint_subnets (ns_networks ns)"
    by (auto simp: net_inv_def table_ok_def)
  have apart: "nd_name (ns_networks ns ! i) \<noteq> nd_name (ns_networks ns ! j) \<and> net_subnet (ns_networks ns ! i) \<inter> net_subnet (ns_networks ns ! j) = {}"
    if "i \<noteq> j" "i < NETWORK_MAX" "j < NETWORK_MAX" "nd_in_use (ns_networks ns ! i)" "nd_in_use (ns_networks ns ! j)" for i j
    using that t keys_uniqueD [OF t(2), of i j] by (auto simp: disjoint_subnets_def)
  have "\<exists>!i. i < NETWORK_MAX \<and> nd_in_use (ns_networks ns ! i) \<and> ns_mgmt_address ns \<in> net_subnet (ns_networks ns ! i)" if "ns_have_mgmt ns"
  proof -
    have "\<exists>i < NETWORK_MAX. nd_in_use (ns_networks ns ! i) \<and> ns_mgmt_address ns \<in> net_subnet (ns_networks ns ! i)"
      using inv that t(1) by (auto simp: net_inv_def has_management_iff net_contains_def net_subnet_def subnet_def)
    then obtain i where i: "i < NETWORK_MAX" "nd_in_use (ns_networks ns ! i)" "ns_mgmt_address ns \<in> net_subnet (ns_networks ns ! i)" by blast
    show ?thesis
    proof (rule ex1I [of _ i])
      fix j
      assume j: "j < NETWORK_MAX \<and> nd_in_use (ns_networks ns ! j) \<and> ns_mgmt_address ns \<in> net_subnet (ns_networks ns ! j)"
      with i apart [of j i] show "j = i" by auto
    qed (use i in simp)
  qed
  moreover have "nd_name (ns_networks ns ! i) \<noteq> nd_name (ns_networks ns ! j) \<and> net_subnet (ns_networks ns ! i) \<inter> net_subnet (ns_networks ns ! j) = {}"
    if "i < j \<and> j < NETWORK_MAX \<and> nd_in_use (ns_networks ns ! i) \<and> nd_in_use (ns_networks ns ! j)" for i j
    using apart [of i j] that by simp
  ultimately show ?thesis by blast
qed

theorem networks_stay_apart_witness:
  "\<exists>ns. net_reachable demo_start ns \<and> ns_networks ns = demo_table \<and> ns_have_mgmt ns \<and>
     (\<exists>!i. i < NETWORK_MAX \<and> nd_in_use (ns_networks ns ! i) \<and> ns_mgmt_address ns \<in> net_subnet (ns_networks ns ! i))"
proof -
  obtain ns where ns: "network_create (healthy_write (nets_text demo_table)) all_ok (Some ''lan'') ''10.1.0.0'' 24 (Some ''10.1.0.1'') None None demo_start =
      Some (ns, NETWORK_OK)" "ns_networks ns = demo_table" using demo_create by blast
  have "network_find_containing demo_table 0x0A010001 = Some 0"
    by (simp add: network_find_containing_def demo_table_def demo_net_def net_contains_def)
  then have "network_set_management_address (Some ''10.1.0.1'') ns =
      (ns\<lparr>ns_mgmt_address := 0x0A010001, ns_have_mgmt := True\<rparr>, NETWORK_OK)"
    using ns(2) by (simp add: network_set_management_address_def inet_pton_eval)
  then have r: "net_reachable demo_start (ns\<lparr>ns_mgmt_address := 0x0A010001, ns_have_mgmt := True\<rparr>)"
    using ns(1) by (meson net_reachable.intros net_step.intros)
  show ?thesis
    using networks_stay_apart [OF r [unfolded demo_start_def]] r ns(2)
    by (intro exI [of _ "ns\<lparr>ns_mgmt_address := 0x0A010001, ns_have_mgmt := True\<rparr>"]) simp
qed

text \<open>
  C37.  A creation that fails for whatever reason leaves no trace: the networks in use and the file are
  as before, and so are the bridges, unless the kernel also refused the call that removes the new one.
  A creation that succeeds has added the one network, saved the table and made the bridge.
\<close>

theorem create_all_or_nothing:
  assumes "net_inv ns" "name \<notin> bridges (ns_log ns)"
    and "network_create env kern (Some name) subnet_str prefix_len address_str s1 s2 ns = Some (ns', err)"
  shows "if err = NETWORK_OK then
      (\<exists>e slot. network_free_slot (ns_networks ns) = Some slot \<and> ns_networks ns' = (ns_networks ns)[slot := e] \<and>
        nd_name e = name \<and> inet_pton subnet_str = Some (nd_base e) \<and> nd_prefix_len e = prefix_len \<and> nd_in_use e \<and>
        bridges (ns_log ns') = insert name (bridges (ns_log ns)) \<and>
        hd (ns_fs ns') (ns_state_path ns) = Some (nets_text (ns_networks ns')))
    else filter nd_in_use (ns_networks ns') = filter nd_in_use (ns_networks ns) \<and>
      hd (ns_fs ns') (ns_state_path ns) = hd (ns_fs ns) (ns_state_path ns) \<and>
      (bridges (ns_log ns') = bridges (ns_log ns) \<or>
       bridges (ns_log ns') = insert name (bridges (ns_log ns)) \<and> rollback_refused name (ns_log ns'))"
proof (cases "err = NETWORK_OK")
  case True
  then obtain e where "nd_name e = name" "inet_pton subnet_str = Some (nd_base e)" "nd_prefix_len e = prefix_len" "create_done e ns ns'"
    using create_cases [OF assms(1), of env kern "Some name" subnet_str prefix_len address_str s1 s2] assms(3) by auto
  with True assms(2) show ?thesis by (auto simp: create_done_def intro!: exI [of _ e])
next
  case False
  then have "create_undone name ns ns'"
    using create_cases [OF assms(1), of env kern "Some name" subnet_str prefix_len address_str s1 s2] assms(3) by auto
  with False assms(2) show ?thesis by (simp add: create_undone_def bridge_kept_def)
qed

theorem create_all_or_nothing_witness:
  "\<exists>ns'. network_create (healthy_write (nets_text demo_table)) all_ok (Some ''lan'') ''10.1.0.0'' 24 (Some ''10.1.0.1'') None None demo_start =
     Some (ns', NETWORK_OK) \<and> bridges (ns_log ns') = {''lan''} \<and> hd (ns_fs ns') ''/n.json'' = Some (nets_text (ns_networks ns'))"
proof -
  obtain ns where ns: "network_create (healthy_write (nets_text demo_table)) all_ok (Some ''lan'') ''10.1.0.0'' 24 (Some ''10.1.0.1'') None None demo_start =
      Some (ns, NETWORK_OK)" using demo_create by blast
  have inv: "net_inv demo_start" unfolding demo_start_def by (rule empty_netstate_inv)
  have "''lan'' \<notin> bridges (ns_log demo_start)" by (simp add: demo_start_networks)
  from create_all_or_nothing [OF inv this ns] ns show ?thesis by (auto simp: demo_start_networks)
qed

text \<open>
  A restart rebuilds the networks from the last saved file: \<open>network_init\<close> loads exactly the
  networks that were in use, in their order, with their addresses, windows and interfaces, accepts
  the bridges that still exist, and returns \<open>0\<close>.
\<close>

theorem network_restart:
  assumes "net_inv ns" "\<forall>e \<in> set (ns_networks ns). nd_in_use e \<longrightarrow> ifnames_ok e"
    and "hd (ns_fs ns) path = Some (nets_text (ns_networks ns))" "length path < PATH_MAX" "sound_kernel kern"
    and "ns_fs fresh = [hd (ns_fs ns)]"
  shows "\<exists>lg. network_init healthy_read kern path fresh =
    (fresh\<lparr>ns_state_path := path, ns_networks := filter nd_in_use (ns_networks ns) @
       replicate (NETWORK_MAX - length (filter nd_in_use (ns_networks ns))) blank_network, ns_log := lg\<rparr>, 0)"
proof -
  let ?es = "filter nd_in_use (ns_networks ns)"
  let ?f = "fresh\<lparr>ns_state_path := path, ns_networks := replicate NETWORK_MAX blank_network\<rparr>"
  have es: "nets_ok ?es" using assms(1,2) by (intro table_nets_ok) (auto simp: net_inv_def)
  have "nets_text (ns_networks ns) = nets_text ?es" by (simp add: nets_text_def)
  then have "load_state healthy_read ?f = (?f\<lparr>ns_networks := ?es @ replicate (NETWORK_MAX - length ?es) blank_network\<rparr>, 0)"
    using assms(3,6) es by (intro load_state_nets) auto
  then show ?thesis
    using assms(4) sound_kernel_answers(1) [OF assms(5)] init_bridges_succeeds [OF assms(5)]
    by (auto simp: network_init_def Let_def case_prod_beta)
qed

theorem network_restart_witness:
  "\<exists>fs lg. fs ''/n.json'' = Some (nets_text demo_table) \<and>
     network_init healthy_read all_ok ''/n.json'' (empty_netstate [] fs) =
     ((empty_netstate [] fs)\<lparr>ns_state_path := ''/n.json'', ns_networks := demo_table, ns_log := lg\<rparr>, 0)"
proof -
  obtain ns where ns: "ns_networks ns = demo_table" "net_inv ns" "hd (ns_fs ns) ''/n.json'' = Some (nets_text demo_table)"
    using demo_create by blast
  have ifs: "\<forall>e \<in> set (ns_networks ns). nd_in_use e \<longrightarrow> ifnames_ok e"
    using ns(1) by (auto simp: demo_table_def ifnames_ok_def demo_net_def blank_network_def)
  have stored: "hd (ns_fs ns) ''/n.json'' = Some (nets_text (ns_networks ns))" using ns by simp
  have "sound_kernel all_ok" "length ''/n.json'' < PATH_MAX" by (simp_all add: sound_kernel_def all_ok_def PATH_MAX_def)
  moreover have "filter nd_in_use demo_table @ replicate (NETWORK_MAX - length (filter nd_in_use demo_table)) blank_network = demo_table"
    by (simp add: demo_table_def demo_net_def blank_network_def NETWORK_MAX_def filter_empty_conv)
  ultimately show ?thesis
    using network_restart [OF ns(2) ifs stored, of all_ok "empty_netstate [] (hd (ns_fs ns))"] ns by (auto simp: empty_netstate_def)
qed

text \<open>
   The host-owned address given to \<open>network_create\<close> may be any address of the subnet except the
  network address itself.  In particular the broadcast address is accepted.
\<close>

theorem address_str_accepts:
  assumes "aligned base p" "8 \<le> p" "p \<le> 30"
  shows "(address_str_is_valid s base p = Some a \<longleftrightarrow> inet_pton s = Some a \<and> a \<in> subnet base p \<and> a \<noteq> base) \<and>
    address_str_is_valid (inet_ntop (base OR NOT (mask_for_prefix p))) base p = Some (base OR NOT (mask_for_prefix p))"
proof -
  have iff: "address_str_is_valid s base p = Some a \<longleftrightarrow> inet_pton s = Some a \<and> a \<in> subnet base p \<and> a \<noteq> base" for s a
  proof (cases "a \<in> subnet base p")
    case True
    define n M where "n = unat a - unat base" and "M = (2 :: int) ^ nat (32 - p)"
    have "sint (a - base) = int n" and lt: "n < 2 ^ nat (32 - p)"
      unfolding n_def using sint_host_part [OF assms(1,2) _ True] assms(3) by auto
    moreover have "int n < M" using lt unfolding M_def by (metis of_nat_less_iff of_nat_numeral of_nat_power)
    moreover have "host_max_for_prefix p + 1 = M - 1" using assms by (simp add: host_max_nat M_def)
    moreover have "a = base \<longleftrightarrow> n = 0"
      using subnet_host_part [OF assms(1), of a] True assms by (auto simp: n_def word_unat_eq_iff)
    ultimately have "\<not> (sint (a - base) < 1 \<or> host_max_for_prefix p + 1 < sint (a - base)) \<longleftrightarrow> a \<noteq> base" by auto
    with True show ?thesis by (auto simp: address_str_is_valid_def subnet_def Let_def bind_eq_Some_conv)
  next
    case False
    then show ?thesis by (auto simp: address_str_is_valid_def subnet_def Let_def bind_eq_Some_conv split: if_splits)
  qed
  let ?m = "mask_for_prefix p"
  have b: "base AND ?m = base" using assms(1) by (simp add: aligned_iff)
  then have "(base OR NOT ?m) AND ?m = base" by (simp add: bit.conj_disj_distrib2)
  moreover have "base OR NOT ?m \<noteq> base"
  proof
    assume "base OR NOT ?m = base"
    moreover have "bit (base OR NOT ?m) 0" using assms(2,3) by (simp add: bit_simps mask_ones)
    ultimately have "bit base 0" by simp
    moreover have "\<not> bit (base AND ?m) 0" using assms(2,3) by (simp add: bit_simps mask_ones)
    ultimately show False using b by simp
  qed
  ultimately have "address_str_is_valid (inet_ntop (base OR NOT ?m)) base p = Some (base OR NOT ?m)"
    unfolding iff by (simp add: subnet_def)
  with iff show ?thesis by blast
qed

theorem address_str_accepts_witness:
  "address_str_is_valid ''10.1.0.0'' 0x0A010000 24 = None \<and> address_str_is_valid ''10.1.0.255'' 0x0A010000 24 = Some 0x0A0100FF \<and>
     address_str_is_valid (inet_ntop 0x0A0100FF) 0x0A010000 24 = Some 0x0A0100FF"
proof -
  have a: "aligned 0x0A010000 24" by (simp add: aligned_def)
  have m: "(- 4127129345 :: ip) = 0x0A0100FF" by simp
  show ?thesis
    using address_str_accepts [of "0x0A010000" 24 "''10.1.0.255''" "0x0A0100FF"] a
    by (simp add: inet_pton_eval subnet_def address_str_is_valid_def [of "''10.1.0.0''"] m)
qed

text \<open>
  A network is deleted only when it does not carry the management address and no container in the
  registry is attached to it; then its name is free again, its bridge is gone, the other networks are
  untouched and the file holds the rest.
\<close>

theorem delete_only_unused:
  assumes "net_inv ns" "network_delete env kern reg name ns = Some (ns', NETWORK_OK)"
  shows "\<exists>i. network_find (ns_networks ns) name = Some i \<and> network_find_management ns \<noteq> Some i \<and>
    \<not> registry_network_in_use reg name \<and> network_find (ns_networks ns') name = None \<and> name \<notin> bridges (ns_log ns') \<and>
    (\<forall>j. j \<noteq> i \<longrightarrow> ns_networks ns' ! j = ns_networks ns ! j) \<and>
    hd (ns_fs ns') (ns_state_path ns) = Some (nets_text (ns_networks ns'))"
proof -
  from assms(2) obtain i where i: "network_find (ns_networks ns) name = Some i" by (cases "network_find (ns_networks ns) name") (auto simp: network_delete_def)
  let ?e = "ns_networks ns ! i" and ?e' = "(ns_networks ns ! i)\<lparr>nd_in_use := False, nd_interfaces := []\<rparr>"
  let ?l = "release_interfaces kern (nd_interfaces ?e) (snd (rtnl kern RtOpen (ns_log ns)))"
  let ?s = "save_state env (ns\<lparr>ns_log := snd (rtnl kern (RtLinkDelete name) ?l), ns_networks := (ns_networks ns)[i := ?e']\<rparr>)"
  have "\<not> net_is_management ns ?e" "\<not> registry_network_in_use reg name" "fst (rtnl kern (RtLinkDelete name) ?l) = RtOk" "?s = Some (ns', 0)"
    using assms(2) i by (auto simp: network_delete_def Let_def case_prod_beta bind_eq_Some_conv split: if_splits)
  note c = this
  have f: "i < length (ns_networks ns)" "nd_in_use ?e" using network_find_Some [OF i] by auto
  have u: "keys_unique nd_in_use nd_name (ns_networks ns)" using assms(1) by (simp add: net_inv_def table_ok_def)
  have t: "table_ok ((ns_networks ns)[i := ?e'])" using assms(1) by (intro table_clear) (auto simp: net_inv_def)
  from saved_step [OF assms(1) t, of env "snd (rtnl kern (RtLinkDelete name) ?l)"] c(1,4)
  have s: "ns_networks ns' = (ns_networks ns)[i := ?e']" "ns_log ns' = snd (rtnl kern (RtLinkDelete name) ?l)"
    "hd (ns_fs ns') (ns_state_path ns) = Some (nets_text ((ns_networks ns)[i := ?e']))" by auto
  have "network_find_management ns \<noteq> Some i"
    using c(1) f(2) by (auto simp: network_find_management_def network_find_containing_def net_is_management_def dest: find_index_Some)
  moreover have "network_find (ns_networks ns') name = None"
  proof (rule ccontr)
    assume "network_find (ns_networks ns') name \<noteq> None"
    then obtain j where "network_find (ns_networks ns') name = Some j" by blast
    from network_find_Some [OF this] s(1) f(1) have "j < length (ns_networks ns)" "j \<noteq> i" "nd_in_use (ns_networks ns ! j)" "nd_name (ns_networks ns ! j) = name"
      by (auto simp: nth_list_update split: if_splits)
    with keys_uniqueD [OF u, of i j] f network_find_Some [OF i] show False by simp
  qed
  moreover have "name \<notin> bridges (ns_log ns')" using c(3) s(2) by (simp add: rtnl_def)
  ultimately show ?thesis using i c(2) s by auto
qed

theorem delete_only_unused_witness:
  "\<exists>ns ns' env. net_inv ns \<and> network_find (ns_networks ns) ''lan'' = Some 0 \<and>
     network_delete env all_ok [] ''lan'' ns = Some (ns', NETWORK_OK) \<and> network_find (ns_networks ns') ''lan'' = None"
proof -
  obtain ns where ns: "ns_networks ns = demo_table" "net_inv ns" "ns_state_path ns = ''/n.json''" "\<not> ns_have_mgmt ns"
    using demo_create by blast
  let ?t = "demo_table[0 := demo_net\<lparr>nd_in_use := False, nd_interfaces := []\<rparr>]"
  have find: "network_find (ns_networks ns) ''lan'' = Some 0"
    using ns by (simp add: network_find_def demo_table_def demo_net_def)
  obtain f v where w: "persist_atomic_write (healthy_write (nets_text ?t)) ''/n.json'' (nets_text ?t) (hd (ns_fs ns)) = (f # v, 0)"
    using healthy_write_succeeds [of "''/n.json''" "nets_text ?t" "hd (ns_fs ns)"] by (auto simp: PATH_MAX_def)
  have t: "table_ok ?t" using demo_table_ok by (intro table_clear) auto
  let ?s = "ns\<lparr>ns_log := (RtLinkDelete ''lan'', RtOk) # (RtOpen, RtOk) # ns_log ns, ns_networks := ?t\<rparr>"
  obtain n where sv: "save_state (healthy_write (nets_text ?t)) ?s = Some (n, 0)"
    using save_state_text [of ?s "healthy_write (nets_text ?t)" "f # v" 0] w t ns(3) by simp
  have d: "network_delete (healthy_write (nets_text ?t)) all_ok [] ''lan'' ns = Some (n, NETWORK_OK)"
    using find ns sv by (simp add: network_delete_def demo_facts net_is_management_def registry_network_in_use_def rtnl_def all_ok_def)
  from delete_only_unused [OF ns(2) d] ns(2) find d show ?thesis by blast
qed

text \<open>
  \<open>network_attach_interface\<close> does not apply the name check the loader applies: attaching a device
  whose kernel name has a character outside letters, digits, \<open>_\<close> and \<open>-\<close> (such as a dot)
  succeeds and is saved, and every later \<open>network_init\<close> on that file fails.
\<close>

theorem attach_unreadable_name:
  assumes "net_inv ns" "\<forall>e \<in> set (ns_networks ns). nd_in_use e \<longrightarrow> ifnames_ok e" "is_c_str ifname" "\<bar>vlan_id\<bar> \<le> INT_MAX"
    and "\<not> network_ifname_is_valid (Some (snprintf_s NETWORK_IFNAME_MAX ifname))" "length (ns_state_path ns) < PATH_MAX"
    and "network_attach_interface env kern device_find name ifname vlan_id ns = Some (ns', NETWORK_OK)"
    and "ns_fs fresh = [hd (ns_fs ns')]"
  shows "snd (network_init healthy_read kern2 (ns_state_path ns) fresh) = - 1"
proof -
  from assms(7) obtain n where n: "network_find (ns_networks ns) name = Some n"
    by (cases "network_find (ns_networks ns) name") (auto simp: network_attach_interface_def)
  let ?e = "ns_networks ns ! n" and ?i = "\<lparr>ai_ifname = snprintf_s NETWORK_IFNAME_MAX ifname, ai_vlan_id = vlan_id\<rparr>"
  let ?e' = "?e\<lparr>nd_interfaces := nd_interfaces ?e @ [?i]\<rparr>"
  let ?t = "(ns_networks ns)[n := ?e']"
  let ?l = "snd (network_apply_interface kern ?e ?i False (snd (rtnl kern RtOpen (ns_log ns))))"
  have sv: "save_state env (ns\<lparr>ns_log := ?l, ns_networks := ?t\<rparr>) = Some (ns', 0)" and len: "length (nd_interfaces ?e) < NETWORK_MAX_INTERFACES"
    using assms(7) n by (auto simp: network_attach_interface_def Let_def case_prod_beta bind_eq_Some_conv split: if_splits)
  from network_find_Some [OF n] assms(1) have f: "n < length (ns_networks ns)" "nd_in_use ?e" "entry_ok ?e"
    by (auto simp: net_inv_def intro: table_entry_ok)
  then have ok': "entry_ok ?e'" using len assms(4) by (auto simp: entry_ok_def net_subnet_def)
  then have t: "table_ok ?t" using assms(1) f by (intro table_modify) (auto simp: net_inv_def)
  from saved_step [OF assms(1) t, of env ?l] f(2) sv have stored: "hd (ns_fs ns') (ns_state_path ns) = Some (nets_text ?t)" by auto
  let ?es = "filter nd_in_use ?t"
  have if_ok: "ifnames_ok ?e" using assms(2) f by simp
  have bad: "?e' \<in> set ?es" "\<not> ifnames_ok ?e'" using f assms(5) by (auto simp: set_update_memI ifnames_ok_def)
  have "exact_json (net_tree None e)" if "e \<in> set ?es" for e
  proof (rule net_tree_exact)
    show "entry_ok e" using that t by (auto simp: table_ok_def)
    have "e = ?e' \<or> e \<in> set (ns_networks ns)" using that set_update_subset_insert [of "ns_networks ns" n ?e'] by auto
    then show "\<forall>i \<in> set (nd_interfaces e). is_c_str (ai_ifname i)"
      using that assms(2,3) if_ok by (auto intro: ifnames_ok_c_str)
  qed
  then have "exact_json (JArray (map (net_tree None) ?es))" by (auto simp: exact_items_map)
  then have parse: "json_parse (nets_text ?t) = Some (JArray (map (net_tree None) ?es))" unfolding nets_text_def by (rule json_parse_render)
  have "snd (load_state healthy_read (fresh\<lparr>ns_state_path := ns_state_path ns, ns_networks := x\<rparr>)) = - 1" for x
  proof -
    have "snd (snd (load_entries (map (net_tree None) ?es) 0 x None)) = - 1" using load_entries_bad bad by blast
    with stored parse assms(8) show ?thesis by (simp add: load_state_def case_prod_beta Let_def)
  qed
  then show ?thesis using assms(6) by (simp add: network_init_def Let_def case_prod_beta)
qed

theorem attach_unreadable_name_witness:
  "\<exists>ns ns' env. net_inv ns \<and> ns_state_path ns = ''/n.json'' \<and>
     network_attach_interface env all_ok (\<lambda>id. if id = ''net:eth0.1'' then Some False else None) ''lan'' ''eth0.1'' 0 ns = Some (ns', NETWORK_OK) \<and>
     snd (network_init healthy_read all_ok ''/n.json'' (empty_netstate [] (hd (ns_fs ns')))) = - 1"
proof -
  obtain ns where ns: "ns_networks ns = demo_table" "net_inv ns" "ns_state_path ns = ''/n.json''" "\<not> ns_have_mgmt ns"
    using demo_create by blast
  have find: "network_find (ns_networks ns) ''lan'' = Some 0" using ns by (simp add: network_find_def demo_table_def demo_net_def)
  let ?i = "\<lparr>ai_ifname = ''eth0.1'', ai_vlan_id = 0\<rparr>"
  let ?t = "demo_table[0 := demo_net\<lparr>nd_interfaces := [?i]\<rparr>]"
  have "entry_ok (demo_net\<lparr>nd_interfaces := [?i]\<rparr>)"
    using demo_entry_ok by (simp add: entry_ok_def net_subnet_def NETWORK_MAX_INTERFACES_def INT_MAX_def)
  then have t: "table_ok ?t" using demo_table_ok by (intro table_modify) (simp_all add: demo_facts, simp add: demo_table_def)
  obtain f v where w: "persist_atomic_write (healthy_write (nets_text ?t)) ''/n.json'' (nets_text ?t) (hd (ns_fs ns)) = (f # v, 0)"
    using healthy_write_succeeds [of "''/n.json''" "nets_text ?t" "hd (ns_fs ns)"] by (auto simp: PATH_MAX_def)
  let ?s = "ns\<lparr>ns_log := (RtLinkUp ''eth0.1'', RtOk) # (RtSetMaster ''eth0.1'' ''lan'', RtOk) # (RtOpen, RtOk) # ns_log ns, ns_networks := ?t\<rparr>"
  obtain ns' where sv: "save_state (healthy_write (nets_text ?t)) ?s = Some (ns', 0)"
    using save_state_text [of ?s "healthy_write (nets_text ?t)" "f # v" 0] w t ns(3) by simp
  have attach: "network_attach_interface (healthy_write (nets_text ?t)) all_ok (\<lambda>id. if id = ''net:eth0.1'' then Some False else None)
      ''lan'' ''eth0.1'' 0 ns = Some (ns', NETWORK_OK)"
    using find ns sv by (simp add: network_attach_interface_def demo_facts rtnl_def all_ok_def network_apply_interface_def
        NETWORK_MAX_INTERFACES_def NETWORK_IFNAME_MAX_def)
  have ifs: "\<forall>e \<in> set (ns_networks ns). nd_in_use e \<longrightarrow> ifnames_ok e"
    using ns(1) by (auto simp: demo_table_def ifnames_ok_def demo_net_def blank_network_def)
  have "snd (network_init healthy_read all_ok (ns_state_path ns) (empty_netstate [] (hd (ns_fs ns')))) = - 1"
    by (rule attach_unreadable_name [OF ns(2) ifs _ _ _ _ attach])
      (simp_all add: NUL_def INT_MAX_def network_ifname_is_valid_def simple_name_is_valid_def name_char_def less_eq_char_def
        NETWORK_IFNAME_MAX_def PATH_MAX_def ns(3) empty_netstate_def)
  with ns attach show ?thesis by auto
qed

end
