(* ===== verification/Scheduler.thy ===== *)
theory Scheduler
  imports Persist
begin

text \<open>
  \<open>daemon/src/scheduler.c\<close>: the table of scheduled jobs, the parser of their structured form, the
  due test that a timer of \<open>daemon/src/main.c\<close> runs, and the outcome each run records.

  The C library's \<open>localtime_r\<close> and \<open>mktime\<close> are parameters, so the theorems hold in every time
  zone; the time of a call is an argument.  An action is a name and a function that answers from the
  number of runs before it; each run is logged with its parameters and the end of its window.  The
  texts of error messages are not modelled.
\<close>

section \<open>State\<close>

definition SCHEDULE_NAME_MAX :: nat where "SCHEDULE_NAME_MAX = 64"
definition SCHEDULE_ACTION_MAX :: nat where "SCHEDULE_ACTION_MAX = 48"
definition SCHEDULE_PARAMS_MAX :: nat where "SCHEDULE_PARAMS_MAX = 512"
definition SCHEDULE_REASON_MAX :: nat where "SCHEDULE_REASON_MAX = 256"
definition SCHEDULE_DESCRIBE_MAX :: nat where "SCHEDULE_DESCRIBE_MAX = 96"
definition SCHEDULER_MAX_JOBS :: nat where "SCHEDULER_MAX_JOBS = 64"
definition SCHEDULER_MAX_ACTIONS :: nat where "SCHEDULER_MAX_ACTIONS = 32"

datatype schedule_kind = SCHEDULE_EVERY | SCHEDULE_DAILY | SCHEDULE_WEEKLY

datatype schedule_error = SCHEDULE_OK | SCHEDULE_ERR_INVALID_NAME | SCHEDULE_ERR_NOT_FOUND | SCHEDULE_ERR_DUPLICATE
  | SCHEDULE_ERR_FULL | SCHEDULE_ERR_NO_SUCH_ACTION | SCHEDULE_ERR_INVALID_SCHEDULE | SCHEDULE_ERR_ACTION_FAILED
  | SCHEDULE_ERR_PERSIST

record schedule =
  sc_name :: string
  sc_action :: string
  sc_params :: string
  sc_kind :: schedule_kind
  sc_every_seconds :: int
  sc_hour :: int
  sc_minute :: int
  sc_weekday :: int
  sc_window_minutes :: int
  sc_catch_up :: bool
  sc_enabled :: bool
  sc_anchor_at :: int
  sc_last_run_at :: int
  sc_last_skipped_at :: int
  sc_last_ok :: bool
  sc_last_reason :: string
  sc_in_use :: bool

text \<open>\<open>memset(s, 0, sizeof(*s))\<close>.\<close>

definition blank_schedule :: schedule where
  "blank_schedule = \<lparr>sc_name = [], sc_action = [], sc_params = [], sc_kind = SCHEDULE_EVERY, sc_every_seconds = 0, sc_hour = 0,
     sc_minute = 0, sc_weekday = 0, sc_window_minutes = 0, sc_catch_up = False, sc_enabled = False, sc_anchor_at = 0,
     sc_last_run_at = 0, sc_last_skipped_at = 0, sc_last_ok = False, sc_last_reason = [], sc_in_use = False\<rparr>"

text \<open>
  The function gets the number of runs before this one, and the parameters; it returns its code and
  what it wrote into the reason buffer.
\<close>

record schedule_action =
  sa_name :: string
  sa_summary :: "string option"
  sa_fn :: "nat \<Rightarrow> string option \<Rightarrow> int \<times> string"

datatype event = EV_listSchedules | EV_getSchedule

text \<open>One run of an action: its name, its parameters, the end of the window it may work in.\<close>

type_synonym run = "string \<times> string option \<times> int"

record scheduler =
  sch_jobs :: "schedule list"
  sch_actions :: "schedule_action list"
  sch_state_path :: string
  sch_state_was_saved :: bool
  sch_running_window_end :: int
  sch_saves :: nat
  sch_fs :: "fs list"
  sch_runs :: "run list"
  sch_events :: "event list"

text \<open>The outcome of the system calls of the \<open>n\<close>th save.\<close>

type_synonym save_env = "nat \<Rightarrow> write_env"

definition json_bool :: "json option \<Rightarrow> bool" where
  "json_bool v = (case v of Some (JBool b) \<Rightarrow> b | _ \<Rightarrow> False)"

definition WEEKDAYS :: "string list" where
  "WEEKDAYS = [''sun'', ''mon'', ''tue'', ''wed'', ''thu'', ''fri'', ''sat'']"

fun schedule_strerror :: "schedule_error \<Rightarrow> string" where
  "schedule_strerror SCHEDULE_OK = ''ok''"
| "schedule_strerror SCHEDULE_ERR_INVALID_NAME = ''invalid schedule name''"
| "schedule_strerror SCHEDULE_ERR_NOT_FOUND = ''no such schedule''"
| "schedule_strerror SCHEDULE_ERR_DUPLICATE = ''a schedule of that name already exists''"
| "schedule_strerror SCHEDULE_ERR_FULL = ''no room for another schedule''"
| "schedule_strerror SCHEDULE_ERR_NO_SUCH_ACTION = ''no such action''"
| "schedule_strerror SCHEDULE_ERR_INVALID_SCHEDULE = ''invalid schedule''"
| "schedule_strerror SCHEDULE_ERR_ACTION_FAILED = ''the action ran and failed''"
| "schedule_strerror SCHEDULE_ERR_PERSIST = ''could not persist the schedule''"

section \<open>Actions\<close>

definition scheduler_action_find :: "schedule_action list \<Rightarrow> string option \<Rightarrow> nat option" where
  "scheduler_action_find actions name =
     (case name of None \<Rightarrow> None | Some n \<Rightarrow> find_index (\<lambda>a. sa_name a = n) actions)"

definition scheduler_register_action ::
  "string option \<Rightarrow> string option \<Rightarrow> (nat \<Rightarrow> string option \<Rightarrow> int \<times> string) option \<Rightarrow> scheduler \<Rightarrow> scheduler \<times> int" where
  "scheduler_register_action name summary fn st =
     (if name = None \<or> fn = None \<or> SCHEDULER_MAX_ACTIONS \<le> length (sch_actions st) then (st, - 1)
      else if scheduler_action_find (sch_actions st) name \<noteq> None then (st, - 1)
      else (st\<lparr>sch_actions := sch_actions st @ [\<lparr>sa_name = the name, sa_summary = summary, sa_fn = the fn\<rparr>]\<rparr>, 0))"

definition scheduler_action_count :: "scheduler \<Rightarrow> nat" where
  "scheduler_action_count st = length (sch_actions st)"

definition scheduler_action_at :: "scheduler \<Rightarrow> nat \<Rightarrow> schedule_action option" where
  "scheduler_action_at st i = (if i < length (sch_actions st) then Some (sch_actions st ! i) else None)"

definition find_slot :: "schedule list \<Rightarrow> string \<Rightarrow> nat option" where
  "find_slot t name = find_index (\<lambda>s. sc_in_use s \<and> sc_name s = name) t"

definition free_slot :: "schedule list \<Rightarrow> nat option" where
  "free_slot t = find_index (\<lambda>s. \<not> sc_in_use s) t"

definition scheduler_find :: "scheduler \<Rightarrow> string option \<Rightarrow> nat option" where
  "scheduler_find st name = (case name of None \<Rightarrow> None | Some n \<Rightarrow> find_slot (sch_jobs st) n)"

section \<open>Next run\<close>

text \<open>The fields of \<open>struct tm\<close>, without the day of the year.\<close>

record tm =
  tm_year :: int
  tm_mon :: int
  tm_mday :: int
  tm_hour :: int
  tm_min :: int
  tm_sec :: int
  tm_wday :: int
  tm_isdst :: int

type_synonym localtime = "int \<Rightarrow> tm option"
type_synonym mktime = "tm \<Rightarrow> int"

definition at_time :: "int \<Rightarrow> int \<Rightarrow> tm \<Rightarrow> tm" where
  "at_time hour minute t = t\<lparr>tm_hour := hour, tm_min := minute, tm_sec := 0, tm_isdst := - 1\<rparr>"

text \<open>The loop over days, with the iterations left and the step.\<close>

fun step_days :: "localtime \<Rightarrow> mktime \<Rightarrow> int \<Rightarrow> int \<Rightarrow> int \<Rightarrow> int \<Rightarrow> nat \<Rightarrow> int \<Rightarrow> int" where
  "step_days lt mk hour minute weekday d 0 candidate = candidate"
| "step_days lt mk hour minute weekday d (Suc n) candidate =
     (case lt candidate of
        None \<Rightarrow> candidate
      | Some ctm \<Rightarrow>
          if tm_wday ctm = weekday then candidate
          else step_days lt mk hour minute weekday d n (mk (at_time hour minute (ctm\<lparr>tm_mday := tm_mday ctm + d\<rparr>))))"

definition next_wallclock :: "localtime \<Rightarrow> mktime \<Rightarrow> int \<Rightarrow> int \<Rightarrow> int \<Rightarrow> int \<Rightarrow> int" where
  "next_wallclock lt mk now hour minute weekday =
     (case lt now of
        None \<Rightarrow> 0
      | Some t \<Rightarrow>
          let candidate = mk (at_time hour minute t);
              candidate = (if candidate \<le> now then candidate + 24 * 3600 else candidate)
          in if weekday < 0 then candidate else step_days lt mk hour minute weekday 1 8 candidate)"

definition prev_wallclock :: "localtime \<Rightarrow> mktime \<Rightarrow> int \<Rightarrow> int \<Rightarrow> int \<Rightarrow> int \<Rightarrow> int" where
  "prev_wallclock lt mk now hour minute weekday =
     (case lt now of
        None \<Rightarrow> 0
      | Some t \<Rightarrow>
          let candidate = mk (at_time hour minute t);
              candidate = (if now < candidate then candidate - 24 * 3600 else candidate)
          in if weekday < 0 then candidate else step_days lt mk hour minute weekday (- 1) 8 candidate)"

definition schedule_next_run :: "localtime \<Rightarrow> mktime \<Rightarrow> schedule \<Rightarrow> int \<Rightarrow> int" where
  "schedule_next_run lt mk s now =
     (if \<not> sc_enabled s then 0
      else case sc_kind s of
        SCHEDULE_EVERY \<Rightarrow> if sc_last_run_at s = 0 then now else sc_last_run_at s + sc_every_seconds s
      | SCHEDULE_DAILY \<Rightarrow> next_wallclock lt mk now (sc_hour s) (sc_minute s) (- 1)
      | SCHEDULE_WEEKLY \<Rightarrow> next_wallclock lt mk now (sc_hour s) (sc_minute s) (sc_weekday s))"

definition scheduler_in_window :: "schedule option \<Rightarrow> int \<Rightarrow> bool" where
  "scheduler_in_window so now =
     (case so of None \<Rightarrow> False
      | Some s \<Rightarrow>
          if sc_window_minutes s \<le> 0 then True
          else if sc_last_run_at s = 0 then False
          else now < sc_last_run_at s + sc_window_minutes s * 60)"

text \<open>\<open>%02d\<close> of an \<open>int\<close>.\<close>

definition int_dec2 :: "int \<Rightarrow> string" where
  "int_dec2 i = (if i < 0 then int_dec i else dec2 (nat i))"

text \<open>The rendering for display; the fields of a stored job are not negative.\<close>

definition schedule_describe :: "schedule option \<Rightarrow> nat \<Rightarrow> string" where
  "schedule_describe so out_size =
     (case so of None \<Rightarrow> []
      | Some s \<Rightarrow>
          let base = snprintf_s 64 (case sc_kind s of
                 SCHEDULE_EVERY \<Rightarrow>
                   if sc_every_seconds s mod 86400 = 0 then ''every '' @ int_dec (sc_every_seconds s div 86400) @ ''d''
                   else if sc_every_seconds s mod 3600 = 0 then ''every '' @ int_dec (sc_every_seconds s div 3600) @ ''h''
                   else if sc_every_seconds s mod 60 = 0 then ''every '' @ int_dec (sc_every_seconds s div 60) @ ''m''
                   else ''every '' @ int_dec (sc_every_seconds s) @ ''s''
               | SCHEDULE_DAILY \<Rightarrow> ''daily at '' @ int_dec2 (sc_hour s) @ '':'' @ int_dec2 (sc_minute s)
               | SCHEDULE_WEEKLY \<Rightarrow> ''weekly on '' @ WEEKDAYS ! nat (sc_weekday s mod 7) @ '' at '' @
                   int_dec2 (sc_hour s) @ '':'' @ int_dec2 (sc_minute s));
              window = (if 0 < sc_window_minutes s then
                 if sc_window_minutes s mod 60 = 0 then snprintf_s 24 ('' for '' @ int_dec (sc_window_minutes s div 60) @ ''h'')
                 else snprintf_s 24 ('' for '' @ int_dec (sc_window_minutes s) @ ''m'')
               else [])
          in snprintf_s out_size (base @ window @ (if sc_enabled s then [] else '' (disabled)'')))"

section \<open>Persistence\<close>

definition kind_from_name :: "string option \<Rightarrow> schedule_kind option" where
  "kind_from_name so =
     (case so of None \<Rightarrow> None
      | Some s \<Rightarrow>
          if s = ''every'' then Some SCHEDULE_EVERY else if s = ''daily'' then Some SCHEDULE_DAILY
          else if s = ''weekly'' then Some SCHEDULE_WEEKLY else None)"

fun kind_name :: "schedule_kind \<Rightarrow> string" where
  "kind_name SCHEDULE_EVERY = ''every''"
| "kind_name SCHEDULE_DAILY = ''daily''"
| "kind_name SCHEDULE_WEEKLY = ''weekly''"

text \<open>\<open>jw_num(w, (double)i)\<close>.\<close>

abbreviation jw_num_int :: "json_writer \<Rightarrow> int \<Rightarrow> json_writer option" where
  "jw_num_int w i \<equiv> jw_num w (ll2d i)"

text \<open>The parameters are JSON text already and are written as they are.\<close>

definition write_job :: "json_writer \<Rightarrow> schedule \<Rightarrow> json_writer option" where
  "write_job w s =
     do { w \<leftarrow> jw_obj_open w;
          w \<leftarrow> jw_key w ''name'';
          w \<leftarrow> jw_str w (sc_name s);
          w \<leftarrow> jw_key w ''action'';
          w \<leftarrow> jw_str w (sc_action s);
          w \<leftarrow> jw_key w ''params'';
          w \<leftarrow> (if sc_params s = [] then jw_null w else Some (jw_raw_text w (sc_params s)));
          w \<leftarrow> jw_key w ''kind'';
          w \<leftarrow> jw_str w (kind_name (sc_kind s));
          w \<leftarrow> jw_key w ''every_seconds'';
          w \<leftarrow> jw_num_int w (sc_every_seconds s);
          w \<leftarrow> jw_key w ''hour'';
          w \<leftarrow> jw_num_int w (sc_hour s);
          w \<leftarrow> jw_key w ''minute'';
          w \<leftarrow> jw_num_int w (sc_minute s);
          w \<leftarrow> jw_key w ''weekday'';
          w \<leftarrow> jw_num_int w (sc_weekday s);
          w \<leftarrow> jw_key w ''window_minutes'';
          w \<leftarrow> jw_num_int w (sc_window_minutes s);
          w \<leftarrow> jw_key w ''catch_up'';
          w \<leftarrow> jw_bool w (sc_catch_up s);
          w \<leftarrow> jw_key w ''enabled'';
          w \<leftarrow> jw_bool w (sc_enabled s);
          w \<leftarrow> jw_key w ''anchor_at'';
          w \<leftarrow> jw_num_int w (sc_anchor_at s);
          w \<leftarrow> jw_key w ''last_run_at'';
          w \<leftarrow> jw_num_int w (sc_last_run_at s);
          w \<leftarrow> jw_key w ''last_skipped_at'';
          w \<leftarrow> jw_num_int w (sc_last_skipped_at s);
          w \<leftarrow> jw_key w ''last_ok'';
          w \<leftarrow> jw_bool w (sc_last_ok s);
          w \<leftarrow> jw_key w ''last_reason'';
          w \<leftarrow> jw_str w (sc_last_reason s);
          Some (jw_obj_close w) }"

definition jobs_document :: "schedule list \<Rightarrow> json_writer option" where
  "jobs_document jobs =
     do { w \<leftarrow> jw_obj_open (jw_init blank_writer);
          w \<leftarrow> jw_key w ''schedules'';
          w \<leftarrow> jw_arr_open w;
          w \<leftarrow> jw_each write_job w (filter sc_in_use jobs);
          Some (jw_obj_close (jw_arr_close w)) }"

definition persist_all :: "save_env \<Rightarrow> scheduler \<Rightarrow> (scheduler \<times> int) option" where
  "persist_all env st =
     (if sch_state_path st = [] then Some (st, 0)
      else do {
        w \<leftarrow> jobs_document (sch_jobs st);
        let (visited, rc) = persist_atomic_write (env (sch_saves st)) (sch_state_path st) (jw_buf w) (hd (sch_fs st));
        Some (st\<lparr>sch_fs := visited @ tl (sch_fs st), sch_saves := Suc (sch_saves st)\<rparr>, rc) })"

text \<open>The text of a parameters object, as \<open>jw_value\<close> writes it into a fresh writer.\<close>

definition params_text :: "json \<Rightarrow> string option" where
  "params_text v = do { w \<leftarrow> jw_value (jw_init blank_writer) v; Some (jw_buf w) }"

definition is_object :: "json option \<Rightarrow> bool" where
  "is_object v = (case v of Some (JObject ms) \<Rightarrow> True | _ \<Rightarrow> False)"

definition load_params :: "json option \<Rightarrow> string option" where
  "load_params params =
     (if is_object params then
        do { buf \<leftarrow> params_text (the params);
             Some (if length buf < SCHEDULE_PARAMS_MAX then snprintf_s SCHEDULE_PARAMS_MAX (c_str buf) else []) }
      else Some [])"

fun load_jobs :: "json list \<Rightarrow> nat \<Rightarrow> schedule list \<Rightarrow> schedule list option" where
  "load_jobs [] n jobs = Some jobs"
| "load_jobs (e # es) n jobs =
     (if SCHEDULER_MAX_JOBS \<le> n then Some jobs
      else let name = json_as_string (json_object_get (Some e) ''name'');
               action = json_as_string (json_object_get (Some e) ''action'');
               reason = json_as_string (json_object_get (Some e) ''last_reason'');
               num = (\<lambda>key. json_as_number (json_object_get (Some e) key))
        in if name = None \<or> action = None then load_jobs es n jobs
           else case kind_from_name (json_as_string (json_object_get (Some e) ''kind'')) of
               None \<Rightarrow> load_jobs es n (jobs[n := blank_schedule])
             | Some kind \<Rightarrow>
                 do { params \<leftarrow> load_params (json_object_get (Some e) ''params'');
                      load_jobs es (Suc n) (jobs[n := \<lparr>sc_name = snprintf_s SCHEDULE_NAME_MAX (the name),
                        sc_action = snprintf_s SCHEDULE_ACTION_MAX (the action), sc_params = params, sc_kind = kind,
                        sc_every_seconds = d2i (num ''every_seconds''), sc_hour = d2i (num ''hour''),
                        sc_minute = d2i (num ''minute''), sc_weekday = d2i (num ''weekday''),
                        sc_window_minutes = d2i (num ''window_minutes''),
                        sc_catch_up = json_bool (json_object_get (Some e) ''catch_up''),
                        sc_enabled = json_bool (json_object_get (Some e) ''enabled''),
                        sc_anchor_at = d2ll (num ''anchor_at''), sc_last_run_at = d2ll (num ''last_run_at''),
                        sc_last_skipped_at = d2ll (num ''last_skipped_at''),
                        sc_last_ok = json_bool (json_object_get (Some e) ''last_ok''),
                        sc_last_reason = (case reason of None \<Rightarrow> [] | Some r \<Rightarrow> snprintf_s SCHEDULE_REASON_MAX r),
                        sc_in_use = True\<rparr>]) })"

definition load_from :: "json \<Rightarrow> schedule list \<Rightarrow> schedule list option" where
  "load_from doc jobs =
     (case json_object_get (Some doc) ''schedules'' of Some (JArray items) \<Rightarrow> load_jobs items 0 jobs | _ \<Rightarrow> Some jobs)"

definition state_path_of :: "string option \<Rightarrow> string" where
  "state_path_of path = (case path of None \<Rightarrow> [] | Some p \<Rightarrow> snprintf_s 512 p)"

definition scheduler_init :: "read_env \<Rightarrow> string option \<Rightarrow> scheduler \<Rightarrow> (scheduler \<times> int) option" where
  "scheduler_init env state_path st =
     (let st = st\<lparr>sch_jobs := replicate SCHEDULER_MAX_JOBS blank_schedule, sch_state_was_saved := False,
                  sch_state_path := state_path_of state_path\<rparr>
      in if sch_state_path st = [] then Some (st, 0)
         else case persist_read_file env (sch_state_path st) (hd (sch_fs st)) of
             ReadData buf \<Rightarrow>
               let st = st\<lparr>sch_state_was_saved := True\<rparr> in
               (case json_parse buf of
                  None \<Rightarrow> Some (st, - 1)
                | Some doc \<Rightarrow> do { jobs \<leftarrow> load_from doc (sch_jobs st); Some (st\<lparr>sch_jobs := jobs\<rparr>, 0) })
           | _ \<Rightarrow> Some (st, 0))"

definition scheduler_repoint :: "string option \<Rightarrow> scheduler \<Rightarrow> scheduler" where
  "scheduler_repoint state_path st = st\<lparr>sch_state_path := state_path_of state_path\<rparr>"

section \<open>Validation\<close>

text \<open>
  \<open>%d\<close> of \<open>sscanf\<close>: white space is skipped, a sign may follow, then digits; the value saturates at
  the ends of \<open>long\<close> and is cut to 32 bits.
\<close>

definition is_space :: "char \<Rightarrow> bool" where
  "is_space c = (c = CHR '' '' \<or> CHR 0x09 \<le> c \<and> c \<le> CHR 0x0D)"

definition wrap_int :: "int \<Rightarrow> int" where
  "wrap_int i = (i + 2 ^ 31) mod 2 ^ 32 - 2 ^ 31"

definition scan_d :: "string \<Rightarrow> (int \<times> string) option" where
  "scan_d s =
     (let s = dropWhile is_space s;
          neg = (s \<noteq> [] \<and> hd s = CHR ''-'');
          s = (if s \<noteq> [] \<and> (hd s = CHR ''-'' \<or> hd s = CHR ''+'') then tl s else s);
          ds = takeWhile is_digit s;
          v = (if neg then - int (digits_val 0 ds) else int (digits_val 0 ds))
      in if ds = [] then None else Some (wrap_int (max LLONG_MIN (min LLONG_MAX v)), dropWhile is_digit s))"

text \<open>\<open>sscanf(s, "%d:%d%c", ...) == 2\<close> with both numbers in range.\<close>

definition parse_hhmm :: "string option \<Rightarrow> (int \<times> int) option" where
  "parse_hhmm so =
     do { s \<leftarrow> so;
          (h, r) \<leftarrow> scan_d s;
          (if r \<noteq> [] \<and> hd r = CHR '':'' then
             do { (m, r) \<leftarrow> scan_d (tl r);
                  if r \<noteq> [] then None
                  else if h < 0 \<or> 23 < h \<or> m < 0 \<or> 59 < m then None
                  else Some (h, m) }
           else None) }"

definition weekday_from_name :: "string option \<Rightarrow> int" where
  "weekday_from_name so =
     (case so of None \<Rightarrow> - 1
      | Some s \<Rightarrow> (case find_index (\<lambda>d. d = s) WEEKDAYS of None \<Rightarrow> - 1 | Some i \<Rightarrow> int i))"

text \<open>Signed 64-bit arithmetic, as the compiled code wraps.\<close>

definition wrap_long :: "int \<Rightarrow> int" where
  "wrap_long i = (i + 2 ^ 63) mod 2 ^ 64 - 2 ^ 63"

definition every_total :: "json option \<Rightarrow> int" where
  "every_total every =
     (let num = (\<lambda>key. d2ll (json_as_number (json_object_get every key)))
      in wrap_long (num ''seconds'' + num ''minutes'' * 60 + num ''hours'' * 3600 + num ''days'' * 86400))"

definition parse_schedule_body :: "json option \<Rightarrow> schedule \<Rightarrow> schedule \<times> schedule_error" where
  "parse_schedule_body doc out =
     (let sched = json_object_get doc ''schedule'' in
      if \<not> is_object sched then (out, SCHEDULE_ERR_INVALID_SCHEDULE)
      else let every = json_object_get sched ''every''; daily = json_object_get sched ''daily'';
               weekly = json_object_get sched ''weekly'';
               present = length (filter (\<lambda>v. v \<noteq> None) [every, daily, weekly])
        in if present \<noteq> 1 then (out, SCHEDULE_ERR_INVALID_SCHEDULE)
           else if every \<noteq> None then
             if every_total every < 10 \<or> 366 * 86400 < every_total every then (out, SCHEDULE_ERR_INVALID_SCHEDULE)
             else (out\<lparr>sc_kind := SCHEDULE_EVERY, sc_every_seconds := every_total every\<rparr>, SCHEDULE_OK)
           else if daily \<noteq> None then
             (case parse_hhmm (json_as_string (json_object_get daily ''at'')) of
                None \<Rightarrow> (out, SCHEDULE_ERR_INVALID_SCHEDULE)
              | Some (h, m) \<Rightarrow> (out\<lparr>sc_hour := h, sc_minute := m, sc_kind := SCHEDULE_DAILY\<rparr>, SCHEDULE_OK))
           else
             (case parse_hhmm (json_as_string (json_object_get weekly ''at'')) of
                None \<Rightarrow> (out, SCHEDULE_ERR_INVALID_SCHEDULE)
              | Some (h, m) \<Rightarrow>
                  let day = weekday_from_name (json_as_string (json_object_get weekly ''on''));
                      out = out\<lparr>sc_hour := h, sc_minute := m, sc_weekday := day\<rparr>
                  in if day < 0 then (out, SCHEDULE_ERR_INVALID_SCHEDULE)
                     else (out\<lparr>sc_kind := SCHEDULE_WEEKLY\<rparr>, SCHEDULE_OK)))"

text \<open>
  The parameters of a request: absent and \<open>null\<close> are none, an object is kept as its text when it
  fits, anything else is refused.  \<open>None\<close> is a write past the writer's arrays.
\<close>

definition request_params :: "json option \<Rightarrow> (schedule_error + string) option" where
  "request_params v =
     (if is_object v then
        do { buf \<leftarrow> params_text (the v);
             Some (if SCHEDULE_PARAMS_MAX \<le> length buf then Inl SCHEDULE_ERR_INVALID_SCHEDULE
                   else Inr (snprintf_s SCHEDULE_PARAMS_MAX (c_str buf))) }
      else if v \<noteq> None \<and> v \<noteq> Some JNull then Some (Inl SCHEDULE_ERR_INVALID_SCHEDULE)
      else Some (Inr []))"

text \<open>The candidate a request body describes, before it meets the table.\<close>

definition parse_candidate :: "schedule_action list \<Rightarrow> string \<Rightarrow> (schedule_error + schedule) option" where
  "parse_candidate actions body =
     (case json_parse body of
        Some (JObject ms) \<Rightarrow>
          let doc = Some (JObject ms); action = json_as_string (json_object_get doc ''action'') in
          if action = None \<or> scheduler_action_find actions action = None then Some (Inl SCHEDULE_ERR_NO_SUCH_ACTION)
          else let (c, e) = parse_schedule_body doc (blank_schedule\<lparr>sc_action := snprintf_s SCHEDULE_ACTION_MAX (the action)\<rparr>) in
            if e \<noteq> SCHEDULE_OK then Some (Inl e)
            else let window = d2i (json_as_number (json_object_get doc ''window_minutes'')) in
              if window < 0 \<or> 24 * 60 < window then Some (Inl SCHEDULE_ERR_INVALID_SCHEDULE)
              else do {
                params \<leftarrow> request_params (json_object_get doc ''params'');
                Some (case params of
                    Inl e \<Rightarrow> Inl e
                  | Inr text \<Rightarrow> Inr (c\<lparr>sc_window_minutes := window, sc_catch_up := json_bool (json_object_get doc ''catch_up''),
                      sc_enabled := (case json_object_get doc ''enabled'' of None \<Rightarrow> True | v \<Rightarrow> json_bool v),
                      sc_params := text\<rparr>)) }
      | _ \<Rightarrow> Some (Inl SCHEDULE_ERR_INVALID_SCHEDULE))"

definition scheduler_set_from_json ::
  "save_env \<Rightarrow> int \<Rightarrow> string option \<Rightarrow> string \<Rightarrow> scheduler \<Rightarrow> (scheduler \<times> schedule_error) option" where
  "scheduler_set_from_json env now name body st =
     (if name = None \<or> \<not> simple_name_is_valid name SCHEDULE_NAME_MAX then Some (st, SCHEDULE_ERR_INVALID_NAME)
      else do {
        parsed \<leftarrow> parse_candidate (sch_actions st) body;
        (case parsed of
           Inl e \<Rightarrow> Some (st, e)
         | Inr c \<Rightarrow>
             let c = c\<lparr>sc_name := snprintf_s SCHEDULE_NAME_MAX (the name)\<rparr>;
                 old = find_slot (sch_jobs st) (the name);
                 slot = (case old of None \<Rightarrow> free_slot (sch_jobs st) | Some i \<Rightarrow> Some i);
                 c = (case old of None \<Rightarrow> c
                      | Some i \<Rightarrow> c\<lparr>sc_last_run_at := sc_last_run_at (sch_jobs st ! i), sc_last_ok := sc_last_ok (sch_jobs st ! i),
                          sc_last_reason := snprintf_s SCHEDULE_REASON_MAX (sc_last_reason (sch_jobs st ! i))\<rparr>)
             in case slot of
                  None \<Rightarrow> Some (st, SCHEDULE_ERR_FULL)
                | Some i \<Rightarrow>
                    do { (st, rc) \<leftarrow> persist_all env (st\<lparr>sch_jobs := (sch_jobs st)[i := c\<lparr>sc_in_use := True, sc_anchor_at := now\<rparr>]\<rparr>);
                         Some (st, if rc \<noteq> 0 then SCHEDULE_ERR_PERSIST else SCHEDULE_OK) }) })"

definition scheduler_delete :: "save_env \<Rightarrow> string option \<Rightarrow> scheduler \<Rightarrow> (scheduler \<times> schedule_error) option" where
  "scheduler_delete env name st =
     (case name of None \<Rightarrow> Some (st, SCHEDULE_ERR_INVALID_NAME)
      | Some n \<Rightarrow>
          (case find_slot (sch_jobs st) n of
             None \<Rightarrow> Some (st, SCHEDULE_ERR_NOT_FOUND)
           | Some i \<Rightarrow>
               do { (st, rc) \<leftarrow> persist_all env (st\<lparr>sch_jobs := (sch_jobs st)[i := blank_schedule]\<rparr>);
                    Some (st, if rc = 0 then SCHEDULE_OK else SCHEDULE_ERR_PERSIST) }))"

section \<open>Running\<close>

definition outcome_of :: "schedule \<Rightarrow> int \<Rightarrow> bool \<Rightarrow> string \<Rightarrow> schedule" where
  "outcome_of s now ok reason =
     s\<lparr>sc_last_run_at := now, sc_anchor_at := (if sc_anchor_at s < now then now else sc_anchor_at s), sc_last_ok := ok,
       sc_last_reason := snprintf_s SCHEDULE_REASON_MAX reason\<rparr>"

definition record_outcome :: "save_env \<Rightarrow> nat \<Rightarrow> int \<Rightarrow> bool \<Rightarrow> string \<Rightarrow> scheduler \<Rightarrow> scheduler option" where
  "record_outcome env i now ok reason st =
     do { (st, rc) \<leftarrow> persist_all env (st\<lparr>sch_jobs := (sch_jobs st)[i := outcome_of (sch_jobs st ! i) now ok reason]\<rparr>);
          Some (st\<lparr>sch_events := EV_getSchedule # EV_listSchedules # sch_events st\<rparr>) }"

definition scheduler_running_window_end :: "scheduler \<Rightarrow> int" where
  "scheduler_running_window_end st = sch_running_window_end st"

definition run_one :: "save_env \<Rightarrow> nat \<Rightarrow> int \<Rightarrow> scheduler \<Rightarrow> scheduler option" where
  "run_one env i now st =
     (let s = sch_jobs st ! i in
      case scheduler_action_find (sch_actions st) (Some (sc_action s)) of
        None \<Rightarrow>
          record_outcome env i now False
            (snprintf_s SCHEDULE_REASON_MAX (''action '' @ [CHR 0x22] @ sc_action s @ [CHR 0x22] @ '' is not registered in this build'')) st
      | Some k \<Rightarrow>
          let st = st\<lparr>sch_running_window_end := (if 0 < sc_window_minutes s then now + sc_window_minutes s * 60 else 0)\<rparr>;
              params = (if sc_params s \<noteq> [] then Some (sc_params s) else None);
              (rc, reason) = sa_fn (sch_actions st ! k) (length (sch_runs st)) params;
              reason = snprintf_s SCHEDULE_REASON_MAX reason;
              st = st\<lparr>sch_runs := (sc_action s, params, sch_running_window_end st) # sch_runs st, sch_running_window_end := 0\<rparr>
          in if rc = 0 then record_outcome env i now True (if reason \<noteq> [] then reason else ''ok'') st
             else record_outcome env i now False (if reason \<noteq> [] then reason else ''failed'') st)"

definition record_skip :: "save_env \<Rightarrow> nat \<Rightarrow> int \<Rightarrow> scheduler \<Rightarrow> scheduler option" where
  "record_skip env i occurrence st =
     do { (st, rc) \<leftarrow> persist_all env (st\<lparr>sch_jobs := (sch_jobs st)[i :=
            (sch_jobs st ! i)\<lparr>sc_last_skipped_at := occurrence, sc_anchor_at := occurrence\<rparr>]\<rparr>);
          Some st }"

text \<open>What the loop body decides for one job.\<close>

datatype due = NotDue | Run | Skip int

definition job_due :: "localtime \<Rightarrow> mktime \<Rightarrow> int \<Rightarrow> bool \<Rightarrow> schedule \<Rightarrow> due" where
  "job_due lt mk now startup s =
     (if \<not> sc_in_use s \<or> \<not> sc_enabled s then NotDue
      else if sc_kind s = SCHEDULE_EVERY then
        let due = (if sc_last_run_at s = 0 then now else sc_last_run_at s + sc_every_seconds s) in
        if now < due then NotDue else Run
      else
        let prev = prev_wallclock lt mk now (sc_hour s) (sc_minute s) (if sc_kind s = SCHEDULE_WEEKLY then sc_weekday s else - 1);
            done_at = (if sc_anchor_at s < sc_last_run_at s then sc_last_run_at s else sc_anchor_at s)
        in if prev \<le> done_at then NotDue
           else if startup \<and> \<not> sc_catch_up s then Skip prev
           else Run)"

fun run_due_from :: "save_env \<Rightarrow> localtime \<Rightarrow> mktime \<Rightarrow> int \<Rightarrow> bool \<Rightarrow> nat list \<Rightarrow> scheduler \<Rightarrow> scheduler option" where
  "run_due_from env lt mk now startup [] st = Some st"
| "run_due_from env lt mk now startup (i # is) st =
     do { st \<leftarrow> (case job_due lt mk now startup (sch_jobs st ! i) of
              NotDue \<Rightarrow> Some st
            | Run \<Rightarrow> run_one env i now st
            | Skip occurrence \<Rightarrow> record_skip env i occurrence st);
          run_due_from env lt mk now startup is st }"

definition scheduler_run_due :: "save_env \<Rightarrow> localtime \<Rightarrow> mktime \<Rightarrow> int \<Rightarrow> bool \<Rightarrow> scheduler \<Rightarrow> scheduler option" where
  "scheduler_run_due env lt mk now startup st = run_due_from env lt mk now startup [0..<SCHEDULER_MAX_JOBS] st"

definition scheduler_next_due :: "localtime \<Rightarrow> mktime \<Rightarrow> int \<Rightarrow> scheduler \<Rightarrow> int" where
  "scheduler_next_due lt mk now st =
     foldl (\<lambda>soonest s.
        if \<not> sc_in_use s \<or> \<not> sc_enabled s then soonest
        else let due = schedule_next_run lt mk s now in
          if due = 0 then soonest else if soonest = 0 \<or> due < soonest then due else soonest) 0 (sch_jobs st)"

definition scheduler_run_now :: "save_env \<Rightarrow> int \<Rightarrow> string option \<Rightarrow> scheduler \<Rightarrow> (scheduler \<times> schedule_error) option" where
  "scheduler_run_now env now name st =
     (case name of None \<Rightarrow> Some (st, SCHEDULE_ERR_INVALID_NAME)
      | Some n \<Rightarrow>
          (case find_slot (sch_jobs st) n of
             None \<Rightarrow> Some (st, SCHEDULE_ERR_NOT_FOUND)
           | Some i \<Rightarrow>
               do { st \<leftarrow> run_one env i now st;
                    Some (st, if sc_last_ok (sch_jobs st ! i) then SCHEDULE_OK else SCHEDULE_ERR_ACTION_FAILED) }))"

text \<open>The delay \<open>arm_scheduler_timer\<close> of \<open>daemon/src/main.c\<close> sets until the next call.\<close>

definition scheduler_delay :: "int \<Rightarrow> int \<Rightarrow> int" where
  "scheduler_delay due now =
     (let delay = (if due = 0 then 60 else due - now);
          delay = (if delay < 1 then 1 else delay)
      in if 60 < delay then 60 else delay)"

section \<open>JSON for the API\<close>

definition write_schedule_object :: "json_writer \<Rightarrow> schedule \<Rightarrow> json_writer option" where
  "write_schedule_object w s =
     (let clock = snprintf_s 8 (int_dec2 (sc_hour s) @ '':'' @ int_dec2 (sc_minute s)) in
      do { w \<leftarrow> jw_obj_open w;
           w \<leftarrow> (case sc_kind s of
               SCHEDULE_EVERY \<Rightarrow>
                 do { w \<leftarrow> jw_key w ''every''; w \<leftarrow> jw_obj_open w; w \<leftarrow> jw_key w ''seconds'';
                      w \<leftarrow> jw_num_int w (sc_every_seconds s); Some (jw_obj_close w) }
             | SCHEDULE_DAILY \<Rightarrow>
                 do { w \<leftarrow> jw_key w ''daily''; w \<leftarrow> jw_obj_open w; w \<leftarrow> jw_key w ''at''; w \<leftarrow> jw_str w clock; Some (jw_obj_close w) }
             | SCHEDULE_WEEKLY \<Rightarrow>
                 do { w \<leftarrow> jw_key w ''weekly''; w \<leftarrow> jw_obj_open w; w \<leftarrow> jw_key w ''on'';
                      w \<leftarrow> jw_str w (WEEKDAYS ! nat (sc_weekday s mod 7)); w \<leftarrow> jw_key w ''at''; w \<leftarrow> jw_str w clock;
                      Some (jw_obj_close w) });
           Some (jw_obj_close w) })"

text \<open>A time of \<open>0\<close> stands for never and is written as \<open>null\<close>.\<close>

definition jw_time :: "json_writer \<Rightarrow> int \<Rightarrow> json_writer option" where
  "jw_time w t = (if t = 0 then jw_null w else jw_num_int w t)"

definition scheduler_write_json_one :: "localtime \<Rightarrow> mktime \<Rightarrow> int \<Rightarrow> json_writer \<Rightarrow> schedule \<Rightarrow> json_writer option" where
  "scheduler_write_json_one lt mk now w s =
     do { w \<leftarrow> jw_obj_open w;
          w \<leftarrow> jw_key w ''name'';
          w \<leftarrow> jw_str w (sc_name s);
          w \<leftarrow> jw_key w ''action'';
          w \<leftarrow> jw_str w (sc_action s);
          w \<leftarrow> jw_key w ''schedule'';
          w \<leftarrow> write_schedule_object w s;
          w \<leftarrow> jw_key w ''describes'';
          w \<leftarrow> jw_str w (schedule_describe (Some s) SCHEDULE_DESCRIBE_MAX);
          w \<leftarrow> jw_key w ''window_minutes'';
          w \<leftarrow> jw_num_int w (sc_window_minutes s);
          w \<leftarrow> jw_key w ''catch_up'';
          w \<leftarrow> jw_bool w (sc_catch_up s);
          w \<leftarrow> jw_key w ''enabled'';
          w \<leftarrow> jw_bool w (sc_enabled s);
          w \<leftarrow> jw_key w ''next_run_at'';
          w \<leftarrow> jw_time w (schedule_next_run lt mk s now);
          w \<leftarrow> jw_key w ''last_run_at'';
          w \<leftarrow> jw_time w (sc_last_run_at s);
          w \<leftarrow> jw_key w ''last_ok'';
          w \<leftarrow> (if sc_last_run_at s = 0 then jw_null w else jw_bool w (sc_last_ok s));
          w \<leftarrow> jw_key w ''last_skipped_at'';
          w \<leftarrow> jw_time w (sc_last_skipped_at s);
          w \<leftarrow> jw_key w ''last_reason'';
          w \<leftarrow> jw_str w (sc_last_reason s);
          Some (jw_obj_close w) }"

definition scheduler_write_json :: "localtime \<Rightarrow> mktime \<Rightarrow> int \<Rightarrow> scheduler \<Rightarrow> json_writer \<Rightarrow> json_writer option" where
  "scheduler_write_json lt mk now st w =
     do { w \<leftarrow> jw_obj_open w;
          w \<leftarrow> jw_key w ''schedules'';
          w \<leftarrow> jw_arr_open w;
          w \<leftarrow> jw_each (scheduler_write_json_one lt mk now) w (filter sc_in_use (sch_jobs st));
          let w = jw_arr_close w;
          w \<leftarrow> jw_key w ''total'';
          w \<leftarrow> jw_num_int w (int (length (filter sc_in_use (sch_jobs st))));
          Some (jw_obj_close w) }"

definition write_action :: "json_writer \<Rightarrow> schedule_action \<Rightarrow> json_writer option" where
  "write_action w a =
     do { w \<leftarrow> jw_obj_open w;
          w \<leftarrow> jw_key w ''name'';
          w \<leftarrow> jw_str w (sa_name a);
          w \<leftarrow> jw_key w ''summary'';
          w \<leftarrow> jw_str w (case sa_summary a of None \<Rightarrow> [] | Some t \<Rightarrow> t);
          Some (jw_obj_close w) }"

definition scheduler_write_actions_json :: "scheduler \<Rightarrow> json_writer \<Rightarrow> json_writer option" where
  "scheduler_write_actions_json st w =
     do { w \<leftarrow> jw_obj_open w;
          w \<leftarrow> jw_key w ''actions'';
          w \<leftarrow> jw_arr_open w;
          w \<leftarrow> jw_each write_action w (sch_actions st);
          Some (jw_obj_close (jw_arr_close w)) }"

section \<open>The table\<close>

interpretation slots: keyed_table sc_in_use sc_name find_slot free_slot
  using find_index_keyed_table [of sc_in_use sc_name] by (simp add: find_slot_def [abs_def] free_slot_def [abs_def])

end
