(* ===== verification/Json_Compose.thy ===== *)
theory Json_Compose
  imports Persist
begin

text \<open>
  Documents the modules write call by call and that are not the text of one tree: integers go
  through \<open>jw_num\<close> and its \<open>%.2f\<close>, and ready JSON text is inserted by \<open>jw_raw_text\<close>.

  \<open>jw_runs f a a'\<close> is a triple over the abstract writer, with one rule per call; a sequence of
  calls is executed symbolically by these rules.  \<open>parses t v\<close> says that a text is read as the
  value \<open>v\<close> whatever follows it, and is closed under arrays and objects of such texts.
\<close>

section \<open>Writing\<close>

definition jw_runs :: "(json_writer \<Rightarrow> json_writer option) \<Rightarrow> awriter \<Rightarrow> awriter \<Rightarrow> bool" where
  "jw_runs f a a' = (\<forall>w. wf_writer w \<and> awriter_of w = a \<longrightarrow> refines (f w) a')"

named_theorems jw_runs_rules \<open>triples of the single calls\<close>

text \<open>A text goes after the prefix the innermost container asks for.\<close>

definition a_put :: "awriter \<Rightarrow> string \<Rightarrow> awriter" where
  "a_put a t = a_append (a_prefix a) t"

lemma jw_runsD: "jw_runs f a a' \<Longrightarrow> wf_writer w \<Longrightarrow> awriter_of w = a \<Longrightarrow> refines (f w) a'"
  by (simp add: jw_runs_def)

lemma jw_runs_bind:
  "jw_runs f a b \<Longrightarrow> jw_runs g b c \<Longrightarrow> jw_runs (\<lambda>w. f w \<bind> g) a c"
  by (fastforce simp: jw_runs_def refines_def)

lemma jw_runs_Some: "jw_runs Some a a"
  by (auto simp: jw_runs_def refines_def)

lemma jw_runs_scalar:
  assumes "\<And>u. wf_writer u \<Longrightarrow> wf_writer (f u) \<and> awriter_of (f u) = a_append (awriter_of u) s"
  shows "jw_runs (\<lambda>w. do { w \<leftarrow> jw_value_prefix w; Some (f w) }) a (a_put a s)"
  unfolding jw_runs_def a_put_def using scalar_refines [OF _ assms] by blast

lemma jw_runs_str [jw_runs_rules]: "jw_runs (\<lambda>w. jw_str w s) a (a_put a (render_string s))"
  unfolding jw_str_def by (rule jw_runs_scalar) simp

lemma jw_runs_int [jw_runs_rules]: "jw_runs (\<lambda>w. jw_int w i) a (a_put a (snprintf_s 32 (int_dec i)))"
  unfolding jw_int_def by (rule jw_runs_scalar) simp

lemma jw_runs_num [jw_runs_rules]: "jw_runs (\<lambda>w. jw_num w d) a (a_put a (snprintf_s 32 (fmt_2f d)))"
  unfolding jw_num_def by (rule jw_runs_scalar) simp

lemma jw_runs_bool [jw_runs_rules]: "jw_runs (\<lambda>w. jw_bool w b) a (a_put a (if b then ''true'' else ''false''))"
  unfolding jw_bool_def by (rule jw_runs_scalar) simp

lemma jw_runs_null [jw_runs_rules]: "jw_runs jw_null a (a_put a ''null'')"
  using jw_runs_scalar [of "\<lambda>w. jw_raw w ''null''"] by (simp add: jw_null_def [abs_def])

lemma jw_runs_raw: "jw_runs (\<lambda>w. Some (jw_raw_text w s)) a (a_append a s)"
  by (auto simp: jw_runs_def refines_def jw_raw_text_def)

lemma jw_runs_if: "jw_runs f a (a_put a s) \<Longrightarrow> jw_runs g a (a_put a t) \<Longrightarrow>
    jw_runs (\<lambda>w. if c then f w else g w) a (a_put a (if c then s else t))"
  by simp

lemma jw_runs_key: "jw_runs (\<lambda>w. jw_key w k) (b, (c, h) # fs) (a_key (b, (c, h) # fs) k)"
  unfolding jw_runs_def using jw_key_refines by (fastforce simp: awriter_of_def)

lemma jw_runs_open:
  assumes "length (snd a) < JW_MAX_DEPTH"
  shows "jw_runs (jw_open c br) a (fst (a_put a br), (c, False) # snd (a_put a br))"
  unfolding jw_runs_def
proof (intro allI impI)
  fix w assume w: "wf_writer w \<and> awriter_of w = a"
  then have "jw_depth w < int JW_MAX_DEPTH" using depth_frames [of w] assms by (auto simp: awriter_of_def)
  with jw_open_refines [of w c br] w show "refines (jw_open c br w) (fst (a_put a br), (c, False) # snd (a_put a br))"
    by (simp add: a_put_def a_append_def case_prod_beta)
qed

lemma jw_runs_close:
  "jw_runs (\<lambda>w. Some (jw_obj_close w)) (b, f # fs) (b @ ''}'', fs)"
  "jw_runs (\<lambda>w. Some (jw_arr_close w)) (b, f # fs) (b @ '']'', fs)"
  unfolding jw_runs_def jw_obj_close_def jw_arr_close_def
proof (intro allI impI)
  fix w assume "wf_writer w \<and> awriter_of w = (b, f # fs)"
  then have "refines (Some w) (b, f # fs)" by (simp add: refines_def)
  from close_refines [OF this, of "''}''"] show "refines (Some (jw_raw (w\<lparr>jw_depth := jw_depth w - 1\<rparr>) ''}'')) (b @ ''}'', fs)"
    by simp
next
  show "\<forall>w. wf_writer w \<and> awriter_of w = (b, f # fs) \<longrightarrow>
      refines (Some (jw_raw (w\<lparr>jw_depth := jw_depth w - 1\<rparr>) '']'')) (b @ '']'', fs)"
    using close_refines [of "Some w" b f fs "'']''" for w] by (simp add: refines_def [of "Some _" "(b, f # fs)"])
qed

section \<open>Texts of members and elements\<close>

fun text_members :: "bool \<Rightarrow> (string \<times> string) list \<Rightarrow> string" where
  "text_members h [] = []"
| "text_members h ((k, t) # ms) = (if h then '','' else []) @ render_string k @ '':'' @ t @ text_members True ms"

fun text_items :: "bool \<Rightarrow> string list \<Rightarrow> string" where
  "text_items h [] = []"
| "text_items h (t # ts) = (if h then '','' else []) @ t @ text_items True ts"

definition obj_text :: "(string \<times> string) list \<Rightarrow> string" where
  "obj_text ms = ''{'' @ text_members False ms @ ''}''"

definition arr_text :: "string list \<Rightarrow> string" where
  "arr_text ts = ''['' @ text_items False ts @ '']''"

text \<open>A call that writes one value, and the calls that complete an open object, with \<open>d\<close> levels to spare.\<close>

definition jw_emits :: "(json_writer \<Rightarrow> json_writer option) \<Rightarrow> nat \<Rightarrow> string \<Rightarrow> bool" where
  "jw_emits f d t = (\<forall>a. length (snd a) + d \<le> JW_MAX_DEPTH \<longrightarrow> jw_runs f a (a_put a t))"

definition jw_closes :: "(json_writer \<Rightarrow> json_writer option) \<Rightarrow> nat \<Rightarrow> (string \<times> string) list \<Rightarrow> bool" where
  "jw_closes f d ms = (\<forall>b h fs. Suc (length fs) + d \<le> JW_MAX_DEPTH \<longrightarrow>
     jw_runs f (b, (JW_CONTAINER_OBJ, h) # fs) (b @ text_members h ms @ ''}'', fs))"

lemma jw_closesD:
  "jw_closes f d ms \<Longrightarrow> Suc (length fs) + d \<le> JW_MAX_DEPTH \<Longrightarrow>
     jw_runs f (b, (JW_CONTAINER_OBJ, h) # fs) (b @ text_members h ms @ ''}'', fs)"
  by (simp add: jw_closes_def)

lemma jw_emits_scalars:
  "jw_emits (\<lambda>w. jw_str w s) d (render_string s)" "jw_emits (\<lambda>w. jw_num w x) d (snprintf_s 32 (fmt_2f x))"
  "jw_emits (\<lambda>w. jw_bool w b) d (if b then ''true'' else ''false'')" "jw_emits jw_null d ''null''"
  "jw_emits (\<lambda>w. jw_int w i) d (snprintf_s 32 (int_dec i))"
  unfolding jw_emits_def by (intro allI impI jw_runs_rules)+

lemma jw_emits_if:
  "jw_emits f d s \<Longrightarrow> jw_emits g d t \<Longrightarrow> jw_emits (\<lambda>w. if c then f w else g w) d (if c then s else t)"
  by simp

text \<open>The value after a key inside an object, by a call or as raw text.\<close>

definition jw_writes :: "(json_writer \<Rightarrow> json_writer option) \<Rightarrow> nat \<Rightarrow> string \<Rightarrow> bool" where
  "jw_writes f d t = (\<forall>b fs. Suc (length fs) + d \<le> JW_MAX_DEPTH \<longrightarrow>
     jw_runs f (b, (JW_CONTAINER_OBJ, True) # fs) (b @ t, (JW_CONTAINER_OBJ, True) # fs))"

lemma jw_emitsD: "jw_emits f d t \<Longrightarrow> length fs + d \<le> JW_MAX_DEPTH \<Longrightarrow> jw_runs f (b, fs) (a_put (b, fs) t)"
  by (simp add: jw_emits_def)

lemma jw_writes_emits: "jw_emits f d t \<Longrightarrow> jw_writes f d t"
  using jw_emitsD [of f d t "(JW_CONTAINER_OBJ, True) # fs" for fs]
  by (auto simp: jw_writes_def a_put_def a_append_def)

lemmas jw_writes_scalars = jw_emits_scalars [THEN jw_writes_emits]

lemma jw_writes_raw: "jw_writes (\<lambda>w. Some (jw_raw_text w t)) d t"
  using jw_runs_raw [of t] by (fastforce simp: jw_writes_def a_append_def)

lemma jw_writes_if:
  "jw_writes f d s \<Longrightarrow> jw_writes g d t \<Longrightarrow> jw_writes (\<lambda>w. if c then f w else g w) d (if c then s else t)"
  by simp

lemma jw_closes_member:
  assumes "jw_writes f d t" "jw_closes g d ms"
  shows "jw_closes (\<lambda>w. jw_key w k \<bind> (\<lambda>w. f w \<bind> g)) d ((k, t) # ms)"
  unfolding jw_closes_def
proof (intro allI impI)
  fix b h and fs :: "(jw_container \<times> bool) list"
  assume d: "Suc (length fs) + d \<le> JW_MAX_DEPTH"
  let ?kb = "b @ (if h then '','' else []) @ render_string k @ '':''"
  have "jw_runs (\<lambda>w. jw_key w k \<bind> (\<lambda>w. f w \<bind> g)) (b, (JW_CONTAINER_OBJ, h) # fs)
      ((?kb @ t) @ text_members True ms @ ''}'', fs)"
    using jw_runs_key [of k b JW_CONTAINER_OBJ h fs] assms(1) [unfolded jw_writes_def, rule_format, OF d, of ?kb] jw_closesD [OF assms(2) d]
    by (intro jw_runs_bind) (simp only: a_key.simps)
  then show "jw_runs (\<lambda>w. jw_key w k \<bind> (\<lambda>w. f w \<bind> g)) (b, (JW_CONTAINER_OBJ, h) # fs)
      (b @ text_members h ((k, t) # ms) @ ''}'', fs)" by simp
qed

lemma jw_closes_end: "jw_closes (\<lambda>w. Some (jw_obj_close w)) d []"
  using jw_runs_close(1) by (simp add: jw_closes_def)

lemmas jw_object_rules = jw_closes_member jw_closes_end jw_writes_scalars jw_writes_raw jw_writes_if

lemma jw_emits_object: "jw_closes f d ms \<Longrightarrow> jw_emits (\<lambda>w. jw_obj_open w \<bind> f) (Suc d) (obj_text ms)"
  unfolding jw_emits_def
proof (intro allI impI)
  fix a :: awriter
  assume f: "jw_closes f d ms" and d: "length (snd a) + Suc d \<le> JW_MAX_DEPTH"
  have "Suc (length (snd (a_put a ''{''))) + d \<le> JW_MAX_DEPTH"
    using d by (simp add: a_put_def a_append_def a_prefix_length)
  from jw_runs_bind [OF jw_runs_open [of a JW_CONTAINER_OBJ "''{''"] jw_closesD [OF f this]] d
  show "jw_runs (\<lambda>w. jw_obj_open w \<bind> f) a (a_put a (obj_text ms))"
    by (simp add: jw_obj_open_def a_put_def a_append_def obj_text_def)
qed

lemma jw_runs_each:
  assumes "\<And>x. x \<in> set xs \<Longrightarrow> jw_emits (\<lambda>w. f w x) d (g x)" "Suc (length fs) + d \<le> JW_MAX_DEPTH"
  shows "jw_runs (\<lambda>w. jw_each f w xs) (b, (JW_CONTAINER_ARR, h) # fs)
    (b @ text_items h (map g xs), (JW_CONTAINER_ARR, h \<or> xs \<noteq> []) # fs)"
  using assms(1)
proof (induction xs arbitrary: b h)
  case Nil
  show ?case using jw_runs_Some by simp
next
  case (Cons x xs)
  let ?b = "b @ (if h then '','' else []) @ g x"
  have "jw_runs (\<lambda>w. f w x) (b, (JW_CONTAINER_ARR, h) # fs) (?b, (JW_CONTAINER_ARR, True) # fs)"
    using jw_emitsD [OF Cons.prems [of x], of "(JW_CONTAINER_ARR, h) # fs" b] assms(2) by (simp add: a_put_def a_append_def)
  from jw_runs_bind [OF this Cons.IH [of ?b True]] Cons.prems show ?case by simp
qed

lemma jw_emits_array:
  assumes "\<And>x. x \<in> set xs \<Longrightarrow> jw_emits (\<lambda>w. f w x) d (g x)"
  shows "jw_emits (\<lambda>w. jw_arr_open w \<bind> (\<lambda>w. jw_each f w xs \<bind> (\<lambda>w. Some (jw_arr_close w)))) (Suc d) (arr_text (map g xs))"
  unfolding jw_emits_def
proof (intro allI impI)
  fix a :: awriter
  assume d: "length (snd a) + Suc d \<le> JW_MAX_DEPTH"
  have "Suc (length (snd (a_put a ''[''))) + d \<le> JW_MAX_DEPTH"
    using d by (simp add: a_put_def a_append_def a_prefix_length)
  from jw_runs_bind [OF jw_runs_open [of a JW_CONTAINER_ARR "''[''"] jw_runs_bind [OF jw_runs_each [OF assms this] jw_runs_close(2)]] d
  show "jw_runs (\<lambda>w. jw_arr_open w \<bind> (\<lambda>w. jw_each f w xs \<bind> (\<lambda>w. Some (jw_arr_close w)))) a (a_put a (arr_text (map g xs)))"
    by (simp add: jw_arr_open_def a_put_def a_append_def arr_text_def)
qed

text \<open>An array that is the last member, closed together with its object.\<close>

lemma jw_closes_last_array:
  assumes "\<And>x. x \<in> set xs \<Longrightarrow> jw_emits (\<lambda>w. f w x) d (g x)"
  shows "jw_closes (\<lambda>w. jw_key w k \<bind> (\<lambda>w. jw_arr_open w \<bind> (\<lambda>w. jw_each f w xs \<bind>
      (\<lambda>w. Some (jw_obj_close (jw_arr_close w)))))) (Suc d) [(k, arr_text (map g xs))]"
  using jw_closes_member [OF jw_writes_emits [OF jw_emits_array] jw_closes_end, of xs f d g k] assms by simp

lemma jw_emits_blank:
  assumes "jw_emits f d t" "d \<le> JW_MAX_DEPTH"
  shows "\<exists>w. f (jw_init blank_writer) = Some w \<and> jw_buf w = t"
proof -
  have i: "wf_writer (jw_init blank_writer)" "awriter_of (jw_init blank_writer) = ([], [])"
    using wf_writer_init [of blank_writer] blank_writer_arrays by (auto simp: writer_arrays_def awriter_of_def)
  from assms have "jw_runs f ([], []) (a_put ([], []) t)" by (simp add: jw_emits_def)
  from jw_runsD [OF this i] show ?thesis by (auto simp: refines_def awriter_of_def a_put_def a_append_def)
qed

section \<open>Reading\<close>

definition parses :: "string \<Rightarrow> json \<Rightarrow> bool" where
  "parses t v = ((\<forall>r. number_ends r \<longrightarrow> parse_value (t @ r) = Some (v, r)) \<and>
     t \<noteq> [] \<and> \<not> is_ws (hd t) \<and> hd t \<noteq> CHR '']'' \<and> hd t \<noteq> CHR ''}'')"

lemma parsesD: "parses t v \<Longrightarrow> number_ends r \<Longrightarrow> parse_value (t @ r) = Some (v, r)"
  by (simp add: parses_def)

lemma parses_json_parse: "parses t v \<Longrightarrow> json_parse t = Some v"
  using parsesD [of t v "[]"] by (simp add: json_parse_def)

lemma parses_render: "exact_json v \<Longrightarrow> parses (render v) v"
  using parse_render(1) [of v] render_hd [of v] by (simp add: parses_def)

lemma parses_skip_ws: "parses t v \<Longrightarrow> skip_ws (t @ r) = t @ r"
  by (cases t) (auto simp: parses_def)

lemma text_items_True: "ts \<noteq> [] \<Longrightarrow> text_items True ts = CHR '','' # text_items False ts"
  by (cases ts) auto

lemma text_members_True: "ms \<noteq> [] \<Longrightarrow> text_members True ms = CHR '','' # text_members False ms"
  by (cases ms) auto

lemma parse_text_items:
  "list_all2 parses ts vs \<Longrightarrow> ts \<noteq> [] \<Longrightarrow>
     parse_items (text_items False ts @ CHR '']'' # r) acc = Some (JArray (acc @ vs), r)"
proof (induction ts vs arbitrary: acc rule: list_all2_induct)
  case (Cons t ts v vs)
  show ?case
  proof (cases "ts = []")
    case True
    with Cons.hyps parsesD [OF Cons.hyps(1), of "CHR '']'' # r"] show ?thesis by (simp add: parse_items.simps)
  next
    case False
    then obtain u us where u: "ts = u # us" by (cases ts) auto
    with Cons.hyps(2) obtain x where "parses u x" by (auto simp: list_all2_Cons1)
    with u have "skip_ws (text_items False ts @ CHR '']'' # r) = text_items False ts @ CHR '']'' # r"
      using parses_skip_ws by simp
    with False Cons.IH [of "acc @ [v]"] parsesD [OF Cons.hyps(1), of "text_items True ts @ CHR '']'' # r"]
    show ?thesis by (simp add: parse_items.simps [of "t @ _"] text_items_True)
  qed
qed simp

lemma parses_array: "list_all2 parses ts vs \<Longrightarrow> parses (arr_text ts) (JArray vs)"
proof -
  assume p: "list_all2 parses ts vs"
  have "parse_value (arr_text ts @ r) = Some (JArray vs, r)" for r
  proof (cases ts)
    case (Cons t us)
    with p obtain v where "parses t v" by (auto simp: list_all2_Cons1)
    then have h: "t \<noteq> []" "\<not> is_ws (hd t)" "hd t \<noteq> CHR '']''" by (auto simp: parses_def)
    from parse_text_items [OF p, of r "[]"] Cons h show ?thesis
      by (cases t) (auto simp: arr_text_def parse_value.simps parse_array.simps)
  qed (use p in \<open>simp add: arr_text_def parse_value.simps parse_array.simps\<close>)
  then show ?thesis by (simp add: parses_def arr_text_def is_ws_def)
qed

definition parses_member :: "string \<times> string \<Rightarrow> string \<times> json \<Rightarrow> bool" where
  "parses_member m n = (fst n = fst m \<and> is_c_str (fst m) \<and> parses (snd m) (snd n))"

lemma parse_text_members:
  "list_all2 parses_member ms vs \<Longrightarrow> ms \<noteq> [] \<Longrightarrow>
     parse_members (text_members False ms @ CHR ''}'' # r) acc = Some (JObject (acc @ vs), r)"
proof (induction ms vs arbitrary: acc rule: list_all2_induct)
  case (Cons m ms n vs)
  obtain k t v where m: "m = (k, t)" "n = (k, v)" "is_c_str k" "parses t v"
    using Cons.hyps(1) by (cases m; cases n) (auto simp: parses_member_def)
  have k: "parse_string_raw (skip_ws (render_string k @ t)) = Some (k, t)" for t
    using parse_render_string [of k t] m(3) by (simp add: render_string_Cons)
  show ?case
  proof (cases "ms = []")
    case True
    with Cons.hyps m parsesD [OF m(4), of "CHR ''}'' # r"] k show ?thesis by (simp add: parse_members.simps)
  next
    case False
    with Cons.IH [of "acc @ [n]"] parsesD [OF m(4), of "text_members True ms @ CHR ''}'' # r"] k m
    show ?thesis by (simp add: parse_members.simps [of "render_string k @ _"] text_members_True)
  qed
qed simp

lemma parses_object: "list_all2 parses_member ms vs \<Longrightarrow> parses (obj_text ms) (JObject vs)"
proof -
  assume p: "list_all2 parses_member ms vs"
  have "parse_value (obj_text ms @ r) = Some (JObject vs, r)" for r
  proof (cases ms)
    case (Cons m us)
    from parse_text_members [OF p, of r "[]"] Cons show ?thesis
      by (cases m) (simp add: obj_text_def parse_value.simps parse_object.simps render_string_Cons)
  qed (use p in \<open>simp add: obj_text_def parse_value.simps parse_object.simps\<close>)
  then show ?thesis by (simp add: parses_def obj_text_def is_ws_def)
qed

lemma parses_object_map:
  "(\<And>m. m \<in> set ms \<Longrightarrow> is_c_str (fst m) \<and> parses (snd m) (g m)) \<Longrightarrow>
     parses (obj_text ms) (JObject (map (\<lambda>m. (fst m, g m)) ms))"
  by (rule parses_object) (auto simp: list_all2_map2 parses_member_def intro: list.rel_refl_strong)

section \<open>Integers through \<open>%.2f\<close>\<close>

definition int_2f :: "int \<Rightarrow> string" where
  "int_2f i = int_dec i @ ''.00''"

lemma digit_chars [simp]: "digit_char 0 = CHR ''0''" "is_digit (CHR ''0'')" "\<not> is_digit (CHR ''.'')"
  "\<not> is_digit (CHR '':'')" "digit_val (CHR ''0'') = 0"
  by (code_simp, simp_all add: is_digit_iff digit_val_def)

lemma fmt_2f_ll2d:
  assumes "\<bar>i\<bar> < 2 ^ 53"
  shows "fmt_2f (ll2d i) = int_2f i"
proof -
  have "round_even (\<bar>of_int i\<bar> * 100) = \<bar>i\<bar> * 100" using round_even_of_int [of "\<bar>i\<bar> * 100"] by simp
  moreover have "dec2 0 = ''00''" by (simp add: dec2_def nat_dec.simps [of 0])
  ultimately show ?thesis
    using ll2d_exact [OF assms] by (simp add: int_2f_def int_dec_def nat_mult_distrib)
qed

lemma length_int_2f: "\<bar>i\<bar> < 2 ^ 53 \<Longrightarrow> length (int_2f i) < 32"
proof -
  assume i: "\<bar>i\<bar> < 2 ^ 53"
  then have "LLONG_MIN \<le> i" "i \<le> LLONG_MAX" by (auto simp: LLONG_MIN_def LLONG_MAX_def)
  from int_dec_length [OF this] show ?thesis by (simp add: int_2f_def)
qed

lemma jw_emits_num_int: "\<bar>i\<bar> < 2 ^ 53 \<Longrightarrow> jw_emits (\<lambda>w. jw_num w (ll2d i)) d (int_2f i)"
  using jw_emits_scalars(2) [of "ll2d i" d] length_int_2f [of i] by (simp add: fmt_2f_ll2d)

lemma number_token_2f:
  assumes "number_ends r"
  shows "number_token (int_2f i @ r) = (int_2f i, r)"
proof -
  have z: "take_digits (''00'' @ r) = (''00'', r)" using assms by (intro take_digits_run) auto
  have tok: "number_token (nat_dec n @ ''.00'' @ r) = (nat_dec n @ ''.00'', r)"
    "number_token (CHR ''-'' # nat_dec n @ ''.00'' @ r) = (CHR ''-'' # nat_dec n @ ''.00'', r)" for n
  proof -
    obtain c cs where c: "nat_dec n = c # cs" "is_digit c" using nat_dec_Cons by blast
    then have m: "take_char (\<lambda>c. c = CHR ''-'') (nat_dec n @ t) = ([], nat_dec n @ t)"
      "take_char (\<lambda>c. c = CHR ''-'') (CHR ''-'' # nat_dec n @ t) = ([CHR ''-''], nat_dec n @ t)" for t
      by (auto simp: take_char_def dest: not_digit_minus)
    have d: "take_digits (nat_dec n @ ''.00'' @ r) = (nat_dec n, ''.00'' @ r)"
      using nat_dec_digits [of _ n] by (simp add: take_digits_def takeWhile_append2 dropWhile_append2)
    have p: "take_char (\<lambda>c. c = CHR ''.'') (''.00'' @ r) = (''.'', ''00'' @ r)" by (simp add: take_char_def)
    show "number_token (nat_dec n @ ''.00'' @ r) = (nat_dec n @ ''.00'', r)"
      "number_token (CHR ''-'' # nat_dec n @ ''.00'' @ r) = (CHR ''-'' # nat_dec n @ ''.00'', r)"
      unfolding number_token_def m d p z Let_def prod.case using z take_char_ends(2) [OF assms] by simp_all
  qed
  then show ?thesis by (simp add: int_2f_def int_dec_def)
qed

lemma strtod_2f: "strtod (int_2f i) = ll2d i"
proof -
  have nat: "strtod (nat_dec n @ ''.00'') = rnd_double (of_nat n)"
    "strtod (CHR ''-'' # nat_dec n @ ''.00'') = rnd_double (- of_nat n)" for n
  proof -
    obtain c cs where c: "nat_dec n = c # cs" "is_digit c" using nat_dec_Cons by blast
    then have m: "(case nat_dec n @ ''.00'' of [] \<Rightarrow> False | c # _ \<Rightarrow> c = CHR ''-'') = False"
      by (auto dest: not_digit_minus)
    have d: "takeWhile is_digit (nat_dec n @ ''.00'') = nat_dec n" "dropWhile is_digit (nat_dec n @ ''.00'') = ''.00''"
      using nat_dec_digits [of _ n] by (simp_all add: takeWhile_append2 dropWhile_append2)
    have v: "of_nat (digits_val 0 (nat_dec n @ ''00'')) * pow10 (- 2) = (of_nat n :: rat)"
      by (simp add: digits_val_append pow10_def)
    show "strtod (nat_dec n @ ''.00'') = rnd_double (of_nat n)"
      "strtod (CHR ''-'' # nat_dec n @ ''.00'') = rnd_double (- of_nat n)"
      unfolding strtod_def m using v by (simp_all add: d)
  qed
  show ?thesis by (cases "i < 0") (auto simp: int_2f_def int_dec_def nat ll2d_def of_nat_nat)
qed

lemma parses_2f: "\<bar>i\<bar> < 2 ^ 53 \<Longrightarrow> parses (int_2f i) (JNumber (ll2d i))"
proof -
  assume i: "\<bar>i\<bar> < 2 ^ 53"
  obtain c cs where c: "int_dec i = c # cs" "c = CHR ''-'' \<or> is_digit c" using int_dec_Cons by blast
  note h = digit_head_facts [OF c(2)]
  have "parse_value (int_2f i @ r) = Some (JNumber (ll2d i), r)" if "number_ends r" for r
  proof -
    have "parse_value (int_2f i @ r) = parse_scalar (int_2f i @ r)"
      using h c(1) by (simp add: parse_value_scalar int_2f_def)
    also have "\<dots> = parse_number (int_2f i @ r)" using h c by (simp add: parse_scalar_def int_2f_def)
    also have "\<dots> = Some (JNumber (ll2d i), r)"
      using length_int_2f [OF i] by (simp add: parse_number_def number_token_2f [OF that] strtod_2f) (simp add: int_2f_def)
    finally show ?thesis .
  qed
  then show ?thesis using h c by (simp add: parses_def int_2f_def)
qed

lemma parses_scalars:
  "is_c_str s \<Longrightarrow> parses (render_string s) (JString s)" "parses ''null'' JNull"
  "parses (if b then ''true'' else ''false'') (JBool b)"
  using parses_render [of "JString s"] parses_render [of JNull] parses_render [of "JBool b"] by simp_all

section \<open>Tables read from arrays\<close>

text \<open>A loop that fills the slots of a table from an array, skipping what is no entry, until the table is full.\<close>

fun load_slots :: "nat \<Rightarrow> (json \<Rightarrow> 'a option) \<Rightarrow> json list \<Rightarrow> 'a list \<Rightarrow> 'a list" where
  "load_slots n f [] acc = acc"
| "load_slots n f (v # vs) acc =
     (if n \<le> length acc then acc else load_slots n f vs (case f v of None \<Rightarrow> acc | Some x \<Rightarrow> acc @ [x]))"

definition array_items :: "json option \<Rightarrow> json list" where
  "array_items v = (case v of Some (JArray vs) \<Rightarrow> vs | _ \<Rightarrow> [])"

definition fill_slots :: "nat \<Rightarrow> 'a \<Rightarrow> 'a list \<Rightarrow> 'a list" where
  "fill_slots n blank xs = xs @ replicate (n - length xs) blank"

lemma load_slots_map:
  "(\<And>x. x \<in> set xs \<Longrightarrow> f (g x) = Some x) \<Longrightarrow> length acc + length xs \<le> n \<Longrightarrow> load_slots n f (map g xs) acc = acc @ xs"
  by (induction xs arbitrary: acc) auto

lemma filter_fill_slots: "list_all Q xs \<Longrightarrow> \<not> Q b \<Longrightarrow> filter Q (fill_slots n b xs) = xs"
  by (auto simp: fill_slots_def list_all_iff)

lemma length_load_slots: "length acc \<le> n \<Longrightarrow> length (load_slots n f vs acc) \<le> n"
  by (induction vs arbitrary: acc) (auto split: option.split)

lemma load_slots_all:
  assumes "list_all P acc" "\<And>v x. v \<in> set vs \<Longrightarrow> f v = Some x \<Longrightarrow> P x"
  shows "list_all P (load_slots n f vs acc)"
  using assms
proof (induction vs arbitrary: acc)
  case (Cons v vs)
  have "list_all P (case f v of None \<Rightarrow> acc | Some x \<Rightarrow> acc @ [x])"
    using Cons.prems by (auto split: option.split)
  then have "list_all P (load_slots n f vs (case f v of None \<Rightarrow> acc | Some x \<Rightarrow> acc @ [x]))"
    using Cons.IH Cons.prems(2) by (meson list.set_intros(2))
  with Cons.prems(1) show ?case by simp
qed simp

lemma length_fill_slots: "length xs \<le> n \<Longrightarrow> length (fill_slots n b xs) = n"
  by (simp add: fill_slots_def)

end
