(* ===== verification/Scheduler_Facts.thy ===== *)
theory Scheduler_Facts
  imports Scheduler Json_Compose
begin

text \<open>
  What the scheduler promises: the state file is always written inside the writer's arrays and
  read back as the table it was written from, one tick runs exactly the jobs that are due, the
  structured form of a job is accepted again by the parser of requests, and every stored job
  stays within the ranges the rest of the daemon relies on.
\<close>

section \<open>The state file\<close>

definition num_text :: "int \<Rightarrow> string" where
  "num_text i = snprintf_s 32 (fmt_2f (ll2d i))"

definition bool_text :: "bool \<Rightarrow> string" where
  "bool_text b = (if b then ''true'' else ''false'')"

definition job_members :: "schedule \<Rightarrow> (string \<times> string) list" where
  "job_members s =
     [(''name'', render_string (sc_name s)), (''action'', render_string (sc_action s)),
      (''params'', if sc_params s = [] then ''null'' else sc_params s), (''kind'', render_string (kind_name (sc_kind s))),
      (''every_seconds'', num_text (sc_every_seconds s)), (''hour'', num_text (sc_hour s)),
      (''minute'', num_text (sc_minute s)), (''weekday'', num_text (sc_weekday s)),
      (''window_minutes'', num_text (sc_window_minutes s)), (''catch_up'', bool_text (sc_catch_up s)),
      (''enabled'', bool_text (sc_enabled s)), (''anchor_at'', num_text (sc_anchor_at s)),
      (''last_run_at'', num_text (sc_last_run_at s)), (''last_skipped_at'', num_text (sc_last_skipped_at s)),
      (''last_ok'', bool_text (sc_last_ok s)), (''last_reason'', render_string (sc_last_reason s))]"

definition jobs_text :: "schedule list \<Rightarrow> string" where
  "jobs_text js = obj_text [(''schedules'', arr_text (map (\<lambda>s. obj_text (job_members s)) js))]"

lemma write_job_emits: "jw_emits (\<lambda>w. write_job w s) (Suc 0) (obj_text (job_members s))"
  unfolding write_job_def job_members_def num_text_def bool_text_def
  by (intro jw_emits_object jw_object_rules)

lemma jobs_document_text: "\<exists>w. jobs_document jobs = Some w \<and> jw_buf w = jobs_text (filter sc_in_use jobs)"
proof -
  have "jw_emits (\<lambda>w. jw_obj_open w \<bind> (\<lambda>w. jw_key w ''schedules'' \<bind> (\<lambda>w. jw_arr_open w \<bind>
      (\<lambda>w. jw_each write_job w (filter sc_in_use jobs) \<bind> (\<lambda>w. Some (jw_obj_close (jw_arr_close w)))))))
      (Suc (Suc (Suc 0))) (jobs_text (filter sc_in_use jobs))"
    unfolding jobs_text_def by (intro jw_emits_object jw_closes_last_array write_job_emits)
  from jw_emits_blank [OF this] show ?thesis by (simp add: jobs_document_def JW_MAX_DEPTH_def)
qed

text \<open>What the file says of a job, as a tree.\<close>

definition params_tree :: "string \<Rightarrow> json" where
  "params_tree p = (if p = [] then JNull else the (json_parse p))"

definition job_tree :: "schedule \<Rightarrow> json" where
  "job_tree s = JObject
     [(''name'', JString (sc_name s)), (''action'', JString (sc_action s)), (''params'', params_tree (sc_params s)),
      (''kind'', JString (kind_name (sc_kind s))), (''every_seconds'', JNumber (ll2d (sc_every_seconds s))),
      (''hour'', JNumber (ll2d (sc_hour s))), (''minute'', JNumber (ll2d (sc_minute s))),
      (''weekday'', JNumber (ll2d (sc_weekday s))), (''window_minutes'', JNumber (ll2d (sc_window_minutes s))),
      (''catch_up'', JBool (sc_catch_up s)), (''enabled'', JBool (sc_enabled s)),
      (''anchor_at'', JNumber (ll2d (sc_anchor_at s))), (''last_run_at'', JNumber (ll2d (sc_last_run_at s))),
      (''last_skipped_at'', JNumber (ll2d (sc_last_skipped_at s))), (''last_ok'', JBool (sc_last_ok s)),
      (''last_reason'', JString (sc_last_reason s))]"

text \<open>The ranges of a stored job; the times are seconds a \<open>double\<close> holds exactly.\<close>

definition job_ranges :: "schedule \<Rightarrow> bool" where
  "job_ranges s = (0 \<le> sc_every_seconds s \<and> sc_every_seconds s \<le> 366 * 86400 \<and>
     (sc_kind s = SCHEDULE_EVERY \<longrightarrow> 10 \<le> sc_every_seconds s) \<and> 0 \<le> sc_hour s \<and> sc_hour s \<le> 23 \<and>
     0 \<le> sc_minute s \<and> sc_minute s \<le> 59 \<and> 0 \<le> sc_weekday s \<and> sc_weekday s \<le> 6 \<and>
     0 \<le> sc_window_minutes s \<and> sc_window_minutes s \<le> 24 * 60)"

definition job_texts :: "schedule \<Rightarrow> bool" where
  "job_texts s = (simple_name_is_valid (Some (sc_name s)) SCHEDULE_NAME_MAX \<and>
     is_c_str (sc_action s) \<and> length (sc_action s) < SCHEDULE_ACTION_MAX \<and>
     is_c_str (sc_params s) \<and> length (sc_params s) < SCHEDULE_PARAMS_MAX \<and>
     is_c_str (sc_last_reason s) \<and> length (sc_last_reason s) < SCHEDULE_REASON_MAX)"

definition job_times :: "schedule \<Rightarrow> bool" where
  "job_times s = (\<bar>sc_anchor_at s\<bar> < 2 ^ 53 \<and> \<bar>sc_last_run_at s\<bar> < 2 ^ 53 \<and> \<bar>sc_last_skipped_at s\<bar> < 2 ^ 53)"

text \<open>Parameters that are the text of an object the writer reproduces exactly.\<close>

definition params_exact :: "string \<Rightarrow> bool" where
  "params_exact p = (p = [] \<or> (\<exists>ms. p = render (JObject ms) \<and> exact_json (JObject ms) \<and> nesting (JObject ms) \<le> JW_MAX_DEPTH))"

definition job_ok :: "schedule \<Rightarrow> bool" where
  "job_ok s = (sc_in_use s \<and> job_ranges s \<and> job_texts s \<and> job_times s \<and> params_exact (sc_params s))"

lemma params_parses: "params_exact p \<Longrightarrow> parses (if p = [] then ''null'' else p) (params_tree p)"
  using parses_scalars(2) parses_render json_parse_render
  by (force simp: params_exact_def params_tree_def simp del: render.simps exact_json.simps)

lemma load_params_exact:
  assumes "params_exact p" "is_c_str p" "length p < SCHEDULE_PARAMS_MAX"
  shows "load_params (Some (params_tree p)) = Some p"
proof (cases "p = []")
  case False
  with assms(1) obtain ms where ms: "p = render (JObject ms)" "exact_json (JObject ms)" "nesting (JObject ms) \<le> JW_MAX_DEPTH"
    by (auto simp: params_exact_def simp del: render.simps exact_json.simps nesting.simps)
  have t: "params_tree p = JObject ms"
    using False json_parse_render [OF ms(2)] ms(1) by (simp add: params_tree_def del: render.simps exact_json.simps)
  from jw_value_blank [OF ms(3)] obtain w where "jw_value (jw_init blank_writer) (JObject ms) = Some w" "jw_buf w = p"
    using ms(1) by (auto simp del: jw_value.simps render.simps)
  then have "params_text (JObject ms) = Some p" by (simp add: params_text_def del: jw_value.simps)
  with assms(2,3) t show ?thesis by (simp add: load_params_def is_object_def)
qed (simp add: load_params_def params_tree_def is_object_def)

lemma num_text_int: "\<bar>i\<bar> < 2 ^ 53 \<Longrightarrow> num_text i = int_2f i"
  using length_int_2f [of i] by (simp add: num_text_def fmt_2f_ll2d)

lemma parses_num_text: "\<bar>i\<bar> < 2 ^ 53 \<Longrightarrow> parses (num_text i) (JNumber (ll2d i))"
  using parses_2f num_text_int by simp

lemma parses_bool_text: "parses (bool_text b) (JBool b)"
  using parses_scalars(3) by (simp add: bool_text_def)

lemma is_c_str_kind_name [simp]: "is_c_str (kind_name k)"
  by (cases k) (simp_all add: NUL_def)

lemma job_ok_ints:
  assumes "job_ok s"
  shows "\<bar>sc_every_seconds s\<bar> < 2 ^ 53" "\<bar>sc_hour s\<bar> < 2 ^ 53" "\<bar>sc_minute s\<bar> < 2 ^ 53" "\<bar>sc_weekday s\<bar> < 2 ^ 53"
    "\<bar>sc_window_minutes s\<bar> < 2 ^ 53" "\<bar>sc_anchor_at s\<bar> < 2 ^ 53" "\<bar>sc_last_run_at s\<bar> < 2 ^ 53" "\<bar>sc_last_skipped_at s\<bar> < 2 ^ 53"
  using assms by (auto simp: job_ok_def job_ranges_def job_times_def)

lemma job_text_parses:
  assumes "job_ok s"
  shows "parses (obj_text (job_members s)) (job_tree s)"
proof -
  have t: "job_texts s" "params_exact (sc_params s)" using assms by (auto simp: job_ok_def)
  then have c: "is_c_str (sc_name s)" "is_c_str (sc_action s)" "is_c_str (sc_last_reason s)"
    by (auto simp: job_texts_def dest: simple_name_valid_facts)
  have k: "list_all (\<lambda>k. is_c_str k) (map fst (job_members s))" by (simp add: job_members_def NUL_def)
  show ?thesis unfolding job_tree_def job_members_def
    by (rule parses_object)
      (use c t(2) job_ok_ints [OF assms] k in \<open>simp add: job_members_def parses_member_def parses_scalars(1)
        parses_num_text parses_bool_text params_parses\<close>)
qed

lemma kind_from_kind_name [simp]: "kind_from_name (Some (kind_name k)) = Some k"
  by (cases k) (simp_all add: kind_from_name_def)

lemma job_tree_get:
  "json_object_get (Some (job_tree s)) ''name'' = Some (JString (sc_name s))"
  "json_object_get (Some (job_tree s)) ''action'' = Some (JString (sc_action s))"
  "json_object_get (Some (job_tree s)) ''params'' = Some (params_tree (sc_params s))"
  "json_object_get (Some (job_tree s)) ''kind'' = Some (JString (kind_name (sc_kind s)))"
  "json_object_get (Some (job_tree s)) ''every_seconds'' = Some (JNumber (ll2d (sc_every_seconds s)))"
  "json_object_get (Some (job_tree s)) ''hour'' = Some (JNumber (ll2d (sc_hour s)))"
  "json_object_get (Some (job_tree s)) ''minute'' = Some (JNumber (ll2d (sc_minute s)))"
  "json_object_get (Some (job_tree s)) ''weekday'' = Some (JNumber (ll2d (sc_weekday s)))"
  "json_object_get (Some (job_tree s)) ''window_minutes'' = Some (JNumber (ll2d (sc_window_minutes s)))"
  "json_object_get (Some (job_tree s)) ''catch_up'' = Some (JBool (sc_catch_up s))"
  "json_object_get (Some (job_tree s)) ''enabled'' = Some (JBool (sc_enabled s))"
  "json_object_get (Some (job_tree s)) ''anchor_at'' = Some (JNumber (ll2d (sc_anchor_at s)))"
  "json_object_get (Some (job_tree s)) ''last_run_at'' = Some (JNumber (ll2d (sc_last_run_at s)))"
  "json_object_get (Some (job_tree s)) ''last_skipped_at'' = Some (JNumber (ll2d (sc_last_skipped_at s)))"
  "json_object_get (Some (job_tree s)) ''last_ok'' = Some (JBool (sc_last_ok s))"
  "json_object_get (Some (job_tree s)) ''last_reason'' = Some (JString (sc_last_reason s))"
  by (simp_all add: job_tree_def json_object_get_def)

lemma job_ok_casts:
  assumes "job_ok s"
  shows "d2i (ll2d (sc_every_seconds s)) = sc_every_seconds s" "d2i (ll2d (sc_hour s)) = sc_hour s"
    "d2i (ll2d (sc_minute s)) = sc_minute s" "d2i (ll2d (sc_weekday s)) = sc_weekday s"
    "d2i (ll2d (sc_window_minutes s)) = sc_window_minutes s" "d2ll (ll2d (sc_anchor_at s)) = sc_anchor_at s"
    "d2ll (ll2d (sc_last_run_at s)) = sc_last_run_at s" "d2ll (ll2d (sc_last_skipped_at s)) = sc_last_skipped_at s"
  using assms d2ll_ll2d by (auto intro!: d2i_ll2d simp: job_ok_def job_ranges_def job_times_def INT_MIN_def INT_MAX_def)

lemma load_job_tree:
  assumes "job_ok s" "n < SCHEDULER_MAX_JOBS"
  shows "load_jobs (job_tree s # es) n jobs = load_jobs es (Suc n) (jobs[n := s])"
proof -
  have t: "job_texts s" "sc_in_use s" "params_exact (sc_params s)" using assms by (auto simp: job_ok_def)
  then have f: "length (sc_name s) < SCHEDULE_NAME_MAX" "length (sc_action s) < SCHEDULE_ACTION_MAX"
    "length (sc_last_reason s) < SCHEDULE_REASON_MAX" "load_params (Some (params_tree (sc_params s))) = Some (sc_params s)"
    by (auto simp: job_texts_def load_params_exact dest: simple_name_valid_facts)
  have s: "\<lparr>sc_name = sc_name s, sc_action = sc_action s, sc_params = sc_params s, sc_kind = sc_kind s,
      sc_every_seconds = sc_every_seconds s, sc_hour = sc_hour s, sc_minute = sc_minute s, sc_weekday = sc_weekday s,
      sc_window_minutes = sc_window_minutes s, sc_catch_up = sc_catch_up s, sc_enabled = sc_enabled s,
      sc_anchor_at = sc_anchor_at s, sc_last_run_at = sc_last_run_at s, sc_last_skipped_at = sc_last_skipped_at s,
      sc_last_ok = sc_last_ok s, sc_last_reason = sc_last_reason s, sc_in_use = True\<rparr> = s" (is "?r = s")
    using t(2) by (cases s) simp
  have "load_jobs (job_tree s # es) n jobs = load_jobs es (Suc n) (jobs[n := ?r])"
    using assms(2) f
    by (simp add: job_tree_get json_as_string_def json_as_number_def json_bool_def job_ok_casts [OF assms(1)])
  then show ?thesis by (simp only: s)
qed

lemma load_jobs_trees:
  "\<lbrakk>\<And>s. s \<in> set js \<Longrightarrow> job_ok s; length pre + k = SCHEDULER_MAX_JOBS; length js \<le> k\<rbrakk> \<Longrightarrow>
     load_jobs (map job_tree js) (length pre) (pre @ replicate k blank_schedule) =
       Some (pre @ js @ replicate (k - length js) blank_schedule)"
proof (induction js arbitrary: pre k)
  case (Cons s js)
  from Cons.prems(3) obtain m where k: "k = Suc m" by (cases k) auto
  have "load_jobs (map job_tree (s # js)) (length pre) (pre @ replicate k blank_schedule) =
      load_jobs (map job_tree js) (length (pre @ [s])) ((pre @ [s]) @ replicate m blank_schedule)"
    using load_job_tree [of s "length pre" "map job_tree js" "pre @ replicate k blank_schedule"] Cons.prems k
    by (simp add: list_update_append del: load_jobs.simps)
  also have "\<dots> = Some ((pre @ [s]) @ js @ replicate (m - length js) blank_schedule)"
    using Cons.prems k by (intro Cons.IH) auto
  finally show ?case using k by simp
qed simp

definition jobs_ok :: "schedule list \<Rightarrow> bool" where
  "jobs_ok js = ((\<forall>s \<in> set js. job_ok s) \<and> length js \<le> SCHEDULER_MAX_JOBS)"

text \<open>The table \<open>scheduler_init\<close> builds from a document, without its unused slots.\<close>

definition jobs_decode :: "string \<Rightarrow> schedule list option" where
  "jobs_decode t = do { doc \<leftarrow> json_parse t;
     jobs \<leftarrow> load_from doc (replicate SCHEDULER_MAX_JOBS blank_schedule); Some (filter sc_in_use jobs) }"

lemma jobs_parse:
  assumes "jobs_ok js"
  shows "json_parse (jobs_text js) = Some (JObject [(''schedules'', JArray (map job_tree js))])"
proof -
  have "list_all2 parses (map (\<lambda>s. obj_text (job_members s)) js) (map job_tree js)"
    using assms job_text_parses by (auto simp: list_all2_map1 list_all2_map2 jobs_ok_def intro: list.rel_refl_strong)
  then show ?thesis
    unfolding jobs_text_def
    by (intro parses_json_parse parses_object) (simp add: parses_member_def parses_array NUL_def)
qed

lemma load_jobs_text:
  assumes "jobs_ok js"
  shows "load_from (JObject [(''schedules'', JArray (map job_tree js))]) (replicate SCHEDULER_MAX_JOBS blank_schedule) =
    Some (js @ replicate (SCHEDULER_MAX_JOBS - length js) blank_schedule)"
  using load_jobs_trees [of js "[]" SCHEDULER_MAX_JOBS] assms by (simp add: load_from_def json_object_get_def jobs_ok_def)

interpretation job_store: config_store persist_atomic_write tmp_path jobs_ok jobs_text jobs_decode
proof unfold_locales
  fix js
  assume ok: "jobs_ok js"
  then have "filter sc_in_use js = js" by (auto simp: jobs_ok_def job_ok_def)
  with jobs_parse [OF ok] load_jobs_text [OF ok] show "jobs_decode (jobs_text js) = Some js"
    by (simp add: jobs_decode_def blank_schedule_def)
qed

section \<open>Saving\<close>

lemma persist_all_some:
  "\<exists>F N rc. persist_all env st = Some (st\<lparr>sch_fs := F, sch_saves := N\<rparr>, rc)"
proof (cases "sch_state_path st = []")
  case True
  have "st = st\<lparr>sch_fs := sch_fs st, sch_saves := sch_saves st\<rparr>" by simp
  with True show ?thesis unfolding persist_all_def by metis
next
  case False
  from jobs_document_text [of "sch_jobs st"] obtain w where "jobs_document (sch_jobs st) = Some w" by blast
  with False show ?thesis by (auto simp: persist_all_def case_prod_beta)
qed

lemma persist_all_visited:
  assumes "sch_state_path st = path" "path \<noteq> []" "sch_fs st = [fs]" "persist_all env st = Some (st', rc)"
  shows "(sch_fs st', rc) = persist_atomic_write (env (sch_saves st)) path (jobs_text (filter sc_in_use (sch_jobs st))) fs"
proof -
  from jobs_document_text [of "sch_jobs st"] obtain w where
    "jobs_document (sch_jobs st) = Some w" "jw_buf w = jobs_text (filter sc_in_use (sch_jobs st))" by blast
  with assms show ?thesis by (auto simp: persist_all_def case_prod_beta)
qed

lemma init_from_text:
  assumes "jobs_ok js" "path \<noteq> []" "length path < 512" "fs path = Some (jobs_text js)" "sch_fs boot = [fs]"
  shows "\<exists>st. scheduler_init healthy_read (Some path) boot = Some (st, 0) \<and>
    sch_jobs st = js @ replicate (SCHEDULER_MAX_JOBS - length js) blank_schedule \<and>
    sch_state_was_saved st \<and> sch_state_path st = path"
  using assms(2-5) jobs_parse [OF assms(1)] load_jobs_text [OF assms(1)]
  by (simp add: scheduler_init_def state_path_of_def)

section \<open>One tick\<close>

text \<open>The run a due job adds to the log, when its action is registered.\<close>

definition job_run :: "int \<Rightarrow> schedule \<Rightarrow> run" where
  "job_run now s = (sc_action s, if sc_params s \<noteq> [] then Some (sc_params s) else None,
     if 0 < sc_window_minutes s then now + sc_window_minutes s * 60 else 0)"

definition registered :: "schedule_action list \<Rightarrow> schedule \<Rightarrow> bool" where
  "registered actions s = (scheduler_action_find actions (Some (sc_action s)) \<noteq> None)"

lemma record_outcome_frame:
  "\<exists>st'. record_outcome env i now ok reason st = Some st' \<and> sch_runs st' = sch_runs st \<and> sch_actions st' = sch_actions st \<and>
     sch_jobs st' = (sch_jobs st)[i := outcome_of (sch_jobs st ! i) now ok reason]"
  using persist_all_some [of env "st\<lparr>sch_jobs := (sch_jobs st)[i := outcome_of (sch_jobs st ! i) now ok reason]\<rparr>"]
  by (auto simp: record_outcome_def)

text \<open>
  What a due job is told: the answer of its action, called with its parameters after \<open>calls\<close> other calls,
  and the text of the action or a default one; or that the action is not registered.
\<close>

definition job_answer :: "schedule_action list \<Rightarrow> nat \<Rightarrow> schedule \<Rightarrow> bool \<times> string" where
  "job_answer actions calls s =
     (case scheduler_action_find actions (Some (sc_action s)) of
        None \<Rightarrow> (False, ''action '' @ [CHR 0x22] @ sc_action s @ [CHR 0x22] @ '' is not registered in this build'')
      | Some k \<Rightarrow>
          (case sa_fn (actions ! k) calls (if sc_params s \<noteq> [] then Some (sc_params s) else None) of
             (rc, said) \<Rightarrow> (rc = 0, if said \<noteq> [] then said else if rc = 0 then ''ok'' else ''failed'')))"

text \<open>A job after the action was called.\<close>

definition answered :: "int \<Rightarrow> schedule \<Rightarrow> bool \<times> string \<Rightarrow> schedule" where
  "answered now s answer = outcome_of s now (fst answer) (snd answer)"

lemma outcome_of_cut [simp]: "outcome_of s now ok (snprintf_s SCHEDULE_REASON_MAX t) = outcome_of s now ok t"
  by (simp add: outcome_of_def snprintf_s_def min_def)

lemma cut_empty [simp]: "snprintf_s SCHEDULE_REASON_MAX t = [] \<longleftrightarrow> t = []"
  by (auto simp: snprintf_s_def SCHEDULE_REASON_MAX_def)

lemma record_outcome_cut: "record_outcome env i now ok (snprintf_s SCHEDULE_REASON_MAX t) st = record_outcome env i now ok t st"
  by (simp add: record_outcome_def)

lemma run_one_frame:
  "\<exists>st'. run_one env i now st = Some st' \<and> sch_actions st' = sch_actions st \<and>
     sch_jobs st' = (sch_jobs st)[i := answered now (sch_jobs st ! i) (job_answer (sch_actions st) (length (sch_runs st)) (sch_jobs st ! i))] \<and>
     sch_runs st' = (if registered (sch_actions st) (sch_jobs st ! i) then [job_run now (sch_jobs st ! i)] else []) @ sch_runs st"
proof (cases "scheduler_action_find (sch_actions st) (Some (sc_action (sch_jobs st ! i)))")
  case None
  let ?why = "''action '' @ [CHR 0x22] @ sc_action (sch_jobs st ! i) @ [CHR 0x22] @ '' is not registered in this build''"
  have "run_one env i now st = record_outcome env i now False ?why st"
    using None by (simp add: run_one_def Let_def record_outcome_cut)
  then show ?thesis
    using None record_outcome_frame [of env i now False ?why st] by (auto simp: registered_def job_answer_def answered_def)
next
  case (Some k)
  let ?s = "sch_jobs st ! i"
  let ?st = "st\<lparr>sch_runs := job_run now ?s # sch_runs st, sch_running_window_end := 0\<rparr>"
  let ?a = "job_answer (sch_actions st) (length (sch_runs st)) ?s"
  obtain rc said where said: "sa_fn (sch_actions st ! k) (length (sch_runs st)) (if sc_params ?s \<noteq> [] then Some (sc_params ?s) else None) = (rc, said)"
    by force
  have "run_one env i now st = record_outcome env i now (fst ?a) (snd ?a) ?st"
    using Some said by (auto simp: run_one_def job_run_def job_answer_def Let_def record_outcome_cut)
  with Some record_outcome_frame [of env i now "fst ?a" "snd ?a" ?st] show ?thesis by (auto simp: registered_def answered_def)
qed

lemma record_skip_frame:
  "\<exists>st'. record_skip env i occ st = Some st' \<and> sch_runs st' = sch_runs st \<and> sch_actions st' = sch_actions st \<and>
     sch_jobs st' = (sch_jobs st)[i := (sch_jobs st ! i)\<lparr>sc_last_skipped_at := occ, sc_anchor_at := occ\<rparr>]"
  using persist_all_some [of env "st\<lparr>sch_jobs := (sch_jobs st)[i :=
    (sch_jobs st ! i)\<lparr>sc_last_skipped_at := occ, sc_anchor_at := occ\<rparr>]\<rparr>"]
  by (auto simp: record_skip_def)

text \<open>What a tick makes of one job.\<close>

fun settled :: "due \<Rightarrow> int \<Rightarrow> schedule \<Rightarrow> schedule \<Rightarrow> bool" where
  "settled NotDue now s s' = (s' = s)"
| "settled Run now s s' = (\<exists>ok reason. s' = outcome_of s now ok reason)"
| "settled (Skip occ) now s s' = (s' = s\<lparr>sc_last_skipped_at := occ, sc_anchor_at := occ\<rparr>)"

lemma tick_one:
  assumes "due = job_due lt mk now startup (sch_jobs st ! i)" "i < length (sch_jobs st)"
  shows "\<exists>st' s'. (case due of NotDue \<Rightarrow> Some st | Run \<Rightarrow> run_one env i now st | Skip occ \<Rightarrow> record_skip env i occ st) = Some st' \<and>
     sch_actions st' = sch_actions st \<and> sch_jobs st' = (sch_jobs st)[i := s'] \<and> settled due now (sch_jobs st ! i) s' \<and>
     (due = Run \<longrightarrow> s' = answered now (sch_jobs st ! i) (job_answer (sch_actions st) (length (sch_runs st)) (sch_jobs st ! i))) \<and>
     sch_runs st' = (if due = Run \<and> registered (sch_actions st) (sch_jobs st ! i) then [job_run now (sch_jobs st ! i)] else []) @ sch_runs st"
proof (cases due)
  case NotDue
  then show ?thesis by (auto intro!: exI [of _ "sch_jobs st ! i"])
next
  case Run
  let ?new = "answered now (sch_jobs st ! i) (job_answer (sch_actions st) (length (sch_runs st)) (sch_jobs st ! i))"
  from run_one_frame [of env i now st] obtain st' where "run_one env i now st = Some st'"
    "sch_actions st' = sch_actions st" "sch_jobs st' = (sch_jobs st)[i := ?new]"
    "sch_runs st' = (if registered (sch_actions st) (sch_jobs st ! i) then [job_run now (sch_jobs st ! i)] else []) @ sch_runs st"
    by blast
  with Run show ?thesis by (intro exI [of _ st'] exI [of _ ?new]) (auto simp: answered_def)
next
  case (Skip occ)
  from record_skip_frame [of env i occ st] obtain st' where "record_skip env i occ st = Some st'"
    "sch_runs st' = sch_runs st" "sch_actions st' = sch_actions st"
    "sch_jobs st' = (sch_jobs st)[i := (sch_jobs st ! i)\<lparr>sc_last_skipped_at := occ, sc_anchor_at := occ\<rparr>]" by blast
  with Skip show ?thesis by (intro exI [of _ st']) auto
qed

definition fires :: "localtime \<Rightarrow> mktime \<Rightarrow> int \<Rightarrow> bool \<Rightarrow> schedule_action list \<Rightarrow> schedule \<Rightarrow> bool" where
  "fires lt mk now startup actions s = (job_due lt mk now startup s = Run \<and> registered actions s)"

lemma run_due_from_spec:
  assumes "distinct is" "\<And>i. i \<in> set is \<Longrightarrow> i < length (sch_jobs st)"
  shows "\<exists>st'. run_due_from env lt mk now startup is st = Some st' \<and> sch_actions st' = sch_actions st \<and>
    length (sch_jobs st') = length (sch_jobs st) \<and> (\<forall>j. j \<notin> set is \<longrightarrow> sch_jobs st' ! j = sch_jobs st ! j) \<and>
    (\<forall>j \<in> set is. settled (job_due lt mk now startup (sch_jobs st ! j)) now (sch_jobs st ! j) (sch_jobs st' ! j)) \<and>
    (\<forall>k < length is. job_due lt mk now startup (sch_jobs st ! (is ! k)) = Run \<longrightarrow> sch_jobs st' ! (is ! k) =
       answered now (sch_jobs st ! (is ! k)) (job_answer (sch_actions st)
         (length (sch_runs st) + length (filter (fires lt mk now startup (sch_actions st)) (map ((!) (sch_jobs st)) (take k is))))
         (sch_jobs st ! (is ! k)))) \<and>
    sch_runs st' = rev (map (job_run now) (filter (fires lt mk now startup (sch_actions st)) (map ((!) (sch_jobs st)) is))) @ sch_runs st"
  using assms
proof (induction "is" arbitrary: st)
  case (Cons i "is")
  let ?due = "job_due lt mk now startup (sch_jobs st ! i)"
  from tick_one [OF refl, where i = i and st = st and env = env and lt = lt and mk = mk and now = now and startup = startup] Cons.prems(2) obtain st1 s' where
    one: "(case ?due of NotDue \<Rightarrow> Some st | Run \<Rightarrow> run_one env i now st | Skip occ \<Rightarrow> record_skip env i occ st) = Some st1"
      "sch_actions st1 = sch_actions st" "sch_jobs st1 = (sch_jobs st)[i := s']" "settled ?due now (sch_jobs st ! i) s'"
      "sch_runs st1 = (if fires lt mk now startup (sch_actions st) (sch_jobs st ! i) then [job_run now (sch_jobs st ! i)] else []) @ sch_runs st"
      "?due = Run \<Longrightarrow> s' = answered now (sch_jobs st ! i) (job_answer (sch_actions st) (length (sch_runs st)) (sch_jobs st ! i))"
    by (auto simp: fires_def)
  have others: "sch_jobs st1 ! j = sch_jobs st ! j" if "j \<noteq> i" for j using one(3) that by simp
  have same: "map ((!) (sch_jobs st1)) is = map ((!) (sch_jobs st)) is"
    using Cons.prems(1) others by (intro map_cong) (auto, metis)
  from Cons.IH [of st1] Cons.prems one(3) obtain st' where
    rest: "run_due_from env lt mk now startup is st1 = Some st'" "sch_actions st' = sch_actions st1"
      "length (sch_jobs st') = length (sch_jobs st1)" "\<And>j. j \<notin> set is \<Longrightarrow> sch_jobs st' ! j = sch_jobs st1 ! j"
      "\<And>j. j \<in> set is \<Longrightarrow> settled (job_due lt mk now startup (sch_jobs st1 ! j)) now (sch_jobs st1 ! j) (sch_jobs st' ! j)"
      "sch_runs st' = rev (map (job_run now) (filter (fires lt mk now startup (sch_actions st1)) (map ((!) (sch_jobs st1)) is))) @ sch_runs st1"
      "\<And>k. k < length is \<Longrightarrow> job_due lt mk now startup (sch_jobs st1 ! (is ! k)) = Run \<Longrightarrow> sch_jobs st' ! (is ! k) =
         answered now (sch_jobs st1 ! (is ! k)) (job_answer (sch_actions st1)
           (length (sch_runs st1) + length (filter (fires lt mk now startup (sch_actions st1)) (map ((!) (sch_jobs st1)) (take k is))))
           (sch_jobs st1 ! (is ! k)))"
    by auto
  have "settled (job_due lt mk now startup (sch_jobs st ! j)) now (sch_jobs st ! j) (sch_jobs st' ! j)" if "j \<in> set (i # is)" for j
  proof (cases "j = i")
    case True
    then have "sch_jobs st' ! j = s'" using rest(4) [of i] Cons.prems one(3) by simp
    with True one(4) show ?thesis by simp
  next
    case False
    with rest(5) [of j] that others show ?thesis by simp
  qed
  moreover have "sch_jobs st' ! ((i # is) ! k) = answered now (sch_jobs st ! ((i # is) ! k)) (job_answer (sch_actions st)
      (length (sch_runs st) + length (filter (fires lt mk now startup (sch_actions st)) (map ((!) (sch_jobs st)) (take k (i # is)))))
      (sch_jobs st ! ((i # is) ! k)))"
    if k: "k < length (i # is)" "job_due lt mk now startup (sch_jobs st ! ((i # is) ! k)) = Run" for k
  proof (cases k)
    case 0
    then have "sch_jobs st' ! i = s'" using rest(4) [of i] Cons.prems one(3) by simp
    with 0 k(2) one(6) show ?thesis by simp
  next
    case (Suc l)
    then have l: "l < length is" "is ! l \<noteq> i" using k(1) Cons.prems(1) by (auto simp: in_set_conv_nth)
    have t: "map ((!) (sch_jobs st1)) (take l is) = map ((!) (sch_jobs st)) (take l is)" using same by (metis take_map)
    show ?thesis using rest(7) [OF l(1)] k(2) Suc others [OF l(2)] one(5) unfolding t one(2) by simp
  qed
  moreover have "run_due_from env lt mk now startup (i # is) st = Some st'" using one(1) rest(1) by simp
  moreover have "\<forall>j. j \<notin> set (i # is) \<longrightarrow> sch_jobs st' ! j = sch_jobs st ! j" using rest(4) others by auto
  moreover have "sch_runs st' = rev (map (job_run now) (filter (fires lt mk now startup (sch_actions st))
      (map ((!) (sch_jobs st)) (i # is)))) @ sch_runs st"
    using rest(6) one(5) unfolding same one(2) by simp
  ultimately show ?case using rest(2,3) one(2,3) by (metis length_list_update)
qed simp

text \<open>A tick over the whole table.\<close>

lemma run_due_spec:
  assumes "length (sch_jobs st) = SCHEDULER_MAX_JOBS"
  shows "\<exists>st'. scheduler_run_due env lt mk now startup st = Some st' \<and> sch_actions st' = sch_actions st \<and>
    list_all2 (\<lambda>s s'. settled (job_due lt mk now startup s) now s s') (sch_jobs st) (sch_jobs st') \<and>
    (\<forall>i < SCHEDULER_MAX_JOBS. job_due lt mk now startup (sch_jobs st ! i) = Run \<longrightarrow> sch_jobs st' ! i =
       answered now (sch_jobs st ! i) (job_answer (sch_actions st)
         (length (sch_runs st) + length (filter (fires lt mk now startup (sch_actions st)) (take i (sch_jobs st)))) (sch_jobs st ! i))) \<and>
    sch_runs st' = rev (map (job_run now) (filter (fires lt mk now startup (sch_actions st)) (sch_jobs st))) @ sch_runs st"
proof -
  have "length (filter (P \<circ> (!) (sch_jobs st)) [0..<i]) = length (filter P (take i (sch_jobs st)))" if "i < SCHEDULER_MAX_JOBS" for i P
  proof -
    have "take i (sch_jobs st) = map ((!) (sch_jobs st)) [0..<i]" using that assms by (intro nth_equalityI) simp_all
    then show ?thesis by (simp add: filter_map)
  qed
  then show ?thesis
    using run_due_from_spec [of "[0..<SCHEDULER_MAX_JOBS]" st env lt mk now startup] assms map_nth [of "sch_jobs st"]
    by (auto simp: scheduler_run_due_def list_all2_conv_all_nth)
qed

lemma settled_keeps:
  "settled due now s s' \<Longrightarrow> job_run now s' = job_run now s \<and> registered actions s' = registered actions s"
  by (cases due) (auto simp: job_run_def registered_def outcome_of_def)

text \<open>The occurrence a wall-clock job is judged by.\<close>

definition prev_occurrence :: "localtime \<Rightarrow> mktime \<Rightarrow> int \<Rightarrow> schedule \<Rightarrow> int" where
  "prev_occurrence lt mk now s =
     prev_wallclock lt mk now (sc_hour s) (sc_minute s) (if sc_kind s = SCHEDULE_WEEKLY then sc_weekday s else - 1)"

lemma job_due_again:
  assumes "settled (job_due lt mk now startup s) now s s'" "now \<noteq> 0" "sc_kind s = SCHEDULE_EVERY \<longrightarrow> 0 < sc_every_seconds s"
  shows "job_due lt mk now False s' = Run \<longleftrightarrow>
    job_due lt mk now startup s = Run \<and> sc_kind s \<noteq> SCHEDULE_EVERY \<and> now < prev_occurrence lt mk now s"
proof (cases "job_due lt mk now startup s")
  case NotDue
  with assms have "s' = s" by simp
  with NotDue show ?thesis by (auto simp: job_due_def Let_def split: if_splits)
next
  case Run
  with assms obtain ok reason where "s' = outcome_of s now ok reason" by auto
  with Run assms(2,3) show ?thesis
    by (auto simp: job_due_def outcome_of_def prev_occurrence_def Let_def split: if_splits)
next
  case (Skip occ)
  then have "occ = prev_occurrence lt mk now s" "sc_kind s \<noteq> SCHEDULE_EVERY"
    by (auto simp: job_due_def prev_occurrence_def Let_def split: if_splits)
  with Skip assms(1) show ?thesis by (auto simp: job_due_def prev_occurrence_def Let_def)
qed

lemma filter_map_list_all2:
  "list_all2 R xs ys \<Longrightarrow> (\<And>x y. x \<in> set xs \<Longrightarrow> R x y \<Longrightarrow> P x = Q y \<and> f x = g y) \<Longrightarrow> map f (filter P xs) = map g (filter Q ys)"
  by (induction rule: list_all2_induct) auto

section \<open>The structured form\<close>

lemma dec2_two: "n < 60 \<Longrightarrow> \<exists>a b. dec2 n = [a, b] \<and> is_digit a \<and> is_digit b \<and> digit_val a * 10 + digit_val b = n"
proof (cases "n < 10")
  case True
  then show ?thesis by (auto simp: dec2_def nat_dec.simps [of n])
next
  case False
  assume "n < 60"
  then have "n div 10 < 10" by simp
  then have "nat_dec n = [digit_char (n div 10), digit_char (n mod 10)]"
    using False by (simp add: nat_dec.simps [of n] nat_dec.simps [of "n div 10"])
  with False \<open>n div 10 < 10\<close> show ?thesis by (simp add: dec2_def)
qed

lemma int_dec2_two:
  "0 \<le> i \<Longrightarrow> i < 60 \<Longrightarrow> \<exists>a b. int_dec2 i = [a, b] \<and> is_digit a \<and> is_digit b \<and> int (digit_val a * 10 + digit_val b) = i"
proof -
  assume i: "0 \<le> i" "i < 60"
  then have "nat i < 60" by simp
  from dec2_two [OF this] i show ?thesis by (auto simp: int_dec2_def)
qed

lemma scan_d_dec2:
  assumes "0 \<le> i" "i < 60" "r = [] \<or> \<not> is_digit (hd r)"
  shows "scan_d (int_dec2 i @ r) = Some (i, r)"
proof -
  from int_dec2_two [OF assms(1,2)] obtain a b where
    ab: "int_dec2 i = [a, b]" "is_digit a" "is_digit b" "int (digit_val a * 10 + digit_val b) = i"
    by blast
  have "\<not> is_space a" "a \<noteq> CHR ''-''" "a \<noteq> CHR ''+''"
    using ab(2) by (auto simp: is_space_def is_digit_iff less_eq_char_def)
  moreover have "takeWhile is_digit (a # b # r) = [a, b]" "dropWhile is_digit (a # b # r) = r"
    using ab(2,3) assms(3) by (cases r; simp)+
  moreover have "wrap_int (max LLONG_MIN (min LLONG_MAX i)) = i"
    using assms by (simp add: wrap_int_def LLONG_MIN_def LLONG_MAX_def)
  ultimately show ?thesis using ab(1,4) by (simp add: scan_d_def Let_def)
qed

lemma parse_hhmm_clock:
  assumes "0 \<le> h" "h \<le> 23" "0 \<le> m" "m \<le> 59"
  shows "parse_hhmm (Some (int_dec2 h @ '':'' @ int_dec2 m)) = Some (h, m)"
  using scan_d_dec2 [of h "'':'' @ int_dec2 m"] scan_d_dec2 [of m "[]"] assms by (simp add: parse_hhmm_def)

lemma weekday_name: "0 \<le> d \<Longrightarrow> d \<le> 6 \<Longrightarrow> weekday_from_name (Some (WEEKDAYS ! nat (d mod 7))) = d"
proof -
  assume d: "0 \<le> d" "d \<le> 6"
  have "\<forall>n \<in> set [0..<7]. weekday_from_name (Some (WEEKDAYS ! n)) = int n" by code_simp
  then show ?thesis using d by simp
qed

lemma length_clock: "0 \<le> h \<Longrightarrow> h \<le> 23 \<Longrightarrow> 0 \<le> m \<Longrightarrow> m \<le> 59 \<Longrightarrow> length (int_dec2 h @ '':'' @ int_dec2 m) = 5"
  using int_dec2_two [of h] int_dec2_two [of m] by auto

section \<open>The document of one job\<close>

definition clock_text :: "schedule \<Rightarrow> string" where
  "clock_text s = snprintf_s 8 (int_dec2 (sc_hour s) @ '':'' @ int_dec2 (sc_minute s))"

definition schedule_members :: "schedule \<Rightarrow> (string \<times> string) list" where
  "schedule_members s = (case sc_kind s of
       SCHEDULE_EVERY \<Rightarrow> [(''every'', obj_text [(''seconds'', num_text (sc_every_seconds s))])]
     | SCHEDULE_DAILY \<Rightarrow> [(''daily'', obj_text [(''at'', render_string (clock_text s))])]
     | SCHEDULE_WEEKLY \<Rightarrow> [(''weekly'', obj_text [(''on'', render_string (WEEKDAYS ! nat (sc_weekday s mod 7))),
         (''at'', render_string (clock_text s))])])"

definition schedule_tree :: "schedule \<Rightarrow> json" where
  "schedule_tree s = (case sc_kind s of
       SCHEDULE_EVERY \<Rightarrow> JObject [(''every'', JObject [(''seconds'', JNumber (ll2d (sc_every_seconds s)))])]
     | SCHEDULE_DAILY \<Rightarrow> JObject [(''daily'', JObject [(''at'', JString (clock_text s))])]
     | SCHEDULE_WEEKLY \<Rightarrow> JObject [(''weekly'', JObject [(''on'', JString (WEEKDAYS ! nat (sc_weekday s mod 7))),
         (''at'', JString (clock_text s))])])"

lemma jw_emits_nested:
  assumes "jw_closes f d ms"
  shows "jw_emits (\<lambda>w. jw_obj_open w \<bind> (\<lambda>w. jw_key w k \<bind> (\<lambda>w. jw_obj_open w \<bind>
      (\<lambda>w. f w \<bind> (\<lambda>w. Some (jw_obj_close w)))))) (Suc (Suc d)) (obj_text [(k, obj_text ms)])"
  using jw_emits_object [OF jw_closes_member [OF jw_writes_emits [OF jw_emits_object [OF assms]] jw_closes_end], of k]
  by simp

lemma write_schedule_emits: "jw_emits (\<lambda>w. write_schedule_object w s) (Suc (Suc 0)) (obj_text (schedule_members s))"
proof -
  have each: "jw_closes (\<lambda>w. jw_key w ''seconds'' \<bind> (\<lambda>w. jw_num_int w (sc_every_seconds s) \<bind> (\<lambda>w. Some (jw_obj_close w)))) 0
      [(''seconds'', num_text (sc_every_seconds s))]"
    unfolding num_text_def by (intro jw_object_rules)
  have at: "jw_closes (\<lambda>w. jw_key w ''at'' \<bind> (\<lambda>w. jw_str w (clock_text s) \<bind> (\<lambda>w. Some (jw_obj_close w)))) 0
      [(''at'', render_string (clock_text s))]"
    by (intro jw_object_rules)
  have on: "jw_closes (\<lambda>w. jw_key w ''on'' \<bind> (\<lambda>w. jw_str w day \<bind> (\<lambda>w. jw_key w ''at'' \<bind> (\<lambda>w. jw_str w (clock_text s) \<bind>
      (\<lambda>w. Some (jw_obj_close w)))))) 0 [(''on'', render_string day), (''at'', render_string (clock_text s))]" for day
    by (intro jw_object_rules)
  show ?thesis
    using jw_emits_nested [OF each, of "''every''"] jw_emits_nested [OF at, of "''daily''"] jw_emits_nested [OF on, of "''weekly''"]
    by (cases "sc_kind s") (simp_all add: write_schedule_object_def schedule_members_def clock_text_def Let_def)
qed

lemma clock_text_id: "job_ranges s \<Longrightarrow> clock_text s = int_dec2 (sc_hour s) @ '':'' @ int_dec2 (sc_minute s)"
  using length_clock [of "sc_hour s" "sc_minute s"] by (auto simp: clock_text_def job_ranges_def)

lemma is_c_str_int_dec2 [simp]: "is_c_str (int_dec2 i)"
  by (simp add: int_dec2_def dec2_def NUL_def)

lemma is_c_str_clock [simp]: "is_c_str (clock_text s)"
  by (simp add: clock_text_def NUL_def)

lemma is_c_str_weekday [simp]: "is_c_str (WEEKDAYS ! nat (d mod 7))"
proof -
  have "list_all is_c_str WEEKDAYS" by (simp add: WEEKDAYS_def NUL_def)
  moreover have "nat (d mod 7) < length WEEKDAYS" by (simp add: WEEKDAYS_def)
  ultimately show ?thesis by (simp add: list_all_length)
qed

lemma is_c_str_describe [simp]: "is_c_str (schedule_describe (Some s) n)"
  by (cases "sc_kind s") (simp_all add: schedule_describe_def Let_def NUL_def)

lemma schedule_text_parses:
  assumes "\<bar>sc_every_seconds s\<bar> < 2 ^ 53"
  shows "parses (obj_text (schedule_members s)) (schedule_tree s)"
  by (cases "sc_kind s")
    (simp_all add: schedule_members_def schedule_tree_def parses_object parses_member_def parses_num_text [OF assms] parses_scalars NUL_def)

definition time_text :: "int \<Rightarrow> string" where
  "time_text t = (if t = 0 then ''null'' else num_text t)"

definition time_tree :: "int \<Rightarrow> json" where
  "time_tree t = (if t = 0 then JNull else JNumber (ll2d t))"

definition doc_members :: "int \<Rightarrow> schedule \<Rightarrow> (string \<times> string) list" where
  "doc_members next_at s =
     [(''name'', render_string (sc_name s)), (''action'', render_string (sc_action s)),
      (''schedule'', obj_text (schedule_members s)),
      (''describes'', render_string (schedule_describe (Some s) SCHEDULE_DESCRIBE_MAX)),
      (''window_minutes'', num_text (sc_window_minutes s)), (''catch_up'', bool_text (sc_catch_up s)),
      (''enabled'', bool_text (sc_enabled s)), (''next_run_at'', time_text next_at),
      (''last_run_at'', time_text (sc_last_run_at s)),
      (''last_ok'', if sc_last_run_at s = 0 then ''null'' else bool_text (sc_last_ok s)),
      (''last_skipped_at'', time_text (sc_last_skipped_at s)), (''last_reason'', render_string (sc_last_reason s))]"

definition doc_tree :: "int \<Rightarrow> schedule \<Rightarrow> json" where
  "doc_tree next_at s = JObject
     [(''name'', JString (sc_name s)), (''action'', JString (sc_action s)), (''schedule'', schedule_tree s),
      (''describes'', JString (schedule_describe (Some s) SCHEDULE_DESCRIBE_MAX)),
      (''window_minutes'', JNumber (ll2d (sc_window_minutes s))), (''catch_up'', JBool (sc_catch_up s)),
      (''enabled'', JBool (sc_enabled s)), (''next_run_at'', time_tree next_at),
      (''last_run_at'', time_tree (sc_last_run_at s)),
      (''last_ok'', if sc_last_run_at s = 0 then JNull else JBool (sc_last_ok s)),
      (''last_skipped_at'', time_tree (sc_last_skipped_at s)), (''last_reason'', JString (sc_last_reason s))]"

lemma jw_writes_time: "jw_writes (\<lambda>w. jw_time w t) d (time_text t)"
  unfolding jw_time_def time_text_def num_text_def by (intro jw_writes_if jw_writes_scalars)

lemma jw_writes_schedule: "jw_writes (\<lambda>w. write_schedule_object w s) (Suc (Suc 0)) (obj_text (schedule_members s))"
  by (rule jw_writes_emits [OF write_schedule_emits])

lemma write_json_one_emits:
  "jw_emits (\<lambda>w. scheduler_write_json_one lt mk now w s) (Suc (Suc (Suc 0))) (obj_text (doc_members (schedule_next_run lt mk s now) s))"
  unfolding scheduler_write_json_one_def doc_members_def num_text_def bool_text_def
  by (intro jw_emits_object jw_closes_member jw_closes_end jw_writes_time jw_writes_schedule jw_writes_if jw_writes_scalars)

lemma parses_time: "\<bar>t\<bar> < 2 ^ 53 \<Longrightarrow> parses (time_text t) (time_tree t)"
  using parses_scalars(2) parses_num_text by (auto simp: time_text_def time_tree_def)

lemma doc_text_parses:
  assumes "job_ranges s" "job_texts s" "job_times s" "\<bar>next_at\<bar> < 2 ^ 53"
  shows "parses (obj_text (doc_members next_at s)) (doc_tree next_at s)"
proof -
  have c: "is_c_str (sc_name s)" "is_c_str (sc_action s)" "is_c_str (sc_last_reason s)"
    using assms(2) by (auto simp: job_texts_def dest: simple_name_valid_facts)
  have n: "\<bar>sc_window_minutes s\<bar> < 2 ^ 53" "\<bar>sc_every_seconds s\<bar> < 2 ^ 53" "\<bar>sc_last_run_at s\<bar> < 2 ^ 53"
    "\<bar>sc_last_skipped_at s\<bar> < 2 ^ 53"
    using assms(1,3) by (auto simp: job_ranges_def job_times_def)
  show ?thesis unfolding doc_members_def doc_tree_def
    by (rule parses_object) (simp add: parses_member_def parses_scalars c schedule_text_parses [OF n(2)] parses_num_text [OF n(1)]
      parses_bool_text parses_time [OF n(3)] parses_time [OF n(4)] parses_time [OF assms(4)] NUL_def)
qed

text \<open>The parser of requests accepts the structured form of every job in range.\<close>

lemma schedule_tree_parsed:
  assumes "job_ranges s" "json_object_get doc ''schedule'' = Some (schedule_tree s)"
  shows "parse_schedule_body doc out = (case sc_kind s of
       SCHEDULE_EVERY \<Rightarrow> out\<lparr>sc_kind := SCHEDULE_EVERY, sc_every_seconds := sc_every_seconds s\<rparr>
     | SCHEDULE_DAILY \<Rightarrow> out\<lparr>sc_hour := sc_hour s, sc_minute := sc_minute s, sc_kind := SCHEDULE_DAILY\<rparr>
     | SCHEDULE_WEEKLY \<Rightarrow> out\<lparr>sc_hour := sc_hour s, sc_minute := sc_minute s, sc_weekday := sc_weekday s, sc_kind := SCHEDULE_WEEKLY\<rparr>,
     SCHEDULE_OK)"
proof -
  have clock: "parse_hhmm (Some (clock_text s)) = Some (sc_hour s, sc_minute s)"
    using assms(1) clock_text_id [OF assms(1)] parse_hhmm_clock by (auto simp: job_ranges_def)
  show ?thesis
  proof (cases "sc_kind s")
    case SCHEDULE_EVERY
    with assms(1) have e: "10 \<le> sc_every_seconds s" "sc_every_seconds s \<le> 366 * 86400" by (auto simp: job_ranges_def)
    then have "d2ll (ll2d (sc_every_seconds s)) = sc_every_seconds s" by (intro d2ll_ll2d) auto
    then have "every_total (Some (JObject [(''seconds'', JNumber (ll2d (sc_every_seconds s)))])) = sc_every_seconds s"
      using e by (simp add: every_total_def json_object_get_def json_as_number_def wrap_long_def trunc_rat_def LLONG_MIN_def LLONG_MAX_def)
    with SCHEDULE_EVERY assms(2) e show ?thesis
      by (simp add: parse_schedule_body_def schedule_tree_def is_object_def json_object_get_def [of "Some _"] Let_def)
  next
    case SCHEDULE_DAILY
    with assms(2) clock show ?thesis
      by (simp add: parse_schedule_body_def schedule_tree_def is_object_def json_object_get_def [of "Some _"] json_as_string_def Let_def)
  next
    case SCHEDULE_WEEKLY
    moreover have "weekday_from_name (Some (WEEKDAYS ! nat (sc_weekday s mod 7))) = sc_weekday s" "0 \<le> sc_weekday s"
      using assms(1) weekday_name by (auto simp: job_ranges_def)
    ultimately show ?thesis using assms(2) clock
      by (simp add: parse_schedule_body_def schedule_tree_def is_object_def json_object_get_def [of "Some _"] json_as_string_def Let_def)
  qed
qed

section \<open>Stored jobs stay in range\<close>

lemma parse_hhmm_range: "parse_hhmm so = Some (h, m) \<Longrightarrow> 0 \<le> h \<and> h \<le> 23 \<and> 0 \<le> m \<and> m \<le> 59"
  by (auto simp: parse_hhmm_def bind_eq_Some_conv split: if_splits)

lemma weekday_range: "weekday_from_name so \<le> 6"
  by (auto simp: weekday_from_name_def WEEKDAYS_def split: option.splits dest!: find_index_Some)

lemma parse_schedule_body_ranges:
  assumes "parse_schedule_body doc out = (c, SCHEDULE_OK)" "job_ranges (out\<lparr>sc_kind := SCHEDULE_DAILY\<rparr>)"
  shows "job_ranges c \<and> sc_action c = sc_action out \<and> sc_last_reason c = sc_last_reason out"
proof -
  let ?s = "json_object_get doc ''schedule''"
  let ?w = "json_object_get ?s ''weekly''"
  consider (every) "c = out\<lparr>sc_kind := SCHEDULE_EVERY, sc_every_seconds := every_total (json_object_get ?s ''every'')\<rparr>"
      "10 \<le> every_total (json_object_get ?s ''every'')" "every_total (json_object_get ?s ''every'') \<le> 366 * 86400"
    | (daily) h m so where "parse_hhmm so = Some (h, m)" "c = out\<lparr>sc_hour := h, sc_minute := m, sc_kind := SCHEDULE_DAILY\<rparr>"
    | (weekly) h m so d where "parse_hhmm so = Some (h, m)" "0 \<le> weekday_from_name d"
      "c = out\<lparr>sc_hour := h, sc_minute := m, sc_weekday := weekday_from_name d, sc_kind := SCHEDULE_WEEKLY\<rparr>"
    using assms(1) by (auto simp: parse_schedule_body_def Let_def not_less split: if_split_asm option.split_asm)
  then show ?thesis
  proof cases
    case every
    with assms(2) show ?thesis by (auto simp: job_ranges_def)
  next
    case daily
    with parse_hhmm_range [OF daily(1)] assms(2) show ?thesis by (auto simp: job_ranges_def)
  next
    case weekly
    with parse_hhmm_range [OF weekly(1)] weekday_range [of d] assms(2) show ?thesis by (auto simp: job_ranges_def)
  qed
qed

lemma request_params_ok:
  "request_params v = Some (Inr t) \<Longrightarrow> is_c_str t \<and> length t < SCHEDULE_PARAMS_MAX"
  by (auto simp: request_params_def bind_eq_Some_conv SCHEDULE_PARAMS_MAX_def intro!: length_snprintf_s split: if_splits)

text \<open>Ranges and texts of a job apart from its name.\<close>

definition candidate_ok :: "schedule \<Rightarrow> bool" where
  "candidate_ok s = (job_ranges s \<and> is_c_str (sc_action s) \<and> length (sc_action s) < SCHEDULE_ACTION_MAX \<and>
     is_c_str (sc_params s) \<and> length (sc_params s) < SCHEDULE_PARAMS_MAX)"

lemma parse_candidate_ok:
  assumes "parse_candidate actions body = Some (Inr c)"
  shows "candidate_ok c \<and> sc_last_reason c = []"
proof -
  from assms obtain ms where ms: "json_parse body = Some (JObject ms)"
    by (auto simp: parse_candidate_def split: option.splits json.splits)
  let ?doc = "Some (JObject ms)"
  let ?act = "json_as_string (json_object_get ?doc ''action'')"
  let ?out = "blank_schedule\<lparr>sc_action := snprintf_s SCHEDULE_ACTION_MAX (the ?act)\<rparr>"
  let ?win = "d2i (json_as_number (json_object_get ?doc ''window_minutes''))"
  obtain b e where b: "parse_schedule_body ?doc ?out = (b, e)" by (cases "parse_schedule_body ?doc ?out")
  let ?fill = "\<lambda>t. b\<lparr>sc_window_minutes := ?win, sc_catch_up := json_bool (json_object_get ?doc ''catch_up''),
        sc_enabled := (case json_object_get ?doc ''enabled'' of None \<Rightarrow> True | v \<Rightarrow> json_bool v), sc_params := t\<rparr>"
  from assms ms b obtain p where p: "e = SCHEDULE_OK" "?act \<noteq> None" "0 \<le> ?win" "?win \<le> 24 * 60"
      "request_params (json_object_get ?doc ''params'') = Some p"
      "(case p of Inl e \<Rightarrow> Inl e | Inr t \<Rightarrow> Inr (?fill t)) = Inr c"
    by (auto simp: parse_candidate_def bind_eq_Some_conv Let_def not_less split: if_split_asm)
  then obtain t where t: "request_params (json_object_get ?doc ''params'') = Some (Inr t)" "c = ?fill t"
    by (cases p) auto
  from ms obtain r where "parse_value body = Some (JObject ms, r)"
    by (auto simp: json_parse_def split: option.splits if_splits)
  then have "typed_json (JObject ms)" by (rule parse_typed(1))
  then have "is_c_str (the ?act)"
    using p(2) by (auto simp: json_object_get_def json_as_string_def split: option.splits json.splits dest!: map_of_SomeD)
  moreover have "job_ranges (?out\<lparr>sc_kind := SCHEDULE_DAILY\<rparr>)" by (simp add: job_ranges_def blank_schedule_def)
  note parse_schedule_body_ranges [OF b [unfolded p(1)] this]
  ultimately show ?thesis
    using p(3,4) t(2) request_params_ok [OF t(1)]
    by (auto simp: candidate_ok_def job_ranges_def blank_schedule_def SCHEDULE_ACTION_MAX_def intro!: length_snprintf_s)
qed

definition stored_ok :: "schedule \<Rightarrow> bool" where
  "stored_ok s = (sc_in_use s \<longrightarrow> job_ranges s \<and> job_texts s)"

definition jobs_inv :: "scheduler \<Rightarrow> bool" where
  "jobs_inv st = (length (sch_jobs st) = SCHEDULER_MAX_JOBS \<and> keys_unique sc_in_use sc_name (sch_jobs st) \<and>
     (\<forall>s \<in> set (sch_jobs st). stored_ok s) \<and>
     (\<forall>a \<in> set (sch_actions st). \<forall>n p. is_c_str (sa_name a) \<and> is_c_str (snd (sa_fn a n p))))"

lemma jobs_inv_update:
  assumes "jobs_inv st" "i < length (sch_jobs st)" "stored_ok s"
    "sc_in_use s \<Longrightarrow> find_slot (sch_jobs st) (sc_name s) = None \<or> (sc_in_use (sch_jobs st ! i) \<and> sc_name (sch_jobs st ! i) = sc_name s)"
    "sch_jobs st' = (sch_jobs st)[i := s]" "sch_actions st' = sch_actions st"
  shows "jobs_inv st'"
  using assms slots.unique_update [of "sch_jobs st" i s]
  by (auto simp: jobs_inv_def dest!: set_update_subset_insert [THEN subsetD])

lemma jobs_inv_entry: "jobs_inv st \<Longrightarrow> i < length (sch_jobs st) \<Longrightarrow> stored_ok (sch_jobs st ! i)"
  by (auto simp: jobs_inv_def)

lemma jobs_inv_frame:
  "jobs_inv st \<Longrightarrow> sch_jobs st' = sch_jobs st \<Longrightarrow> sch_actions st' = sch_actions st \<Longrightarrow> jobs_inv st'"
  by (simp add: jobs_inv_def)

lemma persist_all_inv: "jobs_inv st \<Longrightarrow> persist_all env st = Some (st', rc) \<Longrightarrow> jobs_inv st'"
  using persist_all_some [of env st] by (auto intro: jobs_inv_frame)

lemma set_from_json_inv:
  assumes "jobs_inv st" "scheduler_set_from_json env now name body st = Some (st', e)"
  shows "jobs_inv st'"
proof (cases "name = None \<or> \<not> simple_name_is_valid name SCHEDULE_NAME_MAX")
  case True
  with assms show ?thesis by (simp add: scheduler_set_from_json_def)
next
  case False
  then obtain n where n: "name = Some n" "simple_name_is_valid (Some n) SCHEDULE_NAME_MAX" by auto
  from assms(2) n obtain parsed where parsed: "parse_candidate (sch_actions st) body = Some parsed"
    by (auto simp: scheduler_set_from_json_def bind_eq_Some_conv)
  show ?thesis
  proof (cases parsed)
    case (Inl x)
    with assms parsed n show ?thesis by (simp add: scheduler_set_from_json_def)
  next
    case (Inr c)
    note c = parse_candidate_ok [OF parsed [unfolded Inr]]
    have fits: "snprintf_s SCHEDULE_NAME_MAX n = n" using simple_name_valid_facts [OF n(2)] by simp
    let ?t = "sch_jobs st"
    let ?new = "case find_slot ?t n of None \<Rightarrow> c\<lparr>sc_name := n\<rparr>
      | Some i \<Rightarrow> c\<lparr>sc_name := n, sc_last_run_at := sc_last_run_at (?t ! i), sc_last_ok := sc_last_ok (?t ! i),
          sc_last_reason := snprintf_s SCHEDULE_REASON_MAX (sc_last_reason (?t ! i))\<rparr>"
    let ?slot = "case find_slot ?t n of None \<Rightarrow> free_slot ?t | Some i \<Rightarrow> Some i"
    show ?thesis
    proof (cases ?slot)
      case None
      with assms parsed Inr n fits show ?thesis by (simp add: scheduler_set_from_json_def Let_def)
    next
      case (Some i)
      let ?st = "st\<lparr>sch_jobs := ?t[i := ?new\<lparr>sc_in_use := True, sc_anchor_at := now\<rparr>]\<rparr>"
      from assms(2) parsed Inr n fits Some obtain rc where w: "persist_all env ?st = Some (st', rc)"
        by (auto simp: scheduler_set_from_json_def Let_def bind_eq_Some_conv)
      have i: "i < length ?t" and old: "find_slot ?t n = None \<or> sc_in_use (?t ! i) \<and> sc_name (?t ! i) = n"
        using Some slots.find_SomeD slots.free_SomeD by (auto split: option.splits)
      have "job_ranges ?new" "is_c_str (sc_last_reason ?new)" "length (sc_last_reason ?new) < SCHEDULE_REASON_MAX"
        using c assms(1) jobs_inv_entry [OF assms(1)] slots.find_SomeD [of ?t n]
        by (auto simp: candidate_ok_def job_ranges_def stored_ok_def job_texts_def SCHEDULE_REASON_MAX_def
            intro!: length_snprintf_s split: option.splits)
      moreover have "sc_name ?new = n" "sc_action ?new = sc_action c" "sc_params ?new = sc_params c" by (auto split: option.splits)
      ultimately have "stored_ok (?new\<lparr>sc_in_use := True, sc_anchor_at := now\<rparr>)"
        using c n(2) by (simp add: stored_ok_def job_texts_def candidate_ok_def job_ranges_def)
      then have "jobs_inv ?st"
        using old i \<open>sc_name ?new = n\<close> by (intro jobs_inv_update [OF assms(1) i]) auto
      with w show ?thesis by (blast intro: persist_all_inv)
    qed
  qed
qed

lemma job_delete_inv:
  assumes "jobs_inv st" "scheduler_delete env name st = Some (st', e)"
  shows "jobs_inv st'"
proof (cases "\<exists>n i. name = Some n \<and> find_slot (sch_jobs st) n = Some i")
  case True
  then obtain n i where n: "name = Some n" "find_slot (sch_jobs st) n = Some i" by blast
  let ?st = "st\<lparr>sch_jobs := (sch_jobs st)[i := blank_schedule]\<rparr>"
  from assms(2) n obtain rc where "persist_all env ?st = Some (st', rc)"
    by (auto simp: scheduler_delete_def bind_eq_Some_conv)
  moreover have "jobs_inv ?st"
    using slots.find_SomeD [OF n(2)] by (intro jobs_inv_update [OF assms(1)]) (auto simp: stored_ok_def blank_schedule_def)
  ultimately show ?thesis by (blast intro: persist_all_inv)
next
  case False
  with assms show ?thesis by (auto simp: scheduler_delete_def split: option.splits)
qed

lemma stored_slot_update:
  assumes "jobs_inv st" "i < length (sch_jobs st)" "stored_ok s" "sc_name s = sc_name (sch_jobs st ! i)"
    "sc_in_use s = sc_in_use (sch_jobs st ! i)" "sch_jobs st' = (sch_jobs st)[i := s]" "sch_actions st' = sch_actions st"
  shows "jobs_inv st'"
  using assms by (intro jobs_inv_update [OF assms(1-3) _ assms(6,7)]) auto

lemma record_outcome_inv:
  assumes "jobs_inv st" "i < length (sch_jobs st)" "is_c_str reason" "record_outcome env i now ok reason st = Some st'"
  shows "jobs_inv st'"
proof (rule stored_slot_update [OF assms(1,2)])
  show "stored_ok (outcome_of (sch_jobs st ! i) now ok reason)"
    using jobs_inv_entry [OF assms(1,2)] assms(3)
    by (auto simp: stored_ok_def outcome_of_def job_ranges_def job_texts_def SCHEDULE_REASON_MAX_def intro!: length_snprintf_s)
qed (use record_outcome_frame [of env i now ok reason st] assms(4) in \<open>auto simp: outcome_of_def\<close>)

lemma run_one_inv:
  assumes "jobs_inv st" "i < length (sch_jobs st)" "sc_in_use (sch_jobs st ! i)" "run_one env i now st = Some st'"
  shows "jobs_inv st'"
proof (cases "scheduler_action_find (sch_actions st) (Some (sc_action (sch_jobs st ! i)))")
  case None
  let ?reason = "snprintf_s SCHEDULE_REASON_MAX (''action '' @ [CHR 0x22] @ sc_action (sch_jobs st ! i) @ [CHR 0x22] @
    '' is not registered in this build'')"
  have "is_c_str (sc_action (sch_jobs st ! i))"
    using jobs_inv_entry [OF assms(1,2)] assms(3) by (simp add: stored_ok_def job_texts_def)
  then have "is_c_str ?reason" by (intro is_c_str_snprintf_s) (simp add: NUL_def)
  with assms None show ?thesis by (intro record_outcome_inv [OF assms(1,2)]) (auto simp: run_one_def Let_def)
next
  case (Some k)
  let ?s = "sch_jobs st ! i"
  let ?p = "if sc_params ?s \<noteq> [] then Some (sc_params ?s) else None"
  let ?st = "st\<lparr>sch_runs := job_run now ?s # sch_runs st, sch_running_window_end := 0\<rparr>"
  obtain rc why where f: "sa_fn (sch_actions st ! k) (length (sch_runs st)) ?p = (rc, why)" by fastforce
  have "k < length (sch_actions st)" using Some by (auto simp: scheduler_action_find_def dest: find_index_Some)
  then have "is_c_str (snd (sa_fn (sch_actions st ! k) (length (sch_runs st)) ?p))"
    using assms(1) unfolding jobs_inv_def by (meson nth_mem)
  then have why: "is_c_str why" by (simp add: f)
  let ?ok = "rc = 0"
  let ?r = "if snprintf_s SCHEDULE_REASON_MAX why \<noteq> [] then snprintf_s SCHEDULE_REASON_MAX why else if ?ok then ''ok'' else ''failed''"
  have "run_one env i now st = record_outcome env i now ?ok ?r ?st"
    using Some f by (auto simp: run_one_def job_run_def Let_def)
  with assms(4) have run: "record_outcome env i now ?ok ?r ?st = Some st'" by (simp only:)
  have "jobs_inv ?st" "i < length (sch_jobs ?st)" using assms(1,2) by (auto intro: jobs_inv_frame)
  moreover have "is_c_str ?r" using why by (simp add: NUL_def)
  ultimately show ?thesis using run by (rule record_outcome_inv)
qed

lemma record_skip_inv:
  assumes "jobs_inv st" "i < length (sch_jobs st)" "record_skip env i occ st = Some st'"
  shows "jobs_inv st'"
proof (rule stored_slot_update [OF assms(1,2)])
  show "stored_ok ((sch_jobs st ! i)\<lparr>sc_last_skipped_at := occ, sc_anchor_at := occ\<rparr>)"
    using jobs_inv_entry [OF assms(1,2)] by (auto simp: stored_ok_def job_ranges_def job_texts_def)
qed (use record_skip_frame [of env i occ st] assms(3) in auto)

lemma run_due_from_inv:
  assumes "jobs_inv st" "\<And>i. i \<in> set is \<Longrightarrow> i < SCHEDULER_MAX_JOBS" "run_due_from env lt mk now startup is st = Some st'"
  shows "jobs_inv st'"
  using assms
proof (induction "is" arbitrary: st)
  case (Cons i "is")
  from Cons.prems have i: "i < length (sch_jobs st)" by (simp add: jobs_inv_def)
  from Cons.prems(3) obtain st1 where one: "run_due_from env lt mk now startup is st1 = Some st'"
    "(case job_due lt mk now startup (sch_jobs st ! i) of NotDue \<Rightarrow> Some st
        | Run \<Rightarrow> run_one env i now st | Skip occ \<Rightarrow> record_skip env i occ st) = Some st1"
    by (auto simp: bind_eq_Some_conv)
  have "jobs_inv st1"
  proof (cases "job_due lt mk now startup (sch_jobs st ! i)")
    case Run
    then have "sc_in_use (sch_jobs st ! i)" by (auto simp: job_due_def split: if_splits)
    with Run one(2) run_one_inv [OF Cons.prems(1) i] show ?thesis by simp
  qed (use one(2) Cons.prems(1) record_skip_inv [OF Cons.prems(1) i] in auto)
  with one(1) Cons show ?case by (meson list.set_intros(2))
qed simp

lemma run_due_inv: "jobs_inv st \<Longrightarrow> scheduler_run_due env lt mk now startup st = Some st' \<Longrightarrow> jobs_inv st'"
  unfolding scheduler_run_due_def by (erule run_due_from_inv) auto

lemma run_now_inv:
  assumes "jobs_inv st" "scheduler_run_now env now name st = Some (st', e)"
  shows "jobs_inv st'"
proof (cases "\<exists>n i. name = Some n \<and> find_slot (sch_jobs st) n = Some i")
  case True
  then obtain n i where n: "name = Some n" "find_slot (sch_jobs st) n = Some i" by blast
  with assms(2) have "run_one env i now st = Some st'" by (auto simp: scheduler_run_now_def bind_eq_Some_conv)
  with slots.find_SomeD [OF n(2)] run_one_inv [OF assms(1)] show ?thesis by blast
next
  case False
  with assms show ?thesis by (auto simp: scheduler_run_now_def split: option.splits)
qed

text \<open>The life of the scheduler between two starts.\<close>

inductive sch_step :: "scheduler \<Rightarrow> scheduler \<Rightarrow> bool" where
  set: "scheduler_set_from_json env now name body st = Some (st', e) \<Longrightarrow> sch_step st st'"
| delete: "scheduler_delete env name st = Some (st', e) \<Longrightarrow> sch_step st st'"
| tick: "scheduler_run_due env lt mk now startup st = Some st' \<Longrightarrow> sch_step st st'"
| run_now: "scheduler_run_now env now name st = Some (st', e) \<Longrightarrow> sch_step st st'"
| repoint: "st' = scheduler_repoint path st \<Longrightarrow> sch_step st st'"

inductive sch_reachable :: "scheduler \<Rightarrow> scheduler \<Rightarrow> bool" for st0 where
  start: "sch_reachable st0 st0"
| step: "sch_reachable st0 st \<Longrightarrow> sch_step st st' \<Longrightarrow> sch_reachable st0 st'"

lemma sch_step_inv: "sch_step st st' \<Longrightarrow> jobs_inv st \<Longrightarrow> jobs_inv st'"
  by (induction rule: sch_step.induct)
    (auto simp: scheduler_repoint_def intro: set_from_json_inv job_delete_inv run_now_inv run_due_inv jobs_inv_frame)

lemma sch_reachable_inv: "sch_reachable st0 st \<Longrightarrow> jobs_inv st0 \<Longrightarrow> jobs_inv st"
  by (induction rule: sch_reachable.induct) (auto intro: sch_step_inv)

end
