(* ===== verification/Scheduler_Props.thy ===== *)
theory Scheduler_Props
  imports Scheduler_Facts
begin

text \<open>
  The properties of \<open>daemon/src/scheduler.c\<close>, each with an instance: what a restart reads back,
  what one tick runs and records, when a second tick repeats a run, what a client can send back, the
  ranges of the stored jobs, and when a time of day has passed.
\<close>

section \<open>A concrete scheduler\<close>

definition demo_action :: schedule_action where
  "demo_action = \<lparr>sa_name = ''pkg.sync'', sa_summary = None, sa_fn = (\<lambda>n p. (0, ''done''))\<rparr>"

definition demo_job :: schedule where
  "demo_job = blank_schedule\<lparr>sc_name := ''nightly'', sc_action := ''pkg.sync'', sc_kind := SCHEDULE_DAILY, sc_hour := 23,
     sc_minute := 30, sc_enabled := True, sc_anchor_at := 1761400000, sc_in_use := True\<rparr>"

definition demo_scheduler :: "schedule list \<Rightarrow> fs list \<Rightarrow> string \<Rightarrow> scheduler" where
  "demo_scheduler js fss path = \<lparr>sch_jobs = js @ replicate (SCHEDULER_MAX_JOBS - length js) blank_schedule,
     sch_actions = [demo_action], sch_state_path = path, sch_state_was_saved = False, sch_running_window_end = 0,
     sch_saves = 0, sch_fs = fss, sch_runs = [], sch_events = []\<rparr>"

text \<open>
  26 October 2025 in Berlin, a day of 25 hours: midnight is \<open>1761429600\<close>, and at 03:00 summer time,
  three hours later, the clock goes back to 02:00.
\<close>

definition berlin_localtime :: localtime where
  "berlin_localtime t =
     (let secs = (if t < 1761429600 + 3 * 3600 then t - 1761429600 else t - 1761429600 - 3600)
      in Some \<lparr>tm_year = 125, tm_mon = 9, tm_mday = 26, tm_hour = secs div 3600, tm_min = secs div 60 mod 60,
           tm_sec = secs mod 60, tm_wday = 0, tm_isdst = (if t < 1761429600 + 3 * 3600 then 1 else 0)\<rparr>)"

definition berlin_mktime :: mktime where
  "berlin_mktime t = 1761429600 + tm_hour t * 3600 + tm_min t * 60 + tm_sec t + (if 3 \<le> tm_hour t then 3600 else 0)"

lemma demo_job_ok: "job_ok demo_job"
  by (simp add: job_ok_def demo_job_def blank_schedule_def job_ranges_def job_texts_def job_times_def params_exact_def
      simple_name_is_valid_def name_char_def NUL_def SCHEDULE_NAME_MAX_def SCHEDULE_ACTION_MAX_def SCHEDULE_PARAMS_MAX_def
      SCHEDULE_REASON_MAX_def less_eq_char_def)

lemma demo_scheduler_simps [simp]:
  "length js \<le> SCHEDULER_MAX_JOBS \<Longrightarrow> length (sch_jobs (demo_scheduler js fss path)) = SCHEDULER_MAX_JOBS"
  "sch_fs (demo_scheduler js fss path) = fss" "sch_state_path (demo_scheduler js fss path) = path"
  "sch_actions (demo_scheduler js fss path) = [demo_action]" "sch_runs (demo_scheduler js fss path) = []"
  "sch_saves (demo_scheduler js fss path) = 0"
  by (simp_all add: demo_scheduler_def)


lemma demo_jobs: "set (sch_jobs (demo_scheduler [s] fss path)) \<subseteq> {s, blank_schedule}"
  by (auto simp: demo_scheduler_def)

lemma blank_not_due: "job_due lt mk now startup blank_schedule = NotDue"
  by (simp add: job_due_def blank_schedule_def)

section \<open>Properties\<close>



text \<open>
  When a job is to run: a periodic one when it has never run or its period is over; one with a time of
  day when its last occurrence came after its last run and after its anchor, unless this is the first
  tick of the daemon and the job does not catch up: then the occurrence is missed.
\<close>

definition occurrence_open :: "localtime \<Rightarrow> mktime \<Rightarrow> int \<Rightarrow> schedule \<Rightarrow> bool" where
  "occurrence_open lt mk now s = (sc_last_run_at s < prev_occurrence lt mk now s \<and> sc_anchor_at s < prev_occurrence lt mk now s)"

definition wants_run :: "localtime \<Rightarrow> mktime \<Rightarrow> int \<Rightarrow> bool \<Rightarrow> schedule \<Rightarrow> bool" where
  "wants_run lt mk now startup s = (sc_in_use s \<and> sc_enabled s \<and>
     (if sc_kind s = SCHEDULE_EVERY then sc_last_run_at s = 0 \<or> sc_last_run_at s + sc_every_seconds s \<le> now
      else occurrence_open lt mk now s \<and> (startup \<longrightarrow> sc_catch_up s)))"

definition missed :: "localtime \<Rightarrow> mktime \<Rightarrow> int \<Rightarrow> bool \<Rightarrow> schedule \<Rightarrow> bool" where
  "missed lt mk now startup s = (sc_in_use s \<and> sc_enabled s \<and> sc_kind s \<noteq> SCHEDULE_EVERY \<and>
     occurrence_open lt mk now s \<and> startup \<and> \<not> sc_catch_up s)"

lemma job_due_eq:
  "job_due lt mk now startup s =
     (if wants_run lt mk now startup s then Run
      else if missed lt mk now startup s then Skip (prev_occurrence lt mk now s) else NotDue)"
  by (auto simp: job_due_def wants_run_def missed_def occurrence_open_def prev_occurrence_def Let_def)

text \<open>
  C39.  One call of \<open>scheduler_run_due\<close> always completes and treats every job once, in slot order.  The
  log of runs grows by exactly the jobs that are to run and whose action is registered, with their
  parameters and the end of their window.  A job that is to run records the time and what it was told
  (\<open>job_answer\<close>): success exactly when its action, called with the job's parameters after the calls for
  the jobs in earlier slots, returned 0, with the action's text, cut to its field, or \<open>ok\<close> or \<open>failed\<close>
  when it gave none; failure with the reason when the action is not registered.  A missed occurrence
  is recorded as skipped, and every other job is left as it is.
\<close>

theorem tick_runs_due_jobs:
  assumes "length (sch_jobs st) = SCHEDULER_MAX_JOBS"
  shows "\<exists>st'. scheduler_run_due env lt mk now startup st = Some st' \<and>
    sch_runs st' = rev [job_run now s. s \<leftarrow> sch_jobs st, wants_run lt mk now startup s,
        scheduler_action_find (sch_actions st) (Some (sc_action s)) \<noteq> None] @ sch_runs st \<and>
    (\<forall>i < SCHEDULER_MAX_JOBS.
       let s = sch_jobs st ! i;
           calls = length (sch_runs st) + length [s. s \<leftarrow> take i (sch_jobs st), wants_run lt mk now startup s,
             scheduler_action_find (sch_actions st) (Some (sc_action s)) \<noteq> None];
           (ok, reason) = job_answer (sch_actions st) calls s
       in sch_jobs st' ! i =
            (if wants_run lt mk now startup s then
               s\<lparr>sc_last_run_at := now, sc_anchor_at := max (sc_anchor_at s) now, sc_last_ok := ok,
                 sc_last_reason := snprintf_s SCHEDULE_REASON_MAX reason\<rparr>
             else if missed lt mk now startup s then
               s\<lparr>sc_last_skipped_at := prev_occurrence lt mk now s, sc_anchor_at := prev_occurrence lt mk now s\<rparr>
             else s))"
proof -
  obtain st' where st': "scheduler_run_due env lt mk now startup st = Some st'"
      "list_all2 (\<lambda>s s'. settled (job_due lt mk now startup s) now s s') (sch_jobs st) (sch_jobs st')"
      "\<And>i. i < SCHEDULER_MAX_JOBS \<Longrightarrow> job_due lt mk now startup (sch_jobs st ! i) = Run \<Longrightarrow> sch_jobs st' ! i =
         answered now (sch_jobs st ! i) (job_answer (sch_actions st)
           (length (sch_runs st) + length (filter (fires lt mk now startup (sch_actions st)) (take i (sch_jobs st)))) (sch_jobs st ! i))"
      "sch_runs st' = rev (map (job_run now) (filter (fires lt mk now startup (sch_actions st)) (sch_jobs st))) @ sch_runs st"
    using run_due_spec [OF assms, of env lt mk now startup] by (elim exE conjE) (rule that, simp_all)
  have fires: "fires lt mk now startup a s \<longleftrightarrow> wants_run lt mk now startup s \<and> scheduler_action_find a (Some (sc_action s)) \<noteq> None" for a s
    by (simp add: fires_def registered_def job_due_eq)
  have comp: "map (job_run now) (filter (fires lt mk now startup a) js) = [job_run now s. s \<leftarrow> js, wants_run lt mk now startup s,
      scheduler_action_find a (Some (sc_action s)) \<noteq> None]" for a js
    by (induction js) (auto simp: fires)
  have settled: "settled (job_due lt mk now startup (sch_jobs st ! i)) now (sch_jobs st ! i) (sch_jobs st' ! i)" if "i < SCHEDULER_MAX_JOBS" for i
    using st'(2) assms that by (auto simp: list_all2_conv_all_nth)
  have job: "sch_jobs st' ! i = (if wants_run lt mk now startup (sch_jobs st ! i)
      then answered now (sch_jobs st ! i) (job_answer (sch_actions st) (length (sch_runs st) +
        length (filter (fires lt mk now startup (sch_actions st)) (take i (sch_jobs st)))) (sch_jobs st ! i))
      else if missed lt mk now startup (sch_jobs st ! i)
      then (sch_jobs st ! i)\<lparr>sc_last_skipped_at := prev_occurrence lt mk now (sch_jobs st ! i), sc_anchor_at := prev_occurrence lt mk now (sch_jobs st ! i)\<rparr>
      else sch_jobs st ! i)" if "i < SCHEDULER_MAX_JOBS" for i
    using settled [OF that] st'(3) [OF that] by (simp add: job_due_eq split: if_split_asm)
  have count: "length (filter (fires lt mk now startup (sch_actions st)) js) = length [s. s \<leftarrow> js, wants_run lt mk now startup s,
      scheduler_action_find (sch_actions st) (Some (sc_action s)) \<noteq> None]" for js
    by (induction js) (auto simp: fires)
  have later: "(if a < now then now else a) = max a now" for a by (simp add: max_def)
  show ?thesis
  proof (intro exI [of _ st'] conjI allI impI)
    show "scheduler_run_due env lt mk now startup st = Some st'" by (rule st'(1))
    show "sch_runs st' = rev [job_run now s. s \<leftarrow> sch_jobs st, wants_run lt mk now startup s,
        scheduler_action_find (sch_actions st) (Some (sc_action s)) \<noteq> None] @ sch_runs st"
      using st'(4) unfolding comp .
  qed (simp only: Let_def case_prod_beta job answered_def outcome_of_def count later)
qed

text \<open>At one o'clock on the 26th the instant 24 hours before 23:30 has passed.\<close>

lemma demo_due: "wants_run berlin_localtime berlin_mktime 1761433200 False demo_job"
  by (simp add: wants_run_def occurrence_open_def prev_occurrence_def demo_job_def blank_schedule_def prev_wallclock_def
      berlin_localtime_def berlin_mktime_def at_time_def Let_def)

lemma blank_idle: "\<not> wants_run lt mk now startup blank_schedule"
  by (simp add: wants_run_def blank_schedule_def)

text \<open>An action that fails without a reason, next to the one that succeeds.\<close>

definition failing_action :: schedule_action where
  "failing_action = \<lparr>sa_name = ''store.gc'', sa_summary = None, sa_fn = (\<lambda>n p. (1, []))\<rparr>"

definition demo_pair :: scheduler where
  "demo_pair = (demo_scheduler [demo_job, demo_job\<lparr>sc_name := ''gc'', sc_action := ''store.gc''\<rparr>] [] [])\<lparr>sch_actions := [demo_action, failing_action]\<rparr>"

lemma demo_pair_jobs:
  "sch_jobs demo_pair = demo_job # demo_job\<lparr>sc_name := ''gc'', sc_action := ''store.gc''\<rparr> # replicate 62 blank_schedule"
  "sch_actions demo_pair = [demo_action, failing_action]" "sch_runs demo_pair = []"
  by (simp_all add: demo_pair_def demo_scheduler_def SCHEDULER_MAX_JOBS_def)

theorem tick_runs_due_jobs_witness:
  "\<exists>st'. scheduler_run_due (\<lambda>n. healthy_write []) berlin_localtime berlin_mktime 1761433200 False demo_pair = Some st' \<and>
     sch_runs st' = [(''store.gc'', None, 0), (''pkg.sync'', None, 0)] \<and>
     sc_last_ok (sch_jobs st' ! 0) \<and> sc_last_reason (sch_jobs st' ! 0) = ''done'' \<and> sc_last_run_at (sch_jobs st' ! 0) = 1761433200 \<and>
     \<not> sc_last_ok (sch_jobs st' ! 1) \<and> sc_last_reason (sch_jobs st' ! 1) = ''failed''"
proof -
  let ?gc = "demo_job\<lparr>sc_name := ''gc'', sc_action := ''store.gc''\<rparr>"
  have "length (sch_jobs demo_pair) = SCHEDULER_MAX_JOBS" by (simp add: demo_pair_jobs SCHEDULER_MAX_JOBS_def)
  note C = tick_runs_due_jobs [OF this, of "\<lambda>n. healthy_write []" berlin_localtime berlin_mktime 1761433200 False]
  have due: "wants_run berlin_localtime berlin_mktime 1761433200 False ?gc"
    by (simp add: wants_run_def occurrence_open_def prev_occurrence_def demo_job_def blank_schedule_def prev_wallclock_def
        berlin_localtime_def berlin_mktime_def at_time_def Let_def)
  have find: "scheduler_action_find [demo_action, failing_action] (Some ''pkg.sync'') = Some 0"
    "scheduler_action_find [demo_action, failing_action] (Some ''store.gc'') = Some 1"
    by (simp_all add: scheduler_action_find_def demo_action_def failing_action_def)
  have job: "sc_action demo_job = ''pkg.sync''" "sc_params demo_job = []" "sc_window_minutes demo_job = 0"
    by (simp_all add: demo_job_def blank_schedule_def)
  have a: "job_answer [demo_action, failing_action] n demo_job = (True, ''done'')" "job_answer [demo_action, failing_action] n ?gc = (False, ''failed'')" for n
    by (simp_all add: job_answer_def job find) (simp_all add: demo_action_def failing_action_def)
  from C obtain st' where st': "scheduler_run_due (\<lambda>n. healthy_write []) berlin_localtime berlin_mktime 1761433200 False demo_pair = Some st'"
    and runs: "sch_runs st' = [(''store.gc'', None, 0), (''pkg.sync'', None, 0)]"
    and jobs: "\<And>i. i < SCHEDULER_MAX_JOBS \<Longrightarrow> let s = sch_jobs demo_pair ! i;
           calls = length (sch_runs demo_pair) + length [s. s \<leftarrow> take i (sch_jobs demo_pair), wants_run berlin_localtime berlin_mktime 1761433200 False s,
             scheduler_action_find (sch_actions demo_pair) (Some (sc_action s)) \<noteq> None];
           (ok, reason) = job_answer (sch_actions demo_pair) calls s
       in sch_jobs st' ! i =
            (if wants_run berlin_localtime berlin_mktime 1761433200 False s then
               s\<lparr>sc_last_run_at := 1761433200, sc_anchor_at := max (sc_anchor_at s) 1761433200, sc_last_ok := ok,
                 sc_last_reason := snprintf_s SCHEDULE_REASON_MAX reason\<rparr>
             else if missed berlin_localtime berlin_mktime 1761433200 False s then
               s\<lparr>sc_last_skipped_at := prev_occurrence berlin_localtime berlin_mktime 1761433200 s,
                 sc_anchor_at := prev_occurrence berlin_localtime berlin_mktime 1761433200 s\<rparr>
             else s)"
    by (auto simp: demo_pair_jobs demo_due due blank_idle find job job_run_def)
  have "sch_jobs st' ! 0 = demo_job\<lparr>sc_last_run_at := 1761433200, sc_anchor_at := max (sc_anchor_at demo_job) 1761433200, sc_last_ok := True,
      sc_last_reason := ''done''\<rparr>"
    using jobs [of 0] by (simp add: SCHEDULER_MAX_JOBS_def SCHEDULE_REASON_MAX_def snprintf_s_def demo_pair_jobs demo_due a Let_def)
  moreover have "sch_jobs st' ! 1 = ?gc\<lparr>sc_last_run_at := 1761433200, sc_anchor_at := max (sc_anchor_at ?gc) 1761433200, sc_last_ok := False,
      sc_last_reason := ''failed''\<rparr>"
    using jobs [of 1] by (simp add: SCHEDULER_MAX_JOBS_def SCHEDULE_REASON_MAX_def snprintf_s_def demo_pair_jobs due a Let_def)
  ultimately show ?thesis using st' runs by simp
qed

text \<open>
  A second call within the same second runs again exactly those wall-clock jobs that just ran and
  whose \<open>prev_wallclock\<close> lies after \<open>now\<close>; every other job is settled by the first call.  A
  \<open>prev_wallclock\<close> in the future is possible, because it steps back 24 hours where the day has 25: the
  instance is a job for 23:30 on the night the clocks go back, due at every call between 00:00 and 00:30.
\<close>

theorem second_tick_repeats:
  assumes "length (sch_jobs st) = SCHEDULER_MAX_JOBS" "now \<noteq> 0"
    and "\<forall>s \<in> set (sch_jobs st). sc_kind s = SCHEDULE_EVERY \<and> sc_in_use s \<longrightarrow> 0 < sc_every_seconds s"
    and "scheduler_run_due env lt mk now startup st = Some st1" "scheduler_run_due env' lt mk now False st1 = Some st2"
  shows "sch_runs st2 = rev [job_run now s. s \<leftarrow> sch_jobs st,
      job_due lt mk now startup s = Run \<and> sc_kind s \<noteq> SCHEDULE_EVERY \<and> now < prev_occurrence lt mk now s,
      scheduler_action_find (sch_actions st) (Some (sc_action s)) \<noteq> None] @ sch_runs st1"
proof -
  let ?again = "\<lambda>s. job_due lt mk now startup s = Run \<and> sc_kind s \<noteq> SCHEDULE_EVERY \<and> now < prev_occurrence lt mk now s"
  from run_due_spec [OF assms(1), of env lt mk now startup] assms(4) have
    one: "list_all2 (\<lambda>s s'. settled (job_due lt mk now startup s) now s s') (sch_jobs st) (sch_jobs st1)" "sch_actions st1 = sch_actions st"
    by auto
  then have "length (sch_jobs st1) = SCHEDULER_MAX_JOBS" using assms(1) by (simp add: list_all2_lengthD [symmetric])
  from run_due_spec [OF this, of env' lt mk now False] assms(5) one(2) have
    two: "sch_runs st2 = rev (map (job_run now) (filter (fires lt mk now False (sch_actions st)) (sch_jobs st1))) @ sch_runs st1" by auto
  have pair: "(?again s \<and> registered (sch_actions st) s) = fires lt mk now False (sch_actions st) s' \<and> job_run now s = job_run now s'"
    if "s \<in> set (sch_jobs st)" and st: "settled (job_due lt mk now startup s) now s s'" for s s'
  proof (cases "sc_in_use s")
    case True
    then have "sc_kind s = SCHEDULE_EVERY \<longrightarrow> 0 < sc_every_seconds s" using assms(3) that(1) by blast
    from job_due_again [OF st assms(2) this] settled_keeps [OF st, of "sch_actions st"] show ?thesis by (auto simp: fires_def)
  next
    case False
    then have "job_due lt mk now u s = NotDue" for u by (simp add: job_due_def)
    with st show ?thesis by (auto simp: fires_def)
  qed
  have comp: "map (job_run now) (filter (\<lambda>s. ?again s \<and> registered a s) js) =
      [job_run now s. s \<leftarrow> js, ?again s, scheduler_action_find a (Some (sc_action s)) \<noteq> None]" for a js
    by (induction js) (auto simp: registered_def)
  have "map (job_run now) (filter (\<lambda>s. ?again s \<and> registered (sch_actions st) s) (sch_jobs st)) =
      map (job_run now) (filter (fires lt mk now False (sch_actions st)) (sch_jobs st1))"
    using one(1) pair by (rule filter_map_list_all2)
  then show ?thesis using two unfolding comp by simp
qed

text \<open>One minute past midnight: 24 hours before today's 23:30 is 00:30 today.\<close>

lemma demo_early:
  "job_due berlin_localtime berlin_mktime 1761429660 False demo_job = Run"
  "prev_occurrence berlin_localtime berlin_mktime 1761429660 demo_job = 1761431400"
  by (simp_all add: job_due_def prev_occurrence_def demo_job_def blank_schedule_def prev_wallclock_def berlin_localtime_def
      berlin_mktime_def at_time_def Let_def)

lemma demo_runs_again:
  "[job_run now s. s \<leftarrow> sch_jobs (demo_scheduler [demo_job] fss path),
     job_due lt mk now startup s = Run \<and> sc_kind s \<noteq> SCHEDULE_EVERY \<and> now < prev_occurrence lt mk now s,
     scheduler_action_find [demo_action] (Some (sc_action s)) \<noteq> None] =
   (if job_due lt mk now startup demo_job = Run \<and> now < prev_occurrence lt mk now demo_job then [(''pkg.sync'', None, 0)] else [])"
proof -
  have "sc_action demo_job = ''pkg.sync''" "sc_params demo_job = []" "sc_window_minutes demo_job = 0" "sc_kind demo_job = SCHEDULE_DAILY"
    by (simp_all add: demo_job_def blank_schedule_def)
  then show ?thesis
    by (simp add: demo_scheduler_def blank_not_due job_run_def scheduler_action_find_def demo_action_def)
qed

theorem second_tick_repeats_witness:
  "\<exists>st1 st2. scheduler_run_due (\<lambda>n. healthy_write []) berlin_localtime berlin_mktime 1761429660 False (demo_scheduler [demo_job] [] []) = Some st1 \<and>
     scheduler_run_due (\<lambda>n. healthy_write []) berlin_localtime berlin_mktime 1761429660 False st1 = Some st2 \<and>
     sch_runs st1 = [(''pkg.sync'', None, 0)] \<and> sch_runs st2 = [(''pkg.sync'', None, 0), (''pkg.sync'', None, 0)]"
proof -
  let ?tick = "scheduler_run_due (\<lambda>n. healthy_write []) berlin_localtime berlin_mktime 1761429660 False"
  let ?st = "demo_scheduler [demo_job] [] []"
  have len: "length (sch_jobs ?st) = SCHEDULER_MAX_JOBS" by (simp add: SCHEDULER_MAX_JOBS_def)
  from run_due_spec [OF len, of "\<lambda>n. healthy_write []" berlin_localtime berlin_mktime 1761429660 False] obtain st1 where
    st1: "?tick ?st = Some st1" "length (sch_jobs st1) = SCHEDULER_MAX_JOBS"
      "sch_runs st1 = rev (map (job_run 1761429660) (filter (fires berlin_localtime berlin_mktime 1761429660 False [demo_action]) (sch_jobs ?st)))"
    by (auto simp: len list_all2_lengthD [symmetric])
  have "fires berlin_localtime berlin_mktime 1761429660 False [demo_action] demo_job"
    by (simp add: fires_def demo_early) (simp add: registered_def scheduler_action_find_def demo_action_def demo_job_def)
  moreover have "\<not> fires lt mk now u a blank_schedule" for lt mk now u a by (simp add: fires_def blank_not_due)
  moreover have "job_run 1761429660 demo_job = (''pkg.sync'', None, 0)" by (simp add: job_run_def demo_job_def blank_schedule_def)
  ultimately have "sch_runs st1 = [(''pkg.sync'', None, 0)]" unfolding st1(3) by (simp add: demo_scheduler_def)
  moreover from run_due_spec [OF st1(2), of "\<lambda>n. healthy_write []" berlin_localtime berlin_mktime 1761429660 False] obtain st2 where
    st2: "?tick st1 = Some st2" by blast
  moreover have "\<forall>s \<in> set (sch_jobs ?st). sc_kind s = SCHEDULE_EVERY \<and> sc_in_use s \<longrightarrow> 0 < sc_every_seconds s"
    using demo_jobs [of demo_job "[]" "[]"] by (auto simp: demo_job_def blank_schedule_def)
  note second_tick_repeats [OF len _ this st1(1) st2]
  ultimately show ?thesis using st1(1) unfolding demo_scheduler_simps demo_runs_again demo_early by auto
qed

lemma schedule_describe_cong:
  assumes "sc_kind c = sc_kind s" "sc_window_minutes c = sc_window_minutes s" "sc_enabled c = sc_enabled s"
    "sc_kind s = SCHEDULE_EVERY \<longrightarrow> sc_every_seconds c = sc_every_seconds s"
    "sc_kind s \<noteq> SCHEDULE_EVERY \<longrightarrow> sc_hour c = sc_hour s \<and> sc_minute c = sc_minute s"
    "sc_kind s = SCHEDULE_WEEKLY \<longrightarrow> sc_weekday c = sc_weekday s"
  shows "schedule_describe (Some c) n = schedule_describe (Some s) n"
proof (cases "sc_kind s")
  case SCHEDULE_EVERY
  with assms(4) have "sc_every_seconds c = sc_every_seconds s" by blast
  then show ?thesis by (simp only: schedule_describe_def option.case assms(1-3) SCHEDULE_EVERY schedule_kind.case)
next
  case SCHEDULE_DAILY
  with assms(5) have "sc_hour c = sc_hour s" "sc_minute c = sc_minute s" by simp_all
  then show ?thesis by (simp only: schedule_describe_def option.case assms(1-3) SCHEDULE_DAILY schedule_kind.case)
next
  case SCHEDULE_WEEKLY
  with assms(5,6) have "sc_hour c = sc_hour s" "sc_minute c = sc_minute s" "sc_weekday c = sc_weekday s" by simp_all
  then show ?thesis by (simp only: schedule_describe_def option.case assms(1-3) SCHEDULE_WEEKLY schedule_kind.case)
qed

text \<open>
   The document the API returns for a job is accepted back as a request for it, with the same
  action, schedule, window and flags, and described by the same words.  Its parameters are lost: the
  document does not carry them, so a client that reads a job and writes it back clears them.
\<close>

theorem job_document_accepted_back:
  assumes "job_ranges s" "job_texts s" "job_times s" "\<bar>schedule_next_run lt mk s now\<bar> < 2 ^ 53"
    and "scheduler_action_find actions (Some (sc_action s)) \<noteq> None"
  shows "\<exists>w c. scheduler_write_json_one lt mk now (jw_init blank_writer) s = Some w \<and>
    parse_candidate actions (jw_buf w) = Some (Inr c) \<and> sc_action c = sc_action s \<and> sc_kind c = sc_kind s \<and>
    sc_window_minutes c = sc_window_minutes s \<and> sc_catch_up c = sc_catch_up s \<and> sc_enabled c = sc_enabled s \<and>
    schedule_describe (Some c) SCHEDULE_DESCRIBE_MAX = schedule_describe (Some s) SCHEDULE_DESCRIBE_MAX \<and> sc_params c = []"
proof -
  let ?next = "schedule_next_run lt mk s now" and ?c0 = "blank_schedule\<lparr>sc_action := sc_action s\<rparr>"
  obtain w where w: "scheduler_write_json_one lt mk now (jw_init blank_writer) s = Some w" "jw_buf w = obj_text (doc_members ?next s)"
    using jw_emits_blank [OF write_json_one_emits [of lt mk now s]] by (auto simp: JW_MAX_DEPTH_def)
  have parsed: "json_parse (jw_buf w) = Some (doc_tree ?next s)"
    unfolding w(2) by (rule parses_json_parse [OF doc_text_parses [OF assms(1-4)]])
  obtain ms where ms: "doc_tree ?next s = JObject ms" by (simp add: doc_tree_def)
  have get: "json_object_get (Some (JObject ms)) ''action'' = Some (JString (sc_action s))"
    "json_object_get (Some (JObject ms)) ''schedule'' = Some (schedule_tree s)"
    "json_object_get (Some (JObject ms)) ''window_minutes'' = Some (JNumber (ll2d (sc_window_minutes s)))"
    "json_object_get (Some (JObject ms)) ''catch_up'' = Some (JBool (sc_catch_up s))"
    "json_object_get (Some (JObject ms)) ''enabled'' = Some (JBool (sc_enabled s))"
    "json_object_get (Some (JObject ms)) ''params'' = None"
    unfolding ms [symmetric] by (simp_all add: doc_tree_def json_object_get_def)
  have act: "snprintf_s SCHEDULE_ACTION_MAX (sc_action s) = sc_action s" using assms(2) by (simp add: job_texts_def)
  have win: "d2i (ll2d (sc_window_minutes s)) = sc_window_minutes s" "0 \<le> sc_window_minutes s" "sc_window_minutes s \<le> 24 * 60"
    using assms(1) by (auto simp: job_ranges_def INT_MIN_def INT_MAX_def intro!: d2i_ll2d)
  define b where "b = fst (parse_schedule_body (Some (JObject ms)) ?c0)"
  have body: "parse_schedule_body (Some (JObject ms)) ?c0 = (b, SCHEDULE_OK)"
    "sc_action b = sc_action s" "sc_kind b = sc_kind s" "sc_params b = []"
    "sc_kind s = SCHEDULE_EVERY \<longrightarrow> sc_every_seconds b = sc_every_seconds s"
    "sc_kind s \<noteq> SCHEDULE_EVERY \<longrightarrow> sc_hour b = sc_hour s \<and> sc_minute b = sc_minute s"
    "sc_kind s = SCHEDULE_WEEKLY \<longrightarrow> sc_weekday b = sc_weekday s"
    unfolding b_def schedule_tree_parsed [OF assms(1) get(2)]
    by (cases "sc_kind s"; simp add: blank_schedule_def)+
  let ?c = "b\<lparr>sc_window_minutes := sc_window_minutes s, sc_catch_up := sc_catch_up s, sc_enabled := sc_enabled s, sc_params := []\<rparr>"
  have "parse_candidate actions (jw_buf w) = Some (Inr ?c)"
    using parsed assms(5) body(1) win
    by (simp add: ms parse_candidate_def get json_as_string_def json_as_number_def json_bool_def request_params_def is_object_def act Let_def)
  moreover have "schedule_describe (Some ?c) SCHEDULE_DESCRIBE_MAX = schedule_describe (Some s) SCHEDULE_DESCRIBE_MAX"
    using body by (intro schedule_describe_cong) simp_all
  ultimately show ?thesis using w(1) body(2,3) by (intro exI [of _ w] exI [of _ ?c]) simp
qed

theorem job_document_accepted_back_witness:
  "\<exists>w c. scheduler_write_json_one (\<lambda>t. None) (\<lambda>t. 0) 0 (jw_init blank_writer) demo_job = Some w \<and>
     parse_candidate [demo_action] (jw_buf w) = Some (Inr c) \<and> sc_kind c = SCHEDULE_DAILY"
proof -
  have "job_ranges demo_job" "job_texts demo_job" "job_times demo_job" using demo_job_ok by (auto simp: job_ok_def)
  moreover have "\<bar>schedule_next_run (\<lambda>t. None) (\<lambda>t. 0) demo_job 0\<bar> < 2 ^ 53" "sc_kind demo_job = SCHEDULE_DAILY"
    "scheduler_action_find [demo_action] (Some (sc_action demo_job)) \<noteq> None"
    by (simp_all add: schedule_next_run_def next_wallclock_def demo_job_def blank_schedule_def scheduler_action_find_def demo_action_def)
  ultimately show ?thesis
    using job_document_accepted_back [of demo_job "\<lambda>t. None" "\<lambda>t. 0" 0 "[demo_action]"] by metis
qed

text \<open>
  Whatever requests, ticks and manual runs follow each other from an empty table, and whether or
  not the saves succeed, the stored jobs have distinct valid names, a period between 10 seconds and
  366 days, a time of day, weekday and window in range, and texts that fit their buffers.
\<close>

theorem stored_jobs_in_range:
  assumes "sch_reachable st0 st" "sch_jobs st0 = replicate SCHEDULER_MAX_JOBS blank_schedule"
    and "\<forall>a \<in> set (sch_actions st0). \<forall>n p. is_c_str (sa_name a) \<and> is_c_str (snd (sa_fn a n p))"
  shows "length (sch_jobs st) = SCHEDULER_MAX_JOBS \<and> keys_unique sc_in_use sc_name (sch_jobs st) \<and>
    (\<forall>s \<in> set (sch_jobs st). sc_in_use s \<longrightarrow> job_ranges s \<and> job_texts s)"
proof -
  have "jobs_inv st0"
    using assms(2,3) by (auto simp: jobs_inv_def keys_unique_def stored_ok_def blank_schedule_def)
  from sch_reachable_inv [OF assms(1) this] show ?thesis by (auto simp: jobs_inv_def stored_ok_def)
qed

definition demo_request :: json where
  "demo_request = JObject [(''action'', JString ''pkg.sync''), (''schedule'', schedule_tree demo_job)]"

lemma demo_candidate:
  "parse_candidate [demo_action] (render demo_request) =
     Some (Inr (demo_job\<lparr>sc_name := [], sc_anchor_at := 0, sc_in_use := False\<rparr>))"
proof -
  have tree: "exact_json demo_request"
    by (simp add: demo_request_def schedule_tree_def demo_job_def blank_schedule_def NUL_def clock_text_def)
  have get: "json_object_get (Some demo_request) ''schedule'' = Some (schedule_tree demo_job)"
    "json_object_get (Some demo_request) ''action'' = Some (JString ''pkg.sync'')"
    "json_object_get (Some demo_request) ''params'' = None" "json_object_get (Some demo_request) ''enabled'' = None"
    "json_object_get (Some demo_request) ''window_minutes'' = None" "json_object_get (Some demo_request) ''catch_up'' = None"
    by (simp_all add: demo_request_def json_object_get_def)
  have "job_ranges demo_job" using demo_job_ok by (simp add: job_ok_def)
  note body = schedule_tree_parsed [OF this get(1)]
  obtain ms where ms: "demo_request = JObject ms" by (simp add: demo_request_def)
  have zero: "d2i (DFin 0) = 0" by (simp add: trunc_rat_def INT_MIN_def INT_MAX_def)
  have "scheduler_action_find [demo_action] (Some ''pkg.sync'') \<noteq> None" by (simp add: scheduler_action_find_def demo_action_def)
  moreover have "snprintf_s SCHEDULE_ACTION_MAX ''pkg.sync'' = ''pkg.sync''" by (simp add: SCHEDULE_ACTION_MAX_def)
  ultimately show ?thesis
    using json_parse_render [OF tree] get body zero unfolding ms
    by (simp add: parse_candidate_def json_as_string_def json_as_number_def json_bool_def request_params_def is_object_def Let_def
        demo_job_def blank_schedule_def)
qed

theorem stored_jobs_in_range_witness:
  "\<exists>st. sch_reachable (demo_scheduler [] [] []) st \<and> sch_jobs st ! 0 = demo_job\<lparr>sc_anchor_at := 5\<rparr> \<and>
     keys_unique sc_in_use sc_name (sch_jobs st)"
proof -
  let ?st = "demo_scheduler [] [] []" and ?env = "\<lambda>n :: nat. healthy_write []"
  have jobs: "sch_jobs ?st = replicate SCHEDULER_MAX_JOBS blank_schedule" by (simp add: demo_scheduler_def)
  have find: "find_slot (sch_jobs ?st) ''nightly'' = None" "free_slot (sch_jobs ?st) = Some 0"
    unfolding jobs by (auto simp: find_slot_def free_slot_def find_index_None blank_schedule_def SCHEDULER_MAX_JOBS_def numeral_eq_Suc)
  have "demo_job\<lparr>sc_name := ''nightly'', sc_in_use := True, sc_anchor_at := 5\<rparr> = demo_job\<lparr>sc_anchor_at := 5\<rparr>"
    by (simp add: demo_job_def blank_schedule_def)
  then have "\<exists>st. scheduler_set_from_json ?env 5 (Some ''nightly'') (render demo_request) ?st = Some (st, SCHEDULE_OK) \<and>
      sch_jobs st = (sch_jobs ?st)[0 := demo_job\<lparr>sc_anchor_at := 5\<rparr>]"
    using demo_candidate find
    by (simp add: scheduler_set_from_json_def simple_name_is_valid_def name_char_def less_eq_char_def SCHEDULE_NAME_MAX_def persist_all_def Let_def)
  then obtain st where st: "scheduler_set_from_json ?env 5 (Some ''nightly'') (render demo_request) ?st = Some (st, SCHEDULE_OK)"
    "sch_jobs st = (sch_jobs ?st)[0 := demo_job\<lparr>sc_anchor_at := 5\<rparr>]" by blast
  have reach: "sch_reachable ?st st" by (rule sch_reachable.step [OF sch_reachable.start sch_step.set [OF st(1)]])
  have "sch_jobs st ! 0 = demo_job\<lparr>sc_anchor_at := 5\<rparr>" unfolding st(2) jobs by (simp add: SCHEDULER_MAX_JOBS_def)
  with stored_jobs_in_range [OF reach jobs] reach show ?thesis by (auto simp: demo_action_def NUL_def)
qed

section \<open>When a time of day has passed\<close>

text \<open>
  \<open>localtime_r\<close> and \<open>mktime\<close> where the zone keeps one offset to UTC, \<open>off\<close> seconds: every day has 86400
  seconds, day 0 of the epoch is a Thursday, and \<open>mktime\<close> of a day of the month past its ends
  is the time on the day that far away.
\<close>

definition fixed_zone :: "int \<Rightarrow> localtime \<Rightarrow> mktime \<Rightarrow> bool" where
  "fixed_zone off lt mk =
     (\<forall>t. \<exists>tm. lt t = Some tm \<and> tm_wday tm = ((t + off) div 86400 + 4) mod 7 \<and>
        (\<forall>h m d. 0 \<le> h \<and> h \<le> 23 \<and> 0 \<le> m \<and> m \<le> 59 \<longrightarrow>
           mk (at_time h m (tm\<lparr>tm_mday := tm_mday tm + d\<rparr>)) = ((t + off) div 86400 + d) * 86400 + h * 3600 + m * 60 - off))"

text \<open>The occurrences of a job with a time of day: that time on every day, or on its day of the week.\<close>

definition occurs_at :: "int \<Rightarrow> schedule \<Rightarrow> int \<Rightarrow> bool" where
  "occurs_at off s x = ((x + off) mod 86400 = sc_hour s * 3600 + sc_minute s * 60 \<and>
     (sc_kind s = SCHEDULE_WEEKLY \<longrightarrow> ((x + off) div 86400 + 4) mod 7 = sc_weekday s))"

text \<open>The time of the job on day \<open>d\<close>.\<close>

definition on_day :: "int \<Rightarrow> schedule \<Rightarrow> int \<Rightarrow> int" where
  "on_day off s d = d * 86400 + sc_hour s * 3600 + sc_minute s * 60 - off"

lemma on_day:
  assumes "job_ranges s"
  shows "(on_day off s d + off) div 86400 = d" "(on_day off s d + off) mod 86400 = sc_hour s * 3600 + sc_minute s * 60"
proof -
  let ?t = "sc_hour s * 3600 + sc_minute s * 60"
  have t: "0 \<le> ?t" "?t < 86400" using assms by (auto simp: job_ranges_def)
  have e: "on_day off s d + off = ?t + d * 86400" by (simp add: on_day_def)
  show "(on_day off s d + off) div 86400 = d" "(on_day off s d + off) mod 86400 = ?t"
    unfolding e using t by (simp_all add: div_pos_pos_trivial mod_pos_pos_trivial)
qed

lemma occurs_on_day: "occurs_at off s x \<Longrightarrow> x = on_day off s ((x + off) div 86400)"
  using div_mult_mod_eq [of "x + off" 86400] by (simp add: occurs_at_def on_day_def)

lemma on_day_mono: "d \<le> e \<Longrightarrow> on_day off s d \<le> on_day off s e"
  by (simp add: on_day_def)

lemma zone_step:
  assumes "fixed_zone off lt mk" "job_ranges s"
  shows "\<exists>tm. lt t = Some tm \<and> tm_wday tm = ((t + off) div 86400 + 4) mod 7 \<and>
    mk (at_time (sc_hour s) (sc_minute s) tm) = on_day off s ((t + off) div 86400) \<and>
    mk (at_time (sc_hour s) (sc_minute s) (tm\<lparr>tm_mday := tm_mday tm + - 1\<rparr>)) = on_day off s ((t + off) div 86400 - 1)"
proof -
  have r: "0 \<le> sc_hour s \<and> sc_hour s \<le> 23 \<and> 0 \<le> sc_minute s \<and> sc_minute s \<le> 59" using assms(2) by (simp add: job_ranges_def)
  obtain tm where tm: "lt t = Some tm" "tm_wday tm = ((t + off) div 86400 + 4) mod 7"
    "\<And>d. mk (at_time (sc_hour s) (sc_minute s) (tm\<lparr>tm_mday := tm_mday tm + d\<rparr>)) =
       ((t + off) div 86400 + d) * 86400 + sc_hour s * 3600 + sc_minute s * 60 - off"
    using assms(1) r unfolding fixed_zone_def by blast
  have "mk (at_time (sc_hour s) (sc_minute s) tm) = on_day off s ((t + off) div 86400)" using tm(3) [of 0] by (simp add: on_day_def)
  moreover have "mk (at_time (sc_hour s) (sc_minute s) (tm\<lparr>tm_mday := tm_mday tm + - 1\<rparr>)) = on_day off s ((t + off) div 86400 - 1)"
    using tm(3) [of "- 1"] by (simp add: on_day_def)
  ultimately show ?thesis using tm(1,2) by blast
qed

text \<open>The loop back over the days ends on the last day with the weekday asked for.\<close>

lemma step_back:
  assumes "fixed_zone off lt mk" "job_ranges s" "k < n" "(d - int k + 4) mod 7 = w" "\<forall>j < k. (d - int j + 4) mod 7 \<noteq> w"
  shows "step_days lt mk (sc_hour s) (sc_minute s) w (- 1) n (on_day off s d) = on_day off s (d - int k)"
  using assms(3-5)
proof (induction n arbitrary: d k)
  case (Suc n)
  from zone_step [OF assms(1,2), of "on_day off s d"] obtain tm where tm: "lt (on_day off s d) = Some tm" "tm_wday tm = (d + 4) mod 7"
    "mk (at_time (sc_hour s) (sc_minute s) (tm\<lparr>tm_mday := tm_mday tm + - 1\<rparr>)) = on_day off s (d - 1)"
    by (auto simp: on_day [OF assms(2)])
  show ?case
  proof (cases k)
    case 0
    then show ?thesis using tm(1,2) Suc.prems(2) by simp
  next
    case (Suc l)
    have "(d + 4) mod 7 \<noteq> w" using Suc.prems(3) Suc by auto
    moreover have "step_days lt mk (sc_hour s) (sc_minute s) w (- 1) n (on_day off s (d - 1)) = on_day off s (d - 1 - int l)"
    proof (rule Suc.IH)
      show "l < n" using Suc.prems(1) Suc by simp
      show "(d - 1 - int l + 4) mod 7 = w" using Suc.prems(2) Suc by (simp add: algebra_simps)
      show "\<forall>j < l. (d - 1 - int j + 4) mod 7 \<noteq> w"
      proof (intro allI impI)
        fix j
        assume "j < l"
        then have "(d - int (Suc j) + 4) mod 7 \<noteq> w" using Suc.prems(3) Suc by blast
        then show "(d - 1 - int j + 4) mod 7 \<noteq> w" by (simp add: algebra_simps)
      qed
    qed
    ultimately show ?thesis using tm Suc by (simp add: diff_diff_eq)
  qed
qed simp

lemma weekday_near: "0 \<le> w \<Longrightarrow> w \<le> 6 \<Longrightarrow> \<exists>k < 7. (d - int k + 4) mod 7 = w"
proof -
  assume w: "0 \<le> w" "w \<le> 6"
  have "d - (d + 4 - w) mod 7 + 4 = w + 7 * ((d + 4 - w) div 7)" using mult_div_mod_eq [of 7 "d + 4 - w"] by linarith
  then have "(d - (d + 4 - w) mod 7 + 4) mod 7 = w" using w by simp
  then show ?thesis by (intro exI [of _ "nat ((d + 4 - w) mod 7)"]) (simp add: nat_less_iff)
qed

lemma prev_occurrence_latest:
  assumes "fixed_zone off lt mk" "job_ranges s" "sc_kind s \<noteq> SCHEDULE_EVERY"
  shows "occurs_at off s (prev_occurrence lt mk now s) \<and> prev_occurrence lt mk now s \<le> now \<and>
    (\<forall>x. occurs_at off s x \<and> x \<le> now \<longrightarrow> x \<le> prev_occurrence lt mk now s)"
proof -
  note day = on_day [OF assms(2), of off]
  define d0 where "d0 = (now + off) div 86400"
  define d where "d = (if now < on_day off s d0 then d0 - 1 else d0)"
  have now: "now + off < (d0 + 1) * 86400" "d0 * 86400 \<le> now + off"
    using div_mult_mod_eq [of "now + off" 86400] pos_mod_sign [of 86400 "now + off"] pos_mod_bound [of 86400 "now + off"]
    by (simp_all add: d0_def algebra_simps)
  have tod: "0 \<le> sc_hour s * 3600 + sc_minute s * 60" "sc_hour s * 3600 + sc_minute s * 60 < 86400" using assms(2) by (auto simp: job_ranges_def)
  have le: "on_day off s d \<le> now" using now tod by (auto simp: d_def on_day_def)
  have last: "e \<le> d" if "on_day off s e \<le> now" for e
  proof -
    have "e * 86400 < (d0 + 1) * 86400" using that now(1) tod(1) by (simp add: on_day_def)
    then have "e \<le> d0" by simp
    then show ?thesis using that by (cases "e = d0") (auto simp: d_def)
  qed
  obtain tm where tm: "lt now = Some tm" "mk (at_time (sc_hour s) (sc_minute s) tm) = on_day off s d0"
    using zone_step [OF assms(1,2), of now] by (auto simp: d0_def)
  have c: "(let candidate = mk (at_time (sc_hour s) (sc_minute s) tm) in if now < candidate then candidate - 24 * 3600 else candidate) = on_day off s d"
    by (simp add: tm(2) d_def on_day_def)
  show ?thesis
  proof (cases "sc_kind s = SCHEDULE_WEEKLY")
    case False
    then have p: "prev_occurrence lt mk now s = on_day off s d" using tm(1) c by (simp add: prev_occurrence_def prev_wallclock_def Let_def)
    have "x \<le> on_day off s d" if "occurs_at off s x" "x \<le> now" for x
      using occurs_on_day [OF that(1)] last [of "(x + off) div 86400"] that(2) on_day_mono by metis
    then show ?thesis using False day le unfolding p occurs_at_def by blast
  next
    case True
    define w where "w = sc_weekday s"
    have w: "0 \<le> w" "w \<le> 6" using assms(2) by (simp_all add: w_def job_ranges_def)
    define k where "k = (LEAST k. (d - int k + 4) mod 7 = w)"
    obtain k' where k': "k' < 7" "(d - int k' + 4) mod 7 = w" using weekday_near [OF w] by blast
    have k: "(d - int k + 4) mod 7 = w" "k \<le> k'" "\<forall>j < k. (d - int j + 4) mod 7 \<noteq> w"
      unfolding k_def using LeastI [of "\<lambda>k. (d - int k + 4) mod 7 = w", OF k'(2)] Least_le [of "\<lambda>k. (d - int k + 4) mod 7 = w", OF k'(2)]
        not_less_Least by blast+
    have p: "prev_occurrence lt mk now s = on_day off s (d - int k)"
      using step_back [OF assms(1,2) _ k(1,3), of 8] k(2) k'(1) tm(1) c w(1) True
      by (simp add: prev_occurrence_def prev_wallclock_def Let_def w_def)
    have "x \<le> on_day off s (d - int k)" if x: "occurs_at off s x" "x \<le> now" for x
    proof -
      let ?e = "(x + off) div 86400"
      have e: "?e \<le> d" "(?e + 4) mod 7 = w" using last [of ?e] occurs_on_day [OF x(1)] x True by (auto simp: occurs_at_def w_def)
      have "?e \<le> d - int k"
      proof (rule ccontr)
        assume "\<not> ?e \<le> d - int k"
        then have "nat (d - ?e) < k" "d - int (nat (d - ?e)) = ?e" using e(1) by simp_all
        then show False using k(3) e(2) by metis
      qed
      then show ?thesis using occurs_on_day [OF x(1)] on_day_mono by metis
    qed
    moreover have "on_day off s (d - int k) \<le> now" using le on_day_mono [of "d - int k" d off s] by linarith
    ultimately show ?thesis using True day k(1) unfolding p occurs_at_def w_def by simp
  qed
qed

text \<open>
  C40. When a job with a time of day is due (\<open>scheduler_run_due\<close> with \<open>prev_wallclock\<close>), in a zone that keeps its offset
  to UTC and for a job with its fields in range: the job runs exactly when it is in use and enabled,
  some occurrence of its time of day, or of its time on its day of the week, has passed since its last
  run and its anchor, and this is not the first tick of the daemon or the job catches up; on the first
  tick of the daemon, a job that does not catch up skips exactly the latest such occurrence.
\<close>

theorem due_when_occurrence_passed:
  assumes "fixed_zone off lt mk" "job_ranges s" "sc_kind s \<noteq> SCHEDULE_EVERY"
  shows "(job_due lt mk now startup s = Run \<longleftrightarrow> sc_in_use s \<and> sc_enabled s \<and> (startup \<longrightarrow> sc_catch_up s) \<and>
      (\<exists>x. occurs_at off s x \<and> x \<le> now \<and> sc_last_run_at s < x \<and> sc_anchor_at s < x)) \<and>
    (job_due lt mk now startup s = Skip y \<longleftrightarrow> sc_in_use s \<and> sc_enabled s \<and> startup \<and> \<not> sc_catch_up s \<and>
      occurs_at off s y \<and> y \<le> now \<and> sc_last_run_at s < y \<and> sc_anchor_at s < y \<and>
      (\<forall>x. occurs_at off s x \<and> x \<le> now \<longrightarrow> x \<le> y))"
proof -
  let ?p = "prev_occurrence lt mk now s"
  note p = prev_occurrence_latest [OF assms, of now]
  have ex: "(\<exists>x. occurs_at off s x \<and> x \<le> now \<and> sc_last_run_at s < x \<and> sc_anchor_at s < x) \<longleftrightarrow> sc_last_run_at s < ?p \<and> sc_anchor_at s < ?p"
    using p by (meson less_le_trans)
  have "y = ?p \<longleftrightarrow> occurs_at off s y \<and> y \<le> now \<and> (\<forall>x. occurs_at off s x \<and> x \<le> now \<longrightarrow> x \<le> y)"
    using p by (meson order_antisym)
  then show ?thesis unfolding ex job_due_eq wants_run_def missed_def occurrence_open_def using assms(3) by auto
qed

text \<open>UTC, with the days counted through January 1970.\<close>

definition utc_localtime :: localtime where
  "utc_localtime t = Some \<lparr>tm_year = 70, tm_mon = 0, tm_mday = t div 86400 + 1, tm_hour = t mod 86400 div 3600,
     tm_min = t mod 3600 div 60, tm_sec = t mod 60, tm_wday = (t div 86400 + 4) mod 7, tm_isdst = 0\<rparr>"

definition utc_mktime :: mktime where
  "utc_mktime t = (tm_mday t - 1) * 86400 + tm_hour t * 3600 + tm_min t * 60 + tm_sec t"

lemma utc_fixed: "fixed_zone 0 utc_localtime utc_mktime"
  by (simp add: fixed_zone_def utc_localtime_def utc_mktime_def at_time_def)

text \<open>Mondays at 03:00, last accounted for on the 12th at half past two, judged at the start of the 13th.\<close>

definition monday_job :: schedule where
  "monday_job = blank_schedule\<lparr>sc_name := ''weekly'', sc_action := ''pkg.sync'', sc_kind := SCHEDULE_WEEKLY, sc_hour := 3,
     sc_weekday := 1, sc_enabled := True, sc_anchor_at := 959400, sc_in_use := True\<rparr>"

theorem due_when_occurrence_passed_witness:
  "job_due utc_localtime utc_mktime 1036800 False monday_job = Run \<and> job_due utc_localtime utc_mktime 1036800 True monday_job = Skip 961200"
proof -
  have r: "job_ranges monday_job" "sc_kind monday_job \<noteq> SCHEDULE_EVERY"
    by (simp_all add: job_ranges_def monday_job_def blank_schedule_def)
  note C = due_when_occurrence_passed [OF utc_fixed r, of 1036800]
  have o: "occurs_at 0 monday_job x \<longleftrightarrow> x mod 86400 = 10800 \<and> (x div 86400 + 4) mod 7 = 1" for x
    by (simp add: occurs_at_def monday_job_def blank_schedule_def)
  have f: "sc_in_use monday_job" "sc_enabled monday_job" "\<not> sc_catch_up monday_job" "sc_last_run_at monday_job = 0" "sc_anchor_at monday_job = 959400"
    by (simp_all add: monday_job_def blank_schedule_def)
  have "x \<le> 961200" if "x mod 86400 = 10800" "(x div 86400 + 4) mod 7 = 1" "x \<le> 1036800" for x :: int
  proof -
    have "x = x div 86400 * 86400 + 10800" using div_mult_mod_eq [of x 86400] that(1) by simp
    moreover have "x div 86400 \<le> 12" using zdiv_mono1 [OF that(3), of 86400] by simp
    moreover have "x div 86400 \<noteq> 12" using that(2) by auto
    ultimately show ?thesis by linarith
  qed
  then have "job_due utc_localtime utc_mktime 1036800 True monday_job = Skip 961200"
    using C [of True 961200] by (auto simp: o f)
  moreover have "job_due utc_localtime utc_mktime 1036800 False monday_job = Run"
    using C [of False 0] by (auto simp: o f intro!: exI [of _ 961200])
  ultimately show ?thesis by simp
qed

end
