(* ===== verification/Init_Table.thy ===== *)
theory Init_Table
  imports Json_Roundtrip Net_Addr
begin

text \<open>
  \<open>daemon/src/cixinit_table.c\<close> over the wire format of \<open>include/cixinit.h\<close>: the daemon's
  translation of the services a container declares into the table its first process reads.

  The character arrays of a record are lists of their full size, because the reader on the other
  side checks where they end; \<open>pad\<close> is a cleared array with a text at its start.  A dependency set
  is a 32-bit mask.  Errors are \<open>None\<close>; the texts of the messages are not modelled.
\<close>

section \<open>The wire format\<close>

definition CIXINIT_MAGIC :: int where "CIXINIT_MAGIC = 0x31584943"
definition CIXINIT_VERSION :: int where "CIXINIT_VERSION = 3"
definition CIXINIT_MAX_SERVICES :: nat where "CIXINIT_MAX_SERVICES = 16"
definition CIXINIT_MAX_ADDRS :: nat where "CIXINIT_MAX_ADDRS = 64"
definition CIXINIT_MAX_IFACES :: nat where "CIXINIT_MAX_IFACES = 16"
definition CIXINIT_NAME_MAX :: nat where "CIXINIT_NAME_MAX = 32"
definition CIXINIT_ARGV_MAX :: nat where "CIXINIT_ARGV_MAX = 1024"
definition CIXINIT_ARGC_MAX :: nat where "CIXINIT_ARGC_MAX = 32"
definition CIXINIT_PATH_MAX :: nat where "CIXINIT_PATH_MAX = 256"

definition CIXINIT_TYPE_ONESHOT :: int where "CIXINIT_TYPE_ONESHOT = 1"
definition CIXINIT_TYPE_DAEMON :: int where "CIXINIT_TYPE_DAEMON = 2"

definition CIXINIT_READY_NONE :: int where "CIXINIT_READY_NONE = 0"
definition CIXINIT_READY_TCP :: int where "CIXINIT_READY_TCP = 1"
definition CIXINIT_READY_SOCKET :: int where "CIXINIT_READY_SOCKET = 2"
definition CIXINIT_READY_COMMAND :: int where "CIXINIT_READY_COMMAND = 3"

definition CIXINIT_ON_EXIT_RESTART :: int where "CIXINIT_ON_EXIT_RESTART = 1"
definition CIXINIT_ON_EXIT_STOP :: int where "CIXINIT_ON_EXIT_STOP = 2"
definition CIXINIT_ON_EXIT_FAIL_CONTAINER :: int where "CIXINIT_ON_EXIT_FAIL_CONTAINER = 3"

lemmas cixinit_codes = CIXINIT_TYPE_ONESHOT_def CIXINIT_TYPE_DAEMON_def CIXINIT_READY_NONE_def CIXINIT_READY_TCP_def
  CIXINIT_READY_SOCKET_def CIXINIT_READY_COMMAND_def CIXINIT_ON_EXIT_RESTART_def CIXINIT_ON_EXIT_STOP_def
  CIXINIT_ON_EXIT_FAIL_CONTAINER_def

type_synonym mask = "32 word"

record cixinit_hello =
  he_magic :: int
  he_version :: int
  he_service_count :: int
  he_addr_be :: "ip list"
  he_iface :: "char list list"

record cixinit_service =
  ci_name :: "char list"
  ci_argv :: "char list"
  ci_type :: int
  ci_after_mask :: mask
  ci_ready_kind :: int
  ci_ready_port :: int
  ci_ready_timeout_seconds :: int
  ci_ready_path :: "char list"
  ci_on_exit :: int
  ci_restart_delay_seconds :: int
  ci_stop_signal :: int
  ci_stop_timeout_seconds :: int
  ci_uid :: int
  ci_gid :: int

record cixinit_table =
  ct_hello :: cixinit_hello
  ct_svc :: "cixinit_service list"
  ct_order :: "nat list"

text \<open>\<open>memset\<close> to zero, then a text at the start.\<close>

definition pad :: "nat \<Rightarrow> char list \<Rightarrow> char list" where
  "pad n s = s @ replicate (n - length s) NUL"

definition blank_service :: cixinit_service where
  "blank_service = \<lparr>ci_name = pad CIXINIT_NAME_MAX [], ci_argv = pad CIXINIT_ARGV_MAX [], ci_type = 0, ci_after_mask = 0,
     ci_ready_kind = 0, ci_ready_port = 0, ci_ready_timeout_seconds = 0, ci_ready_path = pad CIXINIT_PATH_MAX [], ci_on_exit = 0,
     ci_restart_delay_seconds = 0, ci_stop_signal = 0, ci_stop_timeout_seconds = 0, ci_uid = 0, ci_gid = 0\<rparr>"

section \<open>Names\<close>

definition DEFAULT_READY_TIMEOUT :: int where "DEFAULT_READY_TIMEOUT = 30"
definition DEFAULT_RESTART_DELAY :: int where "DEFAULT_RESTART_DELAY = 2"
definition DEFAULT_STOP_TIMEOUT :: int where "DEFAULT_STOP_TIMEOUT = 10"

definition SIGTERM :: int where "SIGTERM = 15"
definition SIGKILL :: int where "SIGKILL = 9"

definition g_signals :: "(string \<times> int) list" where
  "g_signals = [(''SIGTERM'', SIGTERM), (''SIGINT'', 2), (''SIGHUP'', 1), (''SIGQUIT'', 3), (''SIGUSR1'', 10), (''SIGUSR2'', 12),
     (''SIGKILL'', SIGKILL)]"

definition cixinit_signal_from_name :: "string option \<Rightarrow> int" where
  "cixinit_signal_from_name name =
     (case name of None \<Rightarrow> - 1
      | Some n \<Rightarrow>
          if take 3 n \<noteq> ''SIG'' then
            (case find (\<lambda>(s, v). drop 3 s = n) g_signals of None \<Rightarrow> - 1 | Some (s, v) \<Rightarrow> v)
          else (case find (\<lambda>(s, v). s = n) g_signals of None \<Rightarrow> - 1 | Some (s, v) \<Rightarrow> v))"

definition cixinit_signal_name :: "int \<Rightarrow> string" where
  "cixinit_signal_name sig = (case find (\<lambda>(s, v). v = sig) g_signals of None \<Rightarrow> ''?'' | Some (s, v) \<Rightarrow> s)"

definition cixinit_type_name :: "int \<Rightarrow> string" where
  "cixinit_type_name t = (if t = CIXINIT_TYPE_ONESHOT then ''oneshot'' else ''daemon'')"

definition cixinit_on_exit_name :: "int \<Rightarrow> string" where
  "cixinit_on_exit_name e =
     (if e = CIXINIT_ON_EXIT_RESTART then ''restart'' else if e = CIXINIT_ON_EXIT_STOP then ''stop''
      else if e = CIXINIT_ON_EXIT_FAIL_CONTAINER then ''fail-container'' else ''?'')"

text \<open>The letters and digits of \<open>isalnum\<close> in the C locale, \<open>_\<close> and \<open>-\<close>.\<close>

definition name_ok :: "string option \<Rightarrow> bool" where
  "name_ok name =
     (case name of None \<Rightarrow> False | Some n \<Rightarrow> n \<noteq> [] \<and> length n < CIXINIT_NAME_MAX \<and> list_all name_char n)"

section \<open>Packed argument vectors\<close>

text \<open>The loop: \<open>acc\<close> is what was written so far, its length the offset.\<close>

fun pack_strings :: "nat \<Rightarrow> json list \<Rightarrow> char list \<Rightarrow> char list option" where
  "pack_strings cap [] acc = Some acc"
| "pack_strings cap (j # js) acc =
     (case json_as_string (Some j) of None \<Rightarrow> None
      | Some s \<Rightarrow>
          if acc = [] \<and> s = [] then None
          else if cap < length acc + (length s + 1) + 1 then None
          else pack_strings cap js (acc @ s @ [NUL]))"

definition pack_argv :: "json option \<Rightarrow> nat \<Rightarrow> char list option" where
  "pack_argv jarr cap =
     (case jarr of
        Some (JArray js) \<Rightarrow>
          if js = [] \<or> CIXINIT_ARGC_MAX < length js then None else map_option (pad cap) (pack_strings cap js [])
      | _ \<Rightarrow> None)"

fun pack_cstrs :: "nat \<Rightarrow> nat \<Rightarrow> string list \<Rightarrow> char list \<Rightarrow> char list option" where
  "pack_cstrs cap i [] acc = (if 0 < i then Some acc else None)"
| "pack_cstrs cap i (s # ss) acc =
     (if CIXINIT_ARGC_MAX \<le> i \<or> cap < length acc + (length s + 1) + 1 then None
      else pack_cstrs cap (Suc i) ss (acc @ s @ [NUL]))"

definition pack_cstr_argv :: "nat \<Rightarrow> string list \<Rightarrow> char list option" where
  "pack_cstr_argv cap argv = map_option (pad cap) (pack_cstrs cap 0 argv [])"

section \<open>One service\<close>

text \<open>Comparisons of a \<open>double\<close> with an \<open>int\<close>.\<close>

fun d_less :: "double \<Rightarrow> int \<Rightarrow> bool" where
  "d_less (DFin r) i = (r < of_int i)"
| "d_less (DInf neg) i = neg"

fun d_greater :: "double \<Rightarrow> int \<Rightarrow> bool" where
  "d_greater (DFin r) i = (of_int i < r)"
| "d_greater (DInf neg) i = (\<not> neg)"

definition int_field :: "json option \<Rightarrow> string \<Rightarrow> int \<Rightarrow> int \<Rightarrow> int \<Rightarrow> int option" where
  "int_field obj key lo hi dflt =
     (case json_object_get obj key of
        None \<Rightarrow> Some dflt
      | Some (JNumber v) \<Rightarrow> if d_less v lo \<or> d_greater v hi \<or> v \<noteq> ll2d (d2i v) then None else Some (d2i v)
      | _ \<Rightarrow> None)"

fun after_names :: "string \<Rightarrow> json list \<Rightarrow> string list option" where
  "after_names name [] = Some []"
| "after_names name (j # js) =
     (let dep = json_as_string (Some j) in
      if \<not> name_ok dep then None
      else if the dep = name then None
      else map_option (\<lambda>ds. snprintf_s CIXINIT_NAME_MAX (the dep) # ds) (after_names name js))"

definition parse_after :: "string \<Rightarrow> json option \<Rightarrow> string list option" where
  "parse_after name jafter =
     (case jafter of None \<Rightarrow> Some []
      | Some (JArray js) \<Rightarrow> if CIXINIT_MAX_SERVICES < length js then None else after_names name js
      | _ \<Rightarrow> None)"

definition parse_ready :: "json option \<Rightarrow> cixinit_service \<Rightarrow> cixinit_service option" where
  "parse_ready jready s =
     (case jready of
        None \<Rightarrow> Some (s\<lparr>ci_ready_timeout_seconds := DEFAULT_READY_TIMEOUT\<rparr>)
      | Some (JObject ms) \<Rightarrow>
          let jport = json_object_get jready ''tcp_port''; jsock = json_object_get jready ''socket'';
              jcmd = json_object_get jready ''command''
          in if length (filter (\<lambda>v. v \<noteq> None) [jport, jsock, jcmd]) \<noteq> 1 then None
             else do {
               s \<leftarrow> (if jport \<noteq> None then
                       do { v \<leftarrow> int_field jready ''tcp_port'' 1 65535 0;
                            Some (s\<lparr>ci_ready_kind := CIXINIT_READY_TCP, ci_ready_port := v\<rparr>) }
                     else if jsock \<noteq> None then
                       (case json_as_string jsock of None \<Rightarrow> None
                        | Some path \<Rightarrow>
                            if path = [] \<or> hd path \<noteq> CHR ''/'' \<or> CIXINIT_PATH_MAX \<le> length path then None
                            else Some (s\<lparr>ci_ready_kind := CIXINIT_READY_SOCKET,
                                         ci_ready_path := pad CIXINIT_PATH_MAX (snprintf_s CIXINIT_PATH_MAX path)\<rparr>))
                     else
                       do { packed \<leftarrow> pack_argv jcmd CIXINIT_PATH_MAX;
                            Some (s\<lparr>ci_ready_path := packed, ci_ready_kind := CIXINIT_READY_COMMAND\<rparr>) });
               v \<leftarrow> int_field jready ''timeout_seconds'' 1 300 DEFAULT_READY_TIMEOUT;
               Some (s\<lparr>ci_ready_timeout_seconds := v\<rparr>) }
      | _ \<Rightarrow> None)"

definition parse_type :: "string option \<Rightarrow> int option" where
  "parse_type t =
     (if t = None \<or> t = Some ''daemon'' then Some CIXINIT_TYPE_DAEMON
      else if t = Some ''oneshot'' then Some CIXINIT_TYPE_ONESHOT else None)"

definition parse_on_exit :: "string option \<Rightarrow> int \<Rightarrow> int option" where
  "parse_on_exit e type =
     (case e of
        None \<Rightarrow> Some (if type = CIXINIT_TYPE_ONESHOT then CIXINIT_ON_EXIT_FAIL_CONTAINER else CIXINIT_ON_EXIT_RESTART)
      | Some t \<Rightarrow>
          if t = ''restart'' then Some CIXINIT_ON_EXIT_RESTART
          else if t = ''stop'' then Some CIXINIT_ON_EXIT_STOP
          else if t = ''fail-container'' then Some CIXINIT_ON_EXIT_FAIL_CONTAINER else None)"

definition parse_stop_signal :: "string option \<Rightarrow> int option" where
  "parse_stop_signal t =
     (case t of None \<Rightarrow> Some SIGTERM
      | _ \<Rightarrow> if cixinit_signal_from_name t < 0 then None else Some (cixinit_signal_from_name t))"

definition parse_one :: "json \<Rightarrow> (cixinit_service \<times> string list) option" where
  "parse_one item =
     (let get = json_object_get (Some item); name = json_as_string (get ''name'') in
      case item of
        JObject ms \<Rightarrow>
          if \<not> name_ok name then None
          else do {
            let s = blank_service\<lparr>ci_name := pad CIXINIT_NAME_MAX (snprintf_s CIXINIT_NAME_MAX (the name))\<rparr>;
            type \<leftarrow> parse_type (json_as_string (get ''type''));
            argv \<leftarrow> pack_argv (get ''cmd'') CIXINIT_ARGV_MAX;
            after \<leftarrow> parse_after (the name) (get ''after'');
            s \<leftarrow> parse_ready (get ''ready'') (s\<lparr>ci_type := type, ci_argv := argv, ci_ready_kind := CIXINIT_READY_NONE\<rparr>);
            on_exit \<leftarrow> parse_on_exit (json_as_string (get ''on_exit'')) type;
            if type = CIXINIT_TYPE_ONESHOT \<and> on_exit = CIXINIT_ON_EXIT_RESTART then None
            else do {
              delay \<leftarrow> int_field (Some item) ''restart_delay_seconds'' 1 300 DEFAULT_RESTART_DELAY;
              sig \<leftarrow> parse_stop_signal (json_as_string (get ''stop_signal''));
              timeout \<leftarrow> int_field (Some item) ''stop_timeout_seconds'' 1 300 DEFAULT_STOP_TIMEOUT;
              uid \<leftarrow> int_field (Some item) ''uid'' 0 2147483647 (- 1);
              gid \<leftarrow> int_field (Some item) ''gid'' 0 2147483647 (- 1);
              Some (s\<lparr>ci_on_exit := on_exit, ci_restart_delay_seconds := delay, ci_stop_signal := sig,
                      ci_stop_timeout_seconds := timeout, ci_uid := uid, ci_gid := gid\<rparr>, after) } }
      | _ \<Rightarrow> None)"

section \<open>The table\<close>

text \<open>Every service parsed, in body order, with no name twice.\<close>

fun parse_all :: "json list \<Rightarrow> (cixinit_service \<times> string list) list \<Rightarrow> (cixinit_service \<times> string list) list option" where
  "parse_all [] parsed = Some parsed"
| "parse_all (j # js) parsed =
     (case parse_one j of None \<Rightarrow> None
      | Some (s, after) \<Rightarrow>
          if (\<exists>p \<in> set parsed. c_str (ci_name (fst p)) = c_str (ci_name s)) then None
          else parse_all js (parsed @ [(s, after)]))"

text \<open>The last service of a name, as the loop that sets \<open>found\<close> leaves it.\<close>

definition find_name :: "cixinit_service list \<Rightarrow> string \<Rightarrow> nat option" where
  "find_name svcs name =
     (case filter (\<lambda>k. c_str (ci_name (svcs ! k)) = name) [0..<length svcs] of [] \<Rightarrow> None | k # ks \<Rightarrow> Some (last (k # ks)))"

fun resolve_after :: "cixinit_service list \<Rightarrow> string list \<Rightarrow> mask \<Rightarrow> mask option" where
  "resolve_after svcs [] m = Some m"
| "resolve_after svcs (a # as) m =
     (case find_name svcs a of None \<Rightarrow> None | Some k \<Rightarrow> resolve_after svcs as (m OR push_bit k 1))"

definition mask_of :: "nat list \<Rightarrow> mask" where
  "mask_of ks = foldl (\<lambda>m k. m OR push_bit k 1) 0 ks"

text \<open>The next service whose dependencies are all placed; \<open>ord\<close> holds those placed so far.\<close>

definition pick_next :: "mask list \<Rightarrow> nat list \<Rightarrow> nat option" where
  "pick_next deps ord =
     find (\<lambda>i. i \<notin> set ord \<and> (deps ! i) AND NOT (mask_of (filter (\<lambda>k. k \<in> set ord) [0..<length deps])) = 0) [0..<length deps]"

function place_all :: "mask list \<Rightarrow> nat list \<Rightarrow> nat list option" where
  "place_all deps ord =
     (if length deps \<le> length ord then Some ord
      else case pick_next deps ord of None \<Rightarrow> None | Some i \<Rightarrow> place_all deps (ord @ [i]))"
  by pat_completeness auto
termination
  by (relation "measure (\<lambda>(deps, ord). length deps - length ord)") auto

declare place_all.simps [simp del]

definition body_to_table :: "nat list \<Rightarrow> nat \<Rightarrow> nat" where
  "body_to_table ord k = length (takeWhile (\<lambda>x. x \<noteq> k) ord)"

definition table_mask :: "mask list \<Rightarrow> nat list \<Rightarrow> nat \<Rightarrow> mask" where
  "table_mask deps ord body =
     mask_of (map (\<lambda>k. body_to_table ord k) (filter (\<lambda>k. (deps ! body) AND push_bit k 1 \<noteq> 0) [0..<length deps]))"

definition table_hello :: "nat \<Rightarrow> ip list \<Rightarrow> string list \<Rightarrow> cixinit_hello option" where
  "table_hello count addrs ifaces =
     (if CIXINIT_MAX_ADDRS < length addrs then None
      else if CIXINIT_MAX_IFACES < length ifaces then None
      else Some \<lparr>he_magic = CIXINIT_MAGIC, he_version = CIXINIT_VERSION, he_service_count = int count, he_addr_be = addrs,
             he_iface = map (\<lambda>i. pad CIXINIT_NAME_MAX (snprintf_s CIXINIT_NAME_MAX i)) ifaces\<rparr>)"

definition cixinit_table_from_json :: "json option \<Rightarrow> ip list \<Rightarrow> string list \<Rightarrow> cixinit_table option" where
  "cixinit_table_from_json jservices addrs ifaces =
     (case jservices of
        Some (JArray js) \<Rightarrow>
          if js = [] \<or> CIXINIT_MAX_SERVICES < length js then None
          else do {
            parsed \<leftarrow> parse_all js [];
            let svcs = map fst parsed;
            deps \<leftarrow> those (map (\<lambda>p. resolve_after svcs (snd p) 0) parsed);
            ord \<leftarrow> place_all deps [];
            hello \<leftarrow> table_hello (length ord) addrs ifaces;
            Some \<lparr>ct_hello = hello, ct_svc = map (\<lambda>i. (svcs ! i)\<lparr>ci_after_mask := table_mask deps ord i\<rparr>) ord, ct_order = ord\<rparr> }
      | _ \<Rightarrow> None)"

definition cixinit_table_single :: "string option \<Rightarrow> string list \<Rightarrow> int \<Rightarrow> int \<Rightarrow> cixinit_table option" where
  "cixinit_table_single name argv type on_exit =
     (if \<not> name_ok name \<or> argv = [] then None
      else do {
        packed \<leftarrow> pack_cstr_argv CIXINIT_ARGV_MAX argv;
        Some \<lparr>ct_hello = \<lparr>he_magic = CIXINIT_MAGIC, he_version = CIXINIT_VERSION, he_service_count = 1, he_addr_be = [], he_iface = []\<rparr>,
              ct_svc = [blank_service\<lparr>ci_name := pad CIXINIT_NAME_MAX (snprintf_s CIXINIT_NAME_MAX (the name)), ci_argv := packed,
                ci_type := type, ci_ready_kind := CIXINIT_READY_NONE, ci_ready_timeout_seconds := DEFAULT_READY_TIMEOUT,
                ci_on_exit := on_exit, ci_restart_delay_seconds := DEFAULT_RESTART_DELAY, ci_stop_signal := SIGTERM,
                ci_stop_timeout_seconds := DEFAULT_STOP_TIMEOUT, ci_uid := - 1, ci_gid := - 1\<rparr>],
              ct_order = [0]\<rparr> })"

definition cixinit_table_index :: "cixinit_table \<Rightarrow> string option \<Rightarrow> int" where
  "cixinit_table_index t name =
     (case name of None \<Rightarrow> - 1
      | Some n \<Rightarrow> (case find_index (\<lambda>s. c_str (ci_name s) = n) (ct_svc t) of None \<Rightarrow> - 1 | Some i \<Rightarrow> int i))"

text \<open>The messages \<open>cixinit_table_send\<close> writes, until one is not taken whole.\<close>

datatype ctl_message = CtlHello cixinit_hello | CtlService cixinit_service

definition cixinit_table_send :: "(nat \<Rightarrow> bool) \<Rightarrow> cixinit_table \<Rightarrow> ctl_message list \<times> int" where
  "cixinit_table_send taken t =
     (let msgs = CtlHello (ct_hello t) # map CtlService (ct_svc t) in
      case find_index (\<lambda>n. \<not> taken n) [0..<length msgs] of None \<Rightarrow> (msgs, 0) | Some n \<Rightarrow> (take n msgs, - 1))"

end
