(* ===== verification/Cix_Init.thy ===== *)
theory Cix_Init
  imports Init_Table
begin

text \<open>
  \<open>init/src/cix_init.c\<close>, the first process of every container: it reads the service table, starts
  services in dependency order, probes them, restarts and stops them, and reports to the daemon.

  The globals of the program are the record \<open>cix_init\<close>.  System calls are the environment of one
  turn of the loop, \<open>turn_env\<close>: the clock, the results of the repeated calls (\<open>wait4\<close>, \<open>read\<close> on the
  control socket, \<open>write\<close> on the report socket) as lists, and for each service what a call made on
  its behalf returns; one turn makes each such call at most once per service.  What the process does
  to the outside (signals, closed descriptors, connections, reports written) is appended to
  \<open>g_calls\<close>.  Times are milliseconds, C's \<open>long\<close>, as \<open>int\<close>.  The lines on standard error are not modelled.
\<close>

unbundle bit_operations_syntax

section \<open>Commands, reports and codes\<close>

record cixinit_command =
  cm_magic :: int
  cm_op :: int
  cm_service :: int

record cixinit_report =
  rp_service :: int
  rp_event :: int
  rp_a :: int
  rp_b :: int

definition CIXINIT_OP_START :: int where "CIXINIT_OP_START = 1"
definition CIXINIT_OP_STOP :: int where "CIXINIT_OP_STOP = 2"
definition CIXINIT_OP_RESTART :: int where "CIXINIT_OP_RESTART = 3"
definition CIXINIT_OP_SHUTDOWN :: int where "CIXINIT_OP_SHUTDOWN = 4"

definition CIXINIT_EV_UP :: int where "CIXINIT_EV_UP = 1"
definition CIXINIT_EV_STARTING :: int where "CIXINIT_EV_STARTING = 2"
definition CIXINIT_EV_STARTED :: int where "CIXINIT_EV_STARTED = 3"
definition CIXINIT_EV_READY :: int where "CIXINIT_EV_READY = 4"
definition CIXINIT_EV_EXITED :: int where "CIXINIT_EV_EXITED = 5"
definition CIXINIT_EV_RESTART_IN :: int where "CIXINIT_EV_RESTART_IN = 6"
definition CIXINIT_EV_STOPPED :: int where "CIXINIT_EV_STOPPED = 7"
definition CIXINIT_EV_FAILED :: int where "CIXINIT_EV_FAILED = 8"
definition CIXINIT_EV_SHUTDOWN :: int where "CIXINIT_EV_SHUTDOWN = 9"

definition CIXINIT_EXIT_KIND_EXITED :: int where "CIXINIT_EXIT_KIND_EXITED = 1"
definition CIXINIT_EXIT_KIND_KILLED :: int where "CIXINIT_EXIT_KIND_KILLED = 2"
definition CIXINIT_EXIT_KIND_DUMPED :: int where "CIXINIT_EXIT_KIND_DUMPED = 3"

definition CIXINIT_FAIL_PROBE :: int where "CIXINIT_FAIL_PROBE = 1"
definition CIXINIT_FAIL_ONESHOT :: int where "CIXINIT_FAIL_ONESHOT = 2"
definition CIXINIT_FAIL_SPAWN :: int where "CIXINIT_FAIL_SPAWN = 3"
definition CIXINIT_FAIL_DEPENDENCY :: int where "CIXINIT_FAIL_DEPENDENCY = 4"

lemmas cixinit_events = CIXINIT_EV_UP_def CIXINIT_EV_STARTING_def CIXINIT_EV_STARTED_def CIXINIT_EV_READY_def
  CIXINIT_EV_EXITED_def CIXINIT_EV_RESTART_IN_def CIXINIT_EV_STOPPED_def CIXINIT_EV_FAILED_def CIXINIT_EV_SHUTDOWN_def

lemmas cixinit_reasons = CIXINIT_FAIL_PROBE_def CIXINIT_FAIL_ONESHOT_def CIXINIT_FAIL_SPAWN_def CIXINIT_FAIL_DEPENDENCY_def

lemmas cixinit_ops = CIXINIT_OP_START_def CIXINIT_OP_STOP_def CIXINIT_OP_RESTART_def CIXINIT_OP_SHUTDOWN_def

lemmas cixinit_kinds = CIXINIT_EXIT_KIND_EXITED_def CIXINIT_EXIT_KIND_KILLED_def CIXINIT_EXIT_KIND_DUMPED_def

definition EINTR :: int where "EINTR = 4"
definition EAGAIN :: int where "EAGAIN = 11"
definition EINPROGRESS :: int where "EINPROGRESS = 115"
definition POLLOUT :: int where "POLLOUT = 4"
definition POLLERR :: int where "POLLERR = 8"
definition POLLHUP :: int where "POLLHUP = 16"
definition POLLNVAL :: int where "POLLNVAL = 32"
definition PENDING_MAX :: nat where "PENDING_MAX = 256"
definition SIZEOF_RECORD :: int where "SIZEOF_RECORD = 16"
definition SUN_PATH_MAX :: nat where "SUN_PATH_MAX = 108"

section \<open>State\<close>

datatype svc_state = ST_PENDING | ST_STARTING | ST_READY | ST_EXITED | ST_RESTART_WAIT | ST_STOPPED | ST_FAILED

record svc =
  sv_def :: cixinit_service
  sv_state :: svc_state
  sv_pid :: int
  sv_out_fd :: int
  sv_probe_deadline :: int
  sv_probe_pid :: int
  sv_probe_pid_deadline :: int
  sv_probe_fd :: int
  sv_probe_addr_idx :: int
  sv_restart_at :: int
  sv_stop_sent_at :: int
  sv_killed :: bool
  sv_operator_stopped :: bool
  sv_restart_after_stop :: bool
  sv_exit_kind :: int
  sv_exit_value :: int
  sv_restarts :: int

datatype sys_call =
    Kill int int
  | CloseFd int
  | ConnectTcp int mask int
  | ConnectUnix int string
  | Sent cixinit_report

record cix_init =
  g_svc :: "svc list"
  g_addr_be :: "mask list"
  g_iface :: "char list list"
  g_control_fd :: int
  g_report_fd :: int
  g_shutting_down :: bool
  g_exit_code :: int
  g_pending :: "cixinit_report list"
  g_pending_head :: nat
  g_pending_count :: nat
  g_pending_dropped :: nat
  g_calls :: "sys_call list"
  g_exited :: "int option"

record turn_env =
  te_now :: int
  te_wait :: "(int \<times> int) list"
  te_sigterm :: bool
  te_read :: "(int \<times> cixinit_command) list"
  te_fork :: "nat \<Rightarrow> int"
  te_clock :: "nat \<Rightarrow> int"
  te_socket :: "nat \<Rightarrow> int"
  te_connect :: "nat \<Rightarrow> int"
  te_poll :: "nat \<Rightarrow> int \<times> int"
  te_soerr :: "nat \<Rightarrow> int \<times> int"
  te_write :: "int list"

definition upd_svc :: "nat \<Rightarrow> (svc \<Rightarrow> svc) \<Rightarrow> cix_init \<Rightarrow> cix_init" where
  "upd_svc i f s = s\<lparr>g_svc := (g_svc s)[i := f (g_svc s ! i)]\<rparr>"

definition call :: "sys_call \<Rightarrow> cix_init \<Rightarrow> cix_init" where
  "call c s = s\<lparr>g_calls := g_calls s @ [c]\<rparr>"

section \<open>Reports\<close>

definition report :: "int \<Rightarrow> int \<Rightarrow> int \<Rightarrow> int \<Rightarrow> cix_init \<Rightarrow> cix_init" where
  "report service event a b s0 =
     (let r = \<lparr>rp_service = service, rp_event = event, rp_a = a, rp_b = b\<rparr>;
          s = (if g_pending_count s0 = PENDING_MAX
               then s0\<lparr>g_pending_head := (g_pending_head s0 + 1) mod PENDING_MAX,
                       g_pending_count := g_pending_count s0 - 1, g_pending_dropped := g_pending_dropped s0 + 1\<rparr>
               else s0);
          slot = (g_pending_head s + g_pending_count s) mod PENDING_MAX
      in s\<lparr>g_pending := (g_pending s)[slot := r], g_pending_count := g_pending_count s + 1\<rparr>)"

fun report_flush :: "int list \<Rightarrow> cix_init \<Rightarrow> cix_init" where
  "report_flush [] s = s"
| "report_flush (n # ns) s =
     (if 0 < g_pending_count s \<and> 0 \<le> g_report_fd s then
        let r = g_pending s ! g_pending_head s in
        if n = SIZEOF_RECORD then
          report_flush ns (call (Sent r) (s\<lparr>g_pending_head := (g_pending_head s + 1) mod PENDING_MAX,
                                            g_pending_count := g_pending_count s - 1\<rparr>))
        else if n = - EINTR then report_flush ns s
        else s
      else s)"

section \<open>Reading the table\<close>

definition str_ok :: "char list \<Rightarrow> nat \<Rightarrow> bool" where
  "str_ok s cap = (case find_index (\<lambda>c. c = NUL) (take cap s) of None \<Rightarrow> False | Some i \<Rightarrow> 0 < i)"

lemma length_tl_dropWhile: "dropWhile P xs \<noteq> [] \<Longrightarrow> length (tl (dropWhile P xs)) < length xs"
  using length_dropWhile_le [of P xs] by (cases "dropWhile P xs") auto

function argv_count_from :: "char list \<Rightarrow> nat \<Rightarrow> int" where
  "argv_count_from rest argc =
     (let r = dropWhile (\<lambda>c. c \<noteq> NUL) rest in
      if r = [] then - 1
      else if hd rest = NUL then int argc
      else if CIXINIT_ARGC_MAX < argc + 1 then - 1
      else argv_count_from (tl r) (argc + 1))"
  by pat_completeness auto
termination
  by (relation "measure (\<lambda>(rest, argc). length rest)") (simp, use length_tl_dropWhile in \<open>simp only: in_measure case_prod_conv\<close>)

declare argv_count_from.simps [simp del]

definition argv_count :: "char list \<Rightarrow> nat \<Rightarrow> int" where
  "argv_count buf cap = argv_count_from (take cap buf) 0"

fun argv_unpack :: "char list \<Rightarrow> nat \<Rightarrow> string list" where
  "argv_unpack p 0 = []"
| "argv_unpack p (Suc k) =
     (if p = [] \<or> hd p = NUL then [] else c_str p # argv_unpack (drop (length (c_str p) + 1) p) k)"

definition validate_service :: "nat \<Rightarrow> cixinit_service \<Rightarrow> bool" where
  "validate_service idx d =
     (str_ok (ci_name d) CIXINIT_NAME_MAX \<and>
      \<not> argv_count (ci_argv d) CIXINIT_ARGV_MAX < 1 \<and>
      \<not> (ci_type d \<noteq> CIXINIT_TYPE_ONESHOT \<and> ci_type d \<noteq> CIXINIT_TYPE_DAEMON) \<and>
      \<not> drop_bit idx (ci_after_mask d) \<noteq> 0 \<and>
      \<not> (ci_ready_kind d < CIXINIT_READY_NONE \<or> CIXINIT_READY_COMMAND < ci_ready_kind d) \<and>
      \<not> (ci_ready_kind d = CIXINIT_READY_SOCKET \<and> \<not> str_ok (ci_ready_path d) CIXINIT_PATH_MAX) \<and>
      \<not> (ci_ready_kind d = CIXINIT_READY_COMMAND \<and> argv_count (ci_ready_path d) CIXINIT_PATH_MAX < 1) \<and>
      \<not> (ci_on_exit d < CIXINIT_ON_EXIT_RESTART \<or> CIXINIT_ON_EXIT_FAIL_CONTAINER < ci_on_exit d) \<and>
      \<not> (ci_stop_signal d < 1 \<or> 64 < ci_stop_signal d))"

definition fresh_svc :: "cixinit_service \<Rightarrow> svc" where
  "fresh_svc d = \<lparr>sv_def = d, sv_state = ST_PENDING, sv_pid = 0, sv_out_fd = 0, sv_probe_deadline = 0, sv_probe_pid = 0,
     sv_probe_pid_deadline = 0, sv_probe_fd = - 1, sv_probe_addr_idx = 0, sv_restart_at = 0, sv_stop_sent_at = 0,
     sv_killed = False, sv_operator_stopped = False, sv_restart_after_stop = False, sv_exit_kind = 0, sv_exit_value = 0,
     sv_restarts = 0\<rparr>"

fun read_services :: "nat \<Rightarrow> nat \<Rightarrow> ctl_message list \<Rightarrow> svc list option" where
  "read_services 0 i ms = Some []"
| "read_services (Suc n) i (CtlService d # ms) =
     (if validate_service i d then map_option (\<lambda>svcs. fresh_svc d # svcs) (read_services n (Suc i) ms) else None)"
| "read_services (Suc n) i ms = None"

text \<open>\<open>None\<close> is \<open>die\<close>, an exit with \<open>CIXINIT_EXIT_BAD_TABLE\<close>; a message that does not arrive is the end of the list.\<close>

definition read_table :: "ctl_message list \<Rightarrow> (svc list \<times> mask list \<times> char list list) option" where
  "read_table ms =
     (case ms of
        CtlHello hello # rest \<Rightarrow>
          if he_magic hello \<noteq> CIXINIT_MAGIC then None
          else if he_version hello \<noteq> CIXINIT_VERSION then None
          else if he_service_count hello < 1 \<or> int CIXINIT_MAX_SERVICES < he_service_count hello then None
          else if CIXINIT_MAX_ADDRS < length (he_addr_be hello) then None
          else if CIXINIT_MAX_IFACES < length (he_iface hello) then None
          else if \<not> list_all (\<lambda>n. str_ok n CIXINIT_NAME_MAX) (he_iface hello) then None
          else map_option (\<lambda>svcs. (svcs, he_addr_be hello, he_iface hello)) (read_services (nat (he_service_count hello)) 0 rest)
      | _ \<Rightarrow> None)"

section \<open>Starting a service\<close>

definition probe_fd_release :: "nat \<Rightarrow> cix_init \<Rightarrow> cix_init" where
  "probe_fd_release i s =
     (if 0 \<le> sv_probe_fd (g_svc s ! i)
      then upd_svc i (\<lambda>v. v\<lparr>sv_probe_fd := - 1\<rparr>) (call (CloseFd (sv_probe_fd (g_svc s ! i))) s) else s)"

text \<open>The child's side of the fork: what it becomes, given what the kernel answers.\<close>

record child_env =
  ce_setgroups :: int
  ce_setgid :: int
  ce_setuid :: int
  ce_execve :: "int option"

datatype child_end = Becomes "string list" | ChildExit int

definition child_exec :: "child_env \<Rightarrow> svc \<Rightarrow> child_end" where
  "child_exec ce s =
     (if 0 \<le> ci_gid (sv_def s) \<and> (ce_setgroups ce \<noteq> 0 \<or> ce_setgid ce \<noteq> 0) then ChildExit 126
      else if 0 \<le> ci_uid (sv_def s) \<and> ce_setuid ce \<noteq> 0 then ChildExit 126
      else case ce_execve ce of
        None \<Rightarrow> Becomes (argv_unpack (ci_argv (sv_def s)) CIXINIT_ARGC_MAX)
      | Some rc \<Rightarrow> if rc < 0 \<and> - rc \<le> 115 then ChildExit (140 + (- rc)) else ChildExit 127)"

text \<open>The parent's side, from the new process to the report of it.\<close>

definition spawned :: "turn_env \<Rightarrow> nat \<Rightarrow> int \<Rightarrow> cix_init \<Rightarrow> cix_init" where
  "spawned env idx pid s0 =
     (let s = upd_svc idx (\<lambda>v. v\<lparr>sv_pid := pid, sv_state := ST_STARTING, sv_stop_sent_at := 0, sv_killed := False,
                sv_probe_pid := 0, sv_probe_addr_idx := 0\<rparr>) s0;
          s = probe_fd_release idx s;
          s = upd_svc idx (\<lambda>v. v\<lparr>sv_probe_deadline := te_clock env idx +
                (if 0 < ci_ready_timeout_seconds (sv_def v) then ci_ready_timeout_seconds (sv_def v) else 30) * 1000\<rparr>) s
      in report (int idx) CIXINIT_EV_STARTED pid 0 s)"

definition start_service :: "turn_env \<Rightarrow> nat \<Rightarrow> cix_init \<Rightarrow> cix_init" where
  "start_service env idx s0 =
     (let s = report (int idx) CIXINIT_EV_STARTING 0 0 s0; pid = te_fork env idx in
      if pid < 0 then
        report (int idx) CIXINIT_EV_FAILED CIXINIT_FAIL_SPAWN pid
          ((upd_svc idx (\<lambda>v. v\<lparr>sv_state := ST_FAILED, sv_exit_kind := CIXINIT_EXIT_KIND_EXITED, sv_exit_value := 126\<rparr>) s)
             \<lparr>g_exit_code := 126\<rparr>)
      else
        let s = spawned env idx pid s
        in if ci_ready_kind (sv_def (g_svc s ! idx)) = CIXINIT_READY_NONE
           then report (int idx) CIXINIT_EV_READY 0 0 (upd_svc idx (\<lambda>v. v\<lparr>sv_state := ST_READY\<rparr>) s)
           else s)"

section \<open>Readiness probes\<close>

definition probe_connect_unix :: "turn_env \<Rightarrow> nat \<Rightarrow> string \<Rightarrow> cix_init \<Rightarrow> bool \<times> cix_init" where
  "probe_connect_unix env i path s =
     (let fd = te_socket env i in
      if fd < 0 then (False, s)
      else (te_connect env i = 0, call (CloseFd fd) (call (ConnectUnix fd path) s)))"

text \<open>The part of \<open>probe_tcp\<close> that asks whether the connect in flight has ended.\<close>

definition probe_tcp_poll :: "turn_env \<Rightarrow> nat \<Rightarrow> cix_init \<Rightarrow> bool \<times> cix_init" where
  "probe_tcp_poll env i s =
     (let (rc, revents) = te_poll env i in
      if rc \<le> 0 then (False, s)
      else if revents AND (POLLERR OR POLLHUP OR POLLNVAL) \<noteq> 0 then (False, probe_fd_release i s)
      else if revents AND POLLOUT = 0 then (False, s)
      else let (grc, soerr) = te_soerr env i in
        if grc \<noteq> 0 \<or> soerr \<noteq> 0 then (False, probe_fd_release i s)
        else (True, probe_fd_release i s))"

definition probe_tcp :: "turn_env \<Rightarrow> nat \<Rightarrow> mask \<Rightarrow> int \<Rightarrow> cix_init \<Rightarrow> bool \<times> cix_init" where
  "probe_tcp env i addr port s =
     (if sv_probe_fd (g_svc s ! i) < 0 then
        let fd = te_socket env i in
        if fd < 0 then (False, s)
        else
          let s = call (ConnectTcp fd addr port) s; rc = te_connect env i in
          if rc = 0 then (True, call (CloseFd fd) s)
          else if rc \<noteq> - EINPROGRESS then (False, call (CloseFd fd) s)
          else probe_tcp_poll env i (upd_svc i (\<lambda>v. v\<lparr>sv_probe_fd := fd\<rparr>) s)
      else probe_tcp_poll env i s)"

definition probe_command_spawn :: "turn_env \<Rightarrow> nat \<Rightarrow> cix_init \<Rightarrow> cix_init" where
  "probe_command_spawn env i s =
     (let pid = te_fork env i in
      if pid < 0 then s
      else upd_svc i (\<lambda>v. v\<lparr>sv_probe_pid := pid, sv_probe_pid_deadline := te_clock env i + 5000\<rparr>) s)"

definition swap_port :: "int \<Rightarrow> int" where
  "swap_port p = (push_bit 8 (p AND 0xff) OR (drop_bit 8 p AND 0xff)) AND 0xffff"

definition probe_service_tcp :: "turn_env \<Rightarrow> nat \<Rightarrow> cix_init \<Rightarrow> bool \<times> cix_init" where
  "probe_service_tcp env i s0 =
     (let candidates = 1 + int (length (g_addr_be s0));
          s = (if sv_probe_addr_idx (g_svc s0 ! i) < 0 \<or> candidates \<le> sv_probe_addr_idx (g_svc s0 ! i)
               then upd_svc i (\<lambda>v. v\<lparr>sv_probe_addr_idx := 0\<rparr>) s0 else s0);
          v = g_svc s ! i;
          addr = (if sv_probe_addr_idx v = 0 then 0x0100007f else g_addr_be s ! nat (sv_probe_addr_idx v - 1));
          (ready, s) = probe_tcp env i addr (swap_port (ci_ready_port (sv_def v))) s
      in if \<not> ready \<and> sv_probe_fd (g_svc s ! i) < 0
         then (ready, upd_svc i (\<lambda>v. v\<lparr>sv_probe_addr_idx :=
                 (if candidates \<le> sv_probe_addr_idx v + 1 then 0 else sv_probe_addr_idx v + 1)\<rparr>) s)
         else (ready, s))"

definition probe_service :: "turn_env \<Rightarrow> nat \<Rightarrow> int \<Rightarrow> cix_init \<Rightarrow> cix_init" where
  "probe_service env i now s0 =
     (let v = g_svc s0 ! i; kind = ci_ready_kind (sv_def v) in
      if kind = CIXINIT_READY_COMMAND then
        if sv_probe_pid v = 0 then probe_command_spawn env i s0
        else if sv_probe_pid_deadline v \<le> now then call (Kill (sv_probe_pid v) SIGKILL) s0
        else s0
      else
        let (ready, s) =
              (if kind = CIXINIT_READY_TCP then probe_service_tcp env i s0
               else if kind = CIXINIT_READY_SOCKET
               then probe_connect_unix env i (take (SUN_PATH_MAX - 1) (c_str (ci_ready_path (sv_def v)))) s0
               else (False, s0))
        in if ready then report (int i) CIXINIT_EV_READY 0 0 (upd_svc i (\<lambda>v. v\<lparr>sv_state := ST_READY\<rparr>) s)
           else if sv_probe_deadline v \<le> now then
             report (int i) CIXINIT_EV_READY 1 0
               (upd_svc i (\<lambda>v. v\<lparr>sv_state := ST_READY\<rparr>)
                 (probe_fd_release i (report (int i) CIXINIT_EV_FAILED CIXINIT_FAIL_PROBE 0 s)))
           else s)"

section \<open>Dependencies\<close>

definition dep_ready :: "svc \<Rightarrow> bool" where
  "dep_ready d =
     (if ci_type (sv_def d) = CIXINIT_TYPE_ONESHOT
      then sv_state d = ST_EXITED \<and> sv_exit_kind d = CIXINIT_EXIT_KIND_EXITED \<and> sv_exit_value d = 0
      else sv_state d = ST_READY)"

definition dep_dead :: "svc \<Rightarrow> bool" where
  "dep_dead d = (sv_state d = ST_FAILED \<or> sv_state d = ST_STOPPED \<or> sv_state d = ST_EXITED \<and> \<not> dep_ready d)"

text \<open>The result and \<open>dead_dep\<close>.\<close>

fun deps_scan :: "svc list \<Rightarrow> mask \<Rightarrow> nat list \<Rightarrow> bool \<times> int" where
  "deps_scan svcs m [] = (True, - 1)"
| "deps_scan svcs m (j # js) =
     (if m AND push_bit j 1 = 0 then deps_scan svcs m js
      else if dep_dead (svcs ! j) then (False, int j)
      else if \<not> dep_ready (svcs ! j) then (False, - 1)
      else deps_scan svcs m js)"

definition deps_satisfied :: "svc list \<Rightarrow> nat \<Rightarrow> bool \<times> int" where
  "deps_satisfied svcs idx = deps_scan svcs (ci_after_mask (sv_def (svcs ! idx))) [0..<idx]"

definition has_running_dependent :: "svc list \<Rightarrow> nat \<Rightarrow> bool" where
  "has_running_dependent svcs idx =
     list_ex (\<lambda>j. 0 < sv_pid (svcs ! j) \<and> ci_after_mask (sv_def (svcs ! j)) AND push_bit idx 1 \<noteq> 0) [idx + 1..<length svcs]"

section \<open>Stopping, restarting, shutting down\<close>

definition send_stop :: "nat \<Rightarrow> int \<Rightarrow> cix_init \<Rightarrow> cix_init" where
  "send_stop i now s =
     (let v = g_svc s ! i in
      if sv_pid v \<le> 0 \<or> sv_stop_sent_at v \<noteq> 0 then s
      else upd_svc i (\<lambda>v. v\<lparr>sv_stop_sent_at := now\<rparr>) (call (Kill (sv_pid v) (ci_stop_signal (sv_def v))) s))"

definition stop_timeout_ms :: "svc \<Rightarrow> int" where
  "stop_timeout_ms v = (if 0 < ci_stop_timeout_seconds (sv_def v) then ci_stop_timeout_seconds (sv_def v) else 10) * 1000"

definition escalate_stop :: "nat \<Rightarrow> int \<Rightarrow> cix_init \<Rightarrow> cix_init" where
  "escalate_stop i now s =
     (let v = g_svc s ! i in
      if sv_pid v \<le> 0 \<or> sv_stop_sent_at v = 0 \<or> sv_killed v then s
      else if stop_timeout_ms v \<le> now - sv_stop_sent_at v
      then upd_svc i (\<lambda>v. v\<lparr>sv_killed := True\<rparr>) (call (Kill (sv_pid v) SIGKILL) s)
      else s)"

definition halt_svc :: "nat \<Rightarrow> cix_init \<Rightarrow> cix_init" where
  "halt_svc i s0 =
     (let s = (if sv_state (g_svc s0 ! i) = ST_PENDING \<or> sv_state (g_svc s0 ! i) = ST_RESTART_WAIT
               then upd_svc i (\<lambda>v. v\<lparr>sv_state := ST_EXITED\<rparr>) s0 else s0)
      in if 0 < sv_probe_pid (g_svc s ! i) then call (Kill (sv_probe_pid (g_svc s ! i)) SIGKILL) s else s)"

definition begin_shutdown :: "int \<Rightarrow> cix_init \<Rightarrow> cix_init" where
  "begin_shutdown exit_code s =
     (if g_shutting_down s then s
      else fold halt_svc [0..<length (g_svc s)]
             (report (- 1) CIXINIT_EV_SHUTDOWN 0 0 (s\<lparr>g_shutting_down := True, g_exit_code := exit_code\<rparr>)))"

definition mapped_status :: "svc \<Rightarrow> int" where
  "mapped_status s = (if sv_exit_kind s = CIXINIT_EXIT_KIND_EXITED then sv_exit_value s else 128 + sv_exit_value s)"

definition restart_delay :: "svc \<Rightarrow> int" where
  "restart_delay v = (if 0 < ci_restart_delay_seconds (sv_def v) then ci_restart_delay_seconds (sv_def v) else 1)"

text \<open>What \<open>service_exited\<close> does first: the process and its probe are gone, and the daemon is told.\<close>

definition exit_recorded :: "nat \<Rightarrow> int \<Rightarrow> int \<Rightarrow> cix_init \<Rightarrow> cix_init" where
  "exit_recorded idx kind val s0 =
     (let s = upd_svc idx (\<lambda>v. v\<lparr>sv_pid := 0, sv_exit_kind := kind, sv_exit_value := val, sv_stop_sent_at := 0, sv_killed := False\<rparr>) s0;
          s = (if 0 < sv_probe_pid (g_svc s ! idx)
               then upd_svc idx (\<lambda>v. v\<lparr>sv_probe_pid := 0\<rparr>) (call (Kill (sv_probe_pid (g_svc s ! idx)) SIGKILL) s) else s)
      in report (int idx) CIXINIT_EV_EXITED kind val (probe_fd_release idx s))"

definition set_state :: "nat \<Rightarrow> svc_state \<Rightarrow> cix_init \<Rightarrow> cix_init" where
  "set_state idx st s = upd_svc idx (\<lambda>v. v\<lparr>sv_state := st\<rparr>) s"

definition service_exited :: "nat \<Rightarrow> int \<Rightarrow> int \<Rightarrow> int \<Rightarrow> cix_init \<Rightarrow> cix_init" where
  "service_exited idx kind val now s0 =
     (let s = exit_recorded idx kind val s0 in
      if g_shutting_down s then set_state idx ST_EXITED s
      else
        let v = g_svc s ! idx; status = mapped_status v; s = s\<lparr>g_exit_code := status\<rparr> in
        if sv_restart_after_stop v then
          upd_svc idx (\<lambda>v. v\<lparr>sv_restart_after_stop := False, sv_state := ST_PENDING\<rparr>) s
        else if sv_operator_stopped v then
          report (int idx) CIXINIT_EV_STOPPED 0 0 (set_state idx ST_STOPPED s)
        else if ci_type (sv_def v) = CIXINIT_TYPE_ONESHOT then
          if kind = CIXINIT_EXIT_KIND_EXITED \<and> val = 0 then set_state idx ST_EXITED s
          else
            let s = report (int idx) CIXINIT_EV_FAILED CIXINIT_FAIL_ONESHOT status s in
            if ci_on_exit (sv_def v) = CIXINIT_ON_EXIT_FAIL_CONTAINER then begin_shutdown status s
            else set_state idx ST_FAILED s
        else if ci_on_exit (sv_def v) = CIXINIT_ON_EXIT_RESTART then
          let s = upd_svc idx (\<lambda>v. v\<lparr>sv_state := ST_RESTART_WAIT, sv_restart_at := now + restart_delay v * 1000,
                    sv_restarts := sv_restarts v + 1\<rparr>) s
          in report (int idx) CIXINIT_EV_RESTART_IN ((sv_restart_at (g_svc s ! idx) - now) div 1000)
               (sv_restarts (g_svc s ! idx)) s
        else if ci_on_exit (sv_def v) = CIXINIT_ON_EXIT_FAIL_CONTAINER then begin_shutdown status s
        else set_state idx ST_EXITED s)"

text \<open>One child reaped: the first service that has it as its process or as its probe.\<close>

definition reap_one :: "int \<Rightarrow> int \<Rightarrow> int \<Rightarrow> cix_init \<Rightarrow> cix_init" where
  "reap_one pid status now s =
     (case find_index (\<lambda>v. sv_pid v = pid \<or> sv_probe_pid v = pid) (g_svc s) of
        None \<Rightarrow> s
      | Some i \<Rightarrow>
          if sv_pid (g_svc s ! i) = pid then
            if status AND 0x7f = 0 then
              service_exited i CIXINIT_EXIT_KIND_EXITED (drop_bit 8 status AND 0xff) now s
            else if status AND 0x7f \<noteq> 0x7f then
              service_exited i (if status AND 0x80 \<noteq> 0 then CIXINIT_EXIT_KIND_DUMPED else CIXINIT_EXIT_KIND_KILLED)
                (status AND 0x7f) now s
            else s
          else
            let s = upd_svc i (\<lambda>v. v\<lparr>sv_probe_pid := 0\<rparr>) s in
            if sv_state (g_svc s ! i) = ST_STARTING \<and> status = 0
            then report (int i) CIXINIT_EV_READY 0 0 (set_state i ST_READY s) else s)"

fun reap_all :: "(int \<times> int) list \<Rightarrow> int \<Rightarrow> cix_init \<Rightarrow> cix_init" where
  "reap_all [] now s = s"
| "reap_all ((pid, status) # ws) now s =
     (if pid = - EINTR then reap_all ws now s
      else if pid \<le> 0 then s
      else reap_all ws now (reap_one pid status now s))"

section \<open>Commands\<close>

definition handle_command :: "cixinit_command \<Rightarrow> int \<Rightarrow> cix_init \<Rightarrow> cix_init" where
  "handle_command c now s =
     (if cm_magic c \<noteq> CIXINIT_MAGIC then s
      else if cm_op c = CIXINIT_OP_SHUTDOWN then begin_shutdown 0 s
      else if cm_service c < 0 \<or> int (length (g_svc s)) \<le> cm_service c then s
      else
        let i = nat (cm_service c); v = g_svc s ! i in
        if cm_op c = CIXINIT_OP_START then
          upd_svc i (\<lambda>v. if sv_pid v \<le> 0 \<and> sv_state v \<noteq> ST_PENDING
                         then v\<lparr>sv_operator_stopped := False, sv_state := ST_PENDING, sv_restart_after_stop := False\<rparr>
                         else v\<lparr>sv_operator_stopped := False\<rparr>) s
        else if cm_op c = CIXINIT_OP_STOP then
          let s = upd_svc i (\<lambda>v. v\<lparr>sv_operator_stopped := True, sv_restart_after_stop := False\<rparr>) s in
          if 0 < sv_pid v then send_stop i now s
          else if sv_state v \<noteq> ST_STOPPED then report (int i) CIXINIT_EV_STOPPED 0 0 (set_state i ST_STOPPED s)
          else s
        else if cm_op c = CIXINIT_OP_RESTART then
          let s = upd_svc i (\<lambda>v. v\<lparr>sv_operator_stopped := False\<rparr>) s in
          if 0 < sv_pid v then send_stop i now (upd_svc i (\<lambda>v. v\<lparr>sv_restart_after_stop := True\<rparr>) s)
          else set_state i ST_PENDING s
        else s)"

fun drain_control :: "(int \<times> cixinit_command) list \<Rightarrow> int \<Rightarrow> cix_init \<Rightarrow> cix_init" where
  "drain_control [] now s = s"
| "drain_control ((n, c) # rs) now s =
     (if n = - EINTR then drain_control rs now s
      else if n = - EAGAIN then s
      else if n = 0 then (call (CloseFd (g_control_fd s)) s)\<lparr>g_control_fd := - 1\<rparr>
      else if n < 0 then s
      else if n = SIZEOF_RECORD then drain_control rs now (handle_command c now s)
      else drain_control rs now s)"

section \<open>One turn\<close>

definition schedule_one :: "turn_env \<Rightarrow> int \<Rightarrow> nat \<Rightarrow> cix_init \<Rightarrow> cix_init" where
  "schedule_one env now i s =
     (let v = g_svc s ! i in
      case sv_state v of
        ST_PENDING \<Rightarrow>
          if sv_operator_stopped v then s
          else
            let (ok, dead) = deps_satisfied (g_svc s) i in
            if ok then start_service env i s
            else if 0 \<le> dead then
              let s = report (int i) CIXINIT_EV_FAILED CIXINIT_FAIL_DEPENDENCY dead (set_state i ST_FAILED s); d = g_svc s ! nat dead in
              if ci_on_exit (sv_def v) = CIXINIT_ON_EXIT_FAIL_CONTAINER
              then begin_shutdown (if sv_state d = ST_FAILED then mapped_status d else 1) s else s
            else s
      | ST_RESTART_WAIT \<Rightarrow> if sv_restart_at v \<le> now then start_service env i s else s
      | ST_STARTING \<Rightarrow> escalate_stop i now (if sv_stop_sent_at v = 0 then probe_service env i now s else s)
      | ST_READY \<Rightarrow> escalate_stop i now s
      | _ \<Rightarrow> s)"

definition schedule_all :: "turn_env \<Rightarrow> int \<Rightarrow> cix_init \<Rightarrow> cix_init" where
  "schedule_all env now s = fold (schedule_one env now) [0..<length (g_svc s)] s"

definition stop_one :: "int \<Rightarrow> nat \<Rightarrow> cix_init \<Rightarrow> cix_init" where
  "stop_one now i s =
     (if sv_pid (g_svc s ! i) \<le> 0 then s
      else if has_running_dependent (g_svc s) i then s
      else escalate_stop i now (send_stop i now s))"

definition shutdown_step :: "int \<Rightarrow> cix_init \<Rightarrow> cix_init" where
  "shutdown_step now s = fold (stop_one now) (rev [0..<length (g_svc s)]) s"

definition finish :: "turn_env \<Rightarrow> cix_init \<Rightarrow> cix_init" where
  "finish env s = (let s = report_flush (te_write env) s in s\<lparr>g_exited := Some (g_exit_code s)\<rparr>)"

definition anything_left :: "svc list \<Rightarrow> bool" where
  "anything_left svcs =
     list_ex (\<lambda>i. let v = svcs ! i in
        0 < sv_pid v \<or> sv_state v = ST_RESTART_WAIT \<or>
        sv_state v = ST_PENDING \<and> \<not> sv_operator_stopped v \<and>
          (fst (deps_satisfied svcs i) \<or> snd (deps_satisfied svcs i) < 0)) [0..<length svcs]"

text \<open>The loop body up to the point where it branches on \<open>g_shutting_down\<close>.\<close>

definition take_events :: "turn_env \<Rightarrow> cix_init \<Rightarrow> cix_init" where
  "take_events env s0 =
     (let now = te_now env;
          s = reap_all (te_wait env) now s0;
          s = (if te_sigterm env then begin_shutdown 0 s else s)
      in if 0 \<le> g_control_fd s then drain_control (te_read env) now s else s)"

definition turn :: "turn_env \<Rightarrow> cix_init \<Rightarrow> cix_init" where
  "turn env s0 =
     (let s = take_events env s0 in
      if g_shutting_down s then
        let s = shutdown_step (te_now env) s in
        if \<not> anything_left (g_svc s) then finish env (report (- 1) CIXINIT_EV_SHUTDOWN 1 0 s)
        else report_flush (te_write env) s
      else
        let s = schedule_all env (te_now env) s in
        if \<not> anything_left (g_svc s) then finish env s else report_flush (te_write env) s)"

text \<open>The \<open>for (;;)\<close> of \<open>cix_main\<close> after \<open>n\<close> turns; \<open>exit_group\<close> ends it.\<close>

fun run_turns :: "(nat \<Rightarrow> turn_env) \<Rightarrow> nat \<Rightarrow> cix_init \<Rightarrow> cix_init" where
  "run_turns env 0 s = s"
| "run_turns env (Suc n) s =
     (let s' = run_turns env n s in if g_exited s' = None then turn (env n) s' else s')"

section \<open>Start-up\<close>

fun fd_number :: "string \<Rightarrow> int \<Rightarrow> int option" where
  "fd_number [] v = Some v"
| "fd_number (c # cs) v = (if is_digit c then fd_number cs (v * 10 + int (digit_val c)) else None)"

definition fd_arg :: "string \<Rightarrow> int option" where
  "fd_arg p = (if p = [] then None else fd_number p 0)"

definition blank_report :: cixinit_report where
  "blank_report = \<lparr>rp_service = 0, rp_event = 0, rp_a = 0, rp_b = 0\<rparr>"

text \<open>\<open>cix_main\<close> up to its loop, for the arguments after the program's name; \<open>None\<close> is \<open>die\<close>.\<close>

definition cix_main :: "string list \<Rightarrow> ctl_message list \<Rightarrow> cix_init option" where
  "cix_main args ms =
     (if length args < 3 then None
      else if 2 + CIXINIT_MAX_SERVICES < length args then None
      else do {
        fds \<leftarrow> those (map fd_arg args);
        (svcs, addrs, ifaces) \<leftarrow> read_table ms;
        if length fds - 2 \<noteq> length svcs then None
        else Some (report (- 1) CIXINIT_EV_UP CIXINIT_VERSION (int (length svcs))
          \<lparr>g_svc = map (\<lambda>i. (svcs ! i)\<lparr>sv_out_fd := fds ! (2 + i)\<rparr>) [0..<length svcs], g_addr_be = addrs, g_iface = ifaces,
           g_control_fd = fds ! 0, g_report_fd = fds ! 1, g_shutting_down = False, g_exit_code = 0,
           g_pending = replicate PENDING_MAX blank_report, g_pending_head = 0, g_pending_count = 0, g_pending_dropped = 0,
           g_calls = [], g_exited = None\<rparr>) })"

end
