(* ===== verification/Init_Reports.thy ===== *)
theory Init_Reports
  imports Cix_Init
begin

text \<open>
  The report ring of \<open>cix_init.c\<close> as a queue.  The locale \<open>lossy_queue\<close> states what a bounded queue
  that drops its oldest entry promises, the ring of \<open>report\<close> is an instance, and \<open>emitted\<close> is what
  the rest of the development uses: the operation adds exactly these reports, in this order.
\<close>

locale lossy_queue =
  fixes items :: "'s \<Rightarrow> 'e list"
    and lost :: "'s \<Rightarrow> nat"
    and push :: "'e \<Rightarrow> 's \<Rightarrow> 's"
    and cap :: nat
    and ok :: "'s \<Rightarrow> bool"
  assumes push_items: "ok s \<Longrightarrow> items (push r s) = (if length (items s) = cap then tl (items s) else items s) @ [r]"
    and push_lost: "ok s \<Longrightarrow> lost (push r s) = (if length (items s) = cap then lost s + 1 else lost s)"
    and push_ok: "ok s \<Longrightarrow> ok (push r s)"
    and bounded: "ok s \<Longrightarrow> length (items s) \<le> cap"
    and cap_pos: "0 < cap"
begin

text \<open>After any pushes the queue holds the newest entries and has counted the others.\<close>

lemma push_all:
  "ok s \<Longrightarrow> ok (fold push rs s) \<and>
     items (fold push rs s) = drop (length (items s) + length rs - cap) (items s @ rs) \<and>
     lost (fold push rs s) = lost s + (length (items s) + length rs - cap)"
proof (induction rs arbitrary: s)
  case Nil
  then show ?case using bounded by simp
next
  case (Cons r rs)
  note IH = Cons.IH [OF push_ok [OF Cons.prems, of r]]
  show ?case
  proof (cases "length (items s) = cap")
    case True
    then have "items s \<noteq> []" using cap_pos by auto
    then obtain x xs where x: "items s = x # xs" by (cases "items s") auto
    with True have c: "cap = Suc (length xs)" by simp
    have "items (push r s) = xs @ [r]" "lost (push r s) = lost s + 1"
      using push_items [OF Cons.prems] push_lost [OF Cons.prems] True x by simp_all
    then show ?thesis using IH x by (simp add: c)
  next
    case False
    then have "items (push r s) = items s @ [r]" "lost (push r s) = lost s"
      using push_items [OF Cons.prems] push_lost [OF Cons.prems] by simp_all
    then show ?thesis using IH by simp
  qed
qed

lemma none_lost: "ok s \<Longrightarrow> length (items s) + length rs \<le> cap \<Longrightarrow> items (fold push rs s) = items s @ rs"
  using push_all [of s rs] by simp

end

section \<open>The ring\<close>

definition ring_inv :: "cix_init \<Rightarrow> bool" where
  "ring_inv s = (length (g_pending s) = PENDING_MAX \<and> g_pending_head s < PENDING_MAX \<and> g_pending_count s \<le> PENDING_MAX)"

definition ring_items :: "cix_init \<Rightarrow> cixinit_report list" where
  "ring_items s = map (\<lambda>k. g_pending s ! ((g_pending_head s + k) mod PENDING_MAX)) [0..<g_pending_count s]"

definition push_report :: "cixinit_report \<Rightarrow> cix_init \<Rightarrow> cix_init" where
  "push_report r = report (rp_service r) (rp_event r) (rp_a r) (rp_b r)"

lemma length_ring_items [simp]: "length (ring_items s) = g_pending_count s"
  by (simp add: ring_items_def)

lemma ring_slots: "a < b \<Longrightarrow> b < PENDING_MAX \<Longrightarrow> (h + a) mod PENDING_MAX \<noteq> (h + b) mod PENDING_MAX"
proof
  assume ab: "a < b" "b < PENDING_MAX" and e: "(h + a) mod PENDING_MAX = (h + b) mod PENDING_MAX"
  then have "PENDING_MAX dvd (h + b) - (h + a)" by (metis add_le_cancel_left less_imp_le mod_eq_dvd_iff_nat)
  then have "PENDING_MAX dvd b - a" by simp
  then show False using ab by (auto dest: dvd_imp_le)
qed

lemma ring_append:
  assumes "ring_inv s" "g_pending_count s < PENDING_MAX"
  shows "ring_items (s\<lparr>g_pending := (g_pending s)[(g_pending_head s + g_pending_count s) mod PENDING_MAX := r],
      g_pending_count := g_pending_count s + 1\<rparr>) = ring_items s @ [r]"
proof -
  let ?slot = "(g_pending_head s + g_pending_count s) mod PENDING_MAX"
  have "?slot < PENDING_MAX" by (simp add: PENDING_MAX_def)
  then have "(g_pending s)[?slot := r] ! ?slot = r" using assms(1) by (simp add: ring_inv_def)
  moreover have "(g_pending s)[?slot := r] ! ((g_pending_head s + k) mod PENDING_MAX) = g_pending s ! ((g_pending_head s + k) mod PENDING_MAX)"
    if "k < g_pending_count s" for k
    using ring_slots [OF that assms(2), of "g_pending_head s"] by simp
  ultimately show ?thesis by (simp add: ring_items_def)
qed

lemma ring_pop:
  assumes "0 < g_pending_count s"
  shows "ring_items s = g_pending s ! (g_pending_head s mod PENDING_MAX) #
     ring_items (s\<lparr>g_pending_head := (g_pending_head s + 1) mod PENDING_MAX, g_pending_count := g_pending_count s - 1\<rparr>)"
proof -
  obtain c where c: "g_pending_count s = Suc c" using assms by (cases "g_pending_count s") auto
  have "[0..<Suc c] = 0 # map Suc [0..<c]" by (simp only: upt_conv_Cons map_Suc_upt)
  then show ?thesis by (simp add: ring_items_def c comp_def mod_add_left_eq)
qed

lemma ring_push:
  assumes "ring_inv s"
  shows "ring_items (push_report r s) = (if g_pending_count s = PENDING_MAX then tl (ring_items s) else ring_items s) @ [r]"
    "g_pending_dropped (push_report r s) = (if g_pending_count s = PENDING_MAX then g_pending_dropped s + 1 else g_pending_dropped s)"
    "ring_inv (push_report r s)"
proof -
  let ?s = "if g_pending_count s = PENDING_MAX then s\<lparr>g_pending_head := (g_pending_head s + 1) mod PENDING_MAX,
      g_pending_count := g_pending_count s - 1, g_pending_dropped := g_pending_dropped s + 1\<rparr> else s"
  have e: "push_report r s = ?s\<lparr>g_pending := (g_pending ?s)[(g_pending_head ?s + g_pending_count ?s) mod PENDING_MAX := r],
      g_pending_count := g_pending_count ?s + 1\<rparr>"
    by (cases r) (simp add: push_report_def report_def Let_def)
  have p: "0 < PENDING_MAX" by (simp add: PENDING_MAX_def)
  have i: "ring_inv ?s" "g_pending_count ?s < PENDING_MAX" using assms p by (auto simp: ring_inv_def)
  have "ring_items ?s = (if g_pending_count s = PENDING_MAX then tl (ring_items s) else ring_items s)"
  proof (cases "g_pending_count s = PENDING_MAX")
    case True
    then have "tl (ring_items s) = ring_items (s\<lparr>g_pending_head := (g_pending_head s + 1) mod PENDING_MAX, g_pending_count := g_pending_count s - 1\<rparr>)"
      using ring_pop [of s] p by simp
    with True show ?thesis by (simp add: ring_items_def)
  qed simp
  then show "ring_items (push_report r s) = (if g_pending_count s = PENDING_MAX then tl (ring_items s) else ring_items s) @ [r]"
    unfolding e using ring_append [OF i] by simp
  show "g_pending_dropped (push_report r s) = (if g_pending_count s = PENDING_MAX then g_pending_dropped s + 1 else g_pending_dropped s)"
    by (simp add: e)
  show "ring_inv (push_report r s)" unfolding e using i by (auto simp: ring_inv_def)
qed

interpretation ring: lossy_queue ring_items g_pending_dropped push_report PENDING_MAX ring_inv
proof
  show "0 < PENDING_MAX" by (simp add: PENDING_MAX_def)
  show "\<And>s. ring_inv s \<Longrightarrow> length (ring_items s) \<le> PENDING_MAX" by (simp add: ring_inv_def)
qed (simp_all add: ring_push)

section \<open>What reaches the daemon\<close>

text \<open>The reports written so far, then those that wait.\<close>

fun sent_report :: "sys_call \<Rightarrow> cixinit_report list" where
  "sent_report (Sent r) = [r]"
| "sent_report c = []"

definition delivered :: "cix_init \<Rightarrow> cixinit_report list" where
  "delivered s = concat (map sent_report (g_calls s))"

definition all_reports :: "cix_init \<Rightarrow> cixinit_report list" where
  "all_reports s = delivered s @ ring_items s"

lemma flush_keeps:
  "ring_inv s \<Longrightarrow> ring_inv (report_flush ns s) \<and> all_reports (report_flush ns s) = all_reports s"
proof (induction ns s rule: report_flush.induct)
  case (2 n ns s)
  let ?s = "call (Sent (g_pending s ! g_pending_head s)) (s\<lparr>g_pending_head := (g_pending_head s + 1) mod PENDING_MAX,
    g_pending_count := g_pending_count s - 1\<rparr>)"
  show ?case
  proof (cases "0 < g_pending_count s \<and> 0 \<le> g_report_fd s \<and> n = SIZEOF_RECORD")
    case True
    have h: "g_pending_head s mod PENDING_MAX = g_pending_head s" using 2(3) by (simp add: ring_inv_def)
    have "ring_inv ?s" using 2(3) by (auto simp: ring_inv_def call_def PENDING_MAX_def)
    moreover have "all_reports ?s = all_reports s"
      using ring_pop [of s] True h by (simp add: all_reports_def delivered_def call_def ring_items_def)
    moreover have "report_flush (n # ns) s = report_flush ns ?s" using True by (simp add: Let_def)
    ultimately show ?thesis using 2(1) True by (simp add: Let_def)
  next
    case False
    then show ?thesis using 2(2,3) by (auto simp: Let_def SIZEOF_RECORD_def EINTR_def)
  qed
qed simp

lemma flush_dropped [simp]: "g_pending_dropped (report_flush ns s) = g_pending_dropped s"
  by (induction ns s rule: report_flush.induct) (simp_all add: Let_def call_def)

lemma flush_frame [simp]:
  "g_svc (report_flush ns s) = g_svc s" "g_shutting_down (report_flush ns s) = g_shutting_down s"
  "g_exit_code (report_flush ns s) = g_exit_code s" "g_exited (report_flush ns s) = g_exited s"
  "g_control_fd (report_flush ns s) = g_control_fd s"
  by (induction ns s rule: report_flush.induct) (simp_all add: Let_def call_def)

lemma report_frame [simp]:
  "g_svc (report i e a b s) = g_svc s" "g_shutting_down (report i e a b s) = g_shutting_down s"
  "g_exit_code (report i e a b s) = g_exit_code s" "g_exited (report i e a b s) = g_exited s"
  "g_control_fd (report i e a b s) = g_control_fd s" "g_calls (report i e a b s) = g_calls s"
  "g_addr_be (report i e a b s) = g_addr_be s"
  by (simp_all add: report_def Let_def)

text \<open>\<open>s'\<close> comes from \<open>s\<close> by adding the reports \<open>rs\<close>, unless some were dropped.\<close>

definition emitted :: "cix_init \<Rightarrow> cix_init \<Rightarrow> cixinit_report list \<Rightarrow> bool" where
  "emitted s s' rs = (ring_inv s \<longrightarrow> ring_inv s' \<and>
     (g_pending_dropped s' = 0 \<longrightarrow> g_pending_dropped s = 0 \<and> all_reports s' = all_reports s @ rs))"

lemma emitted_refl [simp]: "emitted s s []"
  by (simp add: emitted_def)

lemma emitted_trans: "emitted s s' rs \<Longrightarrow> emitted s' s'' rs' \<Longrightarrow> emitted s s'' (rs @ rs')"
  by (auto simp: emitted_def)

lemma emitted_report: "emitted s (report i e a b s) [\<lparr>rp_service = i, rp_event = e, rp_a = a, rp_b = b\<rparr>]"
proof -
  let ?r = "\<lparr>rp_service = i, rp_event = e, rp_a = a, rp_b = b\<rparr>"
  have e: "report i e a b s = push_report ?r s" by (simp add: push_report_def)
  have "delivered (push_report ?r s) = delivered s" by (simp add: delivered_def push_report_def)
  then show ?thesis unfolding emitted_def e using ring_push [of s ?r] by (auto simp: all_reports_def)
qed

lemma emitted_flush: "emitted s (report_flush ns s) []"
  using flush_keeps [of s ns] by (simp add: emitted_def)

end
