(* ===== verification/Init_Order.thy ===== *)
theory Init_Order
  imports Init_Table
begin

text \<open>
  What the service table of \<open>cixinit_table.c\<close> promises its reader: the names it resolves, the order
  it places services in, and when there is no such order.  \<open>after_rel\<close> is the relation the
  declarations state (\<open>j\<close> before \<open>i\<close>), on the positions in the request body.
\<close>

definition svc_name :: "cixinit_service \<Rightarrow> string" where
  "svc_name s = c_str (ci_name s)"

definition after_rel :: "(cixinit_service \<times> string list) list \<Rightarrow> (nat \<times> nat) set" where
  "after_rel parsed = {(j, i). i < length parsed \<and> j < length parsed \<and> svc_name (fst (parsed ! j)) \<in> set (snd (parsed ! i))}"

definition dep_rel :: "mask list \<Rightarrow> (nat \<times> nat) set" where
  "dep_rel deps = {(j, i). i < length deps \<and> bit (deps ! i) j}"

section \<open>Masks\<close>

lemma bit_pow_2 [simp]: "bit (2 ^ k :: mask) j \<longleftrightarrow> j = k \<and> j < 32"
  by (auto simp: bit_exp_iff)

lemma bit_fold_mask: "bit (foldl (\<lambda>m k. m OR push_bit k 1) m0 ks) j \<longleftrightarrow> bit (m0 :: mask) j \<or> j \<in> set ks \<and> j < 32"
  by (induction ks arbitrary: m0) (auto simp: bit_or_iff)

lemma bit_mask_of: "bit (mask_of ks) j \<longleftrightarrow> j \<in> set ks \<and> j < 32"
  unfolding mask_of_def bit_fold_mask by simp

lemma mask_bit_less: "bit (m :: mask) j \<Longrightarrow> j < 32"
  using bit_imp_le_length [of m j] by simp

lemma and_pow_2_iff: "m AND 2 ^ k = 0 \<longleftrightarrow> \<not> bit (m :: mask) k"
proof -
  have "m AND 2 ^ k = 0 \<longleftrightarrow> \<not> (\<exists>j < 32. bit m j \<and> j = k)"
    by (auto simp: bit_eq_iff bit_and_iff)
  then show ?thesis by (auto dest: mask_bit_less)
qed

lemma and_not_zero_iff: "m AND NOT k = 0 \<longleftrightarrow> (\<forall>j. bit (m :: mask) j \<longrightarrow> bit k j)"
  by (auto simp: bit_eq_iff bit_and_iff bit_not_iff dest: mask_bit_less)

section \<open>Names\<close>

lemma parse_all_prefix: "parse_all js p = Some q \<Longrightarrow> \<exists>ps. q = p @ ps \<and> map Some ps = map parse_one js"
proof (induction js p arbitrary: q rule: parse_all.induct)
  case (2 j js parsed)
  from 2(2) obtain s after where o: "parse_one j = Some (s, after)" "parse_all js (parsed @ [(s, after)]) = Some q"
    and n: "\<not> (\<exists>p \<in> set parsed. c_str (ci_name (fst p)) = c_str (ci_name s))"
    by (auto split: option.split_asm if_split_asm)
  from 2(1) [OF o(1) refl n o(2)] obtain ps where "q = (parsed @ [(s, after)]) @ ps" "map Some ps = map parse_one js" by auto
  with o(1) show ?case by (intro exI [of _ "(s, after) # ps"]) simp
qed simp

lemma parse_all_distinct:
  "parse_all js p = Some q \<Longrightarrow> distinct (map (svc_name \<circ> fst) p) \<Longrightarrow> distinct (map (svc_name \<circ> fst) q)"
  by (induction js p arbitrary: q rule: parse_all.induct) (force simp: svc_name_def split: option.split_asm if_split_asm)+

lemma parse_all_facts:
  assumes "parse_all js [] = Some parsed"
  shows "length parsed = length js" "i < length js \<Longrightarrow> parse_one (js ! i) = Some (parsed ! i)"
    "distinct (map (svc_name \<circ> fst) parsed)"
proof -
  from parse_all_prefix [OF assms] have m: "map Some parsed = map parse_one js" by simp
  then show l: "length parsed = length js" by (metis length_map)
  show "i < length js \<Longrightarrow> parse_one (js ! i) = Some (parsed ! i)" using m l by (metis nth_map)
  show "distinct (map (svc_name \<circ> fst) parsed)" using parse_all_distinct [OF assms] by simp
qed

lemma find_name_Some: "find_name svcs a = Some k \<Longrightarrow> k < length svcs \<and> svc_name (svcs ! k) = a"
  unfolding find_name_def svc_name_def
proof (split list.split_asm)
  fix x xs
  assume "filter (\<lambda>k. c_str (ci_name (svcs ! k)) = a) [0..<length svcs] = x # xs" "Some (last (x # xs)) = Some k"
  then have "k \<in> set (filter (\<lambda>k. c_str (ci_name (svcs ! k)) = a) [0..<length svcs])"
    by (metis last_in_set list.distinct(1) option.inject)
  then show "k < length svcs \<and> c_str (ci_name (svcs ! k)) = a" by simp
qed simp

lemma find_name_None: "find_name svcs a = None \<longleftrightarrow> (\<forall>k < length svcs. svc_name (svcs ! k) \<noteq> a)"
proof -
  have "find_name svcs a = None \<longleftrightarrow> filter (\<lambda>k. c_str (ci_name (svcs ! k)) = a) [0..<length svcs] = []"
    by (simp add: find_name_def split: list.split)
  then show ?thesis by (auto simp: svc_name_def filter_empty_conv)
qed

lemma find_name_iff:
  assumes "distinct (map svc_name svcs)"
  shows "find_name svcs a = Some k \<longleftrightarrow> k < length svcs \<and> svc_name (svcs ! k) = a"
proof
  assume k: "k < length svcs \<and> svc_name (svcs ! k) = a"
  then obtain l where l: "find_name svcs a = Some l" using find_name_None [of svcs a] by (cases "find_name svcs a") auto
  from find_name_Some [OF l] k assms have "l = k" by (auto simp: distinct_conv_nth)
  with l show "find_name svcs a = Some k" by simp
qed (rule find_name_Some)

lemma resolve_after_bit:
  "resolve_after svcs as m = Some m' \<Longrightarrow> bit m' j \<longleftrightarrow> bit m j \<or> (\<exists>a \<in> set as. find_name svcs a = Some j) \<and> j < 32"
  by (induction svcs as m rule: resolve_after.induct) (auto split: option.split_asm simp: bit_or_iff)

lemma resolve_after_None: "resolve_after svcs as m = None \<longleftrightarrow> (\<exists>a \<in> set as. find_name svcs a = None)"
  by (induction svcs as m rule: resolve_after.induct) (auto split: option.split)

definition resolve_all :: "(cixinit_service \<times> string list) list \<Rightarrow> mask list option" where
  "resolve_all parsed = those (map (\<lambda>p. resolve_after (map fst parsed) (snd p) 0) parsed)"

lemma those_map_Some: "those (map f xs) = Some ys \<longleftrightarrow> map f xs = map Some ys"
  by (induction xs arbitrary: ys) (auto split: option.split simp: map_eq_Cons_conv Cons_eq_map_conv)

lemma those_map_None: "those (map f xs) = None \<longleftrightarrow> (\<exists>x \<in> set xs. f x = None)"
  by (induction xs) (auto split: option.split)

lemma resolve_all_rel:
  assumes "distinct (map (svc_name \<circ> fst) parsed)" "length parsed \<le> 32" "resolve_all parsed = Some deps"
  shows "length deps = length parsed" "dep_rel deps = after_rel parsed"
proof -
  from assms(3) have m: "map (\<lambda>p. resolve_after (map fst parsed) (snd p) 0) parsed = map Some deps"
    by (simp add: resolve_all_def those_map_Some)
  then show l: "length deps = length parsed" by (metis length_map)
  have b: "bit (deps ! i) j \<longleftrightarrow> j < length parsed \<and> svc_name (fst (parsed ! j)) \<in> set (snd (parsed ! i))"
    if i: "i < length parsed" for i j
  proof -
    from m l i have "resolve_after (map fst parsed) (snd (parsed ! i)) 0 = Some (deps ! i)" by (metis nth_map)
    from resolve_after_bit [OF this, of j]
    show ?thesis using assms(1,2) by (auto simp: find_name_iff)
  qed
  show "dep_rel deps = after_rel parsed" by (auto simp: dep_rel_def after_rel_def l b)
qed

section \<open>The order\<close>

definition ready_in :: "mask list \<Rightarrow> nat set \<Rightarrow> nat \<Rightarrow> bool" where
  "ready_in deps P i = (i < length deps \<and> i \<notin> P \<and> (\<forall>j. bit (deps ! i) j \<longrightarrow> j \<in> P \<and> j < length deps))"

lemma pick_test: 
  assumes "length deps \<le> 32" "i < length deps"
  shows "(i \<notin> set ord \<and> (deps ! i) AND NOT (mask_of (filter (\<lambda>k. k \<in> set ord) [0..<length deps])) = 0) = ready_in deps (set ord) i"
  using assms by (auto simp: ready_in_def and_not_zero_iff bit_mask_of dest: mask_bit_less)

lemma pick_next_Some:
  assumes "length deps \<le> 32" "pick_next deps ord = Some i"
  shows "ready_in deps (set ord) i" "b < i \<Longrightarrow> \<not> ready_in deps (set ord) b"
proof -
  from assms(2) obtain x where x: "x < length deps" "i = [0..<length deps] ! x"
    "i \<notin> set ord \<and> (deps ! i) AND NOT (mask_of (filter (\<lambda>k. k \<in> set ord) [0..<length deps])) = 0"
    "\<forall>y < x. \<not> ([0..<length deps] ! y \<notin> set ord \<and> (deps ! ([0..<length deps] ! y)) AND NOT (mask_of (filter (\<lambda>k. k \<in> set ord) [0..<length deps])) = 0)"
    unfolding pick_next_def find_Some_iff by auto
  then have i: "i = x" by simp
  show "ready_in deps (set ord) i" using pick_test [OF assms(1)] x i by simp
  show "b < i \<Longrightarrow> \<not> ready_in deps (set ord) b" using pick_test [OF assms(1), of b ord] x(1,4) i by auto
qed

lemma pick_next_None:
  assumes "length deps \<le> 32" "pick_next deps ord = None"
  shows "\<not> ready_in deps (set ord) i"
  using assms pick_test [OF assms(1), of i ord] by (auto simp: pick_next_def find_None_iff ready_in_def)

definition placed_ok :: "mask list \<Rightarrow> nat list \<Rightarrow> bool" where
  "placed_ok deps ord = (distinct ord \<and> set ord \<subseteq> {0..<length deps} \<and>
     (\<forall>p < length ord. ready_in deps (set (take p ord)) (ord ! p) \<and> (\<forall>b < ord ! p. \<not> ready_in deps (set (take p ord)) b)))"

lemma placed_ok_snoc:
  assumes "length deps \<le> 32" "placed_ok deps ord" "pick_next deps ord = Some i"
  shows "placed_ok deps (ord @ [i])"
  using assms(2) pick_next_Some [OF assms(1,3)] unfolding placed_ok_def
  by (auto simp: nth_append less_Suc_eq ready_in_def)

lemma place_all_ok:
  "length deps \<le> 32 \<Longrightarrow> placed_ok deps ord0 \<Longrightarrow> place_all deps ord0 = Some ord \<Longrightarrow> length ord0 \<le> length deps \<Longrightarrow>
     placed_ok deps ord \<and> length ord = length deps"
proof (induction deps ord0 rule: place_all.induct)
  case (1 deps ord0)
  from 1(4) show ?case
    using 1(1) [OF _ _ 1(2) placed_ok_snoc [OF 1(2,3)]] 1(2,3,5)
    by (subst (asm) place_all.simps) (auto split: if_split_asm option.split_asm)
qed

lemma placed_all:
  assumes "placed_ok deps ord" "length ord = length deps"
  shows "set ord = {0..<length deps}"
  using assms by (intro card_subset_eq) (auto simp: placed_ok_def distinct_card)

lemma place_all_stuck:
  "length deps \<le> 32 \<Longrightarrow> distinct ord0 \<Longrightarrow> set ord0 \<subseteq> {0..<length deps} \<Longrightarrow> place_all deps ord0 = None \<Longrightarrow>
     \<exists>P. {0..<length deps} - P \<noteq> {} \<and> (\<forall>i. \<not> ready_in deps P i)"
proof (induction deps ord0 rule: place_all.induct)
  case (1 deps ord0)
  from 1(5) have l: "length ord0 < length deps" by (subst (asm) place_all.simps) (auto split: if_split_asm)
  show ?case
  proof (cases "pick_next deps ord0")
    case None
    have "set ord0 \<noteq> {0..<length deps}" using l card_length [of ord0] by auto
    then show ?thesis using 1(4) pick_next_None [OF 1(2) None] by (intro exI [of _ "set ord0"]) auto
  next
    case (Some i)
    from 1(5) l Some have n: "place_all deps (ord0 @ [i]) = None" by (subst (asm) place_all.simps) simp
    have "distinct (ord0 @ [i])" "set (ord0 @ [i]) \<subseteq> {0..<length deps}"
      using pick_next_Some(1) [OF 1(2) Some] 1(3,4) by (auto simp: ready_in_def)
    then show ?thesis using 1(1) [OF _ Some 1(2) _ _ n] l by simp
  qed
qed

lemma place_all_cyclic:
  assumes "length deps \<le> 32" "dep_rel deps \<subseteq> {0..<length deps} \<times> {0..<length deps}" "place_all deps [] = None"
  shows "\<not> acyclic (dep_rel deps)"
proof
  assume a: "acyclic (dep_rel deps)"
  have "finite (dep_rel deps)" by (rule finite_subset [OF assms(2)]) simp
  with a have wf: "wf (dep_rel deps)" by (rule finite_acyclic_wf [rotated])
  obtain P where P: "{0..<length deps} - P \<noteq> {}" "\<And>i. \<not> ready_in deps P i"
    using place_all_stuck [OF assms(1) _ _ assms(3)] by auto
  then obtain i where i: "i \<in> {0..<length deps} - P" by (metis ex_in_conv)
  obtain z where z: "z \<in> {0..<length deps} - P" "\<And>y. (y, z) \<in> dep_rel deps \<Longrightarrow> y \<notin> {0..<length deps} - P"
    using wfE_min [OF wf i] by metis
  have "ready_in deps P z"
    using z assms(2) unfolding ready_in_def dep_rel_def by fastforce
  with P show False by simp
qed

lemma placed_before:
  assumes "placed_ok deps ord" "length ord = length deps" "p < length ord" "bit (deps ! (ord ! p)) j"
  shows "\<exists>q < p. ord ! q = j"
proof -
  have "ready_in deps (set (take p ord)) (ord ! p)" using assms(1,3) by (simp add: placed_ok_def)
  then have "j \<in> set (take p ord)" using assms(4) by (simp add: ready_in_def)
  then show ?thesis using assms(3) by (auto simp: in_set_conv_nth)
qed

lemma body_to_table_nth: "distinct ord \<Longrightarrow> q < length ord \<Longrightarrow> body_to_table ord (ord ! q) = q"
  unfolding body_to_table_def
proof -
  assume d: "distinct ord" "q < length ord"
  have "takeWhile (\<lambda>x. x \<noteq> ord ! q) ord = take q ord"
    by (rule takeWhile_eq_take_P_nth) (use d in \<open>auto simp: nth_eq_iff_index_eq\<close>)
  then show "length (takeWhile (\<lambda>x. x \<noteq> ord ! q) ord) = q" using d by simp
qed

lemma place_all_acyclic:
  assumes "length deps \<le> 32" "place_all deps [] = Some ord"
  shows "acyclic (dep_rel deps)"
proof -
  from place_all_ok [OF assms(1) _ assms(2)] have ok: "placed_ok deps ord" "length ord = length deps"
    by (auto simp: placed_ok_def)
  have "dep_rel deps \<subseteq> measure (body_to_table ord)"
  proof (clarsimp simp: dep_rel_def)
    fix j i
    assume i: "i < length deps" "bit (deps ! i) j"
    then obtain p where p: "p < length ord" "ord ! p = i" using placed_all [OF ok] by (metis atLeastLessThan_iff in_set_conv_nth le0)
    with placed_before [OF ok p(1)] i obtain q where q: "q < p" "ord ! q = j" by auto
    have d: "distinct ord" using ok by (simp add: placed_ok_def)
    show "body_to_table ord j < body_to_table ord i" using body_to_table_nth [OF d, of p] body_to_table_nth [OF d, of q] p q by simp
  qed
  then show ?thesis by (rule acyclic_subset [OF wf_acyclic [OF wf_measure]])
qed

lemma table_mask_bit:
  assumes "length deps \<le> 32" "placed_ok deps ord" "length ord = length deps" "p < length ord"
  shows "bit (table_mask deps ord (ord ! p)) j \<longleftrightarrow> j < p \<and> bit (deps ! (ord ! p)) (ord ! j)"
proof -
  have d: "distinct ord" using assms(2) by (simp add: placed_ok_def)
  have "bit (table_mask deps ord (ord ! p)) j \<longleftrightarrow>
      (\<exists>k < length deps. bit (deps ! (ord ! p)) k \<and> j = body_to_table ord k) \<and> j < 32"
    by (auto simp: table_mask_def bit_mask_of and_pow_2_iff image_iff)
  also have "\<dots> \<longleftrightarrow> j < p \<and> bit (deps ! (ord ! p)) (ord ! j)"
  proof safe
    fix k
    assume k: "bit (deps ! (ord ! p)) k"
    from placed_before [OF assms(2-4) k] obtain q where "q < p" "ord ! q = k" by auto
    then show "body_to_table ord k < p" "bit (deps ! (ord ! p)) (ord ! body_to_table ord k)"
      using body_to_table_nth [OF d, of q] assms(4) k by auto
  next
    assume j: "j < p" "bit (deps ! (ord ! p)) (ord ! j)"
    have "ord ! j \<in> set ord" using j assms(4) by (intro nth_mem) simp
    then have "ord ! j < length deps" using placed_all [OF assms(2,3)] by simp
    then show "\<exists>k < length deps. bit (deps ! (ord ! p)) k \<and> j = body_to_table ord k"
      using j assms(4) by (intro exI [of _ "ord ! j"]) (simp add: body_to_table_nth [OF d])
    show "j < 32" using j assms by simp
  qed
  finally show ?thesis .
qed

end
