(* ===== verification/Init_Machine.thy ===== *)
theory Init_Machine
  imports Init_Reports Init_Order
begin

text \<open>
  What the supervisor of \<open>cix_init.c\<close> promises, as a state machine: \<open>sup_step ph now (d, vs) rs (d', vs')\<close>
  is one thing that may happen to the services \<open>vs\<close> at time \<open>now\<close>, with the reports \<open>rs\<close> it makes
  (\<open>d\<close>: shutting down).  A service's process appears only by \<open>started\<close>, is signalled only by the
  \<open>stop\<close> rules, and goes only by one of the \<open>exited\<close> rules.
\<close>

section \<open>Dependencies as edges\<close>

definition after_edge :: "svc list \<Rightarrow> nat \<Rightarrow> nat \<Rightarrow> bool" where
  "after_edge vs i j = (j < i \<and> i < length vs \<and> bit (ci_after_mask (sv_def (vs ! i))) j)"

lemma deps_scan_ok: "fst (deps_scan vs m js) \<longleftrightarrow> (\<forall>j \<in> set js. bit m j \<longrightarrow> \<not> dep_dead (vs ! j) \<and> dep_ready (vs ! j))"
  by (induction js) (auto simp: and_pow_2_iff)

lemma deps_scan_dead:
  "0 \<le> snd (deps_scan vs m js) \<Longrightarrow> nat (snd (deps_scan vs m js)) \<in> set js \<and> bit m (nat (snd (deps_scan vs m js))) \<and>
     dep_dead (vs ! nat (snd (deps_scan vs m js)))"
  by (induction js) (auto simp: and_pow_2_iff)

lemma dep_ready_not_dead: "dep_ready d \<Longrightarrow> \<not> dep_dead d"
  by (auto simp: dep_ready_def dep_dead_def split: if_split_asm)

lemma deps_satisfied_iff: "i < length vs \<Longrightarrow> fst (deps_satisfied vs i) \<longleftrightarrow> (\<forall>j. after_edge vs i j \<longrightarrow> dep_ready (vs ! j))"
  by (auto simp: deps_satisfied_def deps_scan_ok after_edge_def dest: dep_ready_not_dead)

lemma deps_satisfied_dead:
  "i < length vs \<Longrightarrow> 0 \<le> snd (deps_satisfied vs i) \<Longrightarrow>
     after_edge vs i (nat (snd (deps_satisfied vs i))) \<and> dep_dead (vs ! nat (snd (deps_satisfied vs i)))"
  using deps_scan_dead [of vs "ci_after_mask (sv_def (vs ! i))" "[0..<i]"] by (simp add: deps_satisfied_def after_edge_def)

lemma has_running_dependent_iff: "has_running_dependent vs i \<longleftrightarrow> (\<exists>j. after_edge vs j i \<and> 0 < sv_pid (vs ! j))"
  by (auto simp: has_running_dependent_def list_ex_iff after_edge_def and_pow_2_iff Bex_def Suc_le_eq)

text \<open>
  Services whose edges lead to smaller positions: the last one of any kind has no dependent of
  that kind, so stopping dependents first never blocks.
\<close>

locale ordered_services =
  fixes edge :: "'a list \<Rightarrow> nat \<Rightarrow> nat \<Rightarrow> bool"
  assumes edge_down: "edge vs i j \<Longrightarrow> j < i \<and> i < length vs"
begin

lemma last_is_free:
  assumes "\<exists>i < length vs. P (vs ! i)"
  obtains i where "i < length vs" "P (vs ! i)" "\<And>j. edge vs j i \<Longrightarrow> \<not> P (vs ! j)"
proof -
  let ?S = "{i. i < length vs \<and> P (vs ! i)}"
  have ne: "?S \<noteq> {}" "finite ?S" using assms by auto
  show thesis
  proof (rule that [of "Max ?S"])
    show "Max ?S < length vs" "P (vs ! Max ?S)" using Max_in [OF ne(2,1)] by auto
    fix j
    assume "edge vs j (Max ?S)"
    from edge_down [OF this] have "Max ?S < j" "j < length vs" by auto
    then have "j \<notin> ?S" using Max_ge [OF ne(2), of j] leD by blast
    with \<open>j < length vs\<close> show "\<not> P (vs ! j)" by simp
  qed
qed

end

interpretation deps: ordered_services after_edge
  by unfold_locales (simp add: after_edge_def)

section \<open>The machine\<close>

definition rep :: "nat \<Rightarrow> int \<Rightarrow> int \<Rightarrow> int \<Rightarrow> cixinit_report" where
  "rep i e a b = \<lparr>rp_service = int i, rp_event = e, rp_a = a, rp_b = b\<rparr>"

definition down_report :: "int \<Rightarrow> cixinit_report" where
  "down_report a = \<lparr>rp_service = - 1, rp_event = CIXINIT_EV_SHUTDOWN, rp_a = a, rp_b = 0\<rparr>"

text \<open>Nothing but the probe changed, and no probe process appeared.\<close>

definition same_run :: "svc \<Rightarrow> svc \<Rightarrow> bool" where
  "same_run v v' = (sv_def v' = sv_def v \<and> sv_state v' = sv_state v \<and> sv_pid v' = sv_pid v \<and>
     sv_restart_at v' = sv_restart_at v \<and> sv_stop_sent_at v' = sv_stop_sent_at v \<and> sv_killed v' = sv_killed v \<and>
     sv_exit_kind v' = sv_exit_kind v \<and> sv_exit_value v' = sv_exit_value v \<and> sv_restarts v' = sv_restarts v \<and>
     sv_operator_stopped v' = sv_operator_stopped v \<and> sv_restart_after_stop v' = sv_restart_after_stop v \<and>
     (sv_probe_pid v' = sv_probe_pid v \<or> sv_probe_pid v' = 0))"

definition gone :: "svc \<Rightarrow> int \<Rightarrow> int \<Rightarrow> svc" where
  "gone v k x = v\<lparr>sv_pid := 0, sv_exit_kind := k, sv_exit_value := x, sv_stop_sent_at := 0, sv_killed := False,
     sv_probe_pid := (if 0 < sv_probe_pid v then 0 else sv_probe_pid v),
     sv_probe_fd := (if 0 \<le> sv_probe_fd v then - 1 else sv_probe_fd v)\<rparr>"

definition halted :: "svc \<Rightarrow> svc" where
  "halted v = (if sv_state v = ST_PENDING \<or> sv_state v = ST_RESTART_WAIT then v\<lparr>sv_state := ST_EXITED\<rparr> else v)"

definition may_start :: "int \<Rightarrow> svc list \<Rightarrow> nat \<Rightarrow> bool" where
  "may_start now vs i = (sv_state (vs ! i) = ST_RESTART_WAIT \<and> sv_restart_at (vs ! i) \<le> now \<or>
     sv_state (vs ! i) = ST_PENDING \<and> \<not> sv_operator_stopped (vs ! i) \<and> (\<forall>j. after_edge vs i j \<longrightarrow> dep_ready (vs ! j)))"

definition exit_clean :: "int \<Rightarrow> int \<Rightarrow> bool" where
  "exit_clean k x = (k = CIXINIT_EXIT_KIND_EXITED \<and> x = 0)"

definition fails_container :: "svc \<Rightarrow> int \<Rightarrow> int \<Rightarrow> bool" where
  "fails_container v k x = (ci_on_exit (sv_def v) = CIXINIT_ON_EXIT_FAIL_CONTAINER \<and>
     \<not> (ci_type (sv_def v) = CIXINIT_TYPE_ONESHOT \<and> exit_clean k x))"

definition unasked :: "svc \<Rightarrow> bool" where
  "unasked v = (\<not> sv_restart_after_stop v \<and> \<not> sv_operator_stopped v)"

definition one_shot :: "svc \<Rightarrow> bool" where
  "one_shot v = (ci_type (sv_def v) = CIXINIT_TYPE_ONESHOT)"

type_synonym sup = "bool \<times> svc list"

text \<open>
  The phases of a turn: children are reaped and the termination signal is seen, then commands are
  taken for the services they name, then services are scheduled or, during a shutdown, stopped.
\<close>

datatype phase = Reaping | Commands "nat set" | Scheduling | Stopping

inductive sup_step :: "phase \<Rightarrow> int \<Rightarrow> sup \<Rightarrow> cixinit_report list \<Rightarrow> sup \<Rightarrow> bool" for ph :: phase and now :: int where
  probing: "i < length vs \<Longrightarrow> same_run (vs ! i) v' \<Longrightarrow> sup_step ph now (d, vs) [] (d, vs[i := v'])"
| probe_spawned: "ph = Scheduling \<Longrightarrow> i < length vs \<Longrightarrow> 0 < sv_pid (vs ! i) \<Longrightarrow> 0 < p \<Longrightarrow>
    sup_step ph now (d, vs) [] (d, vs[i := (vs ! i)\<lparr>sv_probe_pid := p, sv_probe_pid_deadline := t\<rparr>])"
| started: "ph = Scheduling \<Longrightarrow> i < length vs \<Longrightarrow> \<not> d \<Longrightarrow> may_start now vs i \<Longrightarrow> 0 < p \<Longrightarrow> sv_def v' = sv_def (vs ! i) \<Longrightarrow>
    sv_pid v' = p \<Longrightarrow> sv_state v' = ST_STARTING \<Longrightarrow> sv_stop_sent_at v' = 0 \<Longrightarrow> \<not> sv_killed v' \<Longrightarrow> sv_probe_pid v' = 0 \<Longrightarrow>
    sup_step ph now (d, vs) [rep i CIXINIT_EV_STARTING 0 0, rep i CIXINIT_EV_STARTED p 0] (d, vs[i := v'])"
| not_started: "ph = Scheduling \<Longrightarrow> i < length vs \<Longrightarrow> \<not> d \<Longrightarrow> may_start now vs i \<Longrightarrow>
    sup_step ph now (d, vs) [rep i CIXINIT_EV_STARTING 0 0, rep i CIXINIT_EV_FAILED CIXINIT_FAIL_SPAWN e]
      (d, vs[i := (vs ! i)\<lparr>sv_state := ST_FAILED, sv_exit_kind := CIXINIT_EXIT_KIND_EXITED, sv_exit_value := 126\<rparr>])"
| dep_failed: "ph = Scheduling \<Longrightarrow> i < length vs \<Longrightarrow> \<not> d \<Longrightarrow> sv_state (vs ! i) = ST_PENDING \<Longrightarrow> \<not> sv_operator_stopped (vs ! i) \<Longrightarrow>
    after_edge vs i j \<Longrightarrow> dep_dead (vs ! j) \<Longrightarrow>
    sup_step ph now (d, vs) [rep i CIXINIT_EV_FAILED CIXINIT_FAIL_DEPENDENCY (int j)] (d, vs[i := (vs ! i)\<lparr>sv_state := ST_FAILED\<rparr>])"
| became_ready: "ph = Reaping \<or> ph = Scheduling \<Longrightarrow> i < length vs \<Longrightarrow> sv_state (vs ! i) = ST_STARTING \<Longrightarrow> 0 < sv_pid (vs ! i) \<Longrightarrow>
    sup_step ph now (d, vs) [rep i CIXINIT_EV_READY 0 0] (d, vs[i := (vs ! i)\<lparr>sv_state := ST_READY\<rparr>])"
| probe_timed_out: "ph = Scheduling \<Longrightarrow> i < length vs \<Longrightarrow> sv_state (vs ! i) = ST_STARTING \<Longrightarrow> 0 < sv_pid (vs ! i) \<Longrightarrow>
    sv_probe_deadline (vs ! i) \<le> now \<Longrightarrow>
    sup_step ph now (d, vs) [rep i CIXINIT_EV_FAILED CIXINIT_FAIL_PROBE 0, rep i CIXINIT_EV_READY 1 0]
      (d, vs[i := (vs ! i)\<lparr>sv_state := ST_READY\<rparr>])"
| exited_down: "ph = Reaping \<Longrightarrow> i < length vs \<Longrightarrow> 0 < sv_pid (vs ! i) \<Longrightarrow>
    sup_step ph now (True, vs) [rep i CIXINIT_EV_EXITED k x] (True, vs[i := (gone (vs ! i) k x)\<lparr>sv_state := ST_EXITED\<rparr>])"
| exited_again: "ph = Reaping \<Longrightarrow> i < length vs \<Longrightarrow> 0 < sv_pid (vs ! i) \<Longrightarrow> sv_restart_after_stop (vs ! i) \<Longrightarrow>
    sup_step ph now (False, vs) [rep i CIXINIT_EV_EXITED k x]
      (False, vs[i := (gone (vs ! i) k x)\<lparr>sv_restart_after_stop := False, sv_state := ST_PENDING\<rparr>])"
| exited_held: "ph = Reaping \<Longrightarrow> i < length vs \<Longrightarrow> 0 < sv_pid (vs ! i) \<Longrightarrow> sv_operator_stopped (vs ! i) \<Longrightarrow> \<not> sv_restart_after_stop (vs ! i) \<Longrightarrow>
    sup_step ph now (False, vs) [rep i CIXINIT_EV_EXITED k x, rep i CIXINIT_EV_STOPPED 0 0]
      (False, vs[i := (gone (vs ! i) k x)\<lparr>sv_state := ST_STOPPED\<rparr>])"
| exited_done: "ph = Reaping \<Longrightarrow> i < length vs \<Longrightarrow> 0 < sv_pid (vs ! i) \<Longrightarrow> unasked (vs ! i) \<Longrightarrow> \<not> fails_container (vs ! i) k x \<Longrightarrow>
    (if one_shot (vs ! i) then exit_clean k x else ci_on_exit (sv_def (vs ! i)) \<noteq> CIXINIT_ON_EXIT_RESTART) \<Longrightarrow>
    sup_step ph now (False, vs) [rep i CIXINIT_EV_EXITED k x] (False, vs[i := (gone (vs ! i) k x)\<lparr>sv_state := ST_EXITED\<rparr>])"
| exited_failed: "ph = Reaping \<Longrightarrow> i < length vs \<Longrightarrow> 0 < sv_pid (vs ! i) \<Longrightarrow> unasked (vs ! i) \<Longrightarrow> \<not> fails_container (vs ! i) k x \<Longrightarrow>
    one_shot (vs ! i) \<Longrightarrow> \<not> exit_clean k x \<Longrightarrow>
    sup_step ph now (False, vs) [rep i CIXINIT_EV_EXITED k x, rep i CIXINIT_EV_FAILED CIXINIT_FAIL_ONESHOT st]
      (False, vs[i := (gone (vs ! i) k x)\<lparr>sv_state := ST_FAILED\<rparr>])"
| exited_restarts: "ph = Reaping \<Longrightarrow> i < length vs \<Longrightarrow> 0 < sv_pid (vs ! i) \<Longrightarrow> unasked (vs ! i) \<Longrightarrow> \<not> one_shot (vs ! i) \<Longrightarrow>
    ci_on_exit (sv_def (vs ! i)) = CIXINIT_ON_EXIT_RESTART \<Longrightarrow>
    sup_step ph now (False, vs) [rep i CIXINIT_EV_EXITED k x, rep i CIXINIT_EV_RESTART_IN (restart_delay (vs ! i)) (sv_restarts (vs ! i) + 1)]
      (False, vs[i := (gone (vs ! i) k x)\<lparr>sv_state := ST_RESTART_WAIT, sv_restart_at := now + restart_delay (vs ! i) * 1000,
         sv_restarts := sv_restarts (vs ! i) + 1\<rparr>])"
| exited_container: "ph = Reaping \<Longrightarrow> i < length vs \<Longrightarrow> 0 < sv_pid (vs ! i) \<Longrightarrow> unasked (vs ! i) \<Longrightarrow> fails_container (vs ! i) k x \<Longrightarrow>
    sup_step ph now (False, vs)
      ([rep i CIXINIT_EV_EXITED k x] @
       (if one_shot (vs ! i) then [rep i CIXINIT_EV_FAILED CIXINIT_FAIL_ONESHOT st] else []) @ [down_report 0])
      (True, map halted (vs[i := gone (vs ! i) k x]))"
| shutdown: "ph \<noteq> Stopping \<Longrightarrow> sup_step ph now (False, vs) [down_report 0] (True, map halted vs)"
| flagged: "ph = Commands N \<Longrightarrow> i \<in> N \<Longrightarrow> i < length vs \<Longrightarrow>
    sup_step ph now (d, vs) [] (d, vs[i := (vs ! i)\<lparr>sv_operator_stopped := a, sv_restart_after_stop := b\<rparr>])"
| requeued: "ph = Commands N \<Longrightarrow> i \<in> N \<Longrightarrow> i < length vs \<Longrightarrow> sv_pid (vs ! i) \<le> 0 \<Longrightarrow>
    sup_step ph now (d, vs) [] (d, vs[i := (vs ! i)\<lparr>sv_operator_stopped := False, sv_state := ST_PENDING,
      sv_restart_after_stop := b\<rparr>])"
| held: "ph = Commands N \<Longrightarrow> i \<in> N \<Longrightarrow> i < length vs \<Longrightarrow> sv_pid (vs ! i) \<le> 0 \<Longrightarrow>
    sup_step ph now (d, vs) [rep i CIXINIT_EV_STOPPED 0 0]
      (d, vs[i := (vs ! i)\<lparr>sv_operator_stopped := True, sv_restart_after_stop := False, sv_state := ST_STOPPED\<rparr>])"
| stop_asked: "ph = Commands N \<Longrightarrow> i \<in> N \<Longrightarrow> i < length vs \<Longrightarrow> 0 < sv_pid (vs ! i) \<Longrightarrow> sv_stop_sent_at (vs ! i) = 0 \<Longrightarrow>
    sv_operator_stopped (vs ! i) \<or> sv_restart_after_stop (vs ! i) \<Longrightarrow>
    sup_step ph now (d, vs) [] (d, vs[i := (vs ! i)\<lparr>sv_stop_sent_at := now\<rparr>])"
| stop_ordered: "ph = Stopping \<Longrightarrow> i < length vs \<Longrightarrow> 0 < sv_pid (vs ! i) \<Longrightarrow> sv_stop_sent_at (vs ! i) = 0 \<Longrightarrow>
    \<forall>j. after_edge vs j i \<longrightarrow> sv_pid (vs ! j) \<le> 0 \<Longrightarrow>
    sup_step ph now (d, vs) [] (d, vs[i := (vs ! i)\<lparr>sv_stop_sent_at := now\<rparr>])"
| stop_killed: "ph = Scheduling \<or> ph = Stopping \<Longrightarrow> i < length vs \<Longrightarrow> 0 < sv_pid (vs ! i) \<Longrightarrow> sv_stop_sent_at (vs ! i) \<noteq> 0 \<Longrightarrow>
    \<not> sv_killed (vs ! i) \<Longrightarrow> stop_timeout_ms (vs ! i) \<le> now - sv_stop_sent_at (vs ! i) \<Longrightarrow>
    sup_step ph now (d, vs) [] (d, vs[i := (vs ! i)\<lparr>sv_killed := True\<rparr>])"
| stop_complete: "ph = Stopping \<Longrightarrow> sup_step ph now (d, vs) [down_report 1] (d, vs)"

inductive sup_steps :: "phase \<Rightarrow> int \<Rightarrow> sup \<Rightarrow> cixinit_report list \<Rightarrow> sup \<Rightarrow> bool" for ph :: phase and now :: int where
  sup_none: "sup_steps ph now u [] u"
| sup_more: "sup_step ph now u rs w \<Longrightarrow> sup_steps ph now w rs' x \<Longrightarrow> sup_steps ph now u (rs @ rs') x"

lemma sup_steps_trans: "sup_steps ph now u rs w \<Longrightarrow> sup_steps ph now w rs' x \<Longrightarrow> sup_steps ph now u (rs @ rs') x"
proof (induction rule: sup_steps.induct)
  case (sup_more u rs w rs'' y)
  then show ?case using sup_steps.sup_more by (metis append.assoc)
qed simp

lemma sup_one: "sup_step ph now u rs w \<Longrightarrow> sup_steps ph now u rs w"
  using sup_more [OF _ sup_none] by fastforce

section \<open>Its invariant\<close>

definition svc_inv :: "bool \<Rightarrow> svc \<Rightarrow> bool" where
  "svc_inv d v = (0 \<le> sv_pid v \<and> 0 \<le> sv_probe_pid v \<and>
     (0 < sv_pid v \<longrightarrow> sv_state v = ST_STARTING \<or> sv_state v = ST_READY) \<and>
     (0 < sv_probe_pid v \<longrightarrow> 0 < sv_pid v) \<and>
     (\<not> d \<longrightarrow> sv_state v = ST_STARTING \<or> sv_state v = ST_READY \<longrightarrow> 0 < sv_pid v))"

definition sup_inv :: "sup \<Rightarrow> bool" where
  "sup_inv u = (\<forall>v \<in> set (snd u). svc_inv (fst u) v)"

lemma sup_inv_nth: "sup_inv (d, vs) \<Longrightarrow> i < length vs \<Longrightarrow> svc_inv d (vs ! i)"
  by (simp add: sup_inv_def)

lemma sup_inv_update: "sup_inv (d, vs) \<Longrightarrow> svc_inv d v' \<Longrightarrow> sup_inv (d, vs[i := v'])"
  by (auto simp: sup_inv_def dest!: set_update_subset_insert [THEN subsetD])

lemma svc_inv_halted: "svc_inv d v \<Longrightarrow> svc_inv True (halted v)"
  by (auto simp: svc_inv_def halted_def)

lemma svc_inv_gone: "svc_inv d v \<Longrightarrow> svc_inv True (gone v k x)"
  by (auto simp: svc_inv_def gone_def)

lemma sup_inv_halted: "\<forall>v \<in> set vs. svc_inv True v \<Longrightarrow> sup_inv (True, map halted vs)"
  by (auto simp: sup_inv_def intro: svc_inv_halted)

lemma svc_inv_down: "svc_inv d v \<Longrightarrow> svc_inv True v"
  by (simp add: svc_inv_def)

lemma sup_step_inv: "sup_step ph now u rs w \<Longrightarrow> sup_inv u \<Longrightarrow> sup_inv w"
proof (induction rule: sup_step.induct)
  case (probing i vs v' d)
  then show ?case using sup_inv_nth [OF probing(3,1)]
    by (intro sup_inv_update) (auto simp: svc_inv_def same_run_def)
next
  case (exited_container i vs k x st)
  have "\<forall>v \<in> set (vs[i := gone (vs ! i) k x]). svc_inv True v"
    using exited_container sup_inv_nth [OF exited_container(6,2)]
    by (auto simp: sup_inv_def dest!: set_update_subset_insert [THEN subsetD] intro: svc_inv_gone svc_inv_down)
  then show ?case by (rule sup_inv_halted)
next
  case (shutdown vs)
  then show ?case by (intro sup_inv_halted) (auto simp: sup_inv_def intro: svc_inv_down)
next
  case (stop_complete d vs)
  then show ?case by simp
qed (rule sup_inv_update, assumption, drule (1) sup_inv_nth, force simp: svc_inv_def gone_def may_start_def)+

lemma sup_steps_inv: "sup_steps ph now u rs w \<Longrightarrow> sup_inv u \<Longrightarrow> sup_inv w"
  by (induction rule: sup_steps.induct) (auto intro: sup_step_inv)

text \<open>While scheduling, a service that is starting or ready has its process, shutdown or not.\<close>

lemma sup_inv_False: "sup_inv (False, vs) \<Longrightarrow> sup_inv (d, vs)"
  by (auto simp: sup_inv_def svc_inv_def)

lemma svc_inv_halted_False: "svc_inv False v \<Longrightarrow> svc_inv False (halted v)"
  by (auto simp: svc_inv_def halted_def)

lemma sup_step_live: "sup_step Scheduling now u rs w \<Longrightarrow> sup_inv (False, snd u) \<Longrightarrow> sup_inv (False, snd w)"
proof (induction rule: sup_step.induct)
  case (probing i vs v' d)
  then show ?case using sup_inv_nth [of False vs i]
    by (simp only: snd_conv, intro sup_inv_update) (auto simp: svc_inv_def same_run_def)
next
  case (shutdown vs)
  then show ?case by (auto simp: sup_inv_def intro: svc_inv_halted_False)
qed ((simp; fail) | simp only: snd_conv, rule sup_inv_update, assumption, drule (1) sup_inv_nth, force simp: svc_inv_def may_start_def)+

lemma sup_steps_live: "sup_steps Scheduling now u rs w \<Longrightarrow> sup_inv (False, snd u) \<Longrightarrow> sup_inv (False, snd w)"
  by (induction rule: sup_steps.induct) (auto intro: sup_step_live)

section \<open>What each phase keeps\<close>

definition parked :: "sup \<Rightarrow> bool" where
  "parked u = (fst u \<longrightarrow> (\<forall>v \<in> set (snd u). sv_state v \<noteq> ST_PENDING \<and> sv_state v \<noteq> ST_RESTART_WAIT))"

lemma parked_update:
  "parked (d, vs) \<Longrightarrow> i < length vs \<Longrightarrow> (d \<Longrightarrow> sv_state v' = sv_state (vs ! i) \<or> sv_state v' \<noteq> ST_PENDING \<and> sv_state v' \<noteq> ST_RESTART_WAIT) \<Longrightarrow>
     parked (d, vs[i := v'])"
  by (cases d) (force simp: parked_def all_set_conv_all_nth nth_list_update)+

lemma parked_halted: "parked (True, map halted vs)"
  by (auto simp: parked_def halted_def)

text \<open>Outside the commands, nothing waits to start once the shutdown has begun.\<close>

lemma sup_step_parked:
  "sup_step ph now u rs w \<Longrightarrow> (\<And>N. ph = Commands N \<Longrightarrow> N = {}) \<Longrightarrow> parked u \<Longrightarrow> parked w"
  by (induction rule: sup_step.induct)
    (assumption | rule parked_halted | rule parked_update, assumption, assumption, force simp: same_run_def | simp)+

lemma sup_steps_parked:
  "sup_steps ph now u rs w \<Longrightarrow> (\<And>N. ph = Commands N \<Longrightarrow> N = {}) \<Longrightarrow> parked u \<Longrightarrow> parked w"
  by (induction rule: sup_steps.induct) (auto intro: sup_step_parked)

lemma halted_frame [simp]: "sv_def (halted v) = sv_def v" "sv_pid (halted v) = sv_pid v" "sv_stop_sent_at (halted v) = sv_stop_sent_at v"
  "sv_killed (halted v) = sv_killed v"
  by (simp_all add: halted_def)

lemma dep_ready_halted: "dep_ready v \<Longrightarrow> dep_ready (halted v)"
  by (auto simp: halted_def dep_ready_def split: if_split_asm)

lemma gone_frame [simp]: "sv_def (gone v k x) = sv_def v" "sv_pid (gone v k x) = 0" "sv_stop_sent_at (gone v k x) = 0"
  "sv_state (gone v k x) = sv_state v" "sv_exit_kind (gone v k x) = k" "sv_exit_value (gone v k x) = x"
  by (simp_all add: gone_def)

text \<open>A relation between a service before and after that every change of the phase respects.\<close>

lemma list_all2_step: "(\<And>v. R v v) \<Longrightarrow> i < length vs \<Longrightarrow> R (vs ! i) v' \<Longrightarrow> list_all2 R vs (vs[i := v'])"
  by (auto simp: list_all2_conv_all_nth nth_list_update)

lemma list_all2_halted: "(\<And>v. R v (halted v)) \<Longrightarrow> list_all2 R vs (map halted vs)"
  by (simp add: list_all2_conv_all_nth)

lemma list_all2_steps:
  assumes "\<And>u rs w. sup_step ph now u rs w \<Longrightarrow> list_all2 R (snd u) (snd w)"
    and "\<And>v. R v v" "\<And>a b c. R a b \<Longrightarrow> R b c \<Longrightarrow> R a c"
  shows "sup_steps ph now u rs w \<Longrightarrow> list_all2 R (snd u) (snd w)"
proof (induction rule: sup_steps.induct)
  case (sup_none u)
  then show ?case by (simp add: assms(2) list_all2_refl)
next
  case (sup_more u rs w rs' x)
  show ?case by (rule list_all2_trans [of R R R, OF assms(3) assms(1) [OF sup_more(1)] sup_more(3)])
qed

text \<open>Positions and declarations never change; a shutdown is never called off.\<close>

lemma sup_step_frame: "sup_step ph now u rs w \<Longrightarrow> list_all2 (\<lambda>v v'. sv_def v' = sv_def v) (snd u) (snd w) \<and> (fst u \<longrightarrow> fst w)"
proof (induction rule: sup_step.induct)
  case (exited_container i vs k x st)
  then show ?case by (auto simp: list_all2_conv_all_nth nth_list_update)
next
  case (shutdown vs)
  then show ?case by (simp add: list_all2_conv_all_nth)
next
  case (stop_complete d vs)
  then show ?case by (simp add: list_all2_refl)
qed (simp only: snd_conv fst_conv, rule conjI, rule list_all2_step [where R = "\<lambda>v v'. sv_def v' = sv_def v"],
    rule refl, assumption, simp add: same_run_def, simp)+

lemma sup_steps_frame: "sup_steps ph now u rs w \<Longrightarrow> map sv_def (snd w) = map sv_def (snd u) \<and> (fst u \<longrightarrow> fst w)"
proof (induction rule: sup_steps.induct)
  case (sup_more u rs w rs' x)
  from sup_step_frame [OF sup_more(1)] have "map sv_def (snd w) = map sv_def (snd u)"
    by (auto simp: list_all2_conv_all_nth intro: nth_equalityI)
  with sup_more(3) sup_step_frame [OF sup_more(1)] show ?case by simp
qed simp

lemma sup_steps_length: "sup_steps ph now u rs w \<Longrightarrow> length (snd w) = length (snd u)"
  using sup_steps_frame [of ph now u rs w] by (metis length_map)

text \<open>Outside the scheduling no process appears.\<close>

definition calm :: "int \<Rightarrow> svc \<Rightarrow> svc \<Rightarrow> bool" where
  "calm now v v' = ((sv_pid v' = sv_pid v \<or> sv_pid v' = 0) \<and>
     (sv_state v' = ST_RESTART_WAIT \<longrightarrow> sv_state v = ST_RESTART_WAIT \<and> sv_restart_at v' = sv_restart_at v \<or> now < sv_restart_at v'))"

lemma calm_refl: "calm now v v"
  by (simp add: calm_def)

lemma calm_trans: "calm now a b \<Longrightarrow> calm now b c \<Longrightarrow> calm now a c"
  by (auto simp: calm_def)

lemma calm_halted: "calm now v (halted v)"
  by (simp add: calm_def halted_def)

lemma restart_delay_pos: "0 < restart_delay v"
  by (simp add: restart_delay_def)

lemma calm_gone: "sv_state v' \<noteq> ST_RESTART_WAIT \<Longrightarrow> sv_pid v' = 0 \<Longrightarrow> calm now v v'"
  by (simp add: calm_def)

lemma sup_step_calm: "sup_step ph now u rs w \<Longrightarrow> ph \<noteq> Scheduling \<Longrightarrow> list_all2 (calm now) (snd u) (snd w)"
proof (induction rule: sup_step.induct)
  case (exited_container i vs k x st)
  have "list_all2 (calm now) vs (vs[i := gone (vs ! i) k x])"
    using exited_container(2) by (intro list_all2_step [where R = "calm now"] calm_refl) (simp_all add: calm_def gone_def)
  moreover have "list_all2 (calm now) (vs[i := gone (vs ! i) k x]) (map halted (vs[i := gone (vs ! i) k x]))"
    by (rule list_all2_halted [where R = "calm now"]) (rule calm_halted)
  ultimately show ?case by (simp only: snd_conv) (rule list_all2_trans [of "calm now" "calm now" "calm now", OF calm_trans])
next
  case (shutdown vs)
  then show ?case using list_all2_halted [where R = "calm now"] calm_halted by simp
next
  case (stop_complete d vs)
  then show ?case by (simp add: list_all2_refl calm_refl)
next
  case (exited_restarts i vs k x)
  then show ?case using restart_delay_pos [of "vs ! i"]
    by (simp only: snd_conv) (rule list_all2_step [where R = "calm now"], simp_all add: calm_def gone_def)
qed ((simp; fail) | simp only: snd_conv, rule list_all2_step [where R = "calm now"], rule calm_refl, assumption,
    simp add: calm_def gone_def same_run_def)+

lemma sup_steps_calm: "ph \<noteq> Scheduling \<Longrightarrow> sup_steps ph now u rs w \<Longrightarrow> list_all2 (calm now) (snd u) (snd w)"
  by (rule list_all2_steps [where R = "calm now"], rule sup_step_calm) (assumption | rule calm_refl | erule (1) calm_trans)+

text \<open>While scheduling, a process appears only where the dependencies are, and stay, ready.\<close>

definition sched_ok :: "int \<Rightarrow> svc list \<Rightarrow> svc list \<Rightarrow> bool" where
  "sched_ok now vs0 vs = (length vs = length vs0 \<and> (\<forall>i < length vs.
     (sv_state (vs ! i) = ST_RESTART_WAIT \<longrightarrow> sv_state (vs0 ! i) = ST_RESTART_WAIT \<and> sv_restart_at (vs ! i) = sv_restart_at (vs0 ! i)) \<and>
     (0 < sv_pid (vs ! i) \<and> sv_pid (vs ! i) \<noteq> sv_pid (vs0 ! i) \<longrightarrow>
        sv_state (vs0 ! i) = ST_RESTART_WAIT \<and> sv_restart_at (vs0 ! i) \<le> now \<or> (\<forall>j. after_edge vs i j \<longrightarrow> dep_ready (vs ! j)))))"

lemma after_edge_cong: "map sv_def vs' = map sv_def vs \<Longrightarrow> after_edge vs' i j = after_edge vs i j"
proof -
  assume m: "map sv_def vs' = map sv_def vs"
  then have l: "length vs' = length vs" by (metis length_map)
  then have "i < length vs \<Longrightarrow> sv_def (vs' ! i) = sv_def (vs ! i)" using m by (metis nth_map)
  with l show ?thesis by (auto simp: after_edge_def)
qed

lemma sched_ok_update:
  assumes "sched_ok now vs0 vs" "i < length vs" "sv_def v' = sv_def (vs ! i)" "dep_ready (vs ! i) \<Longrightarrow> dep_ready v'"
    and "sv_state v' = ST_RESTART_WAIT \<Longrightarrow> sv_state (vs ! i) = ST_RESTART_WAIT \<and> sv_restart_at v' = sv_restart_at (vs ! i)"
    and "0 < sv_pid v' \<Longrightarrow> sv_pid v' = sv_pid (vs ! i) \<or> may_start now vs i"
  shows "sched_ok now vs0 (vs[i := v'])"
  unfolding sched_ok_def
proof (intro conjI allI impI)
  have e: "after_edge (vs[i := v']) k j = after_edge vs k j" for k j
    using assms(2,3) by (intro after_edge_cong) (simp add: map_update list_update_same_conv)
  have r: "dep_ready (vs ! j) \<Longrightarrow> dep_ready (vs[i := v'] ! j)" for j using assms(2,4) by (cases "j = i") simp_all
  note ok = assms(1) [unfolded sched_ok_def]
  show "length (vs[i := v']) = length vs0" using ok by simp
  fix k
  assume k: "k < length (vs[i := v'])"
  {
    assume "sv_state (vs[i := v'] ! k) = ST_RESTART_WAIT"
    then show "sv_state (vs0 ! k) = ST_RESTART_WAIT" "sv_restart_at (vs[i := v'] ! k) = sv_restart_at (vs0 ! k)"
      using ok k assms(2,5) by (cases "k = i"; simp)+
  }
  assume p: "0 < sv_pid (vs[i := v'] ! k) \<and> sv_pid (vs[i := v'] ! k) \<noteq> sv_pid (vs0 ! k)"
  show "sv_state (vs0 ! k) = ST_RESTART_WAIT \<and> sv_restart_at (vs0 ! k) \<le> now \<or> (\<forall>j. after_edge (vs[i := v']) k j \<longrightarrow> dep_ready (vs[i := v'] ! j))"
  proof (cases "k = i \<and> may_start now vs i")
    case True
    then show ?thesis using ok assms(2) r unfolding may_start_def e by auto
  next
    case False
    then have "0 < sv_pid (vs ! k) \<and> sv_pid (vs ! k) \<noteq> sv_pid (vs0 ! k)" using p k assms(2,6) by (cases "k = i") auto
    then show ?thesis using ok k r unfolding e by auto
  qed
qed

lemma sched_ok_halted: 
  assumes "sched_ok now vs0 vs"
  shows "sched_ok now vs0 (map halted vs)"
proof -
  have e: "after_edge (map halted vs) k j = after_edge vs k j" for k j by (rule after_edge_cong) simp
  note r = dep_ready_halted
  have "sv_state (halted v) \<noteq> ST_RESTART_WAIT" for v by (simp add: halted_def)
  then show ?thesis using assms r unfolding sched_ok_def e by (auto simp: after_edge_def)
qed

lemma not_ready_yet: "sv_state v = ST_PENDING \<or> sv_state v = ST_RESTART_WAIT \<or> sv_state v = ST_STARTING \<Longrightarrow> \<not> dep_ready v"
  by (auto simp: dep_ready_def)

lemma may_start_state: "may_start now vs i \<Longrightarrow> sv_state (vs ! i) = ST_PENDING \<or> sv_state (vs ! i) = ST_RESTART_WAIT"
  by (auto simp: may_start_def)

lemma sup_step_sched:
  "sup_step Scheduling now u rs w \<Longrightarrow> sched_ok now vs0 (snd u) \<Longrightarrow> sched_ok now vs0 (snd w)"
proof (induction rule: sup_step.induct)
  case (shutdown vs)
  then show ?case using sched_ok_halted by simp
next
  case (probing i vs v' d)
  then show ?case by (simp only: snd_conv, intro sched_ok_update) (auto simp: same_run_def dep_ready_def)
next
  case (stop_killed i vs d)
  then show ?case by (simp only: snd_conv, intro sched_ok_update) (auto simp: dep_ready_def)
next
  case (probe_spawned i vs p d t)
  then show ?case by (simp only: snd_conv, intro sched_ok_update) (auto simp: dep_ready_def)
next
  case (started i vs d p v')
  then show ?case using not_ready_yet [of "vs ! i"] may_start_state [of now vs i]
    by (simp only: snd_conv) (rule sched_ok_update, auto)
next
  case (not_started i vs d e)
  then show ?case using not_ready_yet [of "vs ! i"] may_start_state [of now vs i]
    by (simp only: snd_conv) (rule sched_ok_update, auto)
next
  case (dep_failed i vs d j)
  then show ?case using not_ready_yet [of "vs ! i"] by (simp only: snd_conv) (rule sched_ok_update, auto)
next
  case (became_ready i vs d)
  then show ?case using not_ready_yet [of "vs ! i"] by (simp only: snd_conv) (rule sched_ok_update, auto)
next
  case (probe_timed_out i vs d)
  then show ?case using not_ready_yet [of "vs ! i"] by (simp only: snd_conv) (rule sched_ok_update, auto)
qed simp_all

lemma sup_steps_sched: "sup_steps Scheduling now u rs w \<Longrightarrow> sched_ok now vs0 (snd u) \<Longrightarrow> sched_ok now vs0 (snd w)"
  by (induction rule: sup_steps.induct) (auto intro: sup_step_sched)

text \<open>A stop signal goes only to a service that was named, or whose dependents are gone.\<close>

definition stops_ok :: "nat set \<Rightarrow> svc list \<Rightarrow> svc list \<Rightarrow> bool" where
  "stops_ok N vs0 vs = (length vs = length vs0 \<and> (\<forall>i < length vs.
     sv_stop_sent_at (vs0 ! i) = 0 \<longrightarrow> sv_stop_sent_at (vs ! i) = 0 \<or> i \<in> N \<or> (\<forall>j. after_edge vs j i \<longrightarrow> sv_pid (vs ! j) \<le> 0)))"

lemma stops_ok_update:
  assumes "stops_ok N vs0 vs" "i < length vs" "sv_def v' = sv_def (vs ! i)" "sv_pid v' = sv_pid (vs ! i) \<or> sv_pid v' = 0"
    and "sv_stop_sent_at v' = sv_stop_sent_at (vs ! i) \<or> sv_stop_sent_at v' = 0 \<or> i \<in> N \<or> (\<forall>j. after_edge vs j i \<longrightarrow> sv_pid (vs ! j) \<le> 0)"
  shows "stops_ok N vs0 (vs[i := v'])"
proof -
  have e: "after_edge (vs[i := v']) k j = after_edge vs k j" for k j
    using assms(2,3) by (intro after_edge_cong) (simp add: map_update list_update_same_conv)
  have p: "sv_pid (vs ! j) \<le> 0 \<Longrightarrow> sv_pid (vs[i := v'] ! j) \<le> 0" for j using assms(2,4) by (cases "j = i") auto
  have "sv_stop_sent_at (vs[i := v'] ! k) = 0 \<or> k \<in> N \<or> (\<forall>j. after_edge vs j k \<longrightarrow> sv_pid (vs[i := v'] ! j) \<le> 0)"
    if "k < length vs" "sv_stop_sent_at (vs0 ! k) = 0" for k
    using that assms(1,2,5) p by (cases "k = i") (auto simp: stops_ok_def)
  then show ?thesis using assms(1) by (simp add: stops_ok_def e)
qed

lemma stops_ok_halted: "stops_ok N vs0 vs \<Longrightarrow> stops_ok N vs0 (map halted vs)"
proof -
  have e: "after_edge (map halted vs) k j = after_edge vs k j" for k j by (rule after_edge_cong) simp
  have p: "after_edge vs j k \<Longrightarrow> sv_pid (map halted vs ! j) = sv_pid (vs ! j)" for j k by (simp add: after_edge_def)
  assume "stops_ok N vs0 vs"
  then show ?thesis unfolding stops_ok_def e using p by simp
qed

lemma sup_step_stops:
  "sup_step ph now u rs w \<Longrightarrow> ph \<noteq> Scheduling \<Longrightarrow> (\<And>M. ph = Commands M \<Longrightarrow> M \<subseteq> N) \<Longrightarrow> stops_ok N vs0 (snd u) \<Longrightarrow> stops_ok N vs0 (snd w)"
proof (induction rule: sup_step.induct)
  case (exited_container i vs k x st)
  then have "stops_ok N vs0 (vs[i := gone (vs ! i) k x])" by (simp only: snd_conv) (rule stops_ok_update, simp_all)
  then show ?case using stops_ok_halted by simp
next
  case (shutdown vs)
  then show ?case using stops_ok_halted by simp
next
  case (stop_complete d vs)
  then show ?case by simp
next
  case (stop_asked M i vs d)
  then have "i \<in> N" by auto
  with stop_asked show ?case by (simp only: snd_conv) (rule stops_ok_update, simp_all)
next
  case (stop_ordered i vs d)
  then show ?case by (simp only: snd_conv) (rule stops_ok_update, simp_all)
qed ((simp; fail) | simp only: snd_conv, rule stops_ok_update, assumption, assumption,
    simp add: same_run_def, simp add: same_run_def, simp add: same_run_def)+

lemma sup_steps_stops:
  "sup_steps ph now u rs w \<Longrightarrow> ph \<noteq> Scheduling \<Longrightarrow> (\<And>M. ph = Commands M \<Longrightarrow> M \<subseteq> N) \<Longrightarrow> stops_ok N vs0 (snd u) \<Longrightarrow> stops_ok N vs0 (snd w)"
  by (induction rule: sup_steps.induct) (auto intro: sup_step_stops)

text \<open>Outside the stopping phase only a command that names a service has it signalled.\<close>

lemma sup_step_unsent:
  "sup_step ph now u rs w \<Longrightarrow> ph \<noteq> Stopping \<Longrightarrow> (\<And>N. ph = Commands N \<Longrightarrow> i \<notin> N) \<Longrightarrow> i < length (snd u) \<Longrightarrow>
     sv_stop_sent_at (snd u ! i) = 0 \<Longrightarrow> sv_stop_sent_at (snd w ! i) = 0"
  by (induction rule: sup_step.induct) (auto simp: nth_list_update same_run_def gone_def)

lemma sup_steps_unsent:
  "sup_steps ph now u rs w \<Longrightarrow> ph \<noteq> Stopping \<Longrightarrow> (\<And>N. ph = Commands N \<Longrightarrow> i \<notin> N) \<Longrightarrow> i < length (snd u) \<Longrightarrow>
     sv_stop_sent_at (snd u ! i) = 0 \<Longrightarrow> sv_stop_sent_at (snd w ! i) = 0"
proof (induction rule: sup_steps.induct)
  case (sup_more u rs w rs' x)
  show ?case using sup_more(3) sup_step_unsent [OF sup_more(1)] list_all2_lengthD [OF conjunct1 [OF sup_step_frame [OF sup_more(1)]]] sup_more(4-7) by simp
qed simp

text \<open>When nothing is scheduled and no command names a service: processes only go, and signals stay sent.\<close>

definition unattended :: "phase \<Rightarrow> bool" where
  "unattended ph = (ph = Reaping \<or> ph = Stopping \<or> ph = Commands {})"

definition steady :: "svc \<Rightarrow> svc \<Rightarrow> bool" where
  "steady v v' = (sv_def v' = sv_def v \<and> (sv_pid v' = sv_pid v \<or> sv_pid v' = 0) \<and> (sv_probe_pid v' = sv_probe_pid v \<or> sv_probe_pid v' = 0) \<and>
     (0 < sv_pid v' \<longrightarrow> (sv_stop_sent_at v \<noteq> 0 \<longrightarrow> sv_stop_sent_at v' = sv_stop_sent_at v) \<and> (sv_killed v \<longrightarrow> sv_killed v')))"

lemma steady_refl: "steady v v"
  by (simp add: steady_def)

lemma steady_trans: "steady a b \<Longrightarrow> steady b c \<Longrightarrow> steady a c"
  unfolding steady_def by (elim conjE disjE; simp)

lemma steady_gone: "sv_pid v' = 0 \<Longrightarrow> sv_def v' = sv_def v \<Longrightarrow> sv_probe_pid v' = sv_probe_pid v \<or> sv_probe_pid v' = 0 \<Longrightarrow> steady v v'"
  by (simp add: steady_def)

lemma probe_pid_gone [simp]: "sv_probe_pid (gone v k x) = (if 0 < sv_probe_pid v then 0 else sv_probe_pid v)"
  by (simp add: gone_def)

lemma probe_pid_halted [simp]: "sv_probe_pid (halted v) = sv_probe_pid v"
  by (simp add: halted_def)

lemma steady_halted: "steady v (halted v)"
  by (simp add: steady_def)

lemma sup_step_steady: "sup_step ph now u rs w \<Longrightarrow> unattended ph \<Longrightarrow> list_all2 steady (snd u) (snd w)"
proof (induction rule: sup_step.induct)
  case (exited_container i vs k x st)
  have "list_all2 steady vs (vs[i := gone (vs ! i) k x])"
    using exited_container(2) by (intro list_all2_step [where R = steady] steady_refl steady_gone) simp_all
  moreover have "list_all2 steady (vs[i := gone (vs ! i) k x]) (map halted (vs[i := gone (vs ! i) k x]))"
    by (rule list_all2_halted [where R = steady]) (rule steady_halted)
  ultimately show ?case by (simp only: snd_conv) (rule list_all2_trans [of steady steady steady, OF steady_trans])
next
  case (shutdown vs)
  then show ?case using list_all2_halted [where R = steady] steady_halted by simp
next
  case (stop_complete d vs)
  then show ?case by (simp add: list_all2_refl steady_refl)
qed ((simp add: unattended_def; fail) | simp only: snd_conv, rule list_all2_step [where R = steady], rule steady_refl, assumption,
    simp add: steady_def same_run_def)+

lemma sup_steps_steady: "unattended ph \<Longrightarrow> sup_steps ph now u rs w \<Longrightarrow> list_all2 steady (snd u) (snd w)"
  by (rule list_all2_steps [where R = steady], rule sup_step_steady) (assumption | rule steady_refl | erule (1) steady_trans)+

text \<open>During a shutdown a service without a process is left as it is.\<close>

definition left_alone :: "svc \<Rightarrow> svc \<Rightarrow> bool" where
  "left_alone v v' = (sv_pid v \<le> 0 \<longrightarrow> sv_pid v' \<le> 0 \<and> sv_state v' = sv_state v \<and> sv_operator_stopped v' = sv_operator_stopped v \<and> sv_def v' = sv_def v)"

lemma left_alone_refl: "left_alone v v"
  by (simp add: left_alone_def)

lemma left_alone_trans: "left_alone a b \<Longrightarrow> left_alone b c \<Longrightarrow> left_alone a c"
  by (simp add: left_alone_def)

lemma sup_step_left_alone: "sup_step ph now u rs w \<Longrightarrow> unattended ph \<Longrightarrow> fst u \<Longrightarrow> list_all2 left_alone (snd u) (snd w)"
proof (induction rule: sup_step.induct)
  case (stop_complete d vs)
  then show ?case by (simp add: list_all2_refl left_alone_refl)
qed ((simp add: unattended_def; fail) | simp only: snd_conv, rule list_all2_step [where R = left_alone], rule left_alone_refl, assumption,
    simp add: left_alone_def same_run_def)+

lemma sup_steps_left_alone: "sup_steps ph now u rs w \<Longrightarrow> unattended ph \<Longrightarrow> fst u \<Longrightarrow> list_all2 left_alone (snd u) (snd w)"
proof (induction rule: sup_steps.induct)
  case (sup_none u)
  show ?case by (simp add: list_all2_refl left_alone_refl)
next
  case (sup_more u rs w rs' x)
  have "fst w" using sup_step_frame [OF sup_more(1)] sup_more(5) by simp
  then show ?case
    by (intro list_all2_trans [of left_alone left_alone left_alone, OF left_alone_trans sup_step_left_alone [OF sup_more(1,4,5)]] sup_more(3,4))
qed

end
