(* ===== verification/Init_Sim.thy ===== *)
theory Init_Sim
  imports Init_Machine
begin

text \<open>
  Every turn of \<open>cix_init.c\<close> is a run of the machine of \<open>Init_Machine\<close>: \<open>sim ph now s s'\<close> says that
  the operation taking \<open>s\<close> to \<open>s'\<close> is a sequence of its steps in phase \<open>ph\<close>, and adds the reports of
  those steps to the queue.
\<close>

definition view :: "cix_init \<Rightarrow> sup" where
  "view s = (g_shutting_down s, g_svc s)"

definition sim :: "phase \<Rightarrow> int \<Rightarrow> cix_init \<Rightarrow> cix_init \<Rightarrow> bool" where
  "sim ph now s s' = (\<exists>rs. sup_steps ph now (view s) rs (view s') \<and> emitted s s' rs)"

lemma sim_refl [simp]: "sim ph now s s"
  unfolding sim_def using sup_none emitted_refl by blast

lemma sim_trans: "sim ph now s s' \<Longrightarrow> sim ph now s' s'' \<Longrightarrow> sim ph now s s''"
  unfolding sim_def using sup_steps_trans emitted_trans by blast

lemma sim_step: "sup_step ph now (view s) rs (view s') \<Longrightarrow> emitted s s' rs \<Longrightarrow> sim ph now s s'"
  unfolding sim_def using sup_one by blast

lemma sim_inv: "sim ph now s s' \<Longrightarrow> sup_inv (view s) \<Longrightarrow> sup_inv (view s')"
  unfolding sim_def using sup_steps_inv by blast

lemma sim_length: "sim ph now s s' \<Longrightarrow> length (g_svc s') = length (g_svc s)"
  unfolding sim_def by (auto dest!: sup_steps_length simp: view_def)

lemma sim_parked: "sim ph now s s' \<Longrightarrow> (\<And>N. ph = Commands N \<Longrightarrow> N = {}) \<Longrightarrow> parked (view s) \<Longrightarrow> parked (view s')"
  unfolding sim_def using sup_steps_parked by blast

lemma sim_down: "sim ph now s s' \<Longrightarrow> g_shutting_down s \<Longrightarrow> g_shutting_down s'"
  unfolding sim_def by (auto dest!: sup_steps_frame simp: view_def)

section \<open>Frames of the small operations\<close>

lemma emitted_same:
  "g_pending s'' = g_pending s' \<Longrightarrow> g_pending_head s'' = g_pending_head s' \<Longrightarrow> g_pending_count s'' = g_pending_count s' \<Longrightarrow>
     g_pending_dropped s'' = g_pending_dropped s' \<Longrightarrow> delivered s'' = delivered s' \<Longrightarrow> emitted s s'' rs = emitted s s' rs"
  by (simp add: emitted_def ring_inv_def all_reports_def ring_items_def)

lemma emitted_upd [simp]: "emitted s (upd_svc i f s') rs = emitted s s' rs"
  by (rule emitted_same) (simp_all add: upd_svc_def delivered_def)

lemma emitted_call [simp]: "sent_report c = [] \<Longrightarrow> emitted s (call c s') rs = emitted s s' rs"
  by (rule emitted_same) (simp_all add: call_def delivered_def)

lemma emitted_fields [simp]:
  "emitted s (s'\<lparr>g_exit_code := c\<rparr>) rs = emitted s s' rs" "emitted s (s'\<lparr>g_exited := x\<rparr>) rs = emitted s s' rs"
  "emitted s (s'\<lparr>g_control_fd := k\<rparr>) rs = emitted s s' rs" "emitted s (s'\<lparr>g_shutting_down := d\<rparr>) rs = emitted s s' rs"
  by (rule emitted_same; simp add: delivered_def)+

lemma emitted_snoc:
  assumes "emitted s s' (butlast rs)" "rs \<noteq> []" "last rs = \<lparr>rp_service = i, rp_event = e, rp_a = a, rp_b = b\<rparr>"
  shows "emitted s (report i e a b s') rs"
  using emitted_trans [OF assms(1) emitted_report [of s' i e a b]] assms(2,3) by (metis append_butlast_last_id)

lemma upd_frame [simp]:
  "g_svc (upd_svc i f s) = (g_svc s)[i := f (g_svc s ! i)]" "g_shutting_down (upd_svc i f s) = g_shutting_down s"
  "g_exit_code (upd_svc i f s) = g_exit_code s" "g_exited (upd_svc i f s) = g_exited s"
  "g_control_fd (upd_svc i f s) = g_control_fd s" "g_addr_be (upd_svc i f s) = g_addr_be s"
  by (simp_all add: upd_svc_def)

lemma call_frame [simp]:
  "g_svc (call c s) = g_svc s" "g_shutting_down (call c s) = g_shutting_down s" "g_exit_code (call c s) = g_exit_code s"
  "g_exited (call c s) = g_exited s" "g_control_fd (call c s) = g_control_fd s" "g_addr_be (call c s) = g_addr_be s"
  by (simp_all add: call_def)

lemma set_state_frame [simp]:
  "g_svc (set_state i st s) = (g_svc s)[i := (g_svc s ! i)\<lparr>sv_state := st\<rparr>]" "g_shutting_down (set_state i st s) = g_shutting_down s"
  "g_exited (set_state i st s) = g_exited s" "g_control_fd (set_state i st s) = g_control_fd s" "emitted s0 (set_state i st s) rs = emitted s0 s rs"
  by (simp_all add: set_state_def)

lemma release_frame [simp]:
  "g_svc (probe_fd_release i s) = (g_svc s)[i := (g_svc s ! i)\<lparr>sv_probe_fd := (if 0 \<le> sv_probe_fd (g_svc s ! i) then - 1 else sv_probe_fd (g_svc s ! i))\<rparr>]"
  "g_shutting_down (probe_fd_release i s) = g_shutting_down s" "g_exited (probe_fd_release i s) = g_exited s"
  "g_control_fd (probe_fd_release i s) = g_control_fd s" "emitted s0 (probe_fd_release i s) rs = emitted s0 s rs"
  by (simp_all add: probe_fd_release_def list_update_same_conv)

section \<open>Quiet changes\<close>

text \<open>Only the probe of service \<open>i\<close> changed.\<close>

definition quiet :: "nat \<Rightarrow> cix_init \<Rightarrow> cix_init \<Rightarrow> bool" where
  "quiet i s s' = (\<exists>v'. g_svc s' = (g_svc s)[i := v'] \<and> same_run (g_svc s ! i) v' \<and> sv_probe_deadline v' = sv_probe_deadline (g_svc s ! i) \<and>
     g_shutting_down s' = g_shutting_down s \<and> emitted s s' [])"

lemma same_run_refl [simp]: "same_run v v"
  by (simp add: same_run_def)

lemma quiet_refl [simp]: "quiet i s s"
  unfolding quiet_def by (rule exI [of _ "g_svc s ! i"]) simp

lemma quiet_intro:
  "g_svc s' = (g_svc s)[i := v'] \<Longrightarrow> same_run (g_svc s ! i) v' \<Longrightarrow> sv_probe_deadline v' = sv_probe_deadline (g_svc s ! i) \<Longrightarrow>
     g_shutting_down s' = g_shutting_down s \<Longrightarrow> emitted s s' [] \<Longrightarrow> quiet i s s'"
  by (auto simp: quiet_def)

lemma same_run_trans: "same_run a b \<Longrightarrow> same_run b c \<Longrightarrow> same_run a c"
  by (auto simp: same_run_def)

lemma quiet_trans:
  assumes "i < length (g_svc s)" "quiet i s s'" "quiet i s' s''"
  shows "quiet i s s''"
proof -
  from assms(2) obtain v' where v': "g_svc s' = (g_svc s)[i := v']" "same_run (g_svc s ! i) v'"
    "sv_probe_deadline v' = sv_probe_deadline (g_svc s ! i)" "g_shutting_down s' = g_shutting_down s" "emitted s s' []"
    by (auto simp: quiet_def)
  from assms(3) obtain v'' where v'': "g_svc s'' = (g_svc s')[i := v'']" "same_run (g_svc s' ! i) v''"
    "sv_probe_deadline v'' = sv_probe_deadline (g_svc s' ! i)" "g_shutting_down s'' = g_shutting_down s'" "emitted s' s'' []"
    by (auto simp: quiet_def)
  have "same_run (g_svc s ! i) v''" using same_run_trans [OF v'(2)] v''(2) v'(1) assms(1) by simp
  moreover have "emitted s s'' []" using emitted_trans [OF v'(5) v''(5)] by simp
  ultimately show ?thesis using v' v'' assms(1) by (intro quiet_intro [where v' = v'']) simp_all
qed

lemma quiet_sim: "i < length (g_svc s) \<Longrightarrow> quiet i s s' \<Longrightarrow> sim ph now s s'"
  unfolding quiet_def by (elim exE conjE, rule sim_step) (auto simp: view_def intro: probing)

lemma quiet_facts:
  assumes "i < length (g_svc s)" "quiet i s s'"
  shows "length (g_svc s') = length (g_svc s)" "sv_state (g_svc s' ! i) = sv_state (g_svc s ! i)" "sv_pid (g_svc s' ! i) = sv_pid (g_svc s ! i)"
    "sv_probe_deadline (g_svc s' ! i) = sv_probe_deadline (g_svc s ! i)"
  using assms by (auto simp: quiet_def same_run_def)

lemma quiet_call: "sent_report c = [] \<Longrightarrow> quiet i s (call c s)"
  by (rule quiet_intro [of _ _ _ "g_svc s ! i"]) simp_all

lemma quiet_upd:
  "same_run (g_svc s ! i) (f (g_svc s ! i)) \<Longrightarrow> sv_probe_deadline (f (g_svc s ! i)) = sv_probe_deadline (g_svc s ! i) \<Longrightarrow>
     quiet i s (upd_svc i f s)"
  by (rule quiet_intro [where v' = "f (g_svc s ! i)"]) simp_all

lemma quiet_probe_fd: "quiet i s (upd_svc i (\<lambda>v. v\<lparr>sv_probe_fd := f v\<rparr>) s)"
  by (rule quiet_upd) (simp_all add: same_run_def)

lemma quiet_release: "i < length (g_svc s) \<Longrightarrow> quiet i s (probe_fd_release i s)"
  using quiet_trans [OF _ quiet_call quiet_probe_fd] by (simp add: probe_fd_release_def)

lemma quiet_addr: "quiet i s (upd_svc i (\<lambda>v. v\<lparr>sv_probe_addr_idx := f v\<rparr>) s)"
  by (rule quiet_upd) (simp_all add: same_run_def)

lemma quiet_poll: "i < length (g_svc s) \<Longrightarrow> quiet i s (snd (probe_tcp_poll env i s))"
  by (auto simp: probe_tcp_poll_def Let_def quiet_release split: prod.split)

lemma quiet_tcp:
  assumes "i < length (g_svc s)"
  shows "quiet i s (snd (probe_tcp env i addr port s))"
proof -
  have c: "quiet i s (call (ConnectTcp fd a p) s)" for fd a p by (simp add: quiet_call)
  have cc: "quiet i s (call (CloseFd fd) (call (ConnectTcp fd a p) s))" for fd a p
    by (rule quiet_trans [OF assms c quiet_call]) simp
  have u: "quiet i s (upd_svc i (\<lambda>v. v\<lparr>sv_probe_fd := fd\<rparr>) (call (ConnectTcp fd a p) s))" for fd a p
    by (rule quiet_trans [OF assms c quiet_probe_fd])
  have "quiet i s (snd (probe_tcp_poll env i (upd_svc i (\<lambda>v. v\<lparr>sv_probe_fd := fd\<rparr>) (call (ConnectTcp fd a p) s))))" for fd a p
    using assms by (intro quiet_trans [OF assms u quiet_poll]) simp
  then show ?thesis using cc quiet_poll [OF assms] by (simp add: probe_tcp_def Let_def)
qed

lemma quiet_unix:
  assumes "i < length (g_svc s)"
  shows "quiet i s (snd (probe_connect_unix env i path s))"
  using quiet_trans [OF assms quiet_call quiet_call] by (simp add: probe_connect_unix_def Let_def)

lemma quiet_service_tcp:
  assumes "i < length (g_svc s)"
  shows "quiet i s (snd (probe_service_tcp env i s))"
proof -
  define s1 where "s1 = (if sv_probe_addr_idx (g_svc s ! i) < 0 \<or> 1 + int (length (g_addr_be s)) \<le> sv_probe_addr_idx (g_svc s ! i)
    then upd_svc i (\<lambda>v. v\<lparr>sv_probe_addr_idx := 0\<rparr>) s else s)"
  have q: "quiet i s s1" by (simp add: s1_def quiet_addr)
  then have l: "i < length (g_svc s1)" using quiet_facts [OF assms q] assms by simp
  have "quiet i s (snd (probe_tcp env i a p s1))" for a p by (rule quiet_trans [OF assms q quiet_tcp [OF l]])
  moreover from this have "quiet i s (upd_svc i (\<lambda>v. v\<lparr>sv_probe_addr_idx := f v\<rparr>) (snd (probe_tcp env i a p s1)))" for a p f
    by (rule quiet_trans [OF assms _ quiet_addr])
  ultimately show ?thesis
    by (simp add: probe_service_tcp_def Let_def case_prod_beta flip: s1_def)
qed

section \<open>Shutting down\<close>

lemma halt_svc_frame:
  "i < length (g_svc s) \<Longrightarrow> g_svc (halt_svc i s) = (g_svc s)[i := halted (g_svc s ! i)]"
  "g_shutting_down (halt_svc i s) = g_shutting_down s" "emitted s0 (halt_svc i s) rs = emitted s0 s rs"
  "g_exited (halt_svc i s) = g_exited s" "g_exit_code (halt_svc i s) = g_exit_code s" "g_control_fd (halt_svc i s) = g_control_fd s"
  by (simp_all add: halt_svc_def Let_def halted_def)

lemma halt_fold_frame:
  "g_shutting_down (fold halt_svc is s) = g_shutting_down s" "emitted s0 (fold halt_svc is s) rs = emitted s0 s rs"
  "g_exited (fold halt_svc is s) = g_exited s" "g_exit_code (fold halt_svc is s) = g_exit_code s"
  "g_control_fd (fold halt_svc is s) = g_control_fd s"
  by (induction "is" arbitrary: s) (simp_all add: halt_svc_frame)

lemma halt_fold_svc:
  "n \<le> length (g_svc s) \<Longrightarrow> g_svc (fold halt_svc [0..<n] s) = map halted (take n (g_svc s)) @ drop n (g_svc s)"
proof (induction n)
  case (Suc n)
  then have IH: "g_svc (fold halt_svc [0..<n] s) = map halted (take n (g_svc s)) @ drop n (g_svc s)" and n: "n < length (g_svc s)" by simp_all
  have "drop n (g_svc s) = g_svc s ! n # drop (Suc n) (g_svc s)" using n by (simp add: Cons_nth_drop_Suc)
  then show ?case using IH n by (simp add: halt_svc_frame(1) nth_append list_update_append take_Suc_conv_app_nth)
qed simp

lemma begin_shutdown_frame [simp]:
  "g_svc (begin_shutdown c s) = (if g_shutting_down s then g_svc s else map halted (g_svc s))" "g_shutting_down (begin_shutdown c s)"
  "g_exited (begin_shutdown c s) = g_exited s" "g_control_fd (begin_shutdown c s) = g_control_fd s"
  by (simp_all add: begin_shutdown_def halt_fold_frame halt_fold_svc)

lemma begin_shutdown_emitted:
  "\<not> g_shutting_down s \<Longrightarrow> emitted s0 s rs \<Longrightarrow> emitted s0 (begin_shutdown c s) (rs @ [down_report 0])"
  by (simp add: begin_shutdown_def halt_fold_frame, rule emitted_snoc) (simp_all add: down_report_def)

lemma sim_begin_shutdown:
  assumes "ph \<noteq> Stopping"
  shows "sim ph now s (begin_shutdown c s)"
proof (cases "g_shutting_down s")
  case False
  have "sup_step ph now (view s) [down_report 0] (view (begin_shutdown c s))"
    using False assms by (simp add: view_def shutdown)
  then show ?thesis using begin_shutdown_emitted [OF False emitted_refl] by (intro sim_step) simp_all
qed (simp add: begin_shutdown_def)

section \<open>A service that exits\<close>

lemma exit_recorded_frame:
  assumes "i < length (g_svc s)"
  shows "g_svc (exit_recorded i k x s) = (g_svc s)[i := gone (g_svc s ! i) k x]"
    "g_shutting_down (exit_recorded i k x s) = g_shutting_down s" "g_exited (exit_recorded i k x s) = g_exited s"
    "g_control_fd (exit_recorded i k x s) = g_control_fd s"
    "emitted s (exit_recorded i k x s) [rep i CIXINIT_EV_EXITED k x]"
proof -
  show "g_svc (exit_recorded i k x s) = (g_svc s)[i := gone (g_svc s ! i) k x]"
    using assms by (simp add: exit_recorded_def Let_def gone_def)
  show "g_shutting_down (exit_recorded i k x s) = g_shutting_down s" "g_exited (exit_recorded i k x s) = g_exited s"
    "g_control_fd (exit_recorded i k x s) = g_control_fd s"
    by (simp_all add: exit_recorded_def Let_def)
  show "emitted s (exit_recorded i k x s) [rep i CIXINIT_EV_EXITED k x]"
    unfolding exit_recorded_def Let_def by (rule emitted_snoc) (simp_all add: rep_def)
qed

lemma sim_service_exited:
  assumes i: "i < length (g_svc s)" and p: "0 < sv_pid (g_svc s ! i)"
  shows "sim Reaping now s (service_exited i k x now s)"
proof -
  define v where "v = g_svc s ! i"
  define e where "e = exit_recorded i k x s"
  have e_svc: "g_svc e = (g_svc s)[i := gone v k x]" "g_svc e ! i = gone v k x" "g_shutting_down e = g_shutting_down s"
    using exit_recorded_frame [OF i, of k x] i by (simp_all add: e_def v_def)
  have em: "emitted s e [rep i CIXINIT_EV_EXITED k x]" using exit_recorded_frame [OF i] by (simp add: e_def)
  have em2: "emitted s (report (int i) ev a b e') [rep i CIXINIT_EV_EXITED k x, rep i ev a b]"
    if "emitted s e' [rep i CIXINIT_EV_EXITED k x]" for e' ev a b
    using that by (intro emitted_snoc) (simp_all add: rep_def)
  have fl: "sv_restart_after_stop (gone v k x) = sv_restart_after_stop v" "sv_operator_stopped (gone v k x) = sv_operator_stopped v"
    "sv_restarts (gone v k x) = sv_restarts v" "restart_delay (gone v k x) = restart_delay v"
    by (simp_all add: gone_def restart_delay_def)
  note facts = e_svc fl
  let ?t = "service_exited i k x now s"
  consider (down) "g_shutting_down s"
    | (again) "\<not> g_shutting_down s" "sv_restart_after_stop v"
    | (held) "\<not> g_shutting_down s" "\<not> sv_restart_after_stop v" "sv_operator_stopped v"
    | (fine) "\<not> g_shutting_down s" "unasked v" "\<not> fails_container v k x"
        "if one_shot v then exit_clean k x else ci_on_exit (sv_def v) \<noteq> CIXINIT_ON_EXIT_RESTART"
    | (failed) "\<not> g_shutting_down s" "unasked v" "\<not> fails_container v k x" "one_shot v" "\<not> exit_clean k x"
    | (restarts) "\<not> g_shutting_down s" "unasked v" "\<not> one_shot v" "ci_on_exit (sv_def v) = CIXINIT_ON_EXIT_RESTART"
    | (container) "\<not> g_shutting_down s" "unasked v" "fails_container v k x"
    by (cases "one_shot v"; cases "exit_clean k x") (auto simp: unasked_def)
  then show ?thesis
  proof cases
    case down
    then have t: "?t = set_state i ST_EXITED e" using facts by (simp add: service_exited_def Let_def flip: e_def)
    show ?thesis unfolding t using down i p em exited_down [of Reaping i "g_svc s" now k x]
      by (intro sim_step) (simp_all add: view_def facts flip: v_def)
  next
    case again
    then have t: "?t = upd_svc i (\<lambda>v. v\<lparr>sv_restart_after_stop := False, sv_state := ST_PENDING\<rparr>) (e\<lparr>g_exit_code := mapped_status (gone v k x)\<rparr>)"
      using facts by (simp add: service_exited_def Let_def flip: e_def)
    show ?thesis unfolding t using again i p em exited_again [of Reaping i "g_svc s" now k x]
      by (intro sim_step) (simp_all add: view_def facts flip: v_def)
  next
    case held
    then have t: "?t = report (int i) CIXINIT_EV_STOPPED 0 0 (set_state i ST_STOPPED (e\<lparr>g_exit_code := mapped_status (gone v k x)\<rparr>))"
      using facts by (simp add: service_exited_def Let_def flip: e_def)
    have "emitted s ?t [rep i CIXINIT_EV_EXITED k x, rep i CIXINIT_EV_STOPPED 0 0]"
      unfolding t by (intro em2) (simp add: em)
    then show ?thesis unfolding t using held i p exited_held [of Reaping i "g_svc s" now k x]
      by (intro sim_step) (simp_all add: view_def facts flip: v_def)
  next
    case fine
    then have t: "?t = set_state i ST_EXITED (e\<lparr>g_exit_code := mapped_status (gone v k x)\<rparr>)"
      using facts by (auto simp: service_exited_def Let_def unasked_def one_shot_def exit_clean_def fails_container_def simp flip: e_def)
    show ?thesis unfolding t using fine i p em exited_done [of Reaping i "g_svc s" k x now]
      by (intro sim_step) (simp_all add: view_def facts flip: v_def)
  next
    case failed
    then have t: "?t = set_state i ST_FAILED (report (int i) CIXINIT_EV_FAILED CIXINIT_FAIL_ONESHOT (mapped_status (gone v k x))
        (e\<lparr>g_exit_code := mapped_status (gone v k x)\<rparr>))"
      using facts by (auto simp: service_exited_def Let_def unasked_def one_shot_def exit_clean_def fails_container_def simp flip: e_def)
    have "emitted s ?t [rep i CIXINIT_EV_EXITED k x, rep i CIXINIT_EV_FAILED CIXINIT_FAIL_ONESHOT (mapped_status (gone v k x))]"
      unfolding t set_state_frame by (intro em2) (simp add: em)
    then show ?thesis unfolding t using failed i p exited_failed [of Reaping i "g_svc s" k x now "mapped_status (gone v k x)"]
      by (intro sim_step) (simp_all add: view_def facts flip: v_def)
  next
    case restarts
    let ?u = "upd_svc i (\<lambda>v. v\<lparr>sv_state := ST_RESTART_WAIT, sv_restart_at := now + restart_delay v * 1000, sv_restarts := sv_restarts v + 1\<rparr>)
        (e\<lparr>g_exit_code := mapped_status (gone v k x)\<rparr>)"
    have t: "?t = report (int i) CIXINIT_EV_RESTART_IN (restart_delay v) (sv_restarts v + 1) ?u"
      using restarts facts i by (simp add: service_exited_def Let_def unasked_def one_shot_def flip: e_def)
    have "emitted s ?t [rep i CIXINIT_EV_EXITED k x, rep i CIXINIT_EV_RESTART_IN (restart_delay v) (sv_restarts v + 1)]"
      unfolding t by (intro em2) (simp add: em)
    then show ?thesis unfolding t using restarts i p exited_restarts [of Reaping i "g_svc s" now k x]
      by (intro sim_step) (simp_all add: view_def facts flip: v_def)
  next
    case container
    define r where "r = (if one_shot v then report (int i) CIXINIT_EV_FAILED CIXINIT_FAIL_ONESHOT (mapped_status (gone v k x))
        (e\<lparr>g_exit_code := mapped_status (gone v k x)\<rparr>) else e\<lparr>g_exit_code := mapped_status (gone v k x)\<rparr>)"
    have f: "ci_on_exit (sv_def v) \<noteq> CIXINIT_ON_EXIT_RESTART" using container by (simp add: fails_container_def cixinit_codes)
    have t: "?t = begin_shutdown (mapped_status (gone v k x)) r" using container facts f
      by (auto simp: service_exited_def Let_def unasked_def one_shot_def exit_clean_def fails_container_def r_def simp flip: e_def)
    let ?rs = "[rep i CIXINIT_EV_EXITED k x] @ (if one_shot v then [rep i CIXINIT_EV_FAILED CIXINIT_FAIL_ONESHOT (mapped_status (gone v k x))] else [])"
    have "emitted s r ?rs" using em em2 by (simp add: r_def)
    then have "emitted s ?t (?rs @ [down_report 0])" unfolding t
      by (intro begin_shutdown_emitted) (simp_all add: r_def facts container)
    moreover have "view ?t = (True, map halted ((g_svc s)[i := gone v k x]))" unfolding t by (simp add: view_def facts r_def container)
    ultimately show ?thesis using container i p exited_container [of Reaping i "g_svc s" k x now "mapped_status (gone v k x)"]
      by (intro sim_step [of _ _ _ "?rs @ [down_report 0]"]) (simp_all only: view_def append_assoc append_Cons append_Nil simp_thms flip: v_def)
  qed
qed

section \<open>Reaping\<close>

lemma sim_reap_one:
  assumes "sup_inv (view s)" "0 < pid"
  shows "sim Reaping now s (reap_one pid status now s)"
proof (cases "find_index (\<lambda>v. sv_pid v = pid \<or> sv_probe_pid v = pid) (g_svc s)")
  case (Some i)
  from find_index_Some [OF Some] have i: "i < length (g_svc s)" "sv_pid (g_svc s ! i) = pid \<or> sv_probe_pid (g_svc s ! i) = pid" by auto
  show ?thesis
  proof (cases "sv_pid (g_svc s ! i) = pid")
    case True
    then show ?thesis using sim_service_exited [OF i(1)] assms(2) by (simp add: reap_one_def Some)
  next
    case False
    then have p: "0 < sv_pid (g_svc s ! i)" using i assms sup_inv_nth [of "g_shutting_down s" "g_svc s" i]
      by (auto simp: view_def svc_inv_def)
    let ?s = "upd_svc i (\<lambda>v. v\<lparr>sv_probe_pid := 0\<rparr>) s"
    have q: "sim Reaping now s ?s" by (rule quiet_sim [OF i(1)], rule quiet_upd) (simp_all add: same_run_def)
    have "sim Reaping now ?s (report (int i) CIXINIT_EV_READY 0 0 (set_state i ST_READY ?s))" if "sv_state (g_svc ?s ! i) = ST_STARTING"
    proof (rule sim_step)
      show "sup_step Reaping now (view ?s) [rep i CIXINIT_EV_READY 0 0] (view (report (int i) CIXINIT_EV_READY 0 0 (set_state i ST_READY ?s)))"
        using became_ready [of Reaping i "g_svc ?s" now "g_shutting_down s"] i(1) that p by (simp add: view_def)
      show "emitted ?s (report (int i) CIXINIT_EV_READY 0 0 (set_state i ST_READY ?s)) [rep i CIXINIT_EV_READY 0 0]"
        by (rule emitted_snoc) (simp_all add: rep_def)
    qed
    then show ?thesis using False q sim_trans [OF q] by (simp add: reap_one_def Some Let_def del: upd_frame)
  qed
qed (simp add: reap_one_def)

lemma sim_reap_all: "sup_inv (view s) \<Longrightarrow> sim Reaping now s (reap_all ws now s)"
proof (induction ws now s rule: reap_all.induct)
  case (2 pid status ws now s)
  show ?case
  proof (cases "0 < pid")
    case True
    have r: "sim Reaping now s (reap_one pid status now s)" by (rule sim_reap_one [OF 2(3) True])
    have "pid \<noteq> - EINTR" using True by (simp add: EINTR_def)
    then show ?thesis using 2(2) True sim_inv [OF r 2(3)] sim_trans [OF r] by simp
  qed (use 2 in auto)
qed simp

section \<open>Commands\<close>

lemma sim_send_stop:
  assumes "i < length (g_svc s)" "i \<in> N" "sv_operator_stopped (g_svc s ! i) \<or> sv_restart_after_stop (g_svc s ! i)"
  shows "sim (Commands N) now s (send_stop i now s)"
proof (cases "sv_pid (g_svc s ! i) \<le> 0 \<or> sv_stop_sent_at (g_svc s ! i) \<noteq> 0")
  case False
  then show ?thesis using assms stop_asked [of "Commands N" N i "g_svc s" now "g_shutting_down s"]
    by (intro sim_step [of _ _ _ "[]"]) (simp_all add: send_stop_def Let_def view_def not_le)
qed (auto simp: send_stop_def Let_def)

lemma sim_flags:
  assumes "i < length (g_svc s)" "i \<in> N" "\<exists>a b. f (g_svc s ! i) = (g_svc s ! i)\<lparr>sv_operator_stopped := a, sv_restart_after_stop := b\<rparr>"
  shows "sim (Commands N) now s (upd_svc i f s)"
proof -
  from assms(3) obtain a b where f: "f (g_svc s ! i) = (g_svc s ! i)\<lparr>sv_operator_stopped := a, sv_restart_after_stop := b\<rparr>" by blast
  show ?thesis using f assms flagged [of "Commands N" N i "g_svc s" now "g_shutting_down s" b a]
    by (intro sim_step [of _ _ _ "[]"]) (simp_all add: view_def)
qed

lemma flags_eq:
  "v\<lparr>sv_operator_stopped := a\<rparr> = v\<lparr>sv_operator_stopped := a, sv_restart_after_stop := sv_restart_after_stop v\<rparr>"
  "v\<lparr>sv_restart_after_stop := b\<rparr> = v\<lparr>sv_operator_stopped := sv_operator_stopped v, sv_restart_after_stop := b\<rparr>"
  by (cases v; simp)+

lemma sim_handle_command:
  assumes "cm_magic c = CIXINIT_MAGIC \<Longrightarrow> 0 \<le> cm_service c \<Longrightarrow> nat (cm_service c) \<in> N"
  shows "sim (Commands N) now s (handle_command c now s)"
proof -
  define i where "i = nat (cm_service c)"
  define v where "v = g_svc s ! i"
  consider (none) "handle_command c now s = s"
    | (down) "handle_command c now s = begin_shutdown 0 s"
    | (op) "cm_magic c = CIXINIT_MAGIC" "cm_op c \<noteq> CIXINIT_OP_SHUTDOWN" "0 \<le> cm_service c" "i < length (g_svc s)" "i \<in> N"
        "cm_op c = CIXINIT_OP_START \<or> cm_op c = CIXINIT_OP_STOP \<or> cm_op c = CIXINIT_OP_RESTART"
  proof -
    have "handle_command c now s = s" if "cm_magic c \<noteq> CIXINIT_MAGIC" using that by (simp add: handle_command_def)
    moreover have "handle_command c now s = begin_shutdown 0 s" if "cm_magic c = CIXINIT_MAGIC" "cm_op c = CIXINIT_OP_SHUTDOWN"
      using that by (simp add: handle_command_def)
    moreover have "handle_command c now s = s" if "cm_op c \<noteq> CIXINIT_OP_SHUTDOWN" "\<not> (0 \<le> cm_service c \<and> i < length (g_svc s))"
    proof -
      have "cm_service c < 0 \<or> int (length (g_svc s)) \<le> cm_service c" using that(2) by (auto simp: i_def)
      with that(1) show ?thesis by (simp add: handle_command_def)
    qed
    moreover have "handle_command c now s = s"
      if "cm_op c \<noteq> CIXINIT_OP_SHUTDOWN" "cm_op c \<noteq> CIXINIT_OP_START" "cm_op c \<noteq> CIXINIT_OP_STOP" "cm_op c \<noteq> CIXINIT_OP_RESTART"
      using that by (simp add: handle_command_def Let_def)
    ultimately show thesis using that assms i_def by blast
  qed
  then show ?thesis
  proof cases
    case op
    have sh: "cm_op c = CIXINIT_OP_START \<Longrightarrow> handle_command c now s = upd_svc i (\<lambda>v. if sv_pid v \<le> 0 \<and> sv_state v \<noteq> ST_PENDING
          then v\<lparr>sv_operator_stopped := False, sv_state := ST_PENDING, sv_restart_after_stop := False\<rparr>
          else v\<lparr>sv_operator_stopped := False\<rparr>) s"
      "cm_op c = CIXINIT_OP_STOP \<Longrightarrow> handle_command c now s =
         (let s = upd_svc i (\<lambda>v. v\<lparr>sv_operator_stopped := True, sv_restart_after_stop := False\<rparr>) s in
          if 0 < sv_pid v then send_stop i now s
          else if sv_state v \<noteq> ST_STOPPED then report (int i) CIXINIT_EV_STOPPED 0 0 (set_state i ST_STOPPED s) else s)"
      "cm_op c = CIXINIT_OP_RESTART \<Longrightarrow> handle_command c now s =
         (let s = upd_svc i (\<lambda>v. v\<lparr>sv_operator_stopped := False\<rparr>) s in
          if 0 < sv_pid v then send_stop i now (upd_svc i (\<lambda>v. v\<lparr>sv_restart_after_stop := True\<rparr>) s) else set_state i ST_PENDING s)"
      using op(1-4) by (auto simp: handle_command_def i_def v_def Let_def cixinit_ops)
    from op(6) show ?thesis
    proof (elim disjE)
      assume o: "cm_op c = CIXINIT_OP_START"
      show ?thesis
      proof (cases "sv_pid v \<le> 0 \<and> sv_state v \<noteq> ST_PENDING")
        case True
        then show ?thesis unfolding sh(1) [OF o] using op(4,5) requeued [of "Commands N" N i "g_svc s" now "g_shutting_down s" False]
          by (intro sim_step [of _ _ _ "[]"]) (simp_all add: view_def flip: v_def)
      next
        case False
        then have "(if sv_pid v \<le> 0 \<and> sv_state v \<noteq> ST_PENDING
            then v\<lparr>sv_operator_stopped := False, sv_state := ST_PENDING, sv_restart_after_stop := False\<rparr> else v\<lparr>sv_operator_stopped := False\<rparr>) =
          v\<lparr>sv_operator_stopped := False, sv_restart_after_stop := sv_restart_after_stop v\<rparr>"
          by (rule trans [OF if_not_P flags_eq(1)])
        then show ?thesis unfolding sh(1) [OF o] using op(4,5) by (intro sim_flags exI) (simp_all only: v_def)
      qed
    next
      assume o: "cm_op c = CIXINIT_OP_STOP"
      let ?s = "upd_svc i (\<lambda>v. v\<lparr>sv_operator_stopped := True, sv_restart_after_stop := False\<rparr>) s"
      have f: "sim (Commands N) now s ?s" using op(4,5) by (intro sim_flags) auto
      have "sim (Commands N) now ?s (send_stop i now ?s)" using op(4,5) by (intro sim_send_stop) simp_all
      moreover have "sim (Commands N) now s (report (int i) CIXINIT_EV_STOPPED 0 0 (set_state i ST_STOPPED ?s))" if "sv_pid v \<le> 0"
      proof (rule sim_step)
        show "sup_step (Commands N) now (view s) [rep i CIXINIT_EV_STOPPED 0 0] (view (report (int i) CIXINIT_EV_STOPPED 0 0 (set_state i ST_STOPPED ?s)))"
          using held [of "Commands N" N i "g_svc s" now "g_shutting_down s"] that op(4,5) by (simp add: view_def flip: v_def)
        show "emitted s (report (int i) CIXINIT_EV_STOPPED 0 0 (set_state i ST_STOPPED ?s)) [rep i CIXINIT_EV_STOPPED 0 0]"
          by (rule emitted_snoc) (simp_all add: rep_def)
      qed
      ultimately show ?thesis unfolding sh(2) [OF o] Let_def using f sim_trans [OF f] by (auto simp: not_less)
    next
      assume o: "cm_op c = CIXINIT_OP_RESTART"
      have same: "v\<lparr>sv_operator_stopped := False, sv_state := ST_PENDING, sv_restart_after_stop := sv_restart_after_stop v\<rparr> =
          v\<lparr>sv_operator_stopped := False, sv_state := ST_PENDING\<rparr>" by (cases v) simp
      let ?s = "upd_svc i (\<lambda>v. v\<lparr>sv_restart_after_stop := True\<rparr>) (upd_svc i (\<lambda>v. v\<lparr>sv_operator_stopped := False\<rparr>) s)"
      have "sim (Commands N) now s (upd_svc i (\<lambda>v. v\<lparr>sv_operator_stopped := False\<rparr>) s)"
        using op(4,5) flags_eq(1) by (intro sim_flags) blast+
      moreover have "sim (Commands N) now (upd_svc i (\<lambda>v. v\<lparr>sv_operator_stopped := False\<rparr>) s) ?s"
        using op(4,5) flags_eq(2) by (intro sim_flags) (simp, simp, blast)
      moreover have "sim (Commands N) now ?s (send_stop i now ?s)" using op(4,5) by (intro sim_send_stop) simp_all
      ultimately have a: "sim (Commands N) now s (send_stop i now ?s)" using sim_trans by blast
      have "sim (Commands N) now s (set_state i ST_PENDING (upd_svc i (\<lambda>v. v\<lparr>sv_operator_stopped := False\<rparr>) s))" if "sv_pid v \<le> 0"
        using that op(4,5) requeued [of "Commands N" N i "g_svc s" now "g_shutting_down s" "sv_restart_after_stop v"] same
        by (intro sim_step [of _ _ _ "[]"]) (simp_all add: view_def flip: v_def)
      then show ?thesis unfolding sh(3) [OF o] Let_def using a by (auto simp: not_less)
    qed
  qed (simp_all add: sim_begin_shutdown)
qed

definition named_in :: "(int \<times> cixinit_command) list \<Rightarrow> nat set" where
  "named_in rs = {nat (cm_service c) |n c. (n, c) \<in> set rs \<and> cm_magic c = CIXINIT_MAGIC \<and> 0 \<le> cm_service c}"

lemma sim_drain_control: "named_in rs \<subseteq> N \<Longrightarrow> sim (Commands N) now s (drain_control rs now s)"
proof (induction rs now s rule: drain_control.induct)
  case (2 n c rs now s)
  have N: "named_in rs \<subseteq> N" "cm_magic c = CIXINIT_MAGIC \<Longrightarrow> 0 \<le> cm_service c \<Longrightarrow> nat (cm_service c) \<in> N"
    using 2(4) by (auto simp: named_in_def)
  have closed: "sim (Commands N) now s ((call (CloseFd k) s)\<lparr>g_control_fd := - 1\<rparr>)" for k
  proof -
    have "sup_steps (Commands N) now (view s) [] (view ((call (CloseFd k) s)\<lparr>g_control_fd := - 1\<rparr>))"
      by (simp add: view_def sup_none)
    then show ?thesis unfolding sim_def by (intro exI [of _ "[]"]) simp
  qed
  show ?case
  proof (cases "n = SIZEOF_RECORD")
    case True
    have "sim (Commands N) now s (handle_command c now s)" by (rule sim_handle_command) (rule N(2))
    with True show ?thesis using 2(2) N(1) sim_trans by (simp add: SIZEOF_RECORD_def EINTR_def EAGAIN_def)
  next
    case False
    then show ?thesis using 2(1,3) N(1) closed by (simp add: SIZEOF_RECORD_def)
  qed
qed simp

section \<open>Scheduling\<close>

lemma spawned_frame:
  assumes "i < length (g_svc s)"
  shows "\<exists>v'. g_svc (spawned env i p s) = (g_svc s)[i := v'] \<and> sv_def v' = sv_def (g_svc s ! i) \<and> sv_pid v' = p \<and> sv_state v' = ST_STARTING \<and>
      sv_stop_sent_at v' = 0 \<and> \<not> sv_killed v' \<and> sv_probe_pid v' = 0"
    and "g_shutting_down (spawned env i p s) = g_shutting_down s"
    and "emitted s0 s rs \<Longrightarrow> emitted s0 (spawned env i p s) (rs @ [rep i CIXINIT_EV_STARTED p 0])"
proof -
  show "g_shutting_down (spawned env i p s) = g_shutting_down s" by (simp add: spawned_def Let_def)
  show "emitted s0 s rs \<Longrightarrow> emitted s0 (spawned env i p s) (rs @ [rep i CIXINIT_EV_STARTED p 0])"
    unfolding spawned_def Let_def by (rule emitted_snoc) (simp_all add: rep_def)
  show "\<exists>v'. g_svc (spawned env i p s) = (g_svc s)[i := v'] \<and> sv_def v' = sv_def (g_svc s ! i) \<and> sv_pid v' = p \<and> sv_state v' = ST_STARTING \<and>
      sv_stop_sent_at v' = 0 \<and> \<not> sv_killed v' \<and> sv_probe_pid v' = 0"
    using assms by (intro exI [of _ "g_svc (spawned env i p s) ! i"]) (simp add: spawned_def Let_def)
qed

lemma emitted_one: "emitted s s' [] \<Longrightarrow> emitted s (report (int i) e a b s') [rep i e a b]"
  using emitted_snoc [of s s' "[rep i e a b]" "int i" e a b] by (simp add: rep_def)

lemma emitted_two: "emitted s s' [r] \<Longrightarrow> emitted s (report (int i) e a b s') [r, rep i e a b]"
  using emitted_snoc [of s s' "[r, rep i e a b]" "int i" e a b] by (simp add: rep_def)

lemma sim_became_ready:
  assumes "ph = Reaping \<or> ph = Scheduling" "i < length (g_svc s)" "sv_state (g_svc s ! i) = ST_STARTING" "0 < sv_pid (g_svc s ! i)"
  shows "sim ph now s (report (int i) CIXINIT_EV_READY 0 0 (upd_svc i (\<lambda>v. v\<lparr>sv_state := ST_READY\<rparr>) s))"
proof (rule sim_step)
  show "sup_step ph now (view s) [rep i CIXINIT_EV_READY 0 0] (view (report (int i) CIXINIT_EV_READY 0 0 (upd_svc i (\<lambda>v. v\<lparr>sv_state := ST_READY\<rparr>) s)))"
    using became_ready [of ph i "g_svc s" now "g_shutting_down s"] assms by (simp add: view_def)
qed (rule emitted_one, simp)

lemma sim_start_service:
  assumes "i < length (g_svc s)" "\<not> g_shutting_down s" "may_start now (g_svc s) i" "te_fork env i \<noteq> 0"
  shows "sim Scheduling now s (start_service env i s)"
proof (cases "te_fork env i < 0")
  case True
  let ?t = "(upd_svc i (\<lambda>v. v\<lparr>sv_state := ST_FAILED, sv_exit_kind := CIXINIT_EXIT_KIND_EXITED, sv_exit_value := 126\<rparr>)
      (report (int i) CIXINIT_EV_STARTING 0 0 s))\<lparr>g_exit_code := 126\<rparr>"
  have t: "start_service env i s = report (int i) CIXINIT_EV_FAILED CIXINIT_FAIL_SPAWN (te_fork env i) ?t"
    using True by (simp add: start_service_def Let_def)
  show ?thesis unfolding t
  proof (rule sim_step)
    show "sup_step Scheduling now (view s) [rep i CIXINIT_EV_STARTING 0 0, rep i CIXINIT_EV_FAILED CIXINIT_FAIL_SPAWN (te_fork env i)]
        (view (report (int i) CIXINIT_EV_FAILED CIXINIT_FAIL_SPAWN (te_fork env i) ?t))"
      using not_started [of Scheduling i "g_svc s" False now "te_fork env i"] assms by (simp add: view_def)
    show "emitted s (report (int i) CIXINIT_EV_FAILED CIXINIT_FAIL_SPAWN (te_fork env i) ?t)
        [rep i CIXINIT_EV_STARTING 0 0, rep i CIXINIT_EV_FAILED CIXINIT_FAIL_SPAWN (te_fork env i)]"
      by (rule emitted_two) (simp add: emitted_one)
  qed
next
  case False
  define p where "p = te_fork env i"
  have p: "0 < p" using False assms(4) by (simp add: p_def)
  let ?r = "report (int i) CIXINIT_EV_STARTING 0 0 s"
  define s2 where "s2 = spawned env i p ?r"
  obtain v' where v': "g_svc s2 = (g_svc s)[i := v']" "sv_def v' = sv_def (g_svc s ! i)" "sv_pid v' = p" "sv_state v' = ST_STARTING"
    "sv_stop_sent_at v' = 0" "\<not> sv_killed v'" "sv_probe_pid v' = 0"
    using spawned_frame(1) [of i ?r env p] assms(1) by (auto simp: s2_def)
  have sd: "\<not> g_shutting_down s2" using spawned_frame(2) [of i ?r env p] assms(1,2) by (simp add: s2_def)
  have "emitted s s2 [rep i CIXINIT_EV_STARTING 0 0, rep i CIXINIT_EV_STARTED p 0]"
    using spawned_frame(3) [of i ?r s "[rep i CIXINIT_EV_STARTING 0 0]" env p] assms(1) emitted_one [OF emitted_refl] by (simp add: s2_def)
  moreover have "sup_step Scheduling now (view s) [rep i CIXINIT_EV_STARTING 0 0, rep i CIXINIT_EV_STARTED p 0] (view s2)"
    using started [of Scheduling i "g_svc s" False now p v'] assms(1,2,3) p v' sd by (simp add: view_def)
  ultimately have a: "sim Scheduling now s s2" by (intro sim_step)
  have "sim Scheduling now s2 (report (int i) CIXINIT_EV_READY 0 0 (upd_svc i (\<lambda>v. v\<lparr>sv_state := ST_READY\<rparr>) s2))"
    using v' assms(1) p by (intro sim_became_ready) simp_all
  moreover have "start_service env i s = (if ci_ready_kind (sv_def (g_svc s2 ! i)) = CIXINIT_READY_NONE
      then report (int i) CIXINIT_EV_READY 0 0 (upd_svc i (\<lambda>v. v\<lparr>sv_state := ST_READY\<rparr>) s2) else s2)"
    using False by (simp add: start_service_def Let_def s2_def p_def)
  ultimately show ?thesis using a sim_trans [OF a] by simp
qed

lemma sim_probe_done:
  assumes "i < length (g_svc s)" "sv_state (g_svc s ! i) = ST_STARTING" "0 < sv_pid (g_svc s ! i)" "quiet i s s'"
  shows "sim Scheduling now s (if ready then report (int i) CIXINIT_EV_READY 0 0 (upd_svc i (\<lambda>v. v\<lparr>sv_state := ST_READY\<rparr>) s')
           else if sv_probe_deadline (g_svc s ! i) \<le> now then
             report (int i) CIXINIT_EV_READY 1 0
               (upd_svc i (\<lambda>v. v\<lparr>sv_state := ST_READY\<rparr>)
                 (probe_fd_release i (report (int i) CIXINIT_EV_FAILED CIXINIT_FAIL_PROBE 0 s')))
           else s')"
proof -
  note q = quiet_facts [OF assms(1,4)]
  have a: "sim Scheduling now s s'" by (rule quiet_sim [OF assms(1,4)])
  have r: "sim Scheduling now s' (report (int i) CIXINIT_EV_READY 0 0 (upd_svc i (\<lambda>v. v\<lparr>sv_state := ST_READY\<rparr>) s'))"
    using q assms by (intro sim_became_ready) simp_all
  let ?f = "probe_fd_release i (report (int i) CIXINIT_EV_FAILED CIXINIT_FAIL_PROBE 0 s')"
  let ?t = "report (int i) CIXINIT_EV_READY 1 0 (upd_svc i (\<lambda>v. v\<lparr>sv_state := ST_READY\<rparr>) ?f)"
  let ?w = "upd_svc i (\<lambda>v. v\<lparr>sv_probe_fd := (if 0 \<le> sv_probe_fd v then - 1 else sv_probe_fd v)\<rparr>) s'"
  have t: "sim Scheduling now s' ?t" if "sv_probe_deadline (g_svc s ! i) \<le> now"
  proof -
    have w: "sim Scheduling now s' ?w" using q assms(1) by (intro quiet_sim [where i = i] quiet_probe_fd) simp
    have wv: "g_svc ?w ! i = (g_svc s' ! i)\<lparr>sv_probe_fd := (if 0 \<le> sv_probe_fd (g_svc s' ! i) then - 1 else sv_probe_fd (g_svc s' ! i))\<rparr>"
      using q assms(1) by simp
    have "sup_step Scheduling now (view ?w) [rep i CIXINIT_EV_FAILED CIXINIT_FAIL_PROBE 0, rep i CIXINIT_EV_READY 1 0] (view ?t)"
      using probe_timed_out [of Scheduling i "g_svc ?w" now "g_shutting_down s'"] q assms that wv
      by (simp add: view_def split del: if_split cong: if_cong)
    moreover have "emitted ?w ?t [rep i CIXINIT_EV_FAILED CIXINIT_FAIL_PROBE 0, rep i CIXINIT_EV_READY 1 0]"
    proof (rule emitted_two)
      have "emitted s' (report (int i) CIXINIT_EV_FAILED CIXINIT_FAIL_PROBE 0 s') [rep i CIXINIT_EV_FAILED CIXINIT_FAIL_PROBE 0]"
        by (simp add: emitted_one)
      moreover have "emitted ?w s' []" using emitted_upd [of ?w i _ s' "[]"] emitted_refl [of ?w] by blast
      ultimately show "emitted ?w (upd_svc i (\<lambda>v. v\<lparr>sv_state := ST_READY\<rparr>) ?f) [rep i CIXINIT_EV_FAILED CIXINIT_FAIL_PROBE 0]"
        using emitted_trans [of ?w s' "[]"] by simp
    qed
    ultimately show ?thesis using sim_trans [OF w] sim_step by blast
  qed
  show ?thesis using a sim_trans [OF a r] sim_trans [OF a t] by simp
qed

lemma sim_probe_service:
  assumes "i < length (g_svc s)" "sv_state (g_svc s ! i) = ST_STARTING" "0 < sv_pid (g_svc s ! i)" "te_fork env i \<noteq> 0"
  shows "sim Scheduling now s (probe_service env i now s)"
proof (cases "ci_ready_kind (sv_def (g_svc s ! i)) = CIXINIT_READY_COMMAND")
  case True
  have "sim Scheduling now s (probe_command_spawn env i s)"
  proof (cases "te_fork env i < 0")
    case False
    then show ?thesis using assms probe_spawned [of Scheduling i "g_svc s" "te_fork env i" now "g_shutting_down s"]
      by (intro sim_step [of _ _ _ "[]"]) (simp_all add: probe_command_spawn_def Let_def view_def)
  qed (simp add: probe_command_spawn_def Let_def)
  moreover have "sim Scheduling now s (call (Kill (sv_probe_pid (g_svc s ! i)) SIGKILL) s)"
    by (rule quiet_sim [OF assms(1)]) (simp add: quiet_call)
  ultimately show ?thesis using True by (simp add: probe_service_def Let_def)
next
  case False
  show ?thesis
    using False sim_probe_done [OF assms(1-3)] quiet_service_tcp [OF assms(1)] quiet_unix [OF assms(1)] quiet_refl
    by (simp add: probe_service_def Let_def case_prod_beta)
qed

lemma sim_escalate:
  assumes "i < length (g_svc s)" "ph = Scheduling \<or> ph = Stopping"
  shows "sim ph now s (escalate_stop i now s)"
proof (cases "sv_pid (g_svc s ! i) \<le> 0 \<or> sv_stop_sent_at (g_svc s ! i) = 0 \<or> sv_killed (g_svc s ! i) \<or>
    \<not> stop_timeout_ms (g_svc s ! i) \<le> now - sv_stop_sent_at (g_svc s ! i)")
  case False
  then show ?thesis using assms stop_killed [of ph i "g_svc s" now "g_shutting_down s"]
    by (intro sim_step [of _ _ _ "[]"]) (simp_all add: escalate_stop_def Let_def view_def not_le)
qed (auto simp: escalate_stop_def Let_def)

lemma sim_dep_failed:
  assumes "i < length (g_svc s)" "\<not> g_shutting_down s" "sv_state (g_svc s ! i) = ST_PENDING" "\<not> sv_operator_stopped (g_svc s ! i)"
    and "0 \<le> dead" "dead = snd (deps_satisfied (g_svc s) i)"
  shows "sim Scheduling now s (report (int i) CIXINIT_EV_FAILED CIXINIT_FAIL_DEPENDENCY dead (set_state i ST_FAILED s))"
proof (rule sim_step)
  have d: "after_edge (g_svc s) i (nat dead)" "dep_dead (g_svc s ! nat dead)" "int (nat dead) = dead"
    using deps_satisfied_dead [OF assms(1)] assms(5,6) by auto
  show "sup_step Scheduling now (view s) [rep i CIXINIT_EV_FAILED CIXINIT_FAIL_DEPENDENCY dead]
      (view (report (int i) CIXINIT_EV_FAILED CIXINIT_FAIL_DEPENDENCY dead (set_state i ST_FAILED s)))"
    using dep_failed [of Scheduling i "g_svc s" False "nat dead" now] assms d by (simp add: view_def)
qed (rule emitted_one, simp)

lemma sim_schedule_one:
  assumes "sup_inv (False, g_svc s)" "parked (view s)" "i < length (g_svc s)" "te_fork env i \<noteq> 0"
  shows "sim Scheduling now s (schedule_one env now i s)"
proof (cases "sv_state (g_svc s ! i)")
  case ST_PENDING
  then have d: "\<not> g_shutting_down s" using assms(2,3) nth_mem [OF assms(3)] by (auto simp: view_def parked_def)
  show ?thesis
  proof (cases "sv_operator_stopped (g_svc s ! i)")
    case False
    obtain ok dead where o: "deps_satisfied (g_svc s) i = (ok, dead)" by (cases "deps_satisfied (g_svc s) i")
    have "sim Scheduling now s (start_service env i s)" if ok
      using that deps_satisfied_iff [OF assms(3)] o ST_PENDING False d assms(3,4) by (intro sim_start_service) (auto simp: may_start_def)
    moreover have f: "sim Scheduling now s (report (int i) CIXINIT_EV_FAILED CIXINIT_FAIL_DEPENDENCY dead (set_state i ST_FAILED s))" if "0 \<le> dead"
      using that o ST_PENDING False d assms(3) by (intro sim_dep_failed) simp_all
    ultimately show ?thesis using o False ST_PENDING sim_trans [OF f sim_begin_shutdown]
      by (simp add: schedule_one_def Let_def del: set_state_frame)
  qed (simp add: schedule_one_def Let_def ST_PENDING)
next
  case ST_RESTART_WAIT
  then have "\<not> g_shutting_down s" using assms(2,3) nth_mem [OF assms(3)] by (auto simp: view_def parked_def)
  then show ?thesis using ST_RESTART_WAIT assms(3,4) sim_start_service [of i s now env]
    by (simp add: schedule_one_def Let_def may_start_def)
next
  case ST_STARTING
  have p: "sim Scheduling now s (probe_service env i now s)" if "0 < sv_pid (g_svc s ! i)"
    by (rule sim_probe_service [OF assms(3) ST_STARTING that assms(4)])
  have e: "sim Scheduling now s (escalate_stop i now s)" by (rule sim_escalate [OF assms(3)]) simp
  show ?thesis
  proof (cases "sv_stop_sent_at (g_svc s ! i) = 0")
    case True
    have "0 < sv_pid (g_svc s ! i)" using sup_inv_nth [OF assms(1,3)] ST_STARTING by (simp add: svc_inv_def)
    note q = p [OF this]
    have "sim Scheduling now (probe_service env i now s) (escalate_stop i now (probe_service env i now s))"
      using sim_length [OF q] assms(3) by (intro sim_escalate) simp_all
    then show ?thesis using sim_trans [OF q] True by (simp add: schedule_one_def Let_def ST_STARTING)
  next
    case False
    then show ?thesis using e by (simp add: schedule_one_def Let_def ST_STARTING)
  qed
next
  case ST_READY
  then show ?thesis using sim_escalate [OF assms(3), of Scheduling now] by (simp add: schedule_one_def Let_def)
qed (simp_all add: schedule_one_def Let_def)

lemma sim_live: "sim Scheduling now s s' \<Longrightarrow> sup_inv (False, g_svc s) \<Longrightarrow> sup_inv (False, g_svc s')"
  unfolding sim_def using sup_steps_live [of now "view s" _ "view s'"] by (auto simp: view_def)

lemma sim_schedule_list:
  "sup_inv (False, g_svc s) \<Longrightarrow> parked (view s) \<Longrightarrow> \<forall>i \<in> set is. i < length (g_svc s) \<Longrightarrow> \<forall>i. te_fork env i \<noteq> 0 \<Longrightarrow>
     sim Scheduling now s (fold (schedule_one env now) is s)"
proof (induction "is" arbitrary: s)
  case (Cons i "is")
  then have q: "sim Scheduling now s (schedule_one env now i s)" by (intro sim_schedule_one) simp_all
  have "sim Scheduling now (schedule_one env now i s) (fold (schedule_one env now) is (schedule_one env now i s))"
    using Cons.prems sim_live [OF q] sim_parked [OF q] sim_length [OF q] by (intro Cons.IH) simp_all
  then show ?case using sim_trans [OF q] by simp
qed simp

lemma sim_schedule:
  "\<not> g_shutting_down s \<Longrightarrow> sup_inv (view s) \<Longrightarrow> \<forall>i. te_fork env i \<noteq> 0 \<Longrightarrow> sim Scheduling now s (schedule_all env now s)"
  unfolding schedule_all_def by (rule sim_schedule_list) (simp_all add: view_def parked_def)

section \<open>Stopping\<close>

lemma sim_stop_one:
  assumes "i < length (g_svc s)"
  shows "sim Stopping now s (stop_one now i s)"
proof (cases "sv_pid (g_svc s ! i) \<le> 0 \<or> has_running_dependent (g_svc s) i")
  case False
  have s: "sim Stopping now s (send_stop i now s)"
  proof (cases "sv_stop_sent_at (g_svc s ! i) = 0")
    case True
    have "\<forall>j. after_edge (g_svc s) j i \<longrightarrow> sv_pid (g_svc s ! j) \<le> 0" using False by (auto simp: has_running_dependent_iff)
    then show ?thesis using True False assms stop_ordered [of Stopping i "g_svc s" now "g_shutting_down s"]
      by (intro sim_step [of _ _ _ "[]"]) (simp_all add: send_stop_def Let_def view_def)
  qed (simp add: send_stop_def Let_def)
  then have "sim Stopping now (send_stop i now s) (escalate_stop i now (send_stop i now s))"
    using sim_length [OF s] assms by (intro sim_escalate) simp_all
  then show ?thesis using False sim_trans [OF s] by (simp add: stop_one_def)
qed (auto simp: stop_one_def)

lemma sim_stop_list:
  "\<forall>i \<in> set is. i < length (g_svc s) \<Longrightarrow> sim Stopping now s (fold (stop_one now) is s)"
proof (induction "is" arbitrary: s)
  case (Cons i "is")
  then have q: "sim Stopping now s (stop_one now i s)" by (intro sim_stop_one) simp
  have "sim Stopping now (stop_one now i s) (fold (stop_one now) is (stop_one now i s))"
    using Cons.prems sim_length [OF q] by (intro Cons.IH) simp
  then show ?case using sim_trans [OF q] by simp
qed simp

lemma sim_shutdown_step: "sim Stopping now s (shutdown_step now s)"
  unfolding shutdown_step_def by (rule sim_stop_list) simp

section \<open>A turn\<close>

lemma sim_flush: "sim ph now s (report_flush ws s)"
proof -
  have "view (report_flush ws s) = view s" by (simp add: view_def)
  then show ?thesis unfolding sim_def using emitted_flush [of s ws] sup_none [of ph now "view s"] by metis
qed

lemma sim_finish: "sim ph now s (finish env s)"
proof -
  have "sup_steps ph now (view s) [] (view (finish env s))" by (simp add: finish_def Let_def view_def sup_none)
  moreover have "emitted s (finish env s) []" by (simp add: finish_def Let_def emitted_flush)
  ultimately show ?thesis unfolding sim_def by blast
qed

lemma sim_complete: "sim Stopping now s (report (- 1) CIXINIT_EV_SHUTDOWN 1 0 s)"
  using stop_complete [of Stopping now "g_shutting_down s" "g_svc s"] emitted_report [of s "- 1" CIXINIT_EV_SHUTDOWN 1 0]
  by (intro sim_step [of _ _ _ "[down_report 1]"]) (simp_all add: view_def down_report_def)

lemma sim_take_events:
  assumes "sup_inv (view s)"
  shows "\<exists>s1. sim Reaping (te_now env) s s1 \<and> sim (Commands (named_in (te_read env))) (te_now env) s1 (take_events env s)"
proof -
  let ?r = "reap_all (te_wait env) (te_now env) s"
  let ?s1 = "if te_sigterm env then begin_shutdown 0 ?r else ?r"
  have "sim Reaping (te_now env) s ?s1" using sim_reap_all [OF assms] sim_trans [OF _ sim_begin_shutdown] by simp
  moreover have "sim (Commands (named_in (te_read env))) (te_now env) ?s1 (take_events env s)"
    using sim_drain_control [of "te_read env" "named_in (te_read env)"] by (simp add: take_events_def Let_def)
  ultimately show ?thesis by blast
qed

definition phase_of :: "cix_init \<Rightarrow> phase" where
  "phase_of s = (if g_shutting_down s then Stopping else Scheduling)"

lemma sim_turn:
  assumes "sup_inv (view s)" "\<forall>i. te_fork env i \<noteq> 0"
  shows "sim (phase_of (take_events env s)) (te_now env) (take_events env s) (turn env s)"
proof -
  let ?s = "take_events env s"
  obtain s1 where "sim Reaping (te_now env) s s1" "sim (Commands (named_in (te_read env))) (te_now env) s1 ?s"
    using sim_take_events [OF assms(1)] by blast
  then have i: "sup_inv (view ?s)" using sim_inv assms(1) by blast
  show ?thesis
  proof (cases "g_shutting_down ?s")
    case True
    have q: "sim Stopping (te_now env) ?s (shutdown_step (te_now env) ?s)" by (rule sim_shutdown_step)
    have "sim Stopping (te_now env) ?s (finish env (report (- 1) CIXINIT_EV_SHUTDOWN 1 0 (shutdown_step (te_now env) ?s)))"
      using sim_trans [OF q sim_trans [OF sim_complete sim_finish]] .
    then show ?thesis using True sim_trans [OF q sim_flush] by (simp add: turn_def Let_def phase_of_def)
  next
    case False
    have q: "sim Scheduling (te_now env) ?s (schedule_all env (te_now env) ?s)" by (rule sim_schedule [OF False i assms(2)])
    show ?thesis using False sim_trans [OF q sim_flush] sim_trans [OF q sim_finish] by (simp add: turn_def Let_def phase_of_def)
  qed
qed

text \<open>What a turn is: events, commands, then scheduling or stopping.\<close>

lemma turn_refines:
  assumes "sup_inv (view s)" "\<forall>i. te_fork env i \<noteq> 0"
  obtains u1 u2 rs1 rs2 rs3 where "sup_steps Reaping (te_now env) (view s) rs1 u1"
    "sup_steps (Commands (named_in (te_read env))) (te_now env) u1 rs2 u2"
    "sup_steps (if fst u2 then Stopping else Scheduling) (te_now env) u2 rs3 (view (turn env s))"
    "emitted s (turn env s) (rs1 @ rs2 @ rs3)" "u2 = view (take_events env s)"
proof -
  obtain s1 where a: "sim Reaping (te_now env) s s1" "sim (Commands (named_in (te_read env))) (te_now env) s1 (take_events env s)"
    using sim_take_events [OF assms(1)] by blast
  obtain rs1 where r1: "sup_steps Reaping (te_now env) (view s) rs1 (view s1)" "emitted s s1 rs1" using a(1) by (auto simp: sim_def)
  obtain rs2 where r2: "sup_steps (Commands (named_in (te_read env))) (te_now env) (view s1) rs2 (view (take_events env s))"
    "emitted s1 (take_events env s) rs2" using a(2) by (auto simp: sim_def)
  obtain rs3 where r3: "sup_steps (phase_of (take_events env s)) (te_now env) (view (take_events env s)) rs3 (view (turn env s))"
    "emitted (take_events env s) (turn env s) rs3" using sim_turn [OF assms] by (auto simp: sim_def)
  show thesis using that [OF r1(1) r2(1) _ _ refl] r3 emitted_trans [OF r1(2) emitted_trans [OF r2(2) r3(2)]]
    by (simp add: phase_of_def view_def)
qed

lemma turn_inv:
  assumes "sup_inv (view s)" "\<forall>i. te_fork env i \<noteq> 0"
  shows "sup_inv (view (turn env s))"
proof -
  obtain u1 u2 rs1 rs2 rs3 where "sup_steps Reaping (te_now env) (view s) rs1 u1"
    "sup_steps (Commands (named_in (te_read env))) (te_now env) u1 rs2 u2"
    "sup_steps (if fst u2 then Stopping else Scheduling) (te_now env) u2 rs3 (view (turn env s))"
    using turn_refines [OF assms] .
  then show ?thesis using sup_steps_inv assms(1) by blast
qed

end
