(* ===== verification/Init_Wire.thy ===== *)
theory Init_Wire
  imports Init_Order Cix_Init
begin

text \<open>
  The two sides of the control socket: what \<open>cixinit_table.c\<close> packs, \<open>cix_init.c\<close> unpacks and
  accepts.  The facts are about packed argument vectors, padded names, and every check
  \<open>validate_service\<close> makes of a record that \<open>parse_one\<close> built.
\<close>

section \<open>Padded texts\<close>

lemma length_pad: "length s \<le> n \<Longrightarrow> length (pad n s) = n"
  by (simp add: pad_def)

lemma c_str_pad [simp]: "is_c_str s \<Longrightarrow> c_str (pad n s) = s"
  by (auto simp: pad_def c_str_def is_c_str_def list_all_iff takeWhile_append)

lemma c_str_append_NUL: "is_c_str s \<Longrightarrow> c_str (s @ NUL # r) = s"
  by (auto simp: c_str_def is_c_str_def list_all_iff takeWhile_append)

lemma pad_snoc: "length s < n \<Longrightarrow> \<exists>r. pad n s = s @ NUL # r"
  unfolding pad_def by (rule exI [of _ "replicate (n - length s - 1) NUL"]) (simp flip: replicate_Suc)

lemma str_ok_iff: "length s = n \<Longrightarrow> str_ok s n \<longleftrightarrow> NUL \<in> set s \<and> s \<noteq> [] \<and> hd s \<noteq> NUL"
  using find_index_None [of "\<lambda>c. c = NUL" s] by (cases s) (auto simp: str_ok_def split: option.split)

lemma str_ok_pad:
  assumes "is_c_str s" "s \<noteq> []" "length s < n"
  shows "str_ok (pad n s) n"
proof -
  obtain r where r: "pad n s = s @ NUL # r" using pad_snoc [OF assms(3)] by auto
  have "length (pad n s) = n" using assms(3) by (simp add: length_pad)
  then show ?thesis using assms(1,2) r by (subst str_ok_iff) (cases s; auto)+
qed

section \<open>Argument vectors\<close>

definition packed :: "string list \<Rightarrow> char list" where
  "packed ss = concat (map (\<lambda>s. s @ [NUL]) ss)"

lemma packed_simps [simp]: "packed [] = []" "packed (s # ss) = s @ NUL # packed ss"
  by (simp_all add: packed_def)

lemma pack_strings_packed:
  "pack_strings cap js acc = Some buf \<Longrightarrow> length acc < cap \<Longrightarrow>
     \<exists>ss. map (\<lambda>j. json_as_string (Some j)) js = map Some ss \<and> buf = acc @ packed ss \<and> length buf < cap"
proof (induction js arbitrary: acc)
  case (Cons j js)
  from Cons.prems obtain s where s: "json_as_string (Some j) = Some s" "\<not> cap < length acc + (length s + 1) + 1"
    "pack_strings cap js (acc @ s @ [NUL]) = Some buf"
    by (auto split: option.split_asm if_split_asm)
  from Cons.IH [OF s(3)] s(2) obtain ss where
    "map (\<lambda>j. json_as_string (Some j)) js = map Some ss" "buf = (acc @ s @ [NUL]) @ packed ss" "length buf < cap" by auto
  with s(1) show ?case by (intro exI [of _ "s # ss"]) simp
qed simp

lemma pack_strings_first: "pack_strings cap (j # js) [] = Some buf \<Longrightarrow> json_as_string (Some j) \<noteq> Some []"
  by auto

text \<open>A packed argument vector of an array of strings.\<close>

lemma pack_argv_packed:
  assumes "pack_argv v cap = Some buf" "0 < cap"
  obtains js ss r where "v = Some (JArray js)" "map (\<lambda>j. json_as_string (Some j)) js = map Some ss"
    "buf = packed ss @ NUL # r" "length buf = cap" "ss \<noteq> []" "length ss \<le> CIXINIT_ARGC_MAX" "hd ss \<noteq> []"
proof -
  from assms(1) obtain js b where js: "v = Some (JArray js)" "js \<noteq> []" "length js \<le> CIXINIT_ARGC_MAX"
    and b: "pack_strings cap js [] = Some b" "buf = pad cap b"
    by (auto simp: pack_argv_def split: option.split_asm json.split_asm if_split_asm)
  from pack_strings_packed [OF b(1)] assms(2) obtain ss where
    ss: "map (\<lambda>j. json_as_string (Some j)) js = map Some ss" "b = packed ss" "length b < cap" by auto
  then have l: "length ss = length js" by (metis length_map)
  obtain r where r: "buf = packed ss @ NUL # r" using pad_snoc [OF ss(3)] b(2) ss(2) by auto
  obtain j js' where j: "js = j # js'" using js(2) by (cases js) auto
  have "hd ss \<noteq> []"
  proof
    assume "hd ss = []"
    with ss(1) j have "json_as_string (Some j) = Some []" by (cases ss) auto
    with pack_strings_first b(1) j show False by blast
  qed
  moreover have "length buf = cap" using ss(3) b(2) by (simp add: length_pad)
  moreover have "ss \<noteq> []" using js(2) l by (cases ss) auto
  ultimately show thesis using js(3) l by (intro that [OF js(1) ss(1) r]) simp_all
qed

lemma argv_unpack_packed:
  "list_all is_c_str ss \<Longrightarrow> length ss \<le> k \<Longrightarrow> argv_unpack (packed ss @ NUL # r) k = takeWhile (\<lambda>s. s \<noteq> []) ss"
proof (induction ss arbitrary: k)
  case Nil
  show ?case by (cases k) simp_all
next
  case (Cons s ss)
  then obtain k' where k: "k = Suc k'" "length ss \<le> k'" by (cases k) auto
  show ?case
  proof (cases s)
    case (Cons c cs)
    have "c_str (packed (s # ss) @ NUL # r) = s" using Cons.prems(1) by (simp add: c_str_append_NUL)
    then show ?thesis using Cons.IH [OF _ k(2)] Cons.prems(1) Cons k(1) by simp
  qed (simp add: k)
qed

lemma dropWhile_c_str: "is_c_str s \<Longrightarrow> dropWhile (\<lambda>c. c \<noteq> NUL) (s @ NUL # r) = NUL # r"
  by (auto simp: is_c_str_def list_all_iff dropWhile_append)

lemma argv_count_packed:
  "list_all is_c_str ss \<Longrightarrow> n + length ss \<le> CIXINIT_ARGC_MAX \<Longrightarrow>
     argv_count_from (packed ss @ NUL # r) n = int (n + length (takeWhile (\<lambda>s. s \<noteq> []) ss))"
proof (induction ss arbitrary: n)
  case Nil
  show ?case by (subst argv_count_from.simps) simp
next
  case (Cons s ss)
  have d: "dropWhile (\<lambda>c. c \<noteq> NUL) (packed (s # ss) @ NUL # r) = NUL # packed ss @ NUL # r"
    using Cons.prems(1) dropWhile_c_str [of s "packed ss @ NUL # r"] by simp
  show ?case
  proof (cases s)
    case (Cons c cs)
    then show ?thesis using Cons.IH [of "n + 1"] Cons.prems d
      by (subst argv_count_from.simps) (simp add: Let_def)
  qed (subst argv_count_from.simps, simp)
qed

lemma typed_strings:
  assumes "typed_json (JArray js)" "map (\<lambda>j. json_as_string (Some j)) js = map Some ss"
  shows "list_all is_c_str ss"
proof -
  have "is_c_str s" if "s \<in> set ss" for s
  proof -
    from that obtain i where i: "i < length ss" "s = ss ! i" by (metis in_set_conv_nth)
    with assms(2) have "i < length js" by (metis length_map)
    moreover from this i assms(2) have "json_as_string (Some (js ! i)) = Some s" by (metis nth_map)
    moreover from \<open>i < length js\<close> have "typed_json (js ! i)" using assms(1) by simp
    ultimately show ?thesis by (cases "js ! i") (simp_all add: json_as_string_def)
  qed
  then show ?thesis by (simp add: list_all_iff)
qed

lemma argv_count_ok:
  assumes "pack_argv v cap = Some buf" "0 < cap" "\<And>j. v = Some j \<Longrightarrow> typed_json j"
  shows "1 \<le> argv_count buf cap"
proof -
  obtain js ss r where p: "v = Some (JArray js)" "map (\<lambda>j. json_as_string (Some j)) js = map Some ss"
    "buf = packed ss @ NUL # r" "length buf = cap" "ss \<noteq> []" "length ss \<le> CIXINIT_ARGC_MAX" "hd ss \<noteq> []"
    using pack_argv_packed [OF assms(1,2)] .
  have "list_all is_c_str ss" using typed_strings p(1,2) assms(3) by blast
  then have "argv_count buf cap = int (length (takeWhile (\<lambda>s. s \<noteq> []) ss))"
    using argv_count_packed [of ss 0 r] p(3,4,6) by (simp add: argv_count_def)
  then show ?thesis using p(5,7) by (cases ss) auto
qed

section \<open>A record that was parsed\<close>

lemma typed_member: "typed_json (JObject ms) \<Longrightarrow> json_object_get (Some (JObject ms)) k = Some v \<Longrightarrow> typed_json v"
  by (auto simp: json_object_get_def dest: map_of_SomeD)

lemma json_as_string_Some: "json_as_string v = Some s \<longleftrightarrow> v = Some (JString s)"
  by (auto simp: json_as_string_def split: option.split json.split)

lemma typed_string_member:
  "typed_json (JObject ms) \<Longrightarrow> json_as_string (json_object_get (Some (JObject ms)) k) = Some s \<Longrightarrow> is_c_str s"
  unfolding json_as_string_Some using typed_member by fastforce

lemma name_ok_Some: "name_ok (Some n) \<Longrightarrow> n \<noteq> [] \<and> length n < CIXINIT_NAME_MAX \<and> is_c_str n"
  by (auto simp: name_ok_def is_c_str_def list_all_iff dest: name_char_not_NUL)

definition ready_ok :: "cixinit_service \<Rightarrow> bool" where
  "ready_ok s = (CIXINIT_READY_NONE \<le> ci_ready_kind s \<and> ci_ready_kind s \<le> CIXINIT_READY_COMMAND \<and>
     (ci_ready_kind s = CIXINIT_READY_SOCKET \<longrightarrow> str_ok (ci_ready_path s) CIXINIT_PATH_MAX) \<and>
     (ci_ready_kind s = CIXINIT_READY_COMMAND \<longrightarrow> 1 \<le> argv_count (ci_ready_path s) CIXINIT_PATH_MAX))"

definition same_command :: "cixinit_service \<Rightarrow> cixinit_service \<Rightarrow> bool" where
  "same_command s s' = (ci_name s' = ci_name s \<and> ci_argv s' = ci_argv s \<and> ci_type s' = ci_type s)"

lemma parse_ready_ok:
  assumes "parse_ready jready s = Some s'" "\<And>j. jready = Some j \<Longrightarrow> typed_json j" "ci_ready_kind s = CIXINIT_READY_NONE"
  shows "same_command s s' \<and> ready_ok s'"
proof (cases jready)
  case None
  with assms(1,3) show ?thesis by (auto simp: parse_ready_def same_command_def ready_ok_def cixinit_codes)
next
  case (Some j)
  with assms(1) obtain ms where j: "j = JObject ms" by (auto simp: parse_ready_def split: json.split_asm)
  have ty: "typed_json (JObject ms)" using assms(2) Some j by simp
  let ?get = "json_object_get (Some (JObject ms))"
  from assms(1) Some j obtain s1 v where
    s1: "(if ?get ''tcp_port'' \<noteq> None then
            do { v \<leftarrow> int_field jready ''tcp_port'' 1 65535 0; Some (s\<lparr>ci_ready_kind := CIXINIT_READY_TCP, ci_ready_port := v\<rparr>) }
          else if ?get ''socket'' \<noteq> None then
            (case json_as_string (?get ''socket'') of None \<Rightarrow> None
             | Some path \<Rightarrow>
                 if path = [] \<or> hd path \<noteq> CHR ''/'' \<or> CIXINIT_PATH_MAX \<le> length path then None
                 else Some (s\<lparr>ci_ready_kind := CIXINIT_READY_SOCKET,
                              ci_ready_path := pad CIXINIT_PATH_MAX (snprintf_s CIXINIT_PATH_MAX path)\<rparr>))
          else do { packed \<leftarrow> pack_argv (?get ''command'') CIXINIT_PATH_MAX;
                    Some (s\<lparr>ci_ready_path := packed, ci_ready_kind := CIXINIT_READY_COMMAND\<rparr>) }) = Some s1"
    and s': "s' = s1\<lparr>ci_ready_timeout_seconds := v\<rparr>"
    by (auto simp: parse_ready_def Let_def bind_eq_Some_conv simp del: not_None_eq split: if_split_asm)
  consider (tcp) v where "s1 = s\<lparr>ci_ready_kind := CIXINIT_READY_TCP, ci_ready_port := v\<rparr>"
    | (sock) path where "json_as_string (?get ''socket'') = Some path" "path \<noteq> []" "length path < CIXINIT_PATH_MAX"
        "s1 = s\<lparr>ci_ready_kind := CIXINIT_READY_SOCKET, ci_ready_path := pad CIXINIT_PATH_MAX path\<rparr>"
    | (cmd) buf where "pack_argv (?get ''command'') CIXINIT_PATH_MAX = Some buf"
        "s1 = s\<lparr>ci_ready_path := buf, ci_ready_kind := CIXINIT_READY_COMMAND\<rparr>"
    using s1 by (auto simp: bind_eq_Some_conv not_le split: if_split_asm option.split_asm)
  then show ?thesis
  proof cases
    case tcp
    then show ?thesis by (simp add: s' same_command_def ready_ok_def cixinit_codes)
  next
    case sock
    then show ?thesis using typed_string_member [OF ty sock(1)]
      by (simp add: s' same_command_def ready_ok_def cixinit_codes str_ok_pad)
  next
    case cmd
    have "0 < CIXINIT_PATH_MAX" by (simp add: CIXINIT_PATH_MAX_def)
    from argv_count_ok [OF cmd(1) this] typed_member [OF ty] cmd(2)
    show ?thesis by (simp add: s' same_command_def ready_ok_def cixinit_codes)
  qed
qed

lemma signal_range: "parse_stop_signal t = Some v \<Longrightarrow> 1 \<le> v \<and> v \<le> 64"
proof (cases t)
  case (Some n)
  assume "parse_stop_signal t = Some v"
  then have v: "v = cixinit_signal_from_name t" "0 \<le> v" using Some by (auto simp: parse_stop_signal_def split: if_split_asm)
  have hit: "\<exists>s. (s, k) \<in> set g_signals" if "(case find P g_signals of None \<Rightarrow> - 1 | Some (s, w) \<Rightarrow> w) = k" "0 \<le> k" for P k
    using that by (auto simp: find_Some_iff split: option.split_asm) (metis nth_mem)
  have "\<exists>s. (s, v) \<in> set g_signals"
    using v hit [OF _ v(2)] unfolding Some cixinit_signal_from_name_def option.case by (metis (no_types))
  then show ?thesis by (auto simp: g_signals_def SIGTERM_def SIGKILL_def)
qed (auto simp: parse_stop_signal_def SIGTERM_def)

lemma parse_one_pieces:
  assumes "parse_one item = Some (s, after)"
  obtains ms n type argv s1 on_exit delay sig tmo uid gid where
    "item = JObject ms" "json_as_string (json_object_get (Some item) ''name'') = Some n" "name_ok (Some n)"
    "parse_type (json_as_string (json_object_get (Some item) ''type'')) = Some type"
    "pack_argv (json_object_get (Some item) ''cmd'') CIXINIT_ARGV_MAX = Some argv"
    "parse_after n (json_object_get (Some item) ''after'') = Some after"
    "parse_ready (json_object_get (Some item) ''ready'')
       (blank_service\<lparr>ci_name := pad CIXINIT_NAME_MAX n, ci_type := type, ci_argv := argv, ci_ready_kind := CIXINIT_READY_NONE\<rparr>) = Some s1"
    "parse_on_exit (json_as_string (json_object_get (Some item) ''on_exit'')) type = Some on_exit"
    "parse_stop_signal (json_as_string (json_object_get (Some item) ''stop_signal'')) = Some sig"
    "s = s1\<lparr>ci_on_exit := on_exit, ci_restart_delay_seconds := delay, ci_stop_signal := sig,
            ci_stop_timeout_seconds := tmo, ci_uid := uid, ci_gid := gid\<rparr>"
proof -
  from assms obtain ms where i: "item = JObject ms" by (auto simp: parse_one_def Let_def split: json.split_asm)
  from assms have ok: "name_ok (json_as_string (json_object_get (Some item) ''name''))"
    by (auto simp: parse_one_def Let_def i split: if_split_asm)
  then obtain n where n: "json_as_string (json_object_get (Some item) ''name'') = Some n"
    by (cases "json_as_string (json_object_get (Some item) ''name'')") (auto simp: name_ok_def)
  have f: "snprintf_s CIXINIT_NAME_MAX n = n" using name_ok_Some ok n by simp
  let ?g = "json_object_get (Some item)"
  let ?s0 = "blank_service\<lparr>ci_name := pad CIXINIT_NAME_MAX n\<rparr>"
  have e: "parse_one item = do {
      type \<leftarrow> parse_type (json_as_string (?g ''type''));
      argv \<leftarrow> pack_argv (?g ''cmd'') CIXINIT_ARGV_MAX;
      after \<leftarrow> parse_after n (?g ''after'');
      s \<leftarrow> parse_ready (?g ''ready'') (?s0\<lparr>ci_type := type, ci_argv := argv, ci_ready_kind := CIXINIT_READY_NONE\<rparr>);
      on_exit \<leftarrow> parse_on_exit (json_as_string (?g ''on_exit'')) type;
      if type = CIXINIT_TYPE_ONESHOT \<and> on_exit = CIXINIT_ON_EXIT_RESTART then None
      else do {
        delay \<leftarrow> int_field (Some item) ''restart_delay_seconds'' 1 300 DEFAULT_RESTART_DELAY;
        sig \<leftarrow> parse_stop_signal (json_as_string (?g ''stop_signal''));
        timeout \<leftarrow> int_field (Some item) ''stop_timeout_seconds'' 1 300 DEFAULT_STOP_TIMEOUT;
        uid \<leftarrow> int_field (Some item) ''uid'' 0 2147483647 (- 1);
        gid \<leftarrow> int_field (Some item) ''gid'' 0 2147483647 (- 1);
        Some (s\<lparr>ci_on_exit := on_exit, ci_restart_delay_seconds := delay, ci_stop_signal := sig,
                ci_stop_timeout_seconds := timeout, ci_uid := uid, ci_gid := gid\<rparr>, after) } }"
    using ok by (simp only: parse_one_def Let_def i json.case n [unfolded i] f option.sel not_True_eq_False if_False simp_thms)
  have "\<exists>type argv s1 on_exit delay sig tmo uid gid.
    parse_type (json_as_string (?g ''type'')) = Some type \<and> pack_argv (?g ''cmd'') CIXINIT_ARGV_MAX = Some argv \<and>
    parse_after n (?g ''after'') = Some after \<and>
    parse_ready (?g ''ready'') (?s0\<lparr>ci_type := type, ci_argv := argv, ci_ready_kind := CIXINIT_READY_NONE\<rparr>) = Some s1 \<and>
    parse_on_exit (json_as_string (?g ''on_exit'')) type = Some on_exit \<and>
    parse_stop_signal (json_as_string (?g ''stop_signal'')) = Some sig \<and>
    s = s1\<lparr>ci_on_exit := on_exit, ci_restart_delay_seconds := delay, ci_stop_signal := sig,
            ci_stop_timeout_seconds := tmo, ci_uid := uid, ci_gid := gid\<rparr>"
    using assms unfolding e bind_eq_Some_conv
    by (elim exE conjE) (force simp only: bind_eq_Some_conv option.inject prod.inject split: if_split_asm)
  then show thesis using that [OF i n ok [unfolded n]] by blast
qed

lemma parse_one_valid:
  assumes "parse_one item = Some (s, after)" "typed_json item"
  shows "drop_bit idx m = 0 \<Longrightarrow> validate_service idx (s\<lparr>ci_after_mask := m\<rparr>)"
    "\<exists>n. json_as_string (json_object_get (Some item) ''name'') = Some n \<and> svc_name s = n"
proof -
  obtain ms n type argv s1 on_exit delay sig tmo uid gid where
    p: "item = JObject ms" "json_as_string (json_object_get (Some item) ''name'') = Some n" "name_ok (Some n)"
    "parse_type (json_as_string (json_object_get (Some item) ''type'')) = Some type"
    "pack_argv (json_object_get (Some item) ''cmd'') CIXINIT_ARGV_MAX = Some argv"
    "parse_after n (json_object_get (Some item) ''after'') = Some after"
    "parse_ready (json_object_get (Some item) ''ready'')
       (blank_service\<lparr>ci_name := pad CIXINIT_NAME_MAX n, ci_type := type, ci_argv := argv, ci_ready_kind := CIXINIT_READY_NONE\<rparr>) = Some s1"
    "parse_on_exit (json_as_string (json_object_get (Some item) ''on_exit'')) type = Some on_exit"
    "parse_stop_signal (json_as_string (json_object_get (Some item) ''stop_signal'')) = Some sig"
    "s = s1\<lparr>ci_on_exit := on_exit, ci_restart_delay_seconds := delay, ci_stop_signal := sig,
            ci_stop_timeout_seconds := tmo, ci_uid := uid, ci_gid := gid\<rparr>"
    using parse_one_pieces [OF assms(1)] .
  have ty: "typed_json (JObject ms)" using assms(2) p(1) by simp
  have n: "n \<noteq> []" "length n < CIXINIT_NAME_MAX" "is_c_str n" using name_ok_Some [OF p(3)] by auto
  have r: "same_command (blank_service\<lparr>ci_name := pad CIXINIT_NAME_MAX n, ci_type := type, ci_argv := argv,
      ci_ready_kind := CIXINIT_READY_NONE\<rparr>) s1" "ready_ok s1"
    using parse_ready_ok [OF p(7)] typed_member [OF ty] p(1) by auto
  have "1 \<le> argv_count argv CIXINIT_ARGV_MAX"
    using argv_count_ok [OF p(5)] typed_member [OF ty] p(1) by (auto simp: CIXINIT_ARGV_MAX_def)
  moreover have "type = CIXINIT_TYPE_ONESHOT \<or> type = CIXINIT_TYPE_DAEMON"
    using p(4) by (auto simp: parse_type_def split: if_split_asm)
  moreover have "CIXINIT_ON_EXIT_RESTART \<le> on_exit \<and> on_exit \<le> CIXINIT_ON_EXIT_FAIL_CONTAINER"
    using p(8) by (auto simp: parse_on_exit_def cixinit_codes split: option.split_asm if_split_asm)
  moreover note signal_range [OF p(9)] str_ok_pad [OF n(3,1,2)] r
  ultimately show "drop_bit idx m = 0 \<Longrightarrow> validate_service idx (s\<lparr>ci_after_mask := m\<rparr>)"
    by (auto simp: p(10) validate_service_def same_command_def ready_ok_def)
  show "\<exists>n. json_as_string (json_object_get (Some item) ''name'') = Some n \<and> svc_name s = n"
    using p(2,10) r(1) n(3) by (simp add: svc_name_def same_command_def)
qed

section \<open>The table on the socket\<close>

lemma read_services_ok:
  "(\<And>k. k < length ds \<Longrightarrow> validate_service (i + k) (ds ! k)) \<Longrightarrow>
     read_services (length ds) i (map CtlService ds @ rest) = Some (map fresh_svc ds)"
proof (induction ds arbitrary: i)
  case (Cons d ds)
  from Cons.prems [of 0] have "validate_service i d" by simp
  moreover have "read_services (length ds) (Suc i) (map CtlService ds @ rest) = Some (map fresh_svc ds)"
    using Cons.prems [of "Suc k" for k] by (intro Cons.IH) simp
  ultimately show ?case by simp
qed simp

lemma table_pieces:
  assumes "cixinit_table_from_json v addrs ifaces = Some t"
  obtains js parsed deps ord hello where "v = Some (JArray js)" "js \<noteq> []" "length js \<le> CIXINIT_MAX_SERVICES"
    "parse_all js [] = Some parsed" "resolve_all parsed = Some deps" "place_all deps [] = Some ord"
    "table_hello (length ord) addrs ifaces = Some hello"
    "t = \<lparr>ct_hello = hello, ct_svc = map (\<lambda>i. (fst (parsed ! i))\<lparr>ci_after_mask := table_mask deps ord i\<rparr>) ord, ct_order = ord\<rparr>"
    "length deps = length js" "placed_ok deps ord" "length ord = length js" "dep_rel deps = after_rel parsed"
proof -
  from assms obtain js where v: "v = Some (JArray js)" "js \<noteq> []" "length js \<le> CIXINIT_MAX_SERVICES"
    by (auto simp: cixinit_table_from_json_def split: option.split_asm json.split_asm if_split_asm)
  from assms obtain parsed deps ord hello where p: "parse_all js [] = Some parsed" "resolve_all parsed = Some deps"
    "place_all deps [] = Some ord" "table_hello (length ord) addrs ifaces = Some hello"
    "t = \<lparr>ct_hello = hello, ct_svc = map (\<lambda>i. (map fst parsed ! i)\<lparr>ci_after_mask := table_mask deps ord i\<rparr>) ord, ct_order = ord\<rparr>"
    using v by (auto simp: cixinit_table_from_json_def resolve_all_def Let_def bind_eq_Some_conv split: if_split_asm)
  note f = parse_all_facts [OF p(1)]
  have l: "length parsed \<le> 32" using f(1) v(3) by (simp add: CIXINIT_MAX_SERVICES_def)
  note r = resolve_all_rel [OF f(3) l p(2)]
  have ok: "placed_ok deps ord" "length ord = length deps"
    using place_all_ok [OF _ _ p(3)] r(1) l by (auto simp: placed_ok_def)
  have "i < length parsed" if "i \<in> set ord" for i using that ok r(1) by (auto simp: placed_ok_def)
  then have "t = \<lparr>ct_hello = hello, ct_svc = map (\<lambda>i. (fst (parsed ! i))\<lparr>ci_after_mask := table_mask deps ord i\<rparr>) ord, ct_order = ord\<rparr>"
    using p(5) by simp
  then show thesis using that v p(1-4) ok r f(1) by auto
qed

text \<open>With every name declared and counts in range, the only refusal left is a cycle.\<close>

lemma table_None_iff:
  assumes "js \<noteq> []" "length js \<le> CIXINIT_MAX_SERVICES" "parse_all js [] = Some parsed"
    and "\<And>p. p \<in> set parsed \<Longrightarrow> set (snd p) \<subseteq> (svc_name \<circ> fst) ` set parsed"
    and "length addrs \<le> CIXINIT_MAX_ADDRS" "length ifaces \<le> CIXINIT_MAX_IFACES"
  shows "cixinit_table_from_json (Some (JArray js)) addrs ifaces = None \<longleftrightarrow> \<not> acyclic (after_rel parsed)"
proof -
  note f = parse_all_facts [OF assms(3)]
  have l: "length parsed \<le> 32" using f(1) assms(2) by (simp add: CIXINIT_MAX_SERVICES_def)
  have "find_name (map fst parsed) a \<noteq> None" if "p \<in> set parsed" "a \<in> set (snd p)" for p a
  proof -
    have "a \<in> (svc_name \<circ> fst) ` set parsed" using assms(4) [OF that(1)] that(2) by blast
    then obtain q where q: "q \<in> set parsed" "svc_name (fst q) = a" by auto
    then obtain k where "k < length parsed" "parsed ! k = q" by (metis in_set_conv_nth)
    with q(2) show ?thesis unfolding find_name_None by (metis length_map nth_map)
  qed
  then have "resolve_all parsed \<noteq> None" by (auto simp: resolve_all_def those_map_None resolve_after_None)
  then obtain deps where d: "resolve_all parsed = Some deps" by auto
  note r = resolve_all_rel [OF f(3) l d]
  have sub: "dep_rel deps \<subseteq> {0..<length deps} \<times> {0..<length deps}" unfolding r(2) using r(1) by (auto simp: after_rel_def)
  have ac: "place_all deps [] = None \<longleftrightarrow> \<not> acyclic (after_rel parsed)"
    using place_all_cyclic [OF _ sub] place_all_acyclic [of deps] l r by (cases "place_all deps []") auto
  have "cixinit_table_from_json (Some (JArray js)) addrs ifaces = None \<longleftrightarrow> place_all deps [] = None"
    using assms(1,2,3,5,6) d
    by (cases "place_all deps []") (simp_all add: cixinit_table_from_json_def resolve_all_def Let_def table_hello_def)
  with ac show ?thesis by simp
qed

text \<open>
  The entries of a table, by their positions in the body: \<open>entry_ok t js i\<close> is what the table says of
  entry \<open>i\<close>, \<open>no_earlier t js i\<close> that no service declared before it could have taken its place.
\<close>

definition entry_ok :: "cixinit_table \<Rightarrow> json list \<Rightarrow> nat \<Rightarrow> bool" where
  "entry_ok t js i = (\<exists>s after m. parse_one (js ! (ct_order t ! i)) = Some (s, after) \<and> ct_svc t ! i = s\<lparr>ci_after_mask := m\<rparr> \<and>
     (\<forall>j. bit m j \<longleftrightarrow> j < i \<and> svc_name (ct_svc t ! j) \<in> set after) \<and> set after \<subseteq> svc_name ` set (take i (ct_svc t)))"

definition no_earlier :: "cixinit_table \<Rightarrow> json list \<Rightarrow> nat \<Rightarrow> bool" where
  "no_earlier t js i = (\<forall>b < ct_order t ! i. b \<notin> set (take i (ct_order t)) \<longrightarrow>
     (\<exists>s after. parse_one (js ! b) = Some (s, after) \<and> \<not> set after \<subseteq> svc_name ` set (take i (ct_svc t))))"

lemma svc_name_mask [simp]: "svc_name (s\<lparr>ci_after_mask := m\<rparr>) = svc_name s"
  by (simp add: svc_name_def)

lemma resolve_all_declared:
  assumes "resolve_all parsed = Some deps" "b < length parsed" "a \<in> set (snd (parsed ! b))"
  shows "\<exists>k < length parsed. svc_name (fst (parsed ! k)) = a"
proof -
  from assms(1) have "\<And>p. p \<in> set parsed \<Longrightarrow> resolve_after (map fst parsed) (snd p) 0 \<noteq> None"
    using those_map_None [of "\<lambda>p. resolve_after (map fst parsed) (snd p) 0" parsed] by (auto simp: resolve_all_def)
  then have "find_name (map fst parsed) a \<noteq> None" using assms(2,3) resolve_after_None nth_mem by metis
  then show ?thesis by (auto simp: find_name_None)
qed

lemma table_entries:
  assumes "cixinit_table_from_json (Some (JArray js)) addrs ifaces = Some t"
  shows "length (ct_svc t) = length js" "distinct (map svc_name (ct_svc t))" "distinct (ct_order t)" "set (ct_order t) = {0..<length js}"
    "i < length js \<Longrightarrow> entry_ok t js i" "i < length js \<Longrightarrow> no_earlier t js i"
proof -
  obtain js' parsed deps ord hello where "Some (JArray js) = Some (JArray js')" "js' \<noteq> []" and p: "length js' \<le> CIXINIT_MAX_SERVICES"
    "parse_all js' [] = Some parsed" "resolve_all parsed = Some deps" "place_all deps [] = Some ord"
    "table_hello (length ord) addrs ifaces = Some hello"
    "t = \<lparr>ct_hello = hello, ct_svc = map (\<lambda>i. (fst (parsed ! i))\<lparr>ci_after_mask := table_mask deps ord i\<rparr>) ord, ct_order = ord\<rparr>"
    "length deps = length js'" "placed_ok deps ord" "length ord = length js'" "dep_rel deps = after_rel parsed"
    using table_pieces [OF assms] .
  then have js: "js' = js" by simp
  note p = p [unfolded js] and f = parse_all_facts [OF p(2) [unfolded js]]
  define nm where "nm k = svc_name (fst (parsed ! k))" for k
  have l32: "length deps \<le> 32" using p(1,7) by (simp add: CIXINIT_MAX_SERVICES_def)
  have ln: "length ord = length deps" using p(7,9) by simp
  have so: "set ord = {0..<length js}" using placed_all [OF p(8) ln] p(7) by simp
  have dord: "distinct ord" using p(8) by (simp add: placed_ok_def)
  have on: "ord ! q < length js" if "q < length js" for q using nth_mem [of q ord] that so p(9) by auto
  have inj: "nm a = nm b \<Longrightarrow> a = b" if "a < length js" "b < length js" for a b
    using f(1,3) that by (auto simp: nm_def distinct_conv_nth)
  have nth: "ct_svc t ! q = (fst (parsed ! (ord ! q)))\<lparr>ci_after_mask := table_mask deps ord (ord ! q)\<rparr>" if "q < length js" for q
    using that p(6,9) by simp
  have name: "svc_name (ct_svc t ! q) = nm (ord ! q)" if "q < length js" for q using nth [OF that] by (simp add: nm_def)
  have names: "svc_name ` set (take q (ct_svc t)) = nm ` set (take q ord)" if "q \<le> length js" for q
    using p(6) by (simp add: take_map image_image nm_def)
  have edge: "bit (deps ! b) k \<longleftrightarrow> k < length js \<and> nm k \<in> set (snd (parsed ! b))" if "b < length js" for b k
  proof -
    have "bit (deps ! b) k \<longleftrightarrow> (k, b) \<in> dep_rel deps" using that p(7) by (simp add: dep_rel_def)
    also have "\<dots> \<longleftrightarrow> (k, b) \<in> after_rel parsed" by (simp only: p(10))
    also have "\<dots> \<longleftrightarrow> k < length js \<and> nm k \<in> set (snd (parsed ! b))" using that f(1) by (simp add: after_rel_def nm_def)
    finally show ?thesis .
  qed
  show ls: "length (ct_svc t) = length js" using p(6,9) by simp
  show "distinct (map svc_name (ct_svc t))"
  proof -
    have "nm (ord ! a) \<noteq> nm (ord ! b)" if "a < length js" "b < length js" "a \<noteq> b" for a b
      using inj on dord p(9) that nth_eq_iff_index_eq by metis
    then show ?thesis by (simp add: distinct_conv_nth ls name)
  qed
  show "distinct (ct_order t)" "set (ct_order t) = {0..<length js}" using p(6) dord so by simp_all
  show "entry_ok t js i" if i: "i < length js"
    unfolding entry_ok_def
  proof (intro exI conjI allI)
    show "parse_one (js ! (ct_order t ! i)) = Some (fst (parsed ! (ord ! i)), snd (parsed ! (ord ! i)))"
      using f(2) [OF on [OF i]] p(6) by simp
    show "ct_svc t ! i = (fst (parsed ! (ord ! i)))\<lparr>ci_after_mask := table_mask deps ord (ord ! i)\<rparr>" by (rule nth [OF i])
    show "bit (table_mask deps ord (ord ! i)) j \<longleftrightarrow> j < i \<and> svc_name (ct_svc t ! j) \<in> set (snd (parsed ! (ord ! i)))" for j
      using table_mask_bit [OF l32 p(8) ln, of i j] i p(9) edge [OF on [OF i]] name on by auto
    show "set (snd (parsed ! (ord ! i))) \<subseteq> svc_name ` set (take i (ct_svc t))"
    proof
      fix a
      assume a: "a \<in> set (snd (parsed ! (ord ! i)))"
      obtain k where k: "k < length js" "nm k = a" using resolve_all_declared [OF p(3) _ a] on [OF i] f(1) by (auto simp: nm_def)
      have "bit (deps ! (ord ! i)) k" using edge [OF on [OF i]] k a by simp
      from placed_before [OF p(8) ln _ this] obtain q where "q < i" "ord ! q = k" using i p(9) by auto
      then have "k \<in> set (take i ord)" using i p(9) by (auto simp: in_set_conv_nth)
      then show "a \<in> svc_name ` set (take i (ct_svc t))" using names [of i] i k by auto
    qed
  qed
  show "no_earlier t js i" if i: "i < length js"
    unfolding no_earlier_def
  proof (intro allI impI)
    fix b
    assume b: "b < ct_order t ! i" "b \<notin> set (take i (ct_order t))"
    then have bn: "b < length js" "b < ord ! i" "b \<notin> set (take i ord)" using on [OF i] p(6) by simp_all
    have "\<not> ready_in deps (set (take i ord)) b" using p(8,9) i bn(2) by (simp add: placed_ok_def)
    then obtain k where k: "bit (deps ! b) k" "k \<notin> set (take i ord)" using bn edge [OF bn(1)] p(7) by (auto simp: ready_in_def)
    have kn: "k < length js" "nm k \<in> set (snd (parsed ! b))" using edge [OF bn(1)] k by auto
    have "x < length js" if "x \<in> set (take i ord)" for x using in_set_takeD [OF that] so by auto
    then have "nm k \<notin> nm ` set (take i ord)" using inj [OF kn(1)] k(2) by blast
    then show "\<exists>s after. parse_one (js ! b) = Some (s, after) \<and> \<not> set after \<subseteq> svc_name ` set (take i (ct_svc t))"
      using f(2) [OF bn(1)] kn(2) names [of i] i
      by (intro exI [of _ "fst (parsed ! b)"] exI [of _ "snd (parsed ! b)"]) auto
  qed
qed

lemma table_mask_below:
  assumes "length deps \<le> 32" "placed_ok deps ord" "length ord = length deps" "p < length ord"
  shows "drop_bit p (table_mask deps ord (ord ! p)) = 0"
  by (rule bit_eqI) (simp add: bit_drop_bit_eq table_mask_bit [OF assms])

lemma table_records_valid:
  assumes "cixinit_table_from_json v addrs ifaces = Some t" "\<And>j. v = Some j \<Longrightarrow> typed_json j" "k < length (ct_svc t)"
  shows "validate_service k (ct_svc t ! k)"
proof -
  obtain js parsed deps ord hello where p: "v = Some (JArray js)" "js \<noteq> []" "length js \<le> CIXINIT_MAX_SERVICES"
    "parse_all js [] = Some parsed" "resolve_all parsed = Some deps" "place_all deps [] = Some ord"
    "table_hello (length ord) addrs ifaces = Some hello"
    "t = \<lparr>ct_hello = hello, ct_svc = map (\<lambda>i. (fst (parsed ! i))\<lparr>ci_after_mask := table_mask deps ord i\<rparr>) ord, ct_order = ord\<rparr>"
    "length deps = length js" "placed_ok deps ord" "length ord = length js" "dep_rel deps = after_rel parsed"
    using table_pieces [OF assms(1)] .
  have k: "k < length ord" using assms(3) p(8) by simp
  then have "ord ! k \<in> set ord" by simp
  then have o: "ord ! k < length js" using p(9,10) by (auto simp: placed_ok_def)
  have "parse_one (js ! (ord ! k)) = Some (fst (parsed ! (ord ! k)), snd (parsed ! (ord ! k)))"
    using parse_all_facts(2) [OF p(4) o] by simp
  moreover have "typed_json (js ! (ord ! k))" using assms(2) [OF p(1)] nth_mem [OF o] by simp
  moreover have "length deps \<le> 32" using p(3,9) by (simp add: CIXINIT_MAX_SERVICES_def)
  ultimately have "validate_service k (fst (parsed ! (ord ! k))\<lparr>ci_after_mask := table_mask deps ord (ord ! k)\<rparr>)"
    using table_mask_below [of deps ord k] k p(9-11) by (intro parse_one_valid(1)) (assumption | simp)+
  then show ?thesis using k p(8) by simp
qed

lemma send_all: "cixinit_table_send (\<lambda>n. True) t = (CtlHello (ct_hello t) # map CtlService (ct_svc t), 0)"
proof -
  have "find_index (\<lambda>n. \<not> True) xs = None" for xs :: "nat list" by (simp add: find_index_None)
  then show ?thesis by (simp add: cixinit_table_send_def Let_def)
qed

lemma read_table_sent:
  assumes "cixinit_table_from_json v addrs ifaces = Some t" "\<And>j. v = Some j \<Longrightarrow> typed_json j"
    and "\<And>f. f \<in> set ifaces \<Longrightarrow> f \<noteq> [] \<and> is_c_str f"
  shows "read_table (fst (cixinit_table_send (\<lambda>n. True) t)) =
     Some (map fresh_svc (ct_svc t), addrs, map (\<lambda>i. pad CIXINIT_NAME_MAX (snprintf_s CIXINIT_NAME_MAX i)) ifaces)"
proof -
  obtain js parsed deps ord hello where p: "v = Some (JArray js)" "js \<noteq> []" "length js \<le> CIXINIT_MAX_SERVICES"
    "parse_all js [] = Some parsed" "resolve_all parsed = Some deps" "place_all deps [] = Some ord"
    "table_hello (length ord) addrs ifaces = Some hello"
    "t = \<lparr>ct_hello = hello, ct_svc = map (\<lambda>i. (fst (parsed ! i))\<lparr>ci_after_mask := table_mask deps ord i\<rparr>) ord, ct_order = ord\<rparr>"
    "length deps = length js" "placed_ok deps ord" "length ord = length js" "dep_rel deps = after_rel parsed"
    using table_pieces [OF assms(1)] .
  have n: "length (ct_svc t) = length js" "ct_hello t = hello" using p(8,11) by simp_all
  from p(7) have h: "he_magic hello = CIXINIT_MAGIC" "he_version hello = CIXINIT_VERSION" "he_service_count hello = int (length js)"
    "he_addr_be hello = addrs" "length addrs \<le> CIXINIT_MAX_ADDRS" "length ifaces \<le> CIXINIT_MAX_IFACES"
    "he_iface hello = map (\<lambda>i. pad CIXINIT_NAME_MAX (snprintf_s CIXINIT_NAME_MAX i)) ifaces"
    by (auto simp: table_hello_def p(11) not_less split: if_split_asm)
  have "str_ok (pad CIXINIT_NAME_MAX (snprintf_s CIXINIT_NAME_MAX f)) CIXINIT_NAME_MAX" if "f \<in> set ifaces" for f
    using assms(3) [OF that] by (intro str_ok_pad) (auto simp: snprintf_s_def CIXINIT_NAME_MAX_def)
  then have f: "list_all (\<lambda>n. str_ok n CIXINIT_NAME_MAX) (he_iface hello)" by (auto simp: h(7) list_all_iff)
  have r: "read_services (length js) 0 (map CtlService (ct_svc t)) = Some (map fresh_svc (ct_svc t))"
    using read_services_ok [of "ct_svc t" 0 "[]"] table_records_valid [OF assms(1,2)] n(1) by simp
  have "0 < length js" using p(2) by simp
  then show ?thesis using h f r p(3) by (simp add: read_table_def send_all n(2))
qed

lemma fd_number_digits: "(\<And>c. c \<in> set cs \<Longrightarrow> is_digit c) \<Longrightarrow> fd_number cs (int v) = Some (int (digits_val v cs))"
proof (induction cs arbitrary: v)
  case (Cons c cs)
  then show ?case using Cons.IH [of "v * 10 + digit_val c"] by simp
qed simp

lemma fd_arg_nat_dec: "fd_arg (nat_dec n) = Some (int n)"
  using fd_number_digits [of "nat_dec n" 0] nat_dec_digits by (simp add: fd_arg_def)

end
