(* ===== verification/Registry_Services.thy ===== *)
theory Registry_Services
  imports Cix_Init
begin

text \<open>
  The services of a container as \<open>daemon/src/registry.c\<close> keeps them: the declaration it sent, and the
  state it derives from the reports of the container's first process.
\<close>

definition REGISTRY_SVC_PENDING :: int where "REGISTRY_SVC_PENDING = 0"
definition REGISTRY_SVC_STARTING :: int where "REGISTRY_SVC_STARTING = 1"
definition REGISTRY_SVC_RUNNING :: int where "REGISTRY_SVC_RUNNING = 2"
definition REGISTRY_SVC_EXITED :: int where "REGISTRY_SVC_EXITED = 3"
definition REGISTRY_SVC_RESTART_WAIT :: int where "REGISTRY_SVC_RESTART_WAIT = 4"
definition REGISTRY_SVC_STOPPED :: int where "REGISTRY_SVC_STOPPED = 5"
definition REGISTRY_SVC_FAILED :: int where "REGISTRY_SVC_FAILED = 6"

lemmas registry_states = REGISTRY_SVC_PENDING_def REGISTRY_SVC_STARTING_def REGISTRY_SVC_RUNNING_def REGISTRY_SVC_EXITED_def
  REGISTRY_SVC_RESTART_WAIT_def REGISTRY_SVC_STOPPED_def REGISTRY_SVC_FAILED_def

record registry_service =
  rs_def :: cixinit_service
  rs_body_index :: nat
  rs_state :: int
  rs_pid :: int
  rs_has_exit :: bool
  rs_exit_kind :: int
  rs_exit_value :: int
  rs_restarts :: int
  rs_fail_reason :: int
  rs_fail_detail :: int
  rs_output_fd :: int

text \<open>The fields of a registry entry these operations use.\<close>

record registry_init =
  re_services :: "registry_service list"
  re_init_control_fd :: int
  re_init_report_fd :: int
  re_init_up :: bool
  re_ready :: bool

definition registry_service_state_name :: "int \<Rightarrow> string" where
  "registry_service_state_name st =
     (if st = REGISTRY_SVC_PENDING then ''pending'' else if st = REGISTRY_SVC_STARTING then ''starting''
      else if st = REGISTRY_SVC_RUNNING then ''running'' else if st = REGISTRY_SVC_EXITED then ''exited''
      else if st = REGISTRY_SVC_RESTART_WAIT then ''restart-wait'' else if st = REGISTRY_SVC_STOPPED then ''stopped''
      else if st = REGISTRY_SVC_FAILED then ''failed'' else ''?'')"

definition registry_service_index :: "registry_init \<Rightarrow> string option \<Rightarrow> int" where
  "registry_service_index e name =
     (case name of None \<Rightarrow> - 1
      | Some n \<Rightarrow> (case find_index (\<lambda>s. c_str (ci_name (rs_def s)) = n) (re_services e) of None \<Rightarrow> - 1 | Some i \<Rightarrow> int i))"

definition blank_registry_service :: "cixinit_service \<Rightarrow> nat \<Rightarrow> int \<Rightarrow> registry_service" where
  "blank_registry_service d b fd = \<lparr>rs_def = d, rs_body_index = b, rs_state = REGISTRY_SVC_PENDING, rs_pid = 0, rs_has_exit = False,
     rs_exit_kind = 0, rs_exit_value = 0, rs_restarts = 0, rs_fail_reason = 0, rs_fail_detail = 0, rs_output_fd = fd\<rparr>"

definition registry_set_services :: "cixinit_table \<Rightarrow> int list option \<Rightarrow> int \<Rightarrow> int \<Rightarrow> registry_init \<Rightarrow> registry_init" where
  "registry_set_services table output_fds control_fd report_fd e =
     e\<lparr>re_services := map (\<lambda>i. blank_registry_service (ct_svc table ! i) (ct_order table ! i)
         (case output_fds of None \<Rightarrow> - 1 | Some fds \<Rightarrow> fds ! i)) [0..<length (ct_svc table)],
       re_init_control_fd := control_fd, re_init_report_fd := report_fd, re_init_up := False, re_ready := False\<rparr>"

definition service_counts :: "registry_service \<Rightarrow> bool" where
  "service_counts s =
     (if rs_state s = REGISTRY_SVC_STOPPED then True
      else if ci_type (rs_def s) = CIXINIT_TYPE_ONESHOT then
        rs_state s = REGISTRY_SVC_EXITED \<and> rs_has_exit s \<and> rs_exit_kind s = CIXINIT_EXIT_KIND_EXITED \<and> rs_exit_value s = 0
      else if rs_state s = REGISTRY_SVC_EXITED \<and> ci_on_exit (rs_def s) = CIXINIT_ON_EXIT_STOP then True
      else rs_state s = REGISTRY_SVC_RUNNING)"

definition derive_ready :: "registry_init \<Rightarrow> bool" where
  "derive_ready e =
     (if \<not> re_init_up e \<or> re_services e = [] then False else list_all service_counts (re_services e))"

definition apply_event :: "cixinit_report \<Rightarrow> registry_service \<Rightarrow> registry_service" where
  "apply_event r s =
     (if rp_event r = CIXINIT_EV_STARTING then s\<lparr>rs_state := REGISTRY_SVC_STARTING, rs_pid := 0, rs_fail_reason := 0\<rparr>
      else if rp_event r = CIXINIT_EV_STARTED then s\<lparr>rs_state := REGISTRY_SVC_STARTING, rs_pid := rp_a r\<rparr>
      else if rp_event r = CIXINIT_EV_READY then s\<lparr>rs_state := REGISTRY_SVC_RUNNING\<rparr>
      else if rp_event r = CIXINIT_EV_EXITED then
        s\<lparr>rs_pid := 0, rs_has_exit := True, rs_exit_kind := rp_a r, rs_exit_value := rp_b r, rs_state := REGISTRY_SVC_EXITED\<rparr>
      else if rp_event r = CIXINIT_EV_RESTART_IN then s\<lparr>rs_state := REGISTRY_SVC_RESTART_WAIT, rs_restarts := rp_b r\<rparr>
      else if rp_event r = CIXINIT_EV_STOPPED then s\<lparr>rs_state := REGISTRY_SVC_STOPPED, rs_pid := 0\<rparr>
      else if rp_event r = CIXINIT_EV_FAILED then
        let s = s\<lparr>rs_fail_reason := rp_a r, rs_fail_detail := rp_b r\<rparr> in
        if rp_a r \<noteq> CIXINIT_FAIL_PROBE then s\<lparr>rs_state := REGISTRY_SVC_FAILED\<rparr> else s
      else s)"

text \<open>The entry afterwards, and whether the derived readiness changed.\<close>

definition registry_apply_init_report :: "cixinit_report \<Rightarrow> registry_init \<Rightarrow> registry_init \<times> bool" where
  "registry_apply_init_report r e =
     (let was_ready = re_ready e in
      if rp_service r = - 1 then
        let e = (if rp_event r = CIXINIT_EV_UP then e\<lparr>re_init_up := True\<rparr> else e);
            e = e\<lparr>re_ready := derive_ready e\<rparr>
        in (e, re_ready e \<noteq> was_ready)
      else if rp_service r < 0 \<or> int (length (re_services e)) \<le> rp_service r then (e, False)
      else
        let i = nat (rp_service r);
            e = e\<lparr>re_services := (re_services e)[i := apply_event r (re_services e ! i)]\<rparr>;
            e = e\<lparr>re_ready := derive_ready e\<rparr>
        in (e, re_ready e \<noteq> was_ready))"

definition apply_reports :: "cixinit_report list \<Rightarrow> registry_init \<Rightarrow> registry_init" where
  "apply_reports rs e = fold (\<lambda>r e. fst (registry_apply_init_report r e)) rs e"

end
