(* ===== verification/Init_Mirror.thy ===== *)
theory Init_Mirror
  imports Init_Sim Init_Wire Registry_Services
begin

text \<open>
  The daemon's picture of a container's services against the services themselves: applying the
  reports of \<open>cix_init.c\<close> with \<open>registry_apply_init_report\<close> follows every step of the machine.
\<close>

section \<open>Applying reports to the services\<close>

definition apply_svcs :: "cixinit_report \<Rightarrow> registry_service list \<Rightarrow> registry_service list" where
  "apply_svcs r ss = (if rp_service r < 0 \<or> int (length ss) \<le> rp_service r then ss
     else ss[nat (rp_service r) := apply_event r (ss ! nat (rp_service r))])"

lemma apply_reports_services: "re_services (apply_reports rs e) = fold apply_svcs rs (re_services e)"
proof (induction rs arbitrary: e)
  case (Cons r rs)
  have "re_services (fst (registry_apply_init_report r e)) = apply_svcs r (re_services e)"
    by (simp add: registry_apply_init_report_def apply_svcs_def Let_def)
  then show ?case using Cons.IH by (simp add: apply_reports_def)
qed (simp add: apply_reports_def)

lemma apply_reports_append: "apply_reports (rs @ rs') e = apply_reports rs' (apply_reports rs e)"
  by (simp add: apply_reports_def)

lemma apply_rep [simp]: "i < length ss \<Longrightarrow> apply_svcs (rep i e a b) ss = ss[i := apply_event (rep i e a b) (ss ! i)]"
  by (simp add: apply_svcs_def rep_def)

lemma apply_down [simp]: "apply_svcs (down_report a) ss = ss"
  by (simp add: apply_svcs_def down_report_def)

lemma event_rep:
  "apply_event (rep i CIXINIT_EV_STARTING a b) s = s\<lparr>rs_state := REGISTRY_SVC_STARTING, rs_pid := 0, rs_fail_reason := 0\<rparr>"
  "apply_event (rep i CIXINIT_EV_STARTED a b) s = s\<lparr>rs_state := REGISTRY_SVC_STARTING, rs_pid := a\<rparr>"
  "apply_event (rep i CIXINIT_EV_READY a b) s = s\<lparr>rs_state := REGISTRY_SVC_RUNNING\<rparr>"
  "apply_event (rep i CIXINIT_EV_EXITED a b) s =
     s\<lparr>rs_pid := 0, rs_has_exit := True, rs_exit_kind := a, rs_exit_value := b, rs_state := REGISTRY_SVC_EXITED\<rparr>"
  "apply_event (rep i CIXINIT_EV_RESTART_IN a b) s = s\<lparr>rs_state := REGISTRY_SVC_RESTART_WAIT, rs_restarts := b\<rparr>"
  "apply_event (rep i CIXINIT_EV_STOPPED a b) s = s\<lparr>rs_state := REGISTRY_SVC_STOPPED, rs_pid := 0\<rparr>"
  "apply_event (rep i CIXINIT_EV_FAILED CIXINIT_FAIL_PROBE b) s = s\<lparr>rs_fail_reason := CIXINIT_FAIL_PROBE, rs_fail_detail := b\<rparr>"
  "a \<noteq> CIXINIT_FAIL_PROBE \<Longrightarrow> apply_event (rep i CIXINIT_EV_FAILED a b) s =
     s\<lparr>rs_fail_reason := a, rs_fail_detail := b, rs_state := REGISTRY_SVC_FAILED\<rparr>"
  by (simp_all add: apply_event_def rep_def cixinit_events Let_def)

lemma fail_reasons [simp]:
  "CIXINIT_FAIL_ONESHOT \<noteq> CIXINIT_FAIL_PROBE" "CIXINIT_FAIL_SPAWN \<noteq> CIXINIT_FAIL_PROBE" "CIXINIT_FAIL_DEPENDENCY \<noteq> CIXINIT_FAIL_PROBE"
  by (simp_all add: cixinit_reasons)

section \<open>The relation\<close>

definition mirrors :: "bool \<Rightarrow> svc \<Rightarrow> registry_service \<Rightarrow> bool" where
  "mirrors d v r = (rs_def r = sv_def v \<and> rs_pid r = sv_pid v \<and>
     (rs_state r = REGISTRY_SVC_RUNNING \<longleftrightarrow> 0 < sv_pid v \<and> sv_state v = ST_READY) \<and>
     (rs_state r = REGISTRY_SVC_STARTING \<longleftrightarrow> 0 < sv_pid v \<and> sv_state v = ST_STARTING) \<and>
     (rs_state r = REGISTRY_SVC_EXITED \<longrightarrow> rs_has_exit r \<and> rs_exit_kind r = sv_exit_kind v \<and> rs_exit_value r = sv_exit_value v) \<and>
     (\<not> d \<longrightarrow> (sv_state v = ST_EXITED \<longrightarrow> rs_state r = REGISTRY_SVC_EXITED) \<and>
              (sv_state v = ST_RESTART_WAIT \<longrightarrow> rs_state r = REGISTRY_SVC_RESTART_WAIT) \<and>
              (sv_state v = ST_STOPPED \<longrightarrow> rs_state r = REGISTRY_SVC_STOPPED) \<and>
              (sv_state v = ST_FAILED \<longrightarrow> rs_state r = REGISTRY_SVC_FAILED)))"

lemma mirrors_halted: "mirrors d v r \<Longrightarrow> mirrors True (halted v) r"
  by (auto simp: mirrors_def halted_def)

lemma mirrors_list_halted: "list_all2 (mirrors d) vs ss \<Longrightarrow> list_all2 (mirrors True) (map halted vs) ss"
  by (auto simp: list_all2_conv_all_nth intro: mirrors_halted)

lemma fold_rep:
  "i < length ss \<Longrightarrow> \<forall>r \<in> set rs. rp_service r = int i \<Longrightarrow> fold apply_svcs rs ss = ss[i := fold apply_event rs (ss ! i)]"
  by (induction rs arbitrary: ss) (simp_all add: apply_svcs_def)

text \<open>A step of one service, with reports about it only.\<close>

lemma mirrors_step:
  assumes "list_all2 (mirrors d) vs ss" "i < length vs" "\<forall>r \<in> set rs. rp_service r = int i"
    and "mirrors d (vs ! i) (ss ! i) \<Longrightarrow> mirrors d v' (fold apply_event rs (ss ! i))"
  shows "list_all2 (mirrors d) (vs[i := v']) (fold apply_svcs rs ss)"
proof -
  have "length ss = length vs" using assms(1) by (simp add: list_all2_lengthD)
  then have "fold apply_svcs rs ss = ss[i := fold apply_event rs (ss ! i)]" using assms(2,3) by (intro fold_rep) simp_all
  moreover have "mirrors d v' (fold apply_event rs (ss ! i))" using assms(1,2,4) by (simp add: list_all2_nthD)
  ultimately show ?thesis using assms(1) by (simp add: list_all2_update_cong)
qed

lemma rep_service [simp]: "rp_service (rep i e a b) = int i"
  by (simp add: rep_def)

lemma mirrors_gone:
  "mirrors d v r \<Longrightarrow> mirrors d (gone v k x\<lparr>sv_state := ST_EXITED\<rparr>) (apply_event (rep i CIXINIT_EV_EXITED k x) r)"
  "mirrors d v r \<Longrightarrow> mirrors True (gone v k x) (apply_event (rep i CIXINIT_EV_EXITED k x) r)"
  by (simp_all add: mirrors_def event_rep gone_def registry_states)

lemma sup_step_mirrors:
  "sup_step ph now u rs w \<Longrightarrow> sup_inv u \<Longrightarrow> list_all2 (mirrors (fst u)) (snd u) ss \<Longrightarrow> list_all2 (mirrors (fst w)) (snd w) (fold apply_svcs rs ss)"
proof (induction rule: sup_step.induct)
  case (exited_container i vs k x st)
  let ?rs = "[rep i CIXINIT_EV_EXITED k x] @ (if one_shot (vs ! i) then [rep i CIXINIT_EV_FAILED CIXINIT_FAIL_ONESHOT st] else [])"
  have down: "mirrors d v r \<Longrightarrow> mirrors True v r" for d v r by (simp add: mirrors_def)
  have "list_all2 (mirrors True) vs ss" using exited_container(7) by (auto elim: list_all2_mono intro: down)
  then have "list_all2 (mirrors True) (vs[i := gone (vs ! i) k x]) (fold apply_svcs ?rs ss)"
    using exited_container(2) by (rule mirrors_step) (auto simp: mirrors_def event_rep registry_states)
  from mirrors_list_halted [OF this] show ?case by (simp only: fst_conv snd_conv fold_append comp_apply fold.simps id_apply apply_down append_assoc [symmetric])
next
  case (shutdown vs)
  then show ?case using mirrors_list_halted [of False vs ss] by simp
next
  case (stop_complete d vs)
  then show ?case by simp
next
  case (not_started i vs d e)
  have "sv_pid (vs ! i) = 0"
    using sup_inv_nth [OF not_started(5,2)] may_start_state [OF not_started(4)] by (auto simp: svc_inv_def)
  with not_started show ?case
    by (simp only: fst_conv snd_conv)
      (rule mirrors_step, assumption, assumption, simp, simp add: event_rep, simp add: mirrors_def registry_states)
next
  case (held N i vs d)
  have "sv_pid (vs ! i) = 0" using sup_inv_nth [OF held(5,3)] held(4) by (simp add: svc_inv_def)
  with held show ?case
    by (simp only: fst_conv snd_conv)
      (rule mirrors_step, assumption, assumption, simp, simp add: event_rep, simp add: mirrors_def registry_states)
qed (simp only: fst_conv snd_conv, rule mirrors_step, assumption, assumption, simp,
    simp add: event_rep, simp add: mirrors_def same_run_def gone_def registry_states)+

lemma sup_steps_mirrors:
  "sup_steps ph now u rs w \<Longrightarrow> sup_inv u \<Longrightarrow> list_all2 (mirrors (fst u)) (snd u) ss \<Longrightarrow> list_all2 (mirrors (fst w)) (snd w) (fold apply_svcs rs ss)"
proof (induction arbitrary: ss rule: sup_steps.induct)
  case (sup_more u rs w rs' x)
  from sup_more(3) [OF sup_step_inv [OF sup_more(1,4)] sup_step_mirrors [OF sup_more(1,4,5)]] show ?case by simp
qed simp

section \<open>From the first turn on\<close>

text \<open>What holds of a supervisor and the registry entry that has had all its reports.\<close>

definition in_step :: "cix_init \<Rightarrow> registry_init \<Rightarrow> bool" where
  "in_step s e0 = (sup_inv (view s) \<and> ring_inv s \<and>
     (g_pending_dropped s = 0 \<longrightarrow> list_all2 (mirrors (g_shutting_down s)) (g_svc s) (re_services (apply_reports (all_reports s) e0))))"

lemma in_step_steps:
  assumes "in_step s e0" "sup_steps ph now (view s) rs (view s')" "emitted s s' rs"
  shows "in_step s' e0"
proof -
  have i: "sup_inv (view s')" using sup_steps_inv [OF assms(2)] assms(1) by (simp add: in_step_def)
  have r: "ring_inv s'" using assms(1,3) by (simp add: in_step_def emitted_def)
  have "list_all2 (mirrors (g_shutting_down s')) (g_svc s') (re_services (apply_reports (all_reports s') e0))" if "g_pending_dropped s' = 0"
  proof -
    have d: "g_pending_dropped s = 0" "all_reports s' = all_reports s @ rs" using assms(1,3) that by (simp_all add: in_step_def emitted_def)
    with assms(1) have "list_all2 (mirrors (fst (view s))) (snd (view s)) (re_services (apply_reports (all_reports s) e0))"
      by (simp add: in_step_def view_def)
    from sup_steps_mirrors [OF assms(2) _ this] assms(1) show ?thesis
      by (simp add: in_step_def view_def d(2) apply_reports_append apply_reports_services)
  qed
  with i r show ?thesis by (simp add: in_step_def)
qed

lemma in_step_sim: "in_step s e0 \<Longrightarrow> sim ph now s s' \<Longrightarrow> in_step s' e0"
  unfolding sim_def using in_step_steps by blast

lemma in_step_turn:
  assumes "in_step s e0" "\<forall>i. te_fork env i \<noteq> 0"
  shows "in_step (turn env s) e0"
proof -
  have i: "sup_inv (view s)" using assms(1) by (simp add: in_step_def)
  obtain s1 where s1: "sim Reaping (te_now env) s s1" "sim (Commands (named_in (te_read env))) (te_now env) s1 (take_events env s)"
    using sim_take_events [OF i] by blast
  show ?thesis using in_step_sim [OF in_step_sim [OF in_step_sim [OF assms(1) s1(1)] s1(2)] sim_turn [OF i assms(2)]] .
qed

lemma in_step_run: "in_step s e0 \<Longrightarrow> \<forall>k i. te_fork (env k) i \<noteq> 0 \<Longrightarrow> in_step (run_turns env n s) e0"
  by (induction n) (simp_all add: Let_def in_step_turn)

lemma read_services_fresh: "read_services n i ms = Some svcs \<Longrightarrow> v \<in> set svcs \<Longrightarrow> \<exists>d. v = fresh_svc d"
  by (induction n i ms arbitrary: svcs rule: read_services.induct) (auto split: if_split_asm)

lemma cix_main_pieces:
  assumes "cix_main args ms = Some s"
  obtains svcs addrs ifaces fds where "read_table ms = Some (svcs, addrs, ifaces)" "those (map fd_arg args) = Some fds"
    "length fds - 2 = length svcs" "g_svc s = map (\<lambda>i. (svcs ! i)\<lparr>sv_out_fd := fds ! (2 + i)\<rparr>) [0..<length svcs]"
    "g_addr_be s = addrs" "\<not> g_shutting_down s" "g_exited s = None" "ring_inv s" "g_pending_dropped s = 0" "g_calls s = []"
    "all_reports s = [\<lparr>rp_service = - 1, rp_event = CIXINIT_EV_UP, rp_a = CIXINIT_VERSION, rp_b = int (length svcs)\<rparr>]"
proof -
  from assms obtain svcs addrs ifaces fds where p: "read_table ms = Some (svcs, addrs, ifaces)" "those (map fd_arg args) = Some fds"
    "length fds - 2 = length svcs" and s: "s = report (- 1) CIXINIT_EV_UP CIXINIT_VERSION (int (length svcs))
          \<lparr>g_svc = map (\<lambda>i. (svcs ! i)\<lparr>sv_out_fd := fds ! (2 + i)\<rparr>) [0..<length svcs], g_addr_be = addrs, g_iface = ifaces,
           g_control_fd = fds ! 0, g_report_fd = fds ! 1, g_shutting_down = False, g_exit_code = 0,
           g_pending = replicate PENDING_MAX blank_report, g_pending_head = 0, g_pending_count = 0, g_pending_dropped = 0,
           g_calls = [], g_exited = None\<rparr>" (is "s = report _ _ _ _ ?b")
    by (auto simp: cix_main_def bind_eq_Some_conv split: if_split_asm)
  have b: "ring_inv ?b" "all_reports ?b = []" "g_pending_dropped ?b = 0"
    by (simp_all add: ring_inv_def all_reports_def delivered_def ring_items_def PENDING_MAX_def)
  from emitted_report [of ?b "- 1" CIXINIT_EV_UP CIXINIT_VERSION "int (length svcs)"] b
  have e: "ring_inv s" "g_pending_dropped s = 0 \<Longrightarrow> all_reports s = [\<lparr>rp_service = - 1, rp_event = CIXINIT_EV_UP, rp_a = CIXINIT_VERSION, rp_b = int (length svcs)\<rparr>]"
    unfolding emitted_def by (simp_all add: s)
  have "g_pending_dropped s = 0" by (simp add: s report_def Let_def PENDING_MAX_def)
  with e show thesis by (intro that [OF p]) (simp_all add: s)
qed

definition registry_fresh :: "svc list \<Rightarrow> registry_init \<Rightarrow> bool" where
  "registry_fresh vs e = (map rs_def (re_services e) = map sv_def vs \<and> \<not> re_ready e \<and> (\<forall>r \<in> set (re_services e). rs_state r = REGISTRY_SVC_PENDING \<and> rs_pid r = 0))"

lemma set_services_fresh: "map sv_def vs = ct_svc t \<Longrightarrow> registry_fresh vs (registry_set_services t fds c r e)"
  by (auto simp: registry_fresh_def registry_set_services_def blank_registry_service_def comp_def map_nth)

lemma boot_states:
  assumes "cix_main args ms = Some s" "v \<in> set (g_svc s)"
  shows "sv_state v = ST_PENDING \<and> sv_pid v = 0 \<and> sv_probe_pid v = 0"
proof -
  obtain svcs addrs ifaces fds where p: "read_table ms = Some (svcs, addrs, ifaces)"
    "g_svc s = map (\<lambda>i. (svcs ! i)\<lparr>sv_out_fd := fds ! (2 + i)\<rparr>) [0..<length svcs]"
    using cix_main_pieces [OF assms(1)] .
  from p(1) have "\<exists>n i m. read_services n i m = Some svcs"
    by (auto simp: read_table_def split: list.split_asm ctl_message.split_asm if_split_asm)
  then have f: "\<exists>d. svcs ! i = fresh_svc d" if "i < length svcs" for i using read_services_fresh nth_mem [OF that] by blast
  from assms(2) p(2) obtain i where i: "i < length svcs" "v = (svcs ! i)\<lparr>sv_out_fd := fds ! (2 + i)\<rparr>" by auto
  from f [OF i(1)] obtain d where "svcs ! i = fresh_svc d" by blast
  with i(2) show ?thesis by (simp add: fresh_svc_def)
qed

lemma boot_inv: "cix_main args ms = Some s \<Longrightarrow> sup_inv (view s)"
  using boot_states by (auto simp: sup_inv_def view_def svc_inv_def)

lemma in_step_start:
  assumes "cix_main args ms = Some s" "registry_fresh (g_svc s) e0"
  shows "in_step s e0"
proof -
  obtain n where p: "\<not> g_shutting_down s" "ring_inv s"
    "all_reports s = [\<lparr>rp_service = - 1, rp_event = CIXINIT_EV_UP, rp_a = CIXINIT_VERSION, rp_b = n\<rparr>]"
    using cix_main_pieces [OF assms(1)] .
  note st = boot_states [OF assms(1)]
  have l: "length (re_services e0) = length (g_svc s)" using assms(2) unfolding registry_fresh_def by (metis length_map)
  have "rs_def (re_services e0 ! k) = sv_def (g_svc s ! k)" if "k < length (g_svc s)" for k
    using assms(2) l that unfolding registry_fresh_def by (metis nth_map)
  then have "list_all2 (mirrors False) (g_svc s) (re_services e0)"
    using l st assms(2) unfolding list_all2_conv_all_nth mirrors_def registry_fresh_def
    by (auto simp: registry_states dest: nth_mem)
  then show ?thesis using boot_inv [OF assms(1)] p by (simp add: in_step_def apply_reports_services apply_svcs_def)
qed

text \<open>The states of a supervisor that \<open>fork\<close> never gives 0 in the parent.\<close>

inductive init_reachable :: "cix_init \<Rightarrow> bool" where
  boot: "cix_main args ms = Some s \<Longrightarrow> init_reachable s"
| next_turn: "init_reachable s \<Longrightarrow> g_exited s = None \<Longrightarrow> \<forall>i. te_fork env i \<noteq> 0 \<Longrightarrow> init_reachable (turn env s)"

lemma reachable_sup_inv: "init_reachable s \<Longrightarrow> sup_inv (view s)"
  by (induction rule: init_reachable.induct) (auto intro: boot_inv turn_inv)

lemma ready_derived: "re_ready (apply_reports rs e) \<Longrightarrow> \<not> re_ready e \<Longrightarrow> derive_ready (apply_reports rs e)"
proof (induction rs rule: rev_induct)
  case (snoc r rs)
  let ?e = "apply_reports rs e"
  have "apply_reports (rs @ [r]) e = fst (registry_apply_init_report r ?e)" by (simp add: apply_reports_def)
  then show ?case using snoc by (auto simp: registry_apply_init_report_def Let_def derive_ready_def split: if_split_asm)
qed (simp add: apply_reports_def)

end
