(* ===== verification/Init_Live.thy ===== *)
theory Init_Live
  imports Init_Mirror
begin

text \<open>
  Shutting down ends.  The machine says what cannot happen; here is what must: the last running
  service without running dependents is signalled, then killed, and its process is reaped.
  \<open>attended env s\<close> is what is asked of the kernel for the turns \<open>env\<close> from the state \<open>s\<close>.
\<close>

section \<open>A turn of a shutdown that no command interrupts\<close>

definition down_inv :: "cix_init \<Rightarrow> bool" where
  "down_inv s = (g_shutting_down s \<and> sup_inv (view s) \<and> parked (view s))"

lemma take_events_down:
  assumes "g_shutting_down s" "te_read env = []"
  shows "take_events env s = reap_all (te_wait env) (te_now env) s"
proof -
  have "g_shutting_down (reap_all ws now s)" for ws now using assms(1)
  proof (induction ws now s rule: reap_all.induct)
    case (2 pid status ws now s)
    have "g_shutting_down (service_exited i k x now s)" for i k x
      using 2(3) by (simp add: service_exited_def exit_recorded_def Let_def)
    then have "g_shutting_down (reap_one pid status now s)" using 2(3) by (simp add: reap_one_def Let_def split: option.split)
    then show ?case using 2 by simp
  qed simp
  then show ?thesis using assms(2) by (simp add: take_events_def Let_def begin_shutdown_def)
qed

lemma down_turn:
  assumes "down_inv s" "te_read env = []"
  defines "m \<equiv> reap_all (te_wait env) (te_now env) s"
  shows "sim Reaping (te_now env) s m" "down_inv m" "sim Stopping (te_now env) m (shutdown_step (te_now env) m)"
    "down_inv (shutdown_step (te_now env) m)" "g_svc (turn env s) = g_svc (shutdown_step (te_now env) m)"
    "g_exited (turn env s) = (if anything_left (g_svc (turn env s)) then g_exited (shutdown_step (te_now env) m) else Some (g_exit_code (shutdown_step (te_now env) m)))"
    "down_inv (turn env s)"
proof -
  show r: "sim Reaping (te_now env) s m" unfolding m_def using assms(1) by (intro sim_reap_all) (simp add: down_inv_def)
  show m: "down_inv m" using assms(1) sim_inv [OF r] sim_parked [OF r] sim_down [OF r] by (simp add: down_inv_def)
  show t: "sim Stopping (te_now env) m (shutdown_step (te_now env) m)" by (rule sim_shutdown_step)
  show d: "down_inv (shutdown_step (te_now env) m)" using m sim_inv [OF t] sim_parked [OF t] sim_down [OF t] by (simp add: down_inv_def)
  have e: "take_events env s = m" using take_events_down assms(1,2) by (simp add: m_def down_inv_def)
  have sd: "g_shutting_down m" using m by (simp add: down_inv_def)
  show v: "g_svc (turn env s) = g_svc (shutdown_step (te_now env) m)"
    by (simp add: turn_def e sd Let_def finish_def)
  show "g_exited (turn env s) = (if anything_left (g_svc (turn env s)) then g_exited (shutdown_step (te_now env) m) else Some (g_exit_code (shutdown_step (te_now env) m)))"
    unfolding v by (simp add: turn_def e sd Let_def finish_def)
  have "g_shutting_down (turn env s)" using d by (simp add: turn_def e sd Let_def finish_def down_inv_def)
  then show "down_inv (turn env s)" using d v by (auto simp: down_inv_def view_def)
qed

lemma sim_steady: "unattended ph \<Longrightarrow> sim ph now s s' \<Longrightarrow> list_all2 steady (g_svc s) (g_svc s')"
  unfolding sim_def using sup_steps_steady [of ph now "view s" _ "view s'"] by (auto simp: view_def)

lemma steady_list_trans: "list_all2 steady a b \<Longrightarrow> list_all2 steady b c \<Longrightarrow> list_all2 steady a c"
  by (rule list_all2_trans [of steady steady steady, OF steady_trans])

lemma down_steady:
  assumes "down_inv s" "te_read env = []"
  shows "list_all2 steady (g_svc s) (g_svc (turn env s))"
  unfolding down_turn(5) [OF assms]
  using steady_list_trans [OF sim_steady [OF _ down_turn(1) [OF assms]] sim_steady [OF _ down_turn(3) [OF assms]]]
  by (simp add: unattended_def)

text \<open>Nothing runs: the process exits.\<close>

lemma nothing_left:
  assumes "down_inv s" "\<forall>i < length (g_svc s). sv_pid (g_svc s ! i) \<le> 0"
  shows "\<not> anything_left (g_svc s)"
proof -
  have "sv_state (g_svc s ! i) \<noteq> ST_PENDING \<and> sv_state (g_svc s ! i) \<noteq> ST_RESTART_WAIT" if "i < length (g_svc s)" for i
    using assms(1) nth_mem [OF that] by (auto simp: down_inv_def parked_def view_def)
  then show ?thesis using assms(2) by (auto simp: anything_left_def list_ex_iff Let_def)
qed

section \<open>Signals\<close>

lemma stop_one_effect:
  assumes "i < length (g_svc s)" "0 < sv_pid (g_svc s ! i)" "\<not> has_running_dependent (g_svc s) i" "now \<noteq> 0"
  shows "sv_stop_sent_at (g_svc (stop_one now i s) ! i) \<noteq> 0"
    "sv_stop_sent_at (g_svc s ! i) \<noteq> 0 \<Longrightarrow> stop_timeout_ms (g_svc s ! i) \<le> now - sv_stop_sent_at (g_svc s ! i) \<Longrightarrow>
       sv_killed (g_svc (stop_one now i s) ! i)"
  using assms by (simp_all add: stop_one_def send_stop_def escalate_stop_def Let_def)

lemma fold_stop_steady: "\<forall>i \<in> set is. i < length (g_svc s) \<Longrightarrow> list_all2 steady (g_svc s) (g_svc (fold (stop_one now) is s))"
  using sim_steady [OF _ sim_stop_list] by (simp add: unattended_def)

lemma stop_pids: "\<forall>i \<in> set is. i < length (g_svc s) \<Longrightarrow> j < length (g_svc s) \<Longrightarrow> sv_pid (g_svc (fold (stop_one now) is s) ! j) = sv_pid (g_svc s ! j)"
proof (induction "is" arbitrary: s)
  case (Cons i "is")
  have e: "g_svc (stop_one now i s) ! j = (g_svc s ! j)\<lparr>sv_stop_sent_at := sv_stop_sent_at (g_svc (stop_one now i s) ! j),
      sv_killed := sv_killed (g_svc (stop_one now i s) ! j)\<rparr>"
    using Cons.prems by (cases "i = j") (simp_all add: stop_one_def send_stop_def escalate_stop_def Let_def)
  have "length (g_svc (stop_one now i s)) = length (g_svc s)" using sim_length [OF sim_stop_one [of i s now]] Cons.prems by simp
  then have "sv_pid (g_svc (fold (stop_one now) is (stop_one now i s)) ! j) = sv_pid (g_svc (stop_one now i s) ! j)"
    using Cons.prems by (intro Cons.IH) simp_all
  also have "\<dots> = sv_pid (g_svc s ! j)" by (subst e) simp
  finally show ?case by simp
qed simp

text \<open>Every running service without running dependents is signalled in the turn, and killed when it is due.\<close>

lemma shutdown_step_effect:
  assumes "i < length (g_svc s)" "0 < sv_pid (g_svc s ! i)" "\<not> has_running_dependent (g_svc s) i" "now \<noteq> 0"
  defines "s' \<equiv> shutdown_step now s"
  shows "sv_stop_sent_at (g_svc s' ! i) \<noteq> 0"
    "sv_stop_sent_at (g_svc s ! i) \<noteq> 0 \<Longrightarrow> stop_timeout_ms (g_svc s ! i) \<le> now - sv_stop_sent_at (g_svc s ! i) \<Longrightarrow> sv_killed (g_svc s' ! i)"
proof -
  let ?n = "length (g_svc s)"
  have "[0..<?n] = [0..<i] @ i # [Suc i..<?n]" using assms(1) by (metis less_imp_le_nat upt_add_eq_append upt_conv_Cons le_add_diff_inverse zero_le)
  then have split: "rev [0..<?n] = rev [Suc i..<?n] @ i # rev [0..<i]" by simp
  define a where "a = fold (stop_one now) (rev [Suc i..<?n]) s"
  define b where "b = stop_one now i a"
  have s': "s' = fold (stop_one now) (rev [0..<i]) b" by (simp add: s'_def shutdown_step_def split a_def b_def)
  have sa: "list_all2 steady (g_svc s) (g_svc a)" unfolding a_def by (rule fold_stop_steady) simp
  then have l: "length (g_svc a) = ?n" by (simp add: list_all2_lengthD)
  have p: "sv_pid (g_svc a ! j) = sv_pid (g_svc s ! j)" if "j < ?n" for j unfolding a_def using that by (intro stop_pids) simp_all
  have v: "steady (g_svc s ! i) (g_svc a ! i)" using list_all2_nthD [OF sa assms(1)] .
  have md: "map sv_def (g_svc a) = map sv_def (g_svc s)"
    using sa l by (intro nth_equalityI) (auto simp: list_all2_conv_all_nth steady_def)
  have "\<not> has_running_dependent (g_svc a) i"
    using assms(3) p unfolding has_running_dependent_iff after_edge_cong [OF md] by (auto simp: after_edge_def)
  note e = stop_one_effect [of i a, OF _ _ this assms(4)]
  have ip: "i < length (g_svc a)" "0 < sv_pid (g_svc a ! i)" using assms(1,2) l p by simp_all
  have lb: "length (g_svc b) = ?n" using sim_length [OF sim_stop_one [of i a now]] ip l by (simp add: b_def)
  have sb: "list_all2 steady (g_svc b) (g_svc s')" unfolding s' using lb assms(1) by (intro fold_stop_steady) auto
  have vb: "steady (g_svc b ! i) (g_svc s' ! i)" using list_all2_nthD [OF sb] lb assms(1) by simp
  have ps: "0 < sv_pid (g_svc s' ! i)" using stop_pids [of "rev [0..<?n]" s i now] assms(1,2) by (simp add: s'_def shutdown_step_def)
  show "sv_stop_sent_at (g_svc s' ! i) \<noteq> 0" using e(1) [OF ip] vb ps by (simp add: steady_def b_def)
  assume d: "sv_stop_sent_at (g_svc s ! i) \<noteq> 0" "stop_timeout_ms (g_svc s ! i) \<le> now - sv_stop_sent_at (g_svc s ! i)"
  have "sv_stop_sent_at (g_svc a ! i) = sv_stop_sent_at (g_svc s ! i)" "stop_timeout_ms (g_svc a ! i) = stop_timeout_ms (g_svc s ! i)"
    using v ip d(1) by (simp_all add: steady_def stop_timeout_ms_def)
  then have "sv_killed (g_svc b ! i)" unfolding b_def using d by (intro e(2) [OF ip]) simp_all
  then show "sv_killed (g_svc s' ! i)" using vb ps by (simp add: steady_def)
qed

section \<open>Reaping\<close>

definition pids_distinct :: "svc list \<Rightarrow> bool" where
  "pids_distinct vs = (\<forall>i < length vs. \<forall>j < length vs. \<forall>p. 0 < p \<and> (sv_pid (vs ! i) = p \<or> sv_probe_pid (vs ! i) = p) \<and>
     (sv_pid (vs ! j) = p \<or> sv_probe_pid (vs ! j) = p) \<longrightarrow> i = j)"

lemma pids_distinct_steady:
  assumes "pids_distinct vs" "list_all2 steady vs vs'"
  shows "pids_distinct vs'"
  unfolding pids_distinct_def
proof (intro allI impI)
  have l: "length vs' = length vs" using assms(2) by (simp add: list_all2_lengthD)
  have st: "p = 0 \<or> sv_pid (vs ! i) = p \<or> sv_probe_pid (vs ! i) = p" if "i < length vs" "sv_pid (vs' ! i) = p \<or> sv_probe_pid (vs' ! i) = p" for i p
    using list_all2_nthD [OF assms(2) that(1)] that(2) by (auto simp: steady_def)
  fix i j p
  assume ij: "i < length vs'" "j < length vs'"
    and p: "0 < p \<and> (sv_pid (vs' ! i) = p \<or> sv_probe_pid (vs' ! i) = p) \<and> (sv_pid (vs' ! j) = p \<or> sv_probe_pid (vs' ! j) = p)"
  from st [of i p] st [of j p] ij p l
  have "sv_pid (vs ! i) = p \<or> sv_probe_pid (vs ! i) = p" "sv_pid (vs ! j) = p \<or> sv_probe_pid (vs ! j) = p" by auto
  then show "i = j" using assms(1) ij l p unfolding pids_distinct_def by metis
qed

definition ended :: "int \<Rightarrow> bool" where
  "ended status = (status AND 0x7f \<noteq> 0x7f)"

lemma exited_pid: "i < length (g_svc s) \<Longrightarrow> g_shutting_down s \<Longrightarrow> sv_pid (g_svc (service_exited i k x now s) ! i) = 0"
  using exit_recorded_frame [of i s k x] by (simp add: service_exited_def Let_def)

lemma reap_one_pid:
  assumes "g_shutting_down s" "pids_distinct (g_svc s)" "i < length (g_svc s)" "sv_pid (g_svc s ! i) = pid" "0 < pid" "ended status"
  shows "sv_pid (g_svc (reap_one pid status now s) ! i) = 0"
proof (cases "find_index (\<lambda>v. sv_pid v = pid \<or> sv_probe_pid v = pid) (g_svc s)")
  case None
  then show ?thesis using assms(3,4) nth_mem [OF assms(3)] by (auto simp: find_index_None)
next
  case (Some j)
  from find_index_Some [OF Some] have "j < length (g_svc s)" "sv_pid (g_svc s ! j) = pid \<or> sv_probe_pid (g_svc s ! j) = pid" by auto
  then have "j = i" using assms(2-5) unfolding pids_distinct_def by metis
  then show ?thesis using Some assms(1,3,4,6) exited_pid [OF assms(3,1)] by (simp add: reap_one_def ended_def)
qed

lemma reap_all_pid:
  "down_inv s \<Longrightarrow> pids_distinct (g_svc s) \<Longrightarrow> i < length (g_svc s) \<Longrightarrow> sv_pid (g_svc s ! i) = pid \<or> sv_pid (g_svc s ! i) = 0 \<Longrightarrow>
     0 < pid \<Longrightarrow> (pid, status) \<in> set ws \<Longrightarrow> ended status \<Longrightarrow> \<forall>(p, st) \<in> set ws. 0 < p \<Longrightarrow> sv_pid (g_svc (reap_all ws now s) ! i) = 0"
proof (induction ws now s rule: reap_all.induct)
  case (2 p st ws now s)
  have p: "0 < p" "p \<noteq> - EINTR" using 2(10) by (auto simp: EINTR_def)
  let ?t = "reap_one p st now s"
  have q: "sim Reaping now s ?t" using 2(3) p(1) by (intro sim_reap_one) (simp_all add: down_inv_def)
  have d: "down_inv ?t" using 2(3) sim_inv [OF q] sim_parked [OF q] sim_down [OF q] by (simp add: down_inv_def)
  have ss: "list_all2 steady (g_svc s) (g_svc ?t)" using sim_steady [OF _ q] by (simp add: unattended_def)
  have l: "length (g_svc ?t) = length (g_svc s)" using ss by (simp add: list_all2_lengthD)
  have z: "sv_pid (g_svc ?t ! i) = sv_pid (g_svc s ! i) \<or> sv_pid (g_svc ?t ! i) = 0" using list_all2_nthD [OF ss 2(5)] by (auto simp: steady_def)
  show ?case
  proof (cases "(pid, status) \<in> set ws")
    case True
    then have "sv_pid (g_svc (reap_all ws now ?t) ! i) = 0"
      using 2(2) [OF p(2) _ d pids_distinct_steady [OF 2(4) ss]] 2(5-10) p(1) l z by auto
    then show ?thesis using p by simp
  next
    case False
    then have "sv_pid (g_svc ?t ! i) = 0" using 2(3-9) z reap_one_pid [of s i p st now] by (auto simp: down_inv_def)
    moreover have "sim Reaping now ?t (reap_all ws now ?t)" using d by (intro sim_reap_all) (simp add: down_inv_def)
    then have "list_all2 steady (g_svc ?t) (g_svc (reap_all ws now ?t))" by (rule sim_steady [rotated]) (simp add: unattended_def)
    from list_all2_nthD [OF this, of i] have "sv_pid (g_svc (reap_all ws now ?t) ! i) = sv_pid (g_svc ?t ! i) \<or> sv_pid (g_svc (reap_all ws now ?t) ! i) = 0"
      using l 2(5) by (simp add: steady_def)
    ultimately show ?thesis using p by auto
  qed
qed simp

section \<open>Every shutdown ends\<close>

text \<open>
  The kernel's part, for the turns \<open>env\<close> from the state \<open>s\<close>: no command arrives, the clock never
  shows zero and passes every time, \<open>wait4\<close> returns processes, and a process that was killed is
  returned, ended, by some later \<open>wait4\<close>.
\<close>

definition attended :: "(nat \<Rightarrow> turn_env) \<Rightarrow> cix_init \<Rightarrow> bool" where
  "attended env s = ((\<forall>k. te_read (env k) = []) \<and> (\<forall>k. te_now (env k) \<noteq> 0) \<and> (\<forall>t. \<exists>k. \<forall>l \<ge> k. t \<le> te_now (env l)) \<and>
     (\<forall>k. \<forall>(p, st) \<in> set (te_wait (env k)). 0 < p) \<and>
     (\<forall>k. \<forall>v \<in> set (g_svc (run_turns env k s)). sv_killed v \<and> 0 < sv_pid v \<longrightarrow>
        (\<exists>m \<ge> k. \<exists>st. (sv_pid v, st) \<in> set (te_wait (env m)) \<and> ended st)))"

definition running :: "svc list \<Rightarrow> nat set" where
  "running vs = {i. i < length vs \<and> 0 < sv_pid (vs ! i)}"

lemma running_steady: "list_all2 steady vs vs' \<Longrightarrow> running vs' \<subseteq> running vs"
  by (auto simp: running_def list_all2_conv_all_nth steady_def)

lemma no_dependent_running:
  assumes "list_all2 steady vs vs'" "\<And>j. after_edge vs j i \<Longrightarrow> \<not> 0 < sv_pid (vs ! j)"
  shows "\<not> has_running_dependent vs' i"
proof -
  have "map sv_def vs' = map sv_def vs" using assms(1) by (auto simp: list_all2_conv_all_nth steady_def intro: nth_equalityI)
  then have "after_edge vs' j i = after_edge vs j i" for j by (rule after_edge_cong)
  moreover have "running vs' \<subseteq> running vs" by (rule running_steady [OF assms(1)])
  ultimately show ?thesis using assms(2) list_all2_lengthD [OF assms(1)]
    by (fastforce simp: has_running_dependent_iff running_def after_edge_def)
qed

lemma steady_running: "steady v v' \<Longrightarrow> 0 < sv_pid v' \<Longrightarrow> sv_pid v' = sv_pid v \<and> 0 < sv_pid v"
  by (auto simp: steady_def)

text \<open>One turn, for a service that runs before and after it and has no running dependent.\<close>

lemma down_turn_effect:
  assumes "down_inv s" "te_read env = []" "te_now env \<noteq> 0" "i < length (g_svc s)" "0 < sv_pid (g_svc (turn env s) ! i)"
    and "\<And>j. after_edge (g_svc s) j i \<Longrightarrow> \<not> 0 < sv_pid (g_svc s ! j)"
  shows "sv_stop_sent_at (g_svc (turn env s) ! i) \<noteq> 0"
    "sv_stop_sent_at (g_svc s ! i) \<noteq> 0 \<Longrightarrow> stop_timeout_ms (g_svc s ! i) \<le> te_now env - sv_stop_sent_at (g_svc s ! i) \<Longrightarrow>
       sv_killed (g_svc (turn env s) ! i)"
proof -
  note t = down_turn [OF assms(1,2)]
  let ?m = "reap_all (te_wait env) (te_now env) s"
  have a: "list_all2 steady (g_svc s) (g_svc ?m)" "list_all2 steady (g_svc ?m) (g_svc (turn env s))"
    using sim_steady [OF _ t(1)] sim_steady [OF _ t(3)] by (simp_all add: unattended_def t(5))
  have l: "i < length (g_svc ?m)" using a(1) assms(4) by (simp add: list_all2_lengthD [symmetric])
  have v: "steady (g_svc s ! i) (g_svc ?m ! i)" "steady (g_svc ?m ! i) (g_svc (turn env s) ! i)"
    using list_all2_nthD [OF a(1) assms(4)] list_all2_nthD [OF a(2) l] .
  have p: "0 < sv_pid (g_svc ?m ! i)" using steady_running [OF v(2) assms(5)] by simp
  note e = shutdown_step_effect [OF l p no_dependent_running [OF a(1) assms(6)] assms(3), folded t(5)]
  show "sv_stop_sent_at (g_svc (turn env s) ! i) \<noteq> 0" by (rule e(1))
  show "sv_killed (g_svc (turn env s) ! i)"
    if "sv_stop_sent_at (g_svc s ! i) \<noteq> 0" "stop_timeout_ms (g_svc s ! i) \<le> te_now env - sv_stop_sent_at (g_svc s ! i)"
  proof (rule e(2))
    show "sv_stop_sent_at (g_svc ?m ! i) \<noteq> 0" "stop_timeout_ms (g_svc ?m ! i) \<le> te_now env - sv_stop_sent_at (g_svc ?m ! i)"
      using v(1) p that by (auto simp: steady_def stop_timeout_ms_def)
  qed
qed

lemma down_turn_reaped:
  assumes "down_inv s" "te_read env = []" "pids_distinct (g_svc s)" "i < length (g_svc s)" "0 < sv_pid (g_svc s ! i)"
    and "(sv_pid (g_svc s ! i), st) \<in> set (te_wait env)" "ended st" "\<forall>(p, st) \<in> set (te_wait env). 0 < p"
  shows "sv_pid (g_svc (turn env s) ! i) = 0"
proof -
  note t = down_turn [OF assms(1,2)]
  let ?m = "reap_all (te_wait env) (te_now env) s"
  have z: "sv_pid (g_svc ?m ! i) = 0" by (rule reap_all_pid [OF assms(1,3,4) _ assms(5,6,7,8)]) simp
  have "list_all2 steady (g_svc ?m) (g_svc (turn env s))" using sim_steady [OF _ t(3)] by (simp add: unattended_def t(5))
  from list_all2_nthD [OF this, of i] show ?thesis using z sim_length [OF t(1)] assms(4) by (auto simp: steady_def)
qed

lemma shutdown_ends:
  assumes "down_inv s" "pids_distinct (g_svc s)" "attended env s"
  shows "\<exists>k. g_exited (run_turns env k s) \<noteq> None"
proof (rule ccontr)
  assume "\<not> ?thesis"
  then have live: "g_exited (run_turns env k s) = None" for k by simp
  define run where "run k = run_turns env k s" for k
  define vs where "vs k = g_svc (run k)" for k
  note h = assms(3) [unfolded attended_def]
  have nx: "run (Suc k) = turn (env k) (run k)" for k using live by (simp add: run_def Let_def)
  have inv: "down_inv (run k)" for k by (induction k) (use assms(1) h down_turn(7) nx in \<open>simp_all add: run_def\<close>)
  have st1: "list_all2 steady (vs k) (vs (Suc k))" for k using down_steady [OF inv] h by (simp add: nx vs_def)
  have st: "list_all2 steady (vs k) (vs (k + l))" for k l
    by (induction l) (use steady_list_trans st1 steady_refl in \<open>auto intro: list_all2_refl\<close>)
  have n: "length (vs k) = length (vs 0)" for k using st [of 0 k] by (simp add: list_all2_lengthD [symmetric])
  have dis: "pids_distinct (vs k)" for k using pids_distinct_steady [OF _ st [of 0 k]] assms(2) by (simp add: vs_def run_def)
  have ne: "running (vs (Suc k)) \<noteq> {}" for k
  proof
    assume "running (vs (Suc k)) = {}"
    then have "\<not> anything_left (g_svc (run (Suc k)))" using inv [of "Suc k"] by (intro nothing_left) (force simp: running_def vs_def)+
    then show False using down_turn(6) [OF inv, of "env k" k] h live [of "Suc k"] nx [of k] by (simp add: run_def)
  qed
  have fin: "finite (running (vs k))" for k by (simp add: running_def)
  obtain K where K: "1 \<le> K" "\<And>k. 1 \<le> k \<Longrightarrow> card (running (vs K)) \<le> card (running (vs k))"
    using ex_has_least_nat [of "\<lambda>k. 1 \<le> k" 1 "\<lambda>k. card (running (vs k))"] by auto
  have same: "running (vs (K + l)) = running (vs K)" for l
    using running_steady [OF st [of K l]] K(1) K(2) [of "K + l"] by (intro card_seteq [OF fin]) simp_all
  obtain k0 where "K = Suc k0" using K(1) by (cases K) auto
  then have "\<exists>i < length (vs K). 0 < sv_pid (vs K ! i)" using ne [of k0] by (auto simp: running_def)
  then obtain i where i: "i < length (vs K)" "0 < sv_pid (vs K ! i)" "\<And>j. after_edge (vs K) j i \<Longrightarrow> \<not> 0 < sv_pid (vs K ! j)"
    using deps.last_is_free [where P = "\<lambda>v. 0 < sv_pid v"] by blast
  have il: "i < length (vs k)" for k using i(1) n by metis
  have ip: "0 < sv_pid (vs (K + l) ! i)" for l using same [of l] i(1,2) by (auto simp: running_def)
  have free: "\<not> 0 < sv_pid (vs (K + l) ! j)" if "after_edge (vs (K + l)) j i" for l j
    using no_dependent_running [OF st [of K l] i(3)] that by (auto simp: has_running_dependent_iff)
  have step: "0 < sv_pid (g_svc (turn (env (K + l)) (run (K + l))) ! i)" for l using ip [of "Suc l"] by (simp add: nx vs_def)
  have eff: "sv_stop_sent_at (vs (Suc (K + l)) ! i) \<noteq> 0"
    "sv_stop_sent_at (vs (K + l) ! i) \<noteq> 0 \<Longrightarrow> stop_timeout_ms (vs (K + l) ! i) \<le> te_now (env (K + l)) - sv_stop_sent_at (vs (K + l) ! i) \<Longrightarrow>
       sv_killed (vs (Suc (K + l)) ! i)" for l
    using down_turn_effect [OF inv _ _ _ step [of l]] h il free [of l] unfolding vs_def nx by blast+
  define t where "t = sv_stop_sent_at (vs (Suc K) ! i)"
  have t: "t \<noteq> 0" using eff(1) [of 0] by (simp add: t_def)
  have keep: "steady (vs (Suc K) ! i) (vs (Suc K + l) ! i)" for l using list_all2_nthD [OF st il] .
  have stop: "sv_stop_sent_at (vs (Suc K + l) ! i) = t" "stop_timeout_ms (vs (Suc K + l) ! i) = stop_timeout_ms (vs (Suc K) ! i)" for l
    using keep [of l] ip [of "Suc l"] t by (auto simp: steady_def t_def stop_timeout_ms_def)
  obtain L where L: "\<And>l. L \<le> l \<Longrightarrow> t + stop_timeout_ms (vs (Suc K) ! i) \<le> te_now (env l)" using h by blast
  have reaped: "\<exists>m \<ge> k. \<exists>e. (sv_pid v, e) \<in> set (te_wait (env m)) \<and> ended e" if "v \<in> set (vs k)" "sv_killed v" "0 < sv_pid v" for k v
    using h that unfolding vs_def run_def by blast
  have "sv_killed (vs (Suc (Suc K + L)) ! i)"
    using eff(2) [of "Suc L"] stop [of L] t L [of "Suc K + L"] by simp
  moreover have "vs (Suc (Suc K + L)) ! i \<in> set (vs (Suc (Suc K + L)))" using il by simp
  ultimately obtain m e where m: "Suc (Suc K + L) \<le> m" "(sv_pid (vs (Suc (Suc K + L)) ! i), e) \<in> set (te_wait (env m))" "ended e"
    using reaped ip [of "Suc (Suc L)"] by (metis add_Suc add_Suc_right)
  obtain l where l: "m = K + l" using m(1) by (metis add.assoc le_add1 le_trans nat_le_iff_add add_Suc add_Suc_right)
  obtain q where q: "m = Suc (Suc K + L) + q" using m(1) le_Suc_ex by blast
  have "steady (vs (Suc (Suc K + L)) ! i) (vs m ! i)"
    using list_all2_nthD [OF st [of "Suc (Suc K + L)" q] il] by (simp only: q)
  then have "sv_pid (vs m ! i) = sv_pid (vs (Suc (Suc K + L)) ! i)" using ip [of l] l steady_running by simp
  then have "sv_pid (g_svc (turn (env m) (run m)) ! i) = 0"
    using m(2,3) h dis [of m] il [of m] ip [of l] l by (intro down_turn_reaped [OF inv]) (simp_all add: vs_def)
  then show False using step [of l] l by simp
qed

lemma service_exited_frame: "g_exited (service_exited i k x now s) = g_exited s"
proof -
  have "g_exited (exit_recorded i k x s) = g_exited s" for k x by (simp add: exit_recorded_def Let_def)
  then show ?thesis unfolding service_exited_def Let_def by (simp split: if_split)
qed

lemma exited_frame:
  "g_exited (reap_all ws now s) = g_exited s" "g_exited (shutdown_step now s) = g_exited s"
proof -
  have "g_exited (reap_one p st now s) = g_exited s" for p st s
    by (simp add: reap_one_def Let_def service_exited_frame split: option.split)
  then show "g_exited (reap_all ws now s) = g_exited s" by (induction ws now s rule: reap_all.induct) simp_all
  have "g_exited (stop_one now i s) = g_exited s" for i s by (simp add: stop_one_def send_stop_def escalate_stop_def Let_def)
  then have "g_exited (fold (stop_one now) is s) = g_exited s" for "is" s by (induction "is" arbitrary: s) simp_all
  then show "g_exited (shutdown_step now s) = g_exited s" by (simp add: shutdown_step_def)
qed

text \<open>The exit code is the one the shutdown began with.\<close>

lemma shutdown_code:
  assumes "down_inv s" "te_read env = []"
  shows "g_exit_code (shutdown_step (te_now env) (reap_all (te_wait env) (te_now env) s)) = g_exit_code s"
proof -
  have r: "g_exit_code (reap_one p st now s) = g_exit_code s \<and> g_shutting_down (reap_one p st now s)" if "g_shutting_down s" for p st now s
    using that by (simp add: reap_one_def service_exited_def exit_recorded_def set_state_def probe_fd_release_def Let_def split: option.split)
  have "g_shutting_down s" using assms(1) by (simp add: down_inv_def)
  then have "g_exit_code (reap_all ws now s) = g_exit_code s" for ws now
    by (induction ws now s rule: reap_all.induct) (simp_all add: r)
  moreover have "g_exit_code (stop_one now i s) = g_exit_code s" for now i s by (simp add: stop_one_def send_stop_def escalate_stop_def Let_def)
  then have "g_exit_code (fold (stop_one now) is s) = g_exit_code s" for now "is" s by (induction "is" arbitrary: s) simp_all
  ultimately show ?thesis by (simp add: shutdown_step_def)
qed

lemma run_code:
  assumes "down_inv s" "\<forall>k. te_read (env k) = []" "g_exited s = None"
  shows "down_inv (run_turns env k s) \<and> g_exit_code (run_turns env k s) = g_exit_code s \<and> g_exited (run_turns env k s) \<in> {None, Some (g_exit_code s)}"
proof (induction k)
  case (Suc k)
  let ?s = "run_turns env k s"
  have r: "te_read (env k) = []" using assms(2) by simp
  show ?case
  proof (cases "g_exited ?s")
    case None
    have d: "down_inv ?s" using Suc.IH by simp
    let ?t = "shutdown_step (te_now (env k)) (reap_all (te_wait (env k)) (te_now (env k)) ?s)"
    have c: "g_exit_code ?t = g_exit_code s" using shutdown_code [OF d r] Suc.IH by simp
    have "g_shutting_down (reap_all (te_wait (env k)) (te_now (env k)) ?s)" using down_turn(2) [OF d r] by (simp add: down_inv_def)
    moreover have "g_shutting_down ?s" using d by (simp add: down_inv_def)
    ultimately have "g_exit_code (turn (env k) ?s) = g_exit_code ?t"
      by (simp add: turn_def take_events_down [OF _ r] Let_def finish_def)
    then show ?thesis using None c down_turn(6,7) [OF d r] by (simp add: exited_frame)
  qed (use Suc.IH in simp)
qed (use assms in simp)

section \<open>The turn that sees the termination signal\<close>

lemma run_turns_shift: "g_exited s = None \<Longrightarrow> run_turns env (Suc k) s = run_turns (\<lambda>n. env (Suc n)) k (turn (env 0) s)"
  by (induction k) (simp_all add: Let_def)

lemma sigterm_turn:
  assumes "sup_inv (view s)" "\<not> g_shutting_down s" "te_sigterm env" "te_read env = []"
  shows "down_inv (turn env s)" "list_all2 steady (g_svc s) (g_svc (turn env s))"
    "g_exited (turn env s) \<in> {g_exited s, Some (g_exit_code (turn env s))}"
proof -
  let ?r = "reap_all (te_wait env) (te_now env) s"
  let ?m = "begin_shutdown 0 ?r"
  let ?t = "shutdown_step (te_now env) ?m"
  have e: "take_events env s = ?m" using assms(3,4) by (simp add: take_events_def Let_def)
  have r: "sim Reaping (te_now env) s ?m" by (rule sim_trans [OF sim_reap_all [OF assms(1)] sim_begin_shutdown]) simp
  have t: "sim Stopping (te_now env) ?m ?t" by (rule sim_shutdown_step)
  have "parked (view s)" using assms(2) by (simp add: parked_def view_def)
  then have m: "down_inv ?m" using sim_parked [OF r] sim_inv [OF r assms(1)] by (simp add: down_inv_def)
  then have d: "down_inv ?t" using sim_parked [OF t] sim_inv [OF t] sim_down [OF t] by (simp add: down_inv_def)
  have v: "g_svc (turn env s) = g_svc ?t" "g_shutting_down (turn env s) = g_shutting_down ?t"
    by (simp_all add: turn_def e Let_def finish_def)
  then have "view (turn env s) = view ?t" "g_shutting_down (turn env s) = g_shutting_down ?t" by (simp_all add: view_def)
  then show "down_inv (turn env s)" using d by (simp add: down_inv_def)
  show "list_all2 steady (g_svc s) (g_svc (turn env s))" unfolding v(1)
    using steady_list_trans [OF sim_steady [OF _ r] sim_steady [OF _ t]] by (simp add: unattended_def)
  have "g_exited ?t = g_exited s" by (simp add: exited_frame)
  then show "g_exited (turn env s) \<in> {g_exited s, Some (g_exit_code (turn env s))}"
    by (simp add: turn_def e Let_def finish_def)
qed

lemma attended_shift:
  assumes "attended env s" "g_exited s = None"
  shows "attended (\<lambda>n. env (Suc n)) (turn (env 0) s)"
proof -
  note h = assms(1) [unfolded attended_def]
  have c: "\<exists>k. \<forall>l \<ge> k. t \<le> te_now (env (Suc l))" for t
  proof -
    obtain k where "\<forall>l \<ge> k. t \<le> te_now (env l)" using h by blast
    then show ?thesis by (intro exI [of _ k]) simp
  qed
  have w: "\<exists>m \<ge> k. \<exists>st. (sv_pid v, st) \<in> set (te_wait (env (Suc m))) \<and> ended st"
    if "v \<in> set (g_svc (run_turns (\<lambda>n. env (Suc n)) k (turn (env 0) s)))" "sv_killed v" "0 < sv_pid v" for k v
  proof -
    have "v \<in> set (g_svc (run_turns env (Suc k) s))" using that(1) run_turns_shift [OF assms(2), of env k] by simp
    then have "\<exists>m \<ge> Suc k. \<exists>st. (sv_pid v, st) \<in> set (te_wait (env m)) \<and> ended st" using h that(2,3) by blast
    then show ?thesis by (metis Suc_le_D Suc_le_mono)
  qed
  show ?thesis unfolding attended_def using h c w by blast
qed

lemma sigterm_ends:
  assumes "sup_inv (view s)" "\<not> g_shutting_down s" "g_exited s = None" "pids_distinct (g_svc s)" "te_sigterm (env 0)" "attended env s"
  shows "\<exists>k. g_exited (run_turns env (Suc k) s) = Some (g_exit_code (turn (env 0) s))"
proof -
  let ?t = "turn (env 0) s" and ?env = "\<lambda>n. env (Suc n)"
  have rd: "te_read (env k) = []" for k using assms(6) by (simp add: attended_def)
  note t = sigterm_turn [OF assms(1,2,5) rd]
  show ?thesis
  proof (cases "g_exited ?t")
    case None
    have "pids_distinct (g_svc ?t)" by (rule pids_distinct_steady [OF assms(4) t(2)])
    then obtain k where "g_exited (run_turns ?env k ?t) \<noteq> None" using shutdown_ends [OF t(1) _ attended_shift [OF assms(6,3)]] by blast
    then have "g_exited (run_turns ?env k ?t) = Some (g_exit_code ?t)" using run_code [OF t(1) _ None, of ?env k] rd by auto
    then show ?thesis unfolding run_turns_shift [OF assms(3)] by blast
  next
    case (Some c)
    then show ?thesis using t(3) assms(3) by (intro exI [of _ 0]) simp
  qed
qed

section \<open>A start command during a shutdown\<close>

lemma sim_left_alone: "unattended ph \<Longrightarrow> sim ph now s s' \<Longrightarrow> g_shutting_down s \<Longrightarrow> list_all2 left_alone (g_svc s) (g_svc s')"
  unfolding sim_def using sup_steps_left_alone [of ph now "view s" _ "view s'"] by (auto simp: view_def)

definition stuck :: "nat \<Rightarrow> cix_init \<Rightarrow> bool" where
  "stuck i s = (g_shutting_down s \<and> sup_inv (view s) \<and> g_exited s = None \<and> i < length (g_svc s) \<and> sv_pid (g_svc s ! i) \<le> 0 \<and>
     sv_state (g_svc s ! i) = ST_PENDING \<and> \<not> sv_operator_stopped (g_svc s ! i) \<and> ci_after_mask (sv_def (g_svc s ! i)) = 0)"

lemma stuck_anything_left: "stuck i s \<Longrightarrow> anything_left (g_svc s)"
  using deps_satisfied_iff [of i "g_svc s"] by (auto simp: stuck_def anything_left_def list_ex_iff Let_def after_edge_def intro!: bexI [of _ i])

lemma stuck_turn:
  assumes "stuck i s" "te_read env = []"
  shows "stuck i (turn env s)"
proof -
  let ?m = "reap_all (te_wait env) (te_now env) s"
  let ?t = "shutdown_step (te_now env) ?m"
  have u: "unattended Reaping" "unattended Stopping" by (simp_all add: unattended_def)
  have d: "g_shutting_down s" "sup_inv (view s)" using assms(1) by (simp_all add: stuck_def)
  have r: "sim Reaping (te_now env) s ?m" using d by (intro sim_reap_all)
  have p: "sim Stopping (te_now env) ?m ?t" by (rule sim_shutdown_step)
  have dm: "g_shutting_down ?m" by (rule sim_down [OF r d(1)])
  have "list_all2 left_alone (g_svc s) (g_svc ?t)"
    using list_all2_trans [of left_alone left_alone left_alone, OF left_alone_trans sim_left_alone [OF u(1) r d(1)] sim_left_alone [OF u(2) p dm]] .
  from list_all2_nthD [OF this] have v: "left_alone (g_svc s ! i) (g_svc ?t ! i)" using assms(1) by (simp add: stuck_def)
  have ex: "g_exited ?t = g_exited s" by (simp add: exited_frame)
  have "stuck i ?t" using assms(1) v sim_length [OF r] sim_length [OF p] sim_down [OF p dm] sim_inv [OF p sim_inv [OF r d(2)]] ex
    by (simp add: stuck_def left_alone_def)
  moreover from stuck_anything_left [OF this] have "turn env s = report_flush (te_write env) ?t"
    by (simp add: turn_def take_events_down [OF d(1) assms(2)] dm Let_def)
  ultimately show ?thesis by (auto simp: stuck_def view_def)
qed

lemma stuck_run: "stuck i s \<Longrightarrow> \<forall>k. te_read (env k) = [] \<Longrightarrow> stuck i (run_turns env k s)"
proof (induction k)
  case (Suc k)
  then have "stuck i (run_turns env k s)" by simp
  then show ?case using stuck_turn [of i "run_turns env k s" "env k"] Suc.prems by (simp add: Let_def stuck_def)
qed simp

lemma start_sticks:
  assumes "sup_inv (view s)" "g_shutting_down s" "g_exited s = None" "cm_magic c = CIXINIT_MAGIC" "cm_op c = CIXINIT_OP_START"
    and "cm_service c = int i" "i < length (g_svc s)" "sv_pid (g_svc s ! i) \<le> 0" "sv_state (g_svc s ! i) \<noteq> ST_PENDING"
    and "ci_after_mask (sv_def (g_svc s ! i)) = 0"
  shows "stuck i (handle_command c now s)"
proof -
  have "sup_inv (view (handle_command c now s))" using sim_inv [OF sim_handle_command [of c UNIV] assms(1)] by simp
  then show ?thesis using assms(2-) by (simp add: stuck_def handle_command_def cixinit_ops upd_svc_def)
qed

end
