(* ===== verification/Init_Props.thy ===== *)
theory Init_Props
  imports Init_Live
begin

text \<open>
  The properties of the service supervisor: the table the daemon builds, its reader, the turns of
  the first process, and the daemon's picture of it.  The witnesses share one container of two
  services, \<open>db\<close> and \<open>web\<close>, where \<open>web\<close> is after \<open>db\<close>.
\<close>

section \<open>The container of the witnesses\<close>

definition demo_service :: "string \<Rightarrow> string \<Rightarrow> mask \<Rightarrow> cixinit_service" where
  "demo_service name prog after = \<lparr>ci_name = pad CIXINIT_NAME_MAX name, ci_argv = pad CIXINIT_ARGV_MAX (packed [prog]),
     ci_type = CIXINIT_TYPE_DAEMON, ci_after_mask = after, ci_ready_kind = CIXINIT_READY_NONE, ci_ready_port = 0,
     ci_ready_timeout_seconds = 30, ci_ready_path = pad CIXINIT_PATH_MAX [], ci_on_exit = CIXINIT_ON_EXIT_RESTART,
     ci_restart_delay_seconds = 2, ci_stop_signal = SIGTERM, ci_stop_timeout_seconds = 10, ci_uid = - 1, ci_gid = - 1\<rparr>"

definition demo_body :: "json list" where
  "demo_body = [JObject [(''name'', JString ''web''), (''cmd'', JArray [JString ''/bin/web'']), (''after'', JArray [JString ''db''])],
     JObject [(''name'', JString ''db''), (''cmd'', JArray [JString ''/bin/db''])]]"

definition demo_messages :: "ctl_message list" where
  "demo_messages = [CtlHello \<lparr>he_magic = CIXINIT_MAGIC, he_version = CIXINIT_VERSION, he_service_count = 2, he_addr_be = [], he_iface = []\<rparr>,
     CtlService (demo_service ''db'' ''/bin/db'' 0), CtlService (demo_service ''web'' ''/bin/web'' 1)]"

definition demo_init :: cix_init where
  "demo_init = report (- 1) CIXINIT_EV_UP CIXINIT_VERSION 2
     \<lparr>g_svc = [(fresh_svc (demo_service ''db'' ''/bin/db'' 0))\<lparr>sv_out_fd := 5\<rparr>, (fresh_svc (demo_service ''web'' ''/bin/web'' 1))\<lparr>sv_out_fd := 6\<rparr>],
      g_addr_be = [], g_iface = [], g_control_fd = 3, g_report_fd = 4, g_shutting_down = False, g_exit_code = 0,
      g_pending = replicate PENDING_MAX blank_report, g_pending_head = 0, g_pending_count = 0, g_pending_dropped = 0,
      g_calls = [], g_exited = None\<rparr>"

definition demo_env :: turn_env where
  "demo_env = \<lparr>te_now = 1000, te_wait = [], te_sigterm = False, te_read = [], te_fork = (\<lambda>i. 7 + int i), te_clock = (\<lambda>i. 1000),
     te_socket = (\<lambda>i. 9), te_connect = (\<lambda>i. 0), te_poll = (\<lambda>i. (0, 0)), te_soerr = (\<lambda>i. (0, 0)), te_write = []\<rparr>"

text \<open>Both services run after the first turn.\<close>

definition demo_running :: "svc list" where
  "demo_running = map (\<lambda>(v, p). v\<lparr>sv_pid := p, sv_state := ST_READY, sv_probe_deadline := 31000\<rparr>) (zip (g_svc demo_init) [7, 8])"

lemma demo_body_parsed:
  "\<exists>a b. parse_all demo_body [] = Some [(a, [''db'']), (b, [])] \<and> svc_name a = ''web'' \<and> svc_name b = ''db''"
  by (simp add: demo_body_def parse_one_def Let_def json_object_get_def json_as_string_def name_ok_def name_char_def less_eq_char_def
      parse_type_def pack_argv_def CIXINIT_ARGC_MAX_def CIXINIT_ARGV_MAX_def CIXINIT_NAME_MAX_def CIXINIT_MAX_SERVICES_def parse_after_def
      parse_ready_def parse_on_exit_def cixinit_codes int_field_def parse_stop_signal_def svc_name_def NUL_def)

lemma demo_size: "demo_body \<noteq> []" "length demo_body \<le> CIXINIT_MAX_SERVICES"
  by (simp_all add: demo_body_def CIXINIT_MAX_SERVICES_def)

lemma demo_named:
  "svc_name a = ''web'' \<Longrightarrow> svc_name b = ''db'' \<Longrightarrow> p \<in> set [(a, [''db'']), (b, [])] \<Longrightarrow>
     set (snd p) \<subseteq> (svc_name \<circ> fst) ` set [(a, [''db'']), (b, [])]"
  by auto

lemma demo_table_built: "\<exists>t. cixinit_table_from_json (Some (JArray demo_body)) [] [] = Some t"
proof -
  obtain a b where p: "parse_all demo_body [] = Some [(a, [''db'']), (b, [])]" "svc_name a = ''web''" "svc_name b = ''db''"
    using demo_body_parsed by blast
  have "acyclic (after_rel [(a, [''db'']), (b, [])])"
  proof (rule acyclic_subset [OF wf_acyclic [OF wf_measure]])
    show "after_rel [(a, [''db'']), (b, [])] \<subseteq> measure (\<lambda>i. if i = 0 then 1 else 0)"
      using p(2,3) by (auto simp: after_rel_def less_Suc_eq)
  qed
  then have "cixinit_table_from_json (Some (JArray demo_body)) [] [] \<noteq> None"
    using table_None_iff [OF demo_size p(1) demo_named [OF p(2,3)], of "[]" "[]"] by simp
  then show ?thesis by blast
qed

lemma demo_body_typed: "typed_json (JArray demo_body)"
  by (simp add: demo_body_def NUL_def)

lemma demo_valid:
  assumes "is_c_str name" "name \<noteq> []" "length name < 32" "is_c_str prog" "prog \<noteq> []" "length prog < 1000" "drop_bit i after = 0"
  shows "validate_service i (demo_service name prog after)"
proof -
  have l: "length (packed [prog]) < CIXINIT_ARGV_MAX" using assms(6) by (simp add: CIXINIT_ARGV_MAX_def)
  obtain r where r: "pad CIXINIT_ARGV_MAX (packed [prog]) = packed [prog] @ NUL # r" using pad_snoc [OF l] by blast
  have "length (pad CIXINIT_ARGV_MAX (packed [prog])) = CIXINIT_ARGV_MAX" using l by (simp only: length_pad)
  then have "argv_count (pad CIXINIT_ARGV_MAX (packed [prog])) CIXINIT_ARGV_MAX = 1"
    using argv_count_packed [of "[prog]" 0 r] assms(4,5) by (simp add: argv_count_def r CIXINIT_ARGC_MAX_def del: packed_simps)
  moreover have "str_ok (pad CIXINIT_NAME_MAX name) CIXINIT_NAME_MAX" using assms by (intro str_ok_pad) (simp_all add: CIXINIT_NAME_MAX_def)
  ultimately show ?thesis using assms(7) by (simp add: validate_service_def demo_service_def cixinit_codes SIGTERM_def del: packed_simps)
qed

lemma demo_main: "cix_main [''3'', ''4'', ''5'', ''6''] demo_messages = Some demo_init"
proof -
  have v: "validate_service 0 (demo_service ''db'' ''/bin/db'' 0)" "validate_service (Suc 0) (demo_service ''web'' ''/bin/web'' 1)"
    by (rule demo_valid; simp add: NUL_def drop_bit_eq_div)+
  have f: "fd_arg ''3'' = Some 3" "fd_arg ''4'' = Some 4" "fd_arg ''5'' = Some 5" "fd_arg ''6'' = Some 6"
    by (simp_all add: fd_arg_def is_digit_iff digit_val_def)
  show ?thesis by (simp add: cix_main_def demo_messages_def read_table_def v f demo_init_def numeral_2_eq_2
        CIXINIT_MAX_SERVICES_def CIXINIT_MAX_ADDRS_def CIXINIT_MAX_IFACES_def)
qed

lemma bit_one_mask: "bit (1 :: mask) j \<longleftrightarrow> j = 0"
  by (simp add: bit_1_iff)

lemma pending_frame:
  "g_pending_count (report i e a b s) = (if g_pending_count s = PENDING_MAX then g_pending_count s - 1 + 1 else g_pending_count s + 1)"
  "g_pending_dropped (report i e a b s) = (if g_pending_count s = PENDING_MAX then g_pending_dropped s + 1 else g_pending_dropped s)"
  "g_pending_count (upd_svc j f s) = g_pending_count s" "g_pending_dropped (upd_svc j f s) = g_pending_dropped s"
  by (simp_all add: report_def upd_svc_def Let_def)

lemma start_runs:
  assumes "i < length (g_svc s)" "0 < te_fork env i" "ci_ready_kind (sv_def (g_svc s ! i)) = CIXINIT_READY_NONE" "sv_probe_fd (g_svc s ! i) < 0"
    and "0 < ci_ready_timeout_seconds (sv_def (g_svc s ! i))" "g_pending_count s + 3 \<le> PENDING_MAX"
  shows "g_svc (start_service env i s) = (g_svc s)[i := (g_svc s ! i)\<lparr>sv_pid := te_fork env i, sv_stop_sent_at := 0,
      sv_killed := False, sv_probe_pid := 0, sv_probe_addr_idx := 0,
      sv_probe_deadline := te_clock env i + ci_ready_timeout_seconds (sv_def (g_svc s ! i)) * 1000, sv_state := ST_READY\<rparr>]"
    "g_shutting_down (start_service env i s) = g_shutting_down s" "g_exited (start_service env i s) = g_exited s"
    "g_pending_count (start_service env i s) = g_pending_count s + 3" "g_pending_dropped (start_service env i s) = g_pending_dropped s"
  using assms by (simp_all add: start_service_def spawned_def probe_fd_release_def Let_def pending_frame)

lemma demo_turn:
  "g_svc (turn demo_env demo_init) = demo_running" "\<not> g_shutting_down (turn demo_env demo_init)"
  "g_exited (turn demo_env demo_init) = None" "g_pending_dropped (turn demo_env demo_init) = 0"
proof -
  define s1 where "s1 = start_service demo_env 0 demo_init"
  define s2 where "s2 = start_service demo_env 1 s1"
  note d = demo_service_def fresh_svc_def demo_init_def demo_env_def PENDING_MAX_def
  have v: "0 < te_fork demo_env i" "ci_ready_kind (sv_def (g_svc demo_init ! i)) = CIXINIT_READY_NONE"
    "ci_ready_timeout_seconds (sv_def (g_svc demo_init ! i)) = 30" "sv_probe_fd (g_svc demo_init ! i) = - 1"
    "(g_svc demo_init ! i)\<lparr>sv_pid := te_fork demo_env i, sv_stop_sent_at := 0, sv_killed := False, sv_probe_pid := 0, sv_probe_addr_idx := 0,
      sv_probe_deadline := te_clock demo_env i + 30000, sv_state := ST_READY\<rparr> = demo_running ! i" if "i < 2" for i
    using that by (auto simp: demo_running_def d less_2_cases_iff)
  have n: "g_svc demo_init \<noteq> []" "\<not> g_shutting_down demo_init" "g_exited demo_init = None" by (simp_all add: demo_init_def)
  have l: "(g_svc demo_init)[0 := x] = [x, g_svc demo_init ! 1]" "demo_running = [demo_running ! 0, demo_running ! 1]" for x
    by (simp_all add: demo_running_def demo_init_def)
  have t: "take_events demo_env demo_init = demo_init" by (simp add: take_events_def demo_env_def)
  have p: "g_pending_count demo_init = 1" "g_pending_dropped demo_init = 0" by (simp_all add: demo_init_def pending_frame PENDING_MAX_def)
  have a: "schedule_one demo_env (te_now demo_env) 0 demo_init = s1"
    by (simp add: schedule_one_def s1_def demo_init_def fresh_svc_def deps_satisfied_def)
  have s1: "g_svc s1 = [demo_running ! 0, g_svc demo_init ! 1]" "\<not> g_shutting_down s1" "g_exited s1 = None"
    "g_pending_count s1 = 4" "g_pending_dropped s1 = 0"
    using start_runs [of 0 demo_init demo_env] p by (simp_all add: s1_def v n l(1) PENDING_MAX_def)
  have b: "schedule_one demo_env (te_now demo_env) 1 s1 = s2"
    by (simp add: schedule_one_def s1 s2_def demo_running_def d deps_satisfied_def and_pow_2_iff bit_one_mask dep_ready_def dep_dead_def cixinit_codes)
  have s2: "g_svc s2 = demo_running" "\<not> g_shutting_down s2" "g_exited s2 = None" "g_pending_dropped s2 = 0"
    using start_runs [of 1 s1 demo_env] s1 v [of 1] l(2) by (simp_all add: s2_def PENDING_MAX_def)
  have "g_shutting_down demo_init = False" by (simp add: demo_init_def)
  moreover have "schedule_all demo_env (te_now demo_env) demo_init = s2"
    unfolding schedule_all_def using a b by (simp add: demo_init_def upt_rec)
  moreover have "anything_left demo_running" by (simp add: anything_left_def demo_running_def demo_init_def fresh_svc_def upt_rec)
  ultimately have "turn demo_env demo_init = report_flush (te_write demo_env) s2" by (simp add: turn_def t s2(1))
  then show "g_svc (turn demo_env demo_init) = demo_running" "\<not> g_shutting_down (turn demo_env demo_init)"
    "g_exited (turn demo_env demo_init) = None" "g_pending_dropped (turn demo_env demo_init) = 0" using s2 by simp_all
qed

lemma demo_running_at [simp]:
  "length demo_running = 2" "sv_pid (demo_running ! 0) = 7" "sv_pid (demo_running ! 1) = 8"
  "ci_after_mask (sv_def (demo_running ! 0)) = 0" "ci_after_mask (sv_def (demo_running ! 1)) = 1"
  "sv_stop_sent_at (demo_running ! 0) = 0" "sv_stop_sent_at (demo_running ! 1) = 0"
  "sv_probe_pid (demo_running ! 0) = 0" "sv_probe_pid (demo_running ! 1) = 0"
  by (simp_all add: demo_running_def demo_init_def fresh_svc_def demo_service_def)

lemmas demo_running_Suc [simp] = demo_running_at [unfolded One_nat_def]

lemma demo_fork: "\<forall>i. te_fork demo_env i \<noteq> 0"
  by (simp add: demo_env_def)

lemma demo_reachable: "init_reachable demo_init" "init_reachable (turn demo_env demo_init)"
proof -
  show "init_reachable demo_init" by (rule boot [OF demo_main])
  then show "init_reachable (turn demo_env demo_init)"
    by (rule next_turn [OF _ _ demo_fork]) (simp add: demo_init_def)
qed

section \<open>The table\<close>

text \<open>
  C8. A table that is built holds every declared service once, under its own name, with nothing
  changed but its dependency mask: bit \<open>j\<close> of the mask of entry \<open>i\<close> is set exactly for the entries
  \<open>j\<close> before \<open>i\<close> whose names its declaration lists, and every listed name is among those entries.  No
  service declared earlier than entry \<open>i\<close> and placed later could have been placed there, so the order
  of the declaration is kept wherever the dependencies allow.
\<close>

theorem table_in_dependency_order:
  assumes "cixinit_table_from_json (Some (JArray js)) addrs ifaces = Some t"
  shows "length (ct_svc t) = length js \<and> distinct (map svc_name (ct_svc t)) \<and> distinct (ct_order t) \<and> set (ct_order t) = {0..<length js} \<and>
    (\<forall>i < length js. entry_ok t js i \<and> no_earlier t js i)"
  using table_entries [OF assms] by simp

theorem table_in_dependency_order_witness:
  "\<exists>t. cixinit_table_from_json (Some (JArray demo_body)) [] [] = Some t \<and> length (ct_svc t) = 2 \<and>
     entry_ok t demo_body 0 \<and> entry_ok t demo_body 1 \<and> no_earlier t demo_body 0 \<and> no_earlier t demo_body 1"
proof -
  obtain t where t: "cixinit_table_from_json (Some (JArray demo_body)) [] [] = Some t" using demo_table_built by blast
  have "length demo_body = 2" by (simp add: demo_body_def)
  with table_in_dependency_order [OF t] t show ?thesis by auto
qed

text \<open>
  C9. The loop that orders the services ends for every request; with the counts in range and every
  listed name declared, the request is refused exactly when the declared dependencies have a cycle.
\<close>

theorem only_cycles_refused:
  assumes "js \<noteq> []" "length js \<le> CIXINIT_MAX_SERVICES" "parse_all js [] = Some parsed"
    and "\<And>p. p \<in> set parsed \<Longrightarrow> set (snd p) \<subseteq> (svc_name \<circ> fst) ` set parsed"
    and "length addrs \<le> CIXINIT_MAX_ADDRS" "length ifaces \<le> CIXINIT_MAX_IFACES"
  shows "cixinit_table_from_json (Some (JArray js)) addrs ifaces = None \<longleftrightarrow> \<not> acyclic (after_rel parsed)"
  by (rule table_None_iff [OF assms])

theorem only_cycles_refused_witness:
  "\<exists>parsed. parse_all demo_body [] = Some parsed \<and>
     (cixinit_table_from_json (Some (JArray demo_body)) [] [] = None \<longleftrightarrow> \<not> acyclic (after_rel parsed))"
proof -
  obtain a b where p: "parse_all demo_body [] = Some [(a, [''db'']), (b, [])]" "svc_name a = ''web''" "svc_name b = ''db''"
    using demo_body_parsed by blast
  have "cixinit_table_from_json (Some (JArray demo_body)) [] [] = None \<longleftrightarrow> \<not> acyclic (after_rel [(a, [''db'']), (b, [])])"
    by (rule only_cycles_refused [OF demo_size p(1) demo_named [OF p(2,3)]]) simp_all
  with p(1) show ?thesis by (intro exI conjI)
qed

text \<open>
  The program a service runs is its declared command up to the first empty argument: what
  \<open>pack_argv\<close> packs, the child unpacks and becomes, when the kernel grants its user, its group and
  the execution.  A command without empty arguments is run exactly as declared; an empty argument is
  accepted, and it and everything after it is lost.
\<close>

theorem command_runs_as_declared:
  assumes "pack_argv (Some (JArray (map JString args))) CIXINIT_ARGV_MAX = Some (ci_argv (sv_def v))" "\<forall>a \<in> set args. is_c_str a"
    and "ce_setgroups ce = 0" "ce_setgid ce = 0" "ce_setuid ce = 0" "ce_execve ce = None"
  shows "child_exec ce v = Becomes (takeWhile (\<lambda>a. a \<noteq> []) args)"
proof -
  have z: "0 < CIXINIT_ARGV_MAX" by (simp add: CIXINIT_ARGV_MAX_def)
  obtain js ss r where p: "Some (JArray (map JString args)) = Some (JArray js)" "map (\<lambda>j. json_as_string (Some j)) js = map Some ss"
    "ci_argv (sv_def v) = packed ss @ NUL # r" "length ss \<le> CIXINIT_ARGC_MAX"
    using pack_argv_packed [OF assms(1) z] .
  have "map Some ss = map Some args" using p(1,2) by (auto simp: json_as_string_def comp_def)
  then have "ss = args" by (simp add: inj_map_eq_map)
  with p assms(2) have "argv_unpack (ci_argv (sv_def v)) CIXINIT_ARGC_MAX = takeWhile (\<lambda>a. a \<noteq> []) args"
    using argv_unpack_packed [of ss CIXINIT_ARGC_MAX r] by (simp add: list_all_iff)
  with assms(3-6) show ?thesis by (simp add: child_exec_def)
qed

theorem command_runs_as_declared_witness:
  "\<exists>v. pack_argv (Some (JArray (map JString [''/bin/sh'', '''', ''x'']))) CIXINIT_ARGV_MAX = Some (ci_argv (sv_def v)) \<and>
     child_exec \<lparr>ce_setgroups = 0, ce_setgid = 0, ce_setuid = 0, ce_execve = None\<rparr> v = Becomes [''/bin/sh'']"
proof -
  define buf where "buf = pad CIXINIT_ARGV_MAX (packed [''/bin/sh'', '''', ''x''])"
  have p: "pack_argv (Some (JArray (map JString [''/bin/sh'', '''', ''x'']))) CIXINIT_ARGV_MAX = Some buf"
    by (simp add: pack_argv_def json_as_string_def CIXINIT_ARGC_MAX_def CIXINIT_ARGV_MAX_def buf_def)
  let ?v = "fresh_svc (blank_service\<lparr>ci_argv := buf\<rparr>)"
  have "child_exec \<lparr>ce_setgroups = 0, ce_setgid = 0, ce_setuid = 0, ce_execve = None\<rparr> ?v = Becomes (takeWhile (\<lambda>a. a \<noteq> []) [''/bin/sh'', '''', ''x''])"
    by (rule command_runs_as_declared) (use p in \<open>simp_all add: fresh_svc_def NUL_def\<close>)
  then show ?thesis using p by (intro exI [of _ ?v]) (simp add: fresh_svc_def)
qed

text \<open>
  C10. Every table the daemon builds from a parsed request and sends whole is accepted by the first
  process of the container, given one output descriptor for each service and interface names that
  are not empty: it starts with exactly the services and addresses of the table.
\<close>

theorem table_accepted_by_init:
  assumes "cixinit_table_from_json (Some j) addrs ifaces = Some t" "typed_json j" "\<forall>f \<in> set ifaces. f \<noteq> [] \<and> is_c_str f"
    and "length fds = 2 + length (ct_svc t)"
  shows "\<exists>s. cix_main (map nat_dec fds) (fst (cixinit_table_send (\<lambda>n. True) t)) = Some s \<and> map sv_def (g_svc s) = ct_svc t \<and> g_addr_be s = addrs"
proof -
  have r: "read_table (fst (cixinit_table_send (\<lambda>n. True) t)) =
      Some (map fresh_svc (ct_svc t), addrs, map (\<lambda>i. pad CIXINIT_NAME_MAX (snprintf_s CIXINIT_NAME_MAX i)) ifaces)"
    using read_table_sent [OF assms(1)] assms(2,3) by auto
  have f: "those (map fd_arg (map nat_dec fds)) = Some (map int fds)"
    by (induction fds) (simp_all add: fd_arg_nat_dec)
  obtain js where js: "j = JArray js" "js \<noteq> []" "length js \<le> CIXINIT_MAX_SERVICES" using table_pieces [OF assms(1)] by blast
  then have l: "length (ct_svc t) = length js" using table_entries(1) assms(1) by simp
  have n: "0 < length (ct_svc t)" "length (ct_svc t) \<le> CIXINIT_MAX_SERVICES" using js(2,3) l by simp_all
  have "map (\<lambda>i. sv_def (map fresh_svc (ct_svc t) ! i)) [0..<length (ct_svc t)] = ct_svc t"
    by (rule nth_equalityI) (simp_all add: fresh_svc_def)
  then show ?thesis using assms(4) n r f by (simp add: cix_main_def comp_def)
qed

theorem table_accepted_by_init_witness:
  "\<exists>t s. cixinit_table_from_json (Some (JArray demo_body)) [] [] = Some t \<and>
     cix_main (map nat_dec [3, 4, 5, 6]) (fst (cixinit_table_send (\<lambda>n. True) t)) = Some s \<and> map sv_def (g_svc s) = ct_svc t"
proof -
  obtain t where t: "cixinit_table_from_json (Some (JArray demo_body)) [] [] = Some t" using demo_table_built by blast
  have "length (ct_svc t) = 2" using table_entries(1) [OF t] by (simp add: demo_body_def)
  then show ?thesis using table_accepted_by_init [OF t demo_body_typed, of "[3, 4, 5, 6]"] t by auto
qed

section \<open>Turns\<close>

text \<open>
  C2. One turn of the loop of \<open>cix_main\<close> is a run of the supervision machine: steps that reap, then
  steps of the commands received, only for the services they name, then scheduling steps, or
  stopping steps when shutting down; and the reports it queues are those of the steps, in order,
  unless some had to be dropped.
\<close>

theorem turn_refines_machine:
  assumes "init_reachable s" "\<forall>i. te_fork env i \<noteq> 0"
  shows "\<exists>u w rs1 rs2 rs3. sup_steps Reaping (te_now env) (view s) rs1 u \<and>
    sup_steps (Commands (named_in (te_read env))) (te_now env) u rs2 w \<and>
    sup_steps (if fst w then Stopping else Scheduling) (te_now env) w rs3 (view (turn env s)) \<and> emitted s (turn env s) (rs1 @ rs2 @ rs3)"
  using turn_refines [OF reachable_sup_inv [OF assms(1)] assms(2)] by metis

theorem turn_refines_machine_witness:
  "\<exists>u w rs1 rs2 rs3. sup_steps Reaping 1000 (view demo_init) rs1 u \<and> sup_steps (Commands {}) 1000 u rs2 w \<and>
     sup_steps (if fst w then Stopping else Scheduling) 1000 w rs3 (view (turn demo_env demo_init)) \<and>
     emitted demo_init (turn demo_env demo_init) (rs1 @ rs2 @ rs3)"
  using turn_refines_machine [OF demo_reachable(1) demo_fork] by (simp add: demo_env_def named_in_def)

text \<open>
  C3. A service has a new process after a turn only if no shutdown was under way, and either its
  declared restart was due or, at the end of the turn, every service it is after is ready: a daemon
  in the ready state, a oneshot that exited with status 0.
\<close>

theorem starts_after_dependencies:
  assumes "init_reachable s" "\<forall>i. te_fork env i \<noteq> 0" "i < length (g_svc s)"
    and "0 < sv_pid (g_svc (turn env s) ! i)" "sv_pid (g_svc (turn env s) ! i) \<noteq> sv_pid (g_svc s ! i)"
  shows "\<not> g_shutting_down s \<and>
    (sv_state (g_svc s ! i) = ST_RESTART_WAIT \<and> sv_restart_at (g_svc s ! i) \<le> te_now env \<or>
     (\<forall>j. after_edge (g_svc (turn env s)) i j \<longrightarrow> dep_ready (g_svc (turn env s) ! j)))"
proof -
  obtain u w rs1 rs2 rs3 where r: "sup_steps Reaping (te_now env) (view s) rs1 u"
    "sup_steps (Commands (named_in (te_read env))) (te_now env) u rs2 w"
    "sup_steps (if fst w then Stopping else Scheduling) (te_now env) w rs3 (view (turn env s))"
    using turn_refines [OF reachable_sup_inv [OF assms(1)] assms(2)] .
  have c: "list_all2 (calm (te_now env)) (g_svc s) (snd w)"
    using list_all2_trans [of "calm (te_now env)" "calm (te_now env)" "calm (te_now env)", OF calm_trans sup_steps_calm [OF _ r(1)] sup_steps_calm [OF _ r(2)]]
    by (simp add: view_def)
  have l: "length (snd w) = length (g_svc s)" using c by (simp add: list_all2_lengthD)
  have v: "calm (te_now env) (g_svc s ! i) (snd w ! i)" by (rule list_all2_nthD [OF c assms(3)])
  show ?thesis
  proof (cases "fst w")
    case True
    then have "list_all2 (calm (te_now env)) (snd w) (g_svc (turn env s))" using sup_steps_calm [OF _ r(3)] by (simp add: view_def)
    from list_all2_nthD [OF this, of i] have "calm (te_now env) (snd w ! i) (g_svc (turn env s) ! i)" using l assms(3) by simp
    from calm_trans [OF v this] show ?thesis using assms(4,5) by (simp add: calm_def)
  next
    case False
    have "sched_ok (te_now env) (snd w) (snd (view (turn env s)))"
      using sup_steps_sched [of "te_now env" w rs3 "view (turn env s)" "snd w"] r(3) False by (simp add: sched_ok_def)
    then have s: "sv_state (snd w ! i) = ST_RESTART_WAIT \<and> sv_restart_at (snd w ! i) \<le> te_now env \<or>
        (\<forall>j. after_edge (g_svc (turn env s)) i j \<longrightarrow> dep_ready (g_svc (turn env s) ! j))"
      using assms(3,4,5) v l unfolding sched_ok_def view_def calm_def by (metis less_irrefl snd_conv)
    have "\<not> g_shutting_down s" using False sup_steps_frame [OF r(1)] sup_steps_frame [OF r(2)] by (auto simp: view_def)
    with s v show ?thesis by (auto simp: calm_def)
  qed
qed

theorem starts_after_dependencies_witness:
  "sv_pid (g_svc (turn demo_env demo_init) ! 1) = 8 \<and> after_edge (g_svc (turn demo_env demo_init)) 1 0 \<and> dep_ready (g_svc (turn demo_env demo_init) ! 0)"
proof -
  have p: "sv_pid (g_svc (turn demo_env demo_init) ! 1) = 8" "after_edge (g_svc (turn demo_env demo_init)) 1 0"
    unfolding demo_turn(1) after_edge_def by (simp_all add: bit_one_mask del: One_nat_def)
  have q: "sv_pid (g_svc demo_init ! 1) = 0" "sv_state (g_svc demo_init ! 1) = ST_PENDING" "1 < length (g_svc demo_init)"
    by (simp_all add: demo_init_def fresh_svc_def)
  show ?thesis using starts_after_dependencies [OF demo_reachable(1) demo_fork, of 1] p q by auto
qed

text \<open>
  C4. A running service is sent its stop signal in a turn only if one of the commands of that turn
  names it, or a shutdown is under way and no service that is after it has a process at the end of
  the turn: services stop in the reverse of the order they depend on each other.
\<close>

theorem stops_in_reverse_order:
  assumes "init_reachable s" "\<forall>i. te_fork env i \<noteq> 0" "i < length (g_svc s)" "i \<notin> named_in (te_read env)"
    and "sv_stop_sent_at (g_svc s ! i) = 0" "sv_stop_sent_at (g_svc (turn env s) ! i) \<noteq> 0"
  shows "g_shutting_down (turn env s) \<and> (\<forall>j. after_edge (g_svc (turn env s)) j i \<longrightarrow> sv_pid (g_svc (turn env s) ! j) \<le> 0)"
proof -
  let ?N = "named_in (te_read env)"
  obtain u w rs1 rs2 rs3 where r: "sup_steps Reaping (te_now env) (view s) rs1 u"
    "sup_steps (Commands ?N) (te_now env) u rs2 w"
    "sup_steps (if fst w then Stopping else Scheduling) (te_now env) w rs3 (view (turn env s))"
    using turn_refines [OF reachable_sup_inv [OF assms(1)] assms(2)] .
  have "stops_ok ?N (g_svc s) (g_svc s)" by (simp add: stops_ok_def)
  then have "stops_ok ?N (g_svc s) (snd u)" using sup_steps_stops [OF r(1), of ?N "g_svc s"] by (simp add: view_def)
  then have w: "stops_ok ?N (g_svc s) (snd w)" using sup_steps_stops [OF r(2), of ?N "g_svc s"] by simp
  show ?thesis
  proof (cases "fst w")
    case True
    then have "stops_ok ?N (g_svc s) (g_svc (turn env s))" using sup_steps_stops [OF r(3), of ?N "g_svc s"] w by (simp add: view_def)
    moreover have "g_shutting_down (turn env s)" using True sup_steps_frame [OF r(3)] by (simp add: view_def)
    ultimately show ?thesis using assms(3-6) unfolding stops_ok_def by auto
  next
    case False
    then have st: "sup_steps Scheduling (te_now env) w rs3 (view (turn env s))" using r(3) by simp
    have lu: "length (snd w) = length (g_svc s)" using w by (simp add: stops_ok_def)
    have lu': "length (snd u) = length (g_svc s)" using sup_steps_length [OF r(1)] by (simp add: view_def)
    have "sv_stop_sent_at (snd u ! i) = 0" using sup_steps_unsent [OF r(1), of i] assms(3,5) by (simp add: view_def)
    then have "sv_stop_sent_at (snd w ! i) = 0" using sup_steps_unsent [OF r(2), of i] assms(3,4) lu' by simp
    then have "sv_stop_sent_at (g_svc (turn env s) ! i) = 0" using sup_steps_unsent [OF st, of i] assms(3) lu by (simp add: view_def)
    with assms(6) show ?thesis by simp
  qed
qed

text \<open>In a turn with the termination signal, \<open>web\<close> is signalled and \<open>db\<close> is not.\<close>

definition demo_term :: "(int \<times> int) list \<Rightarrow> int \<Rightarrow> turn_env" where
  "demo_term ws now = demo_env\<lparr>te_sigterm := True, te_wait := ws, te_now := now\<rparr>"

lemma demo_halted: "map halted demo_running = demo_running"
  by (simp add: demo_running_def demo_init_def fresh_svc_def halted_def)

lemma demo_dependents: "has_running_dependent demo_running 0" "\<not> has_running_dependent demo_running 1"
  by (simp_all add: has_running_dependent_def and_pow_2_iff bit_one_mask upt_rec del: One_nat_def)

definition demo_stopping :: "int \<Rightarrow> svc list" where
  "demo_stopping now = demo_running[1 := (demo_running ! 1)\<lparr>sv_stop_sent_at := now\<rparr>]"

lemma demo_stop_step:
  assumes "g_svc s = demo_running"
  shows "g_svc (shutdown_step now s) = demo_stopping now"
proof -
  have t: "0 < stop_timeout_ms v" for v by (simp add: stop_timeout_ms_def)
  have "g_svc (stop_one now 1 s) = demo_stopping now"
    using assms t [of "demo_running ! 1"] demo_dependents(2)
    by (simp add: stop_one_def send_stop_def escalate_stop_def Let_def demo_stopping_def stop_timeout_ms_def del: One_nat_def)
  moreover have "has_running_dependent (demo_stopping now) 0"
    unfolding has_running_dependent_iff by (intro exI [of _ 1]) (simp add: demo_stopping_def after_edge_def bit_one_mask del: One_nat_def)
  ultimately have "stop_one now 0 (stop_one now 1 s) = stop_one now 1 s" by (simp add: stop_one_def [of now 0])
  moreover have "rev [0..<2] = [1, 0 :: nat]" by (simp add: upt_rec)
  ultimately show ?thesis using \<open>g_svc (stop_one now 1 s) = demo_stopping now\<close> assms by (simp add: shutdown_step_def)
qed

lemma demo_stopping_at [simp]:
  "length (demo_stopping now) = 2" "sv_pid (demo_stopping now ! 0) = 7" "sv_pid (demo_stopping now ! 1) = 8"
  "sv_stop_sent_at (demo_stopping now ! 1) = now" "sv_stop_sent_at (demo_stopping now ! 0) = 0"
  "ci_after_mask (sv_def (demo_stopping now ! 1)) = 1"
  by (simp_all add: demo_stopping_def del: One_nat_def)

lemmas demo_stopping_Suc [simp] = demo_stopping_at [unfolded One_nat_def]

lemma demo_stop_turn:
  assumes "g_svc s = demo_running" "\<not> g_shutting_down s"
  shows "g_svc (turn (demo_term [] now) s) = demo_stopping now" "g_shutting_down (turn (demo_term [] now) s)"
    "g_exited (turn (demo_term [] now) s) = g_exited s"
proof -
  have e: "take_events (demo_term [] now) s = begin_shutdown 0 s" by (simp add: take_events_def demo_term_def demo_env_def Let_def)
  have v: "g_svc (shutdown_step now (begin_shutdown 0 s)) = demo_stopping now"
    by (rule demo_stop_step) (simp add: assms demo_halted)
  have "anything_left (demo_stopping now)" by (auto simp: anything_left_def list_ex_iff Let_def intro!: bexI [of _ 0])
  moreover have "te_now (demo_term [] now) = now" by (simp add: demo_term_def)
  ultimately have t: "turn (demo_term [] now) s = report_flush (te_write (demo_term [] now)) (shutdown_step now (begin_shutdown 0 s))"
    using v by (simp add: turn_def e Let_def)
  show "g_svc (turn (demo_term [] now) s) = demo_stopping now" "g_exited (turn (demo_term [] now) s) = g_exited s"
    unfolding t using v by (simp_all add: exited_frame)
  show "g_shutting_down (turn (demo_term [] now) s)" unfolding t using sim_down [OF sim_shutdown_step] by simp
qed

theorem stops_in_reverse_order_witness:
  "sv_stop_sent_at (g_svc (turn (demo_term [] 2000) (turn demo_env demo_init)) ! 1) = 2000 \<and>
   sv_stop_sent_at (g_svc (turn (demo_term [] 2000) (turn demo_env demo_init)) ! 0) = 0 \<and>
   g_shutting_down (turn (demo_term [] 2000) (turn demo_env demo_init))"
proof -
  have "te_read (demo_term [] 2000) = []" "\<forall>i. te_fork (demo_term [] 2000) i \<noteq> 0" by (simp_all add: demo_term_def demo_env_def)
  then show ?thesis
    using stops_in_reverse_order [OF demo_reachable(2), of "demo_term [] 2000" 1]
    by (simp add: demo_turn demo_stop_turn [OF demo_turn(1,2)] named_in_def del: One_nat_def)
qed

section \<open>Shutting down\<close>

text \<open>
  C5. A container that gets the termination signal ends: while no command arrives, the clock goes on
  and the kernel reaps what was killed with signal 9, some later turn is the last one, and the exit
  code is the one that the turn of the signal has set.
\<close>

theorem shutdown_always_ends:
  assumes "init_reachable s" "\<not> g_shutting_down s" "g_exited s = None" "pids_distinct (g_svc s)"
    and "te_sigterm (env 0)" "attended env s"
  shows "\<exists>k. g_exited (run_turns env (Suc k) s) = Some (g_exit_code (turn (env 0) s))"
  by (rule sigterm_ends [OF reachable_sup_inv [OF assms(1)] assms(2-6)])

text \<open>The signal, then in every further turn both processes are reaped.\<close>

definition demo_ending :: "nat \<Rightarrow> turn_env" where
  "demo_ending k = demo_term (if k = 0 then [] else [(7, 9), (8, 9)]) (1000 * int (Suc k))"

lemma run_steady:
  assumes "down_inv s" "\<forall>k. te_read (env k) = []" "g_exited s = None"
  shows "list_all2 steady (g_svc s) (g_svc (run_turns env k s))"
proof (induction k)
  case (Suc k)
  have "list_all2 steady (g_svc (run_turns env k s)) (g_svc (turn (env k) (run_turns env k s)))"
    using run_code [OF assms] assms(2) by (intro down_steady) simp_all
  then show ?case using Suc steady_list_trans by (simp add: Let_def)
qed (simp add: list_all2_refl steady_refl)

lemma demo_ending_env:
  "te_read (demo_ending k) = []" "te_now (demo_ending k) = 1000 * int (Suc k)" "te_sigterm (demo_ending k)"
  "te_wait (demo_ending k) = (if k = 0 then [] else [(7, 9), (8, 9)])" "demo_ending 0 = demo_term [] 1000"
  by (simp_all add: demo_ending_def demo_term_def demo_env_def)

lemma demo_ending_pids: "v \<in> set (g_svc (run_turns demo_ending k (turn demo_env demo_init))) \<Longrightarrow> sv_pid v \<in> {0, 7, 8}"
proof (cases k)
  case 0
  assume "v \<in> set (g_svc (run_turns demo_ending k (turn demo_env demo_init)))"
  then have "v \<in> set demo_running" using 0 by (simp add: demo_turn)
  then show ?thesis by (auto simp: in_set_conv_nth less_2_cases_iff)
next
  case (Suc l)
  let ?s = "turn demo_env demo_init" and ?t = "turn (demo_ending 0) (turn demo_env demo_init)"
  let ?vs = "g_svc (run_turns demo_ending k ?s)"
  assume "v \<in> set ?vs"
  then obtain i where i: "i < length ?vs" "v = ?vs ! i" by (auto simp: in_set_conv_nth)
  have "down_inv ?t" using sigterm_turn(1) [OF reachable_sup_inv [OF demo_reachable(2)] demo_turn(2)] demo_ending_env by blast
  moreover have t: "g_svc ?t = demo_stopping 1000" "g_exited ?t = None"
    using demo_stop_turn [OF demo_turn(1,2)] demo_turn(3) by (simp_all add: demo_ending_env)
  ultimately have "list_all2 steady (demo_stopping 1000) ?vs"
    using run_steady [of ?t "\<lambda>n. demo_ending (Suc n)" l] run_turns_shift [OF demo_turn(3), of demo_ending l] Suc
    by (simp add: demo_ending_env)
  from list_all2_nthD2 [OF this i(1)] list_all2_lengthD [OF this] i show ?thesis by (auto simp: steady_def less_2_cases_iff)
qed

lemma demo_attended: "attended demo_ending (turn demo_env demo_init)"
proof -
  have "\<exists>k. \<forall>l \<ge> k. t \<le> te_now (demo_ending l)" for t
    by (rule exI [of _ "nat t"]) (auto simp: demo_ending_env)
  moreover have "\<exists>m \<ge> k. \<exists>st. (sv_pid v, st) \<in> set (te_wait (demo_ending m)) \<and> ended st"
    if "v \<in> set (g_svc (run_turns demo_ending k (turn demo_env demo_init)))" "0 < sv_pid v" for k v
    using demo_ending_pids [OF that(1)] that(2) by (intro exI [of _ "Suc k"] exI [of _ 9] conjI) (auto simp: demo_ending_env ended_def)
  ultimately show ?thesis unfolding attended_def by (auto simp: demo_ending_env)
qed

theorem shutdown_always_ends_witness:
  "\<exists>k. g_exited (run_turns demo_ending (Suc k) (turn demo_env demo_init)) = Some (g_exit_code (turn (demo_ending 0) (turn demo_env demo_init)))"
proof -
  have "pids_distinct demo_running" by (auto simp: pids_distinct_def less_2_cases_iff)
  then show ?thesis
    by (intro shutdown_always_ends [OF demo_reachable(2) demo_turn(2,3) _ demo_ending_env(3) demo_attended]) (simp only: demo_turn(1))
qed

text \<open>
  C11. A start command that arrives during a shutdown, for a service that has no process and is after
  none, keeps the container from ending: the service waits to start, nothing starts it during a
  shutdown, and the loop goes on as long as no further command arrives.
\<close>

theorem start_during_shutdown_hangs:
  assumes "init_reachable s" "g_shutting_down s" "g_exited s = None" "cm_magic c = CIXINIT_MAGIC" "cm_op c = CIXINIT_OP_START"
    and "cm_service c = int i" "i < length (g_svc s)" "sv_pid (g_svc s ! i) \<le> 0" "sv_state (g_svc s ! i) \<noteq> ST_PENDING"
    and "ci_after_mask (sv_def (g_svc s ! i)) = 0" "\<forall>k. te_read (env k) = []"
  shows "g_exited (run_turns env k (handle_command c now s)) = None"
  using stuck_run [OF start_sticks [OF reachable_sup_inv [OF assms(1)] assms(2-10)] assms(11)] by (simp add: stuck_def)

text \<open>\<open>db\<close> dies in the turn of the signal: \<open>web\<close> is still stopping when \<open>db\<close> is started.\<close>

lemma demo_crash:
  assumes "g_svc s = demo_running" "\<not> g_shutting_down s" "g_exited s = None"
  shows "map sv_pid (g_svc (turn (demo_term [(7, 9)] now) s)) = [0, 8]" "g_exited (turn (demo_term [(7, 9)] now) s) = None"
proof -
  let ?env = "demo_term [(7, 9)] now"
  define m where "m = begin_shutdown 0 (service_exited 0 CIXINIT_EXIT_KIND_KILLED 9 now s)"
  have l: "g_svc s = [demo_running ! 0, demo_running ! 1]" by (simp add: assms(1) demo_running_def demo_init_def)
  have e: "take_events ?env s = m"
    by (simp add: take_events_def demo_term_def demo_env_def m_def reap_one_def l EINTR_def Let_def)
  define r where "r = exit_recorded 0 CIXINIT_EXIT_KIND_KILLED 9 s"
  have r: "g_svc r = [gone (demo_running ! 0) CIXINIT_EXIT_KIND_KILLED 9, demo_running ! 1]" "\<not> g_shutting_down r"
    using exit_recorded_frame [of 0 s CIXINIT_EXIT_KIND_KILLED 9] l assms(2) by (simp_all add: r_def)
  have d: "ci_type (sv_def (demo_running ! 0)) = CIXINIT_TYPE_DAEMON" "ci_on_exit (sv_def (demo_running ! 0)) = CIXINIT_ON_EXIT_RESTART"
    "\<not> sv_operator_stopped (gone (demo_running ! 0) CIXINIT_EXIT_KIND_KILLED 9)" "\<not> sv_restart_after_stop (gone (demo_running ! 0) CIXINIT_EXIT_KIND_KILLED 9)"
    by (simp_all add: demo_running_def demo_init_def fresh_svc_def demo_service_def gone_def)
  have "map sv_pid (g_svc (service_exited 0 CIXINIT_EXIT_KIND_KILLED 9 now s)) = [0, 8]"
    unfolding service_exited_def Let_def by (simp add: r d cixinit_codes flip: r_def)
  then have p: "map sv_pid (g_svc m) = [0, 8]" unfolding m_def by (simp add: comp_def)
  have q: "map sv_pid (g_svc (shutdown_step now m)) = map sv_pid (g_svc m)"
    using sim_length [OF sim_shutdown_step] stop_pids [of "rev [0..<length (g_svc m)]" m]
    by (intro nth_equalityI) (simp_all add: shutdown_step_def)
  then have "0 < sv_pid (g_svc (shutdown_step now m) ! 1) \<and> 1 < length (g_svc (shutdown_step now m))"
    using p by (metis length_Cons length_map lessI list.size(3) nth_Cons_0 nth_Cons_Suc nth_map One_nat_def zero_less_numeral)
  then have "anything_left (g_svc (shutdown_step now m))" by (auto simp: anything_left_def list_ex_iff Let_def intro!: bexI [of _ 1])
  then have t: "turn ?env s = report_flush (te_write ?env) (shutdown_step now m)"
    using sim_down [OF sim_shutdown_step] by (simp add: turn_def e Let_def) (simp add: m_def demo_term_def)
  show "map sv_pid (g_svc (turn ?env s)) = [0, 8]" "g_exited (turn ?env s) = None"
    unfolding t using p q assms(3) by (simp_all add: exited_frame m_def service_exited_frame)
qed

theorem start_during_shutdown_hangs_witness:
  "\<exists>s c. init_reachable s \<and> g_shutting_down s \<and> cm_op c = CIXINIT_OP_START \<and> (\<forall>k. g_exited (run_turns (\<lambda>n. demo_env) k (handle_command c 3000 s)) = None)"
proof -
  let ?r = "turn demo_env demo_init" and ?env = "demo_term [(7, 9)] 2000"
  let ?s = "turn ?env ?r"
  let ?c = "\<lparr>cm_magic = CIXINIT_MAGIC, cm_op = CIXINIT_OP_START, cm_service = 0\<rparr>"
  have d: "down_inv ?s" "list_all2 steady demo_running (g_svc ?s)"
    using sigterm_turn [OF reachable_sup_inv [OF demo_reachable(2)] demo_turn(2), of ?env] demo_turn(1) by (simp_all add: demo_term_def demo_env_def)
  note p = demo_crash [OF demo_turn(1,2,3), of 2000]
  have l: "0 < length (g_svc ?s)" using list_all2_lengthD [OF d(2)] by simp
  have "sv_pid (g_svc ?s ! 0) = 0" using p(1) l by (metis nth_Cons_0 nth_map)
  moreover have "sv_state (g_svc ?s ! 0) \<noteq> ST_PENDING" using d(1) nth_mem [OF l] by (auto simp: down_inv_def parked_def view_def)
  moreover have "ci_after_mask (sv_def (g_svc ?s ! 0)) = 0" using list_all2_nthD [OF d(2), of 0] by (simp add: steady_def)
  moreover have r: "init_reachable ?s" by (rule next_turn [OF demo_reachable(2) demo_turn(3)]) (simp add: demo_term_def demo_env_def)
  moreover have s: "g_shutting_down ?s" using d(1) by (simp add: down_inv_def)
  ultimately have "g_exited (run_turns (\<lambda>n. demo_env) k (handle_command ?c 3000 ?s)) = None" for k
    using l p(2) by (intro start_during_shutdown_hangs [where i = 0]) (simp_all add: demo_env_def)
  with r s show ?thesis by (intro exI [of _ ?s] exI [of _ ?c]) simp
qed

section \<open>Reports and the daemon's picture\<close>

text \<open>
  The reports that have been written and those that wait are the reports made, in order, and
  nothing is lost while at most 256 wait; when more wait, the oldest are dropped, and counted.
\<close>

theorem report_ring_keeps_newest:
  assumes "ring_inv s"
  shows "all_reports (report_flush ns (fold push_report rs s)) =
      delivered s @ drop (length (ring_items s) + length rs - PENDING_MAX) (ring_items s @ rs) \<and>
    g_pending_dropped (report_flush ns (fold push_report rs s)) = g_pending_dropped s + (length (ring_items s) + length rs - PENDING_MAX)"
proof -
  have "delivered (fold push_report rs s) = delivered s"
    by (induction rs arbitrary: s) (simp_all add: push_report_def delivered_def)
  then show ?thesis using ring.push_all [OF assms, of rs] flush_keeps [of "fold push_report rs s" ns]
    by (simp add: all_reports_def)
qed

theorem report_ring_keeps_newest_witness:
  "g_pending_dropped (report_flush [SIZEOF_RECORD] (fold push_report (replicate 300 blank_report) demo_init)) = 45"
proof -
  have "ring_inv demo_init" "g_pending_dropped demo_init = 0" "g_pending_count demo_init = 1"
    by (simp_all add: ring_inv_def demo_init_def report_def Let_def PENDING_MAX_def)
  then show ?thesis using report_ring_keeps_newest [of demo_init "[SIZEOF_RECORD]" "replicate 300 blank_report"]
    by (simp add: PENDING_MAX_def)
qed

text \<open>
  C6. What the registry holds after the reports of the first process, written and waiting, is a
  picture of the services: the same process ids, \<open>running\<close> exactly where a process is ready and
  \<open>starting\<close> exactly where one is starting, the exit that was last reported, and, until a shutdown,
  the states of the services without a process.  It holds after any number of turns in which no
  report was dropped.
\<close>

theorem registry_mirrors_services:
  assumes "cix_main args ms = Some s0" "map sv_def (g_svc s0) = ct_svc t" "\<forall>k i. te_fork (env k) i \<noteq> 0"
    and "g_pending_dropped (run_turns env n s0) = 0"
  shows "list_all2 (mirrors (g_shutting_down (run_turns env n s0))) (g_svc (run_turns env n s0))
    (re_services (apply_reports (all_reports (run_turns env n s0)) (registry_set_services t fds cfd rfd e)))"
  using in_step_run [OF in_step_start [OF assms(1) set_services_fresh [OF assms(2)]] assms(3)] assms(4) by (simp add: in_step_def)

definition demo_table :: cixinit_table where
  "demo_table = \<lparr>ct_hello = \<lparr>he_magic = CIXINIT_MAGIC, he_version = CIXINIT_VERSION, he_service_count = 2, he_addr_be = [], he_iface = []\<rparr>,
     ct_svc = [demo_service ''db'' ''/bin/db'' 0, demo_service ''web'' ''/bin/web'' 1], ct_order = [1, 0]\<rparr>"

definition demo_entry :: registry_init where
  "demo_entry = registry_set_services demo_table None 3 4
     \<lparr>re_services = [], re_init_control_fd = - 1, re_init_report_fd = - 1, re_init_up = False, re_ready = False\<rparr>"

lemma demo_defs: "map sv_def (g_svc demo_init) = ct_svc demo_table"
  by (simp add: demo_init_def demo_table_def fresh_svc_def)

theorem registry_mirrors_services_witness:
  "list_all2 (mirrors False) demo_running (re_services (apply_reports (all_reports (turn demo_env demo_init)) demo_entry))"
proof -
  have "run_turns (\<lambda>k. demo_env) 1 demo_init = turn demo_env demo_init" by (simp add: demo_init_def)
  then show ?thesis using registry_mirrors_services [OF demo_main demo_defs, of "\<lambda>k. demo_env" 1] demo_fork
    by (simp add: demo_turn demo_entry_def)
qed

lemma ready_iff: "re_ready e = derive_ready e \<Longrightarrow> re_ready (apply_reports rs e) = derive_ready (apply_reports rs e)"
proof (induction rs rule: rev_induct)
  case (snoc r rs)
  have "apply_reports (rs @ [r]) e = fst (registry_apply_init_report r (apply_reports rs e))" by (simp add: apply_reports_def)
  then show ?case using snoc by (simp add: registry_apply_init_report_def Let_def derive_ready_def)
qed (simp add: apply_reports_def)

text \<open>
  C7. When the registry says that a container is ready, and no shutdown is under way, every service
  has a process that is ready, or has ended the way its declaration allows (a oneshot with status 0,
  a daemon that is not to be restarted), or was stopped by an operator or is about to be started
  again by one.
\<close>

theorem ready_container_is_ready:
  assumes "cix_main args ms = Some s0" "map sv_def (g_svc s0) = ct_svc t" "\<forall>k i. te_fork (env k) i \<noteq> 0"
    and "s = run_turns env n s0" "g_pending_dropped s = 0" "\<not> g_shutting_down s"
    and "re_ready (apply_reports (all_reports s) (registry_set_services t fds cfd rfd e))" "v \<in> set (g_svc s)"
  shows "sv_state v = ST_READY \<and> 0 < sv_pid v \<or>
    sv_state v = ST_EXITED \<and> sv_pid v = 0 \<and>
      (if one_shot v then exit_clean (sv_exit_kind v) (sv_exit_value v) else ci_on_exit (sv_def v) = CIXINIT_ON_EXIT_STOP) \<or>
    (sv_state v = ST_STOPPED \<or> sv_state v = ST_PENDING) \<and> sv_pid v = 0"
proof -
  let ?init = "registry_set_services t fds cfd rfd e"
  let ?e = "apply_reports (all_reports s) ?init"
  have st: "in_step s ?init" unfolding assms(4) by (rule in_step_run [OF in_step_start [OF assms(1) set_services_fresh [OF assms(2)]] assms(3)])
  then have m: "list_all2 (mirrors False) (g_svc s) (re_services ?e)" and inv: "sup_inv (view s)"
    using assms(5,6) by (simp_all add: in_step_def)
  obtain i where i: "i < length (g_svc s)" "v = g_svc s ! i" using assms(8) by (auto simp: in_set_conv_nth)
  define r where "r = re_services ?e ! i"
  have mr: "mirrors False v r" using list_all2_nthD [OF m i(1)] by (simp add: i(2) r_def)
  have "derive_ready ?e" by (rule ready_derived [OF assms(7)]) (simp add: registry_set_services_def)
  moreover have "r \<in> set (re_services ?e)" using i(1) list_all2_lengthD [OF m] by (simp add: r_def)
  ultimately have c: "service_counts r" by (auto simp: derive_ready_def list_all_iff split: if_split_asm)
  have vi: "svc_inv False v" using inv assms(6,8) by (simp add: sup_inv_def view_def)
  show ?thesis using c mr vi
    by (cases "sv_state v") (auto simp: service_counts_def mirrors_def svc_inv_def one_shot_def exit_clean_def registry_states split: if_split_asm)
qed

lemma apply_reports_up:
  "re_init_up (apply_reports rs e) \<longleftrightarrow> re_init_up e \<or> (\<exists>r \<in> set rs. rp_service r = - 1 \<and> rp_event r = CIXINIT_EV_UP)"
proof (induction rs arbitrary: e)
  case (Cons r rs)
  have "re_init_up (fst (registry_apply_init_report r e)) \<longleftrightarrow> re_init_up e \<or> rp_service r = - 1 \<and> rp_event r = CIXINIT_EV_UP"
    by (simp add: registry_apply_init_report_def Let_def)
  then show ?case using Cons.IH by (auto simp: apply_reports_def)
qed (simp add: apply_reports_def)

lemma demo_ready: "re_ready (apply_reports (all_reports (turn demo_env demo_init)) demo_entry)"
proof -
  let ?s = "turn demo_env demo_init"
  let ?e = "apply_reports (all_reports ?s) demo_entry"
  have "in_step demo_init demo_entry" unfolding demo_entry_def by (rule in_step_start [OF demo_main set_services_fresh [OF demo_defs]])
  from in_step_turn [OF this demo_fork] have m: "list_all2 (mirrors False) demo_running (re_services ?e)"
    by (simp add: in_step_def demo_turn)
  have v: "sv_state v = ST_READY" "0 < sv_pid v" "ci_type (sv_def v) = CIXINIT_TYPE_DAEMON" if "v \<in> set demo_running" for v
    using that by (auto simp: demo_running_def demo_init_def fresh_svc_def demo_service_def)
  have "service_counts r" if "mirrors False v r" "v \<in> set demo_running" for v r
    using that(1) v [OF that(2)] by (simp add: mirrors_def service_counts_def registry_states cixinit_codes)
  then have c: "list_all service_counts (re_services ?e)" using m unfolding list_all_length list_all2_conv_all_nth by (metis nth_mem)
  obtain rs where "emitted demo_init ?s rs" using turn_refines [OF reachable_sup_inv [OF demo_reachable(1)] demo_fork] .
  moreover obtain n where "ring_inv demo_init"
    "all_reports demo_init = [\<lparr>rp_service = - 1, rp_event = CIXINIT_EV_UP, rp_a = CIXINIT_VERSION, rp_b = n\<rparr>]"
    using cix_main_pieces [OF demo_main] .
  ultimately have "re_init_up ?e" unfolding apply_reports_up by (simp add: emitted_def demo_turn)
  moreover have "re_services ?e \<noteq> []" using list_all2_lengthD [OF m] by auto
  moreover have "re_ready ?e = derive_ready ?e" by (rule ready_iff) (simp add: demo_entry_def registry_set_services_def derive_ready_def)
  ultimately show ?thesis using c by (simp add: derive_ready_def)
qed

theorem ready_container_is_ready_witness:
  "re_ready (apply_reports (all_reports (turn demo_env demo_init)) demo_entry) \<and> sv_state (demo_running ! 1) = ST_READY \<and> 0 < sv_pid (demo_running ! 1)"
proof -
  have r: "turn demo_env demo_init = run_turns (\<lambda>k. demo_env) 1 demo_init" by (simp add: demo_init_def)
  show ?thesis using ready_container_is_ready [OF demo_main demo_defs _ r demo_turn(4,2), of None 3 4 _ "demo_running ! 1"] demo_fork demo_ready
    by (auto simp: demo_turn demo_entry_def)
qed

end
