(* ===== verification/Api_Route.thy ===== *)
theory Api_Route
  imports Json_Parse
begin

text \<open>
  The route matcher of \<open>daemon/src/apiroute.c\<close>.  The table is generated at build time and is an
  argument; nothing is assumed of its rows but \<open>row_padded\<close>, that the unused entries of their \<open>segs\<close>
  arrays are \<open>NULL\<close>.  A pointer into the path is the text from there to the end of the path, which is
  cut at the query string.
\<close>

definition APIROUTE_MAX_SEGS :: nat where "APIROUTE_MAX_SEGS = 16"
definition APIROUTE_MAX_PARAMS :: nat where "APIROUTE_MAX_PARAMS = 2"
definition APIROUTE_PARAM_MAX :: nat where "APIROUTE_PARAM_MAX = 256"

text \<open>A row, less the handler's address; \<open>NULL\<close> segments, parameters, are \<open>None\<close>.\<close>

record api_route =
  ar_method :: string
  ar_n_segs :: nat
  ar_segs :: "string option list"
  ar_op_id :: string
  ar_rest_param :: bool
  ar_query_params :: "string list"
  ar_permission :: string

section \<open>Segments\<close>

text \<open>The loop of \<open>split_segments\<close> with \<open>n\<close> segments found: each with the text from its start.\<close>

function split_from :: "string \<Rightarrow> nat \<Rightarrow> (string \<times> string) list option" where
  "split_from [] n = Some []"
| "split_from (c # p) n =
     (let seg = takeWhile (\<lambda>c. c \<noteq> CHR ''/'') p; rest = dropWhile (\<lambda>c. c \<noteq> CHR ''/'') p in
      if seg = [] then None
      else if APIROUTE_PARAM_MAX \<le> length seg then None
      else if APIROUTE_MAX_SEGS \<le> n then None
      else map_option ((#) (seg, p)) (split_from rest (Suc n)))"
  by pat_completeness auto
termination
  by (relation "measure (\<lambda>(p, n). length p)") (auto simp: length_dropWhile_le less_Suc_eq_le)

definition split_segments :: "string \<Rightarrow> (string \<times> string) list option" where
  "split_segments path = (if path = [] \<or> hd path \<noteq> CHR ''/'' then None else split_from path 0)"

text \<open>\<open>strcspn(path, "?")\<close> bytes of the path.\<close>

definition before_query :: "string \<Rightarrow> string" where
  "before_query path = takeWhile (\<lambda>c. c \<noteq> CHR ''?'') path"

section \<open>Rows\<close>

definition is_lit :: "api_route \<Rightarrow> nat \<Rightarrow> bool" where
  "is_lit r i = (ar_segs r ! i \<noteq> None)"

definition route_beats :: "api_route \<Rightarrow> api_route \<Rightarrow> bool" where
  "route_beats a b =
     (case find (\<lambda>i. is_lit a i \<noteq> is_lit b i) [0..<ar_n_segs a] of None \<Rightarrow> False | Some i \<Rightarrow> is_lit a i)"

text \<open>The body of the loop over the rows, up to the comparison with the best one.\<close>

definition route_matches :: "api_route \<Rightarrow> string \<Rightarrow> string list \<Rightarrow> bool" where
  "route_matches r meth segs =
     (ar_method r = meth \<and>
      \<not> (if ar_rest_param r then length segs < ar_n_segs r else length segs \<noteq> ar_n_segs r) \<and>
      list_all (\<lambda>s. case ar_segs r ! s of None \<Rightarrow> True | Some lit \<Rightarrow> lit = segs ! s)
        [0..<(if ar_rest_param r then ar_n_segs r - 1 else length segs)])"

fun best_from :: "api_route list \<Rightarrow> string \<Rightarrow> string list \<Rightarrow> nat list \<Rightarrow> nat option \<Rightarrow> nat option" where
  "best_from routes meth segs [] best = best"
| "best_from routes meth segs (i # is) best =
     (if \<not> route_matches (routes ! i) meth segs then best_from routes meth segs is best
      else if best = None \<or> route_beats (routes ! i) (routes ! the best) then best_from routes meth segs is (Some i)
      else best_from routes meth segs is best)"

section \<open>Parameters\<close>

definition isxdigit :: "char \<Rightarrow> bool" where
  "isxdigit c = (hex_digit c \<noteq> None)"

text \<open>\<open>strtol\<close> of two hexadecimal digits.\<close>

definition hex2 :: "char \<Rightarrow> char \<Rightarrow> nat" where
  "hex2 a b = 16 * the (hex_digit a) + the (hex_digit b)"

text \<open>
  The write position never passes the read position, so what is read ahead is the text as it came.
\<close>

fun decode_path_param :: "string \<Rightarrow> string option" where
  "decode_path_param [] = Some []"
| "decode_path_param (c # a # b # s) =
     (if c = CHR ''%'' \<and> isxdigit a \<and> isxdigit b then
        (if hex2 a b = 47 \<or> hex2 a b = 0 then None else map_option ((#) (char_of (hex2 a b))) (decode_path_param s))
      else map_option ((#) c) (decode_path_param (a # b # s)))"
| "decode_path_param (c # s) = map_option ((#) c) (decode_path_param s)"

text \<open>The loop that fills \<open>params\<close> from the segments of the row, with those filled so far.\<close>

fun fill_params :: "api_route \<Rightarrow> string list \<Rightarrow> nat list \<Rightarrow> string list \<Rightarrow> string list option" where
  "fill_params r segs [] ps = Some ps"
| "fill_params r segs (s # ss) ps =
     (if APIROUTE_MAX_PARAMS \<le> length ps then Some ps
      else case ar_segs r ! s of
        Some _ \<Rightarrow> fill_params r segs ss ps
      | None \<Rightarrow> (case decode_path_param (segs ! s) of None \<Rightarrow> None | Some p \<Rightarrow> fill_params r segs ss (ps @ [p])))"

definition extract_params :: "api_route \<Rightarrow> (string \<times> string) list \<Rightarrow> string list option" where
  "extract_params r segs = do {
     ps \<leftarrow> fill_params r (map fst segs) [0..<(if ar_rest_param r then ar_n_segs r - 1 else ar_n_segs r)] [];
     ps \<leftarrow> (if ar_rest_param r \<and> length ps < APIROUTE_MAX_PARAMS then
              let rest = snd (segs ! (ar_n_segs r - 1)) in
              if APIROUTE_PARAM_MAX \<le> length rest then None else Some (ps @ [rest])
            else Some ps);
     Some (ps @ replicate (APIROUTE_MAX_PARAMS - length ps) []) }"

definition api_route_match :: "api_route list \<Rightarrow> string \<Rightarrow> string \<Rightarrow> (nat \<times> string list) option" where
  "api_route_match routes meth path =
     (case split_segments (before_query path) of
        None \<Rightarrow> None
      | Some segs \<Rightarrow>
          (case best_from routes meth (map fst segs) [0..<length routes] None of
             None \<Rightarrow> None
           | Some best \<Rightarrow> map_option (Pair best) (extract_params (routes ! best) segs)))"

section \<open>The query string\<close>

definition after_amp :: "string \<Rightarrow> string" where
  "after_amp q = tl (dropWhile (\<lambda>c. c \<noteq> CHR ''&'') q)"

lemma length_after_amp: "q \<noteq> [] \<Longrightarrow> length (after_amp q) < length q"
  using length_dropWhile_le [of "\<lambda>c. c \<noteq> CHR ''&''" q] by (cases q) (auto simp: after_amp_def)

definition pair_text :: "string \<Rightarrow> string" where
  "pair_text q = takeWhile (\<lambda>c. c \<noteq> CHR ''&'') q"

text \<open>The first undeclared parameter after \<open>?\<close>, if there is one.\<close>

function unknown_from :: "string list \<Rightarrow> string \<Rightarrow> string option" where
  "unknown_from declared q =
     (if q = [] then None
      else let key = takeWhile (\<lambda>c. c \<noteq> CHR ''='') (pair_text q) in
        if key = [] \<or> key \<in> set declared then unknown_from declared (after_amp q) else Some key)"
  by pat_completeness auto
termination
  by (relation "measure (\<lambda>(d, q). length q)") (auto intro: length_after_amp)

declare unknown_from.simps [simp del]

definition query_of :: "string \<Rightarrow> string option" where
  "query_of path = (case dropWhile (\<lambda>c. c \<noteq> CHR ''?'') path of [] \<Rightarrow> None | _ # q \<Rightarrow> Some q)"

text \<open>\<open>None\<close> is 0; otherwise -1 and what is left in \<open>out\<close>.\<close>

definition api_route_query_unknown :: "api_route \<Rightarrow> string \<Rightarrow> nat \<Rightarrow> string option" where
  "api_route_query_unknown r path out_size =
     (case query_of path of None \<Rightarrow> None
      | Some q \<Rightarrow> map_option (\<lambda>key. snprintf_s out_size key) (unknown_from (ar_query_params r) q))"

text \<open>The bytes of a value, \<open>oi\<close> of them written; a value that does not fit is refused.\<close>

fun query_value :: "nat \<Rightarrow> string \<Rightarrow> string \<Rightarrow> string option" where
  "query_value out_size [] out = Some out"
| "query_value out_size (c # a # b # v) out =
     (if out_size \<le> length out + 1 then None
      else if c = CHR ''%'' \<and> isxdigit a \<and> isxdigit b then query_value out_size v (out @ [char_of (hex2 a b)])
      else query_value out_size (a # b # v) (out @ [c]))"
| "query_value out_size (c # v) out =
     (if out_size \<le> length out + 1 then None else query_value out_size v (out @ [c]))"

function param_from :: "string \<Rightarrow> nat \<Rightarrow> string \<Rightarrow> string option" where
  "param_from key out_size q =
     (if q = [] then None
      else let pair = pair_text q in
        if length key < length pair \<and> pair ! length key = CHR ''='' \<and> take (length key) pair = key
        then query_value out_size (drop (length key + 1) pair) []
        else param_from key out_size (after_amp q))"
  by pat_completeness auto
termination
  by (relation "measure (\<lambda>(k, n, q). length q)") (auto intro: length_after_amp)

declare param_from.simps [simp del]

text \<open>The bytes written to \<open>out\<close> before its terminating NUL.\<close>

definition url_query_param :: "string \<Rightarrow> string \<Rightarrow> nat \<Rightarrow> string option" where
  "url_query_param full_path key out_size =
     (case query_of full_path of None \<Rightarrow> None | Some q \<Rightarrow> param_from key out_size q)"

section \<open>The best row\<close>

text \<open>
  A row as C holds it: \<open>n_segs\<close> fits the array \<open>segs\<close>, and the entries past it, which no initialiser
  names, are \<open>NULL\<close>.  Nothing more is asked of a table: rows may repeat, and the table may hold both
  \<open>/v1/containers\<close> and \<open>/v1/containers/{name}\<close>.
\<close>

definition row_padded :: "api_route \<Rightarrow> bool" where
  "row_padded r = (length (ar_segs r) = APIROUTE_MAX_SEGS \<and> ar_n_segs r \<le> APIROUTE_MAX_SEGS \<and>
     list_all (\<lambda>s. s = None) (drop (ar_n_segs r) (ar_segs r)))"

text \<open>At the leftmost segment where the kinds differ, \<open>a\<close> has the literal.\<close>

definition more_literal :: "api_route \<Rightarrow> api_route \<Rightarrow> bool" where
  "more_literal a b = (\<exists>k < APIROUTE_MAX_SEGS. is_lit a k \<and> \<not> is_lit b k \<and> (\<forall>j < k. is_lit a j = is_lit b j))"

text \<open>No segment differs in kind.\<close>

definition same_kinds :: "api_route \<Rightarrow> api_route \<Rightarrow> bool" where
  "same_kinds a b = (\<forall>k < APIROUTE_MAX_SEGS. is_lit a k = is_lit b k)"

lemma row_padded_lit: "row_padded r \<Longrightarrow> k < APIROUTE_MAX_SEGS \<Longrightarrow> is_lit r k \<Longrightarrow> k < ar_n_segs r"
proof (rule ccontr)
  assume r: "row_padded r" "k < APIROUTE_MAX_SEGS" "is_lit r k" and "\<not> k < ar_n_segs r"
  then have "ar_segs r ! k = drop (ar_n_segs r) (ar_segs r) ! (k - ar_n_segs r)"
    "k - ar_n_segs r < length (drop (ar_n_segs r) (ar_segs r))"
    by (auto simp: row_padded_def)
  with r show False by (simp add: row_padded_def is_lit_def list_all_length)
qed

lemma route_beats_iff:
  assumes "row_padded a"
  shows "route_beats a b \<longleftrightarrow> more_literal a b"
proof (cases "find (\<lambda>i. is_lit a i \<noteq> is_lit b i) [0..<ar_n_segs a]")
  case None
  then have "is_lit a i = is_lit b i" if "i < ar_n_segs a" for i using that by (auto simp: find_None_iff)
  then have "\<not> more_literal a b" using row_padded_lit [OF assms] unfolding more_literal_def by blast
  then show ?thesis using None by (simp add: route_beats_def)
next
  case (Some i)
  then have i: "i < ar_n_segs a" "is_lit a i \<noteq> is_lit b i" "\<forall>j < i. is_lit a j = is_lit b j"
    by (auto simp: find_Some_iff)
  then have "i < APIROUTE_MAX_SEGS" using assms by (simp add: row_padded_def)
  with i have "more_literal a b \<longleftrightarrow> is_lit a i" unfolding more_literal_def by (metis linorder_neqE_nat)
  then show ?thesis using Some by (simp add: route_beats_def)
qed

lemma more_literal_asym: "more_literal a b \<Longrightarrow> \<not> more_literal b a"
  unfolding more_literal_def by (metis linorder_neqE_nat)

lemma more_literal_trans: "more_literal a b \<Longrightarrow> more_literal b c \<Longrightarrow> more_literal a c"
proof -
  assume "more_literal a b" "more_literal b c"
  then obtain k l where k: "k < APIROUTE_MAX_SEGS" "is_lit a k" "\<not> is_lit b k" "\<forall>j < k. is_lit a j = is_lit b j"
    and l: "l < APIROUTE_MAX_SEGS" "is_lit b l" "\<not> is_lit c l" "\<forall>j < l. is_lit b j = is_lit c j"
    unfolding more_literal_def by blast
  then show ?thesis unfolding more_literal_def
    by (intro exI [of _ "min k l"]) (cases k l rule: linorder_cases; auto simp: min_def)
qed

lemma more_literal_same:
  "same_kinds a b \<Longrightarrow> more_literal b c \<Longrightarrow> more_literal a c"
  "more_literal a b \<Longrightarrow> same_kinds b c \<Longrightarrow> more_literal a c"
  "same_kinds a b \<Longrightarrow> \<not> more_literal b a"
  by (auto simp: same_kinds_def more_literal_def)

lemma same_kinds_trans: "same_kinds a b \<Longrightarrow> same_kinds b c \<Longrightarrow> same_kinds a c"
  by (simp add: same_kinds_def)

lemma more_literal_cases: "more_literal a b \<or> same_kinds a b \<or> more_literal b a"
proof (cases "same_kinds a b")
  case False
  then obtain k' where k': "k' < APIROUTE_MAX_SEGS" "is_lit a k' \<noteq> is_lit b k'" by (auto simp: same_kinds_def)
  define k where "k = (LEAST k. is_lit a k \<noteq> is_lit b k)"
  have "is_lit a k \<noteq> is_lit b k" unfolding k_def by (rule LeastI [of _ k']) (rule k'(2))
  moreover have "k < APIROUTE_MAX_SEGS" unfolding k_def using Least_le [of "\<lambda>k. is_lit a k \<noteq> is_lit b k" k'] k' by linarith
  moreover have "is_lit a j = is_lit b j" if "j < k" for j using not_less_Least that unfolding k_def by blast
  ultimately show ?thesis unfolding more_literal_def by blast
qed simp

text \<open>The order in which matching rows are preferred: by their literals, then by their place in the table.\<close>

definition row_precedes :: "api_route list \<Rightarrow> nat \<Rightarrow> nat \<Rightarrow> bool" where
  "row_precedes routes i j =
     (more_literal (routes ! i) (routes ! j) \<or> same_kinds (routes ! i) (routes ! j) \<and> i \<le> j)"

lemma row_precedes_refl [simp]: "row_precedes routes i i"
  by (simp add: row_precedes_def same_kinds_def)

lemma row_precedes_trans: "row_precedes routes i j \<Longrightarrow> row_precedes routes j k \<Longrightarrow> row_precedes routes i k"
  unfolding row_precedes_def by (auto intro: more_literal_trans more_literal_same(1,2) same_kinds_trans)

lemma row_precedes_antisym: "row_precedes routes i j \<Longrightarrow> row_precedes routes j i \<Longrightarrow> i = j"
  unfolding row_precedes_def using more_literal_asym more_literal_same(3) le_antisym by metis

text \<open>The loop over the rows leaves the first of the matching ones in this order.\<close>

lemma best_from_spec:
  fixes routes :: "api_route list" and meth :: string and segs :: "string list"
  defines "M \<equiv> \<lambda>i. route_matches (routes ! i) meth segs"
  assumes ok: "list_all row_padded routes"
    and "\<forall>i \<in> set is. i < length routes" "sorted is" "\<And>b. best = Some b \<Longrightarrow> M b \<and> (\<forall>i \<in> set is. b \<le> i)"
  shows "case best_from routes meth segs is best of
      None \<Rightarrow> best = None \<and> (\<forall>i \<in> set is. \<not> M i)
    | Some r \<Rightarrow> M r \<and> (r \<in> set is \<or> best = Some r) \<and> (\<forall>i. i \<in> set is \<and> M i \<or> best = Some i \<longrightarrow> row_precedes routes r i)"
  using assms(3-5)
proof (induction "is" arbitrary: best)
  case Nil
  then show ?case by (auto split: option.split)
next
  case (Cons i "is")
  have rest: "\<forall>i \<in> set is. i < length routes" "sorted is" using Cons.prems by simp_all
  show ?case
  proof (cases "M i")
    case False
    then have "best_from routes meth segs (i # is) best = best_from routes meth segs is best" by (simp add: M_def)
    moreover have "M b \<and> (\<forall>i \<in> set is. b \<le> i)" if "best = Some b" for b using Cons.prems(3) [OF that] by simp
    note Cons.IH [of best, OF rest this]
    ultimately show ?thesis using False by (cases "best_from routes meth segs is best") auto
  next
    case True
    define next_best where "next_best = (if best = None \<or> route_beats (routes ! i) (routes ! the best) then i else the best)"
    have e: "best_from routes meth segs (i # is) best = best_from routes meth segs is (Some next_best)"
      using True by (cases best) (simp_all add: M_def next_best_def)
    have "row_padded (routes ! i)" using ok Cons.prems(1) by (simp add: list_all_length)
    note beats = route_beats_iff [OF this]
    have b: "M next_best" "\<forall>j \<in> set is. next_best \<le> j" "next_best = i \<or> best = Some next_best"
      using True Cons.prems(2) Cons.prems(3) by (auto simp: next_best_def)
    have p: "row_precedes routes next_best i" "\<And>d. best = Some d \<Longrightarrow> row_precedes routes next_best d"
      using more_literal_cases beats Cons.prems(3) by (auto simp: next_best_def row_precedes_def same_kinds_def)
    have "M d \<and> (\<forall>i \<in> set is. d \<le> i)" if "Some next_best = Some d" for d using that b by simp
    note Cons.IH [of "Some next_best", OF rest this]
    then obtain r where r: "best_from routes meth segs is (Some next_best) = Some r" "M r" "r \<in> set is \<or> r = next_best"
      "row_precedes routes r next_best" "\<And>j. j \<in> set is \<Longrightarrow> M j \<Longrightarrow> row_precedes routes r j"
      by (auto split: option.split_asm)
    have "row_precedes routes r j" if "j \<in> set (i # is) \<and> M j \<or> best = Some j" for j
      using that r(4,5) p row_precedes_trans by (metis set_ConsD)
    then show ?thesis using e r(1-3) b(3) by auto
  qed
qed

lemma best_from_Some:
  assumes "list_all row_padded routes"
  shows "best_from routes meth segs [0..<length routes] None = Some i \<longleftrightarrow>
    i < length routes \<and> route_matches (routes ! i) meth segs \<and>
    (\<forall>j < length routes. route_matches (routes ! j) meth segs \<longrightarrow> row_precedes routes i j)"
proof -
  note spec = best_from_spec [OF assms, of "[0..<length routes]" None meth segs, simplified]
  show ?thesis
  proof (cases "best_from routes meth segs [0..<length routes] None")
    case None
    with spec show ?thesis by auto
  next
    case (Some r)
    with spec have "r < length routes" "route_matches (routes ! r) meth segs"
      "\<And>j. j < length routes \<Longrightarrow> route_matches (routes ! j) meth segs \<Longrightarrow> row_precedes routes r j" by auto
    with Some show ?thesis by (auto intro: row_precedes_antisym)
  qed
qed

lemma route_matches_lit:
  assumes "row_padded r" "route_matches r meth segs" "\<not> ar_rest_param r" "k < APIROUTE_MAX_SEGS" "is_lit r k"
  shows "ar_segs r ! k = Some (segs ! k)"
proof -
  have "k < length segs" using row_padded_lit [OF assms(1,4,5)] assms(2,3) by (simp add: route_matches_def)
  then have "case ar_segs r ! k of None \<Rightarrow> True | Some lit \<Rightarrow> lit = segs ! k"
    using assms(2,3) by (simp add: route_matches_def list_all_iff)
  then show ?thesis using assms(5) by (auto simp: is_lit_def)
qed

text \<open>Rows of one request that do not take the rest of the path tie only when they are the same row twice.\<close>

lemma same_kinds_same_row:
  assumes a: "row_padded a" "route_matches a meth segs" "\<not> ar_rest_param a"
    and b: "row_padded b" "route_matches b meth segs" "\<not> ar_rest_param b" and "same_kinds a b"
  shows "ar_n_segs a = ar_n_segs b \<and> ar_segs a = ar_segs b"
proof (intro conjI nth_equalityI)
  show "ar_n_segs a = ar_n_segs b" using a b by (simp add: route_matches_def)
  show "length (ar_segs a) = length (ar_segs b)" using a b by (simp add: row_padded_def)
  fix i
  assume "i < length (ar_segs a)"
  then have i: "i < APIROUTE_MAX_SEGS" using a(1) by (simp add: row_padded_def)
  show "ar_segs a ! i = ar_segs b ! i"
  proof (cases "is_lit a i")
    case True
    then show ?thesis using route_matches_lit [OF a i] route_matches_lit [OF b i] assms(7) i by (simp add: same_kinds_def)
  next
    case False
    then have "\<not> is_lit b i" using assms(7) i by (simp add: same_kinds_def)
    with False show ?thesis by (simp add: is_lit_def)
  qed
qed

text \<open>
  C26. Which row answers a request (\<open>api_route_match\<close>), for any table whose unused \<open>segs\<close> entries are
  \<open>NULL\<close>: row \<open>i\<close> with parameters \<open>ps\<close> is the answer exactly when the path splits into segments, row \<open>i\<close>
  matches the method and the segments, its parameters can be extracted as \<open>ps\<close>, and against every other
  matching row it has the literal at the leftmost segment where the two differ in kind or, where no
  segment differs in kind, comes first in the table.  The order of the table matters only there, and
  two matching rows that do not take the rest of the path agree in kind only when they have the same
  number of segments and the same segments.
\<close>

theorem route_best_match:
  assumes "list_all row_padded routes"
  shows "(api_route_match routes meth path = Some (i, ps) \<longleftrightarrow>
      (\<exists>segs. split_segments (before_query path) = Some segs \<and> i < length routes \<and>
        route_matches (routes ! i) meth (map fst segs) \<and> extract_params (routes ! i) segs = Some ps \<and>
        (\<forall>j < length routes. route_matches (routes ! j) meth (map fst segs) \<longrightarrow>
          more_literal (routes ! i) (routes ! j) \<or> same_kinds (routes ! i) (routes ! j) \<and> i \<le> j))) \<and>
    (\<forall>a \<in> set routes. \<forall>b \<in> set routes. \<forall>segs. route_matches a meth segs \<and> route_matches b meth segs \<and>
      \<not> ar_rest_param a \<and> \<not> ar_rest_param b \<and> same_kinds a b \<longrightarrow>
      ar_n_segs a = ar_n_segs b \<and> ar_segs a = ar_segs b)"
proof (intro conjI ballI allI impI)
  have "api_route_match routes meth path = Some (i, ps) \<longleftrightarrow>
      (\<exists>segs. split_segments (before_query path) = Some segs \<and>
        best_from routes meth (map fst segs) [0..<length routes] None = Some i \<and> extract_params (routes ! i) segs = Some ps)"
    by (auto simp: api_route_match_def split: option.split)
  then show "api_route_match routes meth path = Some (i, ps) \<longleftrightarrow>
      (\<exists>segs. split_segments (before_query path) = Some segs \<and> i < length routes \<and>
        route_matches (routes ! i) meth (map fst segs) \<and> extract_params (routes ! i) segs = Some ps \<and>
        (\<forall>j < length routes. route_matches (routes ! j) meth (map fst segs) \<longrightarrow>
          more_literal (routes ! i) (routes ! j) \<or> same_kinds (routes ! i) (routes ! j) \<and> i \<le> j))"
    by (auto simp: best_from_Some [OF assms] row_precedes_def)
next
  fix a b segs
  assume "a \<in> set routes" "b \<in> set routes" and m: "route_matches a meth segs \<and> route_matches b meth segs \<and>
      \<not> ar_rest_param a \<and> \<not> ar_rest_param b \<and> same_kinds a b"
  then have "row_padded a" "row_padded b" using assms by (auto simp: list_all_iff)
  with m have "ar_n_segs a = ar_n_segs b \<and> ar_segs a = ar_segs b" using same_kinds_same_row by blast
  then show "ar_n_segs a = ar_n_segs b" "ar_segs a = ar_segs b" by simp_all
qed

section \<open>Percent-encoding\<close>

text \<open>\<open>pct_encodes s e\<close>: \<open>e\<close> is a percent-encoding of \<open>s\<close>, whichever bytes the client chose to escape.\<close>

inductive pct_encodes :: "string \<Rightarrow> string \<Rightarrow> bool" where
  pct_nil: "pct_encodes [] []"
| pct_plain: "pct_encodes s e \<Longrightarrow> c \<noteq> CHR ''%'' \<Longrightarrow> pct_encodes (c # s) (c # e)"
| pct_escape: "pct_encodes s e \<Longrightarrow> isxdigit a \<Longrightarrow> isxdigit b \<Longrightarrow> hex2 a b = of_char c \<Longrightarrow>
    pct_encodes (c # s) (CHR ''%'' # a # b # e)"

lemma decode_plain: "c \<noteq> CHR ''%'' \<Longrightarrow> decode_path_param (c # s) = map_option ((#) c) (decode_path_param s)"
  by (cases s rule: decode_path_param.cases) auto

lemma query_value_plain: "c \<noteq> CHR ''%'' \<Longrightarrow>
    query_value n (c # v) out = (if n \<le> length out + 1 then None else query_value n v (out @ [c]))"
  by (cases v rule: decode_path_param.cases) auto

lemma of_char_slash_iff: "of_char c = (47 :: nat) \<longleftrightarrow> c = CHR ''/''"
  using of_char_eq_iff [of c "CHR ''/''", where ?'a = nat] by simp

lemma of_char_nul_iff: "of_char c = (0 :: nat) \<longleftrightarrow> c = NUL"
  using of_char_eq_iff [of c NUL, where ?'a = nat] by (simp add: NUL_def)

lemma hex_digit_less: "hex_digit c = Some d \<Longrightarrow> d < 16"
  by (auto simp: hex_digit_def less_eq_char_def split: if_split_asm)

lemma hex2_less: "isxdigit a \<Longrightarrow> isxdigit b \<Longrightarrow> hex2 a b < 256"
  using hex_digit_less [of a] hex_digit_less [of b] by (fastforce simp: hex2_def isxdigit_def)

lemma char_of_hex2:
  assumes "isxdigit a" "isxdigit b"
  shows "char_of (hex2 a b) = CHR ''/'' \<longleftrightarrow> hex2 a b = 47" "char_of (hex2 a b) = NUL \<longleftrightarrow> hex2 a b = 0"
  using hex2_less [OF assms] by (simp_all flip: of_char_slash_iff of_char_nul_iff)

text \<open>
  C0. Path parameters do not depend on the client's choice of escapes (\<open>decode_path_param\<close>): every
  percent-encoding of a text without \<open>/\<close> and NUL decodes to that text, and an encoding of a text with
  either in it as an escape is refused.
\<close>

theorem path_param_decodes:
  assumes "pct_encodes s e" and "CHR ''/'' \<notin> set e" "NUL \<notin> set e"
  shows "decode_path_param e = (if CHR ''/'' \<in> set s \<or> NUL \<in> set s then None else Some s)"
  using assms
proof (induction rule: pct_encodes.induct)
  case (pct_escape s e a b c)
  then show ?case by (auto simp: of_char_slash_iff of_char_nul_iff)
qed (auto simp: decode_plain)

theorem path_param_decodes_witness:
  "decode_path_param ''cix%40x'' = Some ''cix@x'' \<and> decode_path_param ''cix%2fx'' = None"
proof -
  have p: "pct_encodes ''cix@x'' ''cix%40x''" "pct_encodes ''cix/x'' ''cix%2fx''"
    by (auto intro!: pct_encodes.intros simp: isxdigit_def hex_digit_def hex2_def less_eq_char_def)
  have "decode_path_param ''cix%40x'' = Some ''cix@x''" using path_param_decodes [OF p(1)] by (simp add: NUL_def del: decode_path_param.simps)
  moreover have "decode_path_param ''cix%2fx'' = None" using path_param_decodes [OF p(2)] by (simp add: NUL_def del: decode_path_param.simps)
  ultimately show ?thesis ..
qed

lemma decode_path_param_bytes:
  "decode_path_param e = Some s \<Longrightarrow> length s \<le> length e \<and> set s \<subseteq> set e \<union> {c. c \<noteq> CHR ''/'' \<and> c \<noteq> NUL}"
proof (induction e arbitrary: s rule: decode_path_param.induct)
  case (2 c a b e)
  show ?case
  proof (cases "c = CHR ''%'' \<and> isxdigit a \<and> isxdigit b")
    case True
    then obtain t where t: "hex2 a b \<noteq> 47" "hex2 a b \<noteq> 0" "decode_path_param e = Some t" "s = char_of (hex2 a b) # t"
      using "2.prems" by (auto split: if_split_asm)
    with "2.IH"(1) True char_of_hex2 [of a b] show ?thesis by fastforce
  next
    case False
    then obtain t where "decode_path_param (a # b # e) = Some t" "s = c # t"
      using "2.prems" by (auto split: if_split_asm)
    with "2.IH"(2) False show ?thesis by fastforce
  qed
qed fastforce+

section \<open>Parameters of a matched path\<close>

lemma split_from_segs:
  "split_from p n = Some segs \<Longrightarrow> (seg, rest) \<in> set segs \<Longrightarrow>
   length seg < APIROUTE_PARAM_MAX \<and> CHR ''/'' \<notin> set seg \<and> set seg \<subseteq> set p \<and> set rest \<subseteq> set p"
proof (induction p n arbitrary: segs rule: split_from.induct)
  case (2 c p n)
  then obtain tail where t: "takeWhile (\<lambda>c. c \<noteq> CHR ''/'') p \<noteq> []"
    "length (takeWhile (\<lambda>c. c \<noteq> CHR ''/'') p) < APIROUTE_PARAM_MAX" "n < APIROUTE_MAX_SEGS"
    "split_from (dropWhile (\<lambda>c. c \<noteq> CHR ''/'') p) (Suc n) = Some tail"
    "segs = (takeWhile (\<lambda>c. c \<noteq> CHR ''/'') p, p) # tail"
    by (auto simp: Let_def split: if_split_asm)
  consider "seg = takeWhile (\<lambda>c. c \<noteq> CHR ''/'') p" "rest = p" | "(seg, rest) \<in> set tail" using "2.prems" t(5) by auto
  then show ?case
  proof cases
    case 1
    then show ?thesis using t(2) by (auto dest: set_takeWhileD)
  next
    case 2
    then show ?thesis using "2.IH" [OF refl refl _ _ _ t(4)] t(1-3) by (fastforce dest: set_dropWhileD)
  qed
qed simp

lemma split_from_nonempty: "split_from (c # p) n = Some segs \<Longrightarrow> segs \<noteq> []"
  by (auto simp: Let_def split: if_split_asm)

lemma fill_params_Some:
  assumes "fill_params r segs ss ps = Some qs" "\<forall>s \<in> set ss. \<forall>p. decode_path_param (segs ! s) = Some p \<longrightarrow> P p"
    "\<forall>p \<in> set ps. P p" "length ps \<le> APIROUTE_MAX_PARAMS"
  shows "(\<forall>p \<in> set qs. P p) \<and> length qs \<le> APIROUTE_MAX_PARAMS"
  using assms
proof (induction ss arbitrary: ps)
  case (Cons s ss)
  show ?case
  proof (cases "APIROUTE_MAX_PARAMS \<le> length ps \<or> ar_segs r ! s \<noteq> None")
    case True
    then show ?thesis using Cons by (auto split: if_split_asm)
  next
    case False
    then obtain p where p: "decode_path_param (segs ! s) = Some p" "fill_params r segs ss (ps @ [p]) = Some qs"
      using Cons.prems(1) by (auto split: option.split_asm)
    with False Cons.IH [OF p(2)] Cons.prems show ?thesis by simp
  qed
qed simp

lemma fill_params_nil:
  assumes "fill_params r segs ss [] = Some qs" "\<forall>s \<in> set ss. \<forall>p. decode_path_param (segs ! s) = Some p \<longrightarrow> P p"
  shows "\<forall>p \<in> set qs. P p" "length qs \<le> APIROUTE_MAX_PARAMS"
proof -
  have "(\<forall>p \<in> set qs. P p) \<and> length qs \<le> APIROUTE_MAX_PARAMS" by (rule fill_params_Some [OF assms]) simp_all
  then show "\<forall>p \<in> set qs. P p" "length qs \<le> APIROUTE_MAX_PARAMS" by blast+
qed

lemma best_from_matches:
  "best_from routes meth segs is best = Some b \<Longrightarrow> (\<And>d. best = Some d \<Longrightarrow> route_matches (routes ! d) meth segs) \<Longrightarrow>
   route_matches (routes ! b) meth segs"
  by (induction routes meth segs "is" best rule: best_from.induct) (auto split: if_split_asm)

text \<open>What a match went through.\<close>

lemma api_route_matchE:
  assumes "api_route_match routes meth path = Some (i, ps)"
  obtains segs where "split_from (before_query path) 0 = Some segs" "segs \<noteq> []"
    "extract_params (routes ! i) segs = Some ps" "route_matches (routes ! i) meth (map fst segs)"
proof -
  from assms obtain segs where s: "split_segments (before_query path) = Some segs"
    "best_from routes meth (map fst segs) [0..<length routes] None = Some i" "extract_params (routes ! i) segs = Some ps"
    by (auto simp: api_route_match_def split: option.split_asm)
  then have "split_from (before_query path) 0 = Some segs" "before_query path \<noteq> []"
    by (auto simp: split_segments_def split: if_split_asm)
  moreover then have "segs \<noteq> []" using split_from_nonempty by (metis neq_Nil_conv)
  ultimately show ?thesis using that s(3) best_from_matches [OF s(2)] by blast
qed

text \<open>
  C27. What a handler is given (\<open>api_route_match\<close>): two parameters, each fits its 256-byte buffer with the
  terminating NUL, holds no NUL of its own and, unless the row takes the rest of the path verbatim,
  no \<open>/\<close>: decoding after the routing decision never makes a separator.
\<close>

theorem path_params_safe:
  assumes "api_route_match routes meth path = Some (i, ps)" and "is_c_str path"
  shows "length ps = APIROUTE_MAX_PARAMS \<and> list_all (\<lambda>p. length p < APIROUTE_PARAM_MAX \<and> is_c_str p \<and>
    (CHR ''/'' \<in> set p \<longrightarrow> ar_rest_param (routes ! i))) ps"
proof -
  let ?r = "routes ! i"
  let ?P = "\<lambda>p. length p < APIROUTE_PARAM_MAX \<and> is_c_str p \<and> (CHR ''/'' \<in> set p \<longrightarrow> ar_rest_param ?r)"
  from assms(1) obtain segs where segs: "split_from (before_query path) 0 = Some segs" "segs \<noteq> []" "extract_params ?r segs = Some ps"
    and m: "route_matches ?r meth (map fst segs)" by (rule api_route_matchE)
  have "set (before_query path) \<subseteq> set path" by (auto simp: before_query_def dest: set_takeWhileD)
  then have seg: "length (fst sr) < APIROUTE_PARAM_MAX \<and> CHR ''/'' \<notin> set (fst sr) \<and> set (fst sr) \<subseteq> set path \<and> set (snd sr) \<subseteq> set path"
    if "sr \<in> set segs" for sr
    using split_from_segs [OF segs(1), of "fst sr" "snd sr"] that by auto
  let ?ss = "[0..<(if ar_rest_param ?r then ar_n_segs ?r - 1 else ar_n_segs ?r)]"
  let ?rest = "snd (segs ! (ar_n_segs ?r - 1))"
  obtain qs where qs: "fill_params ?r (map fst segs) ?ss [] = Some qs"
    and ps: "\<exists>ts. set ts \<subseteq> {[]} \<union> (if ar_rest_param ?r \<and> length ?rest < APIROUTE_PARAM_MAX then {?rest} else {}) \<and> ps = qs @ ts"
      "length qs \<le> APIROUTE_MAX_PARAMS \<longrightarrow> length ps = APIROUTE_MAX_PARAMS"
    using segs(3) by (force simp: extract_params_def bind_eq_Some_conv Let_def split: if_split_asm)
  have "?P p" if "s \<in> set ?ss" "decode_path_param (map fst segs ! s) = Some p" for s p
  proof -
    have "s < length segs" using that(1) m by (auto simp: route_matches_def split: if_split_asm)
    then have "segs ! s \<in> set segs" "map fst segs ! s = fst (segs ! s)" by simp_all
    with that(2) seg assms(2) show ?thesis
      using decode_path_param_bytes [of "fst (segs ! s)" p] by (fastforce simp: is_c_str_def list_all_iff)
  qed
  then have "\<forall>s \<in> set ?ss. \<forall>p. decode_path_param (map fst segs ! s) = Some p \<longrightarrow> ?P p" by blast
  note q = fill_params_nil [OF qs this]
  have "?P ?rest" if "ar_rest_param ?r" "length ?rest < APIROUTE_PARAM_MAX"
  proof -
    have "ar_n_segs ?r - 1 < length segs" using m that(1) segs(2) by (cases segs) (auto simp: route_matches_def)
    then show ?thesis using that seg [of "segs ! (ar_n_segs ?r - 1)"] assms(2) by (auto simp: is_c_str_def list_all_iff)
  qed
  moreover have "?P []" by (simp add: APIROUTE_PARAM_MAX_def is_c_str_def)
  ultimately show ?thesis using ps q by (fastforce simp: list_all_iff split: if_split_asm)
qed

section \<open>Query parameters\<close>

lemma takeWhile_key:
  assumes "CHR ''='' \<notin> set key" "length key < length pair" "pair ! length key = CHR ''=''" "take (length key) pair = key"
  shows "takeWhile (\<lambda>c. c \<noteq> CHR ''='') pair = key"
proof -
  have "pair = key @ CHR ''='' # drop (length key + 1) pair"
    using assms(2-4) id_take_nth_drop [OF assms(2)] by simp
  then have "takeWhile (\<lambda>c. c \<noteq> CHR ''='') pair = takeWhile (\<lambda>c. c \<noteq> CHR ''='') (key @ CHR ''='' # drop (length key + 1) pair)" by simp
  also have "\<dots> = key" using assms(1) by (subst takeWhile_append2) auto
  finally show ?thesis .
qed

lemma query_value_bounded: "query_value n v out = Some w \<Longrightarrow> length out < n \<Longrightarrow> length w < n"
  by (induction n v out arbitrary: w rule: query_value.induct) (auto split: if_split_asm)

lemma param_from_bounded: "param_from key n q = Some v \<Longrightarrow> 0 < n \<Longrightarrow> length v < n"
proof (induction key n q rule: param_from.induct)
  case (1 key n q)
  then show ?case
    using query_value_bounded [of n "drop (length key + 1) (pair_text q)" "[]" v]
    by (auto simp: param_from.simps [of key n q] Let_def split: if_split_asm)
qed

lemma param_from_declared:
  "unknown_from declared q = None \<Longrightarrow> param_from key n q = Some v \<Longrightarrow> key \<noteq> [] \<Longrightarrow> CHR ''='' \<notin> set key \<Longrightarrow>
   key \<in> set declared"
proof (induction key n q rule: param_from.induct)
  case (1 key n q)
  have q: "q \<noteq> []" using "1.prems"(2) by (auto simp: param_from.simps [of key n q])
  let ?hit = "length key < length (pair_text q) \<and> pair_text q ! length key = CHR ''='' \<and> take (length key) (pair_text q) = key"
  let ?k = "takeWhile (\<lambda>c. c \<noteq> CHR ''='') (pair_text q)"
  have u: "?k = [] \<or> ?k \<in> set declared" "unknown_from declared (after_amp q) = None"
    using "1.prems"(1) q by (auto simp: unknown_from.simps [of declared q] Let_def split: if_split_asm)
  show ?case
  proof (cases ?hit)
    case True
    then have "?k = key" using takeWhile_key "1.prems"(4) by blast
    with u(1) "1.prems"(3) show ?thesis by simp
  next
    case False
    then have "param_from key n (after_amp q) = Some v"
      using "1.prems"(2) q by (auto simp: param_from.simps [of key n q] Let_def split: if_split_asm)
    with "1.IH" [OF q refl False] u(2) "1.prems" show ?thesis by blast
  qed
qed

text \<open>
  A handler reads only declared parameters (\<open>api_route_query_unknown\<close>, then \<open>url_query_param\<close>): once the
  check of the route has accepted the query string, a key that is found in it is one the route
  declares, and its value fits the buffer it was read into.
\<close>

theorem declared_queries_only:
  assumes "api_route_query_unknown r path n = None" and "url_query_param path key k = Some v"
    and "key \<noteq> []" "CHR ''='' \<notin> set key" and "0 < k"
  shows "key \<in> set (ar_query_params r) \<and> length v < k"
proof -
  obtain q where q: "query_of path = Some q" "param_from key k q = Some v"
    using assms(2) by (auto simp: url_query_param_def split: option.split_asm)
  then have "unknown_from (ar_query_params r) q = None" using assms(1) by (simp add: api_route_query_unknown_def)
  moreover have "length v < k" using param_from_bounded q(2) assms(5) .
  ultimately show ?thesis using param_from_declared q(2) assms(3,4) by blast
qed

text \<open>The query string of a list of keys and encoded values.\<close>

fun query_text :: "(string \<times> string) list \<Rightarrow> string" where
  "query_text [] = []"
| "query_text [(k, e)] = k @ ''='' @ e"
| "query_text ((k, e) # kvs) = k @ ''='' @ e @ ''&'' @ query_text kvs"

lemma query_value_decodes:
  "pct_encodes s e \<Longrightarrow> length out + length s < n \<Longrightarrow> query_value n e out = Some (out @ s)"
proof (induction arbitrary: out rule: pct_encodes.induct)
  case (pct_escape s e a b c)
  then show ?case by simp
qed (simp_all add: query_value_plain)

lemma query_text_step:
  assumes "CHR ''&'' \<notin> set k" "CHR ''&'' \<notin> set e"
  shows "pair_text (query_text ((k, e) # kvs)) = k @ ''='' @ e" "after_amp (query_text ((k, e) # kvs)) = query_text kvs"
proof -
  have *: "takeWhile (\<lambda>c. c \<noteq> CHR ''&'') (u @ v) = u @ takeWhile (\<lambda>c. c \<noteq> CHR ''&'') v"
    "dropWhile (\<lambda>c. c \<noteq> CHR ''&'') (u @ v) = dropWhile (\<lambda>c. c \<noteq> CHR ''&'') v" if "CHR ''&'' \<notin> set u" for u v
    using that by (subst takeWhile_append2 dropWhile_append2; auto)+
  obtain tail where "query_text ((k, e) # kvs) = (k @ ''='' @ e) @ tail" "tail = (if kvs = [] then [] else ''&'' @ query_text kvs)"
    by (cases kvs) auto
  with * [of "k @ ''='' @ e"] assms
  show "pair_text (query_text ((k, e) # kvs)) = k @ ''='' @ e" "after_amp (query_text ((k, e) # kvs)) = query_text kvs"
    by (simp_all add: pair_text_def after_amp_def)
qed

lemma key_hit:
  assumes "CHR ''='' \<notin> set key" "CHR ''='' \<notin> set k"
  shows "length key < length (k @ ''='' @ e) \<and> (k @ ''='' @ e) ! length key = CHR ''='' \<and> take (length key) (k @ ''='' @ e) = key \<longleftrightarrow> key = k"
proof
  assume h: "length key < length (k @ ''='' @ e) \<and> (k @ ''='' @ e) ! length key = CHR ''='' \<and> take (length key) (k @ ''='' @ e) = key"
  have "takeWhile (\<lambda>c. c \<noteq> CHR ''='') (k @ ''='' @ e) = k" using assms(2) by (subst takeWhile_append2) auto
  then show "key = k" using takeWhile_key [OF assms(1)] h by metis
qed auto

text \<open>
  C0. A query parameter written by any percent-encoding client is read back (\<open>url_query_param\<close>): among
  the pairs of the query string, the first with the key gives its decoded value when it fits.
\<close>

theorem query_param_roundtrip:
  assumes "list_all (\<lambda>(k, e). CHR ''='' \<notin> set k \<and> CHR ''&'' \<notin> set k \<and> CHR ''&'' \<notin> set e) kvs"
    and "CHR ''='' \<notin> set key" "map_of kvs key = Some e" "pct_encodes s e" "length s < n" "CHR ''?'' \<notin> set path"
  shows "url_query_param (path @ ''?'' @ query_text kvs) key n = Some s"
proof -
  have "dropWhile (\<lambda>c. c \<noteq> CHR ''?'') (path @ ''?'' @ query_text kvs) = ''?'' @ query_text kvs"
    using assms(6) by (subst dropWhile_append2) auto
  then have "query_of (path @ ''?'' @ query_text kvs) = Some (query_text kvs)" by (simp add: query_of_def)
  moreover have "param_from key n (query_text kvs) = Some s" using assms(1-3)
  proof (induction kvs)
    case (Cons kv kvs)
    obtain k e' where kv: "kv = (k, e')" by force
    have ne: "query_text ((k, e') # kvs) \<noteq> []" by (cases kvs) auto
    have step: "pair_text (query_text ((k, e') # kvs)) = k @ ''='' @ e'" "after_amp (query_text ((k, e') # kvs)) = query_text kvs"
      using query_text_step Cons.prems(1) kv by simp_all
    have hit: "length key < length (k @ ''='' @ e') \<and> (k @ ''='' @ e') ! length key = CHR ''='' \<and> take (length key) (k @ ''='' @ e') = key \<longleftrightarrow> key = k"
      using key_hit Cons.prems(1,2) kv by simp
    have "param_from key n (query_text ((k, e') # kvs)) = (if key = k then query_value n e' [] else param_from key n (query_text kvs))"
      unfolding param_from.simps [of key n "query_text ((k, e') # kvs)"] Let_def step hit using ne by simp
    then show ?case using Cons kv query_value_decodes [OF assms(4), of "[]" n] assms(5) by auto
  qed simp
  ultimately show ?thesis by (simp add: url_query_param_def)
qed

section \<open>A table\<close>

definition sample_routes :: "api_route list" where
  "sample_routes =
     [\<lparr>ar_method = ''GET'', ar_n_segs = 3, ar_segs = [Some ''v1'', Some ''pkg'', None] @ replicate 13 None, ar_op_id = ''pkgGet'',
       ar_rest_param = False, ar_query_params = [''image''], ar_permission = ''pkg.read''\<rparr>,
      \<lparr>ar_method = ''GET'', ar_n_segs = 3, ar_segs = [Some ''v1'', Some ''pkg'', Some ''list''] @ replicate 13 None, ar_op_id = ''pkgList'',
       ar_rest_param = False, ar_query_params = [], ar_permission = ''pkg.read''\<rparr>]"

lemmas route_consts = APIROUTE_MAX_SEGS_def APIROUTE_MAX_PARAMS_def APIROUTE_PARAM_MAX_def

lemma sample_split:
  "split_segments (before_query ''/v1/pkg/list'') = Some [(''v1'', ''v1/pkg/list''), (''pkg'', ''pkg/list''), (''list'', ''list'')]"
  "split_segments (before_query ''/v1/pkg/a%40b'') = Some [(''v1'', ''v1/pkg/a%40b''), (''pkg'', ''pkg/a%40b''), (''a%40b'', ''a%40b'')]"
  by (simp_all add: split_segments_def before_query_def route_consts Let_def)

text \<open>The table that the repository tests the matcher on.\<close>

definition fixture_row :: "string \<Rightarrow> string option list \<Rightarrow> string \<Rightarrow> bool \<Rightarrow> api_route" where
  "fixture_row meth segs op rest =
     \<lparr>ar_method = meth, ar_n_segs = length segs, ar_segs = segs @ replicate (16 - length segs) None, ar_op_id = op,
      ar_rest_param = rest, ar_query_params = [], ar_permission = ''''\<rparr>"

definition fixture_routes :: "api_route list" where
  "fixture_routes =
     [fixture_row ''GET'' [Some ''v1'', Some ''health''] ''getHealth'' False,
      fixture_row ''GET'' [Some ''v1'', Some ''containers''] ''listContainers'' False,
      fixture_row ''POST'' [Some ''v1'', Some ''containers''] ''createContainer'' False,
      fixture_row ''GET'' [Some ''v1'', Some ''containers'', None] ''getContainer'' False,
      fixture_row ''GET'' [Some ''v1'', Some ''containers'', Some ''recipes''] ''listRecipes'' False,
      fixture_row ''POST'' [Some ''v1'', Some ''containers'', None, Some ''start''] ''startContainer'' False,
      fixture_row ''DELETE'' [Some ''v1'', Some ''containers'', None, Some ''networks'', None] ''detachNetwork'' False,
      fixture_row ''POST'' [Some ''v1'', Some ''containers'', Some ''recipes'', Some ''apply-all''] ''applyAll'' False,
      fixture_row ''GET'' [Some ''v1'', Some ''system'', Some ''sysctl'', None] ''getSysctl'' True]"

lemma fixture_padded: "list_all row_padded fixture_routes"
  by (simp add: fixture_routes_def fixture_row_def row_padded_def route_consts list_all_iff)

lemma fixture_split:
  "split_segments (before_query ''/v1/containers'') = Some [(''v1'', ''v1/containers''), (''containers'', ''containers'')]"
  "split_segments (before_query ''/v1/containers/recipes?x'') =
     Some [(''v1'', ''v1/containers/recipes''), (''containers'', ''containers/recipes''), (''recipes'', ''recipes'')]"
  "split_segments (before_query ''/v1/system/sysctl/bad/key'') =
     Some [(''v1'', ''v1/system/sysctl/bad/key''), (''system'', ''system/sysctl/bad/key''), (''sysctl'', ''sysctl/bad/key''),
       (''bad'', ''bad/key''), (''key'', ''key'')]"
  by (simp_all add: split_segments_def before_query_def route_consts Let_def)

lemmas fixture_simps = fixture_split fixture_routes_def fixture_row_def route_matches_def extract_params_def route_consts

lemma fixture_kinds:
  "more_literal (fixture_routes ! 4) (fixture_routes ! 3)" "same_kinds r r"
  unfolding more_literal_def
  by (rule exI [of _ 2], auto simp: same_kinds_def is_lit_def fixture_routes_def fixture_row_def APIROUTE_MAX_SEGS_def less_Suc_eq numeral_2_eq_2)

theorem route_best_match_witness:
  "api_route_match fixture_routes ''GET'' ''/v1/containers'' = Some (1, ['''', '''']) \<and>
   api_route_match fixture_routes ''GET'' ''/v1/containers/recipes?x'' = Some (4, ['''', '''']) \<and>
   api_route_match fixture_routes ''GET'' ''/v1/system/sysctl/bad/key'' = Some (8, [''bad/key'', ''''])"
proof -
  note best = route_best_match [OF fixture_padded, THEN conjunct1, THEN iffD2]
  have all: "(\<forall>j < length fixture_routes. P j) \<longleftrightarrow> P 0 \<and> P 1 \<and> P 2 \<and> P 3 \<and> P 4 \<and> P 5 \<and> P 6 \<and> P 7 \<and> P 8" for P
    by (simp add: fixture_routes_def All_less_Suc numeral_eq_Suc conj_ac)
  have two: "replicate 2 x = [x, x]" for x :: string by (simp add: numeral_2_eq_2)
  show ?thesis
    by (intro conjI; rule best; unfold all; use fixture_kinds in \<open>simp add: fixture_simps two\<close>)
qed

theorem path_params_safe_witness:
  "api_route_match sample_routes ''GET'' ''/v1/pkg/a%40b'' = Some (0, [''a@b'', '''']) \<and> list_all is_c_str [''a@b'', '''']"
proof -
  have m: "api_route_match sample_routes ''GET'' ''/v1/pkg/a%40b'' = Some (0, [''a@b'', ''''])"
    unfolding api_route_match_def sample_split
    by (simp add: sample_routes_def route_matches_def extract_params_def route_consts numeral_3_eq_3 isxdigit_def hex_digit_def hex2_def less_eq_char_def char_of_def bit_0)
  moreover have "is_c_str ''/v1/pkg/a%40b''" by (simp add: is_c_str_def NUL_def)
  ultimately show ?thesis using path_params_safe [OF m] by (simp add: list_all_iff)
qed

theorem declared_queries_only_witness:
  "url_query_param ''/v1/pkg/a?image=jump%62ox'' ''image'' 16 = Some ''jumpbox'' \<and> ''image'' \<in> set (ar_query_params (sample_routes ! 0)) \<and> length ''jumpbox'' < 16"
proof -
  have e: "isxdigit CHR ''6''" "isxdigit CHR ''2''" "hex2 CHR ''6'' CHR ''2'' = 98"
    by (simp_all add: isxdigit_def hex_digit_def hex2_def less_eq_char_def)
  have v: "url_query_param ''/v1/pkg/a?image=jump%62ox'' ''image'' 16 = Some ''jumpbox''"
    by (simp add: url_query_param_def query_of_def param_from.simps pair_text_def e char_of_def bit_0)
  moreover have "api_route_query_unknown (sample_routes ! 0) ''/v1/pkg/a?image=jump%62ox'' 16 = None"
    by (simp add: api_route_query_unknown_def query_of_def unknown_from.simps pair_text_def after_amp_def sample_routes_def)
  ultimately show ?thesis using declared_queries_only [of "sample_routes ! 0" _ 16 "''image''" 16 "''jumpbox''"] by simp
qed

theorem query_param_roundtrip_witness:
  "url_query_param (''/v1/files'' @ ''?'' @ query_text [(''image'', ''base''), (''path'', ''/a%26b'')]) ''path'' 16 = Some ''/a&b''"
proof (rule query_param_roundtrip)
  show "pct_encodes ''/a&b'' ''/a%26b''"
    by (auto intro!: pct_encodes.intros simp: isxdigit_def hex_digit_def hex2_def less_eq_char_def)
qed simp_all

end
