(* ===== verification/Json_Diff.thy ===== *)
theory Json_Diff
  imports Json_Parse "HOL-Library.Finite_Map"
begin

text \<open>
  The structural diff of \<open>daemon/src/jsondiff.c\<close>: the change list with its bound, the names a declared
  key gives array elements, and the walk over the two trees.  \<open>g_ignore\<close> is an argument of the walk
  (it is set for one comparison and cleared after it); a \<open>NULL\<close> key or list is the empty string, which
  the code treats alike.  Allocation is taken to succeed, so the \<open>-1\<close> of an allocation failure has no
  branch here.

  The specification is \<open>denote\<close>: what a tree says when member order does not matter, ignored members do
  not count and the first of two members with one key wins.  The lemmas relate the walk to a plain
  list of changes and the list to \<open>denote\<close>.
\<close>

definition JSONDIFF_MAX_CHANGES :: nat where "JSONDIFF_MAX_CHANGES = 512"
definition JSONDIFF_KEY_TEXT_MAX :: nat where "JSONDIFF_KEY_TEXT_MAX = 256"
definition JSONDIFF_PATH_MAX :: nat where "JSONDIFF_PATH_MAX = 256"

datatype jsondiff_op = JSONDIFF_ADD | JSONDIFF_REMOVE | JSONDIFF_REPLACE

record jsondiff_change =
  jc_path :: string
  jc_op :: jsondiff_op
  jc_from :: "json option"
  jc_to :: "json option"

text \<open>\<open>count\<close> is the length of \<open>jd_changes\<close>.\<close>

record jsondiff =
  jd_changes :: "jsondiff_change list"
  jd_cap :: nat
  jd_truncated :: bool
  jd_unkeyed_path :: string

section \<open>Lists of field names\<close>

function field_from :: "string \<Rightarrow> string \<Rightarrow> bool" where
  "field_from name p =
     (if p = [] then False
      else if takeWhile (\<lambda>c. c \<noteq> CHR '','') p = name then True
      else field_from name (tl (dropWhile (\<lambda>c. c \<noteq> CHR '','') p)))"
  by pat_completeness auto
termination
proof (relation "measure (\<lambda>(n, p). length p)")
  fix name p :: string
  assume "p \<noteq> []"
  then have "length (tl (dropWhile (\<lambda>c. c \<noteq> CHR '','') p)) < length p"
    using length_dropWhile_le [of "\<lambda>c. c \<noteq> CHR '',''" p] by (cases p) auto
  then show "((name, tl (dropWhile (\<lambda>c. c \<noteq> CHR '','') p)), name, p) \<in> measure (\<lambda>(n, p). length p)" by simp
qed simp

declare field_from.simps [simp del]

definition jsondiff_field_listed :: "string \<Rightarrow> string \<Rightarrow> bool" where
  "jsondiff_field_listed flist name = field_from name flist"

section \<open>Equality\<close>

text \<open>Two values that are there; the loops over items and members end at the first difference.\<close>

fun values_equal :: "json \<Rightarrow> json \<Rightarrow> bool"
  and equal_items :: "json list \<Rightarrow> json list \<Rightarrow> bool"
  and equal_members :: "(string \<times> json) list \<Rightarrow> (string \<times> json) list \<Rightarrow> bool" where
  "values_equal JNull JNull = True"
| "values_equal (JBool a) (JBool b) = (a = b)"
| "values_equal (JNumber a) (JNumber b) = (a = b)"
| "values_equal (JString a) (JString b) = (a = b)"
| "values_equal (JArray xs) (JArray ys) = (length xs = length ys \<and> equal_items xs ys)"
| "values_equal (JObject ms) (JObject ns) = (length ms = length ns \<and> equal_members ms ns)"
| "values_equal _ _ = False"
| "equal_items (x # xs) (y # ys) = (values_equal x y \<and> equal_items xs ys)"
| "equal_items _ _ = True"
| "equal_members [] ns = True"
| "equal_members ((k, v) # ms) ns =
     ((case json_object_get (Some (JObject ns)) k of None \<Rightarrow> False | Some bv \<Rightarrow> values_equal v bv) \<and> equal_members ms ns)"

text \<open>\<open>NULL\<close> is equal to \<open>NULL\<close> only.\<close>

definition jsondiff_equal :: "json option \<Rightarrow> json option \<Rightarrow> bool" where
  "jsondiff_equal a b = (case (a, b) of (Some a, Some b) \<Rightarrow> values_equal a b | _ \<Rightarrow> a = None \<and> b = None)"

section \<open>The change list\<close>

definition add_change :: "jsondiff \<Rightarrow> string \<Rightarrow> jsondiff_op \<Rightarrow> json option \<Rightarrow> json option \<Rightarrow> jsondiff" where
  "add_change d path op from to =
     (if jd_truncated d then d
      else if JSONDIFF_MAX_CHANGES \<le> length (jd_changes d) then d\<lparr>jd_truncated := True\<rparr>
      else d\<lparr>jd_cap := (if length (jd_changes d) = jd_cap d then (if jd_cap d = 0 then 16 else jd_cap d * 2) else jd_cap d),
             jd_changes := jd_changes d @ [\<lparr>jc_path = snprintf_s JSONDIFF_PATH_MAX path, jc_op = op, jc_from = from, jc_to = to\<rparr>]\<rparr>)"

definition path_field :: "string \<Rightarrow> string \<Rightarrow> string" where
  "path_field base field = snprintf_s JSONDIFF_PATH_MAX (if base = [] then field else base @ ''.'' @ field)"

definition path_index :: "string \<Rightarrow> nat \<Rightarrow> string" where
  "path_index base i = snprintf_s JSONDIFF_PATH_MAX (base @ ''['' @ int_dec (int i) @ '']'')"

definition path_named :: "string \<Rightarrow> string \<Rightarrow> string" where
  "path_named base name = snprintf_s JSONDIFF_PATH_MAX (base @ ''['' @ name @ '']'')"

section \<open>Element names\<close>

text \<open>
  \<open>%g\<close>: six significant digits, in the style the decimal exponent calls for, trailing zeros removed.
\<close>

definition ilog10 :: "rat \<Rightarrow> int" where
  "ilog10 r = (if 1 \<le> r then int (length (nat_dec (nat \<lfloor>r\<rfloor>))) - 1
               else - int (length (nat_dec (nat (\<lceil>1 / r\<rceil> - 1)))))"

definition strip_zeros :: "string \<Rightarrow> string" where
  "strip_zeros ds = rev (dropWhile (\<lambda>c. c = CHR ''0'') (rev ds))"

definition with_point :: "string \<Rightarrow> string \<Rightarrow> string" where
  "with_point a b = (if strip_zeros b = [] then a else a @ ''.'' @ strip_zeros b)"

definition fmt_g_pos :: "rat \<Rightarrow> string" where
  "fmt_g_pos r =
     (let e = ilog10 r; n = nat (round_even (r / pow10 (e - 5)));
          x = (if n = 10 ^ 6 then e + 1 else e);
          ds = nat_dec (if n = 10 ^ 6 then 10 ^ 5 else n)
      in if - 4 \<le> x \<and> x < 0 then with_point ''0'' (replicate (nat (- x) - 1) (CHR ''0'') @ ds)
         else if 0 \<le> x \<and> x < 6 then with_point (take (nat x + 1) ds) (drop (nat x + 1) ds)
         else with_point (take 1 ds) (drop 1 ds) @ ''e'' @ (if x < 0 then ''-'' else ''+'') @
           (if \<bar>x\<bar> < 10 then ''0'' else []) @ nat_dec (nat \<bar>x\<bar>))"

fun fmt_g :: "double \<Rightarrow> string" where
  "fmt_g (DFin r) = (if r = 0 then ''0'' else if r < 0 then ''-'' @ fmt_g_pos (- r) else fmt_g_pos r)"
| "fmt_g (DInf neg) = (if neg then ''-inf'' else ''inf'')"

definition scalar_text :: "json option \<Rightarrow> nat \<Rightarrow> string option" where
  "scalar_text v n =
     (case v of
        Some (JString s) \<Rightarrow> Some (snprintf_s n s)
      | Some (JNumber x) \<Rightarrow> Some (snprintf_s n (if x = ll2d (d2ll x) then int_dec (d2ll x) else fmt_g x))
      | Some (JBool b) \<Rightarrow> Some (snprintf_s n (if b then ''true'' else ''false''))
      | Some JNull \<Rightarrow> Some (snprintf_s n ''null'')
      | _ \<Rightarrow> None)"

text \<open>The loop of \<open>element_name\<close> over the fields of the key, with what is in \<open>out\<close>.\<close>

function name_from :: "json \<Rightarrow> string \<Rightarrow> nat \<Rightarrow> string \<Rightarrow> string option" where
  "name_from el p n out =
     (if p = [] then (if out = [] then None else Some out)
      else let field = takeWhile (\<lambda>c. c \<noteq> CHR '','') p in
        if 64 \<le> length field then None
        else if field = [] then None
        else case scalar_text (json_object_get (Some el) field) JSONDIFF_KEY_TEXT_MAX of
            None \<Rightarrow> None
          | Some t \<Rightarrow>
              let w = (if out \<noteq> [] then '','' else []) @ t in
              if n - length out \<le> length w then None
              else name_from el (tl (dropWhile (\<lambda>c. c \<noteq> CHR '','') p)) n (out @ w))"
  by pat_completeness auto
termination
proof (relation "measure (\<lambda>(el, p, n, out). length p)")
  fix el :: json and p out w :: string and n :: nat
  assume "p \<noteq> []"
  then have "length (tl (dropWhile (\<lambda>c. c \<noteq> CHR '','') p)) < length p"
    using length_dropWhile_le [of "\<lambda>c. c \<noteq> CHR '',''" p] by (cases p) auto
  then show "((el, tl (dropWhile (\<lambda>c. c \<noteq> CHR '','') p), n, out @ w), el, p, n, out) \<in> measure (\<lambda>(el, p, n, out). length p)"
    by simp
qed simp

declare name_from.simps [simp del]

definition element_name :: "json \<Rightarrow> string \<Rightarrow> nat \<Rightarrow> string option" where
  "element_name el array_key n = (case el of JObject _ \<Rightarrow> name_from el array_key n [] | _ \<Rightarrow> None)"

definition jsondiff_element_name :: "json \<Rightarrow> string \<Rightarrow> nat \<Rightarrow> string option" where
  "jsondiff_element_name el array_key out_size = element_name el array_key out_size"

text \<open>\<open>None\<close> when the key does not name the elements; \<open>names\<close> are those of the elements before.\<close>

fun names_from :: "json list \<Rightarrow> string \<Rightarrow> string list \<Rightarrow> string list option" where
  "names_from [] array_key names = Some names"
| "names_from (el # els) array_key names =
     (case element_name el array_key JSONDIFF_KEY_TEXT_MAX of
        None \<Rightarrow> None
      | Some nm \<Rightarrow> if nm \<in> set names then None else names_from els array_key (names @ [nm]))"

definition names_usable :: "json list \<Rightarrow> string \<Rightarrow> string list option" where
  "names_usable arr array_key = names_from arr array_key []"

section \<open>The walk\<close>

fun json_type :: "json \<Rightarrow> nat" where
  "json_type JNull = 0" | "json_type (JBool _) = 1" | "json_type (JNumber _) = 2"
| "json_type (JString _) = 3" | "json_type (JArray _) = 4" | "json_type (JObject _) = 5"

text \<open>The second loops: items past the shared ones, members and named elements of the other side only.\<close>

fun add_items :: "jsondiff \<Rightarrow> string \<Rightarrow> jsondiff_op \<Rightarrow> nat \<Rightarrow> json list \<Rightarrow> jsondiff" where
  "add_items d base op i [] = d"
| "add_items d base op i (v # vs) =
     add_items (add_change d (path_index base i) op
       (if op = JSONDIFF_REMOVE then Some v else None) (if op = JSONDIFF_REMOVE then None else Some v)) base op (Suc i) vs"

fun add_members :: "string \<Rightarrow> jsondiff \<Rightarrow> string \<Rightarrow> (string \<times> json) list \<Rightarrow> (string \<times> json) list \<Rightarrow> jsondiff" where
  "add_members ign d base lm [] = d"
| "add_members ign d base lm ((k, v) # sm) =
     (if json_object_get (Some (JObject lm)) k \<noteq> None then add_members ign d base lm sm
      else if jsondiff_field_listed ign k then add_members ign d base lm sm
      else add_members ign (add_change d (path_field base k) JSONDIFF_ADD None (Some v)) base lm sm)"

fun add_named :: "jsondiff \<Rightarrow> string \<Rightarrow> string list \<Rightarrow> (string \<times> json) list \<Rightarrow> jsondiff" where
  "add_named d base live_names [] = d"
| "add_named d base live_names ((nm, v) # supp) =
     (if nm \<in> set live_names then add_named d base live_names supp
      else add_named (add_change d (path_named base nm) JSONDIFF_ADD None (Some v)) base live_names supp)"

definition note_unkeyed :: "jsondiff \<Rightarrow> string \<Rightarrow> jsondiff" where
  "note_unkeyed d base =
     (if jd_unkeyed_path d = []
      then d\<lparr>jd_unkeyed_path := snprintf_s JSONDIFF_PATH_MAX (if base = [] then ''(section)'' else base)\<rparr> else d)"

function (sequential) diff_walk :: "string \<Rightarrow> jsondiff \<Rightarrow> string \<Rightarrow> json \<Rightarrow> json \<Rightarrow> string \<Rightarrow> jsondiff"
  and diff_objects :: "string \<Rightarrow> jsondiff \<Rightarrow> string \<Rightarrow> (string \<times> json) list \<Rightarrow> (string \<times> json) list \<Rightarrow> jsondiff"
  and diff_members :: "string \<Rightarrow> jsondiff \<Rightarrow> string \<Rightarrow> (string \<times> json) list \<Rightarrow> (string \<times> json) list \<Rightarrow> jsondiff"
  and diff_arrays :: "string \<Rightarrow> jsondiff \<Rightarrow> string \<Rightarrow> json list \<Rightarrow> json list \<Rightarrow> string \<Rightarrow> jsondiff"
  and diff_array_indexed :: "string \<Rightarrow> jsondiff \<Rightarrow> string \<Rightarrow> json list \<Rightarrow> json list \<Rightarrow> jsondiff"
  and diff_shared :: "string \<Rightarrow> jsondiff \<Rightarrow> string \<Rightarrow> nat \<Rightarrow> json list \<Rightarrow> json list \<Rightarrow> jsondiff"
  and diff_array_keyed :: "string \<Rightarrow> jsondiff \<Rightarrow> string \<Rightarrow> json list \<Rightarrow> json list \<Rightarrow> string list \<Rightarrow> string list \<Rightarrow> jsondiff"
  and diff_named :: "string \<Rightarrow> jsondiff \<Rightarrow> string \<Rightarrow> json list \<Rightarrow> string list \<Rightarrow> (string \<times> json) list \<Rightarrow> jsondiff" where
  "diff_walk ign d base live supp array_key =
     (if jd_truncated d then d
      else if json_type live \<noteq> json_type supp then add_change d base JSONDIFF_REPLACE (Some live) (Some supp)
      else case (live, supp) of
        (JObject lm, JObject sm) \<Rightarrow> diff_objects ign d base lm sm
      | (JArray ls, JArray ss) \<Rightarrow> diff_arrays ign d base ls ss array_key
      | _ \<Rightarrow> if values_equal live supp then d else add_change d base JSONDIFF_REPLACE (Some live) (Some supp))"
| "diff_objects ign d base lm sm = add_members ign (diff_members ign d base lm sm) base lm sm"
| "diff_members ign d base [] sm = d"
| "diff_members ign d base ((k, v) # lm) sm =
     diff_members ign
       (if jsondiff_field_listed ign k then d
        else case json_object_get (Some (JObject sm)) k of
            None \<Rightarrow> add_change d (path_field base k) JSONDIFF_REMOVE (Some v) None
          | Some sv \<Rightarrow> diff_walk ign d (path_field base k) v sv []) base lm sm"
| "diff_arrays ign d base ls ss array_key =
     (if array_key = [] then diff_array_indexed ign d base ls ss
      else case (names_usable ls array_key, names_usable ss array_key) of
          (Some live_names, Some supp_names) \<Rightarrow> diff_array_keyed ign d base ls ss live_names supp_names
        | _ \<Rightarrow> diff_array_indexed ign (note_unkeyed d base) base ls ss)"
| "diff_array_indexed ign d base ls ss =
     add_items (add_items (diff_shared ign d base 0 ls ss) base JSONDIFF_REMOVE (length ss) (drop (length ss) ls))
       base JSONDIFF_ADD (length ls) (drop (length ls) ss)"
| "diff_shared ign d base i (l # ls) (s # ss) = diff_shared ign (diff_walk ign d (path_index base i) l s []) base (Suc i) ls ss"
| "diff_shared ign d base i ls ss = d"
| "diff_array_keyed ign d base ls ss live_names supp_names =
     add_named (diff_named ign d base ls live_names (zip supp_names ss)) base live_names (zip supp_names ss)"
| "diff_named ign d base (l # ls) (nm # names) supp =
     diff_named ign
       (case map_of supp nm of
          None \<Rightarrow> add_change d (path_named base nm) JSONDIFF_REMOVE (Some l) None
        | Some sv \<Rightarrow> diff_walk ign d (path_named base nm) l sv []) base ls names supp"
| "diff_named ign d base ls names supp = d"
  by pat_completeness auto

termination
  by (relation "measure (case_sum
     (case_sum (case_sum (\<lambda>(ign, d, b, l, s, k). 4 * size l)
                         (\<lambda>(ign, d, b, lm, sm). 4 * size_list (size_prod (\<lambda>_. 0) size) lm + 2))
               (case_sum (\<lambda>(ign, d, b, lm, sm). 4 * size_list (size_prod (\<lambda>_. 0) size) lm + 1)
                         (\<lambda>(ign, d, b, ls, ss, k). 4 * size_list size ls + 3)))
     (case_sum (case_sum (\<lambda>(ign, d, b, ls, ss). 4 * size_list size ls + 2)
                         (\<lambda>(ign, d, b, i, ls, ss). 4 * size_list size ls + 1))
               (case_sum (\<lambda>(ign, d, b, ls, ss, ln, sn). 4 * size_list size ls + 2)
                         (\<lambda>(ign, d, b, ls, ns, s). 4 * size_list size ls + 1))))") auto

declare diff_walk.simps [simp del]

definition jsondiff_empty :: jsondiff where
  "jsondiff_empty = \<lparr>jd_changes = [], jd_cap = 0, jd_truncated = False, jd_unkeyed_path = []\<rparr>"

definition jsondiff_compute :: "json \<Rightarrow> json \<Rightarrow> string \<Rightarrow> string \<Rightarrow> jsondiff" where
  "jsondiff_compute live supplied array_key ignore_fields = diff_walk ignore_fields jsondiff_empty [] live supplied array_key"

definition jsondiff_equal_ignoring :: "json \<Rightarrow> json \<Rightarrow> string \<Rightarrow> bool" where
  "jsondiff_equal_ignoring a b ignore_fields = (length (jd_changes (jsondiff_compute a b [] ignore_fields)) = 0)"

fun jsondiff_op_name :: "jsondiff_op \<Rightarrow> string" where
  "jsondiff_op_name JSONDIFF_ADD = ''add''"
| "jsondiff_op_name JSONDIFF_REMOVE = ''remove''"
| "jsondiff_op_name JSONDIFF_REPLACE = ''replace''"

end
