(* ===== verification/Json_Diff_Props.thy ===== *)
theory Json_Diff_Props
  imports Json_Diff
begin

text \<open>
  What \<open>jsondiff.c\<close> computes.  \<open>walk_list\<close> is the list of differences with no bound and no state; the
  walk appends it to the change list as far as that goes.  \<open>denote\<close> is what a tree says, and the list
  is empty exactly when the two trees say the same.
\<close>

section \<open>The plain list of differences\<close>

definition change :: "string \<Rightarrow> jsondiff_op \<Rightarrow> json option \<Rightarrow> json option \<Rightarrow> jsondiff_change" where
  "change path op from to = \<lparr>jc_path = snprintf_s JSONDIFF_PATH_MAX path, jc_op = op, jc_from = from, jc_to = to\<rparr>"

definition item_changes :: "string \<Rightarrow> jsondiff_op \<Rightarrow> nat \<Rightarrow> json list \<Rightarrow> jsondiff_change list" where
  "item_changes base op i vs = map (\<lambda>(j, v). change (path_index base j) op
     (if op = JSONDIFF_REMOVE then Some v else None) (if op = JSONDIFF_REMOVE then None else Some v)) (enumerate i vs)"

definition member_adds :: "string \<Rightarrow> string \<Rightarrow> (string \<times> json) list \<Rightarrow> (string \<times> json) list \<Rightarrow> jsondiff_change list" where
  "member_adds ign base lm sm = map (\<lambda>(k, v). change (path_field base k) JSONDIFF_ADD None (Some v))
     (filter (\<lambda>(k, v). map_of lm k = None \<and> \<not> jsondiff_field_listed ign k) sm)"

definition named_adds :: "string \<Rightarrow> string list \<Rightarrow> (string \<times> json) list \<Rightarrow> jsondiff_change list" where
  "named_adds base live_names supp = map (\<lambda>(nm, v). change (path_named base nm) JSONDIFF_ADD None (Some v))
     (filter (\<lambda>(nm, v). nm \<notin> set live_names) supp)"

lemma size_member: "(k, v) \<in> set ms \<Longrightarrow> size v < Suc (size_list (size_prod (\<lambda>_. 0) size) ms)"
  by (induction ms) auto

lemma size_item: "(l, s) \<in> set (zip ls ss) \<Longrightarrow> size l < Suc (size_list size ls)"
  by (drule set_zip_leftD) (induction ls, auto)

lemma size_shared: "(j, l, s) \<in> set (enumerate i (zip ls ss)) \<Longrightarrow> size l < Suc (size_list size ls)"
  unfolding enumerate_eq_zip by (drule set_zip_rightD) (rule size_item)

function walk_list :: "string \<Rightarrow> string \<Rightarrow> json \<Rightarrow> json \<Rightarrow> jsondiff_change list" where
  "walk_list ign base live supp =
     (case (live, supp) of
        (JObject lm, JObject sm) \<Rightarrow>
          concat (map (\<lambda>(k, v). if jsondiff_field_listed ign k then []
             else case map_of sm k of None \<Rightarrow> [change (path_field base k) JSONDIFF_REMOVE (Some v) None]
               | Some sv \<Rightarrow> walk_list ign (path_field base k) v sv) lm) @
          member_adds ign base lm sm
      | (JArray ls, JArray ss) \<Rightarrow>
          concat (map (\<lambda>(j, l, s). walk_list ign (path_index base j) l s) (enumerate 0 (zip ls ss))) @
          item_changes base JSONDIFF_REMOVE (length ss) (drop (length ss) ls) @
          item_changes base JSONDIFF_ADD (length ls) (drop (length ls) ss)
      | _ \<Rightarrow> if values_equal live supp then [] else [change base JSONDIFF_REPLACE (Some live) (Some supp)])"
  by pat_completeness auto
termination
  by (relation "measure (\<lambda>(ign, b, l, s). size l)")
    (auto dest: size_member size_shared)

declare walk_list.simps [simp del]

text \<open>Two trees are walked together when both are objects or both are arrays.\<close>

definition both_deep :: "json \<Rightarrow> json \<Rightarrow> bool" where
  "both_deep a b = (json_type a = json_type b \<and> 4 \<le> json_type a)"

lemma both_deepE:
  assumes "both_deep a b"
  obtains lm sm where "a = JObject lm" "b = JObject sm" | ls ss where "a = JArray ls" "b = JArray ss"
  using assms by (cases a; cases b) (auto simp: both_deep_def)

lemma walk_list_flat:
  "\<not> both_deep live supp \<Longrightarrow>
   walk_list ign base live supp = (if values_equal live supp then [] else [change base JSONDIFF_REPLACE (Some live) (Some supp)])"
  by (subst walk_list.simps) (auto simp: both_deep_def split: json.split)

lemma diff_walk_flat:
  "\<not> both_deep live supp \<Longrightarrow> \<not> jd_truncated d \<Longrightarrow> diff_walk ign d base live supp k =
     (if values_equal live supp then d else add_change d base JSONDIFF_REPLACE (Some live) (Some supp))"
  by (subst diff_walk.simps) (cases live; cases supp; simp add: both_deep_def)

lemma walk_list_objects:
  "walk_list ign base (JObject lm) (JObject sm) =
     concat (map (\<lambda>(k, v). if jsondiff_field_listed ign k then []
       else case map_of sm k of None \<Rightarrow> [change (path_field base k) JSONDIFF_REMOVE (Some v) None]
         | Some sv \<Rightarrow> walk_list ign (path_field base k) v sv) lm) @ member_adds ign base lm sm"
  by (simp add: walk_list.simps [of ign base "JObject lm"])

lemma walk_list_arrays:
  "walk_list ign base (JArray ls) (JArray ss) =
     concat (map (\<lambda>(j, l, s). walk_list ign (path_index base j) l s) (enumerate 0 (zip ls ss))) @
     item_changes base JSONDIFF_REMOVE (length ss) (drop (length ss) ls) @
     item_changes base JSONDIFF_ADD (length ls) (drop (length ls) ss)"
  by (simp add: walk_list.simps [of ign base "JArray ls"])

lemma walk_list_induct [case_names objects arrays flat]:
  assumes objects: "\<And>ign base lm sm. (\<And>k v sv. (k, v) \<in> set lm \<Longrightarrow> \<not> jsondiff_field_listed ign k \<Longrightarrow> map_of sm k = Some sv \<Longrightarrow>
      P ign (path_field base k) v sv) \<Longrightarrow> P ign base (JObject lm) (JObject sm)"
    and arrays: "\<And>ign base ls ss. (\<And>j l s. (j, l, s) \<in> set (enumerate 0 (zip ls ss)) \<Longrightarrow> P ign (path_index base j) l s) \<Longrightarrow>
      P ign base (JArray ls) (JArray ss)"
    and flat: "\<And>ign base live supp. \<not> both_deep live supp \<Longrightarrow> P ign base live supp"
  shows "P ign base live supp"
proof (induction ign base live supp rule: walk_list.induct)
  case (1 ign base live supp)
  show ?case
  proof (cases "both_deep live supp")
    case True
    then show ?thesis
    proof (cases rule: both_deepE)
      case (1 lm sm)
      with "1.IH"(2) show ?thesis by (simp add: objects)
    next
      case (2 ls ss)
      with "1.IH"(1) show ?thesis by (simp add: arrays)
    qed
  qed (rule flat)
qed

section \<open>The walk appends the list\<close>

definition push :: "jsondiff \<Rightarrow> jsondiff_change \<Rightarrow> jsondiff" where
  "push d c = add_change d (jc_path c) (jc_op c) (jc_from c) (jc_to c)"

lemma snprintf_s_idem [simp]: "snprintf_s n (snprintf_s n s) = snprintf_s n s"
  by (simp add: snprintf_s_def)

lemma add_change_push: "add_change d path op from to = push d (change path op from to)"
  by (simp add: push_def change_def add_change_def)

lemma push_all_truncated: "jd_truncated d \<Longrightarrow> foldl push d cs = d"
  by (induction cs) (auto simp: push_def add_change_def)

lemma add_items_push: "add_items d base op i vs = foldl push d (item_changes base op i vs)"
  by (induction vs arbitrary: d i) (simp_all add: item_changes_def add_change_push)

lemma add_members_push: "add_members ign d base lm sm = foldl push d (member_adds ign base lm sm)"
proof (induction sm arbitrary: d)
  case (Cons kv sm)
  then show ?case
    by (cases kv; cases "map_of lm (fst kv)") (simp_all add: member_adds_def add_change_push json_object_get_def)
qed (simp add: member_adds_def)

lemma add_named_push: "add_named d base names supp = foldl push d (named_adds base names supp)"
  by (induction supp arbitrary: d) (auto simp: named_adds_def add_change_push)

definition named_list :: "string \<Rightarrow> string \<Rightarrow> json list \<Rightarrow> string list \<Rightarrow> (string \<times> json) list \<Rightarrow> jsondiff_change list" where
  "named_list ign base ls names supp =
     concat (map (\<lambda>(l, nm). case map_of supp nm of None \<Rightarrow> [change (path_named base nm) JSONDIFF_REMOVE (Some l) None]
       | Some sv \<Rightarrow> walk_list ign (path_named base nm) l sv) (zip ls names))"

lemma walk_push:
  "k = [] \<Longrightarrow> diff_walk ign d base live supp k = foldl push d (walk_list ign base live supp)"
  "diff_objects ign d base lm sm = foldl push d (walk_list ign base (JObject lm) (JObject sm))"
  "diff_members ign d base lm sm = foldl push d (concat (map (\<lambda>(k, v). if jsondiff_field_listed ign k then []
     else case map_of sm k of None \<Rightarrow> [change (path_field base k) JSONDIFF_REMOVE (Some v) None]
       | Some sv \<Rightarrow> walk_list ign (path_field base k) v sv) lm))"
  "k = [] \<Longrightarrow> diff_arrays ign d base ls ss k = foldl push d (walk_list ign base (JArray ls) (JArray ss))"
  "diff_array_indexed ign d base ls ss = foldl push d (walk_list ign base (JArray ls) (JArray ss))"
  "diff_shared ign d base i ls ss =
     foldl push d (concat (map (\<lambda>(j, l, s). walk_list ign (path_index base j) l s) (enumerate i (zip ls ss))))"
  "diff_array_keyed ign d base ls ss live_names supp_names =
     foldl push d (named_list ign base ls live_names (zip supp_names ss) @ named_adds base live_names (zip supp_names ss))"
  "diff_named ign d base ls names named = foldl push d (named_list ign base ls names named)"
proof (induction ign d base live supp k and ign d base lm sm and ign d base lm sm and ign d base ls ss k and ign d base ls ss
    and ign d base i ls ss and ign d base ls ss live_names supp_names and ign d base ls names named
    rule: diff_walk_diff_objects_diff_members_diff_arrays_diff_array_indexed_diff_shared_diff_array_keyed_diff_named.induct)
  case (1 ign d base live supp k)
  show ?case
  proof (cases "jd_truncated d")
    case True
    then show ?thesis by (simp add: diff_walk.simps push_all_truncated)
  next
    case False
    show ?thesis
    proof (cases "both_deep live supp")
      case True
      then show ?thesis
        by (cases rule: both_deepE) (use False 1 in \<open>simp_all add: diff_walk.simps\<close>)
    next
      case flat: False
      then show ?thesis by (simp add: diff_walk_flat [OF flat False] walk_list_flat add_change_push)
    qed
  qed
next
  case (2 ign d base lm sm)
  then show ?case by (simp add: walk_list.simps [of ign base "JObject lm"] add_members_push)
next
  case (4 ign d base k v lm sm)
  then show ?case by (auto simp: json_object_get_def add_change_push split: option.split)
next
  case (6 ign d base ls ss)
  then show ?case by (simp add: walk_list.simps [of ign base "JArray ls"] add_items_push)
next
  case (9 ign d base ls ss live_names supp_names)
  then show ?case by (simp add: add_named_push)
next
  case (10 ign d base l ls nm names supp)
  then show ?case by (auto simp: named_list_def add_change_push split: option.split)
qed (simp_all add: named_list_def)

declare diff_objects.simps [simp del] diff_arrays.simps [simp del] diff_array_indexed.simps [simp del] diff_array_keyed.simps [simp del]

lemma push_changes:
  assumes "\<not> jd_truncated d" "length (jd_changes d) \<le> JSONDIFF_MAX_CHANGES" "\<forall>c \<in> set cs. snprintf_s JSONDIFF_PATH_MAX (jc_path c) = jc_path c"
  shows "jd_changes (foldl push d cs) = take JSONDIFF_MAX_CHANGES (jd_changes d @ cs) \<and>
    (jd_truncated (foldl push d cs) \<longleftrightarrow> JSONDIFF_MAX_CHANGES < length (jd_changes d @ cs))"
  using assms
proof (induction cs arbitrary: d)
  case (Cons c cs)
  show ?case
  proof (cases "length (jd_changes d) = JSONDIFF_MAX_CHANGES")
    case True
    then have "jd_truncated (push d c)" "jd_changes (push d c) = jd_changes d"
      using Cons.prems(1) by (simp_all add: push_def add_change_def)
    then show ?thesis using True by (simp add: push_all_truncated)
  next
    case False
    then have "jd_changes (push d c) = jd_changes d @ [c]" "\<not> jd_truncated (push d c)" "length (jd_changes d) < JSONDIFF_MAX_CHANGES"
      using Cons.prems by (simp_all add: push_def add_change_def)
    with Cons.IH [of "push d c"] Cons.prems(3) show ?thesis by simp
  qed
qed simp

text \<open>The differences of a whole comparison, with the array key of the section.\<close>

definition change_list :: "json \<Rightarrow> json \<Rightarrow> string \<Rightarrow> string \<Rightarrow> jsondiff_change list" where
  "change_list live supp array_key ign =
     (case (live, supp) of
        (JArray ls, JArray ss) \<Rightarrow>
          (if array_key = [] then walk_list ign [] live supp
           else case (names_usable ls array_key, names_usable ss array_key) of
               (Some live_names, Some supp_names) \<Rightarrow>
                   named_list ign [] ls live_names (zip supp_names ss) @ named_adds [] live_names (zip supp_names ss)
             | _ \<Rightarrow> walk_list ign [] live supp)
      | _ \<Rightarrow> walk_list ign [] live supp)"

lemma path_cut_change: "snprintf_s JSONDIFF_PATH_MAX (jc_path (change p op f t)) = jc_path (change p op f t)"
  by (simp add: change_def)

lemma walk_list_paths: "c \<in> set (walk_list ign base live supp) \<Longrightarrow> snprintf_s JSONDIFF_PATH_MAX (jc_path c) = jc_path c"
proof (induction ign base live supp rule: walk_list_induct)
  case (objects ign base lm sm)
  then show ?case
    by (auto simp: walk_list_objects member_adds_def path_cut_change split: if_split_asm option.split_asm)
next
  case (arrays ign base ls ss)
  then show ?case by (auto simp: walk_list_arrays item_changes_def path_cut_change)
next
  case (flat ign base live supp)
  then show ?case by (auto simp: walk_list_flat path_cut_change split: if_split_asm)
qed

lemma change_list_paths: "\<forall>c \<in> set (change_list live supp key ign). snprintf_s JSONDIFF_PATH_MAX (jc_path c) = jc_path c"
proof
  fix c
  assume c: "c \<in> set (change_list live supp key ign)"
  have "snprintf_s JSONDIFF_PATH_MAX (jc_path c) = jc_path c"
    if "c \<in> set (named_list ign [] ls names named @ named_adds [] names named)" for ls names named
    using that by (auto simp: named_list_def named_adds_def path_cut_change dest: walk_list_paths split: option.split_asm)
  with c show "snprintf_s JSONDIFF_PATH_MAX (jc_path c) = jc_path c"
    unfolding change_list_def by (auto dest: walk_list_paths split: json.split_asm option.split_asm if_split_asm)
qed

lemma diff_walk_unkeyed: "(\<And>ls ss. live = JArray ls \<Longrightarrow> supp = JArray ss \<Longrightarrow> False) \<Longrightarrow>
    diff_walk ign d base live supp k = foldl push d (walk_list ign base live supp)"
proof (cases "both_deep live supp")
  case True
  assume "\<And>ls ss. live = JArray ls \<Longrightarrow> supp = JArray ss \<Longrightarrow> False"
  with True obtain lm sm where "live = JObject lm" "supp = JObject sm" by (metis both_deepE)
  then show ?thesis by (simp add: diff_walk.simps walk_push(2) push_all_truncated)
next
  case False
  then show ?thesis
    by (cases "jd_truncated d") (simp add: push_all_truncated diff_walk.simps [of ign d], simp add: diff_walk_flat walk_list_flat add_change_push)
qed

lemma jsondiff_compute_push:
  obtains d where "jsondiff_compute live supp key ign = foldl push d (change_list live supp key ign)"
    "jd_changes d = []" "\<not> jd_truncated d"
proof (cases "\<exists>ls ss. live = JArray ls \<and> supp = JArray ss")
  case False
  then have "change_list live supp key ign = walk_list ign [] live supp" by (auto simp: change_list_def split: json.split)
  moreover have "jsondiff_compute live supp key ign = foldl push jsondiff_empty (walk_list ign [] live supp)"
    unfolding jsondiff_compute_def by (rule diff_walk_unkeyed) (use False in blast)
  ultimately show ?thesis using that [of jsondiff_empty] by (simp add: jsondiff_empty_def)
next
  case True
  then obtain ls ss where a: "live = JArray ls" "supp = JArray ss" by blast
  have w: "jsondiff_compute live supp key ign = diff_arrays ign jsondiff_empty [] ls ss key"
    by (simp add: jsondiff_compute_def a diff_walk.simps jsondiff_empty_def)
  show ?thesis
  proof (cases "key = []")
    case True
    then show ?thesis using that [of jsondiff_empty] w by (simp add: a change_list_def walk_push(4) jsondiff_empty_def)
  next
    case key: False
    show ?thesis
    proof (cases "names_usable ls key \<noteq> None \<and> names_usable ss key \<noteq> None")
      case True
      then show ?thesis using that [of jsondiff_empty] w key
        by (auto simp: a change_list_def diff_arrays.simps walk_push(7) jsondiff_empty_def)
    next
      case False
      then have "jsondiff_compute live supp key ign = foldl push (note_unkeyed jsondiff_empty []) (change_list live supp key ign)"
        using w key by (cases "names_usable ls key"; cases "names_usable ss key") (simp_all add: a change_list_def diff_arrays.simps walk_push(5))
      then show ?thesis using that by (simp add: note_unkeyed_def jsondiff_empty_def)
    qed
  qed
qed

lemma compute_changes: "jd_changes (jsondiff_compute live supp key ign) = take JSONDIFF_MAX_CHANGES (change_list live supp key ign)"
  and compute_truncated: "jd_truncated (jsondiff_compute live supp key ign) \<longleftrightarrow> JSONDIFF_MAX_CHANGES < length (change_list live supp key ign)"
proof -
  obtain d where d: "jsondiff_compute live supp key ign = foldl push d (change_list live supp key ign)" "jd_changes d = []" "\<not> jd_truncated d"
    by (rule jsondiff_compute_push)
  from push_changes [OF d(3) _ change_list_paths]
  show "jd_changes (jsondiff_compute live supp key ign) = take JSONDIFF_MAX_CHANGES (change_list live supp key ign)"
    "jd_truncated (jsondiff_compute live supp key ign) \<longleftrightarrow> JSONDIFF_MAX_CHANGES < length (change_list live supp key ign)"
    by (simp_all add: d)
qed

text \<open>
  C28. The bounded diff is a prefix of the full one and says when it is not all of it
  (\<open>jsondiff_compute\<close>): the changes reported are the first 512 of the plain list of differences, and
  the flag is set exactly when there are more.
\<close>

theorem jsondiff_bounded_prefix:
  "jd_changes (jsondiff_compute live supp key ign) = take JSONDIFF_MAX_CHANGES (change_list live supp key ign) \<and>
   (jd_truncated (jsondiff_compute live supp key ign) \<longleftrightarrow> JSONDIFF_MAX_CHANGES < length (change_list live supp key ign))"
  by (simp add: compute_changes compute_truncated)

section \<open>What a tree says\<close>

datatype doc = DocNull | DocBool bool | DocNumber double | DocString string | DocArray "doc list" | DocObject "(string, doc) fmap"

lemma size_member_filter: "(k, v) \<in> set (filter Q ms) \<Longrightarrow> size v < Suc (size_list (size_prod (\<lambda>_. 0) size) ms)"
  by (auto intro: size_member)

function denote :: "string \<Rightarrow> json \<Rightarrow> doc" where
  "denote ign JNull = DocNull"
| "denote ign (JBool b) = DocBool b"
| "denote ign (JNumber x) = DocNumber x"
| "denote ign (JString s) = DocString s"
| "denote ign (JArray vs) = DocArray (map (denote ign) vs)"
| "denote ign (JObject ms) =
     DocObject (fmap_of_list (map (\<lambda>(k, v). (k, denote ign v)) (filter (\<lambda>(k, v). \<not> jsondiff_field_listed ign k) ms)))"
  by pat_completeness auto
termination
  by (relation "measure (\<lambda>(ign, v). size v)") (auto intro: size_member simp: size_list_estimation' less_Suc_eq_le)

fun distinct_keys :: "json \<Rightarrow> bool" where
  "distinct_keys (JArray vs) = list_all distinct_keys vs"
| "distinct_keys (JObject ms) = (distinct (map fst ms) \<and> list_all (\<lambda>(k, v). distinct_keys v) ms)"
| "distinct_keys _ = True"

lemma denote_member:
  "fmlookup (fmap_of_list (map (\<lambda>(k, v). (k, f v)) (filter (\<lambda>(k, v). \<not> Q k) ms))) k =
   (if Q k then None else map_option f (map_of ms k))"
  by (induction ms) auto

lemma fmap_same_iff: "m = n \<longleftrightarrow> (\<forall>k. fmlookup m k = fmlookup n k)"
  by (metis fmap_ext)

lemma denote_flat:
  assumes "\<not> both_deep a b"
  shows "denote ign a = denote ign b \<longleftrightarrow> values_equal a b"
  using assms by (cases a; cases b) (auto simp: both_deep_def)

lemma concat_pairs_empty: "concat (map (\<lambda>(k, v). f k v) ms) = [] \<longleftrightarrow> (\<forall>(k, v) \<in> set ms. f k v = [])"
  by (induction ms) auto

lemma object_walk_empty:
  assumes "distinct (map fst lm)"
  shows "walk_list ign base (JObject lm) (JObject sm) = [] \<longleftrightarrow>
    (\<forall>k. \<not> jsondiff_field_listed ign k \<longrightarrow> (case (map_of lm k, map_of sm k) of
       (None, None) \<Rightarrow> True | (Some v, Some sv) \<Rightarrow> walk_list ign (path_field base k) v sv = [] | _ \<Rightarrow> False))"
    (is "?w \<longleftrightarrow> (\<forall>k. ?listed k \<longrightarrow> ?same k)")
proof -
  let ?ok = "\<lambda>k v. ?listed k \<longrightarrow> (\<exists>sv. map_of sm k = Some sv \<and> walk_list ign (path_field base k) v sv = [])"
  have m: "(k, v) \<in> set lm \<longleftrightarrow> map_of lm k = Some v" for k v using assms by simp
  have e: "(if jsondiff_field_listed ign k then []
       else case map_of sm k of None \<Rightarrow> [change (path_field base k) JSONDIFF_REMOVE (Some v) None]
         | Some sv \<Rightarrow> walk_list ign (path_field base k) v sv) = [] \<longleftrightarrow> ?ok k v" for k v
    by (auto split: option.split)
  have "?w \<longleftrightarrow> (\<forall>(k, v) \<in> set lm. ?ok k v) \<and> (\<forall>(k, v) \<in> set sm. ?listed k \<longrightarrow> map_of lm k \<noteq> None)"
    unfolding walk_list_objects member_adds_def append_is_Nil_conv concat_pairs_empty map_is_Nil_conv filter_empty_conv e by auto
  also have "\<dots> \<longleftrightarrow> (\<forall>k. ?listed k \<longrightarrow> ?same k)"
  proof -
    have live: "(\<forall>(k, v) \<in> set lm. ?ok k v) \<longleftrightarrow> (\<forall>k v. map_of lm k = Some v \<longrightarrow> ?ok k v)"
      unfolding m [symmetric] by blast
    have supp: "(\<forall>(k, v) \<in> set sm. ?listed k \<longrightarrow> map_of lm k \<noteq> None) \<longleftrightarrow>
        (\<forall>k. ?listed k \<longrightarrow> map_of sm k \<noteq> None \<longrightarrow> map_of lm k \<noteq> None)"
      by (force simp: map_of_eq_None_iff)
    have "(\<forall>v. map_of lm k = Some v \<longrightarrow> ?ok k v) \<and> (?listed k \<longrightarrow> map_of sm k \<noteq> None \<longrightarrow> map_of lm k \<noteq> None) \<longleftrightarrow>
        (?listed k \<longrightarrow> ?same k)" for k
      by (cases "map_of lm k"; cases "map_of sm k") simp_all
    then show ?thesis unfolding live supp all_conj_distrib [symmetric] by (rule all_cong1)
  qed
  finally show ?thesis .
qed

lemma concat_enumerate_empty:
  "concat (map (\<lambda>(j, l, s). f j l s) (enumerate 0 (zip ls ss))) = [] \<longleftrightarrow> (\<forall>j. j < length ls \<and> j < length ss \<longrightarrow> f j (ls ! j) (ss ! j) = [])"
proof -
  have "concat (map g xs) = [] \<longleftrightarrow> (\<forall>i < length xs. g (xs ! i) = [])" for g :: "'d \<Rightarrow> 'e list" and xs
    by (simp add: all_set_conv_all_nth)
  from this [of "\<lambda>(j, l, s). f j l s"] show ?thesis by (simp add: nth_enumerate_eq)
qed

lemma array_walk_empty:
  "walk_list ign base (JArray ls) (JArray ss) = [] \<longleftrightarrow> length ls = length ss \<and>
     (\<forall>j. j < length ls \<and> j < length ss \<longrightarrow> walk_list ign (path_index base j) (ls ! j) (ss ! j) = [])"
proof -
  have "drop (length ss) ls = [] \<and> drop (length ls) ss = [] \<longleftrightarrow> length ls = length ss" by auto
  then show ?thesis
    unfolding walk_list_arrays append_is_Nil_conv concat_enumerate_empty by (auto simp: item_changes_def enumerate_eq_zip)
qed

text \<open>The list is empty exactly when the trees say the same; only \<open>live\<close> must have no key twice.\<close>

lemma walk_list_empty_iff: "distinct_keys live \<Longrightarrow> walk_list ign base live supp = [] \<longleftrightarrow> denote ign live = denote ign supp"
proof (induction ign base live supp rule: walk_list_induct)
  case (objects ign base lm sm)
  have IH: "walk_list ign (path_field base k) v sv = [] \<longleftrightarrow> denote ign v = denote ign sv"
    if "map_of lm k = Some v" "map_of sm k = Some sv" "\<not> jsondiff_field_listed ign k" for k v sv
    using objects.IH [of k v sv] objects.prems that by (auto simp: list_all_iff dest: map_of_SomeD)
  have "denote ign (JObject lm) = denote ign (JObject sm) \<longleftrightarrow>
      (\<forall>k. \<not> jsondiff_field_listed ign k \<longrightarrow> map_option (denote ign) (map_of lm k) = map_option (denote ign) (map_of sm k))"
    by (simp add: fmap_same_iff denote_member)
  also have "\<dots> \<longleftrightarrow> walk_list ign base (JObject lm) (JObject sm) = []"
  proof -
    have "map_option (denote ign) (map_of lm k) = map_option (denote ign) (map_of sm k) \<longleftrightarrow>
        (case (map_of lm k, map_of sm k) of (None, None) \<Rightarrow> True
         | (Some v, Some sv) \<Rightarrow> walk_list ign (path_field base k) v sv = [] | _ \<Rightarrow> False)"
      if "\<not> jsondiff_field_listed ign k" for k
      using IH that by (cases "map_of lm k"; cases "map_of sm k") simp_all
    moreover have "distinct (map fst lm)" using objects.prems by simp
    ultimately show ?thesis unfolding object_walk_empty [OF \<open>distinct (map fst lm)\<close>] by simp
  qed
  finally show ?case ..
next
  case (arrays ign base ls ss)
  have IH: "walk_list ign (path_index base j) (ls ! j) (ss ! j) = [] \<longleftrightarrow> denote ign (ls ! j) = denote ign (ss ! j)"
    if "j < length ls" "j < length ss" for j
    using arrays.IH [of j "ls ! j" "ss ! j"] arrays.prems that by (simp add: list_all_length in_set_enumerate_eq)
  have "denote ign (JArray ls) = denote ign (JArray ss) \<longleftrightarrow> length ls = length ss \<and>
      (\<forall>j. j < length ls \<and> j < length ss \<longrightarrow> denote ign (ls ! j) = denote ign (ss ! j))"
    by (auto simp: list_eq_iff_nth_eq)
  then show ?case unfolding array_walk_empty using IH by blast
next
  case (flat ign base live supp)
  then show ?case by (simp add: walk_list_flat denote_flat)
qed

text \<open>
  C29. When a section counts as unchanged (\<open>jsondiff_equal_ignoring\<close>): exactly when the two trees say the
  same once the ignored members are left out at every depth, whatever the order of the members;
  \<open>a\<close> must not have a key twice in one object.
\<close>

theorem equal_ignoring_iff_same:
  assumes "distinct_keys a"
  shows "jsondiff_equal_ignoring a b ign \<longleftrightarrow> denote ign a = denote ign b"
proof -
  have "change_list a b [] ign = walk_list ign [] a b" by (auto simp: change_list_def split: json.split)
  then have "jd_changes (jsondiff_compute a b [] ign) = take JSONDIFF_MAX_CHANGES (walk_list ign [] a b)"
    using compute_changes by simp
  then show ?thesis
    unfolding jsondiff_equal_ignoring_def length_0_conv walk_list_empty_iff [OF assms, of ign "[]" b, symmetric]
    by (simp add: JSONDIFF_MAX_CHANGES_def)
qed

theorem equal_ignoring_iff_same_witness:
  "jsondiff_equal_ignoring (JObject [(''a'', JNull), (''pid'', JBool True)]) (JObject [(''pid'', JBool False), (''a'', JNull)]) ''pid''"
proof -
  have "distinct_keys (JObject [(''a'', JNull), (''pid'', JBool True)])" by simp
  from equal_ignoring_iff_same [OF this] show ?thesis
    by (simp add: jsondiff_field_listed_def field_from.simps)
qed

section \<open>Deep equality\<close>

lemma field_listed_nil [simp]: "\<not> jsondiff_field_listed [] k"
  by (simp add: jsondiff_field_listed_def field_from.simps)

lemma map_of_subset_same:
  assumes "distinct (map fst ms)" "distinct (map fst ns)" "length ms = length ns" "fst ` set ms \<subseteq> fst ` set ns"
  shows "map_of ms k = None \<longleftrightarrow> map_of ns k = None"
proof -
  have "card (fst ` set ms) = card (fst ` set ns)" using assms(1-3) distinct_card [of "map fst ms"] distinct_card [of "map fst ns"] by simp
  then have "fst ` set ms = fst ` set ns" using assms(4) by (simp add: card_subset_eq)
  then show ?thesis by (simp add: map_of_eq_None_iff)
qed

lemma equal_items_iff: "length xs = length ys \<Longrightarrow> equal_items xs ys \<longleftrightarrow> (\<forall>i < length xs. values_equal (xs ! i) (ys ! i))"
  by (induction xs ys rule: list_induct2) (auto simp: less_Suc_eq_0_disj)

lemma equal_members_iff:
  "equal_members ms ns \<longleftrightarrow> (\<forall>(k, v) \<in> set ms. \<exists>w. map_of ns k = Some w \<and> values_equal v w)"
  by (induction ms) (auto simp: json_object_get_def split: option.split_asm)

lemma values_equal_iff: "distinct_keys a \<Longrightarrow> distinct_keys b \<Longrightarrow> values_equal a b \<longleftrightarrow> denote [] a = denote [] b"
proof (induction a arbitrary: b)
  case (JArray xs)
  show ?case
  proof (cases b)
    case (JArray ys)
    have "values_equal (xs ! i) (ys ! i) \<longleftrightarrow> denote [] (xs ! i) = denote [] (ys ! i)" if "i < length xs" "i < length ys" for i
      using JArray.IH [of "xs ! i" "ys ! i"] JArray.prems JArray that by (simp add: list_all_length)
    then show ?thesis using equal_items_iff [of xs ys] by (auto simp: JArray list_eq_iff_nth_eq)
  qed simp_all
next
  case (JObject ms)
  show ?case
  proof (cases b)
    case (JObject ns)
    then have d: "distinct (map fst ms)" "distinct (map fst ns)" using JObject.prems by simp_all
    have IH: "values_equal v w \<longleftrightarrow> denote [] v = denote [] w" if "map_of ms k = Some v" "map_of ns k = Some w" for k v w
      using JObject.IH [of "(k, v)" v w] JObject.prems JObject that by (auto simp: list_all_iff dest!: map_of_SomeD)
    have den: "denote [] (JObject ms) = denote [] b \<longleftrightarrow> (\<forall>k. map_option (denote []) (map_of ms k) = map_option (denote []) (map_of ns k))"
      using denote_member [of "denote []" "jsondiff_field_listed []"] by (simp add: JObject fmap_same_iff)
    have eq: "values_equal (JObject ms) b \<longleftrightarrow> length ms = length ns \<and> (\<forall>k v. map_of ms k = Some v \<longrightarrow> (\<exists>w. map_of ns k = Some w \<and> values_equal v w))"
      using d(1) by (auto simp: JObject equal_members_iff)
    show ?thesis
    proof
      assume "values_equal (JObject ms) b"
      then have e: "length ms = length ns" "\<And>k v. map_of ms k = Some v \<Longrightarrow> \<exists>w. map_of ns k = Some w \<and> values_equal v w" by (auto simp: eq)
      have "fst ` set ms \<subseteq> fst ` set ns"
      proof
        fix k
        assume "k \<in> fst ` set ms"
        then obtain v where "map_of ms k = Some v" by (metis map_of_eq_None_iff not_None_eq)
        with e(2) show "k \<in> fst ` set ns" by (metis map_of_eq_None_iff option.distinct(1))
      qed
      note same = map_of_subset_same [OF d e(1) this]
      have "map_option (denote []) (map_of ms k) = map_option (denote []) (map_of ns k)" for k
        using same [of k] e(2) [of k] IH [of k] by (cases "map_of ms k") auto
      then show "denote [] (JObject ms) = denote [] b" unfolding den by blast
    next
      assume "denote [] (JObject ms) = denote [] b"
      then have m: "map_option (denote []) (map_of ms k) = map_option (denote []) (map_of ns k)" for k
        unfolding den by blast
      then have "fst ` set ms = fst ` set ns" by (metis map_option_is_None map_of_eq_None_iff subsetI subset_antisym)
      then have "length ms = length ns" using d by (metis distinct_card length_map set_map)
      moreover have "\<exists>w. map_of ns k = Some w \<and> values_equal v w" if "map_of ms k = Some v" for k v
        using m [of k] that IH [of k v] by (cases "map_of ns k") auto
      ultimately show "values_equal (JObject ms) b" by (simp add: eq)
    qed
  qed simp_all
qed (case_tac [!] b, simp_all)

text \<open>
  C0. Two ways of comparing agree (\<open>jsondiff_equal\<close>, \<open>jsondiff_equal_ignoring\<close>): on trees without a key
  twice in one object the deep comparison holds exactly when a diff with nothing ignored is empty.
\<close>

theorem deep_equality_is_empty_diff:
  assumes "distinct_keys a" "distinct_keys b"
  shows "jsondiff_equal (Some a) (Some b) \<longleftrightarrow> jd_changes (jsondiff_compute a b [] []) = []"
proof -
  have "change_list a b [] [] = walk_list [] [] a b" by (auto simp: change_list_def split: json.split)
  then show ?thesis
    unfolding jsondiff_equal_def compute_changes prod.case option.case values_equal_iff [OF assms] walk_list_empty_iff [OF assms(1), of "[]" "[]" b, symmetric]
    by (simp add: JSONDIFF_MAX_CHANGES_def)
qed

theorem deep_equality_is_empty_diff_witness:
  "jd_changes (jsondiff_compute (JObject [(''a'', JNull), (''b'', JArray [])]) (JObject [(''b'', JArray []), (''a'', JNull)]) [] []) = []"
proof -
  have d: "distinct_keys (JObject [(''a'', JNull), (''b'', JArray [])])" "distinct_keys (JObject [(''b'', JArray []), (''a'', JNull)])" by simp_all
  show ?thesis unfolding deep_equality_is_empty_diff [OF d, symmetric] by (simp add: jsondiff_equal_def json_object_get_def)
qed

text \<open>With a key twice on the left the deep comparison holds of trees that differ.\<close>

lemma duplicate_key_equal:
  "jsondiff_equal (Some (JObject [(''a'', JNull), (''a'', JNull)])) (Some (JObject [(''a'', JNull), (''b'', JBool True)])) \<and>
   \<not> jsondiff_equal (Some (JObject [(''a'', JNull), (''b'', JBool True)])) (Some (JObject [(''a'', JNull), (''a'', JNull)]))"
  by (simp add: jsondiff_equal_def json_object_get_def)

section \<open>Arrays with a key\<close>

lemma names_from_Some:
  "names_from els key names = Some out \<Longrightarrow> distinct names \<Longrightarrow>
   distinct out \<and> (\<exists>new. out = names @ new \<and> list_all2 (\<lambda>el nm. element_name el key JSONDIFF_KEY_TEXT_MAX = Some nm) els new)"
proof (induction els arbitrary: names)
  case (Cons el els)
  then obtain nm where "element_name el key JSONDIFF_KEY_TEXT_MAX = Some nm" "nm \<notin> set names" "names_from els key (names @ [nm]) = Some out"
    by (auto split: option.split_asm if_split_asm)
  with Cons.IH [of "names @ [nm]"] Cons.prems show ?case by auto
qed simp

lemma names_usable_Some:
  assumes "names_usable els key = Some names"
  shows "distinct names" "length names = length els"
    "list_all2 (\<lambda>el nm. element_name el key JSONDIFF_KEY_TEXT_MAX = Some nm) els names"
  using names_from_Some [of els key "[]" names] assms by (auto simp: names_usable_def dest: list_all2_lengthD)

lemma map_of_zip_map: "length xs = length ys \<Longrightarrow> map_of (zip xs (map f ys)) k = map_option f (map_of (zip xs ys) k)"
  by (induction xs ys rule: list_induct2) auto

lemma named_empty:
  assumes "distinct names" "length names = length ls"
  shows "named_list ign base ls names supp @ named_adds base names supp = [] \<longleftrightarrow>
    (\<forall>nm. case (map_of (zip names ls) nm, map_of supp nm) of
       (None, None) \<Rightarrow> True | (Some l, Some s) \<Rightarrow> walk_list ign (path_named base nm) l s = [] | _ \<Rightarrow> False)"
    (is "_ \<longleftrightarrow> (\<forall>nm. ?same nm)")
proof -
  let ?ok = "\<lambda>nm l. \<exists>s. map_of supp nm = Some s \<and> walk_list ign (path_named base nm) l s = []"
  have m: "(l, nm) \<in> set (zip ls names) \<longleftrightarrow> map_of (zip names ls) nm = Some l" for l nm
    using assms by (subst map_of_eq_Some_iff) (auto simp: in_set_zip map_fst_zip)
  have e: "(case map_of supp nm of None \<Rightarrow> [change (path_named base nm) JSONDIFF_REMOVE (Some l) None]
       | Some sv \<Rightarrow> walk_list ign (path_named base nm) l sv) = [] \<longleftrightarrow> ?ok nm l" for l nm
    by (auto split: option.split)
  have live: "(\<forall>(l, nm) \<in> set (zip ls names). ?ok nm l) \<longleftrightarrow> (\<forall>nm l. map_of (zip names ls) nm = Some l \<longrightarrow> ?ok nm l)"
    unfolding m [symmetric] by blast
  have n: "map_of (zip names ls) nm \<noteq> None \<longleftrightarrow> nm \<in> set names" for nm
    using assms(2) by (simp add: map_of_eq_None_iff map_fst_zip flip: set_map del: not_None_eq)
  have supp: "(\<forall>(nm, v) \<in> set supp. nm \<in> set names) \<longleftrightarrow> (\<forall>nm. map_of supp nm \<noteq> None \<longrightarrow> map_of (zip names ls) nm \<noteq> None)"
    unfolding n by (force simp: map_of_eq_None_iff)
  have "named_list ign base ls names supp @ named_adds base names supp = [] \<longleftrightarrow>
      (\<forall>(l, nm) \<in> set (zip ls names). ?ok nm l) \<and> (\<forall>(nm, v) \<in> set supp. nm \<in> set names)"
    unfolding named_list_def named_adds_def append_is_Nil_conv concat_pairs_empty map_is_Nil_conv filter_empty_conv e by auto
  moreover have "(\<forall>l. map_of (zip names ls) nm = Some l \<longrightarrow> ?ok nm l) \<and> (map_of supp nm \<noteq> None \<longrightarrow> map_of (zip names ls) nm \<noteq> None) \<longleftrightarrow> ?same nm" for nm
    by (cases "map_of (zip names ls) nm"; cases "map_of supp nm") simp_all
  ultimately show ?thesis unfolding live supp all_conj_distrib [symmetric] by presburger
qed

text \<open>
  C30. Keyed arrays are compared as maps from names to elements (\<open>diff_array_keyed\<close>): when the declared
  key names every element of both arrays, no change is reported exactly when the two arrays have the
  same names and, for each name, elements that say the same; the order of the elements is not compared.
\<close>

theorem keyed_arrays_are_maps:
  assumes "key \<noteq> []" "names_usable ls key = Some live_names" "names_usable ss key = Some supp_names"
    and "list_all distinct_keys ls"
  shows "jd_changes (jsondiff_compute (JArray ls) (JArray ss) key ign) = [] \<longleftrightarrow>
    fmap_of_list (zip live_names (map (denote ign) ls)) = fmap_of_list (zip supp_names (map (denote ign) ss))"
proof -
  note l = names_usable_Some [OF assms(2)]
  note s = names_usable_Some [OF assms(3)]
  have "jd_changes (jsondiff_compute (JArray ls) (JArray ss) key ign) = [] \<longleftrightarrow>
      named_list ign [] ls live_names (zip supp_names ss) @ named_adds [] live_names (zip supp_names ss) = []"
    unfolding compute_changes by (auto simp: change_list_def assms(1-3) JSONDIFF_MAX_CHANGES_def)
  also have "\<dots> \<longleftrightarrow> (\<forall>nm. map_option (denote ign) (map_of (zip live_names ls) nm) = map_option (denote ign) (map_of (zip supp_names ss) nm))"
    unfolding named_empty [OF l(1,2)]
  proof (rule all_cong1)
    fix nm
    have "walk_list ign (path_named [] nm) a b = [] \<longleftrightarrow> denote ign a = denote ign b" if "map_of (zip live_names ls) nm = Some a" for a b
      using that assms(4) by (intro walk_list_empty_iff) (auto simp: list_all_iff dest!: map_of_SomeD dest: set_zip_rightD)
    then show "(case (map_of (zip live_names ls) nm, map_of (zip supp_names ss) nm) of
        (None, None) \<Rightarrow> True | (Some l, Some s) \<Rightarrow> walk_list ign (path_named [] nm) l s = [] | _ \<Rightarrow> False) \<longleftrightarrow>
        map_option (denote ign) (map_of (zip live_names ls) nm) = map_option (denote ign) (map_of (zip supp_names ss) nm)"
      by (cases "map_of (zip live_names ls) nm"; cases "map_of (zip supp_names ss) nm") simp_all
  qed
  finally show ?thesis by (simp add: fmap_same_iff fmlookup_of_list map_of_zip_map l(2) s(2))
qed

theorem keyed_arrays_are_maps_witness:
  "jd_changes (jsondiff_compute (JArray [JObject [(''n'', JString ''a'')], JObject [(''n'', JString ''b'')]])
     (JArray [JObject [(''n'', JString ''b'')], JObject [(''n'', JString ''a'')]]) ''n'' []) = []"
proof -
  have nm: "element_name (JObject [(''n'', JString [c])]) ''n'' JSONDIFF_KEY_TEXT_MAX = Some [c]" for c
    by (simp add: element_name_def name_from.simps Let_def json_object_get_def scalar_text_def snprintf_s_def JSONDIFF_KEY_TEXT_MAX_def)
  have u: "names_usable [JObject [(''n'', JString ''a'')], JObject [(''n'', JString ''b'')]] ''n'' = Some [''a'', ''b'']"
    "names_usable [JObject [(''n'', JString ''b'')], JObject [(''n'', JString ''a'')]] ''n'' = Some [''b'', ''a'']"
    by (simp_all add: names_usable_def nm)
  have "list_all distinct_keys [JObject [(''n'', JString ''a'')], JObject [(''n'', JString ''b'')]]" by simp
  from keyed_arrays_are_maps [OF _ u this, of "[]"] show ?thesis by (simp add: fmupd_reorder_neq)
qed

end
