(* ===== verification/Dhcp.thy ===== *)
theory Dhcp
  imports Json_Compose Net_Addr
begin

text \<open>
  The DHCP store of \<open>daemon/src/dhcp.c\<close>: which containers serve DHCP, the range of each network and
  the servers that share it, and the reservations; the configuration files rendered for each server;
  and the document the store is saved in.  Addresses are 32-bit words in host order (the source keeps
  them in network order and converts at every use).  The static tables keep their slots; an empty
  name marks a free one.  Which containers run, and what the kernel answers to a write, are arguments.
  Reading the lease files of the servers (\<open>dhcp_leases_write_json\<close>) and the list of servers for
  the API are left out.
\<close>

definition DHCP_MAX_NETWORKS :: nat where "DHCP_MAX_NETWORKS = 32"
definition DHCP_MAX_SERVERS :: nat where "DHCP_MAX_SERVERS = 16"
definition DHCP_MAX_RANGE_SERVERS :: nat where "DHCP_MAX_RANGE_SERVERS = 8"
definition DHCP_MAX_STATIC :: nat where "DHCP_MAX_STATIC = 128"
definition DHCP_NETWORK_NAME_MAX :: nat where "DHCP_NETWORK_NAME_MAX = 64"
definition DHCP_SERVER_NAME_MAX :: nat where "DHCP_SERVER_NAME_MAX = 64"
definition DHCP_MAC_MAX :: nat where "DHCP_MAC_MAX = 18"
definition DHCP_HOSTNAME_MAX :: nat where "DHCP_HOSTNAME_MAX = 64"
definition DHCP_CONF_PATH :: string where "DHCP_CONF_PATH = ''/etc/dnsmasq-dhcp.conf''"
definition DHCP_HOSTS_PATH :: string where "DHCP_HOSTS_PATH = ''/etc/dnsmasq-dhcp-hosts''"

record dhcp_network =
  dn_network :: string
  dn_enabled :: bool
  dn_range_start :: ip
  dn_range_end :: ip
  dn_lease_seconds :: int
  dn_router :: ip
  dn_servers :: "string list"

record dhcp_static =
  ds_mac :: string
  ds_ip :: ip
  ds_hostname :: string

datatype dhcp_error = DHCP_OK | DHCP_ERR_INVALID | DHCP_ERR_NOT_FOUND | DHCP_ERR_DUPLICATE | DHCP_ERR_FULL | DHCP_ERR_PERSIST_FAILED

text \<open>The static variables, the file system (the current one first) and the signals sent.\<close>

record dhcp_state =
  dh_networks :: "dhcp_network list"
  dh_statics :: "dhcp_static list"
  dh_servers :: "string list"
  dh_state_path :: string
  dh_conf_name :: "string list"
  dh_conf_text :: "string list"
  dh_fs :: "fs list"
  dh_signalled :: "string list"

definition blank_range :: dhcp_network where
  "blank_range = \<lparr>dn_network = [], dn_enabled = False, dn_range_start = 0, dn_range_end = 0, dn_lease_seconds = 0,
     dn_router = 0, dn_servers = []\<rparr>"

definition blank_static :: dhcp_static where
  "blank_static = \<lparr>ds_mac = [], ds_ip = 0, ds_hostname = []\<rparr>"

section \<open>Checks and lookups\<close>

definition mac_char_ok :: "nat \<Rightarrow> char \<Rightarrow> bool" where
  "mac_char_ok i c = (if i mod 3 = 2 then c = CHR '':''
     else CHR ''0'' \<le> c \<and> c \<le> CHR ''9'' \<or> CHR ''a'' \<le> c \<and> c \<le> CHR ''f'')"

definition mac_is_valid :: "string option \<Rightarrow> bool" where
  "mac_is_valid mac = (case mac of None \<Rightarrow> False
     | Some m \<Rightarrow> length m = 17 \<and> list_all (\<lambda>i. mac_char_ok i (m ! i)) [0..<17])"

definition hostname_is_valid :: "string \<Rightarrow> bool" where
  "hostname_is_valid name =
     (name \<noteq> [] \<and> length name < DHCP_HOSTNAME_MAX \<and> hd name \<noteq> CHR ''-'' \<and> last name \<noteq> CHR ''-'' \<and>
      list_all (\<lambda>c. CHR ''a'' \<le> c \<and> c \<le> CHR ''z'' \<or> CHR ''0'' \<le> c \<and> c \<le> CHR ''9'' \<or> c = CHR ''-'') name)"

definition net_find :: "dhcp_network list \<Rightarrow> string \<Rightarrow> nat option" where
  "net_find nets network = find_index (\<lambda>n. dn_network n \<noteq> [] \<and> dn_network n = network) nets"

definition net_free :: "dhcp_network list \<Rightarrow> nat option" where
  "net_free nets = find_index (\<lambda>n. \<not> dn_network n \<noteq> []) nets"

definition static_find :: "dhcp_static list \<Rightarrow> string \<Rightarrow> nat option" where
  "static_find statics mac = find_index (\<lambda>s. ds_mac s \<noteq> [] \<and> ds_mac s = mac) statics"

definition static_free :: "dhcp_static list \<Rightarrow> nat option" where
  "static_free statics = find_index (\<lambda>s. \<not> ds_mac s \<noteq> []) statics"

definition dhcp_network_find :: "dhcp_state \<Rightarrow> string \<Rightarrow> dhcp_network option" where
  "dhcp_network_find st network = map_option (\<lambda>i. dh_networks st ! i) (net_find (dh_networks st) network)"

definition dhcp_any_enabled :: "dhcp_state \<Rightarrow> bool" where
  "dhcp_any_enabled st = list_ex (\<lambda>n. dn_network n \<noteq> [] \<and> dn_enabled n) (dh_networks st)"

definition dhcp_server_is_registered :: "dhcp_state \<Rightarrow> string \<Rightarrow> bool" where
  "dhcp_server_is_registered st container = (container \<noteq> [] \<and> list_ex (\<lambda>s. s \<noteq> [] \<and> s = container) (dh_servers st))"

definition dhcp_server_list :: "dhcp_state \<Rightarrow> nat \<Rightarrow> string list" where
  "dhcp_server_list st n = take n (map (snprintf_s DHCP_SERVER_NAME_MAX) (filter (\<lambda>s. s \<noteq> []) (dh_servers st)))"

section \<open>Slices\<close>

definition servers_for_network :: "dhcp_state \<Rightarrow> dhcp_network \<Rightarrow> nat \<Rightarrow> string list" where
  "servers_for_network st cfg n =
     take n (map (snprintf_s DHCP_SERVER_NAME_MAX) (filter (dhcp_server_is_registered st) (dn_servers cfg)))"

definition dhcp_slice_for :: "dhcp_network \<Rightarrow> nat \<Rightarrow> nat \<Rightarrow> (ip \<times> ip) option" where
  "dhcp_slice_for cfg server_index server_count =
     (let first = dn_range_start cfg; final = dn_range_end cfg in
      if server_count \<le> 1 then Some (first, final)
      else if final < first then None
      else let total = final - first + 1 in
        if total < word_of_nat server_count then None
        else let base = total div word_of_nat server_count;
                 extra = total mod word_of_nat server_count;
                 start = first + base * word_of_nat server_index +
                   (if word_of_nat server_index < extra then word_of_nat server_index else extra);
                 size = base + (if word_of_nat server_index < extra then 1 else 0)
          in Some (start, start + size - 1))"

section \<open>The document\<close>

definition jw_ip :: "json_writer \<Rightarrow> ip \<Rightarrow> json_writer option" where
  "jw_ip w a = (if a \<noteq> 0 then jw_str w (inet_ntop a) else jw_null w)"

definition write_slice :: "dhcp_network \<Rightarrow> nat \<Rightarrow> json_writer \<Rightarrow> nat \<times> string \<Rightarrow> json_writer option" where
  "write_slice cfg count w ix =
     (case dhcp_slice_for cfg (fst ix) count of
        None \<Rightarrow> Some w
      | Some (a, b) \<Rightarrow>
          do { w \<leftarrow> jw_obj_open w;
               w \<leftarrow> jw_key w ''server'';
               w \<leftarrow> jw_str w (snd ix);
               w \<leftarrow> jw_key w ''range_start'';
               w \<leftarrow> jw_str w (inet_ntop a);
               w \<leftarrow> jw_key w ''range_end'';
               w \<leftarrow> jw_str w (inet_ntop b);
               Some (jw_obj_close w) })"

definition write_slices :: "dhcp_state \<Rightarrow> dhcp_network \<Rightarrow> json_writer \<Rightarrow> json_writer option" where
  "write_slices st cfg w =
     (let names = servers_for_network st cfg DHCP_MAX_RANGE_SERVERS in
      do { w \<leftarrow> jw_key w ''slices'';
           w \<leftarrow> jw_arr_open w;
           w \<leftarrow> jw_each (write_slice cfg (length names)) w (if dn_enabled cfg then enumerate 0 names else []);
           Some (jw_arr_close w) })"

definition dhcp_network_write_json :: "dhcp_state \<Rightarrow> bool \<Rightarrow> json_writer \<Rightarrow> dhcp_network \<Rightarrow> json_writer option" where
  "dhcp_network_write_json st include_slices w cfg =
     do { w \<leftarrow> jw_obj_open w;
          w \<leftarrow> jw_key w ''network'';
          w \<leftarrow> jw_str w (dn_network cfg);
          w \<leftarrow> jw_key w ''enabled'';
          w \<leftarrow> jw_bool w (dn_enabled cfg);
          w \<leftarrow> jw_key w ''range_start'';
          w \<leftarrow> jw_ip w (dn_range_start cfg);
          w \<leftarrow> jw_key w ''range_end'';
          w \<leftarrow> jw_ip w (dn_range_end cfg);
          w \<leftarrow> jw_key w ''lease_seconds'';
          w \<leftarrow> jw_int w (dn_lease_seconds cfg);
          w \<leftarrow> jw_key w ''servers'';
          w \<leftarrow> jw_arr_open w;
          w \<leftarrow> jw_each jw_str w (dn_servers cfg);
          w \<leftarrow> Some (jw_arr_close w);
          w \<leftarrow> jw_key w ''router'';
          w \<leftarrow> jw_ip w (dn_router cfg);
          w \<leftarrow> (if include_slices then write_slices st cfg w else Some w);
          Some (jw_obj_close w) }"

definition write_static :: "bool \<Rightarrow> json_writer \<Rightarrow> dhcp_static \<Rightarrow> json_writer option" where
  "write_static null_host w s =
     do { w \<leftarrow> jw_obj_open w;
          w \<leftarrow> jw_key w ''mac'';
          w \<leftarrow> jw_str w (ds_mac s);
          w \<leftarrow> jw_key w ''ip'';
          w \<leftarrow> jw_str w (inet_ntop (ds_ip s));
          w \<leftarrow> jw_key w ''hostname'';
          w \<leftarrow> (if null_host \<and> ds_hostname s = [] then jw_null w else jw_str w (ds_hostname s));
          Some (jw_obj_close w) }"

definition used_networks :: "dhcp_state \<Rightarrow> dhcp_network list" where
  "used_networks st = filter (\<lambda>n. dn_network n \<noteq> []) (dh_networks st)"

definition used_statics :: "dhcp_state \<Rightarrow> dhcp_static list" where
  "used_statics st = filter (\<lambda>s. ds_mac s \<noteq> []) (dh_statics st)"

definition used_servers :: "dhcp_state \<Rightarrow> string list" where
  "used_servers st = filter (\<lambda>s. s \<noteq> []) (dh_servers st)"

definition dhcp_document :: "dhcp_state \<Rightarrow> json_writer option" where
  "dhcp_document st =
     do { w \<leftarrow> jw_obj_open (jw_init blank_writer);
          w \<leftarrow> jw_key w ''servers'';
          w \<leftarrow> jw_arr_open w;
          w \<leftarrow> jw_each jw_str w (used_servers st);
          w \<leftarrow> Some (jw_arr_close w);
          w \<leftarrow> jw_key w ''networks'';
          w \<leftarrow> jw_arr_open w;
          w \<leftarrow> jw_each (dhcp_network_write_json st False) w (used_networks st);
          w \<leftarrow> Some (jw_arr_close w);
          w \<leftarrow> jw_key w ''static'';
          w \<leftarrow> jw_arr_open w;
          w \<leftarrow> jw_each (write_static False) w (used_statics st);
          w \<leftarrow> Some (jw_arr_close w);
          Some (jw_obj_close w) }"

definition dhcp_save_state :: "write_env \<Rightarrow> dhcp_state \<Rightarrow> (dhcp_state \<times> int) option" where
  "dhcp_save_state env st =
     (if dh_state_path st = [] then Some (st, - 1)
      else do { w \<leftarrow> dhcp_document st;
        if 16384 \<le> length (jw_buf w) then Some (st, - 1)
        else let (visited, rc) = persist_atomic_write env (dh_state_path st) (jw_buf w) (hd (dh_fs st))
             in Some (st\<lparr>dh_fs := visited @ tl (dh_fs st)\<rparr>, rc) })"

definition dhcp_write_json :: "dhcp_state \<Rightarrow> json_writer \<Rightarrow> json_writer option" where
  "dhcp_write_json st w =
     do { w \<leftarrow> jw_obj_open w;
          w \<leftarrow> jw_key w ''networks'';
          w \<leftarrow> jw_arr_open w;
          w \<leftarrow> jw_each (dhcp_network_write_json st True) w (used_networks st);
          w \<leftarrow> Some (jw_arr_close w);
          w \<leftarrow> jw_key w ''static'';
          w \<leftarrow> jw_arr_open w;
          w \<leftarrow> jw_each (write_static True) w (used_statics st);
          w \<leftarrow> Some (jw_arr_close w);
          Some (jw_obj_close w) }"

text \<open>The answer of an operation that ends with a save.\<close>

definition saved :: "write_env \<Rightarrow> dhcp_state \<Rightarrow> (dhcp_state \<times> dhcp_error) option" where
  "saved env st = map_option (\<lambda>(st, rc). (st, if rc = 0 then DHCP_OK else DHCP_ERR_PERSIST_FAILED)) (dhcp_save_state env st)"

section \<open>Servers\<close>

definition dhcp_server_register :: "write_env \<Rightarrow> dhcp_state \<Rightarrow> string option \<Rightarrow> (dhcp_state \<times> dhcp_error) option" where
  "dhcp_server_register env st container =
     (case container of
        None \<Rightarrow> Some (st, DHCP_ERR_INVALID)
      | Some c \<Rightarrow>
          if c = [] then Some (st, DHCP_ERR_INVALID)
          else if dhcp_server_is_registered st c then Some (st, DHCP_ERR_DUPLICATE)
          else case find_index (\<lambda>s. s = []) (dh_servers st) of
              None \<Rightarrow> Some (st, DHCP_ERR_FULL)
            | Some slot \<Rightarrow> saved env (st\<lparr>dh_servers := (dh_servers st)[slot := snprintf_s DHCP_SERVER_NAME_MAX c]\<rparr>))"

text \<open>The first entry of a range for the container goes; a range without a server is switched off.\<close>

definition drop_server :: "string \<Rightarrow> dhcp_network \<Rightarrow> dhcp_network" where
  "drop_server container n =
     (if dn_network n = [] \<or> container \<notin> set (dn_servers n) then n
      else let servers = remove1 container (dn_servers n)
           in n\<lparr>dn_servers := servers, dn_enabled := (if servers = [] then False else dn_enabled n)\<rparr>)"

definition dhcp_server_unregister :: "write_env \<Rightarrow> dhcp_state \<Rightarrow> string \<Rightarrow> (dhcp_state \<times> dhcp_error) option" where
  "dhcp_server_unregister env st container =
     (if \<not> list_ex (\<lambda>s. s \<noteq> [] \<and> s = container) (dh_servers st) then Some (st, DHCP_ERR_NOT_FOUND)
      else saved env (st\<lparr>dh_servers := map (\<lambda>s. if s \<noteq> [] \<and> s = container then [] else s) (dh_servers st),
                         dh_networks := map (drop_server container) (dh_networks st)\<rparr>))"

definition dhcp_server_forget :: "write_env \<Rightarrow> dhcp_state \<Rightarrow> string \<Rightarrow> dhcp_state option" where
  "dhcp_server_forget env st container =
     (if dhcp_server_is_registered st container then map_option fst (dhcp_server_unregister env st container) else Some st)"

section \<open>Loading\<close>

definition load_server :: "json \<Rightarrow> string option" where
  "load_server v = (case json_as_string (Some v) of None \<Rightarrow> None
     | Some nm \<Rightarrow> if nm = [] then None else Some (snprintf_s DHCP_SERVER_NAME_MAX nm))"

definition parse_ip :: "string option \<Rightarrow> ip" where
  "parse_ip s = (case s of None \<Rightarrow> 0 | Some s \<Rightarrow> (case inet_pton s of None \<Rightarrow> 0 | Some a \<Rightarrow> a))"

definition load_network :: "json \<Rightarrow> dhcp_network option" where
  "load_network e =
     (case json_as_string (json_object_get (Some e) ''network'') of
        None \<Rightarrow> None
      | Some name \<Rightarrow>
          if name = [] then None
          else Some \<lparr>dn_network = snprintf_s DHCP_NETWORK_NAME_MAX name,
            dn_enabled = (json_object_get (Some e) ''enabled'' = Some (JBool True)),
            dn_range_start = parse_ip (json_as_string (json_object_get (Some e) ''range_start'')),
            dn_range_end = parse_ip (json_as_string (json_object_get (Some e) ''range_end'')),
            dn_lease_seconds = d2i (json_as_number (json_object_get (Some e) ''lease_seconds'')),
            dn_router = parse_ip (json_as_string (json_object_get (Some e) ''router'')),
            dn_servers = load_slots DHCP_MAX_RANGE_SERVERS load_server (array_items (json_object_get (Some e) ''servers'')) []\<rparr>)"

definition load_static :: "json \<Rightarrow> dhcp_static option" where
  "load_static e =
     (let mac = json_as_string (json_object_get (Some e) ''mac''); host = json_as_string (json_object_get (Some e) ''hostname'') in
      if \<not> mac_is_valid mac then None
      else Some \<lparr>ds_mac = snprintf_s DHCP_MAC_MAX (the mac),
        ds_ip = parse_ip (json_as_string (json_object_get (Some e) ''ip'')),
        ds_hostname = (case host of None \<Rightarrow> [] | Some h \<Rightarrow> snprintf_s DHCP_HOSTNAME_MAX h)\<rparr>)"

definition load_tables :: "json \<Rightarrow> dhcp_state \<Rightarrow> dhcp_state" where
  "load_tables tree st = st\<lparr>
     dh_servers := fill_slots DHCP_MAX_SERVERS [] (load_slots DHCP_MAX_SERVERS load_server (array_items (json_object_get (Some tree) ''servers'')) []),
     dh_networks := fill_slots DHCP_MAX_NETWORKS blank_range (load_slots DHCP_MAX_NETWORKS load_network (array_items (json_object_get (Some tree) ''networks'')) []),
     dh_statics := fill_slots DHCP_MAX_STATIC blank_static (load_slots DHCP_MAX_STATIC load_static (array_items (json_object_get (Some tree) ''static'')) [])\<rparr>"

definition dhcp_init :: "read_env \<Rightarrow> dhcp_state \<Rightarrow> string \<Rightarrow> dhcp_state \<times> int" where
  "dhcp_init env st path =
     (let st = st\<lparr>dh_state_path := snprintf_s 512 path, dh_networks := replicate DHCP_MAX_NETWORKS blank_range,
                  dh_statics := replicate DHCP_MAX_STATIC blank_static, dh_servers := replicate DHCP_MAX_SERVERS []\<rparr>
      in case persist_read_file env path (hd (dh_fs st)) of
           ReadErr \<Rightarrow> (st, - 1)
         | ReadAbsent \<Rightarrow> (st, 0)
         | ReadData d \<Rightarrow> (case json_parse d of None \<Rightarrow> (st, 0) | Some tree \<Rightarrow> (load_tables tree st, 0)))"

definition dhcp_repoint :: "dhcp_state \<Rightarrow> string \<Rightarrow> dhcp_state" where
  "dhcp_repoint st path = st\<lparr>dh_state_path := snprintf_s 512 path\<rparr>"

section \<open>Ranges and reservations\<close>

text \<open>What an enabled range must have.\<close>

definition range_refused :: "dhcp_network \<Rightarrow> bool" where
  "range_refused cfg =
     (dn_range_start cfg = 0 \<or> dn_range_end cfg = 0 \<or> dn_range_end cfg < dn_range_start cfg \<or>
      dn_lease_seconds cfg < 60 \<or> 30 * 24 * 3600 < dn_lease_seconds cfg \<or> length (dn_servers cfg) < 1)"

definition dhcp_network_set :: "write_env \<Rightarrow> dhcp_state \<Rightarrow> dhcp_network \<Rightarrow> (dhcp_state \<times> dhcp_error) option" where
  "dhcp_network_set env st cfg =
     (if dn_network cfg = [] then Some (st, DHCP_ERR_INVALID)
      else if dn_enabled cfg \<and> range_refused cfg then Some (st, DHCP_ERR_INVALID)
      else case (case net_find (dh_networks st) (dn_network cfg) of None \<Rightarrow> net_free (dh_networks st) | Some i \<Rightarrow> Some i) of
          None \<Rightarrow> Some (st, DHCP_ERR_FULL)
        | Some slot \<Rightarrow> saved env (st\<lparr>dh_networks := (dh_networks st)[slot := cfg]\<rparr>))"

definition dhcp_network_delete :: "write_env \<Rightarrow> dhcp_state \<Rightarrow> string \<Rightarrow> (dhcp_state \<times> dhcp_error) option" where
  "dhcp_network_delete env st network =
     (case net_find (dh_networks st) network of
        None \<Rightarrow> Some (st, DHCP_ERR_NOT_FOUND)
      | Some slot \<Rightarrow> saved env (st\<lparr>dh_networks := (dh_networks st)[slot := blank_range]\<rparr>))"

definition dhcp_forget_network :: "write_env \<Rightarrow> dhcp_state \<Rightarrow> string \<Rightarrow> dhcp_state option" where
  "dhcp_forget_network env st network = map_option fst (dhcp_network_delete env st network)"

definition dhcp_static_add :: "write_env \<Rightarrow> dhcp_state \<Rightarrow> dhcp_static \<Rightarrow> (dhcp_state \<times> dhcp_error) option" where
  "dhcp_static_add env st entry =
     (if \<not> mac_is_valid (Some (ds_mac entry)) \<or> ds_ip entry = 0 then Some (st, DHCP_ERR_INVALID)
      else if ds_hostname entry \<noteq> [] \<and> \<not> hostname_is_valid (ds_hostname entry) then Some (st, DHCP_ERR_INVALID)
      else if static_find (dh_statics st) (ds_mac entry) \<noteq> None then Some (st, DHCP_ERR_DUPLICATE)
      else if list_ex (\<lambda>s. ds_mac s \<noteq> [] \<and> ds_ip s = ds_ip entry) (dh_statics st) then Some (st, DHCP_ERR_DUPLICATE)
      else case static_free (dh_statics st) of
          None \<Rightarrow> Some (st, DHCP_ERR_FULL)
        | Some slot \<Rightarrow> saved env (st\<lparr>dh_statics := (dh_statics st)[slot := entry]\<rparr>))"

definition dhcp_static_delete :: "write_env \<Rightarrow> dhcp_state \<Rightarrow> string option \<Rightarrow> (dhcp_state \<times> dhcp_error) option" where
  "dhcp_static_delete env st mac =
     (case mac of
        None \<Rightarrow> Some (st, DHCP_ERR_INVALID)
      | Some m \<Rightarrow>
          (case static_find (dh_statics st) m of
             None \<Rightarrow> Some (st, DHCP_ERR_NOT_FOUND)
           | Some slot \<Rightarrow> saved env (st\<lparr>dh_statics := (dh_statics st)[slot := blank_static]\<rparr>)))"

section \<open>Configuration files\<close>

text \<open>\<open>snprintf\<close> at the end of what is written so far; a text that does not fit ends the rendering.\<close>

definition append_text :: "nat \<Rightarrow> string \<Rightarrow> string \<Rightarrow> string option" where
  "append_text out_size out t = (if out_size - length out \<le> length t then None else Some (out @ t))"

definition newline :: string where "newline = [CHR 0x0A]"

definition conf_banner :: string where
  "conf_banner = concat (map (\<lambda>l. l @ newline) [
     ''# Rendered by cixd -- every edit here is overwritten.'',
     ''# Ranges take effect only when dnsmasq starts, which is why'',
     ''# changing one restarts this container.'',
     ''# Only this server's own slice of each range appears here:'',
     ''# dnsmasq has no failover protocol, so two servers on one'',
     ''# wire are safe only because their pools do not overlap.'',
     ''# Each range is tagged with its network name, and every'',
     ''# option is tagged to match. dnsmasq picks a RANGE by the'',
     ''# subnet of the interface a request arrived on, but an'',
     ''# untagged OPTION goes to every client on every range -- so'',
     ''# one server on two networks would hand both segments the'',
     ''# same default gateway.''])"

text \<open>The slice of a range that the named server gets, if the range names it.\<close>

definition conf_slice :: "dhcp_state \<Rightarrow> string \<Rightarrow> dhcp_network \<Rightarrow> (ip \<times> ip) option" where
  "conf_slice st server_name n =
     (let on_net = servers_for_network st n DHCP_MAX_RANGE_SERVERS in
      case find_index (\<lambda>s. s = server_name) on_net of
        None \<Rightarrow> None
      | Some index \<Rightarrow> dhcp_slice_for n index (length on_net))"

fun render_networks :: "dhcp_state \<Rightarrow> string \<Rightarrow> nat \<Rightarrow> dhcp_network list \<Rightarrow> string \<Rightarrow> string option" where
  "render_networks st server_name out_size [] out = Some out"
| "render_networks st server_name out_size (n # ns) out =
     (if dn_network n = [] \<or> \<not> dn_enabled n then render_networks st server_name out_size ns out
      else case conf_slice st server_name n of
          None \<Rightarrow> render_networks st server_name out_size ns out
        | Some (a, b) \<Rightarrow>
            do { out \<leftarrow> append_text out_size out (''dhcp-range=set:'' @ dn_network n @ '','' @ inet_ntop a @ '','' @
                   inet_ntop b @ '','' @ int_dec (dn_lease_seconds n) @ ''s'' @ newline);
                 out \<leftarrow> append_text out_size out
                   (if dn_router n \<noteq> 0 then ''dhcp-option=tag:'' @ dn_network n @ '',3,'' @ inet_ntop (dn_router n) @ newline
                    else ''dhcp-option=tag:'' @ dn_network n @ '',option:router'' @ newline);
                 render_networks st server_name out_size ns out })"

definition dhcp_render_conf :: "dhcp_state \<Rightarrow> string \<Rightarrow> nat \<Rightarrow> string option" where
  "dhcp_render_conf st server_name out_size =
     do { out \<leftarrow> append_text out_size [] conf_banner;
          render_networks st server_name out_size (dh_networks st) out }"

fun render_statics :: "nat \<Rightarrow> dhcp_static list \<Rightarrow> string \<Rightarrow> string option" where
  "render_statics out_size [] out = Some out"
| "render_statics out_size (s # ss) out =
     (if ds_mac s = [] then render_statics out_size ss out
      else do { out \<leftarrow> append_text out_size out
                  (if ds_hostname s \<noteq> [] then ds_mac s @ '','' @ inet_ntop (ds_ip s) @ '','' @ ds_hostname s @ newline
                   else ds_mac s @ '','' @ inet_ntop (ds_ip s) @ newline);
                render_statics out_size ss out })"

definition dhcp_render_hosts :: "dhcp_state \<Rightarrow> nat \<Rightarrow> string option" where
  "dhcp_render_hosts st out_size =
     do { out \<leftarrow> append_text out_size [] (''# Rendered by cixd -- every edit here is overwritten.'' @ newline);
          render_statics out_size (dh_statics st) out }"

section \<open>Putting files into force\<close>

text \<open>The slot of a server among those whose text is remembered, taken when the server has none.\<close>

definition conf_in_force_slot :: "dhcp_state \<Rightarrow> string \<Rightarrow> dhcp_state \<times> nat option" where
  "conf_in_force_slot st name =
     (case find_index (\<lambda>n. n \<noteq> [] \<and> n = name) (dh_conf_name st) of
        Some i \<Rightarrow> (st, Some i)
      | None \<Rightarrow>
          (case find_index (\<lambda>n. n = []) (dh_conf_name st) of
             None \<Rightarrow> (st, None)
           | Some i \<Rightarrow> (st\<lparr>dh_conf_name := (dh_conf_name st)[i := snprintf_s DHCP_SERVER_NAME_MAX name],
                           dh_conf_text := (dh_conf_text st)[i := []]\<rparr>, Some i)))"

definition container_file_host_path :: "string \<Rightarrow> string \<Rightarrow> string \<Rightarrow> nat \<Rightarrow> string" where
  "container_file_host_path rootfs_dir container_name rel_path out_size =
     snprintf_s out_size (rootfs_dir @ ''/'' @ container_name @ rel_path)"

definition write_into :: "write_env \<Rightarrow> string \<Rightarrow> string \<Rightarrow> dhcp_state \<Rightarrow> dhcp_state" where
  "write_into env path data st =
     st\<lparr>dh_fs := fst (persist_atomic_write env path data (hd (dh_fs st))) @ tl (dh_fs st)\<rparr>"

text \<open>
  What the loop asks of its surroundings: which containers run, where their file systems are and how
  the two writes for a server end.  \<open>changed\<close> is the list the caller takes, if it takes one.
\<close>

record sync_env =
  se_running :: "string \<Rightarrow> bool"
  se_rootfs_dir :: string
  se_write_conf :: "string \<Rightarrow> write_env"
  se_write_hosts :: "string \<Rightarrow> write_env"

definition sync_one :: "sync_env \<Rightarrow> nat option \<Rightarrow> string \<Rightarrow> dhcp_state \<times> string list \<Rightarrow> string \<Rightarrow> dhcp_state \<times> string list" where
  "sync_one env max_changed hosts sc name =
     (case sc of (st, changed) \<Rightarrow>
      (case dhcp_render_conf st name 4096 of
         None \<Rightarrow> (st, changed)
       | Some conf \<Rightarrow>
           let (st, slot) = conf_in_force_slot st name;
               (st, changed) =
                 (case slot of
                    None \<Rightarrow> (st, changed)
                  | Some i \<Rightarrow>
                      if dh_conf_text st ! i = conf then (st, changed)
                      else (st\<lparr>dh_conf_text := (dh_conf_text st)[i := snprintf_s 4096 conf]\<rparr>,
                            case max_changed of None \<Rightarrow> changed
                              | Some m \<Rightarrow> if length changed < m then changed @ [snprintf_s DHCP_SERVER_NAME_MAX name] else changed))
           in if \<not> se_running env name then (st, changed)
              else let st = write_into (se_write_conf env name) (container_file_host_path (se_rootfs_dir env) name DHCP_CONF_PATH 128) conf st;
                       st = write_into (se_write_hosts env name) (container_file_host_path (se_rootfs_dir env) name DHCP_HOSTS_PATH 128) hosts st
                   in (st\<lparr>dh_signalled := dh_signalled st @ [name]\<rparr>, changed)))"

definition dhcp_sync_all :: "sync_env \<Rightarrow> nat option \<Rightarrow> dhcp_state \<Rightarrow> dhcp_state \<times> string list" where
  "dhcp_sync_all env max_changed st =
     (case dhcp_render_hosts st 8192 of
        None \<Rightarrow> (st, [])
      | Some hosts \<Rightarrow> foldl (sync_one env max_changed hosts) (st, []) (dhcp_server_list st DHCP_MAX_SERVERS))"

end
