(* ===== verification/Dhcp_Props.thy ===== *)
theory Dhcp_Props
  imports Dhcp "HOL-Library.Disjoint_Sets"
begin

text \<open>
  What the DHCP store promises.  Servers have no shared lease database, so the safety of serving one
  range from several of them is that their slices are disjoint; the first section shows this for the
  slices.  Then the lines of the rendered files, the round trip of the saved document, the invariant of
  the tables, what the servers hand out when they read the files rendered for them, and which servers
  a change makes the daemon restart.
\<close>

section \<open>Slices\<close>

definition pool :: "(ip \<times> ip) option \<Rightarrow> ip set" where
  "pool s = (case s of None \<Rightarrow> {} | Some (a, b) \<Rightarrow> {a..b})"

text \<open>Where slice \<open>i\<close> of \<open>n\<close> begins among \<open>t\<close> addresses.\<close>

definition slice_at :: "nat \<Rightarrow> nat \<Rightarrow> nat \<Rightarrow> nat" where
  "slice_at t n i = t div n * i + min i (t mod n)"

lemma slice_at_ends: "slice_at t n 0 = 0" "0 < n \<Longrightarrow> slice_at t n n = t"
  using mod_less_divisor [of n t] by (simp_all add: slice_at_def min_absorb2)

lemma slice_at_Suc: "slice_at t n (Suc i) = slice_at t n i + (t div n + (if i < t mod n then 1 else 0))"
  by (auto simp: slice_at_def min_def)

lemma slice_at_less: "0 < n \<Longrightarrow> n \<le> t \<Longrightarrow> slice_at t n i < slice_at t n (Suc i)"
  using div_greater_zero_iff [of t n] by (simp add: slice_at_Suc)

lemma slice_at_mono: "i \<le> j \<Longrightarrow> slice_at t n i \<le> slice_at t n j"
  by (rule lift_Suc_mono_le [of "slice_at t n"]) (simp add: slice_at_Suc)

lemma slice_at_total: "0 < n \<Longrightarrow> i \<le> n \<Longrightarrow> slice_at t n i \<le> t"
  using slice_at_mono [of i n t n] by (simp add: slice_at_ends)

text \<open>The addresses of a range, without wrap-around.\<close>

definition range_total :: "dhcp_network \<Rightarrow> nat" where
  "range_total cfg = unat (dn_range_end cfg) - unat (dn_range_start cfg) + 1"

lemma slice_bounds:
  assumes "1 < n" "n < 2 ^ 32" "i < n" "dhcp_slice_for cfg i n = Some (a, b)"
  shows "dn_range_start cfg \<le> dn_range_end cfg \<and> n \<le> range_total cfg \<and> range_total cfg < 2 ^ 32 \<and>
    unat a = unat (dn_range_start cfg) + slice_at (range_total cfg) n i \<and>
    unat b + 1 = unat (dn_range_start cfg) + slice_at (range_total cfg) n (Suc i)"
proof -
  let ?F = "dn_range_start cfg" and ?E = "dn_range_end cfg"
  let ?T = "range_total cfg" and ?total = "?E - ?F + 1"
  have le: "?F \<le> ?E" using assms by (auto simp: dhcp_slice_for_def Let_def not_less split: if_split_asm)
  then have d: "unat (?E - ?F) = unat ?E - unat ?F" by (simp add: unat_sub word_le_nat_alt)
  have T: "?T \<le> 2 ^ 32" using unsigned_less [of ?E, where ?'a = nat] by (simp add: range_total_def)
  have ut: "unat ?total = (if ?T = 2 ^ 32 then 0 else ?T)"
    using T d by (auto simp: range_total_def unat_word_ariths)
  have nn: "unat (word_of_nat n :: ip) = n" using assms(2) by (simp add: unat_of_nat)
  have ge: "\<not> ?total < word_of_nat n" using assms le by (auto simp: dhcp_slice_for_def Let_def split: if_split_asm)
  then have nT: "n \<le> unat ?total" by (simp add: word_less_nat_alt nn not_less)
  then have T32: "?T < 2 ^ 32" "unat ?total = ?T" using T ut assms(1) by (auto split: if_split_asm)
  have ii: "unat (word_of_nat i :: ip) = i" using assms(2,3) by (simp add: unat_of_nat)
  let ?base = "?total div word_of_nat n" and ?extra = "?total mod word_of_nat n"
  have b: "?base = word_of_nat (?T div n)" 
    unfolding word_unat_eq_iff unat_div T32(2) nn using T32(1) by (simp add: unat_of_nat div_le_dividend [THEN le_less_trans])
  have e: "?extra = word_of_nat (?T mod n)" 
    unfolding word_unat_eq_iff unat_mod T32(2) nn using T32(1) by (simp add: unat_of_nat mod_less_eq_dividend [THEN le_less_trans])
  have c: "word_of_nat i < ?extra \<longleftrightarrow> i < ?T mod n" 
    unfolding word_less_nat_alt unat_mod T32(2) nn ii ..
  have s: "?F + ?base * word_of_nat i + (if word_of_nat i < ?extra then word_of_nat i else ?extra) = word_of_nat (unat ?F + slice_at ?T n i)"
    unfolding c unfolding b e by (auto simp: slice_at_def min_def)
  have t: "?base + (if word_of_nat i < ?extra then 1 else 0) = word_of_nat (?T div n + (if i < ?T mod n then 1 else 0))"
    unfolding c unfolding b e by auto
  have ab: "a = word_of_nat (unat ?F + slice_at ?T n i)" "b = a + word_of_nat (?T div n + (if i < ?T mod n then 1 else 0)) - 1"
    using assms(1,4) le ge unfolding dhcp_slice_for_def Let_def s t by (auto split: if_split_asm)
  have ub: "unat ?F + slice_at ?T n j \<le> 2 ^ 32" if "j \<le> n" for j
    using slice_at_total [of n j ?T] that assms(1) le unsigned_less [of ?E, where ?'a = nat] by (simp add: range_total_def word_le_nat_alt)
  have lt: "slice_at ?T n i < slice_at ?T n (Suc i)" using slice_at_less [of n ?T i] nT T32(2) assms(1) by simp
  have a': "unat a = unat ?F + slice_at ?T n i" 
    unfolding ab(1) unat_of_nat using ub [of "Suc i"] lt assms(3) by simp
  have "b = word_of_nat (unat ?F + slice_at ?T n (Suc i)) - 1" by (simp add: ab slice_at_Suc)
  moreover have "1 \<le> unat ?F + slice_at ?T n (Suc i)" using lt by simp
  ultimately have b': "b = word_of_nat (unat ?F + slice_at ?T n (Suc i) - 1)" by (simp only: of_nat_diff of_nat_1)
  have "unat b = unat ?F + slice_at ?T n (Suc i) - 1"
    unfolding b' unat_of_nat using ub [of "Suc i"] lt assms(3) by simp
  then show ?thesis using le nT T32 a' lt by simp
qed

lemma pool_iff:
  assumes "1 < n" "n < 2 ^ 32" "i < n" "dhcp_slice_for cfg i n \<noteq> None"
  shows "x \<in> pool (dhcp_slice_for cfg i n) \<longleftrightarrow>
    unat (dn_range_start cfg) + slice_at (range_total cfg) n i \<le> unat x \<and>
    unat x < unat (dn_range_start cfg) + slice_at (range_total cfg) n (Suc i)"
proof -
  obtain a b where ab: "dhcp_slice_for cfg i n = Some (a, b)" using assms(4) by auto
  from slice_bounds [OF assms(1-3) this] show ?thesis by (auto simp: pool_def ab word_le_nat_alt)
qed

text \<open>Whatever the range and however many servers, two slices never share an address.\<close>

lemma slices_disjoint:
  assumes "n < 2 ^ 32" "i < n" "j < n" "i \<noteq> j"
  shows "pool (dhcp_slice_for cfg i n) \<inter> pool (dhcp_slice_for cfg j n) = {}"
proof (rule ccontr)
  assume "\<not> ?thesis"
  then obtain x where x: "x \<in> pool (dhcp_slice_for cfg i n)" "x \<in> pool (dhcp_slice_for cfg j n)" by blast
  then have s: "dhcp_slice_for cfg i n \<noteq> None" "dhcp_slice_for cfg j n \<noteq> None" by (auto simp: pool_def split: option.split_asm)
  have n: "1 < n" using assms(2-4) by linarith
  note b = x [unfolded pool_iff [OF n assms(1,2) s(1)] pool_iff [OF n assms(1,3) s(2)]]
  have "slice_at t n (Suc i) \<le> slice_at t n j \<or> slice_at t n (Suc j) \<le> slice_at t n i" for t
    using assms(4) slice_at_mono [of "Suc i" j t n] slice_at_mono [of "Suc j" i t n] by linarith
  from this [of "range_total cfg"] b show False by linarith
qed

lemma slice_defined:
  assumes "\<not> range_refused cfg" "0 < n" "n \<le> range_total cfg" "n < 2 ^ 32"
  shows "dhcp_slice_for cfg i n \<noteq> None"
proof -
  let ?F = "dn_range_start cfg" and ?E = "dn_range_end cfg"
  have le: "unat ?F \<le> unat ?E" "0 < unat ?F" using assms(1) by (auto simp: range_refused_def word_le_nat_alt not_less unat_gt_0)
  then have "range_total cfg < 2 ^ 32" using unsigned_less [of ?E, where ?'a = nat] by (simp add: range_total_def)
  moreover have "unat (?E - ?F) = unat ?E - unat ?F" using le by (simp add: unat_sub word_le_nat_alt)
  ultimately have "unat (?E - ?F + 1) = range_total cfg" by (auto simp: range_total_def unat_word_ariths)
  then have "\<not> ?E - ?F + 1 < word_of_nat n" using assms(3,4) by (simp add: word_less_nat_alt unat_of_nat)
  moreover have "\<not> ?E < ?F" using le(1) by (simp add: word_less_nat_alt not_less)
  ultimately show ?thesis by (simp add: dhcp_slice_for_def Let_def)
qed

lemma slices_cover:
  assumes "\<not> range_refused cfg" "0 < n" "n \<le> range_total cfg" "n < 2 ^ 32"
  shows "(\<Union>i < n. pool (dhcp_slice_for cfg i n)) = {dn_range_start cfg..dn_range_end cfg}"
proof (cases "n = 1")
  case True
  then show ?thesis by (simp add: lessThan_Suc dhcp_slice_for_def pool_def)
next
  case False
  then have n: "1 < n" using assms(2) by simp
  let ?F = "unat (dn_range_start cfg)" and ?at = "slice_at (range_total cfg) n"
  note iff = pool_iff [OF n assms(4) _ slice_defined [OF assms]]
  have final: "?F + ?at n = unat (dn_range_end cfg) + 1" using assms(1,2)
    by (auto simp: slice_at_ends range_total_def range_refused_def not_less word_le_nat_alt)
  show ?thesis
  proof (intro set_eqI iffI)
    fix x
    assume "x \<in> (\<Union>i < n. pool (dhcp_slice_for cfg i n))"
    then obtain i where i: "i < n" "x \<in> pool (dhcp_slice_for cfg i n)" by auto
    then have "?F \<le> unat x" "unat x < ?F + ?at (Suc i)" using iff [OF i(1)] by auto
    moreover have "?at (Suc i) \<le> ?at n" using i(1) by (intro slice_at_mono) simp
    ultimately show "x \<in> {dn_range_start cfg..dn_range_end cfg}" using final by (simp add: word_le_nat_alt)
  next
    fix x
    assume x: "x \<in> {dn_range_start cfg..dn_range_end cfg}"
    define k where "k = (LEAST k. unat x < ?F + ?at (Suc k))"
    have last: "unat x < ?F + ?at (Suc (n - 1))" using x final n by (simp add: word_le_nat_alt)
    then have k: "unat x < ?F + ?at (Suc k)" "k \<le> n - 1" unfolding k_def by (rule LeastI, rule Least_le)
    have "?F + ?at k \<le> unat x"
    proof (cases k)
      case 0
      then show ?thesis using x by (simp add: slice_at_ends word_le_nat_alt)
    next
      case (Suc l)
      then have "\<not> unat x < ?F + ?at (Suc l)" 
        using not_less_Least [of l "\<lambda>k. unat x < ?F + ?at (Suc k)"] unfolding k_def by simp
      then show ?thesis using Suc by simp
    qed
    moreover have "k < n" using k(2) n by linarith
    ultimately show "x \<in> (\<Union>i < n. pool (dhcp_slice_for cfg i n))" using k(1) iff [of k x] by blast
  qed
qed

text \<open>
  C13. A range that is split loses no address and gives none away twice (\<open>dhcp_slice_for\<close>): of a range the
  store accepts, with at least one address for each of the \<open>n\<close> servers, the slices are pairwise
  disjoint and together are the range.
\<close>

theorem dhcp_slices_partition:
  assumes "\<not> range_refused cfg" and "0 < n" "n \<le> range_total cfg" "n \<le> DHCP_MAX_RANGE_SERVERS"
  shows "(\<Union>i < n. pool (dhcp_slice_for cfg i n)) = {dn_range_start cfg..dn_range_end cfg} \<and>
    disjoint_family_on (\<lambda>i. pool (dhcp_slice_for cfg i n)) {..<n}"
proof -
  have "n < 2 ^ 32" using assms(4) by (simp add: DHCP_MAX_RANGE_SERVERS_def)
  then show ?thesis
    using slices_cover [OF assms(1-3)] slices_disjoint [of n] by (simp add: disjoint_family_on_def)
qed

definition sample_range :: dhcp_network where
  "sample_range = \<lparr>dn_network = ''lan'', dn_enabled = True, dn_range_start = 0xC0A80F0A, dn_range_end = 0xC0A80F13,
     dn_lease_seconds = 3600, dn_router = 0, dn_servers = [''a'', ''b'', ''c'']\<rparr>"

theorem dhcp_slices_partition_witness:
  "pool (dhcp_slice_for sample_range 0 3) \<union> pool (dhcp_slice_for sample_range 1 3) \<union> pool (dhcp_slice_for sample_range 2 3) =
     {0xC0A80F0A..0xC0A80F13} \<and> dhcp_slice_for sample_range 0 3 = Some (0xC0A80F0A, 0xC0A80F0D)"
proof -
  have "\<not> range_refused sample_range" "3 \<le> range_total sample_range" "(3 :: nat) \<le> DHCP_MAX_RANGE_SERVERS"
    by (simp_all add: range_refused_def sample_range_def range_total_def DHCP_MAX_RANGE_SERVERS_def)
  from dhcp_slices_partition [OF this(1) _ this(2,3)]
  have "(\<Union>i < 3. pool (dhcp_slice_for sample_range i 3)) = {0xC0A80F0A..0xC0A80F13}" by (simp add: sample_range_def)
  moreover have "{..<3 :: nat} = {0, 1, 2}" by auto
  ultimately show ?thesis by (simp add: Un_ac dhcp_slice_for_def sample_range_def)
qed

section \<open>The rendered files\<close>

text \<open>The lines of one range in the file of a server.\<close>

definition conf_lines :: "dhcp_state \<Rightarrow> string \<Rightarrow> dhcp_network \<Rightarrow> string" where
  "conf_lines st s n = (case conf_slice st s n of None \<Rightarrow> []
     | Some (a, b) \<Rightarrow>
         ''dhcp-range=set:'' @ dn_network n @ '','' @ inet_ntop a @ '','' @ inet_ntop b @ '','' @ int_dec (dn_lease_seconds n) @ ''s'' @ newline @
         (if dn_router n \<noteq> 0 then ''dhcp-option=tag:'' @ dn_network n @ '',3,'' @ inet_ntop (dn_router n) @ newline
          else ''dhcp-option=tag:'' @ dn_network n @ '',option:router'' @ newline))"

definition active :: "dhcp_network \<Rightarrow> bool" where
  "active n = (dn_network n \<noteq> [] \<and> dn_enabled n)"

lemma append_text_Some: "append_text k out t = Some out' \<longleftrightarrow> length out + length t < k \<and> out' = out @ t"
  by (auto simp: append_text_def)

lemma render_networks_Some:
  "length out < k \<Longrightarrow> render_networks st s k ns out = Some text \<longleftrightarrow>
     text = out @ concat (map (conf_lines st s) (filter active ns)) \<and> length text < k"
proof (induction ns arbitrary: out)
  case Nil
  then show ?case by auto
next
  case (Cons n ns)
  show ?case
  proof (cases "active n \<and> conf_slice st s n \<noteq> None")
    case False
    then have "render_networks st s k (n # ns) out = render_networks st s k ns out" "active n \<Longrightarrow> conf_lines st s n = []"
      by (cases "conf_slice st s n"; simp add: active_def conf_lines_def)+
    with Cons.IH [OF Cons.prems] show ?thesis by auto
  next
    case True
    then obtain a b where ab: "conf_slice st s n = Some (a, b)" by auto
    define l where "l = ''dhcp-range=set:'' @ dn_network n @ '','' @ inet_ntop a @ '','' @ inet_ntop b @ '','' @ int_dec (dn_lease_seconds n) @ ''s'' @ newline"
    define m where "m = (if dn_router n \<noteq> 0 then ''dhcp-option=tag:'' @ dn_network n @ '',3,'' @ inet_ntop (dn_router n) @ newline
        else ''dhcp-option=tag:'' @ dn_network n @ '',option:router'' @ newline)"
    have lm: "conf_lines st s n = l @ m" by (simp add: conf_lines_def ab l_def m_def)
    have r: "render_networks st s k (n # ns) out = append_text k out l \<bind> (\<lambda>out. append_text k out m \<bind> render_networks st s k ns)"
      using True unfolding l_def m_def by (simp add: active_def ab cong: Option.bind_cong)
    show ?thesis
    proof (cases "length out + length (l @ m) < k")
      case fits: True
      then have "append_text k out l = Some (out @ l)" "append_text k (out @ l) m = Some ((out @ l) @ m)" by (simp_all only: append_text_Some) auto
      then have "render_networks st s k (n # ns) out = render_networks st s k ns (out @ l @ m)" unfolding r by simp
      with Cons.IH [of "out @ l @ m"] fits True show ?thesis by (simp add: lm)
    next
      case False
      then have "render_networks st s k (n # ns) out = None" unfolding r by (auto simp: append_text_def)
      with False True show ?thesis by (auto simp: lm)
    qed
  qed
qed

lemma render_conf_Some:
  "dhcp_render_conf st s k = Some text \<longleftrightarrow>
     text = conf_banner @ concat (map (conf_lines st s) (filter active (dh_networks st))) \<and> length text < k"
proof (cases "length conf_banner < k")
  case True
  then show ?thesis using render_networks_Some [of conf_banner k] by (auto simp: dhcp_render_conf_def append_text_def)
next
  case False
  then show ?thesis by (auto simp: dhcp_render_conf_def append_text_def)
qed

section \<open>The saved document\<close>

definition server_ok :: "string \<Rightarrow> bool" where
  "server_ok s = (s \<noteq> [] \<and> length s < DHCP_SERVER_NAME_MAX \<and> is_c_str s)"

definition range_ok :: "dhcp_network \<Rightarrow> bool" where
  "range_ok n = (dn_network n \<noteq> [] \<and> length (dn_network n) < DHCP_NETWORK_NAME_MAX \<and> is_c_str (dn_network n) \<and>
     INT_MIN \<le> dn_lease_seconds n \<and> dn_lease_seconds n \<le> INT_MAX \<and>
     length (dn_servers n) \<le> DHCP_MAX_RANGE_SERVERS \<and> list_all server_ok (dn_servers n) \<and> (dn_enabled n \<longrightarrow> \<not> range_refused n))"

definition static_ok :: "dhcp_static \<Rightarrow> bool" where
  "static_ok s = (mac_is_valid (Some (ds_mac s)) \<and> ds_ip s \<noteq> 0 \<and> (ds_hostname s = [] \<or> hostname_is_valid (ds_hostname s)))"

type_synonym dhcp_tables = "string list \<times> dhcp_network list \<times> dhcp_static list"

definition tables_ok :: "dhcp_tables \<Rightarrow> bool" where
  "tables_ok t = (case t of (servers, ranges, statics) \<Rightarrow>
     length servers \<le> DHCP_MAX_SERVERS \<and> list_all server_ok servers \<and>
     length ranges \<le> DHCP_MAX_NETWORKS \<and> list_all range_ok ranges \<and>
     length statics \<le> DHCP_MAX_STATIC \<and> list_all static_ok statics)"

definition tables :: "dhcp_state \<Rightarrow> dhcp_tables" where
  "tables st = (used_servers st, used_networks st, used_statics st)"

definition ip_tree :: "ip \<Rightarrow> json" where
  "ip_tree a = (if a \<noteq> 0 then JString (inet_ntop a) else JNull)"

definition range_tree :: "dhcp_network \<Rightarrow> json" where
  "range_tree n = JObject [(''network'', JString (dn_network n)), (''enabled'', JBool (dn_enabled n)),
     (''range_start'', ip_tree (dn_range_start n)), (''range_end'', ip_tree (dn_range_end n)),
     (''lease_seconds'', JNumber (ll2d (dn_lease_seconds n))), (''servers'', JArray (map JString (dn_servers n))),
     (''router'', ip_tree (dn_router n))]"

definition static_tree :: "dhcp_static \<Rightarrow> json" where
  "static_tree s = JObject [(''mac'', JString (ds_mac s)), (''ip'', JString (inet_ntop (ds_ip s))), (''hostname'', JString (ds_hostname s))]"

definition dhcp_tree :: "dhcp_tables \<Rightarrow> json" where
  "dhcp_tree t = (case t of (servers, ranges, statics) \<Rightarrow>
     JObject [(''servers'', JArray (map JString servers)), (''networks'', JArray (map range_tree ranges)), (''static'', JArray (map static_tree statics))])"

definition dhcp_text :: "dhcp_tables \<Rightarrow> string" where
  "dhcp_text t = render (dhcp_tree t)"

definition dhcp_decode :: "string \<Rightarrow> dhcp_tables option" where
  "dhcp_decode d = map_option (\<lambda>tree.
     (load_slots DHCP_MAX_SERVERS load_server (array_items (json_object_get (Some tree) ''servers'')) [],
      load_slots DHCP_MAX_NETWORKS load_network (array_items (json_object_get (Some tree) ''networks'')) [],
      load_slots DHCP_MAX_STATIC load_static (array_items (json_object_get (Some tree) ''static'')) [])) (json_parse d)"

lemma lease_small: "INT_MIN \<le> i \<Longrightarrow> i \<le> INT_MAX \<Longrightarrow> \<bar>i\<bar> < 2 ^ 53"
  by (simp add: INT_MIN_def INT_MAX_def)

lemma lease_exact: "INT_MIN \<le> i \<Longrightarrow> i \<le> INT_MAX \<Longrightarrow> exact_number (ll2d i)"
  using lease_small by simp

lemma ip_tree_facts: "parse_ip (json_as_string (Some (ip_tree a))) = a" "jw_ip w a = jw_value w (ip_tree a)"
  "exact_json (ip_tree a)" "nesting (ip_tree a) = 0"
  by (simp_all add: ip_tree_def parse_ip_def json_as_string_def jw_ip_def)

lemma load_server_tree: "server_ok s \<Longrightarrow> load_server (JString s) = Some s"
  by (simp add: server_ok_def load_server_def json_as_string_def DHCP_SERVER_NAME_MAX_def)

lemma load_network_tree: "range_ok n \<Longrightarrow> load_network (range_tree n) = Some n"
  using ip_tree_facts(1)
  by (simp add: range_ok_def load_network_def range_tree_def json_object_get_def json_as_string_def json_as_number_def array_items_def
      list_all_iff load_server_tree load_slots_map DHCP_NETWORK_NAME_MAX_def d2i_ll2d lease_small)

lemma load_static_tree: "static_ok s \<Longrightarrow> load_static (static_tree s) = Some s"
  by (auto simp: static_ok_def load_static_def static_tree_def json_object_get_def json_as_string_def Let_def parse_ip_def
      mac_is_valid_def hostname_is_valid_def DHCP_MAC_MAX_def snprintf_s_def)

lemma mac_c_str: "mac_is_valid (Some m) \<Longrightarrow> is_c_str m"
  by (auto simp: mac_is_valid_def is_c_str_def list_all_length mac_char_ok_def NUL_def less_eq_char_def split: if_split_asm)

lemma hostname_c_str: "hostname_is_valid h \<Longrightarrow> is_c_str h"
  by (fastforce simp: hostname_is_valid_def is_c_str_def list_all_iff NUL_def less_eq_char_def)

lemma dhcp_tree_exact: "tables_ok t \<Longrightarrow> exact_json (dhcp_tree t)"
  by (auto simp: tables_ok_def dhcp_tree_def range_tree_def static_tree_def exact_items_map list_all_iff range_ok_def server_ok_def
      static_ok_def ip_tree_facts lease_exact NUL_def mac_c_str hostname_c_str split: prod.split)

interpretation dhcp_store: config_store persist_atomic_write tmp_path tables_ok dhcp_text dhcp_decode
proof unfold_locales
  fix t
  assume ok: "tables_ok t"
  obtain servers ranges statics where t: "t = (servers, ranges, statics)" by (cases t)
  have "json_parse (dhcp_text t) = Some (dhcp_tree t)" using dhcp_tree_exact [OF ok] unfolding dhcp_text_def by (rule json_parse_render)
  then show "dhcp_decode (dhcp_text t) = Some t"
    using ok by (simp add: dhcp_decode_def t dhcp_tree_def json_object_get_def array_items_def tables_ok_def list_all_iff
        load_slots_map load_server_tree load_network_tree load_static_tree)
qed

lemma dhcp_document_text:
  assumes "tables_ok (tables st)"
  shows "\<exists>w. dhcp_document st = Some w \<and> jw_buf w = dhcp_text (tables st)"
proof -
  have strs: "jw_each jw_str w ss = jw_items w (map JString ss)" for w ss by (rule jw_each_items) simp
  have rng: "dhcp_network_write_json st False w n = jw_value w (range_tree n)" if "range_ok n" for w n
    unfolding dhcp_network_write_json_def range_tree_def ip_tree_facts(2)
    using that lease_small [of "dn_lease_seconds n"] strs by (simp add: range_ok_def jw_int_value bind_assoc del: jw_value.simps(3))
  then have rngs: "jw_each (dhcp_network_write_json st False) w (used_networks st) = jw_items w (map range_tree (used_networks st))" for w
    using assms by (intro jw_each_items) (simp add: tables_ok_def tables_def list_all_iff)
  have stat: "write_static False w s = jw_value w (static_tree s)" for w s by (simp add: write_static_def static_tree_def)
  then have stats: "jw_each (write_static False) w (used_statics st) = jw_items w (map static_tree (used_statics st))" for w
    by (intro jw_each_items) simp
  have "dhcp_document st = jw_value (jw_init blank_writer) (dhcp_tree (tables st))"
    unfolding dhcp_document_def strs rngs stats by (simp add: dhcp_tree_def tables_def bind_assoc)
  moreover have "nesting (dhcp_tree (tables st)) \<le> JW_MAX_DEPTH"
    by (auto simp: dhcp_tree_def tables_def range_tree_def static_tree_def nesting_items_le nesting_members_le ip_tree_facts JW_MAX_DEPTH_def)
  ultimately show ?thesis using jw_value_blank [of "dhcp_tree (tables st)"] by (simp add: dhcp_text_def)
qed

lemma init_tables:
  assumes "persist_read_file env path (hd (dh_fs st)) = ReadData (dhcp_text t)" "tables_ok t"
  shows "tables (fst (dhcp_init env st path)) = t" "snd (dhcp_init env st path) = 0"
proof -
  obtain servers ranges statics where t: "t = (servers, ranges, statics)" by (cases t)
  obtain tree where tree: "json_parse (dhcp_text t) = Some tree"
    "load_slots DHCP_MAX_SERVERS load_server (array_items (json_object_get (Some tree) ''servers'')) [] = servers"
    "load_slots DHCP_MAX_NETWORKS load_network (array_items (json_object_get (Some tree) ''networks'')) [] = ranges"
    "load_slots DHCP_MAX_STATIC load_static (array_items (json_object_get (Some tree) ''static'')) [] = statics"
    using dhcp_store.decode_encode [OF assms(2)] by (auto simp: dhcp_decode_def t)
  have e: "dhcp_init env st path = (load_tables tree (st\<lparr>dh_state_path := snprintf_s 512 path, dh_networks := replicate DHCP_MAX_NETWORKS blank_range,
                  dh_statics := replicate DHCP_MAX_STATIC blank_static, dh_servers := replicate DHCP_MAX_SERVERS []\<rparr>), 0)"
    using assms(1) tree(1) by (simp add: dhcp_init_def Let_def)
  have "list_all (\<lambda>s. s \<noteq> []) servers" "list_all (\<lambda>n. dn_network n \<noteq> []) ranges" "list_all (\<lambda>s. ds_mac s \<noteq> []) statics"
    using assms(2) by (auto simp: t tables_ok_def list_all_iff server_ok_def range_ok_def static_ok_def mac_is_valid_def)
  then show "tables (fst (dhcp_init env st path)) = t" "snd (dhcp_init env st path) = 0"
    unfolding e by (simp_all add: tables_def t load_tables_def tree used_servers_def used_networks_def used_statics_def filter_fill_slots
        blank_range_def blank_static_def)
qed

text \<open>A save leaves the tables as they are; when it succeeds, the file is their text.\<close>

lemma save_cases:
  assumes "tables_ok (tables st)"
  obtains v rc where "dhcp_save_state env st = Some (st\<lparr>dh_fs := v @ tl (dh_fs st)\<rparr>, rc)" "v \<noteq> []"
      "persist_atomic_write env (dh_state_path st) (dhcp_text (tables st)) (hd (dh_fs st)) = (v, rc)" "dh_state_path st \<noteq> []"
  | "dhcp_save_state env st = Some (st, - 1)"
proof -
  obtain w where w: "dhcp_document st = Some w" "jw_buf w = dhcp_text (tables st)" using dhcp_document_text [OF assms] by blast
  obtain v rc where p: "persist_atomic_write env (dh_state_path st) (dhcp_text (tables st)) (hd (dh_fs st)) = (v, rc)" by force
  then have "v \<noteq> []" using pw.visited_nonempty [of env "dh_state_path st" "dhcp_text (tables st)" "hd (dh_fs st)"] by simp
  with w p that show ?thesis by (cases "dh_state_path st = [] \<or> 16384 \<le> length (dhcp_text (tables st))") (auto simp: dhcp_save_state_def)
qed

section \<open>The tables stay sound\<close>

datatype dhcp_request = Register string | Unregister string | Set_Range dhcp_network | Delete_Range string
  | Add_Static dhcp_static | Delete_Static string | Restart read_env

fun perform :: "write_env \<Rightarrow> dhcp_request \<Rightarrow> dhcp_state \<Rightarrow> (dhcp_state \<times> dhcp_error) option" where
  "perform env (Register c) st = dhcp_server_register env st (Some c)"
| "perform env (Unregister c) st = dhcp_server_unregister env st c"
| "perform env (Set_Range n) st = dhcp_network_set env st n"
| "perform env (Delete_Range n) st = dhcp_network_delete env st n"
| "perform env (Add_Static s) st = dhcp_static_add env st s"
| "perform env (Delete_Static m) st = dhcp_static_delete env st (Some m)"
| "perform env (Restart renv) st = Some (map_prod id (\<lambda>rc. if rc = 0 then DHCP_OK else DHCP_ERR_PERSIST_FAILED)
     (dhcp_init renv st (dh_state_path st)))"

text \<open>What the C types and the callers guarantee of an argument.\<close>

fun request_ok :: "dhcp_request \<Rightarrow> bool" where
  "request_ok (Register c) = (length c < DHCP_SERVER_NAME_MAX \<and> is_c_str c)"
| "request_ok (Set_Range n) = (length (dn_network n) < DHCP_NETWORK_NAME_MAX \<and> is_c_str (dn_network n) \<and>
     INT_MIN \<le> dn_lease_seconds n \<and> dn_lease_seconds n \<le> INT_MAX \<and>
     length (dn_servers n) \<le> DHCP_MAX_RANGE_SERVERS \<and> list_all server_ok (dn_servers n))"
| "request_ok _ = True"

definition tables_unique :: "dhcp_tables \<Rightarrow> bool" where
  "tables_unique t = (case t of (servers, ranges, statics) \<Rightarrow>
     distinct servers \<and> distinct (map dn_network ranges) \<and> distinct (map ds_mac statics) \<and> distinct (map ds_ip statics))"

definition saved_text :: "string \<Rightarrow> bool" where
  "saved_text d = (\<exists>t. d = dhcp_text t \<and> tables_ok t \<and> tables_unique t)"

lemma saved_textI: "tables_ok t \<Longrightarrow> tables_unique t \<Longrightarrow> saved_text (dhcp_text t)"
  unfolding saved_text_def by blast

definition dhcp_inv :: "dhcp_state \<Rightarrow> bool" where
  "dhcp_inv st = (length (dh_servers st) = DHCP_MAX_SERVERS \<and> length (dh_networks st) = DHCP_MAX_NETWORKS \<and>
     length (dh_statics st) = DHCP_MAX_STATIC \<and> length (dh_state_path st) < 512 \<and> tables_ok (tables st) \<and> tables_unique (tables st) \<and>
     (case hd (dh_fs st) (dh_state_path st) of None \<Rightarrow> True | Some d \<Rightarrow> saved_text d))"

inductive dhcp_reachable :: "dhcp_state \<Rightarrow> bool" where
  reach_start: "dh_servers st = replicate DHCP_MAX_SERVERS [] \<Longrightarrow> dh_networks st = replicate DHCP_MAX_NETWORKS blank_range \<Longrightarrow>
    dh_statics st = replicate DHCP_MAX_STATIC blank_static \<Longrightarrow> length (dh_state_path st) < 512 \<Longrightarrow>
    hd (dh_fs st) (dh_state_path st) = None \<Longrightarrow> dhcp_reachable st"
| reach_step: "dhcp_reachable st \<Longrightarrow> request_ok req \<Longrightarrow> perform env req st = Some (st', r) \<Longrightarrow> dhcp_reachable st'"

lemma filter_update:
  assumes "i < length t"
  shows "filter Q (t[i := e]) = filter Q (take i t) @ (if Q e then [e] else []) @ filter Q (drop (Suc i) t)"
    "filter Q t = filter Q (take i t) @ (if Q (t ! i) then [t ! i] else []) @ filter Q (drop (Suc i) t)"
  using assms id_take_nth_drop [OF assms] by (simp_all add: upd_conv_take_nth_drop) (metis filter.simps(2) filter_append)

text \<open>A slot that was free, or held the same key, keeps the keys of the used slots distinct.\<close>

lemma distinct_update:
  assumes "i < length t" "distinct (map f (filter Q t))"
    and "Q e \<Longrightarrow> (\<not> Q (t ! i) \<and> f e \<notin> f ` set (filter Q t)) \<or> (Q (t ! i) \<and> f (t ! i) = f e)"
  shows "distinct (map f (filter Q (t[i := e])))"
  using assms(2,3) unfolding filter_update(1) [OF assms(1)] filter_update(2) [OF assms(1), of Q] by (auto split: if_split_asm)

lemma list_all_update: "list_all P (filter Q t) \<Longrightarrow> (Q e \<Longrightarrow> P e) \<Longrightarrow> list_all P (filter Q (t[i := e]))"
  by (auto simp: list_all_iff dest: set_update_subset_insert [THEN subsetD])

lemma drop_server_facts: "dn_network (drop_server c n) = dn_network n" "range_ok n \<Longrightarrow> range_ok (drop_server c n)"
proof -
  show "dn_network (drop_server c n) = dn_network n" by (simp add: drop_server_def Let_def)
  assume ok: "range_ok n"
  have "length (remove1 c (dn_servers n)) \<le> length (dn_servers n)" "set (remove1 c (dn_servers n)) \<subseteq> set (dn_servers n)"
    by (simp_all add: length_remove1 set_remove1_subset)
  then show "range_ok (drop_server c n)"
    using ok by (auto simp: drop_server_def Let_def range_ok_def range_refused_def list_all_iff Suc_le_eq)
qed

lemma used_after_unregister:
  "filter (\<lambda>s. s \<noteq> []) (map (\<lambda>s. if s \<noteq> [] \<and> s = c then [] else s) ss) = filter (\<lambda>s. s \<noteq> c) (filter (\<lambda>s. s \<noteq> []) ss)"
  "filter (\<lambda>n. dn_network n \<noteq> []) (map (drop_server c) ns) = map (drop_server c) (filter (\<lambda>n. dn_network n \<noteq> []) ns)"
  by (induction ss) (auto, induction ns, auto simp: drop_server_facts)

lemma tables_update [simp]: "tables (st\<lparr>dh_fs := v\<rparr>) = tables st"
  by (simp add: tables_def used_servers_def used_networks_def used_statics_def)

lemma saved_inv:
  assumes "dhcp_inv st" "saved env st = Some (st', r)"
  shows "dhcp_inv st' \<and> tables st' = tables st \<and> dh_state_path st' = dh_state_path st \<and>
    (r = DHCP_OK \<longrightarrow> hd (dh_fs st') (dh_state_path st) = Some (dhcp_text (tables st)))"
proof -
  have ok: "tables_ok (tables st)" "tables_unique (tables st)" using assms(1) by (simp_all add: dhcp_inv_def)
  from ok(1) show ?thesis
  proof (rule save_cases [of st env])
    fix v rc
    assume s: "dhcp_save_state env st = Some (st\<lparr>dh_fs := v @ tl (dh_fs st)\<rparr>, rc)" "v \<noteq> []"
      "persist_atomic_write env (dh_state_path st) (dhcp_text (tables st)) (hd (dh_fs st)) = (v, rc)"
    have st': "st' = st\<lparr>dh_fs := v @ tl (dh_fs st)\<rparr>" "r = DHCP_OK \<longleftrightarrow> rc = 0"
      using assms(2) s(1) by (auto simp: saved_def split: if_split_asm)
    obtain f w where v: "v = f # w" using s(2) by (cases v) auto
    have "f (dh_state_path st) = (if rc = 0 then Some (dhcp_text (tables st)) else hd (dh_fs st) (dh_state_path st))"
      using pw.after_any [of env "dh_state_path st" "dhcp_text (tables st)" "hd (dh_fs st)" f w rc] s(3) v by simp
    then show ?thesis using assms(1) ok unfolding st' by (auto simp: dhcp_inv_def v saved_textI split: if_split_asm)
  next
    assume "dhcp_save_state env st = Some (st, - 1)"
    with assms show ?thesis by (auto simp: saved_def)
  qed
qed

text \<open>The tables after each operation, before the save.\<close>

lemma inv_tables:
  "dhcp_inv st \<Longrightarrow> length ss = DHCP_MAX_SERVERS \<Longrightarrow> length ns = DHCP_MAX_NETWORKS \<Longrightarrow> length ts = DHCP_MAX_STATIC \<Longrightarrow>
   tables_ok (filter (\<lambda>s. s \<noteq> []) ss, filter (\<lambda>n. dn_network n \<noteq> []) ns, filter (\<lambda>s. ds_mac s \<noteq> []) ts) \<Longrightarrow>
   tables_unique (filter (\<lambda>s. s \<noteq> []) ss, filter (\<lambda>n. dn_network n \<noteq> []) ns, filter (\<lambda>s. ds_mac s \<noteq> []) ts) \<Longrightarrow>
   dhcp_inv (st\<lparr>dh_servers := ss, dh_networks := ns, dh_statics := ts\<rparr>)"
  by (simp add: dhcp_inv_def tables_def used_servers_def used_networks_def used_statics_def)

lemma inv_facts:
  assumes "dhcp_inv st"
  shows "length (dh_servers st) = DHCP_MAX_SERVERS" "length (dh_networks st) = DHCP_MAX_NETWORKS" "length (dh_statics st) = DHCP_MAX_STATIC"
    "list_all server_ok (filter (\<lambda>s. s \<noteq> []) (dh_servers st))" "list_all range_ok (filter (\<lambda>n. dn_network n \<noteq> []) (dh_networks st))"
    "list_all static_ok (filter (\<lambda>s. ds_mac s \<noteq> []) (dh_statics st))"
    "distinct (filter (\<lambda>s. s \<noteq> []) (dh_servers st))" "distinct (map dn_network (filter (\<lambda>n. dn_network n \<noteq> []) (dh_networks st)))"
    "distinct (map ds_mac (filter (\<lambda>s. ds_mac s \<noteq> []) (dh_statics st)))" "distinct (map ds_ip (filter (\<lambda>s. ds_mac s \<noteq> []) (dh_statics st)))"
  using assms by (simp_all add: dhcp_inv_def tables_ok_def tables_unique_def tables_def used_servers_def used_networks_def used_statics_def)

lemma length_filter_slots: "length t = n \<Longrightarrow> length (filter Q t) \<le> n"
  using length_filter_le by blast

lemma inv_set_servers:
  assumes "dhcp_inv st" "length ss = DHCP_MAX_SERVERS" "list_all server_ok (filter (\<lambda>s. s \<noteq> []) ss)" "distinct (filter (\<lambda>s. s \<noteq> []) ss)"
  shows "dhcp_inv (st\<lparr>dh_servers := ss\<rparr>)"
  using inv_tables [OF assms(1,2) inv_facts(2,3) [OF assms(1)]] inv_facts [OF assms(1)] assms(2-4)
  by (simp add: tables_ok_def tables_unique_def length_filter_slots)

lemma inv_set_networks:
  assumes "dhcp_inv st" "length ns = DHCP_MAX_NETWORKS" "list_all range_ok (filter (\<lambda>n. dn_network n \<noteq> []) ns)"
    "distinct (map dn_network (filter (\<lambda>n. dn_network n \<noteq> []) ns))"
  shows "dhcp_inv (st\<lparr>dh_networks := ns\<rparr>)"
  using inv_tables [OF assms(1) inv_facts(1) [OF assms(1)] assms(2) inv_facts(3) [OF assms(1)]] inv_facts [OF assms(1)] assms(2-4)
  by (simp add: tables_ok_def tables_unique_def length_filter_slots)

lemma inv_set_statics:
  assumes "dhcp_inv st" "length ts = DHCP_MAX_STATIC" "list_all static_ok (filter (\<lambda>s. ds_mac s \<noteq> []) ts)"
    "distinct (map ds_mac (filter (\<lambda>s. ds_mac s \<noteq> []) ts))" "distinct (map ds_ip (filter (\<lambda>s. ds_mac s \<noteq> []) ts))"
  shows "dhcp_inv (st\<lparr>dh_statics := ts\<rparr>)"
  using inv_tables [OF assms(1) inv_facts(1,2) [OF assms(1)] assms(2)] inv_facts [OF assms(1)] assms(2-5)
  by (simp add: tables_ok_def tables_unique_def length_filter_slots)

text \<open>An operation refuses and changes nothing, or saves a state with sound tables.\<close>

definition sound_op :: "dhcp_state \<Rightarrow> write_env \<Rightarrow> (dhcp_state \<times> dhcp_error) option \<Rightarrow> bool" where
  "sound_op st env res = ((\<exists>r. r \<noteq> DHCP_OK \<and> res = Some (st, r)) \<or> (\<exists>s. dhcp_inv s \<and> dh_state_path s = dh_state_path st \<and> res = saved env s))"

lemma sound_refuse: "r \<noteq> DHCP_OK \<Longrightarrow> sound_op st env (Some (st, r))"
  by (auto simp: sound_op_def)

lemma sound_saved: "dhcp_inv s \<Longrightarrow> dh_state_path s = dh_state_path st \<Longrightarrow> sound_op st env (saved env s)"
  by (auto simp: sound_op_def)

lemma sound_register:
  assumes "dhcp_inv st" "length c < DHCP_SERVER_NAME_MAX" "is_c_str c"
  shows "sound_op st env (dhcp_server_register env st (Some c))"
proof -
  let ?t = "\<lambda>slot. (dh_servers st)[slot := snprintf_s DHCP_SERVER_NAME_MAX c]"
  have cut: "snprintf_s DHCP_SERVER_NAME_MAX c = c" using assms(2) by (simp add: snprintf_s_def)
  have "dhcp_inv (st\<lparr>dh_servers := ?t slot\<rparr>)"
    if new: "c \<noteq> []" "\<not> dhcp_server_is_registered st c" and slot: "find_index (\<lambda>s. s = []) (dh_servers st) = Some slot" for slot
  proof (rule inv_set_servers [OF assms(1)])
    note i = find_index_Some [OF slot]
    have "distinct (map id (filter (\<lambda>s. s \<noteq> []) (?t slot)))"
      using i new inv_facts(7) [OF assms(1)]
      by (intro distinct_update) (auto simp: cut dhcp_server_is_registered_def list_ex_iff)
    then show "distinct (filter (\<lambda>s. s \<noteq> []) (?t slot))" by simp
    show "list_all server_ok (filter (\<lambda>s. s \<noteq> []) (?t slot))"
      using inv_facts(4) [OF assms(1)] new assms(2,3) by (intro list_all_update) (simp_all add: cut server_ok_def)
  qed (use inv_facts [OF assms(1)] in simp)
  then show ?thesis unfolding dhcp_server_register_def by (auto intro!: sound_refuse sound_saved split: option.split)
qed

lemma sound_unregister:
  assumes "dhcp_inv st"
  shows "sound_op st env (dhcp_server_unregister env st c)"
proof -
  note f = inv_facts [OF assms]
  let ?ss = "map (\<lambda>s. if s \<noteq> [] \<and> s = c then [] else s) (dh_servers st)"
  have "dhcp_inv (st\<lparr>dh_servers := ?ss\<rparr>)"
  proof (rule inv_set_servers [OF assms])
    show "distinct (filter (\<lambda>s. s \<noteq> []) ?ss)" unfolding used_after_unregister by (rule distinct_filter [OF f(7)])
    show "list_all server_ok (filter (\<lambda>s. s \<noteq> []) ?ss)" unfolding used_after_unregister using f(4) by (auto simp: list_all_iff)
  qed (use f in simp)
  moreover have "list_all range_ok (filter (\<lambda>n. dn_network n \<noteq> []) (map (drop_server c) (dh_networks st)))"
    "map dn_network (filter (\<lambda>n. dn_network n \<noteq> []) (map (drop_server c) (dh_networks st))) =
       map dn_network (filter (\<lambda>n. dn_network n \<noteq> []) (dh_networks st))"
    unfolding used_after_unregister using f(5) by (auto simp: list_all_iff drop_server_facts)
  ultimately have "dhcp_inv (st\<lparr>dh_servers := ?ss, dh_networks := map (drop_server c) (dh_networks st)\<rparr>)"
    using f inv_set_networks [of "st\<lparr>dh_servers := ?ss\<rparr>" "map (drop_server c) (dh_networks st)"] by simp
  then show ?thesis unfolding dhcp_server_unregister_def by (auto intro!: sound_refuse sound_saved)
qed

lemma sound_set_range:
  assumes "dhcp_inv st" "request_ok (Set_Range n)"
  shows "sound_op st env (dhcp_network_set env st n)"
proof -
  note f = inv_facts [OF assms(1)]
  have "dhcp_inv (st\<lparr>dh_networks := (dh_networks st)[slot := n]\<rparr>)"
    if named: "dn_network n \<noteq> []" and proper: "\<not> (dn_enabled n \<and> range_refused n)"
      and slot: "(case net_find (dh_networks st) (dn_network n) of None \<Rightarrow> net_free (dh_networks st) | Some i \<Rightarrow> Some i) = Some slot" for slot
  proof (rule inv_set_networks [OF assms(1)])
    have i: "slot < length (dh_networks st) \<and> ((dn_network (dh_networks st ! slot) = [] \<and>
        (\<forall>m \<in> set (dh_networks st). dn_network m \<noteq> [] \<longrightarrow> dn_network m \<noteq> dn_network n)) \<or>
        dn_network (dh_networks st ! slot) = dn_network n)"
    proof (cases "net_find (dh_networks st) (dn_network n)")
      case None
      then have "net_free (dh_networks st) = Some slot" using slot by simp
      then show ?thesis using None by (auto simp: net_find_def net_free_def find_index_None dest!: find_index_Some)
    next
      case (Some j)
      then show ?thesis using slot by (auto simp: net_find_def dest!: find_index_Some)
    qed
    show "distinct (map dn_network (filter (\<lambda>n. dn_network n \<noteq> []) ((dh_networks st)[slot := n])))"
      using i named f(8) by (intro distinct_update) auto
    show "list_all range_ok (filter (\<lambda>n. dn_network n \<noteq> []) ((dh_networks st)[slot := n]))"
      using f(5) assms(2) proper by (intro list_all_update) (simp_all add: range_ok_def)
  qed (use f in simp)
  then show ?thesis unfolding dhcp_network_set_def by (auto intro!: sound_refuse sound_saved split: option.split)
qed

lemma sound_delete_range:
  assumes "dhcp_inv st"
  shows "sound_op st env (dhcp_network_delete env st n)"
proof -
  note f = inv_facts [OF assms]
  have "dhcp_inv (st\<lparr>dh_networks := (dh_networks st)[slot := blank_range]\<rparr>)" if "net_find (dh_networks st) n = Some slot" for slot
    using that f(2,5,8) by (intro inv_set_networks [OF assms] distinct_update list_all_update)
      (auto simp: net_find_def blank_range_def dest!: find_index_Some)
  then show ?thesis unfolding dhcp_network_delete_def by (auto intro!: sound_refuse sound_saved split: option.split)
qed

lemma sound_add_static:
  assumes "dhcp_inv st"
  shows "sound_op st env (dhcp_static_add env st s)"
proof -
  note f = inv_facts [OF assms]
  have "dhcp_inv (st\<lparr>dh_statics := (dh_statics st)[slot := s]\<rparr>)"
    if "mac_is_valid (Some (ds_mac s))" "ds_ip s \<noteq> 0" "ds_hostname s = [] \<or> hostname_is_valid (ds_hostname s)"
      "static_find (dh_statics st) (ds_mac s) = None" "\<not> list_ex (\<lambda>x. ds_mac x \<noteq> [] \<and> ds_ip x = ds_ip s) (dh_statics st)"
      "static_free (dh_statics st) = Some slot" for slot
  proof (rule inv_set_statics [OF assms])
    have i: "slot < length (dh_statics st)" "ds_mac (dh_statics st ! slot) = []"
      using that(6) by (auto simp: static_free_def dest!: find_index_Some)
    show "distinct (map ds_mac (filter (\<lambda>s. ds_mac s \<noteq> []) ((dh_statics st)[slot := s])))"
      using i f(9) that(4) by (intro distinct_update) (auto simp: static_find_def find_index_None)
    show "distinct (map ds_ip (filter (\<lambda>s. ds_mac s \<noteq> []) ((dh_statics st)[slot := s])))"
      using i f(10) that(5) by (intro distinct_update) (auto simp: list_ex_iff)
    show "list_all static_ok (filter (\<lambda>s. ds_mac s \<noteq> []) ((dh_statics st)[slot := s]))"
      using f(6) that(1-3) by (intro list_all_update) (simp_all add: static_ok_def)
  qed (use f in simp)
  then show ?thesis unfolding dhcp_static_add_def by (auto intro!: sound_refuse sound_saved split: option.split)
qed

lemma sound_delete_static:
  assumes "dhcp_inv st"
  shows "sound_op st env (dhcp_static_delete env st m)"
proof -
  note f = inv_facts [OF assms]
  have "dhcp_inv (st\<lparr>dh_statics := (dh_statics st)[slot := blank_static]\<rparr>)" if "static_find (dh_statics st) n = Some slot" for slot n
    using that f(3,6,9,10) by (intro inv_set_statics [OF assms] distinct_update list_all_update)
      (auto simp: static_find_def blank_static_def dest!: find_index_Some)
  then show ?thesis unfolding dhcp_static_delete_def by (auto intro!: sound_refuse sound_saved split: option.split)
qed

lemma blank_tables:
  assumes "dh_servers st = replicate DHCP_MAX_SERVERS []" "dh_networks st = replicate DHCP_MAX_NETWORKS blank_range"
    "dh_statics st = replicate DHCP_MAX_STATIC blank_static"
  shows "tables st = ([], [], [])"
  using assms by (simp add: tables_def used_servers_def used_networks_def used_statics_def blank_range_def blank_static_def)

lemma no_tables_ok: "tables_ok ([], [], [])" "tables_unique ([], [], [])"
  by (simp_all add: tables_ok_def tables_unique_def)

lemma init_frame:
  assumes "dhcp_init renv st path = (st', rc)"
  shows "dh_fs st' = dh_fs st" "dh_state_path st' = snprintf_s 512 path" "length (dh_servers st') = DHCP_MAX_SERVERS"
    "length (dh_networks st') = DHCP_MAX_NETWORKS" "length (dh_statics st') = DHCP_MAX_STATIC"
  using assms by (auto simp: dhcp_init_def Let_def load_tables_def length_fill_slots length_load_slots split: read_result.split_asm option.split_asm)

text \<open>What a start loads, whatever the reads of the file return.\<close>

lemma restart_tables:
  assumes "dhcp_inv st" "dhcp_init renv st (dh_state_path st) = (st', rc)"
  shows "tables st' = ([], [], []) \<and> (rc \<noteq> 0 \<or> hd (dh_fs st) (dh_state_path st) = None) \<or>
    rc = 0 \<and> tables_ok (tables st') \<and> tables_unique (tables st') \<and> hd (dh_fs st) (dh_state_path st) = Some (dhcp_text (tables st'))"
proof (cases "persist_read_file renv (dh_state_path st) (hd (dh_fs st))")
  case ReadErr
  then show ?thesis using assms(2) blank_tables by (auto simp: dhcp_init_def)
next
  case ReadAbsent
  then show ?thesis using assms(2) blank_tables read_absent by (auto simp: dhcp_init_def)
next
  case (ReadData d)
  then have d: "hd (dh_fs st) (dh_state_path st) = Some d" by (rule read_sound)
  then obtain t where t: "d = dhcp_text t" "tables_ok t" "tables_unique t" using assms(1) by (auto simp: dhcp_inv_def saved_text_def)
  then show ?thesis using init_tables [of renv "dh_state_path st" st t] ReadData assms(2) d by auto
qed

lemma restart_inv:
  assumes "dhcp_inv st" "dhcp_init renv st (dh_state_path st) = (st', rc)"
  shows "dhcp_inv st'"
proof -
  have "snprintf_s 512 (dh_state_path st) = dh_state_path st" using assms(1) by (simp add: dhcp_inv_def snprintf_s_def)
  then show ?thesis
    using restart_tables [OF assms] init_frame [OF assms(2)] assms(1) no_tables_ok by (auto simp: dhcp_inv_def)
qed

lemma perform_sound:
  assumes "dhcp_inv st" "request_ok req" "\<nexists>renv. req = Restart renv"
  shows "sound_op st env (perform env req st)"
  using assms sound_register sound_unregister sound_set_range sound_delete_range sound_add_static sound_delete_static
  by (cases req) simp_all

lemma dhcp_text_inj: "tables_ok t \<Longrightarrow> tables_ok u \<Longrightarrow> dhcp_text t = dhcp_text u \<Longrightarrow> t = u"
  using dhcp_store.decode_encode [of t] dhcp_store.decode_encode [of u] by (metis option.inject)

lemma perform_inv:
  assumes "dhcp_inv st" "request_ok req" "perform env req st = Some (st', r)"
  shows "dhcp_inv st'" "r = DHCP_OK \<Longrightarrow> hd (dh_fs st') (dh_state_path st') = Some (dhcp_text (tables st')) \<or>
    hd (dh_fs st') (dh_state_path st') = None \<and> tables st' = ([], [], [])"
proof -
  have "dhcp_inv st' \<and> (r = DHCP_OK \<longrightarrow> hd (dh_fs st') (dh_state_path st') = Some (dhcp_text (tables st')) \<or>
    hd (dh_fs st') (dh_state_path st') = None \<and> tables st' = ([], [], []))"
  proof (cases "\<exists>renv. req = Restart renv")
    case True
    then obtain renv rc where i: "dhcp_init renv st (dh_state_path st) = (st', rc)" "r = DHCP_OK \<longleftrightarrow> rc = 0"
      using assms(3) by (cases "dhcp_init (case req of Restart renv \<Rightarrow> renv) st (dh_state_path st)") (auto split: if_split_asm)
    have "snprintf_s 512 (dh_state_path st) = dh_state_path st" using assms(1) by (simp add: dhcp_inv_def snprintf_s_def)
    then show ?thesis using restart_inv [OF assms(1) i(1)] restart_tables [OF assms(1) i(1)] init_frame [OF i(1)] i(2) by auto
  next
    case False
    then have "sound_op st env (Some (st', r))" using perform_sound [OF assms(1,2), of env] assms(3) by metis
    then show ?thesis using assms(1) saved_inv unfolding sound_op_def by (metis option.inject prod.inject)
  qed
  then show "dhcp_inv st'" "r = DHCP_OK \<Longrightarrow> hd (dh_fs st') (dh_state_path st') = Some (dhcp_text (tables st')) \<or>
    hd (dh_fs st') (dh_state_path st') = None \<and> tables st' = ([], [], [])" by blast+
qed

lemma reachable_inv: "dhcp_reachable st \<Longrightarrow> dhcp_inv st"
proof (induction rule: dhcp_reachable.induct)
  case (reach_start st)
  then show ?case using blank_tables [of st] no_tables_ok by (simp add: dhcp_inv_def)
next
  case (reach_step st req env st' r)
  then show ?case using perform_inv(1) by blast
qed

text \<open>
  C14. The tables are sound in every state requests and restarts lead to (\<open>dhcp.c\<close>): every registered server,
  network and reservation once, no two reservations for one address, valid names, addresses and MACs,
  and every enabled range has its addresses in order, a lease time in bounds and a server.
\<close>

theorem dhcp_tables_sound:
  assumes "dhcp_reachable st"
  shows "tables_ok (tables st) \<and> tables_unique (tables st)"
  using reachable_inv [OF assms] by (simp add: dhcp_inv_def)

text \<open>
  A restart loads what was acknowledged (\<open>dhcp_init\<close> after any request that was answered with \<open>DHCP_OK\<close>): exactly the
  servers, ranges and reservations the daemon had, each in its order.
\<close>

theorem dhcp_restart:
  assumes "dhcp_reachable st" "request_ok req" "perform env req st = Some (st', DHCP_OK)"
  shows "tables (fst (dhcp_init healthy_read st' (dh_state_path st'))) = tables st'"
proof -
  obtain s rc where i: "dhcp_init healthy_read st' (dh_state_path st') = (s, rc)" by force
  note inv = perform_inv [OF reachable_inv [OF assms(1)] assms(2,3)]
  have ok: "tables_ok (tables st')" using inv(1) by (simp add: dhcp_inv_def)
  have "rc = 0" using i by (cases "hd (dh_fs st') (dh_state_path st')") (auto simp: dhcp_init_def Let_def split: option.split_asm)
  from inv(2) [OF refl] show ?thesis
  proof
    assume "hd (dh_fs st') (dh_state_path st') = Some (dhcp_text (tables st'))"
    then have "tables_ok (tables s)" "dhcp_text (tables s) = dhcp_text (tables st')"
      using restart_tables [OF inv(1) i] \<open>rc = 0\<close> by simp_all
    then show ?thesis using dhcp_text_inj ok i by simp
  next
    assume "hd (dh_fs st') (dh_state_path st') = None \<and> tables st' = ([], [], [])"
    then show ?thesis using restart_tables [OF inv(1) i] i by simp
  qed
qed

section \<open>What a server hands out\<close>

text \<open>
  How dnsmasq reads the file of a server: line by line, each line by its fields.  A line
  \<open>dhcp-range=set:NET,A,B,LEASE\<close> hands out the addresses from \<open>A\<close> to \<open>B\<close> under the tag \<open>NET\<close>.
\<close>

fun fields_of :: "char \<Rightarrow> string \<Rightarrow> string list" where
  "fields_of c [] = [[]]"
| "fields_of c (d # s) =
     (if d = c then [] # fields_of c s else case fields_of c s of [] \<Rightarrow> [[d]] | w # ws \<Rightarrow> (d # w) # ws)"

definition range_of_line :: "string \<Rightarrow> string \<Rightarrow> ip set" where
  "range_of_line net l =
     (case fields_of (CHR '','') l of
        [tag, a, b, lease] \<Rightarrow>
          if tag = ''dhcp-range=set:'' @ net
          then (case (inet_pton a, inet_pton b) of (Some x, Some y) \<Rightarrow> {x..y} | _ \<Rightarrow> {})
          else {}
      | _ \<Rightarrow> {})"

definition file_pool :: "string \<Rightarrow> string \<Rightarrow> ip set" where
  "file_pool net text = (\<Union>l \<in> set (fields_of (CHR 0x0A) text). range_of_line net l)"

text \<open>What a server hands out on a network once it runs with the file rendered for it.\<close>

definition server_pool :: "dhcp_state \<Rightarrow> string \<Rightarrow> string \<Rightarrow> ip set" where
  "server_pool st net s = (case dhcp_render_conf st s 4096 of None \<Rightarrow> {} | Some text \<Rightarrow> file_pool net text)"

lemma fields_of_word: "c \<notin> set w \<Longrightarrow> fields_of c (w @ c # s) = w # fields_of c s"
  by (induction w) auto

lemma fields_of_last: "c \<notin> set w \<Longrightarrow> fields_of c w = [w]"
  by (induction w) auto

lemma fields_of_prefix: "fields_of c s = w # ws \<Longrightarrow> \<exists>r. s = w @ r"
  by (induction s arbitrary: w ws) (auto split: if_split_asm list.split_asm)

lemma fields_of_lines:
  "\<forall>l \<in> set ls. CHR 0x0A \<notin> set l \<Longrightarrow> fields_of (CHR 0x0A) (concat (map (\<lambda>l. l @ newline) ls)) = ls @ [[]]"
  by (induction ls) (auto simp: newline_def fields_of_word)

lemma range_of_other_line: "(\<And>r. l \<noteq> ''dhcp-range=set:'' @ r) \<Longrightarrow> range_of_line net l = {}"
  using fields_of_prefix [of "CHR '',''" l "''dhcp-range=set:'' @ net"]
  by (auto simp: range_of_line_def split: list.split)

lemma dec_plain: "\<not> is_digit c \<Longrightarrow> c \<notin> set (nat_dec n)" "\<not> is_digit c \<Longrightarrow> c \<noteq> CHR ''-'' \<Longrightarrow> c \<notin> set (int_dec i)"
  using nat_dec_digits by (auto simp: int_dec_def)

lemma ntop_plain: "\<not> is_digit c \<Longrightarrow> c \<noteq> CHR ''.'' \<Longrightarrow> c \<notin> set (inet_ntop a)"
  by (simp add: inet_ntop_def Let_def dec_plain)

lemma not_digits: "\<not> is_digit (CHR '','')" "\<not> is_digit (CHR 0x0A)"
  by (simp_all add: is_digit_def)

lemma range_of_range_line:
  assumes "CHR '','' \<notin> set m"
  shows "range_of_line net (''dhcp-range=set:'' @ m @ '','' @ inet_ntop a @ '','' @ inet_ntop b @ '','' @ int_dec i @ ''s'') =
    (if m = net then {a..b} else {})"
proof -
  have "fields_of (CHR '','') (''dhcp-range=set:'' @ m @ '','' @ inet_ntop a @ '','' @ inet_ntop b @ '','' @ int_dec i @ ''s'') =
      [''dhcp-range=set:'' @ m, inet_ntop a, inet_ntop b, int_dec i @ ''s'']"
    using assms fields_of_word [of "CHR '',''" "''dhcp-range=set:'' @ m"]
      fields_of_word [of "CHR '',''" "inet_ntop a"] fields_of_word [of "CHR '',''" "inet_ntop b"]
      fields_of_last [of "CHR '',''" "int_dec i @ ''s''"]
    by (simp add: not_digits ntop_plain dec_plain)
  then show ?thesis by (auto simp: range_of_line_def)
qed

text \<open>The lines of one range in the file of a server, and those of the banner.\<close>

definition conf_entry :: "dhcp_state \<Rightarrow> string \<Rightarrow> dhcp_network \<Rightarrow> string list" where
  "conf_entry st s n = (case conf_slice st s n of None \<Rightarrow> []
     | Some (a, b) \<Rightarrow>
         [''dhcp-range=set:'' @ dn_network n @ '','' @ inet_ntop a @ '','' @ inet_ntop b @ '','' @ int_dec (dn_lease_seconds n) @ ''s'',
          if dn_router n \<noteq> 0 then ''dhcp-option=tag:'' @ dn_network n @ '',3,'' @ inet_ntop (dn_router n)
          else ''dhcp-option=tag:'' @ dn_network n @ '',option:router''])"

lemma conf_lines_entry: "conf_lines st s n = concat (map (\<lambda>l. l @ newline) (conf_entry st s n))"
  by (auto simp: conf_lines_def conf_entry_def split: option.split)

lemma conf_entry_pool:
  assumes "list_all name_char (dn_network n)"
  shows "\<forall>l \<in> set (conf_entry st s n). CHR 0x0A \<notin> set l"
    "(\<Union>l \<in> set (conf_entry st s n). range_of_line net l) = (if dn_network n = net then pool (conf_slice st s n) else {})"
proof -
  have m: "CHR 0x0A \<notin> set (dn_network n)" "CHR '','' \<notin> set (dn_network n)"
    using assms by (auto simp: list_all_iff name_char_def less_eq_char_def)
  show "\<forall>l \<in> set (conf_entry st s n). CHR 0x0A \<notin> set l"
    using m by (auto simp: conf_entry_def not_digits ntop_plain dec_plain split: option.split_asm if_split_asm)
  have "range_of_line net (''dhcp-option=tag:'' @ r) = {}" for r by (rule range_of_other_line) simp
  then show "(\<Union>l \<in> set (conf_entry st s n). range_of_line net l) = (if dn_network n = net then pool (conf_slice st s n) else {})"
    using range_of_range_line [OF m(2), of net] by (auto simp: conf_entry_def pool_def split: option.split)
qed

definition banner_lines :: "string list" where
  "banner_lines = butlast (fields_of (CHR 0x0A) conf_banner)"

lemma banner_lines:
  "conf_banner = concat (map (\<lambda>l. l @ newline) banner_lines)" "\<forall>l \<in> set banner_lines. CHR 0x0A \<notin> set l \<and> hd l = CHR ''#''"
proof -
  have n: "\<forall>l \<in> set ls. CHR 0x0A \<notin> set l \<Longrightarrow> butlast (fields_of (CHR 0x0A) (concat (map (\<lambda>l. l @ newline) ls))) = ls" for ls
    by (simp add: fields_of_lines)
  have b: "banner_lines = [
     ''# Rendered by cixd -- every edit here is overwritten.'',
     ''# Ranges take effect only when dnsmasq starts, which is why'',
     ''# changing one restarts this container.'',
     ''# Only this server's own slice of each range appears here:'',
     ''# dnsmasq has no failover protocol, so two servers on one'',
     ''# wire are safe only because their pools do not overlap.'',
     ''# Each range is tagged with its network name, and every'',
     ''# option is tagged to match. dnsmasq picks a RANGE by the'',
     ''# subnet of the interface a request arrived on, but an'',
     ''# untagged OPTION goes to every client on every range -- so'',
     ''# one server on two networks would hand both segments the'',
     ''# same default gateway.'']"
    unfolding banner_lines_def conf_banner_def by (rule n) simp
  show "conf_banner = concat (map (\<lambda>l. l @ newline) banner_lines)" unfolding b conf_banner_def ..
  show "\<forall>l \<in> set banner_lines. CHR 0x0A \<notin> set l \<and> hd l = CHR ''#''" unfolding b by simp
qed

text \<open>The file of a server, read back: its slices of the enabled ranges.\<close>

lemma file_pool_render:
  assumes "dhcp_render_conf st s k = Some conf" "list_all (\<lambda>n. list_all name_char (dn_network n)) (used_networks st)"
  shows "file_pool net conf = (\<Union>n \<in> {n \<in> set (used_networks st). dn_enabled n \<and> dn_network n = net}. pool (conf_slice st s n))"
proof -
  let ?ns = "filter active (dh_networks st)"
  let ?ls = "banner_lines @ concat (map (conf_entry st s) ?ns)"
  have ns: "set ?ns = {n \<in> set (used_networks st). dn_enabled n}" by (auto simp: active_def used_networks_def)
  have plain: "list_all name_char (dn_network n)" if "n \<in> set ?ns" for n using assms(2) that ns by (auto simp: list_all_iff)
  have "concat (map (conf_lines st s) ms) = concat (map (\<lambda>l. l @ newline) (concat (map (conf_entry st s) ms)))" for ms
    by (induction ms) (simp_all add: conf_lines_entry)
  then have t: "conf = concat (map (\<lambda>l. l @ newline) ?ls)"
    using assms(1) banner_lines(1) by (simp add: render_conf_Some)
  have "\<forall>l \<in> set (conf_entry st s n). CHR 0x0A \<notin> set l" if "n \<in> set ?ns" for n by (rule conf_entry_pool(1) [OF plain [OF that]])
  then have "\<forall>l \<in> set ?ls. CHR 0x0A \<notin> set l" using banner_lines(2) by fastforce
  from fields_of_lines [OF this] have f: "fields_of (CHR 0x0A) conf = ?ls @ [[]]" unfolding t .
  have b: "range_of_line net l = {}" if "l \<in> set banner_lines" for l
    using that banner_lines(2) by (intro range_of_other_line) auto
  moreover have "range_of_line net [] = {}" by (rule range_of_other_line) simp
  ultimately have "file_pool net conf = (\<Union>n \<in> set ?ns. \<Union>l \<in> set (conf_entry st s n). range_of_line net l)"
    unfolding file_pool_def f by auto
  also have "\<dots> = (\<Union>n \<in> set ?ns. if dn_network n = net then pool (conf_slice st s n) else {})"
    using conf_entry_pool(2) plain by auto
  finally show ?thesis using ns by auto
qed

lemma slice_in_range: "i < c \<Longrightarrow> c < 2 ^ 32 \<Longrightarrow> pool (dhcp_slice_for n i c) \<subseteq> {dn_range_start n..dn_range_end n}"
proof
  fix x
  assume i: "i < c" "c < 2 ^ 32" and x: "x \<in> pool (dhcp_slice_for n i c)"
  show "x \<in> {dn_range_start n..dn_range_end n}"
  proof (cases "1 < c")
    case True
    obtain a b where ab: "dhcp_slice_for n i c = Some (a, b)" using x by (auto simp: pool_def split: option.split_asm)
    note sb = slice_bounds [OF True i(2,1) ab]
    have "slice_at (range_total n) c (Suc i) \<le> range_total n" using i(1) by (intro slice_at_total) simp_all
    then have "unat b + 1 \<le> unat (dn_range_start n) + range_total n" using sb by linarith
    moreover have "unat (dn_range_start n) \<le> unat (dn_range_end n)" using sb by (simp add: word_le_nat_alt)
    ultimately have "unat b \<le> unat (dn_range_end n)" by (simp add: range_total_def)
    moreover have "unat (dn_range_start n) \<le> unat a" using sb by simp
    ultimately show ?thesis using x ab by (auto simp: pool_def word_le_nat_alt)
  next
    case False
    then show ?thesis using x by (simp add: dhcp_slice_for_def pool_def)
  qed
qed

lemma conf_slices_disjoint:
  assumes "s \<noteq> t"
  shows "pool (conf_slice st s n) \<inter> pool (conf_slice st t n) = {}"
proof -
  let ?on = "servers_for_network st n DHCP_MAX_RANGE_SERVERS"
  have len: "length ?on < 2 ^ 32" by (simp add: servers_for_network_def DHCP_MAX_RANGE_SERVERS_def min_def)
  show ?thesis
  proof (cases "find_index (\<lambda>x. x = s) ?on = None \<or> find_index (\<lambda>x. x = t) ?on = None")
    case True
    then show ?thesis by (auto simp: conf_slice_def Let_def pool_def)
  next
    case False
    then obtain i j where ij: "find_index (\<lambda>x. x = s) ?on = Some i" "find_index (\<lambda>x. x = t) ?on = Some j" by auto
    note f = find_index_Some [OF ij(1)] find_index_Some [OF ij(2)]
    then have "i \<noteq> j" using assms by auto
    then have "pool (dhcp_slice_for n i (length ?on)) \<inter> pool (dhcp_slice_for n j (length ?on)) = {}"
      using f by (intro slices_disjoint [OF len]) simp_all
    then show ?thesis unfolding conf_slice_def Let_def ij option.case .
  qed
qed

lemma servers_of_range:
  assumes "range_ok n"
  shows "servers_for_network st n DHCP_MAX_RANGE_SERVERS = filter (\<lambda>s. s \<in> set (used_servers st)) (dn_servers n)"
proof -
  have ok: "s \<noteq> []" "snprintf_s DHCP_SERVER_NAME_MAX s = s" if "s \<in> set (dn_servers n)" for s
    using assms that by (auto simp: range_ok_def server_ok_def list_all_iff snprintf_s_def)
  have "map (snprintf_s DHCP_SERVER_NAME_MAX) (filter (dhcp_server_is_registered st) (dn_servers n)) = filter (dhcp_server_is_registered st) (dn_servers n)"
    using ok(2) by (intro map_idI) simp
  moreover have "filter (dhcp_server_is_registered st) (dn_servers n) = filter (\<lambda>s. s \<in> set (used_servers st)) (dn_servers n)"
    using ok(1) by (intro filter_cong) (auto simp: dhcp_server_is_registered_def list_ex_iff used_servers_def)
  moreover have "length (filter (\<lambda>s. s \<in> set (used_servers st)) (dn_servers n)) \<le> DHCP_MAX_RANGE_SERVERS"
    using assms length_filter_le [of _ "dn_servers n"] by (meson le_trans range_ok_def)
  ultimately show ?thesis by (simp add: servers_for_network_def)
qed

lemma conf_slice_in_range:
  assumes "range_ok n"
  shows "pool (conf_slice st s n) \<subseteq> (if s \<in> set (dn_servers n) \<and> s \<in> set (used_servers st) then {dn_range_start n..dn_range_end n} else {})"
proof (cases "find_index (\<lambda>x. x = s) (servers_for_network st n DHCP_MAX_RANGE_SERVERS)")
  case None
  then show ?thesis by (simp add: conf_slice_def pool_def)
next
  case (Some i)
  note f = find_index_Some [OF Some]
  then have "s \<in> set (servers_for_network st n DHCP_MAX_RANGE_SERVERS)" using nth_mem by blast
  moreover have "length (servers_for_network st n DHCP_MAX_RANGE_SERVERS) < 2 ^ 32"
    by (simp add: servers_for_network_def DHCP_MAX_RANGE_SERVERS_def min_def)
  moreover have "conf_slice st s n = dhcp_slice_for n i (length (servers_for_network st n DHCP_MAX_RANGE_SERVERS))"
    by (simp add: conf_slice_def Let_def Some)
  ultimately show ?thesis using f slice_in_range [of i _ n] servers_of_range [OF assms, of st] by auto
qed

lemma conf_slice_nth:
  assumes "range_ok n" "distinct (dn_servers n)" "set (dn_servers n) \<subseteq> set (used_servers st)" "i < length (dn_servers n)"
  shows "conf_slice st (dn_servers n ! i) n = dhcp_slice_for n i (length (dn_servers n))"
proof -
  have on: "servers_for_network st n DHCP_MAX_RANGE_SERVERS = dn_servers n"
    using assms(3) by (auto simp: servers_of_range [OF assms(1)] intro: filter_True)
  have "find_index (\<lambda>x. x = dn_servers n ! i) (dn_servers n) = Some i"
  proof (cases "find_index (\<lambda>x. x = dn_servers n ! i) (dn_servers n)")
    case None
    then show ?thesis using assms(4) nth_mem by (auto simp: find_index_None)
  next
    case (Some j)
    then have "j < length (dn_servers n)" "dn_servers n ! j = dn_servers n ! i" using find_index_Some [OF Some] by simp_all
    then have "j = i" using assms(4) nth_eq_iff_index_eq [OF assms(2)] by blast
    with Some show ?thesis by simp
  qed
  then show ?thesis by (simp add: conf_slice_def on)
qed

lemma conf_slices_cover:
  assumes "range_ok n" "dn_enabled n" "distinct (dn_servers n)" "set (dn_servers n) \<subseteq> set (used_servers st)" "length (dn_servers n) \<le> range_total n"
  shows "(\<Union>s \<in> set (dn_servers n). pool (conf_slice st s n)) = {dn_range_start n..dn_range_end n}"
proof -
  let ?c = "length (dn_servers n)"
  have ref: "\<not> range_refused n" "?c < 2 ^ 32" using assms(1,2) by (auto simp: range_ok_def DHCP_MAX_RANGE_SERVERS_def)
  then have "0 < ?c" by (auto simp: range_refused_def)
  have "set (dn_servers n) = (!) (dn_servers n) ` {..<?c}" by (auto simp: in_set_conv_nth)
  then have "(\<Union>s \<in> set (dn_servers n). pool (conf_slice st s n)) = (\<Union>i < ?c. pool (dhcp_slice_for n i ?c))"
    using conf_slice_nth [OF assms(1,3,4)] by auto
  then show ?thesis using slices_cover [OF ref(1) \<open>0 < ?c\<close> assms(5) ref(2)] by simp
qed

lemma server_pool_eq:
  assumes "dhcp_reachable st" "list_all (\<lambda>n. list_all name_char (dn_network n)) (used_networks st)"
    and "n \<in> set (used_networks st)" "dn_enabled n" "dhcp_render_conf st s 4096 \<noteq> None"
  shows "server_pool st (dn_network n) s = pool (conf_slice st s n)"
proof -
  have "distinct (map dn_network (used_networks st))"
    using reachable_inv [OF assms(1)] by (simp add: dhcp_inv_def tables_unique_def tables_def)
  then have "{m \<in> set (used_networks st). dn_enabled m \<and> dn_network m = dn_network n} = {n}"
    using assms(3,4) by (auto simp: distinct_map inj_on_def)
  then show ?thesis using assms(5) by (auto simp: server_pool_def file_pool_render [OF _ assms(2)])
qed

lemma server_pool_subset:
  assumes "dhcp_reachable st" "list_all (\<lambda>n. list_all name_char (dn_network n)) (used_networks st)" "x \<in> server_pool st net s"
  obtains n where "n \<in> set (used_networks st)" "dn_enabled n" "dn_network n = net" "x \<in> pool (conf_slice st s n)"
    "range_ok n" "dhcp_render_conf st s 4096 \<noteq> None"
proof -
  obtain conf where t: "dhcp_render_conf st s 4096 = Some conf" "x \<in> file_pool net conf"
    using assms(3) by (auto simp: server_pool_def split: option.split_asm)
  moreover have "range_ok n" if "n \<in> set (used_networks st)" for n
    using reachable_inv [OF assms(1)] that by (auto simp: dhcp_inv_def tables_ok_def tables_def list_all_iff)
  ultimately show ?thesis using that by (auto simp: file_pool_render [OF t(1) assms(2)])
qed

text \<open>
  C12. Several servers share a network safely (\<open>dhcp_render_conf\<close>), in every state that requests and restarts
  lead to, with network names as \<open>network.c\<close> accepts them, and going by what the rendered files say: no
  address of a network is handed out by two servers; a server hands out only addresses of an enabled
  range of that network which names it, while it is registered; and when a range names registered
  servers once each, has an address for each of them and their files fit, those servers together hand
  out the whole range.
\<close>

theorem one_server_per_address:
  assumes "dhcp_reachable st" "list_all (\<lambda>n. list_all name_char (dn_network n)) (used_networks st)"
  shows "(\<forall>net s t. s \<noteq> t \<longrightarrow> server_pool st net s \<inter> server_pool st net t = {}) \<and>
    (\<forall>net s x. x \<in> server_pool st net s \<longrightarrow> s \<in> set (used_servers st) \<and>
      (\<exists>n \<in> set (used_networks st). dn_network n = net \<and> dn_enabled n \<and> s \<in> set (dn_servers n) \<and>
        dn_range_start n \<le> x \<and> x \<le> dn_range_end n)) \<and>
    (\<forall>n \<in> set (used_networks st). dn_enabled n \<and> distinct (dn_servers n) \<and> set (dn_servers n) \<subseteq> set (used_servers st) \<and>
      length (dn_servers n) \<le> range_total n \<and> (\<forall>s \<in> set (dn_servers n). dhcp_render_conf st s 4096 \<noteq> None) \<longrightarrow>
      (\<Union>s \<in> set (dn_servers n). server_pool st (dn_network n) s) = {dn_range_start n..dn_range_end n})"
proof (intro conjI allI ballI impI)
  note pool_eq = server_pool_eq [OF assms]
  show "server_pool st net s \<inter> server_pool st net t = {}" if "s \<noteq> t" for net s t
  proof (rule ccontr)
    assume "server_pool st net s \<inter> server_pool st net t \<noteq> {}"
    then obtain x where x: "x \<in> server_pool st net s" "x \<in> server_pool st net t" by blast
    from server_pool_subset [OF assms x(1)] obtain n where n: "n \<in> set (used_networks st)" "dn_enabled n" "dn_network n = net"
      "x \<in> pool (conf_slice st s n)" by blast
    have "dhcp_render_conf st t 4096 \<noteq> None" using x(2) by (auto simp: server_pool_def split: option.split_asm)
    then have "x \<in> pool (conf_slice st t n)" using pool_eq [OF n(1,2)] x(2) n(3) by simp
    with n(4) show False using conf_slices_disjoint [OF that] by blast
  qed
  have served: "s \<in> set (used_servers st) \<and> (\<exists>n \<in> set (used_networks st). dn_network n = net \<and> dn_enabled n \<and> s \<in> set (dn_servers n) \<and>
      dn_range_start n \<le> x \<and> x \<le> dn_range_end n)" if x: "x \<in> server_pool st net s" for net s x
  proof -
    from server_pool_subset [OF assms x] obtain n where n: "n \<in> set (used_networks st)" "dn_enabled n" "dn_network n = net"
      "x \<in> pool (conf_slice st s n)" "range_ok n" by blast
    then have "s \<in> set (dn_servers n)" "s \<in> set (used_servers st)" "x \<in> {dn_range_start n..dn_range_end n}"
      using conf_slice_in_range [OF n(5), of st s] by (auto split: if_split_asm)
    then show ?thesis using n(1-3) by (intro conjI bexI [of _ n]) simp_all
  qed
  show "s \<in> set (used_servers st)" if "x \<in> server_pool st net s" for net s x using served [OF that] by blast
  show "\<exists>n \<in> set (used_networks st). dn_network n = net \<and> dn_enabled n \<and> s \<in> set (dn_servers n) \<and>
      dn_range_start n \<le> x \<and> x \<le> dn_range_end n" if "x \<in> server_pool st net s" for net s x using served [OF that] by blast
  fix n
  assume n: "n \<in> set (used_networks st)" and h: "dn_enabled n \<and> distinct (dn_servers n) \<and> set (dn_servers n) \<subseteq> set (used_servers st) \<and>
      length (dn_servers n) \<le> range_total n \<and> (\<forall>s \<in> set (dn_servers n). dhcp_render_conf st s 4096 \<noteq> None)"
  have "range_ok n" using reachable_inv [OF assms(1)] n by (auto simp: dhcp_inv_def tables_ok_def tables_def list_all_iff)
  then show "(\<Union>s \<in> set (dn_servers n). server_pool st (dn_network n) s) = {dn_range_start n..dn_range_end n}"
    using conf_slices_cover [of n st] pool_eq [OF n] h by simp
qed

section \<open>Which servers are restarted\<close>

text \<open>The text a server was last started with, as far as the daemon remembers.\<close>

definition in_force :: "dhcp_state \<Rightarrow> string \<Rightarrow> string option" where
  "in_force st s = map_option (\<lambda>i. dh_conf_text st ! i) (find_index (\<lambda>n. n \<noteq> [] \<and> n = s) (dh_conf_name st))"

definition same_tables :: "dhcp_state \<Rightarrow> dhcp_state \<Rightarrow> bool" where
  "same_tables st u = (dh_servers u = dh_servers st \<and> dh_networks u = dh_networks st)"

lemma render_same: "same_tables st u \<Longrightarrow> dhcp_render_conf u s k = dhcp_render_conf st s k"
proof -
  assume same: "same_tables st u"
  then have "conf_slice u s n = conf_slice st s n" for n
    by (simp add: same_tables_def conf_slice_def servers_for_network_def dhcp_server_is_registered_def [abs_def])
  then have "conf_lines u s = conf_lines st s" by (auto simp: conf_lines_def)
  then have "dhcp_render_conf u s k = Some c \<longleftrightarrow> dhcp_render_conf st s k = Some c" for c
    using same by (simp add: render_conf_Some same_tables_def)
  then show ?thesis by (metis option.exhaust)
qed

lemma write_into_frame [simp]:
  "dh_servers (write_into env p d st) = dh_servers st" "dh_networks (write_into env p d st) = dh_networks st"
  "dh_conf_name (write_into env p d st) = dh_conf_name st" "dh_conf_text (write_into env p d st) = dh_conf_text st"
  by (simp_all add: write_into_def)

definition slot_of :: "dhcp_state \<Rightarrow> string \<Rightarrow> nat option" where
  "slot_of st s = find_index (\<lambda>n. n \<noteq> [] \<and> n = s) (dh_conf_name st)"

text \<open>The slots of the memory that no server has taken.\<close>

definition free_slots :: "dhcp_state \<Rightarrow> nat" where
  "free_slots st = length (filter (\<lambda>n. n = []) (dh_conf_name st))"

text \<open>
  Whether the text of server \<open>s\<close> is remembered once the servers \<open>ss\<close> are through: it has its slot already,
  or is one of the first new servers with a rendered file, as many as there are free slots.
\<close>

definition has_place :: "dhcp_state \<Rightarrow> string list \<Rightarrow> string \<Rightarrow> bool" where
  "has_place st ss s = (in_force st s \<noteq> None \<or>
     s \<in> set (take (free_slots st) (filter (\<lambda>s. dhcp_render_conf st s 4096 \<noteq> None \<and> in_force st s = None) ss)))"

definition must_restart :: "dhcp_state \<Rightarrow> string list \<Rightarrow> string \<Rightarrow> bool" where
  "must_restart st ss s = (dhcp_render_conf st s 4096 \<noteq> None \<and> dhcp_render_conf st s 4096 \<noteq> in_force st s \<and> has_place st ss s)"

definition add_changed :: "nat option \<Rightarrow> string list \<Rightarrow> string list \<Rightarrow> string list" where
  "add_changed m changed new = (case m of None \<Rightarrow> changed | Some m \<Rightarrow> take m (changed @ new))"

lemma add_changed_step:
  assumes "case m of None \<Rightarrow> True | Some k \<Rightarrow> length changed \<le> k"
  shows "add_changed m (add_changed m changed xs) ys = add_changed m changed (xs @ ys)" "add_changed m changed [] = changed"
    "case m of None \<Rightarrow> True | Some k \<Rightarrow> length (add_changed m changed xs) \<le> k"
proof -
  have "take k (take k zs @ ys) = take k (zs @ ys)" for k and zs :: "string list"
    by (cases "length zs \<le> k") simp_all
  from this [of _ "changed @ xs"] show "add_changed m (add_changed m changed xs) ys = add_changed m changed (xs @ ys)"
    by (simp add: add_changed_def split: option.split)
qed (use assms in \<open>auto simp: add_changed_def split: option.split\<close>)

lemma find_index_update_other:
  "i < length xs \<Longrightarrow> \<not> p (xs ! i) \<Longrightarrow> \<not> p x \<Longrightarrow> find_index p (xs[i := x]) = find_index p xs"
  by (rule find_index_cong) (auto simp: nth_list_update)

lemma free_slots_update:
  assumes "i < length xs" "xs ! i = []" "s \<noteq> []"
  shows "length (filter (\<lambda>n. n = []) xs) = Suc (length (filter (\<lambda>n. n = []) (xs[i := s])))"
  unfolding filter_update(1) [OF assms(1)] filter_update(2) [OF assms(1), of "\<lambda>n. n = []"] using assms(2,3) by simp

lemma free_slots_none: "find_index (\<lambda>n. n = []) (dh_conf_name st) = None \<longleftrightarrow> free_slots st = 0"
  by (auto simp: free_slots_def find_index_None filter_empty_conv)

text \<open>The memory after the text \<open>c\<close> of server \<open>s\<close> went to its slot, or to the first free one, or nowhere.\<close>

definition remember :: "dhcp_state \<Rightarrow> string \<Rightarrow> string \<Rightarrow> dhcp_state" where
  "remember st s c = (case conf_in_force_slot st s of
     (v, None) \<Rightarrow> v | (v, Some i) \<Rightarrow> v\<lparr>dh_conf_text := (dh_conf_text v)[i := c]\<rparr>)"

lemma in_force_slot: "in_force st s = map_option (\<lambda>i. dh_conf_text st ! i) (slot_of st s)"
  by (simp add: in_force_def slot_of_def)

lemma slot_of_Some: "slot_of st s = Some i \<Longrightarrow> i < length (dh_conf_name st) \<and> dh_conf_name st ! i = s \<and> s \<noteq> []"
  unfolding slot_of_def by (drule find_index_Some) auto

lemma remember_known:
  assumes "slot_of st s = Some i" "length (dh_conf_text st) = length (dh_conf_name st)"
  shows "remember st s c = st\<lparr>dh_conf_text := (dh_conf_text st)[i := c]\<rparr>"
    "in_force (remember st s c) t = (if t = s then Some c else in_force st t)"
proof -
  show r: "remember st s c = st\<lparr>dh_conf_text := (dh_conf_text st)[i := c]\<rparr>"
    using assms(1) by (simp add: remember_def conf_in_force_slot_def slot_of_def)
  have f: "in_force (remember st s c) t = map_option (\<lambda>j. (dh_conf_text st)[i := c] ! j) (slot_of st t)"
    by (simp add: r in_force_def slot_of_def)
  show "in_force (remember st s c) t = (if t = s then Some c else in_force st t)"
  proof (cases "slot_of st t")
    case None
    then show ?thesis using assms(1) f by (auto simp: in_force_slot)
  next
    case (Some j)
    have "t = s \<longleftrightarrow> j = i" by (metis Some assms(1) option.inject slot_of_Some)
    moreover have "in_force (remember st s c) t = Some ((dh_conf_text st)[i := c] ! j)" "in_force st t = Some (dh_conf_text st ! j)"
      using f Some by (simp_all add: in_force_slot)
    ultimately show ?thesis using slot_of_Some [OF assms(1)] assms(2) by (cases "j = i") simp_all
  qed
qed

lemma slot_of_taken:
  assumes "slot_of st s = None" "s \<noteq> []" "i < length (dh_conf_name st)" "dh_conf_name st ! i = []"
    and "dh_conf_name u = (dh_conf_name st)[i := s]"
  shows "slot_of u t = (if t = s then Some i else slot_of st t)"
proof (cases "t = s")
  case True
  have "s \<notin> set (dh_conf_name st)" using assms(1,2) by (auto simp: slot_of_def find_index_None)
  have "slot_of u s \<noteq> None" unfolding slot_of_def find_index_None assms(5) using assms(2,3) set_update_memI by fastforce
  then obtain j where j: "slot_of u s = Some j" by blast
  then have "j < length (dh_conf_name st)" "(dh_conf_name st)[i := s] ! j = s" using slot_of_Some [OF j] assms(5) by simp_all
  then have "j = i" using \<open>s \<notin> set (dh_conf_name st)\<close> by (metis nth_list_update_neq nth_mem)
  with j True show ?thesis by simp
next
  case False
  then show ?thesis unfolding slot_of_def assms(5) using assms(3,4) by (simp add: find_index_update_other)
qed

lemma remember_fresh:
  assumes "slot_of st s = None" "find_index (\<lambda>n. n = []) (dh_conf_name st) = Some i" "s \<noteq> []" "length s < DHCP_SERVER_NAME_MAX"
    "length (dh_conf_text st) = length (dh_conf_name st)"
  shows "remember st s c = st\<lparr>dh_conf_name := (dh_conf_name st)[i := s], dh_conf_text := (dh_conf_text st)[i := c]\<rparr>"
    "in_force (remember st s c) t = (if t = s then Some c else in_force st t)" "free_slots st = Suc (free_slots (remember st s c))"
proof -
  have i: "i < length (dh_conf_name st)" "dh_conf_name st ! i = []" using find_index_Some [OF assms(2)] by simp_all
  show r: "remember st s c = st\<lparr>dh_conf_name := (dh_conf_name st)[i := s], dh_conf_text := (dh_conf_text st)[i := c]\<rparr>"
    using assms(1,2,4) by (simp add: remember_def conf_in_force_slot_def slot_of_def snprintf_s_def)
  then have slots: "slot_of (remember st s c) t = (if t = s then Some i else slot_of st t)"
    by (intro slot_of_taken [OF assms(1,3) i]) simp
  have "slot_of st t \<noteq> Some i" using slot_of_Some [of st t i] i(2) by auto
  then show "in_force (remember st s c) t = (if t = s then Some c else in_force st t)"
    using slots i(1) assms(5) unfolding in_force_slot slots r by (cases "slot_of st t") auto
  show "free_slots st = Suc (free_slots (remember st s c))" using free_slots_update [OF i assms(3)] by (simp add: free_slots_def r)
qed

lemma remember_facts:
  assumes "s \<noteq> []" "length s < DHCP_SERVER_NAME_MAX" "length (dh_conf_text st) = length (dh_conf_name st)"
  shows "in_force (remember st s c) t = (if t = s \<and> (in_force st s \<noteq> None \<or> 0 < free_slots st) then Some c else in_force st t)"
    "free_slots (remember st s c) = free_slots st - (if in_force st s = None then 1 else 0)"
    "length (dh_conf_text (remember st s c)) = length (dh_conf_name (remember st s c))" "same_tables st (remember st s c)"
proof -
  consider (known) i where "slot_of st s = Some i" | (fresh) i where "slot_of st s = None" "find_index (\<lambda>n. n = []) (dh_conf_name st) = Some i"
    | (full) "slot_of st s = None" "find_index (\<lambda>n. n = []) (dh_conf_name st) = None" by fastforce
  then have "in_force (remember st s c) t = (if t = s \<and> (in_force st s \<noteq> None \<or> 0 < free_slots st) then Some c else in_force st t) \<and>
    free_slots (remember st s c) = free_slots st - (if in_force st s = None then 1 else 0) \<and>
    length (dh_conf_text (remember st s c)) = length (dh_conf_name (remember st s c)) \<and> same_tables st (remember st s c)"
  proof cases
    case known
    then show ?thesis using remember_known [OF known assms(3), of c] assms(3) by (simp add: in_force_slot free_slots_def same_tables_def)
  next
    case fresh
    note r = remember_fresh [OF fresh assms, of c]
    have "in_force st s = None" using fresh(1) by (simp add: in_force_slot)
    moreover have "length (dh_conf_text (remember st s c)) = length (dh_conf_name (remember st s c))" "same_tables st (remember st s c)"
      using assms(3) by (simp_all add: r(1) same_tables_def)
    ultimately show ?thesis using r(2,3) by simp
  next
    case full
    then have "remember st s c = st" "in_force st s = None" by (simp_all add: remember_def conf_in_force_slot_def slot_of_def in_force_def)
    moreover have "free_slots st = 0" using full(2) by (simp add: free_slots_none)
    ultimately show ?thesis using assms(3) by (simp add: same_tables_def)
  qed
  then show "in_force (remember st s c) t = (if t = s \<and> (in_force st s \<noteq> None \<or> 0 < free_slots st) then Some c else in_force st t)"
    "free_slots (remember st s c) = free_slots st - (if in_force st s = None then 1 else 0)"
    "length (dh_conf_text (remember st s c)) = length (dh_conf_name (remember st s c))" "same_tables st (remember st s c)" by blast+
qed

text \<open>One server: the memory, and whether it joins the list.\<close>

lemma sync_one_remember:
  assumes "dhcp_render_conf st s 4096 = Some c" "s \<noteq> []" "length s < DHCP_SERVER_NAME_MAX" "length (dh_conf_text st) = length (dh_conf_name st)"
    and m: "case m of None \<Rightarrow> True | Some k \<Rightarrow> length changed \<le> k"
  obtains u where "sync_one env m hosts (st, changed) s = (u, add_changed m changed
      (if Some c \<noteq> in_force st s \<and> (in_force st s \<noteq> None \<or> 0 < free_slots st) then [s] else []))"
    "same_tables (remember st s c) u" "dh_conf_name u = dh_conf_name (remember st s c)" "dh_conf_text u = dh_conf_text (remember st s c)"
proof -
  have c: "snprintf_s 4096 c = c" "c \<noteq> []"
    using assms(1) render_conf_Some [of st s 4096 c] by (auto simp: snprintf_s_def conf_banner_def)
  have cut: "snprintf_s DHCP_SERVER_NAME_MAX s = s" using assms(3) by (simp add: snprintf_s_def)
  obtain v slot where slot: "conf_in_force_slot st s = (v, slot)" by force
  define new where "new = (case slot of None \<Rightarrow> [] | Some i \<Rightarrow> if dh_conf_text v ! i = c then [] else [s])"
  let ?u = "fst (sync_one env m hosts (st, changed) s)"
  have "sync_one env m hosts (st, changed) s = (?u, add_changed m changed new)"
    unfolding sync_one_def prod.case assms(1) option.case slot Let_def new_def
    using m by (cases slot; cases m) (auto simp: add_changed_def cut c(1))
  moreover have "same_tables (remember st s c) ?u" "dh_conf_name ?u = dh_conf_name (remember st s c)" "dh_conf_text ?u = dh_conf_text (remember st s c)"
    unfolding sync_one_def prod.case assms(1) option.case slot Let_def remember_def
    by (cases slot; auto simp: same_tables_def c(1))+
  moreover have "new = (if Some c \<noteq> in_force st s \<and> (in_force st s \<noteq> None \<or> 0 < free_slots st) then [s] else [])"
  proof (cases "slot_of st s")
    case (Some i)
    then have "v = st" "slot = Some i" using slot by (simp_all add: conf_in_force_slot_def slot_of_def)
    then show ?thesis using Some by (auto simp: new_def in_force_slot)
  next
    case None
    show ?thesis
    proof (cases "find_index (\<lambda>n. n = []) (dh_conf_name st)")
      case (Some i)
      then have "slot = Some i" "dh_conf_text v ! i = []" "0 < free_slots st"
        using None slot find_index_Some [OF Some] assms(4) remember_fresh(3) [OF None Some assms(2-4), of c]
        by (auto simp: conf_in_force_slot_def slot_of_def)
      then show ?thesis using None c(2) by (simp add: new_def in_force_slot)
    next
      case full: None
      then have "slot = None" using None slot by (simp add: conf_in_force_slot_def slot_of_def)
      moreover have "free_slots st = 0" using full by (simp add: free_slots_none)
      ultimately show ?thesis using None by (simp add: new_def in_force_slot)
    qed
  qed
  ultimately show ?thesis using that by blast
qed

lemma has_place_one: "dhcp_render_conf st s 4096 \<noteq> None \<Longrightarrow> has_place st [s] s \<longleftrightarrow> in_force st s \<noteq> None \<or> 0 < free_slots st"
  by (cases "free_slots st") (auto simp: has_place_def)

lemma sync_one_step:
  assumes s: "s \<noteq> []" "length s < DHCP_SERVER_NAME_MAX" and len: "length (dh_conf_text st) = length (dh_conf_name st)"
    and m: "case m of None \<Rightarrow> True | Some k \<Rightarrow> length changed \<le> k"
  obtains u where "sync_one env m hosts (st, changed) s = (u, add_changed m changed (if must_restart st [s] s then [s] else []))"
    "same_tables st u" "length (dh_conf_text u) = length (dh_conf_name u)"
    "\<And>t. in_force u t = (if t = s \<and> dhcp_render_conf st s 4096 \<noteq> None \<and> has_place st [s] s then dhcp_render_conf st s 4096 else in_force st t)"
    "free_slots u = free_slots st - (if dhcp_render_conf st s 4096 \<noteq> None \<and> in_force st s = None then 1 else 0)"
proof (cases "dhcp_render_conf st s 4096")
  case None
  then have "sync_one env m hosts (st, changed) s = (st, add_changed m changed (if must_restart st [s] s then [s] else []))"
    using add_changed_step(2) [OF m] by (simp add: sync_one_def must_restart_def)
  with None show ?thesis by (intro that [of st]) (simp_all add: same_tables_def len)
next
  case (Some c)
  obtain u where u: "sync_one env m hosts (st, changed) s = (u, add_changed m changed
      (if Some c \<noteq> in_force st s \<and> (in_force st s \<noteq> None \<or> 0 < free_slots st) then [s] else []))"
    "same_tables (remember st s c) u" "dh_conf_name u = dh_conf_name (remember st s c)" "dh_conf_text u = dh_conf_text (remember st s c)"
    by (rule sync_one_remember [OF Some s len m])
  note r = remember_facts [OF s len, of c]
  have place: "has_place st [s] s \<longleftrightarrow> in_force st s \<noteq> None \<or> 0 < free_slots st" using Some by (intro has_place_one) simp
  have force: "in_force u t = in_force (remember st s c) t" for t by (simp add: in_force_def u(3,4))
  show ?thesis
  proof (rule that [of u])
    show "sync_one env m hosts (st, changed) s = (u, add_changed m changed (if must_restart st [s] s then [s] else []))"
      using u(1) place by (simp add: must_restart_def Some)
    show "same_tables st u" using u(2) r(4) by (simp add: same_tables_def)
    show "length (dh_conf_text u) = length (dh_conf_name u)" using r(3) u(3,4) by simp
    show "in_force u t = (if t = s \<and> dhcp_render_conf st s 4096 \<noteq> None \<and> has_place st [s] s then dhcp_render_conf st s 4096 else in_force st t)" for t
      using r(1) place by (simp add: force Some)
    show "free_slots u = free_slots st - (if dhcp_render_conf st s 4096 \<noteq> None \<and> in_force st s = None then 1 else 0)"
      using r(2) by (simp add: free_slots_def u(3) Some)
  qed
qed

lemma has_place_Cons:
  assumes "s \<notin> set ss"
  shows "has_place st (s # ss) s = has_place st [s] s"
  using assms by (auto simp: has_place_def take_Cons' dest: in_set_takeD)

lemma has_place_tail:
  assumes "s \<notin> set ss" "t \<in> set ss" "same_tables st v" "\<And>t. t \<noteq> s \<Longrightarrow> in_force v t = in_force st t"
    and "free_slots v = free_slots st - (if dhcp_render_conf st s 4096 \<noteq> None \<and> in_force st s = None then 1 else 0)"
  shows "has_place st (s # ss) t = has_place v ss t"
proof -
  have ts: "t \<noteq> s" using assms(1,2) by auto
  have "filter (\<lambda>s. dhcp_render_conf v s 4096 \<noteq> None \<and> in_force v s = None) ss =
      filter (\<lambda>s. dhcp_render_conf st s 4096 \<noteq> None \<and> in_force st s = None) ss"
  proof (intro filter_cong refl)
    fix x
    assume "x \<in> set ss"
    then have "in_force v x = in_force st x" using assms(1) by (intro assms(4)) auto
    then show "(dhcp_render_conf v x 4096 \<noteq> None \<and> in_force v x = None) = (dhcp_render_conf st x 4096 \<noteq> None \<and> in_force st x = None)"
      by (simp add: render_same [OF assms(3)])
  qed
  then show ?thesis using ts assms(4) [OF ts] assms(5) by (auto simp: has_place_def take_Cons')
qed

lemma sync_list:
  assumes "\<forall>s \<in> set ss. s \<noteq> [] \<and> length s < DHCP_SERVER_NAME_MAX" "distinct ss" "length (dh_conf_text st) = length (dh_conf_name st)"
    and "case m of None \<Rightarrow> True | Some k \<Rightarrow> length changed \<le> k"
  obtains u where "foldl (sync_one env m hosts) (st, changed) ss = (u, add_changed m changed (filter (must_restart st ss) ss))"
    "\<And>t. in_force u t = (if t \<in> set ss \<and> dhcp_render_conf st t 4096 \<noteq> None \<and> has_place st ss t then dhcp_render_conf st t 4096 else in_force st t)"
  using assms
proof (induction ss arbitrary: st changed thesis)
  case Nil
  then show ?case using add_changed_step(2) [OF Nil.prems(5)] by simp
next
  case (Cons s ss)
  have s: "s \<noteq> []" "length s < DHCP_SERVER_NAME_MAX" "s \<notin> set ss" using Cons.prems(2,3) by auto
  obtain v where v: "sync_one env m hosts (st, changed) s = (v, add_changed m changed (if must_restart st [s] s then [s] else []))"
    "same_tables st v" "length (dh_conf_text v) = length (dh_conf_name v)"
    "\<And>t. in_force v t = (if t = s \<and> dhcp_render_conf st s 4096 \<noteq> None \<and> has_place st [s] s then dhcp_render_conf st s 4096 else in_force st t)"
    "free_slots v = free_slots st - (if dhcp_render_conf st s 4096 \<noteq> None \<and> in_force st s = None then 1 else 0)"
    by (rule sync_one_step [OF s(1,2) Cons.prems(4,5), of env hosts]) (rule that)
  have others: "in_force v t = in_force st t" if "t \<noteq> s" for t using v(4) [of t] that by simp
  have place: "has_place st (s # ss) t = has_place v ss t" if "t \<in> set ss" for t
    by (rule has_place_tail [OF s(3) that v(2) others v(5)])
  let ?changed = "add_changed m changed (if must_restart st [s] s then [s] else [])"
  obtain u where u: "foldl (sync_one env m hosts) (v, ?changed) ss = (u, add_changed m ?changed (filter (must_restart v ss) ss))"
    "\<And>t. in_force u t = (if t \<in> set ss \<and> dhcp_render_conf v t 4096 \<noteq> None \<and> has_place v ss t then dhcp_render_conf v t 4096 else in_force v t)"
    by (rule Cons.IH [OF _ _ _ v(3) add_changed_step(3) [OF Cons.prems(5)]]) (use Cons.prems(2,3) in auto)
  have "filter (must_restart v ss) ss = filter (must_restart st (s # ss)) ss"
  proof (intro filter_cong refl)
    fix t
    assume t: "t \<in> set ss"
    then have "in_force v t = in_force st t" using s(3) by (intro others) auto
    then show "must_restart v ss t = must_restart st (s # ss) t" by (simp add: must_restart_def place [OF t] render_same [OF v(2)])
  qed
  then have "(if must_restart st [s] s then [s] else []) @ filter (must_restart v ss) ss = filter (must_restart st (s # ss)) (s # ss)"
    by (simp add: must_restart_def has_place_Cons [OF s(3)])
  then have "foldl (sync_one env m hosts) (st, changed) (s # ss) = (u, add_changed m changed (filter (must_restart st (s # ss)) (s # ss)))"
    using v(1) u(1) add_changed_step(1) [OF Cons.prems(5)] by simp
  then show ?case
  proof (rule Cons.prems(1))
    fix t
    show "in_force u t = (if t \<in> set (s # ss) \<and> dhcp_render_conf st t 4096 \<noteq> None \<and> has_place st (s # ss) t
        then dhcp_render_conf st t 4096 else in_force st t)"
    proof (cases "t = s")
      case True
      then show ?thesis using u(2) [of t] v(4) [of t] s(3) by (simp add: has_place_Cons [OF s(3)])
    next
      case False
      then show ?thesis using u(2) [of t] others [OF False] place [of t] by (auto simp: render_same [OF v(2)])
    qed
  qed
qed

lemma server_list_used:
  assumes "dhcp_reachable st"
  shows "dhcp_server_list st DHCP_MAX_SERVERS = used_servers st" "distinct (used_servers st)"
    "\<forall>s \<in> set (used_servers st). s \<noteq> [] \<and> length s < DHCP_SERVER_NAME_MAX"
proof -
  have ok: "tables_ok (tables st)" "tables_unique (tables st)" using reachable_inv [OF assms] by (simp_all add: dhcp_inv_def)
  then show d: "distinct (used_servers st)" and n: "\<forall>s \<in> set (used_servers st). s \<noteq> [] \<and> length s < DHCP_SERVER_NAME_MAX"
    by (auto simp: tables_def tables_ok_def tables_unique_def server_ok_def list_all_iff)
  have "map (snprintf_s DHCP_SERVER_NAME_MAX) (used_servers st) = used_servers st" using n by (intro map_idI) (auto simp: snprintf_s_def)
  then show "dhcp_server_list st DHCP_MAX_SERVERS = used_servers st"
    using ok(1) unfolding dhcp_server_list_def used_servers_def [symmetric] by (simp add: tables_def tables_ok_def)
qed

text \<open>
  C15. Which servers a synchronisation lists for a restart (\<open>dhcp_sync_all\<close>), in every state that requests and
  restarts lead to, first synchronisations and a full memory included.  When the reservations do not
  fit their buffer, nothing happens.  Otherwise the list, in the order of registration and cut at the
  caller's bound, is the servers whose rendered file fits and differs from the remembered text: a server
  with a slot in the memory is compared with its slot; of the servers without one, the first as many
  as there are free slots are listed and take those slots; the others are never listed.  Afterwards
  the remembered text of every server that has a place is its rendered file, and nothing else changed.
\<close>

theorem sync_restarts_changed:
  assumes "dhcp_reachable st" "length (dh_conf_text st) = length (dh_conf_name st)"
  shows "if dhcp_render_hosts st 8192 = None then dhcp_sync_all env (Some m) st = (st, [])
    else \<exists>st'. dhcp_sync_all env (Some m) st = (st', take m (filter (\<lambda>s. dhcp_render_conf st s 4096 \<noteq> None \<and>
          dhcp_render_conf st s 4096 \<noteq> in_force st s \<and> has_place st (used_servers st) s) (used_servers st))) \<and>
      (\<forall>s. in_force st' s =
        (if s \<in> set (used_servers st) \<and> dhcp_render_conf st s 4096 \<noteq> None \<and> has_place st (used_servers st) s
         then dhcp_render_conf st s 4096 else in_force st s))"
proof (cases "dhcp_render_hosts st 8192")
  case None
  then show ?thesis by (simp add: dhcp_sync_all_def)
next
  case (Some hosts)
  note l = server_list_used [OF assms(1)]
  obtain u where "foldl (sync_one env (Some m) hosts) (st, []) (used_servers st) =
      (u, add_changed (Some m) [] (filter (must_restart st (used_servers st)) (used_servers st)))"
    "\<And>s. in_force u s = (if s \<in> set (used_servers st) \<and> dhcp_render_conf st s 4096 \<noteq> None \<and> has_place st (used_servers st) s
       then dhcp_render_conf st s 4096 else in_force st s)"
    by (rule sync_list [OF l(3,2) assms(2), where m = "Some m" and changed = "[]" and env = env and hosts = hosts]) auto
  then show ?thesis using Some l(1) by (auto simp: dhcp_sync_all_def add_changed_def must_restart_def [abs_def])
qed

lemma sync_one_full:
  assumes "\<forall>n \<in> set (dh_conf_name st). n \<noteq> []" "length s < DHCP_SERVER_NAME_MAX"
  obtains u where "sync_one env m hosts (st, changed) s = (u, changed) \<or> s \<in> set (dh_conf_name st) \<and> sync_one env m hosts (st, changed) s = (u, changed @ [s])"
    "dh_conf_name u = dh_conf_name st"
proof -
  have free: "find_index (\<lambda>n. n = []) (dh_conf_name st) = None" using assms(1) by (auto simp: find_index_None)
  have s: "snprintf_s DHCP_SERVER_NAME_MAX s = s" using assms(2) by (simp add: snprintf_s_def)
  let ?u = "sync_one env m hosts (st, changed) s"
  have "dh_conf_name (fst ?u) = dh_conf_name st \<and> (snd ?u = changed \<or> s \<in> set (dh_conf_name st) \<and> snd ?u = changed @ [s])"
  proof (cases "slot_of st s")
    case None
    then have "conf_in_force_slot st s = (st, None)" using free by (simp add: conf_in_force_slot_def slot_of_def)
    then show ?thesis by (simp add: sync_one_def Let_def split: option.split)
  next
    case (Some i)
    then have "conf_in_force_slot st s = (st, Some i)" by (simp add: conf_in_force_slot_def slot_of_def)
    moreover have "s \<in> set (dh_conf_name st)" using find_index_Some [OF Some [unfolded slot_of_def]] nth_mem by metis
    ultimately show ?thesis by (simp add: sync_one_def Let_def s split: option.split)
  qed
  then show ?thesis using that [of "fst ?u"] by (metis prod.collapse)
qed

lemma save_conf_name: "dhcp_save_state env st = Some (st', rc) \<Longrightarrow> dh_conf_name st' = dh_conf_name st"
  by (auto simp: dhcp_save_state_def Let_def case_prod_beta bind_eq_Some_conv split: if_split_asm)

text \<open>
  The memory of started servers fills up (\<open>conf_in_force_slot\<close>): its sixteen slots are never freed, also not when a
  server is unregistered, so once they hold sixteen other names no later server is ever listed for the
  restart that puts a changed range into force.
\<close>

theorem new_server_never_restarted:
  assumes "\<forall>n \<in> set (dh_conf_name st). n \<noteq> []" "s \<notin> set (dh_conf_name st)"
  shows "s \<notin> set (snd (dhcp_sync_all env m st)) \<and> dh_conf_name (fst (dhcp_sync_all env m st)) = dh_conf_name st \<and>
    (\<forall>st' r. dhcp_server_unregister wenv st c = Some (st', r) \<longrightarrow> dh_conf_name st' = dh_conf_name st)"
proof -
  have "s \<notin> set (snd (foldl (sync_one env m hosts) (u, changed) ss)) \<and>
      dh_conf_name (fst (foldl (sync_one env m hosts) (u, changed) ss)) = dh_conf_name st"
    if "dh_conf_name u = dh_conf_name st" "s \<notin> set changed" "\<forall>x \<in> set ss. length x < DHCP_SERVER_NAME_MAX" for hosts u changed ss
    using that
  proof (induction ss arbitrary: u changed)
    case (Cons x ss)
    have n: "\<forall>n \<in> set (dh_conf_name u). n \<noteq> []" "length x < DHCP_SERVER_NAME_MAX" using assms(1) Cons.prems by simp_all
    obtain v ch where "sync_one env m hosts (u, changed) x = (v, ch)" "dh_conf_name v = dh_conf_name st" "s \<notin> set ch"
    proof (rule sync_one_full [OF n, of env m hosts changed])
      fix w
      assume w: "sync_one env m hosts (u, changed) x = (w, changed) \<or> x \<in> set (dh_conf_name u) \<and> sync_one env m hosts (u, changed) x = (w, changed @ [x])"
        "dh_conf_name w = dh_conf_name u"
      have "x \<in> set (dh_conf_name u) \<Longrightarrow> s \<noteq> x" using assms(2) Cons.prems(1) by auto
      with w Cons.prems(1,2) show thesis using that [of w changed] that [of w "changed @ [x]"] by auto
    qed
    then show ?case using Cons.IH [of v ch] Cons.prems(3) by simp
  qed simp
  moreover have "\<forall>x \<in> set (dhcp_server_list st DHCP_MAX_SERVERS). length x < DHCP_SERVER_NAME_MAX"
    by (auto simp: dhcp_server_list_def DHCP_SERVER_NAME_MAX_def length_snprintf_s dest!: in_set_takeD)
  ultimately have "s \<notin> set (snd (dhcp_sync_all env m st)) \<and> dh_conf_name (fst (dhcp_sync_all env m st)) = dh_conf_name st"
    by (auto simp: dhcp_sync_all_def split: option.split)
  moreover have "dh_conf_name st' = dh_conf_name st" if "dhcp_server_unregister wenv st c = Some (st', r)" for st' r
    using that by (auto simp: dhcp_server_unregister_def saved_def dest!: save_conf_name split: if_split_asm)
  ultimately show ?thesis by blast
qed

section \<open>A store\<close>

definition demo_store :: dhcp_state where
  "demo_store = \<lparr>dh_networks = replicate DHCP_MAX_NETWORKS blank_range, dh_statics = replicate DHCP_MAX_STATIC blank_static,
     dh_servers = replicate DHCP_MAX_SERVERS [], dh_state_path = ''/d'', dh_conf_name = replicate DHCP_MAX_SERVERS [],
     dh_conf_text = replicate DHCP_MAX_SERVERS [], dh_fs = [Map.empty], dh_signalled = []\<rparr>"

lemma dhcp_demo_reachable: "dhcp_reachable demo_store"
  by (rule reach_start) (simp_all add: demo_store_def)

lemma demo_register:
  "\<exists>st'. perform (healthy_write (dhcp_text ([''a''], [], []))) (Register ''a'') demo_store = Some (st', DHCP_OK) \<and> tables st' = ([''a''], [], [])"
proof -
  let ?st = "demo_store\<lparr>dh_servers := (replicate DHCP_MAX_SERVERS [])[0 := ''a'']\<rparr>"
  have t: "tables ?st = ([''a''], [], [])"
    by (simp add: tables_def used_servers_def used_networks_def used_statics_def demo_store_def blank_range_def blank_static_def
        DHCP_MAX_SERVERS_def numeral_eq_Suc)
  have ok: "tables_ok (tables ?st)"
    unfolding t by (simp add: tables_ok_def server_ok_def DHCP_MAX_SERVERS_def DHCP_SERVER_NAME_MAX_def NUL_def)
  obtain w where w: "dhcp_document ?st = Some w" "jw_buf w = dhcp_text (tables ?st)" using dhcp_document_text [OF ok] by blast
  have "length (dhcp_text ([''a''], [], [])) < 16384"
    by (simp add: dhcp_text_def dhcp_tree_def render_string_def escape_char_def)
  moreover obtain f v where "persist_atomic_write (healthy_write (dhcp_text ([''a''], [], []))) ''/d'' (dhcp_text ([''a''], [], [])) Map.empty = (f # v, 0)"
    using healthy_write_succeeds [of "''/d''" "dhcp_text ([''a''], [], [])" Map.empty] by (auto simp: PATH_MAX_def)
  ultimately have "saved (healthy_write (dhcp_text ([''a''], [], []))) ?st = Some (?st\<lparr>dh_fs := (f # v) @ tl (dh_fs ?st)\<rparr>, DHCP_OK)"
    using w t by (simp add: saved_def dhcp_save_state_def demo_store_def)
  moreover have "perform (healthy_write (dhcp_text ([''a''], [], []))) (Register ''a'') demo_store = saved (healthy_write (dhcp_text ([''a''], [], []))) ?st"
    by (simp add: dhcp_server_register_def dhcp_server_is_registered_def demo_store_def DHCP_MAX_SERVERS_def DHCP_SERVER_NAME_MAX_def snprintf_s_def numeral_eq_Suc)
  ultimately show ?thesis using t tables_update by metis
qed

theorem dhcp_tables_sound_witness:
  "\<exists>st'. perform (healthy_write (dhcp_text ([''a''], [], []))) (Register ''a'') demo_store = Some (st', DHCP_OK) \<and> tables_ok (tables st') \<and> tables_unique (tables st')"
proof -
  obtain st' where st': "perform (healthy_write (dhcp_text ([''a''], [], []))) (Register ''a'') demo_store = Some (st', DHCP_OK)" using demo_register by blast
  have "request_ok (Register ''a'')" by (simp add: DHCP_SERVER_NAME_MAX_def NUL_def)
  from dhcp_tables_sound [OF reach_step [OF dhcp_demo_reachable this st']] st' show ?thesis by blast
qed

theorem dhcp_restart_witness:
  "\<exists>st'. perform (healthy_write (dhcp_text ([''a''], [], []))) (Register ''a'') demo_store = Some (st', DHCP_OK) \<and>
     tables (fst (dhcp_init healthy_read st' (dh_state_path st'))) = ([''a''], [], [])"
proof -
  obtain st' where st': "perform (healthy_write (dhcp_text ([''a''], [], []))) (Register ''a'') demo_store = Some (st', DHCP_OK)"
    "tables st' = ([''a''], [], [])" using demo_register by blast
  have "request_ok (Register ''a'')" by (simp add: DHCP_SERVER_NAME_MAX_def NUL_def)
  from dhcp_restart [OF dhcp_demo_reachable this st'(1)] st' show ?thesis by auto
qed

definition demo_sync :: dhcp_state where
  "demo_sync = \<lparr>dh_networks = [], dh_statics = [], dh_servers = [''a''], dh_state_path = ''/d'', dh_conf_name = [''a''],
     dh_conf_text = [[]], dh_fs = [Map.empty], dh_signalled = []\<rparr>"

definition idle_env :: sync_env where
  "idle_env = \<lparr>se_running = (\<lambda>_. False), se_rootfs_dir = ''/r'', se_write_conf = (\<lambda>_. healthy_write []), se_write_hosts = (\<lambda>_. healthy_write [])\<rparr>"

section \<open>Two servers on one range\<close>

definition pair_range :: dhcp_network where
  "pair_range = sample_range\<lparr>dn_servers := [''a'', ''b'']\<rparr>"

text \<open>The empty store of a daemon that remembers the servers \<open>c\<close>, and the store after two servers and their range were set up.\<close>

definition used_memory :: "string list \<Rightarrow> dhcp_state" where
  "used_memory c = demo_store\<lparr>dh_conf_name := c, dh_conf_text := map (\<lambda>_. []) c\<rparr>"

definition pair_store :: "string list \<Rightarrow> fs list \<Rightarrow> dhcp_state" where
  "pair_store c v = (used_memory c)\<lparr>dh_servers := [''a'', ''b''] @ replicate 14 [], dh_networks := pair_range # replicate 31 blank_range, dh_fs := v\<rparr>"

lemma saved_frame:
  assumes "tables_ok (tables s)"
  shows "\<exists>v r. saved env s = Some (s\<lparr>dh_fs := v\<rparr>, r)"
  using assms
proof (rule save_cases [of s env])
  assume "dhcp_save_state env s = Some (s, - 1)"
  then have "saved env s = Some (s\<lparr>dh_fs := dh_fs s\<rparr>, DHCP_ERR_PERSIST_FAILED)" by (simp add: saved_def)
  then show ?thesis by blast
qed (auto simp: saved_def)

lemma reach_saved:
  assumes "dhcp_reachable st" "request_ok req" "perform env req st = saved env s" "tables_ok (tables s)"
  shows "\<exists>v. dhcp_reachable (s\<lparr>dh_fs := v\<rparr>)"
proof -
  obtain v r where "saved env s = Some (s\<lparr>dh_fs := v\<rparr>, r)" using saved_frame [OF assms(4)] by blast
  then show ?thesis using reach_step [OF assms(1,2)] assms(3) by metis
qed

lemma replicate_slots: "replicate 16 x = [x, x] @ replicate 14 x" "replicate 32 x = x # replicate 31 x"
  by (simp_all add: numeral_eq_Suc)

lemmas demo_simps = used_memory_def demo_store_def tables_def used_servers_def used_networks_def used_statics_def blank_range_def blank_static_def
  DHCP_MAX_SERVERS_def DHCP_MAX_NETWORKS_def DHCP_MAX_STATIC_def DHCP_SERVER_NAME_MAX_def replicate_slots

lemma pair_tables:
  "tables ((used_memory c)\<lparr>dh_servers := ''a'' # [] # replicate 14 []\<rparr>) = ([''a''], [], [])"
  "tables ((used_memory c)\<lparr>dh_servers := [''a'', ''b''] @ replicate 14 [], dh_fs := v\<rparr>) = ([''a'', ''b''], [], [])"
  "tables (pair_store c v) = ([''a'', ''b''], [pair_range], [])"
  by (simp_all add: demo_simps pair_store_def pair_range_def sample_range_def)

lemma pair_tables_ok: "tables_ok ([''a''], [], [])" "tables_ok ([''a'', ''b''], [], [])" "tables_ok ([''a'', ''b''], [pair_range], [])"
  by (simp_all add: tables_ok_def server_ok_def range_ok_def range_refused_def pair_range_def sample_range_def DHCP_MAX_SERVERS_def
      DHCP_MAX_NETWORKS_def DHCP_NETWORK_NAME_MAX_def DHCP_MAX_RANGE_SERVERS_def DHCP_SERVER_NAME_MAX_def INT_MIN_def INT_MAX_def NUL_def)

lemma used_memory_reachable: "dhcp_reachable (used_memory c)"
  by (rule reach_start) (simp_all add: used_memory_def demo_store_def)

lemma pair_reachable: "\<exists>v. dhcp_reachable (pair_store c v)"
proof -
  let ?env = "healthy_write []"
  have slots: "net_find (replicate 32 blank_range) ''lan'' = None" "net_free (replicate 32 blank_range) = Some 0"
    "(replicate 32 blank_range)[0 := n] = n # replicate 31 blank_range" for n
    by (simp_all add: net_find_def net_free_def find_index_None blank_range_def replicate_slots)
  have ok: "request_ok (Register ''a'')" "request_ok (Register ''b'')" "request_ok (Set_Range pair_range)"
    using pair_tables_ok(3) by (simp_all add: tables_ok_def range_ok_def DHCP_SERVER_NAME_MAX_def NUL_def)
  have "perform ?env (Register ''a'') (used_memory c) = saved ?env ((used_memory c)\<lparr>dh_servers := ''a'' # [] # replicate 14 []\<rparr>)"
    by (simp add: dhcp_server_register_def dhcp_server_is_registered_def demo_simps snprintf_s_def list_ex_iff)
  then obtain v where v: "dhcp_reachable ((used_memory c)\<lparr>dh_servers := ''a'' # [] # replicate 14 [], dh_fs := v\<rparr>)"
    using reach_saved [OF used_memory_reachable ok(1)] pair_tables(1) pair_tables_ok(1) by fastforce
  have "perform ?env (Register ''b'') ((used_memory c)\<lparr>dh_servers := ''a'' # [] # replicate 14 [], dh_fs := v\<rparr>) =
      saved ?env ((used_memory c)\<lparr>dh_servers := [''a'', ''b''] @ replicate 14 [], dh_fs := v\<rparr>)"
    by (simp add: dhcp_server_register_def dhcp_server_is_registered_def demo_simps snprintf_s_def list_ex_iff)
  then obtain w where w: "dhcp_reachable ((used_memory c)\<lparr>dh_servers := [''a'', ''b''] @ replicate 14 [], dh_fs := w\<rparr>)"
    using reach_saved [OF v ok(2)] pair_tables(2) pair_tables_ok(2) by fastforce
  have "perform ?env (Set_Range pair_range) ((used_memory c)\<lparr>dh_servers := [''a'', ''b''] @ replicate 14 [], dh_fs := w\<rparr>) = saved ?env (pair_store c w)"
    by (simp add: dhcp_network_set_def slots range_refused_def pair_store_def pair_range_def sample_range_def used_memory_def demo_store_def DHCP_MAX_NETWORKS_def)
  then obtain u where "dhcp_reachable ((pair_store c w)\<lparr>dh_fs := u\<rparr>)"
    using reach_saved [OF w ok(3)] pair_tables(3) pair_tables_ok(3) by fastforce
  then show ?thesis by (auto simp: pair_store_def)
qed

lemma length_inet_ntop: "length (inet_ntop a) \<le> 15"
proof -
  have "unat a < 2 ^ 32" using unsigned_less [of a] by simp
  then have "unat a div 256 ^ 3 < 10 ^ 3" "\<And>n :: nat. n mod 256 < 10 ^ 3"
    using mod_less_divisor [of 256] by (simp_all add: less_trans [of _ 256])
  then show ?thesis
    using length_nat_dec [of "unat a div 256 ^ 3" 3] length_nat_dec [of "unat a div 256 ^ 2 mod 256" 3]
      length_nat_dec [of "unat a div 256 mod 256" 3] length_nat_dec [of "unat a mod 256" 3]
    by (simp add: inet_ntop_def Let_def)
qed

lemma pair_renders: "dhcp_render_conf (pair_store c v) s 4096 \<noteq> None"
proof -
  let ?st = "pair_store c v"
  have n: "filter active (dh_networks ?st) = [pair_range]"
    by (simp add: active_def pair_store_def used_memory_def pair_range_def sample_range_def blank_range_def)
  have "length (int_dec (dn_lease_seconds pair_range)) \<le> 20"
    by (rule int_dec_length) (simp_all add: pair_range_def sample_range_def LLONG_MIN_def LLONG_MAX_def)
  moreover have "length (inet_ntop a) \<le> 15" for a by (rule length_inet_ntop)
  note this [of "fst (the (conf_slice ?st s pair_range))"] this [of "snd (the (conf_slice ?st s pair_range))"]
  ultimately have "length (conf_lines ?st s pair_range) \<le> 400"
    by (auto simp: conf_lines_def pair_range_def sample_range_def newline_def split: option.split)
  moreover have "length conf_banner < 2000" by (simp add: conf_banner_def newline_def)
  ultimately have "dhcp_render_conf ?st s 4096 = Some (conf_banner @ conf_lines ?st s pair_range)"
    by (simp add: render_conf_Some n)
  then show ?thesis by simp
qed

lemma pair_facts:
  "used_networks (pair_store c v) = [pair_range]" "used_servers (pair_store c v) = [''a'', ''b'']" "range_ok pair_range" "dn_enabled pair_range"
  "dn_network pair_range = ''lan''" "dn_servers pair_range = [''a'', ''b'']" "name_char CHR ''l'' \<and> name_char CHR ''a'' \<and> name_char CHR ''n''"
  "range_total pair_range = 10"
  using pair_tables(3) [of c v] pair_tables_ok(3)
  by (simp_all add: tables_def tables_ok_def range_total_def pair_range_def sample_range_def name_char_def less_eq_char_def)

lemma pair_pools:
  assumes "dhcp_reachable (pair_store c v)"
  shows "server_pool (pair_store c v) ''lan'' ''a'' = {0xC0A80F0A..0xC0A80F0E}" "server_pool (pair_store c v) ''lan'' ''b'' = {0xC0A80F0F..0xC0A80F13}"
proof -
  note e = server_pool_eq [OF assms _ _ _ pair_renders, of pair_range, unfolded pair_facts]
  have s: "conf_slice (pair_store c v) ''a'' pair_range = dhcp_slice_for pair_range 0 2" "conf_slice (pair_store c v) ''b'' pair_range = dhcp_slice_for pair_range 1 2"
    using conf_slice_nth [OF pair_facts(3), of "pair_store c v" 0] conf_slice_nth [OF pair_facts(3), of "pair_store c v" 1]
    by (simp_all add: pair_facts numeral_2_eq_2)
  have d: "pool (dhcp_slice_for pair_range 0 2) = {0xC0A80F0A..0xC0A80F0E}" "pool (dhcp_slice_for pair_range 1 2) = {0xC0A80F0F..0xC0A80F13}"
    by (simp_all add: dhcp_slice_for_def pair_range_def sample_range_def pool_def)
  show "server_pool (pair_store c v) ''lan'' ''a'' = {0xC0A80F0A..0xC0A80F0E}" using e [of "''a''"] d(1) by (simp add: s pair_facts)
  show "server_pool (pair_store c v) ''lan'' ''b'' = {0xC0A80F0F..0xC0A80F13}" using e [of "''b''"] d(2) by (simp add: s pair_facts)
qed

theorem one_server_per_address_witness:
  "\<exists>st. dhcp_reachable st \<and> server_pool st ''lan'' ''a'' = {0xC0A80F0A..0xC0A80F0E} \<and> server_pool st ''lan'' ''b'' = {0xC0A80F0F..0xC0A80F13} \<and>
     server_pool st ''lan'' ''a'' \<inter> server_pool st ''lan'' ''b'' = {} \<and>
     server_pool st ''lan'' ''a'' \<union> server_pool st ''lan'' ''b'' = {0xC0A80F0A..0xC0A80F13}"
proof -
  obtain v where v: "dhcp_reachable (pair_store (replicate 16 []) v)" using pair_reachable by blast
  have names: "list_all (\<lambda>n. list_all name_char (dn_network n)) (used_networks (pair_store (replicate 16 []) v))" by (simp add: pair_facts)
  note C = one_server_per_address [OF v names]
  have "(\<Union>s \<in> set (dn_servers pair_range). server_pool (pair_store (replicate 16 []) v) (dn_network pair_range) s) = {dn_range_start pair_range..dn_range_end pair_range}"
    using C pair_renders by (auto simp: pair_facts)
  then have "server_pool (pair_store (replicate 16 []) v) ''lan'' ''a'' \<union> server_pool (pair_store (replicate 16 []) v) ''lan'' ''b'' = {0xC0A80F0A..0xC0A80F13}"
    unfolding pair_facts by (simp add: pair_range_def sample_range_def)
  moreover have "server_pool (pair_store (replicate 16 []) v) ''lan'' ''a'' \<inter> server_pool (pair_store (replicate 16 []) v) ''lan'' ''b'' = {}" using C by simp
  ultimately show ?thesis using v pair_pools [OF v] by blast
qed

text \<open>
  The first synchronisation of the two servers lists both; when the memory has one free slot left, it
  lists only the first.
\<close>

lemma pair_sync_facts:
  assumes "list_all (\<lambda>n. n \<noteq> ''a'' \<and> n \<noteq> ''b'') c"
  shows "in_force (pair_store c v) ''a'' = None" "in_force (pair_store c v) ''b'' = None"
    "free_slots (pair_store c v) = length (filter (\<lambda>n. n = []) c)" "dhcp_render_hosts (pair_store c v) 8192 \<noteq> None"
    "length (dh_conf_text (pair_store c v)) = length (dh_conf_name (pair_store c v))"
proof -
  show "in_force (pair_store c v) ''a'' = None" "in_force (pair_store c v) ''b'' = None"
    using assms by (auto simp: in_force_def pair_store_def used_memory_def find_index_None list_all_iff)
  show "free_slots (pair_store c v) = length (filter (\<lambda>n. n = []) c)" by (simp add: free_slots_def pair_store_def used_memory_def)
  have "render_statics k (replicate m blank_static) out = Some out" for k m out
    by (induction m) (simp_all add: blank_static_def)
  then show "dhcp_render_hosts (pair_store c v) 8192 \<noteq> None"
    by (simp add: dhcp_render_hosts_def append_text_def newline_def pair_store_def used_memory_def demo_store_def)
  show "length (dh_conf_text (pair_store c v)) = length (dh_conf_name (pair_store c v))" by (simp add: pair_store_def used_memory_def)
qed

theorem sync_restarts_changed_witness:
  "\<exists>v w st' u'. dhcp_reachable (pair_store (replicate 16 []) v) \<and>
     dhcp_sync_all idle_env (Some 32) (pair_store (replicate 16 []) v) = (st', [''a'', ''b'']) \<and>
     in_force st' ''a'' = dhcp_render_conf (pair_store (replicate 16 []) v) ''a'' 4096 \<and>
     dhcp_reachable (pair_store (replicate 15 ''old'' @ [[]]) w) \<and>
     dhcp_sync_all idle_env (Some 32) (pair_store (replicate 15 ''old'' @ [[]]) w) = (u', [''a'']) \<and> in_force u' ''b'' = None"
proof -
  obtain v w where v: "dhcp_reachable (pair_store (replicate 16 []) v)" "dhcp_reachable (pair_store (replicate 15 ''old'' @ [[]]) w)"
    using pair_reachable by blast
  have c: "list_all (\<lambda>n. n \<noteq> ''a'' \<and> n \<noteq> ''b'') (replicate 16 [])" "list_all (\<lambda>n. n \<noteq> ''a'' \<and> n \<noteq> ''b'') (replicate 15 ''old'' @ [[]])"
    by (simp_all add: list_all_iff)
  note f = pair_sync_facts [OF c(1), of v] and g = pair_sync_facts [OF c(2), of w]
  obtain y z where r: "dhcp_render_conf (pair_store (replicate 16 []) v) ''a'' 4096 = Some y" "dhcp_render_conf (pair_store (replicate 16 []) v) ''b'' 4096 = Some z"
    using pair_renders by blast
  obtain y' z' where r': "dhcp_render_conf (pair_store (replicate 15 ''old'' @ [[]]) w) ''a'' 4096 = Some y'"
    "dhcp_render_conf (pair_store (replicate 15 ''old'' @ [[]]) w) ''b'' 4096 = Some z'"
    using pair_renders by blast
  have first: "\<exists>st'. dhcp_sync_all idle_env (Some 32) (pair_store (replicate 16 []) v) = (st', [''a'', ''b'']) \<and> in_force st' ''a'' = Some y"
    using sync_restarts_changed [OF v(1) f(5), of idle_env 32] f(1-4) r by (auto simp: pair_facts has_place_def)
  have full: "\<exists>u'. dhcp_sync_all idle_env (Some 32) (pair_store (replicate 15 ''old'' @ [[]]) w) = (u', [''a'']) \<and> in_force u' ''b'' = None"
    using sync_restarts_changed [OF v(2) g(5), of idle_env 32] g(1-4) r' by (auto simp: pair_facts has_place_def)
  from first full v r(1) show ?thesis by metis
qed

theorem new_server_never_restarted_witness:
  "''b'' \<notin> set (snd (dhcp_sync_all idle_env (Some 16)
     (demo_sync\<lparr>dh_servers := [''b''], dh_conf_name := replicate 16 ''a'', dh_conf_text := replicate 16 []\<rparr>)))"
  using new_server_never_restarted
    [of "demo_sync\<lparr>dh_servers := [''b''], dh_conf_name := replicate 16 ''a'', dh_conf_text := replicate 16 []\<rparr>" "''b''" idle_env "Some 16"]
  by simp

end
