(* ===== verification/Src_Depth.thy ===== *)
theory Src_Depth
  imports Cix_Prelude "HOL-Library.Product_Lexorder" "HOL-Library.Multiset"
begin

text \<open>
  Which release of a channel a depth expression stands for, \<open>daemon/src/srcdepth.c\<close>: the
  grammar \<open>n\<close>, \<open>n-<lines>\<close>, \<open>n-<lines>.<releases>\<close>, the versions of an upstream feed, and the
  choice among them by a bubble sort and a table of release lines.  The locale \<open>version_order\<close> is
  what a three-way comparison of versions promises; the comparison of recipe versions in
  \<open>Pkg_Version\<close> provides it too.  The reference for the choice is stated on sets: the lines and
  the releases of a line in descending order.
\<close>

section \<open>The grammar\<close>

datatype srcdepth_error = SRCDEPTH_OK | SRCDEPTH_ERR_SYNTAX | SRCDEPTH_ERR_NO_CANDIDATES
  | SRCDEPTH_ERR_NO_SUCH_LINE | SRCDEPTH_ERR_NO_SUCH_RELEASE

fun srcdepth_strerror :: "srcdepth_error \<Rightarrow> string" where
  "srcdepth_strerror SRCDEPTH_OK = ''ok''"
| "srcdepth_strerror SRCDEPTH_ERR_SYNTAX = ''not a depth expression''"
| "srcdepth_strerror SRCDEPTH_ERR_NO_CANDIDATES = ''no candidate releases''"
| "srcdepth_strerror SRCDEPTH_ERR_NO_SUCH_LINE = ''not that many release lines''"
| "srcdepth_strerror SRCDEPTH_ERR_NO_SUCH_RELEASE = ''not that many releases in that line''"

text \<open>One run of digits; no digits, or a value over 100000, is no number.\<close>

fun uint_digits :: "nat \<Rightarrow> string \<Rightarrow> (nat \<times> string) option" where
  "uint_digits v [] = Some (v, [])"
| "uint_digits v (c # s) =
     (if is_digit c
      then let v = v * 10 + digit_val c in if 100000 < v then None else uint_digits v s
      else Some (v, c # s))"

definition read_uint :: "string \<Rightarrow> (nat \<times> string) option" where
  "read_uint s = (case s of [] \<Rightarrow> None | c # _ \<Rightarrow> if is_digit c then uint_digits 0 s else None)"

definition srcdepth_parse :: "string option \<Rightarrow> srcdepth_error + (nat \<times> nat)" where
  "srcdepth_parse s =
     (case s of
        Some (c # s) \<Rightarrow>
          if c \<noteq> CHR ''n'' \<and> c \<noteq> CHR ''N'' then Inl SRCDEPTH_ERR_SYNTAX
          else (case s of
             [] \<Rightarrow> Inr (0, 0)
           | d # s \<Rightarrow>
               if d \<noteq> CHR ''-'' then Inl SRCDEPTH_ERR_SYNTAX
               else (case read_uint s of
                  None \<Rightarrow> Inl SRCDEPTH_ERR_SYNTAX
                | Some (lines, s) \<Rightarrow>
                    (case s of
                       [] \<Rightarrow> Inr (lines, 0)
                     | e # s \<Rightarrow>
                         if e \<noteq> CHR ''.'' then Inl SRCDEPTH_ERR_SYNTAX
                         else (case read_uint s of
                            None \<Rightarrow> Inl SRCDEPTH_ERR_SYNTAX
                          | Some (releases, s) \<Rightarrow>
                              if s \<noteq> [] then Inl SRCDEPTH_ERR_SYNTAX else Inr (lines, releases)))))
      | _ \<Rightarrow> Inl SRCDEPTH_ERR_SYNTAX)"

section \<open>Versions\<close>

record srcdepth_version =
  v_major :: nat
  v_minor :: nat
  v_patch :: nat
  v_valid :: bool

definition no_version :: srcdepth_version where
  "no_version = \<lparr>v_major = 0, v_minor = 0, v_patch = 0, v_valid = False\<rparr>"

text \<open>What is left after the numbers: nothing, or the platform's own revision suffix.\<close>

definition version_tail :: "srcdepth_version \<Rightarrow> string \<Rightarrow> srcdepth_version" where
  "version_tail v s =
     (case s of
        [] \<Rightarrow> v\<lparr>v_valid := True\<rparr>
      | c # q \<Rightarrow>
          if c \<noteq> CHR ''-'' then v
          else (case read_uint q of None \<Rightarrow> v | Some (_, q) \<Rightarrow> if q \<noteq> [] then v else v\<lparr>v_valid := True\<rparr>))"

text \<open>A dot and a number, if there is a dot: then what follows; otherwise the tail.\<close>

definition version_part ::
  "(nat \<Rightarrow> srcdepth_version \<Rightarrow> srcdepth_version) \<Rightarrow> (srcdepth_version \<Rightarrow> string \<Rightarrow> srcdepth_version) \<Rightarrow>
   srcdepth_version \<Rightarrow> string \<Rightarrow> srcdepth_version" where
  "version_part put next v s =
     (case s of
        c # s' \<Rightarrow>
          if c \<noteq> CHR ''.'' then version_tail v s
          else (case read_uint s' of None \<Rightarrow> v | Some (n, s') \<Rightarrow> next (put n v) s')
      | [] \<Rightarrow> version_tail v s)"

definition srcdepth_version_parse :: "string option \<Rightarrow> srcdepth_version" where
  "srcdepth_version_parse s =
     (case s of
        None \<Rightarrow> no_version
      | Some s \<Rightarrow>
          let s = dropWhile (\<lambda>c. c = CHR '' '' \<or> c = CHR 0x09) s;
              s = (case s of c # s' \<Rightarrow> if c = CHR ''v'' \<or> c = CHR ''V'' then s' else s | [] \<Rightarrow> s)
          in case read_uint s of
               None \<Rightarrow> no_version
             | Some (n, s) \<Rightarrow>
                 version_part (\<lambda>n v. v\<lparr>v_minor := n\<rparr>)
                   (version_part (\<lambda>n v. v\<lparr>v_patch := n\<rparr>) version_tail) (no_version\<lparr>v_major := n\<rparr>) s)"

definition srcdepth_version_cmp :: "srcdepth_version \<Rightarrow> srcdepth_version \<Rightarrow> int" where
  "srcdepth_version_cmp a b =
     (if v_major a \<noteq> v_major b then (if v_major a < v_major b then - 1 else 1)
      else if v_minor a \<noteq> v_minor b then (if v_minor a < v_minor b then - 1 else 1)
      else if v_patch a \<noteq> v_patch b then (if v_patch a < v_patch b then - 1 else 1)
      else 0)"

section \<open>The choice\<close>

definition SRCDEPTH_MAX_CANDIDATES :: nat where "SRCDEPTH_MAX_CANDIDATES = 512"

text \<open>The two arrays \<open>v\<close> and \<open>raw\<close> as one list of pairs.\<close>

type_synonym release = "srcdepth_version \<times> string"

fun parse_candidates :: "string list \<Rightarrow> release list \<Rightarrow> release list" where
  "parse_candidates [] acc = acc"
| "parse_candidates (c # cs) acc =
     (if SRCDEPTH_MAX_CANDIDATES \<le> length acc then acc
      else let p = srcdepth_version_parse (Some c) in
        if \<not> v_valid p then parse_candidates cs acc
        else if list_ex (\<lambda>r. srcdepth_version_cmp (fst r) p = 0) acc then parse_candidates cs acc
        else parse_candidates cs (acc @ [(p, c)]))"

text \<open>The inner loop over the first \<open>m\<close> adjacent pairs, and the rounds, each one pair shorter.\<close>

fun bubble_pass :: "('a \<Rightarrow> 'a \<Rightarrow> int) \<Rightarrow> nat \<Rightarrow> 'a list \<Rightarrow> 'a list" where
  "bubble_pass cmp (Suc m) (x # y # zs) =
     (if cmp x y < 0 then y # bubble_pass cmp m (x # zs) else x # bubble_pass cmp m (y # zs))"
| "bubble_pass cmp _ xs = xs"

fun bubble_rounds :: "('a \<Rightarrow> 'a \<Rightarrow> int) \<Rightarrow> nat \<Rightarrow> 'a list \<Rightarrow> 'a list" where
  "bubble_rounds cmp 0 xs = xs"
| "bubble_rounds cmp (Suc k) xs = bubble_rounds cmp k (bubble_pass cmp (Suc k) xs)"

definition newest_first :: "release list \<Rightarrow> release list" where
  "newest_first rs = bubble_rounds (\<lambda>a b. srcdepth_version_cmp (fst a) (fst b)) (length rs - 1) rs"

text \<open>The pass that fills \<open>line_start\<close> and \<open>line_count\<close>: the current line and one pair per line.\<close>

definition line_step :: "nat \<times> release \<Rightarrow> (nat \<times> nat) \<times> (nat \<times> nat) list \<Rightarrow> (nat \<times> nat) \<times> (nat \<times> nat) list" where
  "line_step ir st =
     (let i = fst ir; v = fst (snd ir); cur = fst st; ls = snd st;
          fresh = (ls = [] \<or> v_major v \<noteq> fst cur \<or> v_minor v \<noteq> snd cur);
          ls = (if fresh then ls @ [(i, 0)] else ls);
          cur = (if fresh then (v_major v, v_minor v) else cur)
      in (cur, ls[length ls - 1 := (fst (last ls), Suc (snd (last ls)))]))"

definition line_table :: "release list \<Rightarrow> (nat \<times> nat) list" where
  "line_table rs = snd (fold line_step (enumerate 0 rs) ((0, 0), []))"

text \<open>The answer, and what ends up in \<open>out\<close> and in \<open>err\<close>.\<close>

definition srcdepth_resolve ::
  "string list option \<Rightarrow> int \<Rightarrow> int \<Rightarrow> nat \<Rightarrow> nat \<Rightarrow> srcdepth_error \<times> string \<times> string" where
  "srcdepth_resolve candidates lines releases out_size err_size =
     (case candidates of
        None \<Rightarrow> (SRCDEPTH_ERR_NO_CANDIDATES, [], [])
      | Some cs \<Rightarrow>
          if cs = [] then (SRCDEPTH_ERR_NO_CANDIDATES, [], [])
          else let rs = parse_candidates cs [] in
            if rs = [] then (SRCDEPTH_ERR_NO_CANDIDATES, [], snprintf_s err_size ''no candidate release parsed as a version'')
            else let rs = newest_first rs; ls = line_table rs in
              if lines < 0 \<or> length ls \<le> nat lines
              then (SRCDEPTH_ERR_NO_SUCH_LINE, [], snprintf_s err_size
                (''depth asks to go back '' @ int_dec lines @ '' release line(s), but the channel publishes only '' @
                 nat_dec (length ls) @ '' line(s)''))
              else let (i, in_line) = ls ! nat lines in
                if releases < 0 \<or> in_line \<le> nat releases
                then (SRCDEPTH_ERR_NO_SUCH_RELEASE, [], snprintf_s err_size
                  (''depth asks for release '' @ int_dec releases @ '' back within line '' @
                   nat_dec (v_major (fst (rs ! i))) @ ''.'' @ nat_dec (v_minor (fst (rs ! i))) @
                   '', which publishes only '' @ nat_dec in_line @ '' release(s)''))
                else (SRCDEPTH_OK, snprintf_s out_size (snd (rs ! (i + nat releases))), []))"

section \<open>What a comparison of versions promises\<close>

locale version_order =
  fixes cmp :: "'a \<Rightarrow> 'a \<Rightarrow> int"
    and ok :: "'a \<Rightarrow> bool"
  assumes flip: "ok a \<Longrightarrow> ok b \<Longrightarrow> cmp a b < 0 \<longleftrightarrow> 0 < cmp b a"
    and trans: "ok a \<Longrightarrow> ok b \<Longrightarrow> ok c \<Longrightarrow> 0 \<le> cmp a b \<Longrightarrow> 0 \<le> cmp b c \<Longrightarrow> 0 \<le> cmp a c"
begin

lemma total: "ok a \<Longrightarrow> ok b \<Longrightarrow> 0 \<le> cmp a b \<or> 0 \<le> cmp b a"
  using flip [of a b] by linarith

lemma same: "ok a \<Longrightarrow> cmp a a = 0"
  using flip [of a a] by linarith

text \<open>A pass moves an oldest element of the first \<open>m + 1\<close> to place \<open>m\<close>.\<close>

lemma pass_places_oldest:
  assumes "m < length xs" "list_all ok xs"
  shows "\<exists>as b. bubble_pass cmp m xs = as @ b # drop (Suc m) xs \<and> length as = m \<and>
    mset (as @ [b]) = mset (take (Suc m) xs) \<and> (\<forall>a \<in> set as. 0 \<le> cmp a b)"
  using assms
proof (induction m arbitrary: xs)
  case 0
  then obtain x xs' where "xs = x # xs'" by (cases xs) auto
  then show ?case by (intro exI [of _ "[]"]) auto
next
  case (Suc m)
  then obtain x y zs where xs: "xs = x # y # zs" by (cases xs; cases "tl xs") auto
  define hi where "hi = (if cmp x y < 0 then y else x)"
  define lo where "lo = (if cmp x y < 0 then x else y)"
  have ok: "ok x" "ok y" "list_all ok zs" using Suc.prems xs by auto
  have hl: "ok hi" "ok lo" "0 \<le> cmp hi lo" "{#hi, lo#} = {#x, y#}"
    using ok total [of x y] flip [of x y] by (auto simp: hi_def lo_def add_mset_commute)
  obtain as b where IH: "bubble_pass cmp m (lo # zs) = as @ b # drop (Suc m) (lo # zs)" "length as = m"
    "mset (as @ [b]) = mset (take (Suc m) (lo # zs))" "\<forall>a \<in> set as. 0 \<le> cmp a b"
    using Suc.IH [of "lo # zs"] Suc.prems hl ok unfolding xs by auto
  have pass: "bubble_pass cmp (Suc m) xs = hi # bubble_pass cmp m (lo # zs)"
    by (simp add: xs hi_def lo_def)
  have "set (as @ [b]) = set (take (Suc m) (lo # zs))" using IH(3) by (metis set_mset_mset)
  then have mem: "b \<in> insert lo (set zs)" "lo = b \<or> lo \<in> set as"
    by (auto dest: in_set_takeD)
  then have "0 \<le> cmp lo b" using IH(4) same [OF hl(2)] by auto
  moreover have "ok b" using mem(1) ok hl by (auto simp: list_all_iff)
  ultimately have "0 \<le> cmp hi b" using trans [OF hl(1,2) _ hl(3)] by blast
  moreover have "mset ((hi # as) @ [b]) = mset (take (Suc (Suc m)) xs)"
    using IH(3) hl(4) by (simp add: xs) (metis add_mset_commute add_mset_remove_trivial)
  ultimately show ?case using IH pass xs by (intro exI [of _ "hi # as"] exI [of _ b]) auto
qed

lemma rounds_sort:
  assumes "k < length xs" "list_all ok xs"
  shows "\<exists>ys. bubble_rounds cmp k xs = ys @ drop (Suc k) xs \<and> mset ys = mset (take (Suc k) xs) \<and>
    sorted_wrt (\<lambda>a b. 0 \<le> cmp a b) ys"
  using assms
proof (induction k arbitrary: xs)
  case 0
  then obtain x xs' where "xs = x # xs'" by (cases xs) auto
  then show ?case by auto
next
  case (Suc k)
  obtain as b where P: "bubble_pass cmp (Suc k) xs = as @ b # drop (Suc (Suc k)) xs" "length as = Suc k"
    "mset (as @ [b]) = mset (take (Suc (Suc k)) xs)" "\<forall>a \<in> set as. 0 \<le> cmp a b"
    using pass_places_oldest [OF Suc.prems] by auto
  have "set (as @ [b]) \<subseteq> set xs" using P(3) set_take_subset [of "Suc (Suc k)" xs] by (metis set_mset_mset)
  then have "list_all ok (as @ b # drop (Suc (Suc k)) xs)"
    using Suc.prems(2) by (auto simp: list_all_iff dest: in_set_dropD)
  from Suc.IH [OF _ this] P(2) obtain ys where
    ys: "bubble_rounds cmp k (as @ b # drop (Suc (Suc k)) xs) = ys @ b # drop (Suc (Suc k)) xs" "mset ys = mset as"
    "sorted_wrt (\<lambda>a b. 0 \<le> cmp a b) ys" by auto
  have "sorted_wrt (\<lambda>a b. 0 \<le> cmp a b) (ys @ [b])"
    using ys(3) P(4) mset_eq_setD [OF ys(2)] by (auto simp: sorted_wrt_append)
  moreover have "mset (ys @ [b]) = mset (take (Suc (Suc k)) xs)" using P(3) ys(2) by simp
  ultimately show ?case using P(1) ys(1) by (intro exI [of _ "ys @ [b]"]) auto
qed

lemma sorts:
  assumes "list_all ok xs"
  shows "mset (bubble_rounds cmp (length xs - 1) xs) = mset xs"
    "sorted_wrt (\<lambda>a b. 0 \<le> cmp a b) (bubble_rounds cmp (length xs - 1) xs)"
proof -
  have "mset (bubble_rounds cmp (length xs - 1) xs) = mset xs \<and>
      sorted_wrt (\<lambda>a b. 0 \<le> cmp a b) (bubble_rounds cmp (length xs - 1) xs)"
  proof (cases "xs = []")
    case False
    then have "length xs - 1 < length xs" "Suc (length xs - 1) = length xs" by auto
    with rounds_sort [OF _ assms, of "length xs - 1"] show ?thesis by auto
  qed simp
  then show "mset (bubble_rounds cmp (length xs - 1) xs) = mset xs"
    "sorted_wrt (\<lambda>a b. 0 \<le> cmp a b) (bubble_rounds cmp (length xs - 1) xs)" by auto
qed

text \<open>A scan that keeps the best so far ends at an element no other is newer than.\<close>

lemma scan_newest:
  assumes "list_all ok (b # xs)"
  defines "r \<equiv> fold (\<lambda>x b. if 0 < cmp x b then x else b) xs b"
  shows "r \<in> set (b # xs) \<and> (\<forall>x \<in> set (b # xs). 0 \<le> cmp r x)"
  using assms(1) unfolding r_def
proof (induction xs arbitrary: b)
  case Nil
  then show ?case using same [of b] by simp
next
  case (Cons x xs)
  define b' where "b' = (if 0 < cmp x b then x else b)"
  have ok: "ok x" "ok b" "ok b'" "list_all ok (b' # xs)" using Cons.prems by (auto simp: b'_def)
  have up: "0 \<le> cmp b' x" "0 \<le> cmp b' b" "b' = x \<or> b' = b"
    using ok flip [of x b] flip [of b x] same [of x] same [of b] unfolding b'_def by force+
  let ?r = "fold (\<lambda>x b. if 0 < cmp x b then x else b) xs b'"
  have IH: "?r \<in> set (b' # xs)" "\<forall>y \<in> set (b' # xs). 0 \<le> cmp ?r y" using Cons.IH [OF ok(4)] by auto
  have "ok ?r" using IH(1) ok(4) by (auto simp: list_all_iff)
  then have "0 \<le> cmp ?r x" "0 \<le> cmp ?r b" using trans [of ?r b'] IH(2) ok up by auto
  then show ?case using IH up(3) by (auto simp: b'_def [symmetric])
qed

end

text \<open>The numbers of a version, in the order they are compared.\<close>

definition version_key :: "srcdepth_version \<Rightarrow> (nat \<times> nat) \<times> nat" where
  "version_key v = ((v_major v, v_minor v), v_patch v)"

lemma version_cmp_key:
  "srcdepth_version_cmp a b = (if version_key a < version_key b then - 1 else if version_key a = version_key b then 0 else 1)"
  by (auto simp: srcdepth_version_cmp_def version_key_def)

lemma version_cmp_iff [simp]:
  "srcdepth_version_cmp a b < 0 \<longleftrightarrow> version_key a < version_key b"
  "0 < srcdepth_version_cmp a b \<longleftrightarrow> version_key b < version_key a"
  "0 \<le> srcdepth_version_cmp a b \<longleftrightarrow> version_key b \<le> version_key a"
  "srcdepth_version_cmp a b = 0 \<longleftrightarrow> version_key a = version_key b"
  by (auto simp: version_cmp_key split: if_splits)

interpretation upstream: version_order "\<lambda>a b. srcdepth_version_cmp (fst a) (fst b)" "\<lambda>_. True"
  by unfold_locales auto

section \<open>The reference\<close>

text \<open>The version a candidate names, if it names one; what a list of candidates publishes.\<close>

definition vkey :: "string \<Rightarrow> ((nat \<times> nat) \<times> nat) option" where
  "vkey c = (let p = srcdepth_version_parse (Some c) in if v_valid p then Some (version_key p) else None)"

definition published :: "string list \<Rightarrow> ((nat \<times> nat) \<times> nat) set" where
  "published cs = {k. \<exists>c \<in> set cs. vkey c = Some k}"

definition release_lines :: "string list \<Rightarrow> (nat \<times> nat) set" where
  "release_lines cs = fst ` published cs"

definition line_releases :: "string list \<Rightarrow> nat \<times> nat \<Rightarrow> nat set" where
  "line_releases cs line = {p. (line, p) \<in> published cs}"

definition nth_newest :: "'a::linorder set \<Rightarrow> nat \<Rightarrow> 'a" where
  "nth_newest S n = rev (sorted_list_of_set S) ! n"

lemma finite_published [simp]: "finite (published cs)"
proof -
  have "published cs \<subseteq> (the \<circ> vkey) ` set cs" by (force simp: published_def)
  then show ?thesis by (rule finite_subset) simp
qed

text \<open>A strictly descending list is the descending list of its set.\<close>

lemma descending_unique:
  assumes "sorted_wrt (\<lambda>a b. b \<le> a) (xs :: 'a::linorder list)" "distinct xs"
  shows "xs = rev (sorted_list_of_set (set xs))"
  using sorted_list_of_set.idem_if_sorted_distinct [of "rev xs"] assms
  by (simp add: sorted_wrt_rev)

section \<open>Parsing and sorting the candidates\<close>

definition rkey :: "release \<Rightarrow> (nat \<times> nat) \<times> nat" where
  "rkey r = version_key (fst r)"

definition first_of :: "string list \<Rightarrow> release \<Rightarrow> bool" where
  "first_of cs r = (find (\<lambda>c. vkey c = Some (rkey r)) cs = Some (snd r))"

lemma published_snoc: "published (cs @ [c]) = (case vkey c of None \<Rightarrow> published cs | Some k \<Rightarrow> insert k (published cs))"
  by (auto simp: published_def split: option.splits)

lemma find_append: "find P (xs @ ys) = (case find P xs of None \<Rightarrow> find P ys | Some x \<Rightarrow> Some x)"
  by (induction xs) auto

lemma parse_candidates_inv:
  assumes "distinct (map rkey acc)" "set (map rkey acc) = published ds" "list_all (first_of ds) acc"
    "length acc + length cs \<le> SRCDEPTH_MAX_CANDIDATES"
  shows "distinct (map rkey (parse_candidates cs acc))"
    "set (map rkey (parse_candidates cs acc)) = published (ds @ cs)"
    "list_all (first_of (ds @ cs)) (parse_candidates cs acc)"
proof -
  have "distinct (map rkey (parse_candidates cs acc)) \<and> set (map rkey (parse_candidates cs acc)) = published (ds @ cs) \<and>
      list_all (first_of (ds @ cs)) (parse_candidates cs acc)"
    using assms
  proof (induction cs arbitrary: acc ds)
    case Nil
    then show ?case by simp
  next
    case (Cons c cs)
    define p where "p = srcdepth_version_parse (Some c)"
    have len: "length acc < SRCDEPTH_MAX_CANDIDATES" using Cons.prems(4) by simp
    have first: "list_all (first_of (ds @ [c])) acc"
      using Cons.prems(3) by (auto simp: list_all_iff first_of_def find_append)
    show ?case
    proof (cases "v_valid p \<and> version_key p \<notin> published ds")
      case True
      then have k: "vkey c = Some (version_key p)" by (simp add: vkey_def p_def Let_def)
      have fresh: "\<not> list_ex (\<lambda>r. srcdepth_version_cmp (fst r) p = 0) acc"
        using True Cons.prems(2) by (force simp: list_ex_iff rkey_def)
      have "find (\<lambda>c. vkey c = Some (version_key p)) ds = None"
        using True by (auto simp: find_None_iff published_def)
      then have "first_of (ds @ [c]) (p, c)" by (simp add: first_of_def rkey_def find_append k)
      moreover have "distinct (map rkey (acc @ [(p, c)]))" using True Cons.prems(1,2) by (simp add: rkey_def [of "(p, c)"])
      moreover have "set (map rkey (acc @ [(p, c)])) = published (ds @ [c])"
        using Cons.prems(2) by (simp add: published_snoc k rkey_def)
      ultimately show ?thesis
        using Cons.IH [of "acc @ [(p, c)]" "ds @ [c]"] first Cons.prems(4) len True fresh
        by (simp add: Let_def flip: p_def)
    next
      case False
      have "published (ds @ [c]) = published ds"
        using False by (auto simp: published_snoc vkey_def p_def Let_def insert_absorb split: option.splits)
      moreover have "v_valid p \<Longrightarrow> list_ex (\<lambda>r. srcdepth_version_cmp (fst r) p = 0) acc"
      proof -
        assume "v_valid p"
        with False Cons.prems(2) obtain r where "r \<in> set acc" "rkey r = version_key p" by force
        then show ?thesis by (auto simp: list_ex_iff rkey_def)
      qed
      then have "parse_candidates (c # cs) acc = parse_candidates cs acc"
        using len by (simp add: Let_def flip: p_def)
      ultimately show ?thesis
        using Cons.IH [of acc "ds @ [c]"] first Cons.prems by simp
    qed
  qed
  then show "distinct (map rkey (parse_candidates cs acc))"
    "set (map rkey (parse_candidates cs acc)) = published (ds @ cs)"
    "list_all (first_of (ds @ cs)) (parse_candidates cs acc)" by auto
qed

lemma published_Nil [simp]: "published [] = {}"
  by (simp add: published_def)

lemmas parse_candidates_facts = parse_candidates_inv [of "[]" "[]", simplified]

lemma newest_first_facts:
  fixes cs defines "rs \<equiv> newest_first (parse_candidates cs [])"
  assumes "length cs \<le> SRCDEPTH_MAX_CANDIDATES"
  shows "map rkey rs = rev (sorted_list_of_set (published cs))" "list_all (first_of cs) rs"
proof -
  let ?ps = "parse_candidates cs []"
  note P = parse_candidates_facts [OF assms(2)]
  have M: "mset rs = mset ?ps" "sorted_wrt (\<lambda>a b. 0 \<le> srcdepth_version_cmp (fst a) (fst b)) rs"
    using upstream.sorts [of ?ps] unfolding rs_def newest_first_def by (simp_all add: list_all_iff)
  then have "mset (map rkey rs) = mset (map rkey ?ps)" by simp
  then have D: "distinct (map rkey rs)" "set (map rkey rs) = published cs"
    using P mset_eq_imp_distinct_iff mset_eq_setD by (metis list.set_map)+
  have "sorted_wrt (\<lambda>a b. b \<le> a) (map rkey rs)" using M(2) by (simp add: sorted_wrt_map rkey_def)
  from descending_unique [OF this D(1)] D(2) show "map rkey rs = rev (sorted_list_of_set (published cs))" by simp
  show "list_all (first_of cs) rs" using P(3) mset_eq_setD [OF M(1)] by (simp add: list_all_iff)
qed

section \<open>The table of lines\<close>

definition rline :: "release \<Rightarrow> nat \<times> nat" where
  "rline r = fst (rkey r)"

lemma line_step_eq:
  "line_step (i, r) (cur, ls) =
     (if ls = [] \<or> rline r \<noteq> cur then (rline r, ls @ [(i, 1)])
      else (cur, butlast ls @ [(fst (last ls), Suc (snd (last ls)))]))"
  by (cases ls rule: rev_cases) (auto simp: line_step_def rline_def rkey_def version_key_def Let_def list_update_append nth_append prod_eq_iff)

text \<open>
  An entry of the table is where all releases of a line are.  After a descending prefix the lines of
  the entries are the lines of the prefix in descending order, and the last entry ends with the prefix.
\<close>

definition line_at :: "release list \<Rightarrow> nat \<times> nat \<Rightarrow> nat \<times> nat \<Rightarrow> bool" where
  "line_at rs l e = (0 < snd e \<and> fst e + snd e \<le> length rs \<and>
     take (snd e) (drop (fst e) rs) = filter (\<lambda>r. rline r = l) rs)"

definition table_ok :: "release list \<Rightarrow> (nat \<times> nat) list \<Rightarrow> (nat \<times> nat) list \<Rightarrow> bool" where
  "table_ok rs lines ls =
     (sorted_wrt (\<lambda>a b. b < a) lines \<and> set lines = rline ` set rs \<and> list_all2 (line_at rs) lines ls \<and>
      (rs \<noteq> [] \<longrightarrow> lines \<noteq> [] \<and> last lines = rline (last rs) \<and> fst (last ls) + snd (last ls) = length rs))"

lemma line_at_snoc_other: "line_at rs l e \<Longrightarrow> rline r \<noteq> l \<Longrightarrow> line_at (rs @ [r]) l e"
  by (auto simp: line_at_def)

lemma line_at_snoc_same:
  assumes "line_at rs l (s, c)" "rline r = l" "s + c = length rs"
  shows "line_at (rs @ [r]) l (s, Suc c)"
proof -
  have len: "length (drop s rs) = c" using assms(3) by simp
  have "drop s rs = filter (\<lambda>r. rline r = l) rs" using assms by (auto simp: line_at_def)
  moreover have "drop s (rs @ [r]) = drop s rs @ [r]" using assms(3) by simp
  ultimately have "take (Suc c) (drop s (rs @ [r])) = filter (\<lambda>r. rline r = l) (rs @ [r])"
    using assms(2) len take_all [of "drop s rs @ [r]" "Suc c"] by simp
  moreover have "s + Suc c \<le> length (rs @ [r])" using assms(3) by simp
  ultimately show ?thesis unfolding line_at_def fst_conv snd_conv by blast
qed

lemma line_at_new: "rline r \<notin> rline ` set rs \<Longrightarrow> line_at (rs @ [r]) (rline r) (length rs, 1)"
  by (auto simp: line_at_def filter_empty_conv intro: rev_image_eqI)

lemma table_new_line:
  assumes "table_ok rs lines ls" "\<forall>x \<in> set rs. rline r < rline x"
  shows "table_ok (rs @ [r]) (lines @ [rline r]) (ls @ [(length rs, 1)])"
proof -
  have "list_all2 (line_at (rs @ [r])) lines ls"
  proof (rule list_all2I)
    show "length lines = length ls" using assms by (auto simp: table_ok_def dest: list_all2_lengthD)
    show "\<forall>le \<in> set (zip lines ls). case_prod (line_at (rs @ [r])) le"
    proof
      fix le assume le: "le \<in> set (zip lines ls)"
      then have "fst le \<in> set lines" by (metis prod.collapse set_zip_leftD)
      then have "fst le \<in> rline ` set rs" using assms(1) by (simp add: table_ok_def)
      then have "rline r \<noteq> fst le" using assms(2) by auto
      moreover have "line_at rs (fst le) (snd le)" using assms(1) le by (auto simp: table_ok_def list_all2_iff)
      ultimately show "case_prod (line_at (rs @ [r])) le" using line_at_snoc_other by (simp add: case_prod_beta)
    qed
  qed
  moreover have "rline r \<notin> rline ` set rs" using assms(2) by (metis imageE less_irrefl)
  ultimately have "list_all2 (line_at (rs @ [r])) (lines @ [rline r]) (ls @ [(length rs, 1)])"
    using line_at_new [of r rs] by (intro list_all2_appendI) auto
  then show ?thesis
    using assms by (auto simp: table_ok_def sorted_wrt_append)
qed

lemma table_same_line:
  assumes "table_ok rs lines ls" "rs \<noteq> []" "rline r = rline (last rs)"
  shows "table_ok (rs @ [r]) lines (butlast ls @ [(fst (last ls), Suc (snd (last ls)))])"
proof -
  have ne: "lines \<noteq> []" "last lines = rline r" "ls \<noteq> []" using assms by (auto simp: table_ok_def)
  then obtain ms l es e where ml: "lines = ms @ [l]" "ls = es @ [e]" by (metis append_butlast_last_id)
  have l2: "list_all2 (line_at rs) ms es" "line_at rs l e" "fst e + snd e = length rs" "rline r = l" "l \<notin> set ms"
    using assms ne ml list_all2_lengthD [of "line_at rs" lines ls]
    by (auto simp: table_ok_def list_all2_append sorted_wrt_append)
  have "list_all2 (line_at (rs @ [r])) ms es"
    using l2(1,4,5) by (auto simp: list_all2_conv_all_nth intro!: line_at_snoc_other)
  then show ?thesis
    using assms ml l2 line_at_snoc_same [of rs l "fst e" "snd e" r] list_all2_lengthD [OF l2(1)]
    by (auto simp: table_ok_def list_all2_append)
qed

lemma line_table_ok:
  assumes "sorted_wrt (\<lambda>a b. rline b \<le> rline a) rs"
  shows "\<exists>lines. table_ok rs lines (line_table rs) \<and>
    (rs \<noteq> [] \<longrightarrow> fst (fold line_step (enumerate 0 rs) ((0, 0), [])) = rline (last rs))"
  using assms
proof (induction rs rule: rev_induct)
  case Nil
  then show ?case by (auto simp: table_ok_def line_table_def)
next
  case (snoc r rs)
  obtain cur ls where st: "fold line_step (enumerate 0 rs) ((0, 0), []) = (cur, ls)" by (cases "fold line_step (enumerate 0 rs) ((0, 0), [])")
  obtain lines where T: "table_ok rs lines ls" "rs \<noteq> [] \<Longrightarrow> cur = rline (last rs)"
    using snoc.IH snoc.prems st by (auto simp: sorted_wrt_append line_table_def)
  have step: "fold line_step (enumerate 0 (rs @ [r])) ((0, 0), []) = line_step (length rs, r) (cur, ls)"
    by (simp add: enumerate_append_eq st)
  have empty: "ls = [] \<longleftrightarrow> rs = []" using T(1) by (auto simp: table_ok_def)
  have low: "\<forall>x \<in> set rs. rline r \<le> rline x" using snoc.prems by (auto simp: sorted_wrt_append)
  have least: "\<forall>x \<in> set rs. rline (last rs) \<le> rline x"
    using snoc.prems by (cases rs rule: rev_cases) (auto simp: sorted_wrt_append)
  show ?case
  proof (cases "rs = [] \<or> rline r \<noteq> rline (last rs)")
    case True
    have "\<forall>x \<in> set rs. rline r < rline x"
    proof
      fix x assume x: "x \<in> set rs"
      then have "rline r < rline (last rs)" using True low by (cases rs rule: rev_cases) (auto simp: order_less_le)
      then show "rline r < rline x" using least x by (metis order_less_le_trans)
    qed
    from table_new_line [OF T(1) this] show ?thesis
      using True T(2) step empty by (auto simp: line_table_def line_step_eq)
  next
    case False
    with table_same_line [OF T(1), of r] show ?thesis
      using T(2) step empty by (auto simp: line_table_def line_step_eq)
  qed
qed

section \<open>A depth stands for one release\<close>

text \<open>The chosen line and release of the reference.\<close>

definition chosen_line :: "string list \<Rightarrow> int \<Rightarrow> nat \<times> nat" where
  "chosen_line cs lines = nth_newest (release_lines cs) (nat lines)"

definition chosen_release :: "string list \<Rightarrow> int \<Rightarrow> int \<Rightarrow> (nat \<times> nat) \<times> nat" where
  "chosen_release cs lines releases =
     (let l = chosen_line cs lines in (l, nth_newest (line_releases cs l) (nat releases)))"

lemma descending_strict: "sorted_wrt (\<lambda>a b. b < a) (xs :: 'a::linorder list) \<Longrightarrow> xs = rev (sorted_list_of_set (set xs))"
proof (rule descending_unique)
  assume s: "sorted_wrt (\<lambda>a b. b < a) xs"
  show "sorted_wrt (\<lambda>a b. b \<le> a) xs" by (rule sorted_wrt_mono_rel [OF _ s]) simp
  show "distinct xs" using s by (induction xs) auto
qed

lemma resolved_table:
  fixes cs defines "rs \<equiv> newest_first (parse_candidates cs [])"
  assumes len: "length cs \<le> SRCDEPTH_MAX_CANDIDATES"
  shows "list_all2 (line_at rs) (rev (sorted_list_of_set (release_lines cs))) (line_table rs)"
    "set (map rkey rs) = published cs"
proof -
  have K: "map rkey rs = rev (sorted_list_of_set (published cs))" using newest_first_facts [OF len] by (simp add: rs_def)
  have sorted: "sorted_wrt (\<lambda>a b. rkey b \<le> rkey a) rs"
    using K sorted_wrt_map [of "\<lambda>a b. b \<le> a" rkey rs] by (simp add: sorted_wrt_rev)
  show set: "set (map rkey rs) = published cs" by (simp add: K)
  have "sorted_wrt (\<lambda>a b. rline b \<le> rline a) rs"
    by (rule sorted_wrt_mono_rel [OF _ sorted]) (metis less_eq_prod_def order_less_imp_le rline_def)
  then obtain lines where T: "table_ok rs lines (line_table rs)" using line_table_ok by blast
  have "rline ` set rs = release_lines cs"
    using set by (auto simp: release_lines_def rline_def simp flip: image_comp [unfolded comp_def])
  then have "lines = rev (sorted_list_of_set (release_lines cs))"
    using T descending_strict [of lines] by (simp add: table_ok_def)
  then show "list_all2 (line_at rs) (rev (sorted_list_of_set (release_lines cs))) (line_table rs)"
    using T by (simp add: table_ok_def)
qed

lemma line_at_releases:
  fixes cs defines "rs \<equiv> newest_first (parse_candidates cs [])"
  assumes len: "length cs \<le> SRCDEPTH_MAX_CANDIDATES" and at: "line_at rs l (i, c)"
  shows "map rkey (take c (drop i rs)) = map (Pair l) (rev (sorted_list_of_set (line_releases cs l)))"
proof -
  have K: "map rkey rs = rev (sorted_list_of_set (published cs))" using newest_first_facts [OF len] by (simp add: rs_def)
  let ?ks = "filter (\<lambda>k. fst k = l) (map rkey rs)"
  have ks: "map rkey (take c (drop i rs)) = ?ks"
    using at by (simp add: line_at_def rline_def filter_map comp_def)
  have pairs: "?ks = map (Pair l) (map snd ?ks)"
    by (auto simp: comp_def prod_eq_iff intro!: map_idI [symmetric] nth_equalityI)
  have "sorted_wrt (\<lambda>a b. b < a) ?ks"
    unfolding K by (intro sorted_wrt_filter) (simp add: sorted_wrt_rev)
  then have "sorted_wrt (\<lambda>a b. b < a) (map (Pair l) (map snd ?ks))" using pairs by metis
  then have "sorted_wrt (\<lambda>a b. b < a) (map snd ?ks)"
    by (auto simp: sorted_wrt_map less_prod_def elim!: sorted_wrt_mono_rel [rotated])
  moreover have "set (map snd ?ks) = line_releases cs l"
    unfolding K by (cases l) (auto simp: line_releases_def image_iff)
  ultimately have "map snd ?ks = rev (sorted_list_of_set (line_releases cs l))" using descending_strict by metis
  with pairs ks show ?thesis by metis
qed

lemma chosen_entry:
  fixes cs defines "rs \<equiv> newest_first (parse_candidates cs [])"
  assumes len: "length cs \<le> SRCDEPTH_MAX_CANDIDATES" and k: "nat lines < card (release_lines cs)"
    and e: "line_table rs ! nat lines = (i, c)"
  shows "c = card (line_releases cs (chosen_line cs lines))"
    and "nat releases < c \<Longrightarrow> i + nat releases < length rs \<and> rkey (rs ! (i + nat releases)) = chosen_release cs lines releases"
proof -
  have "line_at rs (chosen_line cs lines) (i, c)"
    using list_all2_nthD [OF resolved_table(1) [OF len], of "nat lines"] k e
    by (simp add: rs_def chosen_line_def nth_newest_def)
  note at = this line_at_releases [OF len, folded rs_def, OF this]
  have ic: "i + c \<le> length rs" using at(1) by (simp add: line_at_def)
  then have lens: "length (take c (drop i rs)) = c" by simp
  show c: "c = card (line_releases cs (chosen_line cs lines))"
    using arg_cong [OF at(2), of length] lens by simp
  assume r: "nat releases < c"
  have "rkey (rs ! (i + nat releases)) = map rkey (take c (drop i rs)) ! nat releases"
    using r ic by simp
  also have "\<dots> = chosen_release cs lines releases"
    unfolding at(2) using r c by (simp add: chosen_release_def nth_newest_def Let_def)
  finally show "i + nat releases < length rs \<and> rkey (rs ! (i + nat releases)) = chosen_release cs lines releases"
    using r ic by simp
qed

text \<open>
  C16. Resolving a depth against a feed of at most 512 entries.  The answer is an error exactly
  when nothing in the feed parses, the feed has not that many release lines, or the line has not that
  many releases.  Otherwise it is the first candidate, as the feed spells it, whose version is
  the \<open>releases\<close>-th newest release of the \<open>lines\<close>-th newest line, whatever the order of the feed,
  its duplicates and its malformed entries.
\<close>

theorem depth_names_release:
  assumes "length cs \<le> SRCDEPTH_MAX_CANDIDATES"
  shows "fst (srcdepth_resolve (Some cs) lines releases n m) =
      (if published cs = {} then SRCDEPTH_ERR_NO_CANDIDATES
       else if \<not> (0 \<le> lines \<and> nat lines < card (release_lines cs)) then SRCDEPTH_ERR_NO_SUCH_LINE
       else if \<not> (0 \<le> releases \<and> nat releases < card (line_releases cs (chosen_line cs lines))) then SRCDEPTH_ERR_NO_SUCH_RELEASE
       else SRCDEPTH_OK) \<and>
    (fst (srcdepth_resolve (Some cs) lines releases n m) = SRCDEPTH_OK \<longrightarrow>
      (\<exists>c. find (\<lambda>c. vkey c = Some (chosen_release cs lines releases)) cs = Some c \<and>
        fst (snd (srcdepth_resolve (Some cs) lines releases n m)) = snprintf_s n c))"
proof (intro conjI impI)
  let ?rs = "newest_first (parse_candidates cs [])" and ?R = "srcdepth_resolve (Some cs) lines releases n m"
  let ?ok = "0 \<le> lines \<and> nat lines < card (release_lines cs)"
  have ne: "cs = [] \<Longrightarrow> published cs = {}" "parse_candidates cs [] = [] \<longleftrightarrow> published cs = {}"
    using parse_candidates_facts(2) [OF assms] by auto
  have lens: "length (line_table ?rs) = card (release_lines cs)"
    using list_all2_lengthD [OF resolved_table(1) [OF assms]] by simp
  obtain i c where e: "line_table ?rs ! nat lines = (i, c)" by fastforce
  note C = chosen_entry [OF assms _ e]
  show *: "fst ?R = (if published cs = {} then SRCDEPTH_ERR_NO_CANDIDATES
       else if \<not> (0 \<le> lines \<and> nat lines < card (release_lines cs)) then SRCDEPTH_ERR_NO_SUCH_LINE
       else if \<not> (0 \<le> releases \<and> nat releases < card (line_releases cs (chosen_line cs lines))) then SRCDEPTH_ERR_NO_SUCH_RELEASE
       else SRCDEPTH_OK)"
    using ne lens C(1) by (auto simp: srcdepth_resolve_def Let_def e)
  assume "fst ?R = SRCDEPTH_OK"
  then have ok: "published cs \<noteq> {}" "?ok" "0 \<le> releases" "nat releases < c"
    using * C(1) by (auto split: if_splits)
  then have R: "?R = (SRCDEPTH_OK, snprintf_s n (snd (?rs ! (i + nat releases))), [])"
    using ne lens by (auto simp: srcdepth_resolve_def Let_def e)
  have "i + nat releases < length ?rs" "rkey (?rs ! (i + nat releases)) = chosen_release cs lines releases"
    using C(2) ok by auto
  then have "find (\<lambda>c. vkey c = Some (chosen_release cs lines releases)) cs = Some (snd (?rs ! (i + nat releases)))"
    using newest_first_facts(2) [OF assms] by (force simp: list_all_length first_of_def)
  then show "\<exists>c. find (\<lambda>c. vkey c = Some (chosen_release cs lines releases)) cs = Some c \<and>
        fst (snd ?R) = snprintf_s n c" using R by simp
qed

lemmas srcdepth_eval = srcdepth_resolve_def srcdepth_version_parse_def read_uint_def version_part_def version_tail_def
  no_version_def newest_first_def line_table_def line_step_def srcdepth_version_cmp_def SRCDEPTH_MAX_CANDIDATES_def
  is_digit_def digit_val_def Let_def snprintf_s_def numeral_2_eq_2 numeral_3_eq_3

definition sample_feed :: "string list" where
  "sample_feed = [''7.2.2'', ''junk'', ''7.1.13'', ''7.2.3-4'', ''v7.2.3'']"

theorem depth_names_release_witness:
  "\<exists>c. find (\<lambda>c. vkey c = Some (chosen_release sample_feed 0 1)) sample_feed = Some c \<and> ''7.2.2'' = snprintf_s 64 c"
proof -
  have R: "srcdepth_resolve (Some sample_feed) 0 1 64 256 = (SRCDEPTH_OK, ''7.2.2'', [])"
    by (simp add: srcdepth_eval sample_feed_def)
  have "length sample_feed \<le> SRCDEPTH_MAX_CANDIDATES" by (simp add: sample_feed_def SRCDEPTH_MAX_CANDIDATES_def)
  from conjunct2 [OF depth_names_release [OF this, of 0 1 64 256]] show ?thesis unfolding R by simp
qed

section \<open>The language of depth expressions\<close>

definition numeral_text :: "string \<Rightarrow> nat \<Rightarrow> bool" where
  "numeral_text ds n = (ds \<noteq> [] \<and> list_all is_digit ds \<and> digits_val 0 ds = n \<and> n \<le> 100000)"

lemma digits_val_mono: "v \<le> digits_val v ds"
proof (induction ds arbitrary: v)
  case (Cons c ds)
  then have "v * 10 + digit_val c \<le> digits_val v (c # ds)" by simp
  then show ?case by linarith
qed simp

lemma uint_digits_iff:
  "v \<le> 100000 \<Longrightarrow> uint_digits v s = Some (n, r) \<longleftrightarrow>
     (\<exists>ds. s = ds @ r \<and> list_all is_digit ds \<and> digits_val v ds = n \<and> n \<le> 100000 \<and> (r = [] \<or> \<not> is_digit (hd r)))"
proof (induction s arbitrary: v)
  case (Cons c s)
  show ?case
  proof (cases "is_digit c")
    case True
    have "(\<exists>ds. c # s = ds @ r \<and> list_all is_digit ds \<and> digits_val v ds = n \<and> n \<le> 100000 \<and> (r = [] \<or> \<not> is_digit (hd r))) \<longleftrightarrow>
      (\<exists>ds. s = ds @ r \<and> list_all is_digit ds \<and> digits_val (v * 10 + digit_val c) ds = n \<and> n \<le> 100000 \<and> (r = [] \<or> \<not> is_digit (hd r)))"
      (is "?L \<longleftrightarrow> ?R")
    proof
      assume ?L
      then obtain ds where "c # s = ds @ r" "list_all is_digit ds" "digits_val v ds = n" "n \<le> 100000" "r = [] \<or> \<not> is_digit (hd r)" by blast
      with True show ?R by (cases ds) auto
    next
      assume ?R
      then obtain ds where "s = ds @ r" "list_all is_digit ds" "digits_val (v * 10 + digit_val c) ds = n" "n \<le> 100000" "r = [] \<or> \<not> is_digit (hd r)" by blast
      with True show ?L by (intro exI [of _ "c # ds"]) auto
    qed
    moreover have "100000 < v * 10 + digit_val c \<Longrightarrow> \<not> (\<exists>ds. digits_val (v * 10 + digit_val c) ds = n \<and> n \<le> 100000)"
      using digits_val_mono [of "v * 10 + digit_val c"] by (meson leD le_less_trans)
    ultimately show ?thesis using True Cons.IH [of "v * 10 + digit_val c"] by (auto simp: Let_def)
  next
    case False
    then show ?thesis using Cons.prems by (auto simp: Cons_eq_append_conv)
  qed
qed auto

lemma read_uint_iff:
  "read_uint s = Some (n, r) \<longleftrightarrow> (\<exists>ds. s = ds @ r \<and> numeral_text ds n \<and> (r = [] \<or> \<not> is_digit (hd r)))"
proof (cases s)
  case (Cons c t)
  show ?thesis
  proof (cases "is_digit c")
    case True
    then have "read_uint s = uint_digits 0 s" by (simp add: read_uint_def Cons)
    moreover have "s = ds @ r \<Longrightarrow> r = [] \<or> \<not> is_digit (hd r) \<Longrightarrow> ds \<noteq> []" for ds using True Cons by auto
    ultimately show ?thesis using uint_digits_iff [of 0 s n r] by (auto simp: numeral_text_def)
  next
    case False
    then show ?thesis by (auto simp: read_uint_def Cons numeral_text_def Cons_eq_append_conv)
  qed
qed (simp add: read_uint_def numeral_text_def)

text \<open>
  C17. A text is a depth (\<open>srcdepth_parse\<close>) exactly when it is the letter \<open>n\<close> or \<open>N\<close>, alone, followed by
  a dash and one numeral, or followed by a dash and two numerals joined by a dot, where a numeral is a
  non-empty run of decimal digits with a value up to 100000; the lines and releases read are those
  values, zero where the numeral is left out.  The header of the module names only the small letter.
\<close>

theorem depth_grammar:
  "srcdepth_parse (Some s) = Inr (lines, releases) \<longleftrightarrow>
     (\<exists>c ds es. (c = CHR ''n'' \<or> c = CHR ''N'') \<and>
       (s = [c] \<and> lines = 0 \<and> releases = 0 \<or>
        s = c # ''-'' @ ds \<and> numeral_text ds lines \<and> releases = 0 \<or>
        s = c # ''-'' @ ds @ ''.'' @ es \<and> numeral_text ds lines \<and> numeral_text es releases))"
proof -
  have dot: "\<not> is_digit (CHR ''.'')" by (simp add: is_digit_def)
  show "srcdepth_parse (Some s) = Inr (lines, releases) \<longleftrightarrow>
     (\<exists>c ds es. (c = CHR ''n'' \<or> c = CHR ''N'') \<and>
       (s = [c] \<and> lines = 0 \<and> releases = 0 \<or>
        s = c # ''-'' @ ds \<and> numeral_text ds lines \<and> releases = 0 \<or>
        s = c # ''-'' @ ds @ ''.'' @ es \<and> numeral_text ds lines \<and> numeral_text es releases))" (is "?L \<longleftrightarrow> ?R")
  proof
    assume L: ?L
    then obtain c s1 where s: "s = c # s1" "c = CHR ''n'' \<or> c = CHR ''N''"
      by (auto simp: srcdepth_parse_def split: list.splits if_splits)
    show ?R
    proof (cases s1)
      case Nil
      then show ?thesis using L s by (auto simp: srcdepth_parse_def)
    next
      case (Cons d s2)
      obtain l s3 where u: "d = CHR ''-''" "read_uint s2 = Some (l, s3)"
        using L s Cons by (auto simp: srcdepth_parse_def split: if_splits option.splits)
      then obtain ds where ds: "s2 = ds @ s3" "numeral_text ds l" by (auto simp: read_uint_iff)
      show ?thesis
      proof (cases s3)
        case Nil
        then have "s = c # ''-'' @ ds \<and> numeral_text ds lines \<and> releases = 0"
          using L s Cons u ds by (simp add: srcdepth_parse_def split: if_splits)
        then show ?thesis using s(2) by blast
      next
        case (Cons e s4)
        have "e = CHR ''.'' \<and> read_uint s4 = Some (releases, []) \<and> l = lines"
          using L s \<open>s1 = d # s2\<close> u Cons by (auto simp: srcdepth_parse_def split: if_splits option.splits)
        then have "s = c # ''-'' @ ds @ ''.'' @ s4 \<and> numeral_text ds lines \<and> numeral_text s4 releases"
          using s(1) \<open>s1 = d # s2\<close> u(1) ds Cons by (simp add: read_uint_iff)
        then show ?thesis using s(2) by blast
      qed
    qed
  next
    assume ?R
    then obtain c ds es where c: "c = CHR ''n'' \<or> c = CHR ''N''" and
      alt: "s = [c] \<and> lines = 0 \<and> releases = 0 \<or> s = c # ''-'' @ ds \<and> numeral_text ds lines \<and> releases = 0 \<or>
        s = c # ''-'' @ ds @ ''.'' @ es \<and> numeral_text ds lines \<and> numeral_text es releases" by blast
    have one: "numeral_text xs k \<Longrightarrow> read_uint xs = Some (k, [])" for xs k by (simp add: read_uint_iff)
    have two: "numeral_text ds lines \<Longrightarrow> read_uint (ds @ CHR ''.'' # es) = Some (lines, CHR ''.'' # es)"
      using dot by (auto simp: read_uint_iff)
    show ?L using c alt one two by (auto simp: srcdepth_parse_def)
  qed
qed

end
