(* ===== verification/Pkg_Version.thy ===== *)
theory Pkg_Version
  imports Src_Depth "HOL-Library.List_Lexorder"
begin

text \<open>
  Recipe versions: \<open>pkg_version_compare\<close> of \<open>daemon/src/pkg.c\<close>, and what \<open>daemon/src/srcresolve.c\<close>
  does with them.  A run of digits is read into a \<open>long\<close>; a run that does not fit overflows a
  signed integer, which the comparison answers with \<open>None\<close>.
\<close>

definition LONG_MAX :: int where "LONG_MAX = 2 ^ 63 - 1"

fun number_run :: "int \<Rightarrow> string \<Rightarrow> (int \<times> string) option" where
  "number_run n [] = Some (n, [])"
| "number_run n (c # s) =
     (if is_digit c
      then let n = n * 10 + int (digit_val c) in if LONG_MAX < n then None else number_run n s
      else Some (n, c # s))"

text \<open>The byte a C string shows at its start.\<close>

definition first_byte :: "string \<Rightarrow> nat" where
  "first_byte s = (case s of [] \<Rightarrow> 0 | c # _ \<Rightarrow> of_char c)"

definition starts_digit :: "string \<Rightarrow> bool" where
  "starts_digit s = (case s of [] \<Rightarrow> False | c # _ \<Rightarrow> is_digit c)"

lemma number_run_length: "number_run n s = Some (m, r) \<Longrightarrow> length r \<le> length s"
  by (induction s arbitrary: n) (auto simp: Let_def split: if_splits intro: le_SucI)

lemma number_run_shorter: "number_run n s = Some (m, r) \<Longrightarrow> starts_digit s \<Longrightarrow> length r < length s"
  by (cases s) (auto simp: Let_def starts_digit_def split: if_splits dest: number_run_length)

function pkg_version_compare :: "string \<Rightarrow> string \<Rightarrow> int option" where
  "pkg_version_compare a b =
     (if a = [] \<and> b = [] then Some 0
      else if starts_digit a \<and> starts_digit b
      then (case number_run 0 a of
              None \<Rightarrow> None
            | Some (na, a') \<Rightarrow>
                (case number_run 0 b of
                   None \<Rightarrow> None
                 | Some (nb, b') \<Rightarrow>
                     if na \<noteq> nb then Some (if na < nb then - 1 else 1) else pkg_version_compare a' b'))
      else if first_byte a \<noteq> first_byte b then Some (if first_byte a < first_byte b then - 1 else 1)
      else pkg_version_compare (tl a) (tl b))"
  by pat_completeness auto
termination
proof (relation "measure (\<lambda>(a, b). length a + length b)", goal_cases)
  case (2 a b x na a' y nb b')
  then show ?case using number_run_shorter [of 0 a na a'] number_run_shorter [of 0 b nb b'] by auto
next
  case (3 a b)
  then show ?case by (cases a; cases b) auto
qed auto

declare pkg_version_compare.simps [simp del]

section \<open>Recipes\<close>

text \<open>The highest of the versions a package has recipes for.\<close>

fun newest_scan :: "string list \<Rightarrow> string option \<Rightarrow> string option option" where
  "newest_scan [] best = Some best"
| "newest_scan (v # vs) best =
     (if v = [] then newest_scan vs best
      else case best of
          None \<Rightarrow> newest_scan vs (Some v)
        | Some b \<Rightarrow>
            (case pkg_version_compare v b of
               None \<Rightarrow> None
             | Some r \<Rightarrow> newest_scan vs (Some (if 0 < r then v else b))))"

definition newest_recipe :: "string list \<Rightarrow> nat \<Rightarrow> string option" where
  "newest_recipe versions out_size =
     map_option (\<lambda>best. case best of None \<Rightarrow> [] | Some b \<Rightarrow> snprintf_s out_size b) (newest_scan versions None)"

text \<open>The text after the last dash, when there is a dash, and the upstream half of a recipe version.\<close>

definition after_dash :: "string \<Rightarrow> string option" where
  "after_dash v = (if CHR ''-'' \<in> set v then Some (rev (takeWhile (\<lambda>c. c \<noteq> CHR ''-'') (rev v))) else None)"

definition srcresolve_upstream_of :: "string option \<Rightarrow> nat \<Rightarrow> string" where
  "srcresolve_upstream_of recipe_version out_size =
     (case recipe_version of
        None \<Rightarrow> []
      | Some v \<Rightarrow>
          if v = [] then []
          else case after_dash v of
              None \<Rightarrow> snprintf_s out_size v
            | Some r \<Rightarrow>
                if r \<noteq> [] \<and> list_all is_digit r
                then let keep = length v - length r - 1 in take (if out_size \<le> keep then out_size - 1 else keep) v
                else snprintf_s out_size v)"

section \<open>The order of recipe versions\<close>

text \<open>
  The reference: a version is a list of tokens, a run of digits with its value or one other byte.
  A run counts as the byte of a digit against another byte; lists are compared lexicographically.
\<close>

function vtokens :: "string \<Rightarrow> (nat \<times> nat) list" where
  "vtokens [] = []"
| "vtokens (c # s) =
     (if is_digit c then (48, digits_val 0 (takeWhile is_digit (c # s))) # vtokens (dropWhile is_digit s)
      else (of_char c, 0) # vtokens s)"
  by pat_completeness auto
termination
  by (relation "measure length") (auto simp: less_Suc_eq_le length_dropWhile_le)

definition fits_long :: "string \<Rightarrow> bool" where
  "fits_long s = (is_c_str s \<and> list_all (\<lambda>t. int (snd t) \<le> LONG_MAX) (vtokens s))"

lemma number_run_eq:
  "int (digits_val n (takeWhile is_digit s)) \<le> LONG_MAX \<Longrightarrow>
     number_run (int n) s = Some (int (digits_val n (takeWhile is_digit s)), dropWhile is_digit s)"
proof (induction s arbitrary: n)
  case (Cons c s)
  show ?case
  proof (cases "is_digit c")
    case True
    have n: "int n * 10 + int (digit_val c) = int (n * 10 + digit_val c)" by simp
    have "int (n * 10 + digit_val c) \<le> LONG_MAX"
      using Cons.prems True digits_val_mono [of "n * 10 + digit_val c" "takeWhile is_digit s"] by simp
    then show ?thesis using Cons.IH [of "n * 10 + digit_val c"] Cons.prems True by (simp add: Let_def n del: of_nat_add of_nat_mult)
  qed simp
qed simp

lemma digit_byte: "is_digit c \<Longrightarrow> \<not> is_digit d \<Longrightarrow>
    (of_char c :: nat) \<noteq> of_char d \<and> ((of_char c :: nat) < of_char d \<longleftrightarrow> 48 < (of_char d :: nat)) \<and> (48::nat) \<noteq> of_char d \<and>
    ((of_char d :: nat) < of_char c \<longleftrightarrow> of_char d < (48 :: nat))"
  by (auto simp: is_digit_iff)

definition sign_of :: "'a::linorder \<Rightarrow> 'a \<Rightarrow> int" where
  "sign_of x y = (if x < y then - 1 else if x = y then 0 else 1)"

lemma sign_of_Cons: "sign_of (x # xs) (y # ys) = (if x = y then sign_of xs ys else sign_of x y)"
  by (auto simp: sign_of_def)

lemma sign_of_Nil [simp]: "sign_of ([] :: 'a::linorder list) (y # ys) = - 1" "sign_of (y # ys) ([] :: 'a::linorder list) = 1"
  "sign_of x x = 0"
  by (auto simp: sign_of_def)

lemma fits_run: "fits_long (c # s) \<Longrightarrow> is_digit c \<Longrightarrow>
    number_run 0 (c # s) = Some (int (digits_val 0 (takeWhile is_digit (c # s))), dropWhile is_digit s) \<and>
    fits_long (dropWhile is_digit s)"
  using number_run_eq [of 0 "c # s"] by (auto simp: fits_long_def is_c_str_def list_all_iff dest: set_dropWhileD)

lemma byte_pos: "c \<noteq> NUL \<Longrightarrow> 0 < (of_char c :: nat)"
proof (rule ccontr)
  assume "c \<noteq> NUL" "\<not> 0 < (of_char c :: nat)"
  then have "(of_char c :: nat) = of_char NUL" by (simp add: NUL_def)
  with \<open>c \<noteq> NUL\<close> show False unfolding of_char_eq_iff by simp
qed

lemma compare_ends:
  "pkg_version_compare [] [] = Some 0"
  "d \<noteq> NUL \<Longrightarrow> pkg_version_compare [] (d # t) = Some (- 1)"
  "c \<noteq> NUL \<Longrightarrow> pkg_version_compare (c # s) [] = Some 1"
  by (simp_all add: pkg_version_compare.simps [of "[]"] pkg_version_compare.simps [of "c # s"] first_byte_def starts_digit_def byte_pos)

lemma compare_digits:
  "is_digit c \<Longrightarrow> is_digit d \<Longrightarrow> number_run 0 (c # s) = Some (na, a') \<Longrightarrow> number_run 0 (d # t) = Some (nb, b') \<Longrightarrow>
     pkg_version_compare (c # s) (d # t) = (if na \<noteq> nb then Some (if na < nb then - 1 else 1) else pkg_version_compare a' b')"
  by (subst pkg_version_compare.simps) (simp add: starts_digit_def del: number_run.simps)

lemma compare_bytes:
  "\<not> (is_digit c \<and> is_digit d) \<Longrightarrow> pkg_version_compare (c # s) (d # t) =
     (if c \<noteq> d then Some (if (of_char c :: nat) < of_char d then - 1 else 1) else pkg_version_compare s t)"
  by (subst pkg_version_compare.simps) (auto simp: starts_digit_def first_byte_def)

lemma compare_tokens: "fits_long a \<Longrightarrow> fits_long b \<Longrightarrow> pkg_version_compare a b = Some (sign_of (vtokens a) (vtokens b))"
proof (induction "length a + length b" arbitrary: a b rule: less_induct)
  case less
  consider (ends) "a = [] \<or> b = []" | (both) c s d t where "a = c # s" "b = d # t" by (cases a; cases b) auto
  then show ?case
  proof cases
    case ends
    then show ?thesis using less.prems
      by (cases a; cases b) (auto simp: compare_ends fits_long_def)
  next
    case both
    show ?thesis
    proof (cases "is_digit c \<and> is_digit d")
      case True
      note R = fits_run [of c s] fits_run [of d t]
      have shorter: "length (dropWhile is_digit s) + length (dropWhile is_digit t) < length a + length b"
        using both length_dropWhile_le [of is_digit s] length_dropWhile_le [of is_digit t] by simp
      have "pkg_version_compare (dropWhile is_digit s) (dropWhile is_digit t) =
          Some (sign_of (vtokens (dropWhile is_digit s)) (vtokens (dropWhile is_digit t)))"
        using less.hyps [OF shorter] R less.prems True both by simp
      then show ?thesis
        using compare_digits [of c d s _ _ t] R less.prems True both
        by (simp add: sign_of_Cons del: takeWhile.simps number_run.simps) (auto simp: sign_of_def)
    next
      case False
      show ?thesis
      proof (cases "c = d")
        case True
        then have "fits_long s" "fits_long t" using less.prems both False by (auto simp: fits_long_def)
        with less.hyps [of s t] show ?thesis using True False both by (simp add: compare_bytes sign_of_Cons)
      next
        case ne: False
        then have "(of_char c :: nat) \<noteq> of_char d" by simp
        with ne False both digit_byte [of c d] digit_byte [of d c] show ?thesis
          by (auto simp: compare_bytes sign_of_Cons sign_of_def)
      qed
    qed
  qed
qed

lemma sign_of_flip: "sign_of x y < 0 \<longleftrightarrow> 0 < sign_of y x" "0 \<le> sign_of x y \<longleftrightarrow> y \<le> x"
  by (auto simp: sign_of_def)

interpretation recipes: version_order "\<lambda>a b. the (pkg_version_compare a b)" fits_long
  by unfold_locales (auto simp: compare_tokens sign_of_flip)

text \<open>
  C18. Comparing two recipe versions whose runs of digits fit a \<open>long\<close> is the lexicographic comparison of
  their tokens: runs by value, other bytes by code, a missing token first.
\<close>

theorem recipe_versions_ordered:
  assumes "fits_long a" "fits_long b"
  shows "pkg_version_compare a b =
    Some (if vtokens a < vtokens b then - 1 else if vtokens a = vtokens b then 0 else 1)"
  using compare_tokens [OF assms] by (simp add: sign_of_def)

lemma fits_long_digits: "is_c_str s \<Longrightarrow> list_all (\<lambda>t. snd t < 1000000) (vtokens s) \<Longrightarrow> fits_long s"
  by (auto simp: fits_long_def LONG_MAX_def list_all_iff)

lemmas vtoken_eval = is_digit_def digit_val_def NUL_def

theorem recipe_versions_ordered_witness: "pkg_version_compare ''1.5.8.pl02'' ''1.5.10'' = Some (- 1)"
proof -
  have "vtokens ''1.5.8.pl02'' = [(48, 1), (46, 0), (48, 5), (46, 0), (48, 8), (46, 0), (112, 0), (108, 0), (48, 2)]"
    "vtokens ''1.5.10'' = [(48, 1), (46, 0), (48, 5), (46, 0), (48, 10)]"
    by (simp_all add: vtoken_eval)
  moreover from this have "fits_long ''1.5.8.pl02''" "fits_long ''1.5.10''" by (auto intro!: fits_long_digits simp: NUL_def)
  ultimately show ?thesis using recipe_versions_ordered [of "''1.5.8.pl02''" "''1.5.10''"] by simp
qed

section \<open>What the catalogue reads off recipe versions\<close>

lemma newest_scan_filter: "newest_scan vs best = newest_scan (filter (\<lambda>v. v \<noteq> []) vs) best"
  by (induction vs arbitrary: best) (auto split: option.split)

lemma newest_scan_fold:
  "list_all fits_long (b # vs) \<Longrightarrow> [] \<notin> set vs \<Longrightarrow>
     newest_scan vs (Some b) = Some (Some (fold (\<lambda>x b. if 0 < the (pkg_version_compare x b) then x else b) vs b))"
  by (induction vs arbitrary: b) (auto simp: compare_tokens)

text \<open>
  The newest recipe of a package is one of its recipes, and no recipe of the package is newer; it is
  empty exactly when the package has none.
\<close>

theorem newest_recipe_newest:
  assumes "list_all fits_long vs"
  shows "(\<forall>v \<in> set vs. v = []) \<and> newest_recipe vs n = Some [] \<or>
    (\<exists>v \<in> set vs. v \<noteq> [] \<and> newest_recipe vs n = Some (snprintf_s n v) \<and>
      (\<forall>w \<in> set vs. w \<noteq> [] \<longrightarrow> (\<exists>r. pkg_version_compare v w = Some r \<and> 0 \<le> r)))"
proof (cases "filter (\<lambda>v. v \<noteq> []) vs")
  case Nil
  then show ?thesis by (auto simp: newest_recipe_def newest_scan_filter [of vs] filter_empty_conv)
next
  case (Cons b us)
  have ok: "list_all fits_long (b # us)" using assms Cons by (metis filter_is_subset list_all_iff subsetD)
  define r where "r = fold (\<lambda>x b. if 0 < the (pkg_version_compare x b) then x else b) us b"
  have mem: "set (b # us) = {v \<in> set vs. v \<noteq> []}" using Cons by (metis set_filter)
  then have "b \<noteq> []" "[] \<notin> set us" by auto
  then have "newest_scan vs None = Some (Some r)"
    using newest_scan_fold [OF ok] mem Cons by (simp add: newest_scan_filter [of vs] r_def)
  moreover have r: "r \<in> set (b # us)" "\<forall>x \<in> set (b # us). 0 \<le> the (pkg_version_compare r x)"
    using recipes.scan_newest [OF ok] by (auto simp: r_def)
  moreover have "\<exists>k. pkg_version_compare r w = Some k \<and> 0 \<le> k" if "w \<in> set (b # us)" for w
    using r that ok by (auto simp: list_all_iff compare_tokens)
  ultimately show ?thesis by (intro disjI2 bexI [of _ r]) (use mem in \<open>auto simp: newest_recipe_def\<close>)
qed

lemma after_dash_revision:
  "after_dash v = Some r \<longleftrightarrow> (\<exists>u. v = u @ ''-'' @ r \<and> CHR ''-'' \<notin> set r)"
proof
  assume "after_dash v = Some r"
  then have d: "CHR ''-'' \<in> set (rev v)" "r = rev (takeWhile (\<lambda>c. c \<noteq> CHR ''-'') (rev v))" by (auto simp: after_dash_def split: if_splits)
  from d(1) have "hd (dropWhile (\<lambda>c. c \<noteq> CHR ''-'') (rev v)) = CHR ''-''" "dropWhile (\<lambda>c. c \<noteq> CHR ''-'') (rev v) \<noteq> []"
    using hd_dropWhile [of "\<lambda>c. c \<noteq> CHR ''-''" "rev v"] by auto
  then obtain t where "dropWhile (\<lambda>c. c \<noteq> CHR ''-'') (rev v) = CHR ''-'' # t" by (metis list.exhaust_sel)
  then have "rev v = rev r @ CHR ''-'' # t" using d(2) takeWhile_dropWhile_id [of "\<lambda>c. c \<noteq> CHR ''-''" "rev v"] by simp
  then have "v = rev t @ ''-'' @ r" by (metis append.assoc append_Cons append_Nil rev.simps(2) rev_append rev_rev_ident)
  moreover have "CHR ''-'' \<notin> set r" using d(2) by (auto dest: set_takeWhileD)
  ultimately show "\<exists>u. v = u @ ''-'' @ r \<and> CHR ''-'' \<notin> set r" by blast
next
  assume "\<exists>u. v = u @ ''-'' @ r \<and> CHR ''-'' \<notin> set r"
  then show "after_dash v = Some r" by (auto simp: after_dash_def takeWhile_append takeWhile_eq_all_conv)
qed

lemma digits_no_dash: "list_all is_digit r \<Longrightarrow> CHR ''-'' \<notin> set r"
  by (auto simp: list_all_iff is_digit_def)

text \<open>The upstream half of a version is what stands before its revision, and the whole text where there is none.\<close>

theorem upstream_of_version:
  assumes "v \<noteq> []" "length v < n"
  shows "(\<forall>u r. v = u @ ''-'' @ r \<and> r \<noteq> [] \<and> list_all is_digit r \<longrightarrow> srcresolve_upstream_of (Some v) n = u) \<and>
    ((\<nexists>u r. v = u @ ''-'' @ r \<and> r \<noteq> [] \<and> list_all is_digit r) \<longrightarrow> srcresolve_upstream_of (Some v) n = v)"
proof (intro conjI allI impI)
  fix u r assume v: "v = u @ ''-'' @ r \<and> r \<noteq> [] \<and> list_all is_digit r"
  then have "after_dash v = Some r" using after_dash_revision digits_no_dash by blast
  then show "srcresolve_upstream_of (Some v) n = u" using v assms(2) by (simp add: srcresolve_upstream_of_def Let_def)
next
  assume no: "\<nexists>u r. v = u @ ''-'' @ r \<and> r \<noteq> [] \<and> list_all is_digit r"
  then show "srcresolve_upstream_of (Some v) n = v"
    using assms after_dash_revision [of v] by (fastforce simp: srcresolve_upstream_of_def split: option.split)
qed

end
