(* ===== verification/Src_Feed.thy ===== *)
theory Src_Feed
  imports Json_Compose Pkg_Version
begin

text \<open>
  What upstreams publish: the cached kernel.org releases and the kernel channel of
  \<open>daemon/src/kernelpolicy.c\<close>, the cached tags of \<open>daemon/src/srcgitea.c\<close>, and the table of discovery
  kinds of \<open>daemon/src/srcupstream.c\<close>.  The static variables of each module are a record; the
  file system and the outcomes of its calls are arguments, as in \<open>Persist\<close>.
\<close>

section \<open>The kernel channel and the kernel.org releases\<close>

definition KERNEL_VERSION_MAX :: nat where "KERNEL_VERSION_MAX = 64"
definition KERNEL_SERIES_MAX :: nat where "KERNEL_SERIES_MAX = 16"
definition KERNEL_SOURCE_MAX :: nat where "KERNEL_SOURCE_MAX = 512"
definition KERNEL_MAX_RELEASES :: nat where "KERNEL_MAX_RELEASES = 32"

datatype kernel_channel = KERNEL_CHANNEL_PINNED | KERNEL_CHANNEL_LONGTERM | KERNEL_CHANNEL_STABLE | KERNEL_CHANNEL_MAINLINE

record release_entry =
  rl_moniker :: string
  rl_version :: string
  rl_source :: string
  rl_series :: string

record kernel_policy =
  kp_channel :: kernel_channel
  kp_path :: string
  kp_releases :: "release_entry list"
  kp_fetched_at :: int

fun kernel_channel_name :: "kernel_channel \<Rightarrow> string" where
  "kernel_channel_name KERNEL_CHANNEL_LONGTERM = ''longterm''"
| "kernel_channel_name KERNEL_CHANNEL_STABLE = ''stable''"
| "kernel_channel_name KERNEL_CHANNEL_MAINLINE = ''mainline''"
| "kernel_channel_name KERNEL_CHANNEL_PINNED = ''pinned''"

definition kernel_channel_from_name :: "string option \<Rightarrow> kernel_channel option" where
  "kernel_channel_from_name name =
     (case name of
        None \<Rightarrow> None
      | Some s \<Rightarrow>
          if s = ''pinned'' then Some KERNEL_CHANNEL_PINNED
          else if s = ''longterm'' then Some KERNEL_CHANNEL_LONGTERM
          else if s = ''stable'' then Some KERNEL_CHANNEL_STABLE
          else if s = ''mainline'' then Some KERNEL_CHANNEL_MAINLINE
          else None)"

text \<open>The scan of a version: how far it gets, and the dots it counted.\<close>

fun series_scan :: "string \<Rightarrow> nat \<Rightarrow> nat \<Rightarrow> nat \<times> nat" where
  "series_scan [] dots i = (i, dots)"
| "series_scan (c # s) dots i =
     (if c = CHR ''.'' then (if Suc dots = 2 then (i, 2) else series_scan s (Suc dots) (Suc i))
      else if is_digit c then series_scan s dots (Suc i)
      else (i, dots))"

definition kernel_version_series :: "string option \<Rightarrow> nat \<Rightarrow> string option" where
  "kernel_version_series s out_size =
     (case s of
        None \<Rightarrow> None
      | Some s \<Rightarrow>
          if out_size = 0 then None
          else let (i, dots) = series_scan s 0 0 in
            if i = 0 \<or> out_size \<le> i then None
            else if dots = 0 \<and> \<not> (i < length s \<and> s ! i = CHR ''.'') then None
            else Some (take i s))"

definition kernelpolicy_save_state :: "write_env \<Rightarrow> kernel_policy \<Rightarrow> fs \<Rightarrow> fs list \<times> int" where
  "kernelpolicy_save_state env kp fs =
     (let buf = ''{\"channel\":\"'' @ kernel_channel_name (kp_channel kp) @ ''\"}'' @ [CHR 0x0A] in
      if 128 \<le> length buf \<or> kp_path kp = [] then ([fs], - 1)
      else persist_atomic_write env (kp_path kp) buf fs)"

definition kernelpolicy_init :: "read_env \<Rightarrow> kernel_policy \<Rightarrow> string \<Rightarrow> fs \<Rightarrow> kernel_policy \<times> int" where
  "kernelpolicy_init env kp path fs =
     (let kp = kp\<lparr>kp_path := snprintf_s 512 path, kp_channel := KERNEL_CHANNEL_PINNED\<rparr>
      in case persist_read_file env path fs of
           ReadErr \<Rightarrow> (kp, - 1)
         | ReadAbsent \<Rightarrow> (kp, 0)
         | ReadData d \<Rightarrow>
             (case json_parse d of
                None \<Rightarrow> (kp, 0)
              | Some tree \<Rightarrow>
                  (case json_object_get (Some tree) ''channel'' of
                     None \<Rightarrow> (kp, 0)
                   | Some c \<Rightarrow>
                       (case kernel_channel_from_name (json_as_string (Some c)) of
                          None \<Rightarrow> (kp, 0)
                        | Some ch \<Rightarrow> (kp\<lparr>kp_channel := ch\<rparr>, 0)))))"

definition kernelpolicy_repoint :: "kernel_policy \<Rightarrow> string \<Rightarrow> kernel_policy" where
  "kernelpolicy_repoint kp path = kp\<lparr>kp_path := snprintf_s 512 path\<rparr>"

definition kernelpolicy_set_channel :: "write_env \<Rightarrow> kernel_policy \<Rightarrow> kernel_channel \<Rightarrow> fs \<Rightarrow> kernel_policy \<times> fs list \<times> int" where
  "kernelpolicy_set_channel env kp channel fs =
     (let kp = kp\<lparr>kp_channel := channel\<rparr> in (kp, kernelpolicy_save_state env kp fs))"

text \<open>One entry of \<open>releases.json\<close>; the cache is filled up to its size.\<close>

definition ingest_entry :: "json \<Rightarrow> release_entry option" where
  "ingest_entry e =
     (case e of
        JObject _ \<Rightarrow>
          (case (json_as_string (json_object_get (Some e) ''moniker''), json_as_string (json_object_get (Some e) ''version''),
                 json_as_string (json_object_get (Some e) ''source'')) of
             (Some moniker, Some version, Some source) \<Rightarrow>
               if source = [] then None
               else if moniker \<noteq> ''longterm'' \<and> moniker \<noteq> ''stable'' \<and> moniker \<noteq> ''mainline'' then None
               else (case kernel_version_series (Some version) KERNEL_SERIES_MAX of
                  None \<Rightarrow> None
                | Some series \<Rightarrow> Some \<lparr>rl_moniker = snprintf_s 24 moniker, rl_version = snprintf_s KERNEL_VERSION_MAX version,
                    rl_source = snprintf_s KERNEL_SOURCE_MAX source, rl_series = snprintf_s KERNEL_SERIES_MAX series\<rparr>)
           | _ \<Rightarrow> None)
      | _ \<Rightarrow> None)"

definition kernelpolicy_ingest_releases :: "read_env \<Rightarrow> kernel_policy \<Rightarrow> string \<Rightarrow> int \<Rightarrow> fs \<Rightarrow> kernel_policy \<times> int" where
  "kernelpolicy_ingest_releases env kp path now fs =
     (case persist_read_file env path fs of
        ReadData d \<Rightarrow>
          (case json_parse d of
             None \<Rightarrow> (kp, - 1)
           | Some tree \<Rightarrow>
               (case json_object_get (Some tree) ''releases'' of
                  Some (JArray es) \<Rightarrow>
                    let parsed = load_slots KERNEL_MAX_RELEASES ingest_entry es [] in
                    if parsed = [] then (kp, - 1) else (kp\<lparr>kp_releases := parsed, kp_fetched_at := now\<rparr>, 0)
                | _ \<Rightarrow> (kp, - 1)))
      | _ \<Rightarrow> (kp, - 1))"

definition find_moniker :: "kernel_policy \<Rightarrow> string \<Rightarrow> release_entry option" where
  "find_moniker kp moniker = find (\<lambda>r. rl_moniker r = moniker) (kp_releases kp)"

definition find_longterm_series :: "kernel_policy \<Rightarrow> string option \<Rightarrow> release_entry option" where
  "find_longterm_series kp series =
     (case series of
        None \<Rightarrow> None
      | Some s \<Rightarrow> if s = [] then None else find (\<lambda>r. rl_moniker r = ''longterm'' \<and> rl_series r = s) (kp_releases kp))"

definition kernelpolicy_channel_versions :: "kernel_policy \<Rightarrow> string option \<Rightarrow> nat \<Rightarrow> nat \<Rightarrow> string list" where
  "kernelpolicy_channel_versions kp moniker stride max_count =
     (case moniker of
        None \<Rightarrow> []
      | Some m \<Rightarrow>
          if stride = 0 \<or> max_count = 0 then []
          else take max_count (map (\<lambda>r. snprintf_s stride (rl_version r)) (filter (\<lambda>r. rl_moniker r = m) (kp_releases kp))))"

record kernel_resolution =
  kr_known :: bool
  kr_version :: string
  kr_source_url :: string
  kr_series :: string
  kr_series_maintained :: bool
  kr_newest_longterm :: string
  kr_newest_longterm_series :: string

definition no_resolution :: kernel_resolution where
  "no_resolution = \<lparr>kr_known = False, kr_version = [], kr_source_url = [], kr_series = [], kr_series_maintained = False,
     kr_newest_longterm = [], kr_newest_longterm_series = []\<rparr>"

definition fill_from :: "kernel_resolution \<Rightarrow> release_entry \<Rightarrow> kernel_resolution" where
  "fill_from out e = out\<lparr>kr_known := True, kr_version := snprintf_s KERNEL_VERSION_MAX (rl_version e),
     kr_source_url := snprintf_s KERNEL_SOURCE_MAX (rl_source e), kr_series := snprintf_s KERNEL_SERIES_MAX (rl_series e)\<rparr>"

definition kernelpolicy_resolve :: "kernel_policy \<Rightarrow> kernel_channel \<Rightarrow> string option \<Rightarrow> kernel_resolution" where
  "kernelpolicy_resolve kp channel running_series =
     (if kp_releases kp = [] then no_resolution
      else let newest_lt = find_moniker kp ''longterm'';
               out = (case newest_lt of
                  None \<Rightarrow> no_resolution
                | Some e \<Rightarrow> no_resolution\<lparr>kr_newest_longterm := snprintf_s KERNEL_VERSION_MAX (rl_version e),
                    kr_newest_longterm_series := snprintf_s KERNEL_SERIES_MAX (rl_series e)\<rparr>);
               out = out\<lparr>kr_series_maintained := (find_longterm_series kp running_series \<noteq> None)\<rparr>;
               hit = (case channel of
                  KERNEL_CHANNEL_MAINLINE \<Rightarrow> find_moniker kp ''mainline''
                | KERNEL_CHANNEL_STABLE \<Rightarrow> find_moniker kp ''stable''
                | KERNEL_CHANNEL_LONGTERM \<Rightarrow> (case find_longterm_series kp running_series of None \<Rightarrow> newest_lt | Some e \<Rightarrow> Some e)
                | KERNEL_CHANNEL_PINNED \<Rightarrow> None)
           in case hit of None \<Rightarrow> out\<lparr>kr_known := True\<rparr> | Some e \<Rightarrow> fill_from out e)"

section \<open>Gitea tags\<close>

definition SRCUPSTREAM_VERSION_MAX :: nat where "SRCUPSTREAM_VERSION_MAX = 64"
definition SRCUPSTREAM_MAX_CANDIDATES :: nat where "SRCUPSTREAM_MAX_CANDIDATES = 32"

text \<open>\<open>strncmp (s, p, strlen (p)) == 0\<close>, \<open>strstr\<close> and \<open>strchr\<close>: the text from the match on.\<close>

definition begins :: "string \<Rightarrow> string \<Rightarrow> bool" where
  "begins p s = (take (length p) s = p)"

fun strstr :: "string \<Rightarrow> string \<Rightarrow> string option" where
  "strstr [] p = (if p = [] then Some [] else None)"
| "strstr (c # s) p = (if begins p (c # s) then Some (c # s) else strstr s p)"

fun strchr :: "string \<Rightarrow> char \<Rightarrow> string option" where
  "strchr [] c = None"
| "strchr (d # s) c = (if d = c then Some (d # s) else strchr s c)"

definition TAGS_PAGE :: string where "TAGS_PAGE = ''/tags?limit=50&page=1''"

definition srcgitea_tags_url :: "string option \<Rightarrow> nat \<Rightarrow> string option" where
  "srcgitea_tags_url source out_size =
     (case source of
        None \<Rightarrow> None
      | Some src \<Rightarrow>
          if out_size = 0 then None
          else if \<not> begins ''https://'' src \<and> \<not> begins ''http://'' src then None
          else (case strstr src ''/api/v1/repos/'' of
             None \<Rightarrow> None
           | Some repos \<Rightarrow>
               let owner = drop (length ''/api/v1/repos/'') repos in
               (case strchr owner (CHR ''/'') of
                  None \<Rightarrow> None
                | Some owner_end \<Rightarrow>
                    if length owner_end = length owner then None
                    else let repo = tl owner_end in
                      (case strchr repo (CHR ''/'') of
                         None \<Rightarrow> None
                       | Some repo_end \<Rightarrow>
                           if length repo_end = length repo \<or> \<not> begins ''/archive/'' repo_end then None
                           else let url = take (length src - length repo_end) src @ TAGS_PAGE in
                             if out_size \<le> length url then None else Some url))))"

definition srcgitea_version_of_tag :: "string option \<Rightarrow> string option \<Rightarrow> nat \<Rightarrow> string option" where
  "srcgitea_version_of_tag tag tmpl out_size =
     (case (tag, tmpl) of
        (Some tag, Some tmpl) \<Rightarrow>
          if out_size = 0 then None
          else (case strstr tmpl ''{version}'' of
             None \<Rightarrow> None
           | Some slot \<Rightarrow>
               let prefix = length tmpl - length slot; rest = drop 9 slot; suffix = length rest in
               if length tag \<le> prefix + suffix \<or> take prefix tag \<noteq> take prefix tmpl \<or> drop (length tag - suffix) tag \<noteq> rest then None
               else let ver = take (length tag - prefix - suffix) (drop prefix tag) in
                 if out_size \<le> length ver then None
                 else if list_ex (\<lambda>c. c \<in> set [CHR ''/'', CHR '' '', CHR 0x09, CHR 0x22, CHR ''{'', CHR ''}'']) ver then None
                 else Some ver)
      | _ \<Rightarrow> None)"

definition listing_version :: "string \<Rightarrow> json \<Rightarrow> string option" where
  "listing_version tmpl v =
     srcgitea_version_of_tag (json_as_string (json_object_get (Some v) ''name'')) (Some tmpl) SRCUPSTREAM_VERSION_MAX"

definition srcgitea_versions_from_listing :: "string \<Rightarrow> string \<Rightarrow> nat \<Rightarrow> string list option" where
  "srcgitea_versions_from_listing listing tmpl max_count =
     (case json_parse listing of Some (JArray vs) \<Rightarrow> Some (load_slots max_count (listing_version tmpl) vs []) | _ \<Rightarrow> None)"

text \<open>A package name as a file name below a directory (\<open>cache_path\<close> and \<open>record_path\<close> are the same code).\<close>

definition package_char :: "char \<Rightarrow> bool" where
  "package_char c = (CHR ''a'' \<le> c \<and> c \<le> CHR ''z'' \<or> CHR ''0'' \<le> c \<and> c \<le> CHR ''9'' \<or> c \<in> set ''._+-'')"

definition cache_path :: "string \<Rightarrow> string \<Rightarrow> nat \<Rightarrow> string option" where
  "cache_path dir package out_size =
     (if dir = [] \<or> package = [] \<or> hd package = CHR ''.'' \<or> \<not> list_all package_char package then None
      else let path = dir @ ''/'' @ package @ ''.json'' in if length path < out_size then Some path else None)"

definition srcgitea_load :: "read_env \<Rightarrow> string \<Rightarrow> string \<Rightarrow> fs \<Rightarrow> json option" where
  "srcgitea_load env dir package fs =
     (case cache_path dir package PATH_MAX of
        None \<Rightarrow> None
      | Some path \<Rightarrow>
          (case persist_read_file env path fs of
             ReadData d \<Rightarrow> (case json_parse d of Some (JObject ms) \<Rightarrow> Some (JObject ms) | _ \<Rightarrow> None)
           | _ \<Rightarrow> None))"

definition cached_version :: "json \<Rightarrow> string option" where
  "cached_version v =
     (case json_as_string (Some v) of
        None \<Rightarrow> None
      | Some s \<Rightarrow> if s \<noteq> [] \<and> length s < SRCUPSTREAM_VERSION_MAX then Some (snprintf_s SRCUPSTREAM_VERSION_MAX s) else None)"

definition srcgitea_candidates :: "read_env \<Rightarrow> string \<Rightarrow> string \<Rightarrow> nat \<Rightarrow> fs \<Rightarrow> string list" where
  "srcgitea_candidates env dir package max_count fs =
     (case srcgitea_load env dir package fs of
        None \<Rightarrow> []
      | Some tree \<Rightarrow> (case json_object_get (Some tree) ''versions'' of Some (JArray vs) \<Rightarrow> load_slots max_count cached_version vs [] | _ \<Rightarrow> []))"

definition srcgitea_fetched_at :: "read_env \<Rightarrow> string \<Rightarrow> string \<Rightarrow> fs \<Rightarrow> int" where
  "srcgitea_fetched_at env dir package fs =
     (case srcgitea_load env dir package fs of
        None \<Rightarrow> 0
      | Some tree \<Rightarrow> d2ll (json_as_number (json_object_get (Some tree) ''fetched_at'')))"

text \<open>For a buffer of at least one byte; without one the source returns \<open>-1\<close> and writes nothing.\<close>

definition srcgitea_error :: "read_env \<Rightarrow> string \<Rightarrow> string \<Rightarrow> nat \<Rightarrow> fs \<Rightarrow> string" where
  "srcgitea_error env dir package out_size fs =
     (case srcgitea_load env dir package fs of
        None \<Rightarrow> []
      | Some tree \<Rightarrow> (case json_as_string (json_object_get (Some tree) ''error'') of None \<Rightarrow> [] | Some e \<Rightarrow> snprintf_s out_size e))"

text \<open>The document both stores write; \<open>problem\<close> is the error and its time, if there is one.\<close>

definition gitea_document :: "int \<Rightarrow> string list \<Rightarrow> (string \<times> int) option \<Rightarrow> json_writer option" where
  "gitea_document fetched versions problem =
     do { w \<leftarrow> jw_obj_open (jw_init blank_writer);
          w \<leftarrow> jw_key w ''fetched_at'';
          w \<leftarrow> jw_int w fetched;
          w \<leftarrow> jw_key w ''versions'';
          w \<leftarrow> jw_arr_open w;
          w \<leftarrow> jw_each jw_str w versions;
          w \<leftarrow> Some (jw_arr_close w);
          w \<leftarrow> (case problem of
                 None \<Rightarrow> Some w
               | Some (why, now) \<Rightarrow>
                   do { w \<leftarrow> jw_key w ''error'';
                        w \<leftarrow> jw_str w why;
                        w \<leftarrow> jw_key w ''error_at'';
                        jw_int w now });
          Some (jw_obj_close w) }"

definition srcgitea_store_listing :: "write_env \<Rightarrow> string \<Rightarrow> string \<Rightarrow> string \<Rightarrow> string \<Rightarrow> int \<Rightarrow> fs \<Rightarrow> (fs list \<times> int) option" where
  "srcgitea_store_listing env dir package listing tmpl now fs =
     (case cache_path dir package PATH_MAX of
        None \<Rightarrow> Some ([fs], - 1)
      | Some path \<Rightarrow>
          (case srcgitea_versions_from_listing listing tmpl SRCUPSTREAM_MAX_CANDIDATES of
             None \<Rightarrow> Some ([fs], - 1)
           | Some versions \<Rightarrow> do { w \<leftarrow> gitea_document now versions None; Some (persist_atomic_write env path (jw_buf w) fs) }))"

definition srcgitea_store_error :: "read_env \<Rightarrow> write_env \<Rightarrow> string \<Rightarrow> string \<Rightarrow> string option \<Rightarrow> int \<Rightarrow> fs \<Rightarrow> (fs list \<times> int) option" where
  "srcgitea_store_error renv env dir package why now fs =
     (case (cache_path dir package PATH_MAX, why) of
        (Some path, Some why) \<Rightarrow>
          do { w \<leftarrow> gitea_document (srcgitea_fetched_at renv dir package fs)
                      (srcgitea_candidates renv dir package SRCUPSTREAM_MAX_CANDIDATES fs) (Some (why, now));
               Some (persist_atomic_write env path (jw_buf w) fs) }
      | _ \<Rightarrow> Some ([fs], - 1))"

section \<open>Discovery kinds\<close>

datatype srcupstream_error = SRCUPSTREAM_OK | SRCUPSTREAM_ERR_NO_SUCH_KIND | SRCUPSTREAM_ERR_NO_CHANNELS
  | SRCUPSTREAM_ERR_BAD_CHANNEL | SRCUPSTREAM_ERR_CHANNEL_REQUIRED

fun srcupstream_strerror :: "srcupstream_error \<Rightarrow> string" where
  "srcupstream_strerror SRCUPSTREAM_OK = ''ok''"
| "srcupstream_strerror SRCUPSTREAM_ERR_NO_SUCH_KIND = ''no such upstream kind''"
| "srcupstream_strerror SRCUPSTREAM_ERR_NO_CHANNELS = ''this upstream publishes a single release sequence''"
| "srcupstream_strerror SRCUPSTREAM_ERR_BAD_CHANNEL = ''not a channel this upstream publishes''"
| "srcupstream_strerror SRCUPSTREAM_ERR_CHANNEL_REQUIRED = ''this upstream publishes several channels and none was chosen''"

text \<open>Where the feeds are read from: the kernel.org cache, the Gitea directory and the file system.\<close>

record feeds =
  fd_kernel :: kernel_policy
  fd_gitea_dir :: string
  fd_read :: read_env
  fd_fs :: fs

record srcupstream_kind =
  su_name :: string
  su_channels :: "string list option"
  su_summary :: string
  su_candidates :: "feeds \<Rightarrow> string \<Rightarrow> string option \<Rightarrow> nat \<Rightarrow> string list"
  su_fetched_at :: "feeds \<Rightarrow> string \<Rightarrow> int"
  su_problem :: "(feeds \<Rightarrow> string \<Rightarrow> nat \<Rightarrow> string) option"

definition KORG_CHANNELS :: "string list" where "KORG_CHANNELS = [''mainline'', ''stable'', ''longterm'']"

definition kernelorg_candidates :: "feeds \<Rightarrow> string \<Rightarrow> string option \<Rightarrow> nat \<Rightarrow> string list" where
  "kernelorg_candidates fd package channel max_count =
     (case channel of
        None \<Rightarrow> []
      | Some c \<Rightarrow> if c = [] then [] else kernelpolicy_channel_versions (fd_kernel fd) (Some c) SRCUPSTREAM_VERSION_MAX max_count)"

definition kernelorg_fetched_at :: "feeds \<Rightarrow> string \<Rightarrow> int" where
  "kernelorg_fetched_at fd package = kp_fetched_at (fd_kernel fd)"

definition giteatags_candidates :: "feeds \<Rightarrow> string \<Rightarrow> string option \<Rightarrow> nat \<Rightarrow> string list" where
  "giteatags_candidates fd package channel max_count = srcgitea_candidates (fd_read fd) (fd_gitea_dir fd) package max_count (fd_fs fd)"

definition giteatags_fetched_at :: "feeds \<Rightarrow> string \<Rightarrow> int" where
  "giteatags_fetched_at fd package = srcgitea_fetched_at (fd_read fd) (fd_gitea_dir fd) package (fd_fs fd)"

definition KINDS :: "srcupstream_kind list" where
  "KINDS =
     [\<lparr>su_name = ''kernel.org'', su_channels = Some KORG_CHANNELS,
       su_summary = ''kernel.org releases.json; checksums from its signed sha256sums.asc'',
       su_candidates = kernelorg_candidates, su_fetched_at = kernelorg_fetched_at, su_problem = None\<rparr>,
      \<lparr>su_name = ''gitea-tags'', su_channels = None,
       su_summary = ''the tags of the package's own Gitea repository, read from its upstream source template'',
       su_candidates = giteatags_candidates, su_fetched_at = giteatags_fetched_at,
       su_problem = Some (\<lambda>fd package n. srcgitea_error (fd_read fd) (fd_gitea_dir fd) package n (fd_fs fd))\<rparr>]"

definition srcupstream_candidates :: "srcupstream_kind option \<Rightarrow> feeds \<Rightarrow> string \<Rightarrow> string option \<Rightarrow> nat \<Rightarrow> string list" where
  "srcupstream_candidates kind fd package channel max_count =
     (case kind of None \<Rightarrow> [] | Some k \<Rightarrow> if max_count = 0 then [] else su_candidates k fd package channel max_count)"

definition srcupstream_fetched_at :: "srcupstream_kind option \<Rightarrow> feeds \<Rightarrow> string \<Rightarrow> int" where
  "srcupstream_fetched_at kind fd package = (case kind of None \<Rightarrow> 0 | Some k \<Rightarrow> su_fetched_at k fd package)"

definition srcupstream_problem :: "srcupstream_kind option \<Rightarrow> feeds \<Rightarrow> string \<Rightarrow> nat \<Rightarrow> string" where
  "srcupstream_problem kind fd package out_size =
     (case kind of None \<Rightarrow> [] | Some k \<Rightarrow> (case su_problem k of None \<Rightarrow> [] | Some p \<Rightarrow> p fd package out_size))"

text \<open>A URL template with its placeholders replaced; \<open>None\<close> when the text does not fit.\<close>

function expand_from :: "string \<Rightarrow> string \<Rightarrow> nat \<Rightarrow> string \<Rightarrow> string option" where
  "expand_from tmpl version out_size out =
     (if tmpl = [] then Some out
      else let (piece, rest) =
             (if begins ''{version}'' tmpl then (version, drop 9 tmpl)
              else if begins ''{major}'' tmpl then (takeWhile (\<lambda>c. c \<noteq> CHR ''.'') version, drop 7 tmpl)
              else ([hd tmpl], tl tmpl))
           in if out_size \<le> length out + length piece then None else expand_from rest version out_size (out @ piece))"
  by pat_completeness auto
termination
  by (relation "measure (\<lambda>(t, _). length t)") (auto split: if_splits)

declare expand_from.simps [simp del]

definition srcupstream_expand :: "string option \<Rightarrow> string option \<Rightarrow> nat \<Rightarrow> string option" where
  "srcupstream_expand tmpl version out_size =
     (case (tmpl, version) of
        (Some t, Some v) \<Rightarrow> if out_size = 0 then None else expand_from t v out_size []
      | _ \<Rightarrow> None)"

definition srcupstream_count :: nat where "srcupstream_count = length KINDS"

definition srcupstream_at :: "nat \<Rightarrow> srcupstream_kind option" where
  "srcupstream_at i = (if srcupstream_count \<le> i then None else Some (KINDS ! i))"

definition srcupstream_find :: "string option \<Rightarrow> srcupstream_kind option" where
  "srcupstream_find name =
     (case name of None \<Rightarrow> None | Some nm \<Rightarrow> if nm = [] then None else find (\<lambda>k. su_name k = nm) KINDS)"

text \<open>Names joined by a comma and a space until the buffer is full; the name that does not fit stays cut off.\<close>

fun join_from :: "string list \<Rightarrow> nat \<Rightarrow> string \<Rightarrow> string" where
  "join_from [] room out = out"
| "join_from (c # cs) room out =
     (let t = (if out \<noteq> [] then '', '' else []) @ c in
      if room - length out \<le> length t then out @ snprintf_s (room - length out) t else join_from cs room (out @ t))"

definition join_channels :: "srcupstream_kind \<Rightarrow> nat \<Rightarrow> string" where
  "join_channels kind room = (case su_channels kind of None \<Rightarrow> [] | Some cs \<Rightarrow> join_from cs room [])"

text \<open>The check of a channel, with the text it leaves in \<open>err\<close>.\<close>

definition quoted :: "string \<Rightarrow> string" where "quoted s = [CHR 0x22] @ s @ [CHR 0x22]"

definition srcupstream_check_channel :: "srcupstream_kind option \<Rightarrow> string option \<Rightarrow> nat \<Rightarrow> srcupstream_error \<times> string" where
  "srcupstream_check_channel kind channel err_size =
     (case kind of
        None \<Rightarrow> (SRCUPSTREAM_ERR_NO_SUCH_KIND, snprintf_s err_size ''no upstream kind given'')
      | Some k \<Rightarrow>
          let c = (case channel of None \<Rightarrow> [] | Some c \<Rightarrow> c) in
          (case su_channels k of
             None \<Rightarrow>
               if c = [] then (SRCUPSTREAM_OK, [])
               else (SRCUPSTREAM_ERR_NO_CHANNELS, snprintf_s err_size
                 (''upstream '' @ quoted (su_name k) @ '' publishes a single release sequence, so there is no channel to choose; got '' @ quoted c))
           | Some channels \<Rightarrow>
               if c = [] then (SRCUPSTREAM_ERR_CHANNEL_REQUIRED, snprintf_s err_size
                 (''upstream '' @ quoted (su_name k) @ '' publishes channels ('' @ join_channels k 256 @ ''); choose one''))
               else if c \<in> set channels then (SRCUPSTREAM_OK, [])
               else (SRCUPSTREAM_ERR_BAD_CHANNEL, snprintf_s err_size
                 (''upstream '' @ quoted (su_name k) @ '' does not publish a '' @ quoted c @ '' channel; it has '' @ join_channels k 256))))"

definition srcupstream_check :: "string option \<Rightarrow> string option \<Rightarrow> nat \<Rightarrow> srcupstream_error \<times> string" where
  "srcupstream_check kind_name channel err_size =
     (case srcupstream_find kind_name of
        None \<Rightarrow> (SRCUPSTREAM_ERR_NO_SUCH_KIND, snprintf_s err_size
          (''no upstream kind '' @ quoted (case kind_name of None \<Rightarrow> [] | Some s \<Rightarrow> s) @ ''; known kinds: '' @ join_from (map su_name KINDS) 256 []))
      | Some k \<Rightarrow> srcupstream_check_channel (Some k) channel err_size)"

section \<open>Tags and templates\<close>

lemma begins_iff: "begins p s \<longleftrightarrow> (\<exists>r. s = p @ r)"
  by (auto simp: begins_def intro: append_take_drop_id [symmetric]) (metis append_take_drop_id)

lemma not_begins_brace: "c \<noteq> CHR ''{'' \<Longrightarrow> \<not> begins (CHR ''{'' # p) (c # s)"
  by (simp add: begins_def)

lemma expand_plain:
  "CHR ''{'' \<notin> set t \<Longrightarrow> length out + length t < n \<Longrightarrow> expand_from (t @ rest) v n out = expand_from rest v n (out @ t)"
proof (induction t arbitrary: out)
  case (Cons c t)
  then show ?case
    using not_begins_brace [of c] by (subst expand_from.simps) auto
qed simp

lemma expand_version:
  "length out + length v < n \<Longrightarrow> expand_from (''{version}'' @ rest) v n out = expand_from rest v n (out @ v)"
  by (subst expand_from.simps) (simp add: begins_def)

lemma expand_end: "expand_from [] v n out = Some out"
  by (simp add: expand_from.simps)

text \<open>An address whose only brace opens its version slot, expanded.\<close>

lemma expand_single_slot:
  assumes "CHR ''{'' \<notin> set pre" "CHR ''{'' \<notin> set suf" "length (pre @ v @ suf) < n"
  shows "srcupstream_expand (Some (pre @ ''{version}'' @ suf)) (Some v) n = Some (pre @ v @ suf)"
proof -
  have "expand_from (pre @ ''{version}'' @ suf) v n [] = Some (pre @ v @ suf)"
    using assms(3) expand_plain [OF assms(1), of "[]" n "''{version}'' @ suf" v] expand_version [of pre v n suf]
      expand_plain [OF assms(2), of "pre @ v" n "[]" v] by (simp add: expand_end)
  then show ?thesis using assms(3) by (auto simp: srcupstream_expand_def)
qed

lemma strstr_iff:
  assumes "p \<noteq> []"
  shows "strstr s p = Some r \<longleftrightarrow> (\<exists>pre. s = pre @ r \<and> begins p r \<and> (\<forall>k < length pre. \<not> begins p (drop k s)))"
proof (induction s)
  case Nil
  then show ?case using assms by (auto simp: begins_def)
next
  case (Cons c s)
  show ?case
  proof (cases "begins p (c # s)")
    case True
    have "pre = []" if "\<forall>k < length pre. \<not> begins p (drop k (c # s))" for pre :: string
      using that True by (cases pre) auto
    with True show ?thesis by auto
  next
    case False
    have "(\<exists>pre. c # s = pre @ r \<and> begins p r \<and> (\<forall>k < length pre. \<not> begins p (drop k (c # s)))) \<longleftrightarrow>
        (\<exists>pre. s = pre @ r \<and> begins p r \<and> (\<forall>k < length pre. \<not> begins p (drop k s)))" (is "?L \<longleftrightarrow> ?R")
    proof
      assume ?L
      then obtain pre where pre: "c # s = pre @ r" "begins p r" "\<forall>k < length pre. \<not> begins p (drop k (c # s))" by blast
      then obtain pre' where "pre = c # pre'" using False by (cases pre) auto
      with pre show ?R by (intro exI [of _ pre']) auto
    next
      assume ?R
      then obtain pre where pre: "s = pre @ r" "begins p r" "\<forall>k < length pre. \<not> begins p (drop k s)" by blast
      then show ?L using False by (intro exI [of _ "c # pre"]) (auto simp: less_Suc_eq_0_disj)
    qed
    then show ?thesis using False Cons.IH by simp
  qed
qed

text \<open>
  What it is for a tag to name a version under a template: the tag is the template with the version in
  the place of its first \<open>{version}\<close>, and the version is a short, non-empty text without the characters
  that a file name or an address could trip over.
\<close>

definition names_version :: "string \<Rightarrow> nat \<Rightarrow> string \<Rightarrow> string \<Rightarrow> bool" where
  "names_version tmpl m v tag =
     (\<exists>pre suf. tmpl = pre @ ''{version}'' @ suf \<and> (\<forall>k < length pre. \<not> begins ''{version}'' (drop k tmpl)) \<and>
        tag = pre @ v @ suf \<and> v \<noteq> [] \<and> length v < m \<and>
        \<not> list_ex (\<lambda>c. c \<in> set [CHR ''/'', CHR '' '', CHR 0x09, CHR 0x22, CHR ''{'', CHR ''}'']) v)"

lemma version_of_tag_iff: "srcgitea_version_of_tag (Some tag) (Some tmpl) m = Some v \<longleftrightarrow> names_version tmpl m v tag"
    (is "?L \<longleftrightarrow> ?R")
proof
  assume L: ?L
  then obtain slot where slot: "strstr tmpl ''{version}'' = Some slot"
    by (auto simp: srcgitea_version_of_tag_def split: if_splits option.splits)
  then obtain pre suf where t: "tmpl = pre @ ''{version}'' @ suf" "slot = ''{version}'' @ suf"
    "\<forall>k < length pre. \<not> begins ''{version}'' (drop k tmpl)"
    by (auto simp: strstr_iff begins_iff)
  let ?v = "take (length tag - length pre - length suf) (drop (length pre) tag)"
  have s: "length pre + length suf < length tag" "take (length pre) tag = pre" "drop (length tag - length suf) tag = suf" "v = ?v"
    "length v < m" "\<not> list_ex (\<lambda>c. c \<in> set [CHR ''/'', CHR '' '', CHR 0x09, CHR 0x22, CHR ''{'', CHR ''}'']) v"
    using L slot t(1,2) by (auto simp: srcgitea_version_of_tag_def Let_def split: if_splits)
  have "tag = pre @ drop (length pre) tag" using s(2) by (metis append_take_drop_id)
  moreover have "drop (length pre) tag = ?v @ suf"
    using s(1,3) append_take_drop_id [of "length tag - length pre - length suf" "drop (length pre) tag"] by simp
  ultimately show ?R unfolding names_version_def using s t by (intro exI [of _ pre] exI [of _ suf]) auto
next
  assume ?R
  then obtain pre suf where t: "tmpl = pre @ ''{version}'' @ suf" "\<forall>k < length pre. \<not> begins ''{version}'' (drop k tmpl)"
    and v: "tag = pre @ v @ suf" "v \<noteq> []" "length v < m"
      "\<not> list_ex (\<lambda>c. c \<in> set [CHR ''/'', CHR '' '', CHR 0x09, CHR 0x22, CHR ''{'', CHR ''}'']) v"
    unfolding names_version_def by blast
  have "strstr tmpl ''{version}'' = Some (''{version}'' @ suf)"
    using t strstr_iff [of "''{version}''" tmpl "''{version}'' @ suf"] begins_iff by blast
  then show ?L using t(1) v by (simp add: srcgitea_version_of_tag_def)
qed

lemma load_slots_take:
  "length acc \<le> n \<Longrightarrow> load_slots n f vs acc = take n (acc @ List.map_filter f vs)"
proof (induction vs arbitrary: acc)
  case (Cons v vs)
  then show ?case by (auto simp: map_filter_simps take_Cons' split: option.split)
qed (simp add: map_filter_simps)

text \<open>
  C25. What discovery reads off a repository (\<open>srcgitea_versions_from_listing\<close>): the versions that the
  names in the listing stand for, in the order of the listing and cut at the caller's bound, where a
  name stands for a version exactly when it is the template with that version, 1 to 63 characters and
  none of them a slash, a blank, a quote or a brace, in the place of the template's first \<open>{version}\<close>.
  Later braces of the template are ordinary characters of the tag.
\<close>

theorem discovered_versions:
  assumes "json_parse listing = Some (JArray items)"
  shows "srcgitea_versions_from_listing listing tmpl n = Some (take n (List.map_filter (listing_version tmpl) items)) \<and>
    (listing_version tmpl item = Some v \<longleftrightarrow>
      (\<exists>tag. json_as_string (json_object_get (Some item) ''name'') = Some tag \<and> names_version tmpl SRCUPSTREAM_VERSION_MAX v tag))"
proof
  show "srcgitea_versions_from_listing listing tmpl n = Some (take n (List.map_filter (listing_version tmpl) items))"
    using assms by (simp add: srcgitea_versions_from_listing_def load_slots_take)
  show "listing_version tmpl item = Some v \<longleftrightarrow>
      (\<exists>tag. json_as_string (json_object_get (Some item) ''name'') = Some tag \<and> names_version tmpl SRCUPSTREAM_VERSION_MAX v tag)"
    by (cases "json_as_string (json_object_get (Some item) ''name'')")
      (simp_all add: listing_version_def version_of_tag_iff srcgitea_version_of_tag_def [of None])
qed

text \<open>A listing with a release, a tag that is no release, and one whose version would hold a slash.\<close>

definition tag_listing :: json where
  "tag_listing = JArray [JObject [(''name'', JString ''rel-2.1'')], JObject [(''name'', JString ''nightly'')],
     JObject [(''name'', JString ''rel-a/b'')], JObject [(''name'', JString ''rel-2.0'')]]"

lemma names_version_fixed:
  assumes "CHR ''{'' \<notin> set pre"
  shows "names_version (pre @ ''{version}'') m v tag \<longleftrightarrow> tag = pre @ v \<and> v \<noteq> [] \<and> length v < m \<and>
    \<not> list_ex (\<lambda>c. c \<in> set [CHR ''/'', CHR '' '', CHR 0x09, CHR 0x22, CHR ''{'', CHR ''}'']) v"
proof -
  have "strstr (pre @ ''{version}'') ''{version}'' = Some ''{version}''"
    using assms by (induction pre) (auto simp: begins_def)
  then show ?thesis unfolding version_of_tag_iff [symmetric] srcgitea_version_of_tag_def Let_def
    by (auto simp: take_Cons' not_le) (metis append_take_drop_id)+
qed

theorem discovered_versions_witness:
  "srcgitea_versions_from_listing (render tag_listing) ''rel-{version}'' 32 = Some [''2.1'', ''2.0'']"
proof -
  have "json_parse (render tag_listing) = Some tag_listing"
    using json_parse_render [of tag_listing] by (simp add: tag_listing_def NUL_def)
  note D = discovered_versions [OF this [unfolded tag_listing_def], of "''rel-{version}''"]
  have n: "names_version ''rel-{version}'' m v tag \<longleftrightarrow> tag = ''rel-'' @ v \<and> v \<noteq> [] \<and> length v < m \<and>
      \<not> list_ex (\<lambda>c. c \<in> set [CHR ''/'', CHR '' '', CHR 0x09, CHR 0x22, CHR ''{'', CHR ''}'']) v" for m v tag
    using names_version_fixed [of "''rel-''" m v tag] by simp
  have lv: "listing_version ''rel-{version}'' (JObject [(''name'', JString ''rel-2.1'')]) = Some ''2.1''"
    "listing_version ''rel-{version}'' (JObject [(''name'', JString ''rel-2.0'')]) = Some ''2.0''"
    using D [THEN conjunct2] by (simp_all add: n json_object_get_def json_as_string_def SRCUPSTREAM_VERSION_MAX_def)
  have "listing_version ''rel-{version}'' (JObject [(''name'', JString ''nightly'')]) \<noteq> Some v"
    "listing_version ''rel-{version}'' (JObject [(''name'', JString ''rel-a/b'')]) \<noteq> Some v" for v
    using D [THEN conjunct2] by (auto simp: n json_object_get_def json_as_string_def)
  then have "listing_version ''rel-{version}'' (JObject [(''name'', JString ''nightly'')]) = None"
    "listing_version ''rel-{version}'' (JObject [(''name'', JString ''rel-a/b'')]) = None"
    by (meson not_Some_eq)+
  with lv show ?thesis unfolding tag_listing_def D [of 32, THEN conjunct1] by (simp add: map_filter_simps)
qed

section \<open>The cache of a package's tags\<close>

type_synonym gitea_cache = "int \<times> string list \<times> (string \<times> int) option"

definition version_ok :: "string \<Rightarrow> bool" where
  "version_ok v = (v \<noteq> [] \<and> is_c_str v \<and> length v < SRCUPSTREAM_VERSION_MAX)"

definition cache_ok :: "gitea_cache \<Rightarrow> bool" where
  "cache_ok = (\<lambda>(fetched, versions, problem). \<bar>fetched\<bar> < 2 ^ 53 \<and> list_all version_ok versions \<and>
     length versions \<le> SRCUPSTREAM_MAX_CANDIDATES \<and> (\<forall>why now. problem = Some (why, now) \<longrightarrow> is_c_str why \<and> \<bar>now\<bar> < 2 ^ 53))"

definition cache_tree :: "gitea_cache \<Rightarrow> json" where
  "cache_tree = (\<lambda>(fetched, versions, problem). JObject
     ([(''fetched_at'', JNumber (ll2d fetched)), (''versions'', JArray (map JString versions))] @
      (case problem of None \<Rightarrow> [] | Some (why, now) \<Rightarrow> [(''error'', JString why), (''error_at'', JNumber (ll2d now))])))"

definition cache_text :: "gitea_cache \<Rightarrow> string" where
  "cache_text c = render (cache_tree c)"

text \<open>What the three readers get out of a document: the time, the versions and the error.\<close>

definition cache_decode :: "string \<Rightarrow> (int \<times> string list \<times> string option) option" where
  "cache_decode d = (case json_parse d of
     Some (JObject ms) \<Rightarrow> Some (d2ll (json_as_number (json_object_get (Some (JObject ms)) ''fetched_at'')),
       (case json_object_get (Some (JObject ms)) ''versions'' of Some (JArray vs) \<Rightarrow> load_slots SRCUPSTREAM_MAX_CANDIDATES cached_version vs [] | _ \<Rightarrow> []),
       json_as_string (json_object_get (Some (JObject ms)) ''error''))
   | _ \<Rightarrow> None)"

lemma cached_versions_map:
  "list_all version_ok vs \<Longrightarrow> length vs \<le> n \<Longrightarrow> load_slots n cached_version (map JString vs) [] = vs"
  using load_slots_map [of vs cached_version JString "[]" n]
  by (simp add: cached_version_def version_ok_def json_as_string_def list_all_iff)

lemma cache_tree_exact: "cache_ok c \<Longrightarrow> exact_json (cache_tree c)"
  by (auto simp: cache_ok_def cache_tree_def exact_items_map version_ok_def list_all_iff NUL_def split: option.split)

lemma cache_decode_text:
  "cache_ok (fetched, versions, problem) \<Longrightarrow>
     cache_decode (cache_text (fetched, versions, problem)) = Some (fetched, versions, map_option fst problem)"
  using json_parse_render [OF cache_tree_exact, of "(fetched, versions, problem)"]
  by (auto simp: cache_decode_def cache_text_def cache_tree_def json_object_get_def json_as_number_def json_as_string_def
      cached_versions_map d2ll_ll2d cache_ok_def split: option.split)

lemma gitea_document_text:
  assumes "cache_ok (fetched, versions, problem)"
  shows "\<exists>w. gitea_document fetched versions problem = Some w \<and> jw_buf w = cache_text (fetched, versions, problem)"
proof -
  have strs: "jw_each jw_str w versions = jw_items w (map JString versions)" for w by (rule jw_each_items) simp
  have "gitea_document fetched versions problem = jw_value (jw_init blank_writer) (cache_tree (fetched, versions, problem))"
    using assms unfolding gitea_document_def strs
    by (cases problem) (auto simp: cache_tree_def cache_ok_def jw_int_value bind_assoc simp del: jw_value.simps(3))
  moreover have "nesting (cache_tree (fetched, versions, problem)) \<le> JW_MAX_DEPTH"
    by (auto simp: cache_tree_def nesting_items_le nesting_members_le JW_MAX_DEPTH_def split: option.split)
  ultimately show ?thesis using jw_value_blank [of "cache_tree (fetched, versions, problem)"] by (simp add: cache_text_def)
qed

lemma readers_decode:
  assumes "cache_path dir package PATH_MAX = Some path" "fs path = Some d" "cache_decode d = Some (fetched, versions, problem)"
  shows "srcgitea_candidates healthy_read dir package SRCUPSTREAM_MAX_CANDIDATES fs = versions"
    "srcgitea_fetched_at healthy_read dir package fs = fetched"
    "srcgitea_error healthy_read dir package n fs = (case problem of None \<Rightarrow> [] | Some e \<Rightarrow> snprintf_s n e)"
  using assms by (auto simp: srcgitea_candidates_def srcgitea_fetched_at_def srcgitea_error_def srcgitea_load_def cache_decode_def
      split: option.splits json.splits)

lemma version_of_tag_ok:
  assumes "is_c_str tag" "srcgitea_version_of_tag (Some tag) (Some tmpl) SRCUPSTREAM_VERSION_MAX = Some v"
  shows "version_ok v"
  using assms
  by (auto simp: srcgitea_version_of_tag_def version_ok_def Let_def is_c_str_def list_all_iff min_less_iff_disj split: option.splits if_splits
      dest!: in_set_takeD in_set_dropD)

lemma typed_name: "typed_json v \<Longrightarrow> json_as_string (json_object_get (Some v) k) = Some s \<Longrightarrow> is_c_str s"
  by (cases v) (auto simp: json_object_get_def json_as_string_def dest!: map_of_SomeD split: option.splits json.splits)

lemma listing_version_ok: "typed_json v \<Longrightarrow> listing_version tmpl v = Some t \<Longrightarrow> version_ok t"
  using typed_name [of v "''name''"] version_of_tag_ok
  by (cases "json_as_string (json_object_get (Some v) ''name'')") (auto simp: listing_version_def srcgitea_version_of_tag_def [of None])

lemma listing_ok:
  assumes "srcgitea_versions_from_listing listing tmpl SRCUPSTREAM_MAX_CANDIDATES = Some versions"
  shows "list_all version_ok versions" "length versions \<le> SRCUPSTREAM_MAX_CANDIDATES"
proof -
  obtain vs where vs: "json_parse listing = Some (JArray vs)" "versions = load_slots SRCUPSTREAM_MAX_CANDIDATES (listing_version tmpl) vs []"
    using assms by (auto simp: srcgitea_versions_from_listing_def split: option.splits json.splits)
  obtain r where "parse_value listing = Some (JArray vs, r)"
    using vs(1) by (auto simp: json_parse_def split: option.splits prod.splits if_splits)
  then have ty: "typed_json (JArray vs)" by (rule parse_typed(1))
  show "list_all version_ok versions"
    unfolding vs(2) by (rule load_slots_all) (use ty in \<open>auto intro: listing_version_ok\<close>)
  show "length versions \<le> SRCUPSTREAM_MAX_CANDIDATES" unfolding vs(2) by (rule length_load_slots) simp
qed

text \<open>
  C24. After a refresh that was stored, a reader gets exactly the versions of the listing and the time
  of the refresh; and a later refresh that failed, once noted, changes neither, it only adds the reason.
\<close>

theorem failed_refresh_keeps_releases:
  assumes st: "srcgitea_store_listing env dir package listing tmpl now fs = Some (f # v, 0)" "\<bar>now\<bar> < 2 ^ 53"
    and er: "srcgitea_store_error healthy_read env' dir package (Some why) later f = Some (f' # v', 0)" "is_c_str why" "\<bar>later\<bar> < 2 ^ 53"
  shows "\<exists>versions. srcgitea_versions_from_listing listing tmpl SRCUPSTREAM_MAX_CANDIDATES = Some versions \<and>
    (\<forall>g \<in> {f, f'}. srcgitea_candidates healthy_read dir package SRCUPSTREAM_MAX_CANDIDATES g = versions \<and>
       srcgitea_fetched_at healthy_read dir package g = now) \<and>
    srcgitea_error healthy_read dir package n f = [] \<and> srcgitea_error healthy_read dir package n f' = snprintf_s n why"
proof -
  obtain path where path: "cache_path dir package PATH_MAX = Some path"
    using st(1) by (auto simp: srcgitea_store_listing_def split: option.splits)
  obtain versions where vs: "srcgitea_versions_from_listing listing tmpl SRCUPSTREAM_MAX_CANDIDATES = Some versions"
    using st(1) path by (auto simp: srcgitea_store_listing_def split: option.splits)
  have ok: "cache_ok (now, versions, None)" "cache_ok (now, versions, Some (why, later))"
    using listing_ok [OF vs] st(2) er(2,3) by (auto simp: cache_ok_def)
  have "persist_atomic_write env path (cache_text (now, versions, None)) fs = (f # v, 0)"
    using st(1) path vs gitea_document_text [OF ok(1)] by (auto simp: srcgitea_store_listing_def)
  then have "f path = Some (cache_text (now, versions, None))" by (rule pw.after_ok)
  note R = readers_decode [where fs = f, OF path this cache_decode_text [OF ok(1)]]
  have "persist_atomic_write env' path (cache_text (now, versions, Some (why, later))) f = (f' # v', 0)"
    using er(1) path R(1,2) gitea_document_text [OF ok(2)] by (auto simp: srcgitea_store_error_def)
  then have "f' path = Some (cache_text (now, versions, Some (why, later)))" by (rule pw.after_ok)
  note R' = readers_decode [where fs = f', OF path this cache_decode_text [OF ok(2)]]
  show ?thesis using vs R R' by auto
qed

definition sample_listing :: string where
  "sample_listing = ''[{\"name\":\"v1\"}]''"

theorem failed_refresh_keeps_releases_witness:
  "\<exists>f f' versions. srcgitea_versions_from_listing sample_listing ''v{version}'' SRCUPSTREAM_MAX_CANDIDATES = Some versions \<and>
     srcgitea_candidates healthy_read ''/g'' ''ed'' SRCUPSTREAM_MAX_CANDIDATES f' = versions \<and>
     srcgitea_fetched_at healthy_read ''/g'' ''ed'' f' = 7 \<and> srcgitea_error healthy_read ''/g'' ''ed'' 64 f' = ''down'' \<and>
     srcgitea_error healthy_read ''/g'' ''ed'' 64 f = []"
proof -
  have path: "cache_path ''/g'' ''ed'' PATH_MAX = Some ''/g/ed.json''" by (simp add: cache_path_def package_char_def PATH_MAX_def)
  have tag: "srcgitea_version_of_tag (Some ''v1'') (Some ''v{version}'') SRCUPSTREAM_VERSION_MAX = Some ''1''"
    using names_version_fixed [of "''v''" SRCUPSTREAM_VERSION_MAX "''1''" "''v1''"] by (simp add: version_of_tag_iff SRCUPSTREAM_VERSION_MAX_def)
  have "sample_listing = render (JArray [JObject [(''name'', JString ''v1'')]])" by code_simp
  then have "json_parse sample_listing = Some (JArray [JObject [(''name'', JString ''v1'')]])"
    using json_parse_render [of "JArray [JObject [(''name'', JString ''v1'')]]"] by (simp add: NUL_def)
  then have vs: "srcgitea_versions_from_listing sample_listing ''v{version}'' SRCUPSTREAM_MAX_CANDIDATES = Some [''1'']"
    by (simp add: srcgitea_versions_from_listing_def json_object_get_def json_as_string_def listing_version_def tag SRCUPSTREAM_MAX_CANDIDATES_def)
  have ok: "cache_ok (7, [''1''], p)" if "p = None \<or> p = Some (''down'', 9)" for p
    using that by (auto simp: cache_ok_def version_ok_def NUL_def SRCUPSTREAM_VERSION_MAX_def SRCUPSTREAM_MAX_CANDIDATES_def)
  obtain w where w: "gitea_document 7 [''1''] None = Some w" "jw_buf w = cache_text (7, [''1''], None)"
    using gitea_document_text [OF ok] by blast
  obtain f v where f: "persist_atomic_write (healthy_write (jw_buf w)) ''/g/ed.json'' (jw_buf w) Map.empty = (f # v, 0)"
    using healthy_write_succeeds [of "''/g/ed.json''" "jw_buf w" Map.empty] by (auto simp: PATH_MAX_def)
  have st: "srcgitea_store_listing (healthy_write (jw_buf w)) ''/g'' ''ed'' sample_listing ''v{version}'' 7 Map.empty = Some (f # v, 0)"
    using path vs w f by (simp add: srcgitea_store_listing_def)
  have "f ''/g/ed.json'' = Some (cache_text (7, [''1''], None))" using pw.after_ok [OF f] w by simp
  note R = readers_decode [where fs = f, OF path this cache_decode_text [OF ok]]
  obtain u where u: "gitea_document 7 [''1''] (Some (''down'', 9)) = Some u"
    using gitea_document_text [OF ok] by blast
  obtain f' v' where f': "persist_atomic_write (healthy_write (jw_buf u)) ''/g/ed.json'' (jw_buf u) f = (f' # v', 0)"
    using healthy_write_succeeds [of "''/g/ed.json''" "jw_buf u" f] by (auto simp: PATH_MAX_def)
  have er: "srcgitea_store_error healthy_read (healthy_write (jw_buf u)) ''/g'' ''ed'' (Some ''down'') 9 f = Some (f' # v', 0)"
    using path u f' R(1,2) by (simp add: srcgitea_store_error_def)
  from failed_refresh_keeps_releases [OF st _ er, of 64] show ?thesis by (auto simp: NUL_def)
qed

section \<open>The kernel line\<close>

text \<open>
  On the longterm channel a host is offered the release of the line it runs as long as
  kernel.org lists that line as longterm, and the answer says whether it does; only a line that is no longer
  listed moves to the newest longterm line.
\<close>

theorem longterm_stays_on_its_line:
  assumes "list_all (\<lambda>r. length (rl_series r) < KERNEL_SERIES_MAX \<and> length (rl_version r) < KERNEL_VERSION_MAX) (kp_releases kp)"
    "series \<noteq> []"
  shows "let out = kernelpolicy_resolve kp KERNEL_CHANNEL_LONGTERM (Some series);
             listed = {r \<in> set (kp_releases kp). rl_moniker r = ''longterm'' \<and> rl_series r = series} in
    (kr_series_maintained out \<longleftrightarrow> listed \<noteq> {}) \<and>
    (listed \<noteq> {} \<longrightarrow> kr_series out = series \<and> kr_version out \<in> rl_version ` listed) \<and>
    (listed = {} \<longrightarrow> kr_version out = kr_newest_longterm out)"
proof -
  have fits: "snprintf_s KERNEL_SERIES_MAX (rl_series r) = rl_series r \<and> snprintf_s KERNEL_VERSION_MAX (rl_version r) = rl_version r"
    if "r \<in> set (kp_releases kp)" for r
    using assms(1) that by (simp add: list_all_iff)
  let ?P = "\<lambda>r. rl_moniker r = ''longterm'' \<and> rl_series r = series"
  show ?thesis
  proof (cases "find ?P (kp_releases kp)")
    case None
    then have none: "{r \<in> set (kp_releases kp). ?P r} = {}" by (auto simp: find_None_iff)
    then show ?thesis using None assms(2)
      by (simp add: kernelpolicy_resolve_def find_longterm_series_def fill_from_def no_resolution_def Let_def split: option.split)
  next
    case (Some r)
    then have r: "r \<in> set (kp_releases kp)" "?P r" by (auto simp: find_Some_iff)
    then have ne: "kp_releases kp \<noteq> []" by auto
    have out: "kernelpolicy_resolve kp KERNEL_CHANNEL_LONGTERM (Some series) =
        fill_from (kernelpolicy_resolve kp KERNEL_CHANNEL_LONGTERM (Some series)) r"
      "kr_series_maintained (kernelpolicy_resolve kp KERNEL_CHANNEL_LONGTERM (Some series))"
      using Some ne assms(2) by (auto simp: kernelpolicy_resolve_def find_longterm_series_def fill_from_def Let_def split: option.split)
    then have "kr_series (kernelpolicy_resolve kp KERNEL_CHANNEL_LONGTERM (Some series)) = series"
      "kr_version (kernelpolicy_resolve kp KERNEL_CHANNEL_LONGTERM (Some series)) = rl_version r"
      using fits [OF r(1)] r(2) by (metis (no_types, lifting) fill_from_def kernel_resolution.select_convs kernel_resolution.surjective kernel_resolution.update_convs)+
    then show ?thesis using r out(2) by (auto simp: Let_def)
  qed
qed

lemma ingest_entry_fits:
  "ingest_entry e = Some r \<Longrightarrow> length (rl_series r) < KERNEL_SERIES_MAX \<and> length (rl_version r) < KERNEL_VERSION_MAX \<and>
     rl_moniker r \<in> set KORG_CHANNELS"
  by (auto simp: ingest_entry_def length_snprintf_s KERNEL_SERIES_MAX_def KERNEL_VERSION_MAX_def KORG_CHANNELS_def
      split: json.splits option.splits if_splits)

text \<open>An ingest replaces the whole list or leaves the cache alone; what it stores names known channels and fits.\<close>

theorem kernel_ingest_sound:
  assumes "kernelpolicy_ingest_releases env kp path now fs = (kp', rc)"
  shows "if rc = 0
    then kp_fetched_at kp' = now \<and> kp_releases kp' \<noteq> [] \<and> length (kp_releases kp') \<le> KERNEL_MAX_RELEASES \<and>
      list_all (\<lambda>r. length (rl_series r) < KERNEL_SERIES_MAX \<and> length (rl_version r) < KERNEL_VERSION_MAX \<and>
        rl_moniker r \<in> set KORG_CHANNELS) (kp_releases kp')
    else kp' = kp"
  using assms load_slots_all [of _ "[]", OF _ ingest_entry_fits] length_load_slots [of "[]" KERNEL_MAX_RELEASES]
  by (auto simp: kernelpolicy_ingest_releases_def Let_def split: read_result.splits option.splits json.splits if_splits)

end
