(* ===== verification/Src_Policy.thy ===== *)
theory Src_Policy
  imports Src_Feed
begin

text \<open>
  The source policies of \<open>daemon/src/srcpolicy.c\<close>: a default channel and depth, and per package
  its own channel and depth, a hold, or both.  The table keeps its 256 slots; every operation that
  changes it ends with a save of the whole document.
\<close>

definition SRCPOLICY_MAX :: nat where "SRCPOLICY_MAX = 256"
definition SRCPOLICY_DEFAULT_DEPTH :: string where "SRCPOLICY_DEFAULT_DEPTH = ''n''"
definition SRCPOLICY_CHANNEL_MAX :: nat where "SRCPOLICY_CHANNEL_MAX = 32"
definition SRCPOLICY_DEPTH_MAX :: nat where "SRCPOLICY_DEPTH_MAX = 16"
definition PKG_NAME_MAX :: nat where "PKG_NAME_MAX = 64"

record srcpolicy_entry =
  se_name :: string
  se_channel :: string
  se_depth :: string
  se_has_policy :: bool
  se_pinned :: bool
  se_in_use :: bool

record srcpolicy =
  pol_channel :: string
  pol_depth :: string
  pol_explicit :: bool
  pol_pinned :: bool

record srcpolicy_state =
  sp_entries :: "srcpolicy_entry list"
  sp_default_channel :: string
  sp_default_depth :: string
  sp_path :: string

definition no_entry :: srcpolicy_entry where
  "no_entry = \<lparr>se_name = [], se_channel = [], se_depth = [], se_has_policy = False, se_pinned = False, se_in_use = False\<rparr>"

definition policy_find :: "srcpolicy_entry list \<Rightarrow> string option \<Rightarrow> nat option" where
  "policy_find es name = (case name of None \<Rightarrow> None | Some nm \<Rightarrow> find_index (\<lambda>e. se_in_use e \<and> se_name e = nm) es)"

section \<open>The document\<close>

definition jw_text_or_null :: "json_writer \<Rightarrow> bool \<Rightarrow> string \<Rightarrow> json_writer option" where
  "jw_text_or_null w b s = (if b then jw_str w s else jw_null w)"

definition write_default :: "json_writer \<Rightarrow> string \<Rightarrow> string \<Rightarrow> json_writer option" where
  "write_default w channel depth =
     do { w \<leftarrow> jw_key w ''default'';
          w \<leftarrow> jw_obj_open w;
          w \<leftarrow> jw_key w ''channel'';
          w \<leftarrow> jw_text_or_null w (channel \<noteq> []) channel;
          w \<leftarrow> jw_key w ''depth'';
          w \<leftarrow> jw_str w depth;
          Some (jw_obj_close w) }"

definition write_policy_entry :: "json_writer \<Rightarrow> srcpolicy_entry \<Rightarrow> json_writer option" where
  "write_policy_entry w e =
     do { w \<leftarrow> jw_obj_open w;
          w \<leftarrow> jw_key w ''name'';
          w \<leftarrow> jw_str w (se_name e);
          w \<leftarrow> jw_key w ''channel'';
          w \<leftarrow> jw_text_or_null w (se_has_policy e \<and> se_channel e \<noteq> []) (se_channel e);
          w \<leftarrow> jw_key w ''depth'';
          w \<leftarrow> jw_text_or_null w (se_has_policy e) (se_depth e);
          w \<leftarrow> jw_key w ''pinned'';
          w \<leftarrow> jw_bool w (se_pinned e);
          Some (jw_obj_close w) }"

definition policy_document :: "srcpolicy_state \<Rightarrow> json_writer option" where
  "policy_document st =
     do { w \<leftarrow> jw_obj_open (jw_init blank_writer);
          w \<leftarrow> write_default w (sp_default_channel st) (sp_default_depth st);
          w \<leftarrow> jw_key w ''packages'';
          w \<leftarrow> jw_arr_open w;
          w \<leftarrow> jw_each write_policy_entry w (filter se_in_use (sp_entries st));
          w \<leftarrow> Some (jw_arr_close w);
          Some (jw_obj_close w) }"

definition srcpolicy_save_state :: "write_env \<Rightarrow> srcpolicy_state \<Rightarrow> fs \<Rightarrow> (fs list \<times> int) option" where
  "srcpolicy_save_state env st fs = do { w \<leftarrow> policy_document st; Some (persist_atomic_write env (sp_path st) (jw_buf w) fs) }"

definition srcpolicy_repoint :: "srcpolicy_state \<Rightarrow> string \<Rightarrow> srcpolicy_state" where
  "srcpolicy_repoint st path = st\<lparr>sp_path := snprintf_s 512 path\<rparr>"

section \<open>Loading\<close>

definition depth_valid :: "string \<Rightarrow> bool" where
  "depth_valid d = (case srcdepth_parse (Some d) of Inl _ \<Rightarrow> False | Inr _ \<Rightarrow> True)"

definition load_default :: "json option \<Rightarrow> srcpolicy_state \<Rightarrow> srcpolicy_state" where
  "load_default def st =
     (case def of
        None \<Rightarrow> st
      | Some d \<Rightarrow>
          let st = (case json_as_string (json_object_get (Some d) ''channel'') of
                      None \<Rightarrow> st | Some c \<Rightarrow> st\<lparr>sp_default_channel := snprintf_s SRCPOLICY_CHANNEL_MAX c\<rparr>)
          in case json_as_string (json_object_get (Some d) ''depth'') of
               None \<Rightarrow> st
             | Some t \<Rightarrow> if depth_valid t then st\<lparr>sp_default_depth := snprintf_s SRCPOLICY_DEPTH_MAX t\<rparr> else st)"

definition load_entry :: "json \<Rightarrow> srcpolicy_entry option" where
  "load_entry v =
     (let c = json_as_string (json_object_get (Some v) ''channel''); d = json_as_string (json_object_get (Some v) ''depth'');
          pinned = (json_object_get (Some v) ''pinned'' = Some (JBool True)) in
      case json_as_string (json_object_get (Some v) ''name'') of
        None \<Rightarrow> None
      | Some name \<Rightarrow>
          if name = [] then None
          else if d = None \<and> \<not> pinned then None
          else Some \<lparr>se_name = snprintf_s PKG_NAME_MAX name,
            se_channel = (case c of None \<Rightarrow> [] | Some c \<Rightarrow> snprintf_s SRCPOLICY_CHANNEL_MAX c),
            se_depth = snprintf_s SRCPOLICY_DEPTH_MAX (case d of None \<Rightarrow> SRCPOLICY_DEFAULT_DEPTH | Some d \<Rightarrow> if depth_valid d then d else SRCPOLICY_DEFAULT_DEPTH),
            se_has_policy = (d \<noteq> None), se_pinned = pinned, se_in_use = True\<rparr>)"

definition srcpolicy_init :: "read_env \<Rightarrow> string \<Rightarrow> fs \<Rightarrow> srcpolicy_state" where
  "srcpolicy_init env path fs =
     (let st = \<lparr>sp_entries = replicate SRCPOLICY_MAX no_entry, sp_default_channel = [],
                sp_default_depth = snprintf_s SRCPOLICY_DEPTH_MAX SRCPOLICY_DEFAULT_DEPTH, sp_path = snprintf_s 512 path\<rparr>
      in case persist_read_file env path fs of
           ReadData d \<Rightarrow>
             (case json_parse d of
                None \<Rightarrow> st
              | Some tree \<Rightarrow>
                  (load_default (json_object_get (Some tree) ''default'') st)
                    \<lparr>sp_entries := fill_slots SRCPOLICY_MAX no_entry
                       (load_slots SRCPOLICY_MAX load_entry (array_items (json_object_get (Some tree) ''packages'')) [])\<rparr>)
         | _ \<Rightarrow> st)"

section \<open>Reading and changing a policy\<close>

definition srcpolicy_default_get :: "srcpolicy_state \<Rightarrow> srcpolicy" where
  "srcpolicy_default_get st =
     \<lparr>pol_channel = snprintf_s SRCPOLICY_CHANNEL_MAX (sp_default_channel st),
      pol_depth = snprintf_s SRCPOLICY_DEPTH_MAX (sp_default_depth st), pol_explicit = False, pol_pinned = False\<rparr>"

text \<open>The answer of an operation: the state, the file systems it visited, 0 or -1, and the text in \<open>err\<close>.\<close>

type_synonym policy_result = "(srcpolicy_state \<times> fs list \<times> int \<times> string) option"

definition policy_saved :: "write_env \<Rightarrow> srcpolicy_state \<Rightarrow> fs \<Rightarrow> policy_result" where
  "policy_saved env st fs = map_option (\<lambda>(v, rc). (st, v, rc, [])) (srcpolicy_save_state env st fs)"

definition depth_refused :: "string \<Rightarrow> string" where
  "depth_refused d = ''depth '' @ quoted d @ '' is not n, n-<lines> or n-<lines>.<releases>''"

definition given_depth :: "string option \<Rightarrow> string" where
  "given_depth depth = (case depth of None \<Rightarrow> SRCPOLICY_DEFAULT_DEPTH | Some d \<Rightarrow> if d = [] then SRCPOLICY_DEFAULT_DEPTH else d)"

definition srcpolicy_default_set ::
  "write_env \<Rightarrow> srcpolicy_state \<Rightarrow> string option \<Rightarrow> string option \<Rightarrow> nat \<Rightarrow> fs \<Rightarrow> policy_result" where
  "srcpolicy_default_set env st channel depth err_size fs =
     (let c = snprintf_s SRCPOLICY_CHANNEL_MAX (case channel of None \<Rightarrow> [] | Some c \<Rightarrow> c);
          d = snprintf_s SRCPOLICY_DEPTH_MAX (given_depth depth) in
      if \<not> depth_valid d then Some (st, [fs], - 1, snprintf_s err_size (depth_refused d))
      else policy_saved env (st\<lparr>sp_default_channel := snprintf_s SRCPOLICY_CHANNEL_MAX c, sp_default_depth := snprintf_s SRCPOLICY_DEPTH_MAX d\<rparr>) fs)"

definition srcpolicy_get :: "srcpolicy_state \<Rightarrow> string option \<Rightarrow> srcpolicy" where
  "srcpolicy_get st name =
     (let out = srcpolicy_default_get st in
      case policy_find (sp_entries st) name of
        None \<Rightarrow> out
      | Some i \<Rightarrow>
          let e = sp_entries st ! i; out = out\<lparr>pol_pinned := se_pinned e\<rparr> in
          if \<not> se_has_policy e then out
          else out\<lparr>pol_channel := snprintf_s SRCPOLICY_CHANNEL_MAX (se_channel e),
                   pol_depth := snprintf_s SRCPOLICY_DEPTH_MAX (se_depth e), pol_explicit := True\<rparr>)"

text \<open>The entry for a name: the one it has, or a fresh one in the first free slot.\<close>

definition claim_slot :: "srcpolicy_entry list \<Rightarrow> string \<Rightarrow> (nat \<times> srcpolicy_entry) option" where
  "claim_slot es name =
     (case policy_find es (Some name) of
        Some i \<Rightarrow> Some (i, es ! i)
      | None \<Rightarrow> map_option (\<lambda>i. (i, no_entry\<lparr>se_name := snprintf_s PKG_NAME_MAX name, se_in_use := True\<rparr>))
          (find_index (\<lambda>e. \<not> se_in_use e) es))"

definition too_many :: string where
  "too_many = ''too many package source policies (max '' @ nat_dec SRCPOLICY_MAX @ '')''"

definition srcpolicy_set ::
  "write_env \<Rightarrow> srcpolicy_state \<Rightarrow> string option \<Rightarrow> string option \<Rightarrow> string option \<Rightarrow> string option \<Rightarrow> nat \<Rightarrow> fs \<Rightarrow> policy_result" where
  "srcpolicy_set env st name kind_name channel depth err_size fs =
     (let d = given_depth depth; c = (case channel of None \<Rightarrow> [] | Some c \<Rightarrow> c);
          refuse = (\<lambda>err. Some (st, [fs], - 1, err)) in
      case name of
        None \<Rightarrow> refuse (snprintf_s err_size ''package name is required'')
      | Some nm \<Rightarrow>
          if nm = [] then refuse (snprintf_s err_size ''package name is required'')
          else if \<not> depth_valid d then refuse (snprintf_s err_size (depth_refused d))
          else if kind_name \<noteq> None \<and> kind_name \<noteq> Some [] \<and> fst (srcupstream_check kind_name (Some c) err_size) \<noteq> SRCUPSTREAM_OK
          then refuse (snd (srcupstream_check kind_name (Some c) err_size))
          else if (kind_name = None \<or> kind_name = Some []) \<and> c \<noteq> []
          then refuse (snprintf_s err_size (''package '' @ quoted nm @
            '' declares no pkg_upstream, so it has no channels to choose from; it is pinned''))
          else case claim_slot (sp_entries st) nm of
              None \<Rightarrow> refuse (snprintf_s err_size too_many)
            | Some (i, e) \<Rightarrow>
                policy_saved env (st\<lparr>sp_entries := (sp_entries st)[i := e\<lparr>se_has_policy := True,
                  se_channel := snprintf_s SRCPOLICY_CHANNEL_MAX c, se_depth := snprintf_s SRCPOLICY_DEPTH_MAX d\<rparr>]\<rparr>) fs)"

definition srcpolicy_clear :: "write_env \<Rightarrow> srcpolicy_state \<Rightarrow> string option \<Rightarrow> fs \<Rightarrow> policy_result" where
  "srcpolicy_clear env st name fs =
     (case policy_find (sp_entries st) name of
        None \<Rightarrow> Some (st, [fs], 0, [])
      | Some i \<Rightarrow>
          let e = (sp_entries st ! i)\<lparr>se_has_policy := False, se_channel := [], se_depth := []\<rparr>
          in policy_saved env (st\<lparr>sp_entries := (sp_entries st)[i := if \<not> se_pinned e then no_entry else e]\<rparr>) fs)"

definition srcpolicy_set_pinned :: "write_env \<Rightarrow> srcpolicy_state \<Rightarrow> string option \<Rightarrow> bool \<Rightarrow> nat \<Rightarrow> fs \<Rightarrow> policy_result" where
  "srcpolicy_set_pinned env st name pinned err_size fs =
     (case name of
        None \<Rightarrow> Some (st, [fs], - 1, snprintf_s err_size ''package name is required'')
      | Some nm \<Rightarrow>
          if nm = [] then Some (st, [fs], - 1, snprintf_s err_size ''package name is required'')
          else if policy_find (sp_entries st) (Some nm) = None \<and> \<not> pinned then Some (st, [fs], 0, [])
          else case claim_slot (sp_entries st) nm of
              None \<Rightarrow> Some (st, [fs], - 1, snprintf_s err_size too_many)
            | Some (i, e) \<Rightarrow>
                let e = e\<lparr>se_pinned := pinned\<rparr>
                in policy_saved env (st\<lparr>sp_entries := (sp_entries st)[i := if \<not> se_pinned e \<and> \<not> se_has_policy e then no_entry else e]\<rparr>) fs)"

text \<open>The policy a package runs under given its kind, whether it can roll, and why not.\<close>

definition srcpolicy_effective_for_kind :: "srcpolicy_state \<Rightarrow> string \<Rightarrow> string option \<Rightarrow> nat \<Rightarrow> srcpolicy \<times> int \<times> string" where
  "srcpolicy_effective_for_kind st name kind_name err_size =
     (let p = srcpolicy_get st (Some name) in
      if kind_name = None \<or> kind_name = Some []
      then (p, - 1, snprintf_s err_size (''package '' @ quoted name @ '' declares no pkg_upstream, so it cannot roll; it is pinned''))
      else case srcupstream_find kind_name of
          None \<Rightarrow> (p, - 1, snprintf_s err_size (''package '' @ quoted name @ '' declares unknown upstream kind '' @ quoted (the kind_name)))
        | Some kind \<Rightarrow>
            let p = (if \<not> pol_explicit p \<and> pol_channel p \<noteq> [] \<and>
                        fst (srcupstream_check_channel (Some kind) (Some (pol_channel p)) 0) \<noteq> SRCUPSTREAM_OK
                     then p\<lparr>pol_channel := []\<rparr> else p);
                (e, err) = srcupstream_check_channel (Some kind) (Some (pol_channel p)) err_size
            in if e \<noteq> SRCUPSTREAM_OK then (p, - 1, err)
               else if \<not> depth_valid (pol_depth p)
               then (p, - 1, snprintf_s err_size (''package '' @ quoted name @ '' has depth '' @ quoted (pol_depth p) @ '', which is not valid''))
               else (p, 0, []))"

section \<open>Answers\<close>

definition write_one_policy :: "json_writer \<Rightarrow> string \<Rightarrow> srcpolicy \<Rightarrow> json_writer option" where
  "write_one_policy w name p =
     do { w \<leftarrow> jw_obj_open w;
          w \<leftarrow> jw_key w ''name'';
          w \<leftarrow> jw_str w name;
          w \<leftarrow> jw_key w ''channel'';
          w \<leftarrow> jw_text_or_null w (pol_channel p \<noteq> []) (pol_channel p);
          w \<leftarrow> jw_key w ''depth'';
          w \<leftarrow> jw_str w (pol_depth p);
          w \<leftarrow> jw_key w ''inherited'';
          w \<leftarrow> jw_bool w (\<not> pol_explicit p);
          w \<leftarrow> jw_key w ''pinned'';
          w \<leftarrow> jw_bool w (pol_pinned p);
          Some (jw_obj_close w) }"

definition srcpolicy_write_json_one :: "srcpolicy_state \<Rightarrow> json_writer \<Rightarrow> string \<Rightarrow> json_writer option" where
  "srcpolicy_write_json_one st w name = write_one_policy w name (srcpolicy_get st (Some name))"

definition srcpolicy_write_json :: "srcpolicy_state \<Rightarrow> json_writer \<Rightarrow> json_writer option" where
  "srcpolicy_write_json st w =
     (let d = srcpolicy_default_get st in
      do { w \<leftarrow> jw_obj_open w;
           w \<leftarrow> write_default w (pol_channel d) (pol_depth d);
           w \<leftarrow> jw_key w ''packages'';
           w \<leftarrow> jw_arr_open w;
           w \<leftarrow> jw_each (\<lambda>w e. srcpolicy_write_json_one st w (se_name e)) w (filter se_in_use (sp_entries st));
           w \<leftarrow> Some (jw_arr_close w);
           Some (jw_obj_close w) })"

end
