(* ===== verification/Src_Policy_Props.thy ===== *)
theory Src_Policy_Props
  imports Src_Policy
begin

text \<open>
  The source policies as a map: a package has its own channel and depth or not, and is held or not.
  The table operations refine updates of that map; a restart keeps it; and the policy a package
  runs under is read off it.
\<close>

section \<open>The table as a map\<close>

interpretation policies: keyed_table se_in_use se_name "\<lambda>t k. policy_find t (Some k)" "find_index (\<lambda>e. \<not> se_in_use e)"
  using find_index_keyed_table [of se_in_use se_name] by (simp add: policy_find_def)

type_synonym policy_facts = "(string \<times> string) option \<times> bool"

definition entry_facts :: "srcpolicy_entry \<Rightarrow> policy_facts" where
  "entry_facts e = (if se_has_policy e then Some (se_channel e, se_depth e) else None, se_pinned e)"

definition policy_map :: "srcpolicy_entry list \<Rightarrow> string \<rightharpoonup> policy_facts" where
  "policy_map es n = map_option (\<lambda>i. entry_facts (es ! i)) (policy_find es (Some n))"

text \<open>What a map says of a package, and the one update there is: no facts, no entry.\<close>

definition own_policy :: "(string \<rightharpoonup> policy_facts) \<Rightarrow> string \<Rightarrow> (string \<times> string) option" where
  "own_policy m n = (case m n of None \<Rightarrow> None | Some f \<Rightarrow> fst f)"

definition held :: "(string \<rightharpoonup> policy_facts) \<Rightarrow> string \<Rightarrow> bool" where
  "held m n = (case m n of None \<Rightarrow> False | Some f \<Rightarrow> snd f)"

definition put_facts :: "string \<Rightarrow> policy_facts \<Rightarrow> (string \<rightharpoonup> policy_facts) \<Rightarrow> (string \<rightharpoonup> policy_facts)" where
  "put_facts n f m = m(n := if f = (None, False) then None else Some f)"

lemma policy_map_update:
  assumes U: "keys_unique se_in_use se_name es" and i: "i < length es"
    and slot: "policy_find es (Some n) = Some i \<or> policy_find es (Some n) = None \<and> \<not> se_in_use (es ! i)"
    and e: "se_in_use e \<Longrightarrow> se_name e = n"
  shows "policy_map (es[i := e]) = (policy_map es)(n := if se_in_use e then Some (entry_facts e) else None)"
    and "keys_unique se_in_use se_name (es[i := e])"
proof -
  have at: "se_in_use (es ! i) \<Longrightarrow> se_name (es ! i) = n" using slot policies.find_SomeD [of es n i] by auto
  have free: "se_in_use e \<Longrightarrow> policy_find es (Some (se_name e)) = None \<or> se_in_use (es ! i) \<and> se_name (es ! i) = se_name e"
    using slot e policies.find_SomeD [of es n i] by auto
  show U': "keys_unique se_in_use se_name (es[i := e])" by (rule policies.unique_update [OF U i free])
  show "policy_map (es[i := e]) = (policy_map es)(n := if se_in_use e then Some (entry_facts e) else None)"
  proof
    fix k
    show "policy_map (es[i := e]) k = ((policy_map es)(n := if se_in_use e then Some (entry_facts e) else None)) k"
    proof (cases "k = n")
      case True
      show ?thesis
      proof (cases "se_in_use e")
        case used: True
        then have "policy_find (es[i := e]) (Some n) = Some i" using policies.find_unique [OF U', of i] i e by simp
        then show ?thesis using True used i by (simp add: policy_map_def)
      next
        case False
        have "policy_find (es[i := e]) (Some n) \<noteq> Some j" for j
        proof
          assume j: "policy_find (es[i := e]) (Some n) = Some j"
          then have "j \<noteq> i \<and> j < length es \<and> se_in_use (es ! j) \<and> se_name (es ! j) = n"
            using policies.find_SomeD [OF j] False i by (cases "j = i") auto
          then show False using slot policies.find_NoneD [of es n j] policies.find_SomeD [of es n i] keys_uniqueD [OF U, of i j] i by auto
        qed
        then have "policy_find (es[i := e]) (Some n) = None" by (cases "policy_find (es[i := e]) (Some n)") auto
        then show ?thesis using True False by (simp add: policy_map_def)
      qed
    next
      case False
      then have same: "policy_find (es[i := e]) (Some k) = policy_find es (Some k)"
        using e at by (intro policies.find_frame [OF U i free]) auto
      have "j \<noteq> i" if "policy_find es (Some k) = Some j" for j
        using policies.find_SomeD [OF that] at False by auto
      then show ?thesis using False same by (cases "policy_find es (Some k)") (auto simp: policy_map_def)
    qed
  qed
qed

section \<open>Sound tables\<close>

definition entry_ok :: "srcpolicy_entry \<Rightarrow> bool" where
  "entry_ok e = (se_name e \<noteq> [] \<and> is_c_str (se_name e) \<and> length (se_name e) < PKG_NAME_MAX \<and> (se_has_policy e \<or> se_pinned e) \<and>
     (se_has_policy e \<longrightarrow> is_c_str (se_channel e) \<and> length (se_channel e) < SRCPOLICY_CHANNEL_MAX \<and>
       is_c_str (se_depth e) \<and> length (se_depth e) < SRCPOLICY_DEPTH_MAX \<and> depth_valid (se_depth e)))"

definition policy_wf :: "srcpolicy_state \<Rightarrow> bool" where
  "policy_wf st = (length (sp_entries st) = SRCPOLICY_MAX \<and> keys_unique se_in_use se_name (sp_entries st) \<and>
     (\<forall>e \<in> set (sp_entries st). se_in_use e \<longrightarrow> entry_ok e) \<and>
     is_c_str (sp_default_channel st) \<and> length (sp_default_channel st) < SRCPOLICY_CHANNEL_MAX \<and>
     is_c_str (sp_default_depth st) \<and> length (sp_default_depth st) < SRCPOLICY_DEPTH_MAX \<and> depth_valid (sp_default_depth st))"

datatype policy_request = SetPolicy "string option" "string option" "string option" "string option"
  | ClearPolicy "string option" | SetPinned "string option" bool | SetDefault "string option" "string option"

fun policy_step :: "write_env \<Rightarrow> nat \<Rightarrow> policy_request \<Rightarrow> srcpolicy_state \<Rightarrow> fs \<Rightarrow> policy_result" where
  "policy_step env n (SetPolicy name kind channel depth) st fs = srcpolicy_set env st name kind channel depth n fs"
| "policy_step env n (ClearPolicy name) st fs = srcpolicy_clear env st name fs"
| "policy_step env n (SetPinned name b) st fs = srcpolicy_set_pinned env st name b n fs"
| "policy_step env n (SetDefault channel depth) st fs = srcpolicy_default_set env st channel depth n fs"

text \<open>What the requests come with: C strings, a name and a depth that fit their buffers.\<close>

fun request_fits :: "policy_request \<Rightarrow> bool" where
  "request_fits (SetPolicy name kind channel depth) =
     ((\<forall>s. name = Some s \<longrightarrow> is_c_str s \<and> length s < PKG_NAME_MAX) \<and> (\<forall>s. channel = Some s \<longrightarrow> is_c_str s) \<and>
      (\<forall>s. depth = Some s \<longrightarrow> is_c_str s \<and> length s < SRCPOLICY_DEPTH_MAX))"
| "request_fits (ClearPolicy name) = True"
| "request_fits (SetPinned name b) = (\<forall>s. name = Some s \<longrightarrow> is_c_str s \<and> length s < PKG_NAME_MAX)"
| "request_fits (SetDefault channel depth) = ((\<forall>s. channel = Some s \<longrightarrow> is_c_str s) \<and> (\<forall>s. depth = Some s \<longrightarrow> is_c_str s))"

type_synonym policy_view = "(string \<times> string) \<times> (string \<rightharpoonup> policy_facts)"

definition policy_view :: "srcpolicy_state \<Rightarrow> policy_view" where
  "policy_view st = ((sp_default_channel st, sp_default_depth st), policy_map (sp_entries st))"

fun view_step :: "policy_request \<Rightarrow> policy_view \<Rightarrow> policy_view" where
  "view_step (SetPolicy (Some n) kind channel depth) (d, m) =
     (d, put_facts n (Some (case channel of None \<Rightarrow> [] | Some c \<Rightarrow> c, given_depth depth), held m n) m)"
| "view_step (ClearPolicy (Some n)) (d, m) = (d, put_facts n (None, held m n) m)"
| "view_step (SetPinned (Some n) b) (d, m) = (d, put_facts n (own_policy m n, b) m)"
| "view_step (SetDefault channel depth) (d, m) =
     ((snprintf_s SRCPOLICY_CHANNEL_MAX (case channel of None \<Rightarrow> [] | Some c \<Rightarrow> c), snprintf_s SRCPOLICY_DEPTH_MAX (given_depth depth)), m)"
| "view_step r v = v"

text \<open>A step refuses and changes nothing, or saves a state that is sound and shows the update.\<close>

definition refines_step :: "write_env \<Rightarrow> srcpolicy_state \<Rightarrow> fs \<Rightarrow> policy_request \<Rightarrow> policy_result \<Rightarrow> bool" where
  "refines_step env st fs r res =
     ((\<exists>rc err. res = Some (st, [fs], rc, err) \<and> (rc = 0 \<longrightarrow> policy_view st = view_step r (policy_view st))) \<or>
      (\<exists>s. policy_wf s \<and> sp_path s = sp_path st \<and> policy_view s = view_step r (policy_view st) \<and> res = policy_saved env s fs))"

lemma refines_refuse: "refines_step env st fs r (Some (st, [fs], - 1, err))"
  by (auto simp: refines_step_def)

lemma refines_saved:
  "policy_wf s \<Longrightarrow> sp_path s = sp_path st \<Longrightarrow> policy_view s = view_step r (policy_view st) \<Longrightarrow> refines_step env st fs r (policy_saved env s fs)"
  by (auto simp: refines_step_def)

lemma wf_update:
  assumes "policy_wf st" "i < length (sp_entries st)"
    and "policy_find (sp_entries st) (Some n) = Some i \<or> policy_find (sp_entries st) (Some n) = None \<and> \<not> se_in_use (sp_entries st ! i)"
    and "se_in_use e \<Longrightarrow> se_name e = n \<and> entry_ok e"
  shows "policy_wf (st\<lparr>sp_entries := (sp_entries st)[i := e]\<rparr>)"
    and "policy_view (st\<lparr>sp_entries := (sp_entries st)[i := e]\<rparr>) =
      (fst (policy_view st), (snd (policy_view st))(n := if se_in_use e then Some (entry_facts e) else None))"
  using policy_map_update [OF _ assms(2,3), of e] assms(1,4)
  by (auto simp: policy_wf_def policy_view_def dest: set_update_subset_insert [THEN subsetD])

lemma claim_slot_cases:
  assumes "claim_slot es n = Some (i, e)" "length n < PKG_NAME_MAX"
  shows "i < length es" "policy_find es (Some n) = Some i \<or> policy_find es (Some n) = None \<and> \<not> se_in_use (es ! i)"
    "se_in_use e" "se_name e = n" "policy_map es n = (if policy_find es (Some n) = None then None else Some (entry_facts e))"
    "policy_find es (Some n) = None \<Longrightarrow> \<not> se_pinned e \<and> \<not> se_has_policy e"
    "policy_find es (Some n) \<noteq> None \<Longrightarrow> e \<in> set es"
  using assms policies.find_SomeD [of es n] policies.free_SomeD [of es]
  by (auto simp: claim_slot_def policy_map_def no_entry_def split: option.splits)

section \<open>The operations refine updates of the map\<close>

lemma claimed_facts:
  assumes "claim_slot es n = Some (i, e)" "length n < PKG_NAME_MAX"
  shows "held (policy_map es) n = se_pinned e"
    "own_policy (policy_map es) n = (if se_has_policy e then Some (se_channel e, se_depth e) else None)"
  using claim_slot_cases [OF assms] by (auto simp: held_def own_policy_def entry_facts_def)

lemma given_depth_fits: "(\<forall>s. depth = Some s \<longrightarrow> is_c_str s \<and> length s < SRCPOLICY_DEPTH_MAX) \<Longrightarrow>
    is_c_str (given_depth depth) \<and> length (given_depth depth) < SRCPOLICY_DEPTH_MAX"
  by (auto simp: given_depth_def SRCPOLICY_DEFAULT_DEPTH_def SRCPOLICY_DEPTH_MAX_def NUL_def split: option.split)

lemma known_channels: "srcupstream_find k = Some u \<Longrightarrow> su_channels u = None \<or> su_channels u = Some KORG_CHANNELS"
  by (auto simp: srcupstream_find_def KINDS_def split: option.splits if_splits)

lemma checked_channel_fits:
  assumes "fst (srcupstream_check kind (Some c) n) = SRCUPSTREAM_OK"
  shows "length c < SRCPOLICY_CHANNEL_MAX"
proof -
  obtain u where u: "srcupstream_find kind = Some u" using assms by (auto simp: srcupstream_check_def split: option.splits)
  then have "c = [] \<or> c \<in> set KORG_CHANNELS"
    using assms known_channels [OF u] by (auto simp: srcupstream_check_def srcupstream_check_channel_def Let_def split: if_splits)
  then show ?thesis by (auto simp: KORG_CHANNELS_def SRCPOLICY_CHANNEL_MAX_def)
qed

lemma set_refines:
  assumes wf: "policy_wf st" and fits: "request_fits (SetPolicy name kind channel depth)"
  shows "refines_step env st fs (SetPolicy name kind channel depth) (srcpolicy_set env st name kind channel depth n fs)"
proof (cases name)
  case (Some nm)
  define c where "c = (case channel of None \<Rightarrow> [] | Some c \<Rightarrow> c)"
  define d where "d = given_depth depth"
  have nm: "is_c_str nm" "length nm < PKG_NAME_MAX" and dd: "is_c_str d" "length d < SRCPOLICY_DEPTH_MAX" and c: "is_c_str c"
    using fits Some given_depth_fits [of depth] by (auto simp: c_def d_def split: option.split)
  have saved: "refines_step env st fs (SetPolicy name kind channel depth)
      (policy_saved env (st\<lparr>sp_entries := (sp_entries st)[i := e\<lparr>se_has_policy := True, se_channel := snprintf_s SRCPOLICY_CHANNEL_MAX c,
         se_depth := snprintf_s SRCPOLICY_DEPTH_MAX d\<rparr>]\<rparr>) fs)"
    if h: "nm \<noteq> []" "depth_valid d" "length c < SRCPOLICY_CHANNEL_MAX" and e: "claim_slot (sp_entries st) nm = Some (i, e)" for i e
  proof -
    let ?e = "e\<lparr>se_has_policy := True, se_channel := snprintf_s SRCPOLICY_CHANNEL_MAX c, se_depth := snprintf_s SRCPOLICY_DEPTH_MAX d\<rparr>"
    note C = claim_slot_cases [OF e nm(2)]
    have "entry_ok ?e" using h nm dd c C(4) by (simp add: entry_ok_def)
    then have "se_in_use ?e \<Longrightarrow> se_name ?e = nm \<and> entry_ok ?e" using C(4) by simp
    note W = wf_update [OF wf C(1,2) this]
    show ?thesis
      by (rule refines_saved [OF W(1)])
        (use W(2) C(3) h claimed_facts [OF e nm(2)] dd in
          \<open>simp_all add: Some c_def [symmetric] d_def [symmetric] policy_view_def put_facts_def entry_facts_def\<close>)
  qed
  show ?thesis
    unfolding srcpolicy_set_def Let_def Some option.case c_def [symmetric] d_def [symmetric] if_distribR
    using saved checked_channel_fits [of kind c n] Some
    by (auto intro!: refines_refuse split: option.split) (auto simp: SRCPOLICY_CHANNEL_MAX_def)
qed (simp add: srcpolicy_set_def Let_def refines_refuse)

lemma clear_refines:
  assumes wf: "policy_wf st"
  shows "refines_step env st fs (ClearPolicy name) (srcpolicy_clear env st name fs)"
proof (cases "policy_find (sp_entries st) name")
  case None
  then show ?thesis
    by (cases name) (auto simp: srcpolicy_clear_def refines_step_def policy_view_def policy_map_def held_def put_facts_def)
next
  case (Some i)
  then obtain nm where nm: "name = Some nm" by (cases name) (auto simp: policy_find_def)
  note F = policies.find_SomeD [OF Some [unfolded nm]]
  define e where "e = (sp_entries st ! i)\<lparr>se_has_policy := False, se_channel := [], se_depth := []\<rparr>"
  let ?e = "if \<not> se_pinned e then no_entry else e"
  have ok: "entry_ok (sp_entries st ! i)" using wf F by (simp add: policy_wf_def)
  have "se_in_use ?e \<Longrightarrow> se_name ?e = nm \<and> entry_ok ?e"
    using F ok by (auto simp: e_def entry_ok_def no_entry_def split: if_splits)
  note W = wf_update [OF wf conjunct1 [OF F] disjI1 [OF Some [unfolded nm]] this]
  have "held (policy_map (sp_entries st)) nm = se_pinned e" using Some nm by (simp add: held_def policy_map_def entry_facts_def e_def)
  then have "policy_view (st\<lparr>sp_entries := (sp_entries st)[i := ?e]\<rparr>) = view_step (ClearPolicy name) (policy_view st)"
    using W(2) F by (cases "se_pinned e") (simp_all add: nm policy_view_def put_facts_def entry_facts_def e_def no_entry_def)
  then show ?thesis
    unfolding srcpolicy_clear_def Some option.case Let_def e_def [symmetric] by (intro refines_saved [OF W(1)]) simp_all
qed

lemma pinned_refines:
  assumes wf: "policy_wf st" and fits: "request_fits (SetPinned name b)"
  shows "refines_step env st fs (SetPinned name b) (srcpolicy_set_pinned env st name b n fs)"
proof (cases name)
  case (Some nm)
  then have nm: "is_c_str nm" "length nm < PKG_NAME_MAX" using fits by auto
  have absent: "policy_view st = view_step (SetPinned name b) (policy_view st)"
    if "policy_find (sp_entries st) (Some nm) = None" "\<not> b"
    using that by (auto simp: Some policy_view_def policy_map_def own_policy_def put_facts_def)
  have saved: "refines_step env st fs (SetPinned name b) (policy_saved env (st\<lparr>sp_entries := (sp_entries st)[i :=
        if \<not> se_pinned (e\<lparr>se_pinned := b\<rparr>) \<and> \<not> se_has_policy (e\<lparr>se_pinned := b\<rparr>) then no_entry else e\<lparr>se_pinned := b\<rparr>]\<rparr>) fs)"
    if ne: "nm \<noteq> []" and e: "claim_slot (sp_entries st) nm = Some (i, e)" for i e
  proof -
    let ?e = "if \<not> se_pinned (e\<lparr>se_pinned := b\<rparr>) \<and> \<not> se_has_policy (e\<lparr>se_pinned := b\<rparr>) then no_entry else e\<lparr>se_pinned := b\<rparr>"
    note C = claim_slot_cases [OF e nm(2)]
    have "se_has_policy e \<Longrightarrow> entry_ok e" using wf C(3,6,7) by (auto simp: policy_wf_def)
    then have "se_in_use ?e \<Longrightarrow> se_name ?e = nm \<and> entry_ok ?e"
      using C(4) ne nm by (auto simp: entry_ok_def no_entry_def split: if_splits)
    note W = wf_update [OF wf C(1,2) this]
    show ?thesis
      by (rule refines_saved [OF W(1)])
        (use W(2) C(3) claimed_facts [OF e nm(2)] in
          \<open>simp_all add: Some policy_view_def put_facts_def entry_facts_def no_entry_def\<close>)
  qed
  show ?thesis
    unfolding srcpolicy_set_pinned_def Let_def Some option.case
    using saved absent [unfolded Some]
    by (auto intro!: refines_refuse simp: Some refines_step_def [of env st fs _ "Some (st, [fs], 0, [])"] split: option.split)
qed (simp add: srcpolicy_set_pinned_def refines_refuse)

lemma default_refines:
  assumes wf: "policy_wf st" and fits: "request_fits (SetDefault channel depth)"
  shows "refines_step env st fs (SetDefault channel depth) (srcpolicy_default_set env st channel depth n fs)"
proof -
  have len: "0 < k \<Longrightarrow> snprintf_s k (snprintf_s k s) = snprintf_s k s" for k s
    by (simp add: length_snprintf_s)
  have c: "is_c_str (case channel of None \<Rightarrow> [] | Some c \<Rightarrow> c)" "is_c_str (given_depth depth)"
    using fits by (auto simp: given_depth_def SRCPOLICY_DEFAULT_DEPTH_def NUL_def split: option.split)
  show ?thesis
    using wf c len unfolding srcpolicy_default_set_def Let_def
    by (auto intro!: refines_refuse refines_saved simp: policy_wf_def policy_view_def SRCPOLICY_CHANNEL_MAX_def SRCPOLICY_DEPTH_MAX_def length_snprintf_s)
qed

lemma policy_step_refines:
  "policy_wf st \<Longrightarrow> request_fits r \<Longrightarrow> refines_step env st fs r (policy_step env n r st fs)"
  using set_refines clear_refines pinned_refines default_refines by (cases r) auto

section \<open>The saved document\<close>

definition text_or_null :: "bool \<Rightarrow> string \<Rightarrow> json" where
  "text_or_null b s = (if b then JString s else JNull)"

definition entry_tree :: "srcpolicy_entry \<Rightarrow> json" where
  "entry_tree e = JObject [(''name'', JString (se_name e)), (''channel'', text_or_null (se_has_policy e \<and> se_channel e \<noteq> []) (se_channel e)),
     (''depth'', text_or_null (se_has_policy e) (se_depth e)), (''pinned'', JBool (se_pinned e))]"

definition policy_tree :: "srcpolicy_state \<Rightarrow> json" where
  "policy_tree st = JObject
     [(''default'', JObject [(''channel'', text_or_null (sp_default_channel st \<noteq> []) (sp_default_channel st)), (''depth'', JString (sp_default_depth st))]),
      (''packages'', JArray (map entry_tree (filter se_in_use (sp_entries st))))]"

lemma jw_text_or_null_value: "jw_text_or_null w b s = jw_value w (text_or_null b s)"
  by (simp add: jw_text_or_null_def text_or_null_def)

lemma text_or_null_facts [simp]: "nesting (text_or_null b s) = 0" "exact_json (text_or_null b s) = (b \<longrightarrow> is_c_str s)"
  "json_as_string (Some (text_or_null b s)) = (if b then Some s else None)"
  by (simp_all add: text_or_null_def json_as_string_def)

lemma policy_document_text: "\<exists>w. policy_document st = Some w \<and> jw_buf w = render (policy_tree st)"
proof -
  have entries: "jw_each write_policy_entry w es = jw_items w (map entry_tree es)" for w es
    by (rule jw_each_items) (simp add: write_policy_entry_def entry_tree_def jw_text_or_null_value)
  have "policy_document st = jw_value (jw_init blank_writer) (policy_tree st)"
    unfolding policy_document_def write_default_def entries jw_text_or_null_value by (simp add: policy_tree_def bind_assoc)
  moreover have "nesting (policy_tree st) \<le> JW_MAX_DEPTH"
    by (auto simp: policy_tree_def entry_tree_def nesting_items_le nesting_members_le JW_MAX_DEPTH_def)
  ultimately show ?thesis using jw_value_blank [of "policy_tree st"] by simp
qed

lemma policy_tree_exact: "policy_wf st \<Longrightarrow> exact_json (policy_tree st)"
  by (auto simp: policy_tree_def entry_tree_def exact_items_map policy_wf_def entry_ok_def NUL_def)

text \<open>What an entry is after a restart: a hold without a policy comes back with the default depth in its unused field.\<close>

definition reloaded :: "srcpolicy_entry \<Rightarrow> srcpolicy_entry" where
  "reloaded e = (if se_has_policy e then e else e\<lparr>se_channel := [], se_depth := SRCPOLICY_DEFAULT_DEPTH\<rparr>)"

lemma reloaded_facts [simp]: "entry_facts (reloaded e) = entry_facts e" "se_name (reloaded e) = se_name e" "se_in_use (reloaded e) = se_in_use e"
  by (simp_all add: reloaded_def entry_facts_def)

lemma load_entry_tree: "se_in_use e \<Longrightarrow> entry_ok e \<Longrightarrow> load_entry (entry_tree e) = Some (reloaded e)"
  by (cases e) (auto simp: load_entry_def entry_tree_def json_object_get_def json_as_string_def text_or_null_def reloaded_def entry_ok_def
      SRCPOLICY_DEFAULT_DEPTH_def SRCPOLICY_DEPTH_MAX_def Let_def)

lemma load_entries_tree:
  assumes "policy_wf st"
  shows "load_slots SRCPOLICY_MAX load_entry (map entry_tree (filter se_in_use (sp_entries st))) [] =
    map reloaded (filter se_in_use (sp_entries st))"
proof -
  have load: "load_slots n load_entry (map entry_tree es) acc = acc @ map reloaded es"
    if "list_all (\<lambda>e. se_in_use e \<and> entry_ok e) es" "length acc + length es \<le> n" for n es acc
    using that by (induction es arbitrary: acc) (auto simp: load_entry_tree)
  have "list_all (\<lambda>e. se_in_use e \<and> entry_ok e) (filter se_in_use (sp_entries st))" using assms by (auto simp: policy_wf_def list_all_iff)
  moreover have "length (filter se_in_use (sp_entries st)) \<le> SRCPOLICY_MAX"
    using assms length_filter_le [of se_in_use "sp_entries st"] by (simp add: policy_wf_def)
  ultimately show ?thesis using load [of _ "[]" SRCPOLICY_MAX] by simp
qed

text \<open>The map depends on the used entries only, and not on how they are spread over the slots.\<close>

lemma policy_map_of: "policy_map es n = map_of (map (\<lambda>e. (se_name e, entry_facts e)) (filter se_in_use es)) n"
  by (induction es) (auto simp: policy_map_def policy_find_def option.map_comp comp_def)

lemma policy_map_reloaded:
  "policy_map (fill_slots k no_entry (map reloaded (filter se_in_use es))) = policy_map es"
proof
  fix n
  have "filter se_in_use (fill_slots k no_entry (map reloaded (filter se_in_use es))) = map reloaded (filter se_in_use es)"
    by (rule filter_fill_slots) (auto simp: list_all_iff reloaded_def no_entry_def)
  then show "policy_map (fill_slots k no_entry (map reloaded (filter se_in_use es))) n = policy_map es n"
    unfolding policy_map_of by (simp add: comp_def)
qed

lemma keys_unique_Cons:
  "keys_unique used key (x # xs) \<longleftrightarrow> (used x \<longrightarrow> (\<forall>y \<in> set xs. used y \<longrightarrow> key y \<noteq> key x)) \<and> keys_unique used key xs"
  (is "?L \<longleftrightarrow> ?R")
proof
  assume L: ?L
  have "i = j" if "i < length xs" "j < length xs" "used (xs ! i)" "used (xs ! j)" "key (xs ! i) = key (xs ! j)" for i j
    using keys_uniqueD [OF L, of "Suc i" "Suc j"] that by simp
  moreover have "key (xs ! j) \<noteq> key x" if "used x" "j < length xs" "used (xs ! j)" for j
    using keys_uniqueD [OF L, of "Suc j" 0] that by auto
  ultimately show ?R by (auto simp: keys_unique_def in_set_conv_nth)
next
  assume R: ?R
  show ?L unfolding keys_unique_def
  proof (intro allI impI)
    fix i j assume "i < length (x # xs)" "j < length (x # xs)"
      "used ((x # xs) ! i) \<and> used ((x # xs) ! j) \<and> key ((x # xs) ! i) = key ((x # xs) ! j)"
    then show "i = j" using R by (cases i; cases j) (auto dest: keys_uniqueD nth_mem)
  qed
qed

lemma keys_unique_distinct: "keys_unique used key es \<longleftrightarrow> distinct (map key (filter used es))"
proof (induction es)
  case Nil
  show ?case by (simp add: keys_unique_def)
next
  case (Cons e es)
  then show ?case unfolding keys_unique_Cons by (auto simp: image_iff)
qed

lemma policy_tree_members:
  "json_object_get (Some (policy_tree st)) ''packages'' = Some (JArray (map entry_tree (filter se_in_use (sp_entries st))))"
  "json_object_get (Some (policy_tree st)) ''default'' =
     Some (JObject [(''channel'', text_or_null (sp_default_channel st \<noteq> []) (sp_default_channel st)), (''depth'', JString (sp_default_depth st))])"
  by (simp_all add: policy_tree_def json_object_get_def)

lemma reload_view:
  assumes wf: "policy_wf st" and read: "persist_read_file env path fs = ReadData (render (policy_tree st))"
  shows "policy_view (srcpolicy_init env path fs) = policy_view st" "policy_wf (srcpolicy_init env path fs)"
proof -
  let ?es = "fill_slots SRCPOLICY_MAX no_entry (map reloaded (filter se_in_use (sp_entries st)))"
  have parse: "json_parse (render (policy_tree st)) = Some (policy_tree st)" using policy_tree_exact [OF wf] by (rule json_parse_render)
  have init: "sp_entries (srcpolicy_init env path fs) = ?es" "sp_default_channel (srcpolicy_init env path fs) = sp_default_channel st"
    "sp_default_depth (srcpolicy_init env path fs) = sp_default_depth st"
    using wf load_entries_tree [OF wf] read parse
    by (simp_all add: srcpolicy_init_def policy_tree_members array_items_def load_default_def Let_def policy_wf_def)
      (simp_all add: json_object_get_def json_as_string_def [of "Some (JString _)"])
  then show "policy_view (srcpolicy_init env path fs) = policy_view st" by (simp add: policy_view_def policy_map_reloaded)
  have used: "filter se_in_use ?es = map reloaded (filter se_in_use (sp_entries st))"
    by (rule filter_fill_slots) (auto simp: list_all_iff no_entry_def)
  have "\<forall>e \<in> set ?es. se_in_use e \<longrightarrow> entry_ok e"
  proof (intro ballI impI)
    fix e assume "e \<in> set ?es" "se_in_use e"
    then have "e \<in> set (filter se_in_use ?es)" by simp
    then have "e \<in> set (map reloaded (filter se_in_use (sp_entries st)))" by (simp only: used)
    then show "entry_ok e" using wf by (auto simp: policy_wf_def entry_ok_def reloaded_def)
  qed
  moreover have "keys_unique se_in_use se_name ?es"
    using wf unfolding keys_unique_distinct used by (simp add: policy_wf_def keys_unique_distinct comp_def)
  moreover have "length ?es = SRCPOLICY_MAX"
    using wf length_filter_le [of se_in_use "sp_entries st"] by (simp add: length_fill_slots policy_wf_def)
  ultimately show "policy_wf (srcpolicy_init env path fs)" using wf init by (simp add: policy_wf_def)
qed

section \<open>Runs\<close>

text \<open>From a first start without a file: requests, restarts, and crashes in the middle of a save.\<close>

inductive policy_reach :: "string \<Rightarrow> srcpolicy_state \<Rightarrow> fs \<Rightarrow> bool" for path where
  first_start: "fs path = None \<Longrightarrow> policy_reach path (srcpolicy_init healthy_read path fs) fs"
| request: "policy_reach path st fs \<Longrightarrow> request_fits r \<Longrightarrow> policy_step env n r st fs = Some (st', f # v, rc, err) \<Longrightarrow> policy_reach path st' f"
| crash: "policy_reach path st fs \<Longrightarrow> request_fits r \<Longrightarrow> policy_step env n r st fs = Some (st', v, rc, err) \<Longrightarrow> f \<in> set v \<Longrightarrow>
    policy_reach path (srcpolicy_init healthy_read path f) f"

definition policy_inv :: "string \<Rightarrow> srcpolicy_state \<Rightarrow> fs \<Rightarrow> bool" where
  "policy_inv path st fs = (policy_wf st \<and> sp_path st = path \<and> (\<forall>d. fs path = Some d \<longrightarrow> (\<exists>s. policy_wf s \<and> d = render (policy_tree s))))"

lemma empty_policies_wf:
  "policy_wf \<lparr>sp_entries = replicate SRCPOLICY_MAX no_entry, sp_default_channel = [],
     sp_default_depth = snprintf_s SRCPOLICY_DEPTH_MAX SRCPOLICY_DEFAULT_DEPTH, sp_path = p\<rparr>"
  by (auto simp: policy_wf_def keys_unique_def no_entry_def SRCPOLICY_DEFAULT_DEPTH_def SRCPOLICY_DEPTH_MAX_def SRCPOLICY_CHANNEL_MAX_def
      depth_valid_def srcdepth_parse_def NUL_def)

lemma init_path: "sp_path (srcpolicy_init env path fs) = snprintf_s 512 path"
  by (auto simp: srcpolicy_init_def Let_def load_default_def split: read_result.split option.split)

lemma init_inv:
  assumes "\<forall>d. fs path = Some d \<longrightarrow> (\<exists>s. policy_wf s \<and> d = render (policy_tree s))" "length path < 512"
  shows "policy_inv path (srcpolicy_init healthy_read path fs) fs"
proof (cases "fs path")
  case None
  then have "srcpolicy_init healthy_read path fs = \<lparr>sp_entries = replicate SRCPOLICY_MAX no_entry, sp_default_channel = [],
     sp_default_depth = snprintf_s SRCPOLICY_DEPTH_MAX SRCPOLICY_DEFAULT_DEPTH, sp_path = snprintf_s 512 path\<rparr>"
    by (simp add: srcpolicy_init_def)
  with None assms(2) empty_policies_wf show ?thesis by (simp add: policy_inv_def)
next
  case (Some d)
  then obtain s where "policy_wf s" "d = render (policy_tree s)" using assms(1) by blast
  with Some reload_view(2) [of s healthy_read path fs] assms show ?thesis by (simp add: policy_inv_def init_path)
qed

lemma saved_cases:
  assumes "policy_saved env s fs = Some (st', v, rc, err)"
  shows "st' = s" "persist_atomic_write env (sp_path s) (render (policy_tree s)) fs = (v, rc)" "err = []"
  using assms policy_document_text [of s] by (auto simp: policy_saved_def srcpolicy_save_state_def)

lemma step_cases:
  assumes inv: "policy_inv path st fs" and fits: "request_fits r" and res: "policy_step env n r st fs = Some (st', v, rc, err)"
  shows "policy_wf st' \<and> sp_path st' = path" "rc = 0 \<Longrightarrow> policy_view st' = view_step r (policy_view st)"
    "st' = st \<and> v = [fs] \<or> persist_atomic_write env path (render (policy_tree st')) fs = (v, rc)"
proof -
  have wf: "policy_wf st" "sp_path st = path" using inv by (auto simp: policy_inv_def)
  from policy_step_refines [OF wf(1) fits, of env fs n] res consider
    (same) "st' = st" "v = [fs]" "rc = 0 \<longrightarrow> policy_view st = view_step r (policy_view st)"
  | (saved) s where "policy_wf s" "sp_path s = sp_path st" "policy_view s = view_step r (policy_view st)"
      "policy_saved env s fs = Some (st', v, rc, err)"
    by (auto simp: refines_step_def)
  then have "(policy_wf st' \<and> sp_path st' = path) \<and> (rc = 0 \<longrightarrow> policy_view st' = view_step r (policy_view st)) \<and>
    (st' = st \<and> v = [fs] \<or> persist_atomic_write env path (render (policy_tree st')) fs = (v, rc))"
  proof cases
    case same
    then show ?thesis using wf by simp
  next
    case saved
    then show ?thesis using saved_cases [OF saved(4)] wf by auto
  qed
  then show "policy_wf st' \<and> sp_path st' = path" "rc = 0 \<Longrightarrow> policy_view st' = view_step r (policy_view st)"
    "st' = st \<and> v = [fs] \<or> persist_atomic_write env path (render (policy_tree st')) fs = (v, rc)" by auto
qed

lemma step_files:
  assumes inv: "policy_inv path st fs" and fits: "request_fits r" and res: "policy_step env n r st fs = Some (st', v, rc, err)"
    and f: "f \<in> set v" "f path = Some d"
  shows "\<exists>s. policy_wf s \<and> d = render (policy_tree s)"
proof -
  have "f path = fs path \<or> f path = Some (render (policy_tree st'))"
    using step_cases(3) [OF inv fits res] pw.never_torn [of f env path "render (policy_tree st')" fs] f(1) by auto
  then show ?thesis using inv f(2) step_cases(1) [OF inv fits res] by (auto simp: policy_inv_def)
qed

lemma policy_reach_inv: "policy_reach path st fs \<Longrightarrow> length path < 512 \<Longrightarrow> policy_inv path st fs"
proof (induction rule: policy_reach.induct)
  case (first_start fs)
  then show ?case by (intro init_inv) auto
next
  case (request st fs r env n st' f v rc err)
  have inv: "policy_inv path st fs" by (rule request.IH [OF request.prems])
  show ?case
    unfolding policy_inv_def
    using step_cases(1) [OF inv request.hyps(2,3)] step_files [OF inv request.hyps(2,3), of f] by simp
next
  case (crash st fs r env n st' v rc err f)
  have inv: "policy_inv path st fs" by (rule crash.IH [OF crash.prems])
  show ?case
    using step_files [OF inv crash.hyps(2,3,4)] crash.prems by (intro init_inv) blast+
qed

lemma policy_step_defined: "policy_wf st \<Longrightarrow> request_fits r \<Longrightarrow> policy_step env n r st fs \<noteq> None"
proof -
  assume "policy_wf st" "request_fits r"
  then have "refines_step env st fs r (policy_step env n r st fs)" by (rule policy_step_refines)
  moreover have "policy_saved env s fs \<noteq> None" for s
    using policy_document_text [of s] by (auto simp: policy_saved_def srcpolicy_save_state_def)
  ultimately show ?thesis unfolding refines_step_def by auto
qed

text \<open>
  C19. In every run, an answered request that reports success has updated the map of policies as
  specified: a policy keeps the hold, clearing keeps the hold, a hold keeps the policy, and a
  package without either has no entry.  The tables stay sound whether it succeeds or not.
\<close>

theorem policies_refine_map:
  assumes "policy_reach path st fs" "length path < 512" "request_fits r"
  shows "\<exists>st' v rc err. policy_step env n r st fs = Some (st', v, rc, err) \<and> policy_wf st' \<and>
    (rc = 0 \<longrightarrow> policy_view st' = view_step r (policy_view st))"
proof -
  have inv: "policy_inv path st fs" by (rule policy_reach_inv [OF assms(1,2)])
  then obtain st' v rc err where res: "policy_step env n r st fs = Some (st', v, rc, err)"
    using policy_step_defined [OF _ assms(3), of st env n fs] by (auto simp: policy_inv_def)
  with step_cases(1,2) [OF inv assms(3) res] show ?thesis by blast
qed

text \<open>
  C20. A request that succeeds changed nothing and wrote nothing, or what a restart reads back is
  what the daemon holds: the defaults and every package's policy and hold.
\<close>

theorem policies_survive_restart:
  assumes "policy_reach path st fs" "length path < 512" "request_fits r" "policy_step env n r st fs = Some (st', f # v, 0, err)"
  shows "st' = st \<and> f = fs \<or> policy_view (srcpolicy_init healthy_read path f) = policy_view st'"
proof -
  note S = step_cases [OF policy_reach_inv [OF assms(1,2)] assms(3,4)]
  show ?thesis
  proof (cases "st' = st \<and> f # v = [fs]")
    case False
    then have "f path = Some (render (policy_tree st'))" using S(3) pw.after_ok by blast
    then show ?thesis using reload_view(1) [of st' healthy_read path f] S(1) by simp
  qed simp
qed

section \<open>The policy a package runs under\<close>

definition view_get :: "policy_view \<Rightarrow> string \<Rightarrow> srcpolicy" where
  "view_get = (\<lambda>(d, m) n.
     let (c, e) = (case own_policy m n of None \<Rightarrow> d | Some p \<Rightarrow> p)
     in \<lparr>pol_channel = c, pol_depth = e, pol_explicit = (own_policy m n \<noteq> None), pol_pinned = held m n\<rparr>)"

lemma srcpolicy_get_view:
  assumes "policy_wf st"
  shows "srcpolicy_get st (Some n) = view_get (policy_view st) n"
proof (cases "policy_find (sp_entries st) (Some n)")
  case None
  then show ?thesis
    using assms by (simp add: srcpolicy_get_def srcpolicy_default_get_def view_get_def policy_view_def policy_map_def own_policy_def held_def policy_wf_def)
next
  case (Some i)
  have "entry_ok (sp_entries st ! i)" using policies.find_SomeD [OF Some] assms by (simp add: policy_wf_def)
  then show ?thesis
    using assms Some by (simp add: srcpolicy_get_def srcpolicy_default_get_def view_get_def policy_view_def policy_map_def own_policy_def
        held_def policy_wf_def entry_facts_def entry_ok_def Let_def)
qed

text \<open>
  C21. Holding a package, or lifting the hold, changes nothing but the hold: not the channel and depth the
  package runs under, not whether they are its own, and nothing of any other package.
\<close>

theorem hold_changes_only_the_hold:
  assumes "policy_reach path st fs" "length path < 512" "is_c_str nm" "length nm < PKG_NAME_MAX"
    "srcpolicy_set_pinned env st (Some nm) b n fs = Some (st', v, 0, err)"
  shows "srcpolicy_get st' (Some k) =
    (if k = nm then (srcpolicy_get st (Some k))\<lparr>pol_pinned := b\<rparr> else srcpolicy_get st (Some k))"
proof -
  have inv: "policy_inv path st fs" by (rule policy_reach_inv [OF assms(1,2)])
  have fits: "request_fits (SetPinned (Some nm) b)" using assms(3,4) by simp
  have step: "policy_step env n (SetPinned (Some nm) b) st fs = Some (st', v, 0, err)" using assms(5) by simp
  note S = step_cases [OF inv fits step]
  have wf: "policy_wf st" "policy_wf st'" using inv S(1) by (simp_all add: policy_inv_def)
  obtain d m where v: "policy_view st = (d, m)" by (cases "policy_view st")
  have "policy_view st' = (d, put_facts nm (own_policy m nm, b) m)" using S(2) v by simp
  then show ?thesis
    unfolding srcpolicy_get_view [OF wf(1)] srcpolicy_get_view [OF wf(2)] v
    by (cases "own_policy m k") (auto simp: view_get_def put_facts_def own_policy_def held_def Let_def split: prod.split)
qed

definition channel_fits :: "srcupstream_kind \<Rightarrow> string \<Rightarrow> bool" where
  "channel_fits k c = (case su_channels k of None \<Rightarrow> c = [] | Some cs \<Rightarrow> c \<noteq> [] \<and> c \<in> set cs)"

lemma check_channel_iff: "fst (srcupstream_check_channel (Some k) (Some c) n) = SRCUPSTREAM_OK \<longleftrightarrow> channel_fits k c"
  by (auto simp: srcupstream_check_channel_def channel_fits_def Let_def split: option.split)

lemma runs_under_valid_depth: "policy_wf st \<Longrightarrow> depth_valid (pol_depth (srcpolicy_get st (Some n)))"
proof -
  assume wf: "policy_wf st"
  have own: "depth_valid e" if own: "own_policy (policy_map (sp_entries st)) n = Some (c, e)" for c e
  proof -
    obtain i where i: "policy_find (sp_entries st) (Some n) = Some i" "entry_facts (sp_entries st ! i) = (Some (c, e), snd (entry_facts (sp_entries st ! i)))"
      using own by (auto simp: own_policy_def policy_map_def split: option.splits) (metis prod.collapse)
    then show ?thesis
      using policies.find_SomeD [OF i(1)] wf by (auto simp: policy_wf_def entry_ok_def entry_facts_def split: if_splits)
  qed
  show ?thesis
    using wf own unfolding srcpolicy_get_view [OF wf]
    by (auto simp: view_get_def policy_view_def policy_wf_def Let_def split: option.split prod.split)
qed

text \<open>
  C22. Whether a package can roll: it declares a known kind, and the channel it runs under fits that
  kind.  A default channel the kind does not publish is dropped, never an error of its own; a
  channel of the package's own that the kind does not publish is.  The channel that comes out is one the
  kind publishes, or empty for a kind without channels.
\<close>

theorem effective_policy:
  assumes "policy_reach path st fs" "length path < 512" "srcpolicy_effective_for_kind st name kind n = (p, rc, err)"
  shows "(rc = 0 \<longleftrightarrow> (\<exists>k. srcupstream_find kind = Some k \<and>
      (channel_fits k (pol_channel (srcpolicy_get st (Some name))) \<or>
       \<not> pol_explicit (srcpolicy_get st (Some name)) \<and> su_channels k = None))) \<and>
    (rc = 0 \<longrightarrow> (\<exists>k. srcupstream_find kind = Some k \<and> channel_fits k (pol_channel p) \<and>
      pol_channel p \<in> {pol_channel (srcpolicy_get st (Some name)), []} \<and> pol_depth p = pol_depth (srcpolicy_get st (Some name))))"
proof -
  define g where "g = srcpolicy_get st (Some name)"
  have wf: "policy_wf st" using policy_reach_inv [OF assms(1,2)] by (simp add: policy_inv_def)
  have d: "depth_valid (pol_depth g)" unfolding g_def by (rule runs_under_valid_depth [OF wf])
  have none: "srcupstream_find None = None" "srcupstream_find (Some []) = None" by (simp_all add: srcupstream_find_def)
  show ?thesis
  proof (cases "srcupstream_find kind")
    case None
    then show ?thesis using assms(3) by (auto simp: srcpolicy_effective_for_kind_def Let_def split: if_splits)
  next
    case (Some k)
    then have kind: "kind \<noteq> None" "kind \<noteq> Some []" using none by (metis option.distinct(1))+
    define p' where "p' = (if \<not> pol_explicit g \<and> pol_channel g \<noteq> [] \<and> \<not> channel_fits k (pol_channel g) then g\<lparr>pol_channel := []\<rparr> else g)"
    have p: "p = p'" "rc = 0 \<longleftrightarrow> channel_fits k (pol_channel p')" "pol_depth p' = pol_depth g"
      using assms(3) kind Some d check_channel_iff [of k "pol_channel p'" n]
      by (auto simp: srcpolicy_effective_for_kind_def Let_def check_channel_iff case_prod_beta g_def [symmetric] p'_def [symmetric] split: if_splits)
        (auto simp: p'_def split: if_splits)
    have "channel_fits k [] \<longleftrightarrow> su_channels k = None" "channel_fits k (pol_channel g) \<Longrightarrow> p' = g"
      by (auto simp: channel_fits_def p'_def split: option.split)
    then show ?thesis
      using Some p unfolding g_def [symmetric] by (auto simp: p'_def channel_fits_def split: if_splits option.splits)
  qed
qed

section \<open>A store\<close>

definition first_policies :: srcpolicy_state where
  "first_policies = srcpolicy_init healthy_read ''/p'' Map.empty"

lemma first_policies_reach: "policy_reach ''/p'' first_policies Map.empty"
  unfolding first_policies_def by (rule first_start) simp

lemma find_index_replicate: "0 < n \<Longrightarrow> find_index p (replicate n x) = (if p x then Some 0 else None)"
  by (induction n) (auto simp: find_index_None)

lemma first_policies_eq:
  "first_policies = \<lparr>sp_entries = replicate SRCPOLICY_MAX no_entry, sp_default_channel = [], sp_default_depth = ''n'', sp_path = ''/p''\<rparr>"
  by (simp add: first_policies_def srcpolicy_init_def SRCPOLICY_DEPTH_MAX_def SRCPOLICY_DEFAULT_DEPTH_def)

lemma first_claim:
  "claim_slot (sp_entries first_policies) nm = Some (0, no_entry\<lparr>se_name := snprintf_s PKG_NAME_MAX nm, se_in_use := True\<rparr>)"
  by (simp add: first_policies_eq claim_slot_def policy_find_def find_index_replicate SRCPOLICY_MAX_def no_entry_def)

lemma saved_healthy:
  assumes "length (sp_path s) < PATH_MAX"
  shows "\<exists>f v. policy_saved (healthy_write (render (policy_tree s))) s fs = Some (s, f # v, 0, [])"
  using healthy_write_succeeds [OF assms, of "render (policy_tree s)" fs] policy_document_text [of s]
  by (auto simp: policy_saved_def srcpolicy_save_state_def)

definition held_gcc :: srcpolicy_state where
  "held_gcc = first_policies\<lparr>sp_entries := (sp_entries first_policies)[0 := no_entry\<lparr>se_name := ''gcc'', se_in_use := True, se_pinned := True\<rparr>]\<rparr>"

lemma hold_gcc:
  "\<exists>f v. srcpolicy_set_pinned (healthy_write (render (policy_tree held_gcc))) first_policies (Some ''gcc'') True 64 Map.empty =
     Some (held_gcc, f # v, 0, [])"
proof -
  have "srcpolicy_set_pinned env first_policies (Some ''gcc'') True 64 fs = policy_saved env held_gcc fs" for env fs
    by (simp add: srcpolicy_set_pinned_def first_claim held_gcc_def PKG_NAME_MAX_def no_entry_def)
  then show ?thesis using saved_healthy [of held_gcc] by (simp add: held_gcc_def first_policies_eq PATH_MAX_def)
qed

theorem hold_changes_only_the_hold_witness:
  "srcpolicy_get held_gcc (Some ''gcc'') = (srcpolicy_get first_policies (Some ''gcc''))\<lparr>pol_pinned := True\<rparr>"
proof -
  obtain f v where "srcpolicy_set_pinned (healthy_write (render (policy_tree held_gcc))) first_policies (Some ''gcc'') True 64 Map.empty =
     Some (held_gcc, f # v, 0, [])" using hold_gcc by blast
  from hold_changes_only_the_hold [OF first_policies_reach _ _ _ this, of "''gcc''"] show ?thesis
    by (simp add: NUL_def PKG_NAME_MAX_def)
qed

theorem policies_survive_restart_witness:
  "\<exists>f. policy_view (srcpolicy_init healthy_read ''/p'' f) = policy_view held_gcc"
proof -
  obtain f v where step: "policy_step (healthy_write (render (policy_tree held_gcc))) 64 (SetPinned (Some ''gcc'') True) first_policies Map.empty =
     Some (held_gcc, f # v, 0, [])" using hold_gcc by auto
  have "held_gcc \<noteq> first_policies"
  proof
    assume "held_gcc = first_policies"
    then have "sp_entries held_gcc ! 0 = sp_entries first_policies ! 0" by simp
    then show False by (simp add: held_gcc_def first_policies_eq SRCPOLICY_MAX_def no_entry_def)
  qed
  with policies_survive_restart [OF first_policies_reach _ _ step] show ?thesis by (auto simp: NUL_def PKG_NAME_MAX_def)
qed

theorem policies_refine_map_witness:
  "\<exists>f v. policy_step (healthy_write (render (policy_tree held_gcc))) 64 (SetPinned (Some ''gcc'') True) first_policies Map.empty =
     Some (held_gcc, f # v, 0, []) \<and> policy_wf held_gcc \<and>
     policy_view held_gcc = view_step (SetPinned (Some ''gcc'') True) (policy_view first_policies)"
proof -
  obtain f v where step: "policy_step (healthy_write (render (policy_tree held_gcc))) 64 (SetPinned (Some ''gcc'') True) first_policies Map.empty =
     Some (held_gcc, f # v, 0, [])" using hold_gcc by auto
  have "request_fits (SetPinned (Some ''gcc'') True)" by (simp add: NUL_def PKG_NAME_MAX_def)
  from policies_refine_map [OF first_policies_reach _ this, of "healthy_write (render (policy_tree held_gcc))" 64] step show ?thesis by auto
qed

theorem effective_policy_witness:
  "fst (snd (srcpolicy_effective_for_kind first_policies ''gcc'' (Some ''gitea-tags'') 64)) = 0"
proof -
  obtain p rc err where e: "srcpolicy_effective_for_kind first_policies ''gcc'' (Some ''gitea-tags'') 64 = (p, rc, err)"
    by (metis prod_cases3)
  have "\<not> pol_explicit (srcpolicy_get first_policies (Some ''gcc''))"
    by (simp add: first_policies_eq srcpolicy_get_def policy_find_def find_index_replicate SRCPOLICY_MAX_def no_entry_def srcpolicy_default_get_def)
  moreover have "\<exists>k. srcupstream_find (Some ''gitea-tags'') = Some k \<and> su_channels k = None" by (simp add: srcupstream_find_def KINDS_def)
  ultimately show ?thesis using effective_policy [OF first_policies_reach _ e] e by auto
qed

text \<open>
  C23. A depth is checked before it is cut to the size of its field.  A longer spelling of one line back
  is accepted and stored as no line back at all: the package silently moves to the newest line.
\<close>

theorem long_depth_changes_meaning:
  "\<exists>st f v. srcpolicy_set (healthy_write (render (policy_tree st))) first_policies (Some ''linux'') (Some ''kernel.org'') (Some ''longterm'')
       (Some ''n-00000000000001'') 64 Map.empty = Some (st, f # v, 0, []) \<and>
     srcdepth_parse (Some ''n-00000000000001'') = Inr (1, 0) \<and>
     srcdepth_parse (Some (pol_depth (srcpolicy_get st (Some ''linux'')))) = Inr (0, 0)"
proof -
  let ?e = "no_entry\<lparr>se_name := ''linux'', se_in_use := True, se_has_policy := True, se_channel := ''longterm'', se_depth := ''n-0000000000000''\<rparr>"
  let ?st = "first_policies\<lparr>sp_entries := (sp_entries first_policies)[0 := ?e]\<rparr>"
  have parse: "srcdepth_parse (Some ''n-00000000000001'') = Inr (1, 0)" "srcdepth_parse (Some ''n-0000000000000'') = Inr (0, 0)"
    by (simp_all add: srcdepth_parse_def read_uint_def is_digit_def digit_val_def)
  have "fst (srcupstream_check (Some ''kernel.org'') (Some ''longterm'') 64) = SRCUPSTREAM_OK"
    by (simp add: srcupstream_check_def srcupstream_find_def KINDS_def check_channel_iff channel_fits_def KORG_CHANNELS_def)
  then have "srcpolicy_set env first_policies (Some ''linux'') (Some ''kernel.org'') (Some ''longterm'') (Some ''n-00000000000001'') 64 fs =
      policy_saved env ?st fs" for env fs
    using parse(1) by (simp add: srcpolicy_set_def given_depth_def depth_valid_def first_claim PKG_NAME_MAX_def SRCPOLICY_CHANNEL_MAX_def
        SRCPOLICY_DEPTH_MAX_def snprintf_s_def no_entry_def Let_def)
  moreover obtain f v where "policy_saved (healthy_write (render (policy_tree ?st))) ?st Map.empty = Some (?st, f # v, 0, [])"
    using saved_healthy [of ?st Map.empty] by (auto simp: first_policies_eq PATH_MAX_def)
  moreover have "pol_depth (srcpolicy_get ?st (Some ''linux'')) = ''n-0000000000000''"
  proof -
    obtain n where n: "SRCPOLICY_MAX = Suc n" by (simp add: SRCPOLICY_MAX_def)
    show ?thesis by (simp add: first_policies_eq n srcpolicy_get_def policy_find_def no_entry_def Let_def SRCPOLICY_DEPTH_MAX_def)
  qed
  ultimately show ?thesis using parse by (intro exI [of _ ?st] exI [of _ f] exI [of _ v]) simp
qed

end
