(* ===== verification/Spec2Isabelle.thy ===== *)
theory Spec2Isabelle
  imports Json_Props Conn_Throttle Subid Web_Socket Http Network_Props Scheduler_Props Init_Props
    Api_Route Json_Diff_Props Dhcp_Props Src_Policy_Props
begin

text \<open>
  A verification development of the control plane of Cix: the daemon \<open>cixd\<close> (\<open>daemon/src\<close>), which
  keeps the state of a host and answers its API, and \<open>cix-init\<close> (\<open>init/src/cix_init.c\<close>), the first
  process of every container it starts.

  \<^bold>\<open>The program.\<close>  Clients reach the daemon over HTTP (\<open>http.c\<close>) and WebSocket (\<open>websocket.c\<close>); sources
  that fail too often are held off (\<open>connthrottle.c\<close>), a request is matched to its operation by
  \<open>apiroute.c\<close>, and an uploaded configuration is compared with the live one by \<open>jsondiff.c\<close>.  Requests, answers and state files are JSON
  (\<open>json.c\<close>); a store saves itself whole through \<open>persist.c\<close> and reads itself back at the next start.
  The stores modelled here are the subordinate id ranges (\<open>subid.c\<close>), the networks (\<open>network.c\<close>, which
  asks \<open>registry.c\<close> for the addresses containers use), the DHCP ranges (\<open>dhcp.c\<close>), the scheduled jobs (\<open>scheduler.c\<close>)
  and the source policies (\<open>srcpolicy.c\<close>), which say how far behind its upstream a package stays: the
  feeds of \<open>kernelpolicy.c\<close> and \<open>srcgitea.c\<close> list releases, \<open>srcupstream.c\<close> knows their channels,
  and \<open>srcdepth.c\<close> picks one.  A container that declares
  services gets them as a table (\<open>cixinit_table.c\<close>) sent to its first process, which starts, probes,
  restarts and stops them in dependency order and reports every change; \<open>registry.c\<close> keeps the
  picture that the reports give.

  \<^bold>\<open>The theories, in import order.\<close>  Each definition has the name of the C function or type it
  translates; helper definitions are loop bodies or branches of one.

    \<^item> \<open>Cix_Prelude\<close>: C strings as character lists up to the first NUL, bounded copies (\<open>snprintf\<close>),
      decimal numbers, resource names (\<open>namecheck.h\<close>), option and list lemmas; \<open>Cix_Double\<close>: the
      part of \<open>double\<close> the program uses, as exact rationals with two infinities.  The locale
      \<open>keyed_table\<close> has the laws of a table with one entry for each key.
    \<^item> \<open>Json_Parse\<close>, \<open>Json_Write\<close>, \<open>Json_Roundtrip\<close>, \<open>Json_Props\<close>: the parser and the writer of
      \<open>json.c\<close>.  The writer keeps its stack of sixteen levels; a write beyond it is \<open>None\<close>.  Shown: what is
      written is read back, parsing gives typed trees, and exactly which trees can be written.
      \<open>Json_Compose\<close> holds the laws other theories use to compose writer calls.
    \<^item> \<open>Persist\<close>: \<open>persist.c\<close> over a map from paths to contents, with the outcome of each system call
      a parameter; the states a crash may leave are the list of states of a write.  The locale
      \<open>durable_store\<close> gives every store its reload law, and \<open>config_store\<close> extends it to
      configurations.
    \<^item> \<open>Conn_Throttle\<close>, \<open>Subid\<close>, \<open>Web_Socket\<close>, \<open>Http\<close>: one theory each, with the state as a
      record, its invariant, and the behaviour of each operation on every branch.  Receiving is
      proved for every way the bytes may be cut into reads.
    \<^item> \<open>Net_Addr\<close>, \<open>Registry_Addr\<close>, \<open>Network\<close>, \<open>Network_Props\<close>: addresses as 32-bit words, the
      questions asked of the registry (the locale \<open>address_pool\<close>), and the networks with the netlink calls they make.  Shown: in every
      reachable state networks are apart, creation is all or nothing, deletion spares what is in use,
      and a restart reloads what was saved.
    \<^item> \<open>Scheduler\<close>, \<open>Scheduler_Facts\<close>, \<open>Scheduler_Props\<close>: jobs, their slots, the tick that runs what
      is due, and persistence.  \<open>localtime_r\<close> and \<open>mktime\<close> are parameters.  Shown: what one tick runs and
      what each job records, when a time of day counts as passed (in a zone with a fixed offset), and what a
      restart reads back.
    \<^item> \<open>Init_Table\<close>, \<open>Init_Order\<close>: the table of \<open>cixinit_table.c\<close>; its order is a topological order of
      the declared dependencies, found unless they have a cycle.
    \<^item> \<open>Cix_Init\<close>: \<open>cix_init.c\<close>.  The record \<open>cix_init\<close> is its global state, \<open>turn\<close> the body of the
      loop of \<open>cix_main\<close>, \<open>turn_env\<close> what the kernel answers during one turn, \<open>g_calls\<close> the log of
      what the process did.  \<open>Init_Wire\<close>: the packed form of commands, and that every table the daemon
      builds is accepted.  \<open>Init_Reports\<close>: the ring of reports, an instance of the locale \<open>lossy_queue\<close>.
    \<^item> \<open>Init_Machine\<close>: what the supervisor promises, as the step relation \<open>sup_step\<close> with phases and
      reports, its invariant and what each phase keeps; the locale \<open>ordered_services\<close> has the argument that
      stopping dependents first never blocks.  \<open>Init_Sim\<close>: every operation of \<open>cix_init.c\<close>, and so
      every turn, is a run of that machine.  \<open>Init_Live\<close>: a shutdown ends.
    \<^item> \<open>Registry_Services\<close>, \<open>Init_Mirror\<close>: the services in \<open>registry.c\<close>, and that applying the reports of a
      run keeps them a picture of the services.  \<open>Init_Props\<close>: the properties of the supervisor.

    \<^item> \<open>Api_Route\<close>: the matcher of \<open>apiroute.c\<close> over any table of rows, path parameters and the
      query string.  Shown: which row answers, ties included, that parameters are safe to hand on however a client
      escapes them, and that a handler reads declared parameters only.
    \<^item> \<open>Json_Diff\<close>, \<open>Json_Diff_Props\<close>: the diff of \<open>jsondiff.c\<close> that decides what a configuration upload
      changes.  Its specification is \<open>denote\<close>, the document a tree stands for; the bounded change list
      is a prefix of a plain list of differences, which is empty exactly for equal documents.

    \<^item> \<open>Dhcp\<close>, \<open>Dhcp_Props\<close>: the DHCP store of \<open>dhcp.c\<close> with the files it renders for its servers.
      Shown, with the files read back: no address is handed out by two servers and none of a range is
      lost; the tables stay sound and survive a restart; and which servers a synchronisation restarts.

    \<^item> \<open>Src_Depth\<close>: depth expressions, upstream versions, and the choice of a release by a bubble
      sort and a table of lines, against a reference on sets; the locale \<open>version_order\<close> is what a
      comparison of versions promises.  \<open>Pkg_Version\<close>: the comparison of recipe versions, a second
      instance of that locale.  \<open>Src_Feed\<close>: the cached releases and tags and the table of discovery
      kinds.  \<open>Src_Policy\<close>, \<open>Src_Policy_Props\<close>: the policies and holds of packages as a refinement of a map,
      their restart, and the policy a package runs under.

  \<^bold>\<open>State and errors.\<close>  A module's static variables are a record that its operations take and
  return; a table with an \<open>in_use\<close> flag is a list of slots, or the list of its first \<open>count\<close>
  entries where the code keeps it packed.  A refused request is \<open>None\<close> or a value of the module's error
  enumeration; an access outside an array is \<open>None\<close>, and theorems show when it cannot happen.
  System calls, the clock, the time zone and library functions (SHA-1, base64) are arguments.

  \<^bold>\<open>Integers.\<close>  Addresses, masks and shifted lengths are words of their width.  Counters and times
  are \<open>int\<close> or \<open>nat\<close>: failure counts, restart counts and milliseconds since boot do not reach the
  bounds of their C types in the life of a process.

  \<^bold>\<open>Loops.\<close>  Loops over tables and buffers are structural recursion or have a measure: the
  ordering loop of the table the number of services not placed, the scan of a packed command the
  bytes left.  The endless loop of \<open>cix_main\<close> is \<open>run_turns\<close>, the state after \<open>n\<close> turns, so that it
  ends is a statement about some \<open>n\<close>, and that it does not is one about all of them.

  \<^bold>\<open>What is asked of the environment.\<close>  In the parent \<open>fork\<close> never returns 0.  For the end of a
  shutdown (\<open>attended\<close>): no command arrives, the clock passes every time and never shows zero, and a
  process that was sent signal 9 is returned by some later \<open>wait4\<close>; process ids of live children
  are distinct.  For the times of day of jobs (\<open>fixed_zone\<close>): \<open>localtime_r\<close> and \<open>mktime\<close> of a zone
  that keeps its offset to UTC.  Each of these has an instance in the witness of the property that assumes it.

  \<^bold>\<open>Not modelled.\<close>  The request handlers and the reactor of \<open>main.c\<close> but for the loops that drive
  the modelled parsers; the package manager (\<open>pkg.c\<close>) but for its comparison
  of versions, the catalogue of \<open>srcresolve.c\<close> and source provenance; images, volumes and
  disks; the container runtime under \<open>src/\<close>, whose effect is kernel state; device inventory, DNS
  and NTP stores; directory server, accounts and certificates but for the uid checks that the id ranges
  use; logs, handover and boot; the command-line client, the installer and the build tools.  In
  \<open>cix_init.c\<close>: the bounded wait for interfaces before the first report, the process title and the
  messages on standard error.  Memory allocation succeeds everywhere, and texts of error messages
  are left out but for those of the source policies.
\<close>

end
